(* ===== verification/Prelude.thy ===== *)
theory Prelude
  imports Main "HOL-Library.Word" "HOL-Library.Monad_Syntax"
begin

text \<open>
  The vocabulary shared by every component of the runtime's model.

  \<^item> C integers keep their width: \<open>u8\<close>, \<open>u16\<close>, \<open>u32\<close> are machine words whose arithmetic
    wraps. A position in a byte buffer (a C pointer into it, on a 64-bit host) is a \<open>nat\<close>.
  \<^item> A computation that may touch memory has type \<open>'a option\<close>: \<open>None\<close> is undefined
    behaviour (a read or write outside the object, a copy between overlapping regions). It
    is sequenced by the do notation of \<open>Monad_Syntax\<close>.
  \<^item> A function that returns an error code has type \<open>('e + 'a) option\<close>: \<open>Inl e\<close> is the
    early return of \<open>e\<close>, \<open>Inr a\<close> the successful result.
  \<^item> \<open>wp m P\<close> says that \<open>m\<close> has no undefined behaviour and its result satisfies \<open>P\<close>.
    The collection \<open>wp_rules\<close> holds the equations that push \<open>wp\<close> through the do notation.
\<close>

type_synonym u8 = "8 word"
type_synonym u16 = "16 word"
type_synonym u32 = "32 word"
type_synonym u64 = "64 word"
type_synonym bytes = "u8 list"

named_theorems wp_rules \<open>weakest preconditions of the memory operations\<close>
named_theorems word_conv \<open>reading widened words as naturals\<close>

abbreviation U32_MAX :: u32 where "U32_MAX \<equiv> 0xFFFFFFFF"

section \<open>Words read as naturals\<close>

lemma unat_ucast_u16_u32 [simp, word_conv]: "unat (ucast (x :: u16) :: u32) = unat x"
  by (simp add: unsigned_ucast_eq take_bit_nat_eq_self unsigned_less [THEN order.strict_trans2])

lemma unat_ucast_u8_u32 [simp, word_conv]: "unat (ucast (x :: u8) :: u32) = unat x"
  by (simp add: unsigned_ucast_eq take_bit_nat_eq_self unsigned_less [THEN order.strict_trans2])

lemma unat_ucast_u8_u16 [simp, word_conv]: "unat (ucast (x :: u8) :: u16) = unat x"
  by (simp add: unsigned_ucast_eq take_bit_nat_eq_self unsigned_less [THEN order.strict_trans2])

lemma unat_u8_less: "unat (x :: u8) < 256"
  using unsigned_less [of x] by simp

lemma unat_u16_less: "unat (x :: u16) < 65536"
  using unsigned_less [of x] by simp

lemma unat_u32_less: "unat (x :: u32) < 4294967296"
  using unsigned_less [of x] by simp

lemma unat_add_u32:
  "unat a + unat b < 4294967296 \<Longrightarrow> unat ((a :: u32) + b) = unat a + unat b"
  using unat_add_lem [of a b] by simp

lemma unat_mult_u32:
  "unat a * unat b < 4294967296 \<Longrightarrow> unat ((a :: u32) * b) = unat a * unat b"
  using unat_mult_lem [of a b] by simp

lemma word_unat_eqI: "unat a = unat b \<Longrightarrow> (a :: 'a::len word) = b"
  by (simp add: word_unat_eq_iff)

lemma unat_of_nat_u8 [word_conv]: "n < 256 \<Longrightarrow> unat (word_of_nat n :: u8) = n"
  by (simp add: unat_of_nat)

lemma unat_of_nat_u16 [word_conv]: "n < 65536 \<Longrightarrow> unat (word_of_nat n :: u16) = n"
  by (simp add: unat_of_nat)

lemma unat_of_nat_u32 [word_conv]: "n < 4294967296 \<Longrightarrow> unat (word_of_nat n :: u32) = n"
  by (simp add: unat_of_nat)

lemma sint_of_nat_u32: "n < 2147483648 \<Longrightarrow> sint (word_of_nat n :: u32) = int n"
  by (simp only: signed_of_nat) (simp add: signed_take_bit_int_eq_self)

text \<open>Unsigned division, undefined for a zero divisor as in C.\<close>

definition udiv32 :: "u32 \<Rightarrow> u32 \<Rightarrow> u32 option" where
  "udiv32 a b = (if b = 0 then None else Some (a div b))"

section \<open>Weakest preconditions\<close>

definition wp :: "'a option \<Rightarrow> ('a \<Rightarrow> bool) \<Rightarrow> bool" where
  "wp m P = (case m of None \<Rightarrow> False | Some x \<Rightarrow> P x)"

lemma wp_Some [simp, wp_rules]: "wp (Some x) P = P x"
  by (simp add: wp_def)

lemma wp_None [simp, wp_rules]: "wp None P = False"
  by (simp add: wp_def)

lemma wp_bind [simp, wp_rules]: "wp (Option.bind m f) P = wp m (\<lambda>x. wp (f x) P)"
  by (cases m) simp_all

lemma wp_if [wp_rules]: "wp (if c then a else b) P = ((c \<longrightarrow> wp a P) \<and> (\<not> c \<longrightarrow> wp b P))"
  by simp

lemma wp_mono: "wp m P \<Longrightarrow> (\<And>x. m = Some x \<Longrightarrow> P x \<Longrightarrow> Q x) \<Longrightarrow> wp m Q"
  by (cases m) simp_all

lemma wp_conj: "wp m P \<Longrightarrow> wp m Q \<Longrightarrow> wp m (\<lambda>x. P x \<and> Q x)"
  by (cases m) simp_all

lemma wpD: "wp m P \<Longrightarrow> \<exists>x. m = Some x \<and> P x"
  by (cases m) simp_all

lemma wp_SomeD: "wp m P \<Longrightarrow> m = Some x \<Longrightarrow> P x"
  by simp

lemma wp_True: "wp m (\<lambda>_. True) = (m \<noteq> None)"
  by (cases m) simp_all

text \<open>\<open>ok P\<close> constrains a successful result and leaves an error return free.\<close>

definition ok :: "('a \<Rightarrow> bool) \<Rightarrow> 'e + 'a \<Rightarrow> bool" where
  "ok P r = (case r of Inl _ \<Rightarrow> True | Inr a \<Rightarrow> P a)"

lemma ok_Inl [simp]: "ok P (Inl e)"
  by (simp add: ok_def)

lemma ok_Inr [simp]: "ok P (Inr a) = P a"
  by (simp add: ok_def)

lemma ok_mono: "ok P r \<Longrightarrow> (\<And>a. r = Inr a \<Longrightarrow> P a \<Longrightarrow> Q a) \<Longrightarrow> ok Q r"
  by (cases r) simp_all

text \<open>\<open>yields P\<close> also excludes an error return, and \<open>exactly e c P\<close> says that the error is \<open>e\<close> and
  occurs exactly when the condition \<open>c\<close> fails.\<close>

definition yields :: "('a \<Rightarrow> bool) \<Rightarrow> 'e + 'a \<Rightarrow> bool" where
  "yields P r = (case r of Inl _ \<Rightarrow> False | Inr a \<Rightarrow> P a)"

definition exactly :: "'e \<Rightarrow> bool \<Rightarrow> ('a \<Rightarrow> bool) \<Rightarrow> 'e + 'a \<Rightarrow> bool" where
  "exactly e c P r = (case r of Inl e' \<Rightarrow> e' = e \<and> \<not> c | Inr a \<Rightarrow> c \<and> P a)"

lemma yields_simps [simp]: "yields P (Inl e) = False" "yields P (Inr a) = P a"
  by (simp_all add: yields_def)

lemma exactly_simps [simp]:
  "exactly e c P (Inl e') = (e' = e \<and> \<not> c)" "exactly e c P (Inr a) = (c \<and> P a)"
  by (simp_all add: exactly_def)

lemma yields_mono: "yields P r \<Longrightarrow> (\<And>a. r = Inr a \<Longrightarrow> P a \<Longrightarrow> Q a) \<Longrightarrow> yields Q r"
  by (cases r) simp_all

lemma yields_ok: "yields P r \<Longrightarrow> ok P r"
  by (cases r) simp_all

lemma exactly_ok: "exactly e c P r \<Longrightarrow> ok P r"
  by (cases r) simp_all

lemma exactly_mono: "exactly e c P r \<Longrightarrow> (\<And>a. r = Inr a \<Longrightarrow> c \<Longrightarrow> P a \<Longrightarrow> Q a) \<Longrightarrow> exactly e c Q r"
  by (cases r) simp_all

text \<open>\<open>andthen r f\<close> is the C idiom \<open>if (error != OK) return error;\<close> after a call.\<close>

definition andthen :: "('e + 'a) option \<Rightarrow> ('a \<Rightarrow> ('e + 'b) option) \<Rightarrow> ('e + 'b) option" where
  "andthen m f = do { r \<leftarrow> m; (case r of Inl e \<Rightarrow> Some (Inl e) | Inr a \<Rightarrow> f a) }"

lemma andthen_simps [simp]:
  "andthen None f = None"
  "andthen (Some (Inl e)) f = Some (Inl e)"
  "andthen (Some (Inr a)) f = f a"
  by (simp_all add: andthen_def)

lemma wp_andthen:
  assumes "wp m (ok P)" and "\<And>a. m = Some (Inr a) \<Longrightarrow> P a \<Longrightarrow> wp (f a) (ok Q)"
  shows "wp (andthen m f) (ok Q)"
  using assms by (cases m) (auto simp: ok_def split: sum.splits)

lemma wp_andthen_yields:
  assumes "wp m (yields P)" and "\<And>a. m = Some (Inr a) \<Longrightarrow> P a \<Longrightarrow> wp (f a) Q"
  shows "wp (andthen m f) Q"
  using assms by (cases m) (auto simp: yields_def split: sum.splits)

lemma wp_andthen_exactly:
  assumes "wp m (exactly e c P)" and "\<And>a. c \<Longrightarrow> P a \<Longrightarrow> wp (f a) (exactly e d Q)" and "d \<Longrightarrow> c"
  shows "wp (andthen m f) (exactly e d Q)"
  using assms by (cases m) (auto simp: exactly_def split: sum.splits)

lemma andthen_Inr:
  "andthen m f = Some (Inr b) \<longleftrightarrow> (\<exists>a. m = Some (Inr a) \<and> f a = Some (Inr b))"
  by (cases m) (auto simp: andthen_def split: sum.splits)

text \<open>The two ways a C function returns.\<close>

abbreviation fail :: "'e \<Rightarrow> ('e + 'a) option" where "fail e \<equiv> Some (Inl e)"
abbreviation ret :: "'a \<Rightarrow> ('e + 'a) option" where "ret a \<equiv> Some (Inr a)"

section \<open>Signed 32-bit arithmetic\<close>

text \<open>\<open>i32 v\<close> is the result of an \<open>int32_t\<close> operation with mathematical value \<open>v\<close>: overflow is
  undefined. A cast \<open>(uint32_t)v\<close> is \<open>word_of_int v\<close>.\<close>

definition i32 :: "int \<Rightarrow> int option" where
  "i32 v = (if -2147483648 \<le> v \<and> v < 2147483648 then Some v else None)"

lemma wp_i32 [wp_rules]: "wp (i32 v) P = (-2147483648 \<le> v \<and> v < 2147483648 \<and> P v)"
  by (auto simp: i32_def)

lemma i32_Some [simp]: "i32 v = Some w \<longleftrightarrow> w = v \<and> -2147483648 \<le> v \<and> v < 2147483648"
  by (auto simp: i32_def)

lemma unat_of_int_u32: "0 \<le> v \<Longrightarrow> v < 4294967296 \<Longrightarrow> unat (word_of_int v :: u32) = nat v"
  by (simp add: unsigned_of_int take_bit_int_eq_self)

section \<open>Checked array access\<close>

definition arr_get :: "'a list \<Rightarrow> nat \<Rightarrow> 'a option" where
  "arr_get xs i = (if i < length xs then Some (xs ! i) else None)"

definition arr_set :: "'a list \<Rightarrow> nat \<Rightarrow> 'a \<Rightarrow> 'a list option" where
  "arr_set xs i v = (if i < length xs then Some (xs[i := v]) else None)"

lemma wp_arr_get [wp_rules]: "wp (arr_get xs i) P = (i < length xs \<and> P (xs ! i))"
  by (simp add: arr_get_def)

lemma wp_arr_set [wp_rules]: "wp (arr_set xs i v) P = (i < length xs \<and> P (xs[i := v]))"
  by (simp add: arr_set_def)

lemma arr_get_Some [simp]: "arr_get xs i = Some x \<longleftrightarrow> i < length xs \<and> xs ! i = x"
  by (simp add: arr_get_def)

lemma arr_set_Some [simp]: "arr_set xs i v = Some ys \<longleftrightarrow> i < length xs \<and> ys = xs[i := v]"
  by (auto simp: arr_set_def)

text \<open>\<open>blit\<close> overwrites \<open>n\<close> elements of an array; \<open>copy_into\<close> is \<open>memcpy\<close> between two
  distinct objects, defined only inside both.\<close>

definition blit :: "'a list \<Rightarrow> nat \<Rightarrow> 'a list \<Rightarrow> nat \<Rightarrow> nat \<Rightarrow> 'a list" where
  "blit dst d src s n = take d dst @ take n (drop s src) @ drop (d + n) dst"

definition copy_into :: "'a list \<Rightarrow> nat \<Rightarrow> 'a list \<Rightarrow> nat \<Rightarrow> nat \<Rightarrow> 'a list option" where
  "copy_into dst d src s n =
     (if d + n \<le> length dst \<and> s + n \<le> length src then Some (blit dst d src s n) else None)"

lemma length_blit [simp]:
  "d + n \<le> length dst \<Longrightarrow> s + n \<le> length src \<Longrightarrow> length (blit dst d src s n) = length dst"
  by (simp add: blit_def)

lemma nth_blit:
  "d + n \<le> length dst \<Longrightarrow> s + n \<le> length src \<Longrightarrow> i < length dst \<Longrightarrow>
     blit dst d src s n ! i = (if d \<le> i \<and> i < d + n then src ! (s + (i - d)) else dst ! i)"
  by (auto simp: blit_def nth_append)

lemma wp_copy_into [wp_rules]:
  "wp (copy_into dst d src s n) P =
     (d + n \<le> length dst \<and> s + n \<le> length src \<and> P (blit dst d src s n))"
  by (auto simp: copy_into_def)

lemma copy_into_Some:
  "copy_into dst d src s n = Some r \<longleftrightarrow>
     d + n \<le> length dst \<and> s + n \<le> length src \<and> r = blit dst d src s n"
  by (auto simp: copy_into_def)

section \<open>Counted loops with early return\<close>

text \<open>\<open>for_range i n f s\<close> is \<open>for (; i < n; i++) { body }\<close> over a state \<open>s\<close>: the body
  may return an error (the function's early return) or the next state.\<close>

function for_range :: "nat \<Rightarrow> nat \<Rightarrow> (nat \<Rightarrow> 's \<Rightarrow> ('e + 's) option) \<Rightarrow> 's \<Rightarrow> ('e + 's) option" where
  "for_range i n f s =
     (if i < n then andthen (f i s) (\<lambda>s'. for_range (Suc i) n f s') else Some (Inr s))"
  by pat_completeness auto
termination
  by (relation "measure (\<lambda>(i, n, f, s). n - i)") auto

declare for_range.simps [simp del]

lemma for_range_done [simp]: "n \<le> i \<Longrightarrow> for_range i n f s = Some (Inr s)"
  by (subst for_range.simps) simp

lemma for_range_step:
  "i < n \<Longrightarrow> for_range i n f s = andthen (f i s) (\<lambda>s'. for_range (Suc i) n f s')"
  by (subst for_range.simps) simp

text \<open>The loop rule: an invariant indexed by the counter.\<close>

lemma wp_for_range:
  assumes "I i s" and "i \<le> n"
    and "\<And>k t. i \<le> k \<Longrightarrow> k < n \<Longrightarrow> I k t \<Longrightarrow> wp (f k t) (ok (I (Suc k)))"
  shows "wp (for_range i n f s) (ok (I n))"
  using assms
proof (induction i n f s rule: for_range.induct)
  case (1 i n f s)
  show ?case
  proof (cases "i < n")
    case True
    have body: "wp (f i s) (ok (I (Suc i)))"
      using "1.prems" True by blast
    show ?thesis
      unfolding for_range_step [OF True]
    proof (rule wp_andthen [OF body])
      fix s' assume "f i s = Some (Inr s')" and inv: "I (Suc i) s'"
      show "wp (for_range (Suc i) n f s') (ok (I n))"
        using "1.IH" [OF True, of s'] inv "1.prems"(3) True by auto
    qed
  next
    case False
    with "1.prems" show ?thesis by simp
  qed
qed

lemma wp_for_range_yields:
  assumes "I i s" and "i \<le> n"
    and "\<And>k t. i \<le> k \<Longrightarrow> k < n \<Longrightarrow> I k t \<Longrightarrow> wp (f k t) (yields (I (Suc k)))"
  shows "wp (for_range i n f s) (yields (I n))"
  using assms
proof (induction i n f s rule: for_range.induct)
  case (1 i n f s)
  show ?case
  proof (cases "i < n")
    case True
    have body: "wp (f i s) (yields (I (Suc i)))"
      using "1.prems" True by blast
    show ?thesis
      unfolding for_range_step [OF True]
      by (rule wp_andthen_yields [OF body]) (use "1.IH" [OF True] "1.prems"(3) True in auto)
  next
    case False
    with "1.prems" show ?thesis by simp
  qed
qed

text \<open>The general rule, with a postcondition \<open>E\<close> for the early return.\<close>

lemma wp_andthen_both:
  assumes "wp m (case_sum E P)" and "\<And>a. P a \<Longrightarrow> wp (f a) (case_sum E Q)"
  shows "wp (andthen m f) (case_sum E Q)"
  using assms by (cases m) (auto split: sum.splits)

lemma wp_for_range_both:
  assumes "I i s" and "i \<le> n"
    and "\<And>k t. i \<le> k \<Longrightarrow> k < n \<Longrightarrow> I k t \<Longrightarrow> wp (f k t) (case_sum E (I (Suc k)))"
  shows "wp (for_range i n f s) (case_sum E (I n))"
  using assms
proof (induction i n f s rule: for_range.induct)
  case (1 i n f s)
  show ?case
  proof (cases "i < n")
    case True
    have body: "wp (f i s) (case_sum E (I (Suc i)))"
      using "1.prems" True by blast
    show ?thesis
      unfolding for_range_step [OF True]
      by (rule wp_andthen_both [OF body]) (use "1.IH" [OF True] "1.prems"(3) True in auto)
  next
    case False
    with "1.prems" show ?thesis by simp
  qed
qed

text \<open>A counted loop over a state that never returns early: \<open>n\<close> rounds from \<open>i\<close> on.\<close>

fun loop :: "nat \<Rightarrow> nat \<Rightarrow> (nat \<Rightarrow> 's \<Rightarrow> 's option) \<Rightarrow> 's \<Rightarrow> 's option" where
  "loop i 0 f s = Some s"
| "loop i (Suc n) f s = do { s' \<leftarrow> f i s; loop (Suc i) n f s' }"

lemma loop_invariant:
  assumes "loop i n f s = Some t" and "I i s"
    and "\<And>k s s'. i \<le> k \<Longrightarrow> k < i + n \<Longrightarrow> I k s \<Longrightarrow> f k s = Some s' \<Longrightarrow> I (Suc k) s'"
  shows "I (i + n) t"
  using assms
proof (induction n arbitrary: i s)
  case (Suc n)
  from Suc.prems(1) obtain s' where s': "f i s = Some s'" "loop (Suc i) n f s' = Some t"
    by (auto simp: bind_eq_Some_conv)
  have "I (Suc i + n) t"
    by (rule Suc.IH [OF s'(2)]) (use Suc.prems s'(1) in auto)
  then show ?case by simp
qed simp

text \<open>A loop that only checks: it has no state, and succeeds only if every body did.\<close>

abbreviation for_check :: "nat \<Rightarrow> (nat \<Rightarrow> ('e + unit) option) \<Rightarrow> ('e + unit) option" where
  "for_check n f \<equiv> for_range 0 n (\<lambda>i _. f i) ()"

lemma wp_for_check:
  assumes "\<And>k. k < n \<Longrightarrow> wp (f k) (ok (\<lambda>_. P k))"
  shows "wp (for_check n f) (ok (\<lambda>_. \<forall>k < n. P k))"
proof -
  have "wp (for_check n f) (ok (\<lambda>_. \<forall>k < n. P k))"
    by (rule wp_for_range [where I = "\<lambda>m _. \<forall>k < m. P k"])
      (auto intro!: wp_mono [OF assms] elim!: ok_mono simp: less_Suc_eq)
  then show ?thesis .
qed

lemma wp_for_check_True:
  "(\<And>k. k < n \<Longrightarrow> wp (f k) (ok (\<lambda>_. True))) \<Longrightarrow> wp (for_check n f) (ok (\<lambda>_. True))"
  by (rule wp_mono [OF wp_for_check [where P = "\<lambda>_. True"]]) (auto elim: ok_mono)

text \<open>What a successful loop ends with, from an invariant of the rounds that succeeded.\<close>

lemma for_range_invariant:
  assumes "for_range i n f s = Some (Inr t)" and "I i s" and "i \<le> n"
    and "\<And>k s s'. i \<le> k \<Longrightarrow> k < n \<Longrightarrow> I k s \<Longrightarrow> f k s = Some (Inr s') \<Longrightarrow> I (Suc k) s'"
  shows "I n t"
  using assms
proof (induction i n f s rule: for_range.induct)
  case (1 i n f s)
  show ?case
  proof (cases "i < n")
    case True
    then obtain s' where s': "f i s = Some (Inr s')" "for_range (Suc i) n f s' = Some (Inr t)"
      using "1.prems"(1) by (auto simp: for_range_step andthen_Inr)
    show ?thesis
      by (rule "1.IH" [OF True s'(2)]) (use s'(1) "1.prems" True in auto)
  next
    case False
    with "1.prems" show ?thesis by simp
  qed
qed

text \<open>What a successful checking loop says of every round.\<close>

lemma for_range_check_all:
  "for_range i n (\<lambda>k _. f k) () = Some (Inr ()) \<Longrightarrow> i \<le> k \<Longrightarrow> k < n \<Longrightarrow> f k = Some (Inr ())"
proof (induction i n "\<lambda>k (_ :: unit). f k" "()" rule: for_range.induct)
  case (1 i n)
  have "i < n" using "1.prems" by simp
  then have step: "andthen (f i) (\<lambda>s'. for_range (Suc i) n (\<lambda>k _. f k) s') = Some (Inr ())"
    using "1.prems"(1) by (simp add: for_range_step)
  then have here: "f i = Some (Inr ())"
    and rest: "for_range (Suc i) n (\<lambda>k _. f k) () = Some (Inr ())"
    by (auto simp: andthen_Inr)
  show ?case
  proof (cases "k = i")
    case True
    then show ?thesis using here by simp
  next
    case False
    then show ?thesis using "1.hyps" [OF \<open>i < n\<close>] rest "1.prems"(2, 3) by simp
  qed
qed

lemma for_check_all: "for_check n f = Some (Inr ()) \<Longrightarrow> k < n \<Longrightarrow> f k = Some (Inr ())"
  using for_range_check_all [of 0 n f k] by simp

section \<open>Little-endian reads\<close>

definition rd8 :: "bytes \<Rightarrow> nat \<Rightarrow> u8 option" where
  "rd8 b i = arr_get b i"

definition rd16 :: "bytes \<Rightarrow> nat \<Rightarrow> u16 option" where
  "rd16 b i = do { lo \<leftarrow> rd8 b i; hi \<leftarrow> rd8 b (i + 1);
     Some (word_of_nat (unat lo + 256 * unat hi)) }"

definition rd32 :: "bytes \<Rightarrow> nat \<Rightarrow> u32 option" where
  "rd32 b i = do { lo \<leftarrow> rd16 b i; hi \<leftarrow> rd16 b (i + 2);
     Some (word_of_nat (unat lo + 65536 * unat hi)) }"

text \<open>A signed 32-bit value, read as an integer.\<close>

definition rdi32 :: "bytes \<Rightarrow> nat \<Rightarrow> int option" where
  "rdi32 b i = map_option sint (rd32 b i)"

lemma rd8_defined [simp]: "(rd8 b i = None) = (\<not> i < length b)"
  by (simp add: rd8_def arr_get_def)

lemma rd16_defined [simp]: "(rd16 b i = None) = (\<not> i + 2 \<le> length b)"
  by (auto simp: rd16_def rd8_def arr_get_def)

lemma rd32_defined [simp]: "(rd32 b i = None) = (\<not> i + 4 \<le> length b)"
  by (auto simp: rd32_def rd16_def rd8_def arr_get_def)

lemma rdi32_defined [simp]: "(rdi32 b i = None) = (\<not> i + 4 \<le> length b)"
  by (simp add: rdi32_def)

lemma rd_Some:
  "i < length b \<Longrightarrow> \<exists>x. rd8 b i = Some x"
  "i + 2 \<le> length b \<Longrightarrow> \<exists>x. rd16 b i = Some x"
  "i + 4 \<le> length b \<Longrightarrow> \<exists>x. rd32 b i = Some x"
  "i + 4 \<le> length b \<Longrightarrow> \<exists>x. rdi32 b i = Some x"
proof -
  show "i < length b \<Longrightarrow> \<exists>x. rd8 b i = Some x"
    using rd8_defined [of b i] by blast
  show "i + 2 \<le> length b \<Longrightarrow> \<exists>x. rd16 b i = Some x"
    using rd16_defined [of b i] by blast
  show "i + 4 \<le> length b \<Longrightarrow> \<exists>x. rd32 b i = Some x"
    using rd32_defined [of b i] by blast
  show "i + 4 \<le> length b \<Longrightarrow> \<exists>x. rdi32 b i = Some x"
    using rdi32_defined [of b i] by blast
qed

lemma rdi32_range: "rdi32 b i = Some v \<Longrightarrow> -2147483648 \<le> v \<and> v < 2147483648"
proof -
  assume "rdi32 b i = Some v"
  then obtain w :: u32 where "v = sint w" by (auto simp: rdi32_def)
  then show ?thesis using sint_ge [of w] sint_lt [of w] by simp
qed

lemma unat_word_of_int_u32: "0 \<le> v \<Longrightarrow> v < 4294967296 \<Longrightarrow> int (unat (word_of_int v :: u32)) = v"
  by (simp add: unsigned_of_int take_bit_int_eq_self)

lemma wp_rd8 [wp_rules]: "i < length b \<Longrightarrow> wp (rd8 b i) P = P (the (rd8 b i))"
  by (cases "rd8 b i") (auto dest: arg_cong [where f = "\<lambda>x. x = None"])

lemma wp_rd16 [wp_rules]: "i + 2 \<le> length b \<Longrightarrow> wp (rd16 b i) P = P (the (rd16 b i))"
  by (cases "rd16 b i") (auto dest: arg_cong [where f = "\<lambda>x. x = None"])

lemma wp_rd32 [wp_rules]: "i + 4 \<le> length b \<Longrightarrow> wp (rd32 b i) P = P (the (rd32 b i))"
  by (cases "rd32 b i") (auto dest: arg_cong [where f = "\<lambda>x. x = None"])

end
