(* ===== verification/Lz4.thy ===== *)
theory Lz4
  imports Prelude
begin

unbundle bit_operations_syntax

text \<open>
  The LZ4 block decoder (\<open>src/tigris_lz4.c\<close>), which decompresses a stage's weights into the
  fast arena. The input and output buffers are byte lists; every read and write goes through
  the checked accesses of \<open>Prelude\<close>, so \<open>None\<close> would be an access outside a buffer. An error
  return leaves the output buffer partly written; its content is then not described. Positions are
  natural numbers, so the match copy is \<open>None\<close> explicitly where it would read before the output buffer;
  that the code's check forms such a pointer to compare it is not counted as an access. The second
  half gives the block format an abstract meaning (literal runs and back references) with an encoder,
  and shows that the decoder inverts it.
\<close>

section \<open>The decoder\<close>

datatype lz4_error = Lz4_Overflow | Lz4_Malformed

definition lz4_code :: "lz4_error \<Rightarrow> int" where
  "lz4_code e = (case e of Lz4_Overflow \<Rightarrow> - 1 | Lz4_Malformed \<Rightarrow> - 2)"

lemma unat_or_push_u8: "unat (ucast (lo :: u8) OR push_bit 8 (ucast (hi :: u8)) :: u32) = unat lo + 256 * unat hi"
proof -
  have "ucast lo AND push_bit 8 (ucast hi) = (0 :: u32)"
    by (rule bit_eqI) (auto simp: bit_simps dest: bit_imp_le_length)
  then have "ucast lo OR push_bit 8 (ucast hi) = ucast lo + (push_bit 8 (ucast hi) :: u32)"
    by (simp add: disjunctive_add_eq_or)
  moreover have "unat (push_bit 8 (ucast hi) :: u32) = 256 * unat hi"
    using unat_u8_less [of hi] by (simp add: push_bit_eq_mult unat_mult_u32)
  ultimately show ?thesis
    using unat_u8_less [of hi] unat_u8_less [of lo] by (simp add: unat_add_u32)
qed

definition LZ4_MIN_MATCH :: u32 where "LZ4_MIN_MATCH = 4"

text \<open>The extended length: bytes are added until one is not 255.\<close>

function lz4_extend :: "bytes \<Rightarrow> nat \<Rightarrow> u32 \<Rightarrow> (lz4_error + nat \<times> u32) option" where
  "lz4_extend src ip len =
     (if length src \<le> ip then Some (Inl Lz4_Malformed)
      else do {
        extra \<leftarrow> rd8 src ip;
        if extra = 255 then lz4_extend src (ip + 1) (len + ucast extra)
        else Some (Inr (ip + 1, len + ucast extra))
      })"
  by pat_completeness auto
termination
  by (relation "measure (\<lambda>(src, ip, len). length src - ip)") auto

declare lz4_extend.simps [simp del]

text \<open>The byte-by-byte match copy, which may read what it has just written. It is undefined to copy
  from a position before the buffer.\<close>

fun lz4_copy_match :: "bytes \<Rightarrow> nat \<Rightarrow> nat \<Rightarrow> nat \<Rightarrow> bytes option" where
  "lz4_copy_match dst op offset 0 = Some dst"
| "lz4_copy_match dst op offset (Suc n) =
     (if op < offset then None
      else do {
        v \<leftarrow> arr_get dst (op - offset);
        dst' \<leftarrow> arr_set dst op v;
        lz4_copy_match dst' (Suc op) offset n
      })"

text \<open>The literal run of one sequence: what the code does between the length and the offset.\<close>

definition lz4_literals ::
  "bytes \<Rightarrow> nat \<Rightarrow> bytes \<Rightarrow> nat \<Rightarrow> u32 \<Rightarrow> (lz4_error + nat \<times> bytes \<times> nat) option" where
  "lz4_literals src ip dst op lit_len =
     (if lit_len > 0 then
        if length src < ip + unat lit_len then Some (Inl Lz4_Malformed)
        else if length dst < op + unat lit_len then Some (Inl Lz4_Overflow)
        else do {
          dst' \<leftarrow> copy_into dst op src ip (unat lit_len);
          Some (Inr (ip + unat lit_len, dst', op + unat lit_len))
        }
      else Some (Inr (ip, dst, op)))"

text \<open>The checks on a match's target and source, and its copy.\<close>

definition lz4_copy_back ::
  "nat \<Rightarrow> bytes \<Rightarrow> nat \<Rightarrow> u32 \<Rightarrow> u32 \<Rightarrow> (lz4_error + nat \<times> bytes \<times> nat) option" where
  "lz4_copy_back ip dst op offset match_len =
     (if length dst < op + unat match_len then Some (Inl Lz4_Overflow)
      else if op < unat offset then Some (Inl Lz4_Malformed)
      else do {
        dst' \<leftarrow> lz4_copy_match dst op (unat offset) (unat match_len);
        Some (Inr (ip, dst', op + unat match_len))
      })"

text \<open>The match of one sequence: offset, extended length and copy.\<close>

definition lz4_match ::
  "bytes \<Rightarrow> nat \<Rightarrow> bytes \<Rightarrow> nat \<Rightarrow> u8 \<Rightarrow> u32 \<Rightarrow> (lz4_error + nat \<times> bytes \<times> nat) option" where
  "lz4_match src ip dst op token match_len =
     (if length src < ip + 2 then Some (Inl Lz4_Malformed)
      else do {
        lo \<leftarrow> rd8 src ip;
        hi \<leftarrow> rd8 src (ip + 1);
        let offset = (ucast lo OR push_bit 8 (ucast hi) :: u32); ip = ip + 2 in
        if offset = 0 then Some (Inl Lz4_Malformed)
        else
          andthen (if token AND 0x0F = 15
                   then lz4_extend src ip (match_len + LZ4_MIN_MATCH)
                   else Some (Inr (ip, match_len + LZ4_MIN_MATCH)))
            (\<lambda>(ip, match_len). lz4_copy_back ip dst op offset match_len)
      })"

text \<open>
  One turn of the decoding loop, entered with \<open>ip < ip_end\<close>: the literal length, then the
  rest of the turn. The flag of the result says that the input ended after the literals (the
  loop's \<open>break\<close>).
\<close>

definition lz4_sequence ::
  "bytes \<Rightarrow> bytes \<Rightarrow> nat \<Rightarrow> u8 \<Rightarrow> u32 \<Rightarrow> nat \<times> u32 \<Rightarrow> (lz4_error + bool \<times> nat \<times> bytes \<times> nat) option" where
  "lz4_sequence src dst op token match_len = (\<lambda>(ip, lit_len).
     andthen (lz4_literals src ip dst op lit_len)
       (\<lambda>(ip, dst, op).
          if length src \<le> ip then Some (Inr (True, ip, dst, op))
          else andthen (lz4_match src ip dst op token match_len)
                 (\<lambda>(ip, dst, op). Some (Inr (False, ip, dst, op)))))"

definition lz4_step ::
  "bytes \<Rightarrow> nat \<Rightarrow> bytes \<Rightarrow> nat \<Rightarrow> (lz4_error + bool \<times> nat \<times> bytes \<times> nat) option" where
  "lz4_step src ip dst op = do {
     token \<leftarrow> rd8 src ip;
     let lit_len = drop_bit 4 (ucast token) :: u32; match_len = ucast token AND 0x0F :: u32 in
     andthen (if lit_len = 15 then lz4_extend src (ip + 1) lit_len else Some (Inr (ip + 1, lit_len)))
       (lz4_sequence src dst op token match_len)
   }"

lemma lz4_extend_progress: "lz4_extend src ip len = Some (Inr (ip', len')) \<Longrightarrow> ip < ip' \<and> ip' \<le> length src"
proof (induction src ip len rule: lz4_extend.induct)
  case (1 src ip len)
  show ?case
  proof (cases "length src \<le> ip")
    case True
    with "1.prems" show ?thesis by (simp add: lz4_extend.simps)
  next
    case False
    then obtain extra where extra: "rd8 src ip = Some extra"
      by (cases "rd8 src ip") auto
    show ?thesis
      using "1.IH" [OF False extra] "1.prems" False extra
      by (cases "extra = 255") (auto simp: lz4_extend.simps [of src ip])
  qed
qed

lemma lz4_literals_progress:
  "lz4_literals src ip dst op n = Some (Inr (ip', r)) \<Longrightarrow> ip \<le> ip'"
  by (auto simp: lz4_literals_def split: if_splits Option.bind_splits)

lemma lz4_match_progress:
  "lz4_match src ip dst op token n = Some (Inr (ip', r)) \<Longrightarrow> ip < ip'"
  by (auto simp: lz4_match_def lz4_copy_back_def Let_def andthen_def
      dest!: lz4_extend_progress split: if_splits Option.bind_splits sum.splits)

lemma lz4_step_progress:
  assumes "lz4_step src ip dst op = Some (Inr (stop, ip', dst', op'))"
  shows "ip < ip'"
  using assms
  by (auto simp: lz4_step_def lz4_sequence_def Let_def
      andthen_def
      dest!: lz4_extend_progress lz4_literals_progress lz4_match_progress
      split: Option.bind_splits sum.splits if_splits prod.splits)

function lz4_loop ::
  "bytes \<Rightarrow> nat \<Rightarrow> bytes \<Rightarrow> nat \<Rightarrow> (lz4_error + nat \<times> bytes) option" where
  "lz4_loop src ip dst op =
     (if ip < length src then
        (case lz4_step src ip dst op of
           None \<Rightarrow> None
         | Some (Inl e) \<Rightarrow> Some (Inl e)
         | Some (Inr (stop, ip', dst', op')) \<Rightarrow>
             if stop then Some (Inr (op', dst')) else lz4_loop src ip' dst' op')
      else Some (Inr (op, dst)))"
  by pat_completeness auto
termination
  by (relation "measure (\<lambda>(src, ip, dst, op). length src - ip)")
    (auto dest: lz4_step_progress)

declare lz4_loop.simps [simp del]

text \<open>
  \<open>tigris_lz4_decompress\<close>: a NULL argument is \<open>None\<close>; the length is the pointer difference
  converted to \<open>int32_t\<close>. The result is the error code, or the length and the output buffer.
\<close>

definition tigris_lz4_decompress :: "bytes option \<Rightarrow> bytes option \<Rightarrow> (int + int \<times> bytes) option" where
  "tigris_lz4_decompress src dst =
     (case (src, dst) of
        (Some s, Some d) \<Rightarrow> do {
          r \<leftarrow> lz4_loop s 0 d 0;
          Some (case r of
            Inl e \<Rightarrow> Inl (lz4_code e)
          | Inr (op, d') \<Rightarrow> Inr (sint (word_of_nat op :: u32), d'))
        }
      | _ \<Rightarrow> Some (Inl (- 2)))"

section \<open>Memory safety\<close>

lemma lz4_extend_defined: "wp (lz4_extend src ip len) (ok (\<lambda>(ip', _). ip < ip' \<and> ip' \<le> length src))"
proof (induction src ip len rule: lz4_extend.induct)
  case (1 src ip len)
  show ?case
  proof (cases "length src \<le> ip")
    case True
    then show ?thesis by (simp add: lz4_extend.simps)
  next
    case False
    then obtain extra where extra: "rd8 src ip = Some extra"
      by (cases "rd8 src ip") auto
    show ?thesis
      using "1.IH" [OF False extra] False extra
      by (cases "extra = 255")
        (auto simp: lz4_extend.simps [of src ip] elim!: wp_mono ok_mono)
  qed
qed

text \<open>The part of the output behind the write position is written; the rest is kept.\<close>

definition lz4_frame :: "bytes \<Rightarrow> nat \<Rightarrow> bytes \<Rightarrow> nat \<Rightarrow> bool" where
  "lz4_frame dst op dst' op' \<longleftrightarrow>
     length dst' = length dst \<and> op \<le> op' \<and> op' \<le> length dst \<and>
     (\<forall>i < length dst. i < op \<or> op' \<le> i \<longrightarrow> dst' ! i = dst ! i)"

lemma lz4_frame_refl [simp]: "op \<le> length dst \<Longrightarrow> lz4_frame dst op dst op"
  by (simp add: lz4_frame_def)

lemma lz4_frame_trans:
  "lz4_frame d a d' b \<Longrightarrow> lz4_frame d' b d'' c \<Longrightarrow> lz4_frame d a d'' c"
  by (auto simp: lz4_frame_def)

lemma lz4_frame_length: "lz4_frame d a d' b \<Longrightarrow> length d' = length d \<and> b \<le> length d'"
  by (simp add: lz4_frame_def)

lemma lz4_copy_match_frame:
  assumes "0 < offset" and "offset \<le> op" and "op + n \<le> length dst"
  shows "wp (lz4_copy_match dst op offset n) (\<lambda>dst'. lz4_frame dst op dst' (op + n))"
  using assms
proof (induction n arbitrary: dst op)
  case 0
  then show ?case by simp
next
  case (Suc n)
  have "wp (lz4_copy_match (dst[op := dst ! (op - offset)]) (Suc op) offset n)
      (\<lambda>dst'. lz4_frame (dst[op := dst ! (op - offset)]) (Suc op) dst' (Suc op + n))"
    using Suc.prems by (intro Suc.IH) auto
  moreover have "lz4_frame dst op (dst[op := dst ! (op - offset)]) (Suc op)"
    using Suc.prems by (simp add: lz4_frame_def)
  ultimately show ?case
    using Suc.prems by (auto simp: wp_rules elim!: wp_mono intro: lz4_frame_trans)
qed

text \<open>What each part of a turn establishes: progress in the input and the frame.\<close>

definition lz4_advance :: "bytes \<Rightarrow> nat \<Rightarrow> bytes \<Rightarrow> nat \<Rightarrow> nat \<times> bytes \<times> nat \<Rightarrow> bool" where
  "lz4_advance src ip dst op = (\<lambda>(ip', dst', op').
     ip \<le> ip' \<and> ip' \<le> length src \<and> lz4_frame dst op dst' op')"

lemma lz4_literals_safe:
  assumes "op \<le> length dst" and "ip \<le> length src"
  shows "wp (lz4_literals src ip dst op n) (ok (lz4_advance src ip dst op))"
  using assms
  by (auto simp: lz4_literals_def wp_rules lz4_advance_def lz4_frame_def nth_blit)

lemma lz4_copy_back_safe:
  assumes "op \<le> length dst" and "ip \<le> length src" and "offset \<noteq> 0"
  shows "wp (lz4_copy_back ip dst op offset n) (ok (lz4_advance src ip dst op))"
  using assms lz4_copy_match_frame [of "unat offset" op "unat n" dst]
  by (auto simp: lz4_copy_back_def lz4_advance_def unat_gt_0 elim!: wp_mono)

lemma lz4_match_safe:
  assumes "op \<le> length dst"
  shows "wp (lz4_match src ip dst op token n) (ok (lz4_advance src ip dst op))"
proof -
  have copy: "wp (lz4_copy_back ip' dst op offset m) (ok (lz4_advance src ip dst op))"
    if "offset \<noteq> 0" and "ip < ip'" and "ip' \<le> length src" for ip' offset and m :: u32
    using lz4_copy_back_safe [of op dst ip' src offset m] that assms
    by (auto simp: lz4_advance_def elim!: wp_mono ok_mono)
  have ext: "wp (lz4_extend src (Suc (Suc ip)) len) (ok (\<lambda>(ip', _). ip < ip' \<and> ip' \<le> length src))" for len
    using lz4_extend_defined [of src "Suc (Suc ip)" len] by (auto elim!: wp_mono ok_mono)
  show ?thesis
    using ext copy
    by (auto simp: lz4_match_def Let_def wp_rules
        intro!: wp_andthen [where P = "\<lambda>(ip', _). ip < ip' \<and> ip' \<le> length src"])
qed

lemma lz4_advance_trans:
  "lz4_advance src ip dst op (ip', dst', op') \<Longrightarrow> lz4_advance src ip' dst' op' r \<Longrightarrow>
     lz4_advance src ip dst op r"
  by (auto simp: lz4_advance_def intro: lz4_frame_trans)

lemma lz4_sequence_safe:
  assumes op: "op \<le> length dst" and ip: "i0 < ip" "ip \<le> length src"
  shows "wp (lz4_sequence src dst op t k (ip, n)) (ok (\<lambda>(_, r). lz4_advance src i0 dst op r))"
  unfolding lz4_sequence_def prod.case
proof (rule wp_andthen [OF lz4_literals_safe [OF op ip(2), of n]], clarify)
  fix i1 d1 o1
  assume a1: "lz4_advance src ip dst op (i1, d1, o1)"
  then have "o1 \<le> length d1"
    by (auto simp: lz4_advance_def dest: lz4_frame_length)
  from lz4_match_safe [OF this, of src i1 t k] a1 ip(1)
  show "wp (if length src \<le> i1 then Some (Inr (True, i1, d1, o1))
             else andthen (lz4_match src i1 d1 o1 t k)
                    (\<lambda>(ip, dst, op). Some (Inr (False, ip, dst, op))))
          (ok (\<lambda>(_, r). lz4_advance src i0 dst op r))"
    by (auto simp: lz4_advance_def intro!: wp_andthen elim!: wp_mono ok_mono
        intro: lz4_frame_trans)
qed

lemma lz4_step_safe:
  assumes op: "op \<le> length dst" and ip: "ip < length src"
  shows "wp (lz4_step src ip dst op) (ok (\<lambda>(_, r). lz4_advance src ip dst op r))"
proof -
  from ip obtain token where token: "rd8 src ip = Some token"
    by (cases "rd8 src ip") auto
  let ?lit = "drop_bit 4 (ucast token) :: u32"
  have "wp (if ?lit = 15 then lz4_extend src (ip + 1) ?lit else Some (Inr (ip + 1, ?lit)))
      (ok (\<lambda>(ip', _). ip < ip' \<and> ip' \<le> length src))"
    using lz4_extend_defined [of src "ip + 1" ?lit] ip by (auto elim!: wp_mono ok_mono)
  then show ?thesis
    unfolding lz4_step_def Let_def token bind.bind_lunit
    by (rule wp_andthen) (auto intro: lz4_sequence_safe [OF op])
qed

lemma lz4_loop_safe:
  assumes "op \<le> length dst"
  shows "wp (lz4_loop src ip dst op) (ok (\<lambda>(op', dst'). lz4_frame dst op dst' op'))"
  using assms
proof (induction src ip dst op rule: lz4_loop.induct)
  case (1 src ip dst op)
  show ?case
  proof (cases "ip < length src")
    case False
    with "1.prems" show ?thesis by (simp add: lz4_loop.simps)
  next
    case True
    from lz4_step_safe [OF "1.prems" True] obtain r where r: "lz4_step src ip dst op = Some r"
      and adv: "ok (\<lambda>(_, r). lz4_advance src ip dst op r) r"
      by (auto dest: wpD)
    show ?thesis
    proof (cases r)
      case (Inl e)
      with r True show ?thesis by (simp add: lz4_loop.simps)
    next
      case (Inr a)
      then obtain stop i' d' o' where a: "r = Inr (stop, i', d', o')"
        by (cases a) auto
      with adv have fr: "lz4_frame dst op d' o'" by (simp add: lz4_advance_def)
      then have "o' \<le> length d'" by (auto dest: lz4_frame_length)
      with "1.IH" [OF True r a refl refl refl] fr True r a show ?thesis
        by (cases stop) (auto simp: lz4_loop.simps [of src ip] elim!: wp_mono ok_mono
            intro: lz4_frame_trans)
    qed
  qed
qed

section \<open>The block format and the round trip\<close>

text \<open>A block is a list of sequences, each a literal run and a back reference of a given
  distance and length, followed by a last literal run.\<close>

datatype lz4_seq = Lz4_Seq (lz4_lits: bytes) (lz4_dist: nat) (lz4_len: nat)

fun lz4_back :: "bytes \<Rightarrow> nat \<Rightarrow> nat \<Rightarrow> bytes" where
  "lz4_back out d 0 = out"
| "lz4_back out d (Suc n) = lz4_back (out @ [out ! (length out - d)]) d n"

fun lz4_expand :: "bytes \<Rightarrow> lz4_seq list \<Rightarrow> bytes \<Rightarrow> bytes" where
  "lz4_expand out [] lits = out @ lits"
| "lz4_expand out (Lz4_Seq l d m # ss) lits = lz4_expand (lz4_back (out @ l) d m) ss lits"

text \<open>Distances reach back inside what is already written, and fit in two bytes; a match is
  at least four bytes long.\<close>

fun lz4_wf :: "nat \<Rightarrow> lz4_seq list \<Rightarrow> bool" where
  "lz4_wf n [] = True"
| "lz4_wf n (Lz4_Seq l d m # ss) =
     (0 < d \<and> d < 65536 \<and> d \<le> n + length l \<and> 4 \<le> m \<and> lz4_wf (n + length l + m) ss)"

fun lz4_extra :: "nat \<Rightarrow> bytes" where
  "lz4_extra n = (if n < 255 then [word_of_nat n] else 255 # lz4_extra (n - 255))"

declare lz4_extra.simps [simp del]

definition lz4_length :: "nat \<Rightarrow> bytes" where
  "lz4_length n = (if n < 15 then [] else lz4_extra (n - 15))"

definition lz4_token :: "nat \<Rightarrow> nat \<Rightarrow> u8" where
  "lz4_token l m = word_of_nat (16 * min 15 l + min 15 m)"

fun lz4_encode_seq :: "lz4_seq \<Rightarrow> bytes" where
  "lz4_encode_seq (Lz4_Seq l d m) =
     lz4_token (length l) (m - 4) # lz4_length (length l) @ l @
     [word_of_nat (d mod 256), word_of_nat (d div 256)] @ lz4_length (m - 4)"

definition lz4_encode :: "lz4_seq list \<Rightarrow> bytes \<Rightarrow> bytes" where
  "lz4_encode ss lits =
     concat (map lz4_encode_seq ss) @ lz4_token (length lits) 0 # lz4_length (length lits) @ lits"

lemma length_lz4_back [simp]: "length (lz4_back out d n) = length out + n"
  by (induction out d n rule: lz4_back.induct) simp_all

lemma length_lz4_expand_ge: "length out \<le> length (lz4_expand out ss lits)"
proof (induction out ss lits rule: lz4_expand.induct)
  case (2 out l d m ss lits)
  then have "length (lz4_back (out @ l) d m) \<le> length (lz4_expand out (Lz4_Seq l d m # ss) lits)"
    by simp
  then show ?case by simp
qed simp

lemma lz4_token_fields:
  fixes t :: u8
  assumes "t = lz4_token l m"
  shows "drop_bit 4 (ucast t :: u32) = word_of_nat (min 15 l)"
    and "(ucast t AND 0x0F :: u32) = word_of_nat (min 15 m)"
    and "(t AND 0x0F = 15) = (15 \<le> m)"
proof -
  have t: "unat t = 16 * min 15 l + min 15 m"
    using unat_of_nat_u8 [of "16 * min 15 l + min 15 m"] by (simp add: assms lz4_token_def)
  show "drop_bit 4 (ucast t :: u32) = word_of_nat (min 15 l)"
  proof (rule word_unat_eqI)
    have "unat (drop_bit 4 (ucast t :: u32)) = drop_bit 4 (unat (ucast t :: u32))"
      by (rule unat_drop_bit_eq)
    also have "\<dots> = unat (word_of_nat (min 15 l) :: u32)"
      by (simp add: drop_bit_eq_div t word_conv)
    finally show "unat (drop_bit 4 (ucast t :: u32)) = unat (word_of_nat (min 15 l) :: u32)" .
  qed
  have mask4: "(0x0F :: u32) = mask 4" "(0x0F :: u8) = mask 4"
    by (simp_all add: mask_eq_exp_minus_1)
  have and32: "unat (ucast t AND 0x0F :: u32) = min 15 m"
    unfolding mask4 take_bit_eq_mask [symmetric] unsigned_take_bit_eq
    by (simp add: take_bit_eq_mod t)
  then show "(ucast t AND 0x0F :: u32) = word_of_nat (min 15 m)"
    by (intro word_unat_eqI) (simp add: word_conv)
  have "unat (t AND 0x0F) = min 15 m"
    unfolding mask4 take_bit_eq_mask [symmetric] unsigned_take_bit_eq
    by (simp add: take_bit_eq_mod t)
  moreover have "(t AND 0x0F = 15) = (unat (t AND 0x0F) = 15)"
    by (simp add: word_unat_eq_iff)
  ultimately show "(t AND 0x0F = 15) = (15 \<le> m)"
    by (simp add: min_def)
qed

lemma of_nat_u8_u32: "n < 256 \<Longrightarrow> (ucast (word_of_nat n :: u8) :: u32) = word_of_nat n"
  by (rule word_unat_eqI) (simp add: word_conv)

text \<open>Reading at a position whose remaining input is known.\<close>

lemma rd8_drop: "drop ip src = x # r \<Longrightarrow> rd8 src ip = Some x \<and> ip < length src \<and> drop (Suc ip) src = r"
proof -
  assume a: "drop ip src = x # r"
  then have "ip < length src"
    by (metis drop_all leI list.distinct(1))
  with a show ?thesis
    by (simp add: rd8_def Cons_nth_drop_Suc [symmetric])
qed

lemma lz4_extend_extra:
  assumes "drop ip src = lz4_extra n @ r"
  shows "lz4_extend src ip len = Some (Inr (ip + length (lz4_extra n), len + word_of_nat n))
    \<and> drop (ip + length (lz4_extra n)) src = r"
  using assms
proof (induction n arbitrary: ip len rule: lz4_extra.induct)
  case (1 n)
  show ?case
  proof (cases "n < 255")
    case True
    with "1.prems" have d: "drop ip src = word_of_nat n # r" by (simp add: lz4_extra.simps)
    from True have "(word_of_nat n :: u8) \<noteq> 255"
      by (simp add: word_unat_eq_iff unat_of_nat)
    with True rd8_drop [OF d] show ?thesis
      by (simp add: lz4_extend.simps [of src ip] lz4_extra.simps [of n] of_nat_u8_u32)
  next
    case False
    with "1.prems" have d: "drop ip src = 255 # lz4_extra (n - 255) @ r"
      by (simp add: lz4_extra.simps [of n])
    from rd8_drop [OF this] have r8: "rd8 src ip = Some 255" "ip < length src"
      "drop (Suc ip) src = lz4_extra (n - 255) @ r" by auto
    have "(255 :: u32) + word_of_nat (n - 255) = word_of_nat n"
      using False of_nat_add [of 255 "n - 255", where ?'a = u32] by simp
    with "1.IH" [OF False r8(3), of "len + 255"] False r8 show ?thesis
      by (simp add: lz4_extend.simps [of src ip] lz4_extra.simps [of n] add.assoc)
  qed
qed

lemma lz4_copy_match_back:
  assumes "take op dst = out" and "op = length out" and "0 < d" and "d \<le> op" and "op + n \<le> length dst"
  shows "\<exists>dst'. lz4_copy_match dst op d n = Some dst' \<and> take (op + n) dst' = lz4_back out d n
    \<and> length dst' = length dst"
  using assms
proof (induction n arbitrary: dst op out)
  case 0
  then show ?case by simp
next
  case (Suc n)
  let ?v = "dst ! (op - d)"
  let ?dst = "dst[op := ?v]"
  have out: "out ! (length out - d) = ?v"
    using Suc.prems by (metis diff_less gr0I leD nth_take)
  have t: "take (Suc op) ?dst = out @ [?v]"
    using Suc.prems by (simp add: take_Suc_conv_app_nth)
  from Suc.IH [OF t] Suc.prems obtain dst' where
    "lz4_copy_match ?dst (Suc op) d n = Some dst'"
    "take (Suc op + n) dst' = lz4_back (out @ [?v]) d n" "length dst' = length dst"
    by auto
  with Suc.prems out show ?case by (auto simp: arr_get_def arr_set_def)
qed

text \<open>What the decoder sees of an encoded length: the nibble plus, past 14, extra bytes.\<close>

lemma lz4_read_length:
  fixes len :: u32
  assumes "drop ip src = lz4_length n @ r" and "len = word_of_nat (min 15 n) + k"
  shows "(if 15 \<le> n then lz4_extend src ip len else Some (Inr (ip, len)))
      = Some (Inr (ip + length (lz4_length n), word_of_nat n + k))
    \<and> drop (ip + length (lz4_length n)) src = r"
proof (cases "15 \<le> n")
  case True
  have "(15 :: u32) + word_of_nat (n - 15) = word_of_nat n"
    using True of_nat_add [of 15 "n - 15", where ?'a = u32] by simp
  with True assms lz4_extend_extra [of ip src "n - 15" r len] show ?thesis
    by (simp add: lz4_length_def algebra_simps)
next
  case False
  with assms show ?thesis by (simp add: lz4_length_def min_def)
qed

lemma lz4_literals_copy:
  assumes d: "drop ip src = l @ r" and t: "take op dst = out" and "op = length out"
    and fit: "op + length l \<le> length dst" "length dst < 4294967296"
  shows "\<exists>dst'. lz4_literals src ip dst op (word_of_nat (length l))
      = Some (Inr (ip + length l, dst', op + length l))
    \<and> take (op + length l) dst' = out @ l \<and> length dst' = length dst
    \<and> drop (ip + length l) src = r"
proof -
  have n: "unat (word_of_nat (length l) :: u32) = length l"
    using fit by (intro unat_of_nat_u32) simp
  have len: "length l + length r = length src - ip"
    using arg_cong [OF d, of length] by simp
  have rest: "drop (ip + length l) src = r"
    using arg_cong [OF d, of "drop (length l)"] by (simp add: add.commute)
  show ?thesis
  proof (cases "l = []")
    case True
    with t rest \<open>op = length out\<close> show ?thesis by (simp add: lz4_literals_def)
  next
    case False
    then have "0 < length l" by simp
    then have "(word_of_nat (length l) :: u32) > 0" "ip + length l \<le> length src"
      using n len by (simp_all only: word_less_nat_alt unat_0)
    with fit t d \<open>op = length out\<close> show ?thesis
      by (auto simp: lz4_literals_def n copy_into_def blit_def rest)
  qed
qed

lemma lz4_match_copy:
  assumes d: "drop ip src = word_of_nat (d mod 256) # word_of_nat (d div 256) # lz4_length (m - 4) @ r"
    and t: "take op dst = out" "op = length out"
    and wf: "0 < d" "d < 65536" "d \<le> op" "4 \<le> m"
    and fit: "op + m \<le> length dst" "length dst < 4294967296"
    and tok: "(token AND 0x0F = 15) = (15 \<le> m - 4)"
    and len: "match_len = word_of_nat (min 15 (m - 4))"
  shows "\<exists>dst'. lz4_match src ip dst op token match_len
      = Some (Inr (ip + 2 + length (lz4_length (m - 4)), dst', op + m))
    \<and> take (op + m) dst' = lz4_back out d m \<and> length dst' = length dst
    \<and> drop (ip + 2 + length (lz4_length (m - 4))) src = r"
proof -
  note r1 = rd8_drop [OF d]
  note r2 = rd8_drop [OF r1 [THEN conjunct2, THEN conjunct2]]
  let ?off = "ucast (word_of_nat (d mod 256) :: u8) OR push_bit 8 (ucast (word_of_nat (d div 256) :: u8)) :: u32"
  have off: "unat ?off = d"
    using wf by (simp add: unat_or_push_u8 unat_of_nat_u8 less_mult_imp_div_less)
  have m: "(word_of_nat (m - 4) :: u32) + LZ4_MIN_MATCH = word_of_nat m"
    using wf of_nat_add [of "m - 4" 4, where ?'a = u32] by (simp add: LZ4_MIN_MATCH_def)
  have um: "unat (word_of_nat m :: u32) = m"
    using fit by (intro unat_of_nat_u32) simp
  have "drop (ip + 2) src = lz4_length (m - 4) @ r"
    using r2 by simp
  from lz4_read_length [OF this, of "match_len + LZ4_MIN_MATCH" LZ4_MIN_MATCH] len m
  have ext: "(if token AND 0x0F = 15 then lz4_extend src (ip + 2) (match_len + LZ4_MIN_MATCH)
        else Some (Inr (ip + 2, match_len + LZ4_MIN_MATCH)))
      = Some (Inr (ip + 2 + length (lz4_length (m - 4)), word_of_nat m))"
    and rest: "drop (ip + 2 + length (lz4_length (m - 4))) src = r"
    by (simp_all add: tok)
  from lz4_copy_match_back [OF t wf(1,3) fit(1)] obtain dst' where
    dst': "lz4_copy_match dst op d m = Some dst'" "take (op + m) dst' = lz4_back out d m"
      "length dst' = length dst" by blast
  have "?off \<noteq> 0" using off wf by auto
  moreover have "\<not> length src < ip + 2" using r2 by simp
  ultimately have "lz4_match src ip dst op token match_len
      = andthen (if token AND 0x0F = 15 then lz4_extend src (ip + 2) (match_len + LZ4_MIN_MATCH)
                 else Some (Inr (ip + 2, match_len + LZ4_MIN_MATCH)))
          (\<lambda>(ip, match_len). lz4_copy_back ip dst op ?off match_len)"
    using r1 r2 by (simp add: lz4_match_def Let_def)
  then have "lz4_match src ip dst op token match_len
      = lz4_copy_back (ip + 2 + length (lz4_length (m - 4))) dst op ?off (word_of_nat m)"
    by (simp only: ext andthen_simps prod.case)
  with dst' rest fit wf show ?thesis
    by (simp add: lz4_copy_back_def off um)
qed

lemma lz4_step_seq:
  assumes d: "drop ip src = lz4_encode_seq (Lz4_Seq l d m) @ r"
    and t: "take op dst = out" "op = length out"
    and wf: "0 < d" "d < 65536" "d \<le> op + length l" "4 \<le> m"
    and fit: "op + length l + m \<le> length dst" "length dst < 4294967296"
  shows "\<exists>dst'. lz4_step src ip dst op
      = Some (Inr (False, ip + length (lz4_encode_seq (Lz4_Seq l d m)), dst', op + length l + m))
    \<and> take (op + length l + m) dst' = lz4_back (out @ l) d m \<and> length dst' = length dst
    \<and> drop (ip + length (lz4_encode_seq (Lz4_Seq l d m))) src = r"
proof -
  let ?t = "lz4_token (length l) (m - 4)"
  let ?tl = "word_of_nat (d mod 256) # word_of_nat (d div 256) # lz4_length (m - 4) @ r"
  let ?i1 = "ip + 1 + length (lz4_length (length l))"
  note tok = lz4_token_fields [of ?t "length l" "m - 4", OF refl]
  have "drop ip src = ?t # lz4_length (length l) @ l @ ?tl"
    using d by simp
  note h = rd8_drop [OF this]
  have h1: "drop (ip + 1) src = lz4_length (length l) @ l @ ?tl"
    using h by simp
  have lit15: "(drop_bit 4 (ucast ?t) :: u32) = 15 \<longleftrightarrow> 15 \<le> length l"
    using word_unat_eq_iff [of "word_of_nat (min 15 (length l)) :: u32" 15]
    by (simp add: tok(1) word_conv min_def)
  from lz4_read_length [OF h1, of "drop_bit 4 (ucast ?t)" 0]
  have len: "(if (drop_bit 4 (ucast ?t) :: u32) = 15
        then lz4_extend src (ip + 1) (drop_bit 4 (ucast ?t)) else Some (Inr (ip + 1, drop_bit 4 (ucast ?t))))
      = Some (Inr (?i1, word_of_nat (length l)))" and h2: "drop ?i1 src = l @ ?tl"
    unfolding lit15 add_0_right by (simp_all only: tok(1))
  have "op + length l \<le> length dst" using fit by simp
  from lz4_literals_copy [OF h2 t this fit(2)] obtain d1 where
    lits: "lz4_literals src ?i1 dst op (word_of_nat (length l)) = Some (Inr (?i1 + length l, d1, op + length l))"
    and t1: "take (op + length l) d1 = out @ l" "length d1 = length dst"
    and h3: "drop (?i1 + length l) src = ?tl"
    by blast
  have more: "\<not> length src \<le> ?i1 + length l"
    using rd8_drop [OF h3] by simp
  from lz4_match_copy [OF h3 t1(1), of ?t "ucast ?t AND 0x0F"] t t1 wf fit tok obtain d2 where
    mt: "lz4_match src (?i1 + length l) d1 (op + length l) ?t (ucast ?t AND 0x0F)
      = Some (Inr (?i1 + length l + 2 + length (lz4_length (m - 4)), d2, op + length l + m))"
    and res: "take (op + length l + m) d2 = lz4_back (out @ l) d m" "length d2 = length dst"
      "drop (?i1 + length l + 2 + length (lz4_length (m - 4))) src = r"
    by auto
  have "ip + length (lz4_encode_seq (Lz4_Seq l d m)) = ?i1 + length l + 2 + length (lz4_length (m - 4))"
    by simp
  moreover have "lz4_step src ip dst op
      = lz4_sequence src dst op ?t (ucast ?t AND 0x0F) (?i1, word_of_nat (length l))"
    unfolding lz4_step_def Let_def h [THEN conjunct1] bind.bind_lunit by (simp only: len andthen_simps)
  ultimately show ?thesis
    using lits more mt res by (simp add: lz4_sequence_def add.assoc)
qed

lemma lz4_step_last:
  assumes d: "drop ip src = lz4_token (length l) 0 # lz4_length (length l) @ l"
    and t: "take op dst = out" "op = length out"
    and fit: "op + length l \<le> length dst" "length dst < 4294967296"
  shows "\<exists>ip' dst'. lz4_step src ip dst op = Some (Inr (True, ip', dst', op + length l))
    \<and> take (op + length l) dst' = out @ l \<and> length dst' = length dst"
proof -
  let ?t = "lz4_token (length l) 0"
  let ?i1 = "ip + 1 + length (lz4_length (length l))"
  note tok = lz4_token_fields [of ?t "length l" 0, OF refl]
  note h = rd8_drop [OF d]
  have h1: "drop (ip + 1) src = lz4_length (length l) @ l"
    using h by simp
  have lit15: "(drop_bit 4 (ucast ?t) :: u32) = 15 \<longleftrightarrow> 15 \<le> length l"
    using word_unat_eq_iff [of "word_of_nat (min 15 (length l)) :: u32" 15]
    by (simp add: tok(1) word_conv min_def)
  from lz4_read_length [OF h1, of "drop_bit 4 (ucast ?t)" 0]
  have len: "(if (drop_bit 4 (ucast ?t) :: u32) = 15
        then lz4_extend src (ip + 1) (drop_bit 4 (ucast ?t)) else Some (Inr (ip + 1, drop_bit 4 (ucast ?t))))
      = Some (Inr (?i1, word_of_nat (length l)))" and h2: "drop ?i1 src = l @ []"
    unfolding lit15 add_0_right append_Nil2 by (simp_all only: tok(1))
  from lz4_literals_copy [OF h2 t fit] obtain d1 where
    lits: "lz4_literals src ?i1 dst op (word_of_nat (length l)) = Some (Inr (?i1 + length l, d1, op + length l))"
    and t1: "take (op + length l) d1 = out @ l" "length d1 = length dst"
    and h3: "drop (?i1 + length l) src = []"
    by blast
  have "lz4_step src ip dst op = lz4_sequence src dst op ?t (ucast ?t AND 0x0F) (?i1, word_of_nat (length l))"
    unfolding lz4_step_def Let_def h [THEN conjunct1] bind.bind_lunit by (simp only: len andthen_simps)
  with lits t1 h3 show ?thesis
    by (simp add: lz4_sequence_def)
qed

text \<open>The decoder inverts the encoder.\<close>

lemma lz4_loop_roundtrip:
  assumes "drop ip src = lz4_encode ss lits" and "take op dst = out" and "op = length out"
    and "lz4_wf op ss"
    and "length (lz4_expand out ss lits) \<le> length dst" and "length dst < 4294967296"
  shows "\<exists>dst'. lz4_loop src ip dst op = Some (Inr (length (lz4_expand out ss lits), dst'))
    \<and> take (length (lz4_expand out ss lits)) dst' = lz4_expand out ss lits
    \<and> length dst' = length dst"
  using assms
proof (induction ss arbitrary: ip dst op out)
  case Nil
  then have d: "drop ip src = lz4_token (length lits) 0 # lz4_length (length lits) @ lits"
    by (simp add: lz4_encode_def)
  from Nil lz4_step_last [OF d Nil(2,3)] rd8_drop [OF d] show ?case
    by (auto simp: lz4_loop.simps [of src ip])
next
  case (Cons s ss)
  obtain l d m where s: "s = Lz4_Seq l d m" by (cases s)
  let ?out = "lz4_back (out @ l) d m"
  have fit: "op + length l + m \<le> length dst"
    using Cons.prems length_lz4_expand_ge [of ?out ss lits] by (simp add: s)
  have dr: "drop ip src = lz4_encode_seq (Lz4_Seq l d m) @ lz4_encode ss lits"
    using Cons.prems by (simp add: s lz4_encode_def)
  then have ip: "ip < length src"
    using rd8_drop [of ip src] by auto
  from lz4_step_seq [OF dr Cons.prems(2,3) _ _ _ _ fit] Cons.prems obtain dst' where
    st: "lz4_step src ip dst op
      = Some (Inr (False, ip + length (lz4_encode_seq (Lz4_Seq l d m)), dst', op + length l + m))"
    and d': "take (op + length l + m) dst' = ?out" "length dst' = length dst"
      "drop (ip + length (lz4_encode_seq (Lz4_Seq l d m))) src = lz4_encode ss lits"
    by (auto simp: s)
  have "lz4_loop src ip dst op
      = lz4_loop src (ip + length (lz4_encode_seq (Lz4_Seq l d m))) dst' (op + length l + m)"
    by (subst lz4_loop.simps) (use st ip in simp)
  with Cons.IH [OF d'(3,1)] Cons.prems d'(2) show ?case
    by (simp add: s)
qed

text \<open>C3. Decompressing never reads or writes outside the two buffers, whatever the input
  block: the call has no undefined behaviour, and a non-error result is a length within the
  output buffer, with every byte past that length untouched.\<close>

theorem lz4_decompress_memory_safe:
  "case tigris_lz4_decompress (Some src) (Some dst) of
     None \<Rightarrow> False
   | Some (Inl e) \<Rightarrow> e = - 1 \<or> e = - 2
   | Some (Inr (n, dst')) \<Rightarrow> \<exists>op \<le> length dst. n = sint (word_of_nat op :: u32) \<and>
       length dst' = length dst \<and> drop op dst' = drop op dst"
proof -
  from lz4_loop_safe [of 0 dst src 0] obtain r where r: "lz4_loop src 0 dst 0 = Some r"
    and fr: "ok (\<lambda>(op', dst'). lz4_frame dst 0 dst' op') r"
    by (auto dest: wpD)
  show ?thesis
  proof (cases r)
    case (Inl e)
    with r show ?thesis
      by (simp add: tigris_lz4_decompress_def lz4_code_def split: lz4_error.splits)
  next
    case (Inr a)
    then obtain op dst' where a: "r = Inr (op, dst')" by (cases a) auto
    with fr have f: "lz4_frame dst 0 dst' op" by simp
    then have "drop op dst' = drop op dst"
      by (intro nth_equalityI) (auto simp: lz4_frame_def)
    with f have "\<exists>k \<le> length dst. sint (word_of_nat op :: u32) = sint (word_of_nat k :: u32) \<and>
        length dst' = length dst \<and> drop k dst' = drop k dst"
      by (auto simp: lz4_frame_def)
    with r a show ?thesis
      by (simp add: tigris_lz4_decompress_def)
  qed
qed

text \<open>C16. The decoder inverts the block format: for every list of literal runs and back
  references the format admits, decoding its encoding into a large enough buffer (below 2
  GiB) returns the length of the expansion and writes exactly the expansion.\<close>

theorem lz4_roundtrip:
  assumes "lz4_wf 0 ss"
    and "length (lz4_expand [] ss lits) \<le> length dst" and "length dst < 2147483648"
  shows "\<exists>dst'. tigris_lz4_decompress (Some (lz4_encode ss lits)) (Some dst)
      = Some (Inr (int (length (lz4_expand [] ss lits)), dst'))
    \<and> take (length (lz4_expand [] ss lits)) dst' = lz4_expand [] ss lits"
proof -
  let ?n = "length (lz4_expand [] ss lits)"
  from lz4_loop_roundtrip [of 0 "lz4_encode ss lits" ss lits 0 dst "[]"] assms
  obtain dst' where "lz4_loop (lz4_encode ss lits) 0 dst 0 = Some (Inr (?n, dst'))"
    and "take ?n dst' = lz4_expand [] ss lits"
    by auto
  moreover have "sint (word_of_nat ?n :: u32) = int ?n"
    using assms by (intro sint_of_nat_u32) simp
  ultimately show ?thesis
    by (simp add: tigris_lz4_decompress_def)
qed

text \<open>Witness: "abcabcabcabc" from three literals and one overlapping match of nine bytes.\<close>

theorem lz4_roundtrip_witness:
  "\<exists>dst'. tigris_lz4_decompress (Some (lz4_encode [Lz4_Seq [97, 98, 99] 3 9] [])) (Some (replicate 16 0))
      = Some (Inr (12, dst'))
    \<and> take 12 dst' = [97, 98, 99, 97, 98, 99, 97, 98, 99, 97, 98, 99]"
proof -
  have e: "lz4_expand [] [Lz4_Seq [97, 98, 99] 3 9] [] = [97, 98, 99, 97, 98, 99, 97, 98, 99, 97, 98, 99]"
    by (simp add: numeral_eq_Suc)
  have n: "length (lz4_expand [] [Lz4_Seq [97, 98, 99] 3 9] []) = 12"
    by (simp add: e)
  have "lz4_wf 0 [Lz4_Seq [97, 98, 99] 3 9]"
    by simp
  from lz4_roundtrip [OF this, of "[]" "replicate 16 0"] show ?thesis
    unfolding n unfolding e by (simp only: length_replicate of_nat_numeral)
qed

end
