(* ===== verification/Arena.thy ===== *)
theory Arena
  imports Prelude
begin

unbundle bit_operations_syntax

text \<open>
  The memory manager (\<open>include/tigris_mem.h\<close>, \<open>src/tigris_mem.c\<close>): two caller-owned arenas
  with bump allocation and a table of tensor pointers.

  \<^item> An address is a \<open>nat\<close>, 0 is NULL, and \<open>ram\<close> maps addresses to bytes. The arenas are the
    regions \<open>fast_base ..< fast_base + fast_size\<close> and likewise for slow.
  \<^item> \<open>memcpy\<close> between overlapping regions is undefined (\<open>None\<close>).
  \<^item> The \<open>uint32_t\<close> bookkeeping is kept at its width. The build is the x86-64 one:
    \<open>TIGRIS_TENSOR_ALIGN\<close> is 32 and \<open>TIGRIS_TRACE\<close> is off.
\<close>

section \<open>Addresses and memory\<close>

type_synonym ram = "nat \<Rightarrow> u8"

definition ram_copy :: "ram \<Rightarrow> nat \<Rightarrow> nat \<Rightarrow> nat \<Rightarrow> ram" where
  "ram_copy h d s n = (\<lambda>a. if d \<le> a \<and> a < d + n then h (s + (a - d)) else h a)"

text \<open>\<open>memmove\<close> is always defined, \<open>memcpy\<close> only on regions that do not overlap.\<close>

definition ram_memcpy :: "ram \<Rightarrow> nat \<Rightarrow> nat \<Rightarrow> nat \<Rightarrow> ram option" where
  "ram_memcpy h d s n =
     (if n = 0 \<or> d + n \<le> s \<or> s + n \<le> d then Some (ram_copy h d s n) else None)"

lemma ram_copy_in: "i < n \<Longrightarrow> ram_copy h d s n (d + i) = h (s + i)"
  by (simp add: ram_copy_def)

lemma ram_copy_out: "a < d \<or> d + n \<le> a \<Longrightarrow> ram_copy h d s n a = h a"
  by (auto simp: ram_copy_def)

lemma wp_ram_memcpy [wp_rules]:
  "wp (ram_memcpy h d s n) P = ((n = 0 \<or> d + n \<le> s \<or> s + n \<le> d) \<and> P (ram_copy h d s n))"
  by (auto simp: ram_memcpy_def)

section \<open>The manager's state\<close>

datatype mem_error = MEM_ERR_NULL | MEM_ERR_OOM | MEM_ERR_BAD_INDEX | MEM_ERR_NOT_SET

definition tigris_mem_error_str :: "mem_error option \<Rightarrow> string" where
  "tigris_mem_error_str err = (case err of
     None \<Rightarrow> ''OK''
   | Some MEM_ERR_NULL \<Rightarrow> ''null pointer argument''
   | Some MEM_ERR_OOM \<Rightarrow> ''out of memory''
   | Some MEM_ERR_BAD_INDEX \<Rightarrow> ''tensor index out of range''
   | Some MEM_ERR_NOT_SET \<Rightarrow> ''tensor pointer not set'')"

text \<open>The per-tile context the executor hands to the kernels.\<close>

record tile_ctx =
  tc_active :: bool
  tc_pad_top :: u16
  tc_pad_bottom :: u16
  tc_in_h :: int
  tc_out_h :: int
  tc_in_w :: int
  tc_out_w :: int
  tc_out_row_start :: int
  tc_in_row_start :: int
  tc_out_row_origin :: int
  tc_in_row_origin :: int
  tc_pad_left :: u16
  tc_pad_right :: u16
  tc_width_tiled :: bool
  tc_reduce_acc :: nat
  tc_reduce_first :: bool
  tc_reduce_last :: bool
  tc_reduce_channels :: int
  tc_reduce_positions :: int
  tc_transposed_tile :: bool
  tc_row_tiled :: u8
  tc_transpose_outer :: int
  tc_transpose_block :: int

definition tile_ctx_zero :: tile_ctx where
  "tile_ctx_zero = \<lparr> tc_active = False, tc_pad_top = 0, tc_pad_bottom = 0, tc_in_h = 0,
     tc_out_h = 0, tc_in_w = 0, tc_out_w = 0, tc_out_row_start = 0, tc_in_row_start = 0,
     tc_out_row_origin = 0, tc_in_row_origin = 0, tc_pad_left = 0, tc_pad_right = 0,
     tc_width_tiled = False, tc_reduce_acc = 0, tc_reduce_first = False,
     tc_reduce_last = False, tc_reduce_channels = 0, tc_reduce_positions = 0,
     tc_transposed_tile = False, tc_row_tiled = 0, tc_transpose_outer = 0,
     tc_transpose_block = 0 \<rparr>"

record exec_stats =
  stages_normal :: u16
  stages_tiled :: u16
  stages_chain :: u16
  total_tiles :: u16
  slow_overflow_count :: u32
  slow_overflow_bytes :: u32
  loads_bytes :: u32
  spills_bytes :: u32
  compactions :: u32
  stats_slow_peak :: u32
  weight_bytes :: u32
  copy_bytes :: u32

record mem =
  tensor_ptrs :: "nat list"
  num_tensors :: u16
  fast_base :: nat
  fast_size :: u32
  fast_used :: u32
  fast_reserved :: u32
  fast_peak :: u32
  slow_base :: nat
  slow_size :: u32
  slow_used :: u32
  slow_peak :: u32
  stats :: "exec_stats option"
  tile :: tile_ctx

definition TENSOR_ALIGN :: u32 where "TENSOR_ALIGN = 32"

section \<open>Alignment\<close>

definition align_up_u32 :: "u32 \<Rightarrow> u32 option" where
  "align_up_u32 v =
     (let mask = TENSOR_ALIGN - 1 in
      if v > U32_MAX - mask then None else Some ((v + mask) AND NOT mask))"

definition saturating_add_u32 :: "u32 \<Rightarrow> u32 \<Rightarrow> u32" where
  "saturating_add_u32 a b = (if b > U32_MAX - a then U32_MAX else a + b)"

text \<open>The mathematical value: the least multiple of 32 that is not smaller.\<close>

definition round_up :: "nat \<Rightarrow> nat" where
  "round_up n = (n + 31) div 32 * 32"

lemma round_up_ge: "n \<le> round_up n"
  unfolding round_up_def by presburger

lemma round_up_less: "round_up n < n + 32"
  unfolding round_up_def by presburger

lemma round_up_dvd [simp]: "32 dvd round_up n"
  by (simp add: round_up_def)

lemma round_up_0 [simp]: "round_up 0 = 0"
  by (simp add: round_up_def)

lemma unat_and_not_31: "unat ((w :: u32) AND NOT 31) = unat w div 32 * 32"
proof -
  have m: "(31 :: u32) = mask 5" by (simp add: mask_eq_exp_minus_1)
  have "(w AND NOT 31) AND take_bit 5 w = 0" "(w AND NOT 31) OR take_bit 5 w = w"
    unfolding m by (rule bit_eqI; auto simp: bit_simps)+
  then have "(w AND NOT 31) + take_bit 5 w = w"
    by (simp add: disjunctive_add_eq_or)
  then have "w AND NOT 31 = w - take_bit 5 w"
    by (metis add_diff_cancel_right')
  moreover have r: "unat (take_bit 5 w) = unat w mod 32"
    unfolding unsigned_take_bit_eq by (simp add: take_bit_eq_mod)
  moreover have "take_bit 5 w \<le> w"
    unfolding word_le_nat_alt r by simp
  ultimately have "unat (w AND NOT 31) = unat w - unat w mod 32"
    by (simp only: unat_sub r)
  then show ?thesis
    by (simp only: minus_mod_eq_div_mult)
qed

lemma align_up_u32_Some:
  "align_up_u32 v = Some a \<longleftrightarrow> unat v \<le> 4294967264 \<and> unat a = round_up (unat v)"
proof (cases "v > U32_MAX - (TENSOR_ALIGN - 1)")
  case True
  then have "4294967264 < unat v"
    by (simp add: TENSOR_ALIGN_def word_less_nat_alt)
  with True show ?thesis by (auto simp: align_up_u32_def)
next
  case False
  then have le: "unat v \<le> 4294967264"
    by (simp add: TENSOR_ALIGN_def word_less_nat_alt)
  then have "unat (v + 31) = unat v + 31"
    by (simp add: unat_add_u32)
  then have "unat ((v + 31) AND NOT 31) = round_up (unat v)"
    by (simp only: unat_and_not_31 round_up_def)
  with False le show ?thesis
    by (auto simp: align_up_u32_def TENSOR_ALIGN_def word_unat_eq_iff)
qed

lemma align_up_u32_None: "align_up_u32 v = None \<longleftrightarrow> 4294967264 < unat v"
  by (auto simp: align_up_u32_def TENSOR_ALIGN_def word_less_nat_alt)

lemma saturating_add_u32_unat:
  "unat (saturating_add_u32 a b) = min (unat a + unat b) 4294967295"
proof -
  have "unat (U32_MAX - a) = 4294967295 - unat a"
    using unat_u32_less [of a] by (simp add: unat_sub word_le_nat_alt)
  then show ?thesis
    using unat_u32_less [of a]
    by (auto simp: saturating_add_u32_def word_less_nat_alt unat_add_u32)
qed

section \<open>Initialisation and allocation\<close>

definition tigris_mem_note_fast_peak :: "mem \<Rightarrow> mem" where
  "tigris_mem_note_fast_peak m =
     (if fast_used m > fast_peak m then m\<lparr>fast_peak := fast_used m\<rparr> else m)"

definition tigris_mem_tensor_ptr :: "mem option \<Rightarrow> u16 \<Rightarrow> nat option" where
  "tigris_mem_tensor_ptr mo idx = (case mo of
     None \<Rightarrow> Some 0
   | Some m \<Rightarrow> if idx \<ge> num_tensors m then Some 0 else arr_get (tensor_ptrs m) (unat idx))"

text \<open>The bytes from an address to the next aligned one.\<close>

definition align_gap :: "nat \<Rightarrow> u32" where
  "align_gap addr = word_of_nat ((32 - addr mod 32) mod 32)"

text \<open>\<open>tigris_mem_init\<close>: the arguments are the address of the structure (0 for NULL), the
  caller's pointer table (\<open>None\<close> for NULL; its entries are cleared), and the two buffers.\<close>

definition tigris_mem_init ::
  "bool \<Rightarrow> nat list option \<Rightarrow> u16 \<Rightarrow> nat \<Rightarrow> u32 \<Rightarrow> nat \<Rightarrow> u32 \<Rightarrow> (mem_error + mem) option" where
  "tigris_mem_init mem_null ptrs n fast_buf fsize slow_buf ssize =
     (case ptrs of
        None \<Rightarrow> Some (Inl MEM_ERR_NULL)
      | Some ps \<Rightarrow>
        if mem_null \<or> fast_buf = 0 \<or> (slow_buf = 0 \<and> ssize \<noteq> 0) then Some (Inl MEM_ERR_NULL)
        else
          let fast_adj = align_gap fast_buf; slow_adj = align_gap slow_buf in
          if fast_adj > fsize \<or> slow_adj > ssize then Some (Inl MEM_ERR_OOM)
          else if length ps < unat n then None
          else Some (Inr \<lparr> tensor_ptrs = replicate (unat n) 0 @ drop (unat n) ps,
                 num_tensors = n,
                 fast_base = fast_buf, fast_size = fsize, fast_used = fast_adj,
                 fast_reserved = fast_adj, fast_peak = fast_adj,
                 slow_base = slow_buf, slow_size = ssize, slow_used = slow_adj,
                 slow_peak = slow_adj, stats = None, tile = tile_ctx_zero \<rparr>))"

datatype pool = Fast | Slow

definition pool_base :: "pool \<Rightarrow> mem \<Rightarrow> nat" where
  "pool_base p m = (case p of Fast \<Rightarrow> fast_base m | Slow \<Rightarrow> slow_base m)"

definition pool_used :: "pool \<Rightarrow> mem \<Rightarrow> u32" where
  "pool_used p m = (case p of Fast \<Rightarrow> fast_used m | Slow \<Rightarrow> slow_used m)"

definition pool_size :: "pool \<Rightarrow> mem \<Rightarrow> u32" where
  "pool_size p m = (case p of Fast \<Rightarrow> fast_size m | Slow \<Rightarrow> slow_size m)"

text \<open>\<open>*used += aligned\<close> and the high-water mark of the pool \<open>used\<close> points into.\<close>

definition pool_bump :: "pool \<Rightarrow> u32 \<Rightarrow> mem \<Rightarrow> mem" where
  "pool_bump p n m = (case p of
     Fast \<Rightarrow> tigris_mem_note_fast_peak (m\<lparr>fast_used := fast_used m + n\<rparr>)
   | Slow \<Rightarrow> (let m' = m\<lparr>slow_used := slow_used m + n\<rparr> in
        if slow_used m' > slow_peak m' then m'\<lparr>slow_peak := slow_used m'\<rparr> else m'))"

definition alloc_bump :: "pool \<Rightarrow> mem \<Rightarrow> u16 \<Rightarrow> u32 \<Rightarrow> (mem_error + mem) option" where
  "alloc_bump p m tensor_idx size_bytes =
     (if pool_base p m = 0 then
        Some (Inl (if pool_size p m = 0 then MEM_ERR_OOM else MEM_ERR_NULL))
      else if tensor_idx \<ge> num_tensors m then Some (Inl MEM_ERR_BAD_INDEX)
      else case align_up_u32 size_bytes of
        None \<Rightarrow> Some (Inl MEM_ERR_OOM)
      | Some aligned \<Rightarrow>
        if pool_used p m > pool_size p m \<or> aligned > pool_size p m - pool_used p m
        then Some (Inl MEM_ERR_OOM)
        else do {
          ptrs \<leftarrow> arr_set (tensor_ptrs m) (unat tensor_idx) (pool_base p m + unat (pool_used p m));
          Some (Inr (pool_bump p aligned (m\<lparr>tensor_ptrs := ptrs\<rparr>)))
        })"

definition tigris_mem_alloc_fast :: "mem option \<Rightarrow> u16 \<Rightarrow> u32 \<Rightarrow> (mem_error + mem) option" where
  "tigris_mem_alloc_fast mo t n =
     (case mo of None \<Rightarrow> Some (Inl MEM_ERR_NULL) | Some m \<Rightarrow> alloc_bump Fast m t n)"

definition tigris_mem_alloc_slow :: "mem option \<Rightarrow> u16 \<Rightarrow> u32 \<Rightarrow> (mem_error + mem) option" where
  "tigris_mem_alloc_slow mo t n =
     (case mo of None \<Rightarrow> Some (Inl MEM_ERR_NULL) | Some m \<Rightarrow> alloc_bump Slow m t n)"

definition tigris_mem_reset_fast :: "mem \<Rightarrow> mem" where
  "tigris_mem_reset_fast m = m\<lparr>fast_used := fast_reserved m\<rparr>"

section \<open>Loads and spills\<close>

definition count_load :: "u32 \<Rightarrow> mem \<Rightarrow> mem" where
  "count_load n m = m\<lparr>stats := map_option (\<lambda>s. s\<lparr>loads_bytes := loads_bytes s + n\<rparr>) (stats m)\<rparr>"

definition count_spill :: "u32 \<Rightarrow> mem \<Rightarrow> mem" where
  "count_spill n m = m\<lparr>stats := map_option (\<lambda>s. s\<lparr>spills_bytes := spills_bytes s + n\<rparr>) (stats m)\<rparr>"

definition tigris_mem_load ::
  "mem option \<Rightarrow> u16 \<Rightarrow> u32 \<Rightarrow> ram \<Rightarrow> (mem_error + ram \<times> mem) option" where
  "tigris_mem_load mo t size_bytes h = (case mo of
     None \<Rightarrow> Some (Inl MEM_ERR_NULL)
   | Some m \<Rightarrow>
     if t \<ge> num_tensors m then Some (Inl MEM_ERR_BAD_INDEX)
     else do {
       src \<leftarrow> arr_get (tensor_ptrs m) (unat t);
       if src = 0 then Some (Inl MEM_ERR_NOT_SET)
       else andthen (tigris_mem_alloc_fast (Some m) t size_bytes) (\<lambda>m'. do {
         dst \<leftarrow> arr_get (tensor_ptrs m') (unat t);
         h' \<leftarrow> ram_memcpy h dst src (unat size_bytes);
         Some (Inr (h', count_load size_bytes m'))
       })
     })"

definition tigris_mem_spill ::
  "mem option \<Rightarrow> u16 \<Rightarrow> u32 \<Rightarrow> ram \<Rightarrow> (mem_error + ram \<times> mem) option" where
  "tigris_mem_spill mo t size_bytes h = (case mo of
     None \<Rightarrow> Some (Inl MEM_ERR_NULL)
   | Some m \<Rightarrow>
     if t \<ge> num_tensors m then Some (Inl MEM_ERR_BAD_INDEX)
     else do {
       src \<leftarrow> arr_get (tensor_ptrs m) (unat t);
       if src = 0 then Some (Inl MEM_ERR_NOT_SET)
       else andthen (tigris_mem_alloc_slow (Some m) t size_bytes) (\<lambda>m'. do {
         dst \<leftarrow> arr_get (tensor_ptrs m') (unat t);
         h' \<leftarrow> ram_memcpy h dst src (unat size_bytes);
         Some (Inr (h', count_spill size_bytes m'))
       })
     })"

section \<open>The invariant of the manager\<close>

definition pool_peak :: "pool \<Rightarrow> mem \<Rightarrow> u32" where
  "pool_peak p m = (case p of Fast \<Rightarrow> fast_peak m | Slow \<Rightarrow> slow_peak m)"

text \<open>The next free address and the first address past the pool.\<close>

definition pool_top :: "pool \<Rightarrow> mem \<Rightarrow> nat" where
  "pool_top p m = pool_base p m + unat (pool_used p m)"

definition pool_limit :: "pool \<Rightarrow> mem \<Rightarrow> nat" where
  "pool_limit p m = pool_base p m + unat (pool_size p m)"

definition pool_wf :: "pool \<Rightarrow> mem \<Rightarrow> bool" where
  "pool_wf p m = (pool_used p m \<le> pool_peak p m \<and> pool_peak p m \<le> pool_size p m \<and>
     32 dvd pool_top p m \<and> (pool_base p m = 0 \<longrightarrow> pool_size p m = 0))"

definition mem_wf :: "mem \<Rightarrow> bool" where
  "mem_wf m = (unat (num_tensors m) \<le> length (tensor_ptrs m) \<and> pool_wf Fast m \<and> pool_wf Slow m \<and>
     fast_base m \<noteq> 0 \<and> fast_reserved m \<le> fast_used m \<and>
     32 dvd fast_base m + unat (fast_reserved m))"

lemmas pool_simps = pool_base_def pool_used_def pool_size_def pool_peak_def pool_top_def
  pool_limit_def

lemma unat_align_gap: "unat (align_gap a) = (32 - a mod 32) mod 32"
  unfolding align_gap_def by (rule unat_of_nat_u32) (rule less_trans [of _ 32], simp_all)

lemma align_gap_dvd: "32 dvd a + unat (align_gap a)"
proof (cases "a mod 32 = 0")
  case True
  then show ?thesis by (simp add: unat_align_gap mod_eq_0_iff_dvd)
next
  case False
  then have g: "unat (align_gap a) = 32 - a mod 32"
    by (simp add: unat_align_gap)
  define q r where "q = a div 32" and "r = a mod 32"
  then have "a = q * 32 + r" "r < 32" by simp_all
  then have "a + (32 - r) = (q + 1) * 32" by simp
  then have "a + unat (align_gap a) = (q + 1) * 32"
    by (simp only: g r_def)
  then show ?thesis by (metis dvd_triv_right)
qed

lemma mem_wf_init:
  assumes "tigris_mem_init z ptrs n f fs b bs = Some (Inr m)"
  shows "mem_wf m"
proof -
  from assms obtain ps where ps: "ptrs = Some ps" "unat n \<le> length ps" "f \<noteq> 0"
    "0 < b \<or> bs = 0" "align_gap f \<le> fs" "align_gap b \<le> bs"
    and m: "m = \<lparr> tensor_ptrs = replicate (unat n) 0 @ drop (unat n) ps, num_tensors = n,
       fast_base = f, fast_size = fs, fast_used = align_gap f, fast_reserved = align_gap f,
       fast_peak = align_gap f, slow_base = b, slow_size = bs, slow_used = align_gap b,
       slow_peak = align_gap b, stats = None, tile = tile_ctx_zero \<rparr>"
    by (auto simp: tigris_mem_init_def Let_def not_less split: option.splits if_splits)
  show ?thesis
    using ps unfolding m
    by (auto simp add: mem_wf_def pool_wf_def pool_simps align_gap_dvd)
qed

section \<open>What an allocation does\<close>

text \<open>The abstract outcome: the error, or the pointer stored and the pool's top moved.\<close>

definition alloc_outcome :: "pool \<Rightarrow> mem \<Rightarrow> u16 \<Rightarrow> u32 \<Rightarrow> mem_error option" where
  "alloc_outcome p m t n =
     (if pool_base p m = 0 then Some MEM_ERR_OOM
      else if num_tensors m \<le> t then Some MEM_ERR_BAD_INDEX
      else if unat (pool_used p m) + round_up (unat n) \<le> unat (pool_size p m)
           \<and> unat n \<le> 4294967264 then None
      else Some MEM_ERR_OOM)"

lemma pool_bump_used:
  "unat (pool_used p m) + unat a < 4294967296 \<Longrightarrow>
     unat (pool_used p (pool_bump p a m)) = unat (pool_used p m) + unat a"
  by (cases p)
    (simp_all add: pool_bump_def pool_used_def tigris_mem_note_fast_peak_def Let_def unat_add_u32)

lemma pool_bump_frame [simp]:
  "pool_base q (pool_bump p a m) = pool_base q m"
  "pool_size q (pool_bump p a m) = pool_size q m"
  "tensor_ptrs (pool_bump p a m) = tensor_ptrs m"
  "num_tensors (pool_bump p a m) = num_tensors m"
  "fast_base (pool_bump p a m) = fast_base m"
  "fast_size (pool_bump p a m) = fast_size m"
  "slow_base (pool_bump p a m) = slow_base m"
  "slow_size (pool_bump p a m) = slow_size m"
  "fast_reserved (pool_bump p a m) = fast_reserved m"
  "stats (pool_bump p a m) = stats m"
  "tile (pool_bump p a m) = tile m"
  "p \<noteq> q \<Longrightarrow> pool_used q (pool_bump p a m) = pool_used q m"
  "p \<noteq> q \<Longrightarrow> pool_peak q (pool_bump p a m) = pool_peak q m"
  by (cases p; cases q; simp add: pool_bump_def pool_simps tigris_mem_note_fast_peak_def Let_def)+

lemma pool_bump_peak:
  "pool_peak p (pool_bump p a m) = max (pool_peak p m) (pool_used p (pool_bump p a m))"
  by (cases p)
    (auto simp: pool_bump_def pool_simps tigris_mem_note_fast_peak_def Let_def max_def)

lemma pool_bump_wf:
  assumes wf: "pool_wf p m" and room: "unat (pool_used p m) + unat a \<le> unat (pool_size p m)"
    and al: "32 dvd unat a"
  shows "pool_wf p (pool_bump p a m)"
proof -
  let ?m = "pool_bump p a m"
  have lt: "unat (pool_used p m) + unat a < 4294967296"
    using room unat_u32_less [of "pool_size p m"] by linarith
  note u = pool_bump_used [OF lt]
  have "pool_used p ?m \<le> pool_size p ?m"
    using room by (simp add: word_le_nat_alt u)
  moreover have "32 dvd pool_top p ?m"
    using wf al by (simp add: pool_wf_def pool_top_def u add.assoc [symmetric])
  ultimately show ?thesis
    using wf by (auto simp: pool_wf_def pool_bump_peak)
qed

lemma pool_bump_wf_other:
  "p \<noteq> q \<Longrightarrow> pool_wf q (pool_bump p a m) = pool_wf q m"
  by (simp add: pool_wf_def pool_top_def)

lemma pool_wf_ptrs [simp]: "pool_wf p (m\<lparr>tensor_ptrs := ps\<rparr>) = pool_wf p m"
  by (cases p) (simp_all add: pool_wf_def pool_simps)

lemma pool_ptrs [simp]:
  "pool_base p (m\<lparr>tensor_ptrs := ps\<rparr>) = pool_base p m"
  "pool_used p (m\<lparr>tensor_ptrs := ps\<rparr>) = pool_used p m"
  "pool_size p (m\<lparr>tensor_ptrs := ps\<rparr>) = pool_size p m"
  "pool_peak p (m\<lparr>tensor_ptrs := ps\<rparr>) = pool_peak p m"
  by (cases p; simp add: pool_simps)+

lemma mem_wf_pool: "mem_wf m \<Longrightarrow> pool_wf p m"
  by (cases p) (simp_all add: mem_wf_def)

lemma mem_wf_alloc:
  assumes wf: "mem_wf m" and room: "unat (pool_used p m) + unat a \<le> unat (pool_size p m)"
    and al: "32 dvd unat a"
  shows "mem_wf (pool_bump p a (m\<lparr>tensor_ptrs := (tensor_ptrs m)[i := x]\<rparr>))"
proof -
  let ?n = "m\<lparr>tensor_ptrs := (tensor_ptrs m)[i := x]\<rparr>"
  let ?m = "pool_bump p a ?n"
  have pw: "pool_wf p ?m"
    using wf room al by (intro pool_bump_wf) (simp_all add: mem_wf_pool)
  have w: "pool_wf Fast ?m \<and> pool_wf Slow ?m"
    using pw wf mem_wf_pool by (cases p) (simp_all add: pool_bump_wf_other)
  have lt: "unat (pool_used p m) + unat a < 4294967296"
    using room unat_u32_less [of "pool_size p m"] by linarith
  have "fast_used m \<le> fast_used ?m"
  proof (cases p)
    case Fast
    then show ?thesis
      using pool_bump_used [of p ?n a] lt by (simp add: word_le_nat_alt pool_used_def)
  next
    case Slow
    then show ?thesis
      using pool_bump_frame(12) [of p Fast a ?n] by (simp add: pool_used_def)
  qed
  with w wf show ?thesis by (auto simp: mem_wf_def)
qed

lemma alloc_bump_OOM_less:
  "pool_wf p m \<Longrightarrow> \<not> pool_used p m > pool_size p m"
  by (auto simp: pool_wf_def)

lemma alloc_bump_correct:
  assumes wf: "mem_wf m"
  shows "alloc_bump p m t n = (case alloc_outcome p m t n of
     Some e \<Rightarrow> Some (Inl e)
   | None \<Rightarrow> Some (Inr (pool_bump p (word_of_nat (round_up (unat n)))
       (m\<lparr>tensor_ptrs := (tensor_ptrs m)[unat t := pool_top p m]\<rparr>))))"
proof (cases "pool_base p m = 0 \<or> num_tensors m \<le> t")
  case True
  with mem_wf_pool [OF wf, of p] show ?thesis
    by (auto simp: alloc_bump_def alloc_outcome_def pool_wf_def)
next
  case False
  have i: "unat t < length (tensor_ptrs m)"
    using False wf by (auto simp: mem_wf_def word_le_nat_alt)
  have ule: "pool_used p m \<le> pool_size p m"
    using mem_wf_pool [OF wf, of p] by (auto simp: pool_wf_def)
  show ?thesis
  proof (cases "align_up_u32 n")
    case None
    then have "\<not> unat n \<le> 4294967264" by (simp add: align_up_u32_None)
    with False None show ?thesis
      by (simp add: alloc_bump_def alloc_outcome_def)
  next
    case (Some a)
    then have a: "unat n \<le> 4294967264" "unat a = round_up (unat n)"
      by (simp_all add: align_up_u32_Some)
    then have ae: "a = word_of_nat (round_up (unat n))"
      by (metis of_nat_unat ucast_id)
    have "\<not> a > pool_size p m - pool_used p m \<longleftrightarrow>
        unat (pool_used p m) + round_up (unat n) \<le> unat (pool_size p m)"
      using ule a(2) by (auto simp: word_less_nat_alt unat_sub word_le_nat_alt)
    with False Some a(1) ule i ae show ?thesis
      by (auto simp: alloc_bump_def alloc_outcome_def pool_top_def arr_set_def)
  qed
qed

lemma pool_bump_top:
  assumes "unat (pool_used p m) + round_up (unat n) \<le> unat (pool_size p m)"
  shows "pool_top p (pool_bump p (word_of_nat (round_up (unat n))) m) =
           pool_top p m + round_up (unat n)"
    and "unat (word_of_nat (round_up (unat n)) :: u32) = round_up (unat n)"
proof -
  have "round_up (unat n) < 4294967296"
    using assms unat_u32_less [of "pool_size p m"] by linarith
  then show u: "unat (word_of_nat (round_up (unat n)) :: u32) = round_up (unat n)"
    by (rule unat_of_nat_u32)
  show "pool_top p (pool_bump p (word_of_nat (round_up (unat n))) m) =
           pool_top p m + round_up (unat n)"
    using assms unat_u32_less [of "pool_size p m"]
    by (simp add: pool_top_def pool_bump_used u)
qed

text \<open>The contract of one allocation, as the clients use it.\<close>

lemma alloc_bump_contract:
  assumes "mem_wf m"
  shows "wp (alloc_bump p m t n) (ok (\<lambda>m'. mem_wf m' \<and> unat t < unat (num_tensors m) \<and>
     pool_base p m \<noteq> 0 \<and>
     tensor_ptrs m' = (tensor_ptrs m)[unat t := pool_top p m] \<and>
     num_tensors m' = num_tensors m \<and>
     pool_top p m' = pool_top p m + round_up (unat n) \<and>
     pool_top p m' \<le> pool_limit p m \<and> pool_limit p m' = pool_limit p m \<and>
     (\<forall>q. pool_base q m' = pool_base q m) \<and>
     (\<forall>q. q \<noteq> p \<longrightarrow> pool_top q m' = pool_top q m \<and> pool_limit q m' = pool_limit q m)))"
proof (cases "alloc_outcome p m t n")
  case (Some e)
  then show ?thesis by (simp add: alloc_bump_correct [OF assms])
next
  case None
  then have c: "pool_base p m \<noteq> 0" "t < num_tensors m"
    "unat (pool_used p m) + round_up (unat n) \<le> unat (pool_size p m)"
    by (auto simp: alloc_outcome_def not_le split: if_splits)
  let ?m = "m\<lparr>tensor_ptrs := (tensor_ptrs m)[unat t := pool_top p m]\<rparr>"
  have top: "pool_top p (pool_bump p (word_of_nat (round_up (unat n))) ?m) =
      pool_top p m + round_up (unat n)"
    using pool_bump_top(1) [of p ?m n] c(3) by (simp add: pool_top_def)
  have wf: "mem_wf (pool_bump p (word_of_nat (round_up (unat n))) ?m)"
    using c(3) pool_bump_top(2) [OF c(3)] by (intro mem_wf_alloc [OF assms]) simp_all
  have le: "pool_top p m + round_up (unat n) \<le> pool_limit p m"
    using c(3) by (simp add: pool_top_def pool_limit_def)
  show ?thesis
    unfolding alloc_bump_correct [OF assms] None
    using wf le c by (simp add: top) (simp add: pool_limit_def pool_top_def word_less_nat_alt)
qed

text \<open>When an allocation succeeds: its rounded size fits the rest of the pool.\<close>

definition has_room :: "pool \<Rightarrow> mem \<Rightarrow> nat \<Rightarrow> bool" where
  "has_room p m n = (n \<le> 4294967264 \<and> pool_top p m + round_up n \<le> pool_limit p m)"

lemma alloc_bump_exactly:
  assumes wf: "mem_wf m" and t: "t < num_tensors m" and base: "pool_base p m \<noteq> 0"
  shows "wp (alloc_bump p m t n) (exactly MEM_ERR_OOM (has_room p m (unat n)) (\<lambda>m'. mem_wf m' \<and>
     tensor_ptrs m' = (tensor_ptrs m)[unat t := pool_top p m] \<and>
     num_tensors m' = num_tensors m \<and>
     pool_top p m' = pool_top p m + round_up (unat n) \<and> pool_limit p m' = pool_limit p m \<and>
     (\<forall>q. pool_base q m' = pool_base q m) \<and>
     (\<forall>q. q \<noteq> p \<longrightarrow> pool_top q m' = pool_top q m \<and> pool_limit q m' = pool_limit q m)))"
proof (cases "alloc_outcome p m t n")
  case (Some e)
  then show ?thesis
    using t base by (auto simp: alloc_bump_correct [OF wf] alloc_outcome_def has_room_def
        pool_top_def pool_limit_def split: if_splits)
next
  case None
  then have "has_room p m (unat n)"
    by (auto simp: alloc_outcome_def has_room_def pool_top_def pool_limit_def split: if_splits)
  then show ?thesis
    using alloc_bump_contract [OF wf, of p t n] None by (simp add: alloc_bump_correct [OF wf])
qed

section \<open>Sequences of allocations\<close>

text \<open>A bump pool promises its clients what one allocation does; from that, inside the
  locale, everything about a sequence of them: the blocks are aligned, inside the pool and
  pairwise disjoint.\<close>

fun alloc_all :: "('s \<Rightarrow> u16 \<Rightarrow> u32 \<Rightarrow> ('e + 's) option) \<Rightarrow> 's \<Rightarrow> (u16 \<times> u32) list \<Rightarrow>
    ('e + 's) option" where
  "alloc_all alloc s [] = Some (Inr s)"
| "alloc_all alloc s ((t, n) # rs) = andthen (alloc s t n) (\<lambda>s'. alloc_all alloc s' rs)"

definition blocks_disjoint :: "(u16 \<Rightarrow> nat) \<Rightarrow> (u16 \<times> u32) list \<Rightarrow> bool" where
  "blocks_disjoint ptr rs = (\<forall>j < length rs. \<forall>i < j.
     ptr (fst (rs ! i)) + unat (snd (rs ! i)) \<le> ptr (fst (rs ! j)))"

locale bump_pool =
  fixes inv :: "'s \<Rightarrow> bool"
    and top :: "'s \<Rightarrow> nat"
    and limit :: "'s \<Rightarrow> nat"
    and ptr :: "'s \<Rightarrow> u16 \<Rightarrow> nat"
    and alloc :: "'s \<Rightarrow> u16 \<Rightarrow> u32 \<Rightarrow> ('e + 's) option"
  assumes alloc_contract: "inv s \<Longrightarrow> wp (alloc s t n) (ok (\<lambda>s'. inv s' \<and> ptr s' t = top s \<and>
      top s' = top s + round_up (unat n) \<and> top s' \<le> limit s \<and> limit s' = limit s \<and>
      (\<forall>u. u \<noteq> t \<longrightarrow> ptr s' u = ptr s u)))"
    and top_aligned: "inv s \<Longrightarrow> 32 dvd top s"
begin

lemma alloc_all_other:
  assumes "inv s" and "u \<notin> fst ` set rs" and "alloc_all alloc s rs = Some (Inr s')"
  shows "ptr s' u = ptr s u"
  using assms
proof (induction rs arbitrary: s)
  case (Cons r rs)
  obtain t n where r: "r = (t, n)" by (cases r)
  from Cons.prems(3) obtain s1 where s1: "alloc s t n = Some (Inr s1)"
    "alloc_all alloc s1 rs = Some (Inr s')"
    by (auto simp: r andthen_Inr)
  with alloc_contract [OF Cons.prems(1), of t n] Cons.prems(2) have "inv s1" "ptr s1 u = ptr s u"
    by (auto simp: r)
  with Cons.IH [of s1] Cons.prems(2) s1(2) show ?case by (simp add: r)
qed simp

lemma alloc_all_correct:
  assumes "inv s" and "distinct (map fst rs)"
  shows "wp (alloc_all alloc s rs) (ok (\<lambda>s'. inv s' \<and> limit s' = limit s \<and> top s \<le> top s' \<and>
      (\<forall>(t, n) \<in> set rs. 32 dvd ptr s' t \<and> top s \<le> ptr s' t \<and> ptr s' t + unat n \<le> top s') \<and>
      (rs \<noteq> [] \<longrightarrow> top s' \<le> limit s) \<and> blocks_disjoint (ptr s') rs))"
  using assms
proof (induction rs arbitrary: s)
  case Nil
  then show ?case by (simp add: blocks_disjoint_def)
next
  case (Cons r rs)
  obtain t n where r: "r = (t, n)" by (cases r)
  show ?case
    unfolding r alloc_all.simps
  proof (rule wp_andthen [OF alloc_contract [OF Cons.prems(1), of t n]])
    fix s1 assume eq: "alloc s t n = Some (Inr s1)" and c: "inv s1 \<and> ptr s1 t = top s \<and>
      top s1 = top s + round_up (unat n) \<and> top s1 \<le> limit s \<and> limit s1 = limit s \<and>
      (\<forall>u. u \<noteq> t \<longrightarrow> ptr s1 u = ptr s u)"
    have d: "distinct (map fst rs)" "t \<notin> fst ` set rs"
      using Cons.prems(2) by (simp_all add: r)
    have n: "unat n \<le> round_up (unat n)" by (rule round_up_ge)
    show "wp (alloc_all alloc s1 rs) (ok (\<lambda>s'. inv s' \<and> limit s' = limit s \<and> top s \<le> top s' \<and>
        (\<forall>(u, k) \<in> set ((t, n) # rs). 32 dvd ptr s' u \<and> top s \<le> ptr s' u \<and>
           ptr s' u + unat k \<le> top s') \<and>
        ((t, n) # rs \<noteq> [] \<longrightarrow> top s' \<le> limit s) \<and> blocks_disjoint (ptr s') ((t, n) # rs)))"
    proof (rule wp_mono [OF Cons.IH [of s1]])
      fix res assume run: "alloc_all alloc s1 rs = Some res" and post:
        "ok (\<lambda>s'. inv s' \<and> limit s' = limit s1 \<and> top s1 \<le> top s' \<and>
          (\<forall>(t, n) \<in> set rs. 32 dvd ptr s' t \<and> top s1 \<le> ptr s' t \<and> ptr s' t + unat n \<le> top s') \<and>
          (rs \<noteq> [] \<longrightarrow> top s' \<le> limit s1) \<and> blocks_disjoint (ptr s') rs) res"
      show "ok (\<lambda>s'. inv s' \<and> limit s' = limit s \<and> top s \<le> top s' \<and>
        (\<forall>(u, k) \<in> set ((t, n) # rs). 32 dvd ptr s' u \<and> top s \<le> ptr s' u \<and>
           ptr s' u + unat k \<le> top s') \<and>
        ((t, n) # rs \<noteq> [] \<longrightarrow> top s' \<le> limit s) \<and> blocks_disjoint (ptr s') ((t, n) # rs)) res"
        using post
      proof (rule ok_mono)
        fix s' assume res: "res = Inr s'" and p: "inv s' \<and> limit s' = limit s1 \<and> top s1 \<le> top s' \<and>
          (\<forall>(t, n) \<in> set rs. 32 dvd ptr s' t \<and> top s1 \<le> ptr s' t \<and> ptr s' t + unat n \<le> top s') \<and>
          (rs \<noteq> [] \<longrightarrow> top s' \<le> limit s1) \<and> blocks_disjoint (ptr s') rs"
        have pt: "ptr s' t = top s"
          using alloc_all_other [of s1 t rs s'] run res c d(2) by simp
        have lims: "top s' \<le> limit s" if "rs = []"
          using that run res c by simp
        have rest: "\<And>u k. (u, k) \<in> set rs \<Longrightarrow> top s + unat n \<le> ptr s' u"
          using p c n by fastforce
        have "blocks_disjoint (ptr s') ((t, n) # rs)"
          unfolding blocks_disjoint_def
        proof (intro allI impI)
          fix j i assume ij: "j < length ((t, n) # rs)" "i < j"
          then obtain j' where j': "j = Suc j'" "j' < length rs" by (cases j) auto
          have "(fst (rs ! j'), snd (rs ! j')) \<in> set rs" using j'(2) by simp
          note far = rest [OF this]
          show "ptr s' (fst (((t, n) # rs) ! i)) + unat (snd (((t, n) # rs) ! i))
              \<le> ptr s' (fst (((t, n) # rs) ! j))"
            using ij j' far pt p by (cases i) (auto simp: blocks_disjoint_def)
        qed
        then show "inv s' \<and> limit s' = limit s \<and> top s \<le> top s' \<and>
            (\<forall>(u, k) \<in> set ((t, n) # rs). 32 dvd ptr s' u \<and> top s \<le> ptr s' u \<and>
               ptr s' u + unat k \<le> top s') \<and>
            ((t, n) # rs \<noteq> [] \<longrightarrow> top s' \<le> limit s) \<and> blocks_disjoint (ptr s') ((t, n) # rs)"
          using p c n pt lims top_aligned [OF Cons.prems(1)] by (cases "rs = []") fastforce+
      qed
    qed (use c d in auto)
  qed
qed

end

text \<open>Both pools of the manager are bump pools.\<close>

lemma pool_contract:
  assumes "mem_wf m"
  shows "wp (alloc_bump p m t n) (ok (\<lambda>m'. mem_wf m' \<and> tensor_ptrs m' ! unat t = pool_top p m \<and>
      pool_top p m' = pool_top p m + round_up (unat n) \<and> pool_top p m' \<le> pool_limit p m \<and>
      pool_limit p m' = pool_limit p m \<and>
      (\<forall>u. u \<noteq> t \<longrightarrow> tensor_ptrs m' ! unat u = tensor_ptrs m ! unat u)))"
  by (rule wp_mono [OF alloc_bump_contract [OF assms, of p t n]], erule ok_mono)
    (use assms in \<open>auto simp: mem_wf_def nth_list_update word_unat_eq_iff\<close>)

lemma mem_wf_top_aligned: "mem_wf m \<Longrightarrow> 32 dvd pool_top p m"
  using mem_wf_pool [of m p] by (simp add: pool_wf_def)

interpretation fast_pool: bump_pool mem_wf "pool_top Fast" "pool_limit Fast"
    "\<lambda>m t. tensor_ptrs m ! unat t" "\<lambda>m. tigris_mem_alloc_fast (Some m)"
  by unfold_locales
    (simp_all add: tigris_mem_alloc_fast_def pool_contract mem_wf_top_aligned)

interpretation slow_pool: bump_pool mem_wf "pool_top Slow" "pool_limit Slow"
    "\<lambda>m t. tensor_ptrs m ! unat t" "\<lambda>m. tigris_mem_alloc_slow (Some m)"
  by unfold_locales
    (simp_all add: tigris_mem_alloc_slow_def pool_contract mem_wf_top_aligned)

section \<open>Moving a tensor between the pools\<close>

lemma mem_wf_frame:
  assumes "mem_wf m" and "tensor_ptrs m' = tensor_ptrs m" "num_tensors m' = num_tensors m"
    "\<And>p. pool_base p m' = pool_base p m" "\<And>p. pool_used p m' = pool_used p m"
    "\<And>p. pool_size p m' = pool_size p m" "\<And>p. pool_peak p m' = pool_peak p m"
    "fast_reserved m' = fast_reserved m"
  shows "mem_wf m'"
  using assms(1,2,3,8) assms(4-7)[of Fast] assms(4-7)[of Slow]
  by (simp add: mem_wf_def pool_wf_def pool_simps)

lemma count_frame [simp]:
  "tensor_ptrs (count_load k m) = tensor_ptrs m" "tensor_ptrs (count_spill k m) = tensor_ptrs m"
  "num_tensors (count_load k m) = num_tensors m" "num_tensors (count_spill k m) = num_tensors m"
  "pool_base p (count_load k m) = pool_base p m" "pool_base p (count_spill k m) = pool_base p m"
  "pool_used p (count_load k m) = pool_used p m" "pool_used p (count_spill k m) = pool_used p m"
  "pool_size p (count_load k m) = pool_size p m" "pool_size p (count_spill k m) = pool_size p m"
  "pool_peak p (count_load k m) = pool_peak p m" "pool_peak p (count_spill k m) = pool_peak p m"
  "fast_reserved (count_load k m) = fast_reserved m"
  "fast_reserved (count_spill k m) = fast_reserved m"
  by (cases p; simp add: count_load_def count_spill_def pool_simps)+

lemma count_top [simp]:
  "pool_top p (count_load k m) = pool_top p m" "pool_top p (count_spill k m) = pool_top p m"
  "pool_limit p (count_load k m) = pool_limit p m"
  "pool_limit p (count_spill k m) = pool_limit p m"
  by (simp_all add: pool_top_def pool_limit_def)

lemma mem_wf_count [simp]:
  "mem_wf m \<Longrightarrow> mem_wf (count_load k m)" "mem_wf m \<Longrightarrow> mem_wf (count_spill k m)"
  by (erule mem_wf_frame; simp)+

text \<open>The state and memory after moving tensor \<open>t\<close> to the top of pool \<open>p\<close>.\<close>

definition moved :: "pool \<Rightarrow> mem \<Rightarrow> u16 \<Rightarrow> u32 \<Rightarrow> ram \<Rightarrow> ram \<times> mem \<Rightarrow> bool" where
  "moved p m t n h r = (case r of (h', m') \<Rightarrow>
     mem_wf m' \<and> num_tensors m' = num_tensors m \<and>
     tensor_ptrs m' = (tensor_ptrs m)[unat t := pool_top p m] \<and>
     h' = ram_copy h (pool_top p m) (tensor_ptrs m ! unat t) (unat n) \<and>
     pool_top p m' = pool_top p m + round_up (unat n) \<and> pool_top p m' \<le> pool_limit p m \<and>
     (\<forall>q. pool_limit q m' = pool_limit q m) \<and> (\<forall>q. q \<noteq> p \<longrightarrow> pool_top q m' = pool_top q m) \<and>
     (\<forall>q. pool_base q m' = pool_base q m) \<and> pool_base p m \<noteq> 0)"

definition apart :: "nat \<Rightarrow> nat \<Rightarrow> nat \<Rightarrow> bool" where
  "apart a b n = (n = 0 \<or> a + n \<le> b \<or> b + n \<le> a)"

lemma transfer_contract:
  assumes wf: "mem_wf m"
    and src: "pool_top p m + unat n \<le> pool_limit p m \<Longrightarrow>
      apart (pool_top p m) (tensor_ptrs m ! unat t) (unat n)"
    and f: "\<And>m. mem_wf m \<Longrightarrow> mem_wf (f m)" "\<And>m. tensor_ptrs (f m) = tensor_ptrs m"
      "\<And>m. num_tensors (f m) = num_tensors m" "\<And>m q. pool_top q (f m) = pool_top q m"
      "\<And>m q. pool_limit q (f m) = pool_limit q m" "\<And>m q. pool_base q (f m) = pool_base q m"
  shows "wp (andthen (alloc_bump p m t n) (\<lambda>m'. do {
       dst \<leftarrow> arr_get (tensor_ptrs m') (unat t);
       h' \<leftarrow> ram_memcpy h dst (tensor_ptrs m ! unat t) (unat n);
       Some (Inr (h', f m'))
     })) (ok (moved p m t n h))"
proof (rule wp_andthen [OF alloc_bump_contract [OF wf, of p t n]])
  fix m'
  assume c: "mem_wf m' \<and> unat t < unat (num_tensors m) \<and> pool_base p m \<noteq> 0 \<and>
     tensor_ptrs m' = (tensor_ptrs m)[unat t := pool_top p m] \<and>
     num_tensors m' = num_tensors m \<and> pool_top p m' = pool_top p m + round_up (unat n) \<and>
     pool_top p m' \<le> pool_limit p m \<and> pool_limit p m' = pool_limit p m \<and>
     (\<forall>q. pool_base q m' = pool_base q m) \<and>
     (\<forall>q. q \<noteq> p \<longrightarrow> pool_top q m' = pool_top q m \<and> pool_limit q m' = pool_limit q m)"
  have i: "unat t < length (tensor_ptrs m)"
    using c wf by (auto simp: mem_wf_def)
  have l: "\<forall>q. pool_limit q m' = pool_limit q m"
    using c by metis
  have "apart (pool_top p m) (tensor_ptrs m ! unat t) (unat n)"
    using c round_up_ge [of "unat n"] by (intro src) linarith
  then show "wp (do {
       dst \<leftarrow> arr_get (tensor_ptrs m') (unat t);
       h' \<leftarrow> ram_memcpy h dst (tensor_ptrs m ! unat t) (unat n);
       Some (Inr (h', f m'))
     }) (ok (moved p m t n h))"
    using c i l by (auto simp: wp_rules apart_def moved_def f)
qed

lemma transfer_error:
  assumes "mem_wf m" "alloc_outcome p m t n = Some e"
  shows "andthen (alloc_bump p m t n) k = Some (Inl e)"
  using assms by (simp add: alloc_bump_correct)

lemma alloc_bump_Inr_outcome:
  "mem_wf m \<Longrightarrow> alloc_bump p m t n = Some (Inr m') \<Longrightarrow> alloc_outcome p m t n = None"
  by (cases "alloc_outcome p m t n") (simp_all add: alloc_bump_correct)

definition tensor_set :: "mem \<Rightarrow> u16 \<Rightarrow> bool" where
  "tensor_set m t = (t < num_tensors m \<and> tensor_ptrs m ! unat t \<noteq> 0)"

lemma mem_load_moved:
  assumes "mem_wf m" "tensor_set m t" "pool_top Fast m + unat n \<le> pool_limit Fast m \<Longrightarrow>
      apart (pool_top Fast m) (tensor_ptrs m ! unat t) (unat n)"
  shows "wp (tigris_mem_load (Some m) t n h) (ok (moved Fast m t n h))"
proof -
  have "unat t < length (tensor_ptrs m)"
    using assms(1,2) by (auto simp: mem_wf_def tensor_set_def word_less_nat_alt)
  then show ?thesis
    using assms(2) transfer_contract [OF assms(1,3), of "count_load n" h]
    by (simp add: tigris_mem_load_def tigris_mem_alloc_fast_def tensor_set_def wp_rules not_le)
qed

lemma mem_spill_moved:
  assumes "mem_wf m" "tensor_set m t" "pool_top Slow m + unat n \<le> pool_limit Slow m \<Longrightarrow>
      apart (pool_top Slow m) (tensor_ptrs m ! unat t) (unat n)"
  shows "wp (tigris_mem_spill (Some m) t n h) (ok (moved Slow m t n h))"
proof -
  have "unat t < length (tensor_ptrs m)"
    using assms(1,2) by (auto simp: mem_wf_def tensor_set_def word_less_nat_alt)
  then show ?thesis
    using assms(2) transfer_contract [OF assms(1,3), of "count_spill n" h]
    by (simp add: tigris_mem_spill_def tigris_mem_alloc_slow_def tensor_set_def wp_rules not_le)
qed

lemma mem_wf_reset: "mem_wf m \<Longrightarrow> mem_wf (tigris_mem_reset_fast m)"
  by (auto simp: mem_wf_def tigris_mem_reset_fast_def pool_wf_def pool_simps)

text \<open>The two pools do not overlap.\<close>

definition pools_disjoint :: "mem \<Rightarrow> bool" where
  "pools_disjoint m = (pool_limit Fast m \<le> slow_base m \<or> pool_limit Slow m \<le> fast_base m)"

text \<open>A block that lies in the used part of a pool.\<close>

definition block_in :: "pool \<Rightarrow> mem \<Rightarrow> nat \<Rightarrow> nat \<Rightarrow> bool" where
  "block_in p m a n = (pool_base p m \<le> a \<and> a + n \<le> pool_top p m)"

lemma top_le_limit: "mem_wf m \<Longrightarrow> pool_top p m \<le> pool_limit p m"
  using mem_wf_pool [of m p] by (auto simp: pool_wf_def pool_top_def pool_limit_def word_le_nat_alt)

lemma block_in_apart: "block_in p m a n \<Longrightarrow> apart (pool_top p m) a n"
  by (auto simp: block_in_def apart_def)

text \<open>The public allocator of each pool.\<close>

fun alloc_from :: "pool \<Rightarrow> mem option \<Rightarrow> u16 \<Rightarrow> u32 \<Rightarrow> (mem_error + mem) option" where
  "alloc_from Fast m t n = tigris_mem_alloc_fast m t n"
| "alloc_from Slow m t n = tigris_mem_alloc_slow m t n"

section \<open>Properties\<close>

text \<open>\<open>tigris_mem_init\<close> on every argument. It reports a null argument or a buffer
  too small to reach an aligned address exactly when there is one, and otherwise establishes the
  manager's invariant with every tensor pointer cleared, both pools empty up to the alignment
  gap, no statistics and an inactive tile context.\<close>

lemma mem_init_correct:
  "case tigris_mem_init z ptrs n f fs b bs of
     None \<Rightarrow> (\<exists>ps. ptrs = Some ps \<and> length ps < unat n)
   | Some (Inl e) \<Rightarrow>
       (e = MEM_ERR_NULL \<and> (z \<or> ptrs = None \<or> f = 0 \<or> b = 0 \<and> bs \<noteq> 0)) \<or>
       (e = MEM_ERR_OOM \<and> (unat fs < (32 - f mod 32) mod 32 \<or> unat bs < (32 - b mod 32) mod 32))
   | Some (Inr m) \<Rightarrow> mem_wf m \<and> (\<forall>t < num_tensors m. tigris_mem_tensor_ptr (Some m) t = Some 0) \<and>
       num_tensors m = n \<and> fast_base m = f \<and> fast_size m = fs \<and> slow_base m = b \<and>
       slow_size m = bs \<and> pool_top Fast m < f + 32 \<and> pool_top Slow m < b + 32 \<and>
       stats m = None \<and> tile m = tile_ctx_zero"
proof (cases "tigris_mem_init z ptrs n f fs b bs")
  case None
  then show ?thesis
    by (auto simp: tigris_mem_init_def Let_def split: option.splits if_splits)
next
  case (Some r)
  show ?thesis
  proof (cases r)
    case (Inl e)
    with Some show ?thesis
      by (auto simp: tigris_mem_init_def Let_def word_less_nat_alt unat_align_gap
          split: option.splits if_splits)
  next
    case (Inr m)
    have wf: "mem_wf m" using Some Inr by (auto intro: mem_wf_init)
    have gap: "unat (align_gap a) < 32" for a by (simp add: unat_align_gap)
    show ?thesis
      using Some wf unfolding Inr
      by (auto simp: tigris_mem_init_def Let_def tigris_mem_tensor_ptr_def pool_simps gap
          nth_append word_less_nat_alt arr_get_def split: option.splits if_splits)
  qed
qed

text \<open>C22. Blocks handed out one after the other by \<open>tigris_mem_alloc_fast\<close>, or by
  \<open>tigris_mem_alloc_slow\<close>, for different tensors: each is aligned to 32 bytes, lies inside
  the pool's buffer above what was used before, and no two overlap; the invariant is kept. No
  allocation touches memory outside the pointer table.\<close>

theorem alloc_sequence_disjoint:
  assumes "mem_wf m" and "distinct (map fst rs)"
  shows "wp (alloc_all (\<lambda>m. alloc_from p (Some m)) m rs) (ok (\<lambda>m'. mem_wf m' \<and>
      (\<forall>(t, n) \<in> set rs. 32 dvd tensor_ptrs m' ! unat t \<and> pool_top p m \<le> tensor_ptrs m' ! unat t \<and>
         tensor_ptrs m' ! unat t + unat n \<le> pool_limit p m) \<and>
      blocks_disjoint (\<lambda>t. tensor_ptrs m' ! unat t) rs))"
proof (cases p)
  case Fast
  show ?thesis
    unfolding Fast alloc_from.simps
    by (rule wp_mono [OF fast_pool.alloc_all_correct [OF assms]], erule ok_mono, cases "rs = []")
      (simp, fastforce)
next
  case Slow
  show ?thesis
    unfolding Slow alloc_from.simps
    by (rule wp_mono [OF slow_pool.alloc_all_correct [OF assms]], erule ok_mono, cases "rs = []")
      (simp, fastforce)
qed

text \<open>A concrete manager: three tensors, a misaligned slow buffer.\<close>

definition demo_mem :: mem where
  "demo_mem = \<lparr> tensor_ptrs = [0, 4096, 0], num_tensors = 3, fast_base = 4096, fast_size = 256,
     fast_used = 96, fast_reserved = 0, fast_peak = 96, slow_base = 8196, slow_size = 512,
     slow_used = 28, slow_peak = 28, stats = None, tile = tile_ctx_zero \<rparr>"

definition demo_ram :: ram where
  "demo_ram a = word_of_nat (a * 7 + 3)"

lemma demo_mem_wf: "mem_wf demo_mem"
  by (simp add: mem_wf_def pool_wf_def pool_simps demo_mem_def)

lemma alloc_sequence_disjoint_witness:
  "wp (alloc_all (\<lambda>m. alloc_from Fast (Some m)) demo_mem [(0, 33), (2, 20)]) (ok (\<lambda>m'.
     blocks_disjoint (\<lambda>t. tensor_ptrs m' ! unat t) [(0, 33), (2, 20)]))"
  by (rule wp_mono [OF alloc_sequence_disjoint [OF demo_mem_wf, where p = Fast]]) (auto elim: ok_mono)

text \<open>One allocation from either pool, on every state that satisfies the invariant:
  a missing buffer and an exhausted one are OOM, an unknown tensor is a bad index, and otherwise
  exactly when the rounded size fits the remaining room the tensor's pointer becomes the old top,
  the top moves up by the rounded size and nothing else changes.\<close>

lemma alloc_exact:
  assumes "mem_wf m"
  shows "tigris_mem_alloc_fast (Some m) t n =
      (if num_tensors m \<le> t then Some (Inl MEM_ERR_BAD_INDEX)
       else if unat n \<le> 4294967264 \<and> pool_top Fast m + round_up (unat n) \<le> pool_limit Fast m
       then Some (Inr (tigris_mem_note_fast_peak (m\<lparr>
              tensor_ptrs := (tensor_ptrs m)[unat t := pool_top Fast m],
              fast_used := fast_used m + word_of_nat (round_up (unat n))\<rparr>)))
       else Some (Inl MEM_ERR_OOM)) \<and>
    tigris_mem_alloc_slow (Some m) t n =
      (if slow_base m = 0 then Some (Inl MEM_ERR_OOM)
       else if num_tensors m \<le> t then Some (Inl MEM_ERR_BAD_INDEX)
       else if unat n \<le> 4294967264 \<and> pool_top Slow m + round_up (unat n) \<le> pool_limit Slow m
       then Some (Inr (m\<lparr>
              tensor_ptrs := (tensor_ptrs m)[unat t := pool_top Slow m],
              slow_used := slow_used m + word_of_nat (round_up (unat n)),
              slow_peak := max (slow_peak m) (slow_used m + word_of_nat (round_up (unat n)))\<rparr>))
       else Some (Inl MEM_ERR_OOM))"
proof
  have f: "fast_base m \<noteq> 0" using assms by (simp add: mem_wf_def)
  show "tigris_mem_alloc_fast (Some m) t n =
      (if num_tensors m \<le> t then Some (Inl MEM_ERR_BAD_INDEX)
       else if unat n \<le> 4294967264 \<and> pool_top Fast m + round_up (unat n) \<le> pool_limit Fast m
       then Some (Inr (tigris_mem_note_fast_peak (m\<lparr>
              tensor_ptrs := (tensor_ptrs m)[unat t := pool_top Fast m],
              fast_used := fast_used m + word_of_nat (round_up (unat n))\<rparr>)))
       else Some (Inl MEM_ERR_OOM))"
    using f unfolding tigris_mem_alloc_fast_def
    by (simp add: alloc_bump_correct [OF assms] alloc_outcome_def pool_simps pool_bump_def)
  show "tigris_mem_alloc_slow (Some m) t n =
      (if slow_base m = 0 then Some (Inl MEM_ERR_OOM)
       else if num_tensors m \<le> t then Some (Inl MEM_ERR_BAD_INDEX)
       else if unat n \<le> 4294967264 \<and> pool_top Slow m + round_up (unat n) \<le> pool_limit Slow m
       then Some (Inr (m\<lparr>
              tensor_ptrs := (tensor_ptrs m)[unat t := pool_top Slow m],
              slow_used := slow_used m + word_of_nat (round_up (unat n)),
              slow_peak := max (slow_peak m) (slow_used m + word_of_nat (round_up (unat n)))\<rparr>))
       else Some (Inl MEM_ERR_OOM))"
    unfolding tigris_mem_alloc_slow_def
    by (auto simp: alloc_bump_correct [OF assms] alloc_outcome_def pool_simps pool_bump_def
        Let_def max_def)
qed

text \<open>The two moves of a spill followed by a load, put together.\<close>

lemma moved_bytes:
  "moved p m t n h (h', m') \<Longrightarrow> i < unat n \<Longrightarrow>
     h' (pool_top p m + i) = h (tensor_ptrs m ! unat t + i)"
  by (simp add: moved_def ram_copy_in)

lemma moved_other_bytes:
  assumes "moved p m t n h (h', m')" "mem_wf m" "pools_disjoint m" "block_in q m a 1"
  shows "h' a = h a"
proof -
  have "a < pool_top p m \<or> pool_top p m + unat n \<le> a"
    using assms(1,3,4) round_up_ge [of "unat n"] top_le_limit [OF assms(2), of q]
      top_le_limit [OF assms(2), of p]
    by (cases p; cases q) (auto simp: moved_def block_in_def pools_disjoint_def pool_top_def
        pool_base_def pool_limit_def)
  with assms(1) show ?thesis by (simp add: moved_def ram_copy_out)
qed

lemma moved_block_in:
  assumes "moved p m t n h (h', m')" and "\<And>q. pool_base q m' = pool_base q m"
  shows "block_in q m a k \<Longrightarrow> block_in q m' a k"
  using assms round_up_ge [of "unat n"] by (cases "q = p") (auto simp: moved_def block_in_def)

lemma roundtrip_facts:
  assumes wf: "mem_wf m" and disj: "pools_disjoint m" and i: "unat t < length (tensor_ptrs m)"
    and mv: "moved Slow m t n h (h1, m1)" and mv2: "moved Fast m1 t n h1 (h2, m2)"
  shows "mem_wf m2 \<and> block_in Fast m2 (tensor_ptrs m2 ! unat t) (unat n) \<and>
    (\<forall>i < unat n. h2 (tensor_ptrs m2 ! unat t + i) = h (tensor_ptrs m ! unat t + i)) \<and>
    (\<forall>p a. block_in p m a 1 \<longrightarrow> h2 a = h a) \<and>
    (\<forall>u. u \<noteq> t \<longrightarrow> tensor_ptrs m2 ! unat u = tensor_ptrs m ! unat u)"
proof -
  have b1: "pool_base q m1 = pool_base q m" and b2: "pool_base q m2 = pool_base q m1" for q
    using mv mv2 by (simp_all add: moved_def)
  have d1: "pools_disjoint m1"
    using disj mv b1 [of Fast] b1 [of Slow] by (simp add: pools_disjoint_def moved_def pool_base_def)
  have wf1: "mem_wf m1" using mv by (simp add: moved_def)
  have p2: "tensor_ptrs m2 ! unat t = pool_top Fast m1" "tensor_ptrs m1 ! unat t = pool_top Slow m"
    using mv mv2 i by (simp_all add: moved_def)
  have "h2 (tensor_ptrs m2 ! unat t + k) = h (tensor_ptrs m ! unat t + k)" if "k < unat n" for k
    using moved_bytes [OF mv2 that] moved_bytes [OF mv that] p2 by simp
  moreover have "h2 a = h a" if "block_in p m a 1" for p a
    using moved_other_bytes [OF mv2 wf1 d1] moved_other_bytes [OF mv wf disj that]
      moved_block_in [OF mv b1 that] by metis
  moreover have "block_in Fast m2 (tensor_ptrs m2 ! unat t) (unat n)"
    using mv2 p2(1) b2 [of Fast] round_up_ge [of "unat n"]
    by (simp add: block_in_def moved_def pool_top_def)
  moreover have "\<forall>u. u \<noteq> t \<longrightarrow> tensor_ptrs m2 ! unat u = tensor_ptrs m ! unat u"
    using mv mv2 by (auto simp: moved_def nth_list_update word_unat_eq_iff)
  moreover have "mem_wf m2" using mv2 by (simp add: moved_def)
  ultimately show ?thesis by blast
qed

text \<open>C10. Spilling a tensor out of the fast arena and loading it back later. While the two
  buffers do not overlap, both transfers stay inside them, and when both succeed the tensor is
  in the fast arena with the bytes it had, every byte that was in use in either pool is
  unchanged, and no other tensor moved.\<close>

theorem spill_load_roundtrip:
  assumes wf: "mem_wf m" and disj: "pools_disjoint m"
    and set: "tensor_set m t" and blk: "block_in Fast m (tensor_ptrs m ! unat t) (unat n)"
  shows "wp (andthen (tigris_mem_spill (Some m) t n h)
           (\<lambda>(h1, m1). tigris_mem_load (Some m1) t n h1))
     (ok (\<lambda>(h2, m2). mem_wf m2 \<and> block_in Fast m2 (tensor_ptrs m2 ! unat t) (unat n) \<and>
        (\<forall>i < unat n. h2 (tensor_ptrs m2 ! unat t + i) = h (tensor_ptrs m ! unat t + i)) \<and>
        (\<forall>p a. block_in p m a 1 \<longrightarrow> h2 a = h a) \<and>
        (\<forall>u. u \<noteq> t \<longrightarrow> tensor_ptrs m2 ! unat u = tensor_ptrs m ! unat u)))"
proof -
  let ?src = "tensor_ptrs m ! unat t"
  have i: "unat t < length (tensor_ptrs m)"
    using wf set by (auto simp: mem_wf_def tensor_set_def word_less_nat_alt)
  have tops: "pool_top p m \<le> pool_limit p m" for p by (rule top_le_limit [OF wf])
  have bases: "pool_base p m \<le> pool_top p m" for p by (simp add: pool_top_def)
  note le = round_up_ge [of "unat n"]
  have ap: "apart (pool_top Slow m) ?src (unat n)"
    if "pool_top Slow m + unat n \<le> pool_limit Slow m"
    using that disj blk tops [of Fast] tops [of Slow] bases [of Slow] bases [of Fast]
    by (auto simp: pools_disjoint_def block_in_def apart_def pool_base_def)
  have spill: "wp (tigris_mem_spill (Some m) t n h) (ok (moved Slow m t n h))"
    by (rule mem_spill_moved [OF wf set]) (rule ap)
  show ?thesis
  proof (rule wp_andthen [OF spill])
    fix s1 assume "moved Slow m t n h s1"
    then obtain h1 m1 where s1: "s1 = (h1, m1)" and mv: "moved Slow m t n h (h1, m1)"
      by (cases s1) simp
    have m1: "mem_wf m1" "tensor_ptrs m1 ! unat t = pool_top Slow m" "num_tensors m1 = num_tensors m"
      "pool_top Fast m1 = pool_top Fast m" "pool_limit Fast m1 = pool_limit Fast m"
      "pool_top Slow m + round_up (unat n) \<le> pool_limit Slow m"
      "h1 = ram_copy h (pool_top Slow m) ?src (unat n)"
      using mv i by (auto simp: moved_def)
    have "pool_base Slow m \<noteq> 0"
      using mv by (simp add: moved_def)
    then have set1: "tensor_set m1 t"
      using set m1 by (simp add: tensor_set_def pool_top_def)
    have "wp (tigris_mem_load (Some m1) t n h1) (ok (\<lambda>(h2, m2).
        mem_wf m2 \<and> block_in Fast m2 (tensor_ptrs m2 ! unat t) (unat n) \<and>
        (\<forall>i < unat n. h2 (tensor_ptrs m2 ! unat t + i) = h (?src + i)) \<and>
        (\<forall>p a. block_in p m a 1 \<longrightarrow> h2 a = h a) \<and>
        (\<forall>u. u \<noteq> t \<longrightarrow> tensor_ptrs m2 ! unat u = tensor_ptrs m ! unat u)))"
    proof (rule wp_mono [OF mem_load_moved [OF m1(1) set1]])
      assume "pool_top Fast m1 + unat n \<le> pool_limit Fast m1"
      then show "apart (pool_top Fast m1) (tensor_ptrs m1 ! unat t) (unat n)"
        using disj le m1(2,4,5,6) bases [of Slow] bases [of Fast]
        by (auto simp: pools_disjoint_def apart_def pool_base_def)
    next
      fix r assume "ok (moved Fast m1 t n h1) r"
      then show "ok (\<lambda>(h2, m2).
        mem_wf m2 \<and> block_in Fast m2 (tensor_ptrs m2 ! unat t) (unat n) \<and>
        (\<forall>i < unat n. h2 (tensor_ptrs m2 ! unat t + i) = h (?src + i)) \<and>
        (\<forall>p a. block_in p m a 1 \<longrightarrow> h2 a = h a) \<and>
        (\<forall>u. u \<noteq> t \<longrightarrow> tensor_ptrs m2 ! unat u = tensor_ptrs m ! unat u)) r"
      proof (rule ok_mono)
        fix r2 assume "moved Fast m1 t n h1 r2"
        then show "case r2 of (h2, m2) \<Rightarrow>
            mem_wf m2 \<and> block_in Fast m2 (tensor_ptrs m2 ! unat t) (unat n) \<and>
            (\<forall>i < unat n. h2 (tensor_ptrs m2 ! unat t + i) = h (?src + i)) \<and>
            (\<forall>p a. block_in p m a 1 \<longrightarrow> h2 a = h a) \<and>
            (\<forall>u. u \<noteq> t \<longrightarrow> tensor_ptrs m2 ! unat u = tensor_ptrs m ! unat u)"
          using roundtrip_facts [OF wf disj i mv] by (cases r2) blast
      qed
    qed
    then show "wp (case s1 of (h1, m1) \<Rightarrow> tigris_mem_load (Some m1) t n h1) (ok (\<lambda>(h2, m2).
        mem_wf m2 \<and> block_in Fast m2 (tensor_ptrs m2 ! unat t) (unat n) \<and>
        (\<forall>i < unat n. h2 (tensor_ptrs m2 ! unat t + i) = h (?src + i)) \<and>
        (\<forall>p a. block_in p m a 1 \<longrightarrow> h2 a = h a) \<and>
        (\<forall>u. u \<noteq> t \<longrightarrow> tensor_ptrs m2 ! unat u = tensor_ptrs m ! unat u)))"
      by (simp add: s1)
  qed
qed

lemma spill_load_roundtrip_witness:
  "case andthen (tigris_mem_spill (Some demo_mem) 1 40 demo_ram)
      (\<lambda>(h1, m1). tigris_mem_load (Some m1) 1 40 h1) of
     Some (Inr (h2, m2)) \<Rightarrow> tensor_ptrs m2 ! 1 = 4192 \<and> (\<forall>i < 40. h2 (4192 + i) = demo_ram (4096 + i))
   | _ \<Rightarrow> False"
proof -
  have "wp (andthen (tigris_mem_spill (Some demo_mem) 1 40 demo_ram)
      (\<lambda>(h1, m1). tigris_mem_load (Some m1) 1 40 h1)) (ok (\<lambda>(h2, m2).
        \<forall>i < 40. h2 (tensor_ptrs m2 ! 1 + i) = demo_ram (4096 + i)))"
    by (rule wp_mono [OF spill_load_roundtrip [where m = demo_mem and t = 1 and n = 40]])
      (rule demo_mem_wf,
       auto elim!: ok_mono simp: pools_disjoint_def tensor_set_def block_in_def
        pool_simps demo_mem_def)
  moreover have "\<exists>h2 m2. andthen (tigris_mem_spill (Some demo_mem) 1 40 demo_ram)
      (\<lambda>(h1, m1). tigris_mem_load (Some m1) 1 40 h1) = Some (Inr (h2, m2)) \<and>
      tensor_ptrs m2 ! 1 = 4192"
    by (simp add: tigris_mem_spill_def tigris_mem_load_def tigris_mem_alloc_slow_def
        tigris_mem_alloc_fast_def alloc_bump_def align_up_u32_def TENSOR_ALIGN_def demo_mem_def
        pool_simps pool_bump_def Let_def ram_memcpy_def arr_get_def arr_set_def
        tigris_mem_note_fast_peak_def count_load_def count_spill_def word_le_nat_alt
        word_less_nat_alt)
  ultimately show ?thesis by auto
qed

end
