(* ===== verification/Plan_Format.thy ===== *)
theory Plan_Format
  imports Prelude
begin

text \<open>
  The plan file format (\<open>include/tigris.h\<close>): the packed little-endian structures of a
  \<open>.tgrs\<close> file as records, one decoder per structure over the loaded buffer, and the parsed
  plan handle \<open>tigris_plan\<close> whose pointers are positions in that buffer.

  \<^item> \<open>rd_T b i\<close> is the C expression \<open>*(const T *)(b + i)\<close>: it is \<open>None\<close> exactly when the
    structure does not lie inside the buffer.
  \<^item> \<open>wr_T\<close> is the wire layout the format states, the specification the decoders are
    checked against: the locale \<open>record_table\<close> shows that a table laid out entry after entry is
    read back entry by entry, and it is interpreted for every structure of the format.
\<close>

section \<open>Scalars on the wire\<close>

definition wr8 :: "u8 \<Rightarrow> bytes" where
  "wr8 w = [w]"

definition wr16 :: "u16 \<Rightarrow> bytes" where
  "wr16 w = [word_of_nat (unat w mod 256), word_of_nat (unat w div 256)]"

definition wr32 :: "u32 \<Rightarrow> bytes" where
  "wr32 w = wr16 (word_of_nat (unat w mod 65536)) @ wr16 (word_of_nat (unat w div 65536))"

definition wri8 :: "int \<Rightarrow> bytes" where
  "wri8 v = wr8 (word_of_int v)"

definition wri32 :: "int \<Rightarrow> bytes" where
  "wri32 v = wr32 (word_of_int v)"

definition rdi8 :: "bytes \<Rightarrow> nat \<Rightarrow> int option" where
  "rdi8 b i = map_option sint (rd8 b i)"

definition rd_bytes4 :: "bytes \<Rightarrow> nat \<Rightarrow> bytes option" where
  "rd_bytes4 b i = (if i + 4 \<le> length b then Some (take 4 (drop i b)) else None)"

lemma rdi8_defined [simp]: "(rdi8 b i = None) = (\<not> i < length b)"
  by (simp add: rdi8_def)

lemma rd_bytes4_defined [simp]: "(rd_bytes4 b i = None) = (\<not> i + 4 \<le> length b)"
  by (simp add: rd_bytes4_def)

lemma length_wr [simp]:
  "length (wr8 a) = 1" "length (wr16 c) = 2" "length (wr32 d) = 4"
  "length (wri8 v) = 1" "length (wri32 v) = 4"
  by (simp_all add: wr8_def wr16_def wr32_def wri8_def wri32_def)

named_theorems rd_wr \<open>reading back what the wire layout wrote\<close>

lemma rd8_append [rd_wr]: "length xs \<le> n \<Longrightarrow> rd8 (xs @ ys) n = rd8 ys (n - length xs)"
  by (auto simp: rd8_def arr_get_def nth_append)

lemma rd16_append [rd_wr]: "length xs \<le> n \<Longrightarrow> rd16 (xs @ ys) n = rd16 ys (n - length xs)"
  by (simp add: rd16_def rd8_append Suc_diff_le)

lemma rd32_append [rd_wr]: "length xs \<le> n \<Longrightarrow> rd32 (xs @ ys) n = rd32 ys (n - length xs)"
  by (simp add: rd32_def rd16_append Suc_diff_le)

lemma rdi8_append [rd_wr]: "length xs \<le> n \<Longrightarrow> rdi8 (xs @ ys) n = rdi8 ys (n - length xs)"
  by (simp add: rdi8_def rd8_append)

lemma rdi32_append [rd_wr]: "length xs \<le> n \<Longrightarrow> rdi32 (xs @ ys) n = rdi32 ys (n - length xs)"
  by (simp add: rdi32_def rd32_append)

lemma rd_bytes4_append [rd_wr]:
  "length xs \<le> n \<Longrightarrow> rd_bytes4 (xs @ ys) n = rd_bytes4 ys (n - length xs)"
  by (simp add: rd_bytes4_def) linarith

lemma rd8_wr8 [rd_wr]: "rd8 (wr8 w @ ys) 0 = Some w"
  by (simp add: rd8_def wr8_def arr_get_def)

lemma word_of_nat_unat_eq: "n = unat w \<Longrightarrow> word_of_nat n = (w :: 'a::len word)"
  by simp

lemma rd16_wr16 [rd_wr]: "rd16 (wr16 w @ ys) 0 = Some w"
proof -
  have "unat w div 256 < 256"
    using unat_u16_less [of w] by (simp add: div_less_iff_less_mult)
  then have "unat (word_of_nat (unat w mod 256) :: u8) + 256 * unat (word_of_nat (unat w div 256) :: u8)
      = unat w"
    by (subst unat_of_nat_u8, simp, subst unat_of_nat_u8, simp, simp)
  then show ?thesis
    unfolding rd16_def rd8_def wr16_def arr_get_def
    by (simp del: of_nat_add of_nat_mult of_nat_unat unat_of_nat) (rule word_of_nat_unat_eq, rule refl)
qed

lemma rd32_wr32 [rd_wr]: "rd32 (wr32 w @ ys) 0 = Some w"
proof -
  have "unat w div 65536 < 65536"
    using unat_u32_less [of w] by (simp add: div_less_iff_less_mult)
  then have "unat (word_of_nat (unat w mod 65536) :: u16)
      + 65536 * unat (word_of_nat (unat w div 65536) :: u16) = unat w"
    by (subst unat_of_nat_u16, simp, subst unat_of_nat_u16, simp, simp)
  then show ?thesis
    unfolding rd32_def wr32_def
    by (simp del: of_nat_add of_nat_mult of_nat_unat unat_of_nat add: rd16_append rd16_wr16)
      (rule word_of_nat_unat_eq, rule refl)
qed

lemma rdi8_wri8 [rd_wr]: "-128 \<le> v \<Longrightarrow> v \<le> 127 \<Longrightarrow> rdi8 (wri8 v @ ys) 0 = Some v"
  by (simp add: rdi8_def wri8_def rd8_wr8 signed_of_int signed_take_bit_int_eq_self)

lemma rdi32_wri32 [rd_wr]:
  "-2147483648 \<le> v \<Longrightarrow> v \<le> 2147483647 \<Longrightarrow> rdi32 (wri32 v @ ys) 0 = Some v"
  by (simp add: rdi32_def wri32_def rd32_wr32 signed_of_int signed_take_bit_int_eq_self)

lemma rd_bytes4_wr [rd_wr]: "length m = 4 \<Longrightarrow> rd_bytes4 (m @ ys) 0 = Some m"
  by (simp add: rd_bytes4_def)

section \<open>Tables of fixed-size records\<close>

locale record_table =
  fixes rd :: "bytes \<Rightarrow> nat \<Rightarrow> 'r option"
    and wr :: "'r \<Rightarrow> bytes"
    and size :: nat
    and valid :: "'r \<Rightarrow> bool"
  assumes rd_defined: "(rd b i = None) = (\<not> i + size \<le> length b)"
    and length_wr_record: "valid r \<Longrightarrow> length (wr r) = size"
    and rd_wr_record: "valid r \<Longrightarrow> rd (xs @ wr r @ ys) (length xs) = Some r"
begin

lemma entry_in_table:
  assumes "base + n * size \<le> length b" and "i < n"
  shows "rd b (base + i * size) \<noteq> None"
proof -
  have "i * size + size \<le> n * size"
    using mult_le_mono1 [of "Suc i" n size] assms(2) by simp
  then show ?thesis
    using assms(1) by (simp add: rd_defined)
qed

lemma entry_Some:
  "base + n * size \<le> length b \<Longrightarrow> i < n \<Longrightarrow> \<exists>r. rd b (base + i * size) = Some r"
  using entry_in_table [of base n b i] by blast

lemma wp_entry:
  assumes "base + n * size \<le> length b" and "i < n"
  shows "wp (rd b (base + i * size)) P = P (the (rd b (base + i * size)))"
  using entry_in_table [OF assms] by auto

lemma length_table:
  "(\<forall>r \<in> set rs. valid r) \<Longrightarrow> length (concat (map wr rs)) = length rs * size"
  by (induction rs) (simp_all add: length_wr_record)

lemma table_roundtrip:
  assumes "\<forall>r \<in> set rs. valid r" and "i < length rs"
  shows "rd (xs @ concat (map wr rs) @ ys) (length xs + i * size) = Some (rs ! i)"
proof -
  let ?b = "concat (map wr (take i rs))"
  have split: "concat (map wr rs) = ?b @ wr (rs ! i) @ concat (map wr (drop (Suc i) rs))"
    using id_take_nth_drop [OF assms(2)] by (metis concat.simps(2) concat_append list.simps(9) map_append)
  have "length ?b = length (take i rs) * size"
    by (rule length_table) (use assms(1) in \<open>auto dest: in_set_takeD\<close>)
  then have "length ?b = i * size"
    using assms(2) by simp
  then show ?thesis
    using rd_wr_record [of "rs ! i" "xs @ ?b" "concat (map wr (drop (Suc i) rs)) @ ys"] assms
    by (simp add: split)
qed

end

section \<open>The structures of the format\<close>

text \<open>File header, 48 bytes.\<close>

record file_header =
  hd_magic :: bytes
  hd_version :: u32
  hd_file_size :: u32
  hd_section_dir_off :: u32
  hd_num_tensors :: u16
  hd_num_ops :: u16
  hd_num_stages :: u16
  hd_num_tile_plans :: u16
  hd_budget :: u32
  hd_peak :: u32
  hd_model_name_str :: u32
  hd_model_io_off :: u16
  hd_num_model_inputs :: u8
  hd_num_model_outputs :: u8
  hd_num_weights :: u16
  hd_num_quant_params :: u16
  hd_flags :: u32

definition rd_file_header :: "bytes \<Rightarrow> nat \<Rightarrow> file_header option" where
  "rd_file_header b i = do {
     magic \<leftarrow> rd_bytes4 b i;
     version \<leftarrow> rd32 b (i + 4);
     file_size \<leftarrow> rd32 b (i + 8);
     section_dir_off \<leftarrow> rd32 b (i + 12);
     num_tensors \<leftarrow> rd16 b (i + 16);
     num_ops \<leftarrow> rd16 b (i + 18);
     num_stages \<leftarrow> rd16 b (i + 20);
     num_tile_plans \<leftarrow> rd16 b (i + 22);
     budget \<leftarrow> rd32 b (i + 24);
     peak \<leftarrow> rd32 b (i + 28);
     model_name_str \<leftarrow> rd32 b (i + 32);
     model_io_off \<leftarrow> rd16 b (i + 36);
     num_model_inputs \<leftarrow> rd8 b (i + 38);
     num_model_outputs \<leftarrow> rd8 b (i + 39);
     num_weights \<leftarrow> rd16 b (i + 40);
     num_quant_params \<leftarrow> rd16 b (i + 42);
     flags \<leftarrow> rd32 b (i + 44);
     Some \<lparr> hd_magic = magic, hd_version = version, hd_file_size = file_size,
       hd_section_dir_off = section_dir_off, hd_num_tensors = num_tensors,
       hd_num_ops = num_ops, hd_num_stages = num_stages,
       hd_num_tile_plans = num_tile_plans, hd_budget = budget, hd_peak = peak,
       hd_model_name_str = model_name_str, hd_model_io_off = model_io_off,
       hd_num_model_inputs = num_model_inputs, hd_num_model_outputs = num_model_outputs,
       hd_num_weights = num_weights, hd_num_quant_params = num_quant_params,
       hd_flags = flags \<rparr> }"

definition wr_file_header :: "file_header \<Rightarrow> bytes" where
  "wr_file_header r = hd_magic r @ wr32 (hd_version r) @ wr32 (hd_file_size r) @
     wr32 (hd_section_dir_off r) @ wr16 (hd_num_tensors r) @ wr16 (hd_num_ops r) @
     wr16 (hd_num_stages r) @ wr16 (hd_num_tile_plans r) @ wr32 (hd_budget r) @
     wr32 (hd_peak r) @ wr32 (hd_model_name_str r) @ wr16 (hd_model_io_off r) @
     wr8 (hd_num_model_inputs r) @ wr8 (hd_num_model_outputs r) @
     wr16 (hd_num_weights r) @ wr16 (hd_num_quant_params r) @ wr32 (hd_flags r)"

lemma rd_file_header_defined [simp]: "(rd_file_header b i = None) = (\<not> i + 48 \<le> length b)"
  by (auto simp: rd_file_header_def bind_eq_None_conv)

text \<open>Section directory entry; type 0 ends the directory, 8 bytes.\<close>

record section_entry =
  se_type :: u32
  se_offset :: u32

definition rd_section_entry :: "bytes \<Rightarrow> nat \<Rightarrow> section_entry option" where
  "rd_section_entry b i = do {
     type \<leftarrow> rd32 b i;
     offset \<leftarrow> rd32 b (i + 4);
     Some \<lparr> se_type = type, se_offset = offset \<rparr> }"

definition wr_section_entry :: "section_entry \<Rightarrow> bytes" where
  "wr_section_entry r = wr32 (se_type r) @ wr32 (se_offset r)"

lemma rd_section_entry_defined [simp]: "(rd_section_entry b i = None) = (\<not> i + 8 \<le> length b)"
  by (auto simp: rd_section_entry_def bind_eq_None_conv)

text \<open>Tensor descriptor, 16 bytes.\<close>

record tigris_tensor =
  tn_name_str :: u32
  tn_size_bytes :: u32
  tn_shape_off :: u16
  tn_ndim :: u8
  tn_dtype :: u8
  tn_flags :: u8
  tn_quant_param_idx :: u16
  tn_iface_dtype :: u8

definition rd_tigris_tensor :: "bytes \<Rightarrow> nat \<Rightarrow> tigris_tensor option" where
  "rd_tigris_tensor b i = do {
     name_str \<leftarrow> rd32 b i;
     size_bytes \<leftarrow> rd32 b (i + 4);
     shape_off \<leftarrow> rd16 b (i + 8);
     ndim \<leftarrow> rd8 b (i + 10);
     dtype \<leftarrow> rd8 b (i + 11);
     flags \<leftarrow> rd8 b (i + 12);
     quant_param_idx \<leftarrow> rd16 b (i + 13);
     iface_dtype \<leftarrow> rd8 b (i + 15);
     Some \<lparr> tn_name_str = name_str, tn_size_bytes = size_bytes, tn_shape_off = shape_off,
       tn_ndim = ndim, tn_dtype = dtype, tn_flags = flags,
       tn_quant_param_idx = quant_param_idx, tn_iface_dtype = iface_dtype \<rparr> }"

definition wr_tigris_tensor :: "tigris_tensor \<Rightarrow> bytes" where
  "wr_tigris_tensor r = wr32 (tn_name_str r) @ wr32 (tn_size_bytes r) @ wr16 (tn_shape_off r) @
     wr8 (tn_ndim r) @ wr8 (tn_dtype r) @ wr8 (tn_flags r) @
     wr16 (tn_quant_param_idx r) @ wr8 (tn_iface_dtype r)"

lemma rd_tigris_tensor_defined [simp]: "(rd_tigris_tensor b i = None) = (\<not> i + 16 \<le> length b)"
  by (auto simp: rd_tigris_tensor_def bind_eq_None_conv)

text \<open>Spatial attributes, embedded in an operator, 18 bytes.\<close>

record spatial_attrs =
  sp_kernel_h :: u8
  sp_kernel_w :: u8
  sp_stride_h :: u8
  sp_stride_w :: u8
  sp_pad_top :: u16
  sp_pad_bottom :: u16
  sp_pad_left :: u16
  sp_pad_right :: u16
  sp_dilation_h :: u16
  sp_dilation_w :: u16
  sp_group :: u16

definition rd_spatial_attrs :: "bytes \<Rightarrow> nat \<Rightarrow> spatial_attrs option" where
  "rd_spatial_attrs b i = do {
     kernel_h \<leftarrow> rd8 b i;
     kernel_w \<leftarrow> rd8 b (i + 1);
     stride_h \<leftarrow> rd8 b (i + 2);
     stride_w \<leftarrow> rd8 b (i + 3);
     pad_top \<leftarrow> rd16 b (i + 4);
     pad_bottom \<leftarrow> rd16 b (i + 6);
     pad_left \<leftarrow> rd16 b (i + 8);
     pad_right \<leftarrow> rd16 b (i + 10);
     dilation_h \<leftarrow> rd16 b (i + 12);
     dilation_w \<leftarrow> rd16 b (i + 14);
     group \<leftarrow> rd16 b (i + 16);
     Some \<lparr> sp_kernel_h = kernel_h, sp_kernel_w = kernel_w, sp_stride_h = stride_h,
       sp_stride_w = stride_w, sp_pad_top = pad_top, sp_pad_bottom = pad_bottom,
       sp_pad_left = pad_left, sp_pad_right = pad_right, sp_dilation_h = dilation_h,
       sp_dilation_w = dilation_w, sp_group = group \<rparr> }"

definition wr_spatial_attrs :: "spatial_attrs \<Rightarrow> bytes" where
  "wr_spatial_attrs r = wr8 (sp_kernel_h r) @ wr8 (sp_kernel_w r) @ wr8 (sp_stride_h r) @
     wr8 (sp_stride_w r) @ wr16 (sp_pad_top r) @ wr16 (sp_pad_bottom r) @
     wr16 (sp_pad_left r) @ wr16 (sp_pad_right r) @ wr16 (sp_dilation_h r) @
     wr16 (sp_dilation_w r) @ wr16 (sp_group r)"

lemma rd_spatial_attrs_defined [simp]: "(rd_spatial_attrs b i = None) = (\<not> i + 18 \<le> length b)"
  by (auto simp: rd_spatial_attrs_def bind_eq_None_conv)

text \<open>Operator descriptor, 38 bytes.\<close>

record tigris_op =
  op_name_str :: u32
  op_op_type :: u8
  op_num_inputs :: u8
  op_num_outputs :: u8
  op_stage :: u8
  op_inputs_off :: u16
  op_outputs_off :: u16
  op_spatial :: spatial_attrs
  op_weight_idx :: u16
  op_bias_idx :: u16
  op_fused_act :: u8
  op_act_min :: int
  op_act_max :: int
  op_pad1 :: u8

definition rd_tigris_op :: "bytes \<Rightarrow> nat \<Rightarrow> tigris_op option" where
  "rd_tigris_op b i = do {
     name_str \<leftarrow> rd32 b i;
     op_type \<leftarrow> rd8 b (i + 4);
     num_inputs \<leftarrow> rd8 b (i + 5);
     num_outputs \<leftarrow> rd8 b (i + 6);
     stage \<leftarrow> rd8 b (i + 7);
     inputs_off \<leftarrow> rd16 b (i + 8);
     outputs_off \<leftarrow> rd16 b (i + 10);
     spatial \<leftarrow> rd_spatial_attrs b (i + 12);
     weight_idx \<leftarrow> rd16 b (i + 30);
     bias_idx \<leftarrow> rd16 b (i + 32);
     fused_act \<leftarrow> rd8 b (i + 34);
     act_min \<leftarrow> rdi8 b (i + 35);
     act_max \<leftarrow> rdi8 b (i + 36);
     pad1 \<leftarrow> rd8 b (i + 37);
     Some \<lparr> op_name_str = name_str, op_op_type = op_type, op_num_inputs = num_inputs,
       op_num_outputs = num_outputs, op_stage = stage, op_inputs_off = inputs_off,
       op_outputs_off = outputs_off, op_spatial = spatial, op_weight_idx = weight_idx,
       op_bias_idx = bias_idx, op_fused_act = fused_act, op_act_min = act_min,
       op_act_max = act_max, op_pad1 = pad1 \<rparr> }"

definition wr_tigris_op :: "tigris_op \<Rightarrow> bytes" where
  "wr_tigris_op r = wr32 (op_name_str r) @ wr8 (op_op_type r) @ wr8 (op_num_inputs r) @
     wr8 (op_num_outputs r) @ wr8 (op_stage r) @ wr16 (op_inputs_off r) @
     wr16 (op_outputs_off r) @ wr_spatial_attrs (op_spatial r) @
     wr16 (op_weight_idx r) @ wr16 (op_bias_idx r) @ wr8 (op_fused_act r) @
     wri8 (op_act_min r) @ wri8 (op_act_max r) @ wr8 (op_pad1 r)"

lemma rd_tigris_op_defined [simp]: "(rd_tigris_op b i = None) = (\<not> i + 38 \<le> length b)"
  by (auto simp: rd_tigris_op_def bind_eq_None_conv)

text \<open>Stage descriptor, 28 bytes.\<close>

record tigris_stage =
  sg_peak_bytes :: u32
  sg_ops_off :: u16
  sg_ops_count :: u16
  sg_inputs_off :: u16
  sg_inputs_count :: u16
  sg_outputs_off :: u16
  sg_outputs_count :: u16
  sg_tile_plan_idx :: u16
  sg_pad0 :: u16
  sg_chain_id :: u16
  sg_chain_len :: u16
  sg_chain_tile_h :: u16
  sg_reserved1 :: u16

definition rd_tigris_stage :: "bytes \<Rightarrow> nat \<Rightarrow> tigris_stage option" where
  "rd_tigris_stage b i = do {
     peak_bytes \<leftarrow> rd32 b i;
     ops_off \<leftarrow> rd16 b (i + 4);
     ops_count \<leftarrow> rd16 b (i + 6);
     inputs_off \<leftarrow> rd16 b (i + 8);
     inputs_count \<leftarrow> rd16 b (i + 10);
     outputs_off \<leftarrow> rd16 b (i + 12);
     outputs_count \<leftarrow> rd16 b (i + 14);
     tile_plan_idx \<leftarrow> rd16 b (i + 16);
     pad0 \<leftarrow> rd16 b (i + 18);
     chain_id \<leftarrow> rd16 b (i + 20);
     chain_len \<leftarrow> rd16 b (i + 22);
     chain_tile_h \<leftarrow> rd16 b (i + 24);
     reserved1 \<leftarrow> rd16 b (i + 26);
     Some \<lparr> sg_peak_bytes = peak_bytes, sg_ops_off = ops_off, sg_ops_count = ops_count,
       sg_inputs_off = inputs_off, sg_inputs_count = inputs_count,
       sg_outputs_off = outputs_off, sg_outputs_count = outputs_count,
       sg_tile_plan_idx = tile_plan_idx, sg_pad0 = pad0, sg_chain_id = chain_id,
       sg_chain_len = chain_len, sg_chain_tile_h = chain_tile_h, sg_reserved1 = reserved1 \<rparr> }"

definition wr_tigris_stage :: "tigris_stage \<Rightarrow> bytes" where
  "wr_tigris_stage r = wr32 (sg_peak_bytes r) @ wr16 (sg_ops_off r) @ wr16 (sg_ops_count r) @
     wr16 (sg_inputs_off r) @ wr16 (sg_inputs_count r) @ wr16 (sg_outputs_off r) @
     wr16 (sg_outputs_count r) @ wr16 (sg_tile_plan_idx r) @ wr16 (sg_pad0 r) @
     wr16 (sg_chain_id r) @ wr16 (sg_chain_len r) @ wr16 (sg_chain_tile_h r) @
     wr16 (sg_reserved1 r)"

lemma rd_tigris_stage_defined [simp]: "(rd_tigris_stage b i = None) = (\<not> i + 28 \<le> length b)"
  by (auto simp: rd_tigris_stage_def bind_eq_None_conv)

text \<open>Tile plan through schema 9, 24 bytes.\<close>

record tile_plan =
  tp_tileable :: u8
  tp_axis :: u8
  tp_tile_height :: u16
  tp_num_tiles :: u16
  tp_halo :: u16
  tp_receptive_field :: u16
  tp_original_height :: u16
  tp_tiled_peak_bytes :: u32
  tp_overhead_bytes :: u32
  tp_tile_width :: u16
  tp_flags :: u16

definition rd_tile_plan :: "bytes \<Rightarrow> nat \<Rightarrow> tile_plan option" where
  "rd_tile_plan b i = do {
     tileable \<leftarrow> rd8 b i;
     axis \<leftarrow> rd8 b (i + 1);
     tile_height \<leftarrow> rd16 b (i + 2);
     num_tiles \<leftarrow> rd16 b (i + 4);
     halo \<leftarrow> rd16 b (i + 6);
     receptive_field \<leftarrow> rd16 b (i + 8);
     original_height \<leftarrow> rd16 b (i + 10);
     tiled_peak_bytes \<leftarrow> rd32 b (i + 12);
     overhead_bytes \<leftarrow> rd32 b (i + 16);
     tile_width \<leftarrow> rd16 b (i + 20);
     flags \<leftarrow> rd16 b (i + 22);
     Some \<lparr> tp_tileable = tileable, tp_axis = axis, tp_tile_height = tile_height,
       tp_num_tiles = num_tiles, tp_halo = halo, tp_receptive_field = receptive_field,
       tp_original_height = original_height, tp_tiled_peak_bytes = tiled_peak_bytes,
       tp_overhead_bytes = overhead_bytes, tp_tile_width = tile_width, tp_flags = flags \<rparr> }"

definition wr_tile_plan :: "tile_plan \<Rightarrow> bytes" where
  "wr_tile_plan r = wr8 (tp_tileable r) @ wr8 (tp_axis r) @ wr16 (tp_tile_height r) @
     wr16 (tp_num_tiles r) @ wr16 (tp_halo r) @ wr16 (tp_receptive_field r) @
     wr16 (tp_original_height r) @ wr32 (tp_tiled_peak_bytes r) @
     wr32 (tp_overhead_bytes r) @ wr16 (tp_tile_width r) @ wr16 (tp_flags r)"

lemma rd_tile_plan_defined [simp]: "(rd_tile_plan b i = None) = (\<not> i + 24 \<le> length b)"
  by (auto simp: rd_tile_plan_def bind_eq_None_conv)

text \<open>Schema-10 scheduling choices, 32 bytes.\<close>

record tile_plan_v10 =
  tw_tileable :: u8
  tw_axis :: u8
  tw_flags :: u16
  tw_input_band_extent :: u32
  tw_output_band_extent :: u32
  tw_output_width_extent :: u32
  tw_input_channel_group :: u32
  tw_input_spatial_interval :: u32
  tw_output_linear_segment :: u32
  tw_tiled_peak_bytes :: u32

definition rd_tile_plan_v10 :: "bytes \<Rightarrow> nat \<Rightarrow> tile_plan_v10 option" where
  "rd_tile_plan_v10 b i = do {
     tileable \<leftarrow> rd8 b i;
     axis \<leftarrow> rd8 b (i + 1);
     flags \<leftarrow> rd16 b (i + 2);
     input_band_extent \<leftarrow> rd32 b (i + 4);
     output_band_extent \<leftarrow> rd32 b (i + 8);
     output_width_extent \<leftarrow> rd32 b (i + 12);
     input_channel_group \<leftarrow> rd32 b (i + 16);
     input_spatial_interval \<leftarrow> rd32 b (i + 20);
     output_linear_segment \<leftarrow> rd32 b (i + 24);
     tiled_peak_bytes \<leftarrow> rd32 b (i + 28);
     Some \<lparr> tw_tileable = tileable, tw_axis = axis, tw_flags = flags,
       tw_input_band_extent = input_band_extent,
       tw_output_band_extent = output_band_extent,
       tw_output_width_extent = output_width_extent,
       tw_input_channel_group = input_channel_group,
       tw_input_spatial_interval = input_spatial_interval,
       tw_output_linear_segment = output_linear_segment,
       tw_tiled_peak_bytes = tiled_peak_bytes \<rparr> }"

definition wr_tile_plan_v10 :: "tile_plan_v10 \<Rightarrow> bytes" where
  "wr_tile_plan_v10 r = wr8 (tw_tileable r) @ wr8 (tw_axis r) @ wr16 (tw_flags r) @
     wr32 (tw_input_band_extent r) @ wr32 (tw_output_band_extent r) @
     wr32 (tw_output_width_extent r) @ wr32 (tw_input_channel_group r) @
     wr32 (tw_input_spatial_interval r) @ wr32 (tw_output_linear_segment r) @
     wr32 (tw_tiled_peak_bytes r)"

lemma rd_tile_plan_v10_defined [simp]: "(rd_tile_plan_v10 b i = None) = (\<not> i + 32 \<le> length b)"
  by (auto simp: rd_tile_plan_v10_def bind_eq_None_conv)

text \<open>What a schema-11 tile record states about its tiling, 16 bytes.\<close>

record tile_facts =
  tf_tile_extent :: u32
  tf_num_tiles :: u32
  tf_original_extent :: u32
  tf_halo :: u16
  tf_band_axis :: u8
  tf_band :: u8

definition rd_tile_facts :: "bytes \<Rightarrow> nat \<Rightarrow> tile_facts option" where
  "rd_tile_facts b i = do {
     tile_extent \<leftarrow> rd32 b i;
     num_tiles \<leftarrow> rd32 b (i + 4);
     original_extent \<leftarrow> rd32 b (i + 8);
     halo \<leftarrow> rd16 b (i + 12);
     band_axis \<leftarrow> rd8 b (i + 14);
     band \<leftarrow> rd8 b (i + 15);
     Some \<lparr> tf_tile_extent = tile_extent, tf_num_tiles = num_tiles,
       tf_original_extent = original_extent, tf_halo = halo, tf_band_axis = band_axis,
       tf_band = band \<rparr> }"

definition wr_tile_facts :: "tile_facts \<Rightarrow> bytes" where
  "wr_tile_facts r = wr32 (tf_tile_extent r) @ wr32 (tf_num_tiles r) @ wr32 (tf_original_extent r) @
     wr16 (tf_halo r) @ wr8 (tf_band_axis r) @ wr8 (tf_band r)"

lemma rd_tile_facts_defined [simp]: "(rd_tile_facts b i = None) = (\<not> i + 16 \<le> length b)"
  by (auto simp: rd_tile_facts_def bind_eq_None_conv)

text \<open>Schema-11 tile record, 48 bytes.\<close>

record tile_plan_v11 =
  tx_choices :: tile_plan_v10
  tx_facts :: tile_facts

definition rd_tile_plan_v11 :: "bytes \<Rightarrow> nat \<Rightarrow> tile_plan_v11 option" where
  "rd_tile_plan_v11 b i = do {
     choices \<leftarrow> rd_tile_plan_v10 b i;
     facts \<leftarrow> rd_tile_facts b (i + 32);
     Some \<lparr> tx_choices = choices, tx_facts = facts \<rparr> }"

definition wr_tile_plan_v11 :: "tile_plan_v11 \<Rightarrow> bytes" where
  "wr_tile_plan_v11 r = wr_tile_plan_v10 (tx_choices r) @ wr_tile_facts (tx_facts r)"

lemma rd_tile_plan_v11_defined [simp]: "(rd_tile_plan_v11 b i = None) = (\<not> i + 48 \<le> length b)"
  by (auto simp: rd_tile_plan_v11_def bind_eq_None_conv)

text \<open>Weight entry, 12 bytes.\<close>

record weight_entry =
  we_name_str :: u32
  we_offset :: u32
  we_size_bytes :: u32

definition rd_weight_entry :: "bytes \<Rightarrow> nat \<Rightarrow> weight_entry option" where
  "rd_weight_entry b i = do {
     name_str \<leftarrow> rd32 b i;
     offset \<leftarrow> rd32 b (i + 4);
     size_bytes \<leftarrow> rd32 b (i + 8);
     Some \<lparr> we_name_str = name_str, we_offset = offset, we_size_bytes = size_bytes \<rparr> }"

definition wr_weight_entry :: "weight_entry \<Rightarrow> bytes" where
  "wr_weight_entry r = wr32 (we_name_str r) @ wr32 (we_offset r) @ wr32 (we_size_bytes r)"

lemma rd_weight_entry_defined [simp]: "(rd_weight_entry b i = None) = (\<not> i + 12 \<le> length b)"
  by (auto simp: rd_weight_entry_def bind_eq_None_conv)

text \<open>Quantization parameter; the float32 scale is its IEEE bit pattern, 16 bytes.\<close>

record quant_param =
  qp_scale :: u32
  qp_zero_point :: int
  qp_num_channels :: u16
  qp_multiplier_off :: u16
  qp_shift_off :: u16
  qp_page :: u16

definition rd_quant_param :: "bytes \<Rightarrow> nat \<Rightarrow> quant_param option" where
  "rd_quant_param b i = do {
     scale \<leftarrow> rd32 b i;
     zero_point \<leftarrow> rdi32 b (i + 4);
     num_channels \<leftarrow> rd16 b (i + 8);
     multiplier_off \<leftarrow> rd16 b (i + 10);
     shift_off \<leftarrow> rd16 b (i + 12);
     page \<leftarrow> rd16 b (i + 14);
     Some \<lparr> qp_scale = scale, qp_zero_point = zero_point, qp_num_channels = num_channels,
       qp_multiplier_off = multiplier_off, qp_shift_off = shift_off, qp_page = page \<rparr> }"

definition wr_quant_param :: "quant_param \<Rightarrow> bytes" where
  "wr_quant_param r = wr32 (qp_scale r) @ wri32 (qp_zero_point r) @ wr16 (qp_num_channels r) @
     wr16 (qp_multiplier_off r) @ wr16 (qp_shift_off r) @ wr16 (qp_page r)"

lemma rd_quant_param_defined [simp]: "(rd_quant_param b i = None) = (\<not> i + 16 \<le> length b)"
  by (auto simp: rd_quant_param_def bind_eq_None_conv)

text \<open>Weight block entry, 20 bytes.\<close>

record weight_block =
  wb_stage_idx :: u16
  wb_first_weight_idx :: u16
  wb_num_weights :: u16
  wb_pad0 :: u16
  wb_blob_offset :: u32
  wb_compressed_size :: u32
  wb_uncompressed_size :: u32

definition rd_weight_block :: "bytes \<Rightarrow> nat \<Rightarrow> weight_block option" where
  "rd_weight_block b i = do {
     stage_idx \<leftarrow> rd16 b i;
     first_weight_idx \<leftarrow> rd16 b (i + 2);
     num_weights \<leftarrow> rd16 b (i + 4);
     pad0 \<leftarrow> rd16 b (i + 6);
     blob_offset \<leftarrow> rd32 b (i + 8);
     compressed_size \<leftarrow> rd32 b (i + 12);
     uncompressed_size \<leftarrow> rd32 b (i + 16);
     Some \<lparr> wb_stage_idx = stage_idx, wb_first_weight_idx = first_weight_idx,
       wb_num_weights = num_weights, wb_pad0 = pad0, wb_blob_offset = blob_offset,
       wb_compressed_size = compressed_size, wb_uncompressed_size = uncompressed_size \<rparr> }"

definition wr_weight_block :: "weight_block \<Rightarrow> bytes" where
  "wr_weight_block r = wr16 (wb_stage_idx r) @ wr16 (wb_first_weight_idx r) @ wr16 (wb_num_weights r) @
     wr16 (wb_pad0 r) @ wr32 (wb_blob_offset r) @ wr32 (wb_compressed_size r) @
     wr32 (wb_uncompressed_size r)"

lemma rd_weight_block_defined [simp]: "(rd_weight_block b i = None) = (\<not> i + 20 \<le> length b)"
  by (auto simp: rd_weight_block_def bind_eq_None_conv)

text \<open>Typed attribute descriptor, 8 bytes.\<close>

record op_attribute =
  oa_op_index :: u16
  oa_type :: u8
  oa_data_len :: u8
  oa_data_offset :: u32

definition rd_op_attribute :: "bytes \<Rightarrow> nat \<Rightarrow> op_attribute option" where
  "rd_op_attribute b i = do {
     op_index \<leftarrow> rd16 b i;
     type \<leftarrow> rd8 b (i + 2);
     data_len \<leftarrow> rd8 b (i + 3);
     data_offset \<leftarrow> rd32 b (i + 4);
     Some \<lparr> oa_op_index = op_index, oa_type = type, oa_data_len = data_len,
       oa_data_offset = data_offset \<rparr> }"

definition wr_op_attribute :: "op_attribute \<Rightarrow> bytes" where
  "wr_op_attribute r = wr16 (oa_op_index r) @ wr8 (oa_type r) @ wr8 (oa_data_len r) @
     wr32 (oa_data_offset r)"

lemma rd_op_attribute_defined [simp]: "(rd_op_attribute b i = None) = (\<not> i + 8 \<le> length b)"
  by (auto simp: rd_op_attribute_def bind_eq_None_conv)

text \<open>State entry, 16 bytes.\<close>

record state_entry =
  st_input :: u16
  st_output :: u16
  st_offset :: u32
  st_bytes :: u32
  st_initial :: u32

definition rd_state_entry :: "bytes \<Rightarrow> nat \<Rightarrow> state_entry option" where
  "rd_state_entry b i = do {
     input \<leftarrow> rd16 b i;
     output \<leftarrow> rd16 b (i + 2);
     offset \<leftarrow> rd32 b (i + 4);
     bytes \<leftarrow> rd32 b (i + 8);
     initial \<leftarrow> rd32 b (i + 12);
     Some \<lparr> st_input = input, st_output = output, st_offset = offset, st_bytes = bytes,
       st_initial = initial \<rparr> }"

definition wr_state_entry :: "state_entry \<Rightarrow> bytes" where
  "wr_state_entry r = wr16 (st_input r) @ wr16 (st_output r) @ wr32 (st_offset r) @ wr32 (st_bytes r)
     @ wr32 (st_initial r)"

lemma rd_state_entry_defined [simp]: "(rd_state_entry b i = None) = (\<not> i + 16 \<le> length b)"
  by (auto simp: rd_state_entry_def bind_eq_None_conv)

text \<open>Subgraph, 12 bytes.\<close>

record subgraph =
  gr_first_stage :: u16
  gr_num_stages :: u16
  gr_inputs_off :: u16
  gr_inputs_count :: u16
  gr_outputs_off :: u16
  gr_outputs_count :: u16

definition rd_subgraph :: "bytes \<Rightarrow> nat \<Rightarrow> subgraph option" where
  "rd_subgraph b i = do {
     first_stage \<leftarrow> rd16 b i;
     num_stages \<leftarrow> rd16 b (i + 2);
     inputs_off \<leftarrow> rd16 b (i + 4);
     inputs_count \<leftarrow> rd16 b (i + 6);
     outputs_off \<leftarrow> rd16 b (i + 8);
     outputs_count \<leftarrow> rd16 b (i + 10);
     Some \<lparr> gr_first_stage = first_stage, gr_num_stages = num_stages,
       gr_inputs_off = inputs_off, gr_inputs_count = inputs_count,
       gr_outputs_off = outputs_off, gr_outputs_count = outputs_count \<rparr> }"

definition wr_subgraph :: "subgraph \<Rightarrow> bytes" where
  "wr_subgraph r = wr16 (gr_first_stage r) @ wr16 (gr_num_stages r) @ wr16 (gr_inputs_off r) @
     wr16 (gr_inputs_count r) @ wr16 (gr_outputs_off r) @ wr16 (gr_outputs_count r)"

lemma rd_subgraph_defined [simp]: "(rd_subgraph b i = None) = (\<not> i + 12 \<le> length b)"
  by (auto simp: rd_subgraph_def bind_eq_None_conv)

text \<open>Memory record (schema 11 and later), 4 bytes.\<close>

record memory_record =
  mr_scheduled_peak :: u32

definition rd_memory_record :: "bytes \<Rightarrow> nat \<Rightarrow> memory_record option" where
  "rd_memory_record b i = do {
     scheduled_peak \<leftarrow> rd32 b i;
     Some \<lparr> mr_scheduled_peak = scheduled_peak \<rparr> }"

definition wr_memory_record :: "memory_record \<Rightarrow> bytes" where
  "wr_memory_record r = wr32 (mr_scheduled_peak r)"

lemma rd_memory_record_defined [simp]: "(rd_memory_record b i = None) = (\<not> i + 4 \<le> length b)"
  by (auto simp: rd_memory_record_def bind_eq_None_conv)

section \<open>Every structure is a record table\<close>

interpretation file_header_table: record_table rd_file_header wr_file_header 48
    "\<lambda>r. length (hd_magic r) = 4"
  by unfold_locales (rule rd_file_header_defined, simp_all add: rd_file_header_def wr_file_header_def rd_wr)

interpretation section_entry_table: record_table rd_section_entry wr_section_entry 8
    "\<lambda>_. True"
  by unfold_locales (rule rd_section_entry_defined, simp_all add: rd_section_entry_def wr_section_entry_def rd_wr)

interpretation tigris_tensor_table: record_table rd_tigris_tensor wr_tigris_tensor 16
    "\<lambda>_. True"
  by unfold_locales (rule rd_tigris_tensor_defined, simp_all add: rd_tigris_tensor_def wr_tigris_tensor_def rd_wr)

interpretation spatial_attrs_table: record_table rd_spatial_attrs wr_spatial_attrs 18
    "\<lambda>_. True"
  by unfold_locales (rule rd_spatial_attrs_defined, simp_all add: rd_spatial_attrs_def wr_spatial_attrs_def rd_wr)

interpretation tigris_op_table: record_table rd_tigris_op wr_tigris_op 38
    "\<lambda>r. -128 \<le> op_act_min r \<and> op_act_min r \<le> 127 \<and>
      -128 \<le> op_act_max r \<and> op_act_max r \<le> 127"
  by unfold_locales (rule rd_tigris_op_defined, simp_all add: rd_tigris_op_def wr_tigris_op_def rd_spatial_attrs_def wr_spatial_attrs_def rd_wr)

interpretation tigris_stage_table: record_table rd_tigris_stage wr_tigris_stage 28
    "\<lambda>_. True"
  by unfold_locales (rule rd_tigris_stage_defined, simp_all add: rd_tigris_stage_def wr_tigris_stage_def rd_wr)

interpretation tile_plan_table: record_table rd_tile_plan wr_tile_plan 24
    "\<lambda>_. True"
  by unfold_locales (rule rd_tile_plan_defined, simp_all add: rd_tile_plan_def wr_tile_plan_def rd_wr)

interpretation tile_plan_v10_table: record_table rd_tile_plan_v10 wr_tile_plan_v10 32
    "\<lambda>_. True"
  by unfold_locales (rule rd_tile_plan_v10_defined, simp_all add: rd_tile_plan_v10_def wr_tile_plan_v10_def rd_wr)

interpretation tile_facts_table: record_table rd_tile_facts wr_tile_facts 16
    "\<lambda>_. True"
  by unfold_locales (rule rd_tile_facts_defined, simp_all add: rd_tile_facts_def wr_tile_facts_def rd_wr)

interpretation tile_plan_v11_table: record_table rd_tile_plan_v11 wr_tile_plan_v11 48
    "\<lambda>_. True"
  by unfold_locales (rule rd_tile_plan_v11_defined, simp_all add: rd_tile_plan_v11_def wr_tile_plan_v11_def rd_tile_plan_v10_def wr_tile_plan_v10_def rd_tile_facts_def wr_tile_facts_def rd_wr)

interpretation weight_entry_table: record_table rd_weight_entry wr_weight_entry 12
    "\<lambda>_. True"
  by unfold_locales (rule rd_weight_entry_defined, simp_all add: rd_weight_entry_def wr_weight_entry_def rd_wr)

interpretation quant_param_table: record_table rd_quant_param wr_quant_param 16
    "\<lambda>r. -2147483648 \<le> qp_zero_point r \<and> qp_zero_point r \<le> 2147483647"
  by unfold_locales (rule rd_quant_param_defined, simp_all add: rd_quant_param_def wr_quant_param_def rd_wr)

interpretation weight_block_table: record_table rd_weight_block wr_weight_block 20
    "\<lambda>_. True"
  by unfold_locales (rule rd_weight_block_defined, simp_all add: rd_weight_block_def wr_weight_block_def rd_wr)

interpretation op_attribute_table: record_table rd_op_attribute wr_op_attribute 8
    "\<lambda>_. True"
  by unfold_locales (rule rd_op_attribute_defined, simp_all add: rd_op_attribute_def wr_op_attribute_def rd_wr)

interpretation state_entry_table: record_table rd_state_entry wr_state_entry 16
    "\<lambda>_. True"
  by unfold_locales (rule rd_state_entry_defined, simp_all add: rd_state_entry_def wr_state_entry_def rd_wr)

interpretation subgraph_table: record_table rd_subgraph wr_subgraph 12
    "\<lambda>_. True"
  by unfold_locales (rule rd_subgraph_defined, simp_all add: rd_subgraph_def wr_subgraph_def rd_wr)

interpretation memory_record_table: record_table rd_memory_record wr_memory_record 4
    "\<lambda>_. True"
  by unfold_locales (rule rd_memory_record_defined, simp_all add: rd_memory_record_def wr_memory_record_def rd_wr)

section \<open>Constants of the format\<close>

definition TIGRIS_MAGIC_BYTES :: bytes where "TIGRIS_MAGIC_BYTES = [0x54, 0x47, 0x52, 0x53]"
definition SCHEMA_VERSION :: u32 where "SCHEMA_VERSION = 12"
definition SCHEMA_VERSION_MIN :: u32 where "SCHEMA_VERSION_MIN = 4"
definition SCHEMA_VERSION_TILE_AXIS :: u32 where "SCHEMA_VERSION_TILE_AXIS = 5"
definition SCHEMA_VERSION_STAGE_TABLE_AUTHORITY :: u32 where "SCHEMA_VERSION_STAGE_TABLE_AUTHORITY = 5"
definition SCHEMA_VERSION_INTERFACE_DTYPE :: u32 where "SCHEMA_VERSION_INTERFACE_DTYPE = 6"
definition SCHEMA_VERSION_STATE :: u32 where "SCHEMA_VERSION_STATE = 10"
definition SCHEMA_VERSION_SCHEDULED_PEAK :: u32 where "SCHEMA_VERSION_SCHEDULED_PEAK = 11"
definition SCHEMA_VERSION_TILE_FACTS :: u32 where "SCHEMA_VERSION_TILE_FACTS = 11"
definition SCHEMA_VERSION_QUANTIZE_RULE :: u32 where "SCHEMA_VERSION_QUANTIZE_RULE = 12"

lemmas schema_versions = SCHEMA_VERSION_def SCHEMA_VERSION_STAGE_TABLE_AUTHORITY_def SCHEMA_VERSION_MIN_def SCHEMA_VERSION_TILE_AXIS_def
  SCHEMA_VERSION_INTERFACE_DTYPE_def SCHEMA_VERSION_STATE_def SCHEMA_VERSION_SCHEDULED_PEAK_def
  SCHEMA_VERSION_TILE_FACTS_def SCHEMA_VERSION_QUANTIZE_RULE_def

abbreviation NONE_U16 :: u16 where "NONE_U16 \<equiv> 0xFFFF"

text \<open>The sections of a plan, by their directory type.\<close>

abbreviation (input) SEC_TENSORS :: nat where "SEC_TENSORS \<equiv> 1"
abbreviation (input) SEC_OPS :: nat where "SEC_OPS \<equiv> 2"
abbreviation (input) SEC_STAGES :: nat where "SEC_STAGES \<equiv> 3"
abbreviation (input) SEC_TILE_PLANS :: nat where "SEC_TILE_PLANS \<equiv> 4"
abbreviation (input) SEC_INDEX_POOL :: nat where "SEC_INDEX_POOL \<equiv> 5"
abbreviation (input) SEC_SHAPE_POOL :: nat where "SEC_SHAPE_POOL \<equiv> 6"
abbreviation (input) SEC_STRINGS :: nat where "SEC_STRINGS \<equiv> 7"
abbreviation (input) SEC_WEIGHTS :: nat where "SEC_WEIGHTS \<equiv> 8"
abbreviation (input) SEC_QUANT_PARAMS :: nat where "SEC_QUANT_PARAMS \<equiv> 9"
abbreviation (input) SEC_WEIGHT_BLOCKS :: nat where "SEC_WEIGHT_BLOCKS \<equiv> 10"
abbreviation (input) SEC_OP_ATTRIBUTES :: nat where "SEC_OP_ATTRIBUTES \<equiv> 11"
abbreviation (input) SEC_STATE :: nat where "SEC_STATE \<equiv> 12"
abbreviation (input) SEC_SUBGRAPHS :: nat where "SEC_SUBGRAPHS \<equiv> 13"
abbreviation (input) SEC_MEMORY :: nat where "SEC_MEMORY \<equiv> 14"
abbreviation (input) SEC_MAX :: nat where "SEC_MAX \<equiv> 15"

text \<open>Element sizes by ONNX dtype; 0 denotes an unsupported storage type.\<close>

definition tigris_dtype_size :: "u8 \<Rightarrow> u32" where
  "tigris_dtype_size dtype =
     (if dtype = 1 \<or> dtype = 6 then 4
      else if dtype = 2 \<or> dtype = 3 \<or> dtype = 9 then 1
      else if dtype = 5 then 2
      else if dtype = 7 then 8
      else 0)"

definition tigris_dtype_requires_source :: "u8 \<Rightarrow> bool" where
  "tigris_dtype_requires_source dtype = (dtype = 6)"

definition tigris_tensor_declared_dtype :: "tigris_tensor \<Rightarrow> u8" where
  "tigris_tensor_declared_dtype t =
     (if tn_iface_dtype t \<noteq> 0 then tn_iface_dtype t else tn_dtype t)"

text \<open>IEEE binary32 values by their bit pattern: \<open>isfinite\<close> and \<open>x <= 0.0f\<close> on a finite value.\<close>

definition f32_isfinite :: "u32 \<Rightarrow> bool" where
  "f32_isfinite w = (unat w div 8388608 mod 256 \<noteq> 255)"

definition f32_nonpositive :: "u32 \<Rightarrow> bool" where
  "f32_nonpositive w = (w = 0 \<or> 2147483648 \<le> unat w)"

section \<open>The parsed plan\<close>

text \<open>\<open>tigris_plan_t\<close>: the buffer and the positions of its tables (\<open>None\<close> is NULL). The header
  pointer is represented by the decoded header.\<close>

record tigris_plan =
  p_buf :: bytes
  p_header :: "file_header option"
  p_tensors :: "nat option"
  p_ops :: "nat option"
  p_stages :: "nat option"
  p_tile_plans :: "nat option"
  p_index_pool :: "nat option"
  p_shape_pool :: "nat option"
  p_strings :: "nat option"
  p_weight_entries :: "nat option"
  p_weight_blob :: "nat option"
  p_weight_blocks :: "nat option"
  p_weight_blocks_data :: "nat option"
  p_num_weight_blocks :: u16
  p_weight_compression :: u16
  p_op_attributes :: "nat option"
  p_op_attribute_data :: "nat option"
  p_num_op_attributes :: u16
  p_quant_params :: "nat option"
  p_quant_data :: "nat option"
  p_num_quant_params :: u16
  p_state_entries :: "nat option"
  p_state_section :: "nat option"
  p_num_state :: u16
  p_state_bytes :: u32
  p_subgraphs :: "nat option"
  p_num_subgraphs :: u16
  p_subgraph_depth :: u16
  p_tile_plans_v10 :: "nat option"
  p_model_inputs :: "nat option"
  p_model_outputs :: "nat option"
  p_scheduled_peak :: u32
  p_tile_plans_v11 :: "nat option"

definition empty_plan :: "bytes \<Rightarrow> tigris_plan" where
  "empty_plan b = \<lparr> p_buf = b, p_header = None, p_tensors = None, p_ops = None, p_stages = None,
     p_tile_plans = None, p_index_pool = None, p_shape_pool = None, p_strings = None,
     p_weight_entries = None, p_weight_blob = None, p_weight_blocks = None,
     p_weight_blocks_data = None, p_num_weight_blocks = 0, p_weight_compression = 0,
     p_op_attributes = None, p_op_attribute_data = None, p_num_op_attributes = 0,
     p_quant_params = None, p_quant_data = None, p_num_quant_params = 0,
     p_state_entries = None, p_state_section = None, p_num_state = 0, p_state_bytes = 0,
     p_subgraphs = None, p_num_subgraphs = 0, p_subgraph_depth = 0, p_tile_plans_v10 = None,
     p_model_inputs = None, p_model_outputs = None, p_scheduled_peak = 0,
     p_tile_plans_v11 = None \<rparr>"

text \<open>Indexing a table: \<open>&plan->tensors[i]\<close> and so on, undefined on a NULL table and outside
  the buffer.\<close>

definition plan_tensor :: "tigris_plan \<Rightarrow> nat \<Rightarrow> tigris_tensor option" where
  "plan_tensor pl i = do { t \<leftarrow> p_tensors pl; rd_tigris_tensor (p_buf pl) (t + i * 16) }"

definition plan_op :: "tigris_plan \<Rightarrow> nat \<Rightarrow> tigris_op option" where
  "plan_op pl i = do { t \<leftarrow> p_ops pl; rd_tigris_op (p_buf pl) (t + i * 38) }"

definition plan_stage :: "tigris_plan \<Rightarrow> nat \<Rightarrow> tigris_stage option" where
  "plan_stage pl i = do { t \<leftarrow> p_stages pl; rd_tigris_stage (p_buf pl) (t + i * 28) }"

definition plan_tile_plan :: "tigris_plan \<Rightarrow> nat \<Rightarrow> tile_plan option" where
  "plan_tile_plan pl i = do { t \<leftarrow> p_tile_plans pl; rd_tile_plan (p_buf pl) (t + i * 24) }"

definition plan_tile_plan_v10 :: "tigris_plan \<Rightarrow> nat \<Rightarrow> tile_plan_v10 option" where
  "plan_tile_plan_v10 pl i = do { t \<leftarrow> p_tile_plans_v10 pl; rd_tile_plan_v10 (p_buf pl) (t + i * 32) }"

definition plan_tile_plan_v11 :: "tigris_plan \<Rightarrow> nat \<Rightarrow> tile_plan_v11 option" where
  "plan_tile_plan_v11 pl i = do { t \<leftarrow> p_tile_plans_v11 pl; rd_tile_plan_v11 (p_buf pl) (t + i * 48) }"

definition plan_index :: "tigris_plan \<Rightarrow> nat \<Rightarrow> u16 option" where
  "plan_index pl k = do { t \<leftarrow> p_index_pool pl; rd16 (p_buf pl) (t + k * 2) }"

definition plan_shape :: "tigris_plan \<Rightarrow> nat \<Rightarrow> int option" where
  "plan_shape pl k = do { t \<leftarrow> p_shape_pool pl; rdi32 (p_buf pl) (t + k * 4) }"

definition plan_weight_entry :: "tigris_plan \<Rightarrow> nat \<Rightarrow> weight_entry option" where
  "plan_weight_entry pl i = do { t \<leftarrow> p_weight_entries pl; rd_weight_entry (p_buf pl) (t + i * 12) }"

definition plan_weight_block :: "tigris_plan \<Rightarrow> nat \<Rightarrow> weight_block option" where
  "plan_weight_block pl i = do { t \<leftarrow> p_weight_blocks pl; rd_weight_block (p_buf pl) (t + i * 20) }"

definition plan_op_attribute :: "tigris_plan \<Rightarrow> nat \<Rightarrow> op_attribute option" where
  "plan_op_attribute pl i = do { t \<leftarrow> p_op_attributes pl; rd_op_attribute (p_buf pl) (t + i * 8) }"

definition plan_quant_param :: "tigris_plan \<Rightarrow> nat \<Rightarrow> quant_param option" where
  "plan_quant_param pl i = do { t \<leftarrow> p_quant_params pl; rd_quant_param (p_buf pl) (t + i * 16) }"

definition plan_quant_data :: "tigris_plan \<Rightarrow> nat \<Rightarrow> int option" where
  "plan_quant_data pl k = do { t \<leftarrow> p_quant_data pl; rdi32 (p_buf pl) (t + k * 4) }"

definition plan_state_entry :: "tigris_plan \<Rightarrow> nat \<Rightarrow> state_entry option" where
  "plan_state_entry pl i = do { t \<leftarrow> p_state_entries pl; rd_state_entry (p_buf pl) (t + i * 16) }"

definition plan_subgraph :: "tigris_plan \<Rightarrow> nat \<Rightarrow> subgraph option" where
  "plan_subgraph pl i = do { t \<leftarrow> p_subgraphs pl; rd_subgraph (p_buf pl) (t + i * 12) }"

section \<open>The accessors of the plan handle\<close>

text \<open>The extents of a tensor, the operands and results of an operator, the operators, inputs and
  outputs of a stage: element \<open>k\<close> of the pool range the record names.\<close>

definition tigris_tensor_shape :: "tigris_plan \<Rightarrow> tigris_tensor \<Rightarrow> nat \<Rightarrow> int option" where
  "tigris_tensor_shape pl t k = plan_shape pl (unat (tn_shape_off t) + k)"

definition tigris_op_inputs :: "tigris_plan \<Rightarrow> tigris_op \<Rightarrow> nat \<Rightarrow> u16 option" where
  "tigris_op_inputs pl oper k = plan_index pl (unat (op_inputs_off oper) + k)"

definition tigris_op_outputs :: "tigris_plan \<Rightarrow> tigris_op \<Rightarrow> nat \<Rightarrow> u16 option" where
  "tigris_op_outputs pl oper k = plan_index pl (unat (op_outputs_off oper) + k)"

definition tigris_stage_ops :: "tigris_plan \<Rightarrow> tigris_stage \<Rightarrow> nat \<Rightarrow> u16 option" where
  "tigris_stage_ops pl s k = plan_index pl (unat (sg_ops_off s) + k)"

definition tigris_stage_inputs :: "tigris_plan \<Rightarrow> tigris_stage \<Rightarrow> nat \<Rightarrow> u16 option" where
  "tigris_stage_inputs pl s k = plan_index pl (unat (sg_inputs_off s) + k)"

definition tigris_stage_outputs :: "tigris_plan \<Rightarrow> tigris_stage \<Rightarrow> nat \<Rightarrow> u16 option" where
  "tigris_stage_outputs pl s k = plan_index pl (unat (sg_outputs_off s) + k)"

text \<open>\<open>tigris_op_attribute_data\<close>: the payload of the first attribute of an operator with the
  given type, as its position and length, or NULL.\<close>

fun find_attribute :: "tigris_plan \<Rightarrow> u16 \<Rightarrow> u8 \<Rightarrow> nat \<Rightarrow> nat \<Rightarrow> op_attribute option option" where
  "find_attribute pl op_index ty i 0 = Some None"
| "find_attribute pl op_index ty i (Suc n) = do {
     attr \<leftarrow> plan_op_attribute pl i;
     if oa_op_index attr = op_index \<and> oa_type attr = ty then Some (Some attr)
     else find_attribute pl op_index ty (Suc i) n }"

definition tigris_op_attribute_data :: "tigris_plan \<Rightarrow> u16 \<Rightarrow> u8 \<Rightarrow> (nat \<times> u8) option option" where
  "tigris_op_attribute_data pl op_index ty =
     (case (p_op_attributes pl, p_op_attribute_data pl) of
        (Some _, Some d) \<Rightarrow> do {
          r \<leftarrow> find_attribute pl op_index ty 0 (unat (p_num_op_attributes pl));
          Some (map_option (\<lambda>a. (d + unat (oa_data_offset a), oa_data_len a)) r) }
      | _ \<Rightarrow> Some None)"

text \<open>The positions of a weight, a bias and a constant operand.\<close>

definition tigris_weight_data :: "tigris_plan \<Rightarrow> weight_entry \<Rightarrow> nat option" where
  "tigris_weight_data pl w = do { d \<leftarrow> p_weight_blob pl; Some (d + unat (we_offset w)) }"

definition weight_at :: "tigris_plan \<Rightarrow> u16 \<Rightarrow> nat option option" where
  "weight_at pl idx =
     (if idx = NONE_U16 \<or> p_weight_entries pl = None then Some None
      else do { w \<leftarrow> plan_weight_entry pl (unat idx); d \<leftarrow> tigris_weight_data pl w; Some (Some d) })"

definition tigris_op_weight :: "tigris_plan \<Rightarrow> tigris_op \<Rightarrow> nat option option" where
  "tigris_op_weight pl oper = weight_at pl (op_weight_idx oper)"

definition tigris_op_bias :: "tigris_plan \<Rightarrow> tigris_op \<Rightarrow> nat option option" where
  "tigris_op_bias pl oper = weight_at pl (op_bias_idx oper)"

definition tigris_op_constant :: "tigris_plan \<Rightarrow> u16 \<Rightarrow> u8 \<Rightarrow> nat option option" where
  "tigris_op_constant pl op_index k = do {
     r \<leftarrow> tigris_op_attribute_data pl op_index 14;
     (case r of
        None \<Rightarrow> Some None
      | Some (list, len) \<Rightarrow>
        if unat k * 2 + 2 > unat len \<or> p_weight_entries pl = None then Some None
        else do {
          idx \<leftarrow> rd16 (p_buf pl) (list + unat k * 2);
          hdr \<leftarrow> p_header pl;
          if idx = NONE_U16 \<or> idx \<ge> hd_num_weights hdr then Some None
          else weight_at pl idx }) }"

definition tigris_tensor_quant :: "tigris_plan \<Rightarrow> tigris_tensor \<Rightarrow> quant_param option option" where
  "tigris_tensor_quant pl t =
     (if tn_quant_param_idx t = NONE_U16 \<or> p_quant_params pl = None then Some None
      else map_option Some (plan_quant_param pl (unat (tn_quant_param_idx t))))"

definition tigris_quant_page_start :: "quant_param \<Rightarrow> u32" where
  "tigris_quant_page_start qp = ucast (qp_page qp) * 65536"

definition tigris_quant_multipliers :: "tigris_plan \<Rightarrow> quant_param \<Rightarrow> nat \<Rightarrow> int option" where
  "tigris_quant_multipliers pl qp k =
     plan_quant_data pl (unat (tigris_quant_page_start qp) + unat (qp_multiplier_off qp) + k)"

definition tigris_quant_shifts :: "tigris_plan \<Rightarrow> quant_param \<Rightarrow> nat \<Rightarrow> int option" where
  "tigris_quant_shifts pl qp k =
     plan_quant_data pl (unat (tigris_quant_page_start qp) + unat (qp_shift_off qp) + k)"

text \<open>The scheduling choices of a stage for any wire layout.\<close>

definition tigris_stage_tile_plan :: "tigris_plan \<Rightarrow> tigris_stage \<Rightarrow> tile_plan option option" where
  "tigris_stage_tile_plan pl s =
     (if p_tile_plans pl = None \<or> sg_tile_plan_idx s = NONE_U16 then Some None
      else map_option Some (plan_tile_plan pl (unat (sg_tile_plan_idx s))))"

definition no_tiles :: tile_plan_v10 where
  "no_tiles = \<lparr> tw_tileable = 0, tw_axis = 0, tw_flags = 0, tw_input_band_extent = 0,
     tw_output_band_extent = 0, tw_output_width_extent = 0, tw_input_channel_group = 0,
     tw_input_spatial_interval = 0, tw_output_linear_segment = 0, tw_tiled_peak_bytes = 0 \<rparr>"

text \<open>Whether one of a stage's operators resamples (a Resize of either kind).\<close>

fun stage_resamples :: "tigris_plan \<Rightarrow> tigris_stage \<Rightarrow> nat \<Rightarrow> nat \<Rightarrow> bool option" where
  "stage_resamples pl s i 0 = Some False"
| "stage_resamples pl s i (Suc n) = do {
     k \<leftarrow> tigris_stage_ops pl s i;
     oper \<leftarrow> plan_op pl (unat k);
     rest \<leftarrow> stage_resamples pl s (Suc i) n;
     Some (op_op_type oper = 30 \<or> op_op_type oper = 36 \<or> rest) }"

definition legacy_tiles :: "tigris_plan \<Rightarrow> file_header \<Rightarrow> tigris_stage \<Rightarrow> tile_plan \<Rightarrow> tile_plan_v10 option" where
  "legacy_tiles pl hdr s old = do {
     let axis = (if hd_version hdr \<ge> SCHEMA_VERSION_TILE_AXIS then tp_axis old
                 else if tp_tileable old \<noteq> 0 then 1 else 0);
     resamples \<leftarrow> stage_resamples pl s 0 (unat (sg_ops_count s));
     let output_driven = (axis = 3 \<or> resamples);
     let r = no_tiles\<lparr> tw_tileable := tp_tileable old, tw_axis := axis, tw_flags := tp_flags old,
               tw_tiled_peak_bytes := tp_tiled_peak_bytes old,
               tw_output_width_extent := ucast (tp_tile_width old) \<rparr>;
     Some (if output_driven then r\<lparr> tw_output_band_extent := ucast (tp_tile_height old) \<rparr>
           else r\<lparr> tw_input_band_extent := ucast (tp_tile_height old) \<rparr>) }"

definition tigris_stage_tiles :: "tigris_plan \<Rightarrow> tigris_stage \<Rightarrow> tile_plan_v10 option" where
  "tigris_stage_tiles pl s =
     (case p_header pl of
        None \<Rightarrow> Some no_tiles
      | Some hdr \<Rightarrow>
        if sg_tile_plan_idx s = NONE_U16 \<or> sg_tile_plan_idx s \<ge> hd_num_tile_plans hdr
        then Some no_tiles
        else if hd_version hdr \<ge> SCHEMA_VERSION_TILE_FACTS then
          (if p_tile_plans_v11 pl = None then Some no_tiles
           else map_option tx_choices (plan_tile_plan_v11 pl (unat (sg_tile_plan_idx s))))
        else if hd_version hdr \<ge> SCHEMA_VERSION_STATE then
          (if p_tile_plans_v10 pl = None then Some no_tiles
           else plan_tile_plan_v10 pl (unat (sg_tile_plan_idx s)))
        else do {
          old \<leftarrow> tigris_stage_tile_plan pl s;
          (case old of None \<Rightarrow> Some no_tiles | Some t \<Rightarrow> legacy_tiles pl hdr s t) })"

end
