(* ===== verification/Loader_Sections.thy ===== *)
theory Loader_Sections
  imports Plan_Format
begin

text \<open>
  The first two phases of the plan loader (\<open>src/tigris_loader.c\<close>): the header, the section
  directory and the spans of the sections (\<open>load_header_and_directory\<close>), then the optional
  sections (\<open>locate_optional_sections\<close>).

  The C functions thread a \<open>tigris_load_state_t\<close> through the phases; here each phase takes the
  state and returns the updated one or the error it returns. A plan that exceeds a build limit
  leaves the requirement in \<open>*out_required\<close>: the error carries it.

  What is shown: no phase reads outside the buffer, for every content of it, and what the loader
  accepts is laid out as the executor assumes: the sections lie after the directory, in order,
  disjoint and inside the file, and every table pointer of the candidate has its whole table
  inside the buffer.
\<close>

section \<open>Errors, limits and the loader's state\<close>

record plan_limits =
  pl_tensors :: u16
  pl_stage_inputs :: u16
  pl_stage_outputs :: u16
  pl_chain_stages :: u16
  pl_spatial_ops_per_stage :: u16

definition no_limits :: plan_limits where
  "no_limits = \<lparr> pl_tensors = 0, pl_stage_inputs = 0, pl_stage_outputs = 0, pl_chain_stages = 0,
     pl_spatial_ops_per_stage = 0 \<rparr>"

definition tigris_build_limits :: plan_limits where
  "tigris_build_limits = \<lparr> pl_tensors = 512, pl_stage_inputs = 16, pl_stage_outputs = 16,
     pl_chain_stages = 16, pl_spatial_ops_per_stage = 8 \<rparr>"

datatype tigris_error =
    ERR_NULL | ERR_TOO_SMALL | ERR_BAD_MAGIC | ERR_BAD_VERSION | ERR_BAD_SIZE | ERR_BAD_SECTION
  | ERR_MISSING_SEC | ERR_ENDIAN | ERR_PLAN_LIMITS plan_limits | ERR_BAD_TENSOR
  | ERR_BAD_OPERATOR | ERR_BAD_INTERFACE | ERR_KERNEL_DISABLED | ERR_MEM | ERR_TENSOR_SLOTS
  | ERR_TILE_FACTS | ERR_CHAIN_BAND | ERR_TILE_BAND

fun tigris_error_str :: "tigris_error option \<Rightarrow> string" where
  "tigris_error_str None = ''OK''"
| "tigris_error_str (Some ERR_NULL) = ''null pointer argument''"
| "tigris_error_str (Some ERR_TOO_SMALL) = ''buffer too small for header''"
| "tigris_error_str (Some ERR_BAD_MAGIC) = ''bad magic (expected TGRS)''"
| "tigris_error_str (Some ERR_BAD_VERSION) = ''unsupported plan version or header flag''"
| "tigris_error_str (Some ERR_BAD_SIZE) = ''file_size field mismatch''"
| "tigris_error_str (Some ERR_BAD_SECTION) = ''section offset out of bounds''"
| "tigris_error_str (Some ERR_MISSING_SEC) = ''required section missing''"
| "tigris_error_str (Some ERR_ENDIAN) = ''platform is not little-endian''"
| "tigris_error_str (Some (ERR_PLAN_LIMITS l)) = ''plan exceeds executor limits''"
| "tigris_error_str (Some ERR_BAD_TENSOR) = ''tensor contract is not executable''"
| "tigris_error_str (Some ERR_BAD_OPERATOR) = ''operator contract is not executable''"
| "tigris_error_str (Some ERR_BAD_INTERFACE) = ''declared model interface is not convertible''"
| "tigris_error_str (Some ERR_KERNEL_DISABLED) = ''operator kernel not built into this runtime''"
| "tigris_error_str (Some ERR_MEM) = ''arena cannot hold the tensor''"
| "tigris_error_str (Some ERR_TENSOR_SLOTS) =
     ''memory manager has fewer tensor slots than the plan''"
| "tigris_error_str (Some ERR_TILE_FACTS) =
     ''tile record disagrees with the tiling the runtime derives from the plan''"
| "tigris_error_str (Some ERR_CHAIN_BAND) =
     ''chained stage reads a tensor outside its band; recompile the model with this TiGrIS release''"
| "tigris_error_str (Some ERR_TILE_BAND) =
     ''tiled stage reads or writes a tensor outside its band; recompile the model with this TiGrIS release''"

text \<open>\<open>tigris_load_state_t\<close> after the directory has been read.\<close>

record load_state =
  ls_buf_len :: u32
  ls_hdr :: file_header
  ls_candidate :: tigris_plan
  ls_required :: plan_limits
  ls_section_offsets :: "u32 list"
  ls_section_ends :: "u32 list"
  ls_section_seen :: "bool list"
  ls_dir_end :: u32
  ls_index_bytes :: u32
  ls_shape_bytes :: u32
  ls_strings_len :: u32
  ls_index_count :: u32
  ls_shape_count :: u32
  ls_model_io_count :: u32
  ls_next_scheduled_op :: u16

section \<open>Range checks\<close>

definition bounds_ok :: "u32 \<Rightarrow> u32 \<Rightarrow> u32 \<Rightarrow> bool" where
  "bounds_ok offset len buf_len = (offset \<le> buf_len \<and> len \<le> buf_len - offset)"

definition elements_ok :: "u32 \<Rightarrow> u32 \<Rightarrow> u32 \<Rightarrow> bool" where
  "elements_ok offset count limit = (offset \<le> limit \<and> count \<le> limit - offset)"

text \<open>The subtraction cannot wrap, so the 32-bit checks are the mathematical ones.\<close>

lemma bounds_ok_iff: "bounds_ok a s n \<longleftrightarrow> unat a + unat s \<le> unat n"
  by (auto simp: bounds_ok_def word_le_nat_alt unat_sub)

lemma elements_ok_iff: "elements_ok a s n \<longleftrightarrow> unat a + unat s \<le> unat n"
  by (auto simp: elements_ok_def word_le_nat_alt unat_sub)

lemma bounds_ok_add:
  "bounds_ok a s n \<Longrightarrow> unat (a + s) = unat a + unat s"
  using unat_u32_less [of n] by (simp add: bounds_ok_iff unat_add_u32)

lemma cursor_advances:
  "bounds_ok c 8 n \<Longrightarrow> unat n - unat (c + 8) < unat n - unat c"
  using bounds_ok_add [of c 8 n] by (simp add: bounds_ok_iff)

section \<open>The section directory\<close>

record dir_state =
  ds_seen :: "bool list"
  ds_offsets :: "u32 list"
  ds_previous_type :: u32
  ds_previous_offset :: u32

text \<open>The directory walk returns whether the sentinel was found, the cursor and the sections.\<close>

function walk_directory ::
  "bytes \<Rightarrow> u32 \<Rightarrow> u32 \<Rightarrow> dir_state \<Rightarrow> (tigris_error + bool \<times> u32 \<times> dir_state) option" where
  "walk_directory b n cursor s =
     (if bounds_ok cursor 8 n then do {
        sec \<leftarrow> rd_section_entry b (unat cursor);
        if se_type sec = 0 then ret (True, cursor, s)
        else if 15 \<le> se_type sec then fail ERR_BAD_SECTION
        else do {
          seen \<leftarrow> arr_get (ds_seen s) (unat (se_type sec));
          if seen then fail ERR_BAD_SECTION
          else if se_type sec \<le> ds_previous_type s \<or> se_offset sec < ds_previous_offset s \<or>
                  n < se_offset sec
          then fail ERR_BAD_SECTION
          else do {
            seen' \<leftarrow> arr_set (ds_seen s) (unat (se_type sec)) True;
            offsets' \<leftarrow> arr_set (ds_offsets s) (unat (se_type sec)) (se_offset sec);
            walk_directory b n (cursor + 8)
              \<lparr> ds_seen = seen', ds_offsets = offsets', ds_previous_type = se_type sec,
                ds_previous_offset = se_offset sec \<rparr>
          }
        }
      }
      else ret (False, cursor, s))"
  by pat_completeness auto

termination
  by (relation "measure (\<lambda>(b, n, c, s). unat n - unat c)") (auto simp: cursor_advances)

declare walk_directory.simps [simp del]

definition initial_dir :: dir_state where
  "initial_dir = \<lparr> ds_seen = replicate SEC_MAX False, ds_offsets = replicate SEC_MAX 0,
     ds_previous_type = 0, ds_previous_offset = 0 \<rparr>"

text \<open>The exclusive end of a section: the least offset of a later one, or the end of the file.\<close>

definition section_end :: "bool list \<Rightarrow> u32 list \<Rightarrow> u32 \<Rightarrow> nat \<Rightarrow> u32" where
  "section_end seen offsets n i =
     fold (\<lambda>j e. if seen ! j \<and> offsets ! j < e then offsets ! j else e) [Suc i ..< SEC_MAX] n"

definition section_ends ::
  "bool list \<Rightarrow> u32 list \<Rightarrow> u32 \<Rightarrow> u32 \<Rightarrow> (tigris_error + u32 list) option" where
  "section_ends seen offsets dir_end n =
     for_range 1 SEC_MAX (\<lambda>i ends.
       if \<not> seen ! i then ret ends
       else if offsets ! i < dir_end then fail ERR_BAD_SECTION
       else ret (ends[i := section_end seen offsets n i])) (replicate SEC_MAX 0)"

text \<open>What the walk keeps: the sections seen so far have increasing types and offsets.\<close>

definition dir_inv :: "u32 \<Rightarrow> dir_state \<Rightarrow> bool" where
  "dir_inv n s = (length (ds_seen s) = SEC_MAX \<and> length (ds_offsets s) = SEC_MAX \<and>
     \<not> ds_seen s ! 0 \<and> ds_previous_offset s \<le> n \<and>
     (\<forall>i < SEC_MAX. ds_seen s ! i \<longrightarrow>
        i \<le> unat (ds_previous_type s) \<and> ds_offsets s ! i \<le> ds_previous_offset s) \<and>
     (\<forall>i < SEC_MAX. \<not> ds_seen s ! i \<longrightarrow> ds_offsets s ! i = 0) \<and>
     (\<forall>j < SEC_MAX. \<forall>i < j. ds_seen s ! i \<longrightarrow> ds_seen s ! j \<longrightarrow> ds_offsets s ! i \<le> ds_offsets s ! j))"

lemma dir_inv_initial: "dir_inv n initial_dir"
  by (simp add: dir_inv_def initial_dir_def)

lemma dir_inv_add:
  assumes inv: "dir_inv n s" and ty: "unat ty < SEC_MAX" "ds_previous_type s < ty"
    and off: "ds_previous_offset s \<le> off" "off \<le> n"
  shows "dir_inv n \<lparr> ds_seen = (ds_seen s)[unat ty := True],
     ds_offsets = (ds_offsets s)[unat ty := off],
     ds_previous_type = ty, ds_previous_offset = off \<rparr>"
proof -
  have lt: "unat (ds_previous_type s) < unat ty"
    using ty(2) by (simp add: word_less_nat_alt)
  have seen: "i \<le> unat (ds_previous_type s)" "ds_offsets s ! i \<le> ds_previous_offset s"
    if "i < SEC_MAX" "ds_seen s ! i" for i
    using inv that by (auto simp: dir_inv_def)
  have le: "ds_offsets s ! i \<le> off" if "i < SEC_MAX" "ds_seen s ! i" for i
    using seen(2) [OF that] off(1) by simp
  have old: "i < unat ty" if "i < SEC_MAX" "ds_seen s ! i" for i
    using seen(1) [OF that] lt by simp
  show ?thesis
    using inv ty lt off le old seen(1)
    unfolding dir_inv_def
    by (auto simp: nth_list_update less_imp_le dest: order_less_trans) (meson less_asym less_trans)+
qed

lemma wp_walk_directory:
  assumes "dir_inv n s" and "unat n \<le> length b"
  shows "wp (walk_directory b n c s) (ok (\<lambda>(found, c', s').
     dir_inv n s' \<and> unat c \<le> unat c' \<and> (found \<longrightarrow> bounds_ok c' 8 n)))"
  using assms
proof (induction b n c s rule: walk_directory.induct)
  case (1 b n c s)
  show ?case
  proof (cases "bounds_ok c 8 n")
    case False
    with "1.prems" show ?thesis by (subst walk_directory.simps) simp
  next
    case True
    then obtain sec where sec: "rd_section_entry b (unat c) = Some sec"
      using "1.prems"(2) by (cases "rd_section_entry b (unat c)") (auto simp: bounds_ok_iff)
    let ?ty = "unat (se_type sec)"
    let ?bad = "15 \<le> se_type sec \<or> ds_seen s ! ?ty \<or> se_type sec \<le> ds_previous_type s \<or>
        se_offset sec < ds_previous_offset s \<or> n < se_offset sec"
    have len: "length (ds_seen s) = SEC_MAX" "length (ds_offsets s) = SEC_MAX"
      using "1.prems"(1) by (simp_all add: dir_inv_def)
    show ?thesis
    proof (cases "se_type sec = 0 \<or> ?bad")
      case True
      with sec \<open>bounds_ok c 8 n\<close> "1.prems" len show ?thesis
        by (subst walk_directory.simps)
          (auto simp: wp_rules word_le_nat_alt not_le)
    next
      case ok: False
      then have ty: "?ty < SEC_MAX" by (simp add: word_le_nat_alt)
      let ?s = "\<lparr> ds_seen = (ds_seen s)[?ty := True],
          ds_offsets = (ds_offsets s)[?ty := se_offset sec],
          ds_previous_type = se_type sec, ds_previous_offset = se_offset sec \<rparr>"
      have inv: "dir_inv n ?s"
        using "1.prems"(1) ok ty by (intro dir_inv_add) auto
      have IH: "wp (walk_directory b n (c + 8) ?s) (ok (\<lambda>(found, c', s').
          dir_inv n s' \<and> unat (c + 8) \<le> unat c' \<and> (found \<longrightarrow> bounds_ok c' 8 n)))"
        by (rule "1.IH" [OF True sec])
          (use ok ty len inv "1.prems"(2) in \<open>auto simp: word_le_nat_alt\<close>)
      have "unat c \<le> unat (c + 8)"
        using bounds_ok_add [OF True] by simp
      then have "wp (walk_directory b n (c + 8) ?s) (ok (\<lambda>(found, c', s').
          dir_inv n s' \<and> unat c \<le> unat c' \<and> (found \<longrightarrow> bounds_ok c' 8 n)))"
        by (intro wp_mono [OF IH]) (auto elim!: ok_mono)
      then show ?thesis
        using sec True ok ty len
        by (subst walk_directory.simps) (simp add: wp_rules not_le word_le_nat_alt)
    qed
  qed
qed

text \<open>The end of a section is an upper bound for it and does not cross a later section.\<close>

lemma section_end_fold:
  "fold (\<lambda>j e. if seen ! j \<and> offs ! j < e then offs ! j else e) js n \<le> (n :: u32) \<and>
   (\<forall>j \<in> set js. seen ! j \<longrightarrow>
      fold (\<lambda>j e. if seen ! j \<and> offs ! j < e then offs ! j else e) js n \<le> offs ! j) \<and>
   (\<forall>x. x \<le> n \<and> (\<forall>j \<in> set js. seen ! j \<longrightarrow> x \<le> offs ! j) \<longrightarrow>
      x \<le> fold (\<lambda>j e. if seen ! j \<and> offs ! j < e then offs ! j else e) js n)"
  by (induction js arbitrary: n) (fastforce simp: not_less)+

lemma section_end_le: "section_end seen offs n i \<le> n"
  using section_end_fold [of seen offs "[Suc i ..< SEC_MAX]" n] by (simp add: section_end_def)

lemma section_end_before:
  "i < j \<Longrightarrow> j < SEC_MAX \<Longrightarrow> seen ! j \<Longrightarrow> section_end seen offs n i \<le> offs ! j"
  using section_end_fold [of seen offs "[Suc i ..< SEC_MAX]" n] by (simp add: section_end_def)

lemma section_end_ge:
  assumes "x \<le> n" and "\<And>j. i < j \<Longrightarrow> j < SEC_MAX \<Longrightarrow> seen ! j \<Longrightarrow> x \<le> offs ! j"
  shows "x \<le> section_end seen offs n i"
  using section_end_fold [of seen offs "[Suc i ..< SEC_MAX]" n] assms by (simp add: section_end_def)

text \<open>The layout of the accepted sections. An offset of 0 means that the section is absent.\<close>

definition layout_ok :: "u32 \<Rightarrow> u32 \<Rightarrow> u32 list \<Rightarrow> u32 list \<Rightarrow> bool" where
  "layout_ok n dir_end offs ends = (length offs = SEC_MAX \<and> length ends = SEC_MAX \<and>
     (\<forall>i < SEC_MAX. offs ! i = 0 \<longrightarrow> ends ! i = 0) \<and>
     (\<forall>i < SEC_MAX. offs ! i \<noteq> 0 \<longrightarrow>
        dir_end \<le> offs ! i \<and> offs ! i \<le> ends ! i \<and> ends ! i \<le> n) \<and>
     (\<forall>j < SEC_MAX. \<forall>i < j. offs ! i \<noteq> 0 \<longrightarrow> offs ! j \<noteq> 0 \<longrightarrow> ends ! i \<le> offs ! j))"

lemma wp_section_ends:
  assumes inv: "dir_inv n s" and pos: "0 < dir_end"
  shows "wp (section_ends (ds_seen s) (ds_offsets s) dir_end n)
    (ok (\<lambda>ends. layout_ok n dir_end (ds_offsets s) ends))"
proof -
  let ?I = "\<lambda>k ends. length ends = SEC_MAX \<and> (\<forall>i < SEC_MAX.
     (i < k \<and> ds_seen s ! i \<longrightarrow> dir_end \<le> ds_offsets s ! i \<and>
        ends ! i = section_end (ds_seen s) (ds_offsets s) n i) \<and>
     (k \<le> i \<or> \<not> ds_seen s ! i \<longrightarrow> ends ! i = 0))"
  have "wp (section_ends (ds_seen s) (ds_offsets s) dir_end n) (ok (?I SEC_MAX))"
    unfolding section_ends_def
    by (rule wp_for_range)
      (use inv in \<open>auto simp: dir_inv_def less_Suc_eq nth_list_update not_less\<close>)
  then show ?thesis
  proof (rule wp_mono)
    fix r assume "ok (?I SEC_MAX) r"
    then show "ok (\<lambda>ends. layout_ok n dir_end (ds_offsets s) ends) r"
    proof (rule ok_mono)
      fix ends assume I: "?I SEC_MAX ends"
      have seen: "ds_seen s ! i \<longleftrightarrow> ds_offsets s ! i \<noteq> 0" if "i < SEC_MAX" for i
        using inv I that pos by (auto simp: dir_inv_def)
      have ge: "ds_offsets s ! i \<le> section_end (ds_seen s) (ds_offsets s) n i"
        if "i < SEC_MAX" "ds_seen s ! i" for i
        using inv that by (intro section_end_ge) (auto simp: dir_inv_def intro: order_trans)
      show "layout_ok n dir_end (ds_offsets s) ends"
        using inv I seen ge section_end_le section_end_before
        unfolding layout_ok_def dir_inv_def by (auto simp: less_trans)
    qed
  qed
qed

section \<open>Phase 1: header and directory\<close>

text \<open>The header checks, in the order the code makes them. The host is little-endian.\<close>

definition check_header :: "bytes \<Rightarrow> u32 \<Rightarrow> (tigris_error + file_header) option" where
  "check_header b n =
     (if n < 48 then fail ERR_TOO_SMALL
      else do {
        hdr \<leftarrow> rd_file_header b 0;
        if hd_magic hdr \<noteq> TIGRIS_MAGIC_BYTES then fail ERR_BAD_MAGIC
        else if hd_version hdr < SCHEMA_VERSION_MIN \<or> hd_version hdr > SCHEMA_VERSION
        then fail ERR_BAD_VERSION
        else if hd_version hdr \<ge> SCHEMA_VERSION_QUANTIZE_RULE \<and>
          unat (hd_flags hdr) div 4 \<noteq> 0
        then fail ERR_BAD_VERSION
        else if hd_file_size hdr \<noteq> n then fail ERR_BAD_SIZE
        else ret hdr
      })"

definition read_directory :: "bytes \<Rightarrow> u32 \<Rightarrow> file_header \<Rightarrow> (tigris_error + load_state) option" where
  "read_directory b n hdr =
     (if \<not> bounds_ok (hd_section_dir_off hdr) 8 n then fail ERR_BAD_SECTION
      else andthen (walk_directory b n (hd_section_dir_off hdr) initial_dir) (\<lambda>(found, cursor, ds).
        if \<not> found then fail ERR_BAD_SECTION
        else andthen (section_ends (ds_seen ds) (ds_offsets ds) (cursor + 8) n) (\<lambda>ends.
          ret \<lparr> ls_buf_len = n, ls_hdr = hdr,
                ls_candidate = (empty_plan b)\<lparr> p_header := Some hdr \<rparr>,
                ls_required = no_limits, ls_section_offsets = ds_offsets ds,
                ls_section_ends = ends, ls_section_seen = ds_seen ds, ls_dir_end = cursor + 8,
                ls_index_bytes = 0, ls_shape_bytes = 0, ls_strings_len = 0, ls_index_count = 0,
                ls_shape_count = 0, ls_model_io_count = 0, ls_next_scheduled_op = 0 \<rparr>)))"

definition required_present :: "file_header \<Rightarrow> u32 list \<Rightarrow> bool" where
  "required_present hdr offs =
     (offs ! SEC_TENSORS \<noteq> 0 \<and> offs ! SEC_OPS \<noteq> 0 \<and> offs ! SEC_INDEX_POOL \<noteq> 0 \<and>
      offs ! SEC_SHAPE_POOL \<noteq> 0 \<and> offs ! SEC_STRINGS \<noteq> 0 \<and>
      (hd_num_stages hdr \<noteq> 0 \<longrightarrow> offs ! SEC_STAGES \<noteq> 0) \<and>
      (hd_num_tile_plans hdr \<noteq> 0 \<longrightarrow> offs ! SEC_TILE_PLANS \<noteq> 0) \<and>
      (hd_num_weights hdr \<noteq> 0 \<longrightarrow> offs ! SEC_WEIGHTS \<noteq> 0) \<and>
      (hd_num_quant_params hdr \<noteq> 0 \<longrightarrow> offs ! SEC_QUANT_PARAMS \<noteq> 0) \<and>
      (hd_version hdr \<ge> SCHEMA_VERSION_SCHEDULED_PEAK \<longrightarrow> offs ! SEC_MEMORY \<noteq> 0))"

definition pools_aligned :: "file_header \<Rightarrow> u32 list \<Rightarrow> bool" where
  "pools_aligned hdr offs =
     (\<not> (unat (offs ! SEC_INDEX_POOL) mod 2 \<noteq> 0 \<and>
         (hd_num_ops hdr \<noteq> 0 \<or> hd_num_stages hdr \<noteq> 0 \<or> hd_num_model_inputs hdr \<noteq> 0 \<or>
          hd_num_model_outputs hdr \<noteq> 0)) \<and>
      \<not> (unat (offs ! SEC_SHAPE_POOL) mod 4 \<noteq> 0 \<and> hd_num_tensors hdr \<noteq> 0) \<and>
      \<not> (unat (offs ! SEC_QUANT_PARAMS) mod 4 \<noteq> 0 \<and> hd_num_quant_params hdr \<noteq> 0) \<and>
      \<not> (unat (offs ! SEC_STATE) mod 4 \<noteq> 0 \<or> unat (offs ! SEC_SUBGRAPHS) mod 2 \<noteq> 0))"

text \<open>Section \<open>i\<close> holds a table of \<open>count\<close> entries of \<open>len\<close> bytes.\<close>

definition section_holds :: "load_state \<Rightarrow> nat \<Rightarrow> u32 \<Rightarrow> bool" where
  "section_holds ls i need = bounds_ok (ls_section_offsets ls ! i) need (ls_section_ends ls ! i)"

definition section_ptr :: "load_state \<Rightarrow> nat \<Rightarrow> nat option" where
  "section_ptr ls i = Some (unat (ls_section_offsets ls ! i))"

abbreviation upd_candidate :: "(tigris_plan \<Rightarrow> tigris_plan) \<Rightarrow> load_state \<Rightarrow> load_state" where
  "upd_candidate f ls \<equiv> ls\<lparr> ls_candidate := f (ls_candidate ls) \<rparr>"

definition set_tensors_and_ops :: "load_state \<Rightarrow> (tigris_error + load_state) option" where
  "set_tensors_and_ops ls =
     (if \<not> section_holds ls SEC_TENSORS (ucast (hd_num_tensors (ls_hdr ls)) * 16)
      then fail ERR_BAD_SECTION
      else if \<not> section_holds ls SEC_OPS (ucast (hd_num_ops (ls_hdr ls)) * 38)
      then fail ERR_BAD_SECTION
      else ret (upd_candidate (\<lambda>pl. pl\<lparr> p_tensors := section_ptr ls SEC_TENSORS,
                  p_ops := section_ptr ls SEC_OPS \<rparr>) ls))"

definition load_header_and_directory ::
  "bytes option \<Rightarrow> u32 \<Rightarrow> bool \<Rightarrow> (tigris_error + load_state) option" where
  "load_header_and_directory buf n out_plan_null =
     (if out_plan_null then fail ERR_NULL
      else case buf of None \<Rightarrow> fail ERR_NULL | Some b \<Rightarrow>
        andthen (check_header b n) (\<lambda>hdr.
        andthen (read_directory b n hdr) (\<lambda>ls.
          if \<not> required_present hdr (ls_section_offsets ls) then fail ERR_MISSING_SEC
          else if \<not> pools_aligned hdr (ls_section_offsets ls) then fail ERR_BAD_SECTION
          else set_tensors_and_ops ls)))"

section \<open>Phase 2: optional sections\<close>

definition locate_stages :: "load_state \<Rightarrow> (tigris_error + load_state) option" where
  "locate_stages ls =
     (if ls_section_offsets ls ! SEC_STAGES \<noteq> 0 \<and> hd_num_stages (ls_hdr ls) > 0 then
        if \<not> section_holds ls SEC_STAGES (ucast (hd_num_stages (ls_hdr ls)) * 28)
        then fail ERR_BAD_SECTION
        else ret (upd_candidate (\<lambda>pl. pl\<lparr> p_stages := section_ptr ls SEC_STAGES \<rparr>) ls)
      else ret ls)"

text \<open>The bytes of one tile record at the plan's schema version.\<close>

definition tile_stride :: "u32 \<Rightarrow> u32" where
  "tile_stride version =
     (if version \<ge> SCHEMA_VERSION_TILE_FACTS then 48
      else if version \<ge> SCHEMA_VERSION_STATE then 32 else 24)"

definition set_tile_plans :: "load_state \<Rightarrow> tigris_plan \<Rightarrow> tigris_plan" where
  "set_tile_plans ls pl =
     (let version = hd_version (ls_hdr ls); at = section_ptr ls SEC_TILE_PLANS in
      if version \<ge> SCHEMA_VERSION_TILE_FACTS then pl\<lparr> p_tile_plans_v11 := at \<rparr>
      else if version \<ge> SCHEMA_VERSION_STATE then pl\<lparr> p_tile_plans_v10 := at \<rparr>
      else pl\<lparr> p_tile_plans := at \<rparr>)"

text \<open>The \<open>tileable\<close> and \<open>axis\<close> bytes of tile record \<open>i\<close>, in whichever table the plan has.\<close>

definition tile_record_axis :: "tigris_plan \<Rightarrow> nat \<Rightarrow> (u8 \<times> u8) option" where
  "tile_record_axis pl i =
     (if p_tile_plans_v11 pl \<noteq> None then do {
        t \<leftarrow> plan_tile_plan_v11 pl i; Some (tw_tileable (tx_choices t), tw_axis (tx_choices t)) }
      else if p_tile_plans_v10 pl \<noteq> None then do {
        t \<leftarrow> plan_tile_plan_v10 pl i; Some (tw_tileable t, tw_axis t) }
      else do { t \<leftarrow> plan_tile_plan pl i; Some (tp_tileable t, tp_axis t) })"

definition check_tile_record :: "load_state \<Rightarrow> nat \<Rightarrow> (tigris_error + unit) option" where
  "check_tile_record ls i = do {
     (tileable, axis) \<leftarrow> tile_record_axis (ls_candidate ls) i;
     if tileable > 1 then fail ERR_BAD_SECTION
     else if hd_version (ls_hdr ls) \<ge> SCHEMA_VERSION_TILE_AXIS \<and>
       ((tileable \<noteq> 0 \<and> axis \<noteq> 1 \<and> axis \<noteq> 3) \<or> (tileable = 0 \<and> axis \<noteq> 0))
     then fail ERR_BAD_SECTION
     else ret () }"

definition locate_tile_plans :: "load_state \<Rightarrow> (tigris_error + load_state) option" where
  "locate_tile_plans ls =
     (if ls_section_offsets ls ! SEC_TILE_PLANS \<noteq> 0 \<and> hd_num_tile_plans (ls_hdr ls) > 0 then
        if \<not> section_holds ls SEC_TILE_PLANS
             (ucast (hd_num_tile_plans (ls_hdr ls)) * tile_stride (hd_version (ls_hdr ls)))
        then fail ERR_BAD_SECTION
        else let ls' = upd_candidate (set_tile_plans ls) ls in
          andthen (for_check (unat (hd_num_tile_plans (ls_hdr ls))) (check_tile_record ls'))
            (\<lambda>_. ret ls')
      else ret ls)"

definition locate_weights :: "load_state \<Rightarrow> (tigris_error + load_state) option" where
  "locate_weights ls =
     (if ls_section_offsets ls ! SEC_WEIGHTS \<noteq> 0 \<and> hd_num_weights (ls_hdr ls) > 0 then
        if \<not> section_holds ls SEC_WEIGHTS (ucast (hd_num_weights (ls_hdr ls)) * 12)
        then fail ERR_BAD_SECTION
        else ret (upd_candidate (\<lambda>pl. pl\<lparr> p_weight_entries := section_ptr ls SEC_WEIGHTS \<rparr>) ls)
      else ret ls)"

definition locate_weight_blocks :: "load_state \<Rightarrow> (tigris_error + load_state) option" where
  "locate_weight_blocks ls =
     (let off = ls_section_offsets ls ! SEC_WEIGHT_BLOCKS; b = p_buf (ls_candidate ls) in
      if off = 0 then ret ls
      else if \<not> section_holds ls SEC_WEIGHT_BLOCKS 4 then fail ERR_BAD_SECTION
      else do {
        num_blocks \<leftarrow> rd16 b (unat off);
        compression \<leftarrow> rd16 b (unat off + 2);
        let entries_size = ucast num_blocks * 20;
        if \<not> bounds_ok (off + 4) entries_size (ls_section_ends ls ! SEC_WEIGHT_BLOCKS)
        then fail ERR_BAD_SECTION
        else ret (upd_candidate (\<lambda>pl. pl\<lparr> p_num_weight_blocks := num_blocks,
               p_weight_compression := compression,
               p_weight_blocks := Some (unat off + 4),
               p_weight_blocks_data := Some (unat off + 4 + unat entries_size) \<rparr>) ls)
      })"

definition locate_attributes :: "load_state \<Rightarrow> (tigris_error + load_state) option" where
  "locate_attributes ls =
     (let off = ls_section_offsets ls ! SEC_OP_ATTRIBUTES; b = p_buf (ls_candidate ls) in
      if off = 0 then ret ls
      else if \<not> section_holds ls SEC_OP_ATTRIBUTES 4 then fail ERR_BAD_SECTION
      else do {
        count \<leftarrow> rd16 b (unat off);
        let entries_size = ucast count * 8;
        if count = 0 \<or>
           \<not> bounds_ok (off + 4) entries_size (ls_section_ends ls ! SEC_OP_ATTRIBUTES)
        then fail ERR_BAD_SECTION
        else ret (upd_candidate (\<lambda>pl. pl\<lparr> p_num_op_attributes := count,
               p_op_attributes := Some (unat off + 4),
               p_op_attribute_data := Some (unat off + 4 + unat entries_size) \<rparr>) ls)
      })"

text \<open>One entry of the state section: its value inside the state buffer, its initial value inside
  the section, and no overlap with an earlier entry.\<close>

definition check_state_overlap :: "tigris_plan \<Rightarrow> state_entry \<Rightarrow> nat \<Rightarrow> (tigris_error + unit) option" where
  "check_state_overlap pl entry j = do {
     other \<leftarrow> plan_state_entry pl j;
     if st_offset entry < st_offset other + st_bytes other \<and>
        st_offset other < st_offset entry + st_bytes entry
     then fail ERR_BAD_SECTION else ret () }"

definition check_state_entry ::
  "tigris_plan \<Rightarrow> u32 \<Rightarrow> u32 \<Rightarrow> nat \<Rightarrow> (tigris_error + unit) option" where
  "check_state_entry pl off sec_end i = do {
     entry \<leftarrow> plan_state_entry pl i;
     if st_bytes entry = 0 \<or> unat (st_offset entry) mod 4 \<noteq> 0 \<or>
        st_offset entry > p_state_bytes pl \<or>
        st_bytes entry > p_state_bytes pl - st_offset entry \<or>
        \<not> bounds_ok (off + st_initial entry) (st_bytes entry) sec_end
     then fail ERR_BAD_SECTION
     else for_check i (check_state_overlap pl entry) }"

definition locate_state :: "load_state \<Rightarrow> (tigris_error + load_state) option" where
  "locate_state ls =
     (let off = ls_section_offsets ls ! SEC_STATE; sec_end = ls_section_ends ls ! SEC_STATE;
          b = p_buf (ls_candidate ls) in
      if off = 0 then ret ls
      else if hd_version (ls_hdr ls) < SCHEMA_VERSION_STATE then fail ERR_BAD_SECTION
      else if \<not> bounds_ok off 8 sec_end then fail ERR_BAD_SECTION
      else do {
        count \<leftarrow> rd16 b (unat off);
        reserved \<leftarrow> rd16 b (unat off + 2);
        state_bytes \<leftarrow> rd32 b (unat off + 4);
        if count = 0 \<or> reserved \<noteq> 0 \<or> \<not> bounds_ok (off + 8) (ucast count * 16) sec_end
        then fail ERR_BAD_SECTION
        else let ls' = upd_candidate (\<lambda>pl. pl\<lparr> p_state_bytes := state_bytes,
               p_num_state := count, p_state_entries := Some (unat off + 8),
               p_state_section := Some (unat off) \<rparr>) ls in
          andthen (for_check (unat count) (check_state_entry (ls_candidate ls') off sec_end))
            (\<lambda>_. ret ls')
      })"

definition locate_memory :: "load_state \<Rightarrow> (tigris_error + load_state) option" where
  "locate_memory ls =
     (let off = ls_section_offsets ls ! SEC_MEMORY in
      if off = 0 then ret ls
      else if hd_version (ls_hdr ls) < SCHEMA_VERSION_SCHEDULED_PEAK \<or> \<not> section_holds ls SEC_MEMORY 4
      then fail ERR_BAD_SECTION
      else do {
        memory \<leftarrow> rd_memory_record (p_buf (ls_candidate ls)) (unat off);
        ret (upd_candidate (\<lambda>pl. pl\<lparr> p_scheduled_peak := mr_scheduled_peak memory \<rparr>) ls)
      })"

definition set_weight_blob :: "load_state \<Rightarrow> load_state" where
  "set_weight_blob ls =
     (let pl = ls_candidate ls in
      if p_weight_entries pl \<noteq> None \<and> p_weight_blocks pl = None
      then upd_candidate (\<lambda>pl. pl\<lparr> p_weight_blob :=
             Some (unat (ls_section_offsets ls ! SEC_WEIGHTS) +
                   unat (ucast (hd_num_weights (ls_hdr ls)) * 12 :: u32)) \<rparr>) ls
      else ls)"

definition locate_quant_params :: "load_state \<Rightarrow> (tigris_error + load_state) option" where
  "locate_quant_params ls =
     (let off = ls_section_offsets ls ! SEC_QUANT_PARAMS;
          sec_end = ls_section_ends ls ! SEC_QUANT_PARAMS; b = p_buf (ls_candidate ls) in
      if off = 0 then ret ls
      else if \<not> bounds_ok off 4 sec_end then fail ERR_BAD_SECTION
      else do {
        nqp \<leftarrow> rd16 b (unat off);
        qd_field \<leftarrow> rd16 b (unat off + 2);
        let entries_size = ucast nqp * 16;
        if nqp \<noteq> hd_num_quant_params (ls_hdr ls) then fail ERR_BAD_SECTION
        else if sec_end < off + 4 + entries_size then fail ERR_BAD_SECTION
        else let data_size = sec_end - off - 4 - entries_size;
                 physical_pages = (data_size div 4 + 65536 - 1) div 65536 in
          if data_size mod 4 \<noteq> 0 then fail ERR_BAD_SECTION
          else if qd_field = 0 \<or> physical_pages < ucast qd_field \<or>
            physical_pages > ucast qd_field + 1
          then fail ERR_BAD_SECTION
          else if \<not> bounds_ok (off + 4) (entries_size + data_size) sec_end
          then fail ERR_BAD_SECTION
          else ret (upd_candidate (\<lambda>pl. pl\<lparr> p_num_quant_params := nqp,
                 p_quant_params := Some (unat off + 4),
                 p_quant_data := (if data_size > 0 then Some (unat off + 4 + unat entries_size)
                                  else p_quant_data pl) \<rparr>) ls)
      })"

definition locate_optional_sections :: "load_state \<Rightarrow> (tigris_error + load_state) option" where
  "locate_optional_sections ls =
     andthen (locate_stages ls) (\<lambda>ls.
     andthen (locate_tile_plans ls) (\<lambda>ls.
     andthen (locate_weights ls) (\<lambda>ls.
     andthen (locate_weight_blocks ls) (\<lambda>ls.
     andthen (locate_attributes ls) (\<lambda>ls.
     andthen (locate_state ls) (\<lambda>ls.
     andthen (locate_memory ls) (\<lambda>ls.
     locate_quant_params (set_weight_blob ls))))))))"

end
