(* ===== verification/Loader_Layout.thy ===== *)
theory Loader_Layout
  imports Loader_Sections
begin

text \<open>
  Memory safety of the first two loader phases, and the layout they establish: an invariant of
  the loader's state, established by \<open>load_header_and_directory\<close> and kept by each step of
  \<open>locate_optional_sections\<close>, which says that every table of the candidate plan lies inside
  the buffer and that the tables the header announces are present.
\<close>

section \<open>The tables of the candidate lie inside the buffer\<close>

definition table_in :: "bytes \<Rightarrow> nat option \<Rightarrow> nat \<Rightarrow> nat \<Rightarrow> bool" where
  "table_in b t n len = (case t of None \<Rightarrow> True | Some base \<Rightarrow> base + n * len \<le> length b)"

lemma table_in_None [simp]: "table_in b None n len"
  by (simp add: table_in_def)

lemma table_in_Some [simp]: "table_in b (Some base) n len = (base + n * len \<le> length b)"
  by (simp add: table_in_def)

definition tables_in_buffer :: "file_header \<Rightarrow> tigris_plan \<Rightarrow> bool" where
  "tables_in_buffer hdr pl = (let b = p_buf pl in
     table_in b (p_tensors pl) (unat (hd_num_tensors hdr)) 16 \<and>
     table_in b (p_ops pl) (unat (hd_num_ops hdr)) 38 \<and>
     table_in b (p_stages pl) (unat (hd_num_stages hdr)) 28 \<and>
     table_in b (p_tile_plans pl) (unat (hd_num_tile_plans hdr)) 24 \<and>
     table_in b (p_tile_plans_v10 pl) (unat (hd_num_tile_plans hdr)) 32 \<and>
     table_in b (p_tile_plans_v11 pl) (unat (hd_num_tile_plans hdr)) 48 \<and>
     table_in b (p_weight_entries pl) (unat (hd_num_weights hdr)) 12 \<and>
     table_in b (p_weight_blocks pl) (unat (p_num_weight_blocks pl)) 20 \<and>
     table_in b (p_op_attributes pl) (unat (p_num_op_attributes pl)) 8 \<and>
     table_in b (p_state_entries pl) (unat (p_num_state pl)) 16 \<and>
     table_in b (p_quant_params pl) (unat (p_num_quant_params pl)) 16 \<and>
     table_in b (p_subgraphs pl) (unat (p_num_subgraphs pl)) 12)"

text \<open>A table inside the buffer can be indexed below its length.\<close>

lemma plan_tensor_defined:
  "table_in (p_buf pl) (p_tensors pl) n 16 \<Longrightarrow> p_tensors pl \<noteq> None \<Longrightarrow> i < n \<Longrightarrow>
     \<exists>r. plan_tensor pl i = Some r"
  by (auto simp: plan_tensor_def intro: tigris_tensor_table.entry_Some)

lemma plan_op_defined:
  "table_in (p_buf pl) (p_ops pl) n 38 \<Longrightarrow> p_ops pl \<noteq> None \<Longrightarrow> i < n \<Longrightarrow>
     \<exists>r. plan_op pl i = Some r"
  by (auto simp: plan_op_def intro: tigris_op_table.entry_Some)

lemma plan_stage_defined:
  "table_in (p_buf pl) (p_stages pl) n 28 \<Longrightarrow> p_stages pl \<noteq> None \<Longrightarrow> i < n \<Longrightarrow>
     \<exists>r. plan_stage pl i = Some r"
  by (auto simp: plan_stage_def intro: tigris_stage_table.entry_Some)

lemma plan_tile_plan_defined:
  "table_in (p_buf pl) (p_tile_plans pl) n 24 \<Longrightarrow> p_tile_plans pl \<noteq> None \<Longrightarrow> i < n \<Longrightarrow>
     \<exists>r. plan_tile_plan pl i = Some r"
  by (auto simp: plan_tile_plan_def intro: tile_plan_table.entry_Some)

lemma plan_tile_plan_v10_defined:
  "table_in (p_buf pl) (p_tile_plans_v10 pl) n 32 \<Longrightarrow> p_tile_plans_v10 pl \<noteq> None \<Longrightarrow> i < n \<Longrightarrow>
     \<exists>r. plan_tile_plan_v10 pl i = Some r"
  by (auto simp: plan_tile_plan_v10_def intro: tile_plan_v10_table.entry_Some)

lemma plan_tile_plan_v11_defined:
  "table_in (p_buf pl) (p_tile_plans_v11 pl) n 48 \<Longrightarrow> p_tile_plans_v11 pl \<noteq> None \<Longrightarrow> i < n \<Longrightarrow>
     \<exists>r. plan_tile_plan_v11 pl i = Some r"
  by (auto simp: plan_tile_plan_v11_def intro: tile_plan_v11_table.entry_Some)

lemma plan_weight_entry_defined:
  "table_in (p_buf pl) (p_weight_entries pl) n 12 \<Longrightarrow> p_weight_entries pl \<noteq> None \<Longrightarrow> i < n \<Longrightarrow>
     \<exists>r. plan_weight_entry pl i = Some r"
  by (auto simp: plan_weight_entry_def intro: weight_entry_table.entry_Some)

lemma plan_weight_block_defined:
  "table_in (p_buf pl) (p_weight_blocks pl) n 20 \<Longrightarrow> p_weight_blocks pl \<noteq> None \<Longrightarrow> i < n \<Longrightarrow>
     \<exists>r. plan_weight_block pl i = Some r"
  by (auto simp: plan_weight_block_def intro: weight_block_table.entry_Some)

lemma plan_op_attribute_defined:
  "table_in (p_buf pl) (p_op_attributes pl) n 8 \<Longrightarrow> p_op_attributes pl \<noteq> None \<Longrightarrow> i < n \<Longrightarrow>
     \<exists>r. plan_op_attribute pl i = Some r"
  by (auto simp: plan_op_attribute_def intro: op_attribute_table.entry_Some)

lemma plan_quant_param_defined:
  "table_in (p_buf pl) (p_quant_params pl) n 16 \<Longrightarrow> p_quant_params pl \<noteq> None \<Longrightarrow> i < n \<Longrightarrow>
     \<exists>r. plan_quant_param pl i = Some r"
  by (auto simp: plan_quant_param_def intro: quant_param_table.entry_Some)

lemma plan_state_entry_defined:
  "table_in (p_buf pl) (p_state_entries pl) n 16 \<Longrightarrow> p_state_entries pl \<noteq> None \<Longrightarrow> i < n \<Longrightarrow>
     \<exists>r. plan_state_entry pl i = Some r"
  by (auto simp: plan_state_entry_def intro: state_entry_table.entry_Some)

lemma plan_subgraph_defined:
  "table_in (p_buf pl) (p_subgraphs pl) n 12 \<Longrightarrow> p_subgraphs pl \<noteq> None \<Longrightarrow> i < n \<Longrightarrow>
     \<exists>r. plan_subgraph pl i = Some r"
  by (auto simp: plan_subgraph_def intro: subgraph_table.entry_Some)

text \<open>The position of the record an attribute search returns.\<close>

lemma find_attribute_position:
  "find_attribute pl k ty i n = Some (Some attr) \<Longrightarrow>
     \<exists>a. i \<le> a \<and> a < i + n \<and> plan_op_attribute pl a = Some attr \<and> oa_op_index attr = k \<and> oa_type attr = ty"
proof (induction pl k ty i n rule: find_attribute.induct)
  case (2 pl k ty i n)
  then obtain x where x: "plan_op_attribute pl i = Some x" by (auto simp: bind_eq_Some_conv)
  show ?case
  proof (cases "oa_op_index x = k \<and> oa_type x = ty")
    case True
    then show ?thesis using 2 x by (auto intro!: exI [of _ i])
  next
    case False
    with 2 x obtain a where "Suc i \<le> a \<and> a < Suc i + n \<and> plan_op_attribute pl a = Some attr \<and>
       oa_op_index attr = k \<and> oa_type attr = ty" by auto
    then show ?thesis by (intro exI [of _ a]) auto
  qed
qed simp

text \<open>The tables the header announces are there once step \<open>k\<close> of phase 2 has run.\<close>

definition tables_present :: "nat \<Rightarrow> file_header \<Rightarrow> tigris_plan \<Rightarrow> bool" where
  "tables_present k hdr pl = (p_tensors pl \<noteq> None \<and> p_ops pl \<noteq> None \<and>
     (1 \<le> k \<longrightarrow> hd_num_stages hdr \<noteq> 0 \<longrightarrow> p_stages pl \<noteq> None) \<and>
     (2 \<le> k \<longrightarrow> hd_num_tile_plans hdr \<noteq> 0 \<longrightarrow>
        p_tile_plans pl \<noteq> None \<or> p_tile_plans_v10 pl \<noteq> None \<or> p_tile_plans_v11 pl \<noteq> None) \<and>
     (3 \<le> k \<longrightarrow> hd_num_weights hdr \<noteq> 0 \<longrightarrow> p_weight_entries pl \<noteq> None) \<and>
     (8 \<le> k \<longrightarrow> hd_num_quant_params hdr \<noteq> 0 \<longrightarrow>
        p_quant_params pl \<noteq> None \<and> p_num_quant_params pl = hd_num_quant_params hdr))"

definition ls_ok :: "nat \<Rightarrow> load_state \<Rightarrow> bool" where
  "ls_ok k ls = (unat (ls_buf_len ls) = length (p_buf (ls_candidate ls)) \<and>
     p_header (ls_candidate ls) = Some (ls_hdr ls) \<and>
     layout_ok (ls_buf_len ls) (ls_dir_end ls) (ls_section_offsets ls) (ls_section_ends ls) \<and>
     required_present (ls_hdr ls) (ls_section_offsets ls) \<and>
     pools_aligned (ls_hdr ls) (ls_section_offsets ls) \<and>
     tables_in_buffer (ls_hdr ls) (ls_candidate ls) \<and> tables_present k (ls_hdr ls) (ls_candidate ls))"

lemma unat_u16_scaled:
  "unat k \<le> 65536 \<Longrightarrow> unat (ucast (x :: u16) * k :: u32) = unat x * unat k"
proof -
  assume k: "unat k \<le> 65536"
  have "unat x * unat k \<le> 65535 * 65536"
    using unat_u16_less [of x] k by (intro mult_le_mono) simp_all
  then show ?thesis by (subst unat_mult_u32) simp_all
qed

lemma section_end_in_buffer:
  assumes "layout_ok n d offs ends" and "i < SEC_MAX"
  shows "unat (ends ! i) \<le> unat n"
  using assms by (cases "offs ! i = 0") (auto simp: layout_ok_def word_le_nat_alt)

lemma ls_ok_end_in_buffer:
  assumes "ls_ok k ls" and "i < SEC_MAX"
  shows "unat (ls_section_ends ls ! i) \<le> length (p_buf (ls_candidate ls))"
proof -
  have "layout_ok (ls_buf_len ls) (ls_dir_end ls) (ls_section_offsets ls) (ls_section_ends ls)"
    using assms(1) by (simp add: ls_ok_def)
  from section_end_in_buffer [OF this assms(2)] show ?thesis
    using assms(1) by (simp add: ls_ok_def)
qed

lemma ls_ok_bounds:
  assumes "ls_ok k ls" and "bounds_ok off need (ls_section_ends ls ! i)" and "i < SEC_MAX"
  shows "unat off + unat need \<le> length (p_buf (ls_candidate ls))"
  using ls_ok_end_in_buffer [OF assms(1,3)] assms(2) by (simp add: bounds_ok_iff)

lemma ls_ok_section:
  assumes "ls_ok k ls" and "section_holds ls i need" and "i < SEC_MAX"
  shows "unat (ls_section_offsets ls ! i) + unat need \<le> length (p_buf (ls_candidate ls))"
  using assms by (intro ls_ok_bounds) (simp_all add: section_holds_def)

text \<open>Phase 1 establishes the invariant.\<close>

lemma wp_check_header:
  "unat n = length b \<Longrightarrow> wp (check_header b n) (ok (\<lambda>hdr. rd_file_header b 0 = Some hdr \<and>
     hd_file_size hdr = n))"
  by (cases "rd_file_header b 0")
    (auto simp: check_header_def word_less_nat_alt not_less dest: arg_cong [where f = "\<lambda>x. x = None"])

definition ls_directory_ok :: "file_header \<Rightarrow> bytes \<Rightarrow> u32 \<Rightarrow> load_state \<Rightarrow> bool" where
  "ls_directory_ok hdr b n ls = (ls_buf_len ls = n \<and> ls_hdr ls = hdr \<and>
     ls_candidate ls = (empty_plan b)\<lparr> p_header := Some hdr \<rparr> \<and>
     layout_ok n (ls_dir_end ls) (ls_section_offsets ls) (ls_section_ends ls))"

lemma wp_read_directory:
  assumes "unat n = length b"
  shows "wp (read_directory b n hdr) (ok (ls_directory_ok hdr b n))"
proof (cases "bounds_ok (hd_section_dir_off hdr) 8 n")
  case False
  then show ?thesis by (simp add: read_directory_def)
next
  case True
  have walk: "wp (walk_directory b n (hd_section_dir_off hdr) initial_dir) (ok (\<lambda>(found, c, s).
     dir_inv n s \<and> unat (hd_section_dir_off hdr) \<le> unat c \<and> (found \<longrightarrow> bounds_ok c 8 n)))"
    using assms by (intro wp_walk_directory dir_inv_initial) simp
  have "wp (case r of (found, c, s) \<Rightarrow> if \<not> found then fail ERR_BAD_SECTION
      else andthen (section_ends (ds_seen s) (ds_offsets s) (c + 8) n) (\<lambda>ends.
          ret \<lparr> ls_buf_len = n, ls_hdr = hdr,
                ls_candidate = (empty_plan b)\<lparr> p_header := Some hdr \<rparr>,
                ls_required = no_limits, ls_section_offsets = ds_offsets s,
                ls_section_ends = ends, ls_section_seen = ds_seen s, ls_dir_end = c + 8,
                ls_index_bytes = 0, ls_shape_bytes = 0, ls_strings_len = 0, ls_index_count = 0,
                ls_shape_count = 0, ls_model_io_count = 0, ls_next_scheduled_op = 0 \<rparr>))
      (ok (ls_directory_ok hdr b n))"
    if r: "case r of (found, c, s) \<Rightarrow>
       dir_inv n s \<and> unat (hd_section_dir_off hdr) \<le> unat c \<and> (found \<longrightarrow> bounds_ok c 8 n)" for r
  proof -
    obtain found c s where [simp]: "r = (found, c, s)" by (cases r)
    show ?thesis
    proof (cases found)
      case True
      with r have "bounds_ok c 8 n" and inv: "dir_inv n s" by simp_all
      then have "0 < c + 8"
        using bounds_ok_add [of c 8 n] by (simp add: word_less_nat_alt)
      from wp_section_ends [OF inv this] True show ?thesis
        by (auto intro!: wp_andthen simp: ls_directory_ok_def)
    qed simp
  qed
  with True show ?thesis
    by (simp add: read_directory_def wp_andthen [OF walk])
qed

lemma ls_ok_set_tensors_and_ops:
  assumes "ls_directory_ok hdr b n ls" and "unat n = length b"
    and "required_present hdr (ls_section_offsets ls)"
    and "pools_aligned hdr (ls_section_offsets ls)"
  shows "wp (set_tensors_and_ops ls) (ok (ls_ok 0))"
proof -
  have "unat (ls_section_offsets ls ! i) + unat need \<le> length b"
    if "section_holds ls i need" "i < SEC_MAX" for i need
    using that assms(1,2) section_end_in_buffer [of n _ "ls_section_offsets ls" _ i]
    by (fastforce simp: ls_directory_ok_def section_holds_def bounds_ok_iff)
  from this [of SEC_TENSORS "ucast (hd_num_tensors hdr) * 16"]
    this [of SEC_OPS "ucast (hd_num_ops hdr) * 38"] show ?thesis
    using assms
    by (auto simp: set_tensors_and_ops_def ls_ok_def ls_directory_ok_def tables_in_buffer_def
        tables_present_def empty_plan_def section_ptr_def unat_u16_scaled)
qed

text \<open>What every step leaves alone.\<close>

definition same_file :: "load_state \<Rightarrow> load_state \<Rightarrow> bool" where
  "same_file ls ls' = (ls_buf_len ls' = ls_buf_len ls \<and> ls_hdr ls' = ls_hdr ls \<and>
     p_buf (ls_candidate ls') = p_buf (ls_candidate ls) \<and>
     ls_section_offsets ls' = ls_section_offsets ls \<and> ls_section_ends ls' = ls_section_ends ls)"

lemma same_file_refl [simp]: "same_file ls ls"
  by (simp add: same_file_def)

lemma same_file_trans: "same_file a b \<Longrightarrow> same_file b c \<Longrightarrow> same_file a c"
  by (simp add: same_file_def)

lemma wp_load_header_and_directory:
  assumes "\<And>b. buf = Some b \<Longrightarrow> unat n = length b"
  shows "wp (load_header_and_directory buf n z) (ok (\<lambda>ls. ls_ok 0 ls \<and> ls_buf_len ls = n \<and>
     buf = Some (p_buf (ls_candidate ls)) \<and> hd_file_size (ls_hdr ls) = n))"
proof (cases "z \<or> buf = None")
  case True
  then show ?thesis by (auto simp: load_header_and_directory_def)
next
  case False
  then obtain b where b: "buf = Some b" "\<not> z" by auto
  note n = assms [OF b(1)]
  have step: "wp (set_tensors_and_ops ls) (ok (\<lambda>ls. ls_ok 0 ls \<and> ls_buf_len ls = n \<and>
       buf = Some (p_buf (ls_candidate ls)) \<and> hd_file_size (ls_hdr ls) = n))"
    if "ls_directory_ok hdr b n ls" "required_present hdr (ls_section_offsets ls)"
      "pools_aligned hdr (ls_section_offsets ls)" "hd_file_size hdr = n" for ls hdr
  proof -
    have "wp (set_tensors_and_ops ls) (ok (\<lambda>ls. ls_buf_len ls = n \<and>
       buf = Some (p_buf (ls_candidate ls)) \<and> hd_file_size (ls_hdr ls) = n))"
      using that b by (simp add: set_tensors_and_ops_def ls_directory_ok_def empty_plan_def)
    with ls_ok_set_tensors_and_ops [OF that(1) n that(2,3)] show ?thesis
      by (cases "set_tensors_and_ops ls") (auto simp: ok_def split: sum.splits)
  qed
  show ?thesis
    unfolding load_header_and_directory_def b(1)
    using b(2) wp_check_header [OF n] wp_read_directory [OF n] step
    by (auto intro!: wp_andthen simp: b(1))
qed

section \<open>Phase 2 keeps it\<close>

lemma ls_ok_upd:
  assumes "ls_ok k ls" and "p_buf (f (ls_candidate ls)) = p_buf (ls_candidate ls)"
    and "p_header (f (ls_candidate ls)) = p_header (ls_candidate ls)"
    and "tables_in_buffer (ls_hdr ls) (f (ls_candidate ls))"
    and "tables_present k' (ls_hdr ls) (f (ls_candidate ls))"
  shows "ls_ok k' (upd_candidate f ls) \<and> same_file ls (upd_candidate f ls)"
  using assms by (simp add: ls_ok_def same_file_def)

lemma ls_ok_next:
  assumes "ls_ok k ls" and "tables_present k' (ls_hdr ls) (ls_candidate ls)"
  shows "ls_ok k' ls"
  using assms by (simp add: ls_ok_def)

lemma ls_okD:
  assumes "ls_ok k ls"
  shows "tables_in_buffer (ls_hdr ls) (ls_candidate ls)" "tables_present k (ls_hdr ls) (ls_candidate ls)"
    "required_present (ls_hdr ls) (ls_section_offsets ls)"
  using assms by (simp_all add: ls_ok_def)

lemma wp_locate_stages:
  assumes "ls_ok 0 ls"
  shows "wp (locate_stages ls) (ok (\<lambda>ls'. ls_ok 1 ls' \<and> same_file ls ls'))"
proof (cases "ls_section_offsets ls ! SEC_STAGES \<noteq> 0 \<and> hd_num_stages (ls_hdr ls) > 0")
  case True
  let ?need = "ucast (hd_num_stages (ls_hdr ls)) * 28"
  have "ls_ok 1 (upd_candidate (\<lambda>pl. pl\<lparr> p_stages := section_ptr ls SEC_STAGES \<rparr>) ls) \<and>
      same_file ls (upd_candidate (\<lambda>pl. pl\<lparr> p_stages := section_ptr ls SEC_STAGES \<rparr>) ls)"
    if "section_holds ls SEC_STAGES ?need"
    using ls_okD [OF assms] ls_ok_section [OF assms that]
    by (intro ls_ok_upd [OF assms])
      (simp_all add: tables_in_buffer_def tables_present_def section_ptr_def unat_u16_scaled Let_def)
  then show ?thesis using True by (simp add: locate_stages_def)
next
  case False
  then have "ls_ok 1 ls"
    using ls_okD [OF assms] by (intro ls_ok_next [OF assms])
      (auto simp: tables_present_def required_present_def word_neq_0_conv)
  with False show ?thesis by (auto simp: locate_stages_def)
qed

lemma wp_tile_record_axis:
  assumes "tables_in_buffer hdr pl" and "i < unat (hd_num_tile_plans hdr)"
    and "p_tile_plans pl \<noteq> None \<or> p_tile_plans_v10 pl \<noteq> None \<or> p_tile_plans_v11 pl \<noteq> None"
  shows "\<exists>t a. tile_record_axis pl i = Some (t, a)"
proof -
  let ?n = "unat (hd_num_tile_plans hdr)"
  have t: "table_in (p_buf pl) (p_tile_plans pl) ?n 24" "table_in (p_buf pl) (p_tile_plans_v10 pl) ?n 32"
    "table_in (p_buf pl) (p_tile_plans_v11 pl) ?n 48"
    using assms(1) by (simp_all add: tables_in_buffer_def Let_def)
  show ?thesis
    using plan_tile_plan_defined [OF t(1) _ assms(2)] plan_tile_plan_v10_defined [OF t(2) _ assms(2)]
      plan_tile_plan_v11_defined [OF t(3) _ assms(2)] assms(3)
    by (auto simp: tile_record_axis_def simp del: not_None_eq)
qed

lemma unat_tile_need:
  "unat (ucast (x :: u16) * tile_stride v) = unat x * unat (tile_stride v)"
  by (rule unat_u16_scaled) (simp add: tile_stride_def)

lemma wp_locate_tile_plans:
  assumes "ls_ok 1 ls"
  shows "wp (locate_tile_plans ls) (ok (\<lambda>ls'. ls_ok 2 ls' \<and> same_file ls ls'))"
proof (cases "ls_section_offsets ls ! SEC_TILE_PLANS \<noteq> 0 \<and> hd_num_tile_plans (ls_hdr ls) > 0")
  case True
  let ?ls = "upd_candidate (set_tile_plans ls) ls"
  have set: "ls_ok 2 ?ls \<and> same_file ls ?ls"
    if "section_holds ls SEC_TILE_PLANS (ucast (hd_num_tile_plans (ls_hdr ls)) * tile_stride (hd_version (ls_hdr ls)))"
    using ls_okD [OF assms] ls_ok_section [OF assms that]
    by (intro ls_ok_upd [OF assms])
      (auto simp add: set_tile_plans_def tables_in_buffer_def tables_present_def section_ptr_def
        unat_tile_need unat_u16_scaled tile_stride_def Let_def split: if_splits)
  have check: "wp (check_tile_record ?ls i) (ok (\<lambda>_. True))"
    if "ls_ok 2 ?ls" "i < unat (hd_num_tile_plans (ls_hdr ls))" for i
  proof -
    have "\<exists>t a. tile_record_axis (ls_candidate ?ls) i = Some (t, a)"
      using ls_okD [OF that(1)] that(2) True
      by (intro wp_tile_record_axis [of "ls_hdr ?ls"]) (auto simp: tables_present_def)
    then show ?thesis
      by (auto simp: check_tile_record_def)
  qed
  show ?thesis
    using True set check
    by (auto simp: locate_tile_plans_def Let_def intro!: wp_andthen [OF wp_for_check_True])
next
  case False
  then have "ls_ok 2 ls"
    using ls_okD [OF assms] by (intro ls_ok_next [OF assms])
      (auto simp: tables_present_def required_present_def word_neq_0_conv)
  with False show ?thesis by (auto simp: locate_tile_plans_def)
qed

lemma wp_locate_weights:
  assumes "ls_ok 2 ls"
  shows "wp (locate_weights ls) (ok (\<lambda>ls'. ls_ok 3 ls' \<and> same_file ls ls'))"
proof (cases "ls_section_offsets ls ! SEC_WEIGHTS \<noteq> 0 \<and> hd_num_weights (ls_hdr ls) > 0")
  case True
  let ?f = "\<lambda>pl. pl\<lparr> p_weight_entries := section_ptr ls SEC_WEIGHTS \<rparr>"
  have "ls_ok 3 (upd_candidate ?f ls) \<and> same_file ls (upd_candidate ?f ls)"
    if "section_holds ls SEC_WEIGHTS (ucast (hd_num_weights (ls_hdr ls)) * 12)"
    using ls_okD [OF assms] ls_ok_section [OF assms that]
    by (intro ls_ok_upd [OF assms])
      (simp_all add: tables_in_buffer_def tables_present_def section_ptr_def unat_u16_scaled Let_def)
  then show ?thesis using True by (simp add: locate_weights_def)
next
  case False
  then have "ls_ok 3 ls"
    using ls_okD [OF assms] by (intro ls_ok_next [OF assms])
      (auto simp: tables_present_def required_present_def word_neq_0_conv)
  with False show ?thesis by (auto simp: locate_weights_def)
qed

lemma ls_ok_skip: "ls_ok k ls \<Longrightarrow> k \<le> k' \<Longrightarrow> k' < 8 \<Longrightarrow> 3 \<le> k \<Longrightarrow> ls_ok k' ls"
  by (rule ls_ok_next) (auto simp: ls_ok_def tables_present_def)

lemma unat_off_add:
  "bounds_ok off c e \<Longrightarrow> unat (off + c) = unat off + unat c"
  by (rule bounds_ok_add)

lemma wp_locate_weight_blocks:
  assumes ls: "ls_ok 3 ls"
  shows "wp (locate_weight_blocks ls) (ok (\<lambda>ls'. ls_ok 4 ls' \<and> same_file ls ls'))"
proof (cases "ls_section_offsets ls ! SEC_WEIGHT_BLOCKS = 0")
  case True
  with ls_ok_skip [OF ls, of 4] show ?thesis by (simp add: locate_weight_blocks_def)
next
  case False
  let ?off = "ls_section_offsets ls ! SEC_WEIGHT_BLOCKS"
  let ?f = "\<lambda>num_blocks compression pl. pl\<lparr> p_num_weight_blocks := num_blocks,
               p_weight_compression := compression, p_weight_blocks := Some (unat ?off + 4),
               p_weight_blocks_data := Some (unat ?off + 4 + unat (ucast num_blocks * 20 :: u32)) \<rparr>"
  show ?thesis
  proof (cases "section_holds ls SEC_WEIGHT_BLOCKS 4")
    case holds: True
    then have b4: "bounds_ok ?off 4 (ls_section_ends ls ! SEC_WEIGHT_BLOCKS)"
      by (simp add: section_holds_def)
    have hdr: "unat ?off + 4 \<le> length (p_buf (ls_candidate ls))"
      using ls_ok_bounds [OF ls b4] by simp
    have upd: "ls_ok 4 (upd_candidate (?f nb c) ls) \<and> same_file ls (upd_candidate (?f nb c) ls)"
      if "bounds_ok (?off + 4) (ucast nb * 20) (ls_section_ends ls ! SEC_WEIGHT_BLOCKS)" for nb c
      using ls_okD [OF ls] ls_ok_bounds [OF ls that] bounds_ok_add [OF b4]
      by (intro ls_ok_upd [OF ls])
        (simp_all add: tables_in_buffer_def tables_present_def unat_u16_scaled Let_def)
    show ?thesis
      using False holds hdr upd by (auto simp: locate_weight_blocks_def Let_def wp_rules)
  qed (use False in \<open>simp add: locate_weight_blocks_def Let_def\<close>)
qed

lemma wp_locate_attributes:
  assumes ls: "ls_ok 4 ls"
  shows "wp (locate_attributes ls) (ok (\<lambda>ls'. ls_ok 5 ls' \<and> same_file ls ls'))"
proof (cases "ls_section_offsets ls ! SEC_OP_ATTRIBUTES = 0")
  case True
  with ls_ok_skip [OF ls, of 5] show ?thesis by (simp add: locate_attributes_def)
next
  case False
  let ?off = "ls_section_offsets ls ! SEC_OP_ATTRIBUTES"
  let ?f = "\<lambda>count pl. pl\<lparr> p_num_op_attributes := count, p_op_attributes := Some (unat ?off + 4),
               p_op_attribute_data := Some (unat ?off + 4 + unat (ucast count * 8 :: u32)) \<rparr>"
  show ?thesis
  proof (cases "section_holds ls SEC_OP_ATTRIBUTES 4")
    case holds: True
    then have b4: "bounds_ok ?off 4 (ls_section_ends ls ! SEC_OP_ATTRIBUTES)"
      by (simp add: section_holds_def)
    have hdr: "unat ?off + 4 \<le> length (p_buf (ls_candidate ls))"
      using ls_ok_bounds [OF ls b4] by simp
    have upd: "ls_ok 5 (upd_candidate (?f c) ls) \<and> same_file ls (upd_candidate (?f c) ls)"
      if "bounds_ok (?off + 4) (ucast c * 8) (ls_section_ends ls ! SEC_OP_ATTRIBUTES)" for c
      using ls_okD [OF ls] ls_ok_bounds [OF ls that] bounds_ok_add [OF b4]
      by (intro ls_ok_upd [OF ls])
        (simp_all add: tables_in_buffer_def tables_present_def unat_u16_scaled Let_def)
    show ?thesis
      using False holds hdr upd by (auto simp: locate_attributes_def Let_def wp_rules)
  qed (use False in \<open>simp add: locate_attributes_def Let_def\<close>)
qed

lemma wp_check_state_entry:
  assumes "table_in (p_buf pl) (p_state_entries pl) n 16" and "p_state_entries pl \<noteq> None" and "i < n"
  shows "wp (check_state_entry pl off e i) (ok (\<lambda>_. True))"
proof -
  note get = plan_state_entry_defined [OF assms(1,2)]
  have "wp (check_state_overlap pl entry j) (ok (\<lambda>_. True))" if "j < i" for entry j
    using get [of j] that assms(3) by (auto simp: check_state_overlap_def)
  then have "wp (for_check i (check_state_overlap pl entry)) (ok (\<lambda>_. True))" for entry
    by (rule wp_for_check_True)
  then show ?thesis
    using get [OF assms(3)] by (auto simp: check_state_entry_def)
qed

lemma wp_locate_state:
  assumes ls: "ls_ok 5 ls"
  shows "wp (locate_state ls) (ok (\<lambda>ls'. ls_ok 6 ls' \<and> same_file ls ls'))"
proof (cases "ls_section_offsets ls ! SEC_STATE = 0")
  case True
  with ls_ok_skip [OF ls, of 6] show ?thesis by (simp add: locate_state_def)
next
  case False
  let ?off = "ls_section_offsets ls ! SEC_STATE" and ?e = "ls_section_ends ls ! SEC_STATE"
  let ?f = "\<lambda>count sb pl. pl\<lparr> p_state_bytes := sb, p_num_state := count,
     p_state_entries := Some (unat ?off + 8), p_state_section := Some (unat ?off) \<rparr>"
  show ?thesis
  proof (cases "bounds_ok ?off 8 ?e")
    case b8: True
    have hdr: "unat ?off + 8 \<le> length (p_buf (ls_candidate ls))"
      using ls_ok_bounds [OF ls b8] by simp
    have upd: "ls_ok 6 (upd_candidate (?f c sb) ls) \<and> same_file ls (upd_candidate (?f c sb) ls)"
      if "bounds_ok (?off + 8) (ucast c * 16) ?e" for c sb
      using ls_okD [OF ls] ls_ok_bounds [OF ls that] bounds_ok_add [OF b8]
      by (intro ls_ok_upd [OF ls])
        (simp_all add: tables_in_buffer_def tables_present_def unat_u16_scaled Let_def)
    have "wp (for_check (unat c) (check_state_entry (ls_candidate (upd_candidate (?f c sb) ls)) ?off ?e))
        (ok (\<lambda>_. True))" if "bounds_ok (?off + 8) (ucast c * 16) ?e" for c sb
      using ls_ok_bounds [OF ls that] bounds_ok_add [OF b8]
      by (intro wp_for_check_True wp_check_state_entry [where n = "unat c"])
        (auto simp: unat_u16_scaled)
    then have loop: "wp (andthen (for_check (unat c) (check_state_entry
          (ls_candidate (upd_candidate (?f c sb) ls)) ?off ?e))
          (\<lambda>_. ret (upd_candidate (?f c sb) ls))) (ok (\<lambda>ls'. ls_ok 6 ls' \<and> same_file ls ls'))"
      if "bounds_ok (?off + 8) (ucast c * 16) ?e" for c sb
      using upd [OF that] that by (intro wp_andthen [where P = "\<lambda>_. True"]) auto
    show ?thesis
      using False b8 hdr loop by (auto simp: locate_state_def Let_def wp_rules)
  qed (use False in \<open>simp add: locate_state_def Let_def\<close>)
qed

lemma wp_locate_memory:
  assumes ls: "ls_ok 6 ls"
  shows "wp (locate_memory ls) (ok (\<lambda>ls'. ls_ok 7 ls' \<and> same_file ls ls'))"
proof (cases "ls_section_offsets ls ! SEC_MEMORY \<noteq> 0 \<and> section_holds ls SEC_MEMORY 4")
  case True
  then have "unat (ls_section_offsets ls ! SEC_MEMORY) + 4 \<le> length (p_buf (ls_candidate ls))"
    using ls_ok_section [OF ls, of SEC_MEMORY 4] by simp
  then obtain r where r: "rd_memory_record (p_buf (ls_candidate ls))
      (unat (ls_section_offsets ls ! SEC_MEMORY)) = Some r"
    by (cases "rd_memory_record (p_buf (ls_candidate ls)) (unat (ls_section_offsets ls ! SEC_MEMORY))")
      auto
  let ?f = "\<lambda>pl. pl\<lparr> p_scheduled_peak := mr_scheduled_peak r \<rparr>"
  have "ls_ok 7 (upd_candidate ?f ls) \<and> same_file ls (upd_candidate ?f ls)"
    using ls_okD [OF ls]
    by (intro ls_ok_upd [OF ls]) (simp_all add: tables_in_buffer_def tables_present_def)
  with True r show ?thesis by (simp add: locate_memory_def Let_def)
next
  case False
  with ls_ok_skip [OF ls, of 7] show ?thesis by (auto simp: locate_memory_def Let_def)
qed

lemma ls_ok_set_weight_blob:
  assumes ls: "ls_ok 7 ls"
  shows "ls_ok 7 (set_weight_blob ls) \<and> same_file ls (set_weight_blob ls)"
proof -
  let ?f = "\<lambda>pl. pl\<lparr> p_weight_blob := Some (unat (ls_section_offsets ls ! SEC_WEIGHTS) +
                   unat (ucast (hd_num_weights (ls_hdr ls)) * 12 :: u32)) \<rparr>"
  have "ls_ok 7 (upd_candidate ?f ls) \<and> same_file ls (upd_candidate ?f ls)"
    using ls_okD [OF ls]
    by (intro ls_ok_upd [OF ls]) (simp_all add: tables_in_buffer_def tables_present_def)
  with ls show ?thesis by (simp add: set_weight_blob_def Let_def)
qed

text \<open>A file the 32-bit section arithmetic cannot wrap on: shorter than 4 GiB less 1 MiB.\<close>

definition file_size_ok :: "u32 \<Rightarrow> bool" where
  "file_size_ok n = (unat n \<le> 4293918720)"

lemma wp_locate_quant_params:
  assumes ls: "ls_ok 7 ls" and small: "file_size_ok (ls_buf_len ls)"
  shows "wp (locate_quant_params ls) (ok (\<lambda>ls'. ls_ok 8 ls' \<and> same_file ls ls'))"
proof (cases "ls_section_offsets ls ! SEC_QUANT_PARAMS = 0")
  case True
  then have "ls_ok 8 ls"
    using ls_okD [OF ls] by (intro ls_ok_next [OF ls])
      (auto simp: tables_present_def required_present_def)
  with True show ?thesis by (simp add: locate_quant_params_def)
next
  case False
  let ?off = "ls_section_offsets ls ! SEC_QUANT_PARAMS" and ?e = "ls_section_ends ls ! SEC_QUANT_PARAMS"
  let ?f = "\<lambda>nqp d pl. pl\<lparr> p_num_quant_params := nqp, p_quant_params := Some (unat ?off + 4),
     p_quant_data := (if d then Some (unat ?off + 4 + unat (ucast nqp * 16 :: u32))
        else p_quant_data pl) \<rparr>"
  show ?thesis
  proof (cases "bounds_ok ?off 4 ?e")
    case b4: True
    have hdr: "unat ?off + 4 \<le> length (p_buf (ls_candidate ls))"
      using ls_ok_bounds [OF ls b4] by simp
    have e: "unat ?e \<le> length (p_buf (ls_candidate ls))" "unat ?e \<le> 4293918720"
      using ls_ok_end_in_buffer [OF ls, of SEC_QUANT_PARAMS] small ls
      by (simp_all add: ls_ok_def file_size_ok_def)
    have off4: "unat (?off + 4) = unat ?off + 4" "unat ?off + 4 \<le> unat ?e"
      using bounds_ok_add [OF b4] b4 by (simp_all add: bounds_ok_iff)
    have upd: "ls_ok 8 (upd_candidate (?f nqp d) ls) \<and> same_file ls (upd_candidate (?f nqp d) ls)"
      if "\<not> ?e < ?off + 4 + ucast nqp * 16" "nqp = hd_num_quant_params (ls_hdr ls)" for nqp d
    proof -
      have q: "unat (ucast nqp * 16 :: u32) = unat nqp * 16"
        by (simp add: unat_u16_scaled)
      have "unat (?off + 4 + ucast nqp * 16) = unat ?off + 4 + unat nqp * 16"
        using off4 e q unat_u16_less [of nqp] by (subst unat_add_u32) simp_all
      then have "unat ?off + 4 + unat nqp * 16 \<le> unat ?e"
        using that by (simp add: word_less_nat_alt)
      then show ?thesis
        using ls_okD [OF ls] e that(2)
        by (intro ls_ok_upd [OF ls]) (simp_all add: tables_in_buffer_def tables_present_def Let_def)
    qed
    show ?thesis
      using False b4 hdr upd
      by (auto simp: locate_quant_params_def Let_def wp_rules)
  qed (use False in \<open>simp add: locate_quant_params_def Let_def\<close>)
qed

lemma wp_locate_optional_sections:
  assumes ls: "ls_ok 0 ls" and small: "file_size_ok (ls_buf_len ls)"
  shows "wp (locate_optional_sections ls) (ok (\<lambda>ls'. ls_ok 8 ls' \<and> same_file ls ls'))"
proof -
  let ?P = "\<lambda>k ls'. ls_ok k ls' \<and> same_file ls ls'"
  have step: "wp (f ls') (ok (?P k'))"
    if "?P k ls'" "\<And>x. ls_ok k x \<Longrightarrow> wp (f x) (ok (\<lambda>y. ls_ok k' y \<and> same_file x y))" for f k k' ls'
    using that by (intro wp_mono [OF that(2) [of ls']]) (auto elim!: ok_mono intro: same_file_trans)
  have quant: "wp (locate_quant_params (set_weight_blob ls')) (ok (?P 8))" if "?P 7 ls'" for ls'
  proof -
    have b: "ls_ok 7 (set_weight_blob ls')" "same_file ls (set_weight_blob ls')"
      using ls_ok_set_weight_blob [of ls'] that same_file_trans by blast+
    then have "file_size_ok (ls_buf_len (set_weight_blob ls'))"
      using small by (simp add: same_file_def)
    from wp_locate_quant_params [OF b(1) this] b(2) show ?thesis
      by (auto elim!: wp_mono ok_mono intro: same_file_trans)
  qed
  have start: "?P 0 ls" using ls by simp
  show ?thesis
    unfolding locate_optional_sections_def
    by (rule wp_andthen [OF step [OF start wp_locate_stages]],
        assumption?,
        rule wp_andthen [OF step [OF _ wp_locate_tile_plans]], assumption, assumption,
        rule wp_andthen [OF step [OF _ wp_locate_weights]], assumption, assumption,
        rule wp_andthen [OF step [OF _ wp_locate_weight_blocks]], assumption, assumption,
        rule wp_andthen [OF step [OF _ wp_locate_attributes]], assumption, assumption,
        rule wp_andthen [OF step [OF _ wp_locate_state]], assumption, assumption,
        rule wp_andthen [OF step [OF _ wp_locate_memory]], assumption, assumption,
        rule quant, assumption)
qed

end
