(* ===== verification/Loader_Tables.thy ===== *)
theory Loader_Tables
  imports Loader_Layout
begin

text \<open>
  The third phase of the plan loader, \<open>validate_tables_and_ops\<close> of \<open>src/tigris_loader.c\<close>: the
  pools, the model's inputs and outputs, every tensor descriptor, and the subgraph table.

  What is shown: the phase reads only inside the buffer whatever it holds, and every tensor it
  accepts has its extents inside the shape pool and a byte size that is exactly the product of
  its extents and its element size, with no 32-bit wrap anywhere.
\<close>

section \<open>Strings\<close>

text \<open>\<open>memchr(p, 0, n) != NULL\<close>, reading byte after byte.\<close>

fun has_nul :: "bytes \<Rightarrow> nat \<Rightarrow> nat \<Rightarrow> bool option" where
  "has_nul b i 0 = Some False"
| "has_nul b i (Suc n) = do { c \<leftarrow> rd8 b i; if c = 0 then Some True else has_nul b (Suc i) n }"

definition string_ok :: "tigris_plan \<Rightarrow> u32 \<Rightarrow> u32 \<Rightarrow> bool option" where
  "string_ok pl strings_len offset =
     (case p_strings pl of
        None \<Rightarrow> Some False
      | Some s \<Rightarrow> if offset \<ge> strings_len then Some False
                  else has_nul (p_buf pl) (s + unat offset) (unat (strings_len - offset)))"

lemma has_nul_defined: "i + n \<le> length b \<Longrightarrow> \<exists>r. has_nul b i n = Some r"
  by (induction b i n rule: has_nul.induct) (auto simp: rd8_def arr_get_def)

section \<open>The model's inputs and outputs\<close>

definition set_pools :: "load_state \<Rightarrow> load_state" where
  "set_pools ls =
     (let offs = ls_section_offsets ls; ends = ls_section_ends ls;
          index_bytes = ends ! SEC_INDEX_POOL - offs ! SEC_INDEX_POOL;
          shape_bytes = ends ! SEC_SHAPE_POOL - offs ! SEC_SHAPE_POOL in
      (upd_candidate (\<lambda>pl. pl\<lparr> p_index_pool := section_ptr ls SEC_INDEX_POOL,
           p_shape_pool := section_ptr ls SEC_SHAPE_POOL, p_strings := section_ptr ls SEC_STRINGS \<rparr>) ls)
        \<lparr> ls_index_bytes := index_bytes, ls_shape_bytes := shape_bytes,
          ls_strings_len := ends ! SEC_STRINGS - offs ! SEC_STRINGS,
          ls_index_count := index_bytes div 2, ls_shape_count := shape_bytes div 4 \<rparr>)"

definition pool_spans_ok :: "load_state \<Rightarrow> bool" where
  "pool_spans_ok ls =
     (let hdr = ls_hdr ls in
      \<not> (unat (ls_index_bytes ls) mod 2 \<noteq> 0 \<and>
          (hd_num_ops hdr \<noteq> 0 \<or> hd_num_stages hdr \<noteq> 0 \<or> hd_num_model_inputs hdr \<noteq> 0 \<or>
           hd_num_model_outputs hdr \<noteq> 0)) \<and>
      \<not> (unat (ls_shape_bytes ls) mod 4 \<noteq> 0 \<and> hd_num_tensors hdr \<noteq> 0) \<and>
      ls_strings_len ls \<noteq> 0)"

text \<open>Element \<open>i\<close> of the model's inputs, which the outputs follow.\<close>

definition plan_model_input :: "tigris_plan \<Rightarrow> nat \<Rightarrow> u16 option" where
  "plan_model_input pl i = do { t \<leftarrow> p_model_inputs pl; rd16 (p_buf pl) (t + i * 2) }"

definition plan_model_output :: "tigris_plan \<Rightarrow> nat \<Rightarrow> u16 option" where
  "plan_model_output pl i = do { t \<leftarrow> p_model_outputs pl; rd16 (p_buf pl) (t + i * 2) }"

definition check_io_index :: "load_state \<Rightarrow> nat \<Rightarrow> (tigris_error + unit) option" where
  "check_io_index ls i = do {
     idx \<leftarrow> plan_model_input (ls_candidate ls) i;
     if idx \<ge> hd_num_tensors (ls_hdr ls) then fail ERR_BAD_SECTION else ret () }"

definition set_model_io :: "load_state \<Rightarrow> (tigris_error + load_state) option" where
  "set_model_io ls =
     (let hdr = ls_hdr ls;
          count = ucast (hd_num_model_inputs hdr) + ucast (hd_num_model_outputs hdr) in
      if \<not> elements_ok (ucast (hd_model_io_off hdr)) count (ls_index_count ls)
      then fail ERR_BAD_SECTION
      else do {
        pool \<leftarrow> p_index_pool (ls_candidate ls);
        let inputs = pool + unat (hd_model_io_off hdr) * 2;
        let ls' = (upd_candidate (\<lambda>pl. pl\<lparr> p_model_inputs := Some inputs,
               p_model_outputs := Some (inputs + unat (hd_num_model_inputs hdr) * 2) \<rparr>) ls)
             \<lparr> ls_model_io_count := count \<rparr>;
        andthen (for_check (unat count) (check_io_index ls')) (\<lambda>_. ret ls') })"

text \<open>\<open>note_requirement\<close>: the raised requirement, and whether the observation is above the
  limit.\<close>

definition note_requirement :: "u16 \<Rightarrow> u32 \<Rightarrow> u32 \<Rightarrow> u16 \<times> bool" where
  "note_requirement slot seen limit =
     (if seen > ucast slot then (if seen > 65535 then 65535 else ucast seen) else slot,
      seen > limit)"

definition require_tensors :: "load_state \<Rightarrow> (tigris_error + load_state) option" where
  "require_tensors ls =
     (let (slot, above) = note_requirement (pl_tensors (ls_required ls))
            (ucast (hd_num_tensors (ls_hdr ls))) (ucast (pl_tensors tigris_build_limits));
          required = (ls_required ls)\<lparr> pl_tensors := slot \<rparr> in
      if above then fail (ERR_PLAN_LIMITS required) else ret (ls\<lparr> ls_required := required \<rparr>))"

section \<open>One tensor\<close>

definition tensor_links_ok :: "load_state \<Rightarrow> tigris_tensor \<Rightarrow> (tigris_error + unit) option" where
  "tensor_links_ok ls t = do {
     name_ok \<leftarrow> string_ok (ls_candidate ls) (ls_strings_len ls) (tn_name_str t);
     if \<not> name_ok \<or> \<not> elements_ok (ucast (tn_shape_off t)) (ucast (tn_ndim t)) (ls_shape_count ls)
     then fail ERR_BAD_SECTION
     else if tn_quant_param_idx t \<noteq> NONE_U16 \<and>
       tn_quant_param_idx t \<ge> hd_num_quant_params (ls_hdr ls)
     then fail ERR_BAD_SECTION
     else ret () }"

text \<open>The flag bits: 1 constant, 2 model input, 4 model output, 8 linear, 16 state.\<close>

definition has_flag :: "tigris_tensor \<Rightarrow> nat \<Rightarrow> bool" where
  "has_flag t k = (unat (tn_flags t) div k mod 2 = 1)"

definition tensor_flags_ok :: "tigris_tensor \<Rightarrow> bool" where
  "tensor_flags_ok t =
     (unat (tn_flags t) < 32 \<and>
      \<not> (has_flag t 16 \<and> (has_flag t 1 \<or> has_flag t 2 \<or> has_flag t 4)) \<and>
      \<not> ((tn_dtype t = 1 \<or> tn_dtype t = 6 \<or> tn_dtype t = 9) \<and> tn_quant_param_idx t \<noteq> NONE_U16))"

definition tensor_interface_ok :: "u32 \<Rightarrow> tigris_tensor \<Rightarrow> bool" where
  "tensor_interface_ok version t =
     ((tn_iface_dtype t \<noteq> 0 \<longrightarrow>
         version \<ge> SCHEMA_VERSION_INTERFACE_DTYPE \<and> (has_flag t 2 \<or> has_flag t 4) \<and>
         tn_iface_dtype t \<noteq> tn_dtype t \<and>
         ((tn_iface_dtype t = 7 \<and> tn_dtype t = 6) \<or>
          ((tn_iface_dtype t = 1 \<or> tn_iface_dtype t = 2) \<and> tn_dtype t = 3 \<and>
           tn_quant_param_idx t \<noteq> NONE_U16))) \<and>
      \<not> (tn_iface_dtype t = 7 \<and> tn_size_bytes t > U32_MAX div 2))"

definition dim_step :: "tigris_plan \<Rightarrow> tigris_tensor \<Rightarrow> nat \<Rightarrow> u32 \<Rightarrow> (tigris_error + u32) option" where
  "dim_step pl t dim elements = do {
     value \<leftarrow> tigris_tensor_shape pl t dim;
     limit \<leftarrow> udiv32 U32_MAX elements;
     if value \<le> 0 \<or> (word_of_int value :: u32) > limit then fail ERR_BAD_TENSOR
     else ret (elements * word_of_int value) }"

definition tensor_elements :: "tigris_plan \<Rightarrow> tigris_tensor \<Rightarrow> (tigris_error + u32) option" where
  "tensor_elements pl t = for_range 0 (unat (tn_ndim t)) (dim_step pl t) 1"

definition tensor_dtype_ok :: "tigris_tensor \<Rightarrow> bool" where
  "tensor_dtype_ok t =
     (tn_dtype t = 1 \<or> tn_dtype t = 3 \<or> tn_dtype t = 6 \<or> tn_dtype t = 9 \<or>
      (tn_dtype t = 5 \<and> has_flag t 16))"

definition tensor_quant_ok :: "tigris_plan \<Rightarrow> tigris_tensor \<Rightarrow> (tigris_error + unit) option" where
  "tensor_quant_ok pl t =
     (if tn_dtype t = 3 \<and> tn_quant_param_idx t \<noteq> NONE_U16 then do {
        qp \<leftarrow> plan_quant_param pl (unat (tn_quant_param_idx t));
        if \<not> f32_isfinite (qp_scale qp) \<or> f32_nonpositive (qp_scale qp) \<or>
           qp_zero_point qp < -128 \<or> qp_zero_point qp > 127
        then fail ERR_BAD_TENSOR else ret () }
      else ret ())"

definition tensor_size_ok ::
  "tigris_plan \<Rightarrow> tigris_tensor \<Rightarrow> u32 \<Rightarrow> (tigris_error + unit) option" where
  "tensor_size_ok pl t elements =
     (if \<not> tensor_dtype_ok t then fail ERR_BAD_TENSOR
      else do {
        limit \<leftarrow> udiv32 U32_MAX (tigris_dtype_size (tn_dtype t));
        if elements > limit \<or> tn_size_bytes t \<noteq> elements * tigris_dtype_size (tn_dtype t)
        then fail ERR_BAD_TENSOR
        else tensor_quant_ok pl t })"

definition validate_tensor :: "load_state \<Rightarrow> nat \<Rightarrow> (tigris_error + unit) option" where
  "validate_tensor ls i = do {
     t \<leftarrow> plan_tensor (ls_candidate ls) i;
     andthen (tensor_links_ok ls t) (\<lambda>_.
       if \<not> tensor_flags_ok t then fail ERR_BAD_TENSOR
       else if \<not> tensor_interface_ok (hd_version (ls_hdr ls)) t then fail ERR_BAD_TENSOR
       else andthen (tensor_elements (ls_candidate ls) t) (tensor_size_ok (ls_candidate ls) t)) }"

section \<open>Boundary flags and subgraphs\<close>

definition check_input_flag :: "tigris_plan \<Rightarrow> nat \<Rightarrow> (tigris_error + unit) option" where
  "check_input_flag pl i = do {
     idx \<leftarrow> plan_model_input pl i; t \<leftarrow> plan_tensor pl (unat idx);
     if has_flag t 2 then ret () else fail ERR_BAD_TENSOR }"

definition check_output_flag :: "tigris_plan \<Rightarrow> nat \<Rightarrow> (tigris_error + unit) option" where
  "check_output_flag pl i = do {
     idx \<leftarrow> plan_model_output pl i; t \<leftarrow> plan_tensor pl (unat idx);
     if has_flag t 4 then ret () else fail ERR_BAD_TENSOR }"

fun any_index :: "(nat \<Rightarrow> u16 option) \<Rightarrow> nat \<Rightarrow> nat \<Rightarrow> bool option" where
  "any_index get 0 idx = Some False"
| "any_index get (Suc n) idx = do {
     x \<leftarrow> get n; rest \<leftarrow> any_index get n idx; Some (unat x = idx \<or> rest) }"

definition check_boundary_flags :: "load_state \<Rightarrow> nat \<Rightarrow> (tigris_error + unit) option" where
  "check_boundary_flags ls idx = do {
     let pl = ls_candidate ls;
     t \<leftarrow> plan_tensor pl idx;
     found_input \<leftarrow> any_index (plan_model_input pl) (unat (hd_num_model_inputs (ls_hdr ls))) idx;
     found_output \<leftarrow> any_index (plan_model_output pl) (unat (hd_num_model_outputs (ls_hdr ls))) idx;
     if has_flag t 2 \<noteq> found_input \<or> has_flag t 4 \<noteq> found_output
     then fail ERR_BAD_TENSOR else ret () }"

definition locate_subgraphs :: "load_state \<Rightarrow> (tigris_error + load_state) option" where
  "locate_subgraphs ls =
     (let off = ls_section_offsets ls ! SEC_SUBGRAPHS; sec_end = ls_section_ends ls ! SEC_SUBGRAPHS;
          b = p_buf (ls_candidate ls) in
      if off = 0 then ret ls
      else if hd_version (ls_hdr ls) < SCHEMA_VERSION_STATE \<or> \<not> bounds_ok off 4 sec_end
      then fail ERR_BAD_SECTION
      else do {
        count \<leftarrow> rd16 b (unat off);
        reserved \<leftarrow> rd16 b (unat off + 2);
        if count < 2 \<or> reserved \<noteq> 0 \<or> \<not> bounds_ok (off + 4) (ucast count * 12) sec_end
        then fail ERR_BAD_SECTION
        else ret (upd_candidate (\<lambda>pl. pl\<lparr> p_subgraphs := Some (unat off + 4),
               p_num_subgraphs := count \<rparr>) ls) })"

definition check_model_name :: "load_state \<Rightarrow> (tigris_error + unit) option" where
  "check_model_name ls = do {
     name_ok \<leftarrow> string_ok (ls_candidate ls) (ls_strings_len ls) (hd_model_name_str (ls_hdr ls));
     if name_ok then ret () else fail ERR_BAD_SECTION }"

definition validate_tables_and_ops :: "load_state \<Rightarrow> (tigris_error + load_state) option" where
  "validate_tables_and_ops ls =
     (let ls = set_pools ls in
      if \<not> pool_spans_ok ls then fail ERR_BAD_SECTION
      else andthen (check_model_name ls) (\<lambda>_.
        andthen (set_model_io ls) (\<lambda>ls.
        andthen (require_tensors ls) (\<lambda>ls.
        andthen (for_check (unat (hd_num_tensors (ls_hdr ls))) (validate_tensor ls)) (\<lambda>_.
        andthen (for_check (unat (hd_num_model_inputs (ls_hdr ls)))
                   (check_input_flag (ls_candidate ls))) (\<lambda>_.
        andthen (for_check (unat (hd_num_model_outputs (ls_hdr ls)))
                   (check_output_flag (ls_candidate ls))) (\<lambda>_.
        andthen (for_check (unat (hd_num_tensors (ls_hdr ls))) (check_boundary_flags ls)) (\<lambda>_.
        locate_subgraphs ls))))))))"

section \<open>The invariant of the phase\<close>

definition pools_in :: "load_state \<Rightarrow> bool" where
  "pools_in ls = (let pl = ls_candidate ls; b = p_buf pl in
     p_index_pool pl \<noteq> None \<and> p_shape_pool pl \<noteq> None \<and> p_strings pl \<noteq> None \<and>
     table_in b (p_index_pool pl) (unat (ls_index_count ls)) 2 \<and>
     table_in b (p_shape_pool pl) (unat (ls_shape_count ls)) 4 \<and>
     table_in b (p_strings pl) (unat (ls_strings_len ls)) 1)"

lemma index_defined:
  assumes "pools_in ls" and "k < unat (ls_index_count ls)"
  shows "\<exists>x. plan_index (ls_candidate ls) k = Some x"
proof -
  obtain p where p: "p_index_pool (ls_candidate ls) = Some p"
    "p + unat (ls_index_count ls) * 2 \<le> length (p_buf (ls_candidate ls))"
    using assms(1) by (auto simp: pools_in_def Let_def)
  then show ?thesis
    using assms(2) by (simp add: plan_index_def rd_Some(2))
qed

lemma shape_defined:
  assumes "pools_in ls" and "k < unat (ls_shape_count ls)"
  shows "\<exists>x. plan_shape (ls_candidate ls) k = Some x"
proof -
  obtain p where p: "p_shape_pool (ls_candidate ls) = Some p"
    "p + unat (ls_shape_count ls) * 4 \<le> length (p_buf (ls_candidate ls))"
    using assms(1) by (auto simp: pools_in_def Let_def)
  then show ?thesis
    using assms(2) by (simp add: plan_shape_def rd_Some(4))
qed

lemma string_ok_defined:
  assumes "pools_in ls"
  shows "\<exists>r. string_ok (ls_candidate ls) (ls_strings_len ls) off = Some r"
proof -
  obtain p where p: "p_strings (ls_candidate ls) = Some p"
    "p + unat (ls_strings_len ls) \<le> length (p_buf (ls_candidate ls))"
    using assms by (auto simp: pools_in_def Let_def)
  have "\<exists>r. has_nul (p_buf (ls_candidate ls)) (p + unat off) (unat (ls_strings_len ls - off)) = Some r"
    if "off < ls_strings_len ls"
  proof (rule has_nul_defined)
    have "off \<le> ls_strings_len ls" using that by simp
    then show "p + unat off + unat (ls_strings_len ls - off) \<le> length (p_buf (ls_candidate ls))"
      using p(2) by (simp add: unat_sub word_le_nat_alt)
  qed
  then show ?thesis by (auto simp: string_ok_def p(1) not_le)
qed

lemma ls_ok_span:
  assumes ls: "ls_ok k ls" and i: "i < SEC_MAX" and off: "ls_section_offsets ls ! i \<noteq> 0"
  shows "unat (ls_section_offsets ls ! i) + unat (ls_section_ends ls ! i - ls_section_offsets ls ! i)
     \<le> length (p_buf (ls_candidate ls))"
proof -
  have "ls_section_offsets ls ! i \<le> ls_section_ends ls ! i"
    using ls i off by (auto simp: ls_ok_def layout_ok_def)
  then have "unat (ls_section_ends ls ! i - ls_section_offsets ls ! i) =
      unat (ls_section_ends ls ! i) - unat (ls_section_offsets ls ! i)"
    "unat (ls_section_offsets ls ! i) \<le> unat (ls_section_ends ls ! i)"
    by (simp_all add: unat_sub word_le_nat_alt)
  with ls_ok_end_in_buffer [OF ls i] show ?thesis by linarith
qed

lemma set_pools_ok:
  assumes ls: "ls_ok 8 ls"
  shows "ls_ok 8 (set_pools ls) \<and> same_file ls (set_pools ls) \<and> pools_in (set_pools ls)"
proof -
  have r: "ls_section_offsets ls ! SEC_INDEX_POOL \<noteq> 0" "ls_section_offsets ls ! SEC_SHAPE_POOL \<noteq> 0"
    "ls_section_offsets ls ! SEC_STRINGS \<noteq> 0"
    using ls_okD(3) [OF ls] by (simp_all add: required_present_def)
  note s = ls_ok_span [OF ls _ r(1)] ls_ok_span [OF ls _ r(2)] ls_ok_span [OF ls _ r(3)]
  have half: "unat (x div 2) * 2 \<le> unat x" "unat (x div 4) * 4 \<le> unat x" for x :: u32
    by (simp_all add: unat_div)
  have "pools_in (set_pools ls)"
    using s half(1) [of "ls_section_ends ls ! SEC_INDEX_POOL - ls_section_offsets ls ! SEC_INDEX_POOL"]
      half(2) [of "ls_section_ends ls ! SEC_SHAPE_POOL - ls_section_offsets ls ! SEC_SHAPE_POOL"]
    by (simp add: pools_in_def set_pools_def Let_def section_ptr_def)
  then show ?thesis
    using ls by (auto simp: set_pools_def Let_def ls_ok_def same_file_def tables_in_buffer_def
        tables_present_def)
qed

definition io_in :: "load_state \<Rightarrow> bool" where
  "io_in ls = (
     (\<forall>i < unat (hd_num_model_inputs (ls_hdr ls)). \<exists>x. plan_model_input (ls_candidate ls) i = Some x \<and>
        x < hd_num_tensors (ls_hdr ls)) \<and>
     (\<forall>i < unat (hd_num_model_outputs (ls_hdr ls)). \<exists>x. plan_model_output (ls_candidate ls) i = Some x \<and>
        x < hd_num_tensors (ls_hdr ls)))"

definition phase_ok :: "load_state \<Rightarrow> load_state \<Rightarrow> bool" where
  "phase_ok ls0 ls = (ls_ok 8 ls \<and> same_file ls0 ls \<and> pools_in ls)"

lemma wp_set_model_io:
  assumes ok: "phase_ok ls0 ls"
  shows "wp (set_model_io ls) (ok (\<lambda>ls'. phase_ok ls0 ls' \<and> io_in ls'))"
proof -
  let ?hdr = "ls_hdr ls" and ?b = "p_buf (ls_candidate ls)"
  let ?ni = "unat (hd_num_model_inputs ?hdr)" and ?no = "unat (hd_num_model_outputs ?hdr)"
  let ?count = "ucast (hd_num_model_inputs ?hdr) + ucast (hd_num_model_outputs ?hdr) :: u32"
  have pools: "pools_in ls" and ls: "ls_ok 8 ls" and same: "same_file ls0 ls"
    using ok by (simp_all add: phase_ok_def)
  obtain p where p: "p_index_pool (ls_candidate ls) = Some p"
    "p + unat (ls_index_count ls) * 2 \<le> length ?b"
    using pools by (auto simp: pools_in_def Let_def)
  let ?in = "p + unat (hd_model_io_off ?hdr) * 2"
  let ?pl = "(ls_candidate ls)\<lparr> p_model_inputs := Some ?in,
      p_model_outputs := Some (?in + ?ni * 2) \<rparr>"
  let ?ls = "(upd_candidate (\<lambda>pl. pl\<lparr> p_model_inputs := Some ?in,
      p_model_outputs := Some (?in + ?ni * 2) \<rparr>) ls)\<lparr> ls_model_io_count := ?count \<rparr>"
  have count: "unat ?count = ?ni + ?no"
    using unat_u8_less [of "hd_num_model_inputs ?hdr"] unat_u8_less [of "hd_num_model_outputs ?hdr"]
    by (subst unat_add_u32) simp_all
  have ok': "phase_ok ls0 ?ls"
    using ls same pools
    by (simp add: phase_ok_def ls_ok_def same_file_def pools_in_def tables_in_buffer_def
        tables_present_def Let_def)
  show ?thesis
  proof (cases "elements_ok (ucast (hd_model_io_off ?hdr)) ?count (ls_index_count ls)")
    case False
    then show ?thesis by (simp add: set_model_io_def Let_def)
  next
    case True
    then have lim: "?in + (?ni + ?no) * 2 \<le> length ?b"
      using p(2) count by (simp add: elements_ok_iff)
    have read: "\<exists>x. plan_model_input ?pl i = Some x" if "i < ?ni + ?no" for i
      using lim that by (simp add: plan_model_input_def rd_Some(2))
    have out: "plan_model_output ?pl i = plan_model_input ?pl (?ni + i)" for i
      by (simp add: plan_model_input_def plan_model_output_def algebra_simps)
    have "wp (check_io_index ?ls i) (ok (\<lambda>_. \<exists>x. plan_model_input ?pl i = Some x \<and>
        x < hd_num_tensors ?hdr))" if "i < ?ni + ?no" for i
      using read [OF that] by (auto simp: check_io_index_def not_le)
    then have "wp (for_check (unat ?count) (check_io_index ?ls)) (ok (\<lambda>_. \<forall>i < ?ni + ?no.
        \<exists>x. plan_model_input ?pl i = Some x \<and> x < hd_num_tensors ?hdr))"
      unfolding count by (rule wp_for_check)
    then have "wp (andthen (for_check (unat ?count) (check_io_index ?ls)) (\<lambda>_. ret ?ls))
        (ok (\<lambda>ls'. phase_ok ls0 ls' \<and> io_in ls'))"
    proof (rule wp_andthen)
      assume "\<forall>i < ?ni + ?no. \<exists>x. plan_model_input ?pl i = Some x \<and>
          x < hd_num_tensors ?hdr"
      then have "io_in ?ls" by (auto simp: io_in_def out)
      then show "wp (ret ?ls) (ok (\<lambda>ls'. phase_ok ls0 ls' \<and> io_in ls'))"
        using ok' by simp
    qed
    then show ?thesis
      using True p(1) by (simp add: set_model_io_def Let_def)
  qed
qed

lemma wp_require_tensors:
  assumes "phase_ok ls0 ls" "io_in ls"
  shows "wp (require_tensors ls) (ok (\<lambda>ls'. phase_ok ls0 ls' \<and> io_in ls' \<and>
     hd_num_tensors (ls_hdr ls') \<le> 512))"
  using assms
  by (auto simp: require_tensors_def note_requirement_def Let_def phase_ok_def ls_ok_def
      same_file_def pools_in_def io_in_def tigris_build_limits_def word_less_nat_alt word_le_nat_alt)

section \<open>What an accepted tensor satisfies\<close>

text \<open>The product of the extents of a tensor.\<close>

definition extents :: "tigris_plan \<Rightarrow> tigris_tensor \<Rightarrow> int list" where
  "extents pl t = map (\<lambda>d. the (tigris_tensor_shape pl t d)) [0 ..< unat (tn_ndim t)]"

definition tensor_exact :: "load_state \<Rightarrow> tigris_tensor \<Rightarrow> bool" where
  "tensor_exact ls t =
     (unat (tn_shape_off t) + unat (tn_ndim t) \<le> unat (ls_shape_count ls) \<and>
      (\<forall>d < unat (tn_ndim t). \<exists>v > 0. tigris_tensor_shape (ls_candidate ls) t d = Some v) \<and>
      tigris_dtype_size (tn_dtype t) \<noteq> 0 \<and>
      int (unat (tn_size_bytes t)) =
        prod_list (extents (ls_candidate ls) t) * int (unat (tigris_dtype_size (tn_dtype t))) \<and>
      (tn_quant_param_idx t \<noteq> NONE_U16 \<longrightarrow> tn_quant_param_idx t < hd_num_quant_params (ls_hdr ls)))"

lemma wp_tensor_elements:
  assumes "pools_in ls" and r: "unat (tn_shape_off t) + unat (tn_ndim t) \<le> unat (ls_shape_count ls)"
  shows "wp (tensor_elements (ls_candidate ls) t) (ok (\<lambda>n.
     (\<forall>d < unat (tn_ndim t). \<exists>v > 0. tigris_tensor_shape (ls_candidate ls) t d = Some v) \<and>
     int (unat n) = prod_list (extents (ls_candidate ls) t) \<and> n \<noteq> 0))"
proof -
  let ?pl = "ls_candidate ls"
  let ?I = "\<lambda>k (n :: u32). (\<forall>d < k. \<exists>v > 0. tigris_tensor_shape ?pl t d = Some v) \<and>
     int (unat n) = prod_list (map (\<lambda>d. the (tigris_tensor_shape ?pl t d)) [0 ..< k]) \<and> n \<noteq> 0"
  have "wp (dim_step ?pl t k n) (ok (?I (Suc k)))" if k: "k < unat (tn_ndim t)" and I: "?I k n" for k n
  proof -
    obtain v where v: "tigris_tensor_shape ?pl t k = Some v"
      using shape_defined [OF assms(1), of "unat (tn_shape_off t) + k"] r k
      by (auto simp: tigris_tensor_shape_def)
    then have range: "v < 2147483648"
      by (auto simp: tigris_tensor_shape_def plan_shape_def bind_eq_Some_conv dest: rdi32_range)
    have step: "n * word_of_int v \<noteq> 0 \<and> int (unat (n * word_of_int v)) = int (unat n) * v"
      if pos: "0 < v" and lim: "\<not> (word_of_int v :: u32) > U32_MAX div n"
    proof -
      have w: "int (unat (word_of_int v :: u32)) = v"
        using pos range by (intro unat_word_of_int_u32) simp_all
      have n: "unat n \<noteq> 0" using I by (simp add: unat_eq_zero)
      have "unat (word_of_int v :: u32) \<le> 4294967295 div unat n"
        using lim by (simp add: word_less_nat_alt unat_div)
      then have "unat n * unat (word_of_int v :: u32) \<le> 4294967295"
        using n by (metis less_eq_div_iff_mult_less_eq mult.commute not_gr_zero)
      then have "unat (n * word_of_int v) = unat n * unat (word_of_int v :: u32)"
        by (intro unat_mult_u32) simp
      then have eq: "int (unat (n * word_of_int v)) = int (unat n) * v"
        by (simp only: of_nat_mult w)
      have "int (unat n) \<noteq> 0"
        unfolding of_nat_eq_0_iff by (rule n)
      then have "int (unat n) * v \<noteq> 0"
        by (rule no_zero_divisors) (use pos in simp)
      then have "unat (n * word_of_int v) \<noteq> 0"
        unfolding eq [symmetric] of_nat_eq_0_iff .
      then show ?thesis
        using eq by (simp only: unat_eq_zero not_False_eq_True simp_thms)
    qed
    show ?thesis
      using v I step range by (auto simp: dim_step_def udiv32_def less_Suc_eq not_le)
  qed
  then show ?thesis
    unfolding tensor_elements_def extents_def
    by (intro wp_for_range [where I = ?I]) simp_all
qed

lemma dtype_size_values:
  "tensor_dtype_ok t \<Longrightarrow> unat (tigris_dtype_size (tn_dtype t)) \<in> {1, 2, 4}"
  by (auto simp: tensor_dtype_ok_def tigris_dtype_size_def)

lemma wp_tensor_links_ok:
  assumes "pools_in ls"
  shows "wp (tensor_links_ok ls t) (ok (\<lambda>_.
     unat (tn_shape_off t) + unat (tn_ndim t) \<le> unat (ls_shape_count ls) \<and>
     (tn_quant_param_idx t \<noteq> NONE_U16 \<longrightarrow> tn_quant_param_idx t < hd_num_quant_params (ls_hdr ls))))"
  using string_ok_defined [OF assms, of "tn_name_str t"]
  by (auto simp: tensor_links_ok_def elements_ok_iff not_le)

lemma wp_tensor_quant_ok:
  assumes ls: "ls_ok 8 ls"
    and "tn_quant_param_idx t \<noteq> NONE_U16 \<longrightarrow> tn_quant_param_idx t < hd_num_quant_params (ls_hdr ls)"
  shows "wp (tensor_quant_ok (ls_candidate ls) t) (ok (\<lambda>_. True))"
proof (cases "tn_dtype t = 3 \<and> tn_quant_param_idx t \<noteq> NONE_U16")
  case True
  then have i: "tn_quant_param_idx t < hd_num_quant_params (ls_hdr ls)" using assms(2) by simp
  then have "hd_num_quant_params (ls_hdr ls) \<noteq> 0" by auto
  then have q: "p_quant_params (ls_candidate ls) \<noteq> None"
    "p_num_quant_params (ls_candidate ls) = hd_num_quant_params (ls_hdr ls)"
    using ls_okD(2) [OF ls] by (simp_all add: tables_present_def)
  have "\<exists>qp. plan_quant_param (ls_candidate ls) (unat (tn_quant_param_idx t)) = Some qp"
    by (rule plan_quant_param_defined [where n = "unat (hd_num_quant_params (ls_hdr ls))"])
      (use q i ls_okD(1) [OF ls] in \<open>auto simp: tables_in_buffer_def Let_def word_less_nat_alt\<close>)
  then show ?thesis by (auto simp: tensor_quant_ok_def)
qed (auto simp: tensor_quant_ok_def)

lemma wp_tensor_size_ok:
  assumes ls: "ls_ok 8 ls"
    and links: "unat (tn_shape_off t) + unat (tn_ndim t) \<le> unat (ls_shape_count ls) \<and>
        (tn_quant_param_idx t \<noteq> NONE_U16 \<longrightarrow> tn_quant_param_idx t < hd_num_quant_params (ls_hdr ls))"
    and elems: "(\<forall>d < unat (tn_ndim t). \<exists>v > 0. tigris_tensor_shape (ls_candidate ls) t d = Some v) \<and>
        int (unat n) = prod_list (extents (ls_candidate ls) t) \<and> n \<noteq> 0"
  shows "wp (tensor_size_ok (ls_candidate ls) t n) (ok (\<lambda>_. tensor_exact ls t))"
proof (cases "tensor_dtype_ok t")
  case dt: True
  let ?size = "tigris_dtype_size (tn_dtype t)"
  have sz: "?size \<noteq> 0" "unat ?size \<noteq> 0"
    using dtype_size_values [OF dt] by auto
  have exact: "tensor_exact ls t" if lim: "\<not> n > U32_MAX div ?size" "tn_size_bytes t = n * ?size"
  proof -
    have "unat n \<le> 4294967295 div unat ?size"
      using lim(1) by (simp add: word_less_nat_alt unat_div)
    then have "unat n * unat ?size \<le> 4294967295"
      using sz(2) by (metis less_eq_div_iff_mult_less_eq not_gr_zero)
    then have "unat (n * ?size) = unat n * unat ?size"
      by (intro unat_mult_u32) simp
    then have "int (unat (tn_size_bytes t)) = int (unat n) * int (unat ?size)"
      using lim(2) by (simp del: of_nat_unat)
    then show ?thesis
      using links elems sz by (simp add: tensor_exact_def del: of_nat_unat)
  qed
  then show ?thesis
    using wp_tensor_quant_ok [OF ls, of t] links sz dt
    by (auto simp: tensor_size_ok_def udiv32_def elim!: wp_mono ok_mono)
qed (simp add: tensor_size_ok_def)

lemma wp_validate_tensor:
  assumes ls: "ls_ok 8 ls" and pools: "pools_in ls" and i: "i < unat (hd_num_tensors (ls_hdr ls))"
  shows "wp (validate_tensor ls i) (ok (\<lambda>_. \<exists>t. plan_tensor (ls_candidate ls) i = Some t \<and>
     tensor_exact ls t))"
proof -
  obtain t where t: "plan_tensor (ls_candidate ls) i = Some t"
    using plan_tensor_defined [of "ls_candidate ls" "unat (hd_num_tensors (ls_hdr ls))" i]
      ls_okD [OF ls] i by (auto simp: tables_in_buffer_def tables_present_def Let_def)
  let ?rest = "if \<not> tensor_flags_ok t then fail ERR_BAD_TENSOR
       else if \<not> tensor_interface_ok (hd_version (ls_hdr ls)) t then fail ERR_BAD_TENSOR
       else andthen (tensor_elements (ls_candidate ls) t) (tensor_size_ok (ls_candidate ls) t)"
  have "wp (andthen (tensor_links_ok ls t) (\<lambda>_. ?rest)) (ok (\<lambda>_. tensor_exact ls t))"
  proof (rule wp_andthen [OF wp_tensor_links_ok [OF pools, of t]])
    assume links: "unat (tn_shape_off t) + unat (tn_ndim t) \<le> unat (ls_shape_count ls) \<and>
        (tn_quant_param_idx t \<noteq> NONE_U16 \<longrightarrow> tn_quant_param_idx t < hd_num_quant_params (ls_hdr ls))"
    have "wp (andthen (tensor_elements (ls_candidate ls) t) (tensor_size_ok (ls_candidate ls) t))
        (ok (\<lambda>_. tensor_exact ls t))"
      by (rule wp_andthen [OF wp_tensor_elements [OF pools] wp_tensor_size_ok [OF ls links]])
        (simp add: links)
    then show "wp ?rest (ok (\<lambda>_. tensor_exact ls t))" by simp
  qed
  then show ?thesis
    by (auto simp: validate_tensor_def t elim!: wp_mono ok_mono)
qed

lemma wp_check_flags:
  assumes ls: "ls_ok 8 ls" and io: "io_in ls"
  shows "i < unat (hd_num_model_inputs (ls_hdr ls)) \<Longrightarrow>
      wp (check_input_flag (ls_candidate ls) i) (ok (\<lambda>_. True))"
    and "i < unat (hd_num_model_outputs (ls_hdr ls)) \<Longrightarrow>
      wp (check_output_flag (ls_candidate ls) i) (ok (\<lambda>_. True))"
proof -
  have t: "\<exists>t. plan_tensor (ls_candidate ls) (unat x) = Some t" if "x < hd_num_tensors (ls_hdr ls)" for x
    using plan_tensor_defined [of "ls_candidate ls" "unat (hd_num_tensors (ls_hdr ls))" "unat x"]
      ls_okD [OF ls] that by (auto simp: tables_in_buffer_def tables_present_def Let_def word_less_nat_alt)
  show "wp (check_input_flag (ls_candidate ls) i) (ok (\<lambda>_. True))"
    if "i < unat (hd_num_model_inputs (ls_hdr ls))"
    using io that t by (force simp: check_input_flag_def io_in_def)
  show "wp (check_output_flag (ls_candidate ls) i) (ok (\<lambda>_. True))"
    if "i < unat (hd_num_model_outputs (ls_hdr ls))"
    using io that t by (force simp: check_output_flag_def io_in_def)
qed

lemma any_index_defined:
  "(\<And>i. i < n \<Longrightarrow> \<exists>x. get i = Some x) \<Longrightarrow>
     any_index get n idx = Some (\<exists>i < n. unat (the (get i)) = idx)"
  by (induction n) (force simp: less_Suc_eq)+

definition boundary_exact :: "load_state \<Rightarrow> nat \<Rightarrow> bool" where
  "boundary_exact ls idx = (\<exists>t. plan_tensor (ls_candidate ls) idx = Some t \<and>
     (has_flag t 2 \<longleftrightarrow> (\<exists>i < unat (hd_num_model_inputs (ls_hdr ls)).
        unat (the (plan_model_input (ls_candidate ls) i)) = idx)) \<and>
     (has_flag t 4 \<longleftrightarrow> (\<exists>i < unat (hd_num_model_outputs (ls_hdr ls)).
        unat (the (plan_model_output (ls_candidate ls) i)) = idx)))"

lemma wp_check_boundary_flags:
  assumes ls: "ls_ok 8 ls" and io: "io_in ls" and idx: "idx < unat (hd_num_tensors (ls_hdr ls))"
  shows "wp (check_boundary_flags ls idx) (ok (\<lambda>_. boundary_exact ls idx))"
proof -
  obtain t where t: "plan_tensor (ls_candidate ls) idx = Some t"
    using plan_tensor_defined [of "ls_candidate ls" "unat (hd_num_tensors (ls_hdr ls))" idx]
      ls_okD [OF ls] idx by (auto simp: tables_in_buffer_def tables_present_def Let_def)
  have i: "\<And>i. i < unat (hd_num_model_inputs (ls_hdr ls)) \<Longrightarrow> \<exists>x. plan_model_input (ls_candidate ls) i = Some x"
    "\<And>i. i < unat (hd_num_model_outputs (ls_hdr ls)) \<Longrightarrow> \<exists>x. plan_model_output (ls_candidate ls) i = Some x"
    using io by (auto simp: io_in_def)
  show ?thesis
    by (simp add: check_boundary_flags_def Let_def t any_index_defined [OF i(1)] any_index_defined [OF i(2)])
      (simp add: boundary_exact_def t)
qed

text \<open>The last step sets only the subgraph table, which nothing before it reads.\<close>

definition tensors_ok :: "load_state \<Rightarrow> bool" where
  "tensors_ok ls = (\<forall>i < unat (hd_num_tensors (ls_hdr ls)).
     (\<exists>t. plan_tensor (ls_candidate ls) i = Some t \<and> tensor_exact ls t) \<and> boundary_exact ls i)"

lemma subgraphs_frame [simp]:
  fixes pl a c
  defines "g \<equiv> pl\<lparr> p_subgraphs := a, p_num_subgraphs := c \<rparr>"
  shows "plan_tensor g = plan_tensor pl" "plan_model_input g = plan_model_input pl"
    "plan_model_output g = plan_model_output pl" "tigris_tensor_shape g = tigris_tensor_shape pl"
    "extents g = extents pl"
  by (simp_all add: g_def plan_tensor_def plan_model_input_def plan_model_output_def
      tigris_tensor_shape_def plan_shape_def extents_def fun_eq_iff)

lemma wp_locate_subgraphs:
  assumes ok: "phase_ok ls0 ls" and io: "io_in ls" and ts: "tensors_ok ls"
  shows "wp (locate_subgraphs ls) (ok (\<lambda>ls'. phase_ok ls0 ls' \<and> io_in ls' \<and> tensors_ok ls'))"
proof (cases "ls_section_offsets ls ! SEC_SUBGRAPHS = 0")
  case True
  with assms show ?thesis by (simp add: locate_subgraphs_def)
next
  case False
  let ?off = "ls_section_offsets ls ! SEC_SUBGRAPHS" and ?e = "ls_section_ends ls ! SEC_SUBGRAPHS"
  have ls: "ls_ok 8 ls" and same: "same_file ls0 ls" and pools: "pools_in ls"
    using ok by (simp_all add: phase_ok_def)
  let ?f = "\<lambda>c pl. pl\<lparr> p_subgraphs := Some (unat ?off + 4), p_num_subgraphs := c \<rparr>"
  show ?thesis
  proof (cases "bounds_ok ?off 4 ?e")
    case b4: True
    have hdr: "unat ?off + 4 \<le> length (p_buf (ls_candidate ls))"
      using ls_ok_bounds [OF ls b4] by simp
    have upd: "phase_ok ls0 (upd_candidate (?f c) ls) \<and> io_in (upd_candidate (?f c) ls) \<and>
        tensors_ok (upd_candidate (?f c) ls)"
      if "bounds_ok (?off + 4) (ucast c * 12) ?e" for c
    proof -
      have "ls_ok 8 (upd_candidate (?f c) ls) \<and> same_file ls (upd_candidate (?f c) ls)"
        using ls_okD [OF ls] ls_ok_bounds [OF ls that] bounds_ok_add [OF b4]
        by (intro ls_ok_upd [OF ls])
          (simp_all add: tables_in_buffer_def tables_present_def unat_u16_scaled Let_def)
      then show ?thesis
        using same pools io ts
        by (auto simp: phase_ok_def pools_in_def io_in_def tensors_ok_def tensor_exact_def
            boundary_exact_def Let_def intro: same_file_trans)
    qed
    show ?thesis
      using False b4 hdr upd by (auto simp: locate_subgraphs_def Let_def wp_rules)
  qed (use False in \<open>simp add: locate_subgraphs_def Let_def\<close>)
qed

lemma wp_validate_tables_and_ops:
  assumes ls: "ls_ok 8 ls"
  shows "wp (validate_tables_and_ops ls) (ok (\<lambda>ls'. phase_ok ls ls' \<and> io_in ls' \<and> tensors_ok ls'))"
proof -
  let ?ls = "set_pools ls"
  have start: "phase_ok ls ?ls"
    using set_pools_ok [OF ls] by (simp add: phase_ok_def)
  have name: "wp (check_model_name ?ls) (ok (\<lambda>_. True))"
    using string_ok_defined [of ?ls "hd_model_name_str (ls_hdr ?ls)"] start
    by (auto simp: check_model_name_def phase_ok_def)
  have rest: "wp (andthen (for_check (unat (hd_num_tensors (ls_hdr ls'))) (validate_tensor ls')) (\<lambda>_.
        andthen (for_check (unat (hd_num_model_inputs (ls_hdr ls')))
                   (check_input_flag (ls_candidate ls'))) (\<lambda>_.
        andthen (for_check (unat (hd_num_model_outputs (ls_hdr ls')))
                   (check_output_flag (ls_candidate ls'))) (\<lambda>_.
        andthen (for_check (unat (hd_num_tensors (ls_hdr ls'))) (check_boundary_flags ls')) (\<lambda>_.
        locate_subgraphs ls'))))) (ok (\<lambda>ls'. phase_ok ls ls' \<and> io_in ls' \<and> tensors_ok ls'))"
    if ok: "phase_ok ls ls' \<and> io_in ls' \<and> hd_num_tensors (ls_hdr ls') \<le> 512" for ls'
  proof -
    have l: "ls_ok 8 ls'" "pools_in ls'" "io_in ls'" using ok by (simp_all add: phase_ok_def)
    show ?thesis
      by (rule wp_andthen [OF wp_for_check [OF wp_validate_tensor [OF l(1,2)]]], assumption,
          rule wp_andthen [OF wp_for_check_True [OF wp_check_flags(1) [OF l(1,3)]]], assumption,
          rule wp_andthen [OF wp_for_check_True [OF wp_check_flags(2) [OF l(1,3)]]], assumption,
          rule wp_andthen [OF wp_for_check [OF wp_check_boundary_flags [OF l(1,3)]]], assumption,
          rule wp_locate_subgraphs)
        (use ok in \<open>auto simp: tensors_ok_def\<close>)
  qed
  show ?thesis
    unfolding validate_tables_and_ops_def Let_def
    using start name rest
    by (auto intro!: wp_andthen [OF name] wp_andthen [OF wp_set_model_io]
        wp_andthen [OF wp_require_tensors])
qed

section \<open>The three phases together\<close>

text \<open>The first half of \<open>tigris_plan_load_ex\<close>: everything up to the operator table.\<close>

definition load_tables :: "bytes option \<Rightarrow> u32 \<Rightarrow> bool \<Rightarrow> (tigris_error + load_state) option" where
  "load_tables buf n out_plan_null =
     andthen (load_header_and_directory buf n out_plan_null) (\<lambda>ls.
     andthen (locate_optional_sections ls) (\<lambda>ls.
     validate_tables_and_ops ls))"

lemma wp_load_tables:
  assumes "\<And>b. buf = Some b \<Longrightarrow> unat n = length b" and "file_size_ok n"
  shows "wp (load_tables buf n z) (ok (\<lambda>ls. ls_ok 8 ls \<and> pools_in ls \<and> io_in ls \<and> tensors_ok ls \<and>
     ls_buf_len ls = n \<and> buf = Some (p_buf (ls_candidate ls)) \<and> hd_file_size (ls_hdr ls) = n))"
proof -
  have opt: "wp (locate_optional_sections ls) (ok (\<lambda>ls'. ls_ok 8 ls' \<and> ls_buf_len ls' = n \<and>
      buf = Some (p_buf (ls_candidate ls')) \<and> hd_file_size (ls_hdr ls') = n))"
    if "ls_ok 0 ls \<and> ls_buf_len ls = n \<and> buf = Some (p_buf (ls_candidate ls)) \<and>
      hd_file_size (ls_hdr ls) = n" for ls
    using wp_locate_optional_sections [of ls] that assms(2)
    by (auto elim!: wp_mono ok_mono simp: same_file_def)
  have tab: "wp (validate_tables_and_ops ls) (ok (\<lambda>ls. ls_ok 8 ls \<and> pools_in ls \<and> io_in ls \<and>
      tensors_ok ls \<and> ls_buf_len ls = n \<and> buf = Some (p_buf (ls_candidate ls)) \<and>
      hd_file_size (ls_hdr ls) = n))"
    if "ls_ok 8 ls \<and> ls_buf_len ls = n \<and> buf = Some (p_buf (ls_candidate ls)) \<and>
      hd_file_size (ls_hdr ls) = n" for ls
    using wp_validate_tables_and_ops [of ls] that
    by (auto elim!: wp_mono ok_mono simp: same_file_def phase_ok_def)
  show ?thesis
    unfolding load_tables_def
    by (rule wp_andthen [OF wp_load_header_and_directory [OF assms(1)]], assumption,
        rule wp_andthen [OF opt], assumption, rule tab)
qed

end
