(* ===== verification/Loader_Properties.thy ===== *)
theory Loader_Properties
  imports Loader_Tables
begin

text \<open>
  The loader run on a plan file of the repository's own test data, and the loader's properties.
\<close>

section \<open>A plan file of the test suite\<close>

text \<open>A plan file: \<open>test/schema_compat/schema-v12-quantize-ties-even.tgrs\<close>.\<close>

definition demo_file :: bytes where
  "demo_file = [
     84, 71, 82, 83, 12, 0, 0, 0, 116, 1, 0, 0, 48, 0, 0, 0, 2, 0, 1, 0, 1, 0, 0, 0, 0, 0, 1, 0,
     64, 0, 0, 0, 0, 0, 0, 0, 0, 0, 1, 1, 0, 0, 2, 0, 2, 0, 0, 0, 1, 0, 0, 0, 128, 0, 0, 0, 2, 0,
     0, 0, 160, 0, 0, 0, 3, 0, 0, 0, 208, 0, 0, 0, 4, 0, 0, 0, 240, 0, 0, 0, 5, 0, 0, 0, 240, 0,
     0, 0, 6, 0, 0, 0, 0, 1, 0, 0, 7, 0, 0, 0, 16, 1, 0, 0, 9, 0, 0, 0, 48, 1, 0, 0, 14, 0, 0, 0,
     112, 1, 0, 0, 0, 0, 0, 0, 0, 0, 0, 0, 7, 0, 0, 0, 16, 0, 0, 0, 0, 0, 2, 3, 2, 0, 0, 1, 9, 0,
     0, 0, 16, 0, 0, 0, 2, 0, 2, 3, 4, 1, 0, 1, 11, 0, 0, 0, 3, 1, 1, 0, 2, 0, 3, 0, 0, 0, 0, 0,
     0, 0, 0, 0, 0, 0, 0, 0, 0, 0, 0, 0, 1, 0, 255, 255, 255, 255, 0, 128, 127, 0, 0, 0, 0, 0, 0,
     0, 0, 0, 0, 0, 64, 0, 0, 0, 4, 0, 1, 0, 5, 0, 1, 0, 6, 0, 1, 0, 255, 255, 0, 0, 255, 255, 0,
     0, 0, 0, 0, 0, 0, 0, 0, 0, 0, 0, 1, 0, 0, 0, 1, 0, 0, 0, 0, 0, 1, 0, 0, 0, 1, 0, 0, 0, 16,
     0, 0, 0, 1, 0, 0, 0, 16, 0, 0, 0, 113, 95, 116, 105, 101, 115, 0, 120, 0, 121, 0, 82, 101,
     108, 117, 95, 50, 0, 0, 0, 0, 0, 0, 0, 0, 0, 0, 0, 0, 0, 0, 0, 2, 0, 1, 0, 0, 0, 128, 61, 0,
     0, 0, 0, 1, 0, 0, 0, 1, 0, 0, 0, 0, 0, 128, 61, 0, 0, 0, 0, 1, 0, 2, 0, 3, 0, 0, 0, 0, 0, 0,
     64, 253, 255, 255, 255, 0, 0, 0, 64, 253, 255, 255, 255, 0, 0, 0, 0, 0, 0, 0, 0, 0, 0, 0, 0,
     64, 0, 0, 0]"

lemmas read_defs = rd32_def rd16_def rd8_def rdi32_def arr_get_def rd_bytes4_def
lemmas word_cmp = word_less_nat_alt word_le_nat_alt

lemma has_nul_rec:
  "has_nul b i n = (if n = 0 then Some False
     else do { c \<leftarrow> rd8 b i; if c = 0 then Some True else has_nul b (Suc i) (n - 1) })"
  by (cases n) (simp_all cong: if_cong)

lemma any_index_rec:
  "any_index get n idx = (if n = 0 then Some False else do {
     x \<leftarrow> get (n - 1); rest \<leftarrow> any_index get (n - 1) idx; Some (unat x = idx \<or> rest) })"
  by (cases n) (simp_all cong: if_cong)

definition demo_header :: file_header where
  "demo_header = \<lparr> hd_magic = [0x54, 0x47, 0x52, 0x53], hd_version = 12, hd_file_size = 372,
     hd_section_dir_off = 48, hd_num_tensors = 2, hd_num_ops = 1, hd_num_stages = 1,
     hd_num_tile_plans = 0, hd_budget = 65536, hd_peak = 64, hd_model_name_str = 0,
     hd_model_io_off = 0, hd_num_model_inputs = 1, hd_num_model_outputs = 1, hd_num_weights = 0,
     hd_num_quant_params = 2, hd_flags = 2 \<rparr>"

definition demo_offsets :: "u32 list" where
  "demo_offsets = [0, 128, 160, 208, 240, 240, 256, 272, 0, 304, 0, 0, 0, 0, 368]"

definition demo_ends :: "u32 list" where
  "demo_ends = [0, 160, 208, 240, 240, 256, 272, 304, 0, 368, 0, 0, 0, 0, 372]"

definition demo_seen :: "bool list" where
  "demo_seen = [False, True, True, True, True, True, True, True, False, True, False, False, False,
     False, True]"

definition demo_state :: "tigris_plan \<Rightarrow> load_state" where
  "demo_state c = \<lparr> ls_buf_len = 372, ls_hdr = demo_header, ls_candidate = c,
     ls_required = no_limits, ls_section_offsets = demo_offsets, ls_section_ends = demo_ends,
     ls_section_seen = demo_seen, ls_dir_end = 128, ls_index_bytes = 0, ls_shape_bytes = 0,
     ls_strings_len = 0, ls_index_count = 0, ls_shape_count = 0, ls_model_io_count = 0,
     ls_next_scheduled_op = 0 \<rparr>"

lemma length_demo_file: "length demo_file = 372"
  by (simp add: demo_file_def)

lemma demo_rd_header: "rd_file_header demo_file 0 = Some demo_header"
  by (simp add: rd_file_header_def read_defs demo_file_def demo_header_def)

lemma demo_walk: "walk_directory demo_file 372 48 initial_dir =
    Some (Inr (True, 120, \<lparr> ds_seen = demo_seen, ds_offsets = demo_offsets, ds_previous_type = 14,
       ds_previous_offset = 368 \<rparr>))"
  by (simp add: walk_directory.simps rd_section_entry_def read_defs demo_file_def initial_dir_def
      bounds_ok_def arr_set_def word_cmp)
    (simp add: demo_seen_def demo_offsets_def numeral_eq_Suc)

lemma demo_section_ends: "section_ends demo_seen demo_offsets 128 372 = Some (Inr demo_ends)"
  by (simp add: section_ends_def section_end_def for_range.simps word_cmp upt_conv_Cons
      demo_seen_def demo_offsets_def)
    (simp add: numeral_eq_Suc demo_ends_def)

definition demo_plan1 :: tigris_plan where
  "demo_plan1 = (empty_plan demo_file)\<lparr> p_header := Some demo_header, p_tensors := Some 128,
     p_ops := Some 160 \<rparr>"

lemma demo_check_header: "check_header demo_file 372 = Some (Inr demo_header)"
  by (simp add: check_header_def demo_rd_header)
    (simp add: demo_header_def schema_versions TIGRIS_MAGIC_BYTES_def word_cmp)

lemma demo_directory: "read_directory demo_file 372 demo_header =
    Some (Inr (demo_state ((empty_plan demo_file)\<lparr> p_header := Some demo_header \<rparr>)))"
proof -
  have "hd_section_dir_off demo_header = 48" by (simp add: demo_header_def)
  then show ?thesis
    by (simp add: read_directory_def bounds_ok_def word_cmp demo_walk demo_section_ends demo_state_def)
qed

lemma demo_phase1:
  "load_header_and_directory (Some demo_file) 372 False = Some (Inr (demo_state demo_plan1))"
  by (simp add: load_header_and_directory_def demo_check_header demo_directory)
    (simp add: demo_header_def schema_versions word_cmp bounds_ok_def required_present_def
      pools_aligned_def set_tensors_and_ops_def section_holds_def section_ptr_def demo_state_def
      demo_offsets_def demo_ends_def demo_plan1_def)

definition demo_plan2 :: tigris_plan where
  "demo_plan2 = demo_plan1\<lparr> p_stages := Some 208, p_quant_params := Some 308,
     p_quant_data := Some 340, p_num_quant_params := 2, p_scheduled_peak := 64 \<rparr>"

lemma demo_reads:
  "rd_memory_record demo_file 368 = Some \<lparr> mr_scheduled_peak = 64 \<rparr>"
  "rd16 demo_file 304 = Some 2" "rd16 demo_file 306 = Some 1"
  by (simp_all add: rd_memory_record_def read_defs demo_file_def)

lemma demo_phase2:
  "locate_optional_sections (demo_state demo_plan1) = Some (Inr (demo_state demo_plan2))"
  by (simp add: locate_optional_sections_def demo_state_def demo_header_def demo_offsets_def
      demo_ends_def locate_stages_def locate_tile_plans_def locate_weights_def
      locate_weight_blocks_def locate_attributes_def locate_state_def locate_memory_def
      set_weight_blob_def locate_quant_params_def demo_plan1_def empty_plan_def section_holds_def
      bounds_ok_def section_ptr_def word_cmp schema_versions demo_reads Let_def demo_plan2_def)

definition demo_loaded :: load_state where
  "demo_loaded = (demo_state (demo_plan2\<lparr> p_index_pool := Some 240, p_shape_pool := Some 256,
       p_strings := Some 272, p_model_inputs := Some 240, p_model_outputs := Some 242 \<rparr>))
     \<lparr> ls_index_bytes := 16, ls_shape_bytes := 16, ls_strings_len := 32, ls_index_count := 8,
       ls_shape_count := 4, ls_model_io_count := 2,
       ls_required := no_limits\<lparr> pl_tensors := 2 \<rparr> \<rparr>"

definition demo_tensors :: "tigris_tensor list" where
  "demo_tensors =
     [\<lparr> tn_name_str = 7, tn_size_bytes = 16, tn_shape_off = 0, tn_ndim = 2, tn_dtype = 3,
        tn_flags = 2, tn_quant_param_idx = 0, tn_iface_dtype = 1 \<rparr>,
      \<lparr> tn_name_str = 9, tn_size_bytes = 16, tn_shape_off = 2, tn_ndim = 2, tn_dtype = 3,
        tn_flags = 4, tn_quant_param_idx = 1, tn_iface_dtype = 1 \<rparr>]"

lemma demo_rd_tensors:
  "rd_tigris_tensor demo_file 128 = Some (demo_tensors ! 0)"
  "rd_tigris_tensor demo_file 144 = Some (demo_tensors ! 1)"
  by (simp_all add: rd_tigris_tensor_def read_defs demo_file_def demo_tensors_def)

lemma demo_rd_pools:
  "rd16 demo_file 240 = Some 0" "rd16 demo_file 242 = Some 1"
  "rdi32 demo_file 256 = Some 1" "rdi32 demo_file 260 = Some 16"
  "rdi32 demo_file 264 = Some 1" "rdi32 demo_file 268 = Some 16"
  by (simp_all add: read_defs demo_file_def)

lemma demo_names:
  "has_nul demo_file 272 32 = Some True" "has_nul demo_file 279 25 = Some True"
  "has_nul demo_file 281 23 = Some True"
  by (simp_all add: has_nul_rec read_defs demo_file_def)

lemma demo_rd_quant:
  "rd_quant_param demo_file 308 = Some \<lparr> qp_scale = 0x3D800000, qp_zero_point = 0,
     qp_num_channels = 1, qp_multiplier_off = 0, qp_shift_off = 1, qp_page = 0 \<rparr>"
  "rd_quant_param demo_file 324 = Some \<lparr> qp_scale = 0x3D800000, qp_zero_point = 0,
     qp_num_channels = 1, qp_multiplier_off = 2, qp_shift_off = 3, qp_page = 0 \<rparr>"
  by (simp_all add: rd_quant_param_def read_defs demo_file_def)

lemma demo_phase3: "validate_tables_and_ops (demo_state demo_plan2) = Some (Inr demo_loaded)"
  by (simp add: validate_tables_and_ops_def set_pools_def demo_state_def demo_plan2_def
      demo_plan1_def demo_header_def demo_offsets_def demo_ends_def Let_def section_ptr_def
      pool_spans_ok_def empty_plan_def check_model_name_def string_ok_def demo_names
      set_model_io_def elements_ok_def word_cmp for_range.simps check_io_index_def
      plan_model_input_def plan_model_output_def demo_rd_pools require_tensors_def
      note_requirement_def tigris_build_limits_def no_limits_def validate_tensor_def plan_tensor_def
      demo_rd_tensors demo_tensors_def tensor_links_ok_def tensor_flags_ok_def has_flag_def
      tensor_interface_ok_def schema_versions tensor_elements_def dim_step_def
      tigris_tensor_shape_def plan_shape_def udiv32_def tensor_size_ok_def tensor_dtype_ok_def
      tigris_dtype_size_def tensor_quant_ok_def plan_quant_param_def demo_rd_quant f32_isfinite_def
      f32_nonpositive_def check_input_flag_def check_output_flag_def check_boundary_flags_def
      any_index_rec locate_subgraphs_def demo_loaded_def)

lemma demo_load: "load_tables (Some demo_file) 372 False = Some (Inr demo_loaded)"
  by (simp add: load_tables_def demo_phase1 demo_phase2 demo_phase3)

section \<open>Properties\<close>

text \<open>C1. Memory safety of loading: whatever a buffer holds, the loader's first three phases
  read only inside it (no undefined behaviour), and when they accept it every table pointer of the
  plan has its whole table inside the buffer, every table the header announces is present and the
  index, shape and string pools lie inside the buffer. The buffer is shorter than 4 GiB less
  1 MiB, so that the 32-bit span arithmetic of the quantization section cannot wrap.\<close>

theorem loader_memory_safe:
  assumes "unat n = length b" and "file_size_ok n"
  shows "wp (load_tables (Some b) n z) (ok (\<lambda>ls. p_buf (ls_candidate ls) = b \<and>
     tables_in_buffer (ls_hdr ls) (ls_candidate ls) \<and>
     tables_present 8 (ls_hdr ls) (ls_candidate ls) \<and> pools_in ls \<and> io_in ls))"
  by (rule wp_mono [OF wp_load_tables [of "Some b"]])
    (use assms in \<open>auto elim!: ok_mono dest: ls_okD\<close>)

lemma loader_memory_safe_witness:
  "\<exists>ls. load_tables (Some demo_file) 372 False = Some (Inr ls) \<and>
     tables_in_buffer (ls_hdr ls) (ls_candidate ls) \<and> pools_in ls \<and> hd_num_tensors (ls_hdr ls) = 2"
proof -
  have "wp (load_tables (Some demo_file) 372 False) (ok (\<lambda>ls. p_buf (ls_candidate ls) = demo_file \<and>
     tables_in_buffer (ls_hdr ls) (ls_candidate ls) \<and>
     tables_present 8 (ls_hdr ls) (ls_candidate ls) \<and> pools_in ls \<and> io_in ls))"
    by (rule loader_memory_safe) (simp_all add: length_demo_file file_size_ok_def)
  then show ?thesis
    by (simp add: demo_load) (simp add: demo_loaded_def demo_state_def demo_header_def)
qed

text \<open>C19. The section directory. When the header phase accepts a file, the sections it found
  start after the directory, end inside the file and follow one another in the order of their
  types without overlap, so a table checked against its own section cannot borrow bytes from the
  directory or from another section; the file size the header states is the buffer's.\<close>

theorem sections_disjoint:
  assumes "unat n = length b" and "load_header_and_directory (Some b) n z = Some (Inr ls)"
    and "i < j" and "j < SEC_MAX"
    and "ls_section_offsets ls ! i \<noteq> 0" and "ls_section_offsets ls ! j \<noteq> 0"
  shows "ls_dir_end ls \<le> ls_section_offsets ls ! i \<and>
     ls_section_offsets ls ! i \<le> ls_section_ends ls ! i \<and>
     ls_section_ends ls ! i \<le> ls_section_offsets ls ! j \<and>
     unat (ls_section_ends ls ! j) \<le> length b \<and> hd_file_size (ls_hdr ls) = n"
proof -
  have "wp (load_header_and_directory (Some b) n z) (ok (\<lambda>ls. ls_ok 0 ls \<and> ls_buf_len ls = n \<and>
     Some b = Some (p_buf (ls_candidate ls)) \<and> hd_file_size (ls_hdr ls) = n))"
    by (rule wp_load_header_and_directory) (use assms(1) in simp)
  then have ok: "ls_ok 0 ls" "p_buf (ls_candidate ls) = b" "hd_file_size (ls_hdr ls) = n"
    using assms(2) by simp_all
  then show ?thesis
    using assms(3-6) ls_ok_end_in_buffer [OF ok(1) assms(4)]
    by (auto simp: ls_ok_def layout_ok_def)
qed

lemma sections_disjoint_witness:
  "ls_section_ends (demo_state demo_plan1) ! 6 \<le> ls_section_offsets (demo_state demo_plan1) ! 7"
  using sections_disjoint [OF _ demo_phase1, of 6 7]
  by (simp add: length_demo_file) (simp add: demo_state_def demo_offsets_def)

text \<open>C20. What an accepted tensor satisfies: its extents lie inside the shape pool, are all
  positive, and their product times the element size of its dtype is exactly the byte size it
  states, computed without any 32-bit wrap; its quantization record is in range; and it is flagged
  as a model input or output exactly when the model's input or output list names it.\<close>

theorem accepted_tensor_exact:
  assumes "unat n = length b" and "file_size_ok n"
    and "load_tables (Some b) n z = Some (Inr ls)" and "i < unat (hd_num_tensors (ls_hdr ls))"
  shows "\<exists>t. plan_tensor (ls_candidate ls) i = Some t \<and> tensor_exact ls t \<and> boundary_exact ls i"
proof -
  have "tensors_ok ls"
    using wp_load_tables [of "Some b" n z] assms(1-3) by simp
  then show ?thesis
    using assms(4) by (auto simp: tensors_ok_def)
qed

lemma accepted_tensor_exact_witness:
  "tensor_exact demo_loaded (demo_tensors ! 1)"
proof -
  have "plan_tensor (ls_candidate demo_loaded) 1 = Some (demo_tensors ! 1)"
    by (simp add: demo_loaded_def demo_state_def plan_tensor_def demo_plan2_def demo_plan1_def
        empty_plan_def demo_rd_tensors)
  moreover have "hd_num_tensors (ls_hdr demo_loaded) = 2"
    by (simp add: demo_loaded_def demo_state_def demo_header_def)
  ultimately show ?thesis
    using accepted_tensor_exact [OF _ _ demo_load, of 1]
    by (simp add: length_demo_file file_size_ok_def)
qed

text \<open>C21. The header gate: a NULL output or buffer is refused with \<open>ERR_NULL\<close>, a buffer shorter
  than the header with \<open>ERR_TOO_SMALL\<close>, and an accepted file starts with the magic bytes, has a
  schema version from 4 to 12, states its exact size and, from version 12 on, sets no header flag
  the runtime does not know.\<close>

theorem header_gate:
  "load_tables buf n True = Some (Inl ERR_NULL) \<and>
   load_tables None n z = Some (Inl ERR_NULL) \<and>
   (n < 48 \<longrightarrow> load_tables (Some b) n False = Some (Inl ERR_TOO_SMALL)) \<and>
   (\<forall>ls. load_tables (Some b) n z = Some (Inr ls) \<longrightarrow> (\<exists>hdr. rd_file_header b 0 = Some hdr \<and>
      take 4 b = TIGRIS_MAGIC_BYTES \<and> 4 \<le> hd_version hdr \<and> hd_version hdr \<le> 12 \<and>
      hd_file_size hdr = n \<and> (hd_version hdr = 12 \<longrightarrow> unat (hd_flags hdr) < 4)))"
proof (intro conjI allI impI)
  show "load_tables buf n True = Some (Inl ERR_NULL)"
    by (simp add: load_tables_def load_header_and_directory_def)
  show "load_tables None n z = Some (Inl ERR_NULL)"
    by (simp add: load_tables_def load_header_and_directory_def)
  show "load_tables (Some b) n False = Some (Inl ERR_TOO_SMALL)" if "n < 48"
    using that by (simp add: load_tables_def load_header_and_directory_def check_header_def)
  show "\<exists>hdr. rd_file_header b 0 = Some hdr \<and> take 4 b = TIGRIS_MAGIC_BYTES \<and>
      4 \<le> hd_version hdr \<and> hd_version hdr \<le> 12 \<and> hd_file_size hdr = n \<and>
      (hd_version hdr = 12 \<longrightarrow> unat (hd_flags hdr) < 4)"
    if loaded: "load_tables (Some b) n z = Some (Inr ls)" for ls
  proof -
    obtain l where "load_header_and_directory (Some b) n z = Some (Inr l)"
      using loaded unfolding load_tables_def andthen_Inr by blast
    then have "\<exists>hdr. check_header b n = Some (Inr hdr)"
      by (simp add: load_header_and_directory_def andthen_Inr split: if_splits)
    then obtain hdr where h: "check_header b n = Some (Inr hdr)" by blast
    then have r: "rd_file_header b 0 = Some hdr"
      by (auto simp: check_header_def bind_eq_Some_conv split: if_splits)
    have "hd_magic hdr = take 4 b"
      using r by (auto simp: rd_file_header_def rd_bytes4_def bind_eq_Some_conv split: if_splits)
    then show ?thesis
      using h r by (auto simp: check_header_def schema_versions split: if_splits)
  qed
qed

lemma header_gate_witness:
  "\<exists>hdr. rd_file_header demo_file 0 = Some hdr \<and> hd_file_size hdr = 372"
  using header_gate [of "Some demo_file" 372 False demo_file] demo_load by auto

end
