(* ===== verification/Tiles.thy ===== *)
theory Tiles
  imports Arena Plan_Format
begin

text \<open>
  The tile transfers of \<open>src/tigris_mem.c\<close>: a band of rows or a rectangle of a tensor is packed
  into the fast arena, and written back to its place in the slow copy.

  \<^item> The geometry is computed as in the code, in \<open>int32_t\<close> (an overflow of the element count is
    undefined) and \<open>uint32_t\<close> (which wraps), and each row is a \<open>memcpy\<close>.
  \<^item> The specification is by position: \<open>gathered\<close> and \<open>scattered\<close> say, for every batch, row and
    byte of the rectangle, which tensor byte a tile byte corresponds to, and that nothing else
    changes. Both kinds of transfer refine it.
\<close>

section \<open>Copying a set of regions\<close>

text \<open>\<open>copied R len h h'\<close>: for every pair \<open>(d, s)\<close> of \<open>R\<close> the \<open>len\<close> bytes at \<open>s\<close> were copied to
  \<open>d\<close>, and nothing else changed.\<close>

definition copied :: "(nat \<times> nat) set \<Rightarrow> nat \<Rightarrow> ram \<Rightarrow> ram \<Rightarrow> bool" where
  "copied R len h h' = ((\<forall>(d, s) \<in> R. \<forall>i < len. h' (d + i) = h (s + i)) \<and>
     (\<forall>a. (\<forall>(d, s) \<in> R. a < d \<or> d + len \<le> a) \<longrightarrow> h' a = h a))"

definition separated :: "(nat \<times> nat) set \<Rightarrow> nat \<Rightarrow> bool" where
  "separated R len = (\<forall>(d, s) \<in> R. \<forall>(d', s') \<in> R.
     apart d s' len \<and> (d = d' \<longrightarrow> s = s') \<and> (d \<noteq> d' \<longrightarrow> apart d d' len))"

lemma copied_empty [simp]: "copied {} len h h' = (h' = h)"
  by (simp add: copied_def fun_eq_iff)

lemma separatedD:
  assumes "separated R len" "(d, s) \<in> R" "(d', s') \<in> R"
  shows "apart d s' len" and "d = d' \<Longrightarrow> s = s'" and "d \<noteq> d' \<Longrightarrow> apart d d' len"
  using bspec [OF bspec [OF assms(1) [unfolded separated_def] assms(2), simplified] assms(3)]
  by simp_all

lemma separatedI:
  assumes "\<And>d s d' s'. (d, s) \<in> R \<Longrightarrow> (d', s') \<in> R \<Longrightarrow>
     apart d s' len \<and> (d = d' \<longrightarrow> s = s') \<and> (d \<noteq> d' \<longrightarrow> apart d d' len)"
  shows "separated R len"
  unfolding separated_def by (intro ballI) (auto split: prod.splits dest: assms)

lemma separated_mono: "separated R len \<Longrightarrow> S \<subseteq> R \<Longrightarrow> separated S len"
  by (intro separatedI) (blast dest: separatedD)

lemma copied_src: "copied R len h h' \<Longrightarrow> (d, s) \<in> R \<Longrightarrow> i < len \<Longrightarrow> h' (d + i) = h (s + i)"
  unfolding copied_def by blast

lemma copied_frame:
  "copied R len h h' \<Longrightarrow> (\<And>d s. (d, s) \<in> R \<Longrightarrow> a < d \<or> d + len \<le> a) \<Longrightarrow> h' a = h a"
  unfolding copied_def by blast

lemma copiedI:
  assumes "\<And>d s i. (d, s) \<in> R \<Longrightarrow> i < len \<Longrightarrow> h' (d + i) = h (s + i)"
    and "\<And>a. (\<And>d s. (d, s) \<in> R \<Longrightarrow> a < d \<or> d + len \<le> a) \<Longrightarrow> h' a = h a"
  shows "copied R len h h'"
  using assms unfolding copied_def by blast

lemma apart_at: "apart a b n \<Longrightarrow> i < n \<Longrightarrow> b + i < a \<or> a + n \<le> b + i"
  by (auto simp: apart_def)

lemma apart_sym: "apart a b n \<Longrightarrow> apart b a n"
  by (auto simp: apart_def)

lemma copied_Un:
  assumes sep: "separated (R \<union> S) len" and h1: "copied R len h h1" and h2: "copied S len h1 h2"
  shows "copied (R \<union> S) len h h2"
proof (rule copiedI)
  have src: "h1 (s + i) = h (s + i)" if "(d, s) \<in> S" "i < len" for d s i
  proof (rule copied_frame [OF h1])
    fix d' s' assume "(d', s') \<in> R"
    then have "apart d' s len" using separatedD(1) [OF sep, of d' s' d s] that(1) by blast
    then show "s + i < d' \<or> d' + len \<le> s + i" by (rule apart_at [OF _ that(2)])
  qed
  fix d s i assume ds: "(d, s) \<in> R \<union> S" and i: "i < len"
  show "h2 (d + i) = h (s + i)"
  proof (cases "(d, s) \<in> S")
    case True
    then show ?thesis using copied_src [OF h2 True i] src [OF True i] by simp
  next
    case False
    then have R: "(d, s) \<in> R" using ds by simp
    have "d + i < d' \<or> d' + len \<le> d + i" if S: "(d', s') \<in> S" for d' s'
    proof -
      have "d \<noteq> d'" using separatedD(2) [OF sep, of d s d' s'] S R False by blast
      then have "apart d d' len" using separatedD(3) [OF sep, of d s d' s'] S R by blast
      then show ?thesis by (rule apart_at [OF apart_sym i])
    qed
    then have "h2 (d + i) = h1 (d + i)" by (rule copied_frame [OF h2])
    then show ?thesis using copied_src [OF h1 R i] by simp
  qed
next
  fix a assume out: "\<And>d s. (d, s) \<in> R \<union> S \<Longrightarrow> a < d \<or> d + len \<le> a"
  have "h2 a = h1 a" by (rule copied_frame [OF h2], rule out, rule UnI2)
  moreover have "h1 a = h a" by (rule copied_frame [OF h1], rule out, rule UnI1)
  ultimately show "h2 a = h a" by simp
qed

lemma wp_copy_step:
  "apart d s len \<Longrightarrow> wp (do { h' \<leftarrow> ram_memcpy h d s len; Some (Inr h') }) (yields (copied {(d, s)} len h))"
  by (auto simp: wp_rules apart_def copied_def ram_copy_def)

lemma wp_copy_for:
  assumes sep: "separated (\<Union>k < n. R k) len"
    and body: "\<And>k h'. k < n \<Longrightarrow> wp (f k h') (yields (copied (R k) len h'))"
  shows "wp (for_range 0 n f h) (yields (copied (\<Union>k < n. R k) len h))"
proof (rule wp_for_range_yields [where I = "\<lambda>k. copied (\<Union>j < k. R j) len h"])
  fix k h1 assume k: "k < n" and h1: "copied (\<Union>j < k. R j) len h h1"
  have eq: "(\<Union>j < Suc k. R j) = (\<Union>j < k. R j) \<union> R k"
    by (auto simp: less_Suc_eq)
  have "separated ((\<Union>j < k. R j) \<union> R k) len"
    using k by (intro separated_mono [OF sep] Un_least UN_mono UN_upper) auto
  then show "wp (f k h1) (yields (copied (\<Union>j < Suc k. R j) len h))"
    unfolding eq using h1 by (intro wp_mono [OF body [OF k]]) (auto elim!: yields_mono intro: copied_Un)
qed simp_all

section \<open>Rectangles of a tensor\<close>

text \<open>Batch, rows, columns and bytes per column of a tensor, and the half-open ranges of the
  rectangle. \<open>tile_pos\<close> and \<open>tensor_pos\<close> are the offsets of byte \<open>i\<close> of row \<open>r\<close> in batch \<open>n\<close> of
  the packed tile and of the tensor.\<close>

record rect =
  rc_n :: nat
  rc_h :: nat
  rc_w :: nat
  rc_px :: nat
  rc_h0 :: nat
  rc_h1 :: nat
  rc_w0 :: nat
  rc_w1 :: nat

definition tile_h :: "rect \<Rightarrow> nat" where "tile_h rc = rc_h1 rc - rc_h0 rc"
definition tile_row :: "rect \<Rightarrow> nat" where "tile_row rc = (rc_w1 rc - rc_w0 rc) * rc_px rc"
definition full_row :: "rect \<Rightarrow> nat" where "full_row rc = rc_w rc * rc_px rc"
definition tile_bytes :: "rect \<Rightarrow> nat" where "tile_bytes rc = rc_n rc * tile_h rc * tile_row rc"
definition tensor_bytes :: "rect \<Rightarrow> nat" where "tensor_bytes rc = rc_n rc * rc_h rc * full_row rc"

definition tile_pos :: "rect \<Rightarrow> nat \<Rightarrow> nat \<Rightarrow> nat" where
  "tile_pos rc n r = (n * tile_h rc + r) * tile_row rc"

definition tensor_pos :: "rect \<Rightarrow> nat \<Rightarrow> nat \<Rightarrow> nat" where
  "tensor_pos rc n r = (n * rc_h rc + (rc_h0 rc + r)) * full_row rc + rc_w0 rc * rc_px rc"

definition rect_ok :: "rect \<Rightarrow> bool" where
  "rect_ok rc = (rc_h0 rc \<le> rc_h1 rc \<and> rc_h1 rc \<le> rc_h rc \<and> rc_w0 rc \<le> rc_w1 rc \<and> rc_w1 rc \<le> rc_w rc)"

definition gathered :: "rect \<Rightarrow> nat \<Rightarrow> nat \<Rightarrow> ram \<Rightarrow> ram \<Rightarrow> bool" where
  "gathered rc fast slow h h' =
     ((\<forall>n < rc_n rc. \<forall>r < tile_h rc. \<forall>i < tile_row rc.
         h' (fast + tile_pos rc n r + i) = h (slow + tensor_pos rc n r + i)) \<and>
      (\<forall>a. a < fast \<or> fast + tile_bytes rc \<le> a \<longrightarrow> h' a = h a))"

definition scattered :: "rect \<Rightarrow> nat \<Rightarrow> nat \<Rightarrow> ram \<Rightarrow> ram \<Rightarrow> bool" where
  "scattered rc fast slow h h' =
     ((\<forall>n < rc_n rc. \<forall>r < tile_h rc. \<forall>i < tile_row rc.
         h' (slow + tensor_pos rc n r + i) = h (fast + tile_pos rc n r + i)) \<and>
      (\<forall>a. (\<forall>n < rc_n rc. \<forall>r < tile_h rc.
          a < slow + tensor_pos rc n r \<or> slow + tensor_pos rc n r + tile_row rc \<le> a) \<longrightarrow> h' a = h a))"

lemma mixed_radix: "n < N \<Longrightarrow> r < R \<Longrightarrow> Suc (n * R + r) \<le> N * (R :: nat)"
proof -
  assume "n < N" "r < R"
  then have "n * R + R \<le> N * R" by (metis Suc_leI mult_Suc mult_le_mono1 add.commute)
  with \<open>r < R\<close> show ?thesis by linarith
qed

lemma mixed_radix_row: "n < N \<Longrightarrow> r < R \<Longrightarrow> (n * R + r) * L + L \<le> N * R * (L :: nat)"
  using mult_le_mono1 [OF mixed_radix, of n N r R L] by simp

lemma tile_pos_bound:
  "n < rc_n rc \<Longrightarrow> r < tile_h rc \<Longrightarrow> tile_pos rc n r + tile_row rc \<le> tile_bytes rc"
  unfolding tile_pos_def tile_bytes_def by (rule mixed_radix_row)

lemma tile_row_fits: "rect_ok rc \<Longrightarrow> rc_w0 rc * rc_px rc + tile_row rc \<le> full_row rc"
proof -
  assume "rect_ok rc"
  then have "rc_w0 rc + (rc_w1 rc - rc_w0 rc) \<le> rc_w rc" by (simp add: rect_ok_def)
  then have "(rc_w0 rc + (rc_w1 rc - rc_w0 rc)) * rc_px rc \<le> rc_w rc * rc_px rc"
    by (rule mult_le_mono1)
  then show ?thesis by (simp add: tile_row_def full_row_def add_mult_distrib)
qed

lemma tensor_pos_bound:
  assumes "rect_ok rc" "n < rc_n rc" "r < tile_h rc"
  shows "tensor_pos rc n r + tile_row rc \<le> tensor_bytes rc"
proof -
  have "rc_h0 rc + r < rc_h rc" using assms by (auto simp: rect_ok_def tile_h_def)
  from mixed_radix_row [OF assms(2) this, of "full_row rc"] show ?thesis
    using tile_row_fits [OF assms(1)] by (simp add: tensor_pos_def tensor_bytes_def)
qed

text \<open>Rows are laid out in order, so distinct rows do not overlap.\<close>

lemma row_order:
  assumes "r < (H :: nat)" "r' < H" "(n, r) \<noteq> (n', r')"
  shows "n * H + r < n' * H + r' \<or> n' * H + r' < n * H + r"
proof -
  have lt: "m * H + k < m' * H + k'" if "m < m'" "k < H" for m m' k k'
  proof -
    have "Suc m * H \<le> m' * H" using that(1) by (intro mult_le_mono1) simp
    then show ?thesis using that(2) by simp
  qed
  show ?thesis
    using lt [of n n' r r'] lt [of n' n r' r] assms by (cases n n' rule: linorder_cases) auto
qed

section \<open>The transfers\<close>

text \<open>Batch, rows, columns and channels of a tensor, as the row transfers and the rectangle
  transfers read them: a rank-2 matrix is one batch of rows, a rank-3 tensor has one column or,
  for rectangles, one channel.\<close>

definition row_dims :: "tigris_plan \<Rightarrow> tigris_tensor \<Rightarrow> (int \<times> int \<times> int \<times> int) option" where
  "row_dims pl t = do {
     n \<leftarrow> (if tn_ndim t = 2 then Some 1 else tigris_tensor_shape pl t 0);
     h \<leftarrow> (if tn_ndim t = 2 then tigris_tensor_shape pl t 0 else tigris_tensor_shape pl t 1);
     w \<leftarrow> (if tn_ndim t = 4 then tigris_tensor_shape pl t 2 else Some 1);
     c \<leftarrow> tigris_tensor_shape pl t (unat (tn_ndim t) - 1);
     Some (n, h, w, c) }"

definition rect_dims :: "tigris_plan \<Rightarrow> tigris_tensor \<Rightarrow> (int \<times> int \<times> int \<times> int) option" where
  "rect_dims pl t = do {
     n \<leftarrow> tigris_tensor_shape pl t 0;
     h \<leftarrow> tigris_tensor_shape pl t 1;
     w \<leftarrow> tigris_tensor_shape pl t 2;
     c \<leftarrow> (if tn_ndim t = 4 then tigris_tensor_shape pl t 3 else Some 1);
     Some (n, h, w, c) }"

definition elem_size_of :: "tigris_tensor \<Rightarrow> int \<Rightarrow> int \<Rightarrow> int \<Rightarrow> int \<Rightarrow> u32 option" where
  "elem_size_of t n h w c = do {
     nh \<leftarrow> i32 (n * h); nhw \<leftarrow> i32 (nh * w); nhwc \<leftarrow> i32 (nhw * c);
     udiv32 (tn_size_bytes t) (word_of_int nhwc) }"

definition load_tile_step ::
  "nat \<Rightarrow> nat \<Rightarrow> u32 \<Rightarrow> u32 \<Rightarrow> u32 \<Rightarrow> nat \<Rightarrow> ram \<Rightarrow> (mem_error + ram) option" where
  "load_tile_step fast_ptr slow_ptr tile_rows_bytes full_batch_bytes src_row_off n h = do {
     h' \<leftarrow> ram_memcpy h (fast_ptr + unat (word_of_nat n * tile_rows_bytes))
            (slow_ptr + unat (word_of_nat n * full_batch_bytes) + unat src_row_off)
            (unat tile_rows_bytes);
     Some (Inr h') }"

definition spill_tile_step ::
  "nat \<Rightarrow> nat \<Rightarrow> u32 \<Rightarrow> u32 \<Rightarrow> u32 \<Rightarrow> nat \<Rightarrow> ram \<Rightarrow> (mem_error + ram) option" where
  "spill_tile_step slow_ptr fast_ptr tile_rows_bytes full_batch_bytes dst_row_off n h = do {
     h' \<leftarrow> ram_memcpy h (slow_ptr + unat (word_of_nat n * full_batch_bytes) + unat dst_row_off)
            (fast_ptr + unat (word_of_nat n * tile_rows_bytes)) (unat tile_rows_bytes);
     Some (Inr h') }"

definition tigris_mem_load_tile ::
  "mem option \<Rightarrow> tigris_plan option \<Rightarrow> u16 \<Rightarrow> int \<Rightarrow> int \<Rightarrow> ram \<Rightarrow> (mem_error + ram \<times> mem) option" where
  "tigris_mem_load_tile mo po tensor_idx h_start h_end h = (case (mo, po) of
     (Some m, Some pl) \<Rightarrow>
       if tensor_idx \<ge> num_tensors m then Some (Inl MEM_ERR_BAD_INDEX)
       else do {
         t \<leftarrow> plan_tensor pl (unat tensor_idx);
         if tn_ndim t < 2 \<or> tn_ndim t > 4 then Some (Inl MEM_ERR_BAD_INDEX)
         else do {
           (n, hh, w, c) \<leftarrow> row_dims pl t;
           if h_start < 0 \<or> h_end \<le> h_start \<or> h_end > hh then Some (Inl MEM_ERR_BAD_INDEX)
           else do {
             elem \<leftarrow> elem_size_of t n hh w c;
             let row_bytes = word_of_int w * word_of_int c * elem;
             let tile_rows_bytes = word_of_int (h_end - h_start) * row_bytes;
             let tile_size = word_of_int n * tile_rows_bytes;
             slow_ptr \<leftarrow> arr_get (tensor_ptrs m) (unat tensor_idx);
             if slow_ptr = 0 then Some (Inl MEM_ERR_NOT_SET)
             else andthen (tigris_mem_alloc_fast (Some m) tensor_idx tile_size) (\<lambda>m'. do {
               fast_ptr \<leftarrow> arr_get (tensor_ptrs m') (unat tensor_idx);
               andthen (for_range 0 (nat n) (load_tile_step fast_ptr slow_ptr tile_rows_bytes
                          (word_of_int hh * row_bytes) (word_of_int h_start * row_bytes)) h)
                 (\<lambda>h'. Some (Inr (h', count_load tile_size m'))) }) } } }
   | _ \<Rightarrow> Some (Inl MEM_ERR_NULL))"

definition tigris_mem_spill_tile ::
  "mem option \<Rightarrow> tigris_plan option \<Rightarrow> u16 \<Rightarrow> nat \<Rightarrow> int \<Rightarrow> int \<Rightarrow> ram \<Rightarrow>
     (mem_error + ram \<times> mem) option" where
  "tigris_mem_spill_tile mo po tensor_idx sbase h_start h_end h = (case (mo, po) of
     (Some m, Some pl) \<Rightarrow>
       if sbase = 0 then Some (Inl MEM_ERR_NULL)
       else if tensor_idx \<ge> num_tensors m then Some (Inl MEM_ERR_BAD_INDEX)
       else do {
         t \<leftarrow> plan_tensor pl (unat tensor_idx);
         if tn_ndim t < 2 \<or> tn_ndim t > 4 then Some (Inl MEM_ERR_BAD_INDEX)
         else do {
           (n, hh, w, c) \<leftarrow> row_dims pl t;
           if h_start < 0 \<or> h_end \<le> h_start \<or> h_end > hh then Some (Inl MEM_ERR_BAD_INDEX)
           else do {
             elem \<leftarrow> elem_size_of t n hh w c;
             let row_bytes = word_of_int w * word_of_int c * elem;
             let tile_rows_bytes = word_of_int (h_end - h_start) * row_bytes;
             fast_ptr \<leftarrow> arr_get (tensor_ptrs m) (unat tensor_idx);
             if fast_ptr = 0 then Some (Inl MEM_ERR_NOT_SET)
             else andthen (for_range 0 (nat n) (spill_tile_step sbase fast_ptr tile_rows_bytes
                          (word_of_int hh * row_bytes) (word_of_int h_start * row_bytes)) h) (\<lambda>h'. do {
               ptrs \<leftarrow> arr_set (tensor_ptrs m) (unat tensor_idx) sbase;
               Some (Inr (h', count_spill (word_of_int n * tile_rows_bytes)
                                (m\<lparr>tensor_ptrs := ptrs\<rparr>))) }) } } }
   | _ \<Rightarrow> Some (Inl MEM_ERR_NULL))"

text \<open>The rectangle transfers copy row by row inside each batch.\<close>

definition load_2d_row ::
  "nat \<Rightarrow> nat \<Rightarrow> u32 \<Rightarrow> u32 \<Rightarrow> u32 \<Rightarrow> u32 \<Rightarrow> u32 \<Rightarrow> int \<Rightarrow> nat \<Rightarrow> nat \<Rightarrow> ram \<Rightarrow>
     (mem_error + ram) option" where
  "load_2d_row fast_ptr slow_ptr tile_rows_bytes tile_row_bytes full_batch_bytes full_row_bytes
     src_col_off h0 n r h = do {
     h' \<leftarrow> ram_memcpy h
       (fast_ptr + unat (word_of_nat n * tile_rows_bytes) + unat (word_of_nat r * tile_row_bytes))
       (slow_ptr + unat (word_of_nat n * full_batch_bytes)
          + unat (word_of_int (h0 + int r) * full_row_bytes) + unat src_col_off)
       (unat tile_row_bytes);
     Some (Inr h') }"

definition spill_2d_row ::
  "nat \<Rightarrow> nat \<Rightarrow> u32 \<Rightarrow> u32 \<Rightarrow> u32 \<Rightarrow> u32 \<Rightarrow> u32 \<Rightarrow> int \<Rightarrow> nat \<Rightarrow> nat \<Rightarrow> ram \<Rightarrow>
     (mem_error + ram) option" where
  "spill_2d_row slow_ptr fast_ptr tile_rows_bytes tile_row_bytes full_batch_bytes full_row_bytes
     dst_col_off h0 n r h = do {
     h' \<leftarrow> ram_memcpy h
       (slow_ptr + unat (word_of_nat n * full_batch_bytes)
          + unat (word_of_int (h0 + int r) * full_row_bytes) + unat dst_col_off)
       (fast_ptr + unat (word_of_nat n * tile_rows_bytes) + unat (word_of_nat r * tile_row_bytes))
       (unat tile_row_bytes);
     Some (Inr h') }"

definition tigris_mem_load_tile_2d ::
  "mem option \<Rightarrow> tigris_plan option \<Rightarrow> u16 \<Rightarrow> int \<Rightarrow> int \<Rightarrow> int \<Rightarrow> int \<Rightarrow> ram \<Rightarrow>
     (mem_error + ram \<times> mem) option" where
  "tigris_mem_load_tile_2d mo po tidx h0 h1 w0 w1 h = (case (mo, po) of
     (Some m, Some pl) \<Rightarrow>
       if tidx \<ge> num_tensors m then Some (Inl MEM_ERR_BAD_INDEX)
       else do {
         t \<leftarrow> plan_tensor pl (unat tidx);
         if tn_ndim t \<noteq> 3 \<and> tn_ndim t \<noteq> 4 then Some (Inl MEM_ERR_BAD_INDEX)
         else do {
           (n, hh, w, c) \<leftarrow> rect_dims pl t;
           if h0 < 0 \<or> h1 \<le> h0 \<or> h1 > hh \<or> w0 < 0 \<or> w1 \<le> w0 \<or> w1 > w
           then Some (Inl MEM_ERR_BAD_INDEX)
           else do {
             elem \<leftarrow> elem_size_of t n hh w c;
             let full_row_bytes = word_of_int w * word_of_int c * elem;
             let tile_row_bytes = word_of_int (w1 - w0) * word_of_int c * elem;
             let tile_rows_bytes = word_of_int (h1 - h0) * tile_row_bytes;
             let tile_size = word_of_int n * tile_rows_bytes;
             slow_ptr \<leftarrow> arr_get (tensor_ptrs m) (unat tidx);
             if slow_ptr = 0 then Some (Inl MEM_ERR_NOT_SET)
             else andthen (tigris_mem_alloc_fast (Some m) tidx tile_size) (\<lambda>m'. do {
               fast_ptr \<leftarrow> arr_get (tensor_ptrs m') (unat tidx);
               andthen (for_range 0 (nat n) (\<lambda>n. for_range 0 (nat (h1 - h0))
                   (load_2d_row fast_ptr slow_ptr tile_rows_bytes tile_row_bytes
                      (word_of_int hh * full_row_bytes) full_row_bytes
                      (word_of_int w0 * word_of_int c * elem) h0 n)) h)
                 (\<lambda>h'. Some (Inr (h', count_load tile_size m'))) }) } } }
   | _ \<Rightarrow> Some (Inl MEM_ERR_NULL))"

definition tigris_mem_spill_tile_2d ::
  "mem option \<Rightarrow> tigris_plan option \<Rightarrow> u16 \<Rightarrow> nat \<Rightarrow> int \<Rightarrow> int \<Rightarrow> int \<Rightarrow> int \<Rightarrow> ram \<Rightarrow>
     (mem_error + ram \<times> mem) option" where
  "tigris_mem_spill_tile_2d mo po tidx sbase h0 h1 w0 w1 h = (case (mo, po) of
     (Some m, Some pl) \<Rightarrow>
       if sbase = 0 then Some (Inl MEM_ERR_NULL)
       else if tidx \<ge> num_tensors m then Some (Inl MEM_ERR_BAD_INDEX)
       else do {
         t \<leftarrow> plan_tensor pl (unat tidx);
         if tn_ndim t \<noteq> 3 \<and> tn_ndim t \<noteq> 4 then Some (Inl MEM_ERR_BAD_INDEX)
         else do {
           (n, hh, w, c) \<leftarrow> rect_dims pl t;
           if h0 < 0 \<or> h1 \<le> h0 \<or> h1 > hh \<or> w0 < 0 \<or> w1 \<le> w0 \<or> w1 > w
           then Some (Inl MEM_ERR_BAD_INDEX)
           else do {
             elem \<leftarrow> elem_size_of t n hh w c;
             let full_row_bytes = word_of_int w * word_of_int c * elem;
             let tile_row_bytes = word_of_int (w1 - w0) * word_of_int c * elem;
             let tile_rows_bytes = word_of_int (h1 - h0) * tile_row_bytes;
             fast_ptr \<leftarrow> arr_get (tensor_ptrs m) (unat tidx);
             if fast_ptr = 0 then Some (Inl MEM_ERR_NOT_SET)
             else andthen (for_range 0 (nat n) (\<lambda>n. for_range 0 (nat (h1 - h0))
                   (spill_2d_row sbase fast_ptr tile_rows_bytes tile_row_bytes
                      (word_of_int hh * full_row_bytes) full_row_bytes
                      (word_of_int w0 * word_of_int c * elem) h0 n)) h) (\<lambda>h'. do {
               ptrs \<leftarrow> arr_set (tensor_ptrs m) (unat tidx) sbase;
               Some (Inr (h', count_spill (word_of_int n * tile_rows_bytes)
                                (m\<lparr>tensor_ptrs := ptrs\<rparr>))) }) } } }
   | _ \<Rightarrow> Some (Inl MEM_ERR_NULL))"

section \<open>The copy loops refine the specification\<close>

lemma separated_range:
  assumes "\<And>x. x \<in> X \<Longrightarrow> D \<le> d x \<and> d x + L \<le> D + dn"
    and "\<And>x. x \<in> X \<Longrightarrow> S \<le> s x \<and> s x + L \<le> S + sn"
    and "D + dn \<le> S \<or> S + sn \<le> D"
    and "\<And>x y. x \<in> X \<Longrightarrow> y \<in> X \<Longrightarrow> x \<noteq> y \<Longrightarrow> d x + L \<le> d y \<or> d y + L \<le> d x" and "0 < L"
  shows "separated ((\<lambda>x. (d x, s x)) ` X) L"
proof (rule separatedI)
  fix a b a' b' assume "(a, b) \<in> (\<lambda>x. (d x, s x)) ` X" "(a', b') \<in> (\<lambda>x. (d x, s x)) ` X"
  then obtain x y where x: "x \<in> X" "a = d x" "b = s x" and y: "y \<in> X" "a' = d y" "b' = s y" by auto
  have "apart a b' L"
    using assms(1) [OF x(1)] assms(2) [OF y(1)] assms(3) by (auto simp: apart_def x y)
  moreover have "(a = a' \<longrightarrow> b = b') \<and> (a \<noteq> a' \<longrightarrow> apart a a' L)"
    using assms(4) [OF x(1) y(1)] assms(5) by (cases "x = y") (auto simp: apart_def x y)
  ultimately show "apart a b' L \<and> (a = a' \<longrightarrow> b = b') \<and> (a \<noteq> a' \<longrightarrow> apart a a' L)" by blast
qed

lemma slot_order: "k < k' \<Longrightarrow> k * L + L \<le> k' * (L :: nat)"
  using mult_le_mono1 [of "Suc k" k' L] by simp

lemma tile_le_tensor: "rect_ok rc \<Longrightarrow> tile_bytes rc \<le> tensor_bytes rc"
  using tile_row_fits [of rc]
  by (auto simp: tile_bytes_def tensor_bytes_def rect_ok_def tile_h_def intro!: mult_le_mono)

text \<open>What the transfers know of a rectangle: it lies in the tensor, is not empty, and the tensor
  has less than 4 GiB and does not overlap the tile.\<close>

definition transfer_ok :: "rect \<Rightarrow> nat \<Rightarrow> nat \<Rightarrow> bool" where
  "transfer_ok rc fast slow = (rect_ok rc \<and> tensor_bytes rc < 4294967296 \<and>
     0 < tile_h rc \<and> 0 < tile_row rc \<and>
     (fast + tile_bytes rc \<le> slow \<or> slow + tensor_bytes rc \<le> fast))"

definition full_width :: "rect \<Rightarrow> bool" where
  "full_width rc = (rc_w0 rc = 0 \<and> rc_w1 rc = rc_w rc)"

lemma full_width_row: "full_width rc \<Longrightarrow> tile_row rc = full_row rc"
  by (simp add: full_width_def tile_row_def full_row_def)

text \<open>The start and length of a band, batch by batch.\<close>

lemma band_bounds:
  assumes "rect_ok rc" "full_width rc" "n < rc_n rc"
  shows "tile_pos rc n 0 + tile_h rc * full_row rc \<le> tile_bytes rc"
    and "tensor_pos rc n 0 + tile_h rc * full_row rc \<le> tensor_bytes rc"
proof -
  show "tile_pos rc n 0 + tile_h rc * full_row rc \<le> tile_bytes rc"
    using slot_order [OF assms(3), of "tile_h rc * full_row rc"]
    by (simp add: tile_pos_def tile_bytes_def full_width_row [OF assms(2)] mult.assoc)
  have "n * rc_h rc + (rc_h0 rc + tile_h rc) \<le> rc_n rc * rc_h rc"
    using slot_order [OF assms(3), of "rc_h rc"] assms(1) by (simp add: rect_ok_def tile_h_def)
  then have "(n * rc_h rc + (rc_h0 rc + tile_h rc)) * full_row rc \<le> rc_n rc * rc_h rc * full_row rc"
    by (rule mult_le_mono1)
  then show "tensor_pos rc n 0 + tile_h rc * full_row rc \<le> tensor_bytes rc"
    using assms(2) by (simp add: tensor_pos_def tensor_bytes_def full_width_def algebra_simps)
qed

lemma band_order:
  assumes "rect_ok rc" "full_width rc" "n \<noteq> n'"
  shows "tile_pos rc n 0 + tile_h rc * full_row rc \<le> tile_pos rc n' 0 \<or>
      tile_pos rc n' 0 + tile_h rc * full_row rc \<le> tile_pos rc n 0"
    and "tensor_pos rc n 0 + tile_h rc * full_row rc \<le> tensor_pos rc n' 0 \<or>
      tensor_pos rc n' 0 + tile_h rc * full_row rc \<le> tensor_pos rc n 0"
proof -
  show "tile_pos rc n 0 + tile_h rc * full_row rc \<le> tile_pos rc n' 0 \<or>
      tile_pos rc n' 0 + tile_h rc * full_row rc \<le> tile_pos rc n 0"
    using slot_order [of n n' "tile_h rc * full_row rc"] slot_order [of n' n "tile_h rc * full_row rc"]
      assms(3) by (cases n n' rule: linorder_cases)
      (auto simp: tile_pos_def full_width_row [OF assms(2)] mult.assoc)
  have lt: "tensor_pos rc a 0 + tile_h rc * full_row rc \<le> tensor_pos rc b 0" if "a < b" for a b
  proof -
    have "a * rc_h rc + (rc_h0 rc + tile_h rc) \<le> b * rc_h rc + rc_h0 rc"
      using slot_order [OF that, of "rc_h rc"] assms(1) by (simp add: rect_ok_def tile_h_def)
    then have "(a * rc_h rc + (rc_h0 rc + tile_h rc)) * full_row rc
        \<le> (b * rc_h rc + rc_h0 rc) * full_row rc" by (rule mult_le_mono1)
    then show ?thesis by (simp add: tensor_pos_def algebra_simps)
  qed
  show "tensor_pos rc n 0 + tile_h rc * full_row rc \<le> tensor_pos rc n' 0 \<or>
      tensor_pos rc n' 0 + tile_h rc * full_row rc \<le> tensor_pos rc n 0"
    using lt [of n n'] lt [of n' n] assms(3) by (cases n n' rule: linorder_cases) auto
qed

text \<open>Rows of a band are consecutive.\<close>

lemma band_row:
  assumes "full_width rc"
  shows "tile_pos rc n r = tile_pos rc n 0 + r * full_row rc"
    and "tensor_pos rc n r = tensor_pos rc n 0 + r * full_row rc"
  using assms
  by (simp_all add: tile_pos_def tensor_pos_def full_width_row full_width_def algebra_simps)

lemma row_in_band: "r < k \<Longrightarrow> i < (L :: nat) \<Longrightarrow> r * L + i < k * L"
  using slot_order [of r k L] by simp

lemma band_to_row:
  fixes L :: nat assumes "p \<le> a" "a < p + k * L"
  shows "\<exists>r < k. p + r * L \<le> a \<and> a < p + r * L + L"
proof (intro exI conjI)
  have "a - p < k * L" using assms by linarith
  then show "(a - p) div L < k" by (simp add: less_mult_imp_div_less)
  have L: "0 < L" using assms by (cases L) auto
  have "(a - p) div L * L + (a - p) mod L = a - p" by (rule div_mult_mod_eq)
  then show "p + (a - p) div L * L \<le> a" "a < p + (a - p) div L * L + L"
    using mod_less_divisor [OF L, of "a - p"] assms(1) by linarith+
qed

text \<open>The words of the row geometry and their values.\<close>

lemma band_words:
  assumes "transfer_ok rc fast slow" "full_width rc" "n < rc_n rc"
  shows "unat (word_of_nat n * word_of_nat (tile_h rc * full_row rc) :: u32) = tile_pos rc n 0"
    and "unat (word_of_nat n * word_of_nat (rc_h rc * full_row rc) :: u32)
       + unat (word_of_nat (rc_h0 rc * full_row rc) :: u32) = tensor_pos rc n 0"
    and "unat (word_of_nat (tile_h rc * full_row rc) :: u32) = tile_h rc * full_row rc"
proof -
  have rc: "rect_ok rc" and lim: "tensor_bytes rc < 4294967296"
    using assms(1) by (simp_all add: transfer_ok_def)
  note b = band_bounds [OF rc assms(2,3)] and le = tile_le_tensor [OF rc]
  have t: "n * (tile_h rc * full_row rc) = tile_pos rc n 0"
    by (simp add: tile_pos_def full_width_row [OF assms(2)] mult.assoc)
  have p: "n * (rc_h rc * full_row rc) + rc_h0 rc * full_row rc = tensor_pos rc n 0"
    using assms(2) by (simp add: tensor_pos_def full_width_def algebra_simps)
  show "unat (word_of_nat n * word_of_nat (tile_h rc * full_row rc) :: u32) = tile_pos rc n 0"
    unfolding of_nat_mult [symmetric] t using b le lim by (simp add: unat_of_nat_u32 del: of_nat_mult)
  show "unat (word_of_nat n * word_of_nat (rc_h rc * full_row rc) :: u32)
       + unat (word_of_nat (rc_h0 rc * full_row rc) :: u32) = tensor_pos rc n 0"
    unfolding of_nat_mult [symmetric] using b le lim p by (simp add: unat_of_nat_u32 del: of_nat_mult)
  show "unat (word_of_nat (tile_h rc * full_row rc) :: u32) = tile_h rc * full_row rc"
    using b le lim by (simp add: unat_of_nat_u32 del: of_nat_mult)
qed

lemma UN_singletons: "(\<Union>k < n. {(d k, s k)}) = (\<lambda>k. (d k, s k)) ` {..<n}"
  by auto

lemma wp_load_bands:
  assumes ok: "transfer_ok rc fast slow" and fw: "full_width rc"
  shows "wp (for_range 0 (rc_n rc) (load_tile_step fast slow (word_of_nat (tile_h rc * full_row rc))
      (word_of_nat (rc_h rc * full_row rc)) (word_of_nat (rc_h0 rc * full_row rc))) h)
    (yields (gathered rc fast slow h))"
proof -
  let ?L = "tile_h rc * full_row rc"
  let ?R = "\<lambda>k. {(fast + tile_pos rc k 0, slow + tensor_pos rc k 0)}"
  have rc: "rect_ok rc" and pos: "0 < ?L" using ok full_width_row [OF fw]
    by (simp_all add: transfer_ok_def)
  have sep: "separated (\<Union>k < rc_n rc. ?R k) ?L"
    unfolding UN_singletons
    using ok pos band_order(1) [OF rc fw] band_bounds [OF rc fw]
    by (intro separated_range [where D = fast and dn = "tile_bytes rc" and S = slow
          and sn = "tensor_bytes rc"]) (auto simp: transfer_ok_def)
  show ?thesis
  proof (rule wp_mono [OF wp_copy_for [OF sep]])
    fix k h' assume k: "k < rc_n rc"
    have "apart (fast + tile_pos rc k 0) (slow + tensor_pos rc k 0) ?L"
      by (rule separatedD(1) [OF sep]) (use k in auto)
    then show "wp (load_tile_step fast slow (word_of_nat ?L) (word_of_nat (rc_h rc * full_row rc))
        (word_of_nat (rc_h0 rc * full_row rc)) k h') (yields (copied (?R k) ?L h'))"
      using wp_copy_step band_words [OF ok fw k] by (simp add: load_tile_step_def add.assoc)
  next
    fix res assume "yields (copied (\<Union>k < rc_n rc. ?R k) ?L h) res"
    then show "yields (gathered rc fast slow h) res"
    proof (rule yields_mono)
      fix h' assume c: "copied (\<Union>k < rc_n rc. ?R k) ?L h h'"
      have "h' (fast + tile_pos rc n r + i) = h (slow + tensor_pos rc n r + i)"
        if "n < rc_n rc" "r < tile_h rc" "i < tile_row rc" for n r i
      proof -
        have "(fast + tile_pos rc n 0, slow + tensor_pos rc n 0) \<in> (\<Union>k < rc_n rc. ?R k)"
          using that(1) by blast
        from copied_src [OF c this, of "r * full_row rc + i"] show ?thesis
          using that row_in_band [of r "tile_h rc" i "full_row rc"]
          by (simp add: band_row [OF fw, of n r] full_width_row [OF fw] add.assoc)
      qed
      moreover have "h' a = h a" if "a < fast \<or> fast + tile_bytes rc \<le> a" for a
        by (rule copied_frame [OF c]) (use that band_bounds(1) [OF rc fw] in fastforce)
      ultimately show "gathered rc fast slow h h'" by (simp add: gathered_def)
    qed
  qed
qed

lemma wp_spill_bands:
  assumes ok: "transfer_ok rc fast slow" and fw: "full_width rc"
  shows "wp (for_range 0 (rc_n rc) (spill_tile_step slow fast (word_of_nat (tile_h rc * full_row rc))
      (word_of_nat (rc_h rc * full_row rc)) (word_of_nat (rc_h0 rc * full_row rc))) h)
    (yields (scattered rc fast slow h))"
proof -
  let ?L = "tile_h rc * full_row rc"
  let ?R = "\<lambda>k. {(slow + tensor_pos rc k 0, fast + tile_pos rc k 0)}"
  have rc: "rect_ok rc" and pos: "0 < ?L" using ok full_width_row [OF fw]
    by (simp_all add: transfer_ok_def)
  have sep: "separated (\<Union>k < rc_n rc. ?R k) ?L"
    unfolding UN_singletons
    using ok pos band_order(2) [OF rc fw] band_bounds [OF rc fw]
    by (intro separated_range [where S = fast and sn = "tile_bytes rc" and D = slow
          and dn = "tensor_bytes rc"]) (auto simp: transfer_ok_def)
  show ?thesis
  proof (rule wp_mono [OF wp_copy_for [OF sep]])
    fix k h' assume k: "k < rc_n rc"
    have "apart (slow + tensor_pos rc k 0) (fast + tile_pos rc k 0) ?L"
      by (rule separatedD(1) [OF sep]) (use k in auto)
    then show "wp (spill_tile_step slow fast (word_of_nat ?L) (word_of_nat (rc_h rc * full_row rc))
        (word_of_nat (rc_h0 rc * full_row rc)) k h') (yields (copied (?R k) ?L h'))"
      using wp_copy_step band_words [OF ok fw k] by (simp add: spill_tile_step_def add.assoc)
  next
    fix res assume "yields (copied (\<Union>k < rc_n rc. ?R k) ?L h) res"
    then show "yields (scattered rc fast slow h) res"
    proof (rule yields_mono)
      fix h' assume c: "copied (\<Union>k < rc_n rc. ?R k) ?L h h'"
      have "h' (slow + tensor_pos rc n r + i) = h (fast + tile_pos rc n r + i)"
        if "n < rc_n rc" "r < tile_h rc" "i < tile_row rc" for n r i
      proof -
        have "(slow + tensor_pos rc n 0, fast + tile_pos rc n 0) \<in> (\<Union>k < rc_n rc. ?R k)"
          using that(1) by blast
        from copied_src [OF c this, of "r * full_row rc + i"] show ?thesis
          using that row_in_band [of r "tile_h rc" i "full_row rc"]
          by (simp add: band_row [OF fw, of n r] full_width_row [OF fw] add.assoc)
      qed
      moreover have "h' a = h a" if out: "\<forall>n < rc_n rc. \<forall>r < tile_h rc.
          a < slow + tensor_pos rc n r \<or> slow + tensor_pos rc n r + tile_row rc \<le> a" for a
      proof (rule copied_frame [OF c])
        fix d s assume "(d, s) \<in> (\<Union>k < rc_n rc. ?R k)"
        then obtain k where k: "k < rc_n rc" "d = slow + tensor_pos rc k 0" by auto
        show "a < d \<or> d + ?L \<le> a"
        proof (rule ccontr)
          assume "\<not> (a < d \<or> d + ?L \<le> a)"
          then obtain r where "r < tile_h rc" "d + r * full_row rc \<le> a" "a < d + r * full_row rc + full_row rc"
            using band_to_row [of d a "tile_h rc" "full_row rc"] by auto
          with out k show False
            using band_row(2) [OF fw, of k r] full_width_row [OF fw] by fastforce
        qed
      qed
      ultimately show "scattered rc fast slow h h'" by (simp add: scattered_def)
    qed
  qed
qed

text \<open>Rectangles copy row by row.\<close>

lemma rect_words:
  assumes "transfer_ok rc fast slow" "n < rc_n rc" "r < tile_h rc"
  shows "unat (word_of_nat n * word_of_nat (tile_h rc * tile_row rc) :: u32)
       + unat (word_of_nat r * word_of_nat (tile_row rc) :: u32) = tile_pos rc n r"
    and "unat (word_of_nat n * word_of_nat (rc_h rc * full_row rc) :: u32)
       + unat (word_of_int (int (rc_h0 rc) + int r) * word_of_nat (full_row rc) :: u32)
       + unat (word_of_nat (rc_w0 rc * rc_px rc) :: u32) = tensor_pos rc n r"
    and "unat (word_of_nat (tile_row rc) :: u32) = tile_row rc"
proof -
  have rc: "rect_ok rc" and lim: "tensor_bytes rc < 4294967296"
    using assms(1) by (simp_all add: transfer_ok_def)
  note b = tile_pos_bound [OF assms(2,3)] tensor_pos_bound [OF rc assms(2,3)]
    and le = tile_le_tensor [OF rc]
  have t: "n * (tile_h rc * tile_row rc) + r * tile_row rc = tile_pos rc n r"
    by (simp add: tile_pos_def algebra_simps)
  have p: "n * (rc_h rc * full_row rc) + (rc_h0 rc + r) * full_row rc + rc_w0 rc * rc_px rc
      = tensor_pos rc n r"
    by (simp add: tensor_pos_def algebra_simps)
  have i: "word_of_int (int (rc_h0 rc) + int r) = (word_of_nat (rc_h0 rc + r) :: u32)"
    by (simp flip: of_nat_add)
  show "unat (word_of_nat n * word_of_nat (tile_h rc * tile_row rc) :: u32)
       + unat (word_of_nat r * word_of_nat (tile_row rc) :: u32) = tile_pos rc n r"
    unfolding of_nat_mult [symmetric]
    using b le lim t by (simp add: unat_of_nat_u32 del: of_nat_mult)
  show "unat (word_of_nat n * word_of_nat (rc_h rc * full_row rc) :: u32)
       + unat (word_of_int (int (rc_h0 rc) + int r) * word_of_nat (full_row rc) :: u32)
       + unat (word_of_nat (rc_w0 rc * rc_px rc) :: u32) = tensor_pos rc n r"
    unfolding i of_nat_mult [symmetric]
    using b lim p by (simp add: unat_of_nat_u32 del: of_nat_mult of_nat_add)
  show "unat (word_of_nat (tile_row rc) :: u32) = tile_row rc"
    using b le lim by (simp add: unat_of_nat_u32)
qed

lemma rect_order:
  assumes "rect_ok rc" "n < rc_n rc" "r < tile_h rc" "n' < rc_n rc" "r' < tile_h rc" "(n, r) \<noteq> (n', r')"
  shows "tile_pos rc n r + tile_row rc \<le> tile_pos rc n' r' \<or>
      tile_pos rc n' r' + tile_row rc \<le> tile_pos rc n r"
    and "tensor_pos rc n r + tile_row rc \<le> tensor_pos rc n' r' \<or>
      tensor_pos rc n' r' + tile_row rc \<le> tensor_pos rc n r"
proof -
  show "tile_pos rc n r + tile_row rc \<le> tile_pos rc n' r' \<or>
      tile_pos rc n' r' + tile_row rc \<le> tile_pos rc n r"
    using row_order [OF assms(3,5,6)] slot_order by (auto simp: tile_pos_def)
  have r: "rc_h0 rc + r < rc_h rc" "rc_h0 rc + r' < rc_h rc"
    using assms by (auto simp: rect_ok_def tile_h_def)
  have ne: "(n, rc_h0 rc + r) \<noteq> (n', rc_h0 rc + r')" using assms(6) by simp
  have lt: "tensor_pos rc a c + tile_row rc \<le> tensor_pos rc b d"
    if "a * rc_h rc + (rc_h0 rc + c) < b * rc_h rc + (rc_h0 rc + d)" for a b c d
    using slot_order [OF that, of "full_row rc"] tile_row_fits [OF assms(1)]
    by (simp add: tensor_pos_def)
  show "tensor_pos rc n r + tile_row rc \<le> tensor_pos rc n' r' \<or>
      tensor_pos rc n' r' + tile_row rc \<le> tensor_pos rc n r"
    using row_order [OF r ne] lt by blast
qed

text \<open>The rows of a rectangle form two separated families.\<close>

lemma rect_separated:
  assumes ok: "transfer_ok rc fast slow"
  defines "X \<equiv> {..<rc_n rc} \<times> {..<tile_h rc}"
  shows "separated ((\<lambda>(n, r). (fast + tile_pos rc n r, slow + tensor_pos rc n r)) ` X) (tile_row rc)"
    and "separated ((\<lambda>(n, r). (slow + tensor_pos rc n r, fast + tile_pos rc n r)) ` X) (tile_row rc)"
proof -
  have rc: "rect_ok rc" and pos: "0 < tile_row rc"
    and dis: "fast + tile_bytes rc \<le> slow \<or> slow + tensor_bytes rc \<le> fast"
    using ok by (simp_all add: transfer_ok_def)
  have d: "fast \<le> fast + tile_pos rc (fst x) (snd x) \<and>
      fast + tile_pos rc (fst x) (snd x) + tile_row rc \<le> fast + tile_bytes rc" if "x \<in> X" for x
    using that tile_pos_bound [of "fst x" rc "snd x"] by (auto simp: X_def)
  have s: "slow \<le> slow + tensor_pos rc (fst x) (snd x) \<and>
      slow + tensor_pos rc (fst x) (snd x) + tile_row rc \<le> slow + tensor_bytes rc" if "x \<in> X" for x
    using that tensor_pos_bound [OF rc, of "fst x" "snd x"] by (auto simp: X_def)
  have o1: "fast + tile_pos rc (fst x) (snd x) + tile_row rc \<le> fast + tile_pos rc (fst y) (snd y) \<or>
      fast + tile_pos rc (fst y) (snd y) + tile_row rc \<le> fast + tile_pos rc (fst x) (snd x)"
    if "x \<in> X" "y \<in> X" "x \<noteq> y" for x y
    using that rect_order(1) [OF rc, of "fst x" "snd x" "fst y" "snd y"] by (auto simp: X_def prod_eq_iff)
  have o2: "slow + tensor_pos rc (fst x) (snd x) + tile_row rc \<le> slow + tensor_pos rc (fst y) (snd y) \<or>
      slow + tensor_pos rc (fst y) (snd y) + tile_row rc \<le> slow + tensor_pos rc (fst x) (snd x)"
    if "x \<in> X" "y \<in> X" "x \<noteq> y" for x y
    using that rect_order(2) [OF rc, of "fst x" "snd x" "fst y" "snd y"] by (auto simp: X_def prod_eq_iff)
  show "separated ((\<lambda>(n, r). (fast + tile_pos rc n r, slow + tensor_pos rc n r)) ` X) (tile_row rc)"
    unfolding split_def by (rule separated_range [OF d s dis o1 pos])
  show "separated ((\<lambda>(n, r). (slow + tensor_pos rc n r, fast + tile_pos rc n r)) ` X) (tile_row rc)"
    unfolding split_def by (rule separated_range [OF s d _ o2 pos]) (use dis in auto)
qed

text \<open>The nested loop as one set of copies.\<close>

lemma wp_copy_nested:
  assumes sep: "separated ((\<lambda>(n, r). (d n r, s n r)) ` ({..<N} \<times> {..<M})) L"
    and step: "\<And>n r h. n < N \<Longrightarrow> r < M \<Longrightarrow>
      f n r h = do { h' \<leftarrow> ram_memcpy h (d n r) (s n r) L; Some (Inr h') }"
  shows "wp (for_range 0 N (\<lambda>n. for_range 0 M (f n)) h)
    (yields (copied ((\<lambda>(n, r). (d n r, s n r)) ` ({..<N} \<times> {..<M})) L h))"
proof -
  let ?R = "\<lambda>n. (\<Union>r < M. {(d n r, s n r)})"
  have eq: "(\<lambda>(n, r). (d n r, s n r)) ` ({..<N} \<times> {..<M}) = (\<Union>n < N. ?R n)" by auto
  have sub: "?R n \<subseteq> (\<Union>n < N. ?R n)" if "n < N" for n using that by blast
  show ?thesis
    unfolding eq
  proof (rule wp_copy_for [OF sep [unfolded eq]])
    fix n h assume n: "n < N"
    note sn = separated_mono [OF sep [unfolded eq] sub [OF n]]
    show "wp (for_range 0 M (f n) h) (yields (copied (?R n) L h))"
    proof (rule wp_copy_for [OF sn])
      fix r h assume r: "r < M"
      have "apart (d n r) (s n r) L" by (rule separatedD(1) [OF sn]) (use r in auto)
      then show "wp (f n r h) (yields (copied {(d n r, s n r)} L h))"
        unfolding step [OF n r] by (rule wp_copy_step)
    qed
  qed
qed

lemma wp_load_rect:
  assumes ok: "transfer_ok rc fast slow"
  shows "wp (for_range 0 (rc_n rc) (\<lambda>n. for_range 0 (tile_h rc)
      (load_2d_row fast slow (word_of_nat (tile_h rc * tile_row rc)) (word_of_nat (tile_row rc))
         (word_of_nat (rc_h rc * full_row rc)) (word_of_nat (full_row rc))
         (word_of_nat (rc_w0 rc * rc_px rc)) (int (rc_h0 rc)) n)) h)
    (yields (gathered rc fast slow h))"
proof -
  let ?R = "(\<lambda>(n, r). (fast + tile_pos rc n r, slow + tensor_pos rc n r)) `
     ({..<rc_n rc} \<times> {..<tile_h rc})"
  have rc: "rect_ok rc" using ok by (simp add: transfer_ok_def)
  note sep = rect_separated(1) [OF ok]
  show ?thesis
  proof (rule wp_mono [OF wp_copy_nested [OF sep]])
    show "load_2d_row fast slow (word_of_nat (tile_h rc * tile_row rc)) (word_of_nat (tile_row rc))
         (word_of_nat (rc_h rc * full_row rc)) (word_of_nat (full_row rc))
         (word_of_nat (rc_w0 rc * rc_px rc)) (int (rc_h0 rc)) n r h
       = do { h' \<leftarrow> ram_memcpy h (fast + tile_pos rc n r) (slow + tensor_pos rc n r) (tile_row rc);
              Some (Inr h') }" if "n < rc_n rc" "r < tile_h rc" for n r h
      using rect_words [OF ok that] by (simp only: load_2d_row_def add.assoc)
  next
    fix res assume "yields (copied ?R (tile_row rc) h) res"
    then show "yields (gathered rc fast slow h) res"
    proof (rule yields_mono)
      fix h' assume c: "copied ?R (tile_row rc) h h'"
      have "h' (fast + tile_pos rc n r + i) = h (slow + tensor_pos rc n r + i)"
        if "n < rc_n rc" "r < tile_h rc" "i < tile_row rc" for n r i
        by (rule copied_src [OF c]) (use that in auto)
      moreover have "h' a = h a" if "a < fast \<or> fast + tile_bytes rc \<le> a" for a
        by (rule copied_frame [OF c]) (use that tile_pos_bound in fastforce)
      ultimately show "gathered rc fast slow h h'" by (simp add: gathered_def)
    qed
  qed
qed

lemma wp_spill_rect:
  assumes ok: "transfer_ok rc fast slow"
  shows "wp (for_range 0 (rc_n rc) (\<lambda>n. for_range 0 (tile_h rc)
      (spill_2d_row slow fast (word_of_nat (tile_h rc * tile_row rc)) (word_of_nat (tile_row rc))
         (word_of_nat (rc_h rc * full_row rc)) (word_of_nat (full_row rc))
         (word_of_nat (rc_w0 rc * rc_px rc)) (int (rc_h0 rc)) n)) h)
    (yields (scattered rc fast slow h))"
proof -
  let ?R = "(\<lambda>(n, r). (slow + tensor_pos rc n r, fast + tile_pos rc n r)) `
     ({..<rc_n rc} \<times> {..<tile_h rc})"
  have rc: "rect_ok rc" using ok by (simp add: transfer_ok_def)
  note sep = rect_separated(2) [OF ok]
  show ?thesis
  proof (rule wp_mono [OF wp_copy_nested [OF sep]])
    show "spill_2d_row slow fast (word_of_nat (tile_h rc * tile_row rc)) (word_of_nat (tile_row rc))
         (word_of_nat (rc_h rc * full_row rc)) (word_of_nat (full_row rc))
         (word_of_nat (rc_w0 rc * rc_px rc)) (int (rc_h0 rc)) n r h
       = do { h' \<leftarrow> ram_memcpy h (slow + tensor_pos rc n r) (fast + tile_pos rc n r) (tile_row rc);
              Some (Inr h') }" if "n < rc_n rc" "r < tile_h rc" for n r h
      using rect_words [OF ok that] by (simp only: spill_2d_row_def add.assoc)
  next
    fix res assume "yields (copied ?R (tile_row rc) h) res"
    then show "yields (scattered rc fast slow h) res"
    proof (rule yields_mono)
      fix h' assume c: "copied ?R (tile_row rc) h h'"
      have "h' (slow + tensor_pos rc n r + i) = h (fast + tile_pos rc n r + i)"
        if "n < rc_n rc" "r < tile_h rc" "i < tile_row rc" for n r i
        by (rule copied_src [OF c]) (use that in auto)
      moreover have "h' a = h a" if "\<forall>n < rc_n rc. \<forall>r < tile_h rc.
          a < slow + tensor_pos rc n r \<or> slow + tensor_pos rc n r + tile_row rc \<le> a" for a
        by (rule copied_frame [OF c]) (use that in auto)
      ultimately show "scattered rc fast slow h h'" by (simp add: scattered_def)
    qed
  qed
qed

section \<open>The words of the geometry\<close>

text \<open>A tensor with positive extents whose byte size is its element count times the element size,
  with fewer than \<open>2 ^ 31\<close> elements.\<close>

definition tensor_geom :: "tigris_tensor \<Rightarrow> int \<Rightarrow> int \<Rightarrow> int \<Rightarrow> int \<Rightarrow> nat \<Rightarrow> bool" where
  "tensor_geom t n h w c e = (0 < n \<and> 0 < h \<and> 0 < w \<and> 0 < c \<and> 0 < e \<and>
     n * h * w * c < 2147483648 \<and> int (unat (tn_size_bytes t)) = n * h * w * c * int e)"

definition rect_of :: "int \<Rightarrow> int \<Rightarrow> int \<Rightarrow> int \<Rightarrow> nat \<Rightarrow> int \<Rightarrow> int \<Rightarrow> int \<Rightarrow> int \<Rightarrow> rect" where
  "rect_of n h w c e h0 h1 w0 w1 = \<lparr> rc_n = nat n, rc_h = nat h, rc_w = nat w, rc_px = nat c * e,
     rc_h0 = nat h0, rc_h1 = nat h1, rc_w0 = nat w0, rc_w1 = nat w1 \<rparr>"

definition range_ok :: "int \<Rightarrow> int \<Rightarrow> int \<Rightarrow> bool" where
  "range_ok lo hi len = (0 \<le> lo \<and> lo < hi \<and> hi \<le> len)"

lemma elem_size_of_geom:
  assumes "tensor_geom t n h w c e"
  shows "elem_size_of t n h w c = Some (word_of_nat e)"
proof -
  let ?p = "n * h * w * c"
  have pos: "0 < n" "0 < h" "0 < w" "0 < c" "0 < e" and lim: "?p < 2147483648"
    and sz: "int (unat (tn_size_bytes t)) = ?p * int e"
    using assms by (simp_all add: tensor_geom_def)
  have "0 < n * h" "0 < n * h * w" "0 < ?p" using pos by simp_all
  moreover have le: "a \<le> a * b" if "0 < a" "0 < b" for a b :: int
    using mult_left_mono [of 1 b a] that by simp
  have "n * h * w \<le> ?p" "n * h \<le> n * h * w"
    using le [OF \<open>0 < n * h * w\<close> pos(4)] le [OF \<open>0 < n * h\<close> pos(3)] by simp_all
  ultimately have r: "i32 (n * h) = Some (n * h)" "i32 (n * h * w) = Some (n * h * w)"
    "i32 ?p = Some ?p" using lim by (simp_all add: i32_def)
  have up: "unat (word_of_int ?p :: u32) = nat ?p"
    using \<open>0 < ?p\<close> lim by (intro unat_of_int_u32) linarith+
  have nz: "(word_of_int ?p :: u32) \<noteq> 0"
    using up \<open>0 < ?p\<close> by (metis nat_0_iff not_le unsigned_0)
  have size: "unat (tn_size_bytes t) = nat ?p * e"
    using sz pos by (metis \<open>0 < ?p\<close> int_nat_eq less_imp_le of_nat_eq_iff of_nat_mult)
  have "unat (tn_size_bytes t div word_of_int ?p) = nat ?p * e div nat ?p"
    unfolding unat_div up size ..
  also have "\<dots> = e" using \<open>0 < ?p\<close> by (simp del: nat_mult_distrib)
  finally have "unat (tn_size_bytes t div word_of_int ?p) = e" .
  then have "tn_size_bytes t div word_of_int ?p = word_of_nat e" by (metis of_nat_unat ucast_id)
  then show ?thesis using nz by (simp add: elem_size_of_def r udiv32_def del: of_int_mult)
qed

text \<open>The geometry of a tensor as naturals.\<close>

lemma geom_nats:
  assumes "tensor_geom t n h w c e"
  obtains N H W C where "n = int N" "h = int H" "w = int W" "c = int C"
    "0 < N" "0 < H" "0 < W" "0 < C" "unat (tn_size_bytes t) = N * H * W * C * e"
proof -
  have pos: "0 < n" "0 < h" "0 < w" "0 < c" using assms by (simp_all add: tensor_geom_def)
  then obtain N H W C where eq: "n = int N" "h = int H" "w = int W" "c = int C"
    by (metis less_imp_le nonneg_int_cases)
  have "int (unat (tn_size_bytes t)) = int (N * H * W * C * e)"
    using assms by (simp add: tensor_geom_def eq)
  then have "unat (tn_size_bytes t) = N * H * W * C * e" by (simp only: of_nat_eq_iff)
  then show thesis using that eq pos by simp
qed

lemma tensor_bytes_rect_of:
  assumes "tensor_geom t n h w c e"
  shows "tensor_bytes (rect_of n h w c e h0 h1 w0 w1) = unat (tn_size_bytes t)"
  by (rule geom_nats [OF assms])
    (simp add: tensor_bytes_def full_row_def rect_of_def mult.assoc)

lemma word_of_int_nonneg: "0 \<le> v \<Longrightarrow> (word_of_int v :: u32) = word_of_nat (nat v)"
  by (metis of_int_of_nat_eq int_nat_eq)

lemma geom_words:
  assumes "tensor_geom t n h w c e" "range_ok h0 h1 h" "range_ok w0 w1 w"
  defines "rc \<equiv> rect_of n h w c e h0 h1 w0 w1"
  shows "word_of_int w * word_of_int c * word_of_nat e = (word_of_nat (full_row rc) :: u32)"
    and "word_of_int (w1 - w0) * word_of_int c * word_of_nat e = (word_of_nat (tile_row rc) :: u32)"
    and "word_of_int w0 * word_of_int c * word_of_nat e = (word_of_nat (rc_w0 rc * rc_px rc) :: u32)"
    and "word_of_int (h1 - h0) = (word_of_nat (tile_h rc) :: u32)"
    and "word_of_int h = (word_of_nat (rc_h rc) :: u32)"
    and "word_of_int h0 = (word_of_nat (rc_h0 rc) :: u32)"
    and "word_of_int n = (word_of_nat (rc_n rc) :: u32)"
proof -
  obtain N H W C where g: "n = int N" "h = int H" "w = int W" "c = int C"
    by (rule geom_nats [OF assms(1)])
  have "0 \<le> h0" "0 \<le> h1" "0 \<le> w0" "0 \<le> w1" using assms(2,3) by (simp_all add: range_ok_def)
  then obtain a b p q where r: "h0 = int a" "h1 = int b" "w0 = int p" "w1 = int q"
    by (metis nonneg_int_cases)
  have "a \<le> b" "p \<le> q" using assms(2,3) by (simp_all add: range_ok_def r)
  then have d: "h1 - h0 = int (b - a)" "w1 - w0 = int (q - p)" by (simp_all add: r of_nat_diff)
  show "word_of_int w * word_of_int c * word_of_nat e = (word_of_nat (full_row rc) :: u32)"
    "word_of_int (w1 - w0) * word_of_int c * word_of_nat e = (word_of_nat (tile_row rc) :: u32)"
    "word_of_int w0 * word_of_int c * word_of_nat e = (word_of_nat (rc_w0 rc * rc_px rc) :: u32)"
    "word_of_int (h1 - h0) = (word_of_nat (tile_h rc) :: u32)"
    "word_of_int h = (word_of_nat (rc_h rc) :: u32)"
    "word_of_int h0 = (word_of_nat (rc_h0 rc) :: u32)"
    "word_of_int n = (word_of_nat (rc_n rc) :: u32)"
    unfolding d rc_def rect_of_def full_row_def tile_row_def tile_h_def
    by (simp_all only: g r rect.simps nat_int of_nat_mult of_int_of_nat_eq mult.assoc)
qed

lemma rect_of_ok:
  assumes "tensor_geom t n h w c e" "range_ok h0 h1 h" "range_ok w0 w1 w"
  defines "rc \<equiv> rect_of n h w c e h0 h1 w0 w1"
  shows "rect_ok rc" "0 < tile_h rc" "0 < tile_row rc" "rc_n rc = nat n" "tile_h rc = nat (h1 - h0)"
    "int (rc_h0 rc) = h0"
  using assms(1,2,3)
  by (auto simp: tensor_geom_def range_ok_def rect_ok_def rc_def rect_of_def tile_h_def tile_row_def
      nat_diff_distrib)

section \<open>What each transfer does\<close>

text \<open>The state before a load: the tensor is in the slow pool.\<close>

definition in_slow :: "mem \<Rightarrow> tigris_plan \<Rightarrow> u16 \<Rightarrow> tigris_tensor \<Rightarrow> bool" where
  "in_slow m pl t tn = (mem_wf m \<and> pools_disjoint m \<and> tensor_set m t \<and>
     plan_tensor pl (unat t) = Some tn \<and>
     block_in Slow m (tensor_ptrs m ! unat t) (unat (tn_size_bytes tn)))"

text \<open>What a load of the rectangle leaves: the packed tile on top of the fast pool, and nothing
  else moved or changed.\<close>

definition tile_loaded :: "rect \<Rightarrow> mem \<Rightarrow> u16 \<Rightarrow> ram \<Rightarrow> ram \<times> mem \<Rightarrow> bool" where
  "tile_loaded rc m t h r = (case r of (h', m') \<Rightarrow>
     mem_wf m' \<and> pools_disjoint m' \<and>
     tensor_ptrs m' = (tensor_ptrs m)[unat t := pool_top Fast m] \<and> num_tensors m' = num_tensors m \<and>
     block_in Fast m' (pool_top Fast m) (tile_bytes rc) \<and> pool_top Slow m' = pool_top Slow m \<and>
     (\<forall>q. pool_base q m' = pool_base q m) \<and>
     gathered rc (pool_top Fast m) (tensor_ptrs m ! unat t) h h')"

lemma pools_disjoint_count [simp]:
  "pools_disjoint (count_load k m) = pools_disjoint m"
  "pools_disjoint (count_spill k m) = pools_disjoint m"
  "pools_disjoint (m\<lparr>tensor_ptrs := ps\<rparr>) = pools_disjoint m"
  by (simp_all add: pools_disjoint_def count_load_def count_spill_def pool_limit_def pool_base_def
      pool_size_def)

lemma load_with_copy:
  assumes st: "in_slow m pl t tn" and rc: "rect_ok rc" "0 < tile_h rc" "0 < tile_row rc"
    and bytes: "tensor_bytes rc = unat (tn_size_bytes tn)"
    and sz: "sz = word_of_nat (tile_bytes rc)"
    and copy: "\<And>fast slow. transfer_ok rc fast slow \<Longrightarrow> wp (transfer fast slow h) (yields (gathered rc fast slow h))"
  shows "wp (andthen (tigris_mem_alloc_fast (Some m) t sz) (\<lambda>m'. do {
       fast_ptr \<leftarrow> arr_get (tensor_ptrs m') (unat t);
       andthen (transfer fast_ptr (tensor_ptrs m ! unat t) h) (\<lambda>h'. Some (Inr (h', count_load sz m'))) }))
     (exactly MEM_ERR_OOM (has_room Fast m (tile_bytes rc)) (tile_loaded rc m t h))"
proof -
  have wf: "mem_wf m" and t: "t < num_tensors m" and disj: "pools_disjoint m"
    and blk: "block_in Slow m (tensor_ptrs m ! unat t) (tensor_bytes rc)"
    using st by (simp_all add: in_slow_def tensor_set_def bytes)
  have i: "unat t < length (tensor_ptrs m)" using wf t by (auto simp: mem_wf_def word_less_nat_alt)
  have lim: "tensor_bytes rc < 4294967296" using unat_u32_less [of "tn_size_bytes tn"] bytes by simp
  then have usz: "unat sz = tile_bytes rc"
    using tile_le_tensor [OF rc(1)] by (simp add: sz unat_of_nat_u32)
  have base: "pool_base Fast m \<noteq> 0" using wf by (simp add: mem_wf_def pool_base_def)
  show ?thesis
    unfolding tigris_mem_alloc_fast_def option.case
  proof (rule wp_andthen_exactly [OF alloc_bump_exactly [OF wf t base, of sz, unfolded usz]])
    fix m' assume room: "has_room Fast m (tile_bytes rc)" and c: "mem_wf m' \<and>
     tensor_ptrs m' = (tensor_ptrs m)[unat t := pool_top Fast m] \<and>
     num_tensors m' = num_tensors m \<and>
     pool_top Fast m' = pool_top Fast m + round_up (tile_bytes rc) \<and>
     pool_limit Fast m' = pool_limit Fast m \<and>
     (\<forall>q. pool_base q m' = pool_base q m) \<and>
     (\<forall>q. q \<noteq> Fast \<longrightarrow> pool_top q m' = pool_top q m \<and> pool_limit q m' = pool_limit q m)"
    note ge = round_up_ge [of "tile_bytes rc"]
    have bases: "pool_base p m \<le> pool_top p m" for p by (simp add: pool_top_def)
    have tok: "transfer_ok rc (pool_top Fast m) (tensor_ptrs m ! unat t)"
      using rc lim room blk disj ge top_le_limit [OF wf, of Slow] bases [of Fast]
      by (auto simp: transfer_ok_def has_room_def block_in_def pools_disjoint_def pool_base_def)
    have d': "pools_disjoint m'"
      using disj c by (simp add: pools_disjoint_def pool_base_def)
        (metis (full_types) pool.distinct(1) pool.simps(3,4) pool_base_def)
    have get: "arr_get (tensor_ptrs m') (unat t) = Some (pool_top Fast m)" using c i by simp
    show "wp (do {
       fast_ptr \<leftarrow> arr_get (tensor_ptrs m') (unat t);
       andthen (transfer fast_ptr (tensor_ptrs m ! unat t) h) (\<lambda>h'. Some (Inr (h', count_load sz m'))) })
     (exactly MEM_ERR_OOM (has_room Fast m (tile_bytes rc)) (tile_loaded rc m t h))"
      unfolding get Option.bind.simps
      by (rule wp_andthen_yields [OF copy [OF tok]])
        (use c d' ge room bases in \<open>auto simp: tile_loaded_def block_in_def\<close>)
  qed
qed

lemma word_le_4: "\<not> (x < 2 \<or> 4 < (x :: u8)) \<Longrightarrow> 2 \<le> x \<and> x \<le> 4"
  by auto

lemma wp_load_tile:
  assumes st: "in_slow m pl t tn" and nd: "2 \<le> tn_ndim tn" "tn_ndim tn \<le> 4"
    and dims: "row_dims pl tn = Some (n, hh, w, c)" and geom: "tensor_geom tn n hh w c e"
    and band: "range_ok h0 h1 hh"
  defines "rc \<equiv> rect_of n hh w c e h0 h1 0 w"
  shows "wp (tigris_mem_load_tile (Some m) (Some pl) t h0 h1 h)
    (exactly MEM_ERR_OOM (has_room Fast m (tile_bytes rc)) (tile_loaded rc m t h))"
proof -
  have ww: "range_ok 0 w w" using geom by (simp add: range_ok_def tensor_geom_def)
  note rc = rect_of_ok [OF geom band ww, folded rc_def]
  note words = geom_words [OF geom band ww, folded rc_def]
  have fw: "full_width rc" by (simp add: full_width_def rc_def rect_of_def)
  have g: "plan_tensor pl (unat t) = Some tn" "tensor_ptrs m ! unat t \<noteq> 0" "t < num_tensors m"
    "unat t < length (tensor_ptrs m)"
    using st by (auto simp: in_slow_def tensor_set_def mem_wf_def word_less_nat_alt)
  have guard: "\<not> (h0 < 0 \<or> h1 \<le> h0 \<or> hh < h1)" using band by (auto simp: range_ok_def)
  have sz: "word_of_int n * (word_of_int (h1 - h0) * word_of_nat (full_row rc))
      = (word_of_nat (tile_bytes rc) :: u32)"
    unfolding words of_nat_mult [symmetric]
    by (simp only: tile_bytes_def full_width_row [OF fw] mult.assoc)
  let ?transfer = "\<lambda>fast slow. for_range 0 (nat n) (load_tile_step fast slow
        (word_of_int (h1 - h0) * word_of_nat (full_row rc)) (word_of_int hh * word_of_nat (full_row rc))
        (word_of_int h0 * word_of_nat (full_row rc)))"
  have transfer: "wp (?transfer fast slow h) (yields (gathered rc fast slow h))" if "transfer_ok rc fast slow" for fast slow
    using wp_load_bands [OF that fw, of h] unfolding words of_nat_mult rc(4) .
  note bytes = tensor_bytes_rect_of [OF geom, of h0 h1 0 w, folded rc_def]
  show ?thesis
    using load_with_copy [OF st rc(1-3) bytes sz, where h = h and transfer = ?transfer, OF transfer] nd guard g
    by (simp add: tigris_mem_load_tile_def dims elem_size_of_geom [OF geom] words(1) Let_def not_less
        not_le wp_arr_get)
qed

lemma wp_load_tile_2d:
  assumes st: "in_slow m pl t tn" and nd: "tn_ndim tn = 3 \<or> tn_ndim tn = 4"
    and dims: "rect_dims pl tn = Some (n, hh, w, c)" and geom: "tensor_geom tn n hh w c e"
    and rows: "range_ok h0 h1 hh" and cols: "range_ok w0 w1 w"
  defines "rc \<equiv> rect_of n hh w c e h0 h1 w0 w1"
  shows "wp (tigris_mem_load_tile_2d (Some m) (Some pl) t h0 h1 w0 w1 h)
    (exactly MEM_ERR_OOM (has_room Fast m (tile_bytes rc)) (tile_loaded rc m t h))"
proof -
  note rc = rect_of_ok [OF geom rows cols, folded rc_def]
  note words = geom_words [OF geom rows cols, folded rc_def]
  have g: "plan_tensor pl (unat t) = Some tn" "tensor_ptrs m ! unat t \<noteq> 0" "t < num_tensors m"
    "unat t < length (tensor_ptrs m)"
    using st by (auto simp: in_slow_def tensor_set_def mem_wf_def word_less_nat_alt)
  have guard: "\<not> (h0 < 0 \<or> h1 \<le> h0 \<or> hh < h1 \<or> w0 < 0 \<or> w1 \<le> w0 \<or> w < w1)"
    using rows cols by (auto simp: range_ok_def)
  have sz: "word_of_int n * (word_of_int (h1 - h0) * word_of_nat (tile_row rc))
      = (word_of_nat (tile_bytes rc) :: u32)"
    unfolding words of_nat_mult [symmetric] by (simp only: tile_bytes_def mult.assoc)
  let ?transfer = "\<lambda>fast slow. for_range 0 (nat n) (\<lambda>n. for_range 0 (nat (h1 - h0))
       (load_2d_row fast slow (word_of_int (h1 - h0) * word_of_nat (tile_row rc))
         (word_of_nat (tile_row rc)) (word_of_int hh * word_of_nat (full_row rc))
         (word_of_nat (full_row rc)) (word_of_nat (rc_w0 rc * rc_px rc)) h0 n))"
  have transfer: "wp (?transfer fast slow h) (yields (gathered rc fast slow h))" if "transfer_ok rc fast slow" for fast slow
    using wp_load_rect [OF that, of h] unfolding words of_nat_mult rc(4-6) .
  note bytes = tensor_bytes_rect_of [OF geom, of h0 h1 w0 w1, folded rc_def]
  have nd': "\<not> (tn_ndim tn \<noteq> 3 \<and> tn_ndim tn \<noteq> 4)" using nd by simp
  show ?thesis
    using load_with_copy [OF st rc(1-3) bytes sz, where h = h and transfer = ?transfer, OF transfer] nd' guard g
    by (simp add: tigris_mem_load_tile_2d_def dims elem_size_of_geom [OF geom] words(1,2,3) Let_def
        not_less not_le wp_arr_get del: of_int_diff)
qed

text \<open>A spill starts with the tile at the tensor's pointer and the tensor's slow copy elsewhere in
  memory, and cannot fail.\<close>

definition tile_ready :: "rect \<Rightarrow> mem \<Rightarrow> tigris_plan \<Rightarrow> u16 \<Rightarrow> tigris_tensor \<Rightarrow> nat \<Rightarrow> bool" where
  "tile_ready rc m pl t tn sbase = (mem_wf m \<and> tensor_set m t \<and> sbase \<noteq> 0 \<and>
     plan_tensor pl (unat t) = Some tn \<and>
     (tensor_ptrs m ! unat t + tile_bytes rc \<le> sbase \<or>
      sbase + unat (tn_size_bytes tn) \<le> tensor_ptrs m ! unat t))"

definition tile_spilled :: "rect \<Rightarrow> mem \<Rightarrow> u16 \<Rightarrow> nat \<Rightarrow> ram \<Rightarrow> ram \<times> mem \<Rightarrow> bool" where
  "tile_spilled rc m t sbase h r = (case r of (h', m') \<Rightarrow>
     scattered rc (tensor_ptrs m ! unat t) sbase h h' \<and>
     m' = count_spill (word_of_nat (tile_bytes rc)) (m\<lparr>tensor_ptrs := (tensor_ptrs m)[unat t := sbase]\<rparr>))"

lemma spill_with_copy:
  assumes st: "tile_ready rc m pl t tn sbase" and rc: "rect_ok rc" "0 < tile_h rc" "0 < tile_row rc"
    and bytes: "tensor_bytes rc = unat (tn_size_bytes tn)"
    and sz: "sz = word_of_nat (tile_bytes rc)"
    and copy: "transfer_ok rc (tensor_ptrs m ! unat t) sbase \<Longrightarrow>
      wp transfer (yields (scattered rc (tensor_ptrs m ! unat t) sbase h))"
  shows "wp (andthen transfer (\<lambda>h'. do {
       ptrs \<leftarrow> arr_set (tensor_ptrs m) (unat t) sbase;
       Some (Inr (h', count_spill sz (m\<lparr>tensor_ptrs := ptrs\<rparr>))) }))
     (yields (tile_spilled rc m t sbase h))"
proof -
  have i: "unat t < length (tensor_ptrs m)"
    using st by (auto simp: tile_ready_def tensor_set_def mem_wf_def word_less_nat_alt)
  have "transfer_ok rc (tensor_ptrs m ! unat t) sbase"
    using st rc bytes unat_u32_less [of "tn_size_bytes tn"] by (simp add: transfer_ok_def tile_ready_def)
  then show ?thesis
    by (intro wp_andthen_yields [OF copy]) (use i in \<open>simp_all add: tile_spilled_def sz wp_rules\<close>)
qed

lemma wp_spill_tile:
  assumes nd: "2 \<le> tn_ndim tn" "tn_ndim tn \<le> 4"
    and dims: "row_dims pl tn = Some (n, hh, w, c)" and geom: "tensor_geom tn n hh w c e"
    and band: "range_ok h0 h1 hh"
  defines "rc \<equiv> rect_of n hh w c e h0 h1 0 w"
  assumes st: "tile_ready rc m pl t tn sbase"
  shows "wp (tigris_mem_spill_tile (Some m) (Some pl) t sbase h0 h1 h) (yields (tile_spilled rc m t sbase h))"
proof -
  have ww: "range_ok 0 w w" using geom by (simp add: range_ok_def tensor_geom_def)
  note rc = rect_of_ok [OF geom band ww, folded rc_def]
  note words = geom_words [OF geom band ww, folded rc_def]
  have fw: "full_width rc" by (simp add: full_width_def rc_def rect_of_def)
  have g: "plan_tensor pl (unat t) = Some tn" "tensor_ptrs m ! unat t \<noteq> 0" "t < num_tensors m"
    "unat t < length (tensor_ptrs m)" "sbase \<noteq> 0"
    using st by (auto simp: tile_ready_def tensor_set_def mem_wf_def word_less_nat_alt)
  have guard: "\<not> (h0 < 0 \<or> h1 \<le> h0 \<or> hh < h1)" using band by (auto simp: range_ok_def)
  have sz: "word_of_int n * (word_of_int (h1 - h0) * word_of_nat (full_row rc))
      = (word_of_nat (tile_bytes rc) :: u32)"
    unfolding words of_nat_mult [symmetric]
    by (simp only: tile_bytes_def full_width_row [OF fw] mult.assoc)
  let ?transfer = "for_range 0 (nat n) (spill_tile_step sbase (tensor_ptrs m ! unat t)
        (word_of_int (h1 - h0) * word_of_nat (full_row rc)) (word_of_int hh * word_of_nat (full_row rc))
        (word_of_int h0 * word_of_nat (full_row rc))) h"
  have transfer: "wp ?transfer (yields (scattered rc (tensor_ptrs m ! unat t) sbase h))"
    if "transfer_ok rc (tensor_ptrs m ! unat t) sbase"
    using wp_spill_bands [OF that fw, of h] unfolding words of_nat_mult rc(4) .
  note bytes = tensor_bytes_rect_of [OF geom, of h0 h1 0 w, folded rc_def]
  show ?thesis
    using spill_with_copy [OF st rc(1-3) bytes sz, where h = h and transfer = ?transfer, OF transfer] nd guard g
    by (simp add: tigris_mem_spill_tile_def dims elem_size_of_geom [OF geom] words(1) Let_def not_less
        not_le wp_arr_get)
qed

lemma wp_spill_tile_2d:
  assumes nd: "tn_ndim tn = 3 \<or> tn_ndim tn = 4"
    and dims: "rect_dims pl tn = Some (n, hh, w, c)" and geom: "tensor_geom tn n hh w c e"
    and rows: "range_ok h0 h1 hh" and cols: "range_ok w0 w1 w"
  defines "rc \<equiv> rect_of n hh w c e h0 h1 w0 w1"
  assumes st: "tile_ready rc m pl t tn sbase"
  shows "wp (tigris_mem_spill_tile_2d (Some m) (Some pl) t sbase h0 h1 w0 w1 h)
    (yields (tile_spilled rc m t sbase h))"
proof -
  note rc = rect_of_ok [OF geom rows cols, folded rc_def]
  note words = geom_words [OF geom rows cols, folded rc_def]
  have g: "plan_tensor pl (unat t) = Some tn" "tensor_ptrs m ! unat t \<noteq> 0" "t < num_tensors m"
    "unat t < length (tensor_ptrs m)" "sbase \<noteq> 0"
    using st by (auto simp: tile_ready_def tensor_set_def mem_wf_def word_less_nat_alt)
  have guard: "\<not> (h0 < 0 \<or> h1 \<le> h0 \<or> hh < h1 \<or> w0 < 0 \<or> w1 \<le> w0 \<or> w < w1)"
    using rows cols by (auto simp: range_ok_def)
  have sz: "word_of_int n * (word_of_int (h1 - h0) * word_of_nat (tile_row rc))
      = (word_of_nat (tile_bytes rc) :: u32)"
    unfolding words of_nat_mult [symmetric] by (simp only: tile_bytes_def mult.assoc)
  let ?transfer = "for_range 0 (nat n) (\<lambda>n. for_range 0 (nat (h1 - h0))
       (spill_2d_row sbase (tensor_ptrs m ! unat t) (word_of_int (h1 - h0) * word_of_nat (tile_row rc))
         (word_of_nat (tile_row rc)) (word_of_int hh * word_of_nat (full_row rc))
         (word_of_nat (full_row rc)) (word_of_nat (rc_w0 rc * rc_px rc)) h0 n)) h"
  have transfer: "wp ?transfer (yields (scattered rc (tensor_ptrs m ! unat t) sbase h))"
    if "transfer_ok rc (tensor_ptrs m ! unat t) sbase"
    using wp_spill_rect [OF that, of h] unfolding words of_nat_mult rc(4-6) .
  note bytes = tensor_bytes_rect_of [OF geom, of h0 h1 w0 w1, folded rc_def]
  have nd': "\<not> (tn_ndim tn \<noteq> 3 \<and> tn_ndim tn \<noteq> 4)" using nd by simp
  show ?thesis
    using spill_with_copy [OF st rc(1-3) bytes sz, where h = h and transfer = ?transfer, OF transfer] nd' guard g
    by (simp add: tigris_mem_spill_tile_2d_def dims elem_size_of_geom [OF geom] words(1,2,3) Let_def
        not_less not_le wp_arr_get del: of_int_diff)
qed

text \<open>Loading and spilling the same rectangle restores the tensor: outside the fast copy, memory is
  what it was.\<close>

lemma gather_scatter:
  assumes g: "gathered rc fast slow h h1" and s: "scattered rc fast slow h1 h2"
    and a: "a < fast \<or> fast + tile_bytes rc \<le> a"
  shows "h2 a = h a"
proof (cases "\<forall>n < rc_n rc. \<forall>r < tile_h rc.
    a < slow + tensor_pos rc n r \<or> slow + tensor_pos rc n r + tile_row rc \<le> a")
  case True
  then have "h2 a = h1 a" using s unfolding scattered_def by blast
  also have "\<dots> = h a" using g a unfolding gathered_def by blast
  finally show ?thesis .
next
  case False
  then obtain n r where n: "n < rc_n rc" "r < tile_h rc"
    and le: "slow + tensor_pos rc n r \<le> a" "a < slow + tensor_pos rc n r + tile_row rc"
    by (auto simp: not_less not_le)
  define i where "i = a - (slow + tensor_pos rc n r)"
  have i: "a = slow + tensor_pos rc n r + i" "i < tile_row rc" using le by (simp_all add: i_def)
  have "h2 a = h1 (fast + tile_pos rc n r + i)" using s n i unfolding scattered_def by blast
  also have "\<dots> = h a" using g n i unfolding gathered_def by blast
  finally show ?thesis .
qed

section \<open>Properties\<close>

text \<open>Loading a band of rows. A range outside the tensor is refused before any byte moves.
  Otherwise the load succeeds exactly when the packed tile fits the fast arena; then the tile is a
  new block of the arena holding, for every batch and row of the range, the bytes of that row of
  the slow tensor, and no other byte of memory, pool or tensor pointer changed. No access leaves
  the two buffers.\<close>

lemma load_tile_exact:
  assumes "in_slow m pl t tn" and "2 \<le> tn_ndim tn" "tn_ndim tn \<le> 4"
    and "row_dims pl tn = Some (n, hh, w, c)" and "tensor_geom tn n hh w c e"
  shows "if range_ok h0 h1 hh
    then wp (tigris_mem_load_tile (Some m) (Some pl) t h0 h1 h)
           (exactly MEM_ERR_OOM (has_room Fast m (tile_bytes (rect_of n hh w c e h0 h1 0 w)))
              (tile_loaded (rect_of n hh w c e h0 h1 0 w) m t h))
    else tigris_mem_load_tile (Some m) (Some pl) t h0 h1 h = Some (Inl MEM_ERR_BAD_INDEX)"
proof (cases "range_ok h0 h1 hh")
  case True
  then show ?thesis using wp_load_tile [OF assms] by simp
next
  case False
  then show ?thesis
    using assms(1-4)
    by (auto simp: tigris_mem_load_tile_def in_slow_def tensor_set_def range_ok_def not_less not_le)
qed

text \<open>C17. Loading a rectangle: as for rows, with both ranges checked, the tile packed without gaps
  and every row of it read from its columns of the slow tensor.\<close>

theorem load_tile_2d_exact:
  assumes "in_slow m pl t tn" and "tn_ndim tn = 3 \<or> tn_ndim tn = 4"
    and "rect_dims pl tn = Some (n, hh, w, c)" and "tensor_geom tn n hh w c e"
  shows "if range_ok h0 h1 hh \<and> range_ok w0 w1 w
    then wp (tigris_mem_load_tile_2d (Some m) (Some pl) t h0 h1 w0 w1 h)
           (exactly MEM_ERR_OOM (has_room Fast m (tile_bytes (rect_of n hh w c e h0 h1 w0 w1)))
              (tile_loaded (rect_of n hh w c e h0 h1 w0 w1) m t h))
    else tigris_mem_load_tile_2d (Some m) (Some pl) t h0 h1 w0 w1 h = Some (Inl MEM_ERR_BAD_INDEX)"
proof (cases "range_ok h0 h1 hh \<and> range_ok w0 w1 w")
  case True
  then show ?thesis using wp_load_tile_2d [OF assms] by simp
next
  case False
  then show ?thesis
    using assms(1-3)
    by (auto simp: tigris_mem_load_tile_2d_def in_slow_def tensor_set_def range_ok_def not_less not_le)
qed

text \<open>C23. Spilling a band of rows of a tile cannot fail inside the tensor: every row goes to its
  place in the slow tensor, no other byte of memory changes, and the tensor's pointer is the slow
  base again. A range outside the tensor is refused before any byte moves.\<close>

theorem spill_tile_exact:
  assumes "2 \<le> tn_ndim tn" "tn_ndim tn \<le> 4"
    and "row_dims pl tn = Some (n, hh, w, c)" and "tensor_geom tn n hh w c e"
    and st: "tile_ready (rect_of n hh w c e h0 h1 0 w) m pl t tn sbase"
  shows "if range_ok h0 h1 hh
    then wp (tigris_mem_spill_tile (Some m) (Some pl) t sbase h0 h1 h)
           (yields (tile_spilled (rect_of n hh w c e h0 h1 0 w) m t sbase h))
    else tigris_mem_spill_tile (Some m) (Some pl) t sbase h0 h1 h = Some (Inl MEM_ERR_BAD_INDEX)"
proof (cases "range_ok h0 h1 hh")
  case True
  then show ?thesis using wp_spill_tile [OF assms(1-4) True st] by simp
next
  case False
  then show ?thesis
    using assms(1-3) st
    by (auto simp: tigris_mem_spill_tile_def tile_ready_def tensor_set_def range_ok_def not_less not_le)
qed

text \<open>Loading a rectangle, changing nothing, and spilling it to where it came from succeeds
  exactly when the tile fits, leaves every byte outside the tile itself as it was, and restores
  the tensor's pointer.\<close>

lemma tile_2d_roundtrip:
  assumes st: "in_slow m pl t tn" and nd: "tn_ndim tn = 3 \<or> tn_ndim tn = 4"
    and dims: "rect_dims pl tn = Some (n, hh, w, c)" and geom: "tensor_geom tn n hh w c e"
    and rows: "range_ok h0 h1 hh" and cols: "range_ok w0 w1 w"
  shows "wp (andthen (tigris_mem_load_tile_2d (Some m) (Some pl) t h0 h1 w0 w1 h)
       (\<lambda>(h1', m1). tigris_mem_spill_tile_2d (Some m1) (Some pl) t (tensor_ptrs m ! unat t)
           h0 h1 w0 w1 h1'))
    (exactly MEM_ERR_OOM (has_room Fast m (tile_bytes (rect_of n hh w c e h0 h1 w0 w1)))
       (\<lambda>(h2, m2). tensor_ptrs m2 = tensor_ptrs m \<and>
          (\<forall>a. a < pool_top Fast m \<or>
               pool_top Fast m + tile_bytes (rect_of n hh w c e h0 h1 w0 w1) \<le> a \<longrightarrow> h2 a = h a)))"
proof (rule wp_andthen_exactly [OF wp_load_tile_2d [OF assms]])
  let ?rc = "rect_of n hh w c e h0 h1 w0 w1" and ?p = "tensor_ptrs m ! unat t"
  fix s1 assume "tile_loaded ?rc m t h s1"
  then obtain h1' m1 where s1: "s1 = (h1', m1)" and ld: "tile_loaded ?rc m t h (h1', m1)"
    by (cases s1) simp
  have i: "unat t < length (tensor_ptrs m)"
    using st by (auto simp: in_slow_def tensor_set_def mem_wf_def word_less_nat_alt)
  have ptr: "tensor_ptrs m1 ! unat t = pool_top Fast m" using ld i by (simp add: tile_loaded_def)
  assume room: "has_room Fast m (tile_bytes ?rc)"
  have apart: "pool_top Fast m + tile_bytes ?rc \<le> ?p \<or>
      ?p + unat (tn_size_bytes tn) \<le> pool_top Fast m"
    using st room round_up_ge [of "tile_bytes ?rc"] top_le_limit [of m Slow]
    by (auto simp: in_slow_def pools_disjoint_def block_in_def has_room_def pool_base_def pool_top_def)
  have top: "pool_top Fast m \<noteq> 0"
    using st by (simp add: in_slow_def mem_wf_def pool_top_def pool_base_def)
  have ready: "tile_ready ?rc m1 pl t tn ?p"
    using ld st ptr apart top
    by (auto simp: tile_ready_def tile_loaded_def in_slow_def tensor_set_def)
  show "wp (case s1 of (h1', m1) \<Rightarrow> tigris_mem_spill_tile_2d (Some m1) (Some pl) t ?p h0 h1 w0 w1 h1')
     (exactly MEM_ERR_OOM (has_room Fast m (tile_bytes ?rc))
       (\<lambda>(h2, m2). tensor_ptrs m2 = tensor_ptrs m \<and>
          (\<forall>a. a < pool_top Fast m \<or> pool_top Fast m + tile_bytes ?rc \<le> a \<longrightarrow> h2 a = h a)))"
    unfolding s1 prod.case
  proof (rule wp_mono [OF wp_spill_tile_2d [OF nd dims geom rows cols ready]])
    fix r :: "mem_error + ram \<times> mem" assume "yields (tile_spilled ?rc m1 t ?p h1') r"
    then obtain h2 m2 where r: "r = Inr (h2, m2)" and sp: "tile_spilled ?rc m1 t ?p h1' (h2, m2)"
      by (cases r) auto
    have "h2 a = h a" if "a < pool_top Fast m \<or> pool_top Fast m + tile_bytes ?rc \<le> a" for a
      by (rule gather_scatter [OF _ _ that, of ?p h h1'])
        (use ld sp ptr in \<open>simp_all add: tile_loaded_def tile_spilled_def\<close>)
    moreover have "tensor_ptrs m2 = tensor_ptrs m"
      using sp ld i by (simp add: tile_spilled_def tile_loaded_def)
    ultimately show "exactly MEM_ERR_OOM (has_room Fast m (tile_bytes ?rc))
       (\<lambda>(h2, m2). tensor_ptrs m2 = tensor_ptrs m \<and>
          (\<forall>a. a < pool_top Fast m \<or> pool_top Fast m + tile_bytes ?rc \<le> a \<longrightarrow> h2 a = h a)) r"
      using room by (simp add: r)
  qed
qed

text \<open>A plan with one \<open>[1, 4, 3, 2]\<close> float tensor, loaded from and spilled to slow memory.\<close>

definition demo_tensor :: tigris_tensor where
  "demo_tensor = \<lparr> tn_name_str = 0, tn_size_bytes = 96, tn_shape_off = 0, tn_ndim = 4, tn_dtype = 1,
     tn_flags = 0, tn_quant_param_idx = NONE_U16, tn_iface_dtype = 0 \<rparr>"

definition demo_shape :: bytes where
  "demo_shape = [1, 0, 0, 0, 4, 0, 0, 0, 3, 0, 0, 0, 2, 0, 0, 0]"

definition demo_tile_plan :: tigris_plan where
  "demo_tile_plan = (empty_plan (wr_tigris_tensor demo_tensor @ demo_shape))
     \<lparr> p_tensors := Some 0, p_shape_pool := Some 16 \<rparr>"

definition demo_tile_mem :: mem where
  "demo_tile_mem = \<lparr> tensor_ptrs = [8192], num_tensors = 1, fast_base = 4096, fast_size = 256,
     fast_used = 0, fast_reserved = 0, fast_peak = 0, slow_base = 8192, slow_size = 512,
     slow_used = 96, slow_peak = 96, stats = None, tile = tile_ctx_zero \<rparr>"

lemma demo_plan_tensor: "plan_tensor demo_tile_plan 0 = Some demo_tensor"
  using tigris_tensor_table.rd_wr_record [where xs = "[]" and r = demo_tensor and ys = demo_shape]
  by (simp add: plan_tensor_def demo_tile_plan_def empty_plan_def)

lemma demo_shape_words:
  "rdi32 demo_shape 0 = Some 1" "rdi32 demo_shape 4 = Some 4" "rdi32 demo_shape 8 = Some 3"
  "rdi32 demo_shape 12 = Some 2"
  by (simp_all add: demo_shape_def rdi32_def rd32_def rd16_def rd8_def arr_get_def)

lemma demo_shape_at:
  "tigris_tensor_shape demo_tile_plan demo_tensor k = rdi32 demo_shape (k * 4)"
  using rdi32_append [of "wr_tigris_tensor demo_tensor" "16 + k * 4" demo_shape]
    tigris_tensor_table.length_wr_record [of demo_tensor]
  by (simp add: tigris_tensor_shape_def plan_shape_def demo_tile_plan_def empty_plan_def demo_tensor_def)

lemma demo_tile_facts:
  "in_slow demo_tile_mem demo_tile_plan 0 demo_tensor"
  "row_dims demo_tile_plan demo_tensor = Some (1, 4, 3, 2)"
  "rect_dims demo_tile_plan demo_tensor = Some (1, 4, 3, 2)"
  "tensor_geom demo_tensor 1 4 3 2 4" "tn_ndim demo_tensor = 4"
proof -
  show nd: "tn_ndim demo_tensor = 4" by (simp add: demo_tensor_def)
  show "row_dims demo_tile_plan demo_tensor = Some (1, 4, 3, 2)"
    "rect_dims demo_tile_plan demo_tensor = Some (1, 4, 3, 2)"
    by (simp_all add: row_dims_def rect_dims_def nd demo_shape_at demo_shape_words)
  show "tensor_geom demo_tensor 1 4 3 2 4" by (simp add: tensor_geom_def demo_tensor_def)
  show "in_slow demo_tile_mem demo_tile_plan 0 demo_tensor"
    by (simp add: in_slow_def demo_plan_tensor demo_tensor_def demo_tile_mem_def mem_wf_def
        pool_wf_def pool_simps pools_disjoint_def tensor_set_def block_in_def)
qed

lemma demo_room:
  "pool_top Fast demo_tile_mem = 4096" "pool_limit Fast demo_tile_mem = 4352"
  "tensor_ptrs demo_tile_mem ! 0 = 8192"
  by (simp_all add: demo_tile_mem_def pool_simps)

text \<open>Rows 1 and 2: 48 bytes, which fit; row range 2 to 5 is refused.\<close>

lemma demo_tile_fits:
  "has_room Fast demo_tile_mem (tile_bytes (rect_of 1 4 3 2 4 1 3 0 3))"
  "has_room Fast demo_tile_mem (tile_bytes (rect_of 1 4 3 2 4 1 3 1 3))"
  by (simp_all add: has_room_def demo_room rect_of_def tile_bytes_def tile_h_def tile_row_def round_up_def)

lemma load_tile_2d_exact_witness:
  "wp (tigris_mem_load_tile_2d (Some demo_tile_mem) (Some demo_tile_plan) 0 1 3 1 3 demo_ram)
     (exactly MEM_ERR_OOM True (tile_loaded (rect_of 1 4 3 2 4 1 3 1 3) demo_tile_mem 0 demo_ram)) \<and>
   tigris_mem_load_tile_2d (Some demo_tile_mem) (Some demo_tile_plan) 0 1 3 1 4 demo_ram
     = Some (Inl MEM_ERR_BAD_INDEX)"
  using load_tile_2d_exact [OF demo_tile_facts(1) _ demo_tile_facts(3,4), of 1 3 1 3 demo_ram]
    load_tile_2d_exact [OF demo_tile_facts(1) _ demo_tile_facts(3,4), of 1 3 1 4 demo_ram]
  by (simp add: demo_tile_facts(5) range_ok_def demo_tile_fits)

text \<open>The same tensor with its tile at the start of the fast arena.\<close>

definition demo_spill_mem :: mem where
  "demo_spill_mem = demo_tile_mem\<lparr> tensor_ptrs := [4096], fast_used := 64, fast_peak := 64 \<rparr>"

lemma demo_tile_ready:
  "tile_ready (rect_of 1 4 3 2 4 1 3 0 3) demo_spill_mem demo_tile_plan 0 demo_tensor 8192"
  by (simp add: tile_ready_def demo_plan_tensor demo_spill_mem_def demo_tile_mem_def mem_wf_def
      pool_wf_def pool_simps tensor_set_def rect_of_def tile_bytes_def tile_h_def tile_row_def)

lemma spill_tile_exact_witness:
  "wp (tigris_mem_spill_tile (Some demo_spill_mem) (Some demo_tile_plan) 0 8192 1 3 demo_ram)
     (yields (tile_spilled (rect_of 1 4 3 2 4 1 3 0 3) demo_spill_mem 0 8192 demo_ram))"
  using spill_tile_exact [OF _ _ demo_tile_facts(2,4) demo_tile_ready, of demo_ram]
  by (simp add: demo_tile_facts(5) range_ok_def)

end
