(* ===== verification/Arena_Budget.thy ===== *)
theory Arena_Budget
  imports Arena Plan_Format
begin

text \<open>
  The fast-arena requirement of a plan (\<open>tigris_weight_decompression_overhead\<close> and
  \<open>tigris_fast_arena_required\<close> at the end of \<open>src/tigris_mem.c\<close>). An early \<open>return UINT32_MAX\<close>
  is the \<open>Inl\<close> of the loops.

  What is shown: the requirement is the exact maximum over single blocks and over chains of the
  aligned sizes that are resident together, saturated at \<open>UINT32_MAX\<close>.
\<close>

section \<open>The definitions\<close>

definition scan_block :: "tigris_plan \<Rightarrow> nat \<Rightarrow> u32 \<Rightarrow> (u32 + u32) option" where
  "scan_block pl i max_required = do {
     wb \<leftarrow> plan_weight_block pl i;
     if wb_compressed_size wb = 0 then ret max_required
     else (case align_up_u32 (wb_uncompressed_size wb) of
         None \<Rightarrow> fail U32_MAX
       | Some aligned \<Rightarrow> ret (if aligned > max_required then aligned else max_required)) }"

text \<open>The first compressed block of a stage, from index \<open>i\<close> on.\<close>

fun scan_stage_blocks :: "tigris_plan \<Rightarrow> nat \<Rightarrow> nat \<Rightarrow> nat \<Rightarrow> u32 \<Rightarrow> (u32 + u32) option" where
  "scan_stage_blocks pl stage_idx i 0 chain_required = ret chain_required"
| "scan_stage_blocks pl stage_idx i (Suc n) chain_required = do {
     wb \<leftarrow> plan_weight_block pl i;
     if unat (wb_stage_idx wb) \<noteq> stage_idx \<or> wb_compressed_size wb = 0
     then scan_stage_blocks pl stage_idx (Suc i) n chain_required
     else (case align_up_u32 (wb_uncompressed_size wb) of
         None \<Rightarrow> fail U32_MAX
       | Some aligned \<Rightarrow>
           let chain' = saturating_add_u32 chain_required aligned in
           if chain' = U32_MAX then fail U32_MAX else ret chain') }"

definition is_chain_head :: "u16 \<Rightarrow> nat \<Rightarrow> tigris_stage \<Rightarrow> bool" where
  "is_chain_head num_stages s stage =
     (\<not> (sg_chain_len stage < 2 \<or> unat (sg_chain_id stage) \<noteq> s \<or>
         int (unat (sg_chain_len stage)) > int (unat num_stages) - int s))"

definition scan_chain :: "tigris_plan \<Rightarrow> u16 \<Rightarrow> nat \<Rightarrow> u32 \<Rightarrow> (u32 + u32) option" where
  "scan_chain pl num_stages s max_required = do {
     stage \<leftarrow> plan_stage pl s;
     if \<not> is_chain_head num_stages s stage then ret max_required
     else andthen (for_range 0 (unat (sg_chain_len stage))
            (\<lambda>c. scan_stage_blocks pl (s + c) 0 (unat (p_num_weight_blocks pl))) 0)
       (\<lambda>chain_required. ret (if chain_required > max_required then chain_required else max_required)) }"

definition tigris_weight_decompression_overhead :: "tigris_plan option \<Rightarrow> u32 option" where
  "tigris_weight_decompression_overhead po = (case po of
     None \<Rightarrow> Some 0
   | Some pl \<Rightarrow>
     if p_weight_blocks pl = None \<or> p_num_weight_blocks pl = 0 then Some 0
     else map_option (case_sum id id)
       (andthen (for_range 0 (unat (p_num_weight_blocks pl)) (scan_block pl) 0) (\<lambda>max_required.
          case (p_header pl, p_stages pl) of
            (Some hdr, Some _) \<Rightarrow>
              for_range 0 (unat (hd_num_stages hdr)) (scan_chain pl (hd_num_stages hdr)) max_required
          | _ \<Rightarrow> ret max_required)))"

definition tigris_fast_arena_required :: "tigris_plan option \<Rightarrow> u32 option" where
  "tigris_fast_arena_required po = (case po of
     None \<Rightarrow> Some U32_MAX
   | Some pl \<Rightarrow> (case p_header pl of
       None \<Rightarrow> Some U32_MAX
     | Some hdr \<Rightarrow> do {
         overhead \<leftarrow> tigris_weight_decompression_overhead (Some pl);
         if overhead = U32_MAX then Some U32_MAX
         else Some (saturating_add_u32
           (if hd_version hdr \<ge> SCHEMA_VERSION_SCHEDULED_PEAK then p_scheduled_peak pl
            else hd_budget hdr) overhead) }))"

section \<open>The specification\<close>

text \<open>The aligned size of a compressed block, what a chain keeps resident, and the maximum.\<close>

definition block_need :: "weight_block \<Rightarrow> nat" where
  "block_need wb = (if wb_compressed_size wb = 0 then 0 else round_up (unat (wb_uncompressed_size wb)))"

fun stage_need :: "(nat \<Rightarrow> weight_block) \<Rightarrow> nat \<Rightarrow> nat \<Rightarrow> nat \<Rightarrow> nat" where
  "stage_need blk stage_idx i 0 = 0"
| "stage_need blk stage_idx i (Suc n) =
     (if unat (wb_stage_idx (blk i)) \<noteq> stage_idx \<or> wb_compressed_size (blk i) = 0
      then stage_need blk stage_idx (Suc i) n else block_need (blk i))"

definition chain_need :: "(nat \<Rightarrow> weight_block) \<Rightarrow> nat \<Rightarrow> u16 \<Rightarrow> nat \<Rightarrow> tigris_stage \<Rightarrow> nat" where
  "chain_need blk n num_stages s stage =
     (if is_chain_head num_stages s stage
      then \<Sum>c < unat (sg_chain_len stage). stage_need blk (s + c) 0 n else 0)"

definition max_below :: "(nat \<Rightarrow> nat) \<Rightarrow> nat \<Rightarrow> nat" where
  "max_below f n = Max (insert 0 (f ` {..<n}))"

lemma max_below_0 [simp]: "max_below f 0 = 0"
  by (simp add: max_below_def)

lemma max_below_Suc [simp]: "max_below f (Suc n) = max (f n) (max_below f n)"
proof -
  have "insert 0 (f ` {..<Suc n}) = insert (f n) (insert 0 (f ` {..<n}))"
    by (auto simp: lessThan_Suc)
  then show ?thesis by (simp add: max_below_def)
qed

lemma max_below_ge: "k < n \<Longrightarrow> f k \<le> max_below f n"
  by (simp add: max_below_def)

definition weight_need ::
  "(nat \<Rightarrow> weight_block) \<Rightarrow> nat \<Rightarrow> (nat \<Rightarrow> tigris_stage) \<Rightarrow> u16 \<Rightarrow> nat" where
  "weight_need blk n st num_stages =
     max (max_below (\<lambda>i. block_need (blk i)) n)
         (max_below (\<lambda>s. chain_need blk n num_stages s (st s)) (unat num_stages))"

lemma stage_need_dvd [simp]: "32 dvd stage_need blk k i n"
  by (induction blk k i n rule: stage_need.induct) (simp_all add: block_need_def)

lemma block_need_dvd [simp]: "32 dvd block_need wb"
  by (simp add: block_need_def)

section \<open>Exactness\<close>

text \<open>\<open>holds v x\<close>: the word is the exact value, which is below the saturated one; \<open>too_big\<close> is
  the early return.\<close>

definition holds :: "nat \<Rightarrow> u32 \<Rightarrow> bool" where
  "holds v x = (unat x = v \<and> v < 4294967295)"

definition too_big :: "nat \<Rightarrow> u32 \<Rightarrow> bool" where
  "too_big v x = (x = U32_MAX \<and> 4294967295 \<le> v)"

lemma aligned_not_max: "32 dvd (v :: nat) \<Longrightarrow> v \<noteq> 4294967295"
  by (rule notI) simp

lemma align_need:
  assumes "wb_compressed_size wb \<noteq> 0"
  shows "case align_up_u32 (wb_uncompressed_size wb) of
     None \<Rightarrow> 4294967295 \<le> block_need wb | Some a \<Rightarrow> holds (block_need wb) a"
proof (cases "align_up_u32 (wb_uncompressed_size wb)")
  case None
  then have "4294967264 < unat (wb_uncompressed_size wb)" by (simp add: align_up_u32_None)
  then have "134217728 * 32 \<le> round_up (unat (wb_uncompressed_size wb))"
    unfolding round_up_def by (intro mult_le_mono1) linarith
  then show ?thesis using None assms by (simp add: block_need_def)
next
  case (Some a)
  then have a: "unat a = block_need wb" using assms by (simp add: align_up_u32_Some block_need_def)
  have "unat a \<noteq> 4294967295" unfolding a by (rule aligned_not_max) simp
  then show ?thesis using Some a unat_u32_less [of a] by (simp add: holds_def)
qed

lemma wp_scan_block:
  assumes b: "plan_weight_block pl i = Some wb" and v: "holds v x"
  shows "wp (scan_block pl i x) (case_sum (too_big (block_need wb)) (holds (max (block_need wb) v)))"
proof (cases "wb_compressed_size wb = 0")
  case True
  then have "block_need wb = 0" by (simp add: block_need_def)
  then show ?thesis using True v by (simp add: scan_block_def b)
next
  case False
  show ?thesis
  proof (cases "align_up_u32 (wb_uncompressed_size wb)")
    case None
    then show ?thesis using False align_need [OF False] by (simp add: scan_block_def b too_big_def)
  next
    case (Some a)
    then have "holds (block_need wb) a" using align_need [OF False] by simp
    with v have "holds (max (block_need wb) v) (if a > x then a else x)"
      by (auto simp: holds_def max_def word_less_nat_alt)
    then show ?thesis using False Some by (simp add: scan_block_def b)
  qed
qed

lemma wp_scan_stage_blocks:
  assumes "\<And>j. i \<le> j \<Longrightarrow> j < i + n \<Longrightarrow> plan_weight_block pl j = Some (blk j)" and "holds v x" and "32 dvd v"
  shows "wp (scan_stage_blocks pl k i n x)
    (case_sum (too_big (v + stage_need blk k i n)) (holds (v + stage_need blk k i n)))"
  using assms(1)
proof (induction n arbitrary: i)
  case 0
  then show ?case using assms(2) by simp
next
  case (Suc n)
  have b: "plan_weight_block pl i = Some (blk i)" using Suc.prems [of i] by simp
  show ?case
  proof (cases "unat (wb_stage_idx (blk i)) \<noteq> k \<or> wb_compressed_size (blk i) = 0")
    case True
    then have need: "stage_need blk k i (Suc n) = stage_need blk k (Suc i) n" by simp
    show ?thesis unfolding need using Suc.IH [of "Suc i"] Suc.prems True by (auto simp: b)
  next
    case False
    then have c: "wb_compressed_size (blk i) \<noteq> 0" by simp
    have ne: "v + block_need (blk i) \<noteq> 4294967295"
      by (rule aligned_not_max) (use assms(3) in simp)
    have need: "stage_need blk k i (Suc n) = block_need (blk i)" using False by simp
    have "wp (case align_up_u32 (wb_uncompressed_size (blk i)) of
         None \<Rightarrow> fail U32_MAX
       | Some aligned \<Rightarrow>
           let chain' = saturating_add_u32 x aligned in
           if chain' = U32_MAX then fail U32_MAX else ret chain')
      (case_sum (too_big (v + block_need (blk i))) (holds (v + block_need (blk i))))"
    proof (cases "align_up_u32 (wb_uncompressed_size (blk i))")
      case None
      then show ?thesis using align_need [OF c] by (simp add: too_big_def)
    next
      case (Some a)
      then have a: "unat a = block_need (blk i)" using align_need [OF c] by (simp add: holds_def)
      have sat: "unat (saturating_add_u32 x a) = min (v + block_need (blk i)) 4294967295"
        using assms(2) a by (simp add: saturating_add_u32_unat holds_def)
      then have "saturating_add_u32 x a = U32_MAX \<longleftrightarrow> 4294967295 \<le> v + block_need (blk i)"
        by (auto simp: word_unat_eq_iff)
      then show ?thesis using Some sat ne by (auto simp: Let_def too_big_def holds_def)
    qed
    with False show ?thesis unfolding need by (auto simp: b)
  qed
qed

text \<open>A run of the whole scan: the accumulated value, or an early return that names a part at least
  as large as the saturated value.\<close>

lemma too_big_mono: "too_big v x \<Longrightarrow> v \<le> w \<Longrightarrow> too_big w x"
  by (simp add: too_big_def)

lemma wp_case_sum_mono:
  assumes "wp m (case_sum E P)" and "\<And>e. E e \<Longrightarrow> E' e" and "\<And>a. P a \<Longrightarrow> P' a"
  shows "wp m (case_sum E' P')"
  using assms by (cases m) (auto split: sum.splits)

lemma wp_scan_blocks:
  assumes "\<And>i. i < n \<Longrightarrow> plan_weight_block pl i = Some (blk i)"
  shows "wp (for_range 0 n (scan_block pl) 0)
    (case_sum (too_big (max_below (\<lambda>i. block_need (blk i)) n)) (holds (max_below (\<lambda>i. block_need (blk i)) n)))"
proof (rule wp_for_range_both [where I = "\<lambda>k. holds (max_below (\<lambda>i. block_need (blk i)) k)"])
  fix k t assume k: "k < n" and t: "holds (max_below (\<lambda>i. block_need (blk i)) k) t"
  show "wp (scan_block pl k t) (case_sum (too_big (max_below (\<lambda>i. block_need (blk i)) n))
      (holds (max_below (\<lambda>i. block_need (blk i)) (Suc k))))"
    by (rule wp_case_sum_mono [OF wp_scan_block [OF assms [OF k] t]])
      (use max_below_ge [OF k, of "\<lambda>i. block_need (blk i)"] in \<open>auto intro: too_big_mono\<close>)
qed (simp_all add: holds_def)

lemma wp_scan_chain:
  fixes num :: u16
  assumes blk: "\<And>i. i < unat (p_num_weight_blocks pl) \<Longrightarrow> plan_weight_block pl i = Some (blk i)"
    and st: "plan_stage pl s = Some stage" and v: "holds v x"
  defines "need \<equiv> chain_need blk (unat (p_num_weight_blocks pl)) num s stage"
  shows "wp (scan_chain pl num s x) (case_sum (too_big need) (holds (max need v)))"
proof (cases "is_chain_head num s stage")
  case False
  then have "need = 0" by (simp add: need_def chain_need_def)
  then show ?thesis using False v by (simp add: scan_chain_def st)
next
  case True
  let ?n = "unat (p_num_weight_blocks pl)"
  let ?part = "\<lambda>c. \<Sum>c < c. stage_need blk (s + c) 0 ?n"
  have need: "need = ?part (unat (sg_chain_len stage))" using True by (simp add: need_def chain_need_def)
  have "wp (for_range 0 (unat (sg_chain_len stage)) (\<lambda>c. scan_stage_blocks pl (s + c) 0 ?n) 0)
     (case_sum (too_big need) (holds need))"
    unfolding need
  proof (rule wp_for_range_both [where I = "\<lambda>c. holds (?part c)"])
    fix k t assume k: "k < unat (sg_chain_len stage)" and t: "holds (?part k) t"
    have le: "?part k + stage_need blk (s + k) 0 ?n \<le> ?part (unat (sg_chain_len stage))"
      using sum_mono2 [of "{..<unat (sg_chain_len stage)}" "{..<Suc k}" "\<lambda>c. stage_need blk (s + c) 0 ?n"] k
      by (auto simp: lessThan_Suc add.commute)
    show "wp (scan_stage_blocks pl (s + k) 0 ?n t)
       (case_sum (too_big (?part (unat (sg_chain_len stage)))) (holds (?part (Suc k))))"
    proof (rule wp_case_sum_mono [OF wp_scan_stage_blocks [OF _ t]])
      show "too_big (?part (unat (sg_chain_len stage))) e"
        if "too_big (?part k + stage_need blk (s + k) 0 ?n) e" for e
        using that le by (rule too_big_mono)
    qed (use blk in \<open>auto intro: dvd_sum\<close>)
  qed (simp_all add: holds_def)
  then have "wp (andthen (for_range 0 (unat (sg_chain_len stage))
       (\<lambda>c. scan_stage_blocks pl (s + c) 0 ?n) 0)
     (\<lambda>r. ret (if r > x then r else x))) (case_sum (too_big need) (holds (max need v)))"
    by (rule wp_andthen_both) (use v in \<open>auto simp: holds_def max_def word_less_nat_alt\<close>)
  then show ?thesis using True by (simp add: scan_chain_def st)
qed

lemma wp_scan_chains:
  fixes num :: u16
  assumes blk: "\<And>i. i < unat (p_num_weight_blocks pl) \<Longrightarrow> plan_weight_block pl i = Some (blk i)"
    and st: "\<And>s. s < unat num \<Longrightarrow> plan_stage pl s = Some (st s)" and v: "holds v x"
  defines "need \<equiv> \<lambda>s. chain_need blk (unat (p_num_weight_blocks pl)) num s (st s)"
  shows "wp (for_range 0 (unat num) (scan_chain pl num) x)
    (case_sum (too_big (max v (max_below need (unat num)))) (holds (max v (max_below need (unat num)))))"
proof (rule wp_for_range_both [where I = "\<lambda>k. holds (max v (max_below need k))"])
  fix k t assume k: "k < unat num" and t: "holds (max v (max_below need k)) t"
  show "wp (scan_chain pl num k t) (case_sum (too_big (max v (max_below need (unat num))))
      (holds (max v (max_below need (Suc k)))))"
    by (rule wp_case_sum_mono [OF wp_scan_chain [OF blk st [OF k] t, folded need_def]])
      (use max_below_ge [OF k, of need] in \<open>auto simp: max.left_commute need_def intro: too_big_mono\<close>)
qed (use v in simp_all)

lemma case_sum_min:
  "wp m (case_sum (too_big v) (holds v)) \<Longrightarrow> wp (map_option (case_sum id id) m) (\<lambda>r. unat r = min v 4294967295)"
  by (cases m) (auto simp: too_big_def holds_def split: sum.splits)

lemma weight_overhead_exact:
  assumes "p_header pl = Some hdr" "p_stages pl \<noteq> None" "p_weight_blocks pl \<noteq> None"
    and "\<And>i. i < unat (p_num_weight_blocks pl) \<Longrightarrow> plan_weight_block pl i = Some (blk i)"
    and "\<And>s. s < unat (hd_num_stages hdr) \<Longrightarrow> plan_stage pl s = Some (st s)"
  shows "wp (tigris_weight_decompression_overhead (Some pl)) (\<lambda>r.
    unat r = min (weight_need blk (unat (p_num_weight_blocks pl)) st (hd_num_stages hdr)) 4294967295)"
proof (cases "p_num_weight_blocks pl = 0")
  case True
  have "max_below (\<lambda>s. chain_need blk 0 (hd_num_stages hdr) s (st s)) k = 0" for k
    by (induction k) (simp_all add: chain_need_def)
  then show ?thesis
    using True by (simp add: tigris_weight_decompression_overhead_def weight_need_def)
next
  case False
  let ?n = "unat (p_num_weight_blocks pl)"
  have le: "max_below (\<lambda>i. block_need (blk i)) ?n \<le> weight_need blk ?n st (hd_num_stages hdr)"
    by (simp add: weight_need_def)
  have "wp (andthen (for_range 0 ?n (scan_block pl) 0)
        (for_range 0 (unat (hd_num_stages hdr)) (scan_chain pl (hd_num_stages hdr))))
      (case_sum (too_big (weight_need blk ?n st (hd_num_stages hdr)))
        (holds (weight_need blk ?n st (hd_num_stages hdr))))"
  proof (rule wp_andthen_both)
    show "wp (for_range 0 ?n (scan_block pl) 0) (case_sum (too_big (weight_need blk ?n st (hd_num_stages hdr)))
        (holds (max_below (\<lambda>i. block_need (blk i)) ?n)))"
      by (rule wp_case_sum_mono [OF wp_scan_blocks]) (use assms(4) le in \<open>auto intro: too_big_mono\<close>)
    show "wp (for_range 0 (unat (hd_num_stages hdr)) (scan_chain pl (hd_num_stages hdr)) x)
        (case_sum (too_big (weight_need blk ?n st (hd_num_stages hdr)))
          (holds (weight_need blk ?n st (hd_num_stages hdr))))"
      if "holds (max_below (\<lambda>i. block_need (blk i)) ?n) x" for x
      using wp_scan_chains [where num = "hd_num_stages hdr", OF assms(4,5) that]
      by (simp add: weight_need_def)
  qed
  from case_sum_min [OF this] show ?thesis
    using False assms(1,2,3) by (auto simp: tigris_weight_decompression_overhead_def)
qed

section \<open>Properties\<close>

text \<open>C24. The fast-arena size a plan asks for is its activations (the scheduled peak from schema 11
  on, the compiler's budget before) plus the larger of the biggest aligned compressed block and the
  biggest sum, over a chain of stages, of the aligned sizes of each stage's first compressed block;
  the total saturates at \<open>UINT32_MAX\<close> and never wraps. It is defined whenever the tables are.\<close>

theorem arena_required_exact:
  assumes "p_header pl = Some hdr" "p_stages pl \<noteq> None" "p_weight_blocks pl \<noteq> None"
    and "\<And>i. i < unat (p_num_weight_blocks pl) \<Longrightarrow> plan_weight_block pl i = Some (blk i)"
    and "\<And>s. s < unat (hd_num_stages hdr) \<Longrightarrow> plan_stage pl s = Some (st s)"
  shows "wp (tigris_fast_arena_required (Some pl)) (\<lambda>r. unat r = min
    (unat (if 11 \<le> hd_version hdr then p_scheduled_peak pl else hd_budget hdr)
      + weight_need blk (unat (p_num_weight_blocks pl)) st (hd_num_stages hdr)) 4294967295)"
proof -
  let ?need = "weight_need blk (unat (p_num_weight_blocks pl)) st (hd_num_stages hdr)"
  obtain r where r: "tigris_weight_decompression_overhead (Some pl) = Some r"
    "unat r = min ?need 4294967295"
    using weight_overhead_exact [OF assms] by (auto dest: wpD)
  have "r = U32_MAX \<longleftrightarrow> 4294967295 \<le> ?need"
    using r(2) by (auto simp: word_unat_eq_iff)
  then show ?thesis
    using r assms(1)
    by (auto simp: tigris_fast_arena_required_def saturating_add_u32_unat schema_versions)
qed

text \<open>A chain of two stages with a compressed block each, 100 and 40 bytes: 1000 bytes of
  activations and \<open>128 + 64\<close> of weights.\<close>

definition demo_block :: "u16 \<Rightarrow> u32 \<Rightarrow> weight_block" where
  "demo_block s n = \<lparr> wb_stage_idx = s, wb_first_weight_idx = 0, wb_num_weights = 1, wb_pad0 = 0,
     wb_blob_offset = 0, wb_compressed_size = 30, wb_uncompressed_size = n \<rparr>"

definition demo_stage :: tigris_stage where
  "demo_stage = \<lparr> sg_peak_bytes = 0, sg_ops_off = 0, sg_ops_count = 0, sg_inputs_off = 0,
     sg_inputs_count = 0, sg_outputs_off = 0, sg_outputs_count = 0, sg_tile_plan_idx = NONE_U16,
     sg_pad0 = 0, sg_chain_id = 0, sg_chain_len = 2, sg_chain_tile_h = 1, sg_reserved1 = 0 \<rparr>"

definition demo_header :: file_header where
  "demo_header = \<lparr> hd_magic = TIGRIS_MAGIC_BYTES, hd_version = 12, hd_file_size = 0,
     hd_section_dir_off = 48, hd_num_tensors = 0, hd_num_ops = 0, hd_num_stages = 2,
     hd_num_tile_plans = 0, hd_budget = 0, hd_peak = 0, hd_model_name_str = 0, hd_model_io_off = 0,
     hd_num_model_inputs = 0, hd_num_model_outputs = 0, hd_num_weights = 0,
     hd_num_quant_params = 0, hd_flags = 0 \<rparr>"

definition demo_blocks :: "weight_block list" where
  "demo_blocks = [demo_block 0 100, demo_block 1 40]"

definition demo_block_plan :: tigris_plan where
  "demo_block_plan = (empty_plan (concat (map wr_weight_block demo_blocks)
       @ concat (map wr_tigris_stage [demo_stage, demo_stage])))
     \<lparr> p_header := Some demo_header, p_stages := Some 40, p_weight_blocks := Some 0,
       p_num_weight_blocks := 2, p_scheduled_peak := 1000 \<rparr>"

lemma demo_block_tables:
  "i < 2 \<Longrightarrow> plan_weight_block demo_block_plan i = Some (demo_blocks ! i)"
  "s < 2 \<Longrightarrow> plan_stage demo_block_plan s = Some demo_stage"
proof -
  assume "i < 2"
  then show "plan_weight_block demo_block_plan i = Some (demo_blocks ! i)"
    using weight_block_table.table_roundtrip [where rs = demo_blocks and xs = "[]" and i = i]
    by (simp add: plan_weight_block_def demo_block_plan_def empty_plan_def demo_blocks_def)
next
  assume "s < 2"
  then have "s = 0 \<or> s = 1" by auto
  then show "plan_stage demo_block_plan s = Some demo_stage"
    using tigris_stage_table.table_roundtrip [where rs = "[demo_stage, demo_stage]" and i = s
        and xs = "concat (map wr_weight_block demo_blocks)" and ys = "[]"]
      weight_block_table.length_table [of demo_blocks]
    by (auto simp: plan_stage_def demo_block_plan_def empty_plan_def demo_blocks_def)
qed

lemma arena_required_exact_witness:
  "wp (tigris_fast_arena_required (Some demo_block_plan)) (\<lambda>r. unat r = 1192)"
proof -
  have two: "(2 :: nat) = Suc (Suc 0)" by simp
  have b: "block_need (demo_blocks ! 0) = 128" "block_need (demo_blocks ! 1) = 64"
    "wb_compressed_size (demo_blocks ! 0) \<noteq> 0" "wb_compressed_size (demo_blocks ! 1) \<noteq> 0"
    "wb_stage_idx (demo_blocks ! 0) = 0" "wb_stage_idx (demo_blocks ! 1) = 1"
    by (simp_all add: block_need_def demo_blocks_def demo_block_def round_up_def)
  have st: "stage_need ((!) demo_blocks) 0 0 2 = 128" "stage_need ((!) demo_blocks) 1 0 2 = 64"
    unfolding two using b by simp_all
  have head: "is_chain_head 2 0 demo_stage" "\<not> is_chain_head 2 1 demo_stage"
    "unat (sg_chain_len demo_stage) = 2"
    by (simp_all add: is_chain_head_def demo_stage_def)
  have "(\<Sum>c < 2. stage_need ((!) demo_blocks) (0 + c) 0 2)
      = stage_need ((!) demo_blocks) 0 0 2 + stage_need ((!) demo_blocks) 1 0 2"
    by (simp add: lessThan_Suc two [THEN arg_cong, of lessThan])
  then have ch: "chain_need ((!) demo_blocks) 2 2 0 demo_stage = 192"
    "chain_need ((!) demo_blocks) 2 2 1 demo_stage = 0"
    using st head by (simp_all only: chain_need_def if_True if_False)
  have mb: "max_below f 2 = max (f 1) (max (f 0) 0)" for f
    unfolding two by simp
  have need: "weight_need ((!) demo_blocks) 2 (\<lambda>_. demo_stage) 2 = 192"
    using b ch by (simp add: weight_need_def mb)
  show ?thesis
    using arena_required_exact [where pl = demo_block_plan and hdr = demo_header and
        blk = "(!) demo_blocks" and st = "\<lambda>_. demo_stage"] demo_block_tables need
    by (simp add: demo_block_plan_def demo_header_def empty_plan_def)
qed

end
