(* ===== verification/Compaction.thy ===== *)
theory Compaction
  imports Arena Plan_Format
begin

unbundle bit_operations_syntax

text \<open>
  Pool compaction (\<open>compact_pool\<close>, \<open>compact_fast\<close> and \<open>compact_slow\<close> of
  \<open>src/tigris_executor.c\<close>): when an allocation fails, the executor moves the live tensors of a pool
  down, in address order, over the gaps the dead ones left.

  \<^item> The loop is a partial function: \<open>None\<close> also stands for a loop that does not end, which the
    code allows for a live tensor whose aligned size is zero.
  \<^item> What is shown: under the executor's invariant (live blocks lie below the pool's top and are
    disjoint or aliases of one another) the loop ends, every live tensor keeps its bytes, aliases
    stay aliases, disjoint blocks stay disjoint and in order, no gap is left, and nothing outside
    the pool changes.
\<close>

section \<open>The loop\<close>

definition tile_align_up :: "u32 \<Rightarrow> u32" where
  "tile_align_up x = (x + (TENSOR_ALIGN - 1)) AND NOT (TENSOR_ALIGN - 1)"

text \<open>The scan for the next live allocation: the smallest pointer in \<open>cursor ..< pool_end\<close>, and the
  first tensor that has it.\<close>

definition scan_ptr ::
  "nat list \<Rightarrow> nat \<Rightarrow> nat \<Rightarrow> nat \<Rightarrow> nat \<times> nat option \<Rightarrow> nat \<times> nat option" where
  "scan_ptr ptrs cursor pool_end i r =
     (if ptrs ! i \<ge> cursor \<and> ptrs ! i < fst r \<and> ptrs ! i < pool_end then (ptrs ! i, Some i) else r)"

definition next_alloc :: "nat list \<Rightarrow> nat \<Rightarrow> nat \<Rightarrow> nat \<Rightarrow> nat \<times> nat option" where
  "next_alloc ptrs n cursor pool_end = fold (scan_ptr ptrs cursor pool_end) [0..<n] (pool_end, None)"

text \<open>Every pointer to the moved block follows it.\<close>

definition repoint :: "nat list \<Rightarrow> nat \<Rightarrow> nat \<Rightarrow> nat \<Rightarrow> nat list" where
  "repoint ptrs n src dst = map (\<lambda>i. if i < n \<and> ptrs ! i = src then dst else ptrs ! i) [0..<length ptrs]"

partial_function (option) compact_loop ::
  "tigris_plan \<Rightarrow> nat \<Rightarrow> nat \<Rightarrow> nat \<Rightarrow> nat \<Rightarrow> u32 \<Rightarrow> nat list \<Rightarrow> ram \<Rightarrow> (u32 \<times> nat list \<times> ram) option"
where
  "compact_loop pl n base pool_end cursor used ptrs h =
     (if cursor < pool_end then
        (case next_alloc ptrs n cursor pool_end of
           (src, None) \<Rightarrow> Some (used, ptrs, h)
         | (src, Some tidx) \<Rightarrow> do {
             t \<leftarrow> plan_tensor pl tidx;
             compact_loop pl n base pool_end (src + unat (tile_align_up (tn_size_bytes t)))
               (used + tile_align_up (tn_size_bytes t))
               (repoint ptrs n src (base + unat used))
               (if base + unat used \<noteq> src
                then ram_copy h (base + unat used) src (unat (tile_align_up (tn_size_bytes t))) else h)
           })
      else Some (used, ptrs, h))"

definition compact_pool ::
  "mem \<Rightarrow> tigris_plan \<Rightarrow> nat \<Rightarrow> u32 \<Rightarrow> u32 \<Rightarrow> ram \<Rightarrow> (u32 \<times> nat list \<times> ram) option" where
  "compact_pool m pl base first pool_bytes h =
     (if length (tensor_ptrs m) < unat (num_tensors m) then None
      else compact_loop pl (unat (num_tensors m)) base (base + unat pool_bytes) (base + unat first) first
             (tensor_ptrs m) h)"

definition count_compaction :: "mem \<Rightarrow> mem" where
  "count_compaction m = m\<lparr>stats := map_option (\<lambda>s. s\<lparr>compactions := compactions s + 1\<rparr>) (stats m)\<rparr>"

definition compact_fast :: "mem \<Rightarrow> tigris_plan \<Rightarrow> ram \<Rightarrow> (mem \<times> ram) option" where
  "compact_fast m pl h = (let m = count_compaction m in do {
     (used, ptrs, h') \<leftarrow> compact_pool m pl (fast_base m) (fast_reserved m) (fast_size m) h;
     Some (m\<lparr>tensor_ptrs := ptrs, fast_used := used\<rparr>, h') })"

definition compact_slow :: "mem \<Rightarrow> tigris_plan \<Rightarrow> ram \<Rightarrow> (mem \<times> ram) option" where
  "compact_slow m pl h = (let m = count_compaction m in do {
     (used, ptrs, h') \<leftarrow> compact_pool m pl (slow_base m) (align_gap (slow_base m)) (slow_size m) h;
     Some (m\<lparr>tensor_ptrs := ptrs, slow_used := used\<rparr>, h') })"

section \<open>The scan\<close>

definition scanned :: "nat list \<Rightarrow> nat \<Rightarrow> nat \<Rightarrow> nat \<Rightarrow> nat \<times> nat option \<Rightarrow> bool" where
  "scanned ptrs c e n r = (case r of
     (x, None) \<Rightarrow> x = e \<and> (\<forall>i < n. \<not> (c \<le> ptrs ! i \<and> ptrs ! i < e))
   | (x, Some t) \<Rightarrow> t < n \<and> ptrs ! t = x \<and> c \<le> x \<and> x < e \<and>
       (\<forall>i < n. c \<le> ptrs ! i \<and> ptrs ! i < e \<longrightarrow> x \<le> ptrs ! i))"

lemma scanned_step:
  "scanned ptrs c e n r \<Longrightarrow> scanned ptrs c e (Suc n) (scan_ptr ptrs c e n r)"
  by (cases r; cases "snd r") (auto simp: scanned_def scan_ptr_def less_Suc_eq)

lemma next_alloc_scanned: "scanned ptrs c e n (next_alloc ptrs n c e)"
proof -
  have "scanned ptrs c e n (fold (scan_ptr ptrs c e) [0..<n] (e, None))"
    by (induction n) (simp_all add: scanned_step, simp add: scanned_def)
  then show ?thesis by (simp add: next_alloc_def)
qed

lemma next_alloc_None:
  "next_alloc ptrs n c e = (x, None) \<Longrightarrow> \<forall>i < n. \<not> (c \<le> ptrs ! i \<and> ptrs ! i < e)"
  using next_alloc_scanned [of ptrs c e n] by (simp add: scanned_def)

lemma next_alloc_Some:
  "next_alloc ptrs n c e = (x, Some t) \<Longrightarrow> t < n \<and> ptrs ! t = x \<and> c \<le> x \<and> x < e \<and>
     (\<forall>i < n. c \<le> ptrs ! i \<and> ptrs ! i < e \<longrightarrow> x \<le> ptrs ! i)"
  using next_alloc_scanned [of ptrs c e n] by (simp add: scanned_def)

lemma length_repoint [simp]: "length (repoint ptrs n s d) = length ptrs"
  by (simp add: repoint_def)

lemma nth_repoint:
  "i < length ptrs \<Longrightarrow> repoint ptrs n s d ! i = (if i < n \<and> ptrs ! i = s then d else ptrs ! i)"
  by (simp add: repoint_def)

lemma tile_align_up_unat:
  "unat x \<le> 4294967264 \<Longrightarrow> unat (tile_align_up x) = round_up (unat x)"
proof -
  assume "unat x \<le> 4294967264"
  then have "unat (x + 31) = unat x + 31" by (simp add: unat_add_u32)
  moreover have "tile_align_up x = (x + 31) AND NOT 31"
    by (simp add: tile_align_up_def TENSOR_ALIGN_def)
  ultimately show ?thesis by (simp only: unat_and_not_31 round_up_def)
qed

section \<open>The invariant of the loop\<close>

text \<open>The live tensors of a pool \<open>lo ..< hi\<close>, and what the executor guarantees of their blocks: each
  ends below \<open>tp\<close>, and two are apart or the same block.\<close>

definition live :: "nat list \<Rightarrow> nat \<Rightarrow> nat \<Rightarrow> nat \<Rightarrow> nat \<Rightarrow> bool" where
  "live p n lo hi i = (i < n \<and> lo \<le> p ! i \<and> p ! i < hi)"

definition blocks_ok :: "(nat \<Rightarrow> nat) \<Rightarrow> nat list \<Rightarrow> nat \<Rightarrow> nat \<Rightarrow> nat \<Rightarrow> nat \<Rightarrow> bool" where
  "blocks_ok A p n lo tp hi = (\<forall>i. live p n lo hi i \<longrightarrow> 0 < A i \<and> 32 dvd A i \<and> p ! i + A i \<le> tp \<and>
     (\<forall>j. live p n lo hi j \<longrightarrow>
        (p ! i = p ! j \<and> A i = A j) \<or> p ! i + A i \<le> p ! j \<or> p ! j + A j \<le> p ! i))"

text \<open>Everything below \<open>c\<close> has been moved down to end at \<open>w\<close>, everything from \<open>c\<close> on is as it was.\<close>

definition compacted ::
  "(nat \<Rightarrow> nat) \<Rightarrow> nat list \<Rightarrow> nat \<Rightarrow> nat \<Rightarrow> nat \<Rightarrow> ram \<Rightarrow> nat \<Rightarrow> nat list \<Rightarrow> ram \<Rightarrow> nat \<Rightarrow> bool" where
  "compacted A p0 n lo hi h0 c p h w \<longleftrightarrow>
     (let moved = (\<lambda>i. live p0 n lo hi i \<and> p0 ! i < c) in
      length p = length p0 \<and> lo \<le> w \<and> w \<le> c \<and> 32 dvd (w - lo) \<and>
      (\<forall>i < length p0. \<not> moved i \<longrightarrow> p ! i = p0 ! i) \<and>
      (\<forall>i. moved i \<longrightarrow> p0 ! i + A i \<le> c \<and> lo \<le> p ! i \<and> p ! i + A i \<le> w \<and> 32 dvd (p ! i - lo) \<and>
         (\<forall>k < A i. h (p ! i + k) = h0 (p0 ! i + k))) \<and>
      (\<forall>i j. moved i \<longrightarrow> moved j \<longrightarrow> (p0 ! i < p0 ! j \<longrightarrow> p ! i + A i \<le> p ! j) \<and>
         (p0 ! i = p0 ! j \<longrightarrow> p ! i = p ! j)) \<and>
      (\<forall>a. lo \<le> a \<and> a < w \<longrightarrow> (\<exists>i. moved i \<and> p ! i \<le> a \<and> a < p ! i + A i)) \<and>
      (\<forall>a. a < lo \<or> c \<le> a \<longrightarrow> h a = h0 a))"

lemma compacted_start: "compacted A p n lo hi h lo p h lo"
  by (auto simp: compacted_def live_def Let_def)

lemma live_trichotomy:
  assumes ok: "blocks_ok A p n lo tp hi" and i: "live p n lo hi i" and t: "live p n lo hi t"
    and ge: "p ! i < c \<or> p ! t \<le> p ! i" and ct: "c \<le> p ! t"
  shows "p ! i < p ! t + A t \<longleftrightarrow> p ! i < c \<or> p ! i = p ! t"
    and "p ! i = p ! t \<Longrightarrow> A i = A t" and "p ! i < c \<Longrightarrow> p ! i + A i \<le> p ! t"
proof -
  have d: "(p ! i = p ! t \<and> A i = A t) \<or> p ! i + A i \<le> p ! t \<or> p ! t + A t \<le> p ! i"
    "0 < A i" "0 < A t"
    using ok i t unfolding blocks_ok_def by blast+
  show "p ! i < p ! t + A t \<longleftrightarrow> p ! i < c \<or> p ! i = p ! t"
    "p ! i = p ! t \<Longrightarrow> A i = A t" "p ! i < c \<Longrightarrow> p ! i + A i \<le> p ! t"
    using d ge ct by auto
qed

lemma compacted_step:
  assumes ok: "blocks_ok A p0 n lo tp hi" and n: "n \<le> length p0"
    and inv: "compacted A p0 n lo hi h0 c p h w"
    and nxt: "next_alloc p n c hi = (src, Some t)"
  shows "live p0 n lo hi t" "p0 ! t = src"
    "compacted A p0 n lo hi h0 (src + A t) (repoint p n src w) (ram_copy h w src (A t)) (w + A t)"
proof -
  let ?m = "\<lambda>i. live p0 n lo hi i \<and> p0 ! i < c"
  have len: "length p = length p0" and lo: "lo \<le> w" "w \<le> c" and dvd: "32 dvd (w - lo)"
    and keep: "\<And>i. i < length p0 \<Longrightarrow> \<not> ?m i \<Longrightarrow> p ! i = p0 ! i"
    and mv: "\<And>i. ?m i \<Longrightarrow> p0 ! i + A i \<le> c \<and> lo \<le> p ! i \<and> p ! i + A i \<le> w \<and>
        32 dvd (p ! i - lo) \<and> (\<forall>k < A i. h (p ! i + k) = h0 (p0 ! i + k))"
    and ord: "\<And>i j. ?m i \<Longrightarrow> ?m j \<Longrightarrow> (p0 ! i < p0 ! j \<longrightarrow> p ! i + A i \<le> p ! j) \<and>
        (p0 ! i = p0 ! j \<longrightarrow> p ! i = p ! j)"
    and cover: "\<And>a. lo \<le> a \<Longrightarrow> a < w \<Longrightarrow> \<exists>i. ?m i \<and> p ! i \<le> a \<and> a < p ! i + A i"
    and frame: "\<And>a. a < lo \<or> c \<le> a \<Longrightarrow> h a = h0 a"
    using inv unfolding compacted_def Let_def by blast+
  have s: "t < n" "p ! t = src" "c \<le> src" "src < hi"
    and least: "\<And>i. i < n \<Longrightarrow> c \<le> p ! i \<Longrightarrow> p ! i < hi \<Longrightarrow> src \<le> p ! i"
    using next_alloc_Some [OF nxt] by blast+
  have pos: "\<And>i. live p0 n lo hi i \<Longrightarrow> 0 < A i" and al: "\<And>i. live p0 n lo hi i \<Longrightarrow> 32 dvd A i"
    using ok unfolding blocks_ok_def by blast+
  have low: "p ! i < c" if "?m i" for i
    using mv [OF that] pos [of i] that lo by linarith
  have nt: "\<not> ?m t" using low [of t] s by auto
  then show src: "p0 ! t = src" using keep [of t] s n by simp
  then show lt: "live p0 n lo hi t" using s lo by (simp add: live_def)
  have ge: "p0 ! i < c \<or> src \<le> p0 ! i" if "live p0 n lo hi i" for i
    using keep [of i] least [of i] that n by (cases "p0 ! i < c") (auto simp: live_def)
  note tri = live_trichotomy [OF ok _ lt, unfolded src, OF _ ge s(3)]
  let ?m' = "\<lambda>i. live p0 n lo hi i \<and> p0 ! i < src + A t"
  have m': "?m' i \<longleftrightarrow> ?m i \<or> (live p0 n lo hi i \<and> p0 ! i = src)" for i
    using tri(1) [of i] by blast
  have at: "i < length p0" if "live p0 n lo hi i" for i using that n by (simp add: live_def)
  have old: "repoint p n src w ! i = p ! i" if "?m i" for i
    using that low [OF that] s(3) at len by (simp add: nth_repoint)
  have new: "repoint p n src w ! i = w" "A i = A t" if "live p0 n lo hi i" "p0 ! i = src" for i
    using that keep [of i] s(3) at [OF that(1)] len tri(2) by (auto simp: nth_repoint live_def)
  have h1: "ram_copy h w src (A t) a = h a" if "a < w" for a using that by (simp add: ram_copy_out)
  have h2: "ram_copy h w src (A t) (w + k) = h0 (src + k)" if "k < A t" for k
    using that frame [of "src + k"] s(3) by (simp add: ram_copy_in)
  show "compacted A p0 n lo hi h0 (src + A t) (repoint p n src w) (ram_copy h w src (A t)) (w + A t)"
    unfolding compacted_def Let_def
  proof (intro conjI allI impI)
    show "length (repoint p n src w) = length p0" by (simp add: len)
    show "lo \<le> w + A t" "w + A t \<le> src + A t" using lo s by simp_all
    have "w + A t - lo = (w - lo) + A t" using lo by simp
    with dvd_add [OF dvd al [OF lt]] show "32 dvd (w + A t - lo)" by (simp only:)
  next
    fix i assume i: "i < length p0" and "\<not> ?m' i"
    then have nm: "\<not> ?m i" "\<not> (live p0 n lo hi i \<and> p0 ! i = src)" using m' by blast+
    then have "p ! i = p0 ! i" using keep i by blast
    moreover have "\<not> (i < n \<and> p0 ! i = src)" using nm(2) lt src by (auto simp: live_def)
    ultimately show "repoint p n src w ! i = p0 ! i" using i len by (auto simp: nth_repoint)
  next
    fix i assume i: "?m' i"
    then consider (old) "?m i" | (new) "live p0 n lo hi i" "p0 ! i = src" using m' by blast
    then have "p0 ! i + A i \<le> src + A t \<and> lo \<le> repoint p n src w ! i \<and>
        repoint p n src w ! i + A i \<le> w + A t \<and> 32 dvd (repoint p n src w ! i - lo) \<and>
        (\<forall>k < A i. ram_copy h w src (A t) (repoint p n src w ! i + k) = h0 (p0 ! i + k))"
    proof cases
      case o: old
      have "ram_copy h w src (A t) (p ! i + k) = h0 (p0 ! i + k)" if "k < A i" for k
        using mv [OF o] that h1 [of "p ! i + k"] by simp
      with mv [OF o] s(3) show ?thesis by (simp add: old [OF o])
    next
      case nw: new
      show ?thesis using h2 lo dvd by (simp add: new [OF nw] nw)
    qed
    then show "p0 ! i + A i \<le> src + A t" "lo \<le> repoint p n src w ! i"
      "repoint p n src w ! i + A i \<le> w + A t" "32 dvd (repoint p n src w ! i - lo)"
      "\<And>k. k < A i \<Longrightarrow> ram_copy h w src (A t) (repoint p n src w ! i + k) = h0 (p0 ! i + k)"
      by blast+
  next
    fix i j assume i: "?m' i" and j: "?m' j"
    consider (oo) "?m i" "?m j" | (on) "?m i" "live p0 n lo hi j" "p0 ! j = src"
      | (no) "live p0 n lo hi i" "p0 ! i = src" "?m j"
      | (nn) "live p0 n lo hi i" "p0 ! i = src" "live p0 n lo hi j" "p0 ! j = src"
      using i j m' by blast
    then have "(p0 ! i < p0 ! j \<longrightarrow> repoint p n src w ! i + A i \<le> repoint p n src w ! j) \<and>
        (p0 ! i = p0 ! j \<longrightarrow> repoint p n src w ! i = repoint p n src w ! j)"
    proof cases
      case oo
      then show ?thesis using ord [OF oo] by (simp add: old)
    next
      case on
      then show ?thesis using mv [OF on(1)] s(3) by (simp add: old [OF on(1)] new [OF on(2,3)])
    next
      case no
      then show ?thesis using s(3) by auto
    next
      case nn
      then show ?thesis by (simp add: new [OF nn(1,2)] new [OF nn(3,4)])
    qed
    then show "p0 ! i < p0 ! j \<Longrightarrow> repoint p n src w ! i + A i \<le> repoint p n src w ! j"
      "p0 ! i = p0 ! j \<Longrightarrow> repoint p n src w ! i = repoint p n src w ! j" by blast+
  next
    fix a assume a: "lo \<le> a \<and> a < w + A t"
    show "\<exists>i. ?m' i \<and> repoint p n src w ! i \<le> a \<and> a < repoint p n src w ! i + A i"
    proof (cases "a < w")
      case True
      then obtain i where "?m i \<and> p ! i \<le> a \<and> a < p ! i + A i" using cover a by blast
      then show ?thesis using old [of i] m' [of i] by auto
    next
      case False
      then show ?thesis using new [OF lt src] a m' [of t] lt src by (intro exI [of _ t]) auto
    qed
  next
    fix a assume a: "a < lo \<or> src + A t \<le> a"
    have "h a = h0 a" by (rule frame) (use a s(3) in linarith)
    moreover have "ram_copy h w src (A t) a = h a"
      by (rule ram_copy_out) (use a lo s(3) in linarith)
    ultimately show "ram_copy h w src (A t) a = h0 a" by simp
  qed
qed

text \<open>The loop ends, with every live tensor moved. \<open>A\<close> is the aligned size of a tensor.\<close>

definition aligned_size :: "tigris_plan \<Rightarrow> nat \<Rightarrow> nat" where
  "aligned_size pl i = (case plan_tensor pl i of None \<Rightarrow> 0 | Some t \<Rightarrow> round_up (unat (tn_size_bytes t)))"

definition sizes_ok :: "tigris_plan \<Rightarrow> nat \<Rightarrow> bool" where
  "sizes_ok pl n = (\<forall>i < n. \<exists>t. plan_tensor pl i = Some t \<and> unat (tn_size_bytes t) \<le> 4294967264)"

text \<open>All live tensors moved: the whole pool is compacted up to its top.\<close>

definition all_compacted ::
  "(nat \<Rightarrow> nat) \<Rightarrow> nat list \<Rightarrow> nat \<Rightarrow> nat \<Rightarrow> nat \<Rightarrow> nat \<Rightarrow> ram \<Rightarrow> nat list \<Rightarrow> ram \<Rightarrow> nat \<Rightarrow> bool" where
  "all_compacted A p0 n lo tp hi h0 p h w \<longleftrightarrow>
     (\<exists>c \<le> tp. compacted A p0 n lo hi h0 c p h w \<and> (\<forall>i. live p0 n lo hi i \<longrightarrow> p0 ! i < c))"

lemma compact_loop_correct:
  assumes ok: "blocks_ok (aligned_size pl) p0 n lo tp hi" and sz: "sizes_ok pl n"
    and n: "n \<le> length p0" and tp: "tp \<le> hi" "hi \<le> base + 4294967295"
    and inv: "compacted (aligned_size pl) p0 n lo hi h0 c p h (base + unat used)" and c: "c \<le> tp"
  shows "wp (compact_loop pl n base hi c used p h) (\<lambda>(used', p', h').
     all_compacted (aligned_size pl) p0 n lo tp hi h0 p' h' (base + unat used'))"
  using inv c
proof (induction "hi - c" arbitrary: c used p h rule: less_induct)
  case less
  let ?A = "aligned_size pl" and ?w = "base + unat used"
  note inv = less.prems(1)
  have keep: "\<And>i. i < length p0 \<Longrightarrow> \<not> (live p0 n lo hi i \<and> p0 ! i < c) \<Longrightarrow> p ! i = p0 ! i"
    and w: "?w \<le> c"
    using inv unfolding compacted_def Let_def by blast+
  have done_all: "all_compacted ?A p0 n lo tp hi h0 p h ?w" if "\<forall>i. live p0 n lo hi i \<longrightarrow> p0 ! i < c"
    using inv that less.prems(2) unfolding all_compacted_def by blast
  show ?case
  proof (cases "c < hi")
    case False
    then have "all_compacted ?A p0 n lo tp hi h0 p h ?w"
      by (intro done_all) (auto simp: live_def)
    then show ?thesis using False by (subst compact_loop.simps) simp
  next
    case True
    obtain src t where nxt: "next_alloc p n c hi = (src, t)" by fastforce
    show ?thesis
    proof (cases t)
      case None
      have "p0 ! i < c" if "live p0 n lo hi i" for i
        using that next_alloc_None [OF nxt [unfolded None]] keep [of i] n
        by (cases "p0 ! i < c") (auto simp: live_def)
      then have "all_compacted ?A p0 n lo tp hi h0 p h ?w" by (intro done_all) blast
      then show ?thesis using True nxt None by (subst compact_loop.simps) simp
    next
      case (Some i)
      note step = compacted_step [OF ok n inv nxt [unfolded Some]]
      have "i < n" using step(1) by (simp add: live_def)
      then obtain tn where tn: "plan_tensor pl i = Some tn" "unat (tn_size_bytes tn) \<le> 4294967264"
        using sz by (auto simp: sizes_ok_def)
      have a: "unat (tile_align_up (tn_size_bytes tn)) = ?A i"
        using tile_align_up_unat [OF tn(2)] by (simp add: aligned_size_def tn)
      have A: "0 < ?A i" "src + ?A i \<le> tp" using ok step(1,2) unfolding blocks_ok_def by blast+
      have cs: "c \<le> src" "src < hi" using next_alloc_Some [OF nxt [unfolded Some]] by blast+
      have "unat used + ?A i \<le> 4294967295" using A cs w tp by linarith
      then have u: "unat (used + tile_align_up (tn_size_bytes tn)) = unat used + ?A i"
        by (simp add: unat_add_u32 a)
      have same: "ram_copy h d d k = h" for d k by (auto simp: ram_copy_def)
      have "compacted ?A p0 n lo hi h0 (src + ?A i) (repoint p n src ?w) (ram_copy h ?w src (?A i))
          (base + unat (used + tile_align_up (tn_size_bytes tn)))"
        using step(3) by (simp add: u add.assoc)
      then have "wp (compact_loop pl n base hi (src + ?A i) (used + tile_align_up (tn_size_bytes tn))
            (repoint p n src ?w) (ram_copy h ?w src (?A i)))
          (\<lambda>(used', p', h'). all_compacted ?A p0 n lo tp hi h0 p' h' (base + unat used'))"
        by (intro less.hyps) (use A cs True in auto)
      moreover have "compact_loop pl n base hi c used p h = compact_loop pl n base hi (src + ?A i)
          (used + tile_align_up (tn_size_bytes tn)) (repoint p n src ?w) (ram_copy h ?w src (?A i))"
        by (cases "?w = src"; subst compact_loop.simps) (simp_all add: True nxt Some tn a same)
      ultimately show ?thesis by simp
    qed
  qed
qed

section \<open>What a compaction leaves\<close>

text \<open>The bytes of the distinct live blocks.\<close>

definition live_bytes :: "(nat \<Rightarrow> nat) \<Rightarrow> nat list \<Rightarrow> nat \<Rightarrow> nat \<Rightarrow> nat \<Rightarrow> nat" where
  "live_bytes A p n lo hi = (\<Sum>b \<in> (\<lambda>i. (p ! i, A i)) ` {i. live p n lo hi i}. snd b)"

lemma blocks_okD:
  assumes "blocks_ok A p n lo tp hi" "live p n lo hi i"
  shows "0 < A i" "32 dvd A i" "p ! i + A i \<le> tp"
    "live p n lo hi j \<Longrightarrow> (p ! i = p ! j \<and> A i = A j) \<or> p ! i + A i \<le> p ! j \<or> p ! j + A j \<le> p ! i"
  using assms unfolding blocks_ok_def by blast+

lemma compactedD:
  assumes "compacted A p0 n lo hi h0 c p h w" and all: "\<forall>i. live p0 n lo hi i \<longrightarrow> p0 ! i < c"
  shows "length p = length p0" "lo \<le> w" "w \<le> c" "32 dvd (w - lo)"
    "i < length p0 \<Longrightarrow> \<not> live p0 n lo hi i \<Longrightarrow> p ! i = p0 ! i"
    "live p0 n lo hi i \<Longrightarrow> lo \<le> p ! i \<and> p ! i + A i \<le> w \<and> 32 dvd (p ! i - lo) \<and>
       (\<forall>k < A i. h (p ! i + k) = h0 (p0 ! i + k))"
    "live p0 n lo hi i \<Longrightarrow> live p0 n lo hi j \<Longrightarrow>
       (p0 ! i < p0 ! j \<longrightarrow> p ! i + A i \<le> p ! j) \<and> (p0 ! i = p0 ! j \<longrightarrow> p ! i = p ! j)"
    "lo \<le> a \<Longrightarrow> a < w \<Longrightarrow> \<exists>i. live p0 n lo hi i \<and> p ! i \<le> a \<and> a < p ! i + A i"
    "a < lo \<or> c \<le> a \<Longrightarrow> h a = h0 a"
proof -
  have m: "(live p0 n lo hi i \<and> p0 ! i < c) = live p0 n lo hi i" for i using all by blast
  note d = assms(1) [unfolded compacted_def Let_def m]
  have d5: "\<forall>i < length p0. \<not> live p0 n lo hi i \<longrightarrow> p ! i = p0 ! i"
    and d6: "\<forall>i. live p0 n lo hi i \<longrightarrow> p0 ! i + A i \<le> c \<and> lo \<le> p ! i \<and> p ! i + A i \<le> w \<and>
        32 dvd (p ! i - lo) \<and> (\<forall>k < A i. h (p ! i + k) = h0 (p0 ! i + k))"
    and d7: "\<forall>i j. live p0 n lo hi i \<longrightarrow> live p0 n lo hi j \<longrightarrow> (p0 ! i < p0 ! j \<longrightarrow> p ! i + A i \<le> p ! j) \<and>
         (p0 ! i = p0 ! j \<longrightarrow> p ! i = p ! j)"
    and d8: "\<forall>a. lo \<le> a \<and> a < w \<longrightarrow> (\<exists>i. live p0 n lo hi i \<and> p ! i \<le> a \<and> a < p ! i + A i)"
    and d9: "\<forall>a. a < lo \<or> c \<le> a \<longrightarrow> h a = h0 a"
    using d by - (elim conjE, assumption)+
  show "length p = length p0" "lo \<le> w" "w \<le> c" "32 dvd (w - lo)"
    using d by - (elim conjE, assumption)+
  show "i < length p0 \<Longrightarrow> \<not> live p0 n lo hi i \<Longrightarrow> p ! i = p0 ! i" using d5 by blast
  show "live p0 n lo hi i \<Longrightarrow> lo \<le> p ! i \<and> p ! i + A i \<le> w \<and> 32 dvd (p ! i - lo) \<and>
       (\<forall>k < A i. h (p ! i + k) = h0 (p0 ! i + k))" using d6 by blast
  show "live p0 n lo hi i \<Longrightarrow> live p0 n lo hi j \<Longrightarrow>
       (p0 ! i < p0 ! j \<longrightarrow> p ! i + A i \<le> p ! j) \<and> (p0 ! i = p0 ! j \<longrightarrow> p ! i = p ! j)"
    using d7 by blast
  show "lo \<le> a \<Longrightarrow> a < w \<Longrightarrow> \<exists>i. live p0 n lo hi i \<and> p ! i \<le> a \<and> a < p ! i + A i" using d8 by blast
  show "a < lo \<or> c \<le> a \<Longrightarrow> h a = h0 a" using d9 by blast
qed

lemma all_compactedD:
  assumes ok: "blocks_ok A p0 n lo tp hi" and n: "n \<le> length p0" and tp: "tp \<le> hi"
    and c: "all_compacted A p0 n lo tp hi h0 p h w"
  shows "length p = length p0" "lo \<le> w" "w \<le> tp" "32 dvd (w - lo)"
    "\<And>i. i < length p0 \<Longrightarrow> \<not> live p0 n lo hi i \<Longrightarrow> p ! i = p0 ! i"
    "\<And>i. live p0 n lo hi i \<Longrightarrow> lo \<le> p ! i \<and> p ! i + A i \<le> w \<and> 32 dvd (p ! i - lo) \<and>
       (\<forall>k < A i. h (p ! i + k) = h0 (p0 ! i + k))"
    "\<And>i j. live p0 n lo hi i \<Longrightarrow> live p0 n lo hi j \<Longrightarrow>
       (p0 ! i < p0 ! j \<longrightarrow> p ! i + A i \<le> p ! j) \<and> (p0 ! i = p0 ! j \<longrightarrow> p ! i = p ! j)"
    "\<And>a. lo \<le> a \<Longrightarrow> a < w \<Longrightarrow> \<exists>i. live p0 n lo hi i \<and> p ! i \<le> a \<and> a < p ! i + A i"
    "\<And>a. a < lo \<or> tp \<le> a \<Longrightarrow> h a = h0 a"
    "\<And>i. i < length p0 \<Longrightarrow> live p n lo hi i = live p0 n lo hi i"
proof -
  obtain cc where cc: "cc \<le> tp" "compacted A p0 n lo hi h0 cc p h w" "\<forall>i. live p0 n lo hi i \<longrightarrow> p0 ! i < cc"
    using c unfolding all_compacted_def by blast
  note d = compactedD [OF cc(2,3)]
  show "length p = length p0" "lo \<le> w" "32 dvd (w - lo)" by - (rule d(1), rule d(2), rule d(4))
  show np: "p ! i = p0 ! i" if "i < length p0" "\<not> live p0 n lo hi i" for i by (rule d(5) [OF that])
  show "(p0 ! i < p0 ! j \<longrightarrow> p ! i + A i \<le> p ! j) \<and> (p0 ! i = p0 ! j \<longrightarrow> p ! i = p ! j)"
    if "live p0 n lo hi i" "live p0 n lo hi j" for i j by (rule d(7) [OF that])
  show "\<exists>i. live p0 n lo hi i \<and> p ! i \<le> a \<and> a < p ! i + A i" if "lo \<le> a" "a < w" for a
    by (rule d(8) [OF that])
  show "w \<le> tp" using d(3) cc(1) by linarith
  show "h a = h0 a" if "a < lo \<or> tp \<le> a" for a by (rule d(9)) (use that cc(1) in linarith)
  show mv: "lo \<le> p ! i \<and> p ! i + A i \<le> w \<and> 32 dvd (p ! i - lo) \<and>
       (\<forall>k < A i. h (p ! i + k) = h0 (p0 ! i + k))" if "live p0 n lo hi i" for i
    by (rule d(6) [OF that])
  have wtp: "w \<le> hi" using d(3) cc(1) tp by linarith
  show "live p n lo hi i = live p0 n lo hi i" if "i < length p0" for i
  proof (cases "live p0 n lo hi i")
    case True
    then have "0 < A i" by (rule blocks_okD(1) [OF ok])
    then show ?thesis using mv [OF True] True wtp by (auto simp: live_def)
  next
    case False
    then show ?thesis using np [OF that False] by (simp add: live_def)
  qed
qed

text \<open>Aliases and order, both ways.\<close>

lemma all_compacted_order:
  assumes ok: "blocks_ok A p0 n lo tp hi" and n: "n \<le> length p0" and tp: "tp \<le> hi"
    and c: "all_compacted A p0 n lo tp hi h0 p h w" and i: "live p0 n lo hi i" and j: "live p0 n lo hi j"
  shows "(p ! i = p ! j) = (p0 ! i = p0 ! j) \<and> (p ! i < p ! j) = (p0 ! i < p0 ! j)"
proof -
  note pos = blocks_okD(1) [OF ok i] blocks_okD(1) [OF ok j]
  note o = all_compactedD(7) [OF ok n tp c i j] all_compactedD(7) [OF ok n tp c j i]
  consider "p0 ! i < p0 ! j" | "p0 ! i = p0 ! j" | "p0 ! j < p0 ! i" by linarith
  then show ?thesis
  proof cases
    case 1
    then have "p ! i + A i \<le> p ! j" using o(1) by blast
    then show ?thesis using 1 pos by linarith
  next
    case 2
    then show ?thesis using o(1) by simp
  next
    case 3
    then have "p ! j + A j \<le> p ! i" using o(2) by blast
    then show ?thesis using 3 pos by linarith
  qed
qed

lemma all_compacted_blocks_ok:
  assumes ok: "blocks_ok A p0 n lo tp hi" and n: "n \<le> length p0" and tp: "tp \<le> hi"
    and c: "all_compacted A p0 n lo tp hi h0 p h w"
  shows "blocks_ok A p n lo w hi"
proof -
  note d = all_compactedD [OF ok n tp c]
  have lv: "live p0 n lo hi i" if "live p n lo hi i" for i
    using that d(10) [of i] n by (auto simp: live_def)
  have "(p ! i = p ! j \<and> A i = A j) \<or> p ! i + A i \<le> p ! j \<or> p ! j + A j \<le> p ! i"
    if i: "live p0 n lo hi i" and j: "live p0 n lo hi j" for i j
  proof -
    have "A i = A j" if "p0 ! i = p0 ! j"
      using blocks_okD(4) [OF ok i j] blocks_okD(1) [OF ok i] blocks_okD(1) [OF ok j] that by linarith
    then show ?thesis
      using d(7) [OF i j] d(7) [OF j i] linorder_cases [of "p0 ! i" "p0 ! j"] by metis
  qed
  then show ?thesis
    unfolding blocks_ok_def using lv d(6) blocks_okD(1,2) [OF ok] by blast
qed

lemma live_bytes_exact:
  assumes ok: "blocks_ok A p n lo w hi" and w: "lo \<le> w"
    and cover: "\<And>a. lo \<le> a \<Longrightarrow> a < w \<Longrightarrow> \<exists>i. live p n lo hi i \<and> p ! i \<le> a \<and> a < p ! i + A i"
  shows "w = lo + live_bytes A p n lo hi"
proof -
  let ?B = "(\<lambda>i. (p ! i, A i)) ` {i. live p n lo hi i}"
  let ?I = "\<lambda>b. {fst b ..< fst b + snd b}"
  have fin: "finite ?B" by (rule finite_imageI, rule finite_subset [of _ "{..<n}"]) (auto simp: live_def)
  have "(\<Union>b \<in> ?B. ?I b) = {lo ..< w}"
  proof (intro equalityI subsetI)
    fix a assume "a \<in> (\<Union>b \<in> ?B. ?I b)"
    then obtain i where i: "live p n lo hi i" "p ! i \<le> a" "a < p ! i + A i" by auto
    moreover have "p ! i + A i \<le> w" using ok i(1) unfolding blocks_ok_def by blast
    ultimately show "a \<in> {lo ..< w}" by (auto simp: live_def)
  next
    fix a assume "a \<in> {lo ..< w}"
    then show "a \<in> (\<Union>b \<in> ?B. ?I b)" using cover [of a] by auto
  qed
  moreover have "card (\<Union>b \<in> ?B. ?I b) = (\<Sum>b \<in> ?B. card (?I b))"
  proof (rule card_UN_disjoint [OF fin])
    show "\<forall>b \<in> ?B. \<forall>c \<in> ?B. b \<noteq> c \<longrightarrow> ?I b \<inter> ?I c = {}"
    proof (intro ballI impI)
      fix b c assume "b \<in> ?B" "c \<in> ?B" and ne: "b \<noteq> c"
      then obtain i j where ij: "live p n lo hi i" "live p n lo hi j" "b = (p ! i, A i)" "c = (p ! j, A j)"
        by auto
      then have "p ! i + A i \<le> p ! j \<or> p ! j + A j \<le> p ! i"
        using ok ne unfolding blocks_ok_def by blast
      then show "?I b \<inter> ?I c = {}" by (auto simp: ij)
    qed
  qed auto
  ultimately show ?thesis using w by (simp add: live_bytes_def)
qed

text \<open>Moving the blocks does not change how many bytes are live.\<close>

lemma sum_image_same:
  assumes "finite L" and "\<And>i j. i \<in> L \<Longrightarrow> j \<in> L \<Longrightarrow> (f i = f j) = (g i = g j)"
    and "\<And>i. i \<in> L \<Longrightarrow> snd (f i) = (snd (g i) :: nat)"
  shows "sum snd (f ` L) = sum snd (g ` L)"
  using assms
proof (induction L)
  case (insert x L)
  have IH: "sum snd (f ` L) = sum snd (g ` L)" using insert.IH insert.prems by blast
  have same: "f x \<in> f ` L \<longleftrightarrow> g x \<in> g ` L"
    using insert.prems(1) [of x] by (auto simp: image_iff)
  show ?case
  proof (cases "f x \<in> f ` L")
    case True
    then show ?thesis using IH same by (simp add: insert_absorb)
  next
    case False
    then show ?thesis using IH same insert.hyps(1) insert.prems(2) [of x] by simp
  qed
qed simp

lemma live_bytes_same:
  assumes ok: "blocks_ok A p0 n lo tp hi" and n: "n \<le> length p0" and tp: "tp \<le> hi"
    and c: "all_compacted A p0 n lo tp hi h0 p h w"
  shows "live_bytes A p n lo hi = live_bytes A p0 n lo hi"
proof -
  have "live p n lo hi i = live p0 n lo hi i" for i
    using all_compactedD(10) [OF ok n tp c, of i] n by (cases "i < n") (simp, simp add: live_def)
  then have L: "{i. live p n lo hi i} = {i. live p0 n lo hi i}" by simp
  have "sum snd ((\<lambda>i. (p ! i, A i)) ` {i. live p0 n lo hi i})
      = sum snd ((\<lambda>i. (p0 ! i, A i)) ` {i. live p0 n lo hi i})"
  proof (rule sum_image_same)
    show "finite {i. live p0 n lo hi i}" by (rule finite_subset [of _ "{..<n}"]) (auto simp: live_def)
    fix i j assume "i \<in> {i. live p0 n lo hi i}" "j \<in> {i. live p0 n lo hi i}"
    then show "((p ! i, A i) = (p ! j, A j)) = ((p0 ! i, A i) = (p0 ! j, A j))"
      using all_compacted_order [OF ok n tp c, of i j] by simp
  qed simp
  then show ?thesis by (simp add: live_bytes_def L)
qed

section \<open>Properties\<close>

text \<open>The executor's invariant of the fast pool: the manager's, sizes that alignment does not wrap,
  and live blocks below the top that are apart or aliases.\<close>

definition fast_lo :: "mem \<Rightarrow> nat" where "fast_lo m = fast_base m + unat (fast_reserved m)"

definition fast_live :: "mem \<Rightarrow> nat \<Rightarrow> bool" where
  "fast_live m = live (tensor_ptrs m) (unat (num_tensors m)) (fast_lo m) (pool_limit Fast m)"

definition fast_inv :: "tigris_plan \<Rightarrow> mem \<Rightarrow> bool" where
  "fast_inv pl m = (mem_wf m \<and> sizes_ok pl (unat (num_tensors m)) \<and>
     blocks_ok (aligned_size pl) (tensor_ptrs m) (unat (num_tensors m)) (fast_lo m) (pool_top Fast m)
       (pool_limit Fast m))"

definition fast_live_bytes :: "tigris_plan \<Rightarrow> mem \<Rightarrow> nat" where
  "fast_live_bytes pl m = live_bytes (aligned_size pl) (tensor_ptrs m) (unat (num_tensors m)) (fast_lo m)
     (pool_limit Fast m)"

text \<open>What compaction guarantees of memory and pointers.\<close>

definition fast_compacted :: "tigris_plan \<Rightarrow> mem \<Rightarrow> ram \<Rightarrow> mem \<Rightarrow> ram \<Rightarrow> bool" where
  "fast_compacted pl m h m' h' \<longleftrightarrow>
     (\<forall>i < length (tensor_ptrs m). \<not> fast_live m i \<longrightarrow> tensor_ptrs m' ! i = tensor_ptrs m ! i) \<and>
     (\<forall>i. fast_live m i \<longrightarrow> (\<forall>k < aligned_size pl i.
        h' (tensor_ptrs m' ! i + k) = h (tensor_ptrs m ! i + k))) \<and>
     (\<forall>i j. fast_live m i \<longrightarrow> fast_live m j \<longrightarrow>
        (tensor_ptrs m' ! i = tensor_ptrs m' ! j) = (tensor_ptrs m ! i = tensor_ptrs m ! j)) \<and>
     (\<forall>a. a < fast_lo m \<or> pool_top Fast m \<le> a \<longrightarrow> h' a = h a)"

lemma count_compaction_frame [simp]:
  "tensor_ptrs (count_compaction m) = tensor_ptrs m" "num_tensors (count_compaction m) = num_tensors m"
  "fast_base (count_compaction m) = fast_base m" "fast_size (count_compaction m) = fast_size m"
  "fast_reserved (count_compaction m) = fast_reserved m"
  "compact_pool (count_compaction m) pl b f k h = compact_pool m pl b f k h"
  by (simp_all add: count_compaction_def compact_pool_def)

lemma compact_fast_contract:
  assumes inv: "fast_inv pl m"
  shows "wp (compact_fast m pl h) (\<lambda>(m', h'). fast_inv pl m' \<and> fast_compacted pl m h m' h' \<and>
     unat (fast_used m') = unat (fast_reserved m) + fast_live_bytes pl m \<and>
     num_tensors m' = num_tensors m \<and> fast_size m' = fast_size m)"
proof -
  let ?n = "unat (num_tensors m)" and ?p = "tensor_ptrs m" and ?A = "aligned_size pl"
  let ?hi = "pool_limit Fast m" and ?tp = "pool_top Fast m"
  have wf: "mem_wf m" and sz: "sizes_ok pl ?n" and ok: "blocks_ok ?A ?p ?n (fast_lo m) ?tp ?hi"
    using inv by (simp_all add: fast_inv_def)
  have n: "?n \<le> length ?p" using wf by (simp add: mem_wf_def)
  have tp: "?tp \<le> ?hi" by (rule top_le_limit [OF wf])
  have hi: "?hi = fast_base m + unat (fast_size m)" by (simp add: pool_limit_def pool_base_def pool_size_def)
  then have lim: "?hi \<le> fast_base m + 4294967295" using unat_u32_less [of "fast_size m"] by simp
  have lo: "fast_lo m \<le> ?tp"
    using wf by (simp add: fast_lo_def mem_wf_def pool_top_def pool_base_def pool_used_def word_le_nat_alt)
  note run = compact_loop_correct [OF ok sz n tp lim _ lo, where used = "fast_reserved m"
      and p = ?p and h = h and ?h0.0 = h]
  have "wp (compact_pool m pl (fast_base m) (fast_reserved m) (fast_size m) h)
     (\<lambda>(used', p', h'). all_compacted ?A ?p ?n (fast_lo m) ?tp ?hi h p' h' (fast_base m + unat used'))"
    using run compacted_start [of ?A ?p ?n "fast_lo m" ?hi h] n
    by (simp add: compact_pool_def fast_lo_def hi)
  then obtain used' p' h' where cp: "compact_pool m pl (fast_base m) (fast_reserved m) (fast_size m) h
      = Some (used', p', h')"
    and all: "all_compacted ?A ?p ?n (fast_lo m) ?tp ?hi h p' h' (fast_base m + unat used')"
    by (auto dest!: wpD)
  let ?m = "(count_compaction m)\<lparr>tensor_ptrs := p', fast_used := used'\<rparr>"
  have run: "compact_fast m pl h = Some (?m, h')"
    using cp by (simp add: compact_fast_def Let_def)
  note d = all_compactedD [OF ok n tp all] and o = all_compacted_order [OF ok n tp all]
  have lv: "live p' ?n (fast_lo m) ?hi i = live ?p ?n (fast_lo m) ?hi i" for i
    using d(10) [of i] n by (cases "i < ?n") (simp, simp add: live_def)
  have ok': "blocks_ok ?A p' ?n (fast_lo m) (fast_base m + unat used') ?hi"
    by (rule all_compacted_blocks_ok [OF ok n tp all])
  have bytes: "fast_base m + unat used' = fast_lo m + fast_live_bytes pl m"
    using live_bytes_exact [OF ok' d(2)] d(8) live_bytes_same [OF ok n tp all]
    by (simp add: lv fast_live_bytes_def)
  then have used: "unat used' = unat (fast_reserved m) + fast_live_bytes pl m"
    by (simp add: fast_lo_def)
  have le: "unat used' \<le> unat (fast_used m)"
    using d(3) by (simp add: pool_top_def pool_base_def pool_used_def)
  have al: "32 dvd fast_base m + unat used'"
  proof -
    have "fast_base m + unat used' = fast_lo m + (fast_base m + unat used' - fast_lo m)" using d(2) by simp
    moreover have "32 dvd fast_lo m" using wf by (simp add: mem_wf_def fast_lo_def)
    ultimately show ?thesis using dvd_add [OF _ d(4), of "fast_lo m"] by (simp only:)
  qed
  have "mem_wf ?m"
    using wf le al used d(1)
    by (auto simp: mem_wf_def pool_wf_def pool_simps count_compaction_def word_le_nat_alt)
  moreover have "fast_lo ?m = fast_lo m" "pool_limit Fast ?m = ?hi" "pool_top Fast ?m = fast_base m + unat used'"
    by (simp_all add: fast_lo_def pool_simps count_compaction_def)
  ultimately have "fast_inv pl ?m"
    using sz ok' by (simp add: fast_inv_def count_compaction_def)
  moreover have "fast_compacted pl m h ?m h'"
    unfolding fast_compacted_def fast_live_def
    using d(5,6,9) o by (auto simp: count_compaction_def)
  ultimately show ?thesis
    using used by (simp add: run count_compaction_def)
qed

text \<open>C9. Compacting the fast pool ends and keeps the executor's invariant; every live tensor keeps
  all its bytes at its new place, aliases remain aliases, tensors outside the pool keep their
  pointers, no byte outside the used part of the pool changes, and the pool's new top is exactly
  the reserved bytes plus the live ones: no gap is left.\<close>

theorem compact_fast_correct:
  assumes inv: "fast_inv pl m"
  shows "wp (compact_fast m pl h) (\<lambda>(m', h'). fast_inv pl m' \<and> fast_compacted pl m h m' h' \<and>
     unat (fast_used m') = unat (fast_reserved m) + fast_live_bytes pl m \<and>
     num_tensors m' = num_tensors m \<and> fast_size m' = fast_size m)"
  by (rule compact_fast_contract [OF inv])

text \<open>The allocation retried after a compaction fails only when it must: it succeeds exactly
  when the reserved bytes, the live blocks and the rounded request fit the arena together.\<close>

lemma compact_then_alloc:
  assumes inv: "fast_inv pl m" and t: "t < num_tensors m"
  shows "wp (do { (m', h') \<leftarrow> compact_fast m pl h; tigris_mem_alloc_fast (Some m') t n })
    (exactly MEM_ERR_OOM (unat n \<le> 4294967264 \<and>
        unat (fast_reserved m) + fast_live_bytes pl m + round_up (unat n) \<le> unat (fast_size m))
      mem_wf)"
proof -
  obtain m' h' where c: "compact_fast m pl h = Some (m', h')" and wf: "mem_wf m'"
    and used: "unat (fast_used m') = unat (fast_reserved m) + fast_live_bytes pl m"
    and same: "num_tensors m' = num_tensors m" "fast_size m' = fast_size m"
    using wpD [OF compact_fast_contract [OF inv, of h]] by (auto simp: fast_inv_def)
  have base: "pool_base Fast m' \<noteq> 0" using wf by (simp add: mem_wf_def pool_base_def)
  have room: "has_room Fast m' (unat n) \<longleftrightarrow> unat n \<le> 4294967264 \<and>
      unat (fast_reserved m) + fast_live_bytes pl m + round_up (unat n) \<le> unat (fast_size m)"
    by (simp add: has_room_def pool_simps used same add.assoc)
  have "wp (alloc_bump Fast m' t n) (exactly MEM_ERR_OOM (has_room Fast m' (unat n)) mem_wf)"
    by (rule wp_mono [OF alloc_bump_exactly [OF wf _ base]]) (use t same in \<open>auto elim: exactly_mono\<close>)
  then show ?thesis by (simp add: c tigris_mem_alloc_fast_def room)
qed

text \<open>Three tensors of 40, 20 and 40 bytes; the first is dead and the third an alias of no other.\<close>

definition demo_tensor_of :: "u32 \<Rightarrow> tigris_tensor" where
  "demo_tensor_of n = \<lparr> tn_name_str = 0, tn_size_bytes = n, tn_shape_off = 0, tn_ndim = 0, tn_dtype = 3,
     tn_flags = 0, tn_quant_param_idx = NONE_U16, tn_iface_dtype = 0 \<rparr>"

definition demo_heap_plan :: tigris_plan where
  "demo_heap_plan = (empty_plan (concat (map wr_tigris_tensor (map demo_tensor_of [40, 20, 40]))))
     \<lparr> p_tensors := Some 0 \<rparr>"

definition demo_heap :: mem where
  "demo_heap = \<lparr> tensor_ptrs = [0, 4160, 4224], num_tensors = 3, fast_base = 4096, fast_size = 192,
     fast_used = 192, fast_reserved = 0, fast_peak = 192, slow_base = 0, slow_size = 0,
     slow_used = 0, slow_peak = 0, stats = None, tile = tile_ctx_zero \<rparr>"

lemma demo_heap_tensor:
  "i < 3 \<Longrightarrow> plan_tensor demo_heap_plan i = Some (map demo_tensor_of [40, 20, 40] ! i)"
  using tigris_tensor_table.table_roundtrip [where rs = "map demo_tensor_of [40, 20, 40]" and xs = "[]"
      and i = i and ys = "[]"]
  by (simp add: plan_tensor_def demo_heap_plan_def empty_plan_def)

lemma demo_heap_size: "aligned_size demo_heap_plan 1 = 32" "aligned_size demo_heap_plan 2 = 64"
  using demo_heap_tensor [of 1] demo_heap_tensor [of 2]
  by (simp_all add: aligned_size_def demo_tensor_of_def round_up_def)

lemma demo_heap_live: "fast_live demo_heap i \<longleftrightarrow> i = 1 \<or> i = 2"
proof -
  have "i < 3 \<Longrightarrow> i = 0 \<or> i = 1 \<or> i = 2" by linarith
  then show ?thesis
    by (auto simp: fast_live_def live_def demo_heap_def fast_lo_def pool_simps)
qed

lemma demo_heap_inv: "fast_inv demo_heap_plan demo_heap"
proof -
  have "sizes_ok demo_heap_plan 3"
    unfolding sizes_ok_def
  proof (intro allI impI)
    fix i :: nat assume i: "i < 3"
    then have "i = 0 \<or> i = 1 \<or> i = 2" by linarith
    then show "\<exists>t. plan_tensor demo_heap_plan i = Some t \<and> unat (tn_size_bytes t) \<le> 4294967264"
      using demo_heap_tensor [OF i] by (auto simp: demo_tensor_of_def)
  qed
  moreover have "mem_wf demo_heap"
    by (simp add: mem_wf_def pool_wf_def pool_simps demo_heap_def)
  moreover have "blocks_ok (aligned_size demo_heap_plan) (tensor_ptrs demo_heap)
      (unat (num_tensors demo_heap)) (fast_lo demo_heap) (pool_top Fast demo_heap) (pool_limit Fast demo_heap)"
    unfolding blocks_ok_def fast_live_def [symmetric] demo_heap_live
    using demo_heap_size by (auto simp: demo_heap_def pool_simps)
  ultimately show ?thesis by (simp add: fast_inv_def demo_heap_def)
qed

lemma demo_heap_bytes: "fast_live_bytes demo_heap_plan demo_heap = 96"
proof -
  have L: "{i. fast_live demo_heap i} = {1, 2}" using demo_heap_live by auto
  have p: "tensor_ptrs demo_heap ! 1 = 4160" "tensor_ptrs demo_heap ! 2 = 4224"
    by (simp_all add: demo_heap_def)
  have "fast_live_bytes demo_heap_plan demo_heap
      = sum snd ((\<lambda>i. (tensor_ptrs demo_heap ! i, aligned_size demo_heap_plan i)) ` {1, 2})"
    unfolding fast_live_bytes_def live_bytes_def fast_live_def [symmetric] L ..
  then show ?thesis by (simp add: demo_heap_size p del: One_nat_def)
qed

lemma demo_heap_fields:
  "fast_reserved demo_heap = 0" "fast_size demo_heap = 192" "num_tensors demo_heap = 3"
  "tensor_ptrs demo_heap ! 1 = 4160"
  by (simp_all add: demo_heap_def)

text \<open>The 96 live bytes move to the front and leave room for another 96.\<close>

lemma compact_fast_correct_witness:
  "wp (compact_fast demo_heap demo_heap_plan demo_ram) (\<lambda>(m', h'). unat (fast_used m') = 96 \<and>
     (\<forall>k < 32. h' (tensor_ptrs m' ! 1 + k) = demo_ram (4160 + k)))"
  by (rule wp_mono [OF compact_fast_correct [OF demo_heap_inv, of demo_ram]])
    (use demo_heap_live [of 1] in
      \<open>auto simp: fast_compacted_def demo_heap_bytes demo_heap_fields demo_heap_size simp del: One_nat_def\<close>)

end
