(* ===== verification/Fixed_Point.thy ===== *)
theory Fixed_Point
  imports Plan_Format "HOL-Library.Signed_Division"
begin

text \<open>
  The fixed-point arithmetic of the int8 kernels, \<open>src/tigris_kernels_s8.c\<close>: rounding
  multiplication and division, saturation, the requantization every int8 kernel ends with, and
  the integer approximations of the elementwise operators.

  A C \<open>int32_t\<close> is an \<open>int\<close>; an operation whose result leaves the type, a shift by a count the
  type does not have and a division by zero are \<open>None\<close> (undefined behaviour). A cast from
  \<open>uint32_t\<close> to \<open>int32_t\<close> reads the word as two's complement.

  What is shown: on every \<open>int32_t\<close> input the rounding primitives have no undefined behaviour and
  equal a one-line mathematical rounding; what they compose to stays in its type and within a
  stated distance of the exact value.
\<close>

unbundle bit_operations_syntax

section \<open>Signed integers of the machine\<close>

abbreviation (input) INT32_MAX :: int where "INT32_MAX \<equiv> 2147483647"
abbreviation (input) INT32_MIN :: int where "INT32_MIN \<equiv> -2147483648"
abbreviation (input) INT16_MAX :: int where "INT16_MAX \<equiv> 32767"
abbreviation (input) INT16_MIN :: int where "INT16_MIN \<equiv> -32768"

definition is_i32 :: "int \<Rightarrow> bool" where
  "is_i32 v = (INT32_MIN \<le> v \<and> v \<le> INT32_MAX)"

definition is_i16 :: "int \<Rightarrow> bool" where
  "is_i16 v = (INT16_MIN \<le> v \<and> v \<le> INT16_MAX)"

definition is_i8 :: "int \<Rightarrow> bool" where
  "is_i8 v = (-128 \<le> v \<and> v \<le> 127)"

definition i64 :: "int \<Rightarrow> int option" where
  "i64 v = (if -9223372036854775808 \<le> v \<and> v < 9223372036854775808 then Some v else None)"

lemma wp_i64 [wp_rules]:
  "wp (i64 v) P = (-9223372036854775808 \<le> v \<and> v < 9223372036854775808 \<and> P v)"
  by (auto simp: i64_def)

text \<open>\<open>(int32_t)1 << n\<close> and \<open>(int64_t)1 << n\<close>.\<close>

definition shl32 :: "int \<Rightarrow> int option" where
  "shl32 n = (if 0 \<le> n \<and> n < 31 then Some (2 ^ nat n) else None)"

definition shl64 :: "int \<Rightarrow> int option" where
  "shl64 n = (if 0 \<le> n \<and> n < 63 then Some (2 ^ nat n) else None)"

lemma wp_shl32 [wp_rules]: "wp (shl32 n) P = (0 \<le> n \<and> n < 31 \<and> P (2 ^ nat n))"
  by (auto simp: shl32_def)

lemma wp_shl64 [wp_rules]: "wp (shl64 n) P = (0 \<le> n \<and> n < 63 \<and> P (2 ^ nat n))"
  by (auto simp: shl64_def)

text \<open>\<open>(int32_t)(uint32_t)v\<close>.\<close>

definition wrap32 :: "int \<Rightarrow> int" where
  "wrap32 v = sint (word_of_int v :: u32)"

lemma is_i32_wrap32 [simp]: "is_i32 (wrap32 v)"
  using sint_ge [of "word_of_int v :: u32"] sint_lt [of "word_of_int v :: u32"]
  by (simp add: is_i32_def wrap32_def)

lemma sint_of_int_u32: "is_i32 v \<Longrightarrow> sint (word_of_int v :: u32) = v"
  by (simp add: sint_sbintrunc' is_i32_def signed_take_bit_int_eq_self)

lemma wrap32_id: "is_i32 v \<Longrightarrow> wrap32 v = v"
  by (simp add: wrap32_def sint_of_int_u32)

section \<open>Clamping\<close>

definition clamp_s8 :: "int \<Rightarrow> int" where
  "clamp_s8 x = (if x < -128 then -128 else if x > 127 then 127 else x)"

definition clamp_act :: "int \<Rightarrow> int \<Rightarrow> int \<Rightarrow> int" where
  "clamp_act x act_min act_max = (if x < act_min then act_min else if x > act_max then act_max else x)"

definition load_bias_s32 :: "bytes \<Rightarrow> nat \<Rightarrow> u32 \<Rightarrow> int option" where
  "load_bias_s32 b bias index = rdi32 b (bias + unat index * 4)"

section \<open>Rounding multiplication and division\<close>

definition sat_round_dbl_high_mul :: "int \<Rightarrow> int \<Rightarrow> int option" where
  "sat_round_dbl_high_mul a b =
     (if a = INT32_MIN \<and> b = INT32_MIN then Some INT32_MAX
      else do {
        ab \<leftarrow> i64 (a * b);
        let nudge = (if ab \<ge> 0 then 1073741824 else 1 - 1073741824);
        v \<leftarrow> i64 (ab + nudge);
        i32 (v sdiv 2147483648) })"

definition round_div_by_pot :: "int \<Rightarrow> int \<Rightarrow> int option" where
  "round_div_by_pot x exponent =
     (if exponent \<le> 0 then Some x
      else if exponent > 31 then Some (if exponent = 32 \<and> x = INT32_MIN then -1 else 0)
      else
        let n = nat exponent;
            ux = (word_of_int x :: u32);
            mask = push_bit n (1 :: u32) - 1;
            remainder = ux AND mask;
            threshold = drop_bit 1 mask + (if x < 0 then 1 else 0);
            quotient = (if x \<ge> 0 then sint (drop_bit n ux) else -1 - sint (drop_bit n (NOT ux)))
        in i32 (quotient + (if remainder > threshold then 1 else 0)))"

function clz_loop :: "u32 \<Rightarrow> nat \<Rightarrow> nat option" where
  "clz_loop x n =
     (if n \<ge> 32 then None
      else if x AND drop_bit n 0x80000000 = 0 then clz_loop x (Suc n) else Some n)"
  by pat_completeness auto
termination by (relation "measure (\<lambda>(x, n). 32 - n)") auto

declare clz_loop.simps [simp del]

definition count_leading_zeros :: "u32 \<Rightarrow> int option" where
  "count_leading_zeros x = (if x = 0 then Some 32 else map_option int (clz_loop x 0))"

definition multiply_by_quantized_multiplier :: "int \<Rightarrow> int \<Rightarrow> int \<Rightarrow> int option" where
  "multiply_by_quantized_multiplier x multiplier shift = do {
     let left = (if shift > 0 then shift else 0);
     right \<leftarrow> (if shift > 0 then Some 0 else i32 (- shift));
     scale \<leftarrow> shl32 left;
     scaled \<leftarrow> i32 (x * scale);
     high \<leftarrow> sat_round_dbl_high_mul scaled multiplier;
     round_div_by_pot high right }"

definition round_divide_away_from_zero :: "int \<Rightarrow> int \<Rightarrow> int option" where
  "round_divide_away_from_zero value divisor =
     (if divisor = 0 then None
      else do {
        let half = divisor sdiv 2;
        moved \<leftarrow> (if value > 0 then i32 (value + half) else i32 (value - half));
        i32 (moved sdiv divisor) })"

text \<open>\<open>requantize_mean\<close> computes in \<open>double\<close>; it is the argument \<open>requantize\<close>.\<close>

definition average_pool_quantize ::
  "(int \<Rightarrow> int \<Rightarrow> int option) \<Rightarrow> int \<Rightarrow> int \<Rightarrow> bool \<Rightarrow> int \<Rightarrow> int \<Rightarrow> int \<Rightarrow> int option" where
  "average_pool_quantize requantize acc count same_quant input_zp act_min act_max = do {
     q \<leftarrow> (if same_quant then round_divide_away_from_zero acc count
           else do { zero \<leftarrow> i32 (input_zp * count); centered \<leftarrow> i32 (acc - zero);
                     requantize centered count });
     Some (clamp_act q act_min act_max) }"

text \<open>The fold of a sample count into a multiplier: \<open>s\<close> is the integer logarithm of the
  count.\<close>

fun log2_loop :: "nat \<Rightarrow> nat \<Rightarrow> int \<Rightarrow> int" where
  "log2_loop 0 remaining s = s"
| "log2_loop (Suc fuel) remaining s =
     (if remaining > 1 then log2_loop fuel (remaining div 2) (s + 1) else s)"

definition fold_count :: "int \<Rightarrow> int \<Rightarrow> int \<Rightarrow> (int \<times> int) option" where
  "fold_count count mult shift =
     (if count > 1 then do {
        let s = min (log2_loop 32 (nat count) 0) 32;
        max_s \<leftarrow> i32 (31 + shift);
        let s = min s (max 0 max_s);
        scale \<leftarrow> shl64 s;
        v \<leftarrow> i64 (mult * scale);
        m \<leftarrow> i32 (v sdiv count);
        sh \<leftarrow> i32 (shift - s);
        Some (m, sh) }
      else Some (mult, shift))"

section \<open>Requantization parameters\<close>

text \<open>The multiplier and shift pointers of an output tensor are the table accessors of its
  quantization record; a tensor without one has none.\<close>

record requant_params =
  rq_multiplier :: "(nat \<Rightarrow> int option) option"
  rq_shift :: "(nat \<Rightarrow> int option) option"
  rq_per_channel :: bool

definition requant_resolve :: "tigris_plan \<Rightarrow> quant_param option \<Rightarrow> requant_params" where
  "requant_resolve pl qp =
     (case qp of
        None \<Rightarrow> \<lparr> rq_multiplier = None, rq_shift = None, rq_per_channel = False \<rparr>
      | Some q \<Rightarrow> \<lparr> rq_multiplier = Some (tigris_quant_multipliers pl q),
                    rq_shift = Some (tigris_quant_shifts pl q),
                    rq_per_channel = (qp_num_channels q > 1) \<rparr>)"

definition requant_apply :: "requant_params \<Rightarrow> int \<Rightarrow> nat \<Rightarrow> int option" where
  "requant_apply rq acc channel =
     (case rq_multiplier rq of
        None \<Rightarrow> multiply_by_quantized_multiplier acc 1 0
      | Some multiplier \<Rightarrow> do {
          let idx = (if rq_per_channel rq then channel else 0);
          m \<leftarrow> multiplier idx;
          shift \<leftarrow> rq_shift rq;
          sh \<leftarrow> shift idx;
          multiply_by_quantized_multiplier acc m sh })"

section \<open>Elementwise fixed-point operators\<close>

definition elementwise_shift_left :: "int \<Rightarrow> int \<Rightarrow> int option" where
  "elementwise_shift_left value shift = do {
     scale \<leftarrow> shl64 shift;
     v \<leftarrow> i64 (value * scale);
     Some (if v > INT32_MAX then INT32_MAX else if v < INT32_MIN then INT32_MIN else v) }"

definition elementwise_multiply :: "int \<Rightarrow> int \<Rightarrow> int \<Rightarrow> int option" where
  "elementwise_multiply value multiplier shift = do {
     let left = (if shift > 0 then shift else 0);
     right \<leftarrow> (if shift < 0 then i32 (- shift) else Some 0);
     shifted \<leftarrow> elementwise_shift_left value left;
     product \<leftarrow> sat_round_dbl_high_mul shifted multiplier;
     if right > 31 then Some 0 else round_div_by_pot product right }"

text \<open>The kernels write an int8 code or refuse; \<open>saturated_code\<close> is the clamp two of them share.\<close>

definition saturated_code :: "int \<Rightarrow> int \<Rightarrow> int option" where
  "saturated_code v zero = do {
     high \<leftarrow> i32 (127 - zero);
     if v > high then Some 127
     else do {
       low \<leftarrow> i32 (-128 - zero);
       if v < low then Some (-128) else i32 (v + zero) } }"

definition elementwise_requantize :: "int \<Rightarrow> int \<Rightarrow> int \<Rightarrow> int \<Rightarrow> (unit + int) option" where
  "elementwise_requantize value multiplier shift zero =
     (if shift < -31 \<or> shift > 30 then fail ()
      else do {
        let left = (if shift > 0 then shift else 0);
        scale \<leftarrow> shl64 left;
        shifted \<leftarrow> i64 (value * scale);
        if shifted > INT32_MAX \<or> shifted < INT32_MIN then fail ()
        else do {
          v \<leftarrow> elementwise_multiply value multiplier shift;
          code \<leftarrow> saturated_code v zero;
          ret code } })"

text \<open>\<open>while (reduced >= 1 << 29)\<close> of \<open>elementwise_inverse_sqrt\<close>.\<close>

function reduce_loop :: "int \<Rightarrow> int \<Rightarrow> int \<times> int" where
  "reduce_loop reduced shift =
     (if reduced \<ge> 536870912 then reduce_loop (reduced sdiv 4) (shift + 1) else (reduced, shift))"
  by pat_completeness auto
termination
  by (relation "measure (\<lambda>(reduced, shift). nat reduced)") (auto simp: signed_divide_int_def)

declare reduce_loop.simps [simp del]

definition inverse_sqrt_step :: "int \<Rightarrow> int \<Rightarrow> int option" where
  "inverse_sqrt_step half estimate = do {
     squared \<leftarrow> sat_round_dbl_high_mul estimate estimate;
     cube \<leftarrow> sat_round_dbl_high_mul squared estimate;
     cube \<leftarrow> elementwise_shift_left cube 6;
     linear \<leftarrow> sat_round_dbl_high_mul 402653184 estimate;
     cubic \<leftarrow> sat_round_dbl_high_mul half cube;
     next_estimate \<leftarrow> i32 (linear - cubic);
     elementwise_shift_left next_estimate 3 }"

fun iterate :: "nat \<Rightarrow> ('a \<Rightarrow> 'a option) \<Rightarrow> 'a \<Rightarrow> 'a option" where
  "iterate 0 f a = Some a"
| "iterate (Suc n) f a = do { b \<leftarrow> f a; iterate n f b }"

text \<open>The result and the output shift.\<close>

definition elementwise_inverse_sqrt :: "int \<Rightarrow> (int \<times> int) option" where
  "elementwise_inverse_sqrt value =
     (if value \<le> 1 then Some (INT32_MAX, 0)
      else do {
        let (reduced, shift) = reduce_loop value 11;
        leading \<leftarrow> count_leading_zeros (word_of_int reduced);
        let pairs = (leading - 1) sdiv 2 - 1;
        let shift = shift - pairs;
        scale \<leftarrow> shl32 (2 * pairs);
        normalized \<leftarrow> i32 (reduced * scale);
        half \<leftarrow> round_div_by_pot (drop_bit 1 normalized) 1;
        estimate \<leftarrow> iterate 5 (inverse_sqrt_step half) 268435456;
        estimate \<leftarrow> sat_round_dbl_high_mul estimate 1518500250;
        if shift < 0 then do { v \<leftarrow> elementwise_shift_left estimate (- shift); Some (v, 0) }
        else Some (estimate, - shift) })"

definition reciprocal_step :: "int \<Rightarrow> int \<Rightarrow> int option" where
  "reciprocal_step half estimate = do {
     product \<leftarrow> sat_round_dbl_high_mul half estimate;
     error \<leftarrow> i32 (536870912 - product);
     correction \<leftarrow> sat_round_dbl_high_mul estimate error;
     correction \<leftarrow> elementwise_shift_left correction 2;
     i32 (estimate + correction) }"

text \<open>A left shift of a \<open>uint32_t\<close>: the count must be below the width.\<close>

definition shl_u32 :: "u32 \<Rightarrow> int \<Rightarrow> u32 option" where
  "shl_u32 w n = (if 0 \<le> n \<and> n < 32 then Some (push_bit (nat n) w) else None)"

definition elementwise_reciprocal :: "int \<Rightarrow> (int \<times> int) option" where
  "elementwise_reciprocal value = do {
     leading \<leftarrow> count_leading_zeros (word_of_int value);
     shifted \<leftarrow> shl_u32 (word_of_int value) leading;
     let normalized = shifted - 0x80000000;
     half \<leftarrow> i32 ((uint normalized + INT32_MAX + 1) sdiv 2);
     product \<leftarrow> sat_round_dbl_high_mul half (-1010580540);
     estimate \<leftarrow> i32 (1515870810 + product);
     estimate \<leftarrow> iterate 3 (reciprocal_step half) estimate;
     v \<leftarrow> elementwise_shift_left estimate 1;
     Some (v, 31 - leading) }"

definition elementwise_divide :: "int \<Rightarrow> int \<Rightarrow> int \<Rightarrow> int \<Rightarrow> int \<Rightarrow> (unit + int) option" where
  "elementwise_divide numerator denominator multiplier shift zero =
     (if denominator = 0 then fail ()
      else do {
        a \<leftarrow> (if denominator < 0 then i32 (- numerator) else Some numerator);
        b \<leftarrow> (if denominator < 0 then i32 (- denominator) else Some denominator);
        (inverse, reciprocal_shift) \<leftarrow> elementwise_reciprocal b;
        let sign_bits = (if a < 0 then NOT (word_of_int a :: u32) else word_of_int a);
        leading \<leftarrow> count_leading_zeros sign_bits;
        let headroom = leading - 1;
        scale \<leftarrow> shl64 headroom;
        scaled \<leftarrow> i64 (a * scale);
        quotient \<leftarrow> sat_round_dbl_high_mul (wrap32 scaled) inverse;
        exponent \<leftarrow> i32 (reciprocal_shift + headroom - shift);
        if exponent < 0 then fail ()
        else do {
          product \<leftarrow> sat_round_dbl_high_mul quotient multiplier;
          v \<leftarrow> round_div_by_pot product exponent;
          code \<leftarrow> saturated_code v zero;
          ret code } })"

section \<open>16-bit multiplication and HardSwish\<close>

definition sat_round_dbl_high_mul16 :: "int \<Rightarrow> int \<Rightarrow> int option" where
  "sat_round_dbl_high_mul16 a b =
     (if a = INT16_MIN \<and> b = INT16_MIN then Some INT16_MAX
      else do {
        ab \<leftarrow> i32 (a * b);
        let nudge = (if ab \<ge> 0 then 16384 else 1 - 16384);
        v \<leftarrow> i32 (ab + nudge);
        i32 (v sdiv 32768) })"

definition sat_dbl_high_mul16 :: "int \<Rightarrow> int \<Rightarrow> int option" where
  "sat_dbl_high_mul16 a b =
     (if a = INT16_MIN \<and> b = INT16_MIN then Some INT16_MAX
      else do { ab \<leftarrow> i32 (a * b); i32 (ab sdiv 32768) })"

definition sat_left_shift16 :: "int \<Rightarrow> int \<Rightarrow> int option" where
  "sat_left_shift16 value amount = do {
     scale \<leftarrow> shl64 amount;
     v \<leftarrow> i64 (value * scale);
     Some (if v > INT16_MAX then INT16_MAX else if v < INT16_MIN then INT16_MIN else v) }"

text \<open>A right shift of a signed value is arithmetic, \<open>drop_bit\<close>.\<close>

definition int16_multiplier :: "int \<Rightarrow> int option" where
  "int16_multiplier multiplier =
     (if multiplier \<ge> INT32_MAX - 32768 then Some INT16_MAX
      else do { v \<leftarrow> i32 (multiplier + 32768); Some (drop_bit 16 v) })"

record hardswish_params =
  hs_in_zp :: int
  hs_out_zp :: int
  hs_out_mult :: int
  hs_reluish_mult :: int
  hs_out_exp :: int
  hs_reluish_exp :: int

definition hardswish_entry :: "int \<Rightarrow> hardswish_params \<Rightarrow> int option" where
  "hardswish_entry code p = do {
     let x = sint (word_of_int code :: u8);
     offset \<leftarrow> i32 (x - hs_in_zp p);
     hires \<leftarrow> i32 (offset * 128);
     preshift \<leftarrow> sat_round_dbl_high_mul16 hires (hs_out_mult p);
     reluish \<leftarrow> (if hs_reluish_exp p > 0 then sat_left_shift16 hires (hs_reluish_exp p - 1)
                 else Some hires);
     reluish \<leftarrow> sat_round_dbl_high_mul16 reluish (hs_reluish_mult p);
     reluish \<leftarrow> (if hs_reluish_exp p > 0 then sat_left_shift16 reluish 1 else Some reluish);
     reluish \<leftarrow> (if hs_reluish_exp p < 0
                 then do { e \<leftarrow> i32 (- hs_reluish_exp p); round_div_by_pot reluish e }
                 else Some reluish);
     moved \<leftarrow> i32 (reluish + 32768);
     let reluish = drop_bit 1 moved;
     product \<leftarrow> sat_dbl_high_mul16 reluish preshift;
     e \<leftarrow> i32 (- hs_out_exp p);
     value \<leftarrow> round_div_by_pot product e;
     v \<leftarrow> i32 (value + hs_out_zp p);
     Some (clamp_s8 v) }"

section \<open>The primitives as mathematical rounding\<close>

text \<open>Rounding to the nearest, ties up, and ties away from zero.\<close>

definition round_half_up :: "int \<Rightarrow> nat \<Rightarrow> int" where
  "round_half_up v k = (if k = 0 then v else (v + 2 ^ (k - 1)) div 2 ^ k)"

definition round_half_away :: "int \<Rightarrow> nat \<Rightarrow> int" where
  "round_half_away v k =
     (if k = 0 then v else if v \<ge> 0 then (v + 2 ^ (k - 1)) div 2 ^ k else - ((- v + 2 ^ (k - 1)) div 2 ^ k))"

lemma i32_mult_bounds:
  assumes "is_i32 a" and "is_i32 b"
  shows "\<bar>a * b\<bar> \<le> 4611686018427387904"
proof -
  have "\<bar>a\<bar> \<le> 2147483648" "\<bar>b\<bar> \<le> 2147483648" using assms by (auto simp: is_i32_def)
  then have "\<bar>a\<bar> * \<bar>b\<bar> \<le> 2147483648 * 2147483648" by (intro mult_mono) auto
  then show ?thesis by (simp add: abs_mult)
qed

lemma i32_mult_saturated:
  assumes "is_i32 a" and "is_i32 b" and "\<not> (a = INT32_MIN \<and> b = INT32_MIN)"
  shows "a * b \<le> 4611686016279904256"
proof (cases "a = INT32_MIN \<or> b = INT32_MIN")
  case True
  then show ?thesis using assms by (auto simp: is_i32_def)
next
  case False
  then have "\<bar>a\<bar> \<le> 2147483647" "\<bar>b\<bar> \<le> 2147483647" using assms by (auto simp: is_i32_def)
  then have "\<bar>a\<bar> * \<bar>b\<bar> \<le> 2147483647 * 2147483647" by (intro mult_mono) auto
  moreover have "a * b \<le> \<bar>a\<bar> * \<bar>b\<bar>" by (metis abs_ge_self abs_mult)
  ultimately show ?thesis by simp
qed

lemma nudged_division:
  "(ab + (if ab \<ge> 0 then 1073741824 else 1 - 1073741824)) sdiv (2147483648 :: int) =
     (ab + 1073741824) div 2147483648"
proof (cases "0 \<le> ab")
  case True
  then show ?thesis by (simp add: signed_divide_int_def)
next
  case False
  then have neg: "ab + (1 - 1073741824) < 0" by simp
  have "(ab + (1 - 1073741824)) sdiv 2147483648 = - ((- ab + 1073741823) div 2147483648)"
    using neg by (simp add: signed_divide_int_def sgn_if)
  also have "\<dots> = (ab + 1073741824) div 2147483648" by linarith
  finally show ?thesis using False by simp
qed

definition doubling_high_mul :: "int \<Rightarrow> int \<Rightarrow> int" where
  "doubling_high_mul a b =
     (if a = INT32_MIN \<and> b = INT32_MIN then INT32_MAX else round_half_up (a * b) 31)"

lemma is_i32_doubling_high_mul:
  assumes "is_i32 a" and "is_i32 b"
  shows "is_i32 (doubling_high_mul a b)"
proof (cases "a = INT32_MIN \<and> b = INT32_MIN")
  case True
  then show ?thesis by (simp add: doubling_high_mul_def is_i32_def)
next
  case False
  have "a * b \<le> 4611686016279904256" by (rule i32_mult_saturated) (use assms False in auto)
  moreover have "- 4611686018427387904 \<le> a * b" using i32_mult_bounds [OF assms] by linarith
  ultimately show ?thesis
    using False by (auto simp: doubling_high_mul_def round_half_up_def is_i32_def)
qed

lemma sat_round_dbl_high_mul_eq:
  assumes "is_i32 a" and "is_i32 b"
  shows "sat_round_dbl_high_mul a b = Some (doubling_high_mul a b)"
proof (cases "a = INT32_MIN \<and> b = INT32_MIN")
  case True
  then show ?thesis by (simp add: sat_round_dbl_high_mul_def doubling_high_mul_def)
next
  case False
  have eq: "doubling_high_mul a b = (a * b + 1073741824) div 2147483648"
    using False by (auto simp: doubling_high_mul_def round_half_up_def)
  have range: "\<bar>a * b\<bar> \<le> 4611686018427387904" using i32_mult_bounds [OF assms] .
  have fits: "-2147483648 \<le> doubling_high_mul a b \<and> doubling_high_mul a b < 2147483648"
    using is_i32_doubling_high_mul [OF assms] by (auto simp: is_i32_def)
  show ?thesis
    using False range fits unfolding sat_round_dbl_high_mul_def
    by (auto simp: i64_def i32_def Let_def nudged_division eq [symmetric])
qed

lemma mask_u32: "push_bit n (1 :: u32) - 1 = mask n"
  by (simp add: mask_eq_exp_minus_1 push_bit_eq_mult)

lemma uint_of_int_u32_mod: "uint (word_of_int x :: u32) = x mod 4294967296"
  by (simp add: unsigned_of_int take_bit_eq_mod)

lemma pow_dvd_u32: "n \<le> 32 \<Longrightarrow> (2 :: int) ^ n dvd 4294967296"
  using le_imp_power_dvd [of n 32 "2 :: int"] by simp

lemma remainder_u32:
  assumes "n \<le> 32"
  shows "uint ((word_of_int x :: u32) AND mask n) = x mod 2 ^ n"
proof -
  have "uint ((word_of_int x :: u32) AND mask n) = take_bit n (uint (word_of_int x :: u32))"
    by (simp only: take_bit_eq_mask [symmetric] unsigned_take_bit_eq)
  then show ?thesis
    using pow_dvd_u32 [OF assms]
    by (simp only: take_bit_eq_mod uint_of_int_u32_mod mod_mod_cancel)
qed

lemma threshold_u32:
  assumes "0 < n" and "n \<le> 31"
  shows "uint (drop_bit 1 (mask n :: u32)) = 2 ^ (n - 1) - 1"
proof -
  have "drop_bit 1 (mask n :: u32) = mask (n - 1)"
    using assms by (intro bit_word_eqI) (auto simp: bit_simps)
  also have "\<dots> = word_of_int (2 ^ (n - 1) - 1)"
    by (simp add: mask_eq_exp_minus_1)
  finally have "uint (drop_bit 1 (mask n :: u32)) = (2 ^ (n - 1) - 1) mod 4294967296"
    by (simp only: uint_of_int_u32_mod)
  moreover have "(2 :: int) ^ (n - 1) \<le> 2 ^ 30" using assms by (intro power_increasing) auto
  ultimately show ?thesis by simp
qed

lemma take_bit_uint_u32: "take_bit 32 (uint (w :: u32)) = uint w"
  by transfer simp

lemma quotient_u32:
  assumes "0 < n" and "n \<le> 31" and "0 \<le> x" and "x < 4294967296"
  shows "sint (drop_bit n (word_of_int x :: u32)) = x div 2 ^ n"
proof -
  have "uint (drop_bit n (word_of_int x :: u32)) = drop_bit n (uint (word_of_int x :: u32))"
    by (simp only: unsigned_drop_bit_eq) (simp add: take_bit_uint_u32)
  then have u: "uint (drop_bit n (word_of_int x :: u32)) = x div 2 ^ n"
    using assms by (simp only: drop_bit_eq_div uint_of_int_u32_mod) simp
  have "x div 2 ^ n \<le> x div 2 ^ 1"
    using assms by (intro zdiv_mono2) (auto simp: power_increasing self_le_power)
  then have small: "x div 2 ^ n < 2147483648" using assms by simp
  have "0 \<le> x div 2 ^ n" using assms by (simp add: pos_imp_zdiv_nonneg_iff)
  moreover have "drop_bit n (word_of_int x :: u32) = word_of_int (x div 2 ^ n)"
    using u by (metis word_of_int_uint)
  ultimately show ?thesis
    using small sint_of_int_u32 [of "x div 2 ^ n"] by (simp only: is_i32_def) simp
qed

text \<open>Quotient and remainder of the two roundings, with \<open>h\<close> half the divisor.\<close>

lemma div_remainder_half:
  fixes x h :: int
  assumes "0 < h"
  shows "x div (2 * h) + (if x mod (2 * h) > h - 1 then 1 else 0) = (x + h) div (2 * h)"
    and "x div (2 * h) + (if x mod (2 * h) > h then 1 else 0) = - ((- x + h) div (2 * h))"
proof -
  define q r where "q = x div (2 * h)" and "r = x mod (2 * h)"
  have x: "x = 2 * h * q + r"
    unfolding q_def r_def by (rule mult_div_mod_eq [symmetric])
  have r: "0 \<le> r" "r < 2 * h" using assms by (simp_all add: r_def)
  have "(x + h) div (2 * h) = q + (if r > h - 1 then 1 else 0)"
    by (rule int_div_pos_eq [where r = "if r > h - 1 then r - h else r + h"])
      (use r x assms in \<open>auto simp: algebra_simps\<close>)
  then show "x div (2 * h) + (if x mod (2 * h) > h - 1 then 1 else 0) = (x + h) div (2 * h)"
    by (simp only: q_def r_def)
  have "(- x + h) div (2 * h) = - q - (if r > h then 1 else 0)"
    by (rule int_div_pos_eq [where r = "if r > h then 3 * h - r else h - r"])
      (use r x assms in \<open>auto simp: algebra_simps\<close>)
  then show "x div (2 * h) + (if x mod (2 * h) > h then 1 else 0) = - ((- x + h) div (2 * h))"
    by (simp only: q_def r_def)
qed

lemma round_half_away_range: "min 0 x \<le> round_half_away x k \<and> round_half_away x k \<le> max 0 x"
proof (cases "k = 0")
  case True
  then show ?thesis by (simp add: round_half_away_def)
next
  case False
  define h :: int where "h = 2 ^ (k - 1)"
  have p: "(2 :: int) ^ k = 2 * h" using False by (simp add: h_def power_eq_if)
  have h: "1 \<le> h" by (simp add: h_def)
  have up: "(y + h) div (2 * h) \<le> y" if "0 < y" for y :: int
  proof -
    have "0 \<le> (y - 1) * (h - 1)" "1 * 1 \<le> y * h" using that h by (simp, intro mult_mono) auto
    then have "y + h \<le> y * (2 * h)" by (simp add: algebra_simps)
    then have "(y + h) div (2 * h) \<le> (y * (2 * h)) div (2 * h)"
      using h by (intro zdiv_mono1) auto
    then show ?thesis using h by simp
  qed
  have lo: "0 \<le> (y + h) div (2 * h)" if "0 \<le> y" for y :: int
    using that h by (simp add: pos_imp_zdiv_nonneg_iff)
  have "h div (2 * h) = 0" using h by (simp add: div_pos_pos_trivial)
  then show ?thesis
    using up [of x] up [of "- x"] lo [of x] lo [of "- x"] False
    unfolding round_half_away_def p h_def [symmetric]
    by (cases "x = 0"; cases "0 < x") auto
qed

lemma round_half_away_abs: "\<bar>round_half_away x k\<bar> \<le> \<bar>x\<bar>"
  using round_half_away_range [of x k] by linarith

lemma round_half_away_bounds: "is_i32 x \<Longrightarrow> is_i32 (round_half_away x k)"
  using round_half_away_range [of x k] by (simp add: is_i32_def min_def max_def split: if_splits)

lemma round_div_by_pot_eq:
  assumes "is_i32 x"
  shows "round_div_by_pot x e = Some (round_half_away x (nat e))"
proof -
  consider "e \<le> 0" | "0 < e" "e \<le> 31" | "31 < e" by linarith
  then show ?thesis
  proof cases
    case 1
    then show ?thesis by (simp add: round_div_by_pot_def round_half_away_def)
  next
    case 2
    define n where "n = nat e"
    have n: "0 < n" "n \<le> 31" using 2 by (simp_all add: n_def)
    define h :: int where "h = 2 ^ (n - 1)"
    have p: "(2 :: int) ^ n = 2 * h" using n by (simp add: h_def power_eq_if)
    have h: "0 < h" by (simp add: h_def)
    have hb: "h \<le> 1073741824"
      using n power_increasing [of "n - 1" 30 "2 :: int"] by (simp add: h_def)
    let ?ux = "word_of_int x :: u32"
    have mask: "push_bit n (1 :: u32) - 1 = mask n" by (rule mask_u32)
    have rem: "uint (?ux AND mask n) = x mod (2 * h)"
      using n by (simp only: remainder_u32 p)
    have thr: "uint (drop_bit 1 (mask n :: u32)) = h - 1"
      using n by (simp only: threshold_u32 h_def)
    have thr1: "uint (drop_bit 1 (mask n :: u32) + 1) = h"
    proof -
      have "drop_bit 1 (mask n :: u32) + 1 = word_of_int (uint (drop_bit 1 (mask n :: u32)) + 1)"
        by (simp del: drop_bit_mask_eq)
      also have "\<dots> = word_of_int h" by (simp only: thr) simp
      finally have "drop_bit 1 (mask n :: u32) + 1 = word_of_int h" .
      then show ?thesis using hb h by (simp add: uint_of_int_u32_mod)
    qed
    have lt: "(?ux AND mask n > drop_bit 1 (mask n)) = (x mod (2 * h) > h - 1)"
      "(?ux AND mask n > drop_bit 1 (mask n) + 1) = (x mod (2 * h) > h)"
      by (simp_all only: word_less_def rem thr thr1)
    have not: "NOT ?ux = word_of_int (- x - 1)" by (simp add: not_eq_complement)
    have c: "(e \<le> 0) = False" "(e > 31) = False" using 2 by simp_all
    show ?thesis
    proof (cases "0 \<le> x")
      case True
      have pos: "(0 \<le> x) = True" "(x < 0) = False" using True by simp_all
      have quot: "sint (drop_bit n ?ux) = x div (2 * h)"
        using quotient_u32 [of n x] n True assms p by (simp add: is_i32_def)
      have "round_div_by_pot x e =
          i32 (x div (2 * h) + (if x mod (2 * h) > h - 1 then 1 else 0))"
        unfolding round_div_by_pot_def Let_def n_def [symmetric] mask
        by (simp only: c pos if_True if_False add_0_right quot lt)
      also have "x div (2 * h) + (if x mod (2 * h) > h - 1 then 1 else 0) = round_half_away x n"
        using True n unfolding div_remainder_half [OF h] round_half_away_def p h_def [symmetric] by simp
      finally show ?thesis
        using round_half_away_bounds [OF assms, of n] by (simp add: i32_def is_i32_def n_def)
    next
      case False
      have neg: "(0 \<le> x) = False" "(x < 0) = True" using False by simp_all
      have "sint (drop_bit n (NOT ?ux)) = (- x - 1) div (2 * h)"
        using quotient_u32 [of n "- x - 1"] n False assms p not by (simp add: is_i32_def)
      also have "(- x - 1) div (2 * h) = -1 - x div (2 * h)"
        by (rule int_div_pos_eq [where r = "2 * h - 1 - x mod (2 * h)"])
          (use h mult_div_mod_eq [of "2 * h" x] pos_mod_bound [of "2 * h" x]
             pos_mod_sign [of "2 * h" x] in \<open>auto simp: algebra_simps simp del: pos_mod_bound pos_mod_sign\<close>)
      finally have quot: "-1 - sint (drop_bit n (NOT ?ux)) = x div (2 * h)" by simp
      have "round_div_by_pot x e =
          i32 (x div (2 * h) + (if x mod (2 * h) > h then 1 else 0))"
        unfolding round_div_by_pot_def Let_def n_def [symmetric] mask
        by (simp only: c neg if_True if_False quot lt)
      also have "x div (2 * h) + (if x mod (2 * h) > h then 1 else 0) = round_half_away x n"
        using False n unfolding div_remainder_half [OF h] round_half_away_def p h_def [symmetric] by simp
      finally show ?thesis
        using round_half_away_bounds [OF assms, of n] by (simp add: i32_def is_i32_def n_def)
    qed
  next
    case 3
    define n where "n = nat e"
    have n: "32 \<le> n" using 3 by (simp add: n_def)
    have small: "round_half_away x n = (if n = 32 \<and> x = INT32_MIN then -1 else 0)"
    proof -
      define h :: int where "h = 2 ^ (n - 1)"
      have p: "(2 :: int) ^ n = 2 * h" using n by (simp add: h_def power_eq_if)
      have h: "2147483648 \<le> h" "n = 32 \<longleftrightarrow> h = 2147483648"
      proof -
        show "2147483648 \<le> h"
          using n power_increasing [of 31 "n - 1" "2 :: int"] by (simp add: h_def)
        have "n - 1 = 31" if "h = 2147483648"
          using that power_inject_exp [of "2 :: int" "n - 1" 31] by (simp add: h_def)
        then show "n = 32 \<longleftrightarrow> h = 2147483648" using n by (auto simp: h_def)
      qed
      have x: "-2147483648 \<le> x" "x \<le> 2147483647" using assms by (auto simp: is_i32_def)
      show ?thesis
      proof (cases "x = - h")
        case True
        then show ?thesis
          using h x n unfolding round_half_away_def p h_def [symmetric] by auto
      next
        case False
        then have "(\<bar>x\<bar> + h) div (2 * h) = 0"
          using h x by (intro div_pos_pos_trivial) auto
        then show ?thesis
          using False h x n unfolding round_half_away_def p h_def [symmetric] by auto
      qed
    qed
    show ?thesis using 3 unfolding n_def [symmetric] small by (auto simp: round_div_by_pot_def n_def)
  qed
qed

lemma wp_sat_round_dbl_high_mul [wp_rules]:
  "is_i32 a \<Longrightarrow> is_i32 b \<Longrightarrow> wp (sat_round_dbl_high_mul a b) P = P (doubling_high_mul a b)"
  by (simp add: sat_round_dbl_high_mul_eq)

lemma wp_round_div_by_pot [wp_rules]:
  "is_i32 x \<Longrightarrow> wp (round_div_by_pot x e) P = P (round_half_away x (nat e))"
  by (simp add: round_div_by_pot_eq)

lemma doubling_high_mul_abs:
  assumes "is_i32 a" and "is_i32 b"
  shows "\<bar>doubling_high_mul a b\<bar> \<le> \<bar>a\<bar>"
proof (cases "a = INT32_MIN \<and> b = INT32_MIN")
  case True
  then show ?thesis by (simp add: doubling_high_mul_def)
next
  case False
  have "\<bar>b\<bar> \<le> 2147483648" using assms(2) by (auto simp: is_i32_def)
  then have "\<bar>a\<bar> * \<bar>b\<bar> \<le> \<bar>a\<bar> * 2147483648" by (intro mult_left_mono) auto
  then have "\<bar>a * b\<bar> \<le> \<bar>a\<bar> * 2147483648" by (simp only: abs_mult)
  then have "(a * b + 1073741824) div 2147483648 \<le> \<bar>a\<bar>"
    "- \<bar>a\<bar> \<le> (a * b + 1073741824) div 2147483648" by linarith+
  then show ?thesis using False by (auto simp: doubling_high_mul_def round_half_up_def)
qed

text \<open>How far a rounding is from the exact quotient.\<close>

lemma round_half_up_error:
  assumes "0 < k"
  shows "2 * \<bar>2 ^ k * round_half_up v k - v\<bar> \<le> 2 ^ k"
proof -
  define h :: int where "h = 2 ^ (k - 1)"
  have p: "(2 :: int) ^ k = 2 * h" using assms by (simp add: h_def power_eq_if)
  have h: "0 < h" by (simp add: h_def)
  have "2 * h * ((v + h) div (2 * h)) = v + h - (v + h) mod (2 * h)"
    using mult_div_mod_eq [of "2 * h" "v + h"] by linarith
  moreover have "0 \<le> (v + h) mod (2 * h)" "(v + h) mod (2 * h) < 2 * h" using h by simp_all
  ultimately show ?thesis
    using assms unfolding round_half_up_def p h_def [symmetric] by auto
qed

lemma round_half_away_error: "2 * \<bar>2 ^ k * round_half_away v k - v\<bar> \<le> 2 ^ k"
proof (cases "k = 0")
  case True
  then show ?thesis by (simp add: round_half_away_def)
next
  case False
  have "round_half_away v k = (if v \<ge> 0 then round_half_up v k else - round_half_up (- v) k)"
    using False by (simp add: round_half_away_def round_half_up_def)
  then show ?thesis
    using round_half_up_error [of k v] round_half_up_error [of k "- v"] False
    by (auto simp: abs_if split: if_splits)
qed

section \<open>Leading zeros\<close>

lemma drop_push_one: "n \<le> m \<Longrightarrow> m < 32 \<Longrightarrow> drop_bit n (push_bit m (1 :: u32)) = push_bit (m - n) 1"
  by (intro bit_word_eqI) (auto simp: bit_simps)

lemma clz_probe:
  assumes "n \<le> 31" and "unat x < 2 ^ (32 - n)"
  shows "(x AND drop_bit n (0x80000000 :: u32) = 0) = (unat x < 2 ^ (31 - n))"
proof -
  have "(0x80000000 :: u32) = push_bit 31 1" by simp
  then have "drop_bit n (0x80000000 :: u32) = push_bit (31 - n) 1"
    using drop_push_one [of n 31] assms(1) by (simp only:)
  then have "(x AND drop_bit n (0x80000000 :: u32) = 0) = (\<not> bit x (31 - n))"
    by (simp only: bit_iff_and_push_bit_not_eq_0) simp
  also have "bit x (31 - n) = odd (unat x div 2 ^ (31 - n))"
  proof -
    have "bit x (31 - n) = bit (unat x) (31 - n)"
      using assms(1) by (simp add: bit_unsigned_iff)
    then show ?thesis by (simp only: bit_iff_odd)
  qed
  also have "(\<not> \<dots>) = (unat x < 2 ^ (31 - n))"
  proof -
    have "(2 :: nat) ^ (32 - n) = 2 * 2 ^ (31 - n)" using assms(1) by (simp add: Suc_diff_le power_Suc [symmetric] del: power_Suc)
    then have "unat x div 2 ^ (31 - n) < 2" using assms(2) by (simp add: less_mult_imp_div_less)
    then show ?thesis by (auto simp: div_eq_0_iff less_2_cases_iff)
  qed
  finally show ?thesis .
qed

lemma clz_loop_correct:
  "n \<le> 31 \<Longrightarrow> 0 < unat x \<Longrightarrow> unat x < 2 ^ (32 - n) \<Longrightarrow>
     \<exists>r. clz_loop x n = Some r \<and> r < 32 \<and> 2 ^ (31 - r) \<le> unat x \<and> unat x < 2 ^ (32 - r)"
proof (induction x n rule: clz_loop.induct)
  case (1 x n)
  have probe: "(x AND drop_bit n (0x80000000 :: u32) = 0) = (unat x < 2 ^ (31 - n))"
    using clz_probe "1.prems" by blast
  show ?case
  proof (cases "unat x < 2 ^ (31 - n)")
    case True
    then have "n \<noteq> 31" using "1.prems" by auto
    then have "Suc n \<le> 31" "32 - Suc n = 31 - n" using "1.prems"(1) by simp_all
    then show ?thesis
      using "1.IH" "1.prems" probe True by (subst clz_loop.simps) auto
  next
    case False
    then show ?thesis using "1.prems" probe by (subst clz_loop.simps) auto
  qed
qed

lemma count_leading_zeros_eq:
  assumes "x \<noteq> 0"
  shows "\<exists>r. count_leading_zeros x = Some (int r) \<and> r < 32 \<and> 2 ^ (31 - r) \<le> unat x \<and> unat x < 2 ^ (32 - r)"
proof -
  have "0 < unat x" using assms by (simp add: unat_gt_0)
  then show ?thesis
    using clz_loop_correct [of 0 x] unat_u32_less [of x] assms by (auto simp: count_leading_zeros_def)
qed

section \<open>Requantization\<close>

lemma requantize_eq:
  assumes "is_i32 m" and "-2147483648 < shift" and "shift \<le> 30" and "is_i32 (x * 2 ^ nat shift)"
  shows "multiply_by_quantized_multiplier x m shift =
           Some (round_half_away (doubling_high_mul (x * 2 ^ nat shift) m) (nat (- shift)))"
proof -
  have d: "is_i32 (doubling_high_mul (x * 2 ^ nat shift) m)"
    using assms by (intro is_i32_doubling_high_mul)
  have "wp (multiply_by_quantized_multiplier x m shift)
          (\<lambda>r. r = round_half_away (doubling_high_mul (x * 2 ^ nat shift) m) (nat (- shift)))"
  proof (cases "0 < shift")
    case True
    then show ?thesis
      using assms d unfolding multiply_by_quantized_multiplier_def
      by (simp add: Let_def wp_rules is_i32_def [of "x * _"])
  next
    case False
    then have s: "nat shift = 0" by simp
    show ?thesis
      using assms d False unfolding multiply_by_quantized_multiplier_def s
      by (simp add: Let_def wp_rules is_i32_def [of x])
  qed
  then show ?thesis by (auto dest: wpD)
qed

lemma requantize_distance:
  assumes "0 \<le> m" and "is_i32 m" and "is_i32 v"
  shows "2 * \<bar>2 ^ (31 + k) * round_half_away (doubling_high_mul v m) k - v * m\<bar> \<le> 2 ^ (31 + k) + 2 ^ 31"
proof -
  define d where "d = doubling_high_mul v m"
  have "d = round_half_up (v * m) 31"
    using assms(1) by (auto simp: d_def doubling_high_mul_def)
  then have e1: "2 * \<bar>2 ^ 31 * d - v * m\<bar> \<le> 2 ^ 31"
    using round_half_up_error [of 31 "v * m"] by simp
  have e2: "2 * \<bar>2 ^ k * round_half_away d k - d\<bar> \<le> 2 ^ k" by (rule round_half_away_error)
  define A B where "A = 2 ^ k * round_half_away d k - d" and "B = 2 ^ 31 * d - v * m"
  have "2 ^ (31 + k) * round_half_away d k - v * m = 2 ^ 31 * A + B"
    by (simp add: A_def B_def power_add algebra_simps)
  moreover have "\<bar>2 ^ 31 * A + B\<bar> \<le> \<bar>2 ^ 31 * A\<bar> + \<bar>B\<bar>" by (rule abs_triangle_ineq)
  moreover have "\<bar>2 ^ 31 * A\<bar> = 2 ^ 31 * \<bar>A\<bar>" by (simp add: abs_mult)
  moreover have "2 * \<bar>A\<bar> \<le> 2 ^ k" "2 * \<bar>B\<bar> \<le> 2 ^ 31"
    using e1 e2 by (simp_all only: A_def B_def)
  moreover have "(2 :: int) ^ (31 + k) = 2 ^ 31 * 2 ^ k" by (simp add: power_add)
  ultimately show ?thesis unfolding d_def [symmetric] by simp
qed

lemma elementwise_shift_left_eq:
  assumes "is_i32 v" and "0 \<le> n" and "n \<le> 31"
  shows "elementwise_shift_left v n = Some (max INT32_MIN (min INT32_MAX (v * 2 ^ nat n)))"
proof -
  have "(2 :: int) ^ nat n \<le> 2 ^ 31" using assms by (intro power_increasing) auto
  then have "\<bar>v\<bar> * 2 ^ nat n \<le> 2147483648 * 2147483648"
    using assms(1) by (intro mult_mono) (auto simp: is_i32_def)
  then have "\<bar>v * 2 ^ nat n\<bar> \<le> 4611686018427387904" by (simp add: abs_mult)
  then show ?thesis using assms(2, 3) by (auto simp: elementwise_shift_left_def shl64_def i64_def)
qed

lemma saturated_code_eq:
  assumes "is_i32 v" and "is_i8 zero"
  shows "saturated_code v zero = Some (clamp_s8 (v + zero))"
  using assms by (auto simp: saturated_code_def clamp_s8_def is_i32_def is_i8_def i32_def)

lemma is_i8_clamp_s8 [simp]: "is_i8 (clamp_s8 x)"
  by (simp add: is_i8_def clamp_s8_def)

section \<open>Properties\<close>

text \<open>C25. The requantization every int8 kernel ends with. For a shift from -2147483647 to 30
  and an accumulator that the left shift keeps in \<open>int32_t\<close>, it has no undefined behaviour and
  equals two roundings in exact arithmetic: the product with the Q0.31 multiplier to the nearest
  integer, ties up (saturating in the one case that overflows), then the division by
  \<open>2^-shift\<close>, ties away from zero.\<close>

theorem requantize_exact:
  assumes "is_i32 m" and "-2147483648 < shift" and "shift \<le> 30" and "is_i32 (x * 2 ^ nat shift)"
  shows "multiply_by_quantized_multiplier x m shift =
     Some (round_half_away
       (if x * 2 ^ nat shift = INT32_MIN \<and> m = INT32_MIN then INT32_MAX
        else (x * 2 ^ nat shift * m + 2 ^ 30) div 2 ^ 31) (nat (- shift)))"
  unfolding requantize_eq [OF assms] doubling_high_mul_def round_half_up_def by simp

lemma requantize_exact_witness:
  "multiply_by_quantized_multiplier (- 1000) 1518500250 (- 3) =
     Some (round_half_away ((- 1000 * 1518500250 + 2 ^ 30) div 2 ^ 31) 3) \<and>
   round_half_away ((- 1000 * 1518500250 + 2 ^ 30) div 2 ^ 31) 3 = - 88"
proof
  show "multiply_by_quantized_multiplier (- 1000) 1518500250 (- 3) =
      Some (round_half_away ((- 1000 * 1518500250 + 2 ^ 30) div 2 ^ 31) 3)"
    using requantize_exact [of 1518500250 "- 3" "- 1000"] by (simp add: is_i32_def)
qed (simp add: round_half_away_def)

text \<open>How far a requantized accumulator is from the real product: with a non-negative
  multiplier \<open>m\<close>, the result \<open>r\<close> is within half a unit, plus half of the intermediate
  rounding's unit, of \<open>x * 2^shift * m / 2^31\<close>. The bound is stated after multiplying by
  \<open>2^(32 + right)\<close>.\<close>

lemma requantize_error:
  assumes "0 \<le> m" and "is_i32 m" and "-2147483648 < shift" and "shift \<le> 30"
    and "is_i32 (x * 2 ^ nat shift)"
  shows "\<exists>r. multiply_by_quantized_multiplier x m shift = Some r \<and>
     2 * \<bar>2 ^ (31 + nat (- shift)) * r - x * 2 ^ nat shift * m\<bar> \<le> 2 ^ (31 + nat (- shift)) + 2 ^ 31"
  unfolding requantize_eq [OF assms(2-5)]
  using requantize_distance [OF assms(1, 2, 5)] by auto

text \<open>The elementwise requantization on every input: it refuses exactly the shifts outside
  -31 to 30 and the values the left shift would overflow, and otherwise returns the int8 code of
  the rounded product, saturated after the zero point is added.\<close>

lemma elementwise_requantize_exact:
  assumes "is_i32 v" and "is_i32 m" and "is_i8 zero"
  shows "elementwise_requantize v m shift zero =
     (if shift < -31 \<or> shift > 30 \<or> \<not> is_i32 (v * 2 ^ nat shift) then fail ()
      else ret (clamp_s8 (round_half_away (doubling_high_mul (v * 2 ^ nat shift) m) (nat (- shift)) + zero)))"
proof (cases "shift < -31 \<or> shift > 30")
  case True
  then show ?thesis by (auto simp: elementwise_requantize_def)
next
  case False
  then have s: "-31 \<le> shift" "shift \<le> 30" by simp_all
  define left where "left = (if shift > 0 then shift else 0)"
  have left: "0 \<le> left" "left \<le> 30" "2 ^ nat left = (2 :: int) ^ nat shift"
    using s by (auto simp: left_def)
  have "(2 :: int) ^ nat shift \<le> 2 ^ 30" using s by (intro power_increasing) auto
  then have "\<bar>v\<bar> * 2 ^ nat shift \<le> 2147483648 * 1073741824"
    using assms(1) by (intro mult_mono) (auto simp: is_i32_def)
  then have fits: "\<bar>v * 2 ^ nat shift\<bar> \<le> 2305843009213693952" by (simp add: abs_mult)
  show ?thesis
  proof (cases "is_i32 (v * 2 ^ nat shift)")
    case False
    then show ?thesis
      using s left fits unfolding elementwise_requantize_def left_def [symmetric]
      by (auto simp: Let_def shl64_def i64_def is_i32_def)
  next
    case True
    have d: "is_i32 (doubling_high_mul (v * 2 ^ nat shift) m)"
      using assms True by (intro is_i32_doubling_high_mul)
    have r: "is_i32 (round_half_away (doubling_high_mul (v * 2 ^ nat shift) m) k)" for k
      by (rule round_half_away_bounds [OF d])
    have sl: "elementwise_shift_left v left = Some (v * 2 ^ nat shift)"
      using elementwise_shift_left_eq [OF assms(1), of left] left True by (simp add: is_i32_def)
    have "elementwise_multiply v m shift =
        Some (round_half_away (doubling_high_mul (v * 2 ^ nat shift) m) (nat (- shift)))"
      using s assms d True sl unfolding elementwise_multiply_def left_def [symmetric]
      by (auto simp: Let_def i32_def sat_round_dbl_high_mul_eq round_div_by_pot_eq)
    then show ?thesis
      using s left fits True r assms(3) unfolding elementwise_requantize_def left_def [symmetric]
      by (auto simp: Let_def shl64_def i64_def saturated_code_eq is_i32_def [of "v * _"])
  qed
qed

end
