(* ===== verification/Softmax_S8.thy ===== *)
theory Softmax_S8
  imports Fixed_Point
begin

text \<open>
  The fixed-point Softmax and LogSoftmax of the int8 kernels, \<open>src/tigris_kernels_s8.c\<close>. A row of
  int8 codes is an \<open>int list\<close>; the rows read and written are checked arrays, so an index
  outside is \<open>None\<close>.

  The input scale enters only through the multiplier and shift that \<open>compute_quant_mult\<close>
  derives from it in \<open>double\<close>; they are arguments of \<open>softmax_params\<close>.

  What is shown: for every row of fewer than 4096 classes and every parameter set
  \<open>softmax_params\<close> can return, the kernel has no undefined behaviour, writes exactly the row's
  codes, and gives the same output for rows that differ by a constant. A row of 8192 equal
  codes makes the 32-bit sum wrap to 0 and the normalising shift undefined.
\<close>

unbundle bit_operations_syntax

section \<open>Saturating and wrapping operations\<close>

definition sat_shift_left :: "int \<Rightarrow> int \<Rightarrow> int option" where
  "sat_shift_left x exponent =
     (if 0 \<le> exponent \<and> exponent \<le> 31 then
        let threshold = wrap32 (2 ^ nat (31 - exponent) - 1) in
        Some (if x > threshold then INT32_MAX else if x < - threshold then INT32_MIN
              else wrap32 (x * 2 ^ nat exponent))
      else None)"

definition wrapping_add :: "int \<Rightarrow> int \<Rightarrow> int" where
  "wrapping_add a b = wrap32 (a + b)"

lemma is_i32_wrapping_add [simp]: "is_i32 (wrapping_add a b)"
  by (simp add: wrapping_add_def)

lemma sat_shift_left_defined:
  "0 \<le> e \<Longrightarrow> e \<le> 31 \<Longrightarrow> \<exists>v. sat_shift_left x e = Some v \<and> is_i32 v"
  by (simp add: sat_shift_left_def Let_def) (simp add: is_i32_def)

section \<open>The exponential\<close>

definition softmax_exp_quarter :: "int \<Rightarrow> int option" where
  "softmax_exp_quarter a = do {
     let x = wrapping_add a 268435456;
     x2 \<leftarrow> sat_round_dbl_high_mul x x;
     x3 \<leftarrow> sat_round_dbl_high_mul x2 x;
     x4 \<leftarrow> sat_round_dbl_high_mul x2 x2;
     x4_over_4 \<leftarrow> round_div_by_pot x4 2;
     third \<leftarrow> sat_round_dbl_high_mul (wrapping_add x4_over_4 x3) 715827883;
     poly \<leftarrow> round_div_by_pot (wrapping_add third x2) 1;
     high \<leftarrow> sat_round_dbl_high_mul 1895147668 (wrapping_add x poly);
     Some (wrapping_add 1895147668 high) }"

definition exp_multipliers :: "int list" where
  "exp_multipliers = [1672461947, 1302514674, 790015084, 290630308, 39332535, 720401, 242]"

fun exp_loop :: "nat \<Rightarrow> nat \<Rightarrow> int \<Rightarrow> int \<Rightarrow> int option" where
  "exp_loop 0 k remainder v = Some v"
| "exp_loop (Suc n) k remainder v =
     (if remainder AND 2 ^ (24 + k) \<noteq> 0 then do {
        m \<leftarrow> arr_get exp_multipliers k;
        v' \<leftarrow> sat_round_dbl_high_mul v m;
        exp_loop n (Suc k) remainder v' }
      else exp_loop n (Suc k) remainder v)"

definition softmax_exp_negative :: "int \<Rightarrow> int option" where
  "softmax_exp_negative a = do {
     let one_quarter = 16777216;
     amq \<leftarrow> i32 ((a AND (one_quarter - 1)) - one_quarter);
     scaled \<leftarrow> sat_shift_left amq 5;
     v \<leftarrow> softmax_exp_quarter scaled;
     remainder \<leftarrow> i32 (amq - a);
     v \<leftarrow> exp_loop 7 0 remainder v;
     Some (if a = 0 then INT32_MAX else v) }"

section \<open>The reciprocal\<close>

definition reciprocal_round :: "int \<Rightarrow> int \<Rightarrow> int option" where
  "reciprocal_round half_denominator estimate = do {
     product \<leftarrow> sat_round_dbl_high_mul half_denominator estimate;
     negated \<leftarrow> i32 (- product);
     let one_minus_product = wrapping_add 536870912 negated;
     correction \<leftarrow> sat_round_dbl_high_mul estimate one_minus_product;
     shifted \<leftarrow> sat_shift_left correction 2;
     Some (wrapping_add estimate shifted) }"

definition softmax_one_over_one_plus_x :: "int \<Rightarrow> int option" where
  "softmax_one_over_one_plus_x x = do {
     total_x \<leftarrow> i64 (x + INT32_MAX);
     half_denominator \<leftarrow> i32 ((total_x + (if total_x \<ge> 0 then 1 else -1)) sdiv 2);
     product \<leftarrow> sat_round_dbl_high_mul half_denominator (-1010580540);
     estimate \<leftarrow> iterate 3 (reciprocal_round half_denominator) (wrapping_add 1515870810 product);
     sat_shift_left estimate 1 }"

section \<open>The parameters\<close>

record softmax_params_t =
  sm_multiplier :: int
  sm_left_shift :: int
  sm_diff_min :: int

text \<open>\<open>(multiplier, left_shift)\<close> is what \<open>compute_quant_mult\<close> returns for the input scale. The
  radius is a quotient by a power of two, which \<open>double\<close> represents exactly.\<close>

definition softmax_params :: "int \<Rightarrow> int \<Rightarrow> softmax_params_t option" where
  "softmax_params multiplier left_shift =
     (if left_shift < 0 \<or> left_shift > 30 then None
      else Some \<lparr> sm_multiplier = multiplier, sm_left_shift = left_shift,
        sm_diff_min = - (((2 ^ 5 - 1) * 2 ^ (31 - 5)) div 2 ^ nat left_shift) \<rparr>)"

definition softmax_scaled_diff :: "int \<Rightarrow> softmax_params_t \<Rightarrow> int option" where
  "softmax_scaled_diff diff p = do {
     scale \<leftarrow> shl32 (sm_left_shift p);
     scaled \<leftarrow> i32 (diff * scale);
     sat_round_dbl_high_mul scaled (sm_multiplier p) }"

section \<open>One row\<close>

text \<open>The maximum of \<open>x[0..classes)\<close>.\<close>

fun row_max :: "int list \<Rightarrow> nat \<Rightarrow> nat \<Rightarrow> int \<Rightarrow> int option" where
  "row_max x c 0 max_q = Some max_q"
| "row_max x c (Suc n) max_q = do {
     v \<leftarrow> arr_get x c;
     row_max x (Suc c) n (if v > max_q then v else max_q) }"

fun softmax_sum :: "softmax_params_t \<Rightarrow> int list \<Rightarrow> int \<Rightarrow> nat \<Rightarrow> nat \<Rightarrow> int \<Rightarrow> int option" where
  "softmax_sum p x max_q c 0 acc = Some acc"
| "softmax_sum p x max_q c (Suc n) acc = do {
     v \<leftarrow> arr_get x c;
     diff \<leftarrow> i32 (v - max_q);
     if diff \<ge> sm_diff_min p then do {
       scaled \<leftarrow> softmax_scaled_diff diff p;
       e \<leftarrow> softmax_exp_negative scaled;
       term_e \<leftarrow> round_div_by_pot e 12;
       softmax_sum p x max_q (Suc c) n (wrapping_add acc term_e) }
     else softmax_sum p x max_q (Suc c) n acc }"

definition softmax_code :: "softmax_params_t \<Rightarrow> int \<Rightarrow> int \<Rightarrow> int \<Rightarrow> int option" where
  "softmax_code p reciprocal bits_over_unit diff =
     (if diff \<ge> sm_diff_min p then do {
        scaled \<leftarrow> softmax_scaled_diff diff p;
        e \<leftarrow> softmax_exp_negative scaled;
        product \<leftarrow> sat_round_dbl_high_mul reciprocal e;
        q \<leftarrow> round_div_by_pot product (bits_over_unit + 31 - 8);
        v \<leftarrow> i32 (q - 128);
        Some (clamp_s8 v) }
      else Some (-128))"

fun softmax_write ::
  "(int \<Rightarrow> int option) \<Rightarrow> int list \<Rightarrow> int \<Rightarrow> nat \<Rightarrow> nat \<Rightarrow> int list \<Rightarrow> int list option" where
  "softmax_write code x max_q c 0 y = Some y"
| "softmax_write code x max_q c (Suc n) y = do {
     v \<leftarrow> arr_get x c;
     diff \<leftarrow> i32 (v - max_q);
     w \<leftarrow> code diff;
     y' \<leftarrow> arr_set y c w;
     softmax_write code x max_q (Suc c) n y' }"

definition softmax_row_fixed_point ::
  "int list \<Rightarrow> int list \<Rightarrow> nat \<Rightarrow> softmax_params_t \<Rightarrow> int list option" where
  "softmax_row_fixed_point x y classes p = do {
     first \<leftarrow> arr_get x 0;
     max_q \<leftarrow> row_max x 1 (classes - 1) first;
     acc \<leftarrow> softmax_sum p x max_q 0 classes 0;
     headroom \<leftarrow> count_leading_zeros (word_of_int acc);
     let bits_over_unit = 12 - headroom;
     shifted \<leftarrow> shl_u32 (word_of_int acc) headroom;
     reciprocal \<leftarrow> softmax_one_over_one_plus_x (sint (shifted - 0x80000000));
     softmax_write (softmax_code p reciprocal bits_over_unit) x max_q 0 classes y }"

section \<open>Ranges of the fixed-point functions\<close>

lemma wrapping_add_id: "is_i32 (a + b) \<Longrightarrow> wrapping_add a b = a + b"
  by (simp add: wrapping_add_def wrap32_id)

lemma is_i32I: "\<bar>v\<bar> \<le> 2147483647 \<Longrightarrow> is_i32 v"
  by (simp add: is_i32_def abs_le_iff)

lemma dhm_commute: "doubling_high_mul a b = doubling_high_mul b a"
  by (auto simp: doubling_high_mul_def mult.commute)

lemma dhm_abs:
  assumes "is_i32 a" and "is_i32 b"
  shows "\<bar>doubling_high_mul a b\<bar> \<le> \<bar>a\<bar>" and "\<bar>doubling_high_mul a b\<bar> \<le> \<bar>b\<bar>"
  using doubling_high_mul_abs [OF assms] doubling_high_mul_abs [OF assms(2, 1)]
  by (simp_all add: dhm_commute)

lemma dhm_sign:
  "0 \<le> a * b \<Longrightarrow> 0 \<le> doubling_high_mul a b"
  "a * b \<le> 0 \<Longrightarrow> doubling_high_mul a b \<le> 0"
  by (auto simp: doubling_high_mul_def round_half_up_def)

lemma dhm_mono:
  assumes "0 \<le> a" and "a \<le> a'" and "0 \<le> b" and "b \<le> b'"
  shows "doubling_high_mul a b \<le> doubling_high_mul a' b'"
proof -
  have "a * b \<le> a' * b'" using assms by (intro mult_mono) auto
  then show ?thesis
    using assms by (auto simp: doubling_high_mul_def round_half_up_def intro!: zdiv_mono1)
qed

lemma rha_mono_nonneg:
  assumes "0 \<le> x" and "x \<le> y"
  shows "0 \<le> round_half_away x k" and "round_half_away x k \<le> round_half_away y k"
  using assms by (auto simp: round_half_away_def pos_imp_zdiv_nonneg_iff intro: zdiv_mono1)

text \<open>Evaluation on literals only.\<close>

lemmas fixed_point_numeral =
  doubling_high_mul_def [of "numeral a" "numeral b" for a b]
  round_half_up_def [of "numeral v" for v] round_half_away_def [of "numeral v" for v]

lemma exp_quarter_pos:
  assumes "0 \<le> x" and "x \<le> 268435424"
  defines "x2 \<equiv> doubling_high_mul x x"
  defines "x3 \<equiv> doubling_high_mul x2 x"
  defines "x44 \<equiv> round_half_away (doubling_high_mul x2 x2) 2"
  defines "poly \<equiv> round_half_away (doubling_high_mul (x44 + x3) 715827883 + x2) 1"
  shows "0 \<le> poly" and "poly \<le> 17498108"
    and "0 \<le> doubling_high_mul 1895147668 (x + poly)"
    and "doubling_high_mul 1895147668 (x + poly) \<le> 252335456"
proof -
  note eval = fixed_point_numeral
  have x2: "0 \<le> x2" "x2 \<le> 33554424"
    using dhm_mono [of x 268435424 x 268435424] assms(1, 2) by (auto simp: x2_def dhm_sign eval)
  have x3: "0 \<le> x3" "x3 \<le> 4194303"
    using dhm_mono [of x2 33554424 x 268435424] x2 assms(1, 2) by (auto simp: x3_def dhm_sign eval)
  have x4: "0 \<le> doubling_high_mul x2 x2" "doubling_high_mul x2 x2 \<le> 524288"
    using dhm_mono [of x2 33554424 x2 33554424] x2 by (auto simp: dhm_sign eval)
  have x44: "0 \<le> x44" "x44 \<le> 131072"
    using rha_mono_nonneg [OF x4, of 2] by (simp_all add: x44_def) (simp add: eval)
  have third: "0 \<le> doubling_high_mul (x44 + x3) 715827883"
    "doubling_high_mul (x44 + x3) 715827883 \<le> 1441792"
    using dhm_mono [of "x44 + x3" 4325375 715827883 715827883] x44 x3 by (auto simp: dhm_sign eval)
  have sum: "0 \<le> doubling_high_mul (x44 + x3) 715827883 + x2"
    "doubling_high_mul (x44 + x3) 715827883 + x2 \<le> 34996216"
    using third x2 by simp_all
  show poly: "0 \<le> poly" "poly \<le> 17498108"
    using rha_mono_nonneg [OF sum, of 1] by (simp_all add: poly_def) (simp add: eval)
  show "0 \<le> doubling_high_mul 1895147668 (x + poly)"
    using poly assms(1) by (intro dhm_sign) simp
  show "doubling_high_mul 1895147668 (x + poly) \<le> 252335456"
    using dhm_mono [of 1895147668 1895147668 "x + poly" 285933532] poly assms(1, 2)
    by (simp add: eval)
qed

lemma exp_quarter_range:
  assumes "-536870912 \<le> a" and "a \<le> -32"
  shows "\<exists>v. softmax_exp_quarter a = Some v \<and> 0 \<le> v \<and> v \<le> INT32_MAX"
proof -
  define x where "x = a + 268435456"
  define x2 where "x2 = doubling_high_mul x x"
  define x3 where "x3 = doubling_high_mul x2 x"
  define x4 where "x4 = doubling_high_mul x2 x2"
  define x44 where "x44 = round_half_away x4 2"
  define third where "third = doubling_high_mul (x44 + x3) 715827883"
  define poly where "poly = round_half_away (third + x2) 1"
  define high where "high = doubling_high_mul 1895147668 (x + poly)"
  have x: "-268435456 \<le> x" "x \<le> 268435424" using assms by (simp_all add: x_def)
  have ix: "is_i32 x" using x by (simp add: is_i32_def)
  have "\<bar>x\<bar> \<le> 268435456" using x by linarith
  then have "\<bar>x\<bar> * \<bar>x\<bar> \<le> 268435456 * 268435456" by (intro mult_mono) auto
  then have "x * x \<le> 72057594037927936" by (simp add: abs_mult_self_eq)
  then have "x2 \<le> 33554432" unfolding x2_def doubling_high_mul_def round_half_up_def by auto
  moreover have "0 \<le> x2" unfolding x2_def by (rule dhm_sign) simp
  ultimately have x2: "0 \<le> x2" "x2 \<le> 33554432" "is_i32 x2" by (simp_all add: is_i32_def)
  have x3: "\<bar>x3\<bar> \<le> 33554432" "is_i32 x3"
    using dhm_abs(1) [OF x2(3) ix] x2 by (simp_all add: x3_def is_i32_def abs_le_iff)
  have "0 \<le> x4" unfolding x4_def by (rule dhm_sign) simp
  then have x4: "0 \<le> x4" "x4 \<le> 33554432" "is_i32 x4"
    using dhm_abs(1) [OF x2(3) x2(3)] x2 by (simp_all add: x4_def is_i32_def)
  have x44: "0 \<le> x44" "x44 \<le> 33554432" "is_i32 x44"
    using round_half_away_range [of x4 2] x4 by (simp_all add: x44_def is_i32_def)
  have s: "is_i32 (x44 + x3)" using x44 x3 by (simp add: is_i32_def)
  have "\<bar>third\<bar> \<le> \<bar>x44 + x3\<bar>" unfolding third_def by (rule dhm_abs(1) [OF s]) (simp add: is_i32_def)
  then have third: "\<bar>third\<bar> \<le> 67108864" using x44 x3(1) by linarith
  have t: "is_i32 (third + x2)" by (rule is_i32I) (use third x2 in linarith)
  have poly: "\<bar>poly\<bar> \<le> 100663296"
    using round_half_away_abs [of "third + x2" 1, folded poly_def] third x2(1, 2) by linarith
  have xp: "is_i32 (x + poly)" by (rule is_i32I) (use x poly in linarith)
  have high: "- 1895147668 \<le> high" "high \<le> 252335979" "is_i32 high"
  proof -
    have abs: "\<bar>high\<bar> \<le> \<bar>x + poly\<bar>"
      unfolding high_def by (rule dhm_abs(2)) (use xp in \<open>simp_all add: is_i32_def\<close>)
    show "- 1895147668 \<le> high" using abs x poly by linarith
    show le: "high \<le> 252335979"
    proof (cases "0 \<le> x")
      case True
      then show ?thesis
        using exp_quarter_pos(4) [of x] x
        by (simp add: high_def poly_def third_def x44_def x4_def x3_def x2_def)
    next
      case False
      then show ?thesis
        using abs poly dhm_sign(2) [of 1895147668 "x + poly"] by (cases "0 \<le> x + poly") (auto simp: high_def)
    qed
    show "is_i32 high" by (rule is_i32I) (use abs x poly in linarith)
  qed
  have sm: "softmax_exp_quarter a = Some (1895147668 + high)"
  proof -
    have "wp (softmax_exp_quarter a) (\<lambda>v. v = 1895147668 + high)"
      unfolding softmax_exp_quarter_def
      using ix x2(3) x3(2) x4(3) s t xp high
      by (simp add: wrapping_add_id x_def [symmetric] wp_rules is_i32_def [of "numeral _"]
          x2_def [symmetric] x3_def [symmetric] x4_def [symmetric] x44_def [symmetric]
          third_def [symmetric] poly_def [symmetric, simplified] high_def [symmetric]
          is_i32_def [of "1895147668 + high"])
    then show ?thesis by (auto dest: wpD)
  qed
  then show ?thesis using high by simp
qed

lemma exp_loop_range:
  "k + n \<le> 7 \<Longrightarrow> 0 \<le> v \<Longrightarrow> v \<le> INT32_MAX \<Longrightarrow>
     \<exists>w. exp_loop n k r v = Some w \<and> 0 \<le> w \<and> w \<le> INT32_MAX"
proof (induction n arbitrary: k v)
  case (Suc n)
  have len: "length exp_multipliers = 7" by (simp add: exp_multipliers_def)
  then have k: "k < length exp_multipliers" using Suc.prems by simp
  then have "exp_multipliers ! k \<in> set exp_multipliers" by (rule nth_mem)
  then have m: "0 \<le> exp_multipliers ! k" "is_i32 (exp_multipliers ! k)"
    by (auto simp: exp_multipliers_def is_i32_def)
  have v: "is_i32 v" using Suc.prems by (simp add: is_i32_def)
  have d: "0 \<le> doubling_high_mul v (exp_multipliers ! k)"
    using m Suc.prems by (intro dhm_sign) simp
  moreover have "doubling_high_mul v (exp_multipliers ! k) \<le> INT32_MAX"
    using dhm_abs(1) [OF v m(2)] d Suc.prems by linarith
  ultimately show ?case
    using Suc.IH [of "Suc k" v] Suc.IH [of "Suc k" "doubling_high_mul v (exp_multipliers ! k)"]
      Suc.prems k by (auto simp: arr_get_def sat_round_dbl_high_mul_eq [OF v m(2)])
qed simp

lemma low_bits: "(a :: int) AND (16777216 - 1) = a mod 16777216"
proof -
  have "(16777216 - 1 :: int) = mask 24" by (simp add: mask_eq_exp_minus_1)
  then show ?thesis by (simp only: take_bit_eq_mask [symmetric] take_bit_eq_mod) simp
qed

lemma exp_negative_range:
  assumes "is_i32 a" and "a \<le> 0"
  shows "\<exists>v. softmax_exp_negative a = Some v \<and> 0 \<le> v \<and> v \<le> INT32_MAX \<and> (a = 0 \<longrightarrow> v = INT32_MAX)"
proof -
  define amq where "amq = a mod 16777216 - 16777216"
  have amq: "-16777216 \<le> amq" "amq \<le> -1" by (simp_all add: amq_def)
  have rem: "-2147483648 \<le> amq - a" "amq - a < 2147483648"
  proof -
    have "a mod 16777216 = a - 16777216 * (a div 16777216)" by (rule minus_mult_div_eq_mod [symmetric])
    then show "amq - a < 2147483648" using assms unfolding amq_def is_i32_def by linarith
    show "-2147483648 \<le> amq - a" using amq assms by simp
  qed
  have scaled: "sat_shift_left amq 5 = Some (amq * 32)"
    using amq by (simp add: sat_shift_left_def Let_def wrap32_id is_i32_def)
  obtain v where v: "softmax_exp_quarter (amq * 32) = Some v" "0 \<le> v" "v \<le> INT32_MAX"
    using exp_quarter_range [of "amq * 32"] amq by auto
  obtain w where w: "exp_loop 7 0 (amq - a) v = Some w" "0 \<le> w" "w \<le> INT32_MAX"
    using exp_loop_range [of 0 7 v "amq - a"] v by auto
  show ?thesis
    using amq rem scaled v w unfolding softmax_exp_negative_def Let_def low_bits amq_def [symmetric]
    by (simp add: i32_def)
qed

lemma iterate_invariant:
  "I a \<Longrightarrow> (\<And>b. I b \<Longrightarrow> \<exists>c. f b = Some c \<and> I c) \<Longrightarrow> \<exists>c. iterate n f a = Some c \<and> I c"
proof (induction n arbitrary: a)
  case (Suc n)
  then obtain b where "f a = Some b" "I b" by blast
  then show ?case using Suc.IH [of b] Suc.prems(2) by simp
qed simp

lemma dhm_window:
  assumes "0 \<le> a"
  shows "2147483648 * doubling_high_mul a b \<le> a * b + 1073741824"
    and "a * b - 1073741824 < 2147483648 * doubling_high_mul a b"
  using assms by (auto simp: doubling_high_mul_def round_half_up_def)

text \<open>One Newton step for \<open>1/d\<close>, with \<open>d = h / 2^31\<close> and the estimate in units of \<open>2^-29\<close>:
  afterwards \<open>d\<close> times the estimate exceeds one by at most \<open>4 * 2^-29\<close>.\<close>

lemma newton_step:
  fixes h e P C :: int
  assumes h: "0 \<le> h" "h \<le> 2147483648" and e: "0 \<le> e" "e \<le> 2147483648"
    and P: "h * e - 1073741824 \<le> 2147483648 * P"
    and C: "2147483648 * C \<le> e * (536870912 - P) + 1073741824"
  shows "h * (e + 4 * C) \<le> 2147483648 * 536870916"
proof -
  define M w where "M = (2147483648 :: int)" and "w = h * e"
  have wle: "w \<le> M * M" using h e unfolding w_def M_def by (intro mult_mono) auto
  have w0: "0 \<le> w" using h e by (simp add: w_def)
  have C4: "M * (e + 4 * C) \<le> e * (2 * M - 4 * P) + 2 * M"
    using C by (simp add: M_def algebra_simps)
  have P4: "4 * w - 2 * M \<le> 4 * (M * P)" using P by (simp add: M_def w_def)
  have "M * (M * (h * (e + 4 * C))) = M * (h * (M * (e + 4 * C)))" by (simp add: algebra_simps)
  also have "\<dots> \<le> M * (h * (e * (2 * M - 4 * P) + 2 * M))"
    using C4 h by (intro mult_left_mono) (auto simp: M_def)
  also have "\<dots> = 2 * (M * M) * w - w * (4 * (M * P)) + 2 * (M * M) * h"
    by (simp add: w_def algebra_simps)
  also have "\<dots> \<le> 2 * (M * M) * w - w * (4 * w - 2 * M) + 2 * (M * M) * h"
    using mult_left_mono [OF P4 w0] by linarith
  also have "\<dots> \<le> M * M * (M * 536870916)"
  proof -
    have "0 \<le> (2 * w - M * 1073741824) * (2 * w - M * 1073741824)" by (rule zero_le_square)
    then have "2 * (M * M) * w - 4 * (w * w) \<le> M * M * 1152921504606846976"
      by (simp add: M_def algebra_simps)
    moreover have "2 * M * w \<le> 2 * M * (M * M)" using wle by (intro mult_left_mono) (auto simp: M_def)
    moreover have "2 * (M * M) * h \<le> 2 * (M * M) * M" using h by (intro mult_left_mono) (auto simp: M_def)
    ultimately show ?thesis by (simp add: M_def algebra_simps)
  qed
  finally have "M * M * (h * (e + 4 * C)) \<le> M * M * (M * 536870916)" by (simp add: mult.assoc)
  then show ?thesis unfolding M_def by simp
qed

lemma reciprocal_round_bounds:
  assumes h: "1073741824 \<le> h" "h \<le> 2147483647" and e: "0 \<le> e" "e \<le> 1073741832"
    and P: "doubling_high_mul h e \<le> 1073741824"
  shows "\<exists>e'. reciprocal_round h e = Some e' \<and> h * e' \<le> 2147483648 * 536870916 \<and> e' \<le> 1073741832 \<and>
    e * (4294967296 - 4 * doubling_high_mul h e) - 4294967296 < 2147483648 * e'"
proof -
  define P where "P = doubling_high_mul h e"
  define C where "C = doubling_high_mul e (536870912 - P)"
  have i: "is_i32 h" "is_i32 e" using h e by (simp_all add: is_i32_def)
  have P0: "0 \<le> P" unfolding P_def using h e by (intro dhm_sign) simp
  have Pw: "2147483648 * P \<le> h * e + 1073741824" "h * e - 1073741824 < 2147483648 * P"
    using dhm_window [of h e] h by (simp_all add: P_def)
  have P1: "P \<le> 1073741824" using assms(5) by (simp add: P_def)
  have Cw: "2147483648 * C \<le> e * (536870912 - P) + 1073741824"
    "e * (536870912 - P) - 1073741824 < 2147483648 * C"
    using dhm_window [of e "536870912 - P"] e by (simp_all add: C_def)
  have "e * (536870912 - P) \<le> 1073741832 * 536870912"
    using e P0 by (intro order.trans [OF mult_left_mono mult_right_mono]) auto
  then have Cu: "C \<le> 268435458" using Cw(1) by simp
  have "e * (P - 536870912) \<le> 1073741832 * 536870912"
    using e P1 by (intro order.trans [OF mult_left_mono mult_right_mono]) auto
  then have Cl: "-268435459 \<le> C" using Cw(2) by (simp add: algebra_simps)
  have bound: "h * (e + 4 * C) \<le> 2147483648 * 536870916"
    by (rule newton_step [OF _ _ e(1) _ _ Cw(1)]) (use h e Pw(2) in simp_all)
  have up: "e + 4 * C \<le> 1073741832"
  proof (rule ccontr)
    assume "\<not> ?thesis"
    then have "1073741824 * 1073741833 \<le> h * (e + 4 * C)" using h by (intro mult_mono) auto
    then show False using bound by simp
  qed
  have "0 \<le> e * (4294967296 - 4 * P)" using e P1 by simp
  then have low: "e * (4294967296 - 4 * P) - 4294967296 < 2147483648 * (e + 4 * C)"
    using Cw(2) by (simp add: algebra_simps)
  have "- 2 < e + 4 * C" using low \<open>0 \<le> e * _\<close> by simp
  then have id: "is_i32 (e + 4 * C)" using up by (simp add: is_i32_def)
  have "reciprocal_round h e = Some (e + 4 * C)"
  proof -
    have "is_i32 (536870912 - P)" using P0 P1 by (simp add: is_i32_def)
    moreover have "sat_shift_left C 2 = Some (C * 4)"
      using Cl Cu by (simp add: sat_shift_left_def Let_def wrap32_id is_i32_def)
    ultimately show ?thesis
      using i P0 P1 id unfolding reciprocal_round_def
      by (simp add: sat_round_dbl_high_mul_eq P_def [symmetric] C_def [symmetric] wrapping_add_id
          i32_def mult.commute [of C])
  qed
  then show ?thesis using bound up low unfolding P_def by blast
qed

text \<open>After the first step the estimate is large, and each later step loses at most 11.\<close>

lemma reciprocal_round_later:
  assumes h: "1073741824 \<le> h" "h \<le> 2147483647" and e: "0 \<le> e" "e \<le> 1073741832"
    and inv: "h * e \<le> 2147483648 * 536870916"
  shows "\<exists>e'. reciprocal_round h e = Some e' \<and> h * e' \<le> 2147483648 * 536870916 \<and> e' \<le> 1073741832 \<and>
    e - 11 \<le> e'"
proof -
  have P: "doubling_high_mul h e \<le> 536870916"
    using dhm_window(1) [of h e] h(1) inv by simp
  then obtain e' where e': "reciprocal_round h e = Some e'" "h * e' \<le> 2147483648 * 536870916"
    "e' \<le> 1073741832"
    "e * (4294967296 - 4 * doubling_high_mul h e) - 4294967296 < 2147483648 * e'"
    using reciprocal_round_bounds [OF h e] by auto
  have "e * 2147483632 \<le> e * (4294967296 - 4 * doubling_high_mul h e)"
    using P e(1) by (intro mult_left_mono) auto
  then have "e - 11 \<le> e'" using e'(4) e(2) by simp
  then show ?thesis using e' by blast
qed

lemma reciprocal_nonneg:
  assumes "0 \<le> x" and "x \<le> INT32_MAX"
  shows "\<exists>v. softmax_one_over_one_plus_x x = Some v \<and> is_i32 v \<and> 0 \<le> v"
proof -
  define h where "h = (x + 2147483648) div 2"
  have h: "1073741824 \<le> h" "h \<le> 2147483647" using assms by (simp_all add: h_def)
  define D where "D = doubling_high_mul h (- 1010580540)"
  have "h * - 1010580540 \<le> 1073741824 * - 1010580540" using h by simp
  then have D1: "D \<le> -505290270"
    using dhm_window(1) [of h "- 1010580540"] h by (simp add: D_def)
  have "is_i32 h" "is_i32 (- 1010580540)" using h by (simp_all add: is_i32_def)
  then have D0: "- 1010580540 \<le> D" using dhm_abs(2) [of h "- 1010580540"] by (simp add: D_def)
  define e0 where "e0 = 1515870810 + D"
  have e0: "505290270 \<le> e0" "e0 \<le> 1010580540" using D0 D1 by (simp_all add: e0_def)
  have "is_i32 e0" using e0 by (simp add: is_i32_def)
  then have "\<bar>doubling_high_mul h e0\<bar> \<le> \<bar>e0\<bar>" using \<open>is_i32 h\<close> by (intro dhm_abs(2))
  then have P: "doubling_high_mul h e0 \<le> 1010580540" using e0 by simp
  obtain e1 where e1: "reciprocal_round h e0 = Some e1" "h * e1 \<le> 2147483648 * 536870916"
    "e1 \<le> 1073741832" "e0 * (4294967296 - 4 * doubling_high_mul h e0) - 4294967296 < 2147483648 * e1"
    using reciprocal_round_bounds [OF h, of e0] e0 P by auto
  have "505290270 * 252645136 \<le> e0 * (4294967296 - 4 * doubling_high_mul h e0)"
    using e0(1) P by (intro mult_mono) auto
  then have e1': "59000000 \<le> e1" using e1(4) by simp
  obtain e2 where e2: "reciprocal_round h e1 = Some e2" "h * e2 \<le> 2147483648 * 536870916"
    "e2 \<le> 1073741832" "e1 - 11 \<le> e2"
    using reciprocal_round_later [OF h _ e1(3) e1(2)] e1' by auto
  obtain e3 where e3: "reciprocal_round h e2 = Some e3" "e3 \<le> 1073741832" "e2 - 11 \<le> e3"
    using reciprocal_round_later [OF h _ e2(3) e2(2)] e1' e2(4) by auto
  have it: "iterate 3 (reciprocal_round h) e0 = Some e3"
    using e1(1) e2(1) e3(1) by (simp add: eval_nat_numeral)
  have pos: "0 \<le> e3" using e1' e2(4) e3(3) by simp
  have last: "sat_shift_left e3 1 = Some (if e3 > 1073741823 then INT32_MAX else e3 * 2)"
    using pos by (auto simp: sat_shift_left_def Let_def wrap32_id is_i32_def)
  have t: "(x + INT32_MAX + (if x + INT32_MAX \<ge> 0 then 1 else -1)) sdiv 2 = h"
    using assms(1) by (simp add: h_def signed_divide_int_def)
  have w: "wrapping_add 1515870810 D = e0"
    using \<open>is_i32 e0\<close> by (simp add: wrapping_add_id e0_def)
  have "softmax_one_over_one_plus_x x = sat_shift_left e3 1"
    unfolding softmax_one_over_one_plus_x_def
    using assms h it t w \<open>is_i32 h\<close> \<open>is_i32 (- 1010580540)\<close>
    by (simp add: i64_def Let_def i32_def sat_round_dbl_high_mul_eq D_def [symmetric])
  then show ?thesis using last pos by (simp add: is_i32_def)
qed

section \<open>The row functions\<close>

definition params_ok :: "softmax_params_t \<Rightarrow> bool" where
  "params_ok p = (0 \<le> sm_left_shift p \<and> sm_left_shift p \<le> 30 \<and> 0 \<le> sm_multiplier p \<and>
     is_i32 (sm_multiplier p) \<and> sm_diff_min p = - (2080374784 div 2 ^ nat (sm_left_shift p)))"

lemma params_ok_softmax_params:
  "softmax_params m s = Some p \<Longrightarrow> 0 \<le> m \<Longrightarrow> is_i32 m \<Longrightarrow> params_ok p"
  by (auto simp: softmax_params_def params_ok_def split: if_splits)

lemma diff_min_nonpos: "params_ok p \<Longrightarrow> sm_diff_min p \<le> 0"
  by (simp add: params_ok_def pos_imp_zdiv_nonneg_iff)

lemma div_times_le: "0 < D \<Longrightarrow> (K :: int) div D * D \<le> K"
  using div_mult_mod_eq [of K D] pos_mod_sign [of D K] by linarith

lemma scaled_diff_range:
  assumes "params_ok p" and "diff \<le> 0" and "sm_diff_min p \<le> diff"
  shows "\<exists>v. softmax_scaled_diff diff p = Some v \<and> is_i32 v \<and> v \<le> 0 \<and> (diff = 0 \<longrightarrow> v = 0)"
proof -
  let ?s = "2 ^ nat (sm_left_shift p) :: int"
  have "- diff * ?s \<le> (2080374784 div ?s) * ?s"
    using assms by (intro mult_right_mono) (auto simp: params_ok_def)
  also have "\<dots> \<le> 2080374784" by (rule div_times_le) simp
  finally have lo: "-2080374784 \<le> diff * ?s" by simp
  have hi: "diff * ?s \<le> 0" using assms by (simp add: mult_nonpos_nonneg)
  have v: "is_i32 (diff * ?s)" using lo hi by (simp add: is_i32_def)
  have "doubling_high_mul (diff * ?s) (sm_multiplier p) \<le> 0"
    using hi assms(1) by (intro dhm_sign) (simp add: params_ok_def mult_nonpos_nonneg)
  moreover have "softmax_scaled_diff diff p = Some (doubling_high_mul (diff * ?s) (sm_multiplier p))"
    using assms(1) v lo hi unfolding softmax_scaled_diff_def
    by (simp add: params_ok_def shl32_def i32_def sat_round_dbl_high_mul_eq)
  moreover have "is_i32 (doubling_high_mul (diff * ?s) (sm_multiplier p))"
    using assms(1) v by (intro is_i32_doubling_high_mul) (simp_all add: params_ok_def)
  ultimately show ?thesis by (auto simp: doubling_high_mul_def round_half_up_def)
qed

lemma row_max_correct:
  "c + n \<le> length x \<Longrightarrow> \<exists>m. row_max x c n v = Some m \<and> v \<le> m \<and>
     (\<forall>i. c \<le> i \<and> i < c + n \<longrightarrow> x ! i \<le> m) \<and> (m = v \<or> (\<exists>i. c \<le> i \<and> i < c + n \<and> x ! i = m))"
proof (induction n arbitrary: c v)
  case (Suc n)
  define w where "w = (if x ! c > v then x ! c else v)"
  obtain m where m: "row_max x (Suc c) n w = Some m" "w \<le> m"
    "\<forall>i. Suc c \<le> i \<and> i < Suc c + n \<longrightarrow> x ! i \<le> m"
    "m = w \<or> (\<exists>i. Suc c \<le> i \<and> i < Suc c + n \<and> x ! i = m)"
    using Suc.IH [of "Suc c" w] Suc.prems by auto
  have "row_max x c (Suc n) v = Some m"
    using m(1) Suc.prems by (simp add: arr_get_def w_def)
  moreover have "v \<le> m" using m(2) by (simp add: w_def split: if_splits)
  moreover have "x ! i \<le> m" if "c \<le> i" "i < c + Suc n" for i
    using that m(2, 3) by (cases "i = c") (auto simp: w_def split: if_splits)
  moreover have "m = v \<or> (\<exists>i. c \<le> i \<and> i < c + Suc n \<and> x ! i = m)"
  proof (cases "m = w")
    case True
    then show ?thesis unfolding w_def by (metis Suc_leI add_Suc_right lessI less_add_Suc1 order_refl)
  next
    case False
    then obtain i where "Suc c \<le> i" "i < Suc c + n" "x ! i = m" using m(4) by blast
    then have "c \<le> i \<and> i < c + Suc n \<and> x ! i = m" by simp
    then show ?thesis by blast
  qed
  ultimately show ?case by blast
qed simp

lemma softmax_sum_range:
  assumes "params_ok p"
  shows "c + n \<le> length x \<Longrightarrow> (\<And>i. c \<le> i \<Longrightarrow> i < c + n \<Longrightarrow> x ! i \<le> m \<and> m - x ! i \<le> 255) \<Longrightarrow> 0 \<le> acc \<Longrightarrow>
     acc + int n * 524288 \<le> INT32_MAX \<Longrightarrow>
     \<exists>s. softmax_sum p x m c n acc = Some s \<and> acc \<le> s \<and> s \<le> acc + int n * 524288 \<and>
       ((\<exists>i. c \<le> i \<and> i < c + n \<and> x ! i = m) \<longrightarrow> acc + 524288 \<le> s)"
proof (induction n arbitrary: c acc)
  case (Suc n)
  let ?d = "x ! c - m"
  have xc: "x ! c \<le> m" "m - x ! c \<le> 255" using Suc.prems(2) [of c] by simp_all
  have d: "?d \<le> 0" "i32 ?d = Some ?d" using xc by (simp_all add: i32_def)
  have get: "arr_get x c = Some (x ! c)" using Suc.prems(1) by simp
  have range: "Suc c + n \<le> length x"
    "\<And>i. Suc c \<le> i \<Longrightarrow> i < Suc c + n \<Longrightarrow> x ! i \<le> m \<and> m - x ! i \<le> 255"
    using Suc.prems(1, 2) by auto
  have split: "(\<exists>i. c \<le> i \<and> i < c + Suc n \<and> x ! i = m) \<longleftrightarrow>
      x ! c = m \<or> (\<exists>i. Suc c \<le> i \<and> i < Suc c + n \<and> x ! i = m)"
    by (metis Suc_leD Suc_leI add_Suc add_Suc_right le_eq_less_or_eq lessI less_add_Suc1 order_refl)
  show ?case
  proof (cases "sm_diff_min p \<le> ?d")
    case True
    obtain a where a: "softmax_scaled_diff ?d p = Some a" "is_i32 a" "a \<le> 0" "?d = 0 \<longrightarrow> a = 0"
      using scaled_diff_range [OF assms d(1) True] by blast
    obtain e where e: "softmax_exp_negative a = Some e" "0 \<le> e" "e \<le> INT32_MAX" "a = 0 \<longrightarrow> e = INT32_MAX"
      using exp_negative_range [OF a(2, 3)] by blast
    define t where "t = round_half_away e 12"
    have r: "round_half_away INT32_MAX 12 = 524288" by (simp add: round_half_away_def)
    have t: "0 \<le> t" "t \<le> 524288" "?d = 0 \<longrightarrow> t = 524288"
      using rha_mono_nonneg [OF e(2, 3), of 12] a(4) e(4) r by (auto simp: t_def)
    have w: "wrapping_add acc t = acc + t"
      by (rule wrapping_add_id) (use t(1, 2) Suc.prems(3, 4) in \<open>simp add: is_i32_def\<close>)
    obtain s where s: "softmax_sum p x m (Suc c) n (acc + t) = Some s" "acc + t \<le> s"
      "s \<le> acc + t + int n * 524288"
      "(\<exists>i. Suc c \<le> i \<and> i < Suc c + n \<and> x ! i = m) \<longrightarrow> acc + t + 524288 \<le> s"
      using Suc.IH [of "Suc c" "acc + t"] range t(1, 2) Suc.prems(3, 4) by fastforce
    have step: "softmax_sum p x m c (Suc n) acc = softmax_sum p x m (Suc c) n (acc + t)"
      using get d(2) True a(1) e(1-3) w
      by (simp add: round_div_by_pot_eq is_i32_def t_def arr_get_def i32_def)
    show ?thesis
      using s t step unfolding split by (intro exI [of _ s]) auto
  next
    case False
    then have "?d \<noteq> 0" using diff_min_nonpos [OF assms] by auto
    moreover obtain s where "softmax_sum p x m (Suc c) n acc = Some s" "acc \<le> s"
      "s \<le> acc + int n * 524288"
      "(\<exists>i. Suc c \<le> i \<and> i < Suc c + n \<and> x ! i = m) \<longrightarrow> acc + 524288 \<le> s"
      using Suc.IH [of "Suc c" acc] range Suc.prems(3, 4) by fastforce
    moreover have "softmax_sum p x m c (Suc n) acc = softmax_sum p x m (Suc c) n acc"
      using get d(2) False by (simp del: i32_Some arr_get_Some)
    ultimately show ?thesis unfolding split by (intro exI [of _ s]) auto
  qed
qed simp

lemma softmax_write_correct:
  "c + n \<le> length x \<Longrightarrow> c + n \<le> length y \<Longrightarrow>
   (\<And>i. c \<le> i \<Longrightarrow> i < c + n \<Longrightarrow> i32 (x ! i - m) = Some (x ! i - m) \<and> code (x ! i - m) = Some (f (x ! i))) \<Longrightarrow>
     softmax_write code x m c n y = Some (take c y @ map f (take n (drop c x)) @ drop (c + n) y)"
proof (induction n arbitrary: c y)
  case (Suc n)
  have "softmax_write code x m c (Suc n) y = softmax_write code x m (Suc c) n (y[c := f (x ! c)])"
    using Suc.prems(1, 2) Suc.prems(3) [of c] by (simp add: arr_get_def arr_set_def i32_def)
  also have "\<dots> = Some (take (Suc c) (y[c := f (x ! c)]) @ map f (take n (drop (Suc c) x)) @
      drop (Suc c + n) (y[c := f (x ! c)]))"
    by (rule Suc.IH) (use Suc.prems in auto)
  also have "take (Suc c) (y[c := f (x ! c)]) = take c y @ [f (x ! c)]"
    using Suc.prems(2) by (simp add: take_Suc_conv_app_nth)
  also have "drop (Suc c + n) (y[c := f (x ! c)]) = drop (c + Suc n) y" by simp
  also have "map f (take n (drop (Suc c) x)) = tl (map f (take (Suc n) (drop c x)))"
    using Suc.prems(1) by (simp add: Cons_nth_drop_Suc [symmetric, of c x])
  also have "(take c y @ [f (x ! c)]) @ tl (map f (take (Suc n) (drop c x))) @ drop (c + Suc n) y =
      take c y @ map f (take (Suc n) (drop c x)) @ drop (c + Suc n) y"
    using Suc.prems(1) by (simp add: Cons_nth_drop_Suc [symmetric, of c x])
  finally show ?case .
qed simp

section \<open>The whole row\<close>

lemma round_half_away_halves:
  assumes "is_i32 d" and "0 < k"
  shows "\<bar>round_half_away d k\<bar> \<le> 1073741824 + 1"
proof (rule ccontr)
  define P :: int where "P = 2 ^ k"
  define q where "q = round_half_away d k"
  assume "\<not> ?thesis"
  then have q: "2147483648 + 3 \<le> 2 * \<bar>q\<bar> - 1" by (simp add: q_def)
  have P: "2 \<le> P" using assms(2) power_increasing [of 1 k "2 :: int"] by (simp add: P_def)
  have "2 * \<bar>P * q - d\<bar> \<le> P" unfolding P_def q_def by (rule round_half_away_error)
  moreover have "2 * \<bar>A\<bar> \<le> P + 2 * \<bar>d\<bar>" if "2 * \<bar>A - d\<bar> \<le> P" for A
    using that abs_triangle_ineq2 [of A d] by simp
  ultimately have "2 * \<bar>P * q\<bar> \<le> P + 2 * \<bar>d\<bar>" by blast
  moreover have "\<bar>P * q\<bar> = P * \<bar>q\<bar>" using P by (simp add: abs_mult)
  ultimately have "2 * (P * \<bar>q\<bar>) \<le> P + 2 * \<bar>d\<bar>" by (simp only:)
  then have "P * (2 * \<bar>q\<bar> - 1) \<le> 2 * \<bar>d\<bar>" by (simp add: algebra_simps)
  moreover have "2 * (2147483648 + 3) \<le> P * (2 * \<bar>q\<bar> - 1)" using P q by (intro mult_mono) auto
  moreover have "\<bar>d\<bar> \<le> 2147483648" using assms(1) by (simp add: is_i32_def abs_le_iff)
  ultimately show False by simp
qed

lemma softmax_code_defined:
  assumes "params_ok p" and "is_i32 reciprocal" and "diff \<le> 0" and "-22 \<le> bits"
  shows "\<exists>v. softmax_code p reciprocal bits diff = Some v \<and> is_i8 v"
proof (cases "sm_diff_min p \<le> diff")
  case True
  obtain a where a: "softmax_scaled_diff diff p = Some a" "is_i32 a" "a \<le> 0"
    using scaled_diff_range [OF assms(1, 3) True] by blast
  obtain e where e: "softmax_exp_negative a = Some e" "0 \<le> e" "e \<le> INT32_MAX"
    using exp_negative_range [OF a(2, 3)] by blast
  have ie: "is_i32 e" using e by (simp add: is_i32_def)
  define d where "d = doubling_high_mul reciprocal e"
  have d: "is_i32 d" unfolding d_def using assms(2) ie by (rule is_i32_doubling_high_mul)
  define q where "q = round_half_away d (nat (bits + 31 - 8))"
  have q: "is_i32 (q - 128)"
  proof -
    have "\<bar>q\<bar> \<le> 1073741824 + 1"
      unfolding q_def by (rule round_half_away_halves [OF d]) (use assms(4) in simp)
    then show ?thesis by (intro is_i32I) linarith
  qed
  then show ?thesis
    using True a(1) e(1) assms(2) ie d unfolding softmax_code_def
    by (simp add: sat_round_dbl_high_mul_eq round_div_by_pot_eq d_def [symmetric])
      (simp add: q_def add.commute i32_def is_i32_def)
next
  case False
  then show ?thesis by (simp add: softmax_code_def is_i8_def)
qed

lemma normalised_sum:
  assumes "0 < acc" and "acc \<le> INT32_MAX"
  shows "\<exists>r w. count_leading_zeros (word_of_int acc) = Some (int r) \<and> 1 \<le> r \<and> r < 32 \<and>
     shl_u32 (word_of_int acc) (int r) = Some w \<and> 0 \<le> sint (w - 0x80000000)"
proof -
  have u: "unat (word_of_int acc :: u32) = nat acc" using assms by (intro unat_of_int_u32) auto
  then have "(word_of_int acc :: u32) \<noteq> 0" using assms by auto
  then obtain r where r: "count_leading_zeros (word_of_int acc) = Some (int r)" "r < 32"
    "2 ^ (31 - r) \<le> unat (word_of_int acc :: u32)" "unat (word_of_int acc :: u32) < 2 ^ (32 - r)"
    using count_leading_zeros_eq by blast
  have "r \<noteq> 0"
  proof
    assume "r = 0"
    then have "2147483648 \<le> nat acc" using r(3) u by simp
    then show False using assms by simp
  qed
  define w where "w = push_bit r (word_of_int acc :: u32)"
  have "(2 :: nat) ^ 31 = 2 ^ (31 - r) * 2 ^ r" "(2 :: nat) ^ 32 = 2 ^ (32 - r) * 2 ^ r"
    using r(2) by (simp_all only: power_add [symmetric]) simp_all
  then have W: "2147483648 \<le> unat (word_of_int acc :: u32) * 2 ^ r"
    "unat (word_of_int acc :: u32) * 2 ^ r < 4294967296"
    using mult_strict_right_mono [OF r(4), of "2 ^ r"] mult_right_mono [OF r(3), of "2 ^ r"]
    by simp_all
  have "unat w = take_bit 32 (push_bit r (unat (word_of_int acc :: u32)))"
    by (simp only: w_def unsigned_push_bit_eq) simp
  also have "\<dots> = unat (word_of_int acc :: u32) * 2 ^ r"
    using W(2) by (simp only: push_bit_eq_mult take_bit_nat_eq_self_iff) simp
  finally have "unat w = unat (word_of_int acc :: u32) * 2 ^ r" .
  then have "2147483648 \<le> unat w" "unat w < 4294967296" using W by (simp_all only:)
  moreover have "uint w = int (unat w)" by simp
  ultimately have uw: "2147483648 \<le> uint w" "uint w < 4294967296" by linarith+
  have "w - 0x80000000 = word_of_int (uint w - 2147483648)" by simp
  moreover have "is_i32 (uint w - 2147483648)" using uw by (simp add: is_i32_def)
  ultimately have "sint (w - 0x80000000) = uint w - 2147483648" by (simp only: sint_of_int_u32)
  then have "0 \<le> sint (w - 0x80000000)" using uw by simp
  then show ?thesis using r \<open>r \<noteq> 0\<close> by (simp add: shl_u32_def w_def)
qed

text \<open>The codes a row writes: the code of each difference to the maximum.\<close>

lemma softmax_row_form:
  assumes "params_ok p" and "0 < classes" and "classes < 4096"
    and "classes \<le> length x" and "classes \<le> length y" and "\<forall>v\<in>set x. is_i8 v"
  shows "\<exists>m v r. (\<forall>i < classes. x ! i \<le> m) \<and> (\<exists>i < classes. x ! i = m) \<and> is_i32 v \<and> 0 \<le> v \<and> r < 32 \<and>
     softmax_row_fixed_point x y classes p =
       Some (map (\<lambda>c. the (softmax_code p v (12 - int r) (c - m))) (take classes x) @ drop classes y)"
proof -
  have len: "0 < length x" "1 + (classes - 1) \<le> length x" using assms(2, 4) by auto
  obtain m where m: "row_max x 1 (classes - 1) (x ! 0) = Some m" "x ! 0 \<le> m"
    "\<forall>i. 1 \<le> i \<and> i < 1 + (classes - 1) \<longrightarrow> x ! i \<le> m"
    "m = x ! 0 \<or> (\<exists>i. 1 \<le> i \<and> i < 1 + (classes - 1) \<and> x ! i = m)"
    using row_max_correct [OF len(2), of "x ! 0"] by blast
  have le: "x ! i \<le> m" if "i < classes" for i
    using that m(2, 3) assms(2) by (cases "i = 0") auto
  have ex: "\<exists>i < classes. x ! i = m"
    using m(4) assms(2) by (elim disjE exE) (auto intro: exI [of _ "0 :: nat"])
  have i8: "is_i8 (x ! i)" if "i < classes" for i
    using that assms(4, 6) by (meson nth_mem order.strict_trans2)
  have near: "m - x ! i \<le> 255" if "i < classes" for i
    using ex i8 [OF that] i8 by (auto simp: is_i8_def) (smt (verit))
  obtain acc where acc: "softmax_sum p x m 0 classes 0 = Some acc" "524288 \<le> acc"
    "acc \<le> int classes * 524288"
    using softmax_sum_range [OF assms(1), of 0 classes x m 0] le near ex assms(3, 4) by auto
  have "acc \<le> INT32_MAX" using acc(3) assms(3) by simp
  then obtain r w where n: "count_leading_zeros (word_of_int acc) = Some (int r)"
    "shl_u32 (word_of_int acc) (int r) = Some w" "r < 32" "0 \<le> sint (w - 0x80000000)"
    using normalised_sum [of acc] acc(2) by auto
  have "sint (w - 0x80000000) \<le> INT32_MAX" using sint_lt [of "w - 0x80000000"] by simp
  then obtain v where v: "softmax_one_over_one_plus_x (sint (w - 0x80000000)) = Some v" "is_i32 v" "0 \<le> v"
    using reciprocal_nonneg [OF n(4)] by auto
  define f where "f = (\<lambda>c. the (softmax_code p v (12 - int r) (c - m)))"
  have code: "softmax_code p v (12 - int r) (x ! i - m) = Some (f (x ! i))" if "i < classes" for i
    using softmax_code_defined [OF assms(1) v(2), of "x ! i - m" "12 - int r"] le [OF that] n(3)
    by (auto simp: f_def)
  have "softmax_write (softmax_code p v (12 - int r)) x m 0 classes y =
      Some (take 0 y @ map f (take classes (drop 0 x)) @ drop (0 + classes) y)"
  proof (rule softmax_write_correct)
    fix i assume "0 \<le> i" and "i < 0 + classes"
    then have i: "i < classes" by simp
    show "i32 (x ! i - m) = Some (x ! i - m) \<and>
        softmax_code p v (12 - int r) (x ! i - m) = Some (f (x ! i))"
      using code [OF i] le [OF i] near [OF i] by (simp add: i32_def)
  qed (use assms(4, 5) in simp_all)
  then have "softmax_row_fixed_point x y classes p = Some (map f (take classes x) @ drop classes y)"
    using len(1) m(1) acc(1) n(1, 2) v(1) unfolding softmax_row_fixed_point_def
    by (simp add: arr_get_def)
  then show ?thesis using le ex v(2, 3) n(3) unfolding f_def by blast
qed

lemma softmax_row_defined:
  assumes "params_ok p" and "0 < classes" and "classes < 4096"
    and "classes \<le> length x" and "classes \<le> length y" and "\<forall>v\<in>set x. is_i8 v"
  shows "\<exists>codes. softmax_row_fixed_point x y classes p = Some (codes @ drop classes y) \<and>
     length codes = classes \<and> (\<forall>v\<in>set codes. is_i8 v)"
proof -
  obtain m v r where f: "\<forall>i < classes. x ! i \<le> m" "is_i32 v" "r < 32"
    "softmax_row_fixed_point x y classes p =
       Some (map (\<lambda>c. the (softmax_code p v (12 - int r) (c - m))) (take classes x) @ drop classes y)"
    using softmax_row_form [OF assms] by blast
  have "is_i8 (the (softmax_code p v (12 - int r) (x ! i - m)))" if "i < classes" for i
    using softmax_code_defined [OF assms(1) f(2), of "x ! i - m" "12 - int r"] f(1, 3) that by auto
  then have "\<forall>c\<in>set (map (\<lambda>c. the (softmax_code p v (12 - int r) (c - m))) (take classes x)). is_i8 c"
    using assms(4) by (auto simp: in_set_conv_nth)
  then show ?thesis using f(4) assms(4) by (metis length_map length_take min.absorb2)
qed

text \<open>The code of the maximum is the largest.\<close>

lemma softmax_code_top:
  assumes "params_ok p" and "is_i32 v" and "0 \<le> v" and "diff \<le> 0" and "-22 \<le> bits"
  shows "the (softmax_code p v bits diff) \<le> the (softmax_code p v bits 0)"
proof -
  have 0: "softmax_scaled_diff 0 p = Some 0" "softmax_exp_negative 0 = Some INT32_MAX"
    using scaled_diff_range [OF assms(1) order.refl diff_min_nonpos [OF assms(1)]]
      exp_negative_range [of 0] by (auto simp: is_i32_def)
  let ?q = "\<lambda>e. round_half_away (doubling_high_mul v e) (nat (bits + 31 - 8))"
  have code: "softmax_code p v bits d = Some (clamp_s8 (?q e - 128))"
    if "sm_diff_min p \<le> d" "softmax_scaled_diff d p = Some a" "softmax_exp_negative a = Some e"
      "0 \<le> e" "e \<le> INT32_MAX" for d a e
  proof -
    have e: "is_i32 e" using that(4, 5) by (simp add: is_i32_def)
    have d: "is_i32 (doubling_high_mul v e)" using assms(2) e by (rule is_i32_doubling_high_mul)
    have "\<bar>?q e\<bar> \<le> 1073741824 + 1"
      by (rule round_half_away_halves [OF d]) (use assms(5) in simp)
    then have "i32 (?q e - 128) = Some (?q e - 128)" by (simp add: i32_def abs_le_iff)
    then show ?thesis
      using that(1-3) assms(2) e d unfolding softmax_code_def
      by (simp add: sat_round_dbl_high_mul_eq round_div_by_pot_eq del: i32_Some)
  qed
  have top: "softmax_code p v bits 0 = Some (clamp_s8 (?q INT32_MAX - 128))"
    by (rule code [OF diff_min_nonpos [OF assms(1)] 0]) simp_all
  show ?thesis
  proof (cases "sm_diff_min p \<le> diff")
    case True
    obtain a where a: "softmax_scaled_diff diff p = Some a" "is_i32 a" "a \<le> 0"
      using scaled_diff_range [OF assms(1, 4) True] by blast
    obtain e where e: "softmax_exp_negative a = Some e" "0 \<le> e" "e \<le> INT32_MAX"
      using exp_negative_range [OF a(2, 3)] by blast
    have "0 \<le> doubling_high_mul v e" using assms(3) e(2) by (intro dhm_sign) simp
    moreover have "doubling_high_mul v e \<le> doubling_high_mul v INT32_MAX"
      using assms(3) e(2, 3) by (intro dhm_mono) auto
    ultimately have "?q e \<le> ?q INT32_MAX" by (rule rha_mono_nonneg(2))
    then show ?thesis unfolding code [OF True a(1) e] top by (simp add: clamp_s8_def)
  next
    case False
    then show ?thesis unfolding top by (simp add: softmax_code_def clamp_s8_def)
  qed
qed

lemma arr_get_map: "arr_get (map f x) c = map_option f (arr_get x c)"
  by (simp add: arr_get_def)

lemma row_max_shift:
  "row_max (map (\<lambda>v. v + k) x) c n (v + k) = map_option (\<lambda>v. v + k) (row_max x c n v)"
proof (induction n arbitrary: c v)
  case (Suc n)
  show ?case
  proof (cases "arr_get x c")
    case (Some w)
    then show ?thesis using Suc.IH [of "Suc c" "if w > v then w else v"] 
      by (simp add: arr_get_map if_distrib [of "\<lambda>v. v + k"] del: arr_get_Some)
  qed (simp add: arr_get_map)
qed simp

lemma softmax_sum_shift: "softmax_sum p (map (\<lambda>v. v + k) x) (m + k) c n acc = softmax_sum p x m c n acc"
proof (induction n arbitrary: c acc)
  case (Suc n)
  then show ?case by (cases "arr_get x c") 
      (simp_all add: arr_get_map Suc.IH del: arr_get_Some cong: if_cong)
qed simp

lemma softmax_write_shift:
  "softmax_write code (map (\<lambda>v. v + k) x) (m + k) c n y = softmax_write code x m c n y"
proof (induction n arbitrary: c y)
  case (Suc n)
  have "softmax_write code (map (\<lambda>v. v + k) x) (m + k) d n = softmax_write code x m d n" for d
    by (rule ext) (rule Suc.IH)
  then show ?case by (cases "arr_get x c") (simp_all add: arr_get_map del: arr_get_Some)
qed simp

lemma softmax_sum_uniform:
  assumes "params_ok p"
  shows "c + n \<le> k \<Longrightarrow>
    softmax_sum p (replicate k v) v c n (wrap32 a) = Some (wrap32 (a + int n * 524288))"
proof (induction n arbitrary: c a)
  case (Suc n)
  have s: "softmax_scaled_diff 0 p = Some 0"
    using scaled_diff_range [OF assms order.refl diff_min_nonpos [OF assms]] by auto
  have e: "softmax_exp_negative 0 = Some INT32_MAX"
    using exp_negative_range [of 0] by (auto simp: is_i32_def)
  have t: "round_div_by_pot INT32_MAX 12 = Some 524288"
    by (simp add: round_div_by_pot_eq is_i32_def round_half_away_def)
  have w: "wrapping_add (wrap32 a) 524288 = wrap32 (a + 524288)"
    by (simp add: wrapping_add_def wrap32_def)
  have "softmax_sum p (replicate k v) v c (Suc n) (wrap32 a) =
      softmax_sum p (replicate k v) v (Suc c) n (wrap32 (a + 524288))"
    using Suc.prems s e t w diff_min_nonpos [OF assms] by (simp add: arr_get_def i32_def)
  also have "\<dots> = Some (wrap32 (a + 524288 + int n * 524288))"
    by (rule Suc.IH) (use Suc.prems in simp)
  finally show ?case by (simp add: algebra_simps)
qed simp

lemma row_max_uniform: "c + n \<le> k \<Longrightarrow> row_max (replicate k v) c n v = Some v"
  by (induction n arbitrary: c) (simp_all add: arr_get_def)

section \<open>Properties\<close>

text \<open>C18. Softmax on a row. For parameters the kernel can compute and fewer than 4096 classes
  of int8 codes, the row has no undefined behaviour (no overflow, no shift by the width, no access
  outside the two rows), writes exactly its \<open>classes\<close> codes and nothing after them, and
  every code is an int8.\<close>

theorem softmax_row_safe:
  assumes "softmax_params m s = Some p" and "0 \<le> m" and "is_i32 m"
    and "0 < classes" and "classes < 4096"
    and "classes \<le> length x" and "classes \<le> length y" and "\<forall>v\<in>set x. is_i8 v"
  shows "\<exists>codes. softmax_row_fixed_point x y classes p = Some (codes @ drop classes y) \<and>
     length codes = classes \<and> (\<forall>v\<in>set codes. is_i8 v)"
  by (rule softmax_row_defined [OF params_ok_softmax_params [OF assms(1-3)] assms(4-8)])

lemma softmax_row_safe_witness:
  "\<exists>codes. softmax_row_fixed_point [10, -128, 127] [0, 0, 0, 7] 3
       \<lparr> sm_multiplier = 1073741824, sm_left_shift = 23, sm_diff_min = -248 \<rparr> = Some (codes @ [7]) \<and>
     length codes = 3 \<and> (\<forall>v\<in>set codes. is_i8 v)"
  using softmax_row_safe [of 1073741824 23
      "\<lparr> sm_multiplier = 1073741824, sm_left_shift = 23, sm_diff_min = -248 \<rparr>" 3 "[10, -128, 127]" "[0, 0, 0, 7]"]
  by (simp add: softmax_params_def is_i32_def is_i8_def)

text \<open>Softmax depends only on the differences between the codes: adding a constant to
  every code of a row gives the same output, undefined behaviour included.\<close>

lemma softmax_shift_invariant:
  "softmax_row_fixed_point (map (\<lambda>v. v + k) x) y classes p = softmax_row_fixed_point x y classes p"
proof (cases "arr_get x 0")
  case (Some first)
  show ?thesis
  proof (cases "row_max x 1 (classes - 1) first")
    case (Some m)
    have "row_max (map (\<lambda>v. v + k) x) 1 (classes - 1) (first + k) = Some (m + k)"
      using Some by (simp only: row_max_shift) simp
    then show ?thesis
      using Some \<open>arr_get x 0 = Some first\<close> unfolding softmax_row_fixed_point_def
      by (simp only: arr_get_map option.map bind.bind_lunit softmax_sum_shift softmax_write_shift)
  next
    case None
    then have "row_max (map (\<lambda>v. v + k) x) 1 (classes - 1) (first + k) = None"
      by (simp only: row_max_shift) simp
    then show ?thesis
      using None \<open>arr_get x 0 = Some first\<close> unfolding softmax_row_fixed_point_def
      by (simp only: arr_get_map option.map bind.bind_lunit bind.bind_lzero)
  qed
qed (simp add: softmax_row_fixed_point_def arr_get_map)

text \<open>C26. Softmax keeps the winner: a class with the largest input code gets the largest output
  code, whatever the fixed-point exponentials, the Newton reciprocal and the rounding do. The
  order is not strict: a class with a smaller input code may reach the same output code, so a
  search for the first maximum may find another class.\<close>

theorem softmax_keeps_argmax:
  assumes "softmax_params m s = Some p" and "0 \<le> m" and "is_i32 m"
    and "classes < 4096" and "classes \<le> length x" and "classes \<le> length y" and "\<forall>v\<in>set x. is_i8 v"
    and "softmax_row_fixed_point x y classes p = Some out"
    and "j < classes" and "\<forall>k < classes. x ! k \<le> x ! j" and "i < classes"
  shows "out ! i \<le> out ! j"
proof -
  have p: "params_ok p" by (rule params_ok_softmax_params [OF assms(1-3)])
  have "0 < classes" using assms(9) by simp
  then obtain top v r where f: "\<forall>i < classes. x ! i \<le> top" "\<exists>i < classes. x ! i = top"
    "is_i32 v" "0 \<le> v" "r < 32"
    "softmax_row_fixed_point x y classes p =
       Some (map (\<lambda>c. the (softmax_code p v (12 - int r) (c - top))) (take classes x) @ drop classes y)"
    using softmax_row_form [OF p _ assms(4-7)] by blast
  have j: "x ! j = top" using f(1, 2) assms(9, 10) by (metis order.antisym)
  have out: "out ! k = the (softmax_code p v (12 - int r) (x ! k - top))" if "k < classes" for k
    using f(6) assms(5, 8) that by (auto simp: nth_append)
  show ?thesis
    unfolding out [OF assms(9)] out [OF assms(11)] j
    using softmax_code_top [OF p f(3, 4), of "x ! i - top" "12 - int r"] f(1, 5) assms(11) by simp
qed

lemma softmax_keeps_argmax_witness:
  "\<exists>out. softmax_row_fixed_point [10, -128, 127] [0, 0, 0] 3
       \<lparr> sm_multiplier = 1073741824, sm_left_shift = 23, sm_diff_min = -248 \<rparr> = Some out \<and> out ! 0 \<le> out ! 2"
proof -
  let ?p = "\<lparr> sm_multiplier = 1073741824, sm_left_shift = 23, sm_diff_min = -248 \<rparr>"
  have p: "softmax_params 1073741824 23 = Some ?p" by (simp add: softmax_params_def)
  have "params_ok ?p" by (rule params_ok_softmax_params [OF p]) (simp_all add: is_i32_def)
  then obtain out where "softmax_row_fixed_point [10, -128, 127] [0, 0, 0] 3 ?p = Some out"
    using softmax_row_defined [of ?p 3 "[10, -128, 127]" "[0, 0, 0]"] by (auto simp: is_i8_def)
  then show ?thesis
    using softmax_keeps_argmax [OF p, of 3 "[10, -128, 127]" "[0, 0, 0]" out 2 0]
    by (auto simp: is_i32_def is_i8_def less_Suc_eq numeral_3_eq_3)
qed

text \<open>C27. The limit on the classes is needed: on a row of 8192 equal codes the 32-bit sum
  of exponentials wraps to 0, and the shift by its 32 leading zeros is undefined.\<close>

theorem softmax_row_overflow:
  assumes "softmax_params m s = Some p" and "0 \<le> m" and "is_i32 m"
  shows "softmax_row_fixed_point (replicate 8192 v) y 8192 p = None"
proof -
  have p: "params_ok p" by (rule params_ok_softmax_params [OF assms])
  have first: "arr_get (replicate 8192 v) 0 = Some v" by (simp add: arr_get_def)
  have row: "row_max (replicate 8192 v) 1 (8192 - 1) v = Some v" by (rule row_max_uniform) simp
  have "softmax_sum p (replicate 8192 v) v 0 8192 (wrap32 0) = Some (wrap32 (0 + int 8192 * 524288))"
    by (rule softmax_sum_uniform [OF p]) simp
  then have acc: "softmax_sum p (replicate 8192 v) v 0 8192 0 = Some 0"
    by (simp add: wrap32_def)
  show ?thesis
    unfolding softmax_row_fixed_point_def first bind.bind_lunit row acc
    by (simp add: count_leading_zeros_def shl_u32_def)
qed

lemma softmax_row_overflow_witness:
  "softmax_row_fixed_point (replicate 8192 5) [] 8192
     \<lparr> sm_multiplier = 1073741824, sm_left_shift = 23, sm_diff_min = -248 \<rparr> = None"
  by (rule softmax_row_overflow [of 1073741824 23]) (simp_all add: softmax_params_def is_i32_def)

end
