(* ===== verification/Log_Softmax_S8.thy ===== *)
theory Log_Softmax_S8
  imports Softmax_S8
begin

text \<open>
  The fixed-point LogSoftmax of \<open>src/tigris_kernels_s8.c\<close>: the logarithm of the sum of
  exponentials and the row function. Its refusals (\<open>return -1\<close>) are \<open>fail ()\<close>.

  What is shown: on any row of int8 codes, with any parameters the kernel accepts, the row
  either refuses or writes an int8 code for every class; it has no undefined behaviour.
\<close>

section \<open>The logarithm of the sum\<close>

definition log_softmax_saturate :: "int \<Rightarrow> int" where
  "log_softmax_saturate value =
     (if value > INT32_MAX then INT32_MAX else if value < INT32_MIN then INT32_MIN else value)"

definition log_softmax_power :: "int \<Rightarrow> int \<Rightarrow> int option" where
  "log_softmax_power value exponent =
     (if exponent < 0 then round_div_by_pot value (- exponent) else sat_shift_left value exponent)"

definition log_softmax_rational :: "int \<Rightarrow> int \<Rightarrow> int option" where
  "log_softmax_rational r pw = do {
     wide \<leftarrow> i64 (r + 1805811301 + 1);
     p \<leftarrow> i32 (wide sdiv 2);
     let q = wrapping_add r (-1805811301);
     let q = wrapping_add q q;
     square \<leftarrow> sat_round_dbl_high_mul q q;
     qr \<leftarrow> sat_round_dbl_high_mul q r;
     cubic \<leftarrow> sat_round_dbl_high_mul q square;
     scaled_cubic \<leftarrow> sat_round_dbl_high_mul cubic 117049297;
     let numerator = wrapping_add qr scaled_cubic;
     quadratic \<leftarrow> sat_round_dbl_high_mul 127690142 square;
     outer \<leftarrow> sat_round_dbl_high_mul p (wrapping_add (wrapping_add 1057819769 q) quadratic);
     linear \<leftarrow> sat_round_dbl_high_mul 638450708 q;
     reciprocal \<leftarrow> softmax_one_over_one_plus_x (wrapping_add outer linear);
     scaled_power \<leftarrow> sat_round_dbl_high_mul pw 1488522236;
     small \<leftarrow> round_div_by_pot numerator 6;
     ratio \<leftarrow> sat_round_dbl_high_mul small reciprocal;
     sat_shift_left (wrapping_add scaled_power ratio) 1 }"

definition log_softmax_log_sum :: "int \<Rightarrow> int option" where
  "log_softmax_log_sum acc = do {
     headroom_a \<leftarrow> count_leading_zeros (word_of_int acc);
     normal_a \<leftarrow> log_softmax_power acc (headroom_a - 1);
     scaled_a \<leftarrow> sat_round_dbl_high_mul normal_a 1518500250;
     r_a \<leftarrow> sat_shift_left scaled_a 1;
     shifted_a \<leftarrow> sat_shift_left (12 - headroom_a) 25;
     let power_a = log_softmax_saturate (shifted_a + 8388608);
     z_b \<leftarrow> sat_round_dbl_high_mul acc 1518500250;
     leading_b \<leftarrow> count_leading_zeros (word_of_int z_b);
     let headroom_b = leading_b - 1;
     r_b \<leftarrow> log_softmax_power acc headroom_b;
     shifted_b \<leftarrow> sat_shift_left (12 - headroom_b) 25;
     let power_b = log_softmax_saturate (shifted_b - 8388608);
     log_softmax_rational (if r_a < r_b then r_a else r_b) (if power_a > power_b then power_a else power_b) }"

section \<open>One row\<close>

text \<open>The sum, kept in 64 bits and refused above \<open>INT32_MAX\<close>.\<close>

definition log_softmax_term :: "softmax_params_t \<Rightarrow> int list \<Rightarrow> int \<Rightarrow> nat \<Rightarrow> int \<Rightarrow> (unit + int) option" where
  "log_softmax_term forward input maximum c acc = do {
     v \<leftarrow> arr_get input c;
     diff \<leftarrow> i32 (v - maximum);
     if diff \<ge> sm_diff_min forward then do {
       scaled \<leftarrow> softmax_scaled_diff diff forward;
       e \<leftarrow> softmax_exp_negative scaled;
       t \<leftarrow> round_div_by_pot e 12;
       acc' \<leftarrow> i64 (acc + t);
       if acc' > INT32_MAX then fail () else ret acc' }
     else ret acc }"

definition log_softmax_write ::
  "softmax_params_t \<Rightarrow> int list \<Rightarrow> int \<Rightarrow> int \<Rightarrow> int \<Rightarrow> nat \<Rightarrow> int list \<Rightarrow> (unit + int list) option" where
  "log_softmax_write forward input maximum minimum log_sum c out = do {
     v \<leftarrow> arr_get input c;
     diff \<leftarrow> i32 (v - maximum);
     if diff > minimum then do {
       scaled \<leftarrow> softmax_scaled_diff diff forward;
       centered \<leftarrow> i64 (scaled - log_sum);
       if centered < INT32_MIN \<or> centered > INT32_MAX then fail ()
       else do {
         q \<leftarrow> round_div_by_pot centered 22;
         code \<leftarrow> i32 (q + 127);
         out' \<leftarrow> arr_set out c (clamp_s8 code);
         ret out' } }
     else do { out' \<leftarrow> arr_set out c (-128); ret out' } }"

definition log_softmax_row ::
  "int list \<Rightarrow> int list \<Rightarrow> nat \<Rightarrow> softmax_params_t \<Rightarrow> int \<Rightarrow> int \<Rightarrow> (unit + int list) option" where
  "log_softmax_row input out width forward reverse_multiplier reverse_shift = do {
     first \<leftarrow> arr_get input 0;
     maximum \<leftarrow> row_max input 1 (width - 1) first;
     andthen (for_range 0 width (log_softmax_term forward input maximum) 0) (\<lambda>acc. do {
       log_sum \<leftarrow> log_softmax_log_sum (wrap32 acc);
       if log_sum < 0 then fail ()
       else do {
         shifted_log_sum \<leftarrow> i32 (log_sum + INT32_MIN);
         bound \<leftarrow> elementwise_multiply shifted_log_sum reverse_multiplier reverse_shift;
         least \<leftarrow> i32 (sm_diff_min forward - 1);
         let minimum = (if bound < least then least else bound);
         for_range 0 width (log_softmax_write forward input maximum minimum log_sum) out } }) }"

section \<open>Every operation is defined\<close>

lemma iterate_i32:
  "is_i32 a \<Longrightarrow> (\<And>b. is_i32 b \<Longrightarrow> \<exists>c. f b = Some c \<and> is_i32 c) \<Longrightarrow> \<exists>c. iterate n f a = Some c \<and> is_i32 c"
proof (induction n arbitrary: a)
  case (Suc n)
  then obtain b where "f a = Some b" "is_i32 b" by blast
  then show ?case using Suc.IH [of b] Suc.prems(2) by simp
qed simp

lemma reciprocal_round_defined:
  assumes "\<bar>h\<bar> \<le> 2147483647" and "is_i32 b"
  shows "\<exists>c. reciprocal_round h b = Some c \<and> is_i32 c"
proof -
  have ih: "is_i32 h" using assms(1) by (rule is_i32I)
  have "\<bar>doubling_high_mul h b\<bar> \<le> 2147483647" using dhm_abs(1) [OF ih assms(2)] assms(1) by linarith
  then have n: "i32 (- doubling_high_mul h b) = Some (- doubling_high_mul h b)"
    by (simp add: i32_def abs_le_iff)
  obtain w where "sat_shift_left
      (doubling_high_mul b (wrapping_add 536870912 (- doubling_high_mul h b))) 2 = Some w"
    using sat_shift_left_defined [of 2] by auto
  then show ?thesis
    using ih assms(2) n unfolding reciprocal_round_def
    by (simp add: sat_round_dbl_high_mul_eq del: i32_Some)
qed

lemma one_over_one_plus_x_defined:
  assumes "is_i32 x"
  shows "\<exists>v. softmax_one_over_one_plus_x x = Some v \<and> is_i32 v"
proof -
  let ?t = "x + INT32_MAX"
  define h where "h = (?t + (if ?t \<ge> 0 then 1 else -1)) sdiv 2"
  have h: "\<bar>h\<bar> \<le> 2147483647"
    using assms by (auto simp: h_def signed_divide_int_def is_i32_def sgn_if)
  then have ih: "is_i32 h" by (rule is_i32I)
  have t: "i64 ?t = Some ?t" using assms by (simp add: i64_def is_i32_def)
  obtain c where c: "iterate 3 (reciprocal_round h)
      (wrapping_add 1515870810 (doubling_high_mul h (- 1010580540))) = Some c" "is_i32 c"
    using iterate_i32 [where f = "reciprocal_round h" and n = 3, OF is_i32_wrapping_add]
      reciprocal_round_defined [OF h] by blast
  obtain w where "sat_shift_left c 1 = Some w" "is_i32 w"
    using sat_shift_left_defined [of 1 c] by auto
  moreover have "i32 h = Some h" using h by (simp add: i32_def abs_le_iff)
  moreover have "is_i32 (- 1010580540)" by (simp add: is_i32_def)
  ultimately show ?thesis
    using c ih unfolding softmax_one_over_one_plus_x_def t
    by (simp add: Let_def h_def [symmetric] sat_round_dbl_high_mul_eq del: i32_Some)
qed

lemma is_i32_saturate [simp]: "is_i32 (log_softmax_saturate v)"
  by (simp add: log_softmax_saturate_def is_i32_def)

lemma is_i32_rha [simp]: "is_i32 v \<Longrightarrow> is_i32 (round_half_away v k)"
  by (rule round_half_away_bounds)

lemma is_i32_dhm [simp]: "is_i32 a \<Longrightarrow> is_i32 b \<Longrightarrow> is_i32 (doubling_high_mul a b)"
  by (rule is_i32_doubling_high_mul)

lemma is_i32_literal [simp]:
  "is_i32 (numeral k) = (numeral k \<le> INT32_MAX)" "is_i32 (- numeral k) = (INT32_MIN \<le> - numeral k)"
  by (simp_all add: is_i32_def order.trans [OF neg_numeral_le_numeral])

text \<open>A fixed-point function is total when it maps \<open>int32_t\<close> values to \<open>int32_t\<close> values.\<close>

definition gives_i32 :: "int option \<Rightarrow> bool" where
  "gives_i32 m = wp m is_i32"

lemma gives_i32_E: "gives_i32 m \<Longrightarrow> (\<And>v. m = Some v \<Longrightarrow> is_i32 v \<Longrightarrow> P) \<Longrightarrow> P"
  by (auto simp: gives_i32_def dest: wpD)

lemma gives_i32_I: "m = Some v \<Longrightarrow> is_i32 v \<Longrightarrow> gives_i32 m"
  by (simp add: gives_i32_def)

lemma gives_i32_bind: "gives_i32 m \<Longrightarrow> (\<And>v. is_i32 v \<Longrightarrow> gives_i32 (f v)) \<Longrightarrow> gives_i32 (m \<bind> f)"
  by (auto elim!: gives_i32_E)

lemma gives_i32_ops:
  "is_i32 a \<Longrightarrow> is_i32 b \<Longrightarrow> gives_i32 (sat_round_dbl_high_mul a b)"
  "is_i32 a \<Longrightarrow> gives_i32 (round_div_by_pot a e)"
  "0 \<le> e \<Longrightarrow> e \<le> 31 \<Longrightarrow> gives_i32 (sat_shift_left a e)"
  "is_i32 a \<Longrightarrow> gives_i32 (softmax_one_over_one_plus_x a)"
  using sat_shift_left_defined [of e a] one_over_one_plus_x_defined [of a]
  by (auto simp: gives_i32_def sat_round_dbl_high_mul_eq round_div_by_pot_eq)

lemma gives_i32_power: "is_i32 v \<Longrightarrow> e \<le> 31 \<Longrightarrow> gives_i32 (log_softmax_power v e)"
  by (auto simp: log_softmax_power_def intro: gives_i32_ops)

lemma gives_i32_rational:
  assumes "is_i32 r" and "is_i32 pw"
  shows "gives_i32 (log_softmax_rational r pw)"
proof -
  have wide: "i64 (r + 1805811301 + 1) = Some (r + 1805811302)"
    using assms(1) by (simp add: i64_def is_i32_def)
  have half: "gives_i32 (i32 ((r + 1805811302) sdiv 2))"
    using assms(1) by (auto simp: gives_i32_def i32_def is_i32_def signed_divide_int_def sgn_if)
  show ?thesis
    unfolding log_softmax_rational_def wide Let_def bind.bind_lunit
    by (intro gives_i32_bind half gives_i32_ops is_i32_wrapping_add assms) (simp_all add: assms)
qed

lemma clz_range:
  assumes "0 < v" and "is_i32 v"
  shows "\<exists>r. count_leading_zeros (word_of_int v) = Some r \<and> 1 \<le> r \<and> r \<le> 31"
  using normalised_sum [of v] assms by (force simp: is_i32_def)

lemma log_sum_defined:
  assumes "524288 \<le> acc" and "is_i32 acc"
  shows "gives_i32 (log_softmax_log_sum acc)"
proof -
  define z where "z = doubling_high_mul acc 1518500250"
  have iz: "is_i32 z" using assms(2) by (simp add: z_def)
  have "acc * 1518500250 - 1073741824 < 2147483648 * z"
    using dhm_window(2) [of acc 1518500250] assms(1) by (simp add: z_def)
  then have z: "0 < z" using assms(1) by simp
  obtain la where la: "count_leading_zeros (word_of_int acc) = Some la" "1 \<le> la" "la \<le> 31"
    using clz_range [of acc] assms by auto
  obtain lb where lb: "count_leading_zeros (word_of_int z) = Some lb" "1 \<le> lb" "lb \<le> 31"
    using clz_range [of z] z iz by auto
  have zs: "sat_round_dbl_high_mul acc 1518500250 = Some z"
    using assms(2) by (simp add: sat_round_dbl_high_mul_eq z_def)
  show ?thesis
    unfolding log_softmax_log_sum_def la(1) zs bind.bind_lunit Let_def lb(1)
    by (intro gives_i32_bind gives_i32_power gives_i32_ops gives_i32_rational)
      (use assms(2) la lb in \<open>auto\<close>)
qed

section \<open>The row\<close>

lemma log_softmax_sum_safe:
  assumes "params_ok p" and "n \<le> length x"
    and "\<And>i. i < n \<Longrightarrow> x ! i \<le> m \<and> m - x ! i \<le> 255"
    and "j < n" and "x ! j = m"
  shows "wp (for_range 0 n (log_softmax_term p x m) 0) (ok (\<lambda>acc. 524288 \<le> acc \<and> is_i32 acc))"
proof -
  have "wp (for_range 0 n (log_softmax_term p x m) 0)
      (ok (\<lambda>acc. 0 \<le> acc \<and> acc \<le> INT32_MAX \<and> (j < n \<longrightarrow> 524288 \<le> acc)))"
  proof (rule wp_for_range [where I = "\<lambda>k acc. 0 \<le> acc \<and> acc \<le> INT32_MAX \<and> (j < k \<longrightarrow> 524288 \<le> acc)"])
    fix k acc assume k: "k < n" and inv: "0 \<le> acc \<and> acc \<le> INT32_MAX \<and> (j < k \<longrightarrow> 524288 \<le> acc)"
    let ?d = "x ! k - m"
    have d: "?d \<le> 0" "i32 ?d = Some ?d" and get: "arr_get x k = Some (x ! k)"
      using assms(2) assms(3) [OF k] k by (simp_all add: i32_def)
    show "wp (log_softmax_term p x m k acc)
        (ok (\<lambda>acc. 0 \<le> acc \<and> acc \<le> INT32_MAX \<and> (j < Suc k \<longrightarrow> 524288 \<le> acc)))"
    proof (cases "sm_diff_min p \<le> ?d")
      case True
      obtain a where a: "softmax_scaled_diff ?d p = Some a" "is_i32 a" "a \<le> 0" "?d = 0 \<longrightarrow> a = 0"
        using scaled_diff_range [OF assms(1) d(1) True] by blast
      obtain e where e: "softmax_exp_negative a = Some e" "0 \<le> e" "e \<le> INT32_MAX" "a = 0 \<longrightarrow> e = INT32_MAX"
        using exp_negative_range [OF a(2, 3)] by blast
      have r: "round_half_away INT32_MAX 12 = 524288" by (simp add: round_half_away_def)
      have t: "0 \<le> round_half_away e 12" "round_half_away e 12 \<le> 524288"
        "?d = 0 \<longrightarrow> round_half_away e 12 = 524288"
        using rha_mono_nonneg [OF e(2, 3), of 12] a(4) e(4) r by auto
      have "is_i32 e" using e(2, 3) by (simp add: is_i32_def)
      then show ?thesis
        using get d(2) True a(1) e(1) inv t assms(5) unfolding log_softmax_term_def
        by (auto simp: wp_rules i64_def less_Suc_eq simp del: arr_get_Some i32_Some)
    next
      case False
      then have "x ! k \<noteq> m" using diff_min_nonpos [OF assms(1)] by auto
      then show ?thesis
        using get d(2) False inv assms(5) unfolding log_softmax_term_def
        by (auto simp: less_Suc_eq simp del: arr_get_Some i32_Some)
    qed
  qed simp_all
  then show ?thesis
    by (rule wp_mono) (auto elim!: ok_mono simp: assms(4) is_i32_def)
qed

lemma log_softmax_write_safe:
  assumes "params_ok p" and "n \<le> length x" and "n \<le> length y" and "is_i32 log_sum" and "0 \<le> log_sum"
    and "\<And>i. i < n \<Longrightarrow> x ! i \<le> m \<and> m - x ! i \<le> 255" and "sm_diff_min p - 1 \<le> least"
  shows "wp (for_range 0 n (log_softmax_write p x m least log_sum) y)
    (ok (\<lambda>out. length out = length y \<and> drop n out = drop n y \<and> (\<forall>v \<in> set (take n out). is_i8 v)))"
proof (rule wp_for_range [where I = "\<lambda>k out. length out = length y \<and> drop n out = drop n y \<and>
      (\<forall>v \<in> set (take k out). is_i8 v)"])
  fix k out assume k: "k < n"
    and inv: "length out = length y \<and> drop n out = drop n y \<and> (\<forall>v \<in> set (take k out). is_i8 v)"
  let ?d = "x ! k - m"
  have d: "?d \<le> 0" "i32 ?d = Some ?d" and get: "arr_get x k = Some (x ! k)"
    using assms(2) assms(6) [OF k] k by (simp_all add: i32_def)
  have set: "length (out[k := c]) = length y \<and> drop n (out[k := c]) = drop n y \<and>
      (\<forall>v \<in> set (take (Suc k) (out[k := c])). is_i8 v)" if "is_i8 c" for c
    using inv that k assms(3) by (auto simp: take_Suc_conv_app_nth)
  show "wp (log_softmax_write p x m least log_sum k out) (ok (\<lambda>out. length out = length y \<and>
      drop n out = drop n y \<and> (\<forall>v \<in> set (take (Suc k) out). is_i8 v)))"
  proof (cases "least < ?d")
    case True
    then have "sm_diff_min p \<le> ?d" using assms(7) by simp
    then obtain a where a: "softmax_scaled_diff ?d p = Some a" "is_i32 a"
      using scaled_diff_range [OF assms(1) d(1)] by blast
    have c: "i64 (a - log_sum) = Some (a - log_sum)"
      using a(2) assms(4) by (simp add: i64_def is_i32_def)
    show ?thesis
    proof (cases "is_i32 (a - log_sum)")
      case True
      define q where "q = round_half_away (a - log_sum) 22"
      have "\<bar>q\<bar> \<le> 1073741824 + 1" unfolding q_def by (rule round_half_away_halves [OF True]) simp
      then have "i32 (q + 127) = Some (q + 127)" by (simp add: i32_def abs_le_iff)
      then show ?thesis
        using \<open>least < ?d\<close> get d(2) a(1) c True k inv assms(3) set [OF is_i8_clamp_s8]
        unfolding log_softmax_write_def
        by (simp add: wp_rules round_div_by_pot_eq q_def [symmetric] is_i32_def [of "a - log_sum"] not_less
            arr_set_def del: arr_get_Some i32_Some)
    next
      case False
      then show ?thesis
        using \<open>least < ?d\<close> get d(2) a(1) c unfolding log_softmax_write_def
        by (auto simp: is_i32_def simp del: arr_get_Some i32_Some)
    qed
  next
    case False
    have "is_i8 (-128)" by (simp add: is_i8_def)
    then show ?thesis
      using False get d(2) k inv assms(3) set [of "-128"] unfolding log_softmax_write_def
      by (simp add: arr_set_def del: arr_get_Some i32_Some)
  qed
qed simp_all

lemma elementwise_multiply_gives:
  assumes "is_i32 v" and "is_i32 m" and "-31 \<le> shift" and "shift \<le> 30"
  shows "gives_i32 (elementwise_multiply v m shift)"
proof -
  define left where "left = (if shift > 0 then shift else 0)"
  define w where "w = max INT32_MIN (min INT32_MAX (v * 2 ^ nat left))"
  have "elementwise_shift_left v left = Some w" "is_i32 w"
    using elementwise_shift_left_eq [OF assms(1), of left] assms(3, 4)
    by (simp_all add: left_def w_def is_i32_def)
  then show ?thesis
    using assms unfolding elementwise_multiply_def left_def [symmetric] Let_def
    by (auto simp: gives_i32_def wp_rules sat_round_dbl_high_mul_eq round_div_by_pot_eq)
qed

section \<open>Property\<close>

text \<open>C28. LogSoftmax on a row of int8 codes, of any width, with any parameters its kernel
  lets through. It has no undefined behaviour: it either refuses, or writes an int8 code for each
  of the \<open>width\<close> classes and nothing after them.\<close>

theorem log_softmax_row_safe:
  assumes "softmax_params m s = Some p" and "0 \<le> m" and "is_i32 m" and "0 < width"
    and "width \<le> length x" and "width \<le> length y" and "\<forall>v\<in>set x. is_i8 v"
    and "is_i32 rm" and "-31 \<le> rs" and "rs \<le> 30"
  shows "wp (log_softmax_row x y width p rm rs) (ok (\<lambda>out. length out = length y \<and>
     drop width out = drop width y \<and> (\<forall>v\<in>set (take width out). is_i8 v)))"
proof -
  have p: "params_ok p" by (rule params_ok_softmax_params [OF assms(1-3)])
  have len: "0 < length x" "1 + (width - 1) \<le> length x" using assms(4, 5) by auto
  obtain top where top: "row_max x 1 (width - 1) (x ! 0) = Some top" "x ! 0 \<le> top"
    "\<forall>i. 1 \<le> i \<and> i < 1 + (width - 1) \<longrightarrow> x ! i \<le> top"
    "top = x ! 0 \<or> (\<exists>i. 1 \<le> i \<and> i < 1 + (width - 1) \<and> x ! i = top)"
    using row_max_correct [OF len(2), of "x ! 0"] by blast
  have le: "x ! i \<le> top" if "i < width" for i
    using that top(2, 3) assms(4) by (cases "i = 0") auto
  have "\<exists>j < width. x ! j = top"
    using top(4) assms(4) by (elim disjE exE) (auto intro: exI [of _ "0 :: nat"])
  then obtain j where j: "j < width" "x ! j = top" by blast
  have i8: "is_i8 (x ! i)" if "i < width" for i
    using that assms(5, 7) by (meson nth_mem order.strict_trans2)
  have near: "x ! i \<le> top \<and> top - x ! i \<le> 255" if "i < width" for i
    using le [OF that] i8 [OF that] i8 [OF j(1)] j(2) by (simp add: is_i8_def)
  have row: "log_softmax_row x y width p rm rs =
      andthen (for_range 0 width (log_softmax_term p x top) 0) (\<lambda>acc. do {
       log_sum \<leftarrow> log_softmax_log_sum (wrap32 acc);
       if log_sum < 0 then fail ()
       else do {
         shifted_log_sum \<leftarrow> i32 (log_sum + INT32_MIN);
         bound \<leftarrow> elementwise_multiply shifted_log_sum rm rs;
         least \<leftarrow> i32 (sm_diff_min p - 1);
         let minimum = (if bound < least then least else bound);
         for_range 0 width (log_softmax_write p x top minimum log_sum) y } })"
    using top(1) len(1) by (simp add: log_softmax_row_def arr_get_def)
  show ?thesis
    unfolding row
  proof (rule wp_andthen [OF log_softmax_sum_safe [OF p assms(5) near j]])
    fix acc assume acc: "524288 \<le> acc \<and> is_i32 acc"
    obtain ls where ls: "log_softmax_log_sum (wrap32 acc) = Some ls" "is_i32 ls"
      using log_sum_defined [of acc] acc by (auto simp: wrap32_id elim: gives_i32_E)
    show "wp (do {
       log_sum \<leftarrow> log_softmax_log_sum (wrap32 acc);
       if log_sum < 0 then fail ()
       else do {
         shifted_log_sum \<leftarrow> i32 (log_sum + INT32_MIN);
         bound \<leftarrow> elementwise_multiply shifted_log_sum rm rs;
         least \<leftarrow> i32 (sm_diff_min p - 1);
         let minimum = (if bound < least then least else bound);
         for_range 0 width (log_softmax_write p x top minimum log_sum) y } })
      (ok (\<lambda>out. length out = length y \<and> drop width out = drop width y \<and>
        (\<forall>v\<in>set (take width out). is_i8 v)))"
    proof (cases "ls < 0")
      case True
      then show ?thesis using ls(1) by simp
    next
      case False
      have "is_i32 (ls + INT32_MIN)" using False ls(2) by (simp add: is_i32_def)
      then obtain bound where bound: "elementwise_multiply (ls + INT32_MIN) rm rs = Some bound"
        using elementwise_multiply_gives [OF _ assms(8-10)] by (auto elim: gives_i32_E)
      have dm: "-2080374784 \<le> sm_diff_min p"
      proof -
        have "2080374784 div 2 ^ nat (sm_left_shift p) \<le> 2080374784 div (1 :: int)"
          by (rule zdiv_mono2) simp_all
        then show ?thesis using p by (simp add: params_ok_def)
      qed
      define least where "least = (if bound < sm_diff_min p - 1 then sm_diff_min p - 1 else bound)"
      have "wp (for_range 0 width (log_softmax_write p x top least ls) y)
          (ok (\<lambda>out. length out = length y \<and> drop width out = drop width y \<and>
            (\<forall>v\<in>set (take width out). is_i8 v)))"
        by (rule log_softmax_write_safe [OF p assms(5, 6) ls(2)])
          (use False near in \<open>auto simp: least_def\<close>)
      then show ?thesis
        using ls(1) False bound dm diff_min_nonpos [OF p] ls(2)
        by (simp add: least_def i32_def is_i32_def)
    qed
  qed
qed

lemma log_softmax_row_safe_witness:
  "wp (log_softmax_row [10, -128, 127] [0, 0, 0, 9] 3
       \<lparr> sm_multiplier = 1073741824, sm_left_shift = 23, sm_diff_min = -248 \<rparr> 1073741824 (- 22))
     (ok (\<lambda>out. length out = length [0, 0, 0, 9 :: int] \<and> drop 3 out = drop 3 [0, 0, 0, 9] \<and> (\<forall>v\<in>set (take 3 out). is_i8 v)))"
  by (rule log_softmax_row_safe [of 1073741824 23]) (simp_all add: softmax_params_def is_i32_def is_i8_def)

end
