(* ===== verification/Lstm_S8.thy ===== *)
theory Lstm_S8
  imports Fixed_Point
begin

text \<open>
  The integer LSTM of \<open>src/tigris_kernels_s8.c\<close>: the table-driven int16 logistic and tanh, the
  gate projection and the int16 product. A C \<open>int16_t\<close> is an \<open>int\<close> in its range; the table
  index and the interpolation are \<open>uint32_t\<close> words, as in the code.

  What is shown: on every \<open>int16_t\<close> the logistic is defined and equals linear interpolation in
  exact arithmetic, lies between 0 and 32767, is monotone, and satisfies
  \<open>f (- v) = 32768 - f v\<close>; the tanh is defined for every shift the gates use, lies in
  \<open>int16_t\<close> and is odd.
\<close>

unbundle bit_operations_syntax

section \<open>Definitions\<close>

definition lstm_sigmoid_table :: "nat list" where
  "lstm_sigmoid_table = [
    32768, 33451, 34133, 34813, 35493, 36169, 36843, 37513, 38180, 38841, 39498, 40149,
    40794, 41432, 42064, 42688, 43304, 43912, 44511, 45102, 45683, 46255, 46817, 47369,
    47911, 48443, 48964, 49475, 49975, 50464, 50942, 51409, 51865, 52311, 52745, 53169,
    53581, 53983, 54374, 54755, 55125, 55485, 55834, 56174, 56503, 56823, 57133, 57433,
    57724, 58007, 58280, 58544, 58800, 59048, 59288, 59519, 59743, 59959, 60168, 60370,
    60565, 60753, 60935, 61110, 61279, 61441, 61599, 61750, 61896, 62036, 62172, 62302,
    62428, 62549, 62666, 62778, 62886, 62990, 63090, 63186, 63279, 63368, 63454, 63536,
    63615, 63691, 63765, 63835, 63903, 63968, 64030, 64090, 64148, 64204, 64257, 64308,
    64357, 64405, 64450, 64494, 64536, 64576, 64614, 64652, 64687, 64721, 64754, 64786,
    64816, 64845, 64873, 64900, 64926, 64950, 64974, 64997, 65019, 65039, 65060, 65079,
    65097, 65115, 65132, 65149, 65164, 65179, 65194, 65208, 65221, 65234, 65246, 65258,
    65269, 65280, 65291, 65301, 65310, 65319, 65328, 65337, 65345, 65352, 65360, 65367,
    65374, 65381, 65387, 65393, 65399, 65404, 65410, 65415, 65420, 65425, 65429, 65433,
    65438, 65442, 65445, 65449, 65453, 65456, 65459, 65462, 65465, 65468, 65471, 65474,
    65476, 65479, 65481, 65483, 65485, 65488, 65489, 65491, 65493, 65495, 65497, 65498,
    65500, 65501, 65503, 65504, 65505, 65507, 65508, 65509, 65510, 65511, 65512, 65513,
    65514, 65515, 65516, 65517, 65517, 65518, 65519, 65520, 65520, 65521, 65522, 65522,
    65523, 65523, 65524, 65524, 65525, 65525, 65526, 65526, 65526, 65527, 65527, 65528,
    65528, 65528, 65529, 65529, 65529, 65529, 65530, 65530, 65530, 65530, 65531, 65531,
    65531, 65531, 65531, 65532, 65532, 65532, 65532, 65532, 65532, 65533, 65533, 65533,
    65533, 65533, 65533, 65533, 65533, 65534, 65534, 65534, 65534, 65534, 65534, 65534,
    65534, 65534, 65534, 65535]"

text \<open>A right shift of an \<open>int32_t\<close> by a count its width has.\<close>

definition shr32 :: "int \<Rightarrow> int \<Rightarrow> int option" where
  "shr32 x n = (if 0 \<le> n \<and> n < 32 then Some (drop_bit (nat n) x) else None)"

definition floor_shift :: "int \<Rightarrow> int \<Rightarrow> int option" where
  "floor_shift x n =
     (if x \<ge> 0 then shr32 x n
      else do {
        next_x \<leftarrow> i32 (x + 1);
        flipped \<leftarrow> i32 (- next_x);
        high \<leftarrow> shr32 flipped n;
        i32 (- high - 1) })"

definition saturate_s16 :: "int \<Rightarrow> int" where
  "saturate_s16 x = (if x < INT16_MIN then INT16_MIN else if x > INT16_MAX then INT16_MAX else x)"

text \<open>\<open>(int16_t)\<close> of a wider value.\<close>

definition wrap16 :: "int \<Rightarrow> int" where
  "wrap16 v = sint (word_of_int v :: u16)"

definition sigmoid_entry :: "u32 \<Rightarrow> u32 option" where
  "sigmoid_entry index = map_option of_nat (arr_get lstm_sigmoid_table (unat index))"

text \<open>The table value at a magnitude: the \<open>index\<close>, \<open>low\<close>, \<open>high\<close> and \<open>result\<close> lines.\<close>

definition sigmoid_value :: "u32 \<Rightarrow> u32 option" where
  "sigmoid_value magnitude =
     (let index = drop_bit 9 magnitude in
      if index \<ge> 255 then Some (push_bit 10 0x7FFF)
      else do {
        low \<leftarrow> sigmoid_entry index;
        high \<leftarrow> sigmoid_entry (index + 1);
        Some (push_bit 9 low + (magnitude AND 0x1FF) * (high - low)) })"

definition lstm_sigmoid_s16 :: "int \<Rightarrow> int option" where
  "lstm_sigmoid_s16 value = do {
     input \<leftarrow> i32 (value * 3);
     magnitude \<leftarrow> (if input < 0 then i32 (- input) else Some input);
     v \<leftarrow> sigmoid_value (word_of_int magnitude);
     let v = (if input \<ge> 0 then v + push_bit 9 1 else push_bit 25 1 - v + push_bit 9 1 - 1);
     Some (wrap16 (uint (drop_bit 10 v))) }"

definition tanh_value :: "u32 \<Rightarrow> int option" where
  "tanh_value magnitude =
     (let index = drop_bit 8 magnitude in
      if index \<ge> 255 then Some (65535 * 256)
      else do {
        low \<leftarrow> sigmoid_entry index;
        high \<leftarrow> sigmoid_entry (index + 1);
        Some (sint (push_bit 8 low + (magnitude AND 0xFF) * (high - low))) })"

text \<open>The input of the tanh: the value scaled by \<open>multiplier / 2^shift\<close>.\<close>

definition tanh_input :: "int \<Rightarrow> int \<Rightarrow> int \<Rightarrow> int option" where
  "tanh_input value input_multiplier input_shift = do {
     multiplier \<leftarrow> (if input_multiplier = 0
                    then do { s \<leftarrow> (if 0 \<le> input_shift \<and> input_shift < 32 then Some (2 ^ nat input_shift) else None);
                              i32 (3 * s) }
                    else Some input_multiplier);
     let shift = (if input_multiplier = 0 then 0 else input_shift);
     rounding \<leftarrow> (if shift > 0 then shl32 (shift - 1) else Some 0);
     product \<leftarrow> i32 (value * multiplier);
     moved \<leftarrow> i32 (product + rounding);
     floor_shift moved shift }"

definition lstm_tanh_s16 :: "int \<Rightarrow> int \<Rightarrow> int \<Rightarrow> int option" where
  "lstm_tanh_s16 value input_multiplier input_shift = do {
     input \<leftarrow> tanh_input value input_multiplier input_shift;
     magnitude \<leftarrow> (if input < 0 then i32 (- input) else Some input);
     v \<leftarrow> tanh_value (word_of_int magnitude);
     w \<leftarrow> (if input \<ge> 0 then i32 (v - 8388608 + 128) else i32 (- v + 8388608 + 128 - 1));
     shifted \<leftarrow> floor_shift w 8;
     Some (wrap16 shifted) }"

definition projection_step ::
  "(nat \<Rightarrow> int option) \<Rightarrow> (nat \<Rightarrow> int option) \<Rightarrow> nat \<Rightarrow> int \<Rightarrow> nat \<Rightarrow> nat \<Rightarrow> int \<Rightarrow> (unit + int) option" where
  "projection_step weights values width zero_point unit_index k acc = do {
     w \<leftarrow> weights (unit_index * width + k);
     v \<leftarrow> values k;
     centered \<leftarrow> i32 (v - zero_point);
     product \<leftarrow> i32 (w * centered);
     acc' \<leftarrow> i32 (acc + product);
     ret acc' }"

definition lstm_projection_s8 ::
  "(nat \<Rightarrow> int option) \<Rightarrow> (nat \<Rightarrow> int option) \<Rightarrow> nat \<Rightarrow> int \<Rightarrow> (nat \<Rightarrow> int option) option \<Rightarrow> nat \<Rightarrow>
     int \<times> int \<Rightarrow> (unit + int) option" where
  "lstm_projection_s8 weights values width zero_point bias unit_index pair =
     andthen (for_range 0 width (projection_step weights values width zero_point unit_index) 0)
       (\<lambda>acc. do {
          acc \<leftarrow> (case bias of None \<Rightarrow> Some acc
                 | Some table \<Rightarrow> do { b \<leftarrow> table unit_index; i32 (acc + b) });
          v \<leftarrow> multiply_by_quantized_multiplier acc (fst pair) (snd pair);
          ret (saturate_s16 v) })"

definition lstm_product_s16 :: "int \<Rightarrow> int \<Rightarrow> int \<times> int \<Rightarrow> int option" where
  "lstm_product_s16 a b pair = do {
     product \<leftarrow> i32 (a * b);
     v \<leftarrow> multiply_by_quantized_multiplier product (fst pair) (snd pair);
     Some (saturate_s16 v) }"

section \<open>The table\<close>

abbreviation T :: "nat \<Rightarrow> nat" where "T i \<equiv> lstm_sigmoid_table ! i"

lemma table_length [simp]: "length lstm_sigmoid_table = 256"
  by (simp add: lstm_sigmoid_table_def)

lemma table_successive: "successively (\<le>) lstm_sigmoid_table"
  by (simp add: lstm_sigmoid_table_def)

lemma table_sorted: "sorted lstm_sigmoid_table"
  using table_successive by (simp add: successively_conv_sorted_wrt)

lemma table_mono: "i \<le> j \<Longrightarrow> j < 256 \<Longrightarrow> T i \<le> T j"
  using sorted_nth_mono [OF table_sorted, of i j] by simp

lemma table_values:
  "\<forall>t \<in> set lstm_sigmoid_table. 32768 \<le> t \<and> t \<le> 65535"
  "\<forall>t \<in> set (butlast lstm_sigmoid_table). t \<le> 65534"
  by (simp_all add: lstm_sigmoid_table_def)

lemma table_first: "T 0 = 32768"
  by (simp add: lstm_sigmoid_table_def)

lemma table_bounds:
  assumes "i < 255"
  shows "32768 \<le> T i" and "T i \<le> T (Suc i)" and "T i \<le> 65534" and "T (Suc i) \<le> 65535"
proof -
  have "T i \<in> set lstm_sigmoid_table" "T (Suc i) \<in> set lstm_sigmoid_table"
    using assms by (auto intro!: nth_mem)
  then show "32768 \<le> T i" "T (Suc i) \<le> 65535" using table_values(1) by auto
  show "T i \<le> T (Suc i)" using table_mono [of i "Suc i"] assms by simp
  have "butlast lstm_sigmoid_table ! i = T i" using assms by (intro nth_butlast) simp
  moreover have "butlast lstm_sigmoid_table ! i \<in> set (butlast lstm_sigmoid_table)"
    using assms by (intro nth_mem) simp
  ultimately show "T i \<le> 65534" using table_values(2) by auto
qed

text \<open>Linear interpolation between neighbouring entries, \<open>2^w\<close> steps apart.\<close>

definition table_line :: "nat \<Rightarrow> nat \<Rightarrow> nat" where
  "table_line w m = 2 ^ w * T (m div 2 ^ w) + (m mod 2 ^ w) * (T (Suc (m div 2 ^ w)) - T (m div 2 ^ w))"

lemma table_line_bounds:
  assumes "m div 2 ^ w < 255"
  shows "2 ^ w * T (m div 2 ^ w) \<le> table_line w m"
    and "table_line w m \<le> 2 ^ w * T (Suc (m div 2 ^ w))" and "table_line w m < 2 ^ w * 65535"
proof -
  let ?i = "m div 2 ^ w" and ?d = "T (Suc (m div 2 ^ w)) - T (m div 2 ^ w)" and ?r = "m mod 2 ^ w"
  have r: "?r < 2 ^ w" by simp
  have sum: "2 ^ w * T ?i + 2 ^ w * ?d = 2 ^ w * T (Suc ?i)"
    using table_bounds(2) [OF assms] by (simp add: add_mult_distrib2 [symmetric])
  show "2 ^ w * T ?i \<le> table_line w m" by (simp add: table_line_def)
  have "?r * ?d \<le> 2 ^ w * ?d" using r by (intro mult_right_mono) auto
  then show le: "table_line w m \<le> 2 ^ w * T (Suc ?i)" using sum unfolding table_line_def by linarith
  show "table_line w m < 2 ^ w * 65535"
  proof (cases "?d = 0")
    case True
    then show ?thesis using table_bounds(3) [OF assms] by (simp add: table_line_def)
  next
    case False
    then have "?r * ?d < 2 ^ w * ?d" using r by simp
    then have "table_line w m < 2 ^ w * T (Suc ?i)" using sum unfolding table_line_def by linarith
    also have "\<dots> \<le> 2 ^ w * 65535" using table_bounds(4) [OF assms] by (intro mult_left_mono) auto
    finally show ?thesis .
  qed
qed

lemma table_line_mono:
  assumes "m \<le> n" and "n div 2 ^ w < 255"
  shows "table_line w m \<le> table_line w n"
proof (cases "m div 2 ^ w = n div 2 ^ w")
  case True
  then have "m mod 2 ^ w \<le> n mod 2 ^ w"
    using assms(1) by (metis minus_mult_div_eq_mod diff_le_mono)
  then show ?thesis using True by (simp add: table_line_def)
next
  case False
  then have lt: "m div 2 ^ w < n div 2 ^ w"
    using div_le_mono [OF assms(1), of "2 ^ w"] by simp
  have "table_line w m \<le> 2 ^ w * T (Suc (m div 2 ^ w))"
    using lt assms(2) by (intro table_line_bounds) simp
  also have "\<dots> \<le> 2 ^ w * T (n div 2 ^ w)"
    using lt assms(2) by (intro mult_left_mono table_mono) auto
  also have "\<dots> \<le> table_line w n" by (rule table_line_bounds [OF assms(2)])
  finally show ?thesis .
qed

section \<open>The interpolation on words\<close>

lemma unat_drop_bit_u32: "unat (drop_bit n (x :: u32)) = unat x div 2 ^ n"
proof -
  have "unat (drop_bit n x) = drop_bit n (take_bit 32 (unat x))"
    by (simp only: unsigned_drop_bit_eq) simp
  also have "take_bit 32 (unat x) = unat x"
    using unat_u32_less [of x] by (simp add: take_bit_nat_eq_self)
  finally show ?thesis by (simp only: drop_bit_eq_div)
qed

lemma interpolation_word:
  assumes "w \<le> 9" and "unat x div 2 ^ w < 255"
  shows "do { low \<leftarrow> sigmoid_entry (drop_bit w x); high \<leftarrow> sigmoid_entry (drop_bit w x + 1);
      Some (push_bit w low + (x AND mask w) * (high - low)) } = Some (of_nat (table_line w (unat x)))"
proof -
  let ?i = "unat x div 2 ^ w"
  have i: "unat (drop_bit w x) = ?i" by (rule unat_drop_bit_u32)
  then have i1: "unat (drop_bit w x + 1) = Suc ?i"
    using assms(2) by (subst unat_add_u32) simp_all
  have e: "sigmoid_entry (drop_bit w x) = Some (of_nat (T ?i))"
    "sigmoid_entry (drop_bit w x + 1) = Some (of_nat (T (Suc ?i)))"
    using assms(2) by (simp_all add: sigmoid_entry_def i i1 arr_get_def)
  have d: "(of_nat (T (Suc ?i)) - of_nat (T ?i) :: u32) = of_nat (T (Suc ?i) - T ?i)"
    using table_bounds(2) [OF assms(2)] by (simp add: of_nat_diff)
  have "x AND mask w = of_nat (unat x mod 2 ^ w)"
  proof -
    have "x AND mask w = take_bit w (of_nat (unat x))" by (simp add: take_bit_eq_mask)
    also have "\<dots> = of_nat (take_bit w (unat x))" by (simp only: take_bit_of_nat)
    finally show ?thesis by (simp only: take_bit_eq_mod)
  qed
  moreover have "push_bit w (of_nat (T ?i) :: u32) = of_nat (2 ^ w * T ?i)"
    by (simp add: push_bit_eq_mult mult.commute)
  ultimately show ?thesis
    unfolding e bind.bind_lunit d by (simp add: table_line_def)
qed

section \<open>The logistic\<close>

text \<open>The table value at \<open>m\<close> in Q10 of the output, saturated past the table.\<close>

definition logistic_line :: "nat \<Rightarrow> nat" where
  "logistic_line m = (if m div 512 \<ge> 255 then 33553408 else table_line 9 m)"

definition logistic_spec :: "int \<Rightarrow> int" where
  "logistic_spec v =
     (let r = int (logistic_line (nat \<bar>v * 3\<bar>)) in
      if v \<ge> 0 then (r + 512) div 1024 else (33554432 - r + 511) div 1024)"

lemma logistic_line_range: "16777216 \<le> logistic_line m \<and> logistic_line m < 33553920"
proof (cases "m div 512 \<ge> 255")
  case False
  then have "m div 2 ^ 9 < 255" by simp
  then show ?thesis
    using table_line_bounds(1, 3) [of m 9] table_bounds(1) [of "m div 512"] False
    by (simp add: logistic_line_def)
qed (simp add: logistic_line_def)

lemma is_i32_abs: "\<bar>v\<bar> \<le> 2147483647 \<Longrightarrow> is_i32 v"
  by (simp add: is_i32_def abs_le_iff)

lemma wrap16_id: "is_i16 v \<Longrightarrow> wrap16 v = v"
  by (simp add: wrap16_def sint_sbintrunc' is_i16_def signed_take_bit_int_eq_self)

lemma logistic_spec_range: "0 \<le> logistic_spec v \<and> logistic_spec v \<le> 32767"
  using logistic_line_range [of "nat \<bar>v * 3\<bar>"] by (auto simp: logistic_spec_def Let_def)

lemma sigmoid_value_eq: "sigmoid_value x = Some (of_nat (logistic_line (unat x)))"
proof -
  have ix: "(unat (drop_bit 9 x) \<ge> 255) = (unat x div 512 \<ge> 255)"
    by (simp add: unat_drop_bit_u32 del: drop_bit_eq_div)
  show ?thesis
  proof (cases "unat x div 512 \<ge> 255")
    case True
    then have "drop_bit 9 x \<ge> 255" using ix by (simp add: word_le_nat_alt)
    then show ?thesis using True by (simp add: sigmoid_value_def logistic_line_def)
  next
    case False
    then have "\<not> drop_bit 9 x \<ge> 255" using ix by (simp add: word_le_nat_alt)
    moreover have "(0x1FF :: u32) = mask 9" by (simp add: mask_eq_exp_minus_1)
    moreover have "unat x div 2 ^ 9 < 255" using False by simp
    ultimately show ?thesis
      using interpolation_word [of 9 x] False by (simp add: sigmoid_value_def logistic_line_def)
  qed
qed

lemma uint_drop_of_nat:
  "k < 4294967296 \<Longrightarrow> uint (drop_bit n (of_nat k :: u32)) = int (k div 2 ^ n)"
proof -
  assume k: "k < 4294967296"
  have "uint (drop_bit n (of_nat k :: u32)) = int (unat (drop_bit n (of_nat k :: u32)))" by simp
  also have "\<dots> = int (k div 2 ^ n)"
    using k by (simp only: unat_drop_bit_u32) (simp add: unsigned_of_nat take_bit_nat_eq_self)
  finally show ?thesis .
qed

lemma lstm_sigmoid_eq:
  assumes "is_i16 value"
  shows "lstm_sigmoid_s16 value = Some (logistic_spec value)"
proof -
  have range: "-98304 \<le> value * 3" "value * 3 \<le> 98301" using assms by (auto simp: is_i16_def)
  define r where "r = logistic_line (nat \<bar>value * 3\<bar>)"
  have r: "16777216 \<le> r" "r < 33553920" using logistic_line_range by (simp_all add: r_def)
  have "unat (word_of_int \<bar>value * 3\<bar> :: u32) = nat \<bar>value * 3\<bar>"
    using range by (intro unat_of_int_u32) linarith+
  then have v: "sigmoid_value (word_of_int \<bar>value * 3\<bar>) = Some (of_nat r)"
    by (simp only: sigmoid_value_eq r_def)
  have "(of_nat r + push_bit 9 1 :: u32) = of_nat (r + 512)" by simp
  then have pos: "uint (drop_bit 10 (of_nat r + push_bit 9 1 :: u32)) = (int r + 512) div 1024"
    using r by (simp only: uint_drop_of_nat) (simp add: uint_drop_of_nat zdiv_int)
  have e: "(push_bit 25 1 - of_nat r + push_bit 9 1 - 1 :: u32) = of_nat (33554432 - r + 511)"
    using r by (simp add: of_nat_diff)
  have "uint (drop_bit 10 (push_bit 25 1 - of_nat r + push_bit 9 1 - 1 :: u32)) =
      int ((33554432 - r + 511) div 2 ^ 10)"
    unfolding e by (rule uint_drop_of_nat) (use r in simp)
  then have neg: "uint (drop_bit 10 (push_bit 25 1 - of_nat r + push_bit 9 1 - 1 :: u32)) =
      (33554432 - int r + 511) div 1024"
    using r by (simp only:) (simp add: zdiv_int of_nat_diff)
  have spec: "logistic_spec value =
      (if value \<ge> 0 then (int r + 512) div 1024 else (33554432 - int r + 511) div 1024)"
    by (simp only: logistic_spec_def r_def Let_def)
  have fin: "is_i16 ((int r + 512) div 1024)" "is_i16 ((33554432 - int r + 511) div 1024)"
    using r by (auto simp: is_i16_def)
  show ?thesis
  proof (cases "0 \<le> value")
    case True
    then have "\<bar>value * 3\<bar> = value * 3" by simp
    then show ?thesis
      using True range v pos fin(1) unfolding lstm_sigmoid_s16_def
      by (simp add: i32_def wrap16_id spec)
  next
    case False
    then have "\<bar>value * 3\<bar> = - (value * 3)" by simp
    then show ?thesis
      using False range v neg fin(2) unfolding lstm_sigmoid_s16_def
      by (simp add: i32_def wrap16_id spec)
  qed
qed

lemma logistic_line_mono:
  assumes "m \<le> n"
  shows "(logistic_line m + 512) div 1024 \<le> (logistic_line n + 512) div 1024"
proof (cases "n div 512 \<ge> 255")
  case True
  have "(logistic_line m + 512) div 1024 \<le> 32767"
    using logistic_line_range [of m] less_mult_imp_div_less [of "logistic_line m + 512" 32768 1024]
    by simp
  moreover have "(logistic_line n + 512) div 1024 = 32767" using True by (simp add: logistic_line_def)
  ultimately show ?thesis by simp
next
  case False
  then have n: "n div 2 ^ 9 < 255" by simp
  have "m div 512 \<le> n div 512" using assms by (rule div_le_mono)
  then have "logistic_line m \<le> logistic_line n"
    using False table_line_mono [OF assms n] by (simp add: logistic_line_def)
  then show ?thesis by (intro div_le_mono) simp
qed

lemma logistic_spec_flip: "logistic_spec (- v) = 32768 - logistic_spec v"
proof -
  have gen: "(33554432 - r + 511) div 1024 = 32768 - (r + 512) div 1024" for r :: int by linarith
  show ?thesis
  proof (cases "v = 0")
    case True
    then show ?thesis by (simp add: logistic_spec_def logistic_line_def table_line_def table_first)
  next
    case False
    then show ?thesis
      using gen [of "int (logistic_line (nat \<bar>v * 3\<bar>))"]
      by (auto simp: logistic_spec_def Let_def)
  qed
qed

lemma logistic_spec_mono: "v \<le> w \<Longrightarrow> logistic_spec v \<le> logistic_spec w"
proof -
  have up: "logistic_spec v \<le> logistic_spec w" if "0 \<le> v" "v \<le> w" for v w
  proof -
    have "nat \<bar>v * 3\<bar> \<le> nat \<bar>w * 3\<bar>" using that by simp
    then have "int ((logistic_line (nat \<bar>v * 3\<bar>) + 512) div 1024) \<le>
        int ((logistic_line (nat \<bar>w * 3\<bar>) + 512) div 1024)"
      by (simp only: of_nat_le_iff logistic_line_mono)
    moreover have "int ((k + 512) div 1024) = (int k + 512) div 1024" for k
      by (simp add: zdiv_int)
    ultimately show ?thesis using that by (simp only: logistic_spec_def Let_def) simp
  qed
  have r: "16384 \<le> (r + 512) div 1024" if "16777216 \<le> r" for r :: int using that by linarith
  have half: "16384 \<le> logistic_spec v" if "0 \<le> v" for v
    using logistic_line_range [of "nat \<bar>v * 3\<bar>"] that
    by (simp only: logistic_spec_def Let_def if_True) (rule r, simp)
  assume "v \<le> w"
  then consider "0 \<le> v" | "v < 0" "0 \<le> w" | "w < 0" by linarith
  then show ?thesis
  proof cases
    case 1
    then show ?thesis using \<open>v \<le> w\<close> by (rule up)
  next
    case 2
    then show ?thesis using half [of "- v"] half [of w] logistic_spec_flip [of v] by simp
  next
    case 3
    then show ?thesis
      using up [of "- w" "- v"] \<open>v \<le> w\<close> logistic_spec_flip [of v] logistic_spec_flip [of w] by simp
  qed
qed

section \<open>The hyperbolic tangent\<close>

definition tanh_line :: "nat \<Rightarrow> nat" where
  "tanh_line m = (if m div 256 \<ge> 255 then 16776960 else table_line 8 m)"

definition tanh_spec :: "int \<Rightarrow> int" where
  "tanh_spec x =
     (let r = int (tanh_line (nat \<bar>x\<bar>)) in
      if x \<ge> 0 then (r - 8388608 + 128) div 256 else (- r + 8388608 + 127) div 256)"

lemma tanh_line_range: "8388608 \<le> tanh_line m \<and> tanh_line m \<le> 16776960"
proof (cases "m div 256 \<ge> 255")
  case False
  then have "m div 2 ^ 8 < 255" by simp
  then show ?thesis
    using table_line_bounds(1, 3) [of m 8] table_bounds(1) [of "m div 256"] False
    by (simp add: tanh_line_def)
qed (simp add: tanh_line_def)

lemma tanh_value_eq: "tanh_value x = Some (int (tanh_line (unat x)))"
proof -
  have ix: "(unat (drop_bit 8 x) \<ge> 255) = (unat x div 256 \<ge> 255)"
    by (simp add: unat_drop_bit_u32 del: drop_bit_eq_div)
  show ?thesis
  proof (cases "unat x div 256 \<ge> 255")
    case True
    then have "drop_bit 8 x \<ge> 255" using ix by (simp add: word_le_nat_alt)
    then show ?thesis using True by (simp add: tanh_value_def tanh_line_def)
  next
    case False
    then have lt: "\<not> drop_bit 8 x \<ge> 255" using ix by (simp add: word_le_nat_alt)
    define r where "r = table_line 8 (unat x)"
    have line: "r = tanh_line (unat x)" using False by (simp add: r_def tanh_line_def)
    then have r: "r \<le> 16776960" using tanh_line_range by simp
    have "(0xFF :: u32) = mask 8" by (simp add: mask_eq_exp_minus_1)
    moreover have "unat x div 2 ^ 8 < 255" using False by simp
    ultimately have "do { low \<leftarrow> sigmoid_entry (drop_bit 8 x); high \<leftarrow> sigmoid_entry (drop_bit 8 x + 1);
        Some (push_bit 8 low + (x AND 0xFF) * (high - low)) } = Some (of_nat r)"
      using interpolation_word [of 8 x] by (simp add: r_def)
    then obtain low high where e: "sigmoid_entry (drop_bit 8 x) = Some low"
      "sigmoid_entry (drop_bit 8 x + 1) = Some high"
      "push_bit 8 low + (x AND 0xFF) * (high - low) = of_nat r"
      by (auto simp: bind_eq_Some_conv)
    have "sint (of_nat r :: u32) = int r"
      using r sint_of_int_u32 [of "int r"] by (simp add: is_i32_def)
    then show ?thesis
      using lt e line by (simp add: tanh_value_def)
  qed
qed

lemma floor_shift_eq:
  assumes "is_i32 x" and "0 \<le> n" and "n < 32"
  shows "floor_shift x n = Some (x div 2 ^ nat n)"
proof (cases "0 \<le> x")
  case True
  then show ?thesis using assms by (simp add: floor_shift_def shr32_def drop_bit_eq_div)
next
  case False
  define D :: int where "D = 2 ^ nat n"
  have D: "1 \<le> D" by (simp add: D_def)
  have h: "(- (x + 1)) div D = - 1 - x div D"
    by (rule int_div_pos_eq [where r = "D - 1 - x mod D"])
      (use D mult_div_mod_eq [of D x] pos_mod_bound [of D x] pos_mod_sign [of D x]
        in \<open>auto simp: algebra_simps simp del: pos_mod_bound pos_mod_sign\<close>)
  have "-2147483648 \<le> x div D" "x div D < 0"
  proof -
    show "x div D < 0" by (rule div_neg_pos_less0) (use False D in auto)
    have "x * D \<le> x" using False D by (simp add: mult_le_cancel_left2)
    then have "(x * D) div D \<le> x div D" using D by (intro zdiv_mono1) auto
    then show "-2147483648 \<le> x div D" using assms(1) D by (simp add: is_i32_def)
  qed
  then show ?thesis
    using False assms h unfolding floor_shift_def shr32_def D_def [symmetric]
    by (simp add: i32_def is_i32_def drop_bit_eq_div D_def [symmetric])
qed

lemma lstm_tanh_of_input:
  assumes "tanh_input value multiplier shift = Some x" and "is_i32 x" and "x \<noteq> INT32_MIN"
  shows "lstm_tanh_s16 value multiplier shift = Some (tanh_spec x)"
proof -
  define r where "r = int (tanh_line (nat \<bar>x\<bar>))"
  have r: "8388608 \<le> r" "r \<le> 16776960" using tanh_line_range by (simp_all add: r_def)
  have xb: "-2147483647 \<le> x" "x \<le> 2147483647" using assms(2, 3) by (auto simp: is_i32_def)
  then have "unat (word_of_int \<bar>x\<bar> :: u32) = nat \<bar>x\<bar>" by (intro unat_of_int_u32) linarith+
  then have v: "tanh_value (word_of_int \<bar>x\<bar>) = Some r" by (simp only: tanh_value_eq r_def)
  have spec: "tanh_spec x = (if x \<ge> 0 then (r - 8388608 + 128) div 256 else (- r + 8388608 + 127) div 256)"
    by (simp only: tanh_spec_def r_def Let_def)
  have w: "is_i32 (r - 8388608 + 128)" "is_i32 (- r + 8388608 + 128 - 1)"
    using r by (auto simp: is_i32_def)
  have fin: "is_i16 ((r - 8388608 + 128) div 256)" "is_i16 ((- r + 8388608 + 127) div 256)"
    using r by (auto simp: is_i16_def)
  show ?thesis
  proof (cases "0 \<le> x")
    case True
    then show ?thesis
      using assms(1) v w(1) fin(1) floor_shift_eq [OF w(1), of 8] r unfolding lstm_tanh_s16_def spec
      by (simp add: i32_def wrap16_id)
  next
    case False
    then have "\<bar>x\<bar> = - x" by simp
    then show ?thesis
      using False assms(1) v w(2) fin(2) floor_shift_eq [OF w(2), of 8] r xb
      unfolding lstm_tanh_s16_def spec
      by (simp add: i32_def wrap16_id)
  qed
qed

text \<open>The inputs the gates form: the multiplier \<open>0\<close> stands for \<open>3 * 2^shift\<close>.\<close>

lemma tanh_input_scaled:
  assumes "is_i16 v" and "0 \<le> s" and "s \<le> 14"
  shows "tanh_input v 0 s = Some (v * (3 * 2 ^ nat s))" and "\<bar>v * (3 * 2 ^ nat s)\<bar> \<le> 1610612736"
proof -
  have s: "(2 :: int) ^ nat s \<le> 2 ^ 14" using assms(2, 3) by (intro power_increasing) auto
  then have "\<bar>v\<bar> * (3 * 2 ^ nat s) \<le> 32768 * (3 * 16384)"
    using assms(1) by (intro mult_mono) (auto simp: is_i16_def)
  then show b: "\<bar>v * (3 * 2 ^ nat s)\<bar> \<le> 1610612736" by (simp add: abs_mult)
  then have i: "is_i32 (v * (3 * 2 ^ nat s))" by (intro is_i32_abs) simp
  have "-2147483648 \<le> (3 :: int) * 2 ^ nat s" by (rule order.trans [of _ 0]) simp_all
  then show "tanh_input v 0 s = Some (v * (3 * 2 ^ nat s))"
    using assms s i floor_shift_eq [OF i, of 0] unfolding tanh_input_def
    by (simp add: i32_def is_i32_def)
qed

lemma tanh_input_divided:
  assumes "is_i16 v" and "1 \<le> s" and "s \<le> 18"
  shows "tanh_input v 3 s = Some ((v * 3 + 2 ^ nat (s - 1)) div 2 ^ nat s)"
    and "\<bar>(v * 3 + 2 ^ nat (s - 1)) div 2 ^ nat s\<bar> \<le> 262144"
proof -
  define h :: int where "h = 2 ^ nat (s - 1)"
  have h: "1 \<le> h" "h \<le> 131072"
    using assms power_increasing [of "nat (s - 1)" 17 "2 :: int"] by (simp_all add: h_def)
  have i: "is_i32 (v * 3 + h)" using assms(1) h by (simp add: is_i32_def is_i16_def)
  show "tanh_input v 3 s = Some ((v * 3 + 2 ^ nat (s - 1)) div 2 ^ nat s)"
    using assms h i floor_shift_eq [OF i, of s] unfolding tanh_input_def h_def [symmetric]
    by (simp add: shl32_def i32_def is_i32_def is_i16_def h_def [symmetric])
  define D :: int where "D = 2 ^ nat s"
  have D: "1 \<le> D" by (simp add: D_def)
  have "\<bar>v * 3 + h\<bar> \<le> 262144" using assms(1) h by (auto simp: is_i16_def)
  then have w: "- 262144 \<le> v * 3 + h" "v * 3 + h \<le> 262144" by linarith+
  have "v * 3 + h \<le> 262144 * D" "- 262144 * D \<le> v * 3 + h" using w D by linarith+
  then have "(v * 3 + h) div D \<le> 262144 * D div D" "(- 262144 * D) div D \<le> (v * 3 + h) div D"
    using D by - (rule zdiv_mono1, assumption, simp)+
  moreover have "262144 * D div D = 262144" "(- 262144 * D) div D = - 262144"
    using D nonzero_mult_div_cancel_right [of D "- 262144"] by (simp_all del: mult_minus_left)
  ultimately have "(v * 3 + h) div D \<le> 262144" "- 262144 \<le> (v * 3 + h) div D" by linarith+
  then show "\<bar>(v * 3 + 2 ^ nat (s - 1)) div 2 ^ nat s\<bar> \<le> 262144"
    unfolding h_def [symmetric] D_def [symmetric] by (simp add: abs_le_iff)
qed

lemma tanh_spec_flip: "tanh_spec (- x) = - tanh_spec x"
proof -
  have gen: "(- r + 8388608 + 127) div 256 = - ((r - 8388608 + 128) div 256)" for r :: int by linarith
  show ?thesis
  proof (cases "x = 0")
    case True
    then show ?thesis by (simp add: tanh_spec_def tanh_line_def table_line_def table_first)
  next
    case False
    then show ?thesis
      using gen [of "int (tanh_line (nat \<bar>x\<bar>))"] by (auto simp: tanh_spec_def Let_def)
  qed
qed

lemma tanh_spec_range: "\<bar>tanh_spec x\<bar> \<le> 32767"
proof -
  have pos: "\<bar>tanh_spec x\<bar> \<le> 32767" if "0 \<le> x" for x
  proof -
    have "0 \<le> (r - 8388608 + 128) div 256 \<and> (r - 8388608 + 128) div 256 \<le> 32767"
      if "8388608 \<le> r" "r \<le> 16776960" for r :: int using that by linarith
    then show ?thesis using tanh_line_range [of "nat \<bar>x\<bar>"] that by (simp add: tanh_spec_def Let_def)
  qed
  show ?thesis
    using pos [of x] pos [of "- x"] tanh_spec_flip [of x] by (cases "0 \<le> x") auto
qed

section \<open>Properties\<close>

text \<open>The int16 logistic on every \<open>int16_t\<close>: it is defined (the table index stays below
  256 and nothing overflows), its values lie between 0 and 32767, and it is monotone.\<close>

lemma lstm_sigmoid_monotone:
  assumes "is_i16 v" and "is_i16 w" and "v \<le> w"
  shows "\<exists>a b. lstm_sigmoid_s16 v = Some a \<and> lstm_sigmoid_s16 w = Some b \<and>
     0 \<le> a \<and> a \<le> b \<and> b \<le> 32767"
  using lstm_sigmoid_eq [OF assms(1)] lstm_sigmoid_eq [OF assms(2)] logistic_spec_mono [OF assms(3)]
    logistic_spec_range [of v] logistic_spec_range [of w] by simp

text \<open>The int16 tanh of the gates, for every value and every scale \<open>3 * 2^s\<close> with
  \<open>s\<close> up to 14: it is defined, its value fits \<open>int16_t\<close> with room for its negation, and it is
  odd.\<close>

lemma lstm_tanh_odd:
  assumes "is_i16 v" and "is_i16 (- v)" and "0 \<le> s" and "s \<le> 14"
  shows "\<exists>a. lstm_tanh_s16 v 0 s = Some a \<and> lstm_tanh_s16 (- v) 0 s = Some (- a) \<and> \<bar>a\<bar> \<le> 32767"
proof -
  have x: "lstm_tanh_s16 u 0 s = Some (tanh_spec (u * (3 * 2 ^ nat s)))" if "is_i16 u" for u
    using tanh_input_scaled [OF that assms(3, 4)]
    by (intro lstm_tanh_of_input) (auto simp: is_i32_def abs_le_iff)
  have "tanh_spec (- v * (3 * 2 ^ nat s)) = - tanh_spec (v * (3 * 2 ^ nat s))"
    by (simp only: mult_minus_left tanh_spec_flip)
  then show ?thesis
    using x [OF assms(1)] x [OF assms(2)] tanh_spec_range [of "v * (3 * 2 ^ nat s)"] by simp
qed

text \<open>With the multiplier 3 the tanh is defined for every shift a small cell scale gives.\<close>

lemma lstm_tanh_divided:
  assumes "is_i16 v" and "1 \<le> s" and "s \<le> 18"
  shows "\<exists>a. lstm_tanh_s16 v 3 s = Some a \<and> \<bar>a\<bar> \<le> 32767"
proof -
  have "lstm_tanh_s16 v 3 s = Some (tanh_spec ((v * 3 + 2 ^ nat (s - 1)) div 2 ^ nat s))"
    using tanh_input_divided [OF assms] by (intro lstm_tanh_of_input) (auto simp: is_i32_def abs_le_iff)
  then show ?thesis using tanh_spec_range by blast
qed

text \<open>With a cell scale of \<open>2^3\<close> the shift is 15, and a large cell value overflows the
  product.\<close>

lemma lstm_tanh_overflow: "lstm_tanh_s16 32767 0 15 = None"
  by (simp add: lstm_tanh_s16_def tanh_input_def i32_def)

end
