(* ===== verification/Schedule.thy ===== *)
theory Schedule
  imports Loader_Properties
begin

text \<open>
  The stage table in the plan loader: the first part of \<open>validate_stage\<close> of
  \<open>src/tigris_loader.c\<close> (spans, build limits, chains, the schedule and the stage's tensors), and
  the loop of \<open>validate_weights_and_stages\<close> that runs it. The tiling checks that follow in
  \<open>validate_stage\<close> change no state and are not part of this theory.

  What is shown: the checks read only inside the buffer; the stages of an accepted plan run each
  operator exactly once, in the order of the operator table; and two chains share no stage.
\<close>

section \<open>The checks of one stage\<close>

definition stage_spans_ok :: "load_state \<Rightarrow> tigris_stage \<Rightarrow> bool" where
  "stage_spans_ok ls stage =
     (elements_ok (ucast (sg_ops_off stage)) (ucast (sg_ops_count stage)) (ls_index_count ls) \<and>
      elements_ok (ucast (sg_inputs_off stage)) (ucast (sg_inputs_count stage)) (ls_index_count ls) \<and>
      elements_ok (ucast (sg_outputs_off stage)) (ucast (sg_outputs_count stage)) (ls_index_count ls) \<and>
      \<not> (sg_tile_plan_idx stage \<noteq> NONE_U16 \<and> sg_tile_plan_idx stage \<ge> hd_num_tile_plans (ls_hdr ls)) \<and>
      \<not> (sg_chain_len stage = 0 \<and> sg_chain_id stage \<noteq> NONE_U16) \<and>
      \<not> (sg_chain_len stage > 0 \<and> sg_chain_id stage = NONE_U16))"

text \<open>All three requirements are noted before the limits are tested, so a refusal reports them all.\<close>

definition require_stage :: "load_state \<Rightarrow> tigris_stage \<Rightarrow> (tigris_error + load_state) option" where
  "require_stage ls stage =
     (let req = ls_required ls; limits = tigris_build_limits;
          (i, inputs_above) = note_requirement (pl_stage_inputs req)
             (ucast (sg_inputs_count stage)) (ucast (pl_stage_inputs limits));
          (out, outputs_above) = note_requirement (pl_stage_outputs req)
             (ucast (sg_outputs_count stage)) (ucast (pl_stage_outputs limits));
          (c, chain_above) = note_requirement (pl_chain_stages req)
             (ucast (sg_chain_len stage)) (ucast (pl_chain_stages limits));
          required = req\<lparr> pl_stage_inputs := i, pl_stage_outputs := out, pl_chain_stages := c \<rparr> in
      if inputs_above \<or> outputs_above \<or> chain_above then fail (ERR_PLAN_LIMITS required)
      else ret (ls\<lparr> ls_required := required \<rparr>))"

text \<open>A member after the head: the loop of the head.\<close>

definition check_member ::
  "tigris_plan \<Rightarrow> nat \<Rightarrow> tigris_stage \<Rightarrow> nat \<Rightarrow> (tigris_error + unit) option" where
  "check_member pl i stage member = do {
     next \<leftarrow> plan_stage pl member;
     if unat (sg_chain_id next) \<noteq> i \<or> sg_chain_len next \<noteq> sg_chain_len stage \<or>
        sg_chain_tile_h next \<noteq> 0 \<or> sg_tile_plan_idx next \<noteq> NONE_U16
     then fail ERR_BAD_SECTION else ret () }"

definition check_chain ::
  "load_state \<Rightarrow> nat \<Rightarrow> tigris_stage \<Rightarrow> (tigris_error + unit) option" where
  "check_chain ls i stage =
     (if sg_chain_len stage > 0 then
        (if sg_chain_len stage < 2 \<or> unat (sg_chain_id stage) > i \<or>
            int (unat (sg_chain_len stage)) >
              int (unat (hd_num_stages (ls_hdr ls))) - int (unat (sg_chain_id stage))
         then fail ERR_BAD_SECTION
         else do {
           head \<leftarrow> plan_stage (ls_candidate ls) (unat (sg_chain_id stage));
           if sg_chain_id head \<noteq> sg_chain_id stage \<or> sg_chain_len head \<noteq> sg_chain_len stage \<or>
              sg_chain_tile_h head = 0 \<or> sg_tile_plan_idx stage \<noteq> NONE_U16 \<or>
              (i \<noteq> unat (sg_chain_id stage) \<and> sg_chain_tile_h stage \<noteq> 0)
           then fail ERR_BAD_SECTION
           else if i = unat (sg_chain_id stage)
           then for_range (i + 1) (i + unat (sg_chain_len stage))
                  (\<lambda>member _. check_member (ls_candidate ls) i stage member) ()
           else ret () })
      else if sg_chain_tile_h stage \<noteq> 0 then fail ERR_BAD_SECTION
      else ret ())"

text \<open>Operator \<open>j\<close> of the stage is the next one of the schedule.\<close>

definition schedule_op ::
  "nat \<Rightarrow> tigris_stage \<Rightarrow> nat \<Rightarrow> load_state \<Rightarrow> (tigris_error + load_state) option" where
  "schedule_op i stage j ls = do {
     op_idx \<leftarrow> plan_index (ls_candidate ls) (unat (sg_ops_off stage) + j);
     if op_idx \<ge> hd_num_ops (ls_hdr ls) then fail ERR_BAD_SECTION
     else if op_idx \<noteq> ls_next_scheduled_op ls then fail ERR_BAD_SECTION
     else do {
       oper \<leftarrow> plan_op (ls_candidate ls) (unat op_idx);
       if (hd_version (ls_hdr ls) < SCHEMA_VERSION_STAGE_TABLE_AUTHORITY \<and>
             unat (op_stage oper) \<noteq> i) \<or>
          (hd_version (ls_hdr ls) \<ge> SCHEMA_VERSION_STAGE_TABLE_AUTHORITY \<and>
             op_stage oper \<noteq> word_of_nat i)
       then fail ERR_BAD_OPERATOR
       else ret (ls\<lparr> ls_next_scheduled_op := ls_next_scheduled_op ls + 1 \<rparr>) } }"

definition check_stage_tensor ::
  "load_state \<Rightarrow> u16 \<Rightarrow> nat \<Rightarrow> (tigris_error + unit) option" where
  "check_stage_tensor ls off j = do {
     t \<leftarrow> plan_index (ls_candidate ls) (unat off + j);
     if t \<ge> hd_num_tensors (ls_hdr ls) then fail ERR_BAD_SECTION else ret () }"

definition validate_stage_table :: "nat \<Rightarrow> load_state \<Rightarrow> (tigris_error + load_state) option" where
  "validate_stage_table i ls = do {
     stage \<leftarrow> plan_stage (ls_candidate ls) i;
     if \<not> stage_spans_ok ls stage then fail ERR_BAD_SECTION
     else
       andthen (require_stage ls stage) (\<lambda>ls.
       andthen (check_chain ls i stage) (\<lambda>_.
       andthen (for_range 0 (unat (sg_ops_count stage)) (schedule_op i stage) ls) (\<lambda>ls.
       andthen (for_check (unat (sg_inputs_count stage))
                  (check_stage_tensor ls (sg_inputs_off stage))) (\<lambda>_.
       andthen (for_check (unat (sg_outputs_count stage))
                  (check_stage_tensor ls (sg_outputs_off stage))) (\<lambda>_. ret ls))))) }"

text \<open>The loop over the stages, and the test of \<open>validate_graph_and_publish\<close> that the schedule is
  complete.\<close>

definition validate_stages :: "load_state \<Rightarrow> (tigris_error + load_state) option" where
  "validate_stages ls =
     for_range 0 (unat (hd_num_stages (ls_hdr ls))) validate_stage_table
       (ls\<lparr> ls_next_scheduled_op := 0 \<rparr>)"

definition schedule_complete :: "load_state \<Rightarrow> (tigris_error + load_state) option" where
  "schedule_complete ls =
     (if ls_next_scheduled_op ls \<noteq> hd_num_ops (ls_hdr ls) then fail ERR_BAD_SECTION else ret ls)"

section \<open>What an accepted stage satisfies\<close>

text \<open>The checks change only the requirement and the schedule position.\<close>

definition same_tables :: "load_state \<Rightarrow> load_state \<Rightarrow> bool" where
  "same_tables ls ls' = (ls_candidate ls' = ls_candidate ls \<and> ls_hdr ls' = ls_hdr ls \<and>
     ls_index_count ls' = ls_index_count ls)"

lemma same_tables_refl [simp]: "same_tables ls ls"
  by (simp add: same_tables_def)

lemma same_tables_trans: "same_tables a b \<Longrightarrow> same_tables b c \<Longrightarrow> same_tables a c"
  by (simp add: same_tables_def)

text \<open>The operators of a stage, as indices.\<close>

definition stage_operators :: "tigris_plan \<Rightarrow> nat \<Rightarrow> nat option list" where
  "stage_operators pl s = (case plan_stage pl s of
      None \<Rightarrow> []
    | Some stage \<Rightarrow> map (\<lambda>j. map_option unat (plan_index pl (unat (sg_ops_off stage) + j)))
        [0..<unat (sg_ops_count stage)])"

lemma require_stage_frame:
  "require_stage ls stage = Some (Inr ls') \<Longrightarrow>
     same_tables ls ls' \<and> ls_next_scheduled_op ls' = ls_next_scheduled_op ls"
  by (auto simp: require_stage_def same_tables_def Let_def split: prod.splits if_splits)

lemma require_stage_limits:
  "require_stage ls stage = Some (Inr ls') \<Longrightarrow>
     unat (sg_inputs_count stage) \<le> 16 \<and> unat (sg_outputs_count stage) \<le> 16 \<and>
     unat (sg_chain_len stage) \<le> 16"
  by (auto simp: require_stage_def note_requirement_def tigris_build_limits_def Let_def word_cmp
      not_less split: if_splits)

lemma schedule_opD:
  assumes "schedule_op i stage j ls = Some (Inr ls')"
  shows "same_tables ls ls' \<and>
    plan_index (ls_candidate ls) (unat (sg_ops_off stage) + j) = Some (ls_next_scheduled_op ls) \<and>
    ls_next_scheduled_op ls < hd_num_ops (ls_hdr ls) \<and>
    unat (ls_next_scheduled_op ls') = Suc (unat (ls_next_scheduled_op ls))"
proof -
  from assms have less: "ls_next_scheduled_op ls < hd_num_ops (ls_hdr ls)"
    and rest: "plan_index (ls_candidate ls) (unat (sg_ops_off stage) + j) = Some (ls_next_scheduled_op ls)"
      "ls' = ls\<lparr> ls_next_scheduled_op := ls_next_scheduled_op ls + 1 \<rparr>"
    by (auto simp: schedule_op_def bind_eq_Some_conv not_le split: if_splits)
  have "unat (ls_next_scheduled_op ls) < 65535"
    using less unat_u16_less [of "hd_num_ops (ls_hdr ls)"] by (simp add: word_cmp)
  then have "unat (ls_next_scheduled_op ls + 1) = Suc (unat (ls_next_scheduled_op ls))"
    using unat_add_lem [of "ls_next_scheduled_op ls" 1] by simp
  then show ?thesis using less rest by (simp add: same_tables_def)
qed

text \<open>A stage whose loop succeeds runs the next operators of the table, one after the other.\<close>

lemma schedule_loop:
  assumes "for_range 0 n (schedule_op i stage) ls = Some (Inr ls')"
  shows "same_tables ls ls' \<and>
    unat (ls_next_scheduled_op ls') = unat (ls_next_scheduled_op ls) + n \<and>
    (\<forall>j < n. map_option unat (plan_index (ls_candidate ls) (unat (sg_ops_off stage) + j))
       = Some (unat (ls_next_scheduled_op ls) + j) \<and>
       unat (ls_next_scheduled_op ls) + j < unat (hd_num_ops (ls_hdr ls)))"
  by (rule for_range_invariant [OF assms, where I = "\<lambda>k l. same_tables ls l \<and>
        unat (ls_next_scheduled_op l) = unat (ls_next_scheduled_op ls) + k \<and>
        (\<forall>j < k. map_option unat (plan_index (ls_candidate ls) (unat (sg_ops_off stage) + j))
           = Some (unat (ls_next_scheduled_op ls) + j) \<and>
           unat (ls_next_scheduled_op ls) + j < unat (hd_num_ops (ls_hdr ls)))"])
    (auto dest!: schedule_opD simp: same_tables_def less_Suc_eq word_less_nat_alt)

text \<open>What the checks of a chain establish for one stage.\<close>

definition chain_head :: "tigris_plan \<Rightarrow> nat \<Rightarrow> nat \<Rightarrow> bool" where
  "chain_head pl h len = (\<exists>st. plan_stage pl h = Some st \<and> unat (sg_chain_id st) = h \<and>
     unat (sg_chain_len st) = len \<and> 2 \<le> len)"

definition chain_member :: "tigris_plan \<Rightarrow> nat \<Rightarrow> nat \<Rightarrow> nat \<Rightarrow> bool" where
  "chain_member pl h len m = (\<exists>st. plan_stage pl m = Some st \<and> unat (sg_chain_id st) = h \<and>
     unat (sg_chain_len st) = len \<and> sg_tile_plan_idx st = NONE_U16 \<and> (m \<noteq> h \<longrightarrow> sg_chain_tile_h st = 0))"

lemma check_chainD:
  assumes ok: "check_chain ls i stage = Some (Inr ())"
    and st: "plan_stage (ls_candidate ls) i = Some stage" and len: "sg_chain_len stage \<noteq> 0"
  defines "h \<equiv> unat (sg_chain_id stage)" and "n \<equiv> unat (sg_chain_len stage)"
  shows "2 \<le> n \<and> h \<le> i \<and> h + n \<le> unat (hd_num_stages (ls_hdr ls)) \<and>
    chain_head (ls_candidate ls) h n \<and>
    (h = i \<longrightarrow> (\<forall>m. h \<le> m \<and> m < h + n \<longrightarrow> chain_member (ls_candidate ls) h n m))"
proof -
  have pos: "sg_chain_len stage > 0" using len by (simp add: word_neq_0_conv)
  let ?loop = "for_range (i + 1) (i + n) (\<lambda>member _. check_member (ls_candidate ls) i stage member) ()"
  from ok pos have c: "2 \<le> n" "h \<le> i" "int n \<le> int (unat (hd_num_stages (ls_hdr ls))) - int h"
    by (auto simp: check_chain_def h_def n_def word_cmp not_less not_le split: if_splits)
  from ok pos c obtain hd where head: "plan_stage (ls_candidate ls) h = Some hd"
    "sg_chain_id hd = sg_chain_id stage" "sg_chain_len hd = sg_chain_len stage"
    and mem: "sg_tile_plan_idx stage = NONE_U16" and lp: "i = h \<longrightarrow> ?loop = Some (Inr ())"
    by (auto simp: check_chain_def h_def n_def bind_eq_Some_conv word_cmp split: if_splits)
  have "chain_member (ls_candidate ls) h n m" if "h = i" "h \<le> m" "m < h + n" for m
  proof (cases "m = h")
    case True
    then show ?thesis using st that mem by (auto simp: chain_member_def h_def n_def)
  next
    case False
    then have "i + 1 \<le> m" "m < i + n" using that by auto
    then have "check_member (ls_candidate ls) i stage m = Some (Inr ())"
      using for_range_check_all [of "i + 1" "i + n" "check_member (ls_candidate ls) i stage" m] lp that
      by simp
    then show ?thesis
      using that False
      by (auto simp: check_member_def chain_member_def n_def bind_eq_Some_conv split: if_splits)
  qed
  moreover have "chain_head (ls_candidate ls) h n"
    using head c(1) by (auto simp: chain_head_def h_def n_def)
  moreover have "h + n \<le> unat (hd_num_stages (ls_hdr ls))"
    using c(3) by linarith
  ultimately show ?thesis using c(1,2) by auto
qed

definition stage_ok :: "load_state \<Rightarrow> nat \<Rightarrow> bool" where
  "stage_ok ls i = (\<exists>stage. plan_stage (ls_candidate ls) i = Some stage \<and> stage_spans_ok ls stage \<and>
     unat (sg_inputs_count stage) \<le> 16 \<and> unat (sg_outputs_count stage) \<le> 16 \<and>
     unat (sg_chain_len stage) \<le> 16 \<and> check_chain ls i stage = Some (Inr ()) \<and>
     (\<forall>j < unat (sg_inputs_count stage). check_stage_tensor ls (sg_inputs_off stage) j = Some (Inr ())) \<and>
     (\<forall>j < unat (sg_outputs_count stage). check_stage_tensor ls (sg_outputs_off stage) j = Some (Inr ())))"

lemma same_tables_checks:
  assumes "same_tables ls ls'"
  shows "stage_spans_ok ls' = stage_spans_ok ls" "check_chain ls' = check_chain ls"
    "check_stage_tensor ls' = check_stage_tensor ls" "stage_ok ls' = stage_ok ls"
proof -
  have e: "ls_candidate ls' = ls_candidate ls" "ls_hdr ls' = ls_hdr ls"
    "ls_index_count ls' = ls_index_count ls"
    using assms by (simp_all add: same_tables_def)
  show c: "stage_spans_ok ls' = stage_spans_ok ls" "check_chain ls' = check_chain ls"
    "check_stage_tensor ls' = check_stage_tensor ls"
    by (intro ext, simp only: stage_spans_ok_def check_chain_def check_stage_tensor_def e)+
  show "stage_ok ls' = stage_ok ls"
    using assms by (simp add: stage_ok_def fun_eq_iff c same_tables_def)
qed

lemma validate_stage_tableD:
  assumes "validate_stage_table i ls = Some (Inr ls')"
  shows "same_tables ls ls' \<and> stage_ok ls i \<and>
    unat (ls_next_scheduled_op ls) \<le> unat (ls_next_scheduled_op ls') \<and>
    stage_operators (ls_candidate ls) i
      = map Some [unat (ls_next_scheduled_op ls) ..< unat (ls_next_scheduled_op ls')]"
proof -
  from assms obtain stage ls1 where st: "plan_stage (ls_candidate ls) i = Some stage"
    and spans: "stage_spans_ok ls stage" and req: "require_stage ls stage = Some (Inr ls1)"
    and chain: "check_chain ls1 i stage = Some (Inr ())"
    and ops: "for_range 0 (unat (sg_ops_count stage)) (schedule_op i stage) ls1 = Some (Inr ls')"
    and ins: "for_check (unat (sg_inputs_count stage)) (check_stage_tensor ls' (sg_inputs_off stage))
      = Some (Inr ())"
    and outs: "for_check (unat (sg_outputs_count stage)) (check_stage_tensor ls' (sg_outputs_off stage))
      = Some (Inr ())"
    by (auto simp: validate_stage_table_def bind_eq_Some_conv andthen_Inr split: if_splits)
  note f1 = require_stage_frame [OF req] and f2 = schedule_loop [OF ops]
  have same: "same_tables ls ls'" using f1 f2 by (blast intro: same_tables_trans)
  have "stage_ok ls i"
    unfolding stage_ok_def
    using st spans require_stage_limits [OF req] chain for_check_all [OF ins] for_check_all [OF outs]
      same_tables_checks [OF same] same_tables_checks [of ls ls1] f1 by auto
  moreover have "stage_operators (ls_candidate ls) i
      = map Some [unat (ls_next_scheduled_op ls) ..< unat (ls_next_scheduled_op ls')]"
    using f1 f2 st by (auto simp: stage_operators_def same_tables_def intro!: nth_equalityI)
  ultimately show ?thesis using same f1 f2 by simp
qed

lemma validate_stagesD:
  assumes "validate_stages ls = Some (Inr ls')"
  defines "n \<equiv> unat (hd_num_stages (ls_hdr ls))"
  shows "same_tables ls ls' \<and> (\<forall>i < n. stage_ok ls i) \<and>
    concat (map (stage_operators (ls_candidate ls)) [0..<n])
      = map Some [0 ..< unat (ls_next_scheduled_op ls')]"
proof (rule for_range_invariant [where I = "\<lambda>k l. same_tables ls l \<and> (\<forall>i < k. stage_ok ls i) \<and>
    concat (map (stage_operators (ls_candidate ls)) [0..<k]) = map Some [0 ..< unat (ls_next_scheduled_op l)]"])
  show "for_range 0 n validate_stage_table (ls\<lparr> ls_next_scheduled_op := 0 \<rparr>) = Some (Inr ls')"
    using assms by (simp add: validate_stages_def)
  fix k l l'
  assume inv: "same_tables ls l \<and> (\<forall>i < k. stage_ok ls i) \<and>
    concat (map (stage_operators (ls_candidate ls)) [0..<k]) = map Some [0 ..< unat (ls_next_scheduled_op l)]"
    and step: "validate_stage_table k l = Some (Inr l')"
  note d = validate_stage_tableD [OF step]
  have app: "[0..<b] = [0..<a] @ [a..<b]" if "a \<le> b" for a b :: nat
    using upt_add_eq_append [of 0 a "b - a"] that by simp
  show "same_tables ls l' \<and> (\<forall>i < Suc k. stage_ok ls i) \<and>
    concat (map (stage_operators (ls_candidate ls)) [0..<Suc k])
      = map Some [0 ..< unat (ls_next_scheduled_op l')]"
    using inv d same_tables_checks [of ls l] app [of "unat (ls_next_scheduled_op l)" "unat (ls_next_scheduled_op l')"]
    by (auto simp: less_Suc_eq same_tables_def)
qed (simp_all add: same_tables_def)

section \<open>The checks read only inside the tables\<close>

definition schedule_tables :: "load_state \<Rightarrow> bool" where
  "schedule_tables ls =
     ((\<forall>i < unat (hd_num_stages (ls_hdr ls)). \<exists>r. plan_stage (ls_candidate ls) i = Some r) \<and>
      (\<forall>i < unat (hd_num_ops (ls_hdr ls)). \<exists>r. plan_op (ls_candidate ls) i = Some r) \<and>
      (\<forall>k < unat (ls_index_count ls). \<exists>x. plan_index (ls_candidate ls) k = Some x))"

lemma schedule_tablesI:
  assumes "ls_ok 8 ls" and "pools_in ls"
  shows "schedule_tables ls"
proof -
  have t: "tables_in_buffer (ls_hdr ls) (ls_candidate ls)" "tables_present 8 (ls_hdr ls) (ls_candidate ls)"
    using ls_okD [OF assms(1)] by simp_all
  have "\<exists>r. plan_stage (ls_candidate ls) i = Some r" if "i < unat (hd_num_stages (ls_hdr ls))" for i
    by (rule plan_stage_defined [OF _ _ that]) (use t that in \<open>auto simp: tables_in_buffer_def tables_present_def Let_def\<close>)
  moreover have "\<exists>r. plan_op (ls_candidate ls) i = Some r" if "i < unat (hd_num_ops (ls_hdr ls))" for i
    by (rule plan_op_defined [OF _ _ that]) (use t in \<open>auto simp: tables_in_buffer_def tables_present_def Let_def\<close>)
  ultimately show ?thesis
    using index_defined [OF assms(2)] by (simp add: schedule_tables_def)
qed

lemma wp_exists: "\<exists>x. m = Some x \<Longrightarrow> (\<And>x. m = Some x \<Longrightarrow> wp (f x) P) \<Longrightarrow> wp (Option.bind m f) P"
  by auto

lemma wp_require_stage: "wp (require_stage ls stage) (ok (\<lambda>ls'. same_tables ls ls'))"
  by (auto simp: require_stage_def same_tables_def Let_def split: prod.splits)

lemma wp_check_chain:
  assumes "schedule_tables ls" and i: "i < unat (hd_num_stages (ls_hdr ls))"
  shows "wp (check_chain ls i stage) (ok (\<lambda>_. True))"
proof -
  let ?n = "unat (hd_num_stages (ls_hdr ls))"
  have member: "wp (check_member (ls_candidate ls) i stage m) (ok (\<lambda>_. True))" if "m < ?n" for m
    using assms(1) that by (fastforce simp: check_member_def schedule_tables_def intro!: wp_exists)
  have loop: "wp (for_range (i + 1) (i + unat (sg_chain_len stage))
       (\<lambda>m _. check_member (ls_candidate ls) i stage m) ()) (ok (\<lambda>_. True))"
    if "i + unat (sg_chain_len stage) \<le> ?n" "1 \<le> unat (sg_chain_len stage)"
    by (rule wp_for_range [where I = "\<lambda>_ _. True"]) (use that member in auto)
  have le: "unat (sg_chain_id stage) + unat (sg_chain_len stage) \<le> ?n"
    if "\<not> int (unat (sg_chain_len stage)) > int ?n - int (unat (sg_chain_id stage))"
    using that by linarith
  have head: "\<exists>r. plan_stage (ls_candidate ls) (unat (sg_chain_id stage)) = Some r"
    if "unat (sg_chain_id stage) \<le> i"
    using assms that by (auto simp: schedule_tables_def)
  show ?thesis
  proof (cases "sg_chain_len stage > 0 \<and> \<not> (sg_chain_len stage < 2 \<or> unat (sg_chain_id stage) > i \<or>
      int (unat (sg_chain_len stage)) > int ?n - int (unat (sg_chain_id stage)))")
    case True
    then have "unat (sg_chain_id stage) \<le> i" "1 \<le> unat (sg_chain_len stage)"
      "unat (sg_chain_id stage) + unat (sg_chain_len stage) \<le> ?n"
      using le by (auto simp: word_cmp)
    with True head loop show ?thesis
      unfolding check_chain_def by (auto simp del: One_nat_def)
  next
    case False
    then show ?thesis unfolding check_chain_def by auto
  qed
qed

lemma wp_schedule_ops:
  assumes t: "schedule_tables ls" and spans: "stage_spans_ok ls stage"
  shows "wp (for_range 0 (unat (sg_ops_count stage)) (schedule_op i stage) ls) (ok (\<lambda>ls'. same_tables ls ls'))"
proof (rule wp_for_range [where I = "\<lambda>_ l. same_tables ls l"])
  fix k l assume k: "k < unat (sg_ops_count stage)" and l: "same_tables ls l"
  have "unat (sg_ops_off stage) + k < unat (ls_index_count ls)"
    using spans k by (simp add: stage_spans_ok_def elements_ok_iff)
  then obtain x where x: "plan_index (ls_candidate ls) (unat (sg_ops_off stage) + k) = Some x"
    using t by (auto simp: schedule_tables_def)
  have "\<exists>r. plan_op (ls_candidate ls) (unat x) = Some r" if "\<not> x \<ge> hd_num_ops (ls_hdr ls)"
    using t that by (auto simp: schedule_tables_def word_cmp)
  then show "wp (schedule_op i stage k l) (ok (\<lambda>ls'. same_tables ls ls'))"
    using x l by (auto simp: schedule_op_def same_tables_def)
qed simp_all

lemma wp_stage_tensors:
  assumes t: "schedule_tables ls" and span: "elements_ok (ucast off) (ucast (n :: u16)) (ls_index_count ls)"
  shows "wp (for_check (unat n) (check_stage_tensor ls off)) (ok (\<lambda>_. True))"
proof (rule wp_for_check_True)
  fix k assume "k < unat n"
  then have "unat off + k < unat (ls_index_count ls)"
    using span by (simp add: elements_ok_iff)
  then show "wp (check_stage_tensor ls off k) (ok (\<lambda>_. True))"
    using t by (auto simp: check_stage_tensor_def schedule_tables_def intro!: wp_exists)
qed

lemma same_tables_keep:
  "same_tables ls ls' \<Longrightarrow> schedule_tables ls' = schedule_tables ls"
  by (simp add: same_tables_def schedule_tables_def)

lemma wp_validate_stage_table:
  assumes t: "schedule_tables ls" and i: "i < unat (hd_num_stages (ls_hdr ls))"
  shows "wp (validate_stage_table i ls) (ok (\<lambda>ls'. same_tables ls ls'))"
proof -
  obtain stage where st: "plan_stage (ls_candidate ls) i = Some stage"
    using t i by (auto simp: schedule_tables_def)
  have rest: "wp (andthen (check_chain ls1 i stage) (\<lambda>_.
       andthen (for_range 0 (unat (sg_ops_count stage)) (schedule_op i stage) ls1) (\<lambda>ls.
       andthen (for_check (unat (sg_inputs_count stage))
                  (check_stage_tensor ls (sg_inputs_off stage))) (\<lambda>_.
       andthen (for_check (unat (sg_outputs_count stage))
                  (check_stage_tensor ls (sg_outputs_off stage))) (\<lambda>_. ret ls)))))
     (ok (\<lambda>ls'. same_tables ls ls'))" if same: "same_tables ls ls1" and spans: "stage_spans_ok ls stage" for ls1
  proof -
    have t1: "schedule_tables ls1" "i < unat (hd_num_stages (ls_hdr ls1))" "stage_spans_ok ls1 stage"
      using same_tables_keep [OF same] same_tables_checks(1) [OF same] t i same spans
      by (simp_all add: same_tables_def)
    have tail: "wp (andthen (for_check (unat (sg_inputs_count stage))
                  (check_stage_tensor l (sg_inputs_off stage))) (\<lambda>_.
       andthen (for_check (unat (sg_outputs_count stage))
                  (check_stage_tensor l (sg_outputs_off stage))) (\<lambda>_. ret l)))
       (ok (\<lambda>ls'. same_tables ls ls'))" if l: "same_tables ls1 l" for l
    proof -
      have "schedule_tables l" "stage_spans_ok l stage"
        using same_tables_keep [OF l] same_tables_checks(1) [OF l] t1 by simp_all
      then show ?thesis
        by (intro wp_andthen [OF wp_stage_tensors])
          (use same_tables_trans [OF same l] in \<open>auto simp: stage_spans_ok_def\<close>)
    qed
    show ?thesis
      by (rule wp_andthen [OF wp_check_chain [OF t1(1,2)]], rule wp_andthen [OF wp_schedule_ops [OF t1(1,3)]],
          erule tail)
  qed
  show ?thesis
    using rest by (auto simp: validate_stage_table_def st intro!: wp_andthen [OF wp_require_stage])
qed

lemma wp_validate_stages:
  assumes "schedule_tables ls"
  shows "wp (validate_stages ls) (ok (\<lambda>ls'. same_tables ls ls'))"
  unfolding validate_stages_def
proof (rule wp_for_range [where I = "\<lambda>_ l. same_tables ls l"])
  fix k l assume "k < unat (hd_num_stages (ls_hdr ls))" and l: "same_tables ls l"
  then have "wp (validate_stage_table k l) (ok (\<lambda>ls'. same_tables l ls'))"
    using assms same_tables_keep [OF l] by (intro wp_validate_stage_table) (simp_all add: same_tables_def)
  then show "wp (validate_stage_table k l) (ok (\<lambda>ls'. same_tables ls ls'))"
    by (rule wp_mono) (auto elim!: ok_mono intro: same_tables_trans [OF l])
qed (simp_all add: same_tables_def)

text \<open>Each operator stands in one stage only.\<close>

lemma schedule_unique:
  assumes "concat (map f [0..<n]) = map Some [0..<m]" and "s < n" and "s' < n"
    and "x \<in> set (f s)" and "x \<in> set (f s')"
  shows "s = s'"
proof -
  have disj: "x \<notin> set (f b)" if "distinct (concat (map f [0..<n]))" "a < b" "b < n" "x \<in> set (f a)"
    for a b using that by (induction n) (auto simp: less_Suc_eq, metis UN_I atLeastLessThan_iff disjoint_iff zero_le)
  have "distinct (concat (map f [0..<n]))"
    using assms(1) by (simp add: distinct_map)
  with disj [of s s'] disj [of s' s] assms(2-) show ?thesis
    by (cases s s' rule: linorder_cases) auto
qed

text \<open>The operators of stage \<open>s\<close> are the next ones after those of the stages before it.\<close>

definition ops_before :: "(nat \<Rightarrow> nat option list) \<Rightarrow> nat \<Rightarrow> nat" where
  "ops_before f s = length (concat (map f [0..<s]))"

lemma ops_before_simps [simp]: "ops_before f 0 = 0" "ops_before f (Suc s) = ops_before f s + length (f s)"
  by (simp_all add: ops_before_def)

lemma ops_of_stage:
  assumes "concat (map f [0..<n]) = map Some [0..<m]" and "s < n"
  shows "f s = map Some [ops_before f s ..< ops_before f (Suc s)] \<and> ops_before f (Suc s) \<le> m"
proof -
  obtain rest where "concat (map f [0..<n]) = concat (map f [0..<s]) @ f s @ rest"
    using upt_add_eq_append [of 0 s "n - s"] upt_conv_Cons [of s n] assms(2) by auto
  then have all: "map Some [0..<m] = concat (map f [0..<s]) @ f s @ rest" using assms(1) by simp
  have len: "ops_before f (Suc s) \<le> m"
    using arg_cong [OF all, of length] by (simp add: ops_before_def)
  have "f s = take (length (f s)) (drop (ops_before f s) (map Some [0..<m]))"
    using all by (simp add: ops_before_def)
  also have "\<dots> = map Some [ops_before f s ..< ops_before f (Suc s)]"
    using len by (simp add: drop_map take_map)
  finally show ?thesis using len by simp
qed

section \<open>Concrete plans\<close>

lemma demo_rd_stage: "plan_stage (ls_candidate demo_loaded) 0 = Some
    \<lparr> sg_peak_bytes = 64, sg_ops_off = 4, sg_ops_count = 1, sg_inputs_off = 5, sg_inputs_count = 1,
      sg_outputs_off = 6, sg_outputs_count = 1, sg_tile_plan_idx = NONE_U16, sg_pad0 = 0,
      sg_chain_id = NONE_U16, sg_chain_len = 0, sg_chain_tile_h = 0, sg_reserved1 = 0 \<rparr>"
  by (simp add: plan_stage_def demo_loaded_def demo_state_def demo_plan2_def rd_tigris_stage_def
      read_defs demo_file_def demo_plan1_def empty_plan_def)

lemma demo_rd_ops: "map_option op_stage (plan_op (ls_candidate demo_loaded) 0) = Some 0"
  by (simp add: plan_op_def demo_loaded_def demo_state_def demo_plan2_def rd_tigris_op_def
      read_defs demo_file_def demo_plan1_def empty_plan_def rd_spatial_attrs_def
      rdi8_def)

lemma demo_rd_index:
  "plan_index (ls_candidate demo_loaded) 4 = Some 0" "plan_index (ls_candidate demo_loaded) 5 = Some 0"
  "plan_index (ls_candidate demo_loaded) 6 = Some 1"
  by (simp_all add: plan_index_def demo_loaded_def demo_state_def demo_plan2_def
      read_defs demo_file_def demo_plan1_def empty_plan_def)

lemma demo_loaded_parts:
  "hd_num_stages (ls_hdr demo_loaded) = 1" "hd_num_ops (ls_hdr demo_loaded) = 1"
  "hd_num_tensors (ls_hdr demo_loaded) = 2" "hd_version (ls_hdr demo_loaded) = 12"
  "hd_num_tile_plans (ls_hdr demo_loaded) = 0" "ls_index_count demo_loaded = 8"
  "ls_required demo_loaded = no_limits\<lparr> pl_tensors := 2 \<rparr>"
  by (simp_all add: demo_loaded_def demo_state_def demo_header_def)

definition demo_scheduled :: load_state where
  "demo_scheduled = demo_loaded\<lparr> ls_next_scheduled_op := 1, ls_required := no_limits\<lparr> pl_tensors := 2,
       pl_stage_inputs := 1, pl_stage_outputs := 1 \<rparr> \<rparr>"

lemma demo_stages: "validate_stages demo_loaded = Some (Inr demo_scheduled)"
proof -
  obtain oper where op: "plan_op (ls_candidate demo_loaded) 0 = Some oper" "op_stage oper = 0"
    using demo_rd_ops by auto
  show ?thesis
    by (simp add: validate_stages_def demo_loaded_parts for_range_step validate_stage_table_def
        demo_rd_stage stage_spans_ok_def elements_ok_def word_cmp require_stage_def
        note_requirement_def tigris_build_limits_def no_limits_def check_chain_def schedule_op_def
        demo_rd_index op schema_versions check_stage_tensor_def demo_scheduled_def)
qed

text \<open>A table of stages without operators, in two chains of two stages.\<close>

definition stage_plan :: "tigris_stage list \<Rightarrow> load_state" where
  "stage_plan stages = demo_loaded\<lparr> ls_hdr := demo_header\<lparr> hd_num_stages := of_nat (length stages) \<rparr>,
     ls_candidate := (empty_plan (concat (map wr_tigris_stage stages)))\<lparr> p_stages := Some 0 \<rparr> \<rparr>"

definition member_stage :: "u16 \<Rightarrow> u16 \<Rightarrow> tigris_stage" where
  "member_stage head h = \<lparr> sg_peak_bytes = 0, sg_ops_off = 0, sg_ops_count = 0, sg_inputs_off = 0,
     sg_inputs_count = 0, sg_outputs_off = 0, sg_outputs_count = 0, sg_tile_plan_idx = NONE_U16,
     sg_pad0 = 0, sg_chain_id = head, sg_chain_len = 2, sg_chain_tile_h = h, sg_reserved1 = 0 \<rparr>"

lemma stage_plan_stage:
  "s < length stages \<Longrightarrow> plan_stage (ls_candidate (stage_plan stages)) s = Some (stages ! s)"
  using tigris_stage_table.table_roundtrip [where rs = stages and i = s and xs = "[]" and ys = "[]"]
  by (simp add: plan_stage_def stage_plan_def empty_plan_def)

lemma stage_plan_parts [simp]:
  "ls_hdr (stage_plan stages) = demo_header\<lparr> hd_num_stages := of_nat (length stages) \<rparr>"
  "ls_index_count (stage_plan stages) = 8"
  "ls_required (stage_plan stages) = no_limits\<lparr> pl_tensors := 2 \<rparr>"
  by (simp_all add: stage_plan_def demo_loaded_parts)

definition two_chains :: load_state where
  "two_chains = stage_plan [member_stage 0 1, member_stage 0 0, member_stage 2 1, member_stage 2 0]"

definition displaced_chain :: load_state where
  "displaced_chain = stage_plan [member_stage 0 1, member_stage 0 0, member_stage 0 0]"

lemma two_chains_stage:
  "plan_stage (ls_candidate two_chains) 0 = Some (member_stage 0 1)"
  "plan_stage (ls_candidate two_chains) 1 = Some (member_stage 0 0)"
  "plan_stage (ls_candidate two_chains) 2 = Some (member_stage 2 1)"
  "plan_stage (ls_candidate two_chains) 3 = Some (member_stage 2 0)"
  by (simp_all add: two_chains_def stage_plan_stage)

lemma displaced_chain_stage:
  "plan_stage (ls_candidate displaced_chain) 0 = Some (member_stage 0 1)"
  "plan_stage (ls_candidate displaced_chain) 1 = Some (member_stage 0 0)"
  "plan_stage (ls_candidate displaced_chain) 2 = Some (member_stage 0 0)"
  by (simp_all add: displaced_chain_def stage_plan_stage)

lemmas stage_checks = for_range_step validate_stage_table_def stage_spans_ok_def elements_ok_def
  word_cmp require_stage_def note_requirement_def tigris_build_limits_def no_limits_def
  check_chain_def check_member_def member_stage_def

lemma two_chains_ok: "\<exists>ls. validate_stages two_chains = Some (Inr ls)"
proof -
  have parts: "hd_num_stages (ls_hdr two_chains) = 4" "ls_index_count two_chains = 8"
    "ls_required two_chains = no_limits\<lparr> pl_tensors := 2 \<rparr>"
    by (simp_all add: two_chains_def)
  show ?thesis
    by (simp add: validate_stages_def parts stage_checks
        two_chains_stage two_chains_stage [unfolded numeral_2_eq_2 numeral_3_eq_3 One_nat_def])
qed

text \<open>A stage may name a chain that ended before it: stage 2 claims the chain of stages 0 and 1.
  The loop of the head does not reach it and its own checks look only at the head.\<close>

lemma displaced_member_accepted:
  "\<exists>ls. validate_stages displaced_chain = Some (Inr ls) \<and>
     chain_head (ls_candidate displaced_chain) 0 2 \<and>
     plan_stage (ls_candidate displaced_chain) 2 = Some (member_stage 0 0)"
proof -
  have parts: "hd_num_stages (ls_hdr displaced_chain) = 3" "ls_index_count displaced_chain = 8"
    "ls_required displaced_chain = no_limits\<lparr> pl_tensors := 2 \<rparr>"
    by (simp_all add: displaced_chain_def)
  show ?thesis
    by (simp add: validate_stages_def parts stage_checks chain_head_def
        displaced_chain_stage displaced_chain_stage [unfolded numeral_2_eq_2 One_nat_def])
qed

section \<open>Properties\<close>

text \<open>The stage checks are memory safe: on whatever the first phases accept, for any file, they
  return a result and have read only inside the tables.\<close>

lemma stages_memory_safe:
  assumes "unat n = length b" and "file_size_ok n" and "load_tables (Some b) n z = Some (Inr ls)"
  shows "wp (validate_stages ls) (ok (\<lambda>ls'. ls_candidate ls' = ls_candidate ls))"
proof -
  have "wp (load_tables (Some b) n z) (ok (\<lambda>ls. ls_ok 8 ls \<and> pools_in ls \<and> io_in ls \<and> tensors_ok ls \<and>
     ls_buf_len ls = n \<and> Some b = Some (p_buf (ls_candidate ls)) \<and> hd_file_size (ls_hdr ls) = n))"
    by (rule wp_load_tables) (use assms in auto)
  then have "schedule_tables ls" using assms(3) by (intro schedule_tablesI) simp_all
  from wp_validate_stages [OF this] show ?thesis
    by (rule wp_mono) (auto elim!: ok_mono simp: same_tables_def)
qed

text \<open>C13. The stages of an accepted plan partition its operators into a forward schedule: listing
  the operators of stage 0, then of stage 1 and so on gives every operator of the table exactly
  once, in the order of the table. So no operator is omitted, repeated or reordered.\<close>

theorem schedule_partition:
  assumes "validate_stages ls = Some (Inr ls1)" and "schedule_complete ls1 = Some (Inr ls2)"
  shows "concat (map (stage_operators (ls_candidate ls)) [0..<unat (hd_num_stages (ls_hdr ls))])
     = map Some [0..<unat (hd_num_ops (ls_hdr ls))]"
  using validate_stagesD [OF assms(1)] assms(2)
  by (auto simp: schedule_complete_def same_tables_def split: if_splits)

lemma schedule_partition_witness:
  "concat (map (stage_operators (ls_candidate demo_loaded)) [0..<1]) = [Some 0]"
  using schedule_partition [OF demo_stages, of demo_scheduled]
  by (simp add: schedule_complete_def demo_scheduled_def demo_loaded_parts)

text \<open>C31. The chains of an accepted plan are complete, bounded and disjoint, for every chain head of the
  stage table, the only and the last one included: the chain lies inside the stage table and has at
  most 16 stages, every stage from the head to its declared end is a member of that chain and has no
  tile plan, and any later chain starts after its end. This is what lets the executor run a chain at
  its head and skip the members.\<close>

theorem chains_disjoint:
  assumes "validate_stages ls = Some (Inr ls')" and "a < unat (hd_num_stages (ls_hdr ls))"
    and "chain_head (ls_candidate ls) a m"
  shows "a + m \<le> unat (hd_num_stages (ls_hdr ls)) \<and> m \<le> 16 \<and>
     (\<forall>k. a \<le> k \<and> k < a + m \<longrightarrow> chain_member (ls_candidate ls) a m k) \<and>
     (\<forall>b n. chain_head (ls_candidate ls) b n \<and> a < b \<longrightarrow> a + m \<le> b)"
proof -
  obtain st where st: "plan_stage (ls_candidate ls) a = Some st" "unat (sg_chain_id st) = a"
    "unat (sg_chain_len st) = m" "2 \<le> m" using assms(3) by (auto simp: chain_head_def)
  have "stage_ok ls a" using validate_stagesD [OF assms(1)] assms(2) by simp
  then have "check_chain ls a st = Some (Inr ())" "m \<le> 16" using st by (auto simp: stage_ok_def)
  moreover have "sg_chain_len st \<noteq> 0" using st by auto
  ultimately have "a + m \<le> unat (hd_num_stages (ls_hdr ls))" "m \<le> 16"
    and members: "\<forall>k. a \<le> k \<and> k < a + m \<longrightarrow> chain_member (ls_candidate ls) a m k"
    using check_chainD [of ls a st] st by auto
  moreover have "a + m \<le> b" if b: "chain_head (ls_candidate ls) b n" "a < b" for b n
  proof (rule ccontr)
    assume "\<not> a + m \<le> b"
    then have "chain_member (ls_candidate ls) a m b" using members b(2) by auto
    then show False using b by (auto simp: chain_member_def chain_head_def)
  qed
  ultimately show ?thesis by blast
qed

text \<open>Both chains of a plan with two: the first ends where the second starts, the second at the table's end.\<close>

lemma chains_disjoint_witness:
  "chain_member (ls_candidate two_chains) 0 2 1 \<and> (0 :: nat) + 2 \<le> 2 \<and>
   chain_member (ls_candidate two_chains) 2 2 3 \<and> 2 + 2 \<le> unat (hd_num_stages (ls_hdr two_chains))"
proof -
  obtain ls where ok: "validate_stages two_chains = Some (Inr ls)" using two_chains_ok by blast
  have heads: "chain_head (ls_candidate two_chains) 0 2" "chain_head (ls_candidate two_chains) 2 2"
    using two_chains_stage by (simp_all add: chain_head_def member_stage_def)
  have num: "unat (hd_num_stages (ls_hdr two_chains)) = 4" by (simp add: two_chains_def)
  show ?thesis
    using chains_disjoint [OF ok _ heads(1)] chains_disjoint [OF ok _ heads(2)] heads(2) num
    by (simp del: length_greater_0_conv)
qed

end
