(* ===== verification/Weights.thy ===== *)
theory Weights
  imports Schedule
begin

text \<open>
  Weights in the plan loader (\<open>src/tigris_loader.c\<close>): the tables checked by
  \<open>validate_weights_and_stages\<close> (weight entries, quantization parameters, weight blocks) and the
  pass of \<open>validate_graph_and_publish\<close> over the weights a stage reads from its decoded block.

  What is shown: the multipliers and shifts of an accepted quantization parameter lie inside the
  quantization data; the blocks of an accepted plan are ordered by stage and lie inside the file;
  and every weight an operator of a stage reads lies inside the stage's decoded block, disjoint
  from every other weight the stage reads.
\<close>

abbreviation (input) ATTR_CONSTANTS :: u8 where "ATTR_CONSTANTS \<equiv> 14"

section \<open>The tables\<close>

definition check_weight :: "load_state \<Rightarrow> u32 \<Rightarrow> nat \<Rightarrow> (tigris_error + unit) option" where
  "check_weight ls blob_len i = do {
     weight \<leftarrow> plan_weight_entry (ls_candidate ls) i;
     name_ok \<leftarrow> string_ok (ls_candidate ls) (ls_strings_len ls) (we_name_str weight);
     if \<not> name_ok \<or> \<not> bounds_ok (we_offset weight) (we_size_bytes weight) blob_len
     then fail ERR_BAD_SECTION else ret () }"

definition check_weights :: "load_state \<Rightarrow> (tigris_error + unit) option" where
  "check_weights ls =
     (if p_weight_entries (ls_candidate ls) \<noteq> None \<and> p_weight_blocks (ls_candidate ls) = None then
        let weights_off = ls_section_offsets ls ! SEC_WEIGHTS;
            entries_size = ucast (hd_num_weights (ls_hdr ls)) * 12;
            blob_len = ls_section_ends ls ! SEC_WEIGHTS - weights_off - entries_size in
        for_check (unat (hd_num_weights (ls_hdr ls))) (check_weight ls blob_len)
      else ret ())"

definition check_quant :: "load_state \<Rightarrow> u16 \<Rightarrow> u32 \<Rightarrow> nat \<Rightarrow> (tigris_error + unit) option" where
  "check_quant ls qd_field qd_len i = do {
     qp \<leftarrow> plan_quant_param (ls_candidate ls) i;
     let moff = tigris_quant_page_start qp + ucast (qp_multiplier_off qp);
     let soff = tigris_quant_page_start qp + ucast (qp_shift_off qp);
     if \<not> f32_isfinite (qp_scale qp) \<or> f32_nonpositive (qp_scale qp) then fail ERR_BAD_TENSOR
     else if qp_num_channels qp = 0 \<or> qp_page qp \<ge> qd_field \<or>
       (ucast (qp_multiplier_off qp) :: u32) + ucast (qp_num_channels qp) > 65536 \<or>
       (ucast (qp_shift_off qp) :: u32) + ucast (qp_num_channels qp) > 65536 \<or>
       \<not> elements_ok moff (ucast (qp_num_channels qp)) qd_len \<or>
       \<not> elements_ok soff (ucast (qp_num_channels qp)) qd_len
     then fail ERR_BAD_SECTION else ret () }"

definition check_quants :: "load_state \<Rightarrow> (tigris_error + unit) option" where
  "check_quants ls =
     (let qp_off = ls_section_offsets ls ! SEC_QUANT_PARAMS; b = p_buf (ls_candidate ls) in
      if qp_off = 0 then ret ()
      else do {
        nqp \<leftarrow> rd16 b (unat qp_off);
        qd_field \<leftarrow> rd16 b (unat qp_off + 2);
        qd_len \<leftarrow> udiv32 (ls_section_ends ls ! SEC_QUANT_PARAMS - qp_off - 4 - ucast nqp * 16) 4;
        for_check (unat nqp) (check_quant ls qd_field qd_len) })"

text \<open>One weight block; the state is the previous block's stage.\<close>

definition check_block ::
  "load_state \<Rightarrow> u32 \<Rightarrow> nat \<Rightarrow> u16 \<Rightarrow> (tigris_error + u16) option" where
  "check_block ls blobs_len i previous_stage = do {
     block \<leftarrow> plan_weight_block (ls_candidate ls) i;
     if wb_stage_idx block \<ge> hd_num_stages (ls_hdr ls) \<or>
        (i > 0 \<and> wb_stage_idx block \<le> previous_stage) \<or>
        \<not> elements_ok (ucast (wb_first_weight_idx block)) (ucast (wb_num_weights block))
            (ucast (hd_num_weights (ls_hdr ls))) \<or>
        wb_num_weights block = 0 \<or> wb_compressed_size block = 0 \<or> wb_uncompressed_size block = 0 \<or>
        \<not> bounds_ok (wb_blob_offset block) (wb_compressed_size block) blobs_len \<or>
        (p_weight_compression (ls_candidate ls) = 0 \<and>
           wb_compressed_size block \<noteq> wb_uncompressed_size block)
     then fail ERR_BAD_SECTION else ret (wb_stage_idx block) }"

definition check_blocks :: "load_state \<Rightarrow> (tigris_error + unit) option" where
  "check_blocks ls =
     (let pl = ls_candidate ls in
      if p_weight_blocks pl = None then ret ()
      else
        let wb_off = ls_section_offsets ls ! SEC_WEIGHT_BLOCKS;
            block_entries = ucast (p_num_weight_blocks pl) * 20;
            blobs_off = wb_off + 4 + block_entries;
            blobs_len = ls_section_ends ls ! SEC_WEIGHT_BLOCKS - blobs_off in
        if p_weight_compression pl \<noteq> 0 \<and> p_weight_compression pl \<noteq> 1 then fail ERR_BAD_SECTION
        else if p_num_weight_blocks pl = 0 \<or> hd_num_weights (ls_hdr ls) = 0 \<or>
          p_num_weight_blocks pl > hd_num_stages (ls_hdr ls)
        then fail ERR_BAD_SECTION
        else andthen (for_range 0 (unat (p_num_weight_blocks pl)) (check_block ls blobs_len) 0xFFFF)
               (\<lambda>_. ret ()))"

section \<open>The weights a stage reads\<close>

text \<open>Whether a weight (or none) lies inside the decoded block of a stage.\<close>

definition weight_in_block :: "tigris_plan \<Rightarrow> u16 \<Rightarrow> weight_block option \<Rightarrow> bool option" where
  "weight_in_block pl index block =
     (if index = NONE_U16 then Some True
      else (case block of
          None \<Rightarrow> Some False
        | Some b \<Rightarrow> do {
            w \<leftarrow> plan_weight_entry pl (unat index);
            Some (bounds_ok (we_offset w) (we_size_bytes w) (wb_uncompressed_size b)) }))"

text \<open>The cursors count below their 16-bit ends, so they are natural numbers here.\<close>

record weight_reads =
  rs_op :: nat
  rs_end_op :: nat
  rs_attr :: nat
  rs_end_attr :: nat
  rs_slot :: u8

text \<open>The loop over the attribute records.\<close>

function next_constant :: "tigris_plan \<Rightarrow> weight_reads \<Rightarrow> (u16 \<times> weight_reads) option option" where
  "next_constant pl reads =
     (if rs_attr reads < rs_end_attr reads then do {
        attr \<leftarrow> plan_op_attribute pl (rs_attr reads);
        let at = unat (rs_slot reads) * 2;
        if oa_type attr = ATTR_CONSTANTS \<and> at + 2 \<le> unat (oa_data_len attr) then do {
          data \<leftarrow> p_op_attribute_data pl;
          index \<leftarrow> rd16 (p_buf pl) (data + unat (oa_data_offset attr) + at);
          Some (Some (index, reads\<lparr> rs_slot := rs_slot reads + 1 \<rparr>)) }
        else next_constant pl (reads\<lparr> rs_attr := rs_attr reads + 1, rs_slot := 0 \<rparr>) }
      else Some None)"
  by pat_completeness auto
termination by (relation "measure (\<lambda>(pl, r). rs_end_attr r - rs_attr r)") auto

declare next_constant.simps [simp del]

definition next_weight_read :: "tigris_plan \<Rightarrow> weight_reads \<Rightarrow> (u16 \<times> weight_reads) option option" where
  "next_weight_read pl reads =
     (if rs_op reads < rs_end_op reads then do {
        oper \<leftarrow> plan_op pl (rs_op reads);
        if rs_slot reads = 0 then Some (Some (op_weight_idx oper, reads\<lparr> rs_slot := 1 \<rparr>))
        else Some (Some (op_bias_idx oper, reads\<lparr> rs_slot := 0, rs_op := rs_op reads + 1 \<rparr>)) }
      else next_constant pl reads)"

text \<open>What a read leaves: the order in which the loops over the reads go down.\<close>

definition reads_left :: "(weight_reads \<times> weight_reads) set" where
  "reads_left = inv_image (less_than <*lex*> less_than <*lex*> less_than)
     (\<lambda>r. (rs_end_op r - rs_op r, rs_end_attr r - rs_attr r, 255 - unat (rs_slot r)))"

lemma wf_reads_left: "wf reads_left"
  by (simp add: reads_left_def wf_lex_prod wf_inv_image)

lemma slot_next: "unat (s :: u8) * 2 + 2 \<le> unat (n :: u8) \<Longrightarrow> unat (s + 1) = unat s + 1"
  using unat_u8_less [of n] unat_add_lem [of s 1] by simp

lemma next_constant_left:
  "next_constant pl r = Some (Some (index, r')) \<Longrightarrow> rs_op r' = rs_op r \<and> rs_end_op r' = rs_end_op r \<and>
     rs_end_attr r' = rs_end_attr r \<and> rs_attr r \<le> rs_attr r' \<and> rs_attr r' < rs_end_attr r \<and>
     (rs_attr r' = rs_attr r \<longrightarrow> unat (rs_slot r') = unat (rs_slot r) + 1)"
proof (induction pl r rule: next_constant.induct)
  case (1 pl r)
  from "1.prems" have less: "rs_attr r < rs_end_attr r"
    by (subst (asm) next_constant.simps) (simp split: if_splits)
  with "1.prems" obtain attr where attr: "plan_op_attribute pl (rs_attr r) = Some attr"
    by (subst (asm) next_constant.simps) (auto simp: bind_eq_Some_conv)
  show ?case
  proof (cases "oa_type attr = ATTR_CONSTANTS \<and> unat (rs_slot r) * 2 + 2 \<le> unat (oa_data_len attr)")
    case True
    with "1.prems" less attr show ?thesis
      by (subst (asm) next_constant.simps) (auto simp: bind_eq_Some_conv slot_next)
  next
    case False
    with "1.prems" less attr
    have "next_constant pl (r\<lparr> rs_attr := rs_attr r + 1, rs_slot := 0 \<rparr>) = Some (Some (index, r'))"
      by (subst (asm) next_constant.simps) (auto simp: Let_def split: if_splits)
    from "1.IH" [OF less attr refl False this] show ?thesis by auto
  qed
qed

lemma next_weight_read_left:
  assumes "next_weight_read pl r = Some (Some (index, r'))"
  shows "(r', r) \<in> reads_left"
proof (cases "rs_op r < rs_end_op r")
  case True
  then show ?thesis
    using assms by (cases "rs_slot r = 0")
      (auto simp: next_weight_read_def reads_left_def bind_eq_Some_conv)
next
  case False
  then have "next_constant pl r = Some (Some (index, r'))"
    using assms by (simp add: next_weight_read_def)
  from next_constant_left [OF this] show ?thesis
    using unat_u8_less [of "rs_slot r'"] by (auto simp: reads_left_def le_less)
qed

text \<open>A loop \<open>while (next_weight_read(...)) if (test) return error;\<close>.\<close>

function any_read ::
  "tigris_plan \<Rightarrow> (u16 \<Rightarrow> weight_reads \<Rightarrow> bool option) \<Rightarrow> weight_reads \<Rightarrow> bool option" where
  "any_read pl test reads = do {
     r \<leftarrow> next_weight_read pl reads;
     (case r of
        None \<Rightarrow> Some False
      | Some (index, reads') \<Rightarrow> do {
          hit \<leftarrow> test index reads';
          if hit then Some True else any_read pl test reads' }) }"
  by pat_completeness auto
termination
  by (relation "inv_image reads_left (\<lambda>(pl, test, r). r)")
    (auto simp: wf_reads_left intro: next_weight_read_left)

declare any_read.simps [simp del]

definition overlaps :: "tigris_plan \<Rightarrow> u16 \<Rightarrow> weight_entry \<Rightarrow> u16 \<Rightarrow> bool option" where
  "overlaps pl index weight other =
     (if other = NONE_U16 \<or> other = index then Some False
      else do {
        entry \<leftarrow> plan_weight_entry pl (unat other);
        Some (we_size_bytes entry \<noteq> 0 \<and>
          we_offset entry < we_offset weight + we_size_bytes weight \<and>
          we_offset weight < we_offset entry + we_size_bytes entry) })"

definition weight_overlaps_later :: "tigris_plan \<Rightarrow> weight_reads \<Rightarrow> u16 \<Rightarrow> bool option" where
  "weight_overlaps_later pl later index =
     (if index = NONE_U16 then Some False
      else do {
        weight \<leftarrow> plan_weight_entry pl (unat index);
        if we_size_bytes weight = 0 then Some False
        else any_read pl (\<lambda>other _. overlaps pl index weight other) later })"

section \<open>The pass over the stages\<close>

text \<open>\<open>while (cursor < count && attributes[cursor].op_index < bound) cursor++\<close>.\<close>

function skip_attributes :: "tigris_plan \<Rightarrow> u16 \<Rightarrow> nat \<Rightarrow> nat option" where
  "skip_attributes pl bound cursor =
     (if cursor < unat (p_num_op_attributes pl) then do {
        attr \<leftarrow> plan_op_attribute pl cursor;
        if oa_op_index attr < bound then skip_attributes pl bound (Suc cursor) else Some cursor }
      else Some cursor)"
  by pat_completeness auto
termination by (relation "measure (\<lambda>(pl, bound, c). unat (p_num_op_attributes pl) - c)") auto

declare skip_attributes.simps [simp del]

text \<open>The block of stage \<open>s\<close>, if the cursor is at it.\<close>

definition stage_block :: "tigris_plan \<Rightarrow> nat \<Rightarrow> nat \<Rightarrow> (nat \<times> weight_block option) option" where
  "stage_block pl s cursor =
     (if cursor < unat (p_num_weight_blocks pl) then do {
        block \<leftarrow> plan_weight_block pl cursor;
        Some (if unat (wb_stage_idx block) = s then (Suc cursor, Some block) else (cursor, None)) }
      else Some (cursor, None))"

definition stage_reads :: "tigris_plan \<Rightarrow> tigris_stage \<Rightarrow> nat \<Rightarrow> (nat \<times> weight_reads) option" where
  "stage_reads pl stage cursor = do {
     first \<leftarrow> (if sg_ops_count stage > 0 then plan_index pl (unat (sg_ops_off stage)) else Some 0);
     let end_op = first + sg_ops_count stage;
     start \<leftarrow> skip_attributes pl first cursor;
     stop \<leftarrow> skip_attributes pl end_op start;
     Some (stop, \<lparr> rs_op = unat first, rs_end_op = unat end_op, rs_attr = start, rs_end_attr = stop,
       rs_slot = 0 \<rparr>) }"

definition check_stage_weights ::
  "tigris_plan \<Rightarrow> nat \<Rightarrow> nat \<times> nat \<Rightarrow> (tigris_error + nat \<times> nat) option" where
  "check_stage_weights pl s cursors = do {
     (block_cursor, block) \<leftarrow> stage_block pl s (fst cursors);
     stage \<leftarrow> plan_stage pl s;
     (attr_cursor, reads) \<leftarrow> stage_reads pl stage (snd cursors);
     outside \<leftarrow> any_read pl (\<lambda>index _. map_option Not (weight_in_block pl index block)) reads;
     if outside then fail ERR_BAD_SECTION
     else do {
       shared \<leftarrow> any_read pl (\<lambda>index later. weight_overlaps_later pl later index) reads;
       if shared then fail ERR_BAD_SECTION else ret (block_cursor, attr_cursor) } }"

definition check_block_weights :: "load_state \<Rightarrow> (tigris_error + unit) option" where
  "check_block_weights ls =
     (if p_weight_blocks (ls_candidate ls) = None then ret ()
      else andthen (for_range 0 (unat (hd_num_stages (ls_hdr ls)))
                      (check_stage_weights (ls_candidate ls)) (0, 0)) (\<lambda>_. ret ()))"

text \<open>\<open>validate_weights_and_stages\<close>, and the first part of \<open>validate_graph_and_publish\<close>.\<close>

definition validate_weights_and_stages :: "load_state \<Rightarrow> (tigris_error + load_state) option" where
  "validate_weights_and_stages ls =
     andthen (check_weights ls) (\<lambda>_.
     andthen (check_quants ls) (\<lambda>_.
     andthen (check_blocks ls) (\<lambda>_. validate_stages ls)))"

definition validate_weight_reads :: "load_state \<Rightarrow> (tigris_error + load_state) option" where
  "validate_weight_reads ls =
     andthen (schedule_complete ls) (\<lambda>ls. andthen (check_block_weights ls) (\<lambda>_. ret ls))"

section \<open>The reads as a list\<close>

function all_reads :: "tigris_plan \<Rightarrow> weight_reads \<Rightarrow> u16 list option" where
  "all_reads pl reads = do {
     r \<leftarrow> next_weight_read pl reads;
     (case r of
        None \<Rightarrow> Some []
      | Some (index, reads') \<Rightarrow> map_option ((#) index) (all_reads pl reads')) }"
  by pat_completeness auto
termination
  by (relation "inv_image reads_left (\<lambda>(pl, r). r)") (auto simp: wf_reads_left intro: next_weight_read_left)

declare all_reads.simps [simp del]

lemma any_readD:
  assumes "any_read pl test r = Some False"
  shows "\<exists>L. all_reads pl r = Some L \<and> (\<forall>i < length L. \<exists>r'. test (L ! i) r' = Some False \<and>
     all_reads pl r' = Some (drop (Suc i) L))"
  using assms
proof (induction pl test r rule: any_read.induct)
  case (1 pl test r)
  from "1.prems" obtain x where x: "next_weight_read pl r = Some x"
    by (subst (asm) any_read.simps) (auto simp: bind_eq_Some_conv)
  show ?case
  proof (cases x)
    case None
    then show ?thesis using x by (subst all_reads.simps) simp
  next
    case (Some y)
    then obtain index r' where y: "x = Some (index, r')" by (cases y) simp
    with "1.prems" x have t: "test index r' = Some False" and rest: "any_read pl test r' = Some False"
      by (subst (asm) any_read.simps, auto simp: bind_eq_Some_conv split: if_splits)+
    obtain L where L: "all_reads pl r' = Some L" "\<forall>i < length L. \<exists>r'. test (L ! i) r' = Some False \<and>
       all_reads pl r' = Some (drop (Suc i) L)"
      using "1.IH" [OF x y refl t _ rest] by auto
    have "all_reads pl r = Some (index # L)"
      using x y L(1) by (subst all_reads.simps) simp
    moreover have "\<exists>r'. test ((index # L) ! i) r' = Some False \<and>
        all_reads pl r' = Some (drop (Suc i) (index # L))" if "i < length (index # L)" for i
      using that t L by (cases i) auto
    ultimately show ?thesis by blast
  qed
qed

text \<open>Every operator's weight and bias is read.\<close>

lemma all_reads_ops:
  "all_reads pl r = Some L \<Longrightarrow> rs_op r \<le> k \<Longrightarrow> k < rs_end_op r \<Longrightarrow>
     \<exists>oper. plan_op pl k = Some oper \<and> op_bias_idx oper \<in> set L \<and>
       (rs_op r < k \<or> rs_slot r = 0 \<longrightarrow> op_weight_idx oper \<in> set L)"
proof (induction pl r arbitrary: L rule: all_reads.induct)
  case (1 pl r)
  have less: "rs_op r < rs_end_op r" using "1.prems" by simp
  with "1.prems"(1) obtain oper where op: "plan_op pl (rs_op r) = Some oper"
    by (subst (asm) all_reads.simps) (auto simp: next_weight_read_def bind_eq_Some_conv)
  let ?x = "if rs_slot r = 0 then (op_weight_idx oper, r\<lparr> rs_slot := 1 \<rparr>)
            else (op_bias_idx oper, r\<lparr> rs_slot := 0, rs_op := rs_op r + 1 \<rparr>)"
  have x: "next_weight_read pl r = Some (Some ?x)"
    using less op by (simp add: next_weight_read_def)
  with "1.prems"(1) obtain rest where rest: "all_reads pl (snd ?x) = Some rest" "L = fst ?x # rest"
    by (subst (asm) all_reads.simps) (auto split: prod.splits if_splits)
  note IH = "1.IH" [OF x refl prod.collapse rest(1)]
  show ?case
  proof (cases "rs_slot r = 0")
    case True
    then show ?thesis using IH "1.prems" op rest(2) by (auto simp: le_less)
  next
    case False
    then show ?thesis using IH "1.prems" op rest(2) by (cases "k = rs_op r") auto
  qed
qed

text \<open>Every constant of the records between the cursors is read.\<close>

definition lists_constant :: "tigris_plan \<Rightarrow> nat \<Rightarrow> nat \<Rightarrow> u16 \<Rightarrow> bool" where
  "lists_constant pl a j index = (\<exists>attr data. plan_op_attribute pl a = Some attr \<and>
     oa_type attr = ATTR_CONSTANTS \<and> j * 2 + 2 \<le> unat (oa_data_len attr) \<and>
     p_op_attribute_data pl = Some data \<and>
     rd16 (p_buf pl) (data + unat (oa_data_offset attr) + j * 2) = Some index)"

definition still_to_read :: "weight_reads \<Rightarrow> nat \<Rightarrow> nat \<Rightarrow> bool" where
  "still_to_read r a j = (rs_attr r \<le> a \<and> a < rs_end_attr r \<and> (a = rs_attr r \<longrightarrow> unat (rs_slot r) \<le> j))"

lemma next_constant_covers:
  "next_constant pl r = Some x \<Longrightarrow> lists_constant pl a j index \<Longrightarrow> still_to_read r a j \<Longrightarrow>
     \<exists>index' r'. x = Some (index', r') \<and> (index = index' \<or> still_to_read r' a j)"
proof (induction pl r arbitrary: x rule: next_constant.induct)
  case (1 pl r)
  have less: "rs_attr r < rs_end_attr r" using "1.prems"(3) by (auto simp: still_to_read_def)
  with "1.prems"(1) obtain attr where attr: "plan_op_attribute pl (rs_attr r) = Some attr"
    by (subst (asm) next_constant.simps) (auto simp: bind_eq_Some_conv)
  show ?case
  proof (cases "oa_type attr = ATTR_CONSTANTS \<and> unat (rs_slot r) * 2 + 2 \<le> unat (oa_data_len attr)")
    case True
    with "1.prems"(1) less attr obtain index' data where
      read: "p_op_attribute_data pl = Some data"
        "rd16 (p_buf pl) (data + unat (oa_data_offset attr) + unat (rs_slot r) * 2) = Some index'"
      and x: "x = Some (index', r\<lparr> rs_slot := rs_slot r + 1 \<rparr>)"
      by (subst (asm) next_constant.simps) (auto simp: bind_eq_Some_conv)
    have "index = index'" if "a = rs_attr r" "j = unat (rs_slot r)"
      using "1.prems"(2) read attr that by (auto simp: lists_constant_def)
    moreover have "still_to_read (r\<lparr> rs_slot := rs_slot r + 1 \<rparr>) a j" if "a \<noteq> rs_attr r \<or> j \<noteq> unat (rs_slot r)"
      using "1.prems"(3) that slot_next True by (auto simp: still_to_read_def)
    ultimately show ?thesis using x by blast
  next
    case False
    let ?r = "r\<lparr> rs_attr := rs_attr r + 1, rs_slot := 0 \<rparr>"
    have "next_constant pl ?r = Some x"
      using "1.prems"(1) less attr False
      by (subst (asm) next_constant.simps) (auto simp: Let_def split: if_splits)
    moreover have "still_to_read ?r a j"
      using "1.prems"(2,3) False attr by (cases "a = rs_attr r") (auto simp: still_to_read_def lists_constant_def)
    ultimately show ?thesis using "1.IH" [OF less attr refl False] "1.prems"(2) by blast
  qed
qed

lemma all_reads_constants:
  "all_reads pl r = Some L \<Longrightarrow> lists_constant pl a j index \<Longrightarrow> rs_attr r \<le> a \<Longrightarrow> a < rs_end_attr r \<Longrightarrow>
     rs_op r < rs_end_op r \<or> still_to_read r a j \<Longrightarrow> index \<in> set L"
proof (induction pl r arbitrary: L rule: all_reads.induct)
  case (1 pl r)
  from "1.prems"(1) obtain x where x: "next_weight_read pl r = Some x"
    by (subst (asm) all_reads.simps) (auto simp: bind_eq_Some_conv)
  show ?case
  proof (cases "rs_op r < rs_end_op r")
    case True
    with x obtain index' r' where x': "x = Some (index', r')" "rs_attr r' = rs_attr r" "rs_end_attr r' = rs_end_attr r"
      "rs_op r' < rs_end_op r' \<or> rs_slot r' = 0"
      by (auto simp: next_weight_read_def bind_eq_Some_conv split: if_splits)
    from "1.prems"(1) x x' obtain rest where rest: "all_reads pl r' = Some rest" "L = index' # rest"
      by (subst (asm) all_reads.simps) auto
    have "index \<in> set rest"
      by (rule "1.IH" [OF x x'(1) refl rest(1)]) (use "1.prems" x' in \<open>auto simp: still_to_read_def\<close>)
    then show ?thesis using rest(2) by simp
  next
    case False
    then have "next_constant pl r = Some x" "still_to_read r a j"
      using x "1.prems"(5) by (auto simp: next_weight_read_def)
    from next_constant_covers [OF this(1) "1.prems"(2) this(2)]
    obtain index' r' where x': "x = Some (index', r')" "index = index' \<or> still_to_read r' a j" by blast
    from "1.prems"(1) x x' obtain rest where rest: "all_reads pl r' = Some rest" "L = index' # rest"
      by (subst (asm) all_reads.simps) auto
    show ?thesis
    proof (cases "index = index'")
      case True
      then show ?thesis using rest(2) by simp
    next
      case False
      then have "index \<in> set rest"
        by (intro "1.IH" [OF x x'(1) refl rest(1)]) (use "1.prems" x' in \<open>auto simp: still_to_read_def\<close>)
      then show ?thesis using rest(2) by simp
    qed
  qed
qed

section \<open>What the pass establishes\<close>

definition attributes_sorted :: "tigris_plan \<Rightarrow> bool" where
  "attributes_sorted pl = (\<forall>a b x y. a < b \<and> b < unat (p_num_op_attributes pl) \<and>
     plan_op_attribute pl a = Some x \<and> plan_op_attribute pl b = Some y \<longrightarrow> oa_op_index x \<le> oa_op_index y)"

text \<open>The weights an operator reads: its weight, its bias and its constants.\<close>

definition op_reads_weight :: "tigris_plan \<Rightarrow> nat \<Rightarrow> u16 \<Rightarrow> bool" where
  "op_reads_weight pl k index =
     ((\<exists>oper. plan_op pl k = Some oper \<and> (index = op_weight_idx oper \<or> index = op_bias_idx oper)) \<or>
      (\<exists>j list len. tigris_op_attribute_data pl (word_of_nat k) ATTR_CONSTANTS = Some (Some (list, len)) \<and>
         j * 2 + 2 \<le> unat len \<and> rd16 (p_buf pl) (list + j * 2) = Some index))"

definition stage_reads_weight :: "tigris_plan \<Rightarrow> nat \<Rightarrow> u16 \<Rightarrow> bool" where
  "stage_reads_weight pl s index =
     (\<exists>k. Some k \<in> set (stage_operators pl s) \<and> op_reads_weight pl k index)"

definition inside_block :: "tigris_plan \<Rightarrow> nat \<Rightarrow> u16 \<Rightarrow> bool" where
  "inside_block pl s index = (\<exists>c block w. plan_weight_block pl c = Some block \<and>
     unat (wb_stage_idx block) = s \<and> plan_weight_entry pl (unat index) = Some w \<and>
     unat (we_offset w) + unat (we_size_bytes w) \<le> unat (wb_uncompressed_size block))"

definition bytes_apart :: "weight_entry \<Rightarrow> weight_entry \<Rightarrow> bool" where
  "bytes_apart v w = (we_size_bytes v = 0 \<or> we_size_bytes w = 0 \<or>
     unat (we_offset v) + unat (we_size_bytes v) \<le> unat (we_offset w) \<or>
     unat (we_offset w) + unat (we_size_bytes w) \<le> unat (we_offset v))"

definition weights_apart :: "tigris_plan \<Rightarrow> u16 \<Rightarrow> u16 \<Rightarrow> bool" where
  "weights_apart pl i j = (\<forall>v w. plan_weight_entry pl (unat i) = Some v \<and>
     plan_weight_entry pl (unat j) = Some w \<longrightarrow> bytes_apart v w)"

lemma skip_attributesD:
  "skip_attributes pl bound c = Some d \<Longrightarrow> c \<le> d \<and>
     (\<forall>a x. c \<le> a \<and> a < d \<and> plan_op_attribute pl a = Some x \<longrightarrow> oa_op_index x < bound) \<and>
     (c \<le> unat (p_num_op_attributes pl) \<longrightarrow> d \<le> unat (p_num_op_attributes pl)) \<and>
     (d < unat (p_num_op_attributes pl) \<longrightarrow>
        (\<exists>x. plan_op_attribute pl d = Some x \<and> \<not> oa_op_index x < bound))"
proof (induction pl bound c rule: skip_attributes.induct)
  case (1 pl bound c)
  show ?case
  proof (cases "c < unat (p_num_op_attributes pl)")
    case True
    with "1.prems" obtain attr where attr: "plan_op_attribute pl c = Some attr"
      by (subst (asm) skip_attributes.simps) (auto simp: bind_eq_Some_conv)
    show ?thesis
    proof (cases "oa_op_index attr < bound")
      case lt: True
      with "1.prems" True attr have "skip_attributes pl bound (Suc c) = Some d"
        by (subst (asm) skip_attributes.simps) simp
      note IH = "1.IH" [OF True attr lt this]
      have "oa_op_index x < bound" if "c \<le> a" "a < d" "plan_op_attribute pl a = Some x" for a x
      proof (cases "a = c")
        case False
        then have "Suc c \<le> a" using that(1) by simp
        then show ?thesis using that IH by blast
      qed (use that lt attr in simp)
      with IH True show ?thesis by auto
    next
      case False
      with "1.prems" True attr show ?thesis by (subst (asm) skip_attributes.simps) auto
    qed
  next
    case False
    with "1.prems" show ?thesis by (subst (asm) skip_attributes.simps) auto
  qed
qed

text \<open>The checks on the list of reads.\<close>

lemma in_blockD:
  assumes "map_option Not (weight_in_block pl index block) = Some False" and "index \<noteq> NONE_U16"
    and "\<And>b. block = Some b \<Longrightarrow> \<exists>c. plan_weight_block pl c = Some b \<and> unat (wb_stage_idx b) = s"
  shows "inside_block pl s index"
  using assms by (cases block) (auto simp: weight_in_block_def inside_block_def bind_eq_Some_conv bounds_ok_iff)

lemma inside_block_add:
  assumes "inside_block pl s index" and "plan_weight_entry pl (unat index) = Some w"
  shows "unat (we_offset w + we_size_bytes w) = unat (we_offset w) + unat (we_size_bytes w)"
proof -
  from assms(1) obtain c block w' where "plan_weight_block pl c = Some block"
    "plan_weight_entry pl (unat index) = Some w'"
    "unat (we_offset w') + unat (we_size_bytes w') \<le> unat (wb_uncompressed_size block)"
    unfolding inside_block_def by blast
  then have "unat (we_offset w) + unat (we_size_bytes w) \<le> unat (wb_uncompressed_size block)"
    using assms(2) by simp
  then show ?thesis
    using unat_u32_less [of "wb_uncompressed_size block"] by (intro unat_add_u32) simp
qed

lemma overlaps_laterD:
  assumes later: "weight_overlaps_later pl r i = Some False" and L: "all_reads pl r = Some L"
    and j: "j \<in> set L" "j \<noteq> i" "i \<noteq> NONE_U16" "j \<noteq> NONE_U16"
    and inside: "inside_block pl s i" "inside_block pl s j"
  shows "weights_apart pl i j"
  unfolding weights_apart_def
proof (intro allI impI, elim conjE)
  fix v w assume v: "plan_weight_entry pl (unat i) = Some v" and w: "plan_weight_entry pl (unat j) = Some w"
  show "bytes_apart v w"
  proof (cases "we_size_bytes v = 0")
    case False
    then have "any_read pl (\<lambda>other _. overlaps pl i v other) r = Some False"
      using later j(3) v by (simp add: weight_overlaps_later_def)
    from any_readD [OF this] L obtain n where "n < length L" "L ! n = j" "overlaps pl i v j = Some False"
      using j(1) by (auto simp: in_set_conv_nth)
    then show ?thesis
      using w j inside_block_add [OF inside(1) v] inside_block_add [OF inside(2) w]
      by (auto simp: overlaps_def bytes_apart_def word_less_nat_alt not_less)
  qed (simp add: bytes_apart_def)
qed

lemma weights_apart_sym: "weights_apart pl i j \<Longrightarrow> weights_apart pl j i"
  by (auto simp: weights_apart_def bytes_apart_def)

lemma checked_reads:
  assumes inside: "any_read pl (\<lambda>index _. map_option Not (weight_in_block pl index block)) r = Some False"
    and shared: "any_read pl (\<lambda>index later. weight_overlaps_later pl later index) r = Some False"
    and block: "\<And>b. block = Some b \<Longrightarrow> \<exists>c. plan_weight_block pl c = Some b \<and> unat (wb_stage_idx b) = s"
  shows "\<exists>L. all_reads pl r = Some L \<and> (\<forall>i \<in> set L. i \<noteq> NONE_U16 \<longrightarrow> inside_block pl s i) \<and>
    (\<forall>i \<in> set L. \<forall>j \<in> set L. i \<noteq> j \<longrightarrow> i \<noteq> NONE_U16 \<longrightarrow> j \<noteq> NONE_U16 \<longrightarrow> weights_apart pl i j)"
proof -
  obtain L where L: "all_reads pl r = Some L"
    and each: "\<And>n. n < length L \<Longrightarrow> map_option Not (weight_in_block pl (L ! n) block) = Some False"
    using any_readD [OF inside] by blast
  have ins: "inside_block pl s i" if i: "i \<in> set L" "i \<noteq> NONE_U16" for i
  proof -
    obtain n where "n < length L" "L ! n = i" using i(1) by (meson in_set_conv_nth)
    then show ?thesis using in_blockD [OF _ i(2) block] each by blast
  qed
  have pair: "weights_apart pl (L ! m) (L ! n)"
    if mn: "m < n" "n < length L" "L ! m \<noteq> L ! n" "L ! m \<noteq> NONE_U16" "L ! n \<noteq> NONE_U16" for m n
  proof -
    have "m < length L" using mn by simp
    then obtain r' where r': "weight_overlaps_later pl r' (L ! m) = Some False"
      "all_reads pl r' = Some (drop (Suc m) L)"
      using any_readD [OF shared] L by auto
    have "drop (Suc m) L ! (n - Suc m) = L ! n" "n - Suc m < length (drop (Suc m) L)"
      using mn by auto
    then have "L ! n \<in> set (drop (Suc m) L)" by (metis nth_mem)
    then show ?thesis
      by (rule overlaps_laterD [OF r', where s = s]) (use mn ins in auto)
  qed
  have "weights_apart pl i j"
    if ij: "i \<in> set L" "j \<in> set L" "i \<noteq> j" "i \<noteq> NONE_U16" "j \<noteq> NONE_U16" for i j
  proof -
    obtain m n where "m < length L" "n < length L" "L ! m = i" "L ! n = j"
      using ij(1,2) by (meson in_set_conv_nth)
    then show ?thesis using pair [of m n] weights_apart_sym [OF pair [of n m]] ij
      by (cases m n rule: linorder_cases) auto
  qed
  then show ?thesis using L ins by blast
qed

text \<open>The reads of one stage: the attribute cursor stands before the records of its operators.\<close>

lemma stage_reads_cover:
  assumes reads: "stage_reads pl stage c = Some (c', r)" and L: "all_reads pl r = Some L"
    and sorted: "attributes_sorted pl" and st: "plan_stage pl s = Some stage"
    and ops: "stage_operators pl s = map Some [lo..<hi]" and hi: "lo \<le> hi" "hi < 65536"
    and before: "\<forall>a x. a < c \<and> plan_op_attribute pl a = Some x \<longrightarrow> unat (oa_op_index x) < lo"
  shows "(\<forall>index. stage_reads_weight pl s index \<longrightarrow> index \<in> set L) \<and>
    (\<forall>a x. a < c' \<and> plan_op_attribute pl a = Some x \<longrightarrow> unat (oa_op_index x) < hi)"
proof -
  let ?n = "unat (p_num_op_attributes pl)"
  have count: "unat (sg_ops_count stage) = hi - lo"
    using arg_cong [OF ops, of length] st by (simp add: stage_operators_def)
  show ?thesis
  proof (cases "lo = hi")
    case True
    then have zero: "sg_ops_count stage = 0" using count by (simp add: unat_eq_0)
    have none: "skip_attributes pl 0 d = Some e \<Longrightarrow> e = d" for d e
      using skip_attributesD [of pl 0 d e]
      by (subst (asm) skip_attributes.simps) (auto simp: bind_eq_Some_conv split: if_splits)
    have "c' = c" using reads zero none by (auto simp: stage_reads_def bind_eq_Some_conv)
    then show ?thesis using before True ops by (auto simp: stage_reads_weight_def)
  next
    case False
    then have pos: "lo < hi" using hi(1) by simp
    then have cnt: "sg_ops_count stage > 0" using count by (simp add: word_less_nat_alt)
    have "map_option unat (plan_index pl (unat (sg_ops_off stage))) = Some lo"
      using st pos arg_cong [OF ops, of "\<lambda>l. l ! 0"] count by (auto simp: stage_operators_def)
    then obtain first where first: "plan_index pl (unat (sg_ops_off stage)) = Some first" "unat first = lo"
      by auto
    have stop: "unat (first + sg_ops_count stage) = hi"
      using first(2) count hi unat_add_lem [of first "sg_ops_count stage"] by simp
    obtain start where start: "skip_attributes pl first c = Some start"
      and c': "skip_attributes pl (first + sg_ops_count stage) start = Some c'"
      and r: "r = \<lparr> rs_op = lo, rs_end_op = hi, rs_attr = start, rs_end_attr = c', rs_slot = 0 \<rparr>"
      using reads cnt first stop by (auto simp: stage_reads_def bind_eq_Some_conv Let_def)
    note d1 = skip_attributesD [OF start] and d2 = skip_attributesD [OF c']
    note passed1 = d1 [THEN conjunct2, THEN conjunct1, rule_format]
      and passed2 = d2 [THEN conjunct2, THEN conjunct1, rule_format]
    have below: "unat (oa_op_index x) < lo" if "a < start" "plan_op_attribute pl a = Some x" for a x
    proof (cases "a < c")
      case True
      then show ?thesis using before that(2) by blast
    next
      case False
      then have "oa_op_index x < first" using passed1 [of a x] that by simp
      then show ?thesis using first(2) by (simp add: word_less_nat_alt)
    qed
    have seen: "unat (oa_op_index x) < hi" if "a < c'" "plan_op_attribute pl a = Some x" for a x
    proof (cases "a < start")
      case True
      then show ?thesis using below that(2) pos by fastforce
    next
      case False
      then have "oa_op_index x < first + sg_ops_count stage" using passed2 [of a x] that by simp
      then show ?thesis using stop by (simp add: word_less_nat_alt)
    qed
    have "index \<in> set L" if "stage_reads_weight pl s index" for index
    proof -
      from that obtain k where k: "lo \<le> k" "k < hi" and read: "op_reads_weight pl k index"
        by (auto simp: stage_reads_weight_def ops)
      from read consider
          (operand) oper where "plan_op pl k = Some oper" "index = op_weight_idx oper \<or> index = op_bias_idx oper"
        | (const) j list len where
            "tigris_op_attribute_data pl (word_of_nat k) ATTR_CONSTANTS = Some (Some (list, len))"
            "j * 2 + 2 \<le> unat len" "rd16 (p_buf pl) (list + j * 2) = Some index"
        unfolding op_reads_weight_def by blast
      then show ?thesis
      proof cases
        case operand
        then show ?thesis using all_reads_ops [OF L, of k] k r by auto
      next
        case const
        then obtain data attr where data: "p_op_attribute_data pl = Some data"
          and attr: "find_attribute pl (word_of_nat k) ATTR_CONSTANTS 0 ?n = Some (Some attr)"
          and list: "list = data + unat (oa_data_offset attr)" "len = oa_data_len attr"
          by (auto simp: tigris_op_attribute_data_def bind_eq_Some_conv split: option.splits)
        from find_attribute_position [OF attr] obtain a where a: "a < ?n" "plan_op_attribute pl a = Some attr"
          "oa_op_index attr = word_of_nat k" "oa_type attr = ATTR_CONSTANTS" by auto
        have ka: "unat (oa_op_index attr) = k" using a(3) k hi by (simp add: unat_of_nat_u16)
        have "start \<le> a" using below [of a attr] a(2) ka k(1) by fastforce
        moreover have "a < c'"
        proof (rule ccontr)
          assume "\<not> a < c'"
          then have "c' < ?n" using a(1) by simp
          then obtain x where x: "plan_op_attribute pl c' = Some x"
            "\<not> oa_op_index x < first + sg_ops_count stage" using d2 by auto
          have "oa_op_index x \<le> oa_op_index attr"
            using sorted [unfolded attributes_sorted_def, rule_format, of c' a x attr] x(1) a \<open>\<not> a < c'\<close>
            by (cases "a = c'") auto
          then show False using x(2) ka k(2) stop by (simp add: word_less_nat_alt word_le_nat_alt)
        qed
        moreover have "lists_constant pl a j index"
          using a data const list by (auto simp: lists_constant_def)
        ultimately show ?thesis
          by (intro all_reads_constants [OF L]) (use r pos in \<open>auto simp: still_to_read_def\<close>)
      qed
    qed
    then show ?thesis using seen by blast
  qed
qed

definition stage_weights_ok :: "tigris_plan \<Rightarrow> nat \<Rightarrow> bool" where
  "stage_weights_ok pl s =
     (\<forall>i. stage_reads_weight pl s i \<longrightarrow> i \<noteq> NONE_U16 \<longrightarrow> inside_block pl s i \<and>
        (\<forall>j. stage_reads_weight pl s j \<longrightarrow> j \<noteq> NONE_U16 \<longrightarrow> i \<noteq> j \<longrightarrow> weights_apart pl i j))"

lemma check_stage_weightsD:
  assumes ok: "check_stage_weights pl s (bc, c) = Some (Inr (bc', c'))"
    and sorted: "attributes_sorted pl"
    and ops: "stage_operators pl s = map Some [lo..<hi]" and hi: "lo \<le> hi" "hi < 65536"
    and before: "\<forall>a x. a < c \<and> plan_op_attribute pl a = Some x \<longrightarrow> unat (oa_op_index x) < lo"
  shows "stage_weights_ok pl s \<and>
    (\<forall>a x. a < c' \<and> plan_op_attribute pl a = Some x \<longrightarrow> unat (oa_op_index x) < hi)"
proof -
  from ok obtain block stage r where b: "stage_block pl s bc = Some (bc', block)"
    and st: "plan_stage pl s = Some stage" and r: "stage_reads pl stage c = Some (c', r)"
    and inside: "any_read pl (\<lambda>index _. map_option Not (weight_in_block pl index block)) r = Some False"
    and shared: "any_read pl (\<lambda>index later. weight_overlaps_later pl later index) r = Some False"
    by (auto simp: check_stage_weights_def bind_eq_Some_conv split: if_splits)
  have "\<exists>c. plan_weight_block pl c = Some b' \<and> unat (wb_stage_idx b') = s" if "block = Some b'" for b'
    using b that by (auto simp: stage_block_def bind_eq_Some_conv split: if_splits)
  from checked_reads [OF inside shared this] obtain L where L: "all_reads pl r = Some L"
    "\<forall>i \<in> set L. i \<noteq> NONE_U16 \<longrightarrow> inside_block pl s i"
    "\<forall>i \<in> set L. \<forall>j \<in> set L. i \<noteq> j \<longrightarrow> i \<noteq> NONE_U16 \<longrightarrow> j \<noteq> NONE_U16 \<longrightarrow> weights_apart pl i j"
    by auto
  note cover = stage_reads_cover [OF r L(1) sorted st ops hi before]
  have "stage_weights_ok pl s"
    unfolding stage_weights_ok_def using cover L(2,3) by blast
  then show ?thesis using cover by blast
qed

lemma check_block_weightsD:
  assumes ok: "check_block_weights ls = Some (Inr ())" and blocks: "p_weight_blocks (ls_candidate ls) \<noteq> None"
    and sorted: "attributes_sorted (ls_candidate ls)" and m: "m < 65536"
    and part: "concat (map (stage_operators (ls_candidate ls)) [0..<unat (hd_num_stages (ls_hdr ls))])
      = map Some [0..<m]"
    and s: "s < unat (hd_num_stages (ls_hdr ls))"
  shows "stage_weights_ok (ls_candidate ls) s"
proof -
  let ?pl = "ls_candidate ls" and ?n = "unat (hd_num_stages (ls_hdr ls))"
  let ?N = "ops_before (stage_operators ?pl)"
  obtain t where loop: "for_range 0 ?n (check_stage_weights ?pl) (0, 0) = Some (Inr t)"
    using ok blocks by (auto simp: check_block_weights_def andthen_Inr)
  have "(\<forall>a x. a < snd t \<and> plan_op_attribute ?pl a = Some x \<longrightarrow> unat (oa_op_index x) < ?N ?n) \<and>
     (\<forall>s < ?n. stage_weights_ok ?pl s)"
  proof (rule for_range_invariant [OF loop, where I = "\<lambda>k t.
      (\<forall>a x. a < snd t \<and> plan_op_attribute ?pl a = Some x \<longrightarrow> unat (oa_op_index x) < ?N k) \<and>
      (\<forall>s < k. stage_weights_ok ?pl s)"])
    fix k t t' assume k: "k < ?n"
      and inv: "(\<forall>a x. a < snd t \<and> plan_op_attribute ?pl a = Some x \<longrightarrow> unat (oa_op_index x) < ?N k) \<and>
        (\<forall>s < k. stage_weights_ok ?pl s)"
      and step: "check_stage_weights ?pl k t = Some (Inr t')"
    note ops = ops_of_stage [OF part k]
    have le: "?N k \<le> ?N (Suc k)" "?N (Suc k) < 65536" using ops m by auto
    have split: "check_stage_weights ?pl k (fst t, snd t) = Some (Inr (fst t', snd t'))" using step by simp
    from check_stage_weightsD [OF split sorted conjunct1 [OF ops] le] inv
    show "(\<forall>a x. a < snd t' \<and> plan_op_attribute ?pl a = Some x \<longrightarrow> unat (oa_op_index x) < ?N (Suc k)) \<and>
        (\<forall>s < Suc k. stage_weights_ok ?pl s)"
      by (auto simp: less_Suc_eq)
  qed simp_all
  then show ?thesis using s by blast
qed

lemma stage_weights_accepted:
  assumes stages: "validate_stages ls = Some (Inr ls1)" and reads: "validate_weight_reads ls1 = Some (Inr ls2)"
    and blocks: "p_weight_blocks (ls_candidate ls) \<noteq> None" and sorted: "attributes_sorted (ls_candidate ls)"
    and s: "s < unat (hd_num_stages (ls_hdr ls))"
  shows "stage_weights_ok (ls_candidate ls) s"
proof -
  note d = validate_stagesD [OF stages]
  then have same: "ls_candidate ls1 = ls_candidate ls" "ls_hdr ls1 = ls_hdr ls"
    by (simp_all add: same_tables_def)
  have ok: "check_block_weights ls1 = Some (Inr ())"
    using reads by (auto simp: validate_weight_reads_def schedule_complete_def andthen_Inr split: if_splits)
  have "stage_weights_ok (ls_candidate ls1) s"
    by (rule check_block_weightsD [OF ok, where m = "unat (ls_next_scheduled_op ls1)"])
      (use blocks sorted s d same unat_u16_less in auto)
  then show ?thesis by (simp add: same)
qed

section \<open>Properties\<close>


text \<open>C29. Two different weights a stage reads share no byte of its block,
  unless one of them is empty.\<close>

theorem stage_reads_apart:
  assumes "validate_stages ls = Some (Inr ls1)" and "validate_weight_reads ls1 = Some (Inr ls2)"
    and "p_weight_blocks (ls_candidate ls) \<noteq> None" and "attributes_sorted (ls_candidate ls)"
    and "s < unat (hd_num_stages (ls_hdr ls))"
    and "stage_reads_weight (ls_candidate ls) s i" and "stage_reads_weight (ls_candidate ls) s j"
    and "i \<noteq> NONE_U16" and "j \<noteq> NONE_U16" and "i \<noteq> j"
    and "plan_weight_entry (ls_candidate ls) (unat i) = Some v"
    and "plan_weight_entry (ls_candidate ls) (unat j) = Some w"
  shows "bytes_apart v w"
proof -
  have "stage_weights_ok (ls_candidate ls) s" by (rule stage_weights_accepted [OF assms(1-5)])
  then have "weights_apart (ls_candidate ls) i j" using assms(6-10) by (auto simp: stage_weights_ok_def)
  then show ?thesis using assms(11,12) by (simp add: weights_apart_def)
qed

section \<open>A concrete plan\<close>

text \<open>One stage with one operator, whose weight and bias lie side by side in the stage's block.\<close>

definition weight_op :: tigris_op where
  "weight_op = \<lparr> op_name_str = 0, op_op_type = 1, op_num_inputs = 1, op_num_outputs = 1, op_stage = 0,
     op_inputs_off = 0, op_outputs_off = 0,
     op_spatial = \<lparr> sp_kernel_h = 1, sp_kernel_w = 1, sp_stride_h = 1, sp_stride_w = 1, sp_pad_top = 0,
       sp_pad_bottom = 0, sp_pad_left = 0, sp_pad_right = 0, sp_dilation_h = 1, sp_dilation_w = 1,
       sp_group = 1 \<rparr>,
     op_weight_idx = 0, op_bias_idx = 1, op_fused_act = 0, op_act_min = -128, op_act_max = 127,
     op_pad1 = 0 \<rparr>"

definition weight_stage :: tigris_stage where
  "weight_stage = (member_stage NONE_U16 0)\<lparr> sg_ops_count := 1, sg_chain_len := 0 \<rparr>"

definition entries_demo :: "weight_entry list" where
  "entries_demo = [\<lparr> we_name_str = 0, we_offset = 0, we_size_bytes = 8 \<rparr>,
     \<lparr> we_name_str = 0, we_offset = 8, we_size_bytes = 4 \<rparr>]"

definition block_demo :: weight_block where
  "block_demo = \<lparr> wb_stage_idx = 0, wb_first_weight_idx = 0, wb_num_weights = 2, wb_pad0 = 0,
     wb_blob_offset = 0, wb_compressed_size = 12, wb_uncompressed_size = 12 \<rparr>"

definition weight_plan :: tigris_plan where
  "weight_plan = (empty_plan (wr_tigris_op weight_op @ wr_tigris_stage weight_stage @
       concat (map wr_weight_entry entries_demo) @ wr_weight_block block_demo @ [0, 0]))
     \<lparr> p_ops := Some 0, p_stages := Some 38, p_weight_entries := Some 66, p_weight_blocks := Some 90,
       p_num_weight_blocks := 1, p_index_pool := Some 110 \<rparr>"

definition weight_demo :: load_state where
  "weight_demo = demo_loaded\<lparr> ls_candidate := weight_plan \<rparr>"

lemma demo_lengths:
  "length (wr_tigris_op weight_op) = 38" "length (wr_tigris_stage weight_stage) = 28"
  "length (concat (map wr_weight_entry entries_demo)) = 24" "length (wr_weight_block block_demo) = 20"
  using tigris_op_table.length_wr_record [of weight_op] tigris_stage_table.length_wr_record [of weight_stage]
    weight_entry_table.length_table [of entries_demo] weight_block_table.length_wr_record [of block_demo]
  by (simp_all add: weight_op_def entries_demo_def)

lemma demo_weight_reads:
  "plan_op weight_plan 0 = Some weight_op" "plan_stage weight_plan 0 = Some weight_stage"
  "plan_weight_entry weight_plan 0 = Some (entries_demo ! 0)"
  "plan_weight_entry weight_plan 1 = Some (entries_demo ! 1)"
  "plan_weight_block weight_plan 0 = Some block_demo" "plan_index weight_plan 0 = Some 0"
proof -
  let ?o = "wr_tigris_op weight_op" and ?s = "wr_tigris_stage weight_stage"
    and ?e = "concat (map wr_weight_entry entries_demo)" and ?b = "wr_weight_block block_demo"
  show "plan_op weight_plan 0 = Some weight_op"
    using tigris_op_table.rd_wr_record [where r = weight_op and xs = "[]" and ys = "?s @ ?e @ ?b @ [0, 0]"]
    by (simp add: plan_op_def weight_plan_def empty_plan_def weight_op_def)
  show "plan_stage weight_plan 0 = Some weight_stage"
    using tigris_stage_table.rd_wr_record [where r = weight_stage and xs = ?o and ys = "?e @ ?b @ [0, 0]"] demo_lengths
    by (simp add: plan_stage_def weight_plan_def empty_plan_def)
  have e: "plan_weight_entry weight_plan i = Some (entries_demo ! i)" if "i < 2" for i
    using weight_entry_table.table_roundtrip [where rs = entries_demo and i = i and xs = "?o @ ?s" and ys = "?b @ [0, 0]"] demo_lengths that
    by (simp add: plan_weight_entry_def weight_plan_def empty_plan_def entries_demo_def)
  show "plan_weight_entry weight_plan 0 = Some (entries_demo ! 0)"
    "plan_weight_entry weight_plan 1 = Some (entries_demo ! 1)" by (rule e, simp)+
  show "plan_weight_block weight_plan 0 = Some block_demo"
    using weight_block_table.rd_wr_record [where r = block_demo and xs = "?o @ ?s @ ?e" and ys = "[0, 0]"] demo_lengths
    by (simp add: plan_weight_block_def weight_plan_def empty_plan_def)
  show "plan_index weight_plan 0 = Some 0"
    using demo_lengths
    by (simp add: plan_index_def weight_plan_def empty_plan_def rd16_def rd8_def arr_get_def nth_append)
qed

lemma weight_demo_parts:
  "hd_num_stages (ls_hdr weight_demo) = 1" "hd_num_ops (ls_hdr weight_demo) = 1"
  "hd_version (ls_hdr weight_demo) = 12" "ls_index_count weight_demo = 8"
  "ls_required weight_demo = no_limits\<lparr> pl_tensors := 2 \<rparr>" "ls_candidate weight_demo = weight_plan"
  by (simp_all add: weight_demo_def demo_loaded_parts)

definition weight_scheduled :: load_state where
  "weight_scheduled = weight_demo\<lparr> ls_next_scheduled_op := 1 \<rparr>"

lemma weight_demo_stages: "validate_stages weight_demo = Some (Inr weight_scheduled)"
  by (simp add: validate_stages_def weight_demo_parts for_range_step validate_stage_table_def
      demo_weight_reads stage_spans_ok_def elements_ok_def word_cmp require_stage_def weight_stage_def
      member_stage_def note_requirement_def tigris_build_limits_def no_limits_def check_chain_def
      schedule_op_def schema_versions weight_op_def weight_scheduled_def)

lemma weight_plan_parts:
  "p_num_op_attributes weight_plan = 0" "p_num_weight_blocks weight_plan = 1"
  "p_weight_blocks weight_plan = Some 90" "p_op_attributes weight_plan = None"
  by (simp_all add: weight_plan_def empty_plan_def)

lemma weight_demo_reads: "validate_weight_reads weight_scheduled = Some (Inr weight_scheduled)"
proof -
  have e: "plan_weight_entry weight_plan 0 = Some \<lparr> we_name_str = 0, we_offset = 0, we_size_bytes = 8 \<rparr>"
    "plan_weight_entry weight_plan (Suc 0) = Some \<lparr> we_name_str = 0, we_offset = 8, we_size_bytes = 4 \<rparr>"
    using demo_weight_reads(3,4) by (simp_all add: entries_demo_def)
  have next0: "next_constant weight_plan r = Some None" if "rs_end_attr r = 0" for r
    using that by (subst next_constant.simps) simp
  have n: "next_weight_read weight_plan \<lparr> rs_op = 0, rs_end_op = 1, rs_attr = 0, rs_end_attr = 0, rs_slot = 0 \<rparr>
      = Some (Some (0, \<lparr> rs_op = 0, rs_end_op = 1, rs_attr = 0, rs_end_attr = 0, rs_slot = 1 \<rparr>))"
    "next_weight_read weight_plan \<lparr> rs_op = 0, rs_end_op = 1, rs_attr = 0, rs_end_attr = 0, rs_slot = 1 \<rparr>
      = Some (Some (1, \<lparr> rs_op = 1, rs_end_op = 1, rs_attr = 0, rs_end_attr = 0, rs_slot = 0 \<rparr>))"
    "next_weight_read weight_plan \<lparr> rs_op = 1, rs_end_op = 1, rs_attr = 0, rs_end_attr = 0, rs_slot = 0 \<rparr>
      = Some None"
    by (simp_all add: next_weight_read_def demo_weight_reads next0) (simp_all add: weight_op_def)
  have any: "any_read weight_plan test \<lparr> rs_op = 0, rs_end_op = 1, rs_attr = 0, rs_end_attr = 0, rs_slot = 0 \<rparr>
     = do { a \<leftarrow> test 0 \<lparr> rs_op = 0, rs_end_op = 1, rs_attr = 0, rs_end_attr = 0, rs_slot = 1 \<rparr>;
            if a then Some True else do {
              b \<leftarrow> test 1 \<lparr> rs_op = 1, rs_end_op = 1, rs_attr = 0, rs_end_attr = 0, rs_slot = 0 \<rparr>;
              if b then Some True else Some False } }" for test
    by (subst any_read.simps, simp only: n bind.bind_lunit option.case prod.case, subst any_read.simps,
        simp only: n bind.bind_lunit option.case prod.case, subst any_read.simps,
        simp only: n bind.bind_lunit option.case)
  have any1: "any_read weight_plan test \<lparr> rs_op = 0, rs_end_op = 1, rs_attr = 0, rs_end_attr = 0, rs_slot = 1 \<rparr>
     = do { b \<leftarrow> test 1 \<lparr> rs_op = 1, rs_end_op = 1, rs_attr = 0, rs_end_attr = 0, rs_slot = 0 \<rparr>;
            if b then Some True else Some False }" for test
    by (subst any_read.simps, simp only: n bind.bind_lunit option.case prod.case, subst any_read.simps,
        simp only: n bind.bind_lunit option.case)
  have any2: "any_read weight_plan test \<lparr> rs_op = 1, rs_end_op = 1, rs_attr = 0, rs_end_attr = 0, rs_slot = 0 \<rparr>
     = Some False" for test
    by (subst any_read.simps, simp only: n bind.bind_lunit option.case)
  have skip: "skip_attributes weight_plan bound 0 = Some 0" for bound
    by (subst skip_attributes.simps) (simp add: weight_plan_parts)
  have stage: "stage_reads weight_plan weight_stage 0 =
      Some (0, \<lparr> rs_op = 0, rs_end_op = 1, rs_attr = 0, rs_end_attr = 0, rs_slot = 0 \<rparr>)"
    by (simp add: stage_reads_def weight_stage_def member_stage_def demo_weight_reads skip)
  have "check_stage_weights weight_plan 0 (0, 0) = Some (Inr (1, 0))"
    by (simp add: check_stage_weights_def stage_block_def weight_plan_parts demo_weight_reads(1,2,5,6)
        stage any [unfolded One_nat_def] weight_in_block_def e weight_overlaps_later_def any1 [unfolded One_nat_def]
        any2 [unfolded One_nat_def] overlaps_def bounds_ok_def word_cmp)
      (simp add: block_demo_def word_cmp)
  then show ?thesis
    by (simp add: validate_weight_reads_def schedule_complete_def weight_scheduled_def weight_demo_parts
        check_block_weights_def weight_plan_parts for_range_step)
qed

lemma weight_demo_facts:
  "attributes_sorted weight_plan" "stage_reads_weight weight_plan 0 0" "stage_reads_weight weight_plan 0 1"
proof -
  have "stage_operators weight_plan 0 = [Some 0]"
    by (simp add: stage_operators_def demo_weight_reads weight_stage_def member_stage_def)
  moreover have "op_reads_weight weight_plan 0 0" "op_reads_weight weight_plan 0 1"
    by (simp_all add: op_reads_weight_def demo_weight_reads weight_op_def)
  ultimately show "stage_reads_weight weight_plan 0 0" "stage_reads_weight weight_plan 0 1"
    by (auto simp: stage_reads_weight_def)
qed (simp add: attributes_sorted_def weight_plan_parts)


lemma stage_reads_apart_witness:
  "bytes_apart (entries_demo ! 0) (entries_demo ! 1)"
  using stage_reads_apart [OF weight_demo_stages weight_demo_reads, of 0 0 1] weight_demo_facts
  by (simp add: weight_demo_parts weight_plan_parts demo_weight_reads [simplified])

end
