(* ===== verification/Subgraphs.thy ===== *)
theory Subgraphs
  imports Loader_Sections
begin

text \<open>
  Control flow in the plan loader: \<open>validate_subgraphs\<close> of \<open>src/tigris_loader.c\<close> and its helpers.
  A plan's graphs are consecutive ranges of stages, the main graph first; an If or a While runs
  other graphs.

  What is shown, of a plan the checks accept: every stage lies in exactly one graph, the one
  \<open>graph_of_stage\<close> returns; no tensor is used by two graphs; an operator runs only graphs
  placed after its own; and the depth walk, an unbounded loop that keeps no stack, ends.
\<close>

abbreviation (input) OP_IF :: u8 where "OP_IF \<equiv> 87"
abbreviation (input) OP_WHILE :: u8 where "OP_WHILE \<equiv> 88"
abbreviation (input) ATTR_CONSTANTS :: u8 where "ATTR_CONSTANTS \<equiv> 14"
abbreviation (input) ATTR_SUBGRAPHS :: u8 where "ATTR_SUBGRAPHS \<equiv> 17"
abbreviation (input) MAX_SUBGRAPHS :: u32 where "MAX_SUBGRAPHS \<equiv> 16"
abbreviation (input) MAX_SUBGRAPH_DEPTH :: u32 where "MAX_SUBGRAPH_DEPTH \<equiv> 4"

section \<open>Graphs and stages\<close>

definition graph_first :: "tigris_plan \<Rightarrow> nat \<Rightarrow> nat option" where
  "graph_first pl g = map_option (\<lambda>r. unat (gr_first_stage r)) (plan_subgraph pl g)"

fun graph_search :: "tigris_plan \<Rightarrow> nat \<Rightarrow> nat \<Rightarrow> nat \<Rightarrow> nat option" where
  "graph_search pl s g 0 = Some 0"
| "graph_search pl s g (Suc n) = do {
     graph \<leftarrow> plan_subgraph pl g;
     if s \<ge> unat (gr_first_stage graph) \<and> s - unat (gr_first_stage graph) < unat (gr_num_stages graph)
     then Some g else graph_search pl s (Suc g) n }"

definition graph_of_stage :: "tigris_plan \<Rightarrow> nat \<Rightarrow> nat option" where
  "graph_of_stage pl s = graph_search pl s 1 (unat (p_num_subgraphs pl) - 1)"

text \<open>The range of tensor indices \<open>[lo, hi]\<close> widened by one index.\<close>

definition cover :: "u16 \<Rightarrow> u16 \<times> u16 \<Rightarrow> u16 \<times> u16" where
  "cover t r = (if t < fst r then t else fst r, if t > snd r then t else snd r)"

definition above_limit :: "u32 \<Rightarrow> u32 \<Rightarrow> bool" where
  "above_limit seen limit = (seen > limit)"

definition cover_op :: "tigris_plan \<Rightarrow> tigris_stage \<Rightarrow> nat \<Rightarrow> u16 \<times> u16 \<Rightarrow> (u16 \<times> u16) option" where
  "cover_op pl stage k r = do {
     op_index \<leftarrow> tigris_stage_ops pl stage k;
     oper \<leftarrow> plan_op pl (unat op_index);
     r \<leftarrow> loop 0 (unat (op_num_inputs oper)) (\<lambda>i r. map_option (\<lambda>t. cover t r) (tigris_op_inputs pl oper i)) r;
     loop 0 (unat (op_num_outputs oper)) (\<lambda>i r. map_option (\<lambda>t. cover t r) (tigris_op_outputs pl oper i)) r }"

definition cover_stage :: "tigris_plan \<Rightarrow> nat \<Rightarrow> u16 \<times> u16 \<Rightarrow> (u16 \<times> u16) option" where
  "cover_stage pl s r = do {
     stage \<leftarrow> plan_stage pl s;
     loop 0 (unat (sg_ops_count stage)) (cover_op pl stage) r }"

definition cover_state :: "tigris_plan \<Rightarrow> nat \<Rightarrow> u16 \<times> u16 \<Rightarrow> (u16 \<times> u16) option" where
  "cover_state pl i r = do {
     entry \<leftarrow> plan_state_entry pl i;
     let r = cover (st_input entry) r;
     Some (if st_output entry \<noteq> NONE_U16 then cover (st_output entry) r else r) }"

definition graph_tensor_range :: "tigris_plan \<Rightarrow> nat \<Rightarrow> (u16 \<times> u16) option" where
  "graph_tensor_range pl g = do {
     graph \<leftarrow> plan_subgraph pl g;
     r \<leftarrow> loop (unat (gr_first_stage graph)) (unat (gr_num_stages graph)) (cover_stage pl) (NONE_U16, 0);
     r \<leftarrow> loop 0 (unat (gr_inputs_count graph))
            (\<lambda>i r. map_option (\<lambda>t. cover t r) (plan_index pl (unat (gr_inputs_off graph) + i))) r;
     r \<leftarrow> loop 0 (unat (gr_outputs_count graph))
            (\<lambda>i r. map_option (\<lambda>t. cover t r) (plan_index pl (unat (gr_outputs_off graph) + i))) r;
     (if g = 0 then loop 0 (unat (p_num_state pl)) (cover_state pl) r else Some r) }"

section \<open>The graphs an operator runs\<close>

definition named_graph :: "tigris_plan \<Rightarrow> nat \<Rightarrow> nat \<Rightarrow> u16 option" where
  "named_graph pl runs slot = rd16 (p_buf pl) (runs + 2 * slot)"

definition subgraphs_record :: "tigris_plan \<Rightarrow> nat \<Rightarrow> nat option option" where
  "subgraphs_record pl i = do {
     attr \<leftarrow> plan_op_attribute pl i;
     if oa_type attr = ATTR_SUBGRAPHS
     then do { d \<leftarrow> p_op_attribute_data pl; Some (Some (d + unat (oa_data_offset attr))) }
     else Some None }"

text \<open>The graph run at position \<open>p = 2 * stage + slot\<close>, 0 when there is none.\<close>

definition graph_run_at :: "tigris_plan \<Rightarrow> nat \<Rightarrow> nat option" where
  "graph_run_at pl p = do {
     stage \<leftarrow> plan_stage pl (p div 2);
     if sg_ops_count stage \<noteq> 1 then Some 0
     else do {
       op_index \<leftarrow> tigris_stage_ops pl stage 0;
       oper \<leftarrow> plan_op pl (unat op_index);
       if op_op_type oper \<noteq> OP_IF \<and> op_op_type oper \<noteq> OP_WHILE then Some 0
       else do {
         data \<leftarrow> tigris_op_attribute_data pl op_index ATTR_SUBGRAPHS;
         (runs, len) \<leftarrow> data;
         g \<leftarrow> named_graph pl runs (p mod 2);
         Some (unat g) } } }"

text \<open>The stage of the operator that runs graph \<open>g\<close>: the operator of the last attribute record
  that names \<open>g\<close>, then the nearest stage before \<open>g\<close> that holds it alone.\<close>

definition runner_record :: "tigris_plan \<Rightarrow> nat \<Rightarrow> nat \<Rightarrow> u16 \<Rightarrow> u16 option" where
  "runner_record pl g i runner = do {
     r \<leftarrow> subgraphs_record pl i;
     (case r of
        None \<Rightarrow> Some runner
      | Some runs \<Rightarrow> do {
          a \<leftarrow> named_graph pl runs 0;
          b \<leftarrow> (if unat a = g then Some a else named_graph pl runs 1);
          if unat a = g \<or> unat b = g then do { attr \<leftarrow> plan_op_attribute pl i; Some (oa_op_index attr) }
          else Some runner }) }"

fun runner_search :: "tigris_plan \<Rightarrow> u16 \<Rightarrow> nat \<Rightarrow> nat option" where
  "runner_search pl runner 0 = Some 0"
| "runner_search pl runner (Suc s) = do {
     stage \<leftarrow> plan_stage pl s;
     hit \<leftarrow> (if sg_ops_count stage = 1 then map_option (\<lambda>k. k = runner) (tigris_stage_ops pl stage 0)
            else Some False);
     if hit then Some s else runner_search pl runner s }"

definition runner_stage :: "tigris_plan \<Rightarrow> nat \<Rightarrow> nat option" where
  "runner_stage pl g = do {
     runner \<leftarrow> loop 0 (unat (p_num_op_attributes pl)) (runner_record pl g) 0;
     first \<leftarrow> graph_first pl g;
     runner_search pl runner first }"

section \<open>The depth walk\<close>

text \<open>\<open>while (p < end && child == 0) child = graph_run_at(plan, p++)\<close>.\<close>

function next_child :: "tigris_plan \<Rightarrow> nat \<Rightarrow> nat \<Rightarrow> (nat \<times> nat) option" where
  "next_child pl p stop =
     (if p < stop then do {
        child \<leftarrow> graph_run_at pl p;
        if child = 0 then next_child pl (Suc p) stop else Some (child, Suc p) }
      else Some (0, p))"
  by pat_completeness auto
termination by (relation "measure (\<lambda>(pl, p, stop). stop - p)") auto

declare next_child.simps [simp del]

text \<open>The loop's variables: depth, deepest, graph and position.\<close>

type_synonym walk = "u32 \<times> u32 \<times> nat \<times> nat"

definition walk_step :: "tigris_plan \<Rightarrow> walk \<Rightarrow> (u32 + walk) option" where
  "walk_step pl w = (case w of (depth, deepest, graph, p) \<Rightarrow> do {
     running \<leftarrow> plan_subgraph pl graph;
     let stop = 2 * (unat (gr_first_stage running) + unat (gr_num_stages running));
     (child, p) \<leftarrow> next_child pl p stop;
     if child \<noteq> 0 then do {
       let depth = depth + 1;
       first \<leftarrow> graph_first pl child;
       Some (Inr (depth, if depth > deepest then depth else deepest, child, 2 * first)) }
     else if graph = 0 then Some (Inl deepest)
     else do {
       s \<leftarrow> runner_stage pl graph;
       second \<leftarrow> graph_run_at pl (2 * s + 1);
       g \<leftarrow> graph_of_stage pl s;
       Some (Inr (depth - 1, deepest, g, 2 * s + (if second = graph then 2 else 1))) } })"

partial_function (option) depth_walk :: "tigris_plan \<Rightarrow> walk \<Rightarrow> u32 option" where
  "depth_walk pl w = do {
     r \<leftarrow> walk_step pl w;
     (case r of Inl deepest \<Rightarrow> Some deepest | Inr w' \<Rightarrow> depth_walk pl w') }"

definition subgraph_depth :: "tigris_plan \<Rightarrow> u32 option" where
  "subgraph_depth pl = depth_walk pl (0, 0, 0, 0)"

section \<open>Operands of control flow\<close>

fun shapes_equal_from :: "tigris_plan \<Rightarrow> tigris_tensor \<Rightarrow> tigris_tensor \<Rightarrow> nat \<Rightarrow> nat \<Rightarrow> bool option" where
  "shapes_equal_from pl a b i 0 = Some True"
| "shapes_equal_from pl a b i (Suc n) = do {
     x \<leftarrow> tigris_tensor_shape pl a i;
     y \<leftarrow> tigris_tensor_shape pl b i;
     if x \<noteq> y then Some False else shapes_equal_from pl a b (Suc i) n }"

definition tigris_tensor_shapes_equal :: "tigris_plan \<Rightarrow> tigris_tensor \<Rightarrow> tigris_tensor \<Rightarrow> bool option" where
  "tigris_tensor_shapes_equal pl a b =
     (if tn_ndim a \<noteq> tn_ndim b then Some False else shapes_equal_from pl a b 0 (unat (tn_ndim a)))"

definition tensor_linear :: "tigris_tensor \<Rightarrow> bool" where
  "tensor_linear t = (unat (tn_flags t) div 8 mod 2 = 1)"

definition same_tensor_form :: "tigris_plan \<Rightarrow> u16 \<Rightarrow> u16 \<Rightarrow> bool option" where
  "same_tensor_form pl a b = do {
     x \<leftarrow> plan_tensor pl (unat a);
     y \<leftarrow> plan_tensor pl (unat b);
     if tn_dtype x = tn_dtype y \<and> tn_size_bytes x = tn_size_bytes y then do {
       eq \<leftarrow> tigris_tensor_shapes_equal pl x y;
       Some (eq \<and> (tn_ndim x < 3 \<or> tensor_linear x = tensor_linear y)) }
     else Some False }"

definition weight_size_is :: "tigris_plan \<Rightarrow> u16 \<Rightarrow> u64 \<Rightarrow> bool option" where
  "weight_size_is pl index expected =
     (if index = NONE_U16 \<or> p_weight_entries pl = None \<or> expected > 0xFFFFFFFF then Some False
      else do { w \<leftarrow> plan_weight_entry pl (unat index); Some (we_size_bytes w = ucast expected) })"

definition constant_index :: "tigris_plan \<Rightarrow> u16 \<Rightarrow> u8 \<Rightarrow> u16 option" where
  "constant_index pl op_index k = do {
     r \<leftarrow> tigris_op_attribute_data pl op_index ATTR_CONSTANTS;
     (case r of
        None \<Rightarrow> Some NONE_U16
      | Some (list, len) \<Rightarrow>
          if unat k * 2 + 2 > unat len then Some NONE_U16 else rd16 (p_buf pl) (list + unat k * 2)) }"

text \<open>The checks below are C functions or blocks with early returns: a refused condition is
  \<open>fail\<close> with the block's error.\<close>

definition check :: "tigris_error \<Rightarrow> bool option \<Rightarrow> (tigris_error + unit) option" where
  "check e m = do { c \<leftarrow> m; if c then ret () else fail e }"

definition same_form :: "tigris_plan \<Rightarrow> u16 option \<Rightarrow> u16 option \<Rightarrow> (tigris_error + unit) option" where
  "same_form pl a b = do { x \<leftarrow> a; y \<leftarrow> b; check ERR_BAD_OPERATOR (same_tensor_form pl x y) }"

definition while_variable ::
  "tigris_plan \<Rightarrow> tigris_op \<Rightarrow> u16 \<Rightarrow> bool \<Rightarrow> subgraph \<Rightarrow> subgraph \<Rightarrow> nat \<Rightarrow> nat \<Rightarrow> (tigris_error + nat) option" where
  "while_variable pl oper op_index listed c b i next_input = do {
     weight \<leftarrow> (if listed then constant_index pl op_index (of_nat i) else Some NONE_U16);
     andthen
       (if weight = NONE_U16 then
          (if next_input \<ge> unat (op_num_inputs oper) then fail ERR_BAD_OPERATOR
           else andthen (same_form pl (tigris_op_inputs pl oper next_input) (tigris_op_outputs pl oper i))
                  (\<lambda>_. ret (Suc next_input)))
        else do {
          out \<leftarrow> tigris_op_outputs pl oper i;
          t \<leftarrow> plan_tensor pl (unat out);
          andthen (check ERR_BAD_OPERATOR (weight_size_is pl weight (ucast (tn_size_bytes t))))
            (\<lambda>_. ret next_input) })
       (\<lambda>next_input.
         andthen (same_form pl (tigris_op_outputs pl oper i) (plan_index pl (unat (gr_inputs_off c) + i))) (\<lambda>_.
         andthen (same_form pl (tigris_op_outputs pl oper i) (plan_index pl (unat (gr_inputs_off b) + i))) (\<lambda>_.
         andthen (same_form pl (tigris_op_outputs pl oper i) (plan_index pl (unat (gr_outputs_off b) + i))) (\<lambda>_.
           ret next_input)))) }"

definition while_graphs_valid ::
  "tigris_plan \<Rightarrow> tigris_op \<Rightarrow> u16 \<Rightarrow> nat \<Rightarrow> nat \<Rightarrow> (tigris_error + unit) option" where
  "while_graphs_valid pl oper op_index graphs container = do {
     condition \<leftarrow> named_graph pl graphs 0;
     body \<leftarrow> named_graph pl graphs 1;
     if condition = 0 \<or> body = 0 \<or> condition = body \<or> unat condition \<le> container \<or>
        unat body \<le> container \<or> condition \<ge> p_num_subgraphs pl \<or> body \<ge> p_num_subgraphs pl
     then fail ERR_BAD_OPERATOR
     else do {
       list \<leftarrow> tigris_op_attribute_data pl op_index ATTR_CONSTANTS;
       let variables = op_num_outputs oper;
       if (case list of None \<Rightarrow> False
           | Some (d, len) \<Rightarrow> unat len \<noteq> 2 * unat variables \<or> p_num_weight_blocks pl \<noteq> 0)
       then fail ERR_BAD_OPERATOR
       else do {
         c \<leftarrow> plan_subgraph pl (unat condition);
         b \<leftarrow> plan_subgraph pl (unat body);
         if gr_inputs_count c \<noteq> ucast variables \<or> gr_outputs_count c \<noteq> 1 \<or>
            gr_inputs_count b \<noteq> ucast variables \<or> gr_outputs_count b \<noteq> ucast variables
         then fail ERR_BAD_OPERATOR
         else do {
           v \<leftarrow> plan_index pl (unat (gr_outputs_off c));
           verdict \<leftarrow> plan_tensor pl (unat v);
           if tn_dtype verdict \<noteq> 9 \<or> tn_size_bytes verdict \<noteq> 1 then fail ERR_BAD_OPERATOR
           else andthen (for_range 0 (unat variables)
                           (while_variable pl oper op_index (list \<noteq> None) c b) 0)
                  (\<lambda>next_input. if next_input = unat (op_num_inputs oper) then ret ()
                                else fail ERR_BAD_OPERATOR) } } } }"

section \<open>The checks\<close>

text \<open>A plan without subgraphs has no control flow.\<close>

definition check_no_control :: "tigris_plan \<Rightarrow> nat \<Rightarrow> (tigris_error + unit) option" where
  "check_no_control pl n = do {
     oper \<leftarrow> plan_op pl n;
     if op_op_type oper = OP_IF \<or> op_op_type oper = OP_WHILE then fail ERR_BAD_OPERATOR else ret () }"

definition check_index :: "tigris_plan \<Rightarrow> file_header \<Rightarrow> nat \<Rightarrow> (tigris_error + unit) option" where
  "check_index pl hdr k = do {
     t \<leftarrow> plan_index pl k; if t \<ge> hd_num_tensors hdr then fail ERR_BAD_SECTION else ret () }"

text \<open>One graph record: it starts where the one before ended.\<close>

definition check_graph ::
  "tigris_plan \<Rightarrow> file_header \<Rightarrow> u32 \<Rightarrow> nat \<Rightarrow> nat \<Rightarrow> (tigris_error + nat) option" where
  "check_graph pl hdr index_count g next_stage = do {
     graph \<leftarrow> plan_subgraph pl g;
     if unat (gr_first_stage graph) \<noteq> next_stage \<or> (g > 0 \<and> gr_num_stages graph = 0) \<or>
        \<not> elements_ok (ucast (gr_inputs_off graph)) (ucast (gr_inputs_count graph)) index_count \<or>
        \<not> elements_ok (ucast (gr_outputs_off graph)) (ucast (gr_outputs_count graph)) index_count
     then fail ERR_BAD_SECTION
     else
       andthen (for_check (unat (gr_inputs_count graph))
                  (\<lambda>i. check_index pl hdr (unat (gr_inputs_off graph) + i))) (\<lambda>_.
       andthen (for_check (unat (gr_outputs_count graph))
                  (\<lambda>i. check_index pl hdr (unat (gr_outputs_off graph) + i))) (\<lambda>_.
         ret (next_stage + unat (gr_num_stages graph)))) }"

text \<open>\<open>memcmp\<close> of two runs of 16-bit indices.\<close>

definition indices_equal :: "(nat \<Rightarrow> u16 option) \<Rightarrow> (nat \<Rightarrow> u16 option) \<Rightarrow> nat \<Rightarrow> (tigris_error + unit) option" where
  "indices_equal f g n = for_check n (\<lambda>i. do {
     x \<leftarrow> f i; y \<leftarrow> g i; if x \<noteq> y then fail ERR_BAD_SECTION else ret () })"

definition check_main_graph ::
  "tigris_plan \<Rightarrow> file_header \<Rightarrow> nat \<Rightarrow> (tigris_error + unit) option" where
  "check_main_graph pl hdr next_stage = do {
     main \<leftarrow> plan_subgraph pl 0;
     if next_stage \<noteq> unat (hd_num_stages hdr) \<or> gr_inputs_count main \<noteq> ucast (hd_num_model_inputs hdr) \<or>
        gr_outputs_count main \<noteq> ucast (hd_num_model_outputs hdr)
     then fail ERR_BAD_SECTION
     else
       andthen (indices_equal (\<lambda>i. plan_index pl (unat (gr_inputs_off main) + i))
                  (\<lambda>i. do { t \<leftarrow> p_model_inputs pl; rd16 (p_buf pl) (t + i * 2) })
                  (unat (gr_inputs_count main)))
         (\<lambda>_. indices_equal (\<lambda>i. plan_index pl (unat (gr_outputs_off main) + i))
                (\<lambda>i. do { t \<leftarrow> p_model_outputs pl; rd16 (p_buf pl) (t + i * 2) })
                (unat (gr_outputs_count main))) }"

definition check_chain_graph :: "tigris_plan \<Rightarrow> nat \<Rightarrow> (tigris_error + unit) option" where
  "check_chain_graph pl s = do {
     stage \<leftarrow> plan_stage pl s;
     if sg_chain_len stage \<ge> 2 \<and> unat (sg_chain_id stage) = s then do {
       a \<leftarrow> graph_of_stage pl s;
       b \<leftarrow> graph_of_stage pl (unat (of_nat s + sg_chain_len stage - 1 :: u16));
       if a \<noteq> b then fail ERR_BAD_SECTION else ret () }
     else ret () }"

definition check_range_pair :: "tigris_plan \<Rightarrow> u16 \<times> u16 \<Rightarrow> nat \<Rightarrow> (tigris_error + unit) option" where
  "check_range_pair pl r h = do {
     q \<leftarrow> graph_tensor_range pl h;
     if fst r \<le> snd r \<and> fst q \<le> snd q \<and> fst r \<le> snd q \<and> fst q \<le> snd r
     then fail ERR_BAD_TENSOR else ret () }"

text \<open>A subgraph's tensors are not model inputs (2), outputs (4) or state (16).\<close>

definition check_inner_tensor :: "tigris_plan \<Rightarrow> nat \<Rightarrow> (tigris_error + unit) option" where
  "check_inner_tensor pl t = do {
     x \<leftarrow> plan_tensor pl t;
     let flags = unat (tn_flags x);
     if flags div 2 mod 2 = 1 \<or> flags div 4 mod 2 = 1 \<or> flags div 16 mod 2 = 1
     then fail ERR_BAD_TENSOR else ret () }"

definition check_ranges :: "tigris_plan \<Rightarrow> nat \<Rightarrow> (tigris_error + unit) option" where
  "check_ranges pl g = do {
     r \<leftarrow> graph_tensor_range pl g;
     andthen (for_range (Suc g) (unat (p_num_subgraphs pl)) (\<lambda>h _. check_range_pair pl r h) ())
       (\<lambda>_. if g > 0 then for_range (unat (fst r)) (Suc (unat (snd r))) (\<lambda>t _. check_inner_tensor pl t) ()
            else ret ()) }"

text \<open>A branch of an If: its graph exists and takes and gives the operator's operands.\<close>

definition check_branch ::
  "tigris_plan \<Rightarrow> tigris_op \<Rightarrow> nat \<Rightarrow> nat \<Rightarrow> (tigris_error + unit) option" where
  "check_branch pl oper branches b = do {
     g \<leftarrow> named_graph pl branches b;
     if g = 0 \<or> g \<ge> p_num_subgraphs pl then fail ERR_BAD_OPERATOR
     else do {
       graph \<leftarrow> plan_subgraph pl (unat g);
       if unat (gr_inputs_count graph) + 1 \<noteq> unat (op_num_inputs oper) \<or>
          gr_outputs_count graph \<noteq> ucast (op_num_outputs oper)
       then fail ERR_BAD_OPERATOR
       else
         andthen (for_range 1 (unat (op_num_inputs oper)) (\<lambda>i _.
                    same_form pl (tigris_op_inputs pl oper i)
                      (plan_index pl (unat (gr_inputs_off graph) + i - 1))) ())
           (\<lambda>_. for_check (unat (op_num_outputs oper)) (\<lambda>i.
                  same_form pl (tigris_op_outputs pl oper i)
                    (plan_index pl (unat (gr_outputs_off graph) + i)))) } }"

definition check_if ::
  "tigris_plan \<Rightarrow> tigris_op \<Rightarrow> nat \<Rightarrow> (tigris_error + unit) option" where
  "check_if pl oper branches = do {
     c \<leftarrow> tigris_op_inputs pl oper 0;
     condition \<leftarrow> plan_tensor pl (unat c);
     if tn_dtype condition \<noteq> 9 \<or> tn_size_bytes condition \<noteq> 1 then fail ERR_BAD_OPERATOR
     else for_check 2 (check_branch pl oper branches) }"

text \<open>A branch names a graph placed after the operator's own.\<close>

definition check_later ::
  "tigris_plan \<Rightarrow> nat \<Rightarrow> nat \<Rightarrow> nat \<Rightarrow> (tigris_error + unit) option" where
  "check_later pl branches container b = do {
     g \<leftarrow> named_graph pl branches b;
     if unat g \<le> container then fail ERR_BAD_OPERATOR else ret () }"

definition check_control_op ::
  "tigris_plan \<Rightarrow> nat \<Rightarrow> tigris_stage \<Rightarrow> nat \<Rightarrow> (tigris_error + unit) option" where
  "check_control_op pl s stage k = do {
     op_index \<leftarrow> tigris_stage_ops pl stage k;
     oper \<leftarrow> plan_op pl (unat op_index);
     if op_op_type oper \<noteq> OP_IF \<and> op_op_type oper \<noteq> OP_WHILE then ret ()
     else do {
       data \<leftarrow> tigris_op_attribute_data pl op_index ATTR_SUBGRAPHS;
       container \<leftarrow> graph_of_stage pl s;
       (case data of
          None \<Rightarrow> fail ERR_BAD_OPERATOR
        | Some (branches, len) \<Rightarrow>
            if sg_ops_count stage \<noteq> 1 \<or> sg_chain_len stage \<noteq> 0 \<or>
               sg_tile_plan_idx stage \<noteq> NONE_U16 \<or> len \<noteq> 4 \<or> op_num_inputs oper < 1
            then fail ERR_BAD_OPERATOR
            else andthen (for_check 2 (check_later pl branches container))
              (\<lambda>_. if op_op_type oper = OP_WHILE
                    then while_graphs_valid pl oper op_index branches container
                    else check_if pl oper branches)) } }"

definition check_control_stage :: "tigris_plan \<Rightarrow> nat \<Rightarrow> (tigris_error + unit) option" where
  "check_control_stage pl s = do {
     stage \<leftarrow> plan_stage pl s;
     for_check (unat (sg_ops_count stage)) (check_control_op pl s stage) }"

text \<open>No graph is named by two subgraphs records.\<close>

definition check_named_once :: "tigris_plan \<Rightarrow> nat \<Rightarrow> nat \<Rightarrow> nat \<Rightarrow> (tigris_error + unit) option" where
  "check_named_once pl runs other k = do {
     a \<leftarrow> named_graph pl runs (k div 2);
     b \<leftarrow> named_graph pl other (k mod 2);
     if a = b then fail ERR_BAD_OPERATOR else ret () }"

definition check_record_pair :: "tigris_plan \<Rightarrow> nat option \<Rightarrow> nat \<Rightarrow> (tigris_error + unit) option" where
  "check_record_pair pl runs j = (case runs of
      None \<Rightarrow> ret ()
    | Some r \<Rightarrow> do {
        other \<leftarrow> subgraphs_record pl j;
        (case other of None \<Rightarrow> ret () | Some d \<Rightarrow> for_check 4 (check_named_once pl r d)) })"

definition check_record :: "tigris_plan \<Rightarrow> nat \<Rightarrow> (tigris_error + unit) option" where
  "check_record pl i = do {
     runs \<leftarrow> subgraphs_record pl i;
     for_range (Suc i) (unat (p_num_op_attributes pl)) (\<lambda>j _. check_record_pair pl runs j) () }"

definition check_graphs ::
  "tigris_plan \<Rightarrow> file_header \<Rightarrow> u32 \<Rightarrow> (tigris_error + unit) option" where
  "check_graphs pl hdr index_count =
     (if above_limit (ucast (p_num_subgraphs pl)) MAX_SUBGRAPHS then fail ERR_BAD_SECTION
      else andthen (for_range 0 (unat (p_num_subgraphs pl)) (check_graph pl hdr index_count) 0)
             (check_main_graph pl hdr))"

definition check_control ::
  "tigris_plan \<Rightarrow> file_header \<Rightarrow> (tigris_error + unit) option" where
  "check_control pl hdr =
     andthen (for_check (unat (hd_num_stages hdr)) (check_chain_graph pl)) (\<lambda>_.
     andthen (for_check (unat (p_num_subgraphs pl)) (check_ranges pl)) (\<lambda>_.
     andthen (for_check (unat (hd_num_stages hdr)) (check_control_stage pl)) (\<lambda>_.
       for_check (unat (p_num_op_attributes pl)) (check_record pl))))"

text \<open>The result is \<open>*depth\<close>.\<close>

definition validate_subgraphs :: "tigris_plan \<Rightarrow> u32 \<Rightarrow> (tigris_error + u16) option" where
  "validate_subgraphs pl index_count = do {
     hdr \<leftarrow> p_header pl;
     if p_num_subgraphs pl = 0
     then andthen (for_check (unat (hd_num_ops hdr)) (check_no_control pl)) (\<lambda>_. ret 0)
     else
       andthen (check_graphs pl hdr index_count) (\<lambda>_.
       andthen (check_control pl hdr) (\<lambda>_. do {
         nesting \<leftarrow> subgraph_depth pl;
         if nesting > MAX_SUBGRAPH_DEPTH then fail ERR_BAD_OPERATOR else ret (ucast nesting) })) }"

end
