(* ===== verification/Subgraph_Depth.thy ===== *)
theory Subgraph_Depth
  imports Subgraphs Schedule
begin

text \<open>
  What \<open>validate_subgraphs\<close> (\<open>src/tigris_loader.c\<close>) establishes of the graphs of a plan: they
  partition the stages, they share no tensor, and the depth walk ends with the nesting depth a
  recursive definition gives.
\<close>

section \<open>The layout of the graphs\<close>

definition graph_stages :: "tigris_plan \<Rightarrow> nat \<Rightarrow> nat" where
  "graph_stages pl g = (case plan_subgraph pl g of None \<Rightarrow> 0 | Some r \<Rightarrow> unat (gr_num_stages r))"

fun stages_before :: "tigris_plan \<Rightarrow> nat \<Rightarrow> nat" where
  "stages_before pl 0 = 0"
| "stages_before pl (Suc g) = stages_before pl g + graph_stages pl g"

definition graph_ok :: "tigris_plan \<Rightarrow> nat \<Rightarrow> bool" where
  "graph_ok pl g = (\<exists>r. plan_subgraph pl g = Some r \<and> unat (gr_first_stage r) = stages_before pl g \<and>
     (0 < g \<longrightarrow> 0 < graph_stages pl g))"

abbreviation graph_count :: "tigris_plan \<Rightarrow> nat" where
  "graph_count pl \<equiv> unat (p_num_subgraphs pl)"

definition graphs_laid_out :: "tigris_plan \<Rightarrow> nat \<Rightarrow> bool" where
  "graphs_laid_out pl n = (0 < graph_count pl \<and> graph_count pl \<le> 16 \<and>
     (\<forall>g < graph_count pl. graph_ok pl g) \<and> stages_before pl (graph_count pl) = n)"

lemma check_graphD:
  assumes "check_graph pl hdr ic g t = Some (Inr t')" and "t = stages_before pl g"
  shows "t' = stages_before pl (Suc g) \<and> graph_ok pl g"
proof -
  from assms(1) obtain r where r: "plan_subgraph pl g = Some r" "unat (gr_first_stage r) = t"
    "\<not> (g > 0 \<and> gr_num_stages r = 0)" "t' = t + unat (gr_num_stages r)"
    by (auto simp: check_graph_def bind_eq_Some_conv andthen_Inr split: if_splits)
  then show ?thesis
    using assms(2) by (auto simp: graph_ok_def graph_stages_def unat_gt_0)
qed

lemma check_graphsD:
  assumes "check_graphs pl hdr ic = Some (Inr ())" and "p_num_subgraphs pl \<noteq> 0"
  shows "graphs_laid_out pl (unat (hd_num_stages hdr))"
proof -
  from assms(1) obtain t where lim: "graph_count pl \<le> 16"
    and loop: "for_range 0 (graph_count pl) (check_graph pl hdr ic) 0 = Some (Inr t)"
    and main: "check_main_graph pl hdr t = Some (Inr ())"
    by (auto simp: check_graphs_def above_limit_def andthen_Inr word_less_nat_alt not_less split: if_splits)
  have "t = stages_before pl (graph_count pl) \<and> (\<forall>g < graph_count pl. graph_ok pl g)"
    by (rule for_range_invariant [OF loop, where I = "\<lambda>k t. t = stages_before pl k \<and> (\<forall>g < k. graph_ok pl g)"])
      (auto simp del: stages_before.simps(2) simp: less_Suc_eq dest!: check_graphD)
  moreover have "t = unat (hd_num_stages hdr)"
    using main by (auto simp: check_main_graph_def bind_eq_Some_conv split: if_splits)
  moreover have "0 < graph_count pl" using assms(2) by (simp add: unat_gt_0)
  ultimately show ?thesis using lim by (simp add: graphs_laid_out_def)
qed

lemma stages_before_mono: "g \<le> h \<Longrightarrow> stages_before pl g \<le> stages_before pl h"
  by (induction h) (auto simp: le_Suc_eq)

definition in_graph :: "tigris_plan \<Rightarrow> nat \<Rightarrow> nat \<Rightarrow> bool" where
  "in_graph pl g s = (stages_before pl g \<le> s \<and> s < stages_before pl (Suc g))"

lemma in_graph_unique: "in_graph pl g s \<Longrightarrow> in_graph pl h s \<Longrightarrow> g = h"
proof (rule ccontr)
  assume gh: "in_graph pl g s" "in_graph pl h s" "g \<noteq> h"
  then have "Suc g \<le> h \<or> Suc h \<le> g" by auto
  then show False
    using gh(1,2) stages_before_mono [of "Suc g" h pl] stages_before_mono [of "Suc h" g pl]
    unfolding in_graph_def by fastforce
qed

text \<open>The search finds the graph whose range holds the stage.\<close>

lemma graph_search_exact:
  assumes ok: "\<forall>h < g + n. graph_ok pl h" and g: "0 < g" and s: "s < stages_before pl (g + n)"
  shows "\<exists>h. graph_search pl s g n = Some h \<and>
    (if stages_before pl g \<le> s then g \<le> h \<and> h < g + n \<and> in_graph pl h s else h = 0)"
  using assms
proof (induction n arbitrary: g)
  case (Suc n)
  have "graph_ok pl g" using Suc.prems(1) by simp
  then obtain r where r: "plan_subgraph pl g = Some r" "unat (gr_first_stage r) = stages_before pl g"
    by (auto simp: graph_ok_def)
  then have cnt: "graph_stages pl g = unat (gr_num_stages r)" by (simp add: graph_stages_def)
  have here: "s \<ge> unat (gr_first_stage r) \<and> s - unat (gr_first_stage r) < unat (gr_num_stages r) \<longleftrightarrow> in_graph pl g s"
    using r(2) cnt by (auto simp: in_graph_def)
  show ?case
  proof (cases "in_graph pl g s")
    case True
    then show ?thesis using r here by (auto simp: in_graph_def)
  next
    case False
    have "\<exists>h. graph_search pl s (Suc g) n = Some h \<and>
        (if stages_before pl (Suc g) \<le> s then Suc g \<le> h \<and> h < Suc g + n \<and> in_graph pl h s else h = 0)"
      by (rule Suc.IH) (use Suc.prems in \<open>auto simp del: stages_before.simps\<close>)
    moreover have "stages_before pl (Suc g) \<le> s \<longleftrightarrow> stages_before pl g \<le> s"
      using False stages_before_mono [of g "Suc g" pl] unfolding in_graph_def by fastforce
    ultimately show ?thesis
      using r(1) here False by (auto simp del: stages_before.simps)
  qed
qed simp

lemma graph_of_stage_exact:
  assumes "graphs_laid_out pl n" and "s < n"
  shows "\<exists>g < graph_count pl. graph_of_stage pl s = Some g \<and> in_graph pl g s"
proof -
  have "\<exists>h. graph_search pl s 1 (graph_count pl - 1) = Some h \<and>
    (if stages_before pl 1 \<le> s then 1 \<le> h \<and> h < 1 + (graph_count pl - 1) \<and> in_graph pl h s else h = 0)"
    by (rule graph_search_exact) (use assms in \<open>auto simp: graphs_laid_out_def\<close>)
  then obtain h where h: "graph_of_stage pl s = Some h"
    "if stages_before pl 1 \<le> s then 1 \<le> h \<and> h < 1 + (graph_count pl - 1) \<and> in_graph pl h s else h = 0"
    by (auto simp: graph_of_stage_def)
  have "0 < graph_count pl" using assms(1) by (simp add: graphs_laid_out_def)
  then show ?thesis
    using h by (cases "stages_before pl 1 \<le> s") (auto simp: in_graph_def)
qed

lemma graph_of_stage_in:
  "graphs_laid_out pl n \<Longrightarrow> s < n \<Longrightarrow> in_graph pl g s \<Longrightarrow> graph_of_stage pl s = Some g"
  using graph_of_stage_exact in_graph_unique by metis

lemma in_graph_bounds:
  "graphs_laid_out pl n \<Longrightarrow> in_graph pl g s \<Longrightarrow> g < graph_count pl \<Longrightarrow> s < n"
  using stages_before_mono [of "Suc g" "graph_count pl" pl] unfolding graphs_laid_out_def in_graph_def by fastforce

section \<open>The graphs a stage runs\<close>

text \<open>What the control checks say of one position: nothing runs there, or a later graph does, named
  by the operator's first subgraphs record.\<close>

definition names_graph :: "tigris_plan \<Rightarrow> nat \<Rightarrow> nat \<Rightarrow> nat \<Rightarrow> bool" where
  "names_graph pl a slot c = (\<exists>attr runs x. plan_op_attribute pl a = Some attr \<and>
     a < unat (p_num_op_attributes pl) \<and> subgraphs_record pl a = Some (Some runs) \<and>
     named_graph pl runs slot = Some x \<and> unat x = c)"

definition names_two :: "tigris_plan \<Rightarrow> nat \<Rightarrow> bool" where
  "names_two pl a = (\<exists>runs x y. subgraphs_record pl a = Some (Some runs) \<and>
     named_graph pl runs 0 = Some x \<and> named_graph pl runs 1 = Some y)"

definition runs_at :: "tigris_plan \<Rightarrow> nat \<Rightarrow> nat \<Rightarrow> bool" where
  "runs_at pl p c = (\<exists>stage op_index attr a container.
     plan_stage pl (p div 2) = Some stage \<and> sg_ops_count stage = 1 \<and>
     tigris_stage_ops pl stage 0 = Some op_index \<and> plan_op_attribute pl a = Some attr \<and>
     oa_op_index attr = op_index \<and> names_graph pl a (p mod 2) c \<and> names_two pl a \<and>
     graph_of_stage pl (p div 2) = Some container \<and> container < c \<and> c < graph_count pl)"

lemma control_graph_bound:
  assumes ok: "check_control_op pl s stage k = Some (Inr ())"
    and op: "tigris_stage_ops pl stage k = Some op_index" "plan_op pl (unat op_index) = Some oper"
    and ctl: "op_op_type oper = OP_IF \<or> op_op_type oper = OP_WHILE" and slot: "slot < 2"
  shows "\<exists>runs len container x. tigris_op_attribute_data pl op_index ATTR_SUBGRAPHS = Some (Some (runs, len)) \<and>
    graph_of_stage pl s = Some container \<and> named_graph pl runs slot = Some x \<and> container < unat x \<and>
    unat x < graph_count pl"
proof -
  from ok op ctl obtain runs len container where
    data: "tigris_op_attribute_data pl op_index ATTR_SUBGRAPHS = Some (Some (runs, len))"
      "graph_of_stage pl s = Some container"
    and later: "for_check 2 (check_later pl runs container) = Some (Inr ())"
    and rest: "(if op_op_type oper = OP_WHILE then while_graphs_valid pl oper op_index runs container
                else check_if pl oper runs) = Some (Inr ())"
    by (auto simp: check_control_op_def bind_eq_Some_conv andthen_Inr split: option.splits if_splits)
  from for_check_all [OF later slot] obtain x where x: "named_graph pl runs slot = Some x" "container < unat x"
    by (auto simp: check_later_def bind_eq_Some_conv not_le split: if_splits)
  have "unat x < graph_count pl"
  proof (cases "op_op_type oper = OP_WHILE")
    case True
    have "slot = 0 \<or> slot = 1" using slot by auto
    then show ?thesis
      using rest True x(1) by (auto simp: while_graphs_valid_def bind_eq_Some_conv word_less_nat_alt
          not_le split: if_splits)
  next
    case False
    then have "for_check 2 (check_branch pl oper runs) = Some (Inr ())"
      using rest by (auto simp: check_if_def bind_eq_Some_conv split: if_splits)
    from for_check_all [OF this slot] x(1) show ?thesis
      by (auto simp: check_branch_def bind_eq_Some_conv word_less_nat_alt not_le split: if_splits)
  qed
  with data x show ?thesis by blast
qed

lemma run_at_cases:
  assumes ok: "check_control_stage pl (p div 2) = Some (Inr ())"
  shows "\<exists>c. graph_run_at pl p = Some c \<and> (c \<noteq> 0 \<longrightarrow> runs_at pl p c)"
proof -
  from ok obtain stage where st: "plan_stage pl (p div 2) = Some stage"
    and ops: "for_check (unat (sg_ops_count stage)) (check_control_op pl (p div 2) stage) = Some (Inr ())"
    by (auto simp: check_control_stage_def bind_eq_Some_conv)
  show ?thesis
  proof (cases "sg_ops_count stage = 1")
    case False
    then show ?thesis using st by (simp add: graph_run_at_def)
  next
    case True
    then have c: "check_control_op pl (p div 2) stage 0 = Some (Inr ())"
      using for_check_all [OF ops] by simp
    then obtain op_index oper where op: "tigris_stage_ops pl stage 0 = Some op_index"
      "plan_op pl (unat op_index) = Some oper"
      by (auto simp: check_control_op_def bind_eq_Some_conv)
    show ?thesis
    proof (cases "op_op_type oper = OP_IF \<or> op_op_type oper = OP_WHILE")
      case False
      then show ?thesis using st op True by (simp add: graph_run_at_def)
    next
      case ctl: True
      from control_graph_bound [OF c op ctl, of "p mod 2"] obtain runs len container x where
        data: "tigris_op_attribute_data pl op_index ATTR_SUBGRAPHS = Some (Some (runs, len))"
        and x: "graph_of_stage pl (p div 2) = Some container" "named_graph pl runs (p mod 2) = Some x"
          "container < unat x" "unat x < graph_count pl" by auto
      obtain d attr where d: "p_op_attribute_data pl = Some d"
        and f: "find_attribute pl op_index ATTR_SUBGRAPHS 0 (unat (p_num_op_attributes pl)) = Some (Some attr)"
        and runs: "runs = d + unat (oa_data_offset attr)"
        using data by (auto simp: tigris_op_attribute_data_def bind_eq_Some_conv split: option.splits)
      from find_attribute_position [OF f] obtain a where a: "a < unat (p_num_op_attributes pl)"
        "plan_op_attribute pl a = Some attr" "oa_op_index attr = op_index" "oa_type attr = ATTR_SUBGRAPHS"
        by auto
      have "names_graph pl a (p mod 2) (unat x)"
        using a d runs x by (auto simp: names_graph_def subgraphs_record_def)
      moreover have "names_two pl a"
        using a d runs data control_graph_bound [OF c op ctl, of 0] control_graph_bound [OF c op ctl, of 1]
        by (auto simp: names_two_def subgraphs_record_def)
      ultimately have "runs_at pl p (unat x)"
        unfolding runs_at_def using st True op a x by blast
      moreover have "graph_run_at pl p = Some (unat x)"
        using st True op ctl data x by (auto simp: graph_run_at_def)
      ultimately show ?thesis by blast
    qed
  qed
qed

section \<open>The stage that runs a graph\<close>

definition records_once :: "tigris_plan \<Rightarrow> bool" where
  "records_once pl = (\<forall>i < unat (p_num_op_attributes pl). check_record pl i = Some (Inr ()))"

lemma record_pairD:
  assumes "records_once pl" and "i < j" and "j < unat (p_num_op_attributes pl)"
    and "subgraphs_record pl i = Some (Some r)"
  shows "\<exists>o'. subgraphs_record pl j = Some o' \<and> (\<forall>d. o' = Some d \<longrightarrow> (\<forall>k < 2. \<forall>l < 2. \<exists>x y.
     named_graph pl r k = Some x \<and> named_graph pl d l = Some y \<and> x \<noteq> y))"
proof -
  have "check_record pl i = Some (Inr ())"
    using assms(1-3) by (simp add: records_once_def)
  then have "for_range (Suc i) (unat (p_num_op_attributes pl)) (\<lambda>j _. check_record_pair pl (Some r) j) () = Some (Inr ())"
    using assms(4) by (simp add: check_record_def)
  then have pair: "check_record_pair pl (Some r) j = Some (Inr ())"
    by (rule for_range_check_all) (use assms in auto)
  then obtain o' where o': "subgraphs_record pl j = Some o'"
    by (auto simp: check_record_pair_def bind_eq_Some_conv)
  have "\<exists>x y. named_graph pl r k = Some x \<and> named_graph pl d l = Some y \<and> x \<noteq> y"
    if "o' = Some d" "k < 2" "l < 2" for d k l
  proof -
    have all: "for_check 4 (check_named_once pl r d) = Some (Inr ())"
      using pair o' that(1) by (simp add: check_record_pair_def)
    have "2 * k + l < 4" "(2 * k + l) div 2 = k" "(2 * k + l) mod 2 = l" using that by auto
    with for_check_all [OF all, of "2 * k + l"] show ?thesis
      by (auto simp: check_named_once_def bind_eq_Some_conv split: if_splits)
  qed
  then show ?thesis using o' by blast
qed

lemma subgraphs_record_defined:
  "records_once pl \<Longrightarrow> i < unat (p_num_op_attributes pl) \<Longrightarrow> \<exists>r. subgraphs_record pl i = Some r"
  by (auto simp: records_once_def check_record_def bind_eq_Some_conv)

text \<open>No record but \<open>a\<close> names the graph, so the scan ends with the operator of \<open>a\<close>.\<close>

lemma other_record:
  assumes once: "records_once pl" and a: "names_graph pl a slot c" "slot < 2"
    and i: "i < unat (p_num_op_attributes pl)" "i \<noteq> a"
  shows "runner_record pl c i r = Some r"
proof -
  from a obtain runs z where runs: "a < unat (p_num_op_attributes pl)" "subgraphs_record pl a = Some (Some runs)"
    "named_graph pl runs slot = Some z" "unat z = c" by (auto simp: names_graph_def)
  from subgraphs_record_defined [OF once i(1)] obtain o' where o': "subgraphs_record pl i = Some o'" ..
  have "\<exists>x. named_graph pl d l = Some x \<and> unat x \<noteq> c" if d: "o' = Some d" and l: "l < 2" for d l
  proof (cases "i < a")
    case True
    from record_pairD [OF once True runs(1)] o' d l a(2) runs(2,3)
    obtain x y where "named_graph pl d l = Some x" "named_graph pl runs slot = Some y" "x \<noteq> y" by fastforce
    then show ?thesis using runs(3,4) by (auto simp: word_unat_eq_iff)
  next
    case False
    then have "a < i" using i(2) by simp
    from record_pairD [OF once this i(1) runs(2)] o' d l a(2)
    obtain x y where "named_graph pl runs slot = Some x" "named_graph pl d l = Some y" "x \<noteq> y" by fastforce
    then show ?thesis using runs(3,4) by (auto simp: word_unat_eq_iff)
  qed
  from this [of _ 0] this [of _ 1] show ?thesis
    using o' by (cases o') (auto simp: runner_record_def)
qed

lemma own_record:
  assumes "names_graph pl a slot c" and "slot < 2" and "plan_op_attribute pl a = Some attr"
    and "names_two pl a"
  shows "runner_record pl c a r = Some (oa_op_index attr)"
proof -
  have "slot = 0 \<or> slot = 1" using assms(2) by auto
  then show ?thesis using assms by (auto simp: names_graph_def names_two_def runner_record_def)
qed

lemma loop_total:
  assumes "I i s" and "\<And>k t. i \<le> k \<Longrightarrow> k < i + n \<Longrightarrow> I k t \<Longrightarrow> \<exists>t'. f k t = Some t' \<and> I (Suc k) t'"
  shows "\<exists>t. loop i n f s = Some t \<and> I (i + n) t"
  using assms
proof (induction n arbitrary: i s)
  case (Suc n)
  obtain s' where s': "f i s = Some s'" "I (Suc i) s'" using Suc.prems(1) Suc.prems(2) [of i s] by auto
  have "\<exists>t. loop (Suc i) n f s' = Some t \<and> I (Suc i + n) t"
    by (rule Suc.IH [OF s'(2)]) (use Suc.prems(2) in auto)
  then show ?case using s'(1) by auto
qed simp

text \<open>The plan's control flow as the checks leave it: \<open>N\<close> stages whose operators are scheduled
  once, graphs laid out over them, and the checks of stages and records passed.\<close>

definition control_checked :: "tigris_plan \<Rightarrow> nat \<Rightarrow> bool" where
  "control_checked pl N = (graphs_laid_out pl N \<and> records_once pl \<and>
     (\<forall>s < N. check_control_stage pl s = Some (Inr ())) \<and>
     (\<exists>m. concat (map (stage_operators pl) [0..<N]) = map Some [0..<m]))"

lemma runner_search_exact:
  assumes once: "concat (map (stage_operators pl) [0..<N]) = map Some [0..<m]"
    and stages: "\<forall>s < N. check_control_stage pl s = Some (Inr ())"
    and st: "plan_stage pl s = Some stage" "sg_ops_count stage = 1" "tigris_stage_ops pl stage 0 = Some runner"
    and t: "s < t" "t \<le> N"
  shows "runner_search pl runner t = Some s"
  using t
proof (induction t)
  case (Suc t)
  have mem: "Some (unat k) \<in> set (stage_operators pl i)"
    if "plan_stage pl i = Some x" "sg_ops_count x = 1" "tigris_stage_ops pl x 0 = Some k" for i x k
    using that by (simp add: stage_operators_def tigris_stage_ops_def)
  show ?case
  proof (cases "t = s")
    case True
    then show ?thesis using st by simp
  next
    case False
    have "t < N" using Suc.prems(2) by simp
    then have ok: "check_control_stage pl t = Some (Inr ())" using stages by simp
    then obtain x where x: "plan_stage pl t = Some x"
      and ops: "for_check (unat (sg_ops_count x)) (check_control_op pl t x) = Some (Inr ())"
      by (auto simp: check_control_stage_def bind_eq_Some_conv)
    have "\<exists>k. tigris_stage_ops pl x 0 = Some k \<and> k \<noteq> runner" if one: "sg_ops_count x = 1"
    proof -
      obtain k where k: "tigris_stage_ops pl x 0 = Some k"
        using for_check_all [OF ops, of 0] one by (auto simp: check_control_op_def bind_eq_Some_conv)
      have "k \<noteq> runner"
        using schedule_unique [OF once \<open>t < N\<close>, of s "Some (unat k)"] mem [OF x one k] mem [OF st] False Suc.prems
        by auto
      then show ?thesis using k by blast
    qed
    then have "runner_search pl runner (Suc t) = runner_search pl runner t"
      using x by auto
    then show ?thesis using Suc False by simp
  qed
qed simp

lemma runner_stage_exact:
  assumes ok: "control_checked pl N" and c: "runs_at pl p c" and p: "p div 2 < N"
  shows "runner_stage pl c = Some (p div 2)"
proof -
  let ?s = "p div 2" and ?M = "unat (p_num_op_attributes pl)"
  from ok obtain m where laid: "graphs_laid_out pl N" and once: "records_once pl"
    and stages: "\<forall>s < N. check_control_stage pl s = Some (Inr ())"
    and sched: "concat (map (stage_operators pl) [0..<N]) = map Some [0..<m]"
    by (auto simp: control_checked_def)
  from c obtain stage op_index attr a container where st: "plan_stage pl ?s = Some stage"
    "sg_ops_count stage = 1" "tigris_stage_ops pl stage 0 = Some op_index"
    and attr: "plan_op_attribute pl a = Some attr" "oa_op_index attr = op_index"
    and names: "names_graph pl a (p mod 2) c" "names_two pl a"
    and g: "graph_of_stage pl ?s = Some container" "container < c" "c < graph_count pl"
    by (auto simp: runs_at_def)
  have a: "a < ?M" using names(1) by (auto simp: names_graph_def)
  have "\<exists>t. loop 0 ?M (runner_record pl c) 0 = Some t \<and> (a < 0 + ?M \<longrightarrow> t = op_index)"
  proof (rule loop_total [where I = "\<lambda>k t. a < k \<longrightarrow> t = op_index"])
    fix k t assume k: "k < 0 + ?M" and I: "a < k \<longrightarrow> t = op_index"
    show "\<exists>t'. runner_record pl c k t = Some t' \<and> (a < Suc k \<longrightarrow> t' = op_index)"
    proof (cases "k = a")
      case True
      then show ?thesis using own_record [OF names(1) _ attr(1) names(2)] attr(2) by simp
    next
      case False
      then show ?thesis using other_record [OF once names(1), of k t] k I by simp
    qed
  qed simp
  then have runner: "loop 0 ?M (runner_record pl c) 0 = Some op_index" using a by auto
  have "graph_ok pl c" using laid g(3) by (simp add: graphs_laid_out_def)
  then obtain first where first: "graph_first pl c = Some first" "first = stages_before pl c"
    by (auto simp: graph_ok_def graph_first_def)
  obtain h where "graph_of_stage pl ?s = Some h" "in_graph pl h ?s"
    using graph_of_stage_exact [OF laid p] by blast
  then have "?s < stages_before pl (Suc container)" using g(1) by (simp add: in_graph_def)
  then have lt: "?s < first"
    using stages_before_mono [of "Suc container" c pl] g(2) first(2) by simp
  have "first \<le> N"
    using stages_before_mono [of c "graph_count pl" pl] laid g(3) first(2) by (simp add: graphs_laid_out_def)
  from runner_search_exact [OF sched stages st lt this] runner first(1) show ?thesis
    by (simp add: runner_stage_def)
qed

section \<open>The depth walk\<close>

text \<open>The nesting depth below a position of a graph, by recursion over the graphs run from there.\<close>

function depth_below :: "tigris_plan \<Rightarrow> nat \<Rightarrow> nat \<Rightarrow> nat" where
  "depth_below pl g p =
     (if p < 2 * stages_before pl (Suc g) then
        (case graph_run_at pl p of
           None \<Rightarrow> depth_below pl g (Suc p)
         | Some c \<Rightarrow> if g < c \<and> c < graph_count pl
             then max (Suc (depth_below pl c (2 * stages_before pl c))) (depth_below pl g (Suc p))
             else depth_below pl g (Suc p))
      else 0)"
  by pat_completeness auto
termination
  by (relation "inv_image (less_than <*lex*> less_than)
      (\<lambda>(pl, g, p). (graph_count pl - g, 2 * stages_before pl (Suc g) - p))") auto

declare depth_below.simps [simp del]

definition nesting_depth :: "tigris_plan \<Rightarrow> nat" where
  "nesting_depth pl = depth_below pl 0 0"

lemma depth_below_le: "g < graph_count pl \<Longrightarrow> g + depth_below pl g p < graph_count pl"
proof (induction pl g p rule: depth_below.induct)
  case (1 pl g p)
  show ?case
  proof (cases "p < 2 * stages_before pl (Suc g)")
    case True
    then show ?thesis
      using 1 by (subst depth_below.simps) (auto split: option.splits simp del: stages_before.simps)
  next
    case False
    then show ?thesis using "1.prems" by (subst depth_below.simps) (simp del: stages_before.simps)
  qed
qed

text \<open>\<open>next_child\<close> stops at the first position that runs a graph.\<close>

lemma next_child_none:
  "next_child pl q q = Some (0, q)"
  by (subst next_child.simps) simp

lemma next_child_exact:
  assumes "\<And>i. p \<le> i \<Longrightarrow> i < stop \<Longrightarrow> \<exists>c. graph_run_at pl i = Some c" and "p \<le> stop"
  shows "(next_child pl p stop = Some (0, stop) \<and> (\<forall>i. p \<le> i \<and> i < stop \<longrightarrow> graph_run_at pl i = Some 0)) \<or>
    (\<exists>q c. p \<le> q \<and> q < stop \<and> graph_run_at pl q = Some c \<and> c \<noteq> 0 \<and>
       next_child pl p stop = Some (c, Suc q) \<and> (\<forall>i. p \<le> i \<and> i < q \<longrightarrow> graph_run_at pl i = Some 0))"
  using assms
proof (induction pl p stop rule: next_child.induct)
  case (1 pl p stop)
  show ?case
  proof (cases "p < stop")
    case False
    then have "p = stop" using "1.prems"(2) by simp
    then show ?thesis by (auto simp: next_child_none)
  next
    case True
    then obtain c where c: "graph_run_at pl p = Some c" using "1.prems"(1) [of p] by auto
    show ?thesis
    proof (cases "c = 0")
      case False
      then have "next_child pl p stop = Some (c, Suc p)" using True c by (subst next_child.simps) simp
      then show ?thesis using True c False by (intro disjI2 exI [of _ p] exI [of _ c]) auto
    next
      case zero: True
      have step: "next_child pl p stop = next_child pl (Suc p) stop"
        using True c zero by (subst next_child.simps) simp
      have ext: "(\<forall>i. p \<le> i \<and> i < b \<longrightarrow> graph_run_at pl i = Some 0)"
        if "\<forall>i. Suc p \<le> i \<and> i < b \<longrightarrow> graph_run_at pl i = Some 0" for b
      proof (intro allI impI)
        fix i assume "p \<le> i \<and> i < b"
        then show "graph_run_at pl i = Some 0" using that c zero by (cases "i = p") auto
      qed
      have "(next_child pl (Suc p) stop = Some (0, stop) \<and>
          (\<forall>i. Suc p \<le> i \<and> i < stop \<longrightarrow> graph_run_at pl i = Some 0)) \<or>
        (\<exists>q c. Suc p \<le> q \<and> q < stop \<and> graph_run_at pl q = Some c \<and> c \<noteq> 0 \<and>
           next_child pl (Suc p) stop = Some (c, Suc q) \<and>
           (\<forall>i. Suc p \<le> i \<and> i < q \<longrightarrow> graph_run_at pl i = Some 0))"
        by (rule "1.IH" [OF True c zero]) (use "1.prems" True in auto)
      then show ?thesis
        unfolding step using ext Suc_leD by blast
    qed
  qed
qed

lemma depth_below_skip:
  assumes "p \<le> q" and "q \<le> 2 * stages_before pl (Suc g)"
    and "\<forall>i. p \<le> i \<and> i < q \<longrightarrow> graph_run_at pl i = Some 0"
  shows "depth_below pl g p = depth_below pl g q"
  using assms
proof (induction "q - p" arbitrary: p)
  case (Suc n)
  then have less: "p < q" by simp
  then have "graph_run_at pl p = Some 0" using Suc.prems(3) by simp
  then have "depth_below pl g p = depth_below pl g (Suc p)"
    using less Suc.prems(2) by (subst depth_below.simps) (simp del: stages_before.simps)
  also have "\<dots> = depth_below pl g q"
    by (rule Suc.hyps(1)) (use Suc.hyps(2) Suc.prems less in auto)
  finally show ?case .
qed simp

lemma depth_below_end: "depth_below pl g (2 * stages_before pl (Suc g)) = 0"
  by (subst depth_below.simps) simp

lemma depth_below_child:
  assumes "q < 2 * stages_before pl (Suc g)" and "graph_run_at pl q = Some c" and "g < c" and "c < graph_count pl"
  shows "depth_below pl g q = max (Suc (depth_below pl c (2 * stages_before pl c))) (depth_below pl g (Suc q))"
  using assms by (subst depth_below.simps) (simp del: stages_before.simps)

lemma walk_step_up:
  assumes laid: "graphs_laid_out pl N" and g: "g < graph_count pl"
    and nxt: "next_child pl p (2 * stages_before pl (Suc g)) = Some (c, q)"
  shows "walk_step pl (d, m, g, p) =
    (if c \<noteq> 0 then map_option (\<lambda>first. Inr (d + 1, if d + 1 > m then d + 1 else m, c, 2 * first)) (graph_first pl c)
     else if g = 0 then Some (Inl m)
     else do { s \<leftarrow> runner_stage pl g; second \<leftarrow> graph_run_at pl (2 * s + 1); h \<leftarrow> graph_of_stage pl s;
               Some (Inr (d - 1, m, h, 2 * s + (if second = g then 2 else 1))) })"
proof -
  have "graph_ok pl g" using laid g by (simp add: graphs_laid_out_def)
  then obtain r where r: "plan_subgraph pl g = Some r" "unat (gr_first_stage r) + unat (gr_num_stages r) = stages_before pl (Suc g)"
    by (auto simp: graph_ok_def graph_stages_def)
  have nxt': "next_child pl p (2 * (unat (gr_first_stage r) + unat (gr_num_stages r))) = Some (c, q)"
    using nxt by (simp only: r(2))
  show ?thesis
    unfolding walk_step_def prod.case r(1) bind.bind_lunit Let_def nxt'
    by (cases "graph_first pl c") simp_all
qed

lemma depth_walk_step: "walk_step pl w = Some (Inr w') \<Longrightarrow> depth_walk pl w = depth_walk pl w'"
  by (subst depth_walk.simps) simp

text \<open>The walk over one graph from a position: it comes back to the end of the graph at the same
  depth, having raised \<open>deepest\<close> to what lies below.\<close>

lemma walk_graph:
  assumes ok: "control_checked pl N"
  shows "g < graph_count pl \<Longrightarrow> 2 * stages_before pl g \<le> p \<Longrightarrow> p \<le> 2 * stages_before pl (Suc g) \<Longrightarrow>
    unat d \<le> g \<Longrightarrow> d \<le> m \<Longrightarrow>
    \<exists>m'. depth_walk pl (d, m, g, p) = depth_walk pl (d, m', g, 2 * stages_before pl (Suc g)) \<and>
      d \<le> m' \<and> unat m' = max (unat m) (unat d + depth_below pl g p)"
proof (induction "(g, p)" arbitrary: g p d m rule: wf_induct_rule
    [OF wf_inv_image [where f = "\<lambda>(g, p). (graph_count pl - g, 2 * stages_before pl (Suc g) - p)",
      OF wf_lex_prod [OF wf_less_than wf_less_than]]])
  case 1
  note g = "1.prems"(1) and p = "1.prems"(2,3) and d = "1.prems"(4) and m = "1.prems"(5)
  let ?stop = "2 * stages_before pl (Suc g)"
  have laid: "graphs_laid_out pl N" and stages: "\<And>s. s < N \<Longrightarrow> check_control_stage pl s = Some (Inr ())"
    using ok by (auto simp: control_checked_def)
  have "stages_before pl (Suc g) \<le> N"
    using stages_before_mono [of "Suc g" "graph_count pl" pl] laid g by (simp add: graphs_laid_out_def del: stages_before.simps)
  then have inN: "i div 2 < N" if "i < ?stop" for i using that by linarith
  have run: "\<exists>c. graph_run_at pl i = Some c \<and> (c \<noteq> 0 \<longrightarrow> runs_at pl i c)" if "i < ?stop" for i
    using run_at_cases [OF stages [OF inN [OF that]]] .
  have count: "graph_count pl \<le> 16" using laid by (simp add: graphs_laid_out_def)
  have "(next_child pl p ?stop = Some (0, ?stop) \<and> (\<forall>i. p \<le> i \<and> i < ?stop \<longrightarrow> graph_run_at pl i = Some 0)) \<or>
    (\<exists>q c. p \<le> q \<and> q < ?stop \<and> graph_run_at pl q = Some c \<and> c \<noteq> 0 \<and>
       next_child pl p ?stop = Some (c, Suc q) \<and> (\<forall>i. p \<le> i \<and> i < q \<longrightarrow> graph_run_at pl i = Some 0))"
    by (rule next_child_exact) (use run p in blast)+
  then show ?case
  proof (elim disjE conjE exE)
    assume none: "next_child pl p ?stop = Some (0, ?stop)"
      and zero: "\<forall>i. p \<le> i \<and> i < ?stop \<longrightarrow> graph_run_at pl i = Some 0"
    have "walk_step pl (d, m, g, p) = walk_step pl (d, m, g, ?stop)"
      using walk_step_up [OF laid g none] walk_step_up [OF laid g next_child_none] by simp
    then have "depth_walk pl (d, m, g, p) = depth_walk pl (d, m, g, ?stop)"
      by (subst (1 2) depth_walk.simps) simp
    moreover have "depth_below pl g p = 0"
      using depth_below_skip [OF p(2) order.refl zero] depth_below_end by simp
    moreover have "unat d \<le> unat m" using m by (simp add: word_le_nat_alt)
    ultimately show ?thesis using m by (intro exI [of _ m]) (simp add: max_def)
  next
    fix q c assume q: "p \<le> q" "q < ?stop" and c: "graph_run_at pl q = Some c" "c \<noteq> 0"
      and child: "next_child pl p ?stop = Some (c, Suc q)"
      and zero: "\<forall>i. p \<le> i \<and> i < q \<longrightarrow> graph_run_at pl i = Some 0"
    have at: "runs_at pl q c" using run [OF q(2)] c by auto
    then obtain container where cont: "graph_of_stage pl (q div 2) = Some container" "container < c" "c < graph_count pl"
      by (auto simp: runs_at_def)
    have "in_graph pl g (q div 2)" using p q by (auto simp: in_graph_def)
    then have home: "graph_of_stage pl (q div 2) = Some g"
      by (rule graph_of_stage_in [OF laid inN [OF q(2)]])
    then have later: "g < c" using cont by simp
    have "graph_ok pl c" using laid cont(3) by (simp add: graphs_laid_out_def)
    then have first: "graph_first pl c = Some (stages_before pl c)" by (auto simp: graph_ok_def graph_first_def)
    have d1: "unat (d + 1) = unat d + 1" using d g count unat_add_lem [of d 1] by simp
    let ?m1 = "if d + 1 > m then d + 1 else m"
    have m1: "d + 1 \<le> ?m1" "unat ?m1 = max (unat m) (unat d + 1)"
      using d1 by (auto simp: word_less_nat_alt word_le_nat_alt)
    have enter: "depth_walk pl (d, m, g, p) = depth_walk pl (d + 1, ?m1, c, 2 * stages_before pl c)"
      by (rule depth_walk_step) (simp add: walk_step_up [OF laid g child] c(2) first)
    let ?low = "depth_below pl c (2 * stages_before pl c)"
    have "\<exists>m2. depth_walk pl (d + 1, ?m1, c, 2 * stages_before pl c)
        = depth_walk pl (d + 1, m2, c, 2 * stages_before pl (Suc c)) \<and> d + 1 \<le> m2 \<and>
      unat m2 = max (unat ?m1) (unat (d + 1) + ?low)"
    proof (rule "1.hyps" [OF _ cont(3) order.refl _ _ m1(1)])
      show "((c, 2 * stages_before pl c), (g, p)) \<in> inv_image (less_than <*lex*> less_than)
          (\<lambda>(g, p). (graph_count pl - g, 2 * stages_before pl (Suc g) - p))"
        using diff_less_mono2 [OF later, of "graph_count pl"] later cont(3) by simp
      show "unat (d + 1) \<le> c" using d d1 later by simp
    qed simp
    then obtain m2 where m2: "depth_walk pl (d + 1, ?m1, c, 2 * stages_before pl c)
        = depth_walk pl (d + 1, m2, c, 2 * stages_before pl (Suc c))" "d + 1 \<le> m2"
      "unat m2 = max (unat ?m1) (unat (d + 1) + ?low)" by blast
    let ?s = "q div 2"
    have runner: "runner_stage pl c = Some ?s"
      by (rule runner_stage_exact [OF ok at inN [OF q(2)]])
    have "?s < stages_before pl (Suc g)" using q(2) by linarith
    then have in_stop: "2 * ?s + 1 < ?stop" by linarith
    then obtain second where second: "graph_run_at pl (2 * ?s + 1) = Some second" using run by blast
    let ?p = "2 * ?s + (if second = c then 2 else 1)"
    have up: "depth_walk pl (d + 1, m2, c, 2 * stages_before pl (Suc c)) = depth_walk pl (d, m2, g, ?p)"
      by (rule depth_walk_step)
        (use second in \<open>simp add: walk_step_up [OF laid cont(3) next_child_none] c(2) runner home
          del: stages_before.simps\<close>)
    have odd: "q = 2 * ?s + 1 \<longrightarrow> second = c" using second c(1) by auto
    have range: "q < ?p" "?p \<le> ?stop" "2 * stages_before pl g \<le> ?p"
    proof -
      have "q = 2 * ?s \<or> q = 2 * ?s + 1" by linarith
      then show "q < ?p" using odd by auto
      show "?p \<le> ?stop" using in_stop by (cases "second = c") (simp_all del: stages_before.simps)
      show "2 * stages_before pl g \<le> ?p" using p(1) q(1) \<open>q < ?p\<close> by linarith
    qed
    have dm2: "d \<le> m2" using m2(2) d1 by (simp add: word_le_nat_alt)
    have IH: "\<exists>m'. depth_walk pl (d, m2, g, ?p) = depth_walk pl (d, m', g, ?stop) \<and>
        d \<le> m' \<and> unat m' = max (unat m2) (unat d + depth_below pl g ?p)"
    proof (rule "1.hyps" [OF _ g range(3,2) d dm2])
      show "((g, ?p), (g, p)) \<in> inv_image (less_than <*lex*> less_than)
          (\<lambda>(g, p). (graph_count pl - g, 2 * stages_before pl (Suc g) - p))"
        using range(1) q by (simp del: stages_before.simps)
    qed
    have below: "max (Suc ?low) (depth_below pl g ?p) = depth_below pl g p"
    proof -
      have skip: "depth_below pl g p = depth_below pl g q"
        by (rule depth_below_skip [OF q(1) less_imp_le [OF q(2)] zero])
      have here: "depth_below pl g q = max (Suc ?low) (depth_below pl g (Suc q))"
        by (rule depth_below_child [OF q(2) c(1) later cont(3)])
      show ?thesis
      proof (cases "?p = Suc q")
        case True
        then show ?thesis using skip here by simp
      next
        case False
        have q2: "q = 2 * ?s" and sec: "second = c"
          using False range(1) odd by (auto split: if_splits)
        have "depth_below pl g (Suc q) = max (Suc ?low) (depth_below pl g (Suc (Suc q)))"
          by (rule depth_below_child) (use q2 sec second later cont(3) in_stop in auto)
        moreover have "?p = Suc (Suc q)" using q2 sec by simp
        ultimately show ?thesis using skip here by simp
      qed
    qed
    show ?thesis
      using IH enter m2 up m1(2) d1 below by (auto simp: max_def split: if_splits)
  qed
qed

lemma subgraph_depth_exact:
  assumes "control_checked pl N"
  shows "\<exists>w. subgraph_depth pl = Some w \<and> unat w = nesting_depth pl"
proof -
  have laid: "graphs_laid_out pl N" using assms by (simp add: control_checked_def)
  then have zero: "0 < graph_count pl" by (simp add: graphs_laid_out_def)
  obtain m' where m': "depth_walk pl (0, 0, 0, 0) = depth_walk pl (0, m', 0, 2 * stages_before pl (Suc 0))"
    "unat m' = depth_below pl 0 0"
    using walk_graph [OF assms zero, of 0 0 0] by auto
  have "depth_walk pl (0, m', 0, 2 * stages_before pl (Suc 0)) = Some m'"
    by (subst depth_walk.simps) (simp add: walk_step_up [OF laid zero next_child_none] del: stages_before.simps)
  then show ?thesis using m' by (simp add: subgraph_depth_def nesting_depth_def)
qed

section \<open>The tensors of a graph\<close>

definition op_uses :: "tigris_plan \<Rightarrow> tigris_op \<Rightarrow> u16 \<Rightarrow> bool" where
  "op_uses pl oper t =
     ((\<exists>i < unat (op_num_inputs oper). tigris_op_inputs pl oper i = Some t) \<or>
      (\<exists>i < unat (op_num_outputs oper). tigris_op_outputs pl oper i = Some t))"

definition stage_uses :: "tigris_plan \<Rightarrow> nat \<Rightarrow> u16 \<Rightarrow> bool" where
  "stage_uses pl s t = (\<exists>stage k op_index oper. plan_stage pl s = Some stage \<and>
     k < unat (sg_ops_count stage) \<and> tigris_stage_ops pl stage k = Some op_index \<and>
     plan_op pl (unat op_index) = Some oper \<and> op_uses pl oper t)"

definition graph_uses :: "tigris_plan \<Rightarrow> nat \<Rightarrow> u16 \<Rightarrow> bool" where
  "graph_uses pl g t =
     ((\<exists>s. in_graph pl g s \<and> stage_uses pl s t) \<or>
      (\<exists>graph i. plan_subgraph pl g = Some graph \<and>
         (i < unat (gr_inputs_count graph) \<and> plan_index pl (unat (gr_inputs_off graph) + i) = Some t \<or>
          i < unat (gr_outputs_count graph) \<and> plan_index pl (unat (gr_outputs_off graph) + i) = Some t)))"

definition covers :: "u16 \<times> u16 \<Rightarrow> u16 \<Rightarrow> bool" where
  "covers r t = (fst r \<le> t \<and> t \<le> snd r)"

definition widens :: "u16 \<times> u16 \<Rightarrow> u16 \<times> u16 \<Rightarrow> bool" where
  "widens r r' = (\<forall>t. covers r t \<longrightarrow> covers r' t)"

lemma widens_refl [simp]: "widens r r"
  by (simp add: widens_def)

lemma widens_trans: "widens a b \<Longrightarrow> widens b c \<Longrightarrow> widens a c"
  by (simp add: widens_def)

lemma covers_widens: "covers r t \<Longrightarrow> widens r r' \<Longrightarrow> covers r' t"
  by (simp add: widens_def)

text \<open>The range starts empty, as \<open>(0xFFFF, 0)\<close>, so the first index sets both ends.\<close>

lemma covers_cover: "covers (cover t r) t"
  by (auto simp: cover_def covers_def not_less)

lemma cover_widens: "widens r (cover t r)"
  by (auto simp: cover_def covers_def widens_def not_less)

lemma loop_keeps:
  assumes "loop i n f r = Some r'" and "\<And>k a b. f k a = Some b \<Longrightarrow> P a \<Longrightarrow> P b" and "P r"
  shows "P r'"
  by (rule loop_invariant [OF assms(1), where I = "\<lambda>_. P"]) (auto intro: assms)

lemma loop_reaches:
  assumes "loop i n f r = Some r'" and "\<And>k a b. f k a = Some b \<Longrightarrow> P a \<Longrightarrow> P b"
    and "i \<le> k" "k < i + n" and "\<And>a b. f k a = Some b \<Longrightarrow> P b"
  shows "P r'"
proof -
  have "k < i + n \<longrightarrow> P r'"
    by (rule loop_invariant [OF assms(1), where I = "\<lambda>j b. k < j \<longrightarrow> P b"])
      (use assms(2,3,5) in \<open>auto simp: less_Suc_eq\<close>)
  then show ?thesis using assms(4) by simp
qed

lemma loop_widens:
  assumes "loop i n f r = Some r'" and "\<And>k a b. f k a = Some b \<Longrightarrow> widens a b"
  shows "widens r r'"
proof (rule loop_keeps [OF assms(1), where P = "widens r"])
  show "widens r b" if "f k a = Some b" "widens r a" for k a b
    by (rule widens_trans [OF that(2) assms(2) [OF that(1)]])
qed simp

lemma loop_covers:
  assumes "loop i n f r = Some r'" and "\<And>k a b. f k a = Some b \<Longrightarrow> widens a b"
    and "i \<le> k" "k < i + n" and "\<And>a b. f k a = Some b \<Longrightarrow> covers b t"
  shows "covers r' t"
proof (rule loop_reaches [OF assms(1) _ assms(3,4), where P = "\<lambda>r. covers r t"])
  show "covers b t" if "f j a = Some b" "covers a t" for j a b
    by (rule covers_widens [OF that(2) assms(2) [OF that(1)]])
qed (rule assms(5))

lemma index_loop:
  assumes "loop 0 n (\<lambda>i r. map_option (\<lambda>t. cover t r) (get i)) r = Some r'"
  shows "widens r r' \<and> (\<forall>i t. i < n \<and> get i = Some t \<longrightarrow> covers r' t)"
proof -
  have wid: "widens a b" if m: "map_option (\<lambda>t. cover t a) (get k) = Some b" for k a b
  proof -
    obtain z where "b = cover z a" using m by (metis map_option_eq_Some)
    then show ?thesis by (simp add: cover_widens)
  qed
  have "covers r' t" if i: "i < n" "get i = Some t" for i t
  proof (rule loop_covers [OF assms, where k = i])
    show "widens a b" if m: "map_option (\<lambda>t. cover t a) (get k) = Some b" for k a b
      by (rule wid [OF m])
    show "covers b t" if m: "map_option (\<lambda>t. cover t a) (get i) = Some b" for a b
      using m i(2) covers_cover [of t a] by simp
  qed (use i(1) in simp_all)
  moreover have "widens r r'" by (rule loop_widens [OF assms]) (rule wid)
  ultimately show ?thesis by blast
qed

lemma cover_opD:
  assumes "cover_op pl stage k r = Some r'"
  shows "widens r r' \<and> (\<forall>op_index oper t. tigris_stage_ops pl stage k = Some op_index \<and>
     plan_op pl (unat op_index) = Some oper \<and> op_uses pl oper t \<longrightarrow> covers r' t)"
proof -
  from assms obtain op_index oper r1 where o: "tigris_stage_ops pl stage k = Some op_index"
    "plan_op pl (unat op_index) = Some oper"
    and ins: "loop 0 (unat (op_num_inputs oper)) (\<lambda>i r. map_option (\<lambda>t. cover t r) (tigris_op_inputs pl oper i)) r = Some r1"
    and outs: "loop 0 (unat (op_num_outputs oper)) (\<lambda>i r. map_option (\<lambda>t. cover t r) (tigris_op_outputs pl oper i)) r1 = Some r'"
    by (auto simp: cover_op_def bind_eq_Some_conv)
  show ?thesis
    using o index_loop [OF ins] index_loop [OF outs]
    by (auto simp: op_uses_def intro: widens_trans covers_widens)
qed

lemma cover_stageD:
  assumes "cover_stage pl s r = Some r'"
  shows "widens r r' \<and> (\<forall>t. stage_uses pl s t \<longrightarrow> covers r' t)"
proof -
  from assms obtain stage where st: "plan_stage pl s = Some stage"
    and lp: "loop 0 (unat (sg_ops_count stage)) (cover_op pl stage) r = Some r'"
    by (auto simp: cover_stage_def bind_eq_Some_conv)
  have wid: "widens a b" if "cover_op pl stage k a = Some b" for k a b
    using cover_opD [OF that] by blast
  have "covers r' t" if uses: "stage_uses pl s t" for t
  proof -
    from uses st obtain k op_index oper where k: "k < unat (sg_ops_count stage)"
      "tigris_stage_ops pl stage k = Some op_index" "plan_op pl (unat op_index) = Some oper" "op_uses pl oper t"
      by (auto simp: stage_uses_def)
    show ?thesis
    proof (rule loop_covers [OF lp, where k = k])
      show "widens a b" if "cover_op pl stage i a = Some b" for i a b by (rule wid [OF that])
      show "covers b t" if "cover_op pl stage k a = Some b" for a b using cover_opD [OF that] k by blast
    qed (use k(1) in simp_all)
  qed
  moreover have "widens r r'" by (rule loop_widens [OF lp]) (rule wid)
  ultimately show ?thesis by blast
qed

lemma graph_tensor_rangeD:
  assumes r: "graph_tensor_range pl g = Some r" and ok: "graph_ok pl g" and uses: "graph_uses pl g t"
  shows "covers r t"
proof -
  from r obtain graph r1 r2 r3 where graph: "plan_subgraph pl g = Some graph"
    and stages: "loop (unat (gr_first_stage graph)) (unat (gr_num_stages graph)) (cover_stage pl) (NONE_U16, 0) = Some r1"
    and ins: "loop 0 (unat (gr_inputs_count graph))
            (\<lambda>i r. map_option (\<lambda>t. cover t r) (plan_index pl (unat (gr_inputs_off graph) + i))) r1 = Some r2"
    and outs: "loop 0 (unat (gr_outputs_count graph))
            (\<lambda>i r. map_option (\<lambda>t. cover t r) (plan_index pl (unat (gr_outputs_off graph) + i))) r2 = Some r3"
    and state: "(if g = 0 then loop 0 (unat (p_num_state pl)) (cover_state pl) r3 else Some r3) = Some r"
    by (auto simp: graph_tensor_range_def bind_eq_Some_conv)
  have wid: "widens a b" if "cover_stage pl k a = Some b" for k a b
    using cover_stageD [OF that] by blast
  have "widens a b" if "cover_state pl k a = Some b" for k a b
    using that by (auto simp: cover_state_def bind_eq_Some_conv Let_def split: if_splits
        intro: widens_trans cover_widens)
  then have last: "widens r3 r" using state loop_widens by (auto split: if_splits)
  note i = index_loop [OF ins] and o = index_loop [OF outs]
  from uses consider (stage) s where "in_graph pl g s" "stage_uses pl s t"
    | (index) i where "i < unat (gr_inputs_count graph) \<and> plan_index pl (unat (gr_inputs_off graph) + i) = Some t \<or>
          i < unat (gr_outputs_count graph) \<and> plan_index pl (unat (gr_outputs_off graph) + i) = Some t"
    using graph unfolding graph_uses_def by fastforce
  then show ?thesis
  proof cases
    case stage
    have "unat (gr_first_stage graph) \<le> s" "s < unat (gr_first_stage graph) + unat (gr_num_stages graph)"
      using stage(1) ok graph by (auto simp: in_graph_def graph_ok_def graph_stages_def)
    then have "covers r1 t"
    proof (rule loop_covers [OF stages, rotated])
      show "widens a b" if "cover_stage pl k a = Some b" for k a b by (rule wid [OF that])
      show "covers b t" if "cover_stage pl s a = Some b" for a b using cover_stageD [OF that] stage(2) by blast
    qed
    then show ?thesis using i o last by (meson covers_widens)
  next
    case index
    then show ?thesis using i o last by (meson covers_widens)
  qed
qed

lemma check_rangesD:
  assumes "check_ranges pl g = Some (Inr ())"
  shows "\<exists>r. graph_tensor_range pl g = Some r \<and> (\<forall>h. g < h \<and> h < graph_count pl \<longrightarrow>
      check_range_pair pl r h = Some (Inr ())) \<and>
    (0 < g \<longrightarrow> (\<forall>t. covers r t \<longrightarrow> check_inner_tensor pl (unat t) = Some (Inr ())))"
proof -
  from assms obtain r where r: "graph_tensor_range pl g = Some r"
    and pairs: "for_range (Suc g) (graph_count pl) (\<lambda>h _. check_range_pair pl r h) () = Some (Inr ())"
    and inner: "(if g > 0 then for_range (unat (fst r)) (Suc (unat (snd r))) (\<lambda>t _. check_inner_tensor pl t) ()
            else ret ()) = Some (Inr ())"
    by (auto simp: check_ranges_def bind_eq_Some_conv andthen_Inr)
  have "check_range_pair pl r h = Some (Inr ())" if "g < h \<and> h < graph_count pl" for h
    by (rule for_range_check_all [OF pairs]) (use that in auto)
  moreover have "check_inner_tensor pl (unat t) = Some (Inr ())" if "0 < g" "covers r t" for t
  proof -
    have "for_range (unat (fst r)) (Suc (unat (snd r))) (\<lambda>t _. check_inner_tensor pl t) () = Some (Inr ())"
      using inner that(1) by simp
    then show ?thesis
      by (rule for_range_check_all) (use that(2) in \<open>auto simp: covers_def word_le_nat_alt less_Suc_eq_le\<close>)
  qed
  ultimately show ?thesis using r by blast
qed

lemma graphs_share_nothing:
  assumes ranges: "\<forall>g < graph_count pl. check_ranges pl g = Some (Inr ())" and ok: "\<forall>g < graph_count pl. graph_ok pl g"
    and gh: "g < h" "h < graph_count pl" and uses: "graph_uses pl g t" "graph_uses pl h t"
  shows False
proof -
  from check_rangesD [of pl g] ranges gh obtain r where r: "graph_tensor_range pl g = Some r"
    "check_range_pair pl r h = Some (Inr ())" by auto
  then obtain q where q: "graph_tensor_range pl h = Some q"
    "\<not> (fst r \<le> snd r \<and> fst q \<le> snd q \<and> fst r \<le> snd q \<and> fst q \<le> snd r)"
    by (auto simp: check_range_pair_def bind_eq_Some_conv split: if_splits)
  have "covers r t" "covers q t"
    using graph_tensor_rangeD [OF r(1) _ uses(1)] graph_tensor_rangeD [OF q(1) _ uses(2)] ok gh by auto
  then show False using q(2) by (auto simp: covers_def)
qed

section \<open>What the checks establish\<close>

text \<open>The checks before the walk, in a plan with subgraphs whose stages passed.\<close>

definition graphs_accepted :: "load_state \<Rightarrow> bool" where
  "graphs_accepted ls = (p_num_subgraphs (ls_candidate ls) \<noteq> 0 \<and>
     check_graphs (ls_candidate ls) (ls_hdr ls) (ls_index_count ls) = Some (Inr ()) \<and>
     check_control (ls_candidate ls) (ls_hdr ls) = Some (Inr ()))"

lemma check_controlD:
  assumes "check_control pl hdr = Some (Inr ())"
  shows "(\<forall>s < unat (hd_num_stages hdr). check_chain_graph pl s = Some (Inr ()) \<and>
      check_control_stage pl s = Some (Inr ())) \<and>
    (\<forall>g < graph_count pl. check_ranges pl g = Some (Inr ())) \<and> records_once pl"
  using assms for_check_all by (auto simp: check_control_def andthen_Inr records_once_def)

lemma graphs_acceptedD:
  assumes "graphs_accepted ls"
  shows "graphs_laid_out (ls_candidate ls) (unat (hd_num_stages (ls_hdr ls)))"
    "\<And>g. g < graph_count (ls_candidate ls) \<Longrightarrow> graph_ok (ls_candidate ls) g"
    "\<forall>g < graph_count (ls_candidate ls). check_ranges (ls_candidate ls) g = Some (Inr ())"
proof -
  show laid: "graphs_laid_out (ls_candidate ls) (unat (hd_num_stages (ls_hdr ls)))"
    using assms check_graphsD by (auto simp: graphs_accepted_def)
  then show "\<And>g. g < graph_count (ls_candidate ls) \<Longrightarrow> graph_ok (ls_candidate ls) g"
    by (simp add: graphs_laid_out_def)
  show "\<forall>g < graph_count (ls_candidate ls). check_ranges (ls_candidate ls) g = Some (Inr ())"
    using assms check_controlD by (auto simp: graphs_accepted_def)
qed

lemma control_checkedI:
  assumes "graphs_accepted ls" and "validate_stages ls = Some (Inr ls')"
  shows "control_checked (ls_candidate ls) (unat (hd_num_stages (ls_hdr ls)))"
proof -
  have "records_once (ls_candidate ls)" "\<forall>s < unat (hd_num_stages (ls_hdr ls)).
      check_control_stage (ls_candidate ls) s = Some (Inr ())"
    using assms(1) check_controlD by (auto simp: graphs_accepted_def)
  then show ?thesis
    using graphs_acceptedD(1) [OF assms(1)] validate_stagesD [OF assms(2)]
    by (auto simp: control_checked_def)
qed

section \<open>A concrete plan\<close>

text \<open>Two stages: an If in the main graph, whose branches both run graph 1.\<close>

definition plain_op :: tigris_op where
  "plain_op = \<lparr> op_name_str = 0, op_op_type = 3, op_num_inputs = 1, op_num_outputs = 0, op_stage = 1,
     op_inputs_off = 3, op_outputs_off = 0,
     op_spatial = \<lparr> sp_kernel_h = 0, sp_kernel_w = 0, sp_stride_h = 0, sp_stride_w = 0, sp_pad_top = 0,
       sp_pad_bottom = 0, sp_pad_left = 0, sp_pad_right = 0, sp_dilation_h = 0, sp_dilation_w = 0,
       sp_group = 1 \<rparr>,
     op_weight_idx = NONE_U16, op_bias_idx = NONE_U16, op_fused_act = 0, op_act_min = -128,
     op_act_max = 127, op_pad1 = 0 \<rparr>"

definition if_op :: tigris_op where
  "if_op = plain_op\<lparr> op_op_type := OP_IF, op_stage := 0, op_inputs_off := 2 \<rparr>"

definition one_op_stage :: "u16 \<Rightarrow> tigris_stage" where
  "one_op_stage k = (member_stage NONE_U16 0)\<lparr> sg_ops_off := k, sg_ops_count := 1, sg_chain_len := 0 \<rparr>"

definition one_stage_graph :: "u16 \<Rightarrow> subgraph" where
  "one_stage_graph s = \<lparr> gr_first_stage = s, gr_num_stages = 1, gr_inputs_off = 0, gr_inputs_count = 0,
     gr_outputs_off = 0, gr_outputs_count = 0 \<rparr>"

definition runs_attribute :: op_attribute where
  "runs_attribute = \<lparr> oa_op_index = 0, oa_type = ATTR_SUBGRAPHS, oa_data_len = 4, oa_data_offset = 0 \<rparr>"

definition byte_tensor :: "u8 \<Rightarrow> tigris_tensor" where
  "byte_tensor dtype = \<lparr> tn_name_str = 0, tn_size_bytes = 1, tn_shape_off = 0, tn_ndim = 1, tn_dtype = dtype,
     tn_flags = 0, tn_quant_param_idx = NONE_U16, tn_iface_dtype = 0 \<rparr>"

definition if_ops :: "tigris_op list" where "if_ops = [if_op, plain_op]"
definition if_stages :: "tigris_stage list" where "if_stages = [one_op_stage 0, one_op_stage 1]"
definition if_graphs :: "subgraph list" where "if_graphs = [one_stage_graph 0, one_stage_graph 1]"
definition if_tensors :: "tigris_tensor list" where "if_tensors = [byte_tensor 9, byte_tensor 3]"

text \<open>The payload of the record, then the index pool.\<close>

definition if_words :: bytes where
  "if_words = [1, 0, 1, 0,  0, 0, 1, 0, 0, 0, 1, 0]"

definition if_plan :: tigris_plan where
  "if_plan = (empty_plan (concat (map wr_tigris_op if_ops) @ concat (map wr_tigris_stage if_stages) @
       concat (map wr_subgraph if_graphs) @ wr_op_attribute runs_attribute @
       concat (map wr_tigris_tensor if_tensors) @ if_words))
     \<lparr> p_ops := Some 0, p_stages := Some 76, p_subgraphs := Some 132, p_op_attributes := Some 156,
       p_tensors := Some 164, p_op_attribute_data := Some 196, p_index_pool := Some 200,
       p_num_subgraphs := 2, p_num_op_attributes := 1 \<rparr>"

definition if_header :: file_header where
  "if_header = demo_header\<lparr> hd_num_stages := 2, hd_num_ops := 2, hd_num_tensors := 2,
     hd_num_model_inputs := 0, hd_num_model_outputs := 0 \<rparr>"

definition if_demo :: load_state where
  "if_demo = demo_loaded\<lparr> ls_hdr := if_header, ls_candidate := if_plan \<rparr>"

lemma if_lengths:
  "length (concat (map wr_tigris_op if_ops)) = 76" "length (concat (map wr_tigris_stage if_stages)) = 56"
  "length (concat (map wr_subgraph if_graphs)) = 24" "length (wr_op_attribute runs_attribute) = 8"
  "length (concat (map wr_tigris_tensor if_tensors)) = 32"
  using tigris_op_table.length_table [of if_ops] tigris_stage_table.length_table [of if_stages]
    subgraph_table.length_table [of if_graphs] op_attribute_table.length_wr_record [of runs_attribute]
    tigris_tensor_table.length_table [of if_tensors]
  by (simp_all add: if_ops_def if_stages_def if_graphs_def if_tensors_def if_op_def plain_op_def)

lemma if_tables:
  "i < 2 \<Longrightarrow> plan_op if_plan i = Some (if_ops ! i)"
  "i < 2 \<Longrightarrow> plan_stage if_plan i = Some (if_stages ! i)"
  "i < 2 \<Longrightarrow> plan_subgraph if_plan i = Some (if_graphs ! i)"
  "i < 2 \<Longrightarrow> plan_tensor if_plan i = Some (if_tensors ! i)"
  "plan_op_attribute if_plan 0 = Some runs_attribute"
proof -
  let ?o = "concat (map wr_tigris_op if_ops)" and ?s = "concat (map wr_tigris_stage if_stages)"
    and ?g = "concat (map wr_subgraph if_graphs)" and ?a = "wr_op_attribute runs_attribute"
    and ?t = "concat (map wr_tigris_tensor if_tensors)"
  note defs = if_plan_def empty_plan_def if_lengths
  show "plan_op if_plan i = Some (if_ops ! i)" if "i < 2"
    using tigris_op_table.table_roundtrip [where rs = if_ops and i = i and xs = "[]" and
        ys = "?s @ ?g @ ?a @ ?t @ if_words"] that
    by (simp add: plan_op_def defs) (simp add: if_ops_def if_op_def plain_op_def)
  show "plan_stage if_plan i = Some (if_stages ! i)" if "i < 2"
    using tigris_stage_table.table_roundtrip [where rs = if_stages and i = i and xs = "?o" and
        ys = "?g @ ?a @ ?t @ if_words"] that
    by (simp add: plan_stage_def defs) (simp add: if_stages_def)
  show "plan_subgraph if_plan i = Some (if_graphs ! i)" if "i < 2"
    using subgraph_table.table_roundtrip [where rs = if_graphs and i = i and xs = "?o @ ?s" and
        ys = "?a @ ?t @ if_words"] that
    by (simp add: plan_subgraph_def defs) (simp add: if_graphs_def)
  show "plan_tensor if_plan i = Some (if_tensors ! i)" if "i < 2"
    using tigris_tensor_table.table_roundtrip [where rs = if_tensors and i = i and xs = "?o @ ?s @ ?g @ ?a" and
        ys = "if_words"] that
    by (simp add: plan_tensor_def defs) (simp add: if_tensors_def)
  show "plan_op_attribute if_plan 0 = Some runs_attribute"
    using op_attribute_table.rd_wr_record [where r = runs_attribute and xs = "?o @ ?s @ ?g" and
        ys = "?t @ if_words"]
    by (simp add: plan_op_attribute_def defs)
qed

lemma if_reads:
  "plan_index if_plan 0 = Some 0" "plan_index if_plan 1 = Some 1" "plan_index if_plan 2 = Some 0"
  "plan_index if_plan 3 = Some 1" "rd16 (p_buf if_plan) 196 = Some 1" "rd16 (p_buf if_plan) 198 = Some 1"
  by (simp_all add: plan_index_def if_plan_def empty_plan_def if_lengths rd16_def rd8_def arr_get_def
      nth_append if_words_def)

lemma if_parts:
  "p_num_subgraphs if_plan = 2" "p_num_op_attributes if_plan = 1" "p_op_attribute_data if_plan = Some 196"
  "p_op_attributes if_plan = Some 156" "p_num_state if_plan = 0" "p_num_weight_blocks if_plan = 0"
  "hd_num_stages if_header = 2" "hd_num_ops if_header = 2" "hd_num_tensors if_header = 2"
  "hd_num_model_inputs if_header = 0" "hd_num_model_outputs if_header = 0" "hd_version if_header = 12"
  "ls_hdr if_demo = if_header" "ls_candidate if_demo = if_plan" "ls_index_count if_demo = 8"
  "ls_required if_demo = no_limits\<lparr> pl_tensors := 2 \<rparr>"
  by (simp_all add: if_plan_def empty_plan_def if_header_def if_demo_def demo_loaded_parts demo_header_def)

lemma if_table_simps:
  "plan_op if_plan 0 = Some if_op" "plan_op if_plan (Suc 0) = Some plain_op"
  "plan_stage if_plan 0 = Some (one_op_stage 0)" "plan_stage if_plan (Suc 0) = Some (one_op_stage 1)"
  "plan_subgraph if_plan 0 = Some (one_stage_graph 0)" "plan_subgraph if_plan (Suc 0) = Some (one_stage_graph 1)"
  "plan_tensor if_plan 0 = Some (byte_tensor 9)" "plan_tensor if_plan (Suc 0) = Some (byte_tensor 3)"
  using if_tables(1-4) [of 0] if_tables(1-4) [of 1]
  by (simp_all add: if_ops_def if_stages_def if_graphs_def if_tensors_def)

lemmas if_data = if_table_simps if_tables(5) if_reads(1,3,4) if_reads(2) [unfolded One_nat_def]
  if_reads(3) [unfolded numeral_2_eq_2] if_reads(4) [unfolded numeral_3_eq_3]
  if_parts one_op_stage_def member_stage_def one_stage_graph_def plain_op_def if_op_def runs_attribute_def
  byte_tensor_def

lemma if_search: "graph_of_stage if_plan 0 = Some 0" "graph_of_stage if_plan (Suc 0) = Some 1"
  by (simp_all add: graph_of_stage_def if_data)

lemma if_ranges:
  "graph_tensor_range if_plan 0 = Some (0, 0)" "graph_tensor_range if_plan (Suc 0) = Some (1, 1)"
  by (simp_all add: graph_tensor_range_def if_data cover_stage_def cover_op_def tigris_stage_ops_def
      tigris_op_inputs_def cover_def word_cmp)

lemma if_attribute:
  "tigris_op_attribute_data if_plan 0 ATTR_SUBGRAPHS = Some (Some (196, 4))"
  by (simp add: tigris_op_attribute_data_def if_data)

lemma if_named: "named_graph if_plan 196 0 = Some 1" "named_graph if_plan 196 (Suc 0) = Some 1"
  by (simp_all add: named_graph_def if_reads(5,6))

lemma if_check_graphs: "check_graphs if_plan if_header 8 = Some (Inr ())"
  by (simp add: check_graphs_def if_data above_limit_def word_cmp for_range_step check_graph_def
      elements_ok_def check_main_graph_def indices_equal_def)

lemma if_check_chain: "for_check 2 (check_chain_graph if_plan) = Some (Inr ())"
  by (simp add: for_range_step check_chain_graph_def if_data)

lemma if_check_ranges: "for_check 2 (check_ranges if_plan) = Some (Inr ())"
  by (simp add: for_range_step check_ranges_def if_ranges if_data check_range_pair_def check_inner_tensor_def word_cmp)

lemma if_check_stages: "for_check 2 (check_control_stage if_plan) = Some (Inr ())"
  by (simp add: for_range_step check_control_stage_def if_data check_control_op_def tigris_stage_ops_def
      if_attribute if_search check_later_def if_named check_if_def tigris_op_inputs_def check_branch_def word_cmp)

lemma if_check_records: "for_check 1 (check_record if_plan) = Some (Inr ())"
  by (simp add: for_range_step check_record_def subgraphs_record_def if_data)

lemma if_accepted: "graphs_accepted if_demo"
  using if_check_graphs if_check_chain if_check_ranges if_check_stages if_check_records
  by (simp add: graphs_accepted_def check_control_def if_parts)

lemma if_stages_ok: "\<exists>ls. validate_stages if_demo = Some (Inr ls)"
  by (simp add: validate_stages_def if_parts for_range_step validate_stage_table_def if_data
      stage_spans_ok_def elements_ok_def word_cmp require_stage_def
      note_requirement_def tigris_build_limits_def no_limits_def check_chain_def schedule_op_def
      schema_versions)

section \<open>Properties\<close>

text \<open>C32. The graphs of an accepted plan partition its stages: every stage lies in the range of
  exactly one graph, the one \<open>graph_of_stage\<close> returns.\<close>

theorem graphs_partition_stages:
  assumes "graphs_accepted ls" and "s < unat (hd_num_stages (ls_hdr ls))"
  shows "\<exists>!g. g < graph_count (ls_candidate ls) \<and> in_graph (ls_candidate ls) g s \<and>
     graph_of_stage (ls_candidate ls) s = Some g"
  using graph_of_stage_exact [OF graphs_acceptedD(1) [OF assms(1)] assms(2)] in_graph_unique by blast

lemma graphs_partition_stages_witness:
  "\<exists>!g. g < 2 \<and> in_graph if_plan g 1 \<and> graph_of_stage if_plan 1 = Some g"
  using graphs_partition_stages [OF if_accepted, of 1] by (simp add: if_parts)

text \<open>C30. No tensor is used by two graphs: a tensor that is an input or output of a graph, or an
  operand of one of its operators, is neither in another graph. So running a subgraph cannot
  overwrite a value its caller holds.\<close>

theorem graphs_own_tensors:
  assumes "graphs_accepted ls" and "g < graph_count (ls_candidate ls)" and "h < graph_count (ls_candidate ls)"
    and "graph_uses (ls_candidate ls) g t" and "graph_uses (ls_candidate ls) h t"
  shows "g = h"
proof (rule ccontr)
  assume "g \<noteq> h"
  then have "g < h \<or> h < g" by auto
  then show False
    using graphs_share_nothing [OF graphs_acceptedD(3) [OF assms(1)], of g h t]
      graphs_share_nothing [OF graphs_acceptedD(3) [OF assms(1)], of h g t]
      graphs_acceptedD(2) [OF assms(1)] assms(2-) by blast
qed

lemma graphs_own_tensors_witness:
  "\<not> graph_uses if_plan 0 1 \<and> graph_uses if_plan 1 1"
proof -
  have "stage_uses if_plan (Suc 0) 1"
    unfolding stage_uses_def
    by (rule exI [of _ "one_op_stage 1"], rule exI [of _ 0], rule exI [of _ 1], rule exI [of _ plain_op])
      (auto simp: op_uses_def if_data tigris_stage_ops_def tigris_op_inputs_def)
  then have "graph_uses if_plan 1 1"
    by (auto simp: graph_uses_def in_graph_def graph_stages_def if_data intro!: exI [of _ "Suc 0"])
  then show ?thesis
    using graphs_own_tensors [OF if_accepted, of 0 1 1] by (auto simp: if_parts)
qed

text \<open>C11. The depth walk of \<open>subgraph_depth\<close>, a loop without a bound that keeps no stack and finds
  its way back by searching the caller of the graph it leaves, ends for every plan the checks
  before it accept, and its result is the nesting depth that the recursive definition gives; the
  nesting is less than the number of graphs.\<close>

theorem depth_walk_ends:
  assumes "graphs_accepted ls" and "validate_stages ls = Some (Inr ls')"
  shows "\<exists>w. subgraph_depth (ls_candidate ls) = Some w \<and> unat w = nesting_depth (ls_candidate ls) \<and>
     nesting_depth (ls_candidate ls) < graph_count (ls_candidate ls)"
proof -
  note ok = control_checkedI [OF assms]
  then have "0 < graph_count (ls_candidate ls)"
    by (simp add: control_checked_def graphs_laid_out_def)
  from depth_below_le [OF this, of 0] subgraph_depth_exact [OF ok] show ?thesis
    by (simp add: nesting_depth_def)
qed

lemma depth_walk_ends_witness:
  "\<exists>w. subgraph_depth if_plan = Some w \<and> unat w = nesting_depth if_plan \<and> nesting_depth if_plan < 2"
proof -
  obtain ls where "validate_stages if_demo = Some (Inr ls)" using if_stages_ok by blast
  from depth_walk_ends [OF if_accepted this] show ?thesis by (simp add: if_parts)
qed

end
