(* ===== verification/Op_Contract.thy ===== *)
theory Op_Contract
  imports Prelude
begin

text \<open>
  The operator contract table of \<open>src/tigris_op_contract.h\<close>: for each operator the element types,
  operand counts, attribute kinds and tiling classes it allows, for each attribute kind its
  payload lengths, and the operator classes of \<open>src/tigris_loader.c\<close> read from them.

  A row's validator (a function pointer) is represented by the operator after which the function
  is named, \<open>validate_contract_conv\<close> by 1. The three macros \<open>TIGRIS_KERNEL_F32_<op>\<close>,
  \<open>TIGRIS_KERNEL_S8_<op>\<close> and \<open>TIGRIS_KERNEL_I32\<close> of a row are \<open>Configured\<close>; a row with the
  constant 1 in their place is \<open>Linked\<close>.

  What is shown: the two tables agree (a required kind is an allowed one, an allowed kind has a
  length contract), and the tiling classes are exclusive where the readers take them to be.
\<close>

unbundle bit_operations_syntax

section \<open>Rows\<close>

datatype linkage = Configured | Linked

record op_contract =
  oc_inputs :: "u8 list"
  oc_output :: u8
  oc_min_inputs :: u8
  oc_max_inputs :: u8
  oc_min_outputs :: u8
  oc_max_outputs :: u8
  oc_allowed_attributes :: u32
  oc_required_attributes :: u32
  oc_flags :: u16
  oc_executor :: u8
  oc_linked :: linkage
  oc_validate :: "u8 option"

record attribute_contract =
  ac_min_len :: u8
  ac_max_len :: u8
  ac_step :: u8

abbreviation (input) C_BINARY :: u16 where "C_BINARY \<equiv> 0x0001"
abbreviation (input) C_AXIS_UNARY :: u16 where "C_AXIS_UNARY \<equiv> 0x0002"
abbreviation (input) C_AXIS_BINARY :: u16 where "C_AXIS_BINARY \<equiv> 0x0004"
abbreviation (input) C_ROW :: u16 where "C_ROW \<equiv> 0x0008"
abbreviation (input) C_HEIGHT :: u16 where "C_HEIGHT \<equiv> 0x0010"
abbreviation (input) C_SPATIAL :: u16 where "C_SPATIAL \<equiv> 0x0020"
abbreviation (input) C_RESAMPLE :: u16 where "C_RESAMPLE \<equiv> 0x0040"
abbreviation (input) C_WHOLE_OPERAND :: u16 where "C_WHOLE_OPERAND \<equiv> 0x0080"
abbreviation (input) C_FUSED :: u16 where "C_FUSED \<equiv> 0x0100"
abbreviation (input) C_FUSED_FLOAT :: u16 where "C_FUSED_FLOAT \<equiv> 0x0200"

text \<open>\<open>row\<close> is the C initializer with its fields in order.\<close>

definition row :: "u8 list \<Rightarrow> u8 \<Rightarrow> u8 \<Rightarrow> u8 \<Rightarrow> u8 \<Rightarrow> u8 \<Rightarrow> u32 \<Rightarrow> u32 \<Rightarrow> u16 \<Rightarrow> u8 \<Rightarrow> linkage \<Rightarrow> u8 option \<Rightarrow> op_contract" where
  "row ins out min_in max_in min_out max_out allowed req flags exec ln val =
     \<lparr> oc_inputs = ins, oc_output = out, oc_min_inputs = min_in, oc_max_inputs = max_in,
       oc_min_outputs = min_out, oc_max_outputs = max_out, oc_allowed_attributes = allowed,
       oc_required_attributes = req, oc_flags = flags, oc_executor = exec, oc_linked = ln,
       oc_validate = val \<rparr>"

text \<open>An array element without an initializer, as for the opcode 0.\<close>

abbreviation (input) no_row :: op_contract where
  "no_row \<equiv> row [0, 0, 0] 0 0 0 0 0 0 0 0 0 Configured None"

definition op_contract_rows :: "op_contract list" where
  "op_contract_rows =
    [no_row,
     row [0, 0, 0] 0 1 1 1 1 0x0 0x0 (C_SPATIAL OR C_FUSED) 0 Configured (Some 1),
     row [0, 0, 0] 0 1 1 1 1 0x0 0x0 (C_SPATIAL OR C_FUSED) 0 Configured (Some 1),
     row [0, 0, 0] 0 1 1 1 1 0x0 0x0 (C_AXIS_UNARY OR C_ROW OR C_HEIGHT) 0 Configured (Some 3),
     row [0, 0, 0] 0 1 1 1 1 0x0 0x0 (C_AXIS_UNARY OR C_ROW OR C_HEIGHT) 0 Configured (Some 3),
     row [0, 0, 0] 0 1 1 1 1 0x0 0x0 C_SPATIAL 0 Configured (Some 5),
     row [0, 0, 0] 0 1 1 1 1 0x0 0x0 C_SPATIAL 0 Configured (Some 5),
     row [253, 253, 253] 253 1 2 1 1 0x280 0x0 (C_BINARY OR C_AXIS_BINARY OR C_ROW OR C_HEIGHT OR C_FUSED) 0 Configured (Some 7),
     row [253, 253, 253] 253 1 2 1 1 0x200 0x0 (C_BINARY OR C_AXIS_BINARY OR C_ROW OR C_HEIGHT) 0 Configured (Some 7),
     row [0, 0, 0] 0 1 1 1 1 0x0 0x0 (C_ROW OR C_WHOLE_OPERAND OR C_FUSED) 0 Configured (Some 9),
     row [0, 0, 0] 0 1 1 1 1 0x0 0x0 (C_AXIS_UNARY OR C_ROW OR C_HEIGHT) 0 Configured (Some 3),
     row [0, 0, 0] 0 1 1 1 1 0x10 0x0 0 0 Configured None,
     row [0, 0, 0] 0 1 1 1 1 0x0 0x0 (C_AXIS_UNARY OR C_ROW OR C_HEIGHT) 0 Configured (Some 3),
     row [0, 0, 0] 0 1 255 1 1 0x0 0x0 C_HEIGHT 0 Configured (Some 13),
     row [0, 0, 0] 0 1 1 1 1 0x20 0x0 0 0 Configured (Some 14),
     row [0, 0, 0] 0 1 1 1 1 0x100 0x0 0 0 Configured (Some 31),
     row [255, 255, 255] 255 1 1 1 1 0x0 0x0 C_ROW 0 Configured (Some 17),
     row [255, 255, 255] 255 1 1 1 1 0x0 0x0 C_ROW 0 Configured (Some 17),
     row [253, 253, 253] 253 1 2 1 1 0x280 0x0 (C_BINARY OR C_AXIS_BINARY OR C_ROW OR C_HEIGHT) 0 Configured (Some 7),
     row [0, 0, 0] 0 1 2 1 1 0x200 0x0 (C_BINARY OR C_AXIS_BINARY OR C_ROW OR C_HEIGHT) 0 Configured (Some 19),
     row [0, 0, 0] 0 1 1 1 1 0x0 0x0 (C_AXIS_UNARY OR C_ROW OR C_HEIGHT) 0 Configured (Some 3),
     row [0, 0, 0] 0 1 1 1 1 0x8 0x0 (C_AXIS_UNARY OR C_ROW OR C_HEIGHT) 0 Configured (Some 21),
     row [0, 0, 0] 0 1 1 1 1 0x0 0x0 0 0 Configured None,
     row [0, 0, 0] 0 1 1 1 1 0x0 0x0 0 0 Configured None,
     row [0, 0, 0] 0 1 1 1 1 0x0 0x0 0 0 Configured (Some 24),
     row [0, 0, 0] 0 2 2 1 1 0x0 0x0 (C_ROW OR C_WHOLE_OPERAND) 0 Configured (Some 25),
     row [0, 0, 0] 0 1 1 1 1 0x40 0x40 0 0 Configured (Some 64),
     row [0, 0, 0] 0 1 1 1 1 0x0 0x0 0 0 Configured None,
     row [0, 0, 0] 0 1 1 1 1 0x0 0x0 0 0 Configured None,
     row [255, 255, 255] 255 1 1 1 1 0x2 0x2 0 0 Configured (Some 17),
     row [0, 0, 0] 0 1 1 1 1 0x400 0x0 C_RESAMPLE 0 Configured (Some 36),
     row [0, 0, 0] 0 1 1 1 1 0x0 0x0 0 0 Configured (Some 31),
     row [0, 0, 0] 0 1 1 1 1 0x0 0x0 C_FUSED 0 Configured (Some 32),
     row [0, 0, 0] 0 1 1 1 1 0x4 0x4 (C_AXIS_UNARY OR C_ROW OR C_HEIGHT) 0 Configured (Some 33),
     row [0, 0, 0] 0 1 1 1 1 0x0 0x0 (C_AXIS_UNARY OR C_ROW OR C_HEIGHT) 0 Configured (Some 37),
     row [0, 0, 0] 0 1 1 2 255 0x0 0x0 0 0 Configured (Some 35),
     row [0, 0, 0] 0 1 1 1 1 0x400 0x0 C_RESAMPLE 0 Configured (Some 36),
     row [0, 0, 0] 0 1 1 1 1 0x0 0x0 (C_AXIS_UNARY OR C_ROW OR C_HEIGHT) 0 Configured (Some 37),
     row [0, 0, 0] 0 1 1 1 1 0x0 0x0 (C_AXIS_UNARY OR C_ROW OR C_HEIGHT) 0 Configured (Some 38),
     row [0, 0, 0] 0 1 1 1 1 0x0 0x0 (C_AXIS_UNARY OR C_ROW OR C_HEIGHT) 0 Configured (Some 38),
     row [0, 0, 0] 0 1 2 1 1 0x200 0x0 (C_BINARY OR C_AXIS_BINARY OR C_ROW OR C_HEIGHT) 0 Configured (Some 19),
     row [0, 0, 0] 0 1 2 1 1 0x200 0x0 (C_BINARY OR C_AXIS_BINARY OR C_ROW OR C_HEIGHT) 0 Configured (Some 19),
     row [0, 0, 0] 0 1 2 1 1 0x200 0x0 (C_BINARY OR C_AXIS_BINARY OR C_ROW OR C_HEIGHT) 0 Configured (Some 19),
     row [0, 0, 0] 0 1 1 1 1 0x0 0x0 (C_AXIS_UNARY OR C_ROW OR C_HEIGHT) 0 Configured (Some 38),
     row [0, 0, 0] 0 1 1 1 1 0x0 0x0 (C_AXIS_UNARY OR C_ROW OR C_HEIGHT) 0 Configured (Some 38),
     row [0, 0, 0] 0 1 1 1 1 0x0 0x0 (C_AXIS_UNARY OR C_ROW OR C_HEIGHT) 0 Configured (Some 38),
     row [0, 0, 0] 0 1 1 1 1 0x0 0x0 (C_AXIS_UNARY OR C_ROW OR C_HEIGHT) 0 Configured (Some 38),
     row [0, 0, 0] 0 1 1 1 1 0x0 0x0 (C_AXIS_UNARY OR C_ROW OR C_HEIGHT) 0 Configured (Some 38),
     row [0, 0, 0] 0 1 1 1 1 0x0 0x0 (C_AXIS_UNARY OR C_ROW OR C_HEIGHT) 0 Configured (Some 38),
     row [0, 0, 0] 0 1 1 1 1 0x0 0x0 (C_AXIS_UNARY OR C_ROW OR C_HEIGHT) 0 Configured (Some 38),
     row [0, 0, 0] 0 1 1 1 1 0x0 0x0 (C_AXIS_UNARY OR C_ROW OR C_HEIGHT) 0 Configured (Some 38),
     row [0, 0, 0] 0 1 1 1 1 0x0 0x0 (C_AXIS_UNARY OR C_ROW OR C_HEIGHT) 0 Configured (Some 38),
     row [0, 0, 0] 0 1 1 1 1 0x0 0x0 (C_AXIS_UNARY OR C_ROW OR C_HEIGHT) 0 Configured (Some 38),
     row [0, 0, 0] 0 1 2 1 1 0x200 0x0 (C_BINARY OR C_AXIS_BINARY OR C_ROW OR C_HEIGHT) 0 Configured (Some 19),
     row [0, 0, 0] 0 1 2 1 1 0x200 0x0 (C_BINARY OR C_AXIS_BINARY OR C_ROW OR C_HEIGHT) 0 Configured (Some 19),
     row [0, 0, 0] 0 1 2 1 1 0x200 0x0 (C_BINARY OR C_AXIS_BINARY OR C_ROW OR C_HEIGHT) 0 Configured (Some 19),
     row [0, 0, 0] 0 1 1 1 1 0x0 0x0 (C_AXIS_UNARY OR C_ROW OR C_HEIGHT) 0 Configured (Some 21),
     row [0, 0, 0] 0 1 1 1 1 0x0 0x0 (C_AXIS_UNARY OR C_ROW OR C_HEIGHT) 0 Configured (Some 21),
     row [0, 0, 0] 0 1 1 1 1 0x4 0x4 (C_AXIS_UNARY OR C_ROW OR C_HEIGHT) 0 Configured (Some 21),
     row [0, 0, 0] 0 1 1 1 1 0x0 0x0 C_SPATIAL 0 Configured (Some 5),
     row [0, 0, 0] 0 1 1 1 1 0x40 0x40 0 0 Configured (Some 64),
     row [0, 0, 0] 0 1 1 1 1 0x40 0x40 0 0 Configured (Some 64),
     row [0, 0, 0] 0 1 1 1 1 0x40 0x40 0 0 Configured (Some 64),
     row [0, 0, 0] 0 1 1 1 1 0x840 0x840 0 0 Configured (Some 63),
     row [0, 0, 0] 6 1 1 1 1 0x40 0x40 0 0 Configured (Some 64),
     row [0, 0, 0] 6 1 1 1 1 0x40 0x40 0 0 Configured (Some 64),
     row [0, 6, 6] 0 0 2 1 1 0x101000 0x0 0 0 Configured (Some 66),
     row [0, 6, 6] 0 0 2 1 1 0x101000 0x0 0 0 Configured (Some 66),
     row [0, 0, 0] 0 1 1 1 1 0x1000 0x0 0 0 Configured (Some 66),
     row [0, 0, 0] 0 1 1 1 1 0x1000 0x0 0 0 Configured (Some 66),
     row [0, 0, 0] 0 1 1 1 1 0x1000 0x0 0 0 Configured (Some 66),
     row [0, 6, 6] 0 0 2 1 1 0x101000 0x0 0 0 Configured (Some 66),
     row [0, 0, 6] 0 1 3 1 1 0x1000 0x0 0 0 Configured (Some 66),
     row [253, 253, 253] 9 1 2 1 1 0x2200 0x0 (C_BINARY OR C_AXIS_BINARY OR C_ROW OR C_HEIGHT) 0 Configured (Some 73),
     row [253, 253, 253] 9 1 2 1 1 0x2200 0x0 (C_BINARY OR C_AXIS_BINARY OR C_ROW OR C_HEIGHT) 0 Configured (Some 73),
     row [253, 253, 253] 9 1 2 1 1 0x2200 0x0 (C_BINARY OR C_AXIS_BINARY OR C_ROW OR C_HEIGHT) 0 Configured (Some 73),
     row [253, 253, 253] 9 1 2 1 1 0x2200 0x0 (C_BINARY OR C_AXIS_BINARY OR C_ROW OR C_HEIGHT) 0 Configured (Some 73),
     row [253, 253, 253] 9 1 2 1 1 0x2200 0x0 (C_BINARY OR C_AXIS_BINARY OR C_ROW OR C_HEIGHT) 0 Configured (Some 73),
     row [9, 9, 9] 9 1 2 1 1 0x200 0x0 (C_BINARY OR C_AXIS_BINARY OR C_ROW OR C_HEIGHT) 0 Configured (Some 73),
     row [9, 9, 9] 9 1 2 1 1 0x200 0x0 (C_BINARY OR C_AXIS_BINARY OR C_ROW OR C_HEIGHT) 0 Configured (Some 73),
     row [9, 9, 9] 9 1 1 1 1 0x0 0x0 (C_AXIS_UNARY OR C_ROW OR C_HEIGHT) 0 Configured (Some 73),
     row [9, 0, 0] 0 2 3 1 1 0x200 0x0 (C_BINARY OR C_AXIS_BINARY OR C_ROW OR C_HEIGHT) 0 Configured (Some 73),
     row [252, 252, 252] 0 1 1 1 1 0x0 0x0 (C_AXIS_UNARY OR C_ROW OR C_HEIGHT) 0 Configured (Some 73),
     row [0, 0, 0] 0 1 255 1 1 0x0 0x0 (C_AXIS_BINARY OR C_ROW OR C_HEIGHT) 0 Configured (Some 73),
     row [9, 9, 9] 9 1 1 1 1 0x40 0x40 0 0 Configured (Some 64),
     row [0, 254, 254] 254 2 2 2 2 0xc000 0x0 C_FUSED_FLOAT 0 Configured (Some 85),
     row [0, 254, 254] 254 3 3 3 3 0x14000 0x0 0 0 Configured (Some 86),
     row [9, 251, 251] 251 1 255 1 255 0x20000 0x0 0 1 Linked (Some 87),
     row [251, 251, 251] 251 1 255 1 255 0x24000 0x0 0 1 Linked (Some 87),
     row [0, 0, 0] 1 2 2 5 5 0x44000 0x0 0 0 Configured (Some 89),
     row [250, 250, 250] 0 1 1 1 1 0x0 0x0 (C_AXIS_UNARY OR C_ROW OR C_HEIGHT) 0 Configured (Some 90),
     row [0, 0, 0] 1 1 1 1 1 0x0 0x0 (C_AXIS_UNARY OR C_ROW OR C_HEIGHT) 0 Configured (Some 90),
     row [0, 0, 0] 0 1 1 1 1 0x80000 0x0 (C_AXIS_UNARY OR C_ROW OR C_HEIGHT) 0 Configured (Some 92)]"

definition tigris_op_contract :: "u8 \<Rightarrow> op_contract option" where
  "tigris_op_contract opcode =
     (if unat opcode < length op_contract_rows then Some (op_contract_rows ! unat opcode) else None)"

definition lengths :: "u8 \<Rightarrow> u8 \<Rightarrow> u8 \<Rightarrow> attribute_contract" where
  "lengths mn mx st = \<lparr> ac_min_len = mn, ac_max_len = mx, ac_step = st \<rparr>"

definition attribute_contract_rows :: "attribute_contract list" where
  "attribute_contract_rows =
    [lengths 0 0 0,
     lengths 0 255 1,
     lengths 4 4 1,
     lengths 4 4 1,
     lengths 8 8 1,
     lengths 8 248 8,
     lengths 1 255 1,
     lengths 24 24 1,
     lengths 1 1 1,
     lengths 4 252 4,
     lengths 8 8 1,
     lengths 2 2 1,
     lengths 4 76 4,
     lengths 20 20 1,
     lengths 2 254 2,
     lengths 4 24 20,
     lengths 8 112 104,
     lengths 4 4 1,
     lengths 32 32 1,
     lengths 1 1 1,
     lengths 4 24 4]"

definition tigris_attribute_contract :: "u8 \<Rightarrow> attribute_contract option" where
  "tigris_attribute_contract kind =
     (if unat kind < length attribute_contract_rows then Some (attribute_contract_rows ! unat kind)
      else None)"

section \<open>Operator classes\<close>

definition has_flag :: "u8 \<Rightarrow> u16 \<Rightarrow> bool" where
  "has_flag ty flag = (case tigris_op_contract ty of None \<Rightarrow> False | Some r \<Rightarrow> oc_flags r AND flag \<noteq> 0)"

definition tigris_binary_op :: "u8 \<Rightarrow> bool" where
  "tigris_binary_op ty = has_flag ty C_BINARY"

definition tigris_axis1_unary_pointwise_op :: "u8 \<Rightarrow> bool" where
  "tigris_axis1_unary_pointwise_op ty = has_flag ty C_AXIS_UNARY"

definition tigris_axis1_binary_pointwise_op :: "u8 \<Rightarrow> bool" where
  "tigris_axis1_binary_pointwise_op ty = has_flag ty C_AXIS_BINARY"

datatype tigris_height_op_kind = HEIGHT_REFUSED | HEIGHT_POINTWISE | HEIGHT_SPATIAL | HEIGHT_RESAMPLE

definition tigris_height_op :: "u8 \<Rightarrow> tigris_height_op_kind" where
  "tigris_height_op ty =
     (let flags = (case tigris_op_contract ty of None \<Rightarrow> 0 | Some r \<Rightarrow> oc_flags r) in
      if flags AND C_SPATIAL \<noteq> 0 then HEIGHT_SPATIAL
      else if flags AND C_RESAMPLE \<noteq> 0 then HEIGHT_RESAMPLE
      else if flags AND C_HEIGHT \<noteq> 0 then HEIGHT_POINTWISE
      else HEIGHT_REFUSED)"

definition tigris_height_spatial_op :: "u8 \<Rightarrow> bool" where
  "tigris_height_spatial_op ty = (tigris_height_op ty = HEIGHT_SPATIAL)"

definition tigris_height_upsample_op :: "u8 \<Rightarrow> bool" where
  "tigris_height_upsample_op ty = (tigris_height_op ty = HEIGHT_RESAMPLE)"

definition tigris_row_tiling_op :: "u8 \<Rightarrow> bool" where
  "tigris_row_tiling_op ty = has_flag ty C_ROW"

definition tigris_whole_operand_op :: "u8 \<Rightarrow> bool" where
  "tigris_whole_operand_op ty = has_flag ty C_WHOLE_OPERAND"

text \<open>Whether an attribute kind belongs to an operator.\<close>

definition attr_kind_matches_op :: "u8 \<Rightarrow> u8 \<Rightarrow> bool" where
  "attr_kind_matches_op kind op_type =
     (case tigris_op_contract op_type of
        None \<Rightarrow> False
      | Some r \<Rightarrow> kind < 32 \<and> oc_allowed_attributes r AND push_bit (unat kind) 1 \<noteq> 0)"

definition movement_is_gather :: "u8 \<Rightarrow> bool" where
  "movement_is_gather ty = (ty = 66 \<or> ty = 67 \<or> ty = 71)"

section \<open>The tables agree\<close>

lemma single_bit_and:
  "k < LENGTH('a) \<Longrightarrow> ((w :: 'a::len word) AND push_bit k 1 \<noteq> 0) = bit w k"
proof -
  assume k: "k < LENGTH('a)"
  have "bit (w AND push_bit k 1) n = (n = k \<and> bit w k)" for n
    using k by (auto simp: bit_simps simp del: push_bit_of_1)
  then show ?thesis by (metis bit_eqI bit_0_eq bot_apply bot_bool_def)
qed

text \<open>What every row satisfies: checked once over the table, used through \<open>tigris_op_contractD\<close>.\<close>

definition row_ok :: "op_contract \<Rightarrow> bool" where
  "row_ok r = (length (oc_inputs r) = 3 \<and> oc_min_inputs r \<le> oc_max_inputs r \<and>
     oc_min_outputs r \<le> oc_max_outputs r \<and>
     oc_required_attributes r AND NOT (oc_allowed_attributes r) = 0 \<and>
     oc_allowed_attributes r AND NOT 0x1FFFFE = 0 \<and>
     (oc_flags r AND C_SPATIAL = 0 \<or> oc_flags r AND C_RESAMPLE = 0 \<and> oc_flags r AND C_ROW = 0) \<and>
     (oc_flags r AND C_RESAMPLE = 0 \<or> oc_flags r AND C_ROW = 0) \<and>
     (oc_flags r AND C_HEIGHT = 0 \<or> oc_flags r AND C_SPATIAL = 0 \<and> oc_flags r AND C_RESAMPLE = 0) \<and>
     (oc_flags r AND C_WHOLE_OPERAND = 0 \<or> oc_flags r AND C_ROW \<noteq> 0) \<and>
     (oc_flags r AND C_AXIS_UNARY = 0 \<or> oc_flags r AND C_HEIGHT \<noteq> 0) \<and>
     (oc_flags r AND C_AXIS_BINARY = 0 \<or> oc_flags r AND C_HEIGHT \<noteq> 0))"

lemma rows_ok: "list_all row_ok op_contract_rows"
  by (simp add: op_contract_rows_def row_ok_def row_def)

lemma length_rows: "length op_contract_rows = 93" "length attribute_contract_rows = 21"
  by (simp_all add: op_contract_rows_def attribute_contract_rows_def)

lemma tigris_op_contractD: "tigris_op_contract ty = Some r \<Longrightarrow> row_ok r \<and> r \<in> set op_contract_rows"
  using rows_ok by (auto simp: tigris_op_contract_def list_all_iff split: if_splits)


lemma lengths_ok:
  "list_all (\<lambda>l. ac_step l \<noteq> 0 \<and> ac_min_len l \<le> ac_max_len l) (tl attribute_contract_rows)"
  by (simp add: attribute_contract_rows_def lengths_def)

lemma length_contract:
  assumes "0 < unat kind" "unat kind < 21"
  shows "\<exists>l. tigris_attribute_contract kind = Some l \<and> ac_step l \<noteq> 0 \<and> ac_min_len l \<le> ac_max_len l"
proof -
  have "attribute_contract_rows ! unat kind = tl attribute_contract_rows ! (unat kind - 1)"
    using assms length_rows by (simp add: nth_tl)
  moreover have "tl attribute_contract_rows ! (unat kind - 1) \<in> set (tl attribute_contract_rows)"
    using assms by (simp add: length_rows)
  ultimately show ?thesis
    using lengths_ok assms by (auto simp: tigris_attribute_contract_def length_rows list_all_iff)
qed

text \<open>The kinds a row may name are 1 to 20.\<close>

lemma subset_bit: "(w :: 'a::len word) AND NOT m = 0 \<Longrightarrow> bit w k \<Longrightarrow> bit m k"
  by (metis bit_and_iff bit_not_iff bit_0_eq bot_apply bot_bool_def bit_imp_le_length not_le impossible_bit)

lemma kind_bit:
  assumes "bit (0x1FFFFE :: u32) k"
  shows "0 < k \<and> k < 21"
proof -
  have "k < 32" using assms bit_imp_le_length [of "0x1FFFFE :: u32" k] by simp
  then have "k \<in> {..<32}" by simp
  then show ?thesis
    using assms by (simp add: lessThan_nat_numeral lessThan_Suc) (elim disjE; simp)
qed

lemma attr_kind_matches_op_iff:
  "attr_kind_matches_op kind ty \<longleftrightarrow>
     (\<exists>r. tigris_op_contract ty = Some r \<and> unat kind < 32 \<and> bit (oc_allowed_attributes r) (unat kind))"
  using single_bit_and [of "unat kind", where 'a = 32]
  by (auto simp: attr_kind_matches_op_def word_less_nat_alt simp del: push_bit_of_1 split: option.splits)

lemma required_allowed:
  assumes "tigris_op_contract ty = Some r" "bit (oc_required_attributes r) k"
  shows "bit (oc_allowed_attributes r) k"
  using tigris_op_contractD [OF assms(1)] by (intro subset_bit [OF _ assms(2)]) (simp only: row_ok_def)

text \<open>The two tables of \<open>tigris_op_contract.h\<close> agree: each attribute kind that an operator requires
  is one it allows, and each kind it allows is one of the 20 of the format and has a length contract
  that some payload meets, so no row asks for an attribute that the loader's pass over the attribute
  lengths refuses whatever it holds.\<close>

lemma contract_tables_agree:
  assumes "tigris_op_contract ty = Some r"
    and "bit (oc_required_attributes r OR oc_allowed_attributes r) (unat kind)"
  shows "attr_kind_matches_op kind ty \<and>
    (\<exists>l. tigris_attribute_contract kind = Some l \<and> ac_step l \<noteq> 0 \<and> ac_min_len l \<le> ac_max_len l)"
proof -
  have allowed: "bit (oc_allowed_attributes r) (unat kind)"
    using assms required_allowed by (auto simp: bit_or_iff)
  have "oc_allowed_attributes r AND NOT 0x1FFFFE = 0"
    using tigris_op_contractD [OF assms(1)] by (simp only: row_ok_def)
  then have "bit (0x1FFFFE :: u32) (unat kind)"
    using allowed by (rule subset_bit)
  note k = kind_bit [OF this]
  have "attr_kind_matches_op kind ty"
    using k allowed assms(1) by (auto simp: attr_kind_matches_op_iff)
  then show ?thesis using length_contract k by simp
qed

text \<open>The tiling classes: what a height or row band relies on.\<close>

lemma tiling_classes:
  "tigris_whole_operand_op ty \<Longrightarrow> tigris_row_tiling_op ty"
  "tigris_axis1_unary_pointwise_op ty \<or> tigris_axis1_binary_pointwise_op ty \<Longrightarrow>
     tigris_height_op ty = HEIGHT_POINTWISE"
  "tigris_height_spatial_op ty \<or> tigris_height_upsample_op ty \<Longrightarrow> \<not> tigris_row_tiling_op ty"
  using tigris_op_contractD [of ty]
  by (auto simp: row_ok_def tigris_whole_operand_op_def tigris_row_tiling_op_def has_flag_def
      tigris_axis1_unary_pointwise_op_def tigris_axis1_binary_pointwise_op_def tigris_height_op_def
      tigris_height_spatial_op_def tigris_height_upsample_op_def Let_def
      split: option.splits if_splits)

end
