(* ===== verification/Attributes.thy ===== *)
theory Attributes
  imports Weights Subgraphs Op_Contract
begin

unbundle bit_operations_syntax

text \<open>
  State variables, operator references and operator attributes in the plan loader:
  \<open>validate_state_and_attributes\<close> of \<open>src/tigris_loader.c\<close>. The check of one attribute's payload
  against its operator (\<open>validate_attribute_value\<close>) changes no state; here it is an argument \<open>value\<close>,
  and every statement holds whatever it answers.

  What is shown: in an accepted plan every state tensor plays one role of one variable, the two
  tensors of a variable are alike and exactly as large as its entry says; the attribute table is
  strictly ordered, so an operator has at most one attribute of a kind and a search for it finds
  that one; each payload lies in the attribute section, and each operator has the kinds its
  contract requires.
\<close>

section \<open>State variables\<close>

definition same_quantization :: "quant_param option \<Rightarrow> quant_param option \<Rightarrow> bool" where
  "same_quantization a b =
     (case (a, b) of
        (None, None) \<Rightarrow> True
      | (Some x, Some y) \<Rightarrow> qp_scale x = qp_scale y \<and> qp_zero_point x = qp_zero_point y
      | _ \<Rightarrow> False)"

text \<open>How often the entries name a tensor, counted in 16 bits.\<close>

definition count_roles :: "tigris_plan \<Rightarrow> u16 \<Rightarrow> nat \<Rightarrow> u16 \<Rightarrow> u16 option" where
  "count_roles pl t i roles = do {
     entry \<leftarrow> plan_state_entry pl i;
     let roles = (if st_input entry = t then roles + 1 else roles);
     Some (if st_output entry = t then roles + 1 else roles) }"

definition check_state_tensor :: "load_state \<Rightarrow> nat \<Rightarrow> (tigris_error + unit) option" where
  "check_state_tensor ls k = do {
     roles \<leftarrow> loop 0 (unat (p_num_state (ls_candidate ls))) (count_roles (ls_candidate ls) (word_of_nat k)) 0;
     t \<leftarrow> plan_tensor (ls_candidate ls) k;
     let flagged = (if tn_flags t AND 0x10 \<noteq> 0 then 1 else 0);
     if roles \<noteq> flagged then fail ERR_BAD_TENSOR else ret () }"

definition check_state_variable :: "load_state \<Rightarrow> nat \<Rightarrow> (tigris_error + unit) option" where
  "check_state_variable ls i = do {
     let pl = ls_candidate ls;
     let n = hd_num_tensors (ls_hdr ls);
     entry \<leftarrow> plan_state_entry pl i;
     if st_input entry \<ge> n \<or> (st_output entry \<noteq> 0xFFFF \<and> st_output entry \<ge> n)
     then fail ERR_BAD_TENSOR
     else do {
       t_in \<leftarrow> plan_tensor pl (unat (st_input entry));
       if tn_size_bytes t_in \<noteq> st_bytes entry \<or>
          (tn_dtype t_in \<noteq> 1 \<and> tn_dtype t_in \<noteq> 3 \<and> tn_dtype t_in \<noteq> 5)
       then fail ERR_BAD_TENSOR
       else if st_output entry \<noteq> 0xFFFF then do {
         t_out \<leftarrow> plan_tensor pl (unat (st_output entry));
         if tn_dtype t_out \<noteq> tn_dtype t_in \<or> tn_size_bytes t_out \<noteq> tn_size_bytes t_in
         then fail ERR_BAD_TENSOR
         else do {
           eq \<leftarrow> tigris_tensor_shapes_equal pl t_in t_out;
           if \<not> eq then fail ERR_BAD_TENSOR
           else if tn_flags t_out AND 0x08 \<noteq> tn_flags t_in AND 0x08 then fail ERR_BAD_TENSOR
           else if tn_dtype t_in = 3 then do {
             q_in \<leftarrow> tigris_tensor_quant pl t_in;
             q_out \<leftarrow> tigris_tensor_quant pl t_out;
             if \<not> same_quantization q_in q_out then fail ERR_BAD_TENSOR else ret () }
           else ret () } }
       else ret () } }"

section \<open>Operator references\<close>

definition check_operand :: "load_state \<Rightarrow> u16 \<Rightarrow> nat \<Rightarrow> (tigris_error + unit) option" where
  "check_operand ls off j = do {
     t \<leftarrow> plan_index (ls_candidate ls) (unat off + j);
     if t \<ge> hd_num_tensors (ls_hdr ls) then fail ERR_BAD_SECTION else ret () }"

definition check_operator :: "load_state \<Rightarrow> nat \<Rightarrow> (tigris_error + unit) option" where
  "check_operator ls i = do {
     oper \<leftarrow> plan_op (ls_candidate ls) i;
     name_ok \<leftarrow> string_ok (ls_candidate ls) (ls_strings_len ls) (op_name_str oper);
     if \<not> name_ok \<or>
        \<not> elements_ok (ucast (op_inputs_off oper)) (ucast (op_num_inputs oper)) (ls_index_count ls) \<or>
        \<not> elements_ok (ucast (op_outputs_off oper)) (ucast (op_num_outputs oper)) (ls_index_count ls)
     then fail ERR_BAD_SECTION
     else if hd_version (ls_hdr ls) < SCHEMA_VERSION_STAGE_TABLE_AUTHORITY \<and>
        hd_num_stages (ls_hdr ls) \<noteq> 0 \<and> ucast (op_stage oper) \<ge> hd_num_stages (ls_hdr ls)
     then fail ERR_BAD_SECTION
     else if (op_weight_idx oper \<noteq> NONE_U16 \<and> op_weight_idx oper \<ge> hd_num_weights (ls_hdr ls)) \<or>
        (op_bias_idx oper \<noteq> NONE_U16 \<and> op_bias_idx oper \<ge> hd_num_weights (ls_hdr ls))
     then fail ERR_BAD_SECTION
     else
       andthen (for_check (unat (op_num_inputs oper)) (check_operand ls (op_inputs_off oper))) (\<lambda>_.
       for_check (unat (op_num_outputs oper)) (check_operand ls (op_outputs_off oper))) }"

section \<open>Attributes\<close>

definition check_attribute_span :: "load_state \<Rightarrow> u32 \<Rightarrow> nat \<Rightarrow> (tigris_error + unit) option" where
  "check_attribute_span ls data_len i = do {
     attr \<leftarrow> plan_op_attribute (ls_candidate ls) i;
     if oa_op_index attr \<ge> hd_num_ops (ls_hdr ls) \<or>
        \<not> bounds_ok (oa_data_offset attr) (ucast (oa_data_len attr)) data_len
     then fail ERR_BAD_SECTION
     else (case tigris_attribute_contract (oa_type attr) of
         None \<Rightarrow> fail ERR_BAD_SECTION
       | Some ac \<Rightarrow>
         if ac_step ac = 0 \<or> oa_data_len attr < ac_min_len ac \<or>
            oa_data_len attr > ac_max_len ac \<or>
            (unat (oa_data_len attr) - unat (ac_min_len ac)) mod unat (ac_step ac) \<noteq> 0
         then fail ERR_BAD_SECTION else ret ()) }"

text \<open>An operator without activations: a gather from a constant table.\<close>

definition reads_constant_table :: "tigris_plan \<Rightarrow> tigris_op \<Rightarrow> u16 \<Rightarrow> bool option" where
  "reads_constant_table pl oper op_index =
     (if movement_is_gather (op_op_type oper) \<and> op_weight_idx oper \<noteq> NONE_U16 \<and>
         op_bias_idx oper \<noteq> NONE_U16
      then map_option (\<lambda>r. r \<noteq> None) (tigris_op_attribute_data pl op_index 20)
      else Some False)"

text \<open>The second pass: the order, the kind and the payload of record \<open>i\<close>, after the record with
  operator \<open>previous_op\<close> and kind \<open>previous_attr_type\<close>.\<close>

type_synonym value_check = "op_attribute \<Rightarrow> tigris_op \<Rightarrow> (tigris_error + unit) option"

definition check_attribute ::
  "value_check \<Rightarrow> load_state \<Rightarrow> nat \<Rightarrow> u16 \<times> u8 \<Rightarrow> (tigris_error + u16 \<times> u8) option" where
  "check_attribute value ls i s = do {
     let pl = ls_candidate ls;
     let (previous_op, previous_attr_type) = s;
     attr \<leftarrow> plan_op_attribute pl i;
     if 0 < i \<and> (oa_op_index attr < previous_op \<or>
          (oa_op_index attr = previous_op \<and> oa_type attr \<le> previous_attr_type))
     then fail ERR_BAD_SECTION
     else do {
       oper \<leftarrow> plan_op pl (unat (oa_op_index attr));
       if oa_type attr > 1 \<and> hd_version (ls_hdr ls) < 8 then fail ERR_BAD_SECTION
       else do {
         table \<leftarrow> (if op_num_inputs oper = 0 then reads_constant_table pl oper (oa_op_index attr)
                   else Some True);
         if \<not> table \<or> (op_num_outputs oper \<noteq> 1 \<and>
              (case tigris_op_contract (op_op_type oper) of
                 None \<Rightarrow> True
               | Some r \<Rightarrow> op_num_outputs oper < oc_min_outputs r \<or> op_num_outputs oper > oc_max_outputs r))
         then fail ERR_BAD_SECTION
         else if \<not> attr_kind_matches_op (oa_type attr) (op_op_type oper) then fail ERR_BAD_SECTION
         else andthen (value attr oper) (\<lambda>_. ret (oa_op_index attr, oa_type attr)) } } }"

text \<open>The third pass: the kinds of the records at the cursor that belong to operator \<open>k\<close>.\<close>

function present_kinds :: "tigris_plan \<Rightarrow> nat \<Rightarrow> nat \<Rightarrow> u32 \<Rightarrow> (nat \<times> u32) option" where
  "present_kinds pl k cursor present =
     (if cursor < unat (p_num_op_attributes pl) then do {
        attr \<leftarrow> plan_op_attribute pl cursor;
        if unat (oa_op_index attr) = k then
          (if unat (oa_type attr) < 32
           then present_kinds pl k (Suc cursor) (present OR push_bit (unat (oa_type attr)) 1)
           else None)
        else Some (cursor, present) }
      else Some (cursor, present))"
  by pat_completeness auto
termination by (relation "measure (\<lambda>(pl, k, c, p). unat (p_num_op_attributes pl) - c)") auto

declare present_kinds.simps [simp del]

definition check_required :: "load_state \<Rightarrow> nat \<Rightarrow> nat \<Rightarrow> (tigris_error + nat) option" where
  "check_required ls k attr_cursor = do {
     (cursor, present) \<leftarrow> present_kinds (ls_candidate ls) k attr_cursor 0;
     oper \<leftarrow> plan_op (ls_candidate ls) k;
     (case tigris_op_contract (op_op_type oper) of
        None \<Rightarrow> ret cursor
      | Some r \<Rightarrow>
        if present AND oc_required_attributes r \<noteq> oc_required_attributes r
        then fail ERR_BAD_SECTION else ret cursor) }"

definition check_none_required :: "load_state \<Rightarrow> nat \<Rightarrow> (tigris_error + unit) option" where
  "check_none_required ls k = do {
     oper \<leftarrow> plan_op (ls_candidate ls) k;
     (case tigris_op_contract (op_op_type oper) of
        None \<Rightarrow> ret ()
      | Some r \<Rightarrow> if oc_required_attributes r \<noteq> 0 then fail ERR_BAD_SECTION else ret ()) }"

definition attribute_data_len :: "load_state \<Rightarrow> u32" where
  "attribute_data_len ls =
     (let attrs_off = ls_section_offsets ls ! SEC_OP_ATTRIBUTES;
          data_off = attrs_off + 4 + ucast (p_num_op_attributes (ls_candidate ls)) * 8
      in ls_section_ends ls ! SEC_OP_ATTRIBUTES - data_off)"

definition validate_attributes :: "value_check \<Rightarrow> load_state \<Rightarrow> (tigris_error + unit) option" where
  "validate_attributes value ls =
     (let pl = ls_candidate ls; n = unat (p_num_op_attributes pl);
          num_ops = unat (hd_num_ops (ls_hdr ls)) in
      if p_op_attributes pl \<noteq> None then
        andthen (for_check n (check_attribute_span ls (attribute_data_len ls))) (\<lambda>_.
        andthen (for_range 0 n (check_attribute value ls) (0, 0)) (\<lambda>_.
        andthen (for_range 0 num_ops (check_required ls) 0) (\<lambda>_. ret ())))
      else for_check num_ops (check_none_required ls))"

definition validate_state_and_attributes ::
  "value_check \<Rightarrow> load_state \<Rightarrow> (tigris_error + unit) option" where
  "validate_state_and_attributes value ls =
     andthen (for_check (unat (hd_num_tensors (ls_hdr ls))) (check_state_tensor ls)) (\<lambda>_.
     andthen (for_check (unat (p_num_state (ls_candidate ls))) (check_state_variable ls)) (\<lambda>_.
     andthen (for_check (unat (hd_num_ops (ls_hdr ls))) (check_operator ls)) (\<lambda>_.
     validate_attributes value ls)))"

section \<open>What the passes establish\<close>

definition attribute_before :: "op_attribute \<Rightarrow> op_attribute \<Rightarrow> bool" where
  "attribute_before x y = (oa_op_index x < oa_op_index y \<or>
     (oa_op_index x = oa_op_index y \<and> oa_type x < oa_type y))"

lemma attribute_before_trans: "attribute_before x y \<Longrightarrow> attribute_before y z \<Longrightarrow> attribute_before x z"
  by (auto simp: attribute_before_def)

definition attributes_ordered :: "tigris_plan \<Rightarrow> nat \<Rightarrow> bool" where
  "attributes_ordered pl n = (\<forall>a b x y. a < b \<longrightarrow> b < n \<longrightarrow> plan_op_attribute pl a = Some x \<longrightarrow>
     plan_op_attribute pl b = Some y \<longrightarrow> attribute_before x y)"

lemma attributes_ordered_Suc:
  assumes "attributes_ordered pl n" and "plan_op_attribute pl n = Some y"
    and "0 < n \<Longrightarrow> \<exists>x. plan_op_attribute pl (n - 1) = Some x \<and> attribute_before x y"
  shows "attributes_ordered pl (Suc n)"
  unfolding attributes_ordered_def
proof (intro allI impI)
  fix a b x z assume ab: "a < b" "b < Suc n" and x: "plan_op_attribute pl a = Some x"
    and z: "plan_op_attribute pl b = Some z"
  show "attribute_before x z"
  proof (cases "b = n")
    case False
    then show ?thesis using assms(1) ab x z by (auto simp: attributes_ordered_def)
  next
    case True
    then obtain w where w: "plan_op_attribute pl (n - 1) = Some w" "attribute_before w y"
      using assms(3) ab by auto
    have zy: "z = y" using True assms(2) z by simp
    show ?thesis
    proof (cases "a = n - 1")
      case True
      then show ?thesis using w x zy by simp
    next
      case False
      then have "attribute_before x w"
        using assms(1) [unfolded attributes_ordered_def, rule_format, of a "n - 1" x w] ab True x w(1) by simp
      then show ?thesis using w(2) zy attribute_before_trans by blast
    qed
  qed
qed

lemma check_attributeD:
  assumes "check_attribute value ls i s = Some (Inr t)"
  shows "\<exists>attr oper. plan_op_attribute (ls_candidate ls) i = Some attr \<and>
    plan_op (ls_candidate ls) (unat (oa_op_index attr)) = Some oper \<and>
    attr_kind_matches_op (oa_type attr) (op_op_type oper) \<and> t = (oa_op_index attr, oa_type attr) \<and>
    (0 < i \<longrightarrow> fst s < oa_op_index attr \<or> (fst s = oa_op_index attr \<and> snd s < oa_type attr))"
proof -
  obtain op ty where s: "s = (op, ty)" by (cases s)
  show ?thesis
    using assms unfolding s check_attribute_def Let_def prod.case fst_conv snd_conv
    by (auto simp: bind_eq_Some_conv andthen_Inr not_le not_less split: if_splits)
qed

definition attribute_fits_op :: "load_state \<Rightarrow> nat \<Rightarrow> bool" where
  "attribute_fits_op ls a = (\<exists>attr oper. plan_op_attribute (ls_candidate ls) a = Some attr \<and>
     plan_op (ls_candidate ls) (unat (oa_op_index attr)) = Some oper \<and>
     attr_kind_matches_op (oa_type attr) (op_op_type oper))"

lemma attribute_loop:
  assumes "for_range 0 n (check_attribute value ls) (0, 0) = Some (Inr t)"
  shows "attributes_ordered (ls_candidate ls) n \<and> (\<forall>a < n. attribute_fits_op ls a)"
proof -
  let ?I = "\<lambda>k s. attributes_ordered (ls_candidate ls) k \<and> (\<forall>a < k. attribute_fits_op ls a) \<and>
      (0 < k \<longrightarrow> (\<exists>x. plan_op_attribute (ls_candidate ls) (k - 1) = Some x \<and> s = (oa_op_index x, oa_type x)))"
  have "?I n t"
  proof (rule for_range_invariant [OF assms])
    show "?I 0 (0, 0)" by (simp add: attributes_ordered_def)
  next
    fix k s s' assume inv: "?I k s" and step: "check_attribute value ls k s = Some (Inr s')"
    from check_attributeD [OF step] obtain attr oper where
      a: "plan_op_attribute (ls_candidate ls) k = Some attr"
        "plan_op (ls_candidate ls) (unat (oa_op_index attr)) = Some oper"
        "attr_kind_matches_op (oa_type attr) (op_op_type oper)" "s' = (oa_op_index attr, oa_type attr)"
      and order: "0 < k \<longrightarrow> fst s < oa_op_index attr \<or> (fst s = oa_op_index attr \<and> snd s < oa_type attr)"
      by blast
    have "attributes_ordered (ls_candidate ls) (Suc k)"
    proof (rule attributes_ordered_Suc [OF _ a(1)])
      assume "0 < k"
      then show "\<exists>x. plan_op_attribute (ls_candidate ls) (k - 1) = Some x \<and> attribute_before x attr"
        using inv order by (auto simp: attribute_before_def)
    qed (use inv in simp)
    moreover have "attribute_fits_op ls k" using a by (auto simp: attribute_fits_op_def)
    ultimately show "?I (Suc k) s'" using inv a by (simp add: less_Suc_eq)
  qed simp
  then show ?thesis by simp
qed

lemma present_kinds_step:
  "c < unat (p_num_op_attributes pl) \<Longrightarrow> plan_op_attribute pl c = Some attr \<Longrightarrow>
     present_kinds pl k c p = (if unat (oa_op_index attr) = k then
         (if unat (oa_type attr) < 32
          then present_kinds pl k (Suc c) (p OR push_bit (unat (oa_type attr)) 1) else None)
       else Some (c, p))"
  by (subst present_kinds.simps) simp

text \<open>A kind the third pass notes comes from a record of the operator.\<close>

lemma present_kinds_bit:
  assumes "present_kinds pl k c p = Some (d, p')" and "bit p' j"
  shows "bit p j \<or> (\<exists>a attr. a < unat (p_num_op_attributes pl) \<and> plan_op_attribute pl a = Some attr \<and>
    unat (oa_op_index attr) = k \<and> unat (oa_type attr) = j)"
  using assms
proof (induction pl k c p rule: present_kinds.induct)
  case (1 pl k c p)
  show ?case
  proof (cases "c < unat (p_num_op_attributes pl)")
    case True
    with "1.prems"(1) obtain attr where attr: "plan_op_attribute pl c = Some attr"
      by (subst (asm) present_kinds.simps) (auto simp: bind_eq_Some_conv)
    show ?thesis
    proof (cases "unat (oa_op_index attr) = k")
      case here: True
      let ?p = "p OR push_bit (unat (oa_type attr)) 1"
      have t: "unat (oa_type attr) < 32" and rest: "present_kinds pl k (Suc c) ?p = Some (d, p')"
        using "1.prems"(1) unfolding present_kinds_step [OF True attr] by (simp_all add: here split: if_splits)
      have "bit ?p j \<or> (\<exists>a attr. a < unat (p_num_op_attributes pl) \<and> plan_op_attribute pl a = Some attr \<and>
          unat (oa_op_index attr) = k \<and> unat (oa_type attr) = j)"
        by (rule "1.IH" [OF True attr here t rest "1.prems"(2)])
      then show ?thesis
        using True attr here t by (auto simp: bit_or_iff bit_push_bit_iff bit_1_iff simp del: push_bit_of_1)
    next
      case False
      then show ?thesis using "1.prems" unfolding present_kinds_step [OF True attr] by simp
    qed
  next
    case False
    then show ?thesis using "1.prems" by (subst (asm) present_kinds.simps) auto
  qed
qed

definition has_kinds :: "tigris_plan \<Rightarrow> nat \<Rightarrow> bool" where
  "has_kinds pl k = (\<forall>oper r kind. plan_op pl k = Some oper \<longrightarrow> tigris_op_contract (op_op_type oper) = Some r \<longrightarrow>
     bit (oc_required_attributes r) kind \<longrightarrow>
     (\<exists>a attr. a < unat (p_num_op_attributes pl) \<and> plan_op_attribute pl a = Some attr \<and>
        unat (oa_op_index attr) = k \<and> unat (oa_type attr) = kind))"

lemma check_requiredD:
  assumes "check_required ls k c = Some (Inr c')"
  shows "has_kinds (ls_candidate ls) k"
  unfolding has_kinds_def
proof (intro allI impI)
  fix oper r kind
  assume oper: "plan_op (ls_candidate ls) k = Some oper"
    and r: "tigris_op_contract (op_op_type oper) = Some r" and kind: "bit (oc_required_attributes r) kind"
  from assms oper r obtain d p where p: "present_kinds (ls_candidate ls) k c 0 = Some (d, p)"
    and "p AND oc_required_attributes r = oc_required_attributes r"
    by (auto simp: check_required_def bind_eq_Some_conv split: if_splits)
  then have "bit p kind" using kind bit_and_iff by metis
  from present_kinds_bit [OF p this]
  show "\<exists>a attr. a < unat (p_num_op_attributes (ls_candidate ls)) \<and>
      plan_op_attribute (ls_candidate ls) a = Some attr \<and>
      unat (oa_op_index attr) = k \<and> unat (oa_type attr) = kind"
    by simp
qed

lemma required_loop:
  assumes "for_range 0 n (check_required ls) 0 = Some (Inr t)"
  shows "\<forall>k < n. has_kinds (ls_candidate ls) k"
  by (rule for_range_invariant [OF assms, where I = "\<lambda>m _. \<forall>k < m. has_kinds (ls_candidate ls) k"])
    (auto dest: check_requiredD simp: less_Suc_eq)

text \<open>The first pass: each record's operator exists, its payload lies in the section and has a
  length its kind allows.\<close>

definition payload_in_section :: "load_state \<Rightarrow> op_attribute \<Rightarrow> bool" where
  "payload_in_section ls attr = (oa_op_index attr < hd_num_ops (ls_hdr ls) \<and>
     unat (oa_data_offset attr) + unat (oa_data_len attr) \<le> unat (attribute_data_len ls) \<and>
     (\<exists>ac j. tigris_attribute_contract (oa_type attr) = Some ac \<and>
        unat (oa_data_len attr) = unat (ac_min_len ac) + j * unat (ac_step ac) \<and>
        oa_data_len attr \<le> ac_max_len ac))"

lemma check_attribute_spanD:
  assumes "check_attribute_span ls (attribute_data_len ls) i = Some (Inr ())"
  shows "\<exists>attr. plan_op_attribute (ls_candidate ls) i = Some attr \<and> payload_in_section ls attr"
proof -
  from assms obtain attr ac where attr: "plan_op_attribute (ls_candidate ls) i = Some attr"
    "oa_op_index attr < hd_num_ops (ls_hdr ls)"
    "bounds_ok (oa_data_offset attr) (ucast (oa_data_len attr)) (attribute_data_len ls)"
    and ac: "tigris_attribute_contract (oa_type attr) = Some ac" "\<not> oa_data_len attr < ac_min_len ac"
      "\<not> oa_data_len attr > ac_max_len ac"
      "(unat (oa_data_len attr) - unat (ac_min_len ac)) mod unat (ac_step ac) = 0"
    by (auto simp: check_attribute_span_def bind_eq_Some_conv not_le split: if_splits option.splits)
  obtain j where "unat (oa_data_len attr) - unat (ac_min_len ac) = unat (ac_step ac) * j"
    using ac(4) by (auto simp: mod_eq_0_iff_dvd elim: dvdE)
  then have "unat (oa_data_len attr) = unat (ac_min_len ac) + j * unat (ac_step ac)"
    using ac(2) by (simp add: word_less_nat_alt mult.commute)
  then show ?thesis
    using attr ac by (auto simp: payload_in_section_def bounds_ok_iff not_less)
qed

lemma validate_attributesD:
  assumes "validate_attributes value ls = Some (Inr ())" and "p_op_attributes (ls_candidate ls) \<noteq> None"
  defines "pl \<equiv> ls_candidate ls" and "n \<equiv> unat (p_num_op_attributes (ls_candidate ls))"
  shows "attributes_ordered pl n \<and> (\<forall>a < n. attribute_fits_op ls a) \<and>
    (\<forall>a < n. \<exists>attr. plan_op_attribute pl a = Some attr \<and> payload_in_section ls attr) \<and>
    (\<forall>k < unat (hd_num_ops (ls_hdr ls)). has_kinds pl k)"
proof -
  from assms obtain s c where
    "for_check n (check_attribute_span ls (attribute_data_len ls)) = Some (Inr ())"
    "for_range 0 n (check_attribute value ls) (0, 0) = Some (Inr s)"
    "for_range 0 (unat (hd_num_ops (ls_hdr ls))) (check_required ls) 0 = Some (Inr c)"
    by (auto simp: validate_attributes_def Let_def andthen_Inr)
  then show ?thesis
    using attribute_loop [of n "value" ls s] required_loop [of _ ls c] check_attribute_spanD
    by (auto simp: pl_def n_def dest!: for_check_all)
qed

text \<open>The search for an attribute that is there finds it.\<close>

lemma find_attribute_found:
  assumes "\<forall>a < i + n. plan_op_attribute pl a \<noteq> None"
    and "i \<le> a" "a < i + n" "plan_op_attribute pl a = Some attr" "oa_op_index attr = k" "oa_type attr = ty"
  shows "\<exists>found. find_attribute pl k ty i n = Some (Some found)"
  using assms
proof (induction pl k ty i n rule: find_attribute.induct)
  case (2 pl k ty i n)
  then obtain x where x: "plan_op_attribute pl i = Some x" by fastforce
  show ?case
  proof (cases "oa_op_index x = k \<and> oa_type x = ty")
    case False
    then have "a \<noteq> i" using 2 x by auto
    then show ?thesis using "2.IH" [OF x False] "2.prems" x False by simp
  qed (use x in simp)
qed simp

text \<open>Where phase 2 puts the attribute section.\<close>

definition attribute_section :: "load_state \<Rightarrow> bool" where
  "attribute_section ls = (\<exists>data. p_op_attribute_data (ls_candidate ls) = Some data \<and>
     data + unat (attribute_data_len ls) = unat (ls_section_ends ls ! SEC_OP_ATTRIBUTES))"

lemma locate_attributes_section:
  assumes "locate_attributes ls = Some (Inr ls')" and "ls_section_offsets ls ! SEC_OP_ATTRIBUTES \<noteq> 0"
  shows "attribute_section ls'"
proof -
  let ?off = "ls_section_offsets ls ! SEC_OP_ATTRIBUTES" and ?e = "ls_section_ends ls ! SEC_OP_ATTRIBUTES"
  from assms obtain count where holds: "bounds_ok ?off 4 ?e" "bounds_ok (?off + 4) (ucast (count :: u16) * 8) ?e"
    and ls': "ls' = upd_candidate (\<lambda>pl. pl\<lparr> p_num_op_attributes := count, p_op_attributes := Some (unat ?off + 4),
        p_op_attribute_data := Some (unat ?off + 4 + unat (ucast count * 8 :: u32)) \<rparr>) ls"
    by (auto simp: locate_attributes_def section_holds_def Let_def bind_eq_Some_conv split: if_splits)
  have off: "unat (?off + 4) = unat ?off + 4" using bounds_ok_add [OF holds(1)] by simp
  have le: "unat (?off + 4) + unat (ucast count * 8 :: u32) \<le> unat ?e"
    using holds(2) by (simp only: bounds_ok_iff)
  then have data: "unat (?off + 4 + ucast count * 8) = unat ?off + 4 + unat (ucast count * 8 :: u32)"
    using unat_u32_less [of ?e] off by (subst unat_add_u32) simp_all
  then have "?off + 4 + ucast count * 8 \<le> ?e"
    using le off by (simp only: word_le_nat_alt)
  then show ?thesis
    using data le off
    by (simp add: attribute_section_def ls' attribute_data_len_def Let_def unat_sub)
qed

section \<open>State variables of an accepted plan\<close>

text \<open>How many roles the state entries give a tensor, without the wrap-around of the counter.\<close>

definition role_count :: "tigris_plan \<Rightarrow> u16 \<Rightarrow> nat \<Rightarrow> nat" where
  "role_count pl t n = (\<Sum>i<n. case plan_state_entry pl i of
      None \<Rightarrow> 0 | Some e \<Rightarrow> of_bool (st_input e = t) + of_bool (st_output e = t))"

lemma role_count_rec:
  "role_count pl t 0 = 0"
  "plan_state_entry pl n = Some e \<Longrightarrow>
     role_count pl t (Suc n) = role_count pl t n + (of_bool (st_input e = t) + of_bool (st_output e = t))"
  by (simp_all add: role_count_def)

lemma role_count_le: "role_count pl t n \<le> 2 * n"
  by (induction n) (auto simp: role_count_def split: option.splits)

lemma count_roles_loop:
  assumes "loop 0 n (count_roles pl t) 0 = Some roles"
  shows "roles = word_of_nat (role_count pl t n)"
proof -
  have "roles = word_of_nat (role_count pl t (0 + n))"
    by (rule loop_invariant [OF assms])
      (auto simp: count_roles_def role_count_rec bind_eq_Some_conv Let_def split: if_splits)
  then show ?thesis by simp
qed

lemma check_state_tensorD:
  assumes "check_state_tensor ls k = Some (Inr ())" and "plan_tensor (ls_candidate ls) k = Some t"
  shows "(word_of_nat (role_count (ls_candidate ls) (word_of_nat k) (unat (p_num_state (ls_candidate ls)))) :: u16)
    = (if tn_flags t AND 0x10 \<noteq> 0 then 1 else 0)"
  using assms count_roles_loop by (auto simp: check_state_tensor_def bind_eq_Some_conv Let_def split: if_splits)

text \<open>The two tensors of a variable.\<close>

definition same_encoding :: "tigris_plan \<Rightarrow> tigris_tensor \<Rightarrow> tigris_tensor \<Rightarrow> bool" where
  "same_encoding pl x y = (tn_dtype y = tn_dtype x \<and> tn_size_bytes y = tn_size_bytes x \<and>
     tigris_tensor_shapes_equal pl x y = Some True \<and> tn_flags y AND 0x08 = tn_flags x AND 0x08 \<and>
     (tn_dtype x = 3 \<longrightarrow> (\<exists>a b. tigris_tensor_quant pl x = Some a \<and> tigris_tensor_quant pl y = Some b \<and>
        same_quantization a b)))"

definition variable_ok :: "load_state \<Rightarrow> nat \<Rightarrow> bool" where
  "variable_ok ls i = (\<exists>entry t_in. plan_state_entry (ls_candidate ls) i = Some entry \<and>
     st_input entry < hd_num_tensors (ls_hdr ls) \<and>
     plan_tensor (ls_candidate ls) (unat (st_input entry)) = Some t_in \<and>
     tn_size_bytes t_in = st_bytes entry \<and>
     (st_output entry \<noteq> 0xFFFF \<longrightarrow> st_output entry < hd_num_tensors (ls_hdr ls) \<and>
        (\<exists>t_out. plan_tensor (ls_candidate ls) (unat (st_output entry)) = Some t_out \<and>
           same_encoding (ls_candidate ls) t_in t_out)))"

lemma check_state_variableD:
  "check_state_variable ls i = Some (Inr ()) \<Longrightarrow> variable_ok ls i"
  by (auto simp: check_state_variable_def variable_ok_def same_encoding_def bind_eq_Some_conv not_le Let_def
      split: if_splits)

text \<open>C35. State variables. In a plan whose state passes succeed, a tensor is marked as state exactly
  if one entry names it in one role, and every other tensor is named by none; and each variable's
  tensors exist, have exactly the variable's size, and its input and output are encoded alike, so
  the executor may copy one over the other. The role counter has 16 bits: the statement
  needs fewer than 32768 entries.\<close>

theorem state_variables_exact:
  assumes "validate_state_and_attributes value ls = Some (Inr ())"
    and "unat (p_num_state (ls_candidate ls)) < 32768"
    and "k < unat (hd_num_tensors (ls_hdr ls))" and "plan_tensor (ls_candidate ls) k = Some t"
  shows "role_count (ls_candidate ls) (word_of_nat k) (unat (p_num_state (ls_candidate ls)))
      = (if tn_flags t AND 0x10 \<noteq> 0 then 1 else 0) \<and>
    (\<forall>i < unat (p_num_state (ls_candidate ls)). variable_ok ls i)"
proof -
  let ?n = "unat (p_num_state (ls_candidate ls))"
  let ?c = "role_count (ls_candidate ls) (word_of_nat k) ?n"
  from assms(1) have checks: "for_check (unat (hd_num_tensors (ls_hdr ls))) (check_state_tensor ls) = Some (Inr ())"
    "for_check ?n (check_state_variable ls) = Some (Inr ())"
    by (auto simp: validate_state_and_attributes_def andthen_Inr)
  have w: "(word_of_nat ?c :: u16) = (if tn_flags t AND 0x10 \<noteq> 0 then 1 else 0)"
    by (rule check_state_tensorD [OF for_check_all [OF checks(1) assms(3)] assms(4)])
  have "?c = unat (word_of_nat ?c :: u16)"
    using role_count_le [of "ls_candidate ls" "word_of_nat k" ?n] assms(2) by (simp add: unat_of_nat_u16)
  then have "?c = (if tn_flags t AND 0x10 \<noteq> 0 then 1 else 0)"
    unfolding w by (auto split: if_splits)
  then show ?thesis
    using check_state_variableD [OF for_check_all [OF checks(2)]] by blast
qed

section \<open>Attributes of an accepted plan\<close>

text \<open>C34. The attribute table of an accepted plan is strictly ordered by operator and kind, whatever
  the payload checks answer: an operator has at most one attribute of a kind, so every search
  for one has one possible result.\<close>

theorem attributes_strictly_ordered:
  assumes "validate_attributes value ls = Some (Inr ())" and "p_op_attributes (ls_candidate ls) \<noteq> None"
    and "a < b" and "b < unat (p_num_op_attributes (ls_candidate ls))"
    and "plan_op_attribute (ls_candidate ls) a = Some x" and "plan_op_attribute (ls_candidate ls) b = Some y"
  shows "oa_op_index x < oa_op_index y \<or> (oa_op_index x = oa_op_index y \<and> oa_type x < oa_type y)"
  using validate_attributesD [OF assms(1,2)] assms(3-6)
  by (simp add: attributes_ordered_def attribute_before_def)

text \<open>The hypothesis of the properties of \<open>Weights\<close>.\<close>

lemma accepted_attributes_sorted:
  assumes "validate_attributes value ls = Some (Inr ())" and "p_op_attributes (ls_candidate ls) \<noteq> None"
  shows "attributes_sorted (ls_candidate ls)"
  using validate_attributesD [OF assms]
  by (auto simp: attributes_sorted_def attributes_ordered_def attribute_before_def) (metis order.strict_implies_order order_refl)

text \<open>C33. What the contract of an operator requires is there and safe to read. For every operator of an
  accepted plan and every attribute kind its row requires, \<open>tigris_op_attribute_data\<close> returns a
  payload, not NULL; the payload lies inside the attribute section, and its length is one that the
  kind's length contract allows. The kernels read such payloads without a test.\<close>

theorem required_attribute_found:
  assumes "validate_attributes value ls = Some (Inr ())" and "p_op_attributes (ls_candidate ls) \<noteq> None"
    and "attribute_section ls"
    and "k < unat (hd_num_ops (ls_hdr ls))" and "plan_op (ls_candidate ls) k = Some oper"
    and "tigris_op_contract (op_op_type oper) = Some r" and "bit (oc_required_attributes r) (unat kind)"
  shows "\<exists>list len ac j. tigris_op_attribute_data (ls_candidate ls) (word_of_nat k) kind = Some (Some (list, len)) \<and>
    list + unat len \<le> unat (ls_section_ends ls ! SEC_OP_ATTRIBUTES) \<and>
    tigris_attribute_contract kind = Some ac \<and> unat len = unat (ac_min_len ac) + j * unat (ac_step ac) \<and>
    len \<le> ac_max_len ac"
proof -
  let ?pl = "ls_candidate ls" and ?n = "unat (p_num_op_attributes (ls_candidate ls))"
  note v = validate_attributesD [OF assms(1,2)]
  obtain data where data: "p_op_attribute_data ?pl = Some data"
    "data + unat (attribute_data_len ls) = unat (ls_section_ends ls ! SEC_OP_ATTRIBUTES)"
    using assms(3) by (auto simp: attribute_section_def)
  have "k < 65536" using assms(4) unat_u16_less [of "hd_num_ops (ls_hdr ls)"] by simp
  then have k: "unat (word_of_nat k :: u16) = k" by (rule unat_of_nat_u16)
  have "has_kinds ?pl k" using v assms(4) by blast
  then obtain a attr where a: "a < ?n" "plan_op_attribute ?pl a = Some attr"
    "oa_op_index attr = word_of_nat k" "oa_type attr = kind"
    unfolding has_kinds_def using assms(5-7) k by (metis word_unat_eqI)
  obtain found where found: "find_attribute ?pl (word_of_nat k) kind 0 ?n = Some (Some found)"
    using find_attribute_found [of 0 ?n ?pl a attr "word_of_nat k" kind] v a by fastforce
  obtain b where b: "b < ?n" "plan_op_attribute ?pl b = Some found" "oa_type found = kind"
    using find_attribute_position [OF found] by auto
  then have "payload_in_section ls found" using v by force
  then show ?thesis
    using found b(3) data assms(2)
    by (auto simp: tigris_op_attribute_data_def payload_in_section_def split: option.splits)
qed

section \<open>A concrete plan\<close>

text \<open>One cumulative sum with its two attributes, between the two tensors of one state variable.\<close>

definition kinds_demo :: "op_attribute list" where
  "kinds_demo = [\<lparr> oa_op_index = 0, oa_type = 6, oa_data_len = 1, oa_data_offset = 0 \<rparr>,
     \<lparr> oa_op_index = 0, oa_type = 11, oa_data_len = 2, oa_data_offset = 1 \<rparr>]"

definition cumsum_op :: tigris_op where
  "cumsum_op = weight_op\<lparr> op_op_type := 63, op_outputs_off := 1, op_weight_idx := NONE_U16,
     op_bias_idx := NONE_U16 \<rparr>"

definition held_tensors :: "tigris_tensor list" where
  "held_tensors = replicate 2 \<lparr> tn_name_str = 0, tn_size_bytes = 4, tn_shape_off = 0, tn_ndim = 0,
     tn_dtype = 1, tn_flags = 0x10, tn_quant_param_idx = NONE_U16, tn_iface_dtype = 0 \<rparr>"

definition held_entry :: state_entry where
  "held_entry = \<lparr> st_input = 0, st_output = 1, st_offset = 0, st_bytes = 4, st_initial = 0 \<rparr>"

definition attr_plan :: tigris_plan where
  "attr_plan = (empty_plan (replicate 8 0 @ concat (map wr_op_attribute kinds_demo) @ [1, 0, 0] @
       wr_tigris_op cumsum_op @ concat (map wr_tigris_tensor held_tensors) @ wr_state_entry held_entry @
       [0, 0, 1, 0, 0]))
     \<lparr> p_op_attributes := Some 8, p_num_op_attributes := 2, p_op_attribute_data := Some 24,
       p_ops := Some 27, p_tensors := Some 65, p_state_entries := Some 97, p_num_state := 1,
       p_index_pool := Some 113, p_strings := Some 117 \<rparr>"

definition attr_demo :: load_state where
  "attr_demo = demo_loaded\<lparr> ls_candidate := attr_plan, ls_strings_len := 1,
     ls_section_offsets := replicate 11 0 @ [4, 0, 0, 0], ls_section_ends := replicate 11 0 @ [27, 0, 0, 0] \<rparr>"

lemma attr_demo_lengths:
  "length (concat (map wr_op_attribute kinds_demo)) = 16" "length (wr_tigris_op cumsum_op) = 38"
  "length (concat (map wr_tigris_tensor held_tensors)) = 32" "length (wr_state_entry held_entry) = 16"
  using op_attribute_table.length_table [of kinds_demo] tigris_op_table.length_wr_record [of cumsum_op]
    tigris_tensor_table.length_table [of held_tensors] state_entry_table.length_wr_record [of held_entry]
  by (simp_all add: kinds_demo_def cumsum_op_def weight_op_def held_tensors_def)

lemma attr_demo_reads:
  "i < 2 \<Longrightarrow> plan_op_attribute attr_plan i = Some (kinds_demo ! i)"
  "plan_op attr_plan 0 = Some cumsum_op"
  "i < 2 \<Longrightarrow> plan_tensor attr_plan i = Some (held_tensors ! i)"
  "plan_state_entry attr_plan 0 = Some held_entry"
  "plan_index attr_plan 0 = Some 0" "plan_index attr_plan (Suc 0) = Some 1"
proof -
  let ?p = "replicate 8 (0 :: u8)" and ?a = "concat (map wr_op_attribute kinds_demo)"
    and ?o = "wr_tigris_op cumsum_op" and ?t = "concat (map wr_tigris_tensor held_tensors)"
    and ?s = "wr_state_entry held_entry" and ?i = "[0, 0, 1, 0, 0] :: bytes" and ?d = "[1, 0, 0] :: bytes"
  note l = attr_demo_lengths
  show "plan_op_attribute attr_plan i = Some (kinds_demo ! i)" if "i < 2"
    using op_attribute_table.table_roundtrip [where rs = kinds_demo and i = i and xs = ?p and
        ys = "?d @ ?o @ ?t @ ?s @ ?i"] l that
    by (simp add: plan_op_attribute_def attr_plan_def empty_plan_def kinds_demo_def)
  show "plan_op attr_plan 0 = Some cumsum_op"
    using tigris_op_table.rd_wr_record [where r = cumsum_op and xs = "?p @ ?a @ ?d" and ys = "?t @ ?s @ ?i"] l
    by (simp add: plan_op_def attr_plan_def empty_plan_def cumsum_op_def weight_op_def)
  show "plan_tensor attr_plan i = Some (held_tensors ! i)" if "i < 2"
    using tigris_tensor_table.table_roundtrip [where rs = held_tensors and i = i and xs = "?p @ ?a @ ?d @ ?o" and
        ys = "?s @ ?i"] l that
    by (simp add: plan_tensor_def attr_plan_def empty_plan_def held_tensors_def)
  show "plan_state_entry attr_plan 0 = Some held_entry"
    using state_entry_table.rd_wr_record [where r = held_entry and xs = "?p @ ?a @ ?d @ ?o @ ?t" and ys = ?i] l
    by (simp add: plan_state_entry_def attr_plan_def empty_plan_def)
  show "plan_index attr_plan 0 = Some 0" "plan_index attr_plan (Suc 0) = Some 1"
    using l by (simp_all add: plan_index_def attr_plan_def empty_plan_def rd16_def rd8_def arr_get_def nth_append)
qed

lemma attr_demo_parts:
  "hd_num_ops (ls_hdr attr_demo) = 1" "hd_num_tensors (ls_hdr attr_demo) = 2"
  "hd_version (ls_hdr attr_demo) = 12" "hd_num_weights (ls_hdr attr_demo) = 0"
  "ls_index_count attr_demo = 8" "ls_strings_len attr_demo = 1" "ls_candidate attr_demo = attr_plan"
  "p_num_op_attributes attr_plan = 2" "p_op_attributes attr_plan = Some 8" "p_num_state attr_plan = 1"
  by (simp_all add: attr_demo_def attr_plan_def empty_plan_def demo_loaded_parts)
    (simp add: demo_loaded_def demo_state_def demo_header_def)

lemma attr_demo_section: "attribute_data_len attr_demo = 3" "attribute_section attr_demo"
  by (simp_all add: attribute_section_def attribute_data_len_def attr_demo_parts)
    (simp_all add: attr_demo_def attr_plan_def empty_plan_def nth_append)

lemmas attr_demo_kinds = attr_demo_reads(1) [of 0, simplified] attr_demo_reads(1) [of "Suc 0", simplified]
lemmas attr_demo_tensors = attr_demo_reads(3) [of 0, simplified] attr_demo_reads(3) [of "Suc 0", simplified]

lemma contract_cumsum:
  "tigris_op_contract 63 = Some (row [0, 0, 0] 0 1 1 1 1 0x840 0x840 0 0 Configured (Some 63))"
  by (simp add: tigris_op_contract_def op_contract_rows_def)

lemma contract_kinds:
  "tigris_attribute_contract 6 = Some (lengths 1 255 1)" "tigris_attribute_contract 11 = Some (lengths 2 2 1)"
  by (simp_all add: tigris_attribute_contract_def attribute_contract_rows_def)

abbreviation (input) any_value :: value_check where "any_value \<equiv> \<lambda>_ _. ret ()"

lemma attr_demo_spans:
  "for_check 2 (check_attribute_span attr_demo 3) = Some (Inr ())"
  by (simp add: for_range_step check_attribute_span_def attr_demo_parts attr_demo_kinds)
    (simp add: kinds_demo_def contract_kinds lengths_def bounds_ok_def word_cmp)

lemma attr_demo_order:
  "for_range 0 2 (check_attribute any_value attr_demo) (0, 0) = Some (Inr (0, 11))"
  by (simp add: for_range_step check_attribute_def attr_demo_parts attr_demo_kinds Let_def)
    (simp add: kinds_demo_def attr_demo_reads(2) attr_kind_matches_op_def cumsum_op_def contract_cumsum
      weight_op_def row_def attr_demo_parts)

lemma attr_demo_required: "for_range 0 1 (check_required attr_demo) 0 = Some (Inr 2)"
proof -
  have "present_kinds attr_plan 0 0 0 = Some (2, 0x840)"
    by (subst present_kinds.simps, simp add: attr_demo_parts attr_demo_kinds, subst present_kinds.simps,
        simp add: attr_demo_parts attr_demo_kinds, subst present_kinds.simps)
      (simp add: attr_demo_parts kinds_demo_def)
  then show ?thesis
    by (simp add: for_range_step check_required_def attr_demo_parts attr_demo_reads(2))
      (simp add: cumsum_op_def contract_cumsum row_def)
qed

lemma attr_demo_accepted: "validate_attributes any_value attr_demo = Some (Inr ())"
  by (simp add: validate_attributes_def Let_def attr_demo_parts attr_demo_section attr_demo_spans
      attr_demo_order attr_demo_required [unfolded One_nat_def])

lemma attr_demo_all: "validate_state_and_attributes any_value attr_demo = Some (Inr ())"
proof -
  have t: "held_tensors ! i = \<lparr> tn_name_str = 0, tn_size_bytes = 4, tn_shape_off = 0, tn_ndim = 0,
     tn_dtype = 1, tn_flags = 0x10, tn_quant_param_idx = NONE_U16, tn_iface_dtype = 0 \<rparr>" if "i < 2" for i
    using that by (simp add: held_tensors_def)
  have "for_check 2 (check_state_tensor attr_demo) = Some (Inr ())"
    by (simp add: for_range_step check_state_tensor_def count_roles_def attr_demo_parts attr_demo_reads(4)
        attr_demo_tensors) (simp add: held_entry_def t)
  moreover have "for_check 1 (check_state_variable attr_demo) = Some (Inr ())"
    by (simp add: for_range_step check_state_variable_def attr_demo_parts attr_demo_reads(4) held_entry_def
        attr_demo_tensors) (simp add: t tigris_tensor_shapes_equal_def word_cmp)
  moreover have "for_check 1 (check_operator attr_demo) = Some (Inr ())"
  proof -
    have "string_ok attr_plan 1 0 = Some True"
      using attr_demo_lengths
      by (simp add: string_ok_def attr_plan_def empty_plan_def rd8_def arr_get_def nth_append)
    then show ?thesis
      by (simp add: for_range_step check_operator_def attr_demo_parts attr_demo_reads(2))
        (simp add: cumsum_op_def weight_op_def elements_ok_def schema_versions for_range_step
          check_operand_def attr_demo_parts attr_demo_reads(5,6) word_cmp)
  qed
  ultimately show ?thesis
    by (simp add: validate_state_and_attributes_def attr_demo_parts attr_demo_accepted)
qed

lemma state_variables_exact_witness:
  "role_count attr_plan 1 1 = 1 \<and> variable_ok attr_demo 0"
  using state_variables_exact [OF attr_demo_all, of 1 "held_tensors ! 1"]
  by (simp add: attr_demo_parts attr_demo_tensors) (simp add: held_tensors_def)

lemma attributes_strictly_ordered_witness:
  "oa_type (kinds_demo ! 0) < oa_type (kinds_demo ! 1)"
  using attributes_strictly_ordered [OF attr_demo_accepted, of 0 1 "kinds_demo ! 0" "kinds_demo ! 1"]
  by (simp add: attr_demo_parts attr_demo_kinds) (simp add: kinds_demo_def)

lemma required_attribute_found_witness:
  "\<exists>list len. tigris_op_attribute_data attr_plan 0 11 = Some (Some (list, len)) \<and> list + unat len \<le> 27"
proof -
  have e: "ls_section_ends attr_demo ! 11 = 27" by (simp add: attr_demo_def nth_append)
  show ?thesis
    using required_attribute_found [OF attr_demo_accepted _ attr_demo_section(2), of 0 cumsum_op _ 11]
    by (fastforce simp: attr_demo_parts attr_demo_reads(2) cumsum_op_def contract_cumsum row_def e)
qed

end
