(* ===== verification/Workspace_Limits.thy ===== *)
theory Workspace_Limits
  imports Schedule Op_Contract
begin

text \<open>
  The limits from which the executor sizes its workspace: \<open>workspace_limits\<close> of
  \<open>src/tigris_executor.c\<close>, which scans the stages of a plan for the widest stage, the longest chain
  and the chain with the most height-spatial operators.

  What is shown: the scan succeeds on every plan the loader accepts, and its limits cover every
  stage and every chain. The 32-bit operator count cannot wrap.
\<close>

record workspace_limits_t =
  wl_tensors :: u16
  wl_inputs :: u16
  wl_outputs :: u16
  wl_chain_stages :: u16
  wl_chain_spatial_ops :: u32
  wl_subgraph_depth :: u16

section \<open>The limits of a plan\<close>

text \<open>The function's \<open>return 0\<close> is the error value \<open>Inl ()\<close>.\<close>

definition count_spatial_op ::
  "tigris_plan \<Rightarrow> file_header \<Rightarrow> tigris_stage \<Rightarrow> nat \<Rightarrow> u32 \<Rightarrow> (unit + u32) option" where
  "count_spatial_op pl hdr chain_stage j spatial = do {
     k \<leftarrow> tigris_stage_ops pl chain_stage j;
     if k \<ge> hd_num_ops hdr then fail ()
     else do {
       oper \<leftarrow> plan_op pl (unat k);
       ret (if tigris_height_spatial_op (op_op_type oper) then spatial + 1 else spatial) } }"

definition count_spatial_stage ::
  "tigris_plan \<Rightarrow> file_header \<Rightarrow> nat \<Rightarrow> u32 \<Rightarrow> (unit + u32) option" where
  "count_spatial_stage pl hdr c spatial = do {
     chain_stage \<leftarrow> plan_stage pl c;
     for_range 0 (unat (sg_ops_count chain_stage)) (count_spatial_op pl hdr chain_stage) spatial }"

definition limits_of_stage ::
  "tigris_plan \<Rightarrow> file_header \<Rightarrow> nat \<Rightarrow> workspace_limits_t \<Rightarrow> (unit + workspace_limits_t) option" where
  "limits_of_stage pl hdr s l = do {
     stage \<leftarrow> plan_stage pl s;
     let l = (if sg_inputs_count stage > wl_inputs l then l\<lparr> wl_inputs := sg_inputs_count stage \<rparr> else l);
     let l = (if sg_outputs_count stage > wl_outputs l then l\<lparr> wl_outputs := sg_outputs_count stage \<rparr> else l);
     if sg_chain_len stage \<ge> 2 \<and> unat (sg_chain_id stage) = s then
       (if int (unat (sg_chain_len stage)) > 65535 - int s then fail ()
        else
          let chain_end = (word_of_nat s + sg_chain_len stage :: u16) in
          if chain_end > hd_num_stages hdr then fail ()
          else
            let l = (if sg_chain_len stage > wl_chain_stages l
                     then l\<lparr> wl_chain_stages := sg_chain_len stage \<rparr> else l) in
            andthen (for_range s (unat chain_end) (count_spatial_stage pl hdr) 0) (\<lambda>spatial.
              ret (if spatial > wl_chain_spatial_ops l then l\<lparr> wl_chain_spatial_ops := spatial \<rparr> else l)))
     else ret l }"

definition workspace_limits :: "tigris_plan option \<Rightarrow> (unit + workspace_limits_t) option" where
  "workspace_limits po = (case po of None \<Rightarrow> fail () | Some pl \<Rightarrow>
     (case p_header pl of None \<Rightarrow> fail () | Some hdr \<Rightarrow>
       if p_stages pl = None \<or> p_ops pl = None \<or> p_index_pool pl = None then fail ()
       else for_range 0 (unat (hd_num_stages hdr)) (limits_of_stage pl hdr)
         \<lparr> wl_tensors = hd_num_tensors hdr, wl_inputs = 0, wl_outputs = 0, wl_chain_stages = 0,
           wl_chain_spatial_ops = 0, wl_subgraph_depth = p_subgraph_depth pl \<rparr>))"

text \<open>The height-spatial operators of a stage and of a run of stages.\<close>

definition spatial_at :: "tigris_plan \<Rightarrow> tigris_stage \<Rightarrow> nat \<Rightarrow> bool" where
  "spatial_at pl stage j = (\<exists>k oper. tigris_stage_ops pl stage j = Some k \<and> plan_op pl (unat k) = Some oper \<and>
     tigris_height_spatial_op (op_op_type oper))"

definition stage_spatial_ops :: "tigris_plan \<Rightarrow> nat \<Rightarrow> nat" where
  "stage_spatial_ops pl c = (case plan_stage pl c of None \<Rightarrow> 0
     | Some stage \<Rightarrow> (\<Sum>j < unat (sg_ops_count stage). of_bool (spatial_at pl stage j)))"

lemma sum_of_bool_le: "(\<Sum>j < n. of_bool (P j)) \<le> (n :: nat)"
  by (induction n) auto

lemma stage_spatial_le: "stage_spatial_ops pl c \<le> 65535"
proof (cases "plan_stage pl c")
  case (Some stage)
  then show ?thesis
    using sum_of_bool_le [of "spatial_at pl stage" "unat (sg_ops_count stage)"] unat_u16_less [of "sg_ops_count stage"]
    by (simp add: stage_spatial_ops_def)
qed (simp add: stage_spatial_ops_def)

section \<open>The scan of an accepted plan\<close>

text \<open>What the scan needs of the stages.\<close>

definition stage_ops_defined :: "tigris_plan \<Rightarrow> file_header \<Rightarrow> tigris_stage \<Rightarrow> bool" where
  "stage_ops_defined pl hdr stage = (\<forall>j < unat (sg_ops_count stage). \<exists>k oper.
     tigris_stage_ops pl stage j = Some k \<and> k < hd_num_ops hdr \<and> plan_op pl (unat k) = Some oper)"

definition scannable :: "tigris_plan \<Rightarrow> file_header \<Rightarrow> bool" where
  "scannable pl hdr = (\<forall>s < unat (hd_num_stages hdr). \<exists>stage. plan_stage pl s = Some stage \<and>
     stage_ops_defined pl hdr stage \<and>
     (2 \<le> unat (sg_chain_len stage) \<and> unat (sg_chain_id stage) = s \<longrightarrow>
        s + unat (sg_chain_len stage) \<le> unat (hd_num_stages hdr)))"

lemma count_stage_ops:
  assumes "stage_ops_defined pl hdr stage" and "unat x + unat (sg_ops_count stage) < 4294967296"
  shows "wp (for_range 0 (unat (sg_ops_count stage)) (count_spatial_op pl hdr stage) x)
    (yields (\<lambda>r. unat r = unat x + (\<Sum>j < unat (sg_ops_count stage). of_bool (spatial_at pl stage j))))"
proof (rule wp_for_range_yields [where I = "\<lambda>k r. unat r = unat x + (\<Sum>j < k. of_bool (spatial_at pl stage j))"])
  fix k and r :: u32 assume k: "k < unat (sg_ops_count stage)"
    and r: "unat r = unat x + (\<Sum>j < k. of_bool (spatial_at pl stage j))"
  obtain o1 oper where op: "tigris_stage_ops pl stage k = Some o1" "o1 < hd_num_ops hdr"
    "plan_op pl (unat o1) = Some oper" using assms(1) k by (auto simp: stage_ops_defined_def)
  have "unat r + 1 < 4294967296"
    using r assms(2) k sum_of_bool_le [of "spatial_at pl stage" k] by linarith
  then have inc: "unat (r + 1) = unat r + 1" using unat_add_u32 [of r 1] by simp
  have "spatial_at pl stage k = tigris_height_spatial_op (op_op_type oper)"
    using op by (auto simp: spatial_at_def)
  then show "wp (count_spatial_op pl hdr stage k r)
      (yields (\<lambda>r. unat r = unat x + (\<Sum>j < Suc k. of_bool (spatial_at pl stage j))))"
    using op r inc by (simp add: count_spatial_op_def not_le)
qed simp_all

lemma count_chain:
  assumes "scannable pl hdr" and "s + n \<le> unat (hd_num_stages hdr)"
  shows "wp (for_range s (s + n) (count_spatial_stage pl hdr) 0)
    (yields (\<lambda>r. unat r = (\<Sum>c = s..<s + n. stage_spatial_ops pl c)))"
proof (rule wp_for_range_yields [where I = "\<lambda>k r. unat r = (\<Sum>c = s..<k. stage_spatial_ops pl c)"])
  fix k and r :: u32 assume k: "s \<le> k" "k < s + n" and r: "unat r = (\<Sum>c = s..<k. stage_spatial_ops pl c)"
  obtain stage where st: "plan_stage pl k = Some stage" "stage_ops_defined pl hdr stage"
    using assms k less_le_trans [of k "s + n"] unfolding scannable_def by blast
  have "(\<Sum>c = s..<k. stage_spatial_ops pl c) \<le> (k - s) * 65535"
    using sum_bounded_above [of "{s..<k}" "stage_spatial_ops pl" 65535] stage_spatial_le by simp
  moreover have "k - s \<le> 65534" using k assms(2) unat_u16_less [of "hd_num_stages hdr"] by linarith
  ultimately have "unat r + unat (sg_ops_count stage) < 4294967296"
    using r unat_u16_less [of "sg_ops_count stage"] by linarith
  from count_stage_ops [OF st(2) this]
  have "wp (for_range 0 (unat (sg_ops_count stage)) (count_spatial_op pl hdr stage) r)
      (yields (\<lambda>q. unat q = unat r + stage_spatial_ops pl k))"
    using st(1) by (simp add: stage_spatial_ops_def)
  then show "wp (count_spatial_stage pl hdr k r) (yields (\<lambda>q. unat q = (\<Sum>c = s..<Suc k. stage_spatial_ops pl c)))"
    using st(1) k r by (simp add: count_spatial_stage_def)
qed simp_all

text \<open>What a stage asks of the limits.\<close>

definition stage_fits :: "tigris_plan \<Rightarrow> workspace_limits_t \<Rightarrow> nat \<Rightarrow> bool" where
  "stage_fits pl l s = (\<forall>stage. plan_stage pl s = Some stage \<longrightarrow>
     sg_inputs_count stage \<le> wl_inputs l \<and> sg_outputs_count stage \<le> wl_outputs l \<and>
     (2 \<le> unat (sg_chain_len stage) \<and> unat (sg_chain_id stage) = s \<longrightarrow>
        sg_chain_len stage \<le> wl_chain_stages l \<and>
        (\<Sum>c = s..<s + unat (sg_chain_len stage). stage_spatial_ops pl c) \<le> unat (wl_chain_spatial_ops l)))"

definition limits_le :: "workspace_limits_t \<Rightarrow> workspace_limits_t \<Rightarrow> bool" where
  "limits_le l m = (wl_inputs l \<le> wl_inputs m \<and> wl_outputs l \<le> wl_outputs m \<and>
     wl_chain_stages l \<le> wl_chain_stages m \<and> wl_chain_spatial_ops l \<le> wl_chain_spatial_ops m \<and>
     wl_tensors m = wl_tensors l \<and> wl_subgraph_depth m = wl_subgraph_depth l)"

lemma stage_fits_mono: "stage_fits pl l s \<Longrightarrow> limits_le l m \<Longrightarrow> stage_fits pl m s"
  by (fastforce simp: stage_fits_def limits_le_def word_le_nat_alt intro: order_trans)

lemma wp_limits_of_stage:
  assumes "scannable pl hdr" and s: "s < unat (hd_num_stages hdr)"
  shows "wp (limits_of_stage pl hdr s l) (yields (\<lambda>m. limits_le l m \<and> stage_fits pl m s))"
proof -
  obtain stage where st: "plan_stage pl s = Some stage"
    and chain: "2 \<le> unat (sg_chain_len stage) \<and> unat (sg_chain_id stage) = s \<longrightarrow>
        s + unat (sg_chain_len stage) \<le> unat (hd_num_stages hdr)"
    using assms by (auto simp: scannable_def)
  let ?n = "unat (sg_chain_len stage)"
  show ?thesis
  proof (cases "sg_chain_len stage \<ge> 2 \<and> unat (sg_chain_id stage) = s")
    case False
    then show ?thesis using st by (auto simp: limits_of_stage_def limits_le_def stage_fits_def Let_def word_cmp)
  next
    case True
    then have n: "2 \<le> ?n" by (simp add: word_le_nat_alt)
    then have fit: "s + ?n \<le> unat (hd_num_stages hdr)" using chain True by simp
    then have small: "s + ?n < 65536" using unat_u16_less [of "hd_num_stages hdr"] by linarith
    then have e: "unat (word_of_nat s + sg_chain_len stage :: u16) = s + ?n"
      by (simp add: unat_word_ariths unat_of_nat)
    have g1: "\<not> int ?n > 65535 - int s" using small by linarith
    have g2: "\<not> (word_of_nat s + sg_chain_len stage :: u16) > hd_num_stages hdr"
      using fit e by (simp add: word_less_nat_alt)
    define l1 where "l1 = (if sg_inputs_count stage > wl_inputs l then l\<lparr> wl_inputs := sg_inputs_count stage \<rparr> else l)"
    define l2 where "l2 = (if sg_outputs_count stage > wl_outputs l1 then l1\<lparr> wl_outputs := sg_outputs_count stage \<rparr> else l1)"
    define l3 where "l3 = (if sg_chain_len stage > wl_chain_stages l2 then l2\<lparr> wl_chain_stages := sg_chain_len stage \<rparr> else l2)"
    have scan: "limits_of_stage pl hdr s l = andthen (for_range s (s + ?n) (count_spatial_stage pl hdr) 0)
        (\<lambda>spatial. ret (if spatial > wl_chain_spatial_ops l3 then l3\<lparr> wl_chain_spatial_ops := spatial \<rparr> else l3))"
      using True g1 g2 unfolding e [symmetric] limits_of_stage_def st bind.bind_lunit Let_def l3_def l2_def l1_def
      by (simp only: if_True if_False simp_thms)
    have l3: "limits_le l l3" "sg_inputs_count stage \<le> wl_inputs l3" "sg_outputs_count stage \<le> wl_outputs l3"
      "sg_chain_len stage \<le> wl_chain_stages l3"
      by (auto simp: l3_def l2_def l1_def limits_le_def)
    show ?thesis
      unfolding scan
      by (rule wp_andthen_yields [OF count_chain [OF assms(1) fit]])
        (use l3 st True in \<open>auto simp: limits_le_def stage_fits_def word_cmp\<close>)
  qed
qed

text \<open>The loader's checks make every plan scannable.\<close>

lemma accepted_scannable:
  assumes ok: "validate_stages ls = Some (Inr ls1)" and complete: "schedule_complete ls1 = Some (Inr ls2)"
    and t: "schedule_tables ls"
  shows "scannable (ls_candidate ls) (ls_hdr ls)"
  unfolding scannable_def
proof (intro allI impI)
  fix s assume s: "s < unat (hd_num_stages (ls_hdr ls))"
  let ?pl = "ls_candidate ls" and ?m = "unat (ls_next_scheduled_op ls1)"
  note v = validate_stagesD [OF ok]
  have m: "?m = unat (hd_num_ops (ls_hdr ls))"
    using complete v by (auto simp: schedule_complete_def same_tables_def split: if_splits)
  obtain stage where st: "plan_stage ?pl s = Some stage" "check_chain ls s stage = Some (Inr ())"
    using v s by (auto simp: stage_ok_def)
  have ops: "stage_operators ?pl s = map Some [ops_before (stage_operators ?pl) s ..< ops_before (stage_operators ?pl) (Suc s)]"
    "ops_before (stage_operators ?pl) (Suc s) \<le> ?m"
    using ops_of_stage [of "stage_operators ?pl" _ ?m s] v s by auto
  have "stage_ops_defined ?pl (ls_hdr ls) stage"
    unfolding stage_ops_defined_def
  proof (intro allI impI)
    fix j assume j: "j < unat (sg_ops_count stage)"
    have len: "length (stage_operators ?pl s) = unat (sg_ops_count stage)"
      using st(1) by (simp add: stage_operators_def)
    have "stage_operators ?pl s ! j = map_option unat (tigris_stage_ops ?pl stage j)"
      using j st(1) by (simp add: stage_operators_def tigris_stage_ops_def)
    moreover have "stage_operators ?pl s ! j = Some (ops_before (stage_operators ?pl) s + j)"
      using j len by (subst ops(1)) (subst (asm) ops(1), simp)
    ultimately obtain k where k: "tigris_stage_ops ?pl stage j = Some k"
      "unat k = ops_before (stage_operators ?pl) s + j" by (metis map_option_eq_Some)
    have "unat k < unat (hd_num_ops (ls_hdr ls))"
      using k(2) j len ops(2) m by simp
    moreover from this obtain oper where "plan_op ?pl (unat k) = Some oper"
      using t by (auto simp: schedule_tables_def)
    ultimately show "\<exists>k oper. tigris_stage_ops ?pl stage j = Some k \<and> k < hd_num_ops (ls_hdr ls) \<and>
        plan_op ?pl (unat k) = Some oper"
      using k by (auto simp: word_less_nat_alt)
  qed
  moreover have "s + unat (sg_chain_len stage) \<le> unat (hd_num_stages (ls_hdr ls))"
    if "2 \<le> unat (sg_chain_len stage)" "unat (sg_chain_id stage) = s"
  proof -
    have "sg_chain_len stage \<noteq> 0" using that(1) by auto
    then show ?thesis using check_chainD [OF st(2,1)] that(2) by simp
  qed
  ultimately show "\<exists>stage. plan_stage ?pl s = Some stage \<and> stage_ops_defined ?pl (ls_hdr ls) stage \<and>
     (2 \<le> unat (sg_chain_len stage) \<and> unat (sg_chain_id stage) = s \<longrightarrow>
        s + unat (sg_chain_len stage) \<le> unat (hd_num_stages (ls_hdr ls)))"
    using st by blast
qed

lemma wp_workspace_limits:
  assumes "scannable pl hdr" and "p_header pl = Some hdr" and "p_stages pl \<noteq> None" "p_ops pl \<noteq> None"
    and "p_index_pool pl \<noteq> None"
  shows "wp (workspace_limits (Some pl)) (yields (\<lambda>l. wl_tensors l = hd_num_tensors hdr \<and>
     wl_subgraph_depth l = p_subgraph_depth pl \<and> (\<forall>s < unat (hd_num_stages hdr). stage_fits pl l s)))"
proof -
  let ?l0 = "\<lparr> wl_tensors = hd_num_tensors hdr, wl_inputs = 0, wl_outputs = 0, wl_chain_stages = 0,
           wl_chain_spatial_ops = 0, wl_subgraph_depth = p_subgraph_depth pl \<rparr>"
  have "wp (for_range 0 (unat (hd_num_stages hdr)) (limits_of_stage pl hdr) ?l0)
    (yields (\<lambda>l. limits_le ?l0 l \<and> (\<forall>s < unat (hd_num_stages hdr). stage_fits pl l s)))"
  proof (rule wp_for_range_yields [where I = "\<lambda>k l. limits_le ?l0 l \<and> (\<forall>s < k. stage_fits pl l s)"])
    fix k l assume k: "k < unat (hd_num_stages hdr)" and inv: "limits_le ?l0 l \<and> (\<forall>s < k. stage_fits pl l s)"
    have trans: "limits_le ?l0 l \<Longrightarrow> limits_le l m \<Longrightarrow> limits_le ?l0 m" for m
      by (auto simp: limits_le_def)
    show "wp (limits_of_stage pl hdr k l) (yields (\<lambda>m. limits_le ?l0 m \<and> (\<forall>s < Suc k. stage_fits pl m s)))"
      by (rule wp_mono [OF wp_limits_of_stage [OF assms(1) k]])
        (use inv trans stage_fits_mono in \<open>auto elim!: yields_mono simp: less_Suc_eq\<close>)
  qed (simp_all add: limits_le_def)
  then show ?thesis
    using assms(2-5) by (auto simp: workspace_limits_def elim!: wp_mono yields_mono simp: limits_le_def)
qed

text \<open>C37. The limits of an accepted plan exist and are large enough. If the loader's stage checks accept
  the plan, the scan succeeds and reads only inside the tables, and its limits are at least: the
  plan's tensors and nesting depth, each stage's inputs and outputs, each chain's length, and the
  number of height-spatial operators of each chain, counted without wrap-around.\<close>

theorem workspace_limits_cover:
  assumes "unat n = length b" and "file_size_ok n" and "load_tables (Some b) n z = Some (Inr ls)"
    and "hd_num_stages (ls_hdr ls) \<noteq> 0"
    and "validate_stages ls = Some (Inr ls1)" and "schedule_complete ls1 = Some (Inr ls2)"
  shows "\<exists>l. workspace_limits (Some (ls_candidate ls)) = Some (Inr l) \<and>
    wl_tensors l = hd_num_tensors (ls_hdr ls) \<and> wl_subgraph_depth l = p_subgraph_depth (ls_candidate ls) \<and>
    (\<forall>s < unat (hd_num_stages (ls_hdr ls)). stage_fits (ls_candidate ls) l s)"
proof -
  let ?pl = "ls_candidate ls"
  have "wp (load_tables (Some b) n z) (ok (\<lambda>ls. ls_ok 8 ls \<and> pools_in ls \<and> io_in ls \<and> tensors_ok ls \<and>
     ls_buf_len ls = n \<and> Some b = Some (p_buf (ls_candidate ls)) \<and> hd_file_size (ls_hdr ls) = n))"
    by (rule wp_load_tables) (use assms in auto)
  then have t: "ls_ok 8 ls" "pools_in ls" using assms(3) by simp_all
  have "wp (workspace_limits (Some ?pl)) (yields (\<lambda>l. wl_tensors l = hd_num_tensors (ls_hdr ls) \<and>
      wl_subgraph_depth l = p_subgraph_depth ?pl \<and> (\<forall>s < unat (hd_num_stages (ls_hdr ls)). stage_fits ?pl l s)))"
    by (rule wp_workspace_limits [OF accepted_scannable [OF assms(5,6) schedule_tablesI [OF t]]])
      (use t assms(4) in \<open>auto simp: ls_ok_def tables_present_def pools_in_def Let_def\<close>)
  then show ?thesis by (auto dest!: wpD simp: yields_def split: sum.splits)
qed

lemma workspace_limits_cover_witness:
  "\<exists>l. workspace_limits (Some (ls_candidate demo_loaded)) = Some (Inr l) \<and> wl_tensors l = 2 \<and>
     stage_fits (ls_candidate demo_loaded) l 0"
proof -
  have "schedule_complete demo_scheduled = Some (Inr demo_scheduled)"
    by (simp add: schedule_complete_def demo_scheduled_def demo_loaded_parts)
  from workspace_limits_cover [OF _ _ demo_load _ demo_stages this] show ?thesis
    by (auto simp: length_demo_file file_size_ok_def demo_loaded_parts)
qed

end
