(* ===== verification/Workspace.thy ===== *)
theory Workspace
  imports Workspace_Limits "HOL-Library.Signed_Division"
begin

unbundle bit_operations_syntax

text \<open>
  The executor's workspace: the first part of \<open>src/tigris_executor.c\<close> and the sizing formula of
  \<open>include/tigris_executor.h\<close>. The arrays of a run are carved out of one caller buffer, sized from
  limits that are read off the plan.

  \<open>size_t\<close> and \<open>uintptr_t\<close> are words of one unspecified length, so every statement holds on 32-bit
  and on 64-bit targets; the sizes and alignments of the target's types are a record.

  What is shown: the computed size is the formula of the header, or 0 exactly when that does not
  fit \<open>size_t\<close>; a buffer of at least that size, at any address, is accepted, and the arrays lie
  inside it, aligned, in order and without overlap.
\<close>

section \<open>Targets\<close>

record target =
  tg_pointer_bytes :: nat
  tg_pointer_align :: nat
  tg_int32_align :: nat
  tg_uint16_align :: nat

text \<open>What the C language promises: alignments are powers of two and divide the size.\<close>

definition power_of_two :: "nat \<Rightarrow> bool" where
  "power_of_two n = (\<exists>k < 16. n = 2 ^ k)"

definition target_ok :: "target \<Rightarrow> bool" where
  "target_ok tg = (tg_pointer_bytes tg \<le> 16 \<and> 0 < tg_pointer_bytes tg \<and>
     tg_pointer_align tg dvd tg_pointer_bytes tg \<and> tg_int32_align tg dvd 4 \<and> tg_uint16_align tg dvd 2 \<and>
     power_of_two (tg_pointer_align tg) \<and> power_of_two (tg_int32_align tg) \<and>
     power_of_two (tg_uint16_align tg))"

definition align_address :: "'a::len word \<Rightarrow> 'a word \<Rightarrow> 'a word" where
  "align_address address alignment = (address + alignment - 1) AND NOT (alignment - 1)"

definition floor_div :: "int \<Rightarrow> int \<Rightarrow> int option" where
  "floor_div a b =
     (if b = 0 then None
      else if a \<ge> 0 then i32 (a sdiv b)
      else do { na \<leftarrow> i32 (- a); x \<leftarrow> i32 (na + b); y \<leftarrow> i32 (x - 1); q \<leftarrow> i32 (y sdiv b); i32 (- q) })"

section \<open>The size\<close>

definition workspace_bytes_for_limits :: "target \<Rightarrow> workspace_limits_t \<Rightarrow> 'a::len word" where
  "workspace_bytes_for_limits tg l =
     (let ptr = word_of_nat (tg_pointer_bytes tg);
          total = word_of_nat (tg_pointer_align tg) - 1;
          count = ucast (wl_inputs l) + ucast (wl_outputs l) +
            (if wl_chain_stages l \<noteq> 0 then ucast (wl_outputs l) else 0) + 2 * ucast (wl_chain_stages l) in
      if count > (- 1 - total) div ptr then 0
      else let total = total + count * ptr in
      if total > - 1 - (word_of_nat (tg_int32_align tg) - 1) then 0
      else let total = total + (word_of_nat (tg_int32_align tg) - 1);
               count = 15 * ucast (wl_chain_stages l) + 2 * ucast (wl_tensors l) + ucast (wl_outputs l) in
      if ucast (wl_chain_spatial_ops l) > (- 1 - count) div 13 then 0
      else let count = count + 13 * ucast (wl_chain_spatial_ops l) in
      if count > (- 1 - total) div 4 then 0
      else let total = total + count * 4 in
      if total > - 1 - (word_of_nat (tg_uint16_align tg) - 1) then 0
      else let total = total + (word_of_nat (tg_uint16_align tg) - 1);
               count = 2 * ucast (wl_tensors l) + 4 + 4 * ucast (wl_subgraph_depth l) in
      if count > (- 1 - total) div 2 then 0
      else total + count * 2)"

text \<open>The macro of the header, over the integers.\<close>

definition workspace_formula :: "target \<Rightarrow> workspace_limits_t \<Rightarrow> nat" where
  "workspace_formula tg l =
     (tg_pointer_align tg - 1) +
     (unat (wl_inputs l) + unat (wl_outputs l) +
        (if wl_chain_stages l \<noteq> 0 then unat (wl_outputs l) else 0) +
        2 * unat (wl_chain_stages l)) * tg_pointer_bytes tg +
     (tg_int32_align tg - 1) +
     (15 * unat (wl_chain_stages l) + 13 * unat (wl_chain_spatial_ops l) + 2 * unat (wl_tensors l) +
        unat (wl_outputs l)) * 4 +
     (tg_uint16_align tg - 1) +
     (2 * unat (wl_tensors l) + 4 + 4 * unat (wl_subgraph_depth l)) * 2"

text \<open>One guarded step of the sum: it is taken exactly when the result fits.\<close>

lemma grow:
  fixes total count k :: "'a::len word"
  assumes "k \<noteq> 0"
  shows "(count > (- 1 - total) div k) = (\<not> unat total + unat count * unat k < 2 ^ LENGTH('a))"
    and "unat total + unat count * unat k < 2 ^ LENGTH('a) \<Longrightarrow>
      unat (total + count * k) = unat total + unat count * unat k"
proof -
  have max: "unat (- 1 - total) = 2 ^ LENGTH('a) - 1 - unat total"
    by (simp add: unat_sub unsigned_minus_1_eq_mask mask_eq_exp_minus_1)
  have k: "0 < unat k" using assms by (simp add: unat_gt_0)
  have t: "unat total < 2 ^ LENGTH('a)" by (rule unsigned_less)
  have "count > (- 1 - total) div k \<longleftrightarrow> \<not> unat count \<le> (2 ^ LENGTH('a) - 1 - unat total) div unat k"
    by (simp add: word_less_nat_alt unat_div max not_le)
  also have "\<dots> \<longleftrightarrow> \<not> unat count * unat k \<le> 2 ^ LENGTH('a) - 1 - unat total"
    using k by (simp add: less_eq_div_iff_mult_less_eq)
  also have "\<dots> \<longleftrightarrow> \<not> unat total + unat count * unat k < 2 ^ LENGTH('a)"
    using t by linarith
  finally show "(count > (- 1 - total) div k) = (\<not> unat total + unat count * unat k < 2 ^ LENGTH('a))" .
  assume "unat total + unat count * unat k < 2 ^ LENGTH('a)"
  then show "unat (total + count * k) = unat total + unat count * unat k"
    by (simp add: unat_word_ariths)
qed

lemma grow_one:
  fixes total d :: "'a::len word"
  shows "(total > - 1 - d) = (\<not> unat total + unat d < 2 ^ LENGTH('a))"
    and "unat total + unat d < 2 ^ LENGTH('a) \<Longrightarrow> unat (total + d) = unat total + unat d"
proof -
  have "unat (- 1 - d) = 2 ^ LENGTH('a) - 1 - unat d"
    by (simp add: unat_sub unsigned_minus_1_eq_mask mask_eq_exp_minus_1)
  then show "(total > - 1 - d) = (\<not> unat total + unat d < 2 ^ LENGTH('a))"
    using unsigned_less [of d, where 'a = nat] by (simp only: word_less_nat_alt) linarith
qed (simp add: unat_word_ariths)

text \<open>Counts are small: at least 32 bits hold them.\<close>

lemma ucast_word_of_nat: "(ucast (x :: 'b::len word) :: 'a::len word) = word_of_nat (unat x)"
  by simp

lemma fits32: "32 \<le> LENGTH('a::len) \<Longrightarrow> n < 4294967296 \<Longrightarrow> (n :: nat) < 2 ^ LENGTH('a)"
  using power_increasing [of 32 "LENGTH('a)" "2 :: nat"] by simp

lemma unat_small: "32 \<le> LENGTH('a::len) \<Longrightarrow> n < 4294967296 \<Longrightarrow> unat (word_of_nat n :: 'a word) = n"
  using fits32 [where 'a = 'a, of n] by (simp add: unat_of_nat)

lemma target_bounds:
  assumes "target_ok tg"
  shows "0 < tg_pointer_bytes tg" "tg_pointer_bytes tg \<le> 16"
    "0 < tg_pointer_align tg" "tg_pointer_align tg \<le> 16"
    "0 < tg_int32_align tg" "tg_int32_align tg \<le> 4"
    "0 < tg_uint16_align tg" "tg_uint16_align tg \<le> 2"
  using assms dvd_imp_le [of "tg_pointer_align tg" "tg_pointer_bytes tg"]
    dvd_imp_le [of "tg_int32_align tg" 4] dvd_imp_le [of "tg_uint16_align tg" 2]
  by (auto simp: target_ok_def power_of_two_def)

text \<open>The guarded sum, for any summands.\<close>

lemma guarded_sum:
  fixes t0 c1 p d1 c2 sp d2 c3 :: "'a::len word"
  assumes "p \<noteq> 0" "(13 :: 'a word) \<noteq> 0" "(4 :: 'a word) \<noteq> 0" "(2 :: 'a word) \<noteq> 0"
    and num: "unat (13 :: 'a word) = 13" "unat (4 :: 'a word) = 4" "unat (2 :: 'a word) = 2"
  defines "n \<equiv> unat t0 + unat c1 * unat p + unat d1 + (unat c2 + 13 * unat sp) * 4 + unat d2 + unat c3 * 2"
  shows "unat (if c1 > (- 1 - t0) div p then 0 else let t1 = t0 + c1 * p in
     if t1 > - 1 - d1 then 0 else let t2 = t1 + d1 in
     if sp > (- 1 - c2) div 13 then 0 else let cc = c2 + 13 * sp in
     if cc > (- 1 - t2) div 4 then 0 else let t3 = t2 + cc * 4 in
     if t3 > - 1 - d2 then 0 else let t4 = t3 + d2 in
     if c3 > (- 1 - t4) div 2 then 0 else t4 + c3 * 2) = (if n < 2 ^ LENGTH('a) then n else 0)"
    (is "unat ?result = _")
proof -
  let ?t1 = "t0 + c1 * p" and ?cc = "c2 + 13 * sp"
  let ?t2 = "?t1 + d1"
  let ?t3 = "?t2 + ?cc * 4"
  let ?t4 = "?t3 + d2"
  let ?stop = "c1 > (- 1 - t0) div p \<or> ?t1 > - 1 - d1 \<or> sp > (- 1 - c2) div 13 \<or>
    ?cc > (- 1 - ?t2) div 4 \<or> ?t3 > - 1 - d2 \<or> c3 > (- 1 - ?t4) div 2"
  let ?M = "2 ^ LENGTH('a) :: nat"
  note g1 = grow [OF assms(1), where count = c1 and total = t0] and g2 = grow_one [where total = ?t1 and d = d1]
    and g3 = grow [OF assms(2), where count = sp and total = c2, unfolded num, unfolded mult.commute [of _ 13]]
    and g4 = grow [OF assms(3), where count = ?cc and total = ?t2, unfolded num] and g5 = grow_one [where total = ?t3 and d = d2]
    and g6 = grow [OF assms(4), where count = c3 and total = ?t4, unfolded num]
  have val: "?result = (if ?stop then 0 else ?t4 + c3 * 2)"
    by (simp add: Let_def)
  show ?thesis
  proof (cases "n < ?M")
    case True
    have "unat ?t1 = unat t0 + unat c1 * unat p" by (rule g1(2)) (use True in \<open>simp add: n_def\<close>)
    moreover from this have "unat ?t2 = unat t0 + unat c1 * unat p + unat d1"
      using g2(2) True by (simp add: n_def)
    moreover have "unat ?cc = unat c2 + 13 * unat sp" by (rule g3(2)) (use True in \<open>simp add: n_def\<close>)
    moreover from calculation have "unat ?t3 = unat t0 + unat c1 * unat p + unat d1 + (unat c2 + 13 * unat sp) * 4"
      using g4(2) True by (simp add: n_def)
    moreover from calculation have "unat ?t4 = unat t0 + unat c1 * unat p + unat d1 + (unat c2 + 13 * unat sp) * 4 + unat d2"
      using g5(2) True by (simp add: n_def)
    ultimately show ?thesis
      using True g1(1) g2(1) g3(1) g4(1) g5(1) g6 unfolding val by (simp add: n_def)
  next
    case False
    have ?stop
    proof (rule ccontr)
      assume go: "\<not> ?stop"
      then have "unat ?t1 = unat t0 + unat c1 * unat p" using g1 by blast
      moreover from this have "unat ?t2 = unat t0 + unat c1 * unat p + unat d1" using g2 go by simp
      moreover have "unat ?cc = unat c2 + 13 * unat sp" using g3 go by blast
      moreover from calculation have "unat ?t3 = unat t0 + unat c1 * unat p + unat d1 + (unat c2 + 13 * unat sp) * 4"
        using g4 go by simp
      moreover from calculation have "unat ?t4 = unat t0 + unat c1 * unat p + unat d1 + (unat c2 + 13 * unat sp) * 4 + unat d2"
        using g5 go by simp
      ultimately have "n < ?M" using g6(1) go by (simp add: n_def)
      with False show False by simp
    qed
    then show ?thesis using False unfolding val by simp
  qed
qed

text \<open>The size the executor asks for is the formula of the header if \<open>size_t\<close> can hold it and 0
  otherwise: no step of the guarded sum wraps, and no guard refuses a size that fits.\<close>

lemma unat_workspace_bytes:
  assumes "target_ok tg" and "32 \<le> LENGTH('a::len)"
  shows "unat (workspace_bytes_for_limits tg l :: 'a word) =
    (if workspace_formula tg l < 2 ^ LENGTH('a) then workspace_formula tg l else 0)"
proof -
  let ?M = "2 ^ LENGTH('a) :: nat"
  note t = target_bounds [OF assms(1)]
  have u16: "unat (x :: u16) < 65536" for x by (rule unat_u16_less)
  note bounds = u16 [of "wl_inputs l"] u16 [of "wl_outputs l"] u16 [of "wl_chain_stages l"]
    u16 [of "wl_tensors l"] u16 [of "wl_subgraph_depth l"]
  note w = unat_small [OF assms(2)]
  let ?p = "word_of_nat (tg_pointer_bytes tg) :: 'a word"
  let ?t0 = "word_of_nat (tg_pointer_align tg) - 1 :: 'a word"
  let ?d1 = "word_of_nat (tg_int32_align tg) - 1 :: 'a word" and ?d2 = "word_of_nat (tg_uint16_align tg) - 1 :: 'a word"
  let ?c1 = "ucast (wl_inputs l) + ucast (wl_outputs l) +
      (if wl_chain_stages l \<noteq> 0 then ucast (wl_outputs l) else 0) + 2 * ucast (wl_chain_stages l) :: 'a word"
  let ?c2 = "15 * ucast (wl_chain_stages l) + 2 * ucast (wl_tensors l) + ucast (wl_outputs l) :: 'a word"
  let ?c3 = "2 * ucast (wl_tensors l) + 4 + 4 * ucast (wl_subgraph_depth l) :: 'a word"
  let ?sp = "ucast (wl_chain_spatial_ops l) :: 'a word"
  have minus: "unat (word_of_nat n - 1 :: 'a word) = n - 1" if "0 < n" "n \<le> 16" for n
    using w [of "n - 1"] that by (simp add: of_nat_diff)
  have c1: "?c1 = word_of_nat (unat (wl_inputs l) + unat (wl_outputs l) +
      (if wl_chain_stages l \<noteq> 0 then unat (wl_outputs l) else 0) + 2 * unat (wl_chain_stages l))"
    and c2: "?c2 = word_of_nat (15 * unat (wl_chain_stages l) + 2 * unat (wl_tensors l) + unat (wl_outputs l))"
    and c3: "?c3 = word_of_nat (2 * unat (wl_tensors l) + 4 + 4 * unat (wl_subgraph_depth l))"
    and sp: "?sp = word_of_nat (unat (wl_chain_spatial_ops l))"
    by simp_all
  have unats: "unat ?p = tg_pointer_bytes tg" "unat ?t0 = tg_pointer_align tg - 1"
    "unat ?d1 = tg_int32_align tg - 1" "unat ?d2 = tg_uint16_align tg - 1"
    using t w minus by simp_all
  have counts: "unat ?c1 = unat (wl_inputs l) + unat (wl_outputs l) +
      (if wl_chain_stages l \<noteq> 0 then unat (wl_outputs l) else 0) + 2 * unat (wl_chain_stages l)"
    "unat ?c2 = 15 * unat (wl_chain_stages l) + 2 * unat (wl_tensors l) + unat (wl_outputs l)"
    "unat ?c3 = 2 * unat (wl_tensors l) + 4 + 4 * unat (wl_subgraph_depth l)"
    "unat ?sp = unat (wl_chain_spatial_ops l)"
    unfolding c1 c2 c3 sp using bounds unat_u32_less [of "wl_chain_spatial_ops l"]
    by (auto intro!: w simp del: of_nat_add of_nat_mult of_nat_unat)
  have num: "unat (13 :: 'a word) = 13" "unat (4 :: 'a word) = 4" "unat (2 :: 'a word) = 2"
    using w [of 13] w [of 4] w [of 2] by simp_all
  have nz: "?p \<noteq> 0" "(13 :: 'a word) \<noteq> 0" "(4 :: 'a word) \<noteq> 0" "(2 :: 'a word) \<noteq> 0"
    using unats(1) t(1) num by (metis unat_0 less_irrefl zero_neq_numeral)+
  have formula: "unat ?t0 + unat ?c1 * unat ?p + unat ?d1 + (unat ?c2 + 13 * unat ?sp) * 4 + unat ?d2 + unat ?c3 * 2
      = workspace_formula tg l"
    unfolding unats counts workspace_formula_def by simp
  show ?thesis
    using guarded_sum [OF nz num, where ?c1.0 = ?c1 and ?t0.0 = ?t0 and ?d1.0 = ?d1 and sp = ?sp and ?c2.0 = ?c2 and ?d2.0 = ?d2 and ?c3.0 = ?c3] unfolding formula
    by (simp only: workspace_bytes_for_limits_def Let_def)
qed

section \<open>The layout\<close>

record (overloaded) 'a executor_workspace_impl =
  ws_input_ptrs :: "'a word"
  ws_output_ptrs :: "'a word"
  ws_roll_last_fast :: "'a word"
  ws_stages :: "'a word"
  ws_weight_bases :: "'a word"
  ws_info :: "'a word"
  ws_s_out :: "'a word"
  ws_s_in :: "'a word"
  ws_in_starts :: "'a word"
  ws_in_ends :: "'a word"
  ws_out_starts :: "'a word"
  ws_out_ends :: "'a word"
  ws_sp_op_indices :: "'a word"
  ws_sp_strides :: "'a word"
  ws_sp_eff_khs :: "'a word"
  ws_sp_pad_tops :: "'a word"
  ws_sp_full_in_hs :: "'a word"
  ws_sp_full_in_ws :: "'a word"
  ws_sp_full_out_ws :: "'a word"
  ws_sp_tile_in_h :: "'a word"
  ws_sp_tile_out_h :: "'a word"
  ws_sp_tile_pt :: "'a word"
  ws_sp_tile_pb :: "'a word"
  ws_sp_tile_out_gs :: "'a word"
  ws_sp_tile_out_ge :: "'a word"
  ws_out_gs :: "'a word"
  ws_out_ge :: "'a word"
  ws_out_covered :: "'a word"
  ws_last_use_op :: "'a word"
  ws_last_consumer :: "'a word"
  ws_frames :: "'a word"
  ws_tensor_capacity :: u16
  ws_input_capacity :: u16
  ws_output_capacity :: u16
  ws_chain_capacity :: u16
  ws_spatial_capacity :: u32
  ws_depth_capacity :: u16

text \<open>The cursor as it moves: the position after each array. \<open>None\<close> is the early return of 0, and the
  flag of the result the final test.\<close>

definition workspace_layout ::
  "target \<Rightarrow> 'a::len word \<Rightarrow> 'a word \<Rightarrow> workspace_limits_t \<Rightarrow> (bool \<times> 'a executor_workspace_impl) option" where
  "workspace_layout tg storage storage_size l =
     (let required = workspace_bytes_for_limits tg l in
      if storage = 0 \<or> required = 0 \<or> storage_size < required \<or> storage_size > - 1 - storage then None
      else
        let ptr = word_of_nat (tg_pointer_bytes tg);
            chain = ucast (wl_chain_stages l) * 4;
            spatial = ucast (wl_chain_spatial_ops l) * 4;
            tensor = ucast (wl_tensors l) * 4;
            input_ptrs = align_address storage (word_of_nat (tg_pointer_align tg));
            output_ptrs = input_ptrs + ucast (wl_inputs l) * ptr;
            roll_last_fast = output_ptrs + ucast (wl_outputs l) * ptr;
            stages = roll_last_fast + (if wl_chain_stages l \<noteq> 0 then ucast (wl_outputs l) * ptr else 0);
            weight_bases = stages + ucast (wl_chain_stages l) * ptr;
            cursor = weight_bases + ucast (wl_chain_stages l) * ptr;
            info = align_address cursor (word_of_nat (tg_int32_align tg));
            s_out = info + ucast (wl_chain_stages l) * 36;
            s_in = s_out + chain;
            in_starts = s_in + chain;
            in_ends = in_starts + chain;
            out_starts = in_ends + chain;
            out_ends = out_starts + chain;
            sp_op_indices = out_ends + chain;
            sp_strides = sp_op_indices + spatial;
            sp_eff_khs = sp_strides + spatial;
            sp_pad_tops = sp_eff_khs + spatial;
            sp_full_in_hs = sp_pad_tops + spatial;
            sp_full_in_ws = sp_full_in_hs + spatial;
            sp_full_out_ws = sp_full_in_ws + spatial;
            sp_tile_in_h = sp_full_out_ws + spatial;
            sp_tile_out_h = sp_tile_in_h + spatial;
            sp_tile_pt = sp_tile_out_h + spatial;
            sp_tile_pb = sp_tile_pt + spatial;
            sp_tile_out_gs = sp_tile_pb + spatial;
            sp_tile_out_ge = sp_tile_out_gs + spatial;
            out_gs = sp_tile_out_ge + spatial;
            out_ge = out_gs + tensor;
            out_covered = out_ge + tensor;
            cursor = out_covered + ucast (wl_outputs l) * 4;
            last_use_op = align_address cursor (word_of_nat (tg_uint16_align tg));
            last_consumer = last_use_op + ucast (wl_tensors l) * 2;
            frames = last_consumer + ucast (wl_tensors l) * 2;
            cursor = frames + (4 + 4 * ucast (wl_subgraph_depth l)) * 2 in
        Some (cursor \<le> storage + storage_size,
          \<lparr> ws_input_ptrs = input_ptrs, ws_output_ptrs = output_ptrs, ws_roll_last_fast = roll_last_fast,
            ws_stages = stages, ws_weight_bases = weight_bases, ws_info = info, ws_s_out = s_out,
            ws_s_in = s_in, ws_in_starts = in_starts, ws_in_ends = in_ends, ws_out_starts = out_starts,
            ws_out_ends = out_ends, ws_sp_op_indices = sp_op_indices, ws_sp_strides = sp_strides,
            ws_sp_eff_khs = sp_eff_khs, ws_sp_pad_tops = sp_pad_tops, ws_sp_full_in_hs = sp_full_in_hs,
            ws_sp_full_in_ws = sp_full_in_ws, ws_sp_full_out_ws = sp_full_out_ws,
            ws_sp_tile_in_h = sp_tile_in_h, ws_sp_tile_out_h = sp_tile_out_h, ws_sp_tile_pt = sp_tile_pt,
            ws_sp_tile_pb = sp_tile_pb, ws_sp_tile_out_gs = sp_tile_out_gs,
            ws_sp_tile_out_ge = sp_tile_out_ge, ws_out_gs = out_gs, ws_out_ge = out_ge,
            ws_out_covered = out_covered, ws_last_use_op = last_use_op, ws_last_consumer = last_consumer,
            ws_frames = frames, ws_tensor_capacity = wl_tensors l, ws_input_capacity = wl_inputs l,
            ws_output_capacity = wl_outputs l, ws_chain_capacity = wl_chain_stages l,
            ws_spatial_capacity = wl_chain_spatial_ops l, ws_depth_capacity = wl_subgraph_depth l \<rparr>))"

text \<open>The arrays of a workspace as address and size, in three groups of one alignment.\<close>

definition pointer_arrays :: "target \<Rightarrow> workspace_limits_t \<Rightarrow> 'a::len executor_workspace_impl \<Rightarrow> (nat \<times> nat) list" where
  "pointer_arrays tg l ws = (let p = tg_pointer_bytes tg in
     [(unat (ws_input_ptrs ws), unat (wl_inputs l) * p), (unat (ws_output_ptrs ws), unat (wl_outputs l) * p),
      (unat (ws_roll_last_fast ws), if wl_chain_stages l \<noteq> 0 then unat (wl_outputs l) * p else 0),
      (unat (ws_stages ws), unat (wl_chain_stages l) * p), (unat (ws_weight_bases ws), unat (wl_chain_stages l) * p)])"

definition int32_arrays :: "workspace_limits_t \<Rightarrow> 'a::len executor_workspace_impl \<Rightarrow> (nat \<times> nat) list" where
  "int32_arrays l ws =
     (unat (ws_info ws), unat (wl_chain_stages l) * 36) #
     map (\<lambda>f. (unat (f ws), unat (wl_chain_stages l) * 4))
       [ws_s_out, ws_s_in, ws_in_starts, ws_in_ends, ws_out_starts, ws_out_ends] @
     map (\<lambda>f. (unat (f ws), unat (wl_chain_spatial_ops l) * 4))
       [ws_sp_op_indices, ws_sp_strides, ws_sp_eff_khs, ws_sp_pad_tops, ws_sp_full_in_hs, ws_sp_full_in_ws,
        ws_sp_full_out_ws, ws_sp_tile_in_h, ws_sp_tile_out_h, ws_sp_tile_pt, ws_sp_tile_pb,
        ws_sp_tile_out_gs, ws_sp_tile_out_ge] @
     [(unat (ws_out_gs ws), unat (wl_tensors l) * 4), (unat (ws_out_ge ws), unat (wl_tensors l) * 4),
      (unat (ws_out_covered ws), unat (wl_outputs l) * 4)]"

definition uint16_arrays :: "workspace_limits_t \<Rightarrow> 'a::len executor_workspace_impl \<Rightarrow> (nat \<times> nat) list" where
  "uint16_arrays l ws =
     [(unat (ws_last_use_op ws), unat (wl_tensors l) * 2), (unat (ws_last_consumer ws), unat (wl_tensors l) * 2),
      (unat (ws_frames ws), (4 + 4 * unat (wl_subgraph_depth l)) * 2)]"

text \<open>Arrays one after the other between two addresses.\<close>

fun packed :: "nat \<Rightarrow> nat \<Rightarrow> (nat \<times> nat) list \<Rightarrow> bool" where
  "packed lo hi [] = (lo \<le> hi)"
| "packed lo hi ((a, n) # rs) = (lo \<le> a \<and> packed (a + n) hi rs)"

lemma packed_le: "packed lo hi rs \<Longrightarrow> lo \<le> hi"
  by (induction lo hi rs rule: packed.induct) auto

lemma packed_append: "packed lo mid rs \<Longrightarrow> packed mid hi qs \<Longrightarrow> packed lo hi (rs @ qs)"
proof (induction lo mid rs rule: packed.induct)
  case (1 lo mid)
  then show ?case by (cases qs rule: list.exhaust) auto
qed auto

lemma packed_weaken: "packed lo hi rs \<Longrightarrow> lo' \<le> lo \<Longrightarrow> hi \<le> hi' \<Longrightarrow> packed lo' hi' rs"
  by (induction lo hi rs arbitrary: lo' rule: packed.induct) auto

text \<open>Packed arrays lie inside the range and are disjoint.\<close>

lemma packed_inside:
  "packed lo hi rs \<Longrightarrow> (a, n) \<in> set rs \<Longrightarrow> lo \<le> a \<and> a + n \<le> hi"
proof (induction lo hi rs rule: packed.induct)
  case (2 lo hi b m rs)
  then show ?case using packed_le [of "b + m" hi rs] by fastforce
qed simp

lemma packed_disjoint:
  "packed lo hi rs \<Longrightarrow> i < j \<Longrightarrow> j < length rs \<Longrightarrow> fst (rs ! i) + snd (rs ! i) \<le> fst (rs ! j)"
proof (induction lo hi rs arbitrary: i j rule: packed.induct)
  case (2 lo hi a n rs)
  then obtain j' where j: "j = Suc j'" "j' < length rs" by (cases j) auto
  show ?case
  proof (cases i)
    case 0
    have "a + n \<le> fst (rs ! j')"
      using packed_inside [of "a + n" hi rs "fst (rs ! j')" "snd (rs ! j')"] 2 j by simp
    then show ?thesis using 0 j by simp
  next
    case (Suc i')
    then show ?thesis using 2 j by simp
  qed
qed simp

section \<open>The layout fits\<close>

text \<open>Masking off the low bits rounds down to the alignment.\<close>

lemma unat_and_not_mask: "unat ((x :: 'a::len word) AND NOT (mask k)) = unat x div 2 ^ k * 2 ^ k"
proof -
  have "unat (x AND NOT (mask k)) = push_bit k (drop_bit k (unat x))"
    by (rule bit_eqI) (auto simp: bit_unsigned_iff bit_simps not_less dest: bit_imp_le_length)
  then show ?thesis by (simp add: push_bit_eq_mult drop_bit_eq_div)
qed

lemma align_address_up:
  fixes c :: "'a::len word"
  assumes "power_of_two n" and "32 \<le> LENGTH('a)" and "unat c + (n - 1) < 2 ^ LENGTH('a)"
  shows "unat c \<le> unat (align_address c (word_of_nat n)) \<and>
    unat (align_address c (word_of_nat n)) \<le> unat c + (n - 1) \<and> n dvd unat (align_address c (word_of_nat n))"
proof -
  obtain k where k: "k < 16" "n = 2 ^ k" using assms(1) by (auto simp: power_of_two_def)
  have n: "0 < n" "n \<le> 32768" using k power_increasing [of k 15 "2 :: nat"] by simp_all
  have m: "word_of_nat n - 1 = (mask k :: 'a word)" by (simp add: k(2) mask_eq_exp_minus_1)
  have x: "c + word_of_nat n - 1 = c + word_of_nat (n - 1)" using n by (simp add: of_nat_diff)
  have u: "unat (c + word_of_nat (n - 1)) = unat c + (n - 1)"
    using assms(3) unat_small [OF assms(2), of "n - 1"] n by (simp add: unat_word_ariths)
  have r: "unat (align_address c (word_of_nat n)) = (unat c + (n - 1)) div n * n"
    by (simp only: align_address_def m x unat_and_not_mask u k(2) [symmetric])
  have "(unat c + (n - 1)) div n * n + (unat c + (n - 1)) mod n = unat c + (n - 1)" by (rule div_mult_mod_eq)
  moreover have "(unat c + (n - 1)) mod n \<le> n - 1" using n mod_less_divisor [of n "unat c + (n - 1)"] by linarith
  ultimately show ?thesis unfolding r by (intro conjI) (linarith, linarith, simp)
qed

text \<open>The addresses of arrays placed one after the other, as words and as numbers.\<close>

fun place :: "'n::plus \<Rightarrow> 'n list \<Rightarrow> 'n list" where
  "place c [] = []"
| "place c (d # ds) = c # place (c + d) ds"

lemma length_place [simp]: "length (place c ds) = length ds"
  by (induction ds arbitrary: c) simp_all

text \<open>Placing sizes that fit does not wrap: the arrays are packed from the first address on.\<close>

lemma place_words:
  fixes c :: "'a::len word"
  assumes "unat c + sum_list ns < 2 ^ LENGTH('a)"
  shows "map unat (place c (map word_of_nat ns)) = place (unat c) ns \<and>
    unat (foldl (+) c (map word_of_nat ns)) = unat c + sum_list ns"
  using assms
proof (induction ns arbitrary: c)
  case (Cons n ns)
  have "unat (c + word_of_nat n) = unat c + n"
    using Cons.prems by (simp add: unat_word_ariths unat_of_nat)
  then show ?case using Cons.IH [of "c + word_of_nat n"] Cons.prems by (simp add: add.assoc)
qed simp

lemma packed_place: "packed c (c + sum_list ds) (zip (place c ds) (ds :: nat list))"
  by (induction ds arbitrary: c) (simp_all add: add.assoc [symmetric])

text \<open>Every array of a group is aligned when the first one is and all sizes are.\<close>

lemma place_aligned:
  assumes "(n :: nat) dvd c" and "\<forall>d \<in> set ds. n dvd d"
  shows "\<forall>a \<in> set (place c ds). n dvd a"
  using assms
proof (induction ds arbitrary: c)
  case (Cons d ds)
  have "n dvd c + d" by (rule dvd_add) (use Cons.prems in simp_all)
  then have "\<forall>a \<in> set (place (c + d) ds). n dvd a" by (rule Cons.IH) (use Cons.prems in simp)
  then show ?case using Cons.prems(1) by (simp only: place.simps set_simps ball_simps)
qed simp

definition pointer_sizes :: "target \<Rightarrow> workspace_limits_t \<Rightarrow> nat list" where
  "pointer_sizes tg l = (let p = tg_pointer_bytes tg in
     [unat (wl_inputs l) * p, unat (wl_outputs l) * p,
      if wl_chain_stages l \<noteq> 0 then unat (wl_outputs l) * p else 0,
      unat (wl_chain_stages l) * p, unat (wl_chain_stages l) * p])"

definition int32_sizes :: "workspace_limits_t \<Rightarrow> nat list" where
  "int32_sizes l = unat (wl_chain_stages l) * 36 # replicate 6 (unat (wl_chain_stages l) * 4) @
     replicate 13 (unat (wl_chain_spatial_ops l) * 4) @
     [unat (wl_tensors l) * 4, unat (wl_tensors l) * 4, unat (wl_outputs l) * 4]"

definition uint16_sizes :: "workspace_limits_t \<Rightarrow> nat list" where
  "uint16_sizes l = [unat (wl_tensors l) * 2, unat (wl_tensors l) * 2, (4 + 4 * unat (wl_subgraph_depth l)) * 2]"

lemma formula_sizes:
  "workspace_formula tg l = (tg_pointer_align tg - 1) + sum_list (pointer_sizes tg l) +
     (tg_int32_align tg - 1) + sum_list (int32_sizes l) + (tg_uint16_align tg - 1) + sum_list (uint16_sizes l)"
  by (simp add: workspace_formula_def pointer_sizes_def int32_sizes_def uint16_sizes_def Let_def
      algebra_simps numeral_eq_Suc)

text \<open>The three groups of arrays are placed from their aligned cursors.\<close>

lemma layout_groups:
  fixes st sz :: "'a::len word"
  assumes "workspace_layout tg st sz l = Some (fits, ws)"
  defines "c0 \<equiv> align_address st (word_of_nat (tg_pointer_align tg))"
  defines "c1 \<equiv> align_address (foldl (+) c0 (map word_of_nat (pointer_sizes tg l))) (word_of_nat (tg_int32_align tg))"
  defines "c2 \<equiv> align_address (foldl (+) c1 (map word_of_nat (int32_sizes l))) (word_of_nat (tg_uint16_align tg))"
  shows "pointer_arrays tg l ws = zip (map unat (place c0 (map word_of_nat (pointer_sizes tg l)))) (pointer_sizes tg l) \<and>
    int32_arrays l ws = zip (map unat (place c1 (map word_of_nat (int32_sizes l)))) (int32_sizes l) \<and>
    uint16_arrays l ws = zip (map unat (place c2 (map word_of_nat (uint16_sizes l)))) (uint16_sizes l) \<and>
    fits = (foldl (+) c2 (map word_of_nat (uint16_sizes l)) \<le> st + sz)"
proof -
  have r: "replicate 6 x = [x, x, x, x, x, x]" "replicate 13 x = [x, x, x, x, x, x, x, x, x, x, x, x, x]"
    for x :: nat by (simp_all add: numeral_eq_Suc)
  have p: "map word_of_nat (pointer_sizes tg l) = [ucast (wl_inputs l) * word_of_nat (tg_pointer_bytes tg),
      ucast (wl_outputs l) * word_of_nat (tg_pointer_bytes tg),
      (if wl_chain_stages l \<noteq> 0 then ucast (wl_outputs l) * word_of_nat (tg_pointer_bytes tg) else 0),
      ucast (wl_chain_stages l) * word_of_nat (tg_pointer_bytes tg),
      ucast (wl_chain_stages l) * word_of_nat (tg_pointer_bytes tg) :: 'a word]"
    by (simp add: pointer_sizes_def Let_def)
  have i: "map word_of_nat (int32_sizes l) = (ucast (wl_chain_stages l) * 36 :: 'a word) #
      map (\<lambda>_. ucast (wl_chain_stages l) * 4) [0 :: nat, 1, 2, 3, 4, 5] @
      map (\<lambda>_. ucast (wl_chain_spatial_ops l) * 4) [0 :: nat, 1, 2, 3, 4, 5, 6, 7, 8, 9, 10, 11, 12] @
      [ucast (wl_tensors l) * 4, ucast (wl_tensors l) * 4, ucast (wl_outputs l) * 4]"
    by (simp add: int32_sizes_def r)
  have u: "map word_of_nat (uint16_sizes l) = [ucast (wl_tensors l) * 2, ucast (wl_tensors l) * 2,
      (4 + 4 * ucast (wl_subgraph_depth l)) * 2 :: 'a word]"
    by (simp add: uint16_sizes_def)
  from assms(1) show ?thesis
    unfolding c0_def c1_def c2_def p i u
    unfolding workspace_layout_def Let_def
    by (auto simp: pointer_arrays_def int32_arrays_def uint16_arrays_def pointer_sizes_def int32_sizes_def
        uint16_sizes_def r Let_def split: if_splits)
qed

text \<open>A group of arrays from an aligned cursor on.\<close>

lemma group_fits:
  fixes cursor :: "'a::len word"
  assumes n: "power_of_two n" and len: "32 \<le> LENGTH('a)" and sizes: "\<forall>d \<in> set ns. n dvd d"
    and bound: "unat cursor + (n - 1) + sum_list ns < 2 ^ LENGTH('a)"
  defines "start \<equiv> align_address cursor (word_of_nat n)"
  shows "packed (unat cursor) (unat (foldl (+) start (map word_of_nat ns)))
      (zip (map unat (place start (map word_of_nat ns))) ns) \<and>
    unat (foldl (+) start (map word_of_nat ns)) \<le> unat cursor + (n - 1) + sum_list ns \<and>
    (\<forall>r \<in> set (zip (map unat (place start (map word_of_nat ns))) ns). n dvd fst r)"
proof -
  have up: "unat cursor \<le> unat start \<and> unat start \<le> unat cursor + (n - 1) \<and> n dvd unat start"
    unfolding start_def by (rule align_address_up [OF n len]) (use bound in simp)
  then have fit: "unat start + sum_list ns < 2 ^ LENGTH('a)" using bound by linarith
  note pl = place_words [OF fit]
  have "\<forall>a \<in> set (place (unat start) ns). n dvd a" by (rule place_aligned) (use up sizes in auto)
  moreover have "packed (unat cursor) (unat start + sum_list ns) (zip (place (unat start) ns) ns)"
    by (rule packed_weaken [OF packed_place]) (use up in auto)
  ultimately show ?thesis using up pl by (auto dest: set_zip_leftD)
qed

lemma layout_defined:
  fixes st sz :: "'a::len word"
  assumes "target_ok tg" and "32 \<le> LENGTH('a)" and "st \<noteq> 0"
    and "unat st + unat sz < 2 ^ LENGTH('a)" and "workspace_formula tg l \<le> unat sz"
  obtains fits ws where "workspace_layout tg st sz l = Some (fits, ws)" "ws_depth_capacity ws = wl_subgraph_depth l"
proof -
  have req: "unat (workspace_bytes_for_limits tg l :: 'a word) = workspace_formula tg l"
    using unat_workspace_bytes [OF assms(1,2), of l] assms(4,5) by simp
  have fitting: "\<not> (st = 0 \<or> (workspace_bytes_for_limits tg l :: 'a word) = 0 \<or>
      sz < workspace_bytes_for_limits tg l \<or> sz > - 1 - st)"
  proof -
    have "(workspace_bytes_for_limits tg l :: 'a word) \<noteq> 0"
      using req by (auto simp: workspace_formula_def)
    then show ?thesis
      using assms(3-5) req grow_one(1) [where total = sz and d = st]
      by (simp add: word_less_nat_alt add.commute)
  qed
  have "workspace_layout tg st sz l \<noteq> None"
    unfolding workspace_layout_def by (subst Let_def, simp only: fitting if_False)
      (simp only: Let_def option.distinct not_False_eq_True)
  then obtain fits ws where layout: "workspace_layout tg st sz l = Some (fits, ws)" by auto
  moreover have "ws_depth_capacity ws = wl_subgraph_depth l"
    using layout unfolding workspace_layout_def by (auto simp: Let_def split: if_splits)
  ultimately show ?thesis using that by blast
qed

lemma layout_fits:
  fixes st sz :: "'a::len word"
  assumes "target_ok tg" and "32 \<le> LENGTH('a)" and "st \<noteq> 0"
    and "unat st + unat sz < 2 ^ LENGTH('a)" and "workspace_formula tg l \<le> unat sz"
  shows "\<exists>ws. workspace_layout tg st sz l = Some (True, ws) \<and> ws_depth_capacity ws = wl_subgraph_depth l \<and>
    packed (unat st) (unat st + unat sz)
      (pointer_arrays tg l ws @ int32_arrays l ws @ uint16_arrays l ws) \<and>
    (\<forall>r \<in> set (pointer_arrays tg l ws). tg_pointer_align tg dvd fst r) \<and>
    (\<forall>r \<in> set (int32_arrays l ws). tg_int32_align tg dvd fst r) \<and>
    (\<forall>r \<in> set (uint16_arrays l ws). tg_uint16_align tg dvd fst r)"
proof -
  note len = assms(2) and t = target_bounds [OF assms(1)]
  have al: "power_of_two (tg_pointer_align tg)" "power_of_two (tg_int32_align tg)"
    "power_of_two (tg_uint16_align tg)" "tg_pointer_align tg dvd tg_pointer_bytes tg" "tg_int32_align tg dvd 4"
    "tg_uint16_align tg dvd 2"
    using assms(1) by (simp_all add: target_ok_def)
  have four: "tg_int32_align tg dvd n * 4" "tg_int32_align tg dvd n * 36" "tg_uint16_align tg dvd n * 2" for n
    using dvd_mult [OF al(5), of n] dvd_mult [OF al(5), of "n * 9"] dvd_mult [OF al(6), of n]
    by (simp_all add: mult.assoc)
  have sizes: "\<forall>d \<in> set (pointer_sizes tg l). tg_pointer_align tg dvd d"
    "\<forall>d \<in> set (int32_sizes l). tg_int32_align tg dvd d"
    using al(4) four by (simp_all add: pointer_sizes_def int32_sizes_def Let_def)
  have sizes3: "\<forall>d \<in> set (uint16_sizes l). tg_uint16_align tg dvd d"
    by (simp only: uint16_sizes_def set_simps ball_simps four simp_thms)
  obtain fits ws where layout: "workspace_layout tg st sz l = Some (fits, ws)"
    and depth: "ws_depth_capacity ws = wl_subgraph_depth l"
    using layout_defined [OF assms] by blast
  let ?pa = "tg_pointer_align tg" and ?ia = "tg_int32_align tg" and ?ua = "tg_uint16_align tg"
  let ?e0 = "foldl (+) (align_address st (word_of_nat ?pa)) (map word_of_nat (pointer_sizes tg l))"
  let ?e1 = "foldl (+) (align_address ?e0 (word_of_nat ?ia)) (map word_of_nat (int32_sizes l))"
  let ?e2 = "foldl (+) (align_address ?e1 (word_of_nat ?ua)) (map word_of_nat (uint16_sizes l))"
  note g = layout_groups [OF layout]
  note room = assms(4,5) [unfolded formula_sizes]
  have b0: "unat st + (?pa - 1) + sum_list (pointer_sizes tg l) < 2 ^ LENGTH('a)" using room by linarith
  note g0 = group_fits [OF al(1) len sizes(1) b0]
  have b1: "unat ?e0 + (?ia - 1) + sum_list (int32_sizes l) < 2 ^ LENGTH('a)" using room g0 by linarith
  note g1 = group_fits [OF al(2) len sizes(2) b1]
  have b2: "unat ?e1 + (?ua - 1) + sum_list (uint16_sizes l) < 2 ^ LENGTH('a)" using room g0 g1 by linarith
  note g2 = group_fits [OF al(3) len sizes3 b2]
  have "unat ?e2 \<le> unat st + unat sz" using room g0 g1 g2 by linarith
  moreover have "unat (st + sz) = unat st + unat sz" using assms(4) by (simp add: unat_word_ariths)
  ultimately have fits: "fits" and last_le: "unat ?e2 \<le> unat st + unat sz"
    using g by (simp_all add: word_le_nat_alt)
  have "packed (unat st) (unat st + unat sz)
      (pointer_arrays tg l ws @ int32_arrays l ws @ uint16_arrays l ws)"
    using g0 g1 packed_weaken [OF g2 [THEN conjunct1] order_refl last_le] g
    by (auto intro!: packed_append)
  then show ?thesis using layout depth fits g0 g1 g2 g by auto
qed

text \<open>C36. A buffer of the required size is enough, wherever it starts. Given at least the bytes the sizing
  formula asks for, \<open>workspace_layout\<close> succeeds, and the 31 arrays it carves out follow one
  another without overlap from the start of the buffer to at most its end, the pointer arrays, the
  32-bit arrays and the 16-bit arrays each aligned for their element type.\<close>

theorem workspace_layout_fits:
  fixes st sz :: "'a::len word"
  assumes "target_ok tg" and "32 \<le> LENGTH('a)" and "st \<noteq> 0"
    and "unat st + unat sz < 2 ^ LENGTH('a)" and "workspace_formula tg l \<le> unat sz"
  shows "\<exists>ws. workspace_layout tg st sz l = Some (True, ws) \<and>
    packed (unat st) (unat st + unat sz)
      (pointer_arrays tg l ws @ int32_arrays l ws @ uint16_arrays l ws) \<and>
    (\<forall>r \<in> set (pointer_arrays tg l ws). tg_pointer_align tg dvd fst r) \<and>
    (\<forall>r \<in> set (int32_arrays l ws). tg_int32_align tg dvd fst r) \<and>
    (\<forall>r \<in> set (uint16_arrays l ws). tg_uint16_align tg dvd fst r)"
  using layout_fits [OF assms] by blast

section \<open>The size of a plan's workspace\<close>

definition tigris_executor_workspace_required :: "target \<Rightarrow> tigris_plan option \<Rightarrow> 'a::len word option" where
  "tigris_executor_workspace_required tg po = do {
     r \<leftarrow> workspace_limits po;
     Some (case r of Inl _ \<Rightarrow> 0 | Inr l \<Rightarrow> workspace_bytes_for_limits tg l) }"

lemma required_of_limits:
  "workspace_limits po = Some (Inr l) \<Longrightarrow>
     tigris_executor_workspace_required tg po = Some (workspace_bytes_for_limits tg l)"
  by (simp add: tigris_executor_workspace_required_def)

section \<open>Witnesses\<close>

definition host64 :: target where
  "host64 = \<lparr> tg_pointer_bytes = 8, tg_pointer_align = 8, tg_int32_align = 4, tg_uint16_align = 2 \<rparr>"

definition small_limits :: workspace_limits_t where
  "small_limits = \<lparr> wl_tensors = 5, wl_inputs = 2, wl_outputs = 1, wl_chain_stages = 2,
     wl_chain_spatial_ops = 3, wl_subgraph_depth = 1 \<rparr>"

lemma power_of_two_small: "power_of_two 2" "power_of_two 4" "power_of_two 8"
  unfolding power_of_two_def by (rule exI [of _ 1], simp) (rule exI [of _ 2], simp, rule exI [of _ 3], simp)

lemma host64_ok: "target_ok host64"
  by (simp add: target_ok_def host64_def power_of_two_small)

lemma small_formula: "workspace_formula host64 small_limits = 431"
  by (simp add: workspace_formula_def host64_def small_limits_def)

text \<open>A buffer at an odd address.\<close>

lemma workspace_layout_fits_witness:
  "\<exists>ws. workspace_layout host64 (0x10001 :: u64) 431 small_limits = Some (True, ws) \<and>
     packed 0x10001 (0x10001 + 431)
       (pointer_arrays host64 small_limits ws @ int32_arrays small_limits ws @ uint16_arrays small_limits ws)"
  using workspace_layout_fits [OF host64_ok, of "0x10001 :: u64" 431 small_limits] small_formula by auto

end
