(* ===== verification/Control_Flow.thy ===== *)
theory Control_Flow
  imports Compaction Subgraphs
begin

text \<open>
  Control flow in the executor (\<open>src/tigris_executor.c\<close>, from \<open>stage_control\<close> to
  \<open>free_dead_tensors\<close>) and the stage loop of \<open>tigris_run_with_state\<close>: If and While operators copy
  tensors into a subgraph, run its stages and copy its results out, on a stack of frames that
  lives in the workspace.

  \<^item> A stage's own execution (its kernels, its tiles, its weights) is an argument of the model,
    \<open>re_stage\<close> and \<open>re_chain\<close>: every theorem holds whatever the stages do to the arenas.
  \<^item> An early return keeps the state it leaves behind, since the caller cleans it up: an error is a
    triple of the code, the memory manager and the memory.
  \<^item> \<open>flow\<close> is the array \<open>frames\<close> of the workspace: depth, first stage, end stage and the stage to
    continue at, then per running operator its stage, the range it was entered from and the
    graph it runs.
\<close>

section \<open>Errors and helpers\<close>

datatype exec_error = EXEC_ERR_NULL | EXEC_ERR_MEM | EXEC_ERR_KERNEL | EXEC_ERR_NO_STAGES
  | EXEC_ERR_TILE | EXEC_ERR_WORKSPACE | EXEC_ERR_STATE

definition tigris_exec_error_str :: "exec_error option \<Rightarrow> string" where
  "tigris_exec_error_str err = (case err of
     None \<Rightarrow> ''OK''
   | Some EXEC_ERR_NULL \<Rightarrow> ''null pointer argument''
   | Some EXEC_ERR_MEM \<Rightarrow> ''arena too small for the plan''
   | Some EXEC_ERR_KERNEL \<Rightarrow> ''kernel callback error''
   | Some EXEC_ERR_NO_STAGES \<Rightarrow> ''plan has no stages''
   | Some EXEC_ERR_TILE \<Rightarrow> ''tiled execution error''
   | Some EXEC_ERR_WORKSPACE \<Rightarrow> ''executor workspace unavailable''
   | Some EXEC_ERR_STATE \<Rightarrow> ''state buffer missing or too small'')"

type_synonym failure = "exec_error \<times> mem \<times> ram"
type_synonym 'a exec = "(failure + 'a) option"

definition set_ptr :: "mem \<Rightarrow> u16 \<Rightarrow> nat \<Rightarrow> mem option" where
  "set_ptr m t p = do { ps \<leftarrow> arr_set (tensor_ptrs m) (unat t) p; Some (m\<lparr>tensor_ptrs := ps\<rparr>) }"

definition count_copy :: "u32 \<Rightarrow> mem \<Rightarrow> mem" where
  "count_copy n m = m\<lparr>stats := map_option (\<lambda>s. s\<lparr>copy_bytes := copy_bytes s + n\<rparr>) (stats m)\<rparr>"

text \<open>Placing a tensor in slow memory, and copying a tensor's bytes to where it is placed.\<close>

definition place_slow :: "tigris_plan \<Rightarrow> u16 \<Rightarrow> mem \<Rightarrow> ram \<Rightarrow> mem exec" where
  "place_slow pl t m h = do {
     x \<leftarrow> plan_tensor pl (unat t);
     r \<leftarrow> tigris_mem_alloc_slow (Some m) t (tn_size_bytes x);
     (case r of Inl _ \<Rightarrow> fail (EXEC_ERR_MEM, m, h) | Inr m' \<Rightarrow> ret m') }"

definition copy_tensor :: "tigris_plan \<Rightarrow> u16 \<Rightarrow> u16 \<Rightarrow> mem \<Rightarrow> ram \<Rightarrow> (mem \<times> ram) option" where
  "copy_tensor pl dst src m h = do {
     x \<leftarrow> plan_tensor pl (unat dst);
     d \<leftarrow> arr_get (tensor_ptrs m) (unat dst);
     s \<leftarrow> arr_get (tensor_ptrs m) (unat src);
     h' \<leftarrow> ram_memcpy h d s (unat (tn_size_bytes x));
     Some (count_copy (tn_size_bytes x) m, h') }"

section \<open>The operators\<close>

definition stage_control :: "tigris_plan \<Rightarrow> tigris_stage \<Rightarrow> tigris_op option option" where
  "stage_control pl stage =
     (if p_num_subgraphs pl = 0 \<or> sg_ops_count stage \<noteq> 1 then Some None
      else do {
        k \<leftarrow> tigris_stage_ops pl stage 0;
        oper \<leftarrow> plan_op pl (unat k);
        Some (if op_op_type oper = OP_IF \<or> op_op_type oper = OP_WHILE then Some oper else None) })"

definition control_graph :: "tigris_plan \<Rightarrow> u16 \<Rightarrow> nat \<Rightarrow> u16 option" where
  "control_graph pl op_index slot = do {
     graphs \<leftarrow> tigris_op_attribute_data pl op_index ATTR_SUBGRAPHS;
     (case graphs of None \<Rightarrow> Some 0 | Some (data, len) \<Rightarrow> rd16 (p_buf pl) (data + 2 * slot)) }"

definition copy_input ::
  "tigris_plan \<Rightarrow> subgraph \<Rightarrow> (nat \<Rightarrow> u16 option) \<Rightarrow> nat \<Rightarrow> mem \<times> ram \<Rightarrow> (mem \<times> ram) exec" where
  "copy_input pl graph src i = (\<lambda>(m, h). do {
     dst \<leftarrow> plan_index pl (unat (gr_inputs_off graph) + i);
     s \<leftarrow> src i;
     p \<leftarrow> arr_get (tensor_ptrs m) (unat s);
     if p = 0 then fail (EXEC_ERR_MEM, m, h)
     else andthen (place_slow pl dst m h) (\<lambda>m. map_option Inr (copy_tensor pl dst s m h)) })"

definition copy_into_graph ::
  "tigris_plan \<Rightarrow> u16 \<Rightarrow> (nat \<Rightarrow> u16 option) \<Rightarrow> mem \<times> ram \<Rightarrow> (mem \<times> ram) exec" where
  "copy_into_graph pl g src c = do {
     graph \<leftarrow> plan_subgraph pl (unat g);
     for_range 0 (unat (gr_inputs_count graph)) (copy_input pl graph src) c }"

definition copy_output ::
  "tigris_plan \<Rightarrow> subgraph \<Rightarrow> (nat \<Rightarrow> u16 option) \<Rightarrow> nat \<Rightarrow> mem \<times> ram \<Rightarrow> (mem \<times> ram) exec" where
  "copy_output pl graph dst i = (\<lambda>(m, h). do {
     s \<leftarrow> plan_index pl (unat (gr_outputs_off graph) + i);
     p \<leftarrow> arr_get (tensor_ptrs m) (unat s);
     if p = 0 then fail (EXEC_ERR_MEM, m, h)
     else do {
       d \<leftarrow> dst i;
       q \<leftarrow> arr_get (tensor_ptrs m) (unat d);
       andthen (if q = 0 then place_slow pl d m h else ret m)
         (\<lambda>m. map_option Inr (copy_tensor pl d s m h)) } })"

text \<open>\<open>mem->tensor_ptrs[index_pool[off + i]] = NULL\<close>.\<close>

definition release :: "tigris_plan \<Rightarrow> u16 \<Rightarrow> nat \<Rightarrow> mem \<Rightarrow> mem option" where
  "release pl off i m = do { t \<leftarrow> plan_index pl (unat off + i); set_ptr m t 0 }"

definition copy_out_of_graph ::
  "tigris_plan \<Rightarrow> u16 \<Rightarrow> (nat \<Rightarrow> u16 option) option \<Rightarrow> mem \<times> ram \<Rightarrow> (mem \<times> ram) exec" where
  "copy_out_of_graph pl g dst c = do {
     graph \<leftarrow> plan_subgraph pl (unat g);
     andthen (case dst of None \<Rightarrow> ret c
              | Some d \<Rightarrow> for_range 0 (unat (gr_outputs_count graph)) (copy_output pl graph d) c)
       (\<lambda>(m, h). do {
          m \<leftarrow> loop 0 (unat (gr_inputs_count graph)) (release pl (gr_inputs_off graph)) m;
          m \<leftarrow> loop 0 (unat (gr_outputs_count graph)) (release pl (gr_outputs_off graph)) m;
          map_option Inr (compact_slow m pl h) }) }"

text \<open>A loop variable's first value: its constant, or the next input. A constant lies in the plan.\<close>

definition ram_store :: "ram \<Rightarrow> nat \<Rightarrow> bytes \<Rightarrow> ram" where
  "ram_store h d bs = (\<lambda>a. if d \<le> a \<and> a < d + length bs then bs ! (a - d) else h a)"

definition store_constant :: "tigris_plan \<Rightarrow> u16 \<Rightarrow> nat \<Rightarrow> mem \<Rightarrow> ram \<Rightarrow> (mem \<times> ram) option" where
  "store_constant pl dst src m h = do {
     x \<leftarrow> plan_tensor pl (unat dst);
     d \<leftarrow> arr_get (tensor_ptrs m) (unat dst);
     if src + unat (tn_size_bytes x) \<le> length (p_buf pl)
     then Some (count_copy (tn_size_bytes x) m,
                ram_store h d (take (unat (tn_size_bytes x)) (drop src (p_buf pl))))
     else None }"

definition start_variable ::
  "tigris_plan \<Rightarrow> tigris_op \<Rightarrow> u16 \<Rightarrow> nat \<Rightarrow> nat \<times> mem \<times> ram \<Rightarrow> (nat \<times> mem \<times> ram) exec" where
  "start_variable pl oper op_index i = (\<lambda>(nxt, m, h). do {
     t \<leftarrow> tigris_op_outputs pl oper i;
     const \<leftarrow> tigris_op_constant pl op_index (word_of_nat i);
     (case const of
        Some src \<Rightarrow> andthen (place_slow pl t m h)
          (\<lambda>m. map_option (\<lambda>c. Inr (nxt, c)) (store_constant pl t src m h))
      | None \<Rightarrow>
          if nxt < unat (op_num_inputs oper) then do {
            s \<leftarrow> tigris_op_inputs pl oper nxt;
            p \<leftarrow> arr_get (tensor_ptrs m) (unat s);
            if p = 0 then fail (EXEC_ERR_MEM, m, h)
            else andthen (place_slow pl t m h) (\<lambda>m. do {
              x \<leftarrow> plan_tensor pl (unat t);
              d \<leftarrow> arr_get (tensor_ptrs m) (unat t);
              h' \<leftarrow> ram_memcpy h d p (unat (tn_size_bytes x));
              ret (Suc nxt, count_copy (tn_size_bytes x) m, h') }) }
          else fail (EXEC_ERR_MEM, m, h)) })"

text \<open>\<open>start_control\<close> also returns the graph to run.\<close>

definition start_control ::
  "tigris_plan \<Rightarrow> tigris_op \<Rightarrow> u16 \<Rightarrow> mem \<times> ram \<Rightarrow> (u16 \<times> mem \<times> ram) exec" where
  "start_control pl oper op_index c =
     (if op_op_type oper = OP_IF then do {
        t \<leftarrow> tigris_op_inputs pl oper 0;
        condition \<leftarrow> arr_get (tensor_ptrs (fst c)) (unat t);
        if condition = 0 then fail (EXEC_ERR_MEM, c)
        else do {
          g \<leftarrow> control_graph pl op_index (if snd c condition \<noteq> 0 then 0 else 1);
          andthen (copy_into_graph pl g (\<lambda>i. tigris_op_inputs pl oper (i + 1)) c) (\<lambda>c. ret (g, c)) } }
      else
        andthen (for_range 0 (unat (op_num_outputs oper)) (start_variable pl oper op_index) (0, c))
          (\<lambda>(_, c). do {
             g \<leftarrow> control_graph pl op_index 0;
             andthen (copy_into_graph pl g (tigris_op_outputs pl oper) c) (\<lambda>c. ret (g, c)) }))"

text \<open>\<open>step_control\<close> returns whether the operator has finished, and the graph to run next.\<close>

definition step_control ::
  "tigris_plan \<Rightarrow> tigris_op \<Rightarrow> u16 \<Rightarrow> u16 \<Rightarrow> mem \<times> ram \<Rightarrow> (bool \<times> u16 \<times> mem \<times> ram) exec" where
  "step_control pl oper op_index graph c =
     (if op_op_type oper = OP_IF then
        andthen (copy_out_of_graph pl graph (Some (tigris_op_outputs pl oper)) c)
          (\<lambda>c. ret (True, graph, c))
      else do {
        condition \<leftarrow> control_graph pl op_index 0;
        if graph = condition then do {
          graph_desc \<leftarrow> plan_subgraph pl (unat condition);
          t \<leftarrow> plan_index pl (unat (gr_outputs_off graph_desc));
          verdict \<leftarrow> arr_get (tensor_ptrs (fst c)) (unat t);
          if verdict = 0 then fail (EXEC_ERR_MEM, c)
          else
            let again = snd c verdict \<noteq> 0 in
            andthen (copy_out_of_graph pl condition None c) (\<lambda>c.
              if \<not> again then ret (True, graph, c)
              else do {
                body \<leftarrow> control_graph pl op_index 1;
                andthen (copy_into_graph pl body (tigris_op_outputs pl oper) c)
                  (\<lambda>c. ret (False, body, c)) }) }
        else
          andthen (copy_out_of_graph pl graph (Some (tigris_op_outputs pl oper)) c) (\<lambda>c.
            andthen (copy_into_graph pl condition (tigris_op_outputs pl oper) c)
              (\<lambda>c. ret (False, condition, c))) })"

section \<open>Dead tensors\<close>

definition free_dead_tensor ::
  "u16 list \<Rightarrow> u16 \<Rightarrow> u16 \<Rightarrow> nat \<Rightarrow> mem \<times> bool \<Rightarrow> (mem \<times> bool) option" where
  "free_dead_tensor last_consumer first s t = (\<lambda>(m, need_compact). do {
     lc \<leftarrow> arr_get last_consumer t;
     if lc \<ge> first \<and> lc \<le> s \<and> lc \<noteq> NONE_U16 then do {
       p \<leftarrow> arr_get (tensor_ptrs m) t;
       if p \<noteq> 0 \<and> p \<ge> slow_base m \<and> p - slow_base m < unat (slow_size m)
       then do { ps \<leftarrow> arr_set (tensor_ptrs m) t 0; Some (m\<lparr>tensor_ptrs := ps\<rparr>, True) }
       else Some (m, need_compact) }
     else Some (m, need_compact) })"

definition free_dead_tensors ::
  "tigris_plan \<Rightarrow> u16 list \<Rightarrow> u16 \<Rightarrow> u16 \<Rightarrow> mem \<times> ram \<Rightarrow> (mem \<times> ram) option" where
  "free_dead_tensors pl last_consumer first s c = do {
     hdr \<leftarrow> p_header pl;
     (m, need_compact) \<leftarrow> loop 0 (unat (hd_num_tensors hdr)) (free_dead_tensor last_consumer first s)
        (fst c, False);
     if need_compact then compact_slow m pl (snd c) else Some (m, snd c) }"

section \<open>The stack of running operators\<close>

text \<open>What a run keeps fixed: the plan, the last stage that reads each tensor, the reset floor of
  the fast arena, the frames there is room for, and how chains and single stages execute. A
  single stage also tells whether it ran banded.\<close>

record run_env =
  re_plan :: tigris_plan
  re_last_consumer :: "u16 list"
  re_floor :: u32
  re_depth_capacity :: u16
  re_chain :: "u16 \<Rightarrow> u16 \<Rightarrow> mem \<times> ram \<Rightarrow> (mem \<times> ram) exec"
  re_stage :: "u16 \<Rightarrow> mem \<times> ram \<Rightarrow> (bool \<times> mem \<times> ram) exec"

text \<open>The single operator of a control stage.\<close>

definition control_op :: "tigris_plan \<Rightarrow> nat \<Rightarrow> (u16 \<times> tigris_op) option" where
  "control_op pl s = do {
     stage \<leftarrow> plan_stage pl s;
     op_index \<leftarrow> tigris_stage_ops pl stage 0;
     oper \<leftarrow> plan_op pl (unat op_index);
     Some (op_index, oper) }"

text \<open>The flow array continues before the first stage of graph \<open>g\<close>.\<close>

definition enter_graph :: "tigris_plan \<Rightarrow> u16 \<Rightarrow> u16 list \<Rightarrow> u16 list option" where
  "enter_graph pl g flow = do {
     graph \<leftarrow> plan_subgraph pl (unat g);
     flow \<leftarrow> arr_set flow 1 (gr_first_stage graph);
     flow \<leftarrow> arr_set flow 2 (gr_first_stage graph + gr_num_stages graph);
     arr_set flow 3 (gr_first_stage graph - 1) }"

definition enter_control ::
  "run_env \<Rightarrow> u16 \<Rightarrow> u16 list \<times> mem \<times> ram \<Rightarrow> (u16 list \<times> mem \<times> ram) exec" where
  "enter_control env s = (\<lambda>(flow, c). do {
     depth \<leftarrow> arr_get flow 0;
     if depth \<ge> re_depth_capacity env then fail (EXEC_ERR_WORKSPACE, c)
     else do {
       let frame = 4 + 4 * unat depth;
       (op_index, oper) \<leftarrow> control_op (re_plan env) (unat s);
       andthen (start_control (re_plan env) oper op_index c) (\<lambda>(g, c). do {
         flow \<leftarrow> arr_set flow (frame + 3) g;
         flow \<leftarrow> arr_set flow frame s;
         first \<leftarrow> arr_get flow 1;
         flow \<leftarrow> arr_set flow (frame + 1) first;
         stop \<leftarrow> arr_get flow 2;
         flow \<leftarrow> arr_set flow (frame + 2) stop;
         flow \<leftarrow> arr_set flow 0 (depth + 1);
         flow \<leftarrow> enter_graph (re_plan env) g flow;
         ret (flow, c) }) } })"

text \<open>One round of the unwinding loop: the innermost operator steps into its next graph, or is done
  and its frame is popped.\<close>

definition unwind_step ::
  "run_env \<Rightarrow> u16 list \<times> mem \<times> ram \<Rightarrow> (bool \<times> u16 list \<times> mem \<times> ram) exec" where
  "unwind_step env = (\<lambda>(flow, c). do {
     depth \<leftarrow> arr_get flow 0;
     let frame = 4 * unat depth;
     s \<leftarrow> arr_get flow frame;
     g \<leftarrow> arr_get flow (frame + 3);
     (op_index, oper) \<leftarrow> control_op (re_plan env) (unat s);
     andthen (step_control (re_plan env) oper op_index g c) (\<lambda>(finished, g, c). do {
       flow \<leftarrow> arr_set flow (frame + 3) g;
       if \<not> finished then do { flow \<leftarrow> enter_graph (re_plan env) g flow; ret (False, flow, c) }
       else do {
         flow \<leftarrow> arr_set flow 3 s;
         first \<leftarrow> arr_get flow (frame + 1);
         flow \<leftarrow> arr_set flow 1 first;
         stop \<leftarrow> arr_get flow (frame + 2);
         flow \<leftarrow> arr_set flow 2 stop;
         flow \<leftarrow> arr_set flow 0 (depth - 1);
         c \<leftarrow> free_dead_tensors (re_plan env) (re_last_consumer env) first s c;
         ret (True, flow, c) } }) })"

lemma andthen_mono [partial_function_mono]:
  assumes "mono_option B" and "\<And>y. mono_option (\<lambda>f. C y f)"
  shows "mono_option (\<lambda>f. andthen (B f) (\<lambda>y. C y f))"
  unfolding andthen_def
proof (rule bind_mono [OF assms(1)])
  fix y
  show "mono_option (\<lambda>f. case y of Inl e \<Rightarrow> fail e | Inr a \<Rightarrow> C a f)"
    by (cases y) (simp_all add: assms(2) partial_function_mono)
qed

partial_function (option) unwind_loop ::
  "run_env \<Rightarrow> u16 list \<times> mem \<times> ram \<Rightarrow> (u16 list \<times> mem \<times> ram) exec" where
  "unwind_loop env x = do {
     depth \<leftarrow> arr_get (fst x) 0;
     cont \<leftarrow> arr_get (fst x) 3;
     stop \<leftarrow> arr_get (fst x) 2;
     if depth > 0 \<and> cont + 1 = stop
     then andthen (unwind_step env x) (\<lambda>(finished, y). if finished then unwind_loop env y else ret y)
     else ret x }"

definition unwind_control ::
  "run_env \<Rightarrow> u16 \<Rightarrow> u16 list \<times> mem \<times> ram \<Rightarrow> (u16 list \<times> mem \<times> ram) exec" where
  "unwind_control env s = (\<lambda>(flow, c). do {
     flow \<leftarrow> arr_set flow 3 s;
     unwind_loop env (flow, c) })"

section \<open>The stage loop\<close>

definition count_chain :: "u16 \<Rightarrow> mem \<Rightarrow> mem" where
  "count_chain n m = m\<lparr>stats := map_option (\<lambda>s. s\<lparr>stages_chain := stages_chain s + n\<rparr>) (stats m)\<rparr>"

definition count_stage :: "bool \<Rightarrow> mem \<Rightarrow> mem" where
  "count_stage banded m = m\<lparr>stats := map_option (\<lambda>s.
     if banded then s\<lparr>stages_tiled := stages_tiled s + 1\<rparr>
     else s\<lparr>stages_normal := stages_normal s + 1\<rparr>) (stats m)\<rparr>"

text \<open>A stage without control flow: a chain runs from its head, to its last stage.\<close>

definition run_stage :: "run_env \<Rightarrow> u16 \<Rightarrow> mem \<times> ram \<Rightarrow> (u16 \<times> mem \<times> ram) exec" where
  "run_stage env s c = do {
     stage \<leftarrow> plan_stage (re_plan env) (unat s);
     if sg_chain_len stage \<ge> 2 \<and> sg_chain_id stage = s then
       andthen (re_chain env s (sg_chain_len stage) c)
         (\<lambda>(m, h). ret (s + (sg_chain_len stage - 1), count_chain (sg_chain_len stage) m, h))
     else if sg_chain_len stage \<ge> 2 then fail (EXEC_ERR_TILE, c)
     else andthen (re_stage env s c) (\<lambda>(banded, m, h). ret (s, count_stage banded m, h)) }"

text \<open>What follows a stage: dead tensors go, and the fast arena is reset to the run's floor.\<close>

definition after_stage :: "run_env \<Rightarrow> u16 \<Rightarrow> u16 \<Rightarrow> mem \<times> ram \<Rightarrow> (mem \<times> ram) option" where
  "after_stage env first s c = do {
     (m, h) \<leftarrow> free_dead_tensors (re_plan env) (re_last_consumer env) first s c;
     Some (tigris_mem_reset_fast (m\<lparr>fast_reserved := re_floor env\<rparr>), h) }"

text \<open>One round of the loop, with the increment of \<open>s\<close>.\<close>

definition run_round ::
  "run_env \<Rightarrow> u16 \<times> u16 list \<times> mem \<times> ram \<Rightarrow> (u16 \<times> u16 list \<times> mem \<times> ram) exec" where
  "run_round env = (\<lambda>(s, flow, c). do {
     stage \<leftarrow> plan_stage (re_plan env) (unat s);
     control \<leftarrow> stage_control (re_plan env) stage;
     if control \<noteq> None then
       andthen (enter_control env s (flow, c)) (\<lambda>(flow, c). do {
         cont \<leftarrow> arr_get flow 3;
         ret (cont + 1, flow, c) })
     else
       andthen (run_stage env s c) (\<lambda>(s, c). do {
         first \<leftarrow> arr_get flow 1;
         c \<leftarrow> after_stage env first s c;
         depth \<leftarrow> arr_get flow 0;
         stop \<leftarrow> arr_get flow 2;
         if depth > 0 \<and> s + 1 = stop then
           andthen (unwind_control env s (flow, c)) (\<lambda>(flow, c). do {
             cont \<leftarrow> arr_get flow 3;
             ret (cont + 1, flow, c) })
         else ret (s + 1, flow, c) }) })"

partial_function (option) run_stages ::
  "run_env \<Rightarrow> u16 \<times> u16 list \<times> mem \<times> ram \<Rightarrow> (u16 list \<times> mem \<times> ram) exec" where
  "run_stages env x = do {
     stop \<leftarrow> arr_get (fst (snd x)) 2;
     if fst x < stop then andthen (run_round env x) (run_stages env)
     else ret (snd x) }"

text \<open>The loop starts in the main graph, with no operator running.\<close>

definition start_flow :: "tigris_plan \<Rightarrow> u16 list \<Rightarrow> u16 list option" where
  "start_flow pl frames = do {
     flow \<leftarrow> arr_set frames 0 0;
     flow \<leftarrow> arr_set flow 1 0;
     stop \<leftarrow> (if p_num_subgraphs pl \<noteq> 0 then map_option gr_num_stages (plan_subgraph pl 0)
             else map_option hd_num_stages (p_header pl));
     arr_set flow 2 stop }"

definition run_all_stages :: "run_env \<Rightarrow> u16 list \<Rightarrow> mem \<times> ram \<Rightarrow> (u16 list \<times> mem \<times> ram) exec" where
  "run_all_stages env frames c = do {
     flow \<leftarrow> start_flow (re_plan env) frames;
     run_stages env (0, flow, c) }"

end
