(* ===== verification/Control_Runs.thy ===== *)
theory Control_Runs
  imports Control_Flow Subgraph_Depth
begin

text \<open>
  The executor's control flow against its specification. The stage loop of
  \<open>src/tigris_executor.c\<close> is one flat loop that keeps the running If and While operators on a stack
  of frames, and a finished subgraph unwinds as many of them as end together. The specification,
  \<open>structured\<close>, is a recursive interpreter without a stack.

  This theory holds the specification and the first half of the proof: the stage loop is a machine
  whose stack is a list (\<open>stack_machine\<close>), since the flow array always represents such a list, of
  operators that run one inside another and no more of them than there are frames.
\<close>

section \<open>Sequencing\<close>

lemma andthen_assoc: "andthen (andthen m f) g = andthen m (\<lambda>x. andthen (f x) g)"
  by (cases m) (auto simp: andthen_def split: sum.splits)

lemma bind_andthen: "Option.bind m (\<lambda>x. andthen (f x) g) = andthen (Option.bind m f) g"
  by (cases m) simp_all

lemma andthen_bind: "andthen (Option.bind m f) g = Option.bind m (\<lambda>x. andthen (f x) g)"
  by (cases m) simp_all

lemma andthen_cong: "(\<And>x. m = Some (Inr x) \<Longrightarrow> f x = g x) \<Longrightarrow> andthen m f = andthen m g"
  by (cases m) (auto simp: andthen_def split: sum.splits)

lemma andthen_ret [simp]: "andthen m ret = m"
  by (cases m) (auto simp: andthen_def split: sum.splits)

lemma andthen_split_case:
  "andthen m f = (case m of None \<Rightarrow> None | Some (Inl e) \<Rightarrow> Some (Inl e) | Some (Inr x) \<Rightarrow> f x)"
  by (cases m) (auto simp: andthen_def split: sum.splits)

section \<open>The specification\<close>

text \<open>The stages of a graph: of a plan without subgraphs, all.\<close>

definition graph_start :: "tigris_plan \<Rightarrow> nat \<Rightarrow> nat" where
  "graph_start pl g = (if p_num_subgraphs pl = 0 then 0 else stages_before pl g)"

definition graph_end :: "tigris_plan \<Rightarrow> nat \<Rightarrow> nat \<Rightarrow> nat" where
  "graph_end pl N g = (if p_num_subgraphs pl = 0 then N else stages_before pl (Suc g))"

text \<open>\<open>Stages g s\<close> runs graph \<open>g\<close> from stage \<open>s\<close> to its end; \<open>Operator s g\<close> runs graph \<open>g\<close> for the
  operator at stage \<open>s\<close>, and whatever graphs the operator runs after it.\<close>

datatype task = Stages nat nat | Operator nat nat

partial_function (option) structured :: "run_env \<Rightarrow> nat \<Rightarrow> task \<Rightarrow> mem \<times> ram \<Rightarrow> (mem \<times> ram) exec" where
  "structured env N t c = (case t of
     Stages g s \<Rightarrow>
       if s \<ge> graph_end (re_plan env) N g then ret c
       else do {
         stage \<leftarrow> plan_stage (re_plan env) s;
         control \<leftarrow> stage_control (re_plan env) stage;
         if control = None then
           andthen (run_stage env (word_of_nat s) c) (\<lambda>(last_stage, c). do {
             c \<leftarrow> after_stage env (word_of_nat (graph_start (re_plan env) g)) last_stage c;
             structured env N (Stages g (unat last_stage + 1)) c })
         else do {
           (k, oper) \<leftarrow> control_op (re_plan env) s;
           andthen (start_control (re_plan env) oper k c) (\<lambda>(x, c).
             andthen (structured env N (Operator s (unat x)) c) (\<lambda>c. do {
               c \<leftarrow> free_dead_tensors (re_plan env) (re_last_consumer env)
                      (word_of_nat (graph_start (re_plan env) g)) (word_of_nat s) c;
               structured env N (Stages g (s + 1)) c })) } }
   | Operator s x \<Rightarrow>
       andthen (structured env N (Stages x (graph_start (re_plan env) x)) c) (\<lambda>c. do {
         (k, oper) \<leftarrow> control_op (re_plan env) s;
         andthen (step_control (re_plan env) oper k (word_of_nat x) c) (\<lambda>(finished, x, c).
           if finished then ret c else structured env N (Operator s (unat x)) c) }))"

section \<open>A machine with a list as its stack\<close>

text \<open>The stack: the stage of each running operator and the graph it runs, innermost first.\<close>

type_synonym stack = "(nat \<times> nat) list"

fun running :: "stack \<Rightarrow> nat" where
  "running [] = 0"
| "running ((s, x) # st) = x"

text \<open>After stage \<open>s\<close> of the running graph.\<close>

fun stack_unwind :: "run_env \<Rightarrow> nat \<Rightarrow> stack \<Rightarrow> nat \<Rightarrow> mem \<times> ram \<Rightarrow> (stack \<times> nat \<times> mem \<times> ram) exec" where
  "stack_unwind env N [] s c = ret ([], s + 1, c)"
| "stack_unwind env N ((s0, x) # st) s c =
     (if s + 1 = graph_end (re_plan env) N x then do {
        (k, oper) \<leftarrow> control_op (re_plan env) s0;
        andthen (step_control (re_plan env) oper k (word_of_nat x) c) (\<lambda>(finished, x, c).
          if finished then do {
            c \<leftarrow> free_dead_tensors (re_plan env) (re_last_consumer env)
                   (word_of_nat (graph_start (re_plan env) (running st))) (word_of_nat s0) c;
            stack_unwind env N st s0 c }
          else ret ((s0, unat x) # st, graph_start (re_plan env) (unat x), c)) }
      else ret ((s0, x) # st, s + 1, c))"

definition stack_round ::
  "run_env \<Rightarrow> nat \<Rightarrow> stack \<times> nat \<times> mem \<times> ram \<Rightarrow> (stack \<times> nat \<times> mem \<times> ram) exec" where
  "stack_round env N = (\<lambda>(st, s, c). do {
     stage \<leftarrow> plan_stage (re_plan env) s;
     control \<leftarrow> stage_control (re_plan env) stage;
     if control = None then
       andthen (run_stage env (word_of_nat s) c) (\<lambda>(last_stage, c). do {
         c \<leftarrow> after_stage env (word_of_nat (graph_start (re_plan env) (running st))) last_stage c;
         stack_unwind env N st (unat last_stage) c })
     else do {
       (k, oper) \<leftarrow> control_op (re_plan env) s;
       andthen (start_control (re_plan env) oper k c) (\<lambda>(x, c).
         ret ((s, unat x) # st, graph_start (re_plan env) (unat x), c)) } })"

partial_function (option) stack_machine ::
  "run_env \<Rightarrow> nat \<Rightarrow> stack \<times> nat \<times> mem \<times> ram \<Rightarrow> (mem \<times> ram) exec" where
  "stack_machine env N x =
     (if fst (snd x) < graph_end (re_plan env) N (running (fst x))
      then andthen (stack_round env N x) (stack_machine env N)
      else ret (snd (snd x)))"

section \<open>The plan\<close>

text \<open>What the loader's checks give the executor: chains end inside their graph, and the control
  flow passed its checks, if there is any. \<open>N\<close> is the number of stages.\<close>

definition chain_inside :: "tigris_plan \<Rightarrow> nat \<Rightarrow> nat \<Rightarrow> bool" where
  "chain_inside pl N s = (\<forall>stage. plan_stage pl s = Some stage \<longrightarrow> 2 \<le> sg_chain_len stage \<longrightarrow>
     unat (sg_chain_id stage) = s \<longrightarrow> s + unat (sg_chain_len stage) \<le> N \<and>
     (p_num_subgraphs pl \<noteq> 0 \<longrightarrow> (\<forall>g. in_graph pl g s \<longrightarrow> s + unat (sg_chain_len stage) \<le> stages_before pl (Suc g))))"

definition control_ready :: "tigris_plan \<Rightarrow> nat \<Rightarrow> bool" where
  "control_ready pl N = (N < 65536 \<and> (\<forall>s < N. chain_inside pl N s) \<and>
     (p_num_subgraphs pl = 0 \<or> control_checked pl N))"

lemma control_ready_laid:
  "control_ready pl N \<Longrightarrow> p_num_subgraphs pl \<noteq> 0 \<Longrightarrow> graphs_laid_out pl N"
  by (auto simp: control_ready_def control_checked_def)

text \<open>Graphs that can run: the main graph, and those inside the table.\<close>

definition graph_exists :: "tigris_plan \<Rightarrow> nat \<Rightarrow> bool" where
  "graph_exists pl g = (g = 0 \<or> g < graph_count pl)"

lemma graph_end_le:
  assumes "control_ready pl N" and "graph_exists pl g"
  shows "graph_end pl N g \<le> N"
proof (cases "p_num_subgraphs pl = 0")
  case False
  then have laid: "graphs_laid_out pl N" using assms(1) by (rule control_ready_laid [rotated])
  then have "g < graph_count pl" using assms(2) by (auto simp: graph_exists_def graphs_laid_out_def)
  then have "stages_before pl (Suc g) \<le> stages_before pl (graph_count pl)" by (intro stages_before_mono) simp
  then show ?thesis using False laid by (simp add: graph_end_def graphs_laid_out_def)
qed (simp add: graph_end_def)

lemma graph_start_le: "graph_start pl g \<le> graph_end pl N g"
  by (simp add: graph_start_def graph_end_def)

lemma subgraph_nonempty:
  assumes "control_ready pl N" and "0 < g" and "g < graph_count pl"
  shows "graph_start pl g < graph_end pl N g"
proof -
  have "p_num_subgraphs pl \<noteq> 0" using assms(3) by auto
  moreover from this have "graph_ok pl g"
    using control_ready_laid [OF assms(1)] assms(3) by (simp add: graphs_laid_out_def)
  ultimately show ?thesis
    using assms(2) by (auto simp: graph_ok_def graph_start_def graph_end_def)
qed

lemma in_graph_range:
  "p_num_subgraphs pl \<noteq> 0 \<Longrightarrow> in_graph pl g s \<longleftrightarrow> graph_start pl g \<le> s \<and> s < graph_end pl N g"
  by (simp add: in_graph_def graph_start_def graph_end_def)

text \<open>A stage that holds a control-flow operator names later graphs, which the depth walk counts.\<close>

definition control_at :: "tigris_plan \<Rightarrow> nat \<Rightarrow> bool" where
  "control_at pl s = (\<exists>stage oper. plan_stage pl s = Some stage \<and> stage_control pl stage = Some (Some oper))"

lemma control_at_graphs:
  assumes ready: "control_ready pl N" and at: "control_at pl s"
    and s: "graph_start pl g \<le> s" "s < graph_end pl N g" "graph_exists pl g"
  shows "\<exists>k oper. control_op pl s = Some (k, oper) \<and> (\<forall>slot < 2. \<exists>x. control_graph pl k slot = Some x \<and>
    g < unat x \<and> unat x < graph_count pl \<and> graph_run_at pl (2 * s + slot) = Some (unat x))"
proof -
  from at obtain stage oper where st: "plan_stage pl s = Some stage" "stage_control pl stage = Some (Some oper)"
    by (auto simp: control_at_def)
  then obtain k where sub: "p_num_subgraphs pl \<noteq> 0" and one: "sg_ops_count stage = 1"
    and k: "tigris_stage_ops pl stage 0 = Some k" "plan_op pl (unat k) = Some oper"
    and ctl: "op_op_type oper = OP_IF \<or> op_op_type oper = OP_WHILE"
    by (auto simp: stage_control_def bind_eq_Some_conv split: if_splits)
  have sN: "s < N" using s graph_end_le [OF ready s(3)] by simp
  have laid: "graphs_laid_out pl N" by (rule control_ready_laid [OF ready sub])
  have home: "graph_of_stage pl s = Some g"
    by (rule graph_of_stage_in [OF laid sN]) (use s in_graph_range [OF sub] in blast)
  have "check_control_stage pl s = Some (Inr ())"
    using ready sub sN by (auto simp: control_ready_def control_checked_def)
  then have c: "check_control_op pl s stage 0 = Some (Inr ())"
    using st(1) one for_check_all [of "unat (sg_ops_count stage)" "check_control_op pl s stage" 0]
    by (auto simp: check_control_stage_def)
  have "\<exists>x. control_graph pl k slot = Some x \<and> g < unat x \<and> unat x < graph_count pl \<and>
      graph_run_at pl (2 * s + slot) = Some (unat x)" if slot: "slot < 2" for slot
  proof -
    from control_graph_bound [OF c k ctl slot] obtain runs len container x where
      x: "tigris_op_attribute_data pl k ATTR_SUBGRAPHS = Some (Some (runs, len))"
        "graph_of_stage pl s = Some container" "named_graph pl runs slot = Some x" "container < unat x"
        "unat x < graph_count pl" by blast
    have "(2 * s + slot) div 2 = s" "(2 * s + slot) mod 2 = slot" using slot by auto
    then have "graph_run_at pl (2 * s + slot) = Some (unat x)"
      using st(1) one k ctl x by (auto simp: graph_run_at_def)
    moreover have "control_graph pl k slot = Some x"
      using x by (simp add: control_graph_def named_graph_def)
    ultimately show ?thesis using x home by auto
  qed
  then show ?thesis using st(1) k by (auto simp: control_op_def)
qed

text \<open>The graph an operator starts with or steps into is one of its two.\<close>

lemma one_of_two:
  "P 0 \<Longrightarrow> \<exists>slot < (2 :: nat). P slot" "P 1 \<Longrightarrow> \<exists>slot < (2 :: nat). P slot" "P (Suc 0) \<Longrightarrow> \<exists>slot < (2 :: nat). P slot"
  by (rule exI [of _ 0], simp) (rule exI [of _ 1], simp)+

lemma start_control_graph:
  "start_control pl oper k c = Some (Inr (x, c')) \<Longrightarrow> \<exists>slot < 2. control_graph pl k slot = Some x"
  by (auto simp: start_control_def bind_eq_Some_conv andthen_Inr intro: one_of_two split: if_splits)

lemma step_control_graph:
  "step_control pl oper k g c = Some (Inr (False, x, c')) \<Longrightarrow> \<exists>slot < 2. control_graph pl k slot = Some x"
  by (auto simp: step_control_def bind_eq_Some_conv andthen_Inr Let_def intro: one_of_two split: if_splits)

section \<open>Stacks\<close>

text \<open>Each operator on the stack runs, at its stage, a later graph than the one it is in.\<close>

fun stack_ok :: "tigris_plan \<Rightarrow> nat \<Rightarrow> stack \<Rightarrow> bool" where
  "stack_ok pl N [] = True"
| "stack_ok pl N ((s, x) # st) = (stack_ok pl N st \<and> control_at pl s \<and> graph_start pl (running st) \<le> s \<and>
     s < graph_end pl N (running st) \<and> running st < x \<and> x < graph_count pl \<and>
     (\<exists>slot < 2. graph_run_at pl (2 * s + slot) = Some x))"

definition config_ok :: "tigris_plan \<Rightarrow> nat \<Rightarrow> stack \<Rightarrow> nat \<Rightarrow> bool" where
  "config_ok pl N st s = (stack_ok pl N st \<and> graph_start pl (running st) \<le> s \<and>
     s \<le> graph_end pl N (running st) \<and> (st \<noteq> [] \<longrightarrow> s < graph_end pl N (running st)))"

lemma running_exists: "stack_ok pl N st \<Longrightarrow> graph_exists pl (running st)"
  by (cases "(pl, N, st)" rule: stack_ok.cases) (auto simp: graph_exists_def)

lemma config_range:
  assumes "control_ready pl N" and "config_ok pl N st s"
  shows "s \<le> N" "N < 65536"
  using assms graph_end_le [OF assms(1) running_exists [of pl N st]] by (auto simp: config_ok_def control_ready_def)

text \<open>The stack is no higher than the nesting depth the loader computed.\<close>

lemma depth_below_mono:
  assumes "p \<le> q" shows "depth_below pl g q \<le> depth_below pl g p"
  using assms
proof (induction "q - p" arbitrary: p)
  case (Suc n)
  then have "depth_below pl g q \<le> depth_below pl g (Suc p)" by (metis Suc_diff_Suc Suc_leI diff_Suc_1 zero_less_Suc zero_less_diff)
  also have "\<dots> \<le> depth_below pl g p"
  proof (cases "p < 2 * stages_before pl (Suc g)")
    case True
    then show ?thesis by (subst (2) depth_below.simps) (auto split: option.splits simp del: stages_before.simps)
  next
    case False
    then show ?thesis by (subst (1) depth_below.simps) (simp del: stages_before.simps)
  qed
  finally show ?case .
qed simp

lemma depth_below_run:
  assumes "control_ready pl N" and "p_num_subgraphs pl \<noteq> 0"
    and "graph_start pl g \<le> s" "s < graph_end pl N g" "slot < 2"
    and "graph_run_at pl (2 * s + slot) = Some x" "g < x" "x < graph_count pl"
  shows "Suc (depth_below pl x (2 * stages_before pl x)) \<le> depth_below pl g (2 * stages_before pl g)"
proof -
  have "2 * s + slot < 2 * stages_before pl (Suc g)"
    using assms(2,4,5) by (simp add: graph_end_def del: stages_before.simps)
  from depth_below_child [OF this assms(6-8)]
  have "Suc (depth_below pl x (2 * stages_before pl x)) \<le> depth_below pl g (2 * s + slot)" by simp
  also have "\<dots> \<le> depth_below pl g (2 * stages_before pl g)"
    by (rule depth_below_mono) (use assms(2,3) in \<open>simp add: graph_start_def\<close>)
  finally show ?thesis .
qed

lemma stack_depth:
  assumes "control_ready pl N"
  shows "stack_ok pl N st \<Longrightarrow>
    length st + depth_below pl (running st) (2 * stages_before pl (running st)) \<le> nesting_depth pl"
proof (induction st)
  case (Cons f st)
  obtain s x where f: "f = (s, x)" by fastforce
  have sub: "p_num_subgraphs pl \<noteq> 0" using Cons.prems f by auto
  have "Suc (depth_below pl x (2 * stages_before pl x))
      \<le> depth_below pl (running st) (2 * stages_before pl (running st))"
    using depth_below_run [OF assms sub, of "running st" s] Cons.prems f by auto
  then show ?case using Cons f by simp
qed (simp add: nesting_depth_def)

text \<open>Starting an operator.\<close>

lemma push_ok:
  assumes ready: "control_ready pl N" and ok: "config_ok pl N st s" "s < graph_end pl N (running st)"
    and at: "control_at pl s" "control_op pl s = Some (k, oper)"
    and x: "control_graph pl k slot = Some x" "slot < 2"
  shows "stack_ok pl N ((s, unat x) # st) \<and> config_ok pl N ((s, unat x) # st) (graph_start pl (unat x))"
proof -
  have st: "stack_ok pl N st" "graph_start pl (running st) \<le> s" using ok(1) by (simp_all add: config_ok_def)
  from control_at_graphs [OF ready at(1) st(2) ok(2) running_exists [OF st(1)]] at(2) x
  have g: "running st < unat x" "unat x < graph_count pl" "graph_run_at pl (2 * s + slot) = Some (unat x)" by auto
  then have "stack_ok pl N ((s, unat x) # st)" using st ok(2) at(1) x(2) by auto
  moreover have "graph_start pl (unat x) < graph_end pl N (unat x)"
    by (rule subgraph_nonempty [OF ready]) (use g in auto)
  ultimately show ?thesis by (simp add: config_ok_def)
qed

lemma push_depth:
  assumes "control_ready pl N" and "stack_ok pl N ((s, x) # st)"
  shows "length st < nesting_depth pl"
  using stack_depth [OF assms] by simp

text \<open>A stage without control flow ends inside the graph it started in.\<close>

lemma run_stage_range:
  assumes ready: "control_ready (re_plan env) N" and ok: "config_ok (re_plan env) N st s"
    and s: "s < graph_end (re_plan env) N (running st)"
    and run: "run_stage env (word_of_nat s) c = Some (Inr (l, c'))"
  shows "s \<le> unat l" "unat l < graph_end (re_plan env) N (running st)"
proof -
  let ?pl = "re_plan env"
  have sN: "s < N" "N < 65536"
    using graph_end_le [OF ready running_exists [of ?pl N st]] s ready ok by (auto simp: config_ok_def control_ready_def)
  then have us: "unat (word_of_nat s :: u16) = s" by (simp add: unat_of_nat_u16)
  have inside: "chain_inside ?pl N s" using ready sN(1) by (simp add: control_ready_def)
  from run obtain stage where st: "plan_stage ?pl s = Some stage"
    and cases: "l = word_of_nat s \<or> (2 \<le> sg_chain_len stage \<and> sg_chain_id stage = word_of_nat s \<and>
        l = word_of_nat s + (sg_chain_len stage - 1))"
    unfolding run_stage_def us by (auto simp: bind_eq_Some_conv andthen_Inr split: if_splits)
  from cases have "s \<le> unat l \<and> unat l < graph_end ?pl N (running st)"
  proof (elim disjE conjE)
    assume chain: "2 \<le> sg_chain_len stage" "sg_chain_id stage = word_of_nat s"
      "l = word_of_nat s + (sg_chain_len stage - 1)"
    have two: "2 \<le> unat (sg_chain_len stage)" using chain(1) by (simp add: word_le_nat_alt)
    have fit: "s + unat (sg_chain_len stage) \<le> graph_end ?pl N (running st)"
      using inside st chain(1,2) us ok in_graph_range [of ?pl "running st" s N] s
      by (auto simp: chain_inside_def graph_end_def config_ok_def)
    have "graph_end ?pl N (running st) \<le> N"
      using graph_end_le [OF ready running_exists [of ?pl N st]] ok by (simp add: config_ok_def)
    then have "unat l = s + (unat (sg_chain_len stage) - 1)"
      using chain(3) fit two sN us unat_sub [of 1 "sg_chain_len stage"] chain(1)
      by (subst chain(3)) (simp add: unat_word_ariths word_le_nat_alt)
    then show ?thesis using two fit by linarith
  qed (use us s in simp)
  then show "s \<le> unat l" "unat l < graph_end ?pl N (running st)" by simp_all
qed

section \<open>The flow array represents the stack\<close>

fun frames_hold :: "tigris_plan \<Rightarrow> nat \<Rightarrow> stack \<Rightarrow> u16 list \<Rightarrow> bool" where
  "frames_hold pl N [] flow = True"
| "frames_hold pl N ((s, x) # st) flow = (let frame = 4 + 4 * length st in
     flow ! frame = word_of_nat s \<and> flow ! (frame + 1) = word_of_nat (graph_start pl (running st)) \<and>
     flow ! (frame + 2) = word_of_nat (graph_end pl N (running st)) \<and> flow ! (frame + 3) = word_of_nat x \<and>
     frames_hold pl N st flow)"

definition represents :: "tigris_plan \<Rightarrow> nat \<Rightarrow> nat \<Rightarrow> stack \<Rightarrow> u16 list \<Rightarrow> bool" where
  "represents pl N cap st flow = (length flow = 4 + 4 * cap \<and> length st \<le> cap \<and>
     flow ! 0 = word_of_nat (length st) \<and> flow ! 1 = word_of_nat (graph_start pl (running st)) \<and>
     flow ! 2 = word_of_nat (graph_end pl N (running st)) \<and> frames_hold pl N st flow)"

lemma frames_hold_update:
  "k < 4 \<or> 4 + 4 * length st \<le> k \<Longrightarrow> frames_hold pl N st (flow[k := v]) = frames_hold pl N st flow"
  by (induction st) (auto simp: Let_def nth_list_update)

lemma word_unat_inverse: "w = word_of_nat (unat w)"
  by simp

text \<open>Entering a graph.\<close>

lemma enter_graph_exact:
  assumes ready: "control_ready pl N" and x: "0 < unat x" "unat x < graph_count pl" and len: "4 \<le> length flow"
  shows "enter_graph pl x flow = Some (flow[1 := word_of_nat (graph_start pl (unat x)),
    2 := word_of_nat (graph_end pl N (unat x)), 3 := word_of_nat (graph_start pl (unat x)) - 1])"
proof -
  have sub: "p_num_subgraphs pl \<noteq> 0" using x by auto
  have "graph_ok pl (unat x)"
    using control_ready_laid [OF ready sub] x by (simp add: graphs_laid_out_def)
  then obtain r where r: "plan_subgraph pl (unat x) = Some r" "unat (gr_first_stage r) = stages_before pl (unat x)"
    "unat (gr_num_stages r) = graph_stages pl (unat x)" by (auto simp: graph_ok_def graph_stages_def)
  have first: "gr_first_stage r = word_of_nat (graph_start pl (unat x))"
    using word_unat_inverse [of "gr_first_stage r"] r(2) sub by (simp only: graph_start_def if_False)
  have "gr_num_stages r = word_of_nat (graph_stages pl (unat x))"
    using word_unat_inverse [of "gr_num_stages r"] by (simp only: r(3))
  then have "gr_first_stage r + gr_num_stages r = word_of_nat (graph_end pl N (unat x))"
    using first sub by (simp add: graph_start_def graph_end_def)
  then show ?thesis using r(1) first len by (simp add: enter_graph_def arr_set_def)
qed

text \<open>Two outcomes agree when both are undefined, the same error, or results that are related.\<close>

definition agree :: "('a \<Rightarrow> 'b \<Rightarrow> bool) \<Rightarrow> 'a exec \<Rightarrow> 'b exec \<Rightarrow> bool" where
  "agree R a b = (case a of None \<Rightarrow> b = None | Some (Inl e) \<Rightarrow> b = Some (Inl e)
     | Some (Inr x) \<Rightarrow> (\<exists>y. b = Some (Inr y) \<and> R x y))"

lemma agree_simps [simp]:
  "agree R None b = (b = None)" "agree R (Some (Inl e)) b = (b = Some (Inl e))"
  "agree R (Some (Inr x)) b = (\<exists>y. b = Some (Inr y) \<and> R x y)"
  by (simp_all add: agree_def)

lemma agree_andthen:
  assumes "agree R a b" and "\<And>x y. a = Some (Inr x) \<Longrightarrow> b = Some (Inr y) \<Longrightarrow> R x y \<Longrightarrow> agree S (f x) (g y)"
  shows "agree S (andthen a f) (andthen b g)"
proof (cases "\<exists>x. a = Some (Inr x)")
  case True
  then obtain x y where "a = Some (Inr x)" "b = Some (Inr y)" "R x y" using assms(1) by auto
  then show ?thesis using assms(2) by simp
next
  case False
  then show ?thesis using assms(1) by (cases a) (auto simp: agree_def andthen_split_case split: sum.splits)
qed

lemma agree_same:
  assumes "\<And>x. m = Some (Inr x) \<Longrightarrow> agree S (f x) (g x)"
  shows "agree S (andthen m f) (andthen m g)"
  using assms by (auto simp: agree_def andthen_split_case split: option.splits sum.splits)

lemma agree_bind:
  assumes "\<And>x. m = Some x \<Longrightarrow> agree S (f x) (g x)"
  shows "agree S (Option.bind m f) (Option.bind m g)"
  using assms by (cases m) simp_all

lemma agree_mono: "agree R a b \<Longrightarrow> (\<And>x y. R x y \<Longrightarrow> S x y) \<Longrightarrow> agree S a b"
  by (auto simp: agree_def split: option.splits sum.splits)

text \<open>The flow array after a push, and after a step or a pop.\<close>

lemma represents_push:
  assumes rep: "represents pl N cap st flow" and "length st < cap"
  shows "represents pl N cap ((s, x) # st)
    (flow[7 + 4 * length st := word_of_nat x, 4 + 4 * length st := word_of_nat s,
      5 + 4 * length st := flow ! 1, 6 + 4 * length st := flow ! 2, 0 := word_of_nat (length st) + 1,
      1 := word_of_nat (graph_start pl x), 2 := word_of_nat (graph_end pl N x), 3 := v])"
  using assms by (simp add: represents_def frames_hold_update Let_def nth_list_update add.commute)

lemma represents_step:
  assumes rep: "represents pl N cap ((s, x0) # st) flow"
  shows "represents pl N cap ((s, x) # st)
    (flow[7 + 4 * length st := word_of_nat x,
      1 := word_of_nat (graph_start pl x), 2 := word_of_nat (graph_end pl N x), 3 := v])"
  using assms by (simp add: represents_def frames_hold_update Let_def nth_list_update add.commute)

lemma represents_pop:
  assumes rep: "represents pl N cap ((s, x) # st) flow"
  shows "represents pl N cap st
    (flow[7 + 4 * length st := w, 3 := v, 1 := flow ! (5 + 4 * length st), 2 := flow ! (6 + 4 * length st),
      0 := word_of_nat (length st)])"
  using assms by (simp add: represents_def frames_hold_update Let_def nth_list_update add.commute)

section \<open>The stage loop runs the machine\<close>

abbreviation capacity :: "run_env \<Rightarrow> nat" where "capacity env \<equiv> unat (re_depth_capacity env)"

text \<open>The plan is ready and its operators do not nest deeper than there are frames.\<close>

definition env_ok :: "run_env \<Rightarrow> nat \<Rightarrow> bool" where
  "env_ok env N = (control_ready (re_plan env) N \<and>
     (p_num_subgraphs (re_plan env) \<noteq> 0 \<longrightarrow> nesting_depth (re_plan env) \<le> capacity env))"

definition entered :: "run_env \<Rightarrow> nat \<Rightarrow> u16 list \<times> mem \<times> ram \<Rightarrow> stack \<times> nat \<times> mem \<times> ram \<Rightarrow> bool" where
  "entered env N x y = (snd x = snd (snd y) \<and> represents (re_plan env) N (capacity env) (fst y) (fst x) \<and>
     fst x ! 3 + 1 = word_of_nat (fst (snd y)) \<and> config_ok (re_plan env) N (fst y) (fst (snd y)))"

lemma capacity_less: "capacity env < 65536" by (rule unat_u16_less)

lemma control_slot:
  assumes env: "env_ok env N" and st: "stack_ok (re_plan env) N st" "graph_start (re_plan env) (running st) \<le> s"
    "s < graph_end (re_plan env) N (running st)" and at: "control_at (re_plan env) s"
    and op: "control_op (re_plan env) s = Some (k, oper)"
    and x: "\<exists>slot < 2. control_graph (re_plan env) k slot = Some x"
  shows "stack_ok (re_plan env) N ((s, unat x) # st)"
    "config_ok (re_plan env) N ((s, unat x) # st) (graph_start (re_plan env) (unat x))"
    "0 < unat x" "unat x < graph_count (re_plan env)" "length st < capacity env"
proof -
  have ready: "control_ready (re_plan env) N" using env by (simp add: env_ok_def)
  have "config_ok (re_plan env) N st s" using st by (simp add: config_ok_def)
  from x push_ok [OF ready this st(3) at op] show ok: "stack_ok (re_plan env) N ((s, unat x) # st)"
    "config_ok (re_plan env) N ((s, unat x) # st) (graph_start (re_plan env) (unat x))" by auto
  then show "0 < unat x" "unat x < graph_count (re_plan env)" by auto
  have "p_num_subgraphs (re_plan env) \<noteq> 0" using ok(1) by auto
  then show "length st < capacity env" using push_depth [OF ready ok(1)] env by (simp add: env_ok_def)
qed

lemma enter_control_sim:
  assumes env: "env_ok env N" and rep: "represents (re_plan env) N (capacity env) st flow"
    and ok: "config_ok (re_plan env) N st s" "s < graph_end (re_plan env) N (running st)"
    and at: "control_at (re_plan env) s"
  shows "agree (entered env N) (enter_control env (word_of_nat s) (flow, c))
    (do { (k, oper) \<leftarrow> control_op (re_plan env) s;
          andthen (start_control (re_plan env) oper k c) (\<lambda>(x, c).
            ret ((s, unat x) # st, graph_start (re_plan env) (unat x), c)) })"
proof -
  let ?pl = "re_plan env"
  have ready: "control_ready ?pl N" using env by (simp add: env_ok_def)
  have st: "stack_ok ?pl N st" "graph_start ?pl (running st) \<le> s" using ok(1) by (simp_all add: config_ok_def)
  have us: "unat (word_of_nat s :: u16) = s"
    using config_range [OF ready ok(1)] by (simp add: unat_of_nat_u16)
  from control_at_graphs [OF ready at st(2) ok(2) running_exists [OF st(1)]] obtain k oper y where
    op: "control_op ?pl s = Some (k, oper)" and y: "\<exists>slot < 2. control_graph ?pl k slot = Some y"
    using zero_less_numeral by meson
  have room: "length st < capacity env" by (rule control_slot(5) [OF env st ok(2) at op y])
  have small: "4 * length st + 8 \<le> length flow" "flow ! 0 = word_of_nat (length st)"
    "unat (word_of_nat (length st) :: u16) = length st" "flow \<noteq> []"
    using rep room capacity_less [of env] by (auto simp: represents_def unat_of_nat_u16)
  have low: "\<not> word_of_nat (length st) \<ge> re_depth_capacity env"
    using room small(3) by (simp add: word_le_nat_alt)
  have "agree (entered env N)
    (andthen (start_control ?pl oper k c) (\<lambda>(g, c). do {
         flow \<leftarrow> arr_set flow (4 + 4 * length st + 3) g;
         flow \<leftarrow> arr_set flow (4 + 4 * length st) (word_of_nat s);
         first \<leftarrow> arr_get flow 1;
         flow \<leftarrow> arr_set flow (4 + 4 * length st + 1) first;
         stop \<leftarrow> arr_get flow 2;
         flow \<leftarrow> arr_set flow (4 + 4 * length st + 2) stop;
         flow \<leftarrow> arr_set flow 0 (word_of_nat (length st) + 1);
         flow \<leftarrow> enter_graph ?pl g flow;
         ret (flow, c) }))
    (andthen (start_control ?pl oper k c) (\<lambda>(x, c). ret ((s, unat x) # st, graph_start ?pl (unat x), c)))"
  proof (rule agree_same)
    fix r assume start: "start_control ?pl oper k c = Some (Inr r)"
    obtain g c' where r: "r = (g, c')" by (rule prod.exhaust)
    note slot = control_slot [OF env st ok(2) at op start_control_graph [OF start [unfolded r]]]
    note enter = enter_graph_exact [OF ready slot(3,4)]
    show "agree (entered env N) ((\<lambda>(g, c). do {
         flow \<leftarrow> arr_set flow (4 + 4 * length st + 3) g;
         flow \<leftarrow> arr_set flow (4 + 4 * length st) (word_of_nat s);
         first \<leftarrow> arr_get flow 1;
         flow \<leftarrow> arr_set flow (4 + 4 * length st + 1) first;
         stop \<leftarrow> arr_get flow 2;
         flow \<leftarrow> arr_set flow (4 + 4 * length st + 2) stop;
         flow \<leftarrow> arr_set flow 0 (word_of_nat (length st) + 1);
         flow \<leftarrow> enter_graph ?pl g flow;
         ret (flow, c) }) r)
       ((\<lambda>(x, c). ret ((s, unat x) # st, graph_start ?pl (unat x), c)) r)"
      using small slot represents_push [OF rep room, where s = s and x = "unat g"]
      by (simp add: r arr_set_def arr_get_def enter entered_def)
  qed
  then show ?thesis
    unfolding enter_control_def using op small low by (simp add: us arr_get_def Let_def)
qed

lemma unwind_step_sim:
  assumes env: "env_ok env N" and rep: "represents (re_plan env) N (capacity env) ((s0, x) # st) flow"
    and ok: "stack_ok (re_plan env) N ((s0, x) # st)"
  shows "agree (\<lambda>(finished, y) z. (if finished then z = Inl (snd y) \<and>
         represents (re_plan env) N (capacity env) st (fst y) \<and> fst y ! 3 = word_of_nat s0
       else \<exists>w. z = Inr w \<and> entered env N y w))
    (unwind_step env (flow, c))
    (do { (k, oper) \<leftarrow> control_op (re_plan env) s0;
          andthen (step_control (re_plan env) oper k (word_of_nat x) c) (\<lambda>(finished, x, c).
            if finished then do {
              c \<leftarrow> free_dead_tensors (re_plan env) (re_last_consumer env)
                     (word_of_nat (graph_start (re_plan env) (running st))) (word_of_nat s0) c;
              ret (Inl c) }
            else ret (Inr ((s0, unat x) # st, graph_start (re_plan env) (unat x), c))) })"
proof -
  let ?pl = "re_plan env"
  have ready: "control_ready ?pl N" using env by (simp add: env_ok_def)
  have st: "stack_ok ?pl N st" "graph_start ?pl (running st) \<le> s0" "s0 < graph_end ?pl N (running st)"
    and at: "control_at ?pl s0" using ok by simp_all
  have us: "unat (word_of_nat s0 :: u16) = s0"
    using graph_end_le [OF ready running_exists [OF st(1)]] st(3) ready
    by (simp add: unat_of_nat_u16 control_ready_def)
  have small: "4 * length st + 8 \<le> length flow" "flow ! 0 = word_of_nat (length st) + 1"
    "unat (word_of_nat (length st) + 1 :: u16) = Suc (length st)" "flow \<noteq> []"
    "flow ! (4 + 4 * length st) = word_of_nat s0" "flow ! (7 + 4 * length st) = word_of_nat x"
    using rep capacity_less [of env] unat_of_nat_u16 [of "Suc (length st)"]
    by (auto simp: represents_def Let_def add.commute)
  obtain k oper where op: "control_op ?pl s0 = Some (k, oper)"
    using control_at_graphs [OF ready at st(2,3) running_exists [OF st(1)]] by blast
  let ?F = "\<lambda>(finished, g, c). do {
       flow \<leftarrow> arr_set flow (7 + 4 * length st) g;
       if \<not> finished then do { flow \<leftarrow> enter_graph ?pl g flow; ret (False, flow, c) }
       else do {
         flow \<leftarrow> arr_set flow 3 (word_of_nat s0);
         first \<leftarrow> arr_get flow (5 + 4 * length st);
         flow \<leftarrow> arr_set flow 1 first;
         stop \<leftarrow> arr_get flow (6 + 4 * length st);
         flow \<leftarrow> arr_set flow 2 stop;
         flow \<leftarrow> arr_set flow 0 (word_of_nat (length st));
         c \<leftarrow> free_dead_tensors ?pl (re_last_consumer env) first (word_of_nat s0) c;
         ret (True, flow, c) } }"
  have step: "unwind_step env (flow, c) = andthen (step_control ?pl oper k (word_of_nat x) c) ?F"
    unfolding unwind_step_def using small op by (simp add: us arr_get_def Let_def cong: if_cong)
  show ?thesis
    unfolding step op bind.bind_lunit prod.case
  proof (rule agree_same)
    fix r assume r: "step_control ?pl oper k (word_of_nat x) c = Some (Inr r)"
    obtain fin g c' where rr: "r = (fin, g, c')" by (metis prod.exhaust)
    show "agree (\<lambda>(finished, y) z. (if finished then z = Inl (snd y) \<and>
         represents (re_plan env) N (capacity env) st (fst y) \<and> fst y ! 3 = word_of_nat s0
       else \<exists>w. z = Inr w \<and> entered env N y w)) (?F r)
      ((\<lambda>(finished, x, c).
            if finished then do {
              c \<leftarrow> free_dead_tensors (re_plan env) (re_last_consumer env)
                     (word_of_nat (graph_start (re_plan env) (running st))) (word_of_nat s0) c;
              ret (Inl c) }
            else ret (Inr ((s0, unat x) # st, graph_start (re_plan env) (unat x), c))) r)"
    proof (cases fin)
      case True
      have first: "flow ! (5 + 4 * length st) = word_of_nat (graph_start ?pl (running st))"
        using rep by (simp add: represents_def Let_def add.commute)
      show ?thesis
        using small True represents_pop [OF rep, where w = g and v = "word_of_nat s0"]
        by (simp add: rr arr_set_def arr_get_def nth_list_update first)
          (rule agree_bind, simp)
    next
      case False
      then have "step_control ?pl oper k (word_of_nat x) c = Some (Inr (False, g, c'))" using r rr by simp
      note slot = control_slot [OF env st at op step_control_graph [OF this]]
      show ?thesis
        using small False slot represents_step [OF rep, where x = "unat g"] enter_graph_exact [OF ready slot(3,4)]
        by (simp add: rr arr_set_def entered_def)
    qed
  qed
qed

lemma word_of_nat_eq_iff_less:
  "a < 65536 \<Longrightarrow> b < 65536 \<Longrightarrow> (word_of_nat a :: u16) = word_of_nat b \<longleftrightarrow> a = b"
  by (metis unat_of_nat_u16)

text \<open>The whole unwinding, after stage \<open>s\<close> of the running graph.\<close>

lemma unwind_loop_sim:
  assumes env: "env_ok env N"
  shows "represents (re_plan env) N (capacity env) st flow \<Longrightarrow> stack_ok (re_plan env) N st \<Longrightarrow>
    graph_start (re_plan env) (running st) \<le> s \<Longrightarrow> s < graph_end (re_plan env) N (running st) \<Longrightarrow>
    flow ! 3 = word_of_nat s \<Longrightarrow>
    agree (entered env N) (unwind_loop env (flow, c)) (stack_unwind env N st s c)"
proof (induction st arbitrary: flow s c)
  case Nil
  have "4 \<le> length flow" using Nil.prems(1) by (simp add: represents_def)
  then show ?case
    using Nil.prems by (subst unwind_loop.simps)
      (auto simp: arr_get_def represents_def entered_def config_ok_def)
next
  case (Cons f st)
  obtain s0 x where f: "f = (s0, x)" by (metis prod.exhaust)
  let ?pl = "re_plan env"
  have ready: "control_ready ?pl N" using env by (simp add: env_ok_def)
  note rep = Cons.prems(1) [unfolded f] and ok = Cons.prems(2) [unfolded f]
  have sN: "s < N" "graph_end ?pl N x \<le> N" "N < 65536" "s < graph_end ?pl N x" "graph_start ?pl x \<le> s"
    using graph_end_le [OF ready running_exists [OF ok]] Cons.prems(3,4) ready f
    by (simp_all add: control_ready_def)
  have small: "4 \<le> length flow" "flow ! 0 = word_of_nat (Suc (length st))" "Suc (length st) < 65536"
    "flow ! 2 = word_of_nat (graph_end ?pl N x)" "flow \<noteq> []"
    using rep capacity_less [of env] by (auto simp: represents_def)
  have "(0 :: u16) < word_of_nat (Suc (length st))"
    using small(3) by (simp only: word_less_nat_alt unat_of_nat_u16) simp
  moreover have "(word_of_nat s + 1 :: u16) = word_of_nat (graph_end ?pl N x) \<longleftrightarrow> s + 1 = graph_end ?pl N x"
  proof -
    have "(word_of_nat s + 1 :: u16) = word_of_nat (s + 1)" by (simp add: add.commute)
    moreover have "(word_of_nat (s + 1) :: u16) = word_of_nat (graph_end ?pl N x) \<longleftrightarrow> s + 1 = graph_end ?pl N x"
      by (rule word_of_nat_eq_iff_less) (use sN in auto)
    ultimately show ?thesis by (simp only:)
  qed
  ultimately have loop: "unwind_loop env (flow, c) = (if s + 1 = graph_end ?pl N x
      then andthen (unwind_step env (flow, c)) (\<lambda>(finished, y). if finished then unwind_loop env y else ret y)
      else ret (flow, c))"
    using small Cons.prems(5) by (subst unwind_loop.simps) (simp add: arr_get_def)
  show ?case
  proof (cases "s + 1 = graph_end ?pl N x")
    case False
    then show ?thesis
      using rep ok sN Cons.prems(5) by (simp add: loop f entered_def config_ok_def)
  next
    case True
    have split: "stack_unwind env N (f # st) s c = andthen
      (do { (k, oper) \<leftarrow> control_op (re_plan env) s0;
          andthen (step_control (re_plan env) oper k (word_of_nat x) c) (\<lambda>(finished, x, c).
            if finished then do {
              c \<leftarrow> free_dead_tensors (re_plan env) (re_last_consumer env)
                     (word_of_nat (graph_start (re_plan env) (running st))) (word_of_nat s0) c;
              ret (Inl c) }
            else ret (Inr ((s0, unat x) # st, graph_start (re_plan env) (unat x), c))) })
      (\<lambda>z. case z of Inl c \<Rightarrow> stack_unwind env N st s0 c | Inr w \<Rightarrow> ret w)"
      using True by (simp add: f andthen_bind andthen_assoc case_prod_unfold if_distrib [of "\<lambda>m. andthen m _"] cong: if_cong)
    have at: "stack_ok ?pl N st" "graph_start ?pl (running st) \<le> s0" "s0 < graph_end ?pl N (running st)"
      using ok by simp_all
    show ?thesis
      unfolding loop split if_P [OF True]
      by (rule agree_andthen [OF unwind_step_sim [OF env rep ok]])
        (auto intro!: Cons.IH at split: if_splits)
  qed
qed

lemma unwind_control_sim:
  assumes env: "env_ok env N" and rep: "represents (re_plan env) N (capacity env) st flow"
    and ok: "stack_ok (re_plan env) N st" and s: "graph_start (re_plan env) (running st) \<le> s"
    "s < graph_end (re_plan env) N (running st)"
  shows "agree (entered env N) (unwind_control env (word_of_nat s) (flow, c)) (stack_unwind env N st s c)"
proof -
  have "represents (re_plan env) N (capacity env) st (flow[3 := word_of_nat s])"
    using rep by (simp add: represents_def frames_hold_update)
  moreover have "4 \<le> length flow" using rep by (simp add: represents_def)
  ultimately show ?thesis
    using unwind_loop_sim [OF env _ ok s] by (simp add: unwind_control_def arr_set_def)
qed

text \<open>One round of the stage loop is one round of the machine.\<close>

definition same_config ::
  "run_env \<Rightarrow> nat \<Rightarrow> u16 \<times> u16 list \<times> mem \<times> ram \<Rightarrow> stack \<times> nat \<times> mem \<times> ram \<Rightarrow> bool" where
  "same_config env N x y = (fst x = word_of_nat (fst (snd y)) \<and> snd (snd x) = snd (snd y) \<and>
     represents (re_plan env) N (capacity env) (fst y) (fst (snd x)) \<and>
     config_ok (re_plan env) N (fst y) (fst (snd y)))"

lemma entered_same:
  "entered env N x y \<Longrightarrow> same_config env N (fst x ! 3 + 1, x) y"
  by (simp add: entered_def same_config_def)

lemma entered_length: "entered env N x y \<Longrightarrow> 4 \<le> length (fst x)"
  by (simp add: entered_def represents_def)

lemma run_round_sim:
  assumes env: "env_ok env N" and rep: "represents (re_plan env) N (capacity env) st flow"
    and ok: "config_ok (re_plan env) N st s" and s: "s < graph_end (re_plan env) N (running st)"
  shows "agree (same_config env N) (run_round env (word_of_nat s, flow, c)) (stack_round env N (st, s, c))"
proof -
  let ?pl = "re_plan env"
  have ready: "control_ready ?pl N" using env by (simp add: env_ok_def)
  have us: "unat (word_of_nat s :: u16) = s"
    using config_range [OF ready ok] by (simp add: unat_of_nat_u16)
  have st: "stack_ok ?pl N st" using ok by (simp add: config_ok_def)
  have endN: "graph_end ?pl N (running st) \<le> N" "N < 65536"
    using graph_end_le [OF ready running_exists [OF st]] ready by (simp_all add: control_ready_def)
  have small: "4 \<le> length flow" "flow ! 0 = word_of_nat (length st)" "length st < 65536"
    "flow ! 1 = word_of_nat (graph_start ?pl (running st))"
    "flow ! 2 = word_of_nat (graph_end ?pl N (running st))"
    using rep capacity_less [of env] by (auto simp: represents_def)
  have after: "agree (same_config env N)
      (if flow ! 0 > 0 \<and> l + 1 = flow ! 2 then
         andthen (unwind_control env l (flow, c)) (\<lambda>(flow, c). do {
           cont \<leftarrow> arr_get flow 3;
           ret (cont + 1, flow, c) })
       else ret (l + 1, flow, c))
      (stack_unwind env N st (unat l) c)"
    if l: "s \<le> unat l" "unat l < graph_end ?pl N (running st)" for l c
  proof (cases "flow ! 0 > 0 \<and> l + 1 = flow ! 2")
    case True
    have "agree (entered env N) (unwind_control env (word_of_nat (unat l)) (flow, c)) (stack_unwind env N st (unat l) c)"
      by (rule unwind_control_sim [OF env rep st]) (use l ok in \<open>simp_all add: config_ok_def\<close>)
    then have u: "agree (entered env N) (unwind_control env l (flow, c)) (stack_unwind env N st (unat l) c)" by simp
    have "agree (same_config env N)
       (andthen (unwind_control env l (flow, c)) (\<lambda>(flow, c). do { cont \<leftarrow> arr_get flow 3; ret (cont + 1, flow, c) }))
       (andthen (stack_unwind env N st (unat l) c) ret)"
      by (rule agree_andthen [OF u])
        (auto dest: entered_same entered_length simp: arr_get_def split: prod.splits)
    then show ?thesis using True by (simp add: andthen_ret)
  next
    case False
    have "stack_unwind env N st (unat l) c = ret (st, unat l + 1, c) \<and>
        (st \<noteq> [] \<longrightarrow> unat l + 1 < graph_end ?pl N (running st))"
    proof (cases st)
      case (Cons f st')
      have pos: "flow ! 0 > 0" using small(2,3) Cons by (simp only: word_less_nat_alt unat_of_nat_u16) simp
      have eq: "word_of_nat (unat l + 1) = l + 1" by (simp add: add.commute)
      have "unat l + 1 \<noteq> graph_end ?pl N (running st)"
        using False pos small(5) eq by metis
      then show ?thesis using l Cons by (cases f) simp
    qed simp
    then show ?thesis
      using False rep l ok by (auto simp: same_config_def config_ok_def add.commute)
  qed
  show ?thesis
    unfolding run_round_def stack_round_def prod.case us
  proof (rule agree_bind, rule agree_bind)
    fix stage control assume stage: "plan_stage ?pl s = Some stage" "stage_control ?pl stage = Some control"
    show "agree (same_config env N)
      (if control \<noteq> None then
         andthen (enter_control env (word_of_nat s) (flow, c)) (\<lambda>(flow, c). do {
           cont \<leftarrow> arr_get flow 3;
           ret (cont + 1, flow, c) })
       else
         andthen (run_stage env (word_of_nat s) c) (\<lambda>(s, c). do {
           first \<leftarrow> arr_get flow 1;
           c \<leftarrow> after_stage env first s c;
           depth \<leftarrow> arr_get flow 0;
           stop \<leftarrow> arr_get flow 2;
           if depth > 0 \<and> s + 1 = stop then
             andthen (unwind_control env s (flow, c)) (\<lambda>(flow, c). do {
               cont \<leftarrow> arr_get flow 3;
               ret (cont + 1, flow, c) })
           else ret (s + 1, flow, c) }))
      (if control = None then
         andthen (run_stage env (word_of_nat s) c) (\<lambda>(last_stage, c). do {
           c \<leftarrow> after_stage env (word_of_nat (graph_start ?pl (running st))) last_stage c;
           stack_unwind env N st (unat last_stage) c })
       else do {
         (k, oper) \<leftarrow> control_op ?pl s;
         andthen (start_control ?pl oper k c) (\<lambda>(x, c).
           ret ((s, unat x) # st, graph_start ?pl (unat x), c)) })"
    proof (cases control)
      case None
      have get: "arr_get flow 1 = Some (word_of_nat (graph_start ?pl (running st)))"
        "arr_get flow 0 = Some (flow ! 0)" "arr_get flow 2 = Some (flow ! 2)"
        using small by (auto simp: arr_get_def)
      have "agree (same_config env N)
         (andthen (run_stage env (word_of_nat s) c) (\<lambda>(s, c). do {
           first \<leftarrow> arr_get flow 1;
           c \<leftarrow> after_stage env first s c;
           depth \<leftarrow> arr_get flow 0;
           stop \<leftarrow> arr_get flow 2;
           if depth > 0 \<and> s + 1 = stop then
             andthen (unwind_control env s (flow, c)) (\<lambda>(flow, c). do {
               cont \<leftarrow> arr_get flow 3;
               ret (cont + 1, flow, c) })
           else ret (s + 1, flow, c) }))
         (andthen (run_stage env (word_of_nat s) c) (\<lambda>(last_stage, c). do {
           c \<leftarrow> after_stage env (word_of_nat (graph_start ?pl (running st))) last_stage c;
           stack_unwind env N st (unat last_stage) c }))"
      proof (rule agree_same)
        fix r assume r: "run_stage env (word_of_nat s) c = Some (Inr r)"
        obtain l c' where rr: "r = (l, c')" by (metis prod.exhaust)
        note range = run_stage_range [OF ready ok s r [unfolded rr]]
        show "agree (same_config env N)
          ((\<lambda>(s, c). do {
             first \<leftarrow> arr_get flow 1;
             c \<leftarrow> after_stage env first s c;
             depth \<leftarrow> arr_get flow 0;
             stop \<leftarrow> arr_get flow 2;
             if depth > 0 \<and> s + 1 = stop then
               andthen (unwind_control env s (flow, c)) (\<lambda>(flow, c). do {
                 cont \<leftarrow> arr_get flow 3;
                 ret (cont + 1, flow, c) })
             else ret (s + 1, flow, c) }) r)
          ((\<lambda>(last_stage, c). do {
             c \<leftarrow> after_stage env (word_of_nat (graph_start ?pl (running st))) last_stage c;
             stack_unwind env N st (unat last_stage) c }) r)"
          unfolding rr prod.case get bind.bind_lunit by (rule agree_bind) (rule after [OF range])
      qed
      then show ?thesis using None by simp
    next
      case (Some oper)
      then have at: "control_at ?pl s" using stage by (auto simp: control_at_def)
      note e = enter_control_sim [OF env rep ok s at, of c]
      have "agree (same_config env N)
         (andthen (enter_control env (word_of_nat s) (flow, c)) (\<lambda>(flow, c). do { cont \<leftarrow> arr_get flow 3; ret (cont + 1, flow, c) }))
         (andthen (do { (k, oper) \<leftarrow> control_op ?pl s;
            andthen (start_control ?pl oper k c) (\<lambda>(x, c). ret ((s, unat x) # st, graph_start ?pl (unat x), c)) }) ret)"
        by (rule agree_andthen [OF e])
          (auto dest: entered_same entered_length simp: arr_get_def split: prod.splits)
      then show ?thesis using Some by (simp add: andthen_ret)
    qed
  qed
qed

lemma same_config_test:
  assumes env: "env_ok env N" and same: "same_config env N x (st, s, c)"
  shows "arr_get (fst (snd x)) 2 = Some (word_of_nat (graph_end (re_plan env) N (running st)))"
    "(fst x < word_of_nat (graph_end (re_plan env) N (running st))) = (s < graph_end (re_plan env) N (running st))"
    "snd (snd x) = c" "x = (word_of_nat s, fst (snd x), c)" "config_ok (re_plan env) N st s"
    "represents (re_plan env) N (capacity env) st (fst (snd x))"
proof -
  let ?pl = "re_plan env"
  have ready: "control_ready ?pl N" using env by (simp add: env_ok_def)
  show parts: "snd (snd x) = c" "config_ok ?pl N st s" "represents ?pl N (capacity env) st (fst (snd x))"
    "x = (word_of_nat s, fst (snd x), c)"
    using same by (auto simp: same_config_def prod_eq_iff)
  then show "arr_get (fst (snd x)) 2 = Some (word_of_nat (graph_end ?pl N (running st)))"
    by (simp add: represents_def arr_get_def)
  have "graph_end ?pl N (running st) < 65536" "s < 65536"
    using config_range [OF ready parts(2)] graph_end_le [OF ready running_exists [of ?pl N st]] parts(2)
    by (simp_all add: config_ok_def)
  then show "(fst x < word_of_nat (graph_end ?pl N (running st))) = (s < graph_end ?pl N (running st))"
    by (subst parts(4)) (simp add: word_less_nat_alt unat_of_nat_u16)
qed

text \<open>A result of the stage loop without its flow array.\<close>

definition without_flow :: "failure + u16 list \<times> mem \<times> ram \<Rightarrow> failure + mem \<times> ram" where
  "without_flow r = (case r of Inl e \<Rightarrow> Inl e | Inr x \<Rightarrow> Inr (snd x))"

lemma without_flow_simps [simp]: "without_flow (Inl e) = Inl e" "without_flow (Inr x) = Inr (snd x)"
  by (simp_all add: without_flow_def)

lemmas run_stages_induct = run_stages.raw_induct [where xa = "(env, x)" for env x, unfolded prod.case, rotated, consumes 1, case_names step]
lemmas stack_machine_induct = stack_machine.raw_induct [where xa = "((env, N), x)" for env N x, unfolded prod.case, rotated, consumes 1, case_names step]

lemma run_stages_machine:
  assumes env: "env_ok env N" and run: "run_stages env x = Some r" and same: "same_config env N x y"
  shows "stack_machine env N y = Some (without_flow r)"
  using run env same
proof (induction arbitrary: y rule: run_stages_induct)
  case (step run env x r)
  obtain st s c where y: "y = (st, s, c)" by (metis prod.exhaust)
  note t = same_config_test [OF "step.prems"(1) "step.prems"(2) [unfolded y]]
  show ?case
  proof (cases "s < graph_end (re_plan env) N (running st)")
    case False
    then show ?thesis using "step.hyps" t by (subst stack_machine.simps) (auto simp: y)
  next
    case True
    then have body: "andthen (run_round env x) (run env) = Some r" using "step.hyps" t by simp
    have sim: "agree (same_config env N) (run_round env x) (stack_round env N y)"
      unfolding y by (subst t(4)) (rule run_round_sim [OF "step.prems"(1) t(6,5) True])
    from body consider e where "run_round env x = Some (Inl e)" "r = Inl e"
      | x' where "run_round env x = Some (Inr x')" "run env x' = Some r"
      by (auto simp: andthen_split_case split: option.splits sum.splits)
    then have "andthen (stack_round env N y) (stack_machine env N) = Some (without_flow r)"
    proof cases
      case 1
      then show ?thesis using sim by simp
    next
      case 2
      then obtain y' where "stack_round env N y = Some (Inr y')" "same_config env N x' y'" using sim by auto
      then show ?thesis using "step.IH" [OF 2(2) "step.prems"(1)] by simp
    qed
    then show ?thesis using True by (subst stack_machine.simps) (simp add: y)
  qed
qed

lemma machine_run_stages:
  assumes env: "env_ok env N" and run: "stack_machine env N y = Some r" and same: "same_config env N x y"
  shows "\<exists>r'. run_stages env x = Some r' \<and> without_flow r' = r"
  using run env same
proof (induction arbitrary: x rule: stack_machine_induct)
  case (step run env N y r)
  obtain st s c where y: "y = (st, s, c)" by (metis prod.exhaust)
  note t = same_config_test [OF "step.prems"(1) "step.prems"(2) [unfolded y]]
  show ?case
  proof (cases "s < graph_end (re_plan env) N (running st)")
    case False
    then show ?thesis using "step.hyps" t(3) by (subst run_stages.simps) (auto simp: y t(1,2) simp del: arr_get_Some)
  next
    case True
    then have body: "andthen (stack_round env N y) (run env N) = Some r" using "step.hyps" by (simp add: y)
    have sim: "agree (same_config env N) (run_round env x) (stack_round env N y)"
      unfolding y by (subst t(4)) (rule run_round_sim [OF "step.prems"(1) t(6,5) True])
    have "\<exists>r'. andthen (run_round env x) (run_stages env) = Some r' \<and> without_flow r' = r"
    proof (cases "run_round env x")
      case None
      then show ?thesis using sim body by simp
    next
      case (Some z)
      then show ?thesis
      proof (cases z)
        case (Inl e)
        then show ?thesis using sim body Some by auto
      next
        case (Inr x')
        then obtain y' where "stack_round env N y = Some (Inr y')" "same_config env N x' y'" using sim Some by auto
        then show ?thesis using "step.IH" [OF _ "step.prems"(1)] body Some Inr by simp
      qed
    qed
    then show ?thesis using True by (subst run_stages.simps) (simp add: t(1,2) del: arr_get_Some)
  qed
qed

end
