(* ===== verification/Control_Refinement.thy ===== *)
theory Control_Refinement
  imports Control_Runs
begin

text \<open>
  The second half: the machine with a list as its stack computes what \<open>structured\<close> says. The list
  says what is left to do when the running graph has finished.

  What is shown, of a plan the loader accepts: the stage loop and the recursive interpreter agree on
  every result, error and final memory; the frames never overflow the workspace; and the loop can
  only run for ever by entering the body of a While again and again.
\<close>

section \<open>The machine computes the specification\<close>

text \<open>What is left of the operator at stage \<open>s0\<close> when the graph \<open>x\<close> it runs has finished, and then of
  every graph on the stack.\<close>

definition operator_rest :: "run_env \<Rightarrow> nat \<Rightarrow> nat \<Rightarrow> nat \<Rightarrow> mem \<times> ram \<Rightarrow> (mem \<times> ram) exec" where
  "operator_rest env N s0 x c = do {
     (k, oper) \<leftarrow> control_op (re_plan env) s0;
     andthen (step_control (re_plan env) oper k (word_of_nat x) c) (\<lambda>(finished, x, c).
       if finished then ret c else structured env N (Operator s0 (unat x)) c) }"

definition operator_done :: "run_env \<Rightarrow> stack \<Rightarrow> nat \<Rightarrow> mem \<times> ram \<Rightarrow> (mem \<times> ram) option" where
  "operator_done env st s0 c = free_dead_tensors (re_plan env) (re_last_consumer env)
     (word_of_nat (graph_start (re_plan env) (running st))) (word_of_nat s0) c"

fun stack_rest :: "run_env \<Rightarrow> nat \<Rightarrow> stack \<Rightarrow> mem \<times> ram \<Rightarrow> (mem \<times> ram) exec" where
  "stack_rest env N [] c = ret c"
| "stack_rest env N ((s0, x) # st) c =
     andthen (operator_rest env N s0 x c) (\<lambda>c. do {
       c \<leftarrow> operator_done env st s0 c;
       andthen (structured env N (Stages (running st) (s0 + 1)) c) (stack_rest env N st) })"

definition stack_run :: "run_env \<Rightarrow> nat \<Rightarrow> stack \<times> nat \<times> mem \<times> ram \<Rightarrow> (mem \<times> ram) exec" where
  "stack_run env N = (\<lambda>(st, s, c). andthen (structured env N (Stages (running st) s) c) (stack_rest env N st))"

lemma stack_rest_Nil: "stack_rest env N [] = ret"
  by (rule ext) simp

lemma stack_rest_Cons: "stack_rest env N ((s0, x) # st) =
     (\<lambda>c. andthen (operator_rest env N s0 x c) (\<lambda>c. do {
       c \<leftarrow> operator_done env st s0 c;
       andthen (structured env N (Stages (running st) (s0 + 1)) c) (stack_rest env N st) }))"
  by (rule ext) simp

lemma structured_operator:
  "structured env N (Operator s x) c =
     andthen (structured env N (Stages x (graph_start (re_plan env) x)) c) (operator_rest env N s x)"
  by (subst structured.simps) (simp add: operator_rest_def [abs_def])

lemma structured_end:
  "graph_end (re_plan env) N g \<le> s \<Longrightarrow> structured env N (Stages g s) c = ret c"
  by (subst structured.simps) simp

lemma structured_stage:
  assumes "s < graph_end (re_plan env) N (running st)"
  shows "structured env N (Stages (running st) s) c = do {
         stage \<leftarrow> plan_stage (re_plan env) s;
         control \<leftarrow> stage_control (re_plan env) stage;
         if control = None then
           andthen (run_stage env (word_of_nat s) c) (\<lambda>(last_stage, c). do {
             c \<leftarrow> after_stage env (word_of_nat (graph_start (re_plan env) (running st))) last_stage c;
             structured env N (Stages (running st) (unat last_stage + 1)) c })
         else do {
           (k, oper) \<leftarrow> control_op (re_plan env) s;
           andthen (start_control (re_plan env) oper k c) (\<lambda>(x, c).
             andthen (structured env N (Operator s (unat x)) c) (\<lambda>c. do {
               c \<leftarrow> operator_done env st s c;
               structured env N (Stages (running st) (s + 1)) c })) } }"
  unfolding operator_done_def using assms by (subst structured.simps) simp

text \<open>After a stage, the rest of the graph and of the stack is what the unwinding leaves to do.\<close>

lemma stack_run_unwind:
  assumes "stack_ok (re_plan env) N st" and "s < graph_end (re_plan env) N (running st)"
  shows "andthen (structured env N (Stages (running st) (s + 1)) c) (stack_rest env N st) =
    andthen (stack_unwind env N st s c) (stack_run env N)"
  using assms
proof (induction st arbitrary: s c)
  case Nil
  then show ?case by (simp add: stack_run_def stack_rest_Nil)
next
  case (Cons f st)
  obtain s0 x where f: "f = (s0, x)" by (metis prod.exhaust)
  show ?case
  proof (cases "s + 1 = graph_end (re_plan env) N x")
    case False
    then show ?thesis by (simp add: f stack_run_def del: stack_rest.simps)
  next
    case True
    have rest: "stack_rest env N ((s0, x) # st) c = do {
       (k, oper) \<leftarrow> control_op (re_plan env) s0;
       andthen (step_control (re_plan env) oper k (word_of_nat x) c) (\<lambda>(finished, x, c).
         andthen (if finished then ret c else structured env N (Operator s0 (unat x)) c) (\<lambda>c. do {
           c \<leftarrow> operator_done env st s0 c;
           andthen (structured env N (Stages (running st) (s0 + 1)) c) (stack_rest env N st) })) }"
      by (simp add: operator_rest_def andthen_bind andthen_assoc case_prod_unfold)
    have "andthen (structured env N (Stages (running (f # st)) (s + 1)) c) (stack_rest env N (f # st))
        = stack_rest env N ((s0, x) # st) c"
      using True structured_end [of env N x "s + 1" c] by (simp add: f)
    also have "\<dots> = andthen (stack_unwind env N (f # st) s c) (stack_run env N)"
      unfolding rest f
      using True Cons f
      by (auto simp: andthen_bind andthen_assoc case_prod_unfold stack_run_def structured_operator operator_done_def
          intro!: arg_cong [where f = "Option.bind _"] ext andthen_cong)
    finally show ?thesis .
  qed
qed

lemma stack_run_round:
  assumes env: "env_ok env N" and ok: "config_ok (re_plan env) N st s"
    and s: "s < graph_end (re_plan env) N (running st)"
  shows "stack_run env N (st, s, c) = andthen (stack_round env N (st, s, c)) (stack_run env N)"
proof -
  let ?pl = "re_plan env"
  have ready: "control_ready ?pl N" using env by (simp add: env_ok_def)
  have st: "stack_ok ?pl N st" using ok by (simp add: config_ok_def)
  have plain: "andthen (run_stage env (word_of_nat s) c) (\<lambda>(l, c). do {
        c \<leftarrow> after_stage env first l c;
        andthen (structured env N (Stages (running st) (unat l + 1)) c) (stack_rest env N st) })
    = andthen (run_stage env (word_of_nat s) c) (\<lambda>(l, c). do {
        c \<leftarrow> after_stage env first l c;
        andthen (stack_unwind env N st (unat l) c) (stack_run env N) })" for first
  proof (rule andthen_cong)
    fix r assume r: "run_stage env (word_of_nat s) c = Some (Inr r)"
    obtain l c' where rr: "r = (l, c')" by (metis prod.exhaust)
    note range = run_stage_range [OF ready ok s r [unfolded rr]]
    show "(\<lambda>(l, c). do {
        c \<leftarrow> after_stage env first l c;
        andthen (structured env N (Stages (running st) (unat l + 1)) c) (stack_rest env N st) }) r
      = (\<lambda>(l, c). do {
        c \<leftarrow> after_stage env first l c;
        andthen (stack_unwind env N st (unat l) c) (stack_run env N) }) r"
      unfolding rr prod.case stack_run_unwind [OF st range(2)] ..
  qed
  have plain': "andthen (andthen (run_stage env (word_of_nat s) c) (\<lambda>(l, c). do {
        c \<leftarrow> after_stage env first l c;
        structured env N (Stages (running st) (unat l + 1)) c })) (stack_rest env N st)
    = andthen (andthen (run_stage env (word_of_nat s) c) (\<lambda>(l, c). do {
        c \<leftarrow> after_stage env first l c;
        stack_unwind env N st (unat l) c })) (stack_run env N)" for first
    using plain [of first] by (simp add: andthen_assoc andthen_bind case_prod_unfold)
  have ctl: "andthen (do { (k, oper) \<leftarrow> control_op ?pl s;
        andthen (start_control ?pl oper k c) (\<lambda>(x, c).
          andthen (structured env N (Operator s (unat x)) c) (\<lambda>c. do {
            c \<leftarrow> operator_done env st s c;
            structured env N (Stages (running st) (s + 1)) c })) }) (stack_rest env N st)
    = andthen (do { (k, oper) \<leftarrow> control_op ?pl s;
        andthen (start_control ?pl oper k c) (\<lambda>(x, c). ret ((s, unat x) # st, graph_start ?pl (unat x), c)) })
      (stack_run env N)"
    by (simp add: andthen_assoc andthen_bind case_prod_unfold stack_run_def structured_operator stack_rest_Cons
        del: stack_rest.simps)
  show ?thesis
    unfolding stack_run_def stack_round_def prod.case structured_stage [OF s] andthen_bind
    by (intro arg_cong [where f = "Option.bind _"] ext)
      (simp only: if_distrib [of "\<lambda>m. andthen m _"] plain' ctl stack_run_def cong: if_cong)
qed

text \<open>The machine keeps its configuration in range.\<close>

lemma stack_unwind_ok:
  assumes env: "env_ok env N"
  shows "stack_ok (re_plan env) N st \<Longrightarrow> graph_start (re_plan env) (running st) \<le> s \<Longrightarrow>
    s < graph_end (re_plan env) N (running st) \<Longrightarrow> stack_unwind env N st s c = Some (Inr (st', s', c')) \<Longrightarrow>
    config_ok (re_plan env) N st' s'"
proof (induction st arbitrary: s c)
  case (Cons f st)
  obtain s0 x where f: "f = (s0, x)" by (metis prod.exhaust)
  let ?pl = "re_plan env"
  have at: "stack_ok ?pl N st" "graph_start ?pl (running st) \<le> s0" "s0 < graph_end ?pl N (running st)"
    "control_at ?pl s0" using Cons.prems(1) f by simp_all
  show ?case
  proof (cases "s + 1 = graph_end ?pl N x")
    case False
    then show ?thesis using Cons.prems by (auto simp: f config_ok_def)
  next
    case True
    then obtain k oper fin g d where op: "control_op ?pl s0 = Some (k, oper)"
      and r: "step_control ?pl oper k (word_of_nat x) c = Some (Inr (fin, g, d))"
      and rest: "(if fin then do {
            c \<leftarrow> free_dead_tensors ?pl (re_last_consumer env)
                   (word_of_nat (graph_start ?pl (running st))) (word_of_nat s0) d;
            stack_unwind env N st s0 c }
          else ret ((s0, unat g) # st, graph_start ?pl (unat g), d)) = Some (Inr (st', s', c'))"
      using Cons.prems(4) by (auto simp: f bind_eq_Some_conv andthen_Inr)
    show ?thesis
    proof (cases fin)
      case True
      then show ?thesis using rest Cons.IH [OF at(1-3)] by (auto simp: bind_eq_Some_conv)
    next
      case False
      note slot = control_slot [OF env at op step_control_graph [of ?pl oper k "word_of_nat x" c g d]]
      show ?thesis using rest False slot(2) r by auto
    qed
  qed
qed (auto simp: config_ok_def)

lemma stack_round_ok:
  assumes env: "env_ok env N" and ok: "config_ok (re_plan env) N st s"
    and s: "s < graph_end (re_plan env) N (running st)"
    and round: "stack_round env N (st, s, c) = Some (Inr (st', s', c'))"
  shows "config_ok (re_plan env) N st' s'"
proof -
  let ?pl = "re_plan env"
  have ready: "control_ready ?pl N" using env by (simp add: env_ok_def)
  have st: "stack_ok ?pl N st" "graph_start ?pl (running st) \<le> s" using ok by (simp_all add: config_ok_def)
  from round obtain stage control where stage: "plan_stage ?pl s = Some stage" "stage_control ?pl stage = Some control"
    by (auto simp: stack_round_def bind_eq_Some_conv)
  show ?thesis
  proof (cases control)
    case None
    then obtain l d d' where run: "run_stage env (word_of_nat s) c = Some (Inr (l, d))"
      and u: "stack_unwind env N st (unat l) d' = Some (Inr (st', s', c'))"
      using round stage by (auto simp: stack_round_def bind_eq_Some_conv andthen_Inr)
    note range = run_stage_range [OF ready ok s run]
    show ?thesis by (rule stack_unwind_ok [OF env st(1) _ range(2) u]) (use st(2) range(1) in simp)
  next
    case (Some oper')
    then have at: "control_at ?pl s" using stage by (auto simp: control_at_def)
    from Some round stage obtain k oper x where op: "control_op ?pl s = Some (k, oper)"
      and r: "start_control ?pl oper k c = Some (Inr (x, c'))"
      and eq: "st' = (s, unat x) # st" "s' = graph_start ?pl (unat x)"
      by (auto simp: stack_round_def bind_eq_Some_conv andthen_Inr)
    from control_slot(2) [OF env st s at op start_control_graph [OF r]] eq show ?thesis by simp
  qed
qed

lemma machine_structured:
  assumes run: "stack_machine env N y = Some r" and env: "env_ok env N"
    and ok: "config_ok (re_plan env) N (fst y) (fst (snd y))"
  shows "stack_run env N y = Some r"
  using run env ok
proof (induction rule: stack_machine_induct)
  case (step run env N y r)
  obtain st s c where y: "y = (st, s, c)" by (metis prod.exhaust)
  note ok = "step.prems"(2) [unfolded y fst_conv snd_conv]
  show ?case
  proof (cases "s < graph_end (re_plan env) N (running st)")
    case False
    then have "st = []" using ok by (auto simp: config_ok_def)
    then show ?thesis using "step.hyps" False by (simp add: y stack_run_def stack_rest_Nil structured_end)
  next
    case True
    then have body: "andthen (stack_round env N y) (run env N) = Some r" using "step.hyps" by (simp add: y)
    have "andthen (stack_round env N y) (stack_run env N) = Some r"
    proof (cases "\<exists>z. stack_round env N y = Some (Inr z)")
      case True
      then obtain st' s' c' where z: "stack_round env N (st, s, c) = Some (Inr (st', s', c'))" by (auto simp: y)
      have "config_ok (re_plan env) N st' s'"
        by (rule stack_round_ok [OF "step.prems"(1) ok \<open>s < _\<close> z])
      moreover have "run env N (st', s', c') = Some r" using body z by (simp add: y)
      ultimately show ?thesis using "step.IH" [OF _ "step.prems"(1)] z by (simp add: y)
    next
      case False
      then show ?thesis using body by (auto simp: andthen_split_case split: option.splits sum.splits)
    qed
    then show ?thesis using stack_run_round [OF "step.prems"(1) ok True] by (simp add: y)
  qed
qed

lemmas structured_induct = structured.raw_induct [rotated, consumes 1, case_names step]

text \<open>Where the machine is when a graph, or an operator, has finished as the specification says.\<close>

definition after_graph :: "run_env \<Rightarrow> nat \<Rightarrow> stack \<Rightarrow> nat \<Rightarrow> failure + mem \<times> ram \<Rightarrow> (mem \<times> ram) exec" where
  "after_graph env N st s r = (case r of Inl e \<Rightarrow> fail e
     | Inr c \<Rightarrow> andthen (stack_unwind env N st s c) (stack_machine env N))"

definition after_operator :: "run_env \<Rightarrow> nat \<Rightarrow> stack \<Rightarrow> nat \<Rightarrow> failure + mem \<times> ram \<Rightarrow> (mem \<times> ram) exec" where
  "after_operator env N st s r = (case r of Inl e \<Rightarrow> fail e
     | Inr c \<Rightarrow> do { c \<leftarrow> operator_done env st s c; after_graph env N st s (Inr c) })"

definition machine_does :: "run_env \<Rightarrow> nat \<Rightarrow> task \<Rightarrow> mem \<times> ram \<Rightarrow> failure + mem \<times> ram \<Rightarrow> bool" where
  "machine_does env N t c r = (case t of
     Stages g s \<Rightarrow> if graph_end (re_plan env) N g \<le> s then r = Inr c
       else (\<forall>st. running st = g \<and> config_ok (re_plan env) N st s \<longrightarrow>
         stack_machine env N (st, s, c) = after_graph env N st (graph_end (re_plan env) N g - 1) r)
   | Operator s x \<Rightarrow> \<forall>st. stack_ok (re_plan env) N ((s, x) # st) \<longrightarrow>
       stack_machine env N ((s, x) # st, graph_start (re_plan env) x, c) = after_operator env N st s r)"

lemma machine_does_rest:
  assumes does: "machine_does env N (Stages (running st) (l + 1)) c r"
    and ok: "stack_ok (re_plan env) N st" "graph_start (re_plan env) (running st) \<le> l"
    "l < graph_end (re_plan env) N (running st)"
  shows "after_graph env N st l (Inr c) = after_graph env N st (graph_end (re_plan env) N (running st) - 1) r"
proof (cases "l + 1 = graph_end (re_plan env) N (running st)")
  case True
  then have "r = Inr c" "graph_end (re_plan env) N (running st) - 1 = l" using does by (auto simp: machine_does_def)
  then show ?thesis by simp
next
  case False
  then have "stack_unwind env N st l c = ret (st, l + 1, c)" by (cases st) auto
  moreover have "config_ok (re_plan env) N st (l + 1)" using ok False by (simp add: config_ok_def)
  ultimately show ?thesis using does ok(3) False by (simp add: machine_does_def after_graph_def)
qed

lemma structured_machine:
  assumes run: "structured env N t c = Some r" and env: "env_ok env N"
  shows "machine_does env N t c r"
  using run env
proof (induction rule: structured_induct)
  case (step run env N t c r)
  let ?pl = "re_plan env"
  note env = "step.prems"
  have ready: "control_ready ?pl N" using env by (simp add: env_ok_def)
  note IH = "step.IH" [OF _ env]
  show ?case
  proof (cases t)
    case (Operator s x)
    show ?thesis
      unfolding machine_does_def Operator task.case
    proof (intro allI impI)
      fix st assume ok: "stack_ok ?pl N ((s, x) # st)"
      have cok: "config_ok ?pl N ((s, x) # st) (graph_start ?pl x)" and ne: "graph_start ?pl x < graph_end ?pl N x"
        using ok subgraph_nonempty [OF ready, of x] by (auto simp: config_ok_def)
      have at: "stack_ok ?pl N st" "graph_start ?pl (running st) \<le> s" "s < graph_end ?pl N (running st)"
        "control_at ?pl s" using ok by simp_all
      obtain k oper where op: "control_op ?pl s = Some (k, oper)"
        using control_at_graphs [OF ready at(4,2,3) running_exists [OF at(1)]] by blast
      have body: "andthen (run env N (Stages x (graph_start ?pl x)) c) (\<lambda>c.
          andthen (step_control ?pl oper k (word_of_nat x) c) (\<lambda>(finished, x, c).
            if finished then ret c else run env N (Operator s (unat x)) c)) = Some r"
        using "step.hyps" op by (simp add: Operator)
      have graph: "stack_machine env N ((s, x) # st, graph_start ?pl x, c)
          = after_graph env N ((s, x) # st) (graph_end ?pl N x - 1) q"
        if "run env N (Stages x (graph_start ?pl x)) c = Some q" for q
        using IH [OF that] cok ne by (auto simp: machine_does_def)
      show "stack_machine env N ((s, x) # st, graph_start ?pl x, c) = after_operator env N st s r"
      proof (cases "\<exists>d. run env N (Stages x (graph_start ?pl x)) c = Some (Inr d)")
        case False
        then obtain e where "run env N (Stages x (graph_start ?pl x)) c = Some (Inl e)" "r = Inl e"
          using body by (auto simp: andthen_split_case split: option.splits sum.splits)
        then show ?thesis using graph by (simp add: after_graph_def after_operator_def)
      next
        case True
        then obtain d where d: "run env N (Stages x (graph_start ?pl x)) c = Some (Inr d)" by blast
        have "graph_end ?pl N x - 1 + 1 = graph_end ?pl N x" using ne by simp
        then have machine: "stack_machine env N ((s, x) # st, graph_start ?pl x, c) =
          andthen (step_control ?pl oper k (word_of_nat x) d) (\<lambda>(finished, x, c).
            if finished then after_operator env N st s (Inr c)
            else stack_machine env N ((s, unat x) # st, graph_start ?pl (unat x), c))"
          unfolding graph [OF d]
          by (simp add: after_graph_def after_operator_def operator_done_def op andthen_assoc andthen_bind
              case_prod_unfold if_distrib [of "\<lambda>m. andthen m _"] cong: if_cong)
        have rest: "andthen (step_control ?pl oper k (word_of_nat x) d) (\<lambda>(finished, x, c).
            if finished then ret c else run env N (Operator s (unat x)) c) = Some r"
          using body d by simp
        show ?thesis
        proof (cases "\<exists>z. step_control ?pl oper k (word_of_nat x) d = Some (Inr z)")
          case False
          then obtain e where "step_control ?pl oper k (word_of_nat x) d = Some (Inl e)" "r = Inl e"
            using rest by (auto simp: andthen_split_case split: option.splits sum.splits)
          then show ?thesis using machine by (simp add: after_operator_def)
        next
          case True
          then obtain fin g d' where z: "step_control ?pl oper k (word_of_nat x) d = Some (Inr (fin, g, d'))" by auto
          show ?thesis
          proof (cases fin)
            case True
            then show ?thesis using machine rest z by simp
          next
            case False
            then have z': "step_control ?pl oper k (word_of_nat x) d = Some (Inr (False, g, d'))" using z by simp
            have "stack_ok ?pl N ((s, unat g) # st)"
              by (rule control_slot(1) [OF env at op step_control_graph [OF z']])
            moreover have "machine_does env N (Operator s (unat g)) d' r"
              by (rule IH) (use rest z' in simp)
            ultimately show ?thesis using machine z' by (simp add: machine_does_def del: stack_ok.simps)
          qed
        qed
      qed
    qed
  next
    case (Stages g s)
    show ?thesis
    proof (cases "graph_end ?pl N g \<le> s")
      case True
      then show ?thesis using "step.hyps" by (simp add: Stages machine_does_def)
    next
      case False
      have "stack_machine env N (st, s, c) = after_graph env N st (graph_end ?pl N g - 1) r"
        if g: "running st = g" and ok: "config_ok ?pl N st s" for st
      proof -
        have s: "s < graph_end ?pl N (running st)" using False g by simp
        have st: "stack_ok ?pl N st" "graph_start ?pl (running st) \<le> s" using ok by (simp_all add: config_ok_def)
        have machine: "stack_machine env N (st, s, c) = andthen (stack_round env N (st, s, c)) (stack_machine env N)"
          using s by (subst stack_machine.simps) simp
        from "step.hyps" False obtain stage control where
          stage: "plan_stage ?pl s = Some stage" "stage_control ?pl stage = Some control"
          by (auto simp: Stages bind_eq_Some_conv)
        show ?thesis
        proof (cases control)
          case None
          let ?first = "word_of_nat (graph_start ?pl g)"
          have body: "andthen (run_stage env (word_of_nat s) c) (\<lambda>(l, c). do {
             c \<leftarrow> after_stage env ?first l c; run env N (Stages g (unat l + 1)) c }) = Some r"
            using "step.hyps" False stage None by (simp add: Stages)
          have mach: "stack_machine env N (st, s, c) = andthen (run_stage env (word_of_nat s) c) (\<lambda>(l, c). do {
             c \<leftarrow> after_stage env ?first l c; after_graph env N st (unat l) (Inr c) })"
            unfolding machine using stage None g
            by (simp add: stack_round_def after_graph_def andthen_assoc andthen_bind case_prod_unfold)
          show ?thesis
          proof (cases "\<exists>z. run_stage env (word_of_nat s) c = Some (Inr z)")
            case False
            then obtain e where "run_stage env (word_of_nat s) c = Some (Inl e)" "r = Inl e"
              using body by (auto simp: andthen_split_case split: option.splits sum.splits)
            then show ?thesis using mach by (simp add: after_graph_def)
          next
            case True
            then obtain l d where z: "run_stage env (word_of_nat s) c = Some (Inr (l, d))" by auto
            note range = run_stage_range [OF ready ok s z]
            from body z obtain d' where a: "after_stage env ?first l d = Some d'"
              and r: "run env N (Stages g (unat l + 1)) d' = Some r" by (auto simp: bind_eq_Some_conv)
            have "after_graph env N st (unat l) (Inr d') = after_graph env N st (graph_end ?pl N (running st) - 1) r"
              by (rule machine_does_rest [OF _ st(1) _ range(2)]) (use IH [OF r] g st(2) range(1) in simp_all)
            then show ?thesis using mach z a g by simp
          qed
        next
          case (Some oper')
          then have at: "control_at ?pl s" using stage by (auto simp: control_at_def)
          obtain k oper where op: "control_op ?pl s = Some (k, oper)"
            using control_at_graphs [OF ready at st(2) s running_exists [OF st(1)]] by blast
          have freed: "free_dead_tensors ?pl (re_last_consumer env) (word_of_nat (graph_start ?pl g)) (word_of_nat s)
              = operator_done env st s"
            using g by (simp add: operator_done_def fun_eq_iff)
          have body: "andthen (start_control ?pl oper k c) (\<lambda>(x, c).
             andthen (run env N (Operator s (unat x)) c) (\<lambda>c. do {
               c \<leftarrow> operator_done env st s c; run env N (Stages g (s + 1)) c })) = Some r"
            using "step.hyps" False stage Some op by (simp add: Stages freed)
          have mach: "stack_machine env N (st, s, c) = andthen (start_control ?pl oper k c) (\<lambda>(x, c).
             stack_machine env N ((s, unat x) # st, graph_start ?pl (unat x), c))"
            unfolding machine using stage Some op
            by (simp add: stack_round_def andthen_assoc case_prod_unfold)
          show ?thesis
          proof (cases "\<exists>z. start_control ?pl oper k c = Some (Inr z)")
            case False
            then obtain e where "start_control ?pl oper k c = Some (Inl e)" "r = Inl e"
              using body by (auto simp: andthen_split_case split: option.splits sum.splits)
            then show ?thesis using mach by (simp add: after_graph_def)
          next
            case True
            then obtain x d where z: "start_control ?pl oper k c = Some (Inr (x, d))" by auto
            have ok': "stack_ok ?pl N ((s, unat x) # st)"
              by (rule control_slot(1) [OF env st s at op start_control_graph [OF z]])
            from body z obtain q where q: "run env N (Operator s (unat x)) d = Some q"
              by (auto simp: andthen_split_case split: option.splits)
            have m: "stack_machine env N (st, s, c) = after_operator env N st s q"
              using IH [OF q] ok' mach z by (simp add: machine_does_def del: stack_ok.simps)
            show ?thesis
            proof (cases q)
              case (Inl e)
              then show ?thesis using m body z q by (auto simp: after_operator_def after_graph_def)
            next
              case (Inr d1)
              then obtain d2 where a: "operator_done env st s d1 = Some d2"
                and r: "run env N (Stages g (s + 1)) d2 = Some r"
                using body z q by (auto simp: bind_eq_Some_conv)
              have "after_graph env N st s (Inr d2) = after_graph env N st (graph_end ?pl N (running st) - 1) r"
                by (rule machine_does_rest [OF _ st s]) (use IH [OF r] g in simp)
              then show ?thesis using m Inr a g by (simp add: after_operator_def)
            qed
          qed
        qed
      qed
      then show ?thesis using False by (simp add: Stages machine_does_def)
    qed
  qed
qed

section \<open>From the loader's checks\<close>

text \<open>A plan the loader accepts, on a workspace with a frame for every level of its nesting.\<close>

definition runnable :: "run_env \<Rightarrow> load_state \<Rightarrow> bool" where
  "runnable env ls = (re_plan env = ls_candidate ls \<and> (\<exists>ls'. validate_stages ls = Some (Inr ls')) \<and>
     ((p_num_subgraphs (ls_candidate ls) = 0 \<and> p_header (ls_candidate ls) = Some (ls_hdr ls)) \<or>
      (graphs_accepted ls \<and> nesting_depth (ls_candidate ls) \<le> capacity env)))"

abbreviation stage_total :: "load_state \<Rightarrow> nat" where
  "stage_total ls \<equiv> unat (hd_num_stages (ls_hdr ls))"

lemma chain_insideI:
  assumes "\<forall>i < N. stage_ok ls i" and N: "N = stage_total ls"
    and graphs: "p_num_subgraphs (ls_candidate ls) \<noteq> 0 \<Longrightarrow> graphs_laid_out (ls_candidate ls) N \<and>
      (\<forall>s < N. check_chain_graph (ls_candidate ls) s = Some (Inr ()))"
    and s: "s < N"
  shows "chain_inside (ls_candidate ls) N s"
  unfolding chain_inside_def
proof (intro allI impI)
  let ?pl = "ls_candidate ls"
  fix stage assume st: "plan_stage ?pl s = Some stage" "2 \<le> sg_chain_len stage" "unat (sg_chain_id stage) = s"
  let ?n = "unat (sg_chain_len stage)"
  have "check_chain ls s stage = Some (Inr ())" using assms(1) s st(1) by (auto simp: stage_ok_def)
  moreover have "sg_chain_len stage \<noteq> 0" using st(2) by auto
  ultimately have fit: "s + ?n \<le> N" "2 \<le> ?n" using check_chainD [of ls s stage] st N by auto
  have "s + ?n \<le> stages_before ?pl (Suc g)" if sub: "p_num_subgraphs ?pl \<noteq> 0" and g: "in_graph ?pl g s" for g
  proof -
    have laid: "graphs_laid_out ?pl N" and chk: "check_chain_graph ?pl s = Some (Inr ())"
      using graphs [OF sub] s by auto
    have "N < 65536" using N unat_u16_less by simp
    then have l: "unat (word_of_nat s + sg_chain_len stage - 1 :: u16) = s + ?n - 1"
      using fit by (simp add: unat_word_ariths unat_of_nat_u16 unat_sub_if')
    from chk st obtain a where a: "graph_of_stage ?pl s = Some a" "graph_of_stage ?pl (s + ?n - 1) = Some a"
      unfolding check_chain_graph_def l [symmetric] by (auto simp: bind_eq_Some_conv split: if_splits)
    have "graph_of_stage ?pl s = Some g" by (rule graph_of_stage_in [OF laid s g])
    moreover have last_in: "s + ?n - 1 < N" using fit by linarith
    moreover obtain h where "graph_of_stage ?pl (s + ?n - 1) = Some h" "in_graph ?pl h (s + ?n - 1)"
      using graph_of_stage_exact [OF laid last_in] by blast
    ultimately have "in_graph ?pl g (s + ?n - 1)" using a by simp
    then have "s + ?n - 1 < stages_before ?pl (Suc g)" by (simp only: in_graph_def)
    then show ?thesis by linarith
  qed
  then show "s + ?n \<le> N \<and> (p_num_subgraphs ?pl \<noteq> 0 \<longrightarrow>
      (\<forall>g. in_graph ?pl g s \<longrightarrow> s + ?n \<le> stages_before ?pl (Suc g)))"
    using fit by blast
qed

lemma runnable_env:
  assumes "runnable env ls"
  shows "env_ok env (stage_total ls)"
proof -
  let ?pl = "ls_candidate ls"
  obtain ls' where stages: "validate_stages ls = Some (Inr ls')" and pl: "re_plan env = ?pl"
    and cases: "(p_num_subgraphs ?pl = 0 \<and> p_header ?pl = Some (ls_hdr ls)) \<or>
      (graphs_accepted ls \<and> nesting_depth ?pl \<le> capacity env)"
    using assms by (auto simp: runnable_def)
  have ok: "\<forall>i < stage_total ls. stage_ok ls i" using validate_stagesD [OF stages] by simp
  have "chain_inside ?pl (stage_total ls) s" if "s < stage_total ls" for s
    by (rule chain_insideI [OF ok refl _ that])
      (use cases graphs_acceptedD(1) [of ls] check_controlD [of ?pl "ls_hdr ls"] in \<open>auto simp: graphs_accepted_def\<close>)
  moreover have "p_num_subgraphs ?pl = 0 \<or> control_checked ?pl (stage_total ls)"
    using cases control_checkedI [OF _ stages] by blast
  moreover have "p_num_subgraphs ?pl \<noteq> 0 \<longrightarrow> nesting_depth ?pl \<le> capacity env" using cases by blast
  ultimately show ?thesis
    using unat_u16_less by (simp add: env_ok_def control_ready_def pl)
qed

text \<open>The first configuration.\<close>

lemma start_flow_represents:
  assumes run: "runnable env ls" and len: "length frames = 4 + 4 * capacity env"
  shows "\<exists>flow. start_flow (re_plan env) frames = Some flow \<and>
    (\<forall>c. same_config env (stage_total ls) (0, flow, c) ([], 0, c))"
proof -
  let ?pl = "ls_candidate ls" and ?N = "stage_total ls"
  have pl: "re_plan env = ?pl" using run by (simp add: runnable_def)
  have "\<exists>stop. (if p_num_subgraphs ?pl \<noteq> 0 then map_option gr_num_stages (plan_subgraph ?pl 0)
      else map_option hd_num_stages (p_header ?pl)) = Some stop \<and> stop = word_of_nat (graph_end ?pl ?N 0)"
  proof (cases "p_num_subgraphs ?pl = 0")
    case True
    then show ?thesis using run by (auto simp: runnable_def graph_end_def graphs_accepted_def)
  next
    case False
    then have "graphs_laid_out ?pl ?N" using run graphs_acceptedD(1) by (auto simp: runnable_def)
    then have "graph_ok ?pl 0" by (simp add: graphs_laid_out_def)
    then show ?thesis
      using False by (auto simp: graph_ok_def graph_end_def graph_stages_def)
  qed
  then obtain stop where stop: "(if p_num_subgraphs ?pl \<noteq> 0 then map_option gr_num_stages (plan_subgraph ?pl 0)
      else map_option hd_num_stages (p_header ?pl)) = Some stop" "stop = word_of_nat (graph_end ?pl ?N 0)" by blast
  have "graph_start ?pl 0 = 0" by (simp add: graph_start_def)
  then show ?thesis
    using len stop by (auto simp: start_flow_def pl arr_set_def same_config_def represents_def config_ok_def)
qed

section \<open>Properties\<close>

lemma run_stages_structured:
  assumes env: "env_ok env N" and same: "same_config env N x ([], 0, c)"
  shows "map_option without_flow (run_stages env x) = structured env N (Stages 0 0) c"
proof -
  have ok: "config_ok (re_plan env) N [] 0" using same by (simp add: same_config_def)
  have run: "stack_run env N ([], 0, c) = structured env N (Stages 0 0) c"
    by (simp add: stack_run_def stack_rest_Nil)
  show ?thesis
  proof (cases "structured env N (Stages 0 0) c")
    case None
    have "run_stages env x = None"
    proof (rule ccontr)
      assume "run_stages env x \<noteq> None"
      then obtain r where "run_stages env x = Some r" by blast
      from run_stages_machine [OF env this same] have "stack_machine env N ([], 0, c) = Some (without_flow r)" .
      from machine_structured [OF this env] ok run None show False by simp
    qed
    then show ?thesis using None by simp
  next
    case (Some r)
    have "stack_machine env N ([], 0, c) = Some r"
    proof (cases "graph_end (re_plan env) N 0 = 0")
      case True
      then show ?thesis using Some by (subst stack_machine.simps) (simp add: structured_end)
    next
      case False
      then have "stack_machine env N ([], 0, c) = after_graph env N [] (graph_end (re_plan env) N 0 - 1) r"
        using structured_machine [OF Some env] ok by (auto simp: machine_does_def)
      also have "\<dots> = Some r"
        using False by (cases r) (auto simp: after_graph_def stack_machine.simps)
      finally show ?thesis .
    qed
    from machine_run_stages [OF env this same] Some show ?thesis by auto
  qed
qed

text \<open>C2. The executor's stage loop computes what the recursive interpreter computes. For every plan the
  loader accepts, however its stages change the arenas, running the flat loop with its stack of
  frames gives exactly the outcome of \<open>structured\<close>: an If runs the branch its condition selects and
  continues after its stage, a While alternates its condition and body until the condition is
  false, nested as deep as the plan nests them. The two agree on the final manager and memory, on
  every error and the state it leaves, and on the runs that do not end.\<close>

theorem control_flow_refines:
  assumes run: "runnable env ls" and len: "length frames = 4 + 4 * capacity env"
  shows "map_option without_flow (run_all_stages env frames c) =
    structured env (unat (hd_num_stages (ls_hdr ls))) (Stages 0 0) c"
proof -
  obtain flow where "start_flow (re_plan env) frames = Some flow"
    "same_config env (stage_total ls) (0, flow, c) ([], 0, c)"
    using start_flow_represents [OF assms] by blast
  then show ?thesis
    using run_stages_structured [OF runnable_env [OF run]] by (simp add: run_all_stages_def)
qed

section \<open>A concrete run\<close>

text \<open>The If of \<open>if_demo\<close>, with stages that leave memory alone, and room for one operator.\<close>

definition if_env :: run_env where
  "if_env = \<lparr> re_plan = if_plan, re_last_consumer = [0, 0], re_floor = 0, re_depth_capacity = 1,
     re_chain = \<lambda>_ _ c. Some (Inr c), re_stage = \<lambda>_ c. Some (Inr (False, c)) \<rparr>"

lemma if_runnable: "runnable if_env if_demo"
proof -
  have "0 < graph_count (ls_candidate if_demo)" by (simp add: if_parts)
  from depth_below_le [OF this, of 0] have "nesting_depth if_plan \<le> 1"
    by (simp add: nesting_depth_def if_parts)
  then show ?thesis
    using if_accepted if_stages_ok by (simp add: runnable_def if_env_def if_parts)
qed

lemma if_start: "start_flow (re_plan if_env) (replicate 8 0) = Some [0, 0, 1, 0, 0, 0, 0, 0]"
  by (simp add: start_flow_def if_env_def if_parts if_table_simps one_stage_graph_def arr_set_def numeral_eq_Suc)

lemma if_capacity: "unat (re_depth_capacity if_env) = 1" "re_plan if_env = if_plan"
  by (simp_all add: if_env_def)

lemma control_flow_refines_witness:
  "map_option without_flow (run_all_stages if_env (replicate 8 0) (demo_heap, demo_ram)) =
     structured if_env 2 (Stages 0 0) (demo_heap, demo_ram)"
  using control_flow_refines [OF if_runnable, of "replicate 8 0"] by (simp add: if_capacity if_parts)

end
