(* ===== verification/Control_Progress.thy ===== *)
theory Control_Progress
  imports Control_Refinement
begin

text \<open>
  Invariants and progress of the executor's stage loop (\<open>tigris_run_with_state\<close> of
  \<open>src/tigris_executor.c\<close>): the frames of running operators always fit the workspace, and between
  two entries of a While body only so many rounds can pass as the plan has stages, counted once for
  every way its operators nest.
\<close>

section \<open>Reachable configurations\<close>

type_synonym config = "u16 \<times> u16 list \<times> mem \<times> ram"

definition in_loop :: "config \<Rightarrow> bool" where
  "in_loop x = (\<exists>stop. arr_get (fst (snd x)) 2 = Some stop \<and> fst x < stop)"

inductive reaches :: "run_env \<Rightarrow> config \<Rightarrow> config \<Rightarrow> bool" for env x where
  reaches_refl: "reaches env x x"
| reaches_step: "reaches env x y \<Longrightarrow> in_loop y \<Longrightarrow> run_round env y = Some (Inr z) \<Longrightarrow> reaches env x z"

lemma in_loop_same:
  assumes "env_ok env N" and "same_config env N x (st, s, c)"
  shows "in_loop x = (s < graph_end (re_plan env) N (running st))"
  using same_config_test [OF assms] by (simp add: in_loop_def)

lemma round_same:
  assumes env: "env_ok env N" and same: "same_config env N x (st, s, c)" and "in_loop x"
    and round: "run_round env x = Some (Inr y)"
  shows "\<exists>st' s' c'. stack_round env N (st, s, c) = Some (Inr (st', s', c')) \<and> same_config env N y (st', s', c')"
proof -
  note t = same_config_test [OF env same]
  have s: "s < graph_end (re_plan env) N (running st)" using assms(3) in_loop_same [OF env same] by simp
  have "agree (same_config env N) (run_round env x) (stack_round env N (st, s, c))"
    by (subst t(4)) (rule run_round_sim [OF env t(6,5) s])
  then show ?thesis using round by auto
qed

lemma reaches_same:
  assumes "reaches env x y" and "env_ok env N" and "\<exists>z. same_config env N x z"
  shows "\<exists>z. same_config env N y z"
  using assms
proof (induction rule: reaches.induct)
  case (reaches_step y z)
  then obtain st s c where "same_config env N y (st, s, c)" by auto
  from round_same [OF reaches_step.prems(1) this reaches_step.hyps(2,3)] show ?case by blast
qed

section \<open>The work left between two loop bodies\<close>

text \<open>Rounds that running a graph from a stage can take, each operator running both its graphs once.\<close>

function stage_work :: "tigris_plan \<Rightarrow> nat \<Rightarrow> nat \<Rightarrow> nat \<Rightarrow> nat" where
  "stage_work pl N g s =
     (if s < graph_end pl N g then
        Suc ((case graph_run_at pl (2 * s) of None \<Rightarrow> 0
              | Some x \<Rightarrow> if g < x \<and> x < graph_count pl then Suc (stage_work pl N x (graph_start pl x)) else 0) +
             (case graph_run_at pl (2 * s + 1) of None \<Rightarrow> 0
              | Some x \<Rightarrow> if g < x \<and> x < graph_count pl then Suc (stage_work pl N x (graph_start pl x)) else 0) +
             stage_work pl N g (Suc s))
      else 0)"
  by pat_completeness auto
termination
  by (relation "inv_image (less_than <*lex*> less_than)
      (\<lambda>(pl, N, g, s). (graph_count pl - g, graph_end pl N g - s))") auto

declare stage_work.simps [simp del]

definition child_work :: "tigris_plan \<Rightarrow> nat \<Rightarrow> nat \<Rightarrow> nat \<Rightarrow> nat" where
  "child_work pl N g p = (case graph_run_at pl p of None \<Rightarrow> 0
     | Some x \<Rightarrow> if g < x \<and> x < graph_count pl then Suc (stage_work pl N x (graph_start pl x)) else 0)"

lemma stage_work_step:
  "s < graph_end pl N g \<Longrightarrow> stage_work pl N g s =
     Suc (child_work pl N g (2 * s) + child_work pl N g (2 * s + 1) + stage_work pl N g (Suc s))"
  by (subst stage_work.simps) (simp add: child_work_def)

lemma stage_work_end: "graph_end pl N g \<le> s \<Longrightarrow> stage_work pl N g s = 0"
  by (subst stage_work.simps) simp

lemma stage_work_mono:
  assumes "s \<le> t" shows "stage_work pl N g t \<le> stage_work pl N g s"
  using assms
proof (induction "t - s" arbitrary: s)
  case (Suc n)
  then have "stage_work pl N g t \<le> stage_work pl N g (Suc s)" by (metis Suc_diff_Suc Suc_leI diff_Suc_1 zero_less_Suc zero_less_diff)
  also have "\<dots> \<le> stage_work pl N g s"
    by (cases "s < graph_end pl N g") (simp_all add: stage_work_step stage_work_end)
  finally show ?case .
qed simp

text \<open>A While that runs its body still owes its condition.\<close>

definition runs_body :: "tigris_plan \<Rightarrow> nat \<Rightarrow> nat \<Rightarrow> bool" where
  "runs_body pl s x = (\<exists>k oper. control_op pl s = Some (k, oper) \<and> op_op_type oper \<noteq> OP_IF \<and>
     control_graph pl k 0 \<noteq> Some (word_of_nat x))"

fun rest_work :: "tigris_plan \<Rightarrow> nat \<Rightarrow> stack \<Rightarrow> nat" where
  "rest_work pl N [] = 0"
| "rest_work pl N ((s, x) # st) = (if runs_body pl s x then child_work pl N (running st) (2 * s) else 0) +
     stage_work pl N (running st) (Suc s) + rest_work pl N st"

definition total_work :: "tigris_plan \<Rightarrow> nat \<Rightarrow> stack \<Rightarrow> nat \<Rightarrow> nat" where
  "total_work pl N st s = stage_work pl N (running st) s + rest_work pl N st"

text \<open>The stack at the first stage of a While's body.\<close>

definition at_body :: "tigris_plan \<Rightarrow> stack \<Rightarrow> nat \<Rightarrow> bool" where
  "at_body pl st s = (case st of [] \<Rightarrow> False
     | (s0, x) # _ \<Rightarrow> s = graph_start pl x \<and> (\<exists>k oper. control_op pl s0 = Some (k, oper) \<and>
         op_op_type oper = OP_WHILE \<and> control_graph pl k 1 = Some (word_of_nat x)))"

lemma child_work_run:
  "graph_run_at pl p = Some x \<Longrightarrow> g < x \<Longrightarrow> x < graph_count pl \<Longrightarrow>
     child_work pl N g p = Suc (stage_work pl N x (graph_start pl x))"
  by (simp add: child_work_def)

text \<open>What a step of an operator leads to.\<close>

lemma control_at_type:
  "control_at pl s \<Longrightarrow> control_op pl s = Some (k, oper) \<Longrightarrow> op_op_type oper = OP_IF \<or> op_op_type oper = OP_WHILE"
  by (auto simp: control_at_def stage_control_def control_op_def bind_eq_Some_conv split: if_splits)

lemma step_control_next:
  assumes "step_control pl oper k (word_of_nat x) c = Some (Inr (False, g, c'))"
  shows "op_op_type oper \<noteq> OP_IF \<and>
    (if control_graph pl k 0 = Some (word_of_nat x) then control_graph pl k 1 = Some g
     else control_graph pl k 0 = Some g)"
  using assms by (auto simp: step_control_def bind_eq_Some_conv andthen_Inr Let_def split: if_splits)

lemma stack_unwind_work:
  assumes env: "env_ok env N"
  shows "stack_ok (re_plan env) N st \<Longrightarrow> stack_unwind env N st s c = Some (Inr (st', s', c')) \<Longrightarrow>
    at_body (re_plan env) st' s' \<or>
    total_work (re_plan env) N st' s' \<le> stage_work (re_plan env) N (running st) (Suc s) + rest_work (re_plan env) N st"
proof (induction st arbitrary: s c)
  case (Cons f st)
  obtain s0 x where f: "f = (s0, x)" by (metis prod.exhaust)
  let ?pl = "re_plan env"
  have ready: "control_ready ?pl N" using env by (simp add: env_ok_def)
  have at: "stack_ok ?pl N st" "graph_start ?pl (running st) \<le> s0" "s0 < graph_end ?pl N (running st)"
    "control_at ?pl s0" using Cons.prems(1) f by simp_all
  show ?case
  proof (cases "s + 1 = graph_end ?pl N x")
    case False
    then show ?thesis using Cons.prems by (auto simp: f total_work_def)
  next
    case True
    then obtain k oper fin g d where op: "control_op ?pl s0 = Some (k, oper)"
      and r: "step_control ?pl oper k (word_of_nat x) c = Some (Inr (fin, g, d))"
      and rest: "(if fin then do {
            c \<leftarrow> free_dead_tensors ?pl (re_last_consumer env)
                   (word_of_nat (graph_start ?pl (running st))) (word_of_nat s0) d;
            stack_unwind env N st s0 c }
          else ret ((s0, unat g) # st, graph_start ?pl (unat g), d)) = Some (Inr (st', s', c'))"
      using Cons.prems(2) by (auto simp: f bind_eq_Some_conv andthen_Inr)
    show ?thesis
    proof (cases fin)
      case True
      then have "at_body ?pl st' s' \<or> total_work ?pl N st' s' \<le> stage_work ?pl N (running st) (Suc s0) + rest_work ?pl N st"
        using rest Cons.IH [OF at(1)] by (auto simp: bind_eq_Some_conv)
      then show ?thesis by (auto simp: f)
    next
      case False
      then have r': "step_control ?pl oper k (word_of_nat x) c = Some (Inr (False, g, d))" using r by simp
      note nxt = step_control_next [OF r']
      have new: "st' = (s0, unat g) # st" "s' = graph_start ?pl (unat g)" using rest False by auto
      show ?thesis
      proof (cases "control_graph ?pl k 0 = Some (word_of_nat x)")
        case True
        then have "at_body ?pl st' s'"
          using new op nxt control_at_type [OF at(4) op] by (auto simp: at_body_def)
        then show ?thesis ..
      next
        case False
        then have g: "control_graph ?pl k 0 = Some g" using nxt by simp
        obtain y where y: "control_graph ?pl k 0 = Some y" "running st < unat y" "unat y < graph_count ?pl"
          "graph_run_at ?pl (2 * s0 + 0) = Some (unat y)"
          using control_at_graphs [OF ready at(4,2,3) running_exists [OF at(1)]] op by (auto dest!: spec [of _ 0])
        have "child_work ?pl N (running st) (2 * s0) = Suc (stage_work ?pl N (unat g) (graph_start ?pl (unat g)))"
          by (rule child_work_run) (use y g in auto)
        moreover have "runs_body ?pl s0 x" "\<not> runs_body ?pl s0 (unat g)"
          using op nxt False g by (auto simp: runs_body_def)
        ultimately show ?thesis using new by (simp add: f total_work_def)
      qed
    qed
  qed
qed (auto simp: total_work_def)

lemma stack_round_work:
  assumes env: "env_ok env N" and ok: "config_ok (re_plan env) N st s"
    and s: "s < graph_end (re_plan env) N (running st)"
    and round: "stack_round env N (st, s, c) = Some (Inr (st', s', c'))"
  shows "at_body (re_plan env) st' s' \<or> total_work (re_plan env) N st' s' < total_work (re_plan env) N st s"
proof -
  let ?pl = "re_plan env"
  have ready: "control_ready ?pl N" using env by (simp add: env_ok_def)
  have st: "stack_ok ?pl N st" "graph_start ?pl (running st) \<le> s" using ok by (simp_all add: config_ok_def)
  from round obtain stage control where stage: "plan_stage ?pl s = Some stage" "stage_control ?pl stage = Some control"
    by (auto simp: stack_round_def bind_eq_Some_conv)
  have step: "stage_work ?pl N (running st) s = Suc (child_work ?pl N (running st) (2 * s) +
      child_work ?pl N (running st) (2 * s + 1) + stage_work ?pl N (running st) (Suc s))"
    by (rule stage_work_step [OF s])
  show ?thesis
  proof (cases control)
    case None
    then obtain l d d' where run: "run_stage env (word_of_nat s) c = Some (Inr (l, d))"
      and u: "stack_unwind env N st (unat l) d' = Some (Inr (st', s', c'))"
      using round stage by (auto simp: stack_round_def bind_eq_Some_conv andthen_Inr)
    have "Suc s \<le> Suc (unat l)" using run_stage_range(1) [OF ready ok s run] by simp
    from stage_work_mono [OF this, of ?pl N "running st"] stack_unwind_work [OF env st(1) u] step
    show ?thesis by (auto simp: total_work_def)
  next
    case (Some oper')
    then have at: "control_at ?pl s" using stage by (auto simp: control_at_def)
    from Some round stage obtain k oper x where op: "control_op ?pl s = Some (k, oper)"
      and r: "start_control ?pl oper k c = Some (Inr (x, c'))"
      and eq: "st' = (s, unat x) # st" "s' = graph_start ?pl (unat x)"
      by (auto simp: stack_round_def bind_eq_Some_conv andthen_Inr)
    from start_control_graph [OF r] obtain slot where slot: "slot < 2" "control_graph ?pl k slot = Some x" by blast
    have "\<not> runs_body ?pl s (unat x)"
      using r op by (auto simp: runs_body_def start_control_def bind_eq_Some_conv andthen_Inr split: if_splits)
    moreover have "child_work ?pl N (running st) (2 * s + slot) = Suc (stage_work ?pl N (unat x) (graph_start ?pl (unat x)))"
      by (rule child_work_run)
        (use control_at_graphs [OF ready at st(2) s running_exists [OF st(1)]] op slot in auto)
    moreover have "slot = 0 \<or> slot = 1" using slot(1) by auto
    ultimately show ?thesis using step eq by (auto simp: total_work_def)
  qed
qed

section \<open>Reading the stack off the flow array\<close>

fun stack_of :: "nat \<Rightarrow> u16 list \<Rightarrow> stack" where
  "stack_of 0 flow = []"
| "stack_of (Suc d) flow = (unat (flow ! (4 + 4 * d)), unat (flow ! (7 + 4 * d))) # stack_of d flow"

lemma stack_of_frames:
  assumes ready: "control_ready pl N"
  shows "stack_ok pl N st \<Longrightarrow> frames_hold pl N st flow \<Longrightarrow> stack_of (length st) flow = st"
proof (induction st)
  case (Cons f st)
  obtain s x where f: "f = (s, x)" by (metis prod.exhaust)
  have "s < N" "N < 65536" "x < 65536"
    using Cons.prems(1) graph_end_le [OF ready running_exists [of pl N st]] ready unat_u16_less [of "p_num_subgraphs pl"]
    by (simp_all add: f control_ready_def)
  then show ?case using Cons by (simp add: f Let_def unat_of_nat_u16 add.commute)
qed simp

definition config_work :: "tigris_plan \<Rightarrow> nat \<Rightarrow> config \<Rightarrow> nat" where
  "config_work pl N x =
     total_work pl N (stack_of (unat (fst (snd x) ! 0)) (fst (snd x))) (unat (fst x))"

text \<open>The first stage of a While's body is about to run.\<close>

definition at_loop_body :: "tigris_plan \<Rightarrow> config \<Rightarrow> bool" where
  "at_loop_body pl x = (case x of (s, flow, c) \<Rightarrow>
     let frame = 4 * unat (flow ! 0) in flow ! 0 \<noteq> 0 \<and> s = flow ! 1 \<and>
     (\<exists>k oper. control_op pl (unat (flow ! frame)) = Some (k, oper) \<and> op_op_type oper = OP_WHILE \<and>
        control_graph pl k 1 = Some (flow ! (frame + 3))))"

lemma same_config_numbers:
  assumes env: "env_ok env N" and same: "same_config env N x (st, s, c)"
  shows "unat (fst x) = s" "unat (fst (snd x) ! 0) = length st" "stack_of (length st) (fst (snd x)) = st"
proof -
  have ready: "control_ready (re_plan env) N" using env by (simp add: env_ok_def)
  note t = same_config_test [OF env same]
  show "unat (fst x) = s" using config_range [OF ready t(5)] by (subst t(4)) (simp add: unat_of_nat_u16)
  have "length st < 65536" using t(6) capacity_less [of env] by (auto simp: represents_def)
  then show "unat (fst (snd x) ! 0) = length st" using t(6) by (simp add: represents_def unat_of_nat_u16)
  show "stack_of (length st) (fst (snd x)) = st"
    by (rule stack_of_frames [OF ready]) (use t(5,6) in \<open>simp_all add: config_ok_def represents_def\<close>)
qed

lemma at_body_loop:
  assumes env: "env_ok env N" and same: "same_config env N x (st, s, c)" and body: "at_body (re_plan env) st s"
  shows "at_loop_body (re_plan env) x"
proof -
  let ?pl = "re_plan env"
  have ready: "control_ready ?pl N" using env by (simp add: env_ok_def)
  note t = same_config_test [OF env same] and n = same_config_numbers [OF env same]
  obtain s0 y st' where st: "st = (s0, y) # st'" using body by (auto simp: at_body_def split: list.splits)
  obtain flow where x: "x = (word_of_nat s, flow, c)" using t(4) by blast
  have rep: "represents ?pl N (capacity env) st flow" using t(6) x by simp
  have len: "unat (flow ! 0) = Suc (length st')" using n(2) by (simp add: x st)
  have "s0 < N" "N < 65536"
    using t(5) graph_end_le [OF ready running_exists [of ?pl N st']] ready
    by (auto simp: st config_ok_def control_ready_def)
  then have "unat (word_of_nat s0 :: u16) = s0" by (simp add: unat_of_nat_u16)
  moreover have "flow ! (4 + 4 * length st') = word_of_nat s0" "flow ! (7 + 4 * length st') = word_of_nat y"
    "flow ! 1 = word_of_nat (graph_start ?pl y)"
    using rep by (simp_all add: represents_def st Let_def add.commute)
  moreover have "flow ! 0 \<noteq> 0" using len by auto
  ultimately show ?thesis
    using body by (auto simp: at_loop_body_def at_body_def x st len Let_def)
qed

lemma round_work:
  assumes env: "env_ok env N" and same: "same_config env N x z" and loop: "in_loop x"
    and round: "run_round env x = Some (Inr y)" and "\<not> at_loop_body (re_plan env) y"
  shows "config_work (re_plan env) N y < config_work (re_plan env) N x"
proof -
  obtain st s c where z: "z = (st, s, c)" by (metis prod.exhaust)
  note same = same [unfolded z]
  from round_same [OF env same loop round] obtain st' s' c' where r: "stack_round env N (st, s, c) = Some (Inr (st', s', c'))"
    and same': "same_config env N y (st', s', c')" by blast
  have "config_ok (re_plan env) N st s" "s < graph_end (re_plan env) N (running st)"
    using same_config_test(5) [OF env same] in_loop_same [OF env same] loop by auto
  from stack_round_work [OF env this r] have "total_work (re_plan env) N st' s' < total_work (re_plan env) N st s"
    using at_body_loop [OF env same'] assms(5) by blast
  then show ?thesis
    using same_config_numbers [OF env same] same_config_numbers [OF env same'] by (simp add: config_work_def)
qed

section \<open>Properties\<close>

text \<open>C15. The frames of running operators never overflow. In every configuration the stage loop can reach
  in a plan the loader accepts, the flow array holds a stack of operators that run one inside
  another, each running a later graph than the one it is in; the stack is no higher than the
  nesting depth the loader computed, the stage lies in the running graph, and at every
  control-flow operator there is a frame left, so the overflow check never fires.\<close>

theorem frames_never_overflow:
  assumes run: "runnable env ls" and len: "length frames = 4 + 4 * unat (re_depth_capacity env)"
    and start: "start_flow (re_plan env) frames = Some flow0"
    and "reaches env (0, flow0, c0) (s, flow, c)"
  shows "\<exists>st. represents (re_plan env) (stage_total ls) (unat (re_depth_capacity env)) st flow \<and>
    stack_ok (re_plan env) (stage_total ls) st \<and> length st \<le> nesting_depth (re_plan env) \<and>
    graph_start (re_plan env) (running st) \<le> unat s \<and>
    unat s \<le> graph_end (re_plan env) (stage_total ls) (running st) \<and>
    (in_loop (s, flow, c) \<and> control_at (re_plan env) (unat s) \<longrightarrow> length st < unat (re_depth_capacity env))"
proof -
  let ?N = "stage_total ls" and ?pl = "re_plan env"
  have env: "env_ok env ?N" by (rule runnable_env [OF run])
  then have ready: "control_ready ?pl ?N" by (simp add: env_ok_def)
  have "same_config env ?N (0, flow0, c0) ([], 0, c0)"
    using start_flow_represents [OF run len] start by (metis option.inject)
  then obtain st t d where same: "same_config env ?N (s, flow, c) (st, t, d)"
    using reaches_same [OF assms(4) env] by (metis prod.exhaust)
  note f = same_config_test [OF env same] and n = same_config_numbers [OF env same]
  have ok: "stack_ok ?pl ?N st" "graph_start ?pl (running st) \<le> t" "t \<le> graph_end ?pl ?N (running st)"
    using f(5) by (simp_all add: config_ok_def)
  have room: "length st < capacity env" if "in_loop (s, flow, c)" and at: "control_at ?pl t"
  proof -
    have t: "t < graph_end ?pl ?N (running st)" using in_loop_same [OF env same] that(1) by simp
    from control_at_graphs [OF ready at ok(2) t running_exists [OF ok(1)]] obtain k oper y where
      "control_op ?pl t = Some (k, oper)" "\<exists>slot < 2. control_graph ?pl k slot = Some y"
      using zero_less_numeral by meson
    from control_slot(5) [OF env ok(1,2) t at this] show ?thesis .
  qed
  have "length st \<le> nesting_depth ?pl" using stack_depth [OF ready ok(1)] by simp
  then show ?thesis using f(6) ok room n(1) by auto
qed

text \<open>C38. The stage loop makes progress. Consider the rounds of the loop, from any configuration it can reach
  in a plan the loader accepts, that do not enter the body of a While: they cannot go on for ever.
  So a run ends, with a result, an error or in a stage that does not return, unless the condition
  of some While holds again and again; a plan without While always ends.\<close>

theorem stage_loop_progresses:
  assumes run: "runnable env ls" and len: "length frames = 4 + 4 * unat (re_depth_capacity env)"
    and start: "start_flow (re_plan env) frames = Some flow0"
  shows "wf {(y, x). reaches env (0, flow0, c0) x \<and> in_loop x \<and> run_round env x = Some (Inr y) \<and>
    \<not> at_loop_body (re_plan env) y}"
proof (rule wf_subset [OF wf_measure])
  let ?N = "stage_total ls"
  have env: "env_ok env ?N" by (rule runnable_env [OF run])
  have "same_config env ?N (0, flow0, c0) ([], 0, c0)"
    using start_flow_represents [OF run len] start by (metis option.inject)
  then have less: "config_work (re_plan env) ?N y < config_work (re_plan env) ?N x"
    if "reaches env (0, flow0, c0) x" "in_loop x" "run_round env x = Some (Inr y)" "\<not> at_loop_body (re_plan env) y" for x y
    using reaches_same [OF that(1) env] round_work [OF env _ that(2-4)] by blast
  show "{(y, x). reaches env (0, flow0, c0) x \<and> in_loop x \<and> run_round env x = Some (Inr y) \<and>
      \<not> at_loop_body (re_plan env) y} \<subseteq> measure (config_work (re_plan env) ?N)"
    by (intro subsetI) (clarify, simp only: in_measure, rule less)
qed

section \<open>Witnesses\<close>

lemma frames_never_overflow_witness:
  "\<exists>st. represents if_plan 2 1 st [0, 0, 1, 0, 0, 0, 0, 0] \<and> length st < 1"
proof -
  let ?x = "(0 :: u16, [0, 0, 1, 0, 0, 0, 0, 0 :: u16], demo_heap, demo_ram)"
  have "in_loop ?x" by (simp add: in_loop_def)
  moreover have "control_at if_plan 0"
    by (simp add: control_at_def if_data stage_control_def tigris_stage_ops_def)
  ultimately show ?thesis
    using frames_never_overflow [OF if_runnable _ if_start, of "(demo_heap, demo_ram)" 0 _ "(demo_heap, demo_ram)"]
      reaches_refl [of if_env ?x]
    by (auto simp: if_capacity if_parts)
qed

lemma stage_loop_progresses_witness:
  "wf {(y, x). reaches if_env (0, [0, 0, 1, 0, 0, 0, 0, 0], demo_heap, demo_ram) x \<and> in_loop x \<and>
     run_round if_env x = Some (Inr y) \<and> \<not> at_loop_body if_plan y}"
  using stage_loop_progresses [OF if_runnable _ if_start, of "(demo_heap, demo_ram)"] by (simp add: if_capacity)

end
