(* ===== verification/Executor_Run.thy ===== *)
theory Executor_Run
  imports Workspace Control_Flow Arena_Budget
begin

text \<open>
  A run of the executor (\<open>tigris_run_with_state\<close> of \<open>src/tigris_executor.c\<close>, with
  \<open>src/tigris_io_in_fast.h\<close>): the checks before the first stage, the reset floor of the fast arena,
  the last consumer of every tensor, the variables kept between runs, and what every outcome leaves
  behind.

  \<^item> The state buffer is a list of bytes apart from the arenas. The frames the run keeps in its
    workspace start with arbitrary contents.
  \<^item> The execution of single stages and chains is the argument \<open>paths\<close>, as in \<open>Control_Flow\<close>.

  What is shown: whatever the stages do, a run hands the fast arena back with the caller's reserve
  and no tensor pointer into its free part except outputs left there on success; and the state
  buffer changes only when every stage has run, and then only in the variables the plan assigns.
\<close>

section \<open>Inputs read in place\<close>

definition lists_tensor :: "(nat \<Rightarrow> u16 option) \<Rightarrow> nat \<Rightarrow> u16 \<Rightarrow> bool option" where
  "lists_tensor lst count tidx = loop 0 count (\<lambda>i found. do {
     t \<leftarrow> lst i; Some (if t = tidx then True else found) }) False"

definition tigris_plan_io_in_fast :: "tigris_plan option \<Rightarrow> bool option" where
  "tigris_plan_io_in_fast po = (case po of None \<Rightarrow> Some False | Some pl \<Rightarrow>
     (case p_header pl of None \<Rightarrow> Some False | Some hdr \<Rightarrow>
       if p_stages pl \<noteq> None \<and> p_index_pool pl \<noteq> None \<and> hd_version hdr \<ge> SCHEMA_VERSION_TILE_AXIS \<and>
          hd_num_stages hdr = 1 \<and> p_num_subgraphs pl = 0 \<and> p_num_state pl = 0
       then do {
         stage \<leftarrow> plan_stage pl 0;
         if sg_chain_len stage < 2 \<and> sg_tile_plan_idx stage = NONE_U16 then do {
           fits \<leftarrow> loop 0 (unat (hd_num_model_inputs hdr)) (\<lambda>i fits.
             if fits then do {
               t \<leftarrow> plan_model_input pl i;
               lists_tensor (tigris_stage_inputs pl stage) (unat (sg_inputs_count stage)) t }
             else Some fits) True;
           loop 0 (unat (hd_num_model_outputs hdr)) (\<lambda>i fits.
             if fits then do {
               t \<leftarrow> plan_model_output pl i;
               lists_tensor (tigris_stage_outputs pl stage) (unat (sg_outputs_count stage)) t }
             else Some fits) fits }
         else Some False }
       else Some False))"

text \<open>The address and aligned size of model input \<open>i\<close>.\<close>

definition placed_input :: "tigris_plan \<Rightarrow> mem \<Rightarrow> nat \<Rightarrow> (nat \<times> u32) option" where
  "placed_input pl m i = do {
     tidx \<leftarrow> plan_model_input pl i;
     p \<leftarrow> arr_get (tensor_ptrs m) (unat tidx);
     t \<leftarrow> plan_tensor pl (unat tidx);
     Some (p, tile_align_up (tn_size_bytes t)) }"

definition floor_input :: "tigris_plan \<Rightarrow> mem \<Rightarrow> nat \<Rightarrow> bool \<times> u32 \<times> u32 \<Rightarrow> (bool \<times> u32 \<times> u32) option" where
  "floor_input pl m i = (\<lambda>(in_place, low, size_sum).
     if \<not> in_place then Some (in_place, low, size_sum)
     else do {
       (p, sz) \<leftarrow> placed_input pl m i;
       let in_place = \<not> (p < fast_base m + unat (fast_reserved m) \<or> p \<ge> fast_base m + unat (fast_used m) \<or>
         sz > fast_used m - word_of_nat (p - fast_base m));
       in_place \<leftarrow> loop 0 i (\<lambda>j in_place.
         if \<not> in_place then Some in_place
         else do {
           (q, other) \<leftarrow> placed_input pl m j;
           Some (\<not> (p < q + unat other \<and> q < p + unat sz)) }) in_place;
       Some (in_place,
         if in_place \<and> word_of_nat (p - fast_base m) < low then word_of_nat (p - fast_base m) else low,
         size_sum + sz) })"

definition fast_floor :: "tigris_plan \<Rightarrow> mem \<Rightarrow> (bool \<times> u32 \<times> u32) option" where
  "fast_floor pl m = do {
     hdr \<leftarrow> p_header pl;
     reserve \<leftarrow> (if hd_num_model_inputs hdr > 0 then tigris_weight_decompression_overhead (Some pl) else Some 0);
     in_place \<leftarrow> tigris_plan_io_in_fast (Some pl);
     (in_place, low, size_sum) \<leftarrow> loop 0 (unat (hd_num_model_inputs hdr)) (floor_input pl m)
       (in_place, fast_used m, 0);
     let in_place = (in_place \<and> \<not> (size_sum \<noteq> fast_used m - low \<or> reserve > low - fast_reserved m));
     in_place \<leftarrow> loop 0 (unat (num_tensors m)) (\<lambda>t in_place.
       if \<not> in_place then Some in_place
       else do {
         p \<leftarrow> arr_get (tensor_ptrs m) t;
         Some (\<not> (p \<ge> fast_base m + unat low - unat reserve \<and> p < fast_base m + unat low)) }) in_place;
     Some (in_place, if in_place then low - reserve else fast_used m, if in_place then reserve else 0) }"

section \<open>Stale pointers\<close>

definition drop_free_fast_pointer ::
  "tigris_plan \<Rightarrow> u32 \<Rightarrow> bool \<Rightarrow> bool \<Rightarrow> nat \<Rightarrow> mem \<Rightarrow> mem option" where
  "drop_free_fast_pointer pl floor_bytes keep_inputs keep_outputs i m = do {
     p \<leftarrow> arr_get (tensor_ptrs m) i;
     hdr \<leftarrow> p_header pl;
     kept_in \<leftarrow> (if keep_inputs then lists_tensor (plan_model_input pl) (unat (hd_num_model_inputs hdr)) (word_of_nat i)
                else Some False);
     kept \<leftarrow> (if kept_in then Some True
             else if keep_outputs
             then lists_tensor (plan_model_output pl) (unat (hd_num_model_outputs hdr)) (word_of_nat i)
             else Some False);
     if p \<ge> fast_base m + unat floor_bytes \<and> p < fast_base m + unat (fast_size m) \<and> \<not> kept
     then do { ps \<leftarrow> arr_set (tensor_ptrs m) i 0; Some (m\<lparr>tensor_ptrs := ps\<rparr>) }
     else Some m }"

definition drop_free_fast_pointers :: "tigris_plan \<Rightarrow> u32 \<Rightarrow> bool \<Rightarrow> bool \<Rightarrow> mem \<Rightarrow> mem option" where
  "drop_free_fast_pointers pl floor_bytes keep_inputs keep_outputs m =
     loop 0 (unat (num_tensors m)) (drop_free_fast_pointer pl floor_bytes keep_inputs keep_outputs) m"

section \<open>The last consumer of every tensor\<close>

definition note_consumer :: "tigris_plan \<Rightarrow> u16 \<Rightarrow> nat \<Rightarrow> u16 list \<Rightarrow> u16 list option" where
  "note_consumer pl num_t s lc = do {
     st \<leftarrow> plan_stage pl s;
     loop 0 (unat (sg_inputs_count st)) (\<lambda>i lc. do {
       t \<leftarrow> tigris_stage_inputs pl st i;
       if t < num_t then do {
         v \<leftarrow> arr_get lc (unat t);
         if word_of_nat s > v then arr_set lc (unat t) (word_of_nat s) else Some lc }
       else Some lc }) lc }"

text \<open>A tensor that is never freed.\<close>

definition keep_tensor :: "u16 \<Rightarrow> u16 \<Rightarrow> u16 list \<Rightarrow> u16 list option" where
  "keep_tensor num_t t lc = (if t < num_t then arr_set lc (unat t) NONE_U16 else Some lc)"

definition last_consumers :: "tigris_plan \<Rightarrow> u16 list option" where
  "last_consumers pl = do {
     hdr \<leftarrow> p_header pl;
     lc \<leftarrow> loop 0 (unat (hd_num_stages hdr)) (note_consumer pl (hd_num_tensors hdr))
             (replicate (unat (hd_num_tensors hdr)) 0);
     lc \<leftarrow> loop 0 (unat (hd_num_model_outputs hdr)) (\<lambda>i lc. do {
             t \<leftarrow> plan_model_output pl i; keep_tensor (hd_num_tensors hdr) t lc }) lc;
     loop 1 (unat (p_num_subgraphs pl) - 1) (\<lambda>g lc. do {
       graph \<leftarrow> plan_subgraph pl g;
       loop 0 (unat (gr_outputs_count graph)) (\<lambda>i lc. do {
         t \<leftarrow> plan_index pl (unat (gr_outputs_off graph) + i);
         keep_tensor (hd_num_tensors hdr) t lc }) lc }) lc }"

section \<open>Variables kept between runs\<close>

definition tigris_state_required :: "tigris_plan option \<Rightarrow> u32" where
  "tigris_state_required po = (case po of None \<Rightarrow> 0 | Some pl \<Rightarrow> p_state_bytes pl)"

definition init_variable :: "tigris_plan \<Rightarrow> nat \<Rightarrow> bytes \<Rightarrow> bytes option" where
  "init_variable pl i state = do {
     entry \<leftarrow> plan_state_entry pl i;
     section \<leftarrow> p_state_section pl;
     copy_into state (unat (st_offset entry)) (p_buf pl) (section + unat (st_initial entry))
       (unat (st_bytes entry)) }"

definition tigris_state_init ::
  "tigris_plan option \<Rightarrow> bytes option \<Rightarrow> (exec_error + bytes option) option" where
  "tigris_state_init po state = (case po of None \<Rightarrow> fail EXEC_ERR_NULL | Some pl \<Rightarrow>
     if p_num_state pl = 0 then ret state
     else (case state of None \<Rightarrow> fail EXEC_ERR_STATE | Some st \<Rightarrow>
       if length st < unat (p_state_bytes pl) then fail EXEC_ERR_STATE
       else map_option (\<lambda>s. Inr (Some s)) (loop 0 (unat (p_num_state pl)) (init_variable pl) st)))"

text \<open>A variable enters the run: its bytes are placed in slow memory.\<close>

definition load_variable ::
  "tigris_plan \<Rightarrow> bytes \<Rightarrow> nat \<Rightarrow> u16 list \<times> mem \<times> ram \<Rightarrow> (u16 list \<times> mem \<times> ram) exec" where
  "load_variable pl state i = (\<lambda>(lc, m, h). do {
     entry \<leftarrow> plan_state_entry pl i;
     r \<leftarrow> tigris_mem_alloc_slow (Some m) (st_input entry) (st_bytes entry);
     (case r of Inl _ \<Rightarrow> fail (EXEC_ERR_MEM, m, h)
      | Inr m \<Rightarrow> do {
          d \<leftarrow> arr_get (tensor_ptrs m) (unat (st_input entry));
          if unat (st_offset entry) + unat (st_bytes entry) > length state then None
          else do {
            lc \<leftarrow> (if st_output entry \<noteq> NONE_U16 then arr_set lc (unat (st_output entry)) NONE_U16 else Some lc);
            ret (lc, count_copy (st_bytes entry) m,
                 ram_store h d (take (unat (st_bytes entry)) (drop (unat (st_offset entry)) state))) } }) })"

text \<open>It leaves the run: the bytes of its output tensor are written back.\<close>

definition ram_read :: "ram \<Rightarrow> nat \<Rightarrow> nat \<Rightarrow> bytes" where
  "ram_read h s n = map (\<lambda>k. h (s + k)) [0..<n]"

definition store_variable ::
  "tigris_plan \<Rightarrow> ram \<Rightarrow> nat \<Rightarrow> mem \<times> bytes \<Rightarrow> ((mem \<times> bytes) + (mem \<times> bytes)) option" where
  "store_variable pl h i = (\<lambda>(m, state). do {
     entry \<leftarrow> plan_state_entry pl i;
     if st_output entry = NONE_U16 then ret (m, state)
     else do {
       p \<leftarrow> arr_get (tensor_ptrs m) (unat (st_output entry));
       if p = 0 then fail (m, state)
       else do {
         state \<leftarrow> copy_into state (unat (st_offset entry)) (ram_read h p (unat (st_bytes entry))) 0
                    (unat (st_bytes entry));
         ret (count_copy (st_bytes entry) m, state) } } })"

section \<open>The run\<close>

definition zero_stats :: exec_stats where
  "zero_stats = \<lparr> stages_normal = 0, stages_tiled = 0, stages_chain = 0, total_tiles = 0,
     slow_overflow_count = 0, slow_overflow_bytes = 0, loads_bytes = 0, spills_bytes = 0,
     compactions = 0, stats_slow_peak = 0, weight_bytes = 0, copy_bytes = 0 \<rparr>"

text \<open>How chains and single stages execute, given whether inputs are read in place, the room for
  weights and the last consumers.\<close>

type_synonym paths = "bool \<Rightarrow> u32 \<Rightarrow> u16 list \<Rightarrow>
  (u16 \<Rightarrow> u16 \<Rightarrow> mem \<times> ram \<Rightarrow> (mem \<times> ram) exec) \<times> (u16 \<Rightarrow> mem \<times> ram \<Rightarrow> (bool \<times> mem \<times> ram) exec)"

text \<open>A run's outcome: the code, the manager, the memory, the state buffer and the statistics.\<close>

record outcome =
  oc_error :: "exec_error option"
  oc_mem :: mem
  oc_ram :: ram
  oc_state :: bytes
  oc_stats :: "exec_stats option"

text \<open>The label \<open>restore_fast_arena\<close>, which every exit after the first checks reaches.\<close>

definition restore_fast_arena ::
  "tigris_plan \<Rightarrow> u32 \<Rightarrow> u32 \<Rightarrow> bool \<Rightarrow> exec_error option \<Rightarrow> mem \<times> ram \<times> bytes \<Rightarrow> outcome option" where
  "restore_fast_arena pl run_floor caller_reserved io_in_fast err = (\<lambda>(m, h, state). do {
     let final_stats = map_option (\<lambda>s. s\<lparr>stats_slow_peak := slow_peak m\<rparr>) (stats m);
     m \<leftarrow> drop_free_fast_pointers pl run_floor False (io_in_fast \<and> err = None) (m\<lparr>stats := None\<rparr>);
     let m = tigris_mem_reset_fast (m\<lparr>fast_reserved := run_floor\<rparr>);
     Some \<lparr> oc_error = err, oc_mem = m\<lparr>fast_reserved := caller_reserved\<rparr>, oc_ram = h,
       oc_state = state, oc_stats = final_stats \<rparr> })"

text \<open>From the first stage to the stores, with the state buffer the run leaves.\<close>

definition run_stages_and_store ::
  "tigris_plan \<Rightarrow> run_env \<Rightarrow> u16 list \<Rightarrow> mem \<times> ram \<Rightarrow> bytes \<Rightarrow>
     (exec_error option \<times> mem \<times> ram \<times> bytes) option" where
  "run_stages_and_store pl env frames c state = do {
     r \<leftarrow> run_all_stages env frames c;
     (case r of
        Inl (e, m, h) \<Rightarrow> Some (Some e, m, h, state)
      | Inr (flow, m, h) \<Rightarrow> do {
          q \<leftarrow> for_range 0 (unat (p_num_state pl)) (store_variable pl h) (m, state);
          Some (case q of Inl (m, state) \<Rightarrow> (Some EXEC_ERR_MEM, m, h, state)
                | Inr (m, state) \<Rightarrow> (None, m, h, state)) }) }"

text \<open>The body of a run between the checks and \<open>restore_fast_arena\<close>.\<close>

definition run_body ::
  "tigris_plan \<Rightarrow> paths \<Rightarrow> u16 \<Rightarrow> u16 list \<Rightarrow> bool \<Rightarrow> u32 \<Rightarrow> u32 \<Rightarrow> bytes option \<Rightarrow> mem \<times> ram \<Rightarrow>
     (exec_error option \<times> mem \<times> ram \<times> bytes) option" where
  "run_body pl paths depth frames io_in_fast run_floor weight_gap state = (\<lambda>(m, h). do {
     lc \<leftarrow> last_consumers pl;
     let st = (case state of None \<Rightarrow> [] | Some s \<Rightarrow> s);
     if p_num_state pl > 0 \<and> (state = None \<or> length st < unat (p_state_bytes pl))
     then Some (Some EXEC_ERR_STATE, m, h, st)
     else do {
       r \<leftarrow> for_range 0 (unat (p_num_state pl)) (load_variable pl st) (lc, m, h);
       (case r of
          Inl (e, m, h) \<Rightarrow> Some (Some e, m, h, st)
        | Inr (lc, c) \<Rightarrow>
            run_stages_and_store pl
              \<lparr> re_plan = pl, re_last_consumer = lc, re_floor = run_floor, re_depth_capacity = depth,
                re_chain = fst (paths io_in_fast weight_gap lc), re_stage = snd (paths io_in_fast weight_gap lc) \<rparr>
              frames c st) } })"

text \<open>With a workspace: the checks of the manager and of the plan's stated requirement, the run, and
  the way out. \<open>st\<close> is the zeroed statistics.\<close>

definition run_in_workspace ::
  "paths \<Rightarrow> tigris_plan \<Rightarrow> file_header \<Rightarrow> u16 \<Rightarrow> u16 list \<Rightarrow> mem \<Rightarrow> exec_stats option \<Rightarrow> bytes option \<Rightarrow> ram \<Rightarrow>
     (exec_error \<times> exec_stats option + outcome) option" where
  "run_in_workspace paths pl hdr depth frames m st state h =
     (if fast_used m > fast_size m \<or> fast_reserved m > fast_used m then fail (EXEC_ERR_MEM, st)
      else do {
        (io_in_fast, run_floor, weight_gap) \<leftarrow> fast_floor pl m;
        required \<leftarrow> (if hd_version hdr \<ge> SCHEMA_VERSION_SCHEDULED_PEAK
                     then tigris_fast_arena_required (Some pl) else Some 0);
        if hd_version hdr \<ge> SCHEMA_VERSION_SCHEDULED_PEAK \<and>
           (required = U32_MAX \<or> fast_size m - run_floor < required)
        then fail (EXEC_ERR_MEM, st)
        else do {
          let caller_reserved = fast_reserved m;
          m \<leftarrow> drop_free_fast_pointers pl run_floor io_in_fast False m;
          let m = m\<lparr>fast_reserved := run_floor, stats := st, fast_peak := fast_used m,
            slow_peak := slow_used m\<rparr>;
          (err, m, h, state') \<leftarrow> run_body pl paths depth frames io_in_fast run_floor weight_gap state (m, h);
          map_option Inr (restore_fast_arena pl run_floor caller_reserved io_in_fast err (m, h, state')) } })"

text \<open>The checks before. A refused run returns its code and leaves everything as it was; \<open>stats\<close> starts
  at zero whatever happens.\<close>

definition tigris_run_with_state ::
  "target \<Rightarrow> paths \<Rightarrow> (nat \<Rightarrow> u16) \<Rightarrow> tigris_plan option \<Rightarrow> mem option \<Rightarrow> bool \<Rightarrow> exec_stats option \<Rightarrow>
     'a::len word \<Rightarrow> 'a word \<Rightarrow> bytes option \<Rightarrow> ram \<Rightarrow> (exec_error \<times> exec_stats option + outcome) option" where
  "tigris_run_with_state tg paths junk po mo has_kernel caller_stats storage storage_size state h =
     (let st = map_option (\<lambda>_. zero_stats) caller_stats in
      case (po, mo) of
        (Some pl, Some m) \<Rightarrow>
          if \<not> has_kernel then fail (EXEC_ERR_NULL, st)
          else (case p_header pl of None \<Rightarrow> fail (EXEC_ERR_NULL, st) | Some hdr \<Rightarrow>
            if storage = 0 then fail (EXEC_ERR_WORKSPACE, st)
            else if hd_num_stages hdr = 0 \<or> p_stages pl = None then fail (EXEC_ERR_NO_STAGES, st)
            else do {
              limits \<leftarrow> workspace_limits po;
              (case limits of Inl _ \<Rightarrow> fail (EXEC_ERR_WORKSPACE, st) | Inr l \<Rightarrow>
                (case workspace_layout tg storage storage_size l of
                   Some (True, ws) \<Rightarrow>
                     run_in_workspace paths pl hdr (ws_depth_capacity ws)
                       (map junk [0 ..< 4 + 4 * unat (ws_depth_capacity ws)]) m st state h
                 | _ \<Rightarrow> fail (EXEC_ERR_WORKSPACE, st))) })
      | _ \<Rightarrow> fail (EXEC_ERR_NULL, st))"

text \<open>The entry point without state.\<close>

definition tigris_run_with_workspace_buffer ::
  "target \<Rightarrow> paths \<Rightarrow> (nat \<Rightarrow> u16) \<Rightarrow> tigris_plan option \<Rightarrow> mem option \<Rightarrow> bool \<Rightarrow> exec_stats option \<Rightarrow>
     'a::len word \<Rightarrow> 'a word \<Rightarrow> ram \<Rightarrow> (exec_error \<times> exec_stats option + outcome) option" where
  "tigris_run_with_workspace_buffer tg paths junk po mo has_kernel caller_stats storage storage_size h =
     tigris_run_with_state tg paths junk po mo has_kernel caller_stats storage storage_size None h"

section \<open>What every run hands back\<close>

definition listed :: "(nat \<Rightarrow> u16 option) \<Rightarrow> nat \<Rightarrow> u16 \<Rightarrow> bool" where
  "listed lst n t = (\<exists>i < n. lst i = Some t)"

lemma lists_tensor_iff:
  assumes "lists_tensor lst n t = Some b"
  shows "b = listed lst n t"
proof -
  have "(\<lambda>k b. b = listed lst k t) (0 + n) b"
    by (rule loop_invariant [OF assms [unfolded lists_tensor_def]])
      (auto simp: listed_def less_Suc_eq bind_eq_Some_conv split: if_splits)
  then show ?thesis by simp
qed

definition is_model_output :: "tigris_plan \<Rightarrow> u16 \<Rightarrow> bool" where
  "is_model_output pl t = (\<exists>hdr. p_header pl = Some hdr \<and>
     listed (plan_model_output pl) (unat (hd_num_model_outputs hdr)) t)"

text \<open>An address in the part of the fast arena above \<open>floor_bytes\<close>.\<close>

definition in_free_fast :: "mem \<Rightarrow> u32 \<Rightarrow> nat \<Rightarrow> bool" where
  "in_free_fast m floor_bytes p =
     (fast_base m + unat floor_bytes \<le> p \<and> p < fast_base m + unat (fast_size m))"

text \<open>A pass over the pointers changes nothing but pointers into the free part, which become NULL, and
  with no input kept leaves no such pointer but those of kept outputs.\<close>

definition dropped :: "mem \<Rightarrow> u32 \<Rightarrow> mem \<Rightarrow> bool" where
  "dropped m f m' = (\<exists>ps. m' = m\<lparr>tensor_ptrs := ps\<rparr> \<and> length ps = length (tensor_ptrs m) \<and>
     (\<forall>t < length ps. ps ! t = tensor_ptrs m ! t \<or> ps ! t = 0 \<and> in_free_fast m f (tensor_ptrs m ! t)))"

lemma drop_free_fast_pointersD:
  assumes "drop_free_fast_pointers pl f False ko m = Some m'"
  shows "dropped m f m' \<and> (\<forall>t < unat (num_tensors m). t < length (tensor_ptrs m') \<and>
    (tensor_ptrs m' ! t \<noteq> 0 \<and> in_free_fast m f (tensor_ptrs m' ! t) \<longrightarrow>
      ko \<and> is_model_output pl (word_of_nat t)))"
proof -
  let ?I = "\<lambda>k m'. dropped m f m' \<and> (\<forall>t < k. t < length (tensor_ptrs m') \<and>
    (tensor_ptrs m' ! t \<noteq> 0 \<and> in_free_fast m f (tensor_ptrs m' ! t) \<longrightarrow> ko \<and> is_model_output pl (word_of_nat t)))"
  have "?I (0 + unat (num_tensors m)) m'"
  proof (rule loop_invariant [OF assms [unfolded drop_free_fast_pointers_def], where I = ?I])
    show "?I 0 m" by (auto simp: dropped_def intro!: exI [of _ "tensor_ptrs m"])
  next
    fix k s s'
    assume inv: "?I k s" and step: "drop_free_fast_pointer pl f False ko k s = Some s'"
    obtain ps where s: "s = m\<lparr>tensor_ptrs := ps\<rparr>" "length ps = length (tensor_ptrs m)"
      "\<forall>t < length ps. ps ! t = tensor_ptrs m ! t \<or> ps ! t = 0 \<and> in_free_fast m f (tensor_ptrs m ! t)"
      using inv by (auto simp: dropped_def)
    obtain hdr kept where hdr: "p_header pl = Some hdr" and k: "k < length ps"
      and kept: "(if ko then lists_tensor (plan_model_output pl) (unat (hd_num_model_outputs hdr)) (word_of_nat k)
                  else Some False) = Some kept"
      and "(if in_free_fast m f (ps ! k) \<and> \<not> kept
            then do { ps \<leftarrow> arr_set ps k 0; Some (m\<lparr>tensor_ptrs := ps\<rparr>) } else Some s) = Some s'"
      using step unfolding drop_free_fast_pointer_def s(1) in_free_fast_def
      by (auto simp: bind_eq_Some_conv cong: if_cong split del: if_split)
    then have s': "s' = (if in_free_fast m f (ps ! k) \<and> \<not> kept then m\<lparr>tensor_ptrs := ps[k := 0]\<rparr> else s)"
      by (auto simp: arr_set_def split: if_splits)
    have out: "kept \<Longrightarrow> ko \<and> is_model_output pl (word_of_nat k)"
      using kept lists_tensor_iff hdr by (auto simp: is_model_output_def split: if_splits)
    show "?I (Suc k) s'"
    proof (cases "in_free_fast m f (ps ! k) \<and> \<not> kept")
      case True
      have "\<forall>t < length (ps[k := 0]). ps[k := 0] ! t = tensor_ptrs m ! t \<or>
          ps[k := 0] ! t = 0 \<and> in_free_fast m f (tensor_ptrs m ! t)" (is "\<forall>t < _. ?kept t")
      proof (intro allI impI)
        fix t assume "t < length (ps[k := 0])"
        then show "?kept t" using s(3) [rule_format, of t] True k by (cases "t = k") auto
      qed
      then have "dropped m f s'"
        using s(1, 2) True unfolding dropped_def s' by (intro exI [of _ "ps[k := 0]"]) simp
      then show ?thesis using True inv s(1) k s' by (auto simp: less_Suc_eq nth_list_update)
    next
      case False
      then show ?thesis using inv s(1) k s' out by (auto simp: less_Suc_eq)
    qed
  qed
  then show ?thesis by simp
qed

text \<open>The floor is the caller's fill, or, where inputs are read in place, lies between the caller's
  reserve and its fill.\<close>

lemma floor_inputD:
  assumes "floor_input pl m i (ip, low, n) = Some (ip', low', n')"
    and "fast_reserved m \<le> low" and "low \<le> fast_used m"
  shows "fast_reserved m \<le> low' \<and> low' \<le> fast_used m \<and> (ip' \<longrightarrow> ip)"
proof (cases ip)
  case False
  then show ?thesis using assms by (auto simp: floor_input_def)
next
  case True
  obtain p sz where "placed_input pl m i = Some (p, sz)"
    and r: "ip' \<longrightarrow> fast_base m + unat (fast_reserved m) \<le> p \<and> p < fast_base m + unat (fast_used m)"
      "low' = (if ip' \<and> word_of_nat (p - fast_base m) < low then word_of_nat (p - fast_base m) else low)"
  proof -
    obtain p sz where pi: "placed_input pl m i = Some (p, sz)"
      using True assms(1) by (auto simp: floor_input_def bind_eq_Some_conv)
    let ?ok = "\<not> (p < fast_base m + unat (fast_reserved m) \<or> p \<ge> fast_base m + unat (fast_used m) \<or>
      sz > fast_used m - word_of_nat (p - fast_base m))"
    let ?f = "\<lambda>j in_place. if \<not> in_place then Some in_place
      else do { (q, other) \<leftarrow> placed_input pl m j; Some (\<not> (p < q + unat other \<and> q < p + unat sz)) }"
    have l: "loop 0 i ?f ?ok = Some ip'"
      and low: "low' = (if ip' \<and> word_of_nat (p - fast_base m) < low then word_of_nat (p - fast_base m) else low)"
      using True assms(1) pi by (auto simp: floor_input_def Let_def bind_eq_Some_conv split del: if_split)
    have "(\<lambda>_ b. b \<longrightarrow> ?ok) (0 + i) ip'"
      by (rule loop_invariant [OF l]) (auto simp: bind_eq_Some_conv split: if_splits)
    then show thesis using that pi low by auto
  qed
  then show ?thesis
    using True assms(2, 3) unat_of_nat_u32 [of "p - fast_base m"] unat_u32_less [of "fast_used m"]
    by (auto simp: word_le_nat_alt word_less_nat_alt split: if_splits)
qed

lemma fast_floorD:
  assumes "fast_floor pl m = Some (ip, fl, gap)" and "fast_reserved m \<le> fast_used m"
  shows "fast_reserved m \<le> fl \<and> fl \<le> fast_used m \<and> (ip \<longrightarrow> tigris_plan_io_in_fast (Some pl) = Some True) \<and>
    (\<not> ip \<longrightarrow> fl = fast_used m \<and> gap = 0)"
proof -
  obtain hdr reserve io where hdr: "p_header pl = Some hdr"
      "(if hd_num_model_inputs hdr > 0 then tigris_weight_decompression_overhead (Some pl) else Some 0) = Some reserve"
    and io: "tigris_plan_io_in_fast (Some pl) = Some io"
    using assms(1) by (auto simp: fast_floor_def bind_eq_Some_conv split del: if_split)
  then obtain ip1 low n
    where l: "loop 0 (unat (hd_num_model_inputs hdr)) (floor_input pl m) (io, fast_used m, 0) = Some (ip1, low, n)"
    using assms(1) by (cases "loop 0 (unat (hd_num_model_inputs hdr)) (floor_input pl m) (io, fast_used m, 0)")
      (auto simp: fast_floor_def)
  have l2: "loop 0 (unat (num_tensors m)) (\<lambda>t in_place. if \<not> in_place then Some in_place
       else do { p \<leftarrow> arr_get (tensor_ptrs m) t;
         Some (\<not> (p \<ge> fast_base m + unat low - unat reserve \<and> p < fast_base m + unat low)) })
       (ip1 \<and> \<not> (n \<noteq> fast_used m - low \<or> reserve > low - fast_reserved m)) = Some ip"
    and r: "fl = (if ip then low - reserve else fast_used m)" "gap = (if ip then reserve else 0)"
    using assms(1) unfolding fast_floor_def hdr io l Option.bind.bind_lunit Let_def prod.case
    by (auto simp: bind_eq_Some_conv hdr split del: if_split)
  have "(\<lambda>_ (ip, low, _). fast_reserved m \<le> low \<and> low \<le> fast_used m \<and> (ip \<longrightarrow> io))
      (0 + unat (hd_num_model_inputs hdr)) (ip1, low, n)"
    by (rule loop_invariant [OF l]) (use assms(2) floor_inputD in fastforce)+
  then have low: "fast_reserved m \<le> low" "low \<le> fast_used m" "ip1 \<longrightarrow> io" by auto
  have "(\<lambda>_ b. b \<longrightarrow> ip1 \<and> reserve \<le> low - fast_reserved m) (0 + unat (num_tensors m)) ip"
    by (rule loop_invariant [OF l2]) (auto simp: bind_eq_Some_conv split: if_splits)
  then have "ip \<longrightarrow> io \<and> fast_reserved m \<le> low - reserve \<and> low - reserve \<le> fast_used m"
    using low by (auto simp: word_le_nat_alt unat_sub) 
  then show ?thesis using io r low assms(2) by auto
qed

text \<open>A run that passes the checks: what its body starts from, and what becomes of its outcome.\<close>

lemma run_in_workspaceE:
  assumes "run_in_workspace paths pl hdr d frames m st state h = Some (Inr oc)"
  obtains ip fl gap m1 err m2 h2 st2
  where "fast_floor pl m = Some (ip, fl, gap)" "fast_reserved m \<le> fast_used m" "fast_used m \<le> fast_size m"
    "run_body pl paths d frames ip fl gap state (m1, h) = Some (err, m2, h2, st2)"
    "restore_fast_arena pl fl (fast_reserved m) ip err (m2, h2, st2) = Some oc"
proof -
  have bounds: "fast_reserved m \<le> fast_used m" "fast_used m \<le> fast_size m"
    using assms by (auto simp: run_in_workspace_def not_le not_less split: if_splits)
  obtain ip fl gap where fl: "fast_floor pl m = Some (ip, fl, gap)"
    using assms by (cases "fast_floor pl m") (auto simp: run_in_workspace_def split: if_splits)
  have "\<exists>m1 err m2 h2 st2. run_body pl paths d frames ip fl gap state (m1, h) = Some (err, m2, h2, st2) \<and>
      restore_fast_arena pl fl (fast_reserved m) ip err (m2, h2, st2) = Some oc"
    using assms
    by (auto simp: run_in_workspace_def fl Let_def bind_eq_Some_conv split: if_splits) blast+
  then show thesis using that bounds fl by blast
qed

lemma runE:
  assumes "tigris_run_with_state tg paths junk (Some pl) (Some m) has_kernel st storage n state h = Some (Inr oc)"
  obtains hdr d frames st' where "run_in_workspace paths pl hdr d frames m st' state h = Some (Inr oc)"
proof -
  obtain hdr where hdr: "p_header pl = Some hdr"
    using assms by (auto simp: tigris_run_with_state_def Let_def split: option.splits if_splits)
  obtain l where l: "workspace_limits (Some pl) = Some (Inr l)"
    using assms hdr
    by (cases "workspace_limits (Some pl)")
      (auto simp: tigris_run_with_state_def Let_def split: if_splits sum.splits option.splits)
  show thesis
    using assms
    by (auto simp: tigris_run_with_state_def Let_def hdr l intro: that
        split: option.splits if_splits bool.splits prod.splits)
qed

lemma restoreD:
  assumes "restore_fast_arena pl fl reserved ip err (m, h, st) = Some oc"
  obtains m' where "drop_free_fast_pointers pl fl False (ip \<and> err = None) (m\<lparr>stats := None\<rparr>) = Some m'"
    "oc_mem oc = m'\<lparr>fast_reserved := reserved, fast_used := fl\<rparr>" "oc_error oc = err" "oc_ram oc = h"
    "oc_state oc = st"
  using assms by (auto simp: restore_fast_arena_def tigris_mem_reset_fast_def bind_eq_Some_conv)

section \<open>What becomes of the variables\<close>

text \<open>An early return of a counted loop satisfies \<open>E\<close>, its end \<open>I n\<close>.\<close>

lemma for_range_both:
  assumes "for_range i n f s = Some r" and "I i s" and "i \<le> n"
    and "\<And>k s r. i \<le> k \<Longrightarrow> k < n \<Longrightarrow> I k s \<Longrightarrow> f k s = Some r \<Longrightarrow> case_sum E (I (Suc k)) r"
  shows "case_sum E (I n) r"
proof -
  show ?thesis
    using assms
  proof (induction i n f s rule: for_range.induct)
    case (1 i n f s)
    show ?case
    proof (cases "i < n")
      case True
      then obtain q where q: "f i s = Some q"
        using "1.prems"(1) by (cases "f i s") (auto simp: for_range_step)
      have here: "case_sum E (I (Suc i)) q"
        using "1.prems"(2, 4) q True by blast
      show ?thesis
      proof (cases q)
        case (Inl e)
        then show ?thesis using here q True "1.prems"(1) by (auto simp: for_range_step)
      next
        case (Inr s')
        then have "for_range (Suc i) n f s' = Some r" "I (Suc i) s'"
          using here q True "1.prems"(1) by (simp_all add: for_range_step)
        then show ?thesis
          using "1.IH" [OF True] "1.prems"(4) True by auto
      qed
    next
      case False
      then show ?thesis using "1.prems" by auto
    qed
  qed
qed

text \<open>Variable \<open>i\<close> occupies \<open>var_range\<close> of the state buffer.\<close>

definition var_range :: "state_entry \<Rightarrow> nat set" where
  "var_range e = {unat (st_offset e) ..< unat (st_offset e) + unat (st_bytes e)}"

definition variables_apart :: "tigris_plan \<Rightarrow> bool" where
  "variables_apart pl = (\<forall>i < unat (p_num_state pl). \<forall>j < i. \<forall>e d.
     plan_state_entry pl i = Some e \<and> plan_state_entry pl j = Some d \<longrightarrow> var_range e \<inter> var_range d = {})"

text \<open>The bytes a run assigns: those of the first \<open>n\<close> variables that have an output.\<close>

definition assigned :: "tigris_plan \<Rightarrow> nat \<Rightarrow> nat set" where
  "assigned pl n = \<Union> {var_range e | e i. i < n \<and> plan_state_entry pl i = Some e \<and> st_output e \<noteq> NONE_U16}"

lemma assigned_Suc: "assigned pl (Suc n) = assigned pl n \<union>
  (case plan_state_entry pl n of None \<Rightarrow> {} | Some e \<Rightarrow> if st_output e = NONE_U16 then {} else var_range e)"
  by (auto simp: assigned_def less_Suc_eq split: option.splits)

lemma assigned_mono: "m \<le> n \<Longrightarrow> assigned pl m \<subseteq> assigned pl n"
  by (auto simp: assigned_def intro: less_le_trans)

text \<open>Its bytes are those at \<open>p\<close>.\<close>

definition var_is :: "ram \<Rightarrow> bytes \<Rightarrow> state_entry \<Rightarrow> nat \<Rightarrow> bool" where
  "var_is h s e p = (var_range e \<subseteq> {..<length s} \<and> (\<forall>k \<in> var_range e. s ! k = h (p + (k - unat (st_offset e)))))"

lemma store_variableD:
  assumes "store_variable pl h i (m, s) = Some r"
  obtains e where "plan_state_entry pl i = Some e"
    and "r = Inl (m, s) \<or> (\<exists>m' s'. r = Inr (m', s') \<and> tensor_ptrs m' = tensor_ptrs m \<and> length s' = length s \<and>
      (st_output e = NONE_U16 \<and> s' = s \<or>
       st_output e \<noteq> NONE_U16 \<and> unat (st_output e) < length (tensor_ptrs m) \<and> tensor_ptrs m ! unat (st_output e) \<noteq> 0 \<and>
       var_range e \<subseteq> {..<length s} \<and> (\<forall>k < length s. s' ! k = (if k \<in> var_range e
         then h (tensor_ptrs m ! unat (st_output e) + (k - unat (st_offset e))) else s ! k))))"
proof -
  obtain e where e: "plan_state_entry pl i = Some e"
    using assms by (auto simp: store_variable_def bind_eq_Some_conv)
  have "r = Inl (m, s) \<or> (\<exists>m' s'. r = Inr (m', s') \<and> tensor_ptrs m' = tensor_ptrs m \<and> length s' = length s \<and>
      (st_output e = NONE_U16 \<and> s' = s \<or>
       st_output e \<noteq> NONE_U16 \<and> unat (st_output e) < length (tensor_ptrs m) \<and> tensor_ptrs m ! unat (st_output e) \<noteq> 0 \<and>
       var_range e \<subseteq> {..<length s} \<and> (\<forall>k < length s. s' ! k = (if k \<in> var_range e
         then h (tensor_ptrs m ! unat (st_output e) + (k - unat (st_offset e))) else s ! k))))"
    using assms e
    by (auto simp: store_variable_def bind_eq_Some_conv copy_into_Some ram_read_def var_range_def count_copy_def
        nth_blit split: if_splits)
  then show thesis using that e by blast
qed

text \<open>The loop of the stores, with the pointers and the memory the stages leave.\<close>

lemma store_variables:
  assumes "for_range 0 n (store_variable pl h) (m, s) = Some r" and "variables_apart pl" and n: "n = unat (p_num_state pl)"
  shows "case_sum (\<lambda>(_, s'). length s' = length s \<and> (\<forall>k < length s. k \<notin> assigned pl n \<longrightarrow> s' ! k = s ! k))
    (\<lambda>(m', s'). tensor_ptrs m' = tensor_ptrs m \<and> length s' = length s \<and>
      (\<forall>k < length s. k \<notin> assigned pl n \<longrightarrow> s' ! k = s ! k) \<and>
      (\<forall>i < n. \<forall>e. plan_state_entry pl i = Some e \<and> st_output e \<noteq> NONE_U16 \<longrightarrow>
        unat (st_output e) < length (tensor_ptrs m) \<and> tensor_ptrs m ! unat (st_output e) \<noteq> 0 \<and>
        var_is h s' e (tensor_ptrs m ! unat (st_output e)))) r"
  (is "case_sum ?E (?I n) r")
proof (rule for_range_both [OF assms(1), where I = ?I])
  fix k x q assume k: "k < n" and inv: "?I k x" and q: "store_variable pl h k x = Some q"
  obtain m1 s1 where x: "x = (m1, s1)" by (cases x)
  from q obtain e where e: "plan_state_entry pl k = Some e"
    and cases: "q = Inl (m1, s1) \<or> (\<exists>m' s'. q = Inr (m', s') \<and> tensor_ptrs m' = tensor_ptrs m1 \<and> length s' = length s1 \<and>
      (st_output e = NONE_U16 \<and> s' = s1 \<or>
       st_output e \<noteq> NONE_U16 \<and> unat (st_output e) < length (tensor_ptrs m1) \<and> tensor_ptrs m1 ! unat (st_output e) \<noteq> 0 \<and>
       var_range e \<subseteq> {..<length s1} \<and> (\<forall>k < length s1. s' ! k = (if k \<in> var_range e
         then h (tensor_ptrs m1 ! unat (st_output e) + (k - unat (st_offset e))) else s1 ! k))))"
    unfolding x by (rule store_variableD)
  have apart: "var_range e \<inter> var_range d = {}" if "plan_state_entry pl j = Some d" "j < k" for j d
    using assms(2) k e that n by (auto simp: variables_apart_def)
  show "case_sum ?E (?I (Suc k)) q"
    using cases
  proof (elim disjE exE conjE)
    assume "q = Inl (m1, s1)"
    then show ?thesis using inv x assigned_mono [of k n pl] k by auto
  next
    fix m' s' assume "q = Inr (m', s')" "tensor_ptrs m' = tensor_ptrs m1" "length s' = length s1"
      "st_output e = NONE_U16" "s' = s1"
    then show ?thesis using inv x e by (auto simp: assigned_Suc less_Suc_eq)
  next
    fix m' s' assume q: "q = Inr (m', s')" "tensor_ptrs m' = tensor_ptrs m1" "length s' = length s1"
      and o: "st_output e \<noteq> NONE_U16" "unat (st_output e) < length (tensor_ptrs m1)" "tensor_ptrs m1 ! unat (st_output e) \<noteq> 0"
      and r: "var_range e \<subseteq> {..<length s1}"
      and s': "\<forall>k < length s1. s' ! k = (if k \<in> var_range e
         then h (tensor_ptrs m1 ! unat (st_output e) + (k - unat (st_offset e))) else s1 ! k)"
    have "var_is h s' e (tensor_ptrs m ! unat (st_output e))"
      using r s' inv x q by (auto simp: var_is_def)
    moreover have "var_is h s' d (tensor_ptrs m ! unat (st_output d))"
      if d: "j < k" "plan_state_entry pl j = Some d" "st_output d \<noteq> NONE_U16" for j d
    proof -
      have v: "var_is h s1 d (tensor_ptrs m ! unat (st_output d))" using inv x d by auto
      have "b \<notin> var_range e" if "b \<in> var_range d" for b using apart [OF d(2, 1)] that by auto
      then show ?thesis using v s' q(3) by (auto simp: var_is_def subset_iff)
    qed
    ultimately show ?thesis
      using inv x e q o s' by (auto simp: assigned_Suc less_Suc_eq)
  qed
qed (auto simp: assigned_def)

lemma run_stages_and_storeD:
  assumes "run_stages_and_store pl env frames c s = Some (err, m2, h2, s2)"
  obtains "err \<noteq> None" "s2 = s"
  | m r where "for_range 0 (unat (p_num_state pl)) (store_variable pl h2) (m, s) = Some r"
      "case r of Inl (m', s') \<Rightarrow> err = Some EXEC_ERR_MEM \<and> s2 = s' | Inr (m', s') \<Rightarrow> err = None \<and> m2 = m' \<and> s2 = s'"
proof -
  obtain q where q: "run_all_stages env frames c = Some q"
    using assms by (auto simp: run_stages_and_store_def bind_eq_Some_conv)
  show thesis
  proof (cases q)
    case (Inl e)
    then show ?thesis using assms q that(1) by (auto simp: run_stages_and_store_def split: prod.splits)
  next
    case (Inr x)
    obtain flow m h where x: "x = (flow, m, h)" by (metis prod.exhaust)
    then obtain r where r: "for_range 0 (unat (p_num_state pl)) (store_variable pl h) (m, s) = Some r"
      using assms q Inr by (auto simp: run_stages_and_store_def bind_eq_Some_conv)
    then show ?thesis
      using assms q Inr x that(2) [of m r] by (cases r) (auto simp: run_stages_and_store_def)
  qed
qed

lemma run_bodyD:
  assumes "run_body pl paths d frames ip fl gap (Some s) c = Some (err, m2, h2, s2)"
  obtains "err \<noteq> None" "s2 = s"
  | env c where "run_stages_and_store pl env frames c s = Some (err, m2, h2, s2)"
proof -
  obtain m0 h0 where c: "c = (m0, h0)" by (cases c)
  obtain lc where lc: "last_consumers pl = Some lc"
    using assms by (auto simp: run_body_def c bind_eq_Some_conv)
  show thesis
  proof (cases "p_num_state pl > 0 \<and> length s < unat (p_state_bytes pl)")
    case True
    then show ?thesis using assms lc that(1) by (auto simp: run_body_def c)
  next
    case False
    then obtain r where r: "for_range 0 (unat (p_num_state pl)) (load_variable pl s) (lc, m0, h0) = Some r"
      using assms lc by (auto simp: run_body_def c bind_eq_Some_conv)
    with False show ?thesis
      using assms lc that by (cases r) (auto simp: run_body_def c)
  qed
qed

text \<open>Tensor \<open>t\<close> is at \<open>p\<close> when the stages end: its pointer still says so, unless \<open>p\<close> is in the part of
  the fast arena that the run has freed.\<close>

definition was_at :: "mem \<Rightarrow> u16 \<Rightarrow> nat \<Rightarrow> bool" where
  "was_at m t p = (p \<noteq> 0 \<and> (tensor_ptrs m ! unat t = p \<or>
     tensor_ptrs m ! unat t = 0 \<and> in_free_fast m (fast_used m) p))"

text \<open>The loader's checks of the state section keep the variables apart.\<close>

lemma check_state_entryD:
  assumes "check_state_entry pl off e i = Some (Inr ())" and "plan_state_entry pl i = Some x"
  shows "unat (st_offset x) + unat (st_bytes x) \<le> unat (p_state_bytes pl) \<and>
    (\<forall>j < i. \<forall>y. plan_state_entry pl j = Some y \<longrightarrow>
      \<not> (st_offset x < st_offset y + st_bytes y \<and> st_offset y < st_offset x + st_bytes x))"
proof -
  have "\<not> st_offset x > p_state_bytes pl" "\<not> st_bytes x > p_state_bytes pl - st_offset x"
    and loop: "for_check i (check_state_overlap pl x) = Some (Inr ())"
    using assms by (auto simp: check_state_entry_def split: if_splits)
  then have "unat (st_offset x) + unat (st_bytes x) \<le> unat (p_state_bytes pl)"
    by (auto simp: word_le_nat_alt not_less unat_sub)
  then show ?thesis
    using for_check_all [OF loop] by (fastforce simp: check_state_overlap_def split: if_splits)
qed

lemma locate_state_apart:
  assumes "locate_state ls = Some (Inr ls')" and "ls_section_offsets ls ! SEC_STATE \<noteq> 0"
  shows "variables_apart (ls_candidate ls')"
proof -
  obtain off e n where n: "n = unat (p_num_state (ls_candidate ls'))"
    and loop: "for_check n (check_state_entry (ls_candidate ls') off e) = Some (Inr ())"
    using assms by (auto simp: locate_state_def Let_def bind_eq_Some_conv andthen_Inr split: if_splits)
  let ?pl = "ls_candidate ls'"
  have check: "unat (st_offset x) + unat (st_bytes x) \<le> unat (p_state_bytes ?pl) \<and>
    (\<forall>j < i. \<forall>y. plan_state_entry ?pl j = Some y \<longrightarrow>
      \<not> (st_offset x < st_offset y + st_bytes y \<and> st_offset y < st_offset x + st_bytes x))"
    if "i < n" "plan_state_entry ?pl i = Some x" for i x
    using check_state_entryD for_check_all [OF loop that(1)] that(2) by (metis (full_types))
  have fits: "unat (st_offset x + st_bytes x) = unat (st_offset x) + unat (st_bytes x)"
    if "i < n" "plan_state_entry ?pl i = Some x" for i x
    using check [OF that] unat_u32_less [of "p_state_bytes ?pl"] by (intro unat_add_u32) linarith
  show ?thesis
    unfolding variables_apart_def n [symmetric]
  proof (intro allI impI, elim conjE)
    fix i j x y assume i: "i < n" "j < i" and x: "plan_state_entry ?pl i = Some x" and y: "plan_state_entry ?pl j = Some y"
    show "var_range x \<inter> var_range y = {}"
      using check [OF i(1) x] fits [OF i(1) x] fits [OF _ y] i y
      by (fastforce simp: var_range_def word_less_nat_alt)
  qed
qed

section \<open>Properties\<close>

text \<open>C12. A run hands the fast arena back. Whatever the stages do to memory, and whatever the outcome
  of a run that passes the checks, \<open>tigris_run_with_state\<close> leaves the manager without a pointer to
  the statistics, with the reserve the caller had, and filled to the run's floor: the caller's own
  fill or, only where model inputs are read in place, a point between the caller's reserve and it.
  No tensor pointer is left into the part above, except those of model outputs of a plan that
  leaves them there, after success.\<close>

theorem run_restores_arena:
  assumes "tigris_run_with_state tg paths junk (Some pl) (Some m) has_kernel st storage n state h = Some (Inr oc)"
  shows "stats (oc_mem oc) = None \<and> fast_reserved (oc_mem oc) = fast_reserved m \<and>
    fast_reserved m \<le> fast_used (oc_mem oc) \<and> fast_used (oc_mem oc) \<le> fast_used m \<and>
    (fast_used (oc_mem oc) = fast_used m \<or> tigris_plan_io_in_fast (Some pl) = Some True) \<and>
    (\<forall>t < unat (num_tensors (oc_mem oc)). tensor_ptrs (oc_mem oc) ! t \<noteq> 0 \<and>
       in_free_fast (oc_mem oc) (fast_used (oc_mem oc)) (tensor_ptrs (oc_mem oc) ! t) \<longrightarrow>
       oc_error oc = None \<and> tigris_plan_io_in_fast (Some pl) = Some True \<and> is_model_output pl (word_of_nat t))"
proof -
  obtain hdr d frames st' where "run_in_workspace paths pl hdr d frames m st' state h = Some (Inr oc)"
    using assms by (rule runE)
  then obtain ip fl gap m1 err m2 h2 st2 where fl: "fast_floor pl m = Some (ip, fl, gap)" "fast_reserved m \<le> fast_used m"
    and restore: "restore_fast_arena pl fl (fast_reserved m) ip err (m2, h2, st2) = Some oc"
    by (rule run_in_workspaceE)
  from restore obtain m' where m': "drop_free_fast_pointers pl fl False (ip \<and> err = None) (m2\<lparr>stats := None\<rparr>) = Some m'"
    and oc: "oc_mem oc = m'\<lparr>fast_reserved := fast_reserved m, fast_used := fl\<rparr>" "oc_error oc = err"
    by (rule restoreD)
  obtain ps where ps: "m' = m2\<lparr>stats := None, tensor_ptrs := ps\<rparr>"
    using drop_free_fast_pointersD [OF m'] by (auto simp: dropped_def)
  show ?thesis
    using fast_floorD [OF fl] drop_free_fast_pointersD [OF m'] by (auto simp: oc ps in_free_fast_def)
qed

text \<open>C4. The state buffer changes only in the variables a plan assigns, and a successful run assigns
  them all. When the variables of a plan lie apart, after any run that passes the checks the buffer
  has its length and every byte outside the assigned variables is what it was; after success each
  assigned variable holds the bytes of its output tensor; and an error other than a missing output
  or exhausted memory leaves the buffer as it was.\<close>

theorem run_updates_variables:
  assumes "tigris_run_with_state tg paths junk (Some pl) (Some m) has_kernel st storage n (Some s) h = Some (Inr oc)"
    and "variables_apart pl"
  shows "length (oc_state oc) = length s \<and>
    (\<forall>k < length s. k \<notin> assigned pl (unat (p_num_state pl)) \<longrightarrow> oc_state oc ! k = s ! k) \<and>
    (oc_error oc = None \<longrightarrow> (\<forall>i < unat (p_num_state pl). \<forall>e.
       plan_state_entry pl i = Some e \<and> st_output e \<noteq> NONE_U16 \<longrightarrow>
       (\<exists>p. was_at (oc_mem oc) (st_output e) p \<and> var_is (oc_ram oc) (oc_state oc) e p))) \<and>
    (oc_error oc \<notin> {None, Some EXEC_ERR_MEM} \<longrightarrow> oc_state oc = s)"
proof -
  obtain hdr d frames st' where "run_in_workspace paths pl hdr d frames m st' (Some s) h = Some (Inr oc)"
    using assms(1) by (rule runE)
  then obtain ip fl gap m1 err m2 h2 st2
    where body: "run_body pl paths d frames ip fl gap (Some s) (m1, h) = Some (err, m2, h2, st2)"
    and restore: "restore_fast_arena pl fl (fast_reserved m) ip err (m2, h2, st2) = Some oc"
    by (rule run_in_workspaceE)
  from restore obtain m' where m': "drop_free_fast_pointers pl fl False (ip \<and> err = None) (m2\<lparr>stats := None\<rparr>) = Some m'"
    and oc: "oc_mem oc = m'\<lparr>fast_reserved := fast_reserved m, fast_used := fl\<rparr>" "oc_error oc = err"
      "oc_ram oc = h2" "oc_state oc = st2"
    by (rule restoreD)
  obtain ps where ps: "m' = m2\<lparr>stats := None, tensor_ptrs := ps\<rparr>" "length ps = length (tensor_ptrs m2)"
    "\<And>t. t < length ps \<Longrightarrow> ps ! t = tensor_ptrs m2 ! t \<or>
       ps ! t = 0 \<and> in_free_fast m2 fl (tensor_ptrs m2 ! t)"
    using drop_free_fast_pointersD [OF m'] by (auto simp: dropped_def in_free_fast_def)
  have at: "was_at (oc_mem oc) t (tensor_ptrs m2 ! unat t)"
    if "unat t < length (tensor_ptrs m2)" "tensor_ptrs m2 ! unat t \<noteq> 0" for t
    using ps(3) [of "unat t"] that ps(1, 2) by (auto simp: was_at_def oc in_free_fast_def)
  from body show ?thesis
  proof (cases rule: run_bodyD)
    case 1
    then show ?thesis by (auto simp: oc)
  next
    case (2 env c)
    from 2(1) show ?thesis
    proof (cases rule: run_stages_and_storeD)
      case 1
      then show ?thesis by (auto simp: oc)
    next
      case (2 m0 r)
      then show ?thesis
        using store_variables [OF 2(1) assms(2) refl] at by (cases r) (auto simp: oc, blast)
    qed
  qed
qed

section \<open>A counter\<close>

text \<open>One stage that adds one to a variable of four bytes, in place, and leaves the byte after it.\<close>

definition count_stage_record :: tigris_stage where
  "count_stage_record = (member_stage NONE_U16 0)\<lparr> sg_chain_len := 0 \<rparr>"

definition count_entry :: state_entry where
  "count_entry = \<lparr> st_input = 0, st_output = 0, st_offset = 0, st_bytes = 4, st_initial = 0 \<rparr>"

definition count_header :: file_header where
  "count_header = demo_header\<lparr> hd_version := 12, hd_num_stages := 1, hd_num_tensors := 1, hd_num_ops := 0,
     hd_num_model_inputs := 0, hd_num_model_outputs := 0 \<rparr>"

definition count_plan :: tigris_plan where
  "count_plan = (empty_plan (wr_tigris_stage count_stage_record @ wr_tigris_tensor (demo_tensor_of 4) @
       wr_state_entry count_entry))
     \<lparr> p_header := Some count_header, p_stages := Some 0, p_ops := Some 0, p_index_pool := Some 0,
       p_tensors := Some 28, p_state_entries := Some 44, p_num_state := 1, p_state_bytes := 4 \<rparr>"

definition count_mem :: mem where
  "count_mem = \<lparr> tensor_ptrs = [0], num_tensors = 1, fast_base = 4096, fast_size = 64,
     fast_used = 32, fast_reserved = 32, fast_peak = 32, slow_base = 8192, slow_size = 64,
     slow_used = 0, slow_peak = 0, stats = None, tile = tile_ctx_zero \<rparr>"

definition count_paths :: paths where
  "count_paths = (\<lambda>_ _ _. (\<lambda>_ _ c. fail (EXEC_ERR_TILE, c), \<lambda>_ (m, h).
     let p = tensor_ptrs m ! 0 in ret (False, m, ram_store h p [h p + 1])))"

definition count_limits :: workspace_limits_t where
  "count_limits = \<lparr> wl_tensors = 1, wl_inputs = 0, wl_outputs = 0, wl_chain_stages = 0,
     wl_chain_spatial_ops = 0, wl_subgraph_depth = 0 \<rparr>"

lemma count_reads:
  "plan_stage count_plan 0 = Some count_stage_record" "plan_tensor count_plan 0 = Some (demo_tensor_of 4)"
  "plan_state_entry count_plan 0 = Some count_entry"
proof -
  let ?s = "wr_tigris_stage count_stage_record" and ?t = "wr_tigris_tensor (demo_tensor_of 4)"
    and ?e = "wr_state_entry count_entry"
  have l: "length ?s = 28" "length ?t = 16"
    using tigris_stage_table.length_wr_record [of count_stage_record]
      tigris_tensor_table.length_wr_record [of "demo_tensor_of 4"]
    by (simp_all add: count_stage_record_def member_stage_def demo_tensor_of_def)
  note defs = count_plan_def empty_plan_def
  show "plan_stage count_plan 0 = Some count_stage_record"
    using tigris_stage_table.rd_wr_record [where r = count_stage_record and xs = "[]" and ys = "?t @ ?e"]
    by (simp add: plan_stage_def defs)
  show "plan_tensor count_plan 0 = Some (demo_tensor_of 4)"
    using tigris_tensor_table.rd_wr_record [where r = "demo_tensor_of 4" and xs = ?s and ys = ?e] l
    by (simp add: plan_tensor_def defs)
  show "plan_state_entry count_plan 0 = Some count_entry"
    using state_entry_table.rd_wr_record [where r = count_entry and xs = "?s @ ?t" and ys = "[]"] l
    by (simp add: plan_state_entry_def defs)
qed

lemma count_parts:
  "p_header count_plan = Some count_header" "p_stages count_plan = Some 0" "p_ops count_plan = Some 0"
  "p_index_pool count_plan = Some 0" "p_num_state count_plan = 1" "p_state_bytes count_plan = 4"
  "p_num_subgraphs count_plan = 0" "p_subgraph_depth count_plan = 0" "p_weight_blocks count_plan = None"
  "p_scheduled_peak count_plan = 0"
  "hd_version count_header = 12" "hd_num_stages count_header = 1" "hd_num_tensors count_header = 1"
  "hd_num_model_inputs count_header = 0" "hd_num_model_outputs count_header = 0"
  by (simp_all add: count_plan_def count_header_def empty_plan_def)

lemma count_stage_parts:
  "sg_inputs_count count_stage_record = 0" "sg_outputs_count count_stage_record = 0"
  "sg_ops_count count_stage_record = 0" "sg_chain_len count_stage_record = 0"
  by (simp_all add: count_stage_record_def member_stage_def)

lemma count_limits_ok: "workspace_limits (Some count_plan) = Some (Inr count_limits)"
  by (simp add: workspace_limits_def count_parts for_range_step limits_of_stage_def count_reads count_stage_parts
      count_limits_def word_cmp)

lemma count_layout:
  obtains ws where "workspace_layout host64 (0x10001 :: u64) 64 count_limits = Some (True, ws)"
    "ws_depth_capacity ws = 0"
  using layout_fits [OF host64_ok, of "0x10001 :: u64" 64 count_limits]
  by (auto simp: workspace_formula_def host64_def count_limits_def)

lemma count_floor: "fast_floor count_plan count_mem = Some (False, 32, 0)"
  by (simp add: fast_floor_def count_parts tigris_plan_io_in_fast_def count_mem_def)

lemma count_required: "tigris_fast_arena_required (Some count_plan) = Some 0"
  by (simp add: tigris_fast_arena_required_def tigris_weight_decompression_overhead_def count_parts
      schema_versions saturating_add_u32_def)

lemma count_consumers: "last_consumers count_plan = Some [0]"
  by (simp add: last_consumers_def count_parts note_consumer_def count_reads count_stage_parts)

text \<open>The variable enters at address 8192.\<close>

definition count_start :: mem where
  "count_start = count_mem\<lparr> fast_peak := 32, slow_peak := 32, tensor_ptrs := [8192], slow_used := 32 \<rparr>"

lemma count_load:
  "load_variable count_plan [6, 0, 0, 0, 9] 0 ([0], count_mem, h) =
     Some (Inr ([NONE_U16], count_start, ram_store h 8192 [6, 0, 0, 0]))"
  by (simp add: load_variable_def count_reads count_entry_def tigris_mem_alloc_slow_def alloc_bump_def
      count_mem_def count_start_def align_up_u32_def TENSOR_ALIGN_def word_cmp arr_set_def arr_get_def
      pool_simps pool_bump_def count_copy_def)

lemma count_run_stages:
  assumes "env = \<lparr> re_plan = count_plan, re_last_consumer = [NONE_U16], re_floor = 32, re_depth_capacity = 0,
     re_chain = fst (count_paths ip gap lc), re_stage = snd (count_paths ip gap lc) \<rparr>"
  shows "\<exists>flow. run_all_stages env (map junk [0..<4]) (count_start, h) =
    Some (Inr (flow, count_start, ram_store h 8192 [h 8192 + 1]))"
proof -
  have frames: "map junk [0..<4] = [junk 0, junk 1, junk 2, junk 3]" by (simp add: numeral_eq_Suc)
  have flow: "start_flow count_plan (map junk [0..<4]) = Some [0, 0, 1, junk 3]"
    unfolding frames by (simp add: start_flow_def count_parts arr_set_def numeral_eq_Suc)
  show ?thesis
    unfolding run_all_stages_def
    by (simp add: assms flow run_stages.simps [of _ "(0, _)"] run_stages.simps [of _ "(1, _)"] run_round_def
        stage_control_def count_reads count_parts run_stage_def count_stage_parts count_paths_def after_stage_def
        free_dead_tensors_def free_dead_tensor_def count_stage_def count_start_def count_mem_def Let_def
        tigris_mem_reset_fast_def arr_get_def)
qed

lemma count_body:
  "run_body count_plan count_paths 0 (map junk [0..<4]) False 32 0 (Some [6, 0, 0, 0, 9]) (count_mem, h) =
     Some (None, count_start, ram_store (ram_store h 8192 [6, 0, 0, 0]) 8192 [7], [7, 0, 0, 0, 9])"
proof -
  let ?h = "ram_store (ram_store h 8192 [6, 0, 0, 0]) 8192 [7]"
  have load: "for_range 0 1 (load_variable count_plan [6, 0, 0, 0, 9]) ([0], count_mem, h) =
      Some (Inr ([NONE_U16], count_start, ram_store h 8192 [6, 0, 0, 0]))"
    by (simp add: for_range_step count_load)
  have "ram_store h 8192 [6, 0, 0, 0] 8192 = (6 :: u8)" by (simp add: ram_store_def)
  then obtain flow where stages: "run_all_stages \<lparr> re_plan = count_plan, re_last_consumer = [NONE_U16],
      re_floor = 32, re_depth_capacity = 0, re_chain = fst (count_paths False 0 [NONE_U16]),
      re_stage = snd (count_paths False 0 [NONE_U16]) \<rparr> (map junk [0..<4])
      (count_start, ram_store h 8192 [6, 0, 0, 0]) = Some (Inr (flow, count_start, ?h))"
    using count_run_stages [OF refl, where h = "ram_store h 8192 [6, 0, 0, 0]"] by fastforce
  have "ram_read ?h 8192 4 = [7, 0, 0, 0]" by (simp add: ram_read_def ram_store_def upt_conv_Cons)
  then have store: "for_range 0 1 (store_variable count_plan ?h) (count_start, [6, 0, 0, 0, 9]) =
      Some (Inr (count_start, [7, 0, 0, 0, 9]))"
    by (simp add: for_range_step store_variable_def count_reads count_entry_def count_start_def count_mem_def
        arr_get_def copy_into_def blit_def count_copy_def)
  show ?thesis
    using load stages store
    by (simp add: run_body_def count_consumers count_parts run_stages_and_store_def)
qed

lemma count_run:
  "\<exists>oc. tigris_run_with_state host64 count_paths junk (Some count_plan) (Some count_mem) True None
     (0x10001 :: u64) 64 (Some [6, 0, 0, 0, 9]) h = Some (Inr oc) \<and> oc_error oc = None \<and>
     oc_state oc = [7, 0, 0, 0, 9]"
proof -
  obtain ws where ws: "workspace_layout host64 (0x10001 :: u64) 64 count_limits = Some (True, ws)"
    "ws_depth_capacity ws = 0" by (rule count_layout)
  have start: "drop_free_fast_pointers count_plan 32 False False count_mem = Some count_mem"
    by (simp add: drop_free_fast_pointers_def drop_free_fast_pointer_def count_parts count_mem_def arr_get_def)
  have m: "count_mem\<lparr>fast_reserved := 32, stats := None, fast_peak := 32,
      slow_peak := slow_used count_mem\<rparr> = count_mem" by (simp add: count_mem_def)
  have drop: "drop_free_fast_pointers count_plan 32 False False (count_start\<lparr>stats := None\<rparr>) = Some count_start"
    by (simp add: drop_free_fast_pointers_def drop_free_fast_pointer_def count_parts count_start_def count_mem_def
        arr_get_def)
  have sizes: "fast_used count_mem = 32" "fast_size count_mem = 64" "fast_reserved count_mem = 32"
    by (simp_all add: count_mem_def)
  have "\<exists>oc. run_in_workspace count_paths count_plan count_header 0 (map junk [0..<4]) count_mem None
      (Some [6, 0, 0, 0, 9]) h = Some (Inr oc) \<and> oc_error oc = None \<and> oc_state oc = [7, 0, 0, 0, 9]"
    unfolding run_in_workspace_def
    by (simp add: sizes count_floor count_required count_parts start Let_def m count_body restore_fast_arena_def drop)
  then show ?thesis
    by (simp add: tigris_run_with_state_def Let_def count_parts count_limits_ok ws)
qed

lemma count_apart: "variables_apart count_plan"
  by (auto simp: variables_apart_def count_parts)

lemma run_restores_arena_witness:
  "\<exists>oc. tigris_run_with_state host64 count_paths (\<lambda>_. 0) (Some count_plan) (Some count_mem) True None
     (0x10001 :: u64) 64 (Some [6, 0, 0, 0, 9]) demo_ram = Some (Inr oc) \<and> fast_used (oc_mem oc) = 32"
proof -
  obtain oc where run: "tigris_run_with_state host64 count_paths (\<lambda>_. 0) (Some count_plan) (Some count_mem) True None
     (0x10001 :: u64) 64 (Some [6, 0, 0, 0, 9]) demo_ram = Some (Inr oc)" using count_run by blast
  have "tigris_plan_io_in_fast (Some count_plan) \<noteq> Some True"
    by (simp add: tigris_plan_io_in_fast_def count_parts)
  then show ?thesis using run_restores_arena [OF run] run by (auto simp: count_mem_def)
qed

lemma run_updates_variables_witness:
  "\<exists>oc p. tigris_run_with_state host64 count_paths (\<lambda>_. 0) (Some count_plan) (Some count_mem) True None
     (0x10001 :: u64) 64 (Some [6, 0, 0, 0, 9]) demo_ram = Some (Inr oc) \<and> oc_state oc = [7, 0, 0, 0, 9] \<and>
     was_at (oc_mem oc) 0 p \<and> var_is (oc_ram oc) [7, 0, 0, 0, 9] count_entry p"
proof -
  obtain oc where run: "tigris_run_with_state host64 count_paths (\<lambda>_. 0) (Some count_plan) (Some count_mem) True None
     (0x10001 :: u64) 64 (Some [6, 0, 0, 0, 9]) demo_ram = Some (Inr oc)" and oc: "oc_error oc = None"
     "oc_state oc = [7, 0, 0, 0, 9]" using count_run by blast
  have "st_output count_entry \<noteq> NONE_U16" "st_output count_entry = 0" by (simp_all add: count_entry_def)
  then show ?thesis
    using run_updates_variables [OF run count_apart] oc run count_reads(3) by (auto simp: count_parts)
qed

end
