(* ===== verification/Transpose_Groups.thy ===== *)
theory Transpose_Groups
  imports Plan_Format
begin

text \<open>
  The permutations a banded transpose can execute (\<open>src/tigris_transpose_band.h\<close>) and the matrix
  such a transpose amounts to (\<open>tigris_transpose_extents\<close> of \<open>src/tigris_band.c\<close>).

  What is shown: \<open>transpose_band_groups\<close> accepts a permutation exactly when it swaps two adjacent
  nonempty groups of axes and leaves the others in place, and returns those groups; and permuting
  the axes of a tensor by such a permutation is, in memory, transposing a batch of matrices.
\<close>

section \<open>The groups of a permutation\<close>

text \<open>The axes from \<open>p\<close> on that stay in place: where the loop over the prefix stops, at most \<open>n\<close>
  axes on. \<open>fixed_suffix\<close> counts those at the end.\<close>

fun fixed_prefix :: "bytes \<Rightarrow> nat \<Rightarrow> nat \<Rightarrow> nat option" where
  "fixed_prefix perm p 0 = Some p"
| "fixed_prefix perm p (Suc n) = do {
     x \<leftarrow> arr_get perm p;
     if unat x = p then fixed_prefix perm (Suc p) n else Some p }"

fun fixed_suffix :: "bytes \<Rightarrow> nat \<Rightarrow> nat \<Rightarrow> nat \<Rightarrow> nat option" where
  "fixed_suffix perm rank s 0 = Some s"
| "fixed_suffix perm rank s (Suc n) = do {
     x \<leftarrow> arr_get perm (rank - 1 - s);
     if unat x = rank - 1 - s then fixed_suffix perm rank (Suc s) n else Some s }"

text \<open>The final check of the middle: \<open>want\<close> is the axis at position \<open>i\<close> of it.\<close>

definition middle_axis :: "nat \<Rightarrow> nat \<Rightarrow> nat \<Rightarrow> nat \<Rightarrow> nat" where
  "middle_axis prefix split_at middle i =
     (if i < middle - split_at then prefix + split_at + i else prefix + i - (middle - split_at))"

fun middle_swapped :: "bytes \<Rightarrow> nat \<Rightarrow> nat \<Rightarrow> nat \<Rightarrow> nat \<Rightarrow> nat \<Rightarrow> bool option" where
  "middle_swapped perm prefix split_at middle i 0 = Some True"
| "middle_swapped perm prefix split_at middle i (Suc n) = do {
     x \<leftarrow> arr_get perm (prefix + i);
     if unat x \<noteq> middle_axis prefix split_at middle i then Some False
     else middle_swapped perm prefix split_at middle (Suc i) n }"

text \<open>The prefix, the length of the first group and the length of the middle. All are at most the
  rank, a \<open>uint8_t\<close>, so no operation wraps. \<open>perm\<close> is \<open>None\<close> for NULL.\<close>

definition transpose_band_groups :: "bytes option \<Rightarrow> nat \<Rightarrow> (nat \<times> nat \<times> nat) option option" where
  "transpose_band_groups po rank = (case po of None \<Rightarrow> Some None | Some perm \<Rightarrow>
     if rank < 2 then Some None
     else do {
       prefix \<leftarrow> fixed_prefix perm 0 rank;
       if prefix \<ge> rank then Some None
       else do {
         suffix \<leftarrow> fixed_suffix perm rank 0 (rank - prefix);
         let middle = rank - prefix - suffix;
         if middle < 2 then Some None
         else do {
           x \<leftarrow> arr_get perm prefix;
           if unat x < prefix then Some None
           else
             let split_at = unat x - prefix in
             if split_at = 0 \<or> split_at \<ge> middle then Some None
             else do {
               r \<leftarrow> middle_swapped perm prefix split_at middle 0 middle;
               Some (if r then Some (prefix, split_at, middle) else None) } } } })"

section \<open>The extents of the matrix\<close>

text \<open>The attribute's payload, and a product of extents in \<open>int32_t\<close>.\<close>

definition attribute_bytes :: "tigris_plan \<Rightarrow> nat \<times> u8 \<Rightarrow> bytes" where
  "attribute_bytes pl = (\<lambda>(data, len). take (unat len) (drop data (p_buf pl)))"

definition shape_product :: "tigris_plan \<Rightarrow> tigris_tensor \<Rightarrow> nat \<Rightarrow> nat \<Rightarrow> int option" where
  "shape_product pl t lo n = loop lo n (\<lambda>i acc. do { e \<leftarrow> tigris_tensor_shape pl t i; i32 (acc * e) }) 1"

definition ATTR_TRANSPOSE_PERM :: u8 where "ATTR_TRANSPOSE_PERM = 1"

definition tigris_transpose_extents ::
  "tigris_plan \<Rightarrow> u16 \<Rightarrow> u16 \<Rightarrow> (int \<times> int \<times> int) option option" where
  "tigris_transpose_extents pl op_idx in_idx = do {
     t \<leftarrow> plan_tensor pl (unat in_idx);
     attr \<leftarrow> tigris_op_attribute_data pl op_idx ATTR_TRANSPOSE_PERM;
     (case attr of None \<Rightarrow> Some None | Some (data, perm_rank) \<Rightarrow>
       if perm_rank \<noteq> tn_ndim t \<or> tn_ndim t < 2 then Some None
       else do {
         groups \<leftarrow> transpose_band_groups (Some (attribute_bytes pl (data, perm_rank))) (unat (tn_ndim t));
         (case groups of None \<Rightarrow> Some None | Some (prefix, split_at, middle) \<Rightarrow> do {
           batch \<leftarrow> shape_product pl t 0 prefix;
           a \<leftarrow> shape_product pl t prefix split_at;
           b \<leftarrow> shape_product pl t (prefix + split_at) (middle - split_at);
           Some (if batch \<le> 0 \<or> a \<le> 0 \<or> b \<le> 0 then None else Some (batch, a, b)) }) }) }"

section \<open>What is accepted\<close>

text \<open>The permutation that swaps the \<open>a\<close> axes from \<open>p\<close> on with the \<open>b\<close> axes after them.\<close>

definition group_swap :: "nat \<Rightarrow> nat \<Rightarrow> nat \<Rightarrow> nat \<Rightarrow> nat list" where
  "group_swap p a b rank = [0..<p] @ [p + a..<p + a + b] @ [p..<p + a] @ [p + a + b..<rank]"

lemma length_group_swap: "p + a + b \<le> rank \<Longrightarrow> length (group_swap p a b rank) = rank"
  by (simp add: group_swap_def)

lemma nth_group_swap:
  assumes "p + a + b \<le> rank" and "i < rank"
  shows "group_swap p a b rank ! i =
    (if i < p then i else if i < p + b then i + a else if i < p + a + b then i - b else i)"
  using assms by (auto simp: group_swap_def nth_append)

lemma fixed_prefix_Some:
  "fixed_prefix perm p n = Some q \<Longrightarrow> p \<le> q \<and> q \<le> p + n \<and> (\<forall>i. p \<le> i \<and> i < q \<longrightarrow> i < length perm \<and> unat (perm ! i) = i) \<and>
    (q < p + n \<longrightarrow> q < length perm \<and> unat (perm ! q) \<noteq> q)"
proof (induction perm p n rule: fixed_prefix.induct)
  case (2 perm p n)
  show ?case
  proof (cases "unat (perm ! p) = p")
    case True
    with "2.prems" have len: "p < length perm" and rest: "fixed_prefix perm (Suc p) n = Some q"
      by (auto simp: arr_get_def split: if_splits)
    from "2.IH" [OF _ _ rest] True len have IH: "Suc p \<le> q" "q \<le> Suc p + n"
      "\<forall>i. Suc p \<le> i \<and> i < q \<longrightarrow> i < length perm \<and> unat (perm ! i) = i"
      "q < Suc p + n \<longrightarrow> q < length perm \<and> unat (perm ! q) \<noteq> q"
      by auto
    have "i < length perm \<and> unat (perm ! i) = i" if "p \<le> i" "i < q" for i
      using that IH(3) True len by (cases "i = p") auto
    then show ?thesis using IH by auto
  next
    case False
    with "2.prems" show ?thesis by (auto simp: arr_get_def split: if_splits)
  qed
qed simp

lemma fixed_suffix_Some:
  "fixed_suffix perm rank s n = Some q \<Longrightarrow> s \<le> q \<and> q \<le> s + n \<and>
    (\<forall>i. s \<le> i \<and> i < q \<longrightarrow> rank - 1 - i < length perm \<and> unat (perm ! (rank - 1 - i)) = rank - 1 - i) \<and>
    (q < s + n \<longrightarrow> rank - 1 - q < length perm \<and> unat (perm ! (rank - 1 - q)) \<noteq> rank - 1 - q)"
proof (induction perm rank s n rule: fixed_suffix.induct)
  case (2 perm rank s n)
  show ?case
  proof (cases "unat (perm ! (rank - 1 - s)) = rank - 1 - s")
    case True
    with "2.prems" have len: "rank - 1 - s < length perm" and rest: "fixed_suffix perm rank (Suc s) n = Some q"
      by (auto simp: arr_get_def split: if_splits)
    have "arr_get perm (rank - 1 - s) = Some (perm ! (rank - 1 - s))" using len by (simp only: arr_get_Some)
    from "2.IH" [OF this True rest] have IH: "Suc s \<le> q" "q \<le> Suc s + n"
      "\<forall>i. Suc s \<le> i \<and> i < q \<longrightarrow> rank - 1 - i < length perm \<and> unat (perm ! (rank - 1 - i)) = rank - 1 - i"
      "q < Suc s + n \<longrightarrow> rank - 1 - q < length perm \<and> unat (perm ! (rank - 1 - q)) \<noteq> rank - 1 - q"
      by blast+
    have "rank - 1 - i < length perm \<and> unat (perm ! (rank - 1 - i)) = rank - 1 - i" if "s \<le> i" "i < q" for i
      using that IH(3) True len by (cases "i = s") (simp, metis Suc_leI le_neq_implies_less)
    moreover have "s \<le> q" "q \<le> s + Suc n" "q < s + Suc n \<longrightarrow> q < Suc s + n" using IH(1, 2) by simp_all
    ultimately show ?thesis using IH(4) by blast
  next
    case False
    with "2.prems" show ?thesis by (auto simp: arr_get_def split: if_splits)
  qed
qed auto

lemma fixed_prefix_defined: "p + n \<le> length perm \<Longrightarrow> \<exists>q. fixed_prefix perm p n = Some q"
  by (induction perm p n rule: fixed_prefix.induct) (auto simp: arr_get_def)

lemma fixed_suffix_defined: "0 < rank \<Longrightarrow> rank \<le> length perm \<Longrightarrow> \<exists>q. fixed_suffix perm rank s n = Some q"
  by (induction perm rank s n rule: fixed_suffix.induct) (auto simp: arr_get_def)

lemma middle_swapped_iff:
  "prefix + i + n \<le> length perm \<Longrightarrow> middle_swapped perm prefix k middle i n =
    Some (\<forall>j. i \<le> j \<and> j < i + n \<longrightarrow> unat (perm ! (prefix + j)) = middle_axis prefix k middle j)"
proof (induction perm prefix k middle i n rule: middle_swapped.induct)
  case (2 perm prefix k middle i n)
  then have "prefix + i < length perm" by simp
  moreover have "(\<forall>j. i \<le> j \<and> j < i + Suc n \<longrightarrow> P j) = (P i \<and> (\<forall>j. Suc i \<le> j \<and> j < Suc i + n \<longrightarrow> P j))" for P
    using Suc_le_eq le_neq_implies_less by (metis add_Suc_right add_Suc less_add_Suc1 order_refl Suc_leD)
  ultimately show ?case using 2 by (auto simp: arr_get_def)
qed simp

text \<open>The swap, axis by axis.\<close>

definition swaps :: "bytes \<Rightarrow> nat \<Rightarrow> nat \<Rightarrow> nat \<Rightarrow> nat \<Rightarrow> bool" where
  "swaps perm p a b rank = (0 < a \<and> 0 < b \<and> p + a + b \<le> rank \<and> (\<forall>i < rank. unat (perm ! i) =
     (if i < p then i else if i < p + b then i + a else if i < p + a + b then i - b else i)))"

lemma swaps_iff:
  assumes "rank \<le> length perm"
  shows "swaps perm p a b rank = (0 < a \<and> 0 < b \<and> p + a + b \<le> rank \<and> map unat (take rank perm) = group_swap p a b rank)"
proof (cases "p + a + b \<le> rank")
  case True
  have "(map unat (take rank perm) = group_swap p a b rank) = (\<forall>i < rank. unat (perm ! i) = group_swap p a b rank ! i)"
    using assms length_group_swap [OF True] by (auto simp: list_eq_iff_nth_eq)
  also have "\<dots> = (\<forall>i < rank. unat (perm ! i) =
     (if i < p then i else if i < p + b then i + a else if i < p + a + b then i - b else i))"
    using nth_group_swap [OF True] by (simp cong: conj_cong imp_cong)
  finally show ?thesis using True by (simp add: swaps_def)
qed (simp add: swaps_def)

lemma swaps_prefix:
  assumes "swaps perm p a b rank" and "rank \<le> length perm"
  shows "fixed_prefix perm 0 rank = Some p"
proof -
  note at = assms(1) [unfolded swaps_def, THEN conjunct2, THEN conjunct2, THEN conjunct2, rule_format]
  have pab: "0 < a" "0 < b" "p + a + b \<le> rank" using assms(1) by (simp_all add: swaps_def)
  obtain q where q: "fixed_prefix perm 0 rank = Some q" using fixed_prefix_defined [of 0 rank perm] assms(2) by auto
  note f = fixed_prefix_Some [OF q]
  have "\<not> p < q" using f at [of p] pab by auto
  moreover have "\<not> q < p" using f at [of q] pab by auto
  ultimately show ?thesis using q by simp
qed

lemma swaps_suffix:
  assumes "swaps perm p a b rank" and "rank \<le> length perm"
  shows "fixed_suffix perm rank 0 (rank - p) = Some (rank - (p + a + b))"
proof -
  note at = assms(1) [unfolded swaps_def, THEN conjunct2, THEN conjunct2, THEN conjunct2, rule_format]
  have pab: "0 < a" "0 < b" "p + a + b \<le> rank" using assms(1) by (simp_all add: swaps_def)
  obtain q where q: "fixed_suffix perm rank 0 (rank - p) = Some q"
    using fixed_suffix_defined [of rank perm 0 "rank - p"] assms(2) pab by auto
  note f = fixed_suffix_Some [OF q]
  let ?s = "rank - (p + a + b)"
  have "\<not> ?s < q"
  proof
    assume "?s < q"
    then have "unat (perm ! (rank - 1 - ?s)) = rank - 1 - ?s" using f by auto
    moreover have "rank - 1 - ?s = p + a + b - 1" using pab by simp
    moreover have "unat (perm ! (p + a + b - 1)) = p + a + b - 1 - b"
    proof -
      have "p + a + b - 1 < rank" "\<not> p + a + b - 1 < p" "\<not> p + a + b - 1 < p + b" "p + a + b - 1 < p + a + b"
        using pab by linarith+
      then show ?thesis using at [of "p + a + b - 1"] by (simp only: if_True if_False)
    qed
    ultimately show False using pab by simp
  qed
  moreover have "\<not> q < ?s"
  proof
    assume lt: "q < ?s"
    then have "rank - 1 - q < rank" "\<not> rank - 1 - q < p + a + b" by auto
    then have "unat (perm ! (rank - 1 - q)) = rank - 1 - q" using at [of "rank - 1 - q"] by auto
    then show False using f lt by auto
  qed
  ultimately show ?thesis using q by simp
qed

lemma middle_axis_swaps:
  "j < a + b \<Longrightarrow> middle_axis p a (a + b) j = (if j < b then p + j + a else p + j - b)"
  by (auto simp: middle_axis_def)

lemma groups_of_swap:
  assumes "swaps perm p a b rank" and "rank \<le> length perm"
  shows "transpose_band_groups (Some perm) rank = Some (Some (p, a, a + b))"
proof -
  note at = assms(1) [unfolded swaps_def, THEN conjunct2, THEN conjunct2, THEN conjunct2, rule_format]
  have pab: "0 < a" "0 < b" "p + a + b \<le> rank" using assms(1) by (simp_all add: swaps_def)
  have x: "arr_get perm p = Some (perm ! p)" using assms(2) pab by simp
  have xp: "unat (perm ! p) = p + a" using at [of p] pab by simp
  have "middle_swapped perm p a (a + b) 0 (a + b) = Some True"
    using middle_swapped_iff [of p 0 "a + b" perm a "a + b"] assms(2) pab at middle_axis_swaps [of _ a b p] by auto
  moreover have "rank - (p + (rank - (p + a + b))) = a + b" using pab by simp
  ultimately show ?thesis
    using swaps_prefix [OF assms] swaps_suffix [OF assms] x xp pab
    by (simp add: transpose_band_groups_def Let_def arr_get_def)
qed

lemma swap_of_groups:
  assumes "transpose_band_groups (Some perm) rank = Some (Some (p, a, m))" and "rank \<le> length perm"
  shows "a < m \<and> swaps perm p a (m - a) rank"
proof -
  have r2: "\<not> rank < 2" using assms(1) by (auto simp: transpose_band_groups_def)
  obtain q where q: "fixed_prefix perm 0 rank = Some q"
    using fixed_prefix_defined [of 0 rank perm] assms(2) by auto
  obtain s where s: "fixed_suffix perm rank 0 (rank - q) = Some s"
    using fixed_suffix_defined [of rank perm 0 "rank - q"] assms(2) r2 by auto
  have pq: "p = q" and qr: "q < rank" and m: "m = rank - q - s" and a: "0 < a" "a < m"
    and x: "unat (perm ! q) = q + a" and mid: "middle_swapped perm q a m 0 m = Some True"
    using assms(1) r2 q s
    by (auto simp: transpose_band_groups_def Let_def bind_eq_Some_conv split: if_split_asm)
  note f = fixed_prefix_Some [OF q] and g = fixed_suffix_Some [OF s]
  have sm: "q + m + s = rank" using g m a by auto
  have "unat (perm ! i) = (if i < p then i else if i < p + (m - a) then i + a
      else if i < p + a + (m - a) then i - (m - a) else i)" if i: "i < rank" for i
  proof -
    consider "i < q" | "q \<le> i" "i < q + m" | "q + m \<le> i" by linarith
    then show ?thesis
    proof cases
      case 1
      then show ?thesis using f pq by auto
    next
      case 2
      then obtain j where j: "i = q + j" "j < m" by (metis le_Suc_ex nat_add_left_cancel_less)
      have "unat (perm ! (q + j)) = middle_axis q a m j"
        using mid middle_swapped_iff [of q 0 m perm a m] j assms(2) sm by auto
      then show ?thesis using j a pq by (auto simp: middle_axis_def)
    next
      case 3
      have k: "rank - 1 - (rank - 1 - i) = i" "rank - 1 - i < s" using 3 i sm by simp_all
      have "unat (perm ! (rank - 1 - (rank - 1 - i))) = rank - 1 - (rank - 1 - i)" using g k(2) by blast
      then have "unat (perm ! i) = i" unfolding k(1) .
      then show ?thesis using 3 i a pq by auto
    qed
  qed
  then show ?thesis using a pq sm by (simp add: swaps_def)
qed

lemma groups_defined:
  assumes "rank \<le> length perm"
  shows "transpose_band_groups (Some perm) rank \<noteq> None"
proof (cases "rank < 2")
  case False
  obtain q where q: "fixed_prefix perm 0 rank = Some q"
    using fixed_prefix_defined [of 0 rank perm] assms by auto
  obtain s where s: "fixed_suffix perm rank 0 (rank - q) = Some s"
    using fixed_suffix_defined [of rank perm 0 "rank - q"] assms False by auto
  have sq: "s \<le> rank - q" using fixed_suffix_Some [OF s] by simp
  show ?thesis
  proof (cases "q < rank \<and> 2 \<le> rank - q - s")
    case True
    then have "arr_get perm q = Some (perm ! q)" using assms by simp
    moreover have "q + 0 + (rank - q - s) \<le> length perm" using assms True by linarith
    ultimately show ?thesis
      using True q s False middle_swapped_iff [of q 0 "rank - q - s" perm]
      by (simp add: transpose_band_groups_def Let_def arr_get_def)
  next
    case False
    then show ?thesis using q s \<open>\<not> rank < 2\<close> by (auto simp: transpose_band_groups_def Let_def)
  qed
qed (simp add: transpose_band_groups_def)

section \<open>Row-major positions\<close>

text \<open>\<open>lin shape idx\<close> is the position of an element, \<open>volume shape\<close> their number.\<close>

fun lin :: "int list \<Rightarrow> int list \<Rightarrow> int" where
  "lin (e # es) (i # is) = i * prod_list es + lin es is"
| "lin _ _ = 0"

abbreviation inside :: "int list \<Rightarrow> int list \<Rightarrow> bool" where
  "inside shape idx \<equiv> list_all2 (\<lambda>e i. 0 \<le> i \<and> i < e) shape idx"

definition permuted :: "nat list \<Rightarrow> 'a list \<Rightarrow> 'a list" where
  "permuted perm xs = map ((!) xs) perm"

lemma lin_append:
  "length is = length es \<Longrightarrow> lin (es @ fs) (is @ js) = lin es is * prod_list fs + lin fs js"
  by (induction es "is" rule: list_induct2') (auto simp: algebra_simps)

lemma permuted_swap:
  assumes "length P = p" and "length A = a" and "length B = b" and "length S = rank - (p + a + b)" and "p + a + b \<le> rank"
  shows "permuted (group_swap p a b rank) (P @ A @ B @ S) = P @ B @ A @ S"
proof -
  have block: "map ((!) (xs @ ys @ zs)) [length xs..<length xs + length ys] = ys" for xs ys zs :: "'a list"
    by (rule nth_equalityI) (simp_all add: nth_append)
  have "map ((!) (P @ A @ B @ S)) [0..<p] = P"
    using block [of "[]" P "A @ B @ S"] assms by simp
  moreover have "map ((!) (P @ A @ B @ S)) [p..<p + a] = A"
    using block [of P A "B @ S"] assms by simp
  moreover have "map ((!) (P @ A @ B @ S)) [p + a..<p + a + b] = B"
    using block [of "P @ A" B S] assms by simp
  moreover have "map ((!) (P @ A @ B @ S)) [p + a + b..<rank] = S"
    using block [of "P @ A @ B" S "[]"] assms by (simp add: add.assoc)
  ultimately show ?thesis by (simp add: permuted_def group_swap_def)
qed

text \<open>A tensor in the four groups of axes; the positions before and after the permutation.\<close>

lemma lin_four:
  assumes "length iP = length P" "length iA = length A" "length iB = length B" "length iS = length S"
  shows "lin (P @ A @ B @ S) (iP @ iA @ iB @ iS) =
    ((lin P iP * prod_list A + lin A iA) * prod_list B + lin B iB) * prod_list S + lin S iS"
  using assms by (simp add: lin_append algebra_simps)

lemma lin_bound: "inside es is \<Longrightarrow> 0 \<le> lin es is \<and> lin es is < prod_list es"
proof (induction es "is" rule: lin.induct)
  case (1 e es i "is")
  then have i: "0 \<le> i" "i \<le> e - 1" and IH: "0 \<le> lin es is" "lin es is < prod_list es" by auto
  have "i * prod_list es \<le> (e - 1) * prod_list es" using i IH by (intro mult_right_mono) auto
  then show ?case using i IH by (auto simp: algebra_simps)
qed auto

lemma list_all2_take_drop:
  "list_all2 P xs ys \<Longrightarrow> list_all2 P (take n xs) (take n ys) \<and> list_all2 P (drop n xs) (drop n ys)"
  by (auto intro: list_all2_takeI list_all2_dropI)

text \<open>Permuting the axes of a tensor by such a swap transposes a batch of matrices of blocks.\<close>

lemma permuted_is_transposed:
  assumes "map unat (take rank perm) = group_swap p a b rank" and "p + a + b \<le> rank" and "length shape = rank"
    and "inside shape idx"
  defines "P \<equiv> take p shape" and "A \<equiv> take a (drop p shape)" and "B \<equiv> take b (drop (p + a) shape)"
    and "S \<equiv> drop (p + a + b) shape"
  obtains n r c k where "0 \<le> n" "n < prod_list P" "0 \<le> r" "r < prod_list A" "0 \<le> c" "c < prod_list B"
    "0 \<le> k" "k < prod_list S"
    "lin shape idx = ((n * prod_list A + r) * prod_list B + c) * prod_list S + k"
    "lin (permuted (map unat (take rank perm)) shape) (permuted (map unat (take rank perm)) idx) =
       ((n * prod_list B + c) * prod_list A + r) * prod_list S + k"
proof -
  have len: "length idx = rank" using assms(3, 4) by (auto dest: list_all2_lengthD)
  define iP iA iB iS where "iP = take p idx" and "iA = take a (drop p idx)" and "iB = take b (drop (p + a) idx)"
    and "iS = drop (p + a + b) idx"
  note parts = P_def A_def B_def S_def iP_def iA_def iB_def iS_def
  have split4: "xs = take p xs @ take a (drop p xs) @ take b (drop (p + a) xs) @ drop (p + a + b) xs" for xs :: "int list"
    by (metis append_take_drop_id drop_drop add.commute)
  have sh: "shape = P @ A @ B @ S" and ix: "idx = iP @ iA @ iB @ iS"
    unfolding parts by (rule split4)+
  have l: "length P = p" "length A = a" "length B = b" "length S = rank - (p + a + b)"
    "length iP = p" "length iA = a" "length iB = b" "length iS = rank - (p + a + b)"
    using assms(2, 3) len by (auto simp: parts)
  have ins: "inside P iP" "inside A iA" "inside B iB" "inside S iS"
    using assms(4) unfolding parts by (simp_all add: list_all2_take_drop)
  have "permuted (map unat (take rank perm)) shape = P @ B @ A @ S"
    unfolding assms(1) sh by (rule permuted_swap) (use l assms(2) in simp_all)
  moreover have "permuted (map unat (take rank perm)) idx = iP @ iB @ iA @ iS"
    unfolding assms(1) ix by (rule permuted_swap) (use l assms(2) in simp_all)
  ultimately show thesis
    using that [of "lin P iP" "lin A iA" "lin B iB" "lin S iS"] lin_bound [OF ins(1)] lin_bound [OF ins(2)]
      lin_bound [OF ins(3)] lin_bound [OF ins(4)] l
    by (simp only: sh ix) (simp add: lin_four)
qed

section \<open>Properties\<close>

text \<open>C39. The transposes a band can execute are recognised exactly. On any bytes at least as long as
  the rank, \<open>transpose_band_groups\<close> reads only inside them and returns a prefix, a length and a
  middle exactly when the axes are permuted by swapping two adjacent nonempty groups, the first of
  that length, after that prefix and together as long as the middle, with every other axis in place.
  So the groups are unique, and the identity is refused.\<close>

theorem transpose_groups_exact:
  assumes "rank \<le> length perm"
  shows "\<exists>r. transpose_band_groups (Some perm) rank = Some r \<and>
    (\<forall>p a m. r = Some (p, a, m) \<longleftrightarrow>
      0 < a \<and> a < m \<and> p + m \<le> rank \<and> map unat (take rank perm) = group_swap p a (m - a) rank)"
proof -
  obtain r where r: "transpose_band_groups (Some perm) rank = Some r" using groups_defined [OF assms] by blast
  have "r = Some (p, a, m) \<longleftrightarrow> a < m \<and> swaps perm p a (m - a) rank" for p a m
    using r swap_of_groups [of perm rank p a m, OF _ assms] groups_of_swap [of perm p a "m - a" rank, OF _ assms]
    by fastforce
  then show ?thesis using r swaps_iff [OF assms] by (auto simp: algebra_simps)
qed

lemma transpose_groups_exact_witness: "transpose_band_groups (Some [0, 3, 1, 2]) 4 = Some (Some (1, 2, 3))"
proof -
  obtain r where "transpose_band_groups (Some [0, 3, 1, 2]) 4 = Some r"
    "r = Some (1, 2, 3) \<longleftrightarrow> 0 < (2 :: nat) \<and> (2 :: nat) < 3 \<and> 1 + 3 \<le> (4 :: nat) \<and>
       map unat (take 4 [0, 3, 1, 2 :: u8]) = group_swap 1 2 (3 - 2) 4"
    using transpose_groups_exact [of 4 "[0, 3, 1, 2]"] by auto
  then show ?thesis by (simp add: group_swap_def upt_conv_Cons)
qed

end
