(* ===== verification/Transpose_Kernel.thy ===== *)
theory Transpose_Kernel
  imports Transpose_Groups Tiles
begin

unbundle bit_operations_syntax

text \<open>
  The transpose kernel of \<open>src/tigris_kernels.c\<close>, which moves elements of any size: a banded slice is
  transposed as a batch of matrices, a whole tensor by a walk that carries an odometer.

  \<^item> A copy of an element is a typed load and store when the addresses allow it, else a \<open>memcpy\<close>.
  \<^item> Whether an operator's band is independent (\<open>tigris_op_independent_band\<close> of \<open>src/tigris_band.c\<close>)
    is the argument \<open>independent\<close>.
  \<^item> After the walk the code has a second loop for ranks above 8, which the check of the rank before
    makes unreachable.

  \<^item> The odometer starts at axis \<open>(uint8_t)(rank - 1)\<close>. A tensor of rank 0 has no such axis: the code then
    writes entry 255 of an array of 8, so the walk is undefined (\<open>transpose_scalar_undefined\<close>).

  What is shown: for ranks of at least 1 the odometer visits exactly the positions the permutation says, so the kernel writes
  each element of the permuted tensor once, and a slice is transposed block by block.
\<close>

section \<open>The kernel\<close>

definition transpose_elements_are_typed :: "nat \<Rightarrow> nat \<Rightarrow> nat \<Rightarrow> bool" where
  "transpose_elements_are_typed dst src element_size =
     (if element_size = 1 then True
      else if element_size \<noteq> 4 then False
      else (dst OR src) AND 3 = 0)"

definition copy_element :: "bool \<Rightarrow> nat \<Rightarrow> nat \<Rightarrow> nat \<Rightarrow> ram \<Rightarrow> ram option" where
  "copy_element typed d s n h =
     (if typed \<and> (n = 4 \<or> n = 1) then Some (ram_copy h d s n) else ram_memcpy h d s n)"

definition transpose_matrix :: "nat \<Rightarrow> nat \<Rightarrow> nat \<Rightarrow> nat \<Rightarrow> nat \<Rightarrow> bool \<Rightarrow> ram \<Rightarrow> ram option" where
  "transpose_matrix dst src rows cols element_size typed =
     loop 0 rows (\<lambda>r. loop 0 cols (\<lambda>c.
       copy_element typed (dst + (c * rows + r) * element_size) (src + (r * cols + c) * element_size)
         element_size))"

text \<open>The strides of the input axes, from the last to the first.\<close>

fun input_strides :: "int list \<Rightarrow> nat \<Rightarrow> u32 \<Rightarrow> u32 list \<Rightarrow> u32 list option" where
  "input_strides shape 0 stride acc = Some acc"
| "input_strides shape (Suc axis) stride acc = do {
     e \<leftarrow> arr_get shape axis;
     input_strides shape axis (stride * word_of_int e) (stride # acc) }"

fun output_steps :: "u32 list \<Rightarrow> bytes \<Rightarrow> nat \<Rightarrow> nat \<Rightarrow> u32 list option" where
  "output_steps strides perm axis 0 = Some []"
| "output_steps strides perm axis (Suc n) = do {
     x \<leftarrow> arr_get perm axis;
     st \<leftarrow> arr_get strides (unat x);
     rest \<leftarrow> output_steps strides perm (Suc axis) n;
     Some (st # rest) }"

text \<open>The odometer's carry loop over the first \<open>n\<close> axes, from the last of them on.\<close>

fun carry :: "u32 list \<Rightarrow> int list \<Rightarrow> nat \<Rightarrow> int list \<times> u32 \<Rightarrow> (int list \<times> u32) option" where
  "carry steps shape 0 s = Some s"
| "carry steps shape (Suc axis) (coordinate, input_index) = do {
     c \<leftarrow> arr_get coordinate axis;
     c \<leftarrow> i32 (c + 1);
     st \<leftarrow> arr_get steps axis;
     e \<leftarrow> arr_get shape axis;
     if c < e then do {
       coordinate \<leftarrow> arr_set coordinate axis c;
       Some (coordinate, input_index + st) }
     else do {
       coordinate \<leftarrow> arr_set coordinate axis 0;
       carry steps shape axis (coordinate, input_index + st - st * word_of_int e) } }"

text \<open>One step of the odometer: the last axis is stepped first, and the carry loop entered when it is full.\<close>

definition step_odometer :: "u32 list \<Rightarrow> int list \<Rightarrow> u8 \<Rightarrow> int list \<times> u32 \<Rightarrow> (int list \<times> u32) option" where
  "step_odometer steps shape rank = (\<lambda>(coordinate, input_index). do {
     let last_axis = unat (rank - 1);
     c \<leftarrow> arr_get coordinate last_axis;
     c \<leftarrow> i32 (c + 1);
     coordinate \<leftarrow> arr_set coordinate last_axis c;
     st \<leftarrow> arr_get steps last_axis;
     e \<leftarrow> arr_get shape last_axis;
     if c \<ge> e then do {
       coordinate \<leftarrow> arr_set coordinate last_axis 0;
       carry steps shape last_axis (coordinate, input_index + st - st * word_of_int e) }
     else Some (coordinate, input_index + st) })"

definition walk_step ::
  "nat \<Rightarrow> nat \<Rightarrow> nat \<Rightarrow> bool \<Rightarrow> u32 list \<Rightarrow> int list \<Rightarrow> nat \<Rightarrow> (int list \<times> u32) \<times> ram \<Rightarrow> ((int list \<times> u32) \<times> ram) option" where
  "walk_step dst src n typed steps shape output_index = (\<lambda>(s, h). do {
     h \<leftarrow> copy_element typed (dst + output_index * n) (src + unat (snd s) * n) n h;
     s \<leftarrow> step_odometer steps shape (word_of_nat (length shape)) s;
     Some (s, h) })"

definition transpose_walk ::
  "nat \<Rightarrow> nat \<Rightarrow> nat \<Rightarrow> bytes \<Rightarrow> int list \<Rightarrow> int list \<Rightarrow> u32 \<Rightarrow> ram \<Rightarrow> ram option" where
  "transpose_walk dst src n perm input_shape output_shape elements h = do {
     strides \<leftarrow> input_strides input_shape (length input_shape) 1 [];
     steps \<leftarrow> output_steps strides perm 0 (length input_shape);
     (s, h) \<leftarrow> loop 0 (unat elements)
       (walk_step dst src n (transpose_elements_are_typed dst src n) steps output_shape)
       ((replicate (length input_shape) 0, 0), h);
     Some h }"

text \<open>The batch of a banded slice; extents that do not describe one are refused.\<close>

definition transpose_slice :: "nat \<Rightarrow> nat \<Rightarrow> u32 \<Rightarrow> tile_ctx \<Rightarrow> ram \<Rightarrow> (unit + ram) option" where
  "transpose_slice dst src element_size tc h =
     (let batch = tc_transpose_outer tc; rows = tc_in_h tc; cols = tc_in_w tc in
      if batch \<le> 0 \<or> rows \<le> 0 \<or> cols \<le> 0 \<or> tc_out_h tc \<noteq> cols \<or> tc_out_w tc \<noteq> rows then fail ()
      else
        let block = (if tc_transpose_block tc > 0 then tc_transpose_block tc else 1);
            block_size = unat (element_size * word_of_int block) in
        map_option Inr (loop 0 (nat batch) (\<lambda>n.
          transpose_matrix (dst + n * nat rows * nat cols * block_size) (src + n * nat rows * nat cols * block_size)
            (nat rows) (nat cols) block_size (transpose_elements_are_typed dst src block_size)) h))"

definition BAND_AXIS_BASE :: u8 where "BAND_AXIS_BASE = 6"

text \<open>The axis a band runs along in one of the modes \<open>tigris_band_axis\<close> knows.\<close>

fun first_long_axis :: "tigris_plan \<Rightarrow> tigris_tensor \<Rightarrow> nat \<Rightarrow> nat \<Rightarrow> nat option" where
  "first_long_axis pl t axis 0 = Some axis"
| "first_long_axis pl t axis (Suc n) = do {
     e \<leftarrow> tigris_tensor_shape pl t axis;
     if e = 1 then first_long_axis pl t (Suc axis) n else Some axis }"

definition tigris_band_axis :: "tigris_plan \<Rightarrow> tigris_tensor \<Rightarrow> u8 \<Rightarrow> u8 option" where
  "tigris_band_axis pl t mode =
     (if mode = 3 then Some 0
      else if mode = 4 then Some (if tn_ndim t = 3 then 1 else 0)
      else if mode = 5 then Some (tn_ndim t - 1)
      else if mode \<ge> BAND_AXIS_BASE then Some (mode - BAND_AXIS_BASE)
      else if mode \<noteq> 2 then Some (if mode \<noteq> 0 then tn_ndim t - 2 else 1)
      else map_option word_of_nat (first_long_axis pl t 0 (unat (tn_ndim t) - 1)))"

definition read_shape :: "tigris_plan \<Rightarrow> tigris_tensor \<Rightarrow> nat \<Rightarrow> int list option" where
  "read_shape pl t n = loop 0 n (\<lambda>i xs. do { e \<leftarrow> tigris_tensor_shape pl t i; Some (xs @ [e]) }) []"

definition count_elements :: "bytes \<Rightarrow> nat \<Rightarrow> int list \<Rightarrow> (unit + u32) option" where
  "count_elements perm rank shape = for_range 0 rank (\<lambda>axis elements. do {
     e \<leftarrow> arr_get shape axis;
     x \<leftarrow> arr_get perm axis;
     if e \<le> 0 \<or> unat x \<ge> rank then fail () else ret (elements * word_of_int e) }) 1"

text \<open>A band along one axis shortens it, in the count and in both shapes.\<close>

definition band_shapes ::
  "(tigris_plan \<Rightarrow> tigris_op \<Rightarrow> u16 \<Rightarrow> u8 \<Rightarrow> bool option) \<Rightarrow> tigris_plan \<Rightarrow> tigris_op \<Rightarrow> u16 \<Rightarrow> tigris_tensor \<Rightarrow> tile_ctx \<Rightarrow>
     u32 \<times> int list \<times> int list \<Rightarrow> (unit + u32 \<times> int list \<times> int list) option" where
  "band_shapes independent pl oper op_index t tc = (\<lambda>(elements, input_shape, output_shape).
     if tc_active tc \<and> tc_row_tiled tc \<ge> BAND_AXIS_BASE then do {
       b \<leftarrow> independent pl oper op_index (tc_row_tiled tc);
       if \<not> b then fail ()
       else do {
         axis \<leftarrow> tigris_band_axis pl t (tc_row_tiled tc);
         e \<leftarrow> arr_get output_shape (unat axis);
         q \<leftarrow> udiv32 elements (word_of_int e);
         input_shape \<leftarrow> arr_set input_shape (unat axis) (tc_in_h tc);
         output_shape \<leftarrow> arr_set output_shape (unat axis) (tc_out_h tc);
         ret (q * word_of_int (tc_out_h tc), input_shape, output_shape) } }
     else ret (elements, input_shape, output_shape))"

text \<open>\<open>return -1\<close> is \<open>Inl ()\<close>; no kernel writes before it.\<close>

definition tigris_transpose_execute ::
  "(tigris_plan \<Rightarrow> tigris_op \<Rightarrow> u16 \<Rightarrow> u8 \<Rightarrow> bool option) \<Rightarrow> tigris_plan \<Rightarrow> tigris_op \<Rightarrow> u16 \<Rightarrow> mem \<Rightarrow> ram \<Rightarrow>
     (unit + ram) option" where
  "tigris_transpose_execute independent pl oper op_index m h =
     (if op_num_inputs oper \<noteq> 1 \<or> op_num_outputs oper \<noteq> 1 then fail ()
      else do {
        i0 \<leftarrow> tigris_op_inputs pl oper 0;
        o0 \<leftarrow> tigris_op_outputs pl oper 0;
        input \<leftarrow> plan_tensor pl (unat i0);
        output \<leftarrow> plan_tensor pl (unat o0);
        attr \<leftarrow> tigris_op_attribute_data pl op_index ATTR_TRANSPOSE_PERM;
        (case attr of None \<Rightarrow> fail () | Some (data, rank) \<Rightarrow>
          if rank \<noteq> tn_ndim input \<or> tn_ndim output \<noteq> rank \<or> tn_size_bytes input \<noteq> tn_size_bytes output
          then fail ()
          else do {
            src \<leftarrow> tigris_mem_tensor_ptr (Some m) i0;
            dst \<leftarrow> tigris_mem_tensor_ptr (Some m) o0;
            if src = 0 \<or> dst = 0 \<or> rank > 8 then fail ()
            else do {
              let perm = attribute_bytes pl (data, rank);
              input_shape \<leftarrow> read_shape pl input (unat rank);
              output_shape \<leftarrow> read_shape pl output (unat rank);
              andthen (count_elements perm (unat rank) output_shape) (\<lambda>elements.
                if elements = 0 \<or> tn_size_bytes input mod elements \<noteq> 0 then fail ()
                else
                  let element_size = tn_size_bytes input div elements in
                  andthen (band_shapes independent pl oper op_index input (tile m)
                      (elements, input_shape, output_shape)) (\<lambda>(elements, input_shape, output_shape).
                    if tc_active (tile m) \<and> tc_transposed_tile (tile m)
                    then transpose_slice dst src element_size (tile m) h
                    else map_option Inr
                      (transpose_walk dst src (unat element_size) perm input_shape output_shape elements h))) } }) })"

section \<open>The first round of the odometer\<close>

text \<open>When there is an axis, stepping it apart is one more round of the carry loop.\<close>

lemma step_odometer_carry:
  assumes "rank \<noteq> 0"
  shows "step_odometer steps shape rank s = carry steps shape (unat rank) s"
proof -
  obtain n where n: "unat rank = Suc n" using assms by (cases "unat rank") (auto simp: unat_eq_0)
  have "unat (rank - 1) = n" using unat_minus_one [OF assms] n by simp
  then show ?thesis
    by (cases s) (auto simp: step_odometer_def n arr_get_def arr_set_def i32_def not_less split: Option.bind_splits)
qed

text \<open>Without an axis the first element already steps the odometer outside its array.\<close>

lemma step_odometer_scalar: "step_odometer steps [] 0 ([], idx) = None"
  by (simp add: step_odometer_def arr_get_def)

lemma transpose_scalar_undefined:
  assumes "elements \<noteq> 0"
  shows "transpose_walk dst src n perm [] [] elements h = None"
proof -
  obtain k where "unat elements = Suc k" using assms by (cases "unat elements") (auto simp: unat_eq_0)
  then show ?thesis
    by (cases "copy_element (transpose_elements_are_typed dst src n) dst src n h")
      (simp_all add: transpose_walk_def walk_step_def step_odometer_scalar)
qed

section \<open>Elements copied by a loop\<close>

lemma wp_loop:
  assumes "I i s" and "\<And>k t. i \<le> k \<Longrightarrow> k < i + n \<Longrightarrow> I k t \<Longrightarrow> wp (f k t) (I (Suc k))"
  shows "wp (loop i n f s) (I (i + n))"
  using assms
proof (induction n arbitrary: i s)
  case (Suc n)
  from Suc.prems(2) [of i s] Suc.prems(1) obtain s' where s': "f i s = Some s'" "I (Suc i) s'" by (auto dest: wpD)
  have "wp (loop (Suc i) n f s') (I (Suc i + n))"
    by (rule Suc.IH [OF s'(2)]) (use Suc.prems(2) in auto)
  then show ?case using s'(1) by simp
qed simp

lemma wp_loop_copied:
  assumes sep: "separated (\<Union>k < n. R k) len"
    and body: "\<And>k h'. k < n \<Longrightarrow> wp (f k h') (copied (R k) len h')"
  shows "wp (loop 0 n f h) (copied (\<Union>k < n. R k) len h)"
proof -
  have "wp (loop 0 n f h) (copied (\<Union>j < 0 + n. R j) len h)"
  proof (rule wp_loop [where I = "\<lambda>k. copied (\<Union>j < k. R j) len h"])
    fix k h1 assume k: "k < 0 + n" and h1: "copied (\<Union>j < k. R j) len h h1"
    have eq: "(\<Union>j < Suc k. R j) = (\<Union>j < k. R j) \<union> R k"
      by (auto simp: less_Suc_eq)
    have "separated ((\<Union>j < k. R j) \<union> R k) len"
      using k by (intro separated_mono [OF sep] Un_least UN_mono UN_upper) auto
    then show "wp (f k h1) (copied (\<Union>j < Suc k. R j) len h)"
      unfolding eq using h1 k by (intro wp_mono [OF body]) (auto intro: copied_Un)
  qed simp
  then show ?thesis by simp
qed

text \<open>Element \<open>g x\<close> of the source becomes element \<open>f x\<close> of the destination.\<close>

definition elements :: "nat \<Rightarrow> nat \<Rightarrow> nat \<Rightarrow> 'x set \<Rightarrow> ('x \<Rightarrow> nat) \<Rightarrow> ('x \<Rightarrow> nat) \<Rightarrow> (nat \<times> nat) set" where
  "elements dst src n X f g = (\<lambda>x. (dst + f x * n, src + g x * n)) ` X"

lemma elements_union: "elements dst src n X f g = (\<Union>x \<in> X. {(dst + f x * n, src + g x * n)})"
  by (auto simp: elements_def)

lemma elements_times:
  "elements dst src n (A \<times> B) f g = (\<Union>a \<in> A. elements dst src n B (\<lambda>b. f (a, b)) (\<lambda>b. g (a, b)))"
  by (force simp: elements_def)

definition regions_apart :: "nat \<Rightarrow> nat \<Rightarrow> nat \<Rightarrow> nat \<Rightarrow> bool" where
  "regions_apart a m b n = (a + m \<le> b \<or> b + n \<le> a)"

lemma elements_apart:
  assumes "i \<noteq> j"
  shows "apart (d + i * n) (d + j * n) n"
proof -
  have "Suc i * n \<le> j * n \<or> Suc j * n \<le> i * n" using assms by (metis mult_le_mono1 nat_neq_iff Suc_leI)
  then show ?thesis by (auto simp: apart_def)
qed

lemma element_inside: "i < N \<Longrightarrow> i * n + n \<le> N * (n :: nat)"
  using mult_le_mono1 [of "Suc i" N n] by simp

lemma separated_elements:
  assumes "inj_on f X" and "\<And>x. x \<in> X \<Longrightarrow> f x < N" and "\<And>x. x \<in> X \<Longrightarrow> g x < M"
    and "regions_apart dst (N * n) src (M * n)"
  shows "separated (elements dst src n X f g) n"
proof (rule separatedI)
  fix d s d' s' assume "(d, s) \<in> elements dst src n X f g" "(d', s') \<in> elements dst src n X f g"
  then obtain x y where x: "x \<in> X" "d = dst + f x * n" "s = src + g x * n"
    and y: "y \<in> X" "d' = dst + f y * n" "s' = src + g y * n" by (auto simp: elements_def)
  have "apart d s' n"
    using assms(4) element_inside [OF assms(2) [OF x(1)], of n] element_inside [OF assms(3) [OF y(1)], of n] x y
    by (auto simp: regions_apart_def apart_def)
  moreover have "s = s'" if "d = d'"
  proof (cases "n = 0")
    case False
    then have "x = y" using that x y assms(1) by (auto dest: inj_onD)
    then show ?thesis using x y by simp
  qed (use x y in simp)
  moreover have "apart d d' n" if "d \<noteq> d'"
    unfolding x(2) y(2) by (rule elements_apart) (use that x y in auto)
  ultimately show "apart d s' n \<and> (d = d' \<longrightarrow> s = s') \<and> (d \<noteq> d' \<longrightarrow> apart d d' n)" by blast
qed

lemma wp_copy_element: "apart d s n \<Longrightarrow> wp (copy_element typed d s n h) (copied {(d, s)} n h)"
  by (auto simp: copy_element_def wp_rules apart_def copied_def ram_copy_def)

text \<open>Positions of a matrix are apart.\<close>

lemma pos_less: "r < R \<Longrightarrow> c < C \<Longrightarrow> r * C + c < R * (C :: nat)"
  using mixed_radix [of r R c C] by simp

lemma pos_inject: "c < C \<Longrightarrow> c' < C \<Longrightarrow> r * C + c = r' * C + c' \<longleftrightarrow> r = r' \<and> c = (c' :: nat)"
  by (cases "(r, c) = (r', c')") (use row_order [of c C c' r r'] in auto)

text \<open>One matrix, then a batch of them.\<close>

lemma wp_transpose_matrix:
  assumes "regions_apart dst (rows * cols * n) src (rows * cols * n)"
  shows "wp (transpose_matrix dst src rows cols n typed h)
    (copied (elements dst src n ({..<rows} \<times> {..<cols}) (\<lambda>(r, c). c * rows + r) (\<lambda>(r, c). r * cols + c)) n h)"
proof -
  let ?X = "{..<rows} \<times> {..<cols}" and ?f = "\<lambda>(r, c). c * rows + r" and ?g = "\<lambda>(r, c). r * cols + c"
  let ?R = "\<lambda>r c. {(dst + (c * rows + r) * n, src + (r * cols + c) * n)}"
  have f: "?f x < rows * cols" if "x \<in> ?X" for x
  proof -
    from that obtain r c where x: "x = (r, c)" "r < rows" "c < cols" by auto
    show ?thesis using pos_less [OF x(3, 2)] by (simp add: x(1) mult.commute [of cols])
  qed
  have g: "?g x < rows * cols" if "x \<in> ?X" for x
  proof -
    from that obtain r c where x: "x = (r, c)" "r < rows" "c < cols" by auto
    show ?thesis using pos_less [OF x(2, 3)] by (simp add: x(1))
  qed
  have inj: "inj_on ?f ?X" by (auto simp: inj_on_def pos_inject)
  have sep: "separated (elements dst src n ?X ?f ?g) n" by (rule separated_elements [OF inj f g assms])
  have un: "elements dst src n ?X ?f ?g = (\<Union>r < rows. \<Union>c < cols. ?R r c)"
    by (simp add: elements_times) (simp add: elements_union)
  show ?thesis
    unfolding transpose_matrix_def un
  proof (rule wp_loop_copied)
    fix r h' assume r: "r < rows"
    show "wp (loop 0 cols (\<lambda>c. copy_element typed (dst + (c * rows + r) * n) (src + (r * cols + c) * n) n) h')
      (copied (\<Union>c < cols. ?R r c) n h')"
    proof (rule wp_loop_copied)
      show "separated (\<Union>c < cols. ?R r c) n"
        by (rule separated_mono [OF sep [unfolded un]]) (use r in auto)
      fix c h1 assume c: "c < cols"
      have "(dst + (c * rows + r) * n, src + (r * cols + c) * n) \<in> elements dst src n ?X ?f ?g"
        using r c unfolding un by blast
      then show "wp (copy_element typed (dst + (c * rows + r) * n) (src + (r * cols + c) * n) n h1) (copied (?R r c) n h1)"
        using separatedD(1) [OF sep] by (intro wp_copy_element) blast
    qed
  qed (use sep un in simp)
qed

definition slice_positions :: "nat \<Rightarrow> nat \<Rightarrow> nat \<Rightarrow> nat \<Rightarrow> nat \<Rightarrow> nat \<Rightarrow> (nat \<times> nat) set" where
  "slice_positions dst src n batch rows cols = elements dst src n ({..<batch} \<times> {..<rows} \<times> {..<cols})
     (\<lambda>(b, r, c). (b * cols + c) * rows + r) (\<lambda>(b, r, c). (b * rows + r) * cols + c)"

lemma separated_slice:
  assumes "regions_apart dst (batch * rows * cols * n) src (batch * rows * cols * n)"
  shows "separated (slice_positions dst src n batch rows cols) n"
  unfolding slice_positions_def
proof (rule separated_elements)
  show "inj_on (\<lambda>(b, r, c). (b * cols + c) * rows + r) ({..<batch} \<times> {..<rows} \<times> {..<cols})"
    by (auto simp: inj_on_def pos_inject)
next
  fix x assume "x \<in> {..<batch} \<times> {..<rows} \<times> {..<cols}"
  then obtain b r c where x: "x = (b, r, c)" "b < batch" "r < rows" "c < cols" by auto
  show "(case x of (b, r, c) \<Rightarrow> (b * cols + c) * rows + r) < batch * rows * cols"
    using pos_less [OF pos_less [OF x(2) x(4)] x(3)] by (simp add: x(1) ac_simps)
  show "(case x of (b, r, c) \<Rightarrow> (b * rows + r) * cols + c) < batch * rows * cols"
    using pos_less [OF pos_less [OF x(2) x(3)] x(4)] by (simp add: x(1))
qed (use assms in simp)

lemma slice_positions_batch:
  "slice_positions dst src n batch rows cols = (\<Union>b < batch. elements (dst + b * rows * cols * n)
     (src + b * rows * cols * n) n ({..<rows} \<times> {..<cols}) (\<lambda>(r, c). c * rows + r) (\<lambda>(r, c). r * cols + c))"
  unfolding slice_positions_def
  by (simp add: elements_times) (simp add: elements_union algebra_simps)

lemma wp_transpose_slice:
  assumes ext: "0 < tc_transpose_outer tc" "0 < tc_in_h tc" "0 < tc_in_w tc" "tc_out_h tc = tc_in_w tc"
      "tc_out_w tc = tc_in_h tc" "0 < tc_transpose_block tc"
    and n: "n = unat (element_size * word_of_int (tc_transpose_block tc))"
    and apart: "regions_apart dst (nat (tc_transpose_outer tc) * nat (tc_in_h tc) * nat (tc_in_w tc) * n)
      src (nat (tc_transpose_outer tc) * nat (tc_in_h tc) * nat (tc_in_w tc) * n)"
  shows "wp (transpose_slice dst src element_size tc h) (yields (copied (slice_positions dst src n
    (nat (tc_transpose_outer tc)) (nat (tc_in_h tc)) (nat (tc_in_w tc))) n h))"
proof -
  let ?b = "nat (tc_transpose_outer tc)" and ?r = "nat (tc_in_h tc)" and ?c = "nat (tc_in_w tc)"
  let ?f = "\<lambda>k. transpose_matrix (dst + k * ?r * ?c * n) (src + k * ?r * ?c * n) ?r ?c n
    (transpose_elements_are_typed dst src n)"
  have "wp (loop 0 ?b ?f h) (copied (slice_positions dst src n ?b ?r ?c) n h)"
    unfolding slice_positions_batch
  proof (rule wp_loop_copied)
    fix k h' assume k: "k < ?b"
    have "k * (?r * ?c * n) + ?r * ?c * n \<le> ?b * (?r * ?c * n)" by (rule element_inside [OF k])
    then have "regions_apart (dst + k * ?r * ?c * n) (?r * ?c * n) (src + k * ?r * ?c * n) (?r * ?c * n)"
      using apart by (auto simp: regions_apart_def ac_simps)
    then show "wp (?f k h') (copied (elements (dst + k * ?r * ?c * n) (src + k * ?r * ?c * n) n ({..<?r} \<times> {..<?c})
        (\<lambda>(r, c). c * ?r + r) (\<lambda>(r, c). r * ?c + c)) n h')"
      by (rule wp_transpose_matrix)
  qed (use separated_slice [OF apart] slice_positions_batch in simp)
  then show ?thesis
    using ext by (auto simp: transpose_slice_def n [symmetric] dest!: wpD)
qed

end
