(* ===== verification/Transpose_Walk.thy ===== *)
theory Transpose_Walk
  imports Transpose_Kernel
begin

text \<open>
  The walk of \<open>tigris_transpose_execute\<close>: the odometer over the output's coordinates, the input index it
  carries in 32 bits, and the permutation of the tensor it amounts to.
\<close>

section \<open>The odometer\<close>

definition index_sum :: "u32 list \<Rightarrow> int list \<Rightarrow> nat \<Rightarrow> u32" where
  "index_sum steps coordinate n = (\<Sum>a < n. word_of_int (coordinate ! a) * steps ! a)"

lemma lin_take_Suc:
  "n < length es \<Longrightarrow> length is = length es \<Longrightarrow>
     lin (take (Suc n) es) (take (Suc n) is) = lin (take n es) (take n is) * es ! n + is ! n"
  by (simp add: take_Suc_conv_app_nth lin_append)

lemma prod_list_positive: "(\<And>e. e \<in> set es \<Longrightarrow> 0 < e) \<Longrightarrow> 0 < prod_list (es :: int list)"
  by (induction es) auto

lemma carry_correct:
  assumes "n \<le> length shape" and "n \<le> length steps" and "length coordinate = length shape"
    and "\<forall>a < n. 0 < shape ! a \<and> shape ! a < 2147483648" and "\<forall>a < n. 0 \<le> coordinate ! a \<and> coordinate ! a < shape ! a"
  shows "wp (carry steps shape n (coordinate, idx)) (\<lambda>(coordinate', idx').
    length coordinate' = length shape \<and> (\<forall>a < n. 0 \<le> coordinate' ! a \<and> coordinate' ! a < shape ! a) \<and>
    (\<forall>a. n \<le> a \<longrightarrow> coordinate' ! a = coordinate ! a) \<and>
    idx' = idx + index_sum steps coordinate' n - index_sum steps coordinate n \<and>
    lin (take n shape) (take n coordinate') = (lin (take n shape) (take n coordinate) + 1) mod prod_list (take n shape))"
  using assms
proof (induction n arbitrary: coordinate idx)
  case 0
  then show ?case by (simp add: index_sum_def)
next
  case (Suc n)
  let ?c = "coordinate ! n + 1" and ?e = "shape ! n" and ?st = "steps ! n"
  let ?L = "lin (take n shape) (take n coordinate)" and ?P = "prod_list (take n shape)"
  have n: "n < length shape" "n < length steps" "n < length coordinate" using Suc.prems by auto
  have e: "0 < ?e" "?e < 2147483648" "0 \<le> coordinate ! n" "coordinate ! n < ?e" using Suc.prems by auto
  have P: "0 < ?P" by (rule prod_list_positive) (use Suc.prems in \<open>auto simp: in_set_conv_nth\<close>)
  have prod: "prod_list (take (Suc n) shape) = ?P * ?e" using n by (simp add: take_Suc_conv_app_nth)
  have inside: "inside (take n shape) (take n coordinate)"
    using Suc.prems by (auto simp: list_all2_conv_all_nth)
  note L = lin_bound [OF inside]
  have sum: "index_sum steps x (Suc n) = index_sum steps x n + word_of_int (x ! n) * ?st" for x
    by (simp add: index_sum_def)
  have same: "index_sum steps (coordinate[n := v]) n = index_sum steps coordinate n" for v
    by (simp add: index_sum_def)
  show ?case
  proof (cases "?c < ?e")
    case True
    have "?L * ?e + ?c < ?P * ?e"
    proof -
      have "?L * ?e \<le> (?P - 1) * ?e" using L e by (intro mult_right_mono) auto
      then show ?thesis using True by (simp add: algebra_simps)
    qed
    moreover have "0 \<le> ?L * ?e" using L e by simp
    ultimately have "(?L * ?e + ?c) mod (?P * ?e) = ?L * ?e + ?c"
      using e by (intro mod_pos_pos_trivial) linarith+
    then have "(?L * ?e + coordinate ! n + 1) mod (?P * ?e) = ?L * ?e + ?c" by (simp add: add.assoc)
    then show ?thesis
      using True n e Suc.prems
      by (auto simp: wp_rules lin_take_Suc prod sum same nth_list_update less_Suc_eq algebra_simps)
  next
    case False
    then have c: "?c = ?e" using e by simp
    let ?z = "coordinate[n := 0]"
    have "wp (carry steps shape n (?z, idx + ?st - ?st * word_of_int ?e)) (\<lambda>(coordinate', idx').
      length coordinate' = length shape \<and> (\<forall>a < n. 0 \<le> coordinate' ! a \<and> coordinate' ! a < shape ! a) \<and>
      (\<forall>a. n \<le> a \<longrightarrow> coordinate' ! a = ?z ! a) \<and>
      idx' = idx + ?st - ?st * word_of_int ?e + index_sum steps coordinate' n - index_sum steps ?z n \<and>
      lin (take n shape) (take n coordinate') = (lin (take n shape) (take n ?z) + 1) mod ?P)"
      by (rule Suc.IH) (use Suc.prems in auto)
    then obtain z' idx' where z': "carry steps shape n (?z, idx + ?st - ?st * word_of_int ?e) = Some (z', idx')"
      "length z' = length shape" "\<forall>a < n. 0 \<le> z' ! a \<and> z' ! a < shape ! a" "\<forall>a. n \<le> a \<longrightarrow> z' ! a = ?z ! a"
      "idx' = idx + ?st - ?st * word_of_int ?e + index_sum steps z' n - index_sum steps coordinate n"
      "lin (take n shape) (take n z') = (?L + 1) mod ?P"
      by (auto simp: same dest!: wpD)
    have "?L * ?e + coordinate ! n + 1 = (?L + 1) * ?e" using c by (simp add: distrib_right)
    then have "(?L * ?e + coordinate ! n + 1) mod (?P * ?e) = ((?L + 1) * ?e) mod (?P * ?e)" by (simp only:)
    also have "\<dots> = ((?L + 1) mod ?P) * ?e" by (simp add: mult_mod_left)
    finally have lin': "((?L + 1) mod ?P) * ?e = (?L * ?e + coordinate ! n + 1) mod (?P * ?e)" by simp
    have zn: "z' ! n = 0" "\<And>a. Suc n \<le> a \<Longrightarrow> z' ! a = coordinate ! a" using z'(4) n by auto
    have w: "word_of_int ?e = (word_of_int (coordinate ! n) + 1 :: u32)" using c by (metis of_int_add of_int_1)
    show ?thesis
      using False n e z' zn Suc.prems(3) lin'
      by (auto simp: wp_rules lin_take_Suc prod sum less_Suc_eq w algebra_simps)
  qed
qed

text \<open>The coordinates of a position.\<close>

fun digits :: "int list \<Rightarrow> int \<Rightarrow> int list" where
  "digits [] x = []"
| "digits (e # es) x = (x div prod_list es) # digits es (x mod prod_list es)"

lemma length_digits [simp]: "length (digits es x) = length es"
  by (induction es x rule: digits.induct) auto

lemma digits_lin: "inside es is \<Longrightarrow> digits es (lin es is) = is"
proof (induction es "is" rule: lin.induct)
  case (1 e es i "is")
  then have ins: "inside es is" by simp
  note b = lin_bound [OF ins]
  have "(i * prod_list es + lin es is) div prod_list es = i" using b by simp
  moreover have "(i * prod_list es + lin es is) mod prod_list es = lin es is"
    using b by (metis mod_mult_self3 mod_pos_pos_trivial)
  ultimately show ?case using 1 ins by simp
qed auto

lemma step_odometer_rank:
  assumes "shape \<noteq> []" and "length shape < 256"
  shows "step_odometer steps shape (word_of_nat (length shape)) s = carry steps shape (length shape) s"
proof -
  have u: "unat (word_of_nat (length shape) :: u8) = length shape" using assms(2) by (rule unat_of_nat_u8)
  then have "(word_of_nat (length shape) :: u8) \<noteq> 0" using assms(1) by (metis length_0_conv unat_0)
  then show ?thesis by (simp add: step_odometer_carry u)
qed

text \<open>The walk: element \<open>o\<close> of the output comes from the position the odometer then shows.\<close>

definition walk_source :: "u32 list \<Rightarrow> int list \<Rightarrow> nat \<Rightarrow> nat" where
  "walk_source steps shape x = unat (index_sum steps (digits shape (int x)) (length shape))"

lemma wp_walk:
  assumes len: "length steps = length shape" and rank: "shape \<noteq> []" "length shape < 256"
    and pos: "\<forall>e \<in> set shape. 0 < e \<and> e < 2147483648"
    and N: "int N = prod_list shape" and src: "\<And>x. x < N \<Longrightarrow> walk_source steps shape x < M"
    and apart: "regions_apart dst (N * n) src (M * n)"
  shows "wp (loop 0 N (walk_step dst src n typed steps shape) ((replicate (length shape) 0, 0), h))
    (\<lambda>(_, h'). copied (elements dst src n {..<N} id (walk_source steps shape)) n h h')"
proof -
  let ?R = "\<lambda>k. elements dst src n {..<k} id (walk_source steps shape)"
  let ?I = "\<lambda>k (s, h'). inside shape (fst s) \<and> snd s = index_sum steps (fst s) (length shape) \<and>
    lin shape (fst s) = int k mod prod_list shape \<and> copied (?R k) n h h'"
  have sep: "separated (?R N) n"
    by (rule separated_elements [OF _ _ src apart]) auto
  have "wp (loop 0 N (walk_step dst src n typed steps shape) ((replicate (length shape) 0, 0), h)) (?I (0 + N))"
  proof (rule wp_loop [where I = ?I])
    have "lin es (replicate (length es) 0) = 0" for es by (induction es) auto
    then show "?I 0 ((replicate (length shape) 0, 0), h)"
      using pos by (auto simp: list_all2_conv_all_nth index_sum_def elements_def)
  next
    fix k t assume k: "k < 0 + N" and I: "?I k t"
    obtain coordinate idx h1 where t: "t = ((coordinate, idx), h1)" by (metis prod.exhaust)
    have ins: "inside shape coordinate" and idx: "idx = index_sum steps coordinate (length shape)"
      and lin: "lin shape coordinate = int k" and h1: "copied (?R k) n h h1"
      using I k N by (auto simp: t)
    have source: "unat idx = walk_source steps shape k"
      using digits_lin [OF ins] by (simp add: walk_source_def idx lin)
    have Suc_eq: "?R (Suc k) = ?R k \<union> {(dst + k * n, src + walk_source steps shape k * n)}"
      by (auto simp: elements_def less_Suc_eq)
    have sepk: "separated (?R (Suc k)) n"
      by (rule separated_mono [OF sep]) (use k in \<open>auto simp: elements_def\<close>)
    have "apart (dst + k * n) (src + walk_source steps shape k * n) n"
      using separatedD(1) [OF sepk] unfolding Suc_eq by blast
    from wp_copy_element [OF this, of typed h1] obtain h2
      where h2: "copy_element typed (dst + k * n) (src + walk_source steps shape k * n) n h1 = Some h2"
        "copied {(dst + k * n, src + walk_source steps shape k * n)} n h1 h2" by (auto dest: wpD)
    have "copied (?R (Suc k)) n h h2"
      unfolding Suc_eq by (rule copied_Un [OF sepk [unfolded Suc_eq] h1 h2(2)])
    moreover have "wp (step_odometer steps shape (word_of_nat (length shape)) (coordinate, idx)) (\<lambda>s. inside shape (fst s) \<and>
      snd s = index_sum steps (fst s) (length shape) \<and> lin shape (fst s) = int (Suc k) mod prod_list shape)"
      unfolding step_odometer_rank [OF rank]
      by (rule wp_mono [OF carry_correct])
        (use ins pos len lin idx in \<open>auto simp: list_all2_conv_all_nth mod_simps add.commute\<close>)
    ultimately show "wp (walk_step dst src n typed steps shape k t) (?I (Suc k))"
      using h2(1) by (auto simp: walk_step_def t source dest!: wpD)
  qed
  then show ?thesis by (auto elim: wp_mono)
qed

text \<open>Positions and coordinates are in one-to-one correspondence.\<close>

lemma lin_digits: "(\<And>e. e \<in> set es \<Longrightarrow> 0 < e) \<Longrightarrow> 0 \<le> x \<Longrightarrow> x < prod_list es \<Longrightarrow>
  inside es (digits es x) \<and> lin es (digits es x) = x"
proof (induction es x rule: digits.induct)
  case (2 e es x)
  have P: "0 < prod_list es" by (rule prod_list_positive) (use "2.prems" in auto)
  have "prod_list es * (x div prod_list es) + x mod prod_list es = x" "0 \<le> x mod prod_list es" using P by simp_all
  then have "prod_list es * (x div prod_list es) < prod_list es * e"
    using "2.prems"(3) by (simp only: prod_list.Cons mult.commute [of e])
  then have "x div prod_list es < e" using P by simp
  moreover have "0 \<le> x div prod_list es" using "2.prems" P by (simp add: pos_imp_zdiv_nonneg_iff)
  ultimately show ?case using 2 P by simp
qed simp

lemma lin_sum: "length is = length es \<Longrightarrow> lin es is = (\<Sum>b < length es. is ! b * prod_list (drop (Suc b) es))"
proof (induction es "is" rule: list_induct2')
  case (4 e es i "is")
  have "(\<Sum>b < length (e # es). (i # is) ! b * prod_list (drop (Suc b) (e # es))) =
      i * prod_list es + (\<Sum>b < length es. is ! b * prod_list (drop (Suc b) es))"
    by (simp add: sum.lessThan_Suc_shift del: sum.lessThan_Suc)
  then show ?case using 4 by simp
qed auto

text \<open>The steps the kernel computes are the strides of the input axes the output axes come from.\<close>

definition axis_stride :: "int list \<Rightarrow> nat \<Rightarrow> u32" where
  "axis_stride shape b = word_of_int (prod_list (drop (Suc b) shape))"

lemma input_strides_Some:
  "n \<le> length shape \<Longrightarrow> input_strides shape n (word_of_int (prod_list (drop n shape))) acc =
    Some (map (axis_stride shape) [0..<n] @ acc)"
proof (induction n arbitrary: acc)
  case (Suc n)
  then have n: "n < length shape" by simp
  have "drop n shape = shape ! n # drop (Suc n) shape" using n by (simp add: Cons_nth_drop_Suc)
  then have "word_of_int (prod_list (drop (Suc n) shape)) * word_of_int (shape ! n) = (word_of_int (prod_list (drop n shape)) :: u32)"
    by (simp add: mult.commute [of "prod_list _"])
  then show ?case using Suc n by (simp add: arr_get_def axis_stride_def)
qed simp

lemma output_steps_Some:
  "axis + n \<le> length perm \<Longrightarrow> (\<And>a. axis \<le> a \<Longrightarrow> a < axis + n \<Longrightarrow> unat (perm ! a) < length strides) \<Longrightarrow>
    output_steps strides perm axis n = Some (map (\<lambda>a. strides ! unat (perm ! a)) [axis..<axis + n])"
proof (induction strides perm axis n rule: output_steps.induct)
  case (2 strides perm axis n)
  then have "output_steps strides perm (Suc axis) n = Some (map (\<lambda>a. strides ! unat (perm ! a)) [Suc axis..<Suc axis + n])"
    by (intro "2.IH" [of "perm ! axis" "strides ! unat (perm ! axis)"]) (auto simp: arr_get_def)
  then show ?case using "2.prems" by (simp add: arr_get_def upt_conv_Cons del: upt_Suc)
qed simp

definition walk_steps :: "bytes \<Rightarrow> int list \<Rightarrow> u32 list" where
  "walk_steps perm shape = map (\<lambda>a. axis_stride shape (unat (perm ! a))) [0..<length shape]"

lemma walk_steps_computed:
  assumes "length shape \<le> length perm" and "\<forall>a < length shape. unat (perm ! a) < length shape"
  shows "input_strides shape (length shape) 1 [] = Some (map (axis_stride shape) [0..<length shape])"
    and "output_steps (map (axis_stride shape) [0..<length shape]) perm 0 (length shape) = Some (walk_steps perm shape)"
proof -
  show "input_strides shape (length shape) 1 [] = Some (map (axis_stride shape) [0..<length shape])"
    using input_strides_Some [of "length shape" shape "[]"] by simp
  show "output_steps (map (axis_stride shape) [0..<length shape]) perm 0 (length shape) = Some (walk_steps perm shape)"
    by (subst output_steps_Some) (use assms in \<open>auto simp: walk_steps_def\<close>)
qed

text \<open>\<open>permutation ps n\<close>: the list names every one of the \<open>n\<close> axes once.\<close>

definition permutation :: "nat list \<Rightarrow> nat \<Rightarrow> bool" where
  "permutation ps n = (length ps = n \<and> distinct ps \<and> set ps = {..<n})"

lemma permutation_less: "permutation ps n \<Longrightarrow> a < n \<Longrightarrow> ps ! a < n"
  unfolding permutation_def by (metis lessThan_iff nth_mem)

lemma permutation_sum: "permutation ps n \<Longrightarrow> (\<Sum>a < n. f (ps ! a)) = (\<Sum>b < n. f b)"
  by (intro sum.reindex_bij_betw) (auto simp: permutation_def intro!: bij_betw_nth)

lemma walk_index:
  assumes "permutation (map unat (take (length shape) perm)) (length shape)" and "length shape \<le> length perm"
    and "length idx = length shape"
  shows "index_sum (walk_steps perm shape) (permuted (map unat (take (length shape) perm)) idx) (length shape) =
    word_of_int (lin shape idx)"
proof -
  let ?ps = "map unat (take (length shape) perm)"
  have "index_sum (walk_steps perm shape) (permuted ?ps idx) (length shape) =
      (\<Sum>a < length shape. (\<lambda>b. word_of_int (idx ! b * prod_list (drop (Suc b) shape)) :: u32) (?ps ! a))"
    using assms by (auto simp: index_sum_def walk_steps_def permuted_def axis_stride_def intro!: sum.cong)
  also have "\<dots> = (\<Sum>b < length shape. word_of_int (idx ! b * prod_list (drop (Suc b) shape)))"
    by (rule permutation_sum [OF assms(1)])
  also have "\<dots> = word_of_int (lin shape idx)" using assms(3) by (simp add: lin_sum)
  finally show ?thesis .
qed

lemma set_permuted: "permutation ps (length xs) \<Longrightarrow> set (permuted ps xs) = set xs"
  using nth_image [of "length xs" xs] by (simp add: permuted_def permutation_def atLeast0LessThan)

lemma permuted_inverse:
  assumes "permutation ps (length c)"
  obtains idx where "length idx = length c" "permuted ps idx = c"
proof
  let ?idx = "map (\<lambda>b. c ! (SOME a. a < length c \<and> ps ! a = b)) [0..<length c]"
  have len: "length ps = length c" and dist: "distinct ps" using assms by (simp_all add: permutation_def)
  have some: "(SOME a'. a' < length c \<and> ps ! a' = ps ! a) = a" if "a < length c" for a
    using that len nth_eq_iff_index_eq [OF dist] by (intro some_equality) auto
  show "permuted ps ?idx = c"
  proof (rule nth_equalityI)
    fix a assume "a < length (permuted ps ?idx)"
    then have a: "a < length c" using len by (simp add: permuted_def)
    show "permuted ps ?idx ! a = c ! a"
      using a len permutation_less [OF assms a] some [OF a] by (simp add: permuted_def)
  qed (simp add: permuted_def len)
  show "length ?idx = length c" by simp
qed

lemma inside_permuted:
  assumes "permutation ps (length shape)" and "length idx = length shape"
  shows "inside (permuted ps shape) (permuted ps idx) = inside shape idx"
proof -
  have len: "length ps = length shape" and set: "set ps = {..<length shape}" using assms(1) by (simp_all add: permutation_def)
  let ?P = "\<lambda>b. 0 \<le> idx ! b \<and> idx ! b < shape ! b"
  have "inside (permuted ps shape) (permuted ps idx) = (\<forall>a < length ps. ?P (ps ! a))"
    by (auto simp: list_all2_conv_all_nth permuted_def)
  also have "\<dots> = (\<forall>b \<in> set ps. ?P b)" by (simp only: all_set_conv_all_nth)
  also have "\<dots> = inside shape idx" using assms(2) set by (auto simp: list_all2_conv_all_nth)
  finally show ?thesis .
qed

lemma prod_permuted: "permutation ps (length shape) \<Longrightarrow> prod_list (permuted ps shape) = prod_list (shape :: int list)"
proof -
  assume p: "permutation ps (length shape)"
  then have "prod_list (permuted ps shape) = (\<Prod>b \<in> {..<length shape}. shape ! b)"
    by (simp add: permuted_def permutation_def prod.distinct_set_conv_list [symmetric])
  then show ?thesis by (simp add: prod.list_conv_set_nth atLeast0LessThan)
qed

text \<open>The positions of a permuted tensor: element \<open>idx\<close> of the input is element \<open>permuted ps idx\<close> of
  the output.\<close>

definition permuted_elements :: "nat \<Rightarrow> nat \<Rightarrow> nat \<Rightarrow> nat list \<Rightarrow> int list \<Rightarrow> (nat \<times> nat) set" where
  "permuted_elements dst src n ps shape = elements dst src n {idx. inside shape idx}
     (\<lambda>idx. nat (lin (permuted ps shape) (permuted ps idx))) (\<lambda>idx. nat (lin shape idx))"

lemma walk_positions:
  assumes ps: "permutation (map unat (take (length shape) perm)) (length shape)" and len: "length shape \<le> length perm"
    and pos: "\<forall>e \<in> set shape. 0 < e" and N: "int N = prod_list shape" "prod_list shape < 4294967296"
  defines "out \<equiv> permuted (map unat (take (length shape) perm)) shape"
  shows "elements dst src n {..<N} id (walk_source (walk_steps perm shape) out) =
      permuted_elements dst src n (map unat (take (length shape) perm)) shape"
    and "x < N \<Longrightarrow> walk_source (walk_steps perm shape) out x < N"
proof -
  let ?ps = "map unat (take (length shape) perm)"
  have lo: "length out = length shape" using ps by (simp add: out_def permuted_def permutation_def)
  have po: "prod_list out = int N" using prod_permuted [OF ps] N by (simp add: out_def)
  have opos: "e \<in> set out \<Longrightarrow> 0 < e" for e
    using pos set_permuted [OF ps] by (simp add: out_def)
  have at: "walk_source (walk_steps perm shape) out (nat (lin out (permuted ?ps idx))) = nat (lin shape idx)"
    if "inside shape idx" for idx
  proof -
    have l: "length idx = length shape" using that by (auto dest: list_all2_lengthD)
    have io: "inside out (permuted ?ps idx)" using inside_permuted [OF ps l] that by (simp add: out_def)
    show ?thesis
      using digits_lin [OF io] lin_bound [OF io] lin_bound [OF that] walk_index [OF ps len l] N
      by (simp add: walk_source_def lo unsigned_of_int take_bit_int_eq_self)
  qed
  have ex: "\<exists>idx. inside shape idx \<and> x = nat (lin out (permuted ?ps idx))" if "x < N" for x
  proof -
    have c: "inside out (digits out (int x))" "lin out (digits out (int x)) = int x"
      using lin_digits [of out "int x"] opos that po by auto
    obtain idx where idx: "length idx = length shape" "permuted ?ps idx = digits out (int x)"
      by (rule permuted_inverse [of ?ps "digits out (int x)"]) (use ps lo in auto)
    show ?thesis
      using c idx inside_permuted [OF ps idx(1)] by (intro exI [of _ idx]) (simp add: out_def)
  qed
  have less: "nat (lin out (permuted ?ps idx)) < N" if "inside shape idx" for idx
  proof -
    have "length idx = length shape" using that by (auto dest: list_all2_lengthD)
    then have "inside out (permuted ?ps idx)" using inside_permuted [OF ps] that by (simp add: out_def)
    from lin_bound [OF this] show ?thesis using po by linarith
  qed
  show "elements dst src n {..<N} id (walk_source (walk_steps perm shape) out) = permuted_elements dst src n ?ps shape"
  proof (rule subset_antisym)
    show "elements dst src n {..<N} id (walk_source (walk_steps perm shape) out) \<subseteq> permuted_elements dst src n ?ps shape"
      using ex at by (force simp: elements_def permuted_elements_def out_def [symmetric])
    show "permuted_elements dst src n ?ps shape \<subseteq> elements dst src n {..<N} id (walk_source (walk_steps perm shape) out)"
      using less at by (force simp: elements_def permuted_elements_def out_def [symmetric])
  qed
  show "walk_source (walk_steps perm shape) out x < N" if x: "x < N"
  proof -
    obtain idx where idx: "inside shape idx" "x = nat (lin out (permuted ?ps idx))" using ex [OF x] by blast
    have "nat (lin shape idx) < N" using lin_bound [OF idx(1)] N by linarith
    then show ?thesis using at [OF idx(1)] idx(2) by simp
  qed
qed

lemma wp_transpose_walk:
  assumes ps: "permutation (map unat (take (length shape) perm)) (length shape)" and len: "length shape \<le> length perm"
    and rank: "shape \<noteq> []" "length shape < 256"
    and pos: "\<forall>e \<in> set shape. 0 < e \<and> e < 2147483648"
    and N: "unat count = nat (prod_list shape)" "prod_list shape < 4294967296"
    and apart: "regions_apart dst (nat (prod_list shape) * n) src (nat (prod_list shape) * n)"
  shows "wp (transpose_walk dst src n perm shape (permuted (map unat (take (length shape) perm)) shape) count h)
    (copied (permuted_elements dst src n (map unat (take (length shape) perm)) shape) n h)"
proof -
  let ?ps = "map unat (take (length shape) perm)" and ?N = "nat (prod_list shape)"
  let ?out = "permuted ?ps shape"
  have P: "0 < prod_list shape" by (rule prod_list_positive) (use pos in auto)
  have lo: "length ?out = length shape" using ps by (simp add: permuted_def permutation_def)
  have in_out: "set ?out = set shape"
    by (rule set_permuted [OF ps])
  have less: "\<forall>a < length shape. unat (perm ! a) < length shape"
    using permutation_less [OF ps] len by auto
  note walk = walk_positions [OF ps len _ _ N(2), of ?N]
  have "wp (loop 0 ?N (walk_step dst src n (transpose_elements_are_typed dst src n) (walk_steps perm shape) ?out)
      ((replicate (length ?out) 0, 0), h))
    (\<lambda>(_, h'). copied (elements dst src n {..<?N} id (walk_source (walk_steps perm shape) ?out)) n h h')"
  proof (rule wp_walk)
    show "length (walk_steps perm shape) = length ?out" by (simp add: walk_steps_def lo)
    show "?out \<noteq> []" using rank(1) lo by (metis length_0_conv)
    show "length ?out < 256" using rank(2) lo by simp
    show "\<forall>e \<in> set ?out. 0 < e \<and> e < 2147483648" using in_out pos by blast
    show "int ?N = prod_list ?out" using prod_permuted [OF ps] P by simp
    show "walk_source (walk_steps perm shape) ?out x < ?N" if "x < ?N" for x
      using walk(2) [OF _ _ that] pos P by auto
  qed (rule apart)
  moreover have "elements dst src n {..<?N} id (walk_source (walk_steps perm shape) ?out) = permuted_elements dst src n ?ps shape"
    by (rule walk(1)) (use pos P in auto)
  ultimately show ?thesis
    using walk_steps_computed [OF len less] by (auto simp: transpose_walk_def N(1) lo dest!: wpD)
qed

end
