(* ===== verification/Transpose_Execute.thy ===== *)
theory Transpose_Execute
  imports Transpose_Walk
begin

text \<open>
  The transpose kernel as a whole. \<open>transposes\<close> says that an operator of a plan permutes the axes of
  one tensor into another; then \<open>tigris_transpose_execute\<close> writes the permuted tensor, or, on a
  banded slice, transposes the batch of matrices the tile describes.
\<close>

section \<open>What the plan says of the operator\<close>

definition transpose_parts ::
  "tigris_plan \<Rightarrow> tigris_op \<Rightarrow> u16 \<Rightarrow> u16 \<Rightarrow> u16 \<Rightarrow> nat list \<Rightarrow> int list \<Rightarrow> nat \<Rightarrow>
     tigris_tensor \<Rightarrow> tigris_tensor \<Rightarrow> nat \<Rightarrow> bool" where
  "transpose_parts pl oper op_index tin tout ps shape n input output data = (
     op_num_inputs oper = 1 \<and> op_num_outputs oper = 1 \<and>
     tigris_op_inputs pl oper 0 = Some tin \<and> tigris_op_outputs pl oper 0 = Some tout \<and>
     plan_tensor pl (unat tin) = Some input \<and> plan_tensor pl (unat tout) = Some output \<and>
     tigris_op_attribute_data pl op_index ATTR_TRANSPOSE_PERM = Some (Some (data, tn_ndim input)) \<and>
     tn_ndim output = tn_ndim input \<and> 0 < tn_ndim input \<and> tn_ndim input \<le> 8 \<and> data + unat (tn_ndim input) \<le> length (p_buf pl) \<and>
     ps = map unat (attribute_bytes pl (data, tn_ndim input)) \<and> permutation ps (unat (tn_ndim input)) \<and>
     read_shape pl input (unat (tn_ndim input)) = Some shape \<and>
     read_shape pl output (unat (tn_ndim input)) = Some (permuted ps shape) \<and>
     (\<forall>e \<in> set shape. 0 < e \<and> e < 2147483648) \<and>
     int (unat (tn_size_bytes input)) = prod_list shape * int n \<and> tn_size_bytes output = tn_size_bytes input \<and> 0 < n)"

definition transposes ::
  "tigris_plan \<Rightarrow> tigris_op \<Rightarrow> u16 \<Rightarrow> u16 \<Rightarrow> u16 \<Rightarrow> nat list \<Rightarrow> int list \<Rightarrow> nat \<Rightarrow> bool" where
  "transposes pl oper op_index tin tout ps shape n =
     (\<exists>input output data. transpose_parts pl oper op_index tin tout ps shape n input output data)"

text \<open>The tensor at \<open>src\<close> before, permuted, at \<open>dst\<close> after.\<close>

definition permuted_tensor :: "nat list \<Rightarrow> int list \<Rightarrow> nat \<Rightarrow> nat \<Rightarrow> nat \<Rightarrow> ram \<Rightarrow> ram \<Rightarrow> bool" where
  "permuted_tensor ps shape n dst src h h' = (\<forall>idx k. inside shape idx \<and> k < n \<longrightarrow>
     h' (dst + nat (lin (permuted ps shape) (permuted ps idx)) * n + k) = h (src + nat (lin shape idx) * n + k))"

definition tensor_at :: "mem \<Rightarrow> u16 \<Rightarrow> nat \<Rightarrow> bool" where
  "tensor_at m t p = (t < num_tensors m \<and> unat t < length (tensor_ptrs m) \<and> tensor_ptrs m ! unat t = p \<and> p \<noteq> 0)"

lemma tensor_ptr_at: "tensor_at m t p \<Longrightarrow> tigris_mem_tensor_ptr (Some m) t = Some p"
  by (auto simp: tensor_at_def tigris_mem_tensor_ptr_def arr_get_def)

section \<open>The checks pass\<close>

lemma read_shape_length:
  assumes "read_shape pl t n = Some xs"
  shows "length xs = n"
proof -
  have "length xs = 0 + n"
    by (rule loop_invariant [OF assms [unfolded read_shape_def], where I = "\<lambda>i xs. length xs = i"])
      (auto simp: bind_eq_Some_conv)
  then show ?thesis by simp
qed

lemma count_elements_correct:
  assumes "length shape = rank" and "rank \<le> length perm" and "\<And>e. e \<in> set shape \<Longrightarrow> 0 < e"
    and "\<And>a. a < rank \<Longrightarrow> unat (perm ! a) < rank"
  shows "count_elements perm rank shape = Some (Inr (word_of_int (prod_list shape)))"
proof -
  have "wp (count_elements perm rank shape) (yields (\<lambda>c. c = word_of_int (prod_list (take rank shape))))"
    unfolding count_elements_def
  proof (rule wp_for_range_yields [where I = "\<lambda>k c. c = word_of_int (prod_list (take k shape))"])
    fix k and c :: u32 assume k: "k < rank" and c: "c = word_of_int (prod_list (take k shape))"
    have "shape ! k \<in> set shape" using k assms(1) by simp
    then show "wp (do { e \<leftarrow> arr_get shape k; x \<leftarrow> arr_get perm k;
        if e \<le> 0 \<or> unat x \<ge> rank then fail () else ret (c * word_of_int e) })
      (yields (\<lambda>c. c = word_of_int (prod_list (take (Suc k) shape))))"
      using k c assms(1, 2) assms(3) [of "shape ! k"] assms(4) [OF k]
      by (simp add: wp_rules take_Suc_conv_app_nth)
  qed simp_all
  then show ?thesis using assms(1) by (auto dest!: wpD simp: yields_def split: sum.splits)
qed

lemma transpose_partsD:
  assumes "transpose_parts pl oper op_index tin tout ps shape n input out data"
  shows "op_num_inputs oper = 1" "op_num_outputs oper = 1"
    "tigris_op_inputs pl oper 0 = Some tin" "tigris_op_outputs pl oper 0 = Some tout"
    "plan_tensor pl (unat tin) = Some input" "plan_tensor pl (unat tout) = Some out"
    "tigris_op_attribute_data pl op_index ATTR_TRANSPOSE_PERM = Some (Some (data, tn_ndim input))"
    "tn_ndim out = tn_ndim input" "tn_ndim input \<le> 8" "data + unat (tn_ndim input) \<le> length (p_buf pl)"
    "ps = map unat (attribute_bytes pl (data, tn_ndim input))" "permutation ps (unat (tn_ndim input))"
    "read_shape pl input (unat (tn_ndim input)) = Some shape"
    "read_shape pl out (unat (tn_ndim input)) = Some (permuted ps shape)"
    "\<forall>e \<in> set shape. 0 < e \<and> e < 2147483648" "int (unat (tn_size_bytes input)) = prod_list shape * int n"
    "tn_size_bytes out = tn_size_bytes input" "0 < n" "0 < tn_ndim input"
  using assms unfolding transpose_parts_def by blast+

lemma transposesE:
  assumes "transposes pl oper op_index tin tout ps shape n"
  obtains input out data where "transpose_parts pl oper op_index tin tout ps shape n input out data"
  using assms by (auto simp: transposes_def)

lemma transposes_extents:
  assumes "transposes pl oper op_index tin tout ps shape n"
  shows "\<forall>e \<in> set shape. 0 < e \<and> e < 2147483648" "0 < prod_list shape" "prod_list shape * int n < 4294967296"
    "prod_list shape < 4294967296" "n < 4294967296" "0 < n" "shape \<noteq> []" "length shape < 256"
proof -
  obtain input out data where parts: "transpose_parts pl oper op_index tin tout ps shape n input out data"
    by (rule transposesE [OF assms])
  note p = transpose_partsD [OF parts]
  show P: "0 < prod_list shape" by (rule prod_list_positive) (use p(15) in auto)
  show all: "prod_list shape * int n < 4294967296" using p(16) unat_u32_less [of "tn_size_bytes input"] by linarith
  have "prod_list shape * 1 \<le> prod_list shape * int n" using P p(18) by (intro mult_left_mono) auto
  then show "prod_list shape < 4294967296" using all by linarith
  have "1 * int n \<le> prod_list shape * int n" using P by (intro mult_right_mono) auto
  then show "n < 4294967296" using all by linarith
  show "\<forall>e \<in> set shape. 0 < e \<and> e < 2147483648" "0 < n" by (rule p(15), rule p(18))
  have len: "length shape = unat (tn_ndim input)" by (rule read_shape_length [OF p(13)])
  have "unat (tn_ndim input) \<noteq> 0" using p(19) by (simp add: word_less_nat_alt)
  then show "shape \<noteq> []" using len by force
  show "length shape < 256" using len unat_u8_less [of "tn_ndim input"] by simp
qed

lemma transposes_execute:
  assumes t: "transposes pl oper op_index tin tout ps shape n" and at: "tensor_at m tin src" "tensor_at m tout dst"
    and whole: "\<not> (tc_active (tile m) \<and> tc_row_tiled (tile m) \<ge> BAND_AXIS_BASE)"
  obtains perm where "ps = map unat (take (length shape) perm)" "length shape \<le> length perm"
    "permutation ps (length shape)"
    "tigris_transpose_execute independent pl oper op_index m h =
       (if tc_active (tile m) \<and> tc_transposed_tile (tile m)
        then transpose_slice dst src (word_of_nat n) (tile m) h
        else map_option Inr (transpose_walk dst src n perm shape (permuted ps shape) (word_of_int (prod_list shape)) h))"
proof -
  obtain input out data where parts: "transpose_parts pl oper op_index tin tout ps shape n input out data"
    by (rule transposesE [OF t])
  note p = transpose_partsD [OF parts]
  let ?perm = "attribute_bytes pl (data, tn_ndim input)" and ?rank = "unat (tn_ndim input)"
  have len: "length shape = ?rank" using read_shape_length [OF p(13)] .
  have plen: "length ?perm = ?rank" using p(10) by (simp add: attribute_bytes_def)
  have perm: "permutation ps (length shape)" using p(12) len by simp
  note P = transposes_extents(2) [OF t] and small = transposes_extents(4) [OF t] and nsmall = transposes_extents(5) [OF t]
  let ?c = "word_of_int (prod_list shape) :: u32"
  have c: "unat ?c = nat (prod_list shape)" using P small by (simp add: unsigned_of_int take_bit_int_eq_self)
  have size: "unat (tn_size_bytes input) = nat (prod_list shape) * n" using p(16) P by (metis nat_int nat_mult_distrib less_imp_le)
  have c0: "?c \<noteq> 0" using c P by (metis nat_less_iff unat_0 zero_less_nat_eq less_irrefl)
  have rest: "tn_size_bytes input mod ?c = 0"
    unfolding word_unat_eq_iff unat_mod c size by simp
  have n: "tn_size_bytes input div ?c = word_of_nat n"
    using P nsmall unfolding word_unat_eq_iff unat_div c size by (simp add: unat_of_nat_u32)
  have "unat (?perm ! a) < ?rank" if "a < ?rank" for a
    using permutation_less [OF p(12) that] that plen by (simp add: p(11))
  moreover have "e \<in> set (permuted ps shape) \<Longrightarrow> 0 < e" for e using set_permuted [OF perm] p(15) by auto
  moreover have "length (permuted ps shape) = ?rank" using p(12) by (simp add: permuted_def permutation_def)
  ultimately have count: "count_elements ?perm ?rank (permuted ps shape) = Some (Inr ?c)"
    using count_elements_correct [of "permuted ps shape" ?rank ?perm] plen prod_permuted [OF perm] by simp
  have band: "band_shapes independent pl oper op_index input (tile m) (?c, shape, permuted ps shape) =
      Some (Inr (?c, shape, permuted ps shape))"
    by (simp add: band_shapes_def if_not_P [OF whole])
  have ptrs: "tigris_mem_tensor_ptr (Some m) tin = Some src" "tigris_mem_tensor_ptr (Some m) tout = Some dst" "src \<noteq> 0" "dst \<noteq> 0"
    using at by (auto simp: tensor_ptr_at) (auto simp: tensor_at_def)
  have rank: "\<not> 8 < tn_ndim input" using p(9) by simp
  have nn: "unat (word_of_nat n :: u32) = n" using nsmall by (rule unat_of_nat_u32)
  show thesis
  proof
    show "ps = map unat (take (length shape) ?perm)" using p(11) plen len by simp
    show "length shape \<le> length ?perm" using plen len by simp
    show "permutation ps (length shape)" by (rule perm)
    show "tigris_transpose_execute independent pl oper op_index m h =
       (if tc_active (tile m) \<and> tc_transposed_tile (tile m)
        then transpose_slice dst src (word_of_nat n) (tile m) h
        else map_option Inr (transpose_walk dst src n ?perm shape (permuted ps shape) ?c h))"
      using p(1-8, 13, 14, 17) rank ptrs c0 rest n nn count band
      by (simp add: tigris_transpose_execute_def Let_def)
  qed
qed

section \<open>Properties\<close>

lemma permuted_elements_tensor:
  assumes "permutation ps (length shape)" and "copied (permuted_elements dst src n ps shape) n h h'"
  shows "permuted_tensor ps shape n dst src h h'"
    and "a < dst \<or> dst + nat (prod_list shape) * n \<le> a \<Longrightarrow> h' a = h a"
proof -
  show "permuted_tensor ps shape n dst src h h'"
    unfolding permuted_tensor_def
    by (intro allI impI copied_src [OF assms(2)]) (auto simp: permuted_elements_def elements_def)
  show "h' a = h a" if a: "a < dst \<or> dst + nat (prod_list shape) * n \<le> a"
  proof (rule copied_frame [OF assms(2)])
    fix d s assume "(d, s) \<in> permuted_elements dst src n ps shape"
    then obtain idx where idx: "inside shape idx" "d = dst + nat (lin (permuted ps shape) (permuted ps idx)) * n"
      by (auto simp: permuted_elements_def elements_def)
    have "length idx = length shape" using idx(1) by (auto dest: list_all2_lengthD)
    then have "inside (permuted ps shape) (permuted ps idx)" using inside_permuted [OF assms(1)] idx(1) by simp
    from lin_bound [OF this] have "nat (lin (permuted ps shape) (permuted ps idx)) < nat (prod_list shape)"
      using prod_permuted [OF assms(1)] by linarith
    from element_inside [OF this, of n] show "a < d \<or> d + n \<le> a" using a idx(2) by auto
  qed
qed

text \<open>C6. The transpose kernel transposes. For an operator that permutes the axes of one tensor into
  another of the same size, run on whole tensors that do not overlap, \<open>tigris_transpose_execute\<close>
  succeeds; every element then stands at its permuted coordinates in the output, and no byte outside
  the output has changed. The odometer and its 32-bit index are exact for every rank from 1 to 8.\<close>

theorem transpose_kernel_permutes:
  assumes "transposes pl oper op_index tin tout ps shape n"
    and "tensor_at m tin src" and "tensor_at m tout dst" and "\<not> tc_active (tile m)"
    and "regions_apart dst (nat (prod_list shape) * n) src (nat (prod_list shape) * n)"
  shows "wp (tigris_transpose_execute independent pl oper op_index m h) (yields (\<lambda>h'.
    permuted_tensor ps shape n dst src h h' \<and>
    (\<forall>a. a < dst \<or> dst + nat (prod_list shape) * n \<le> a \<longrightarrow> h' a = h a)))"
proof -
  obtain perm where ps: "ps = map unat (take (length shape) perm)" "length shape \<le> length perm" "permutation ps (length shape)"
    and run: "tigris_transpose_execute independent pl oper op_index m h =
       (if tc_active (tile m) \<and> tc_transposed_tile (tile m)
        then transpose_slice dst src (word_of_nat n) (tile m) h
        else map_option Inr (transpose_walk dst src n perm shape (permuted ps shape) (word_of_int (prod_list shape)) h))"
    using transposes_execute [OF assms(1-3)] assms(4) by metis
  note ext = transposes_extents [OF assms(1)]
  have "wp (transpose_walk dst src n perm shape (permuted ps shape) (word_of_int (prod_list shape)) h)
      (copied (permuted_elements dst src n ps shape) n h)"
    unfolding ps(1)
    by (rule wp_transpose_walk) (use ps ext assms(5) in \<open>auto simp: unsigned_of_int take_bit_int_eq_self\<close>)
  then show ?thesis
    using run assms(4) permuted_elements_tensor [OF ps(3)] by (auto dest!: wpD)
qed

section \<open>A small transpose\<close>

text \<open>Two rows of three bytes become three rows of two.\<close>

definition turn_tensor :: "u16 \<Rightarrow> tigris_tensor" where
  "turn_tensor off = \<lparr> tn_name_str = 0, tn_size_bytes = 6, tn_shape_off = off, tn_ndim = 2, tn_dtype = 3,
     tn_flags = 0, tn_quant_param_idx = NONE_U16, tn_iface_dtype = 0 \<rparr>"

definition turn_op :: tigris_op where
  "turn_op = \<lparr> op_name_str = 0, op_op_type = 29, op_num_inputs = 1, op_num_outputs = 1, op_stage = 0,
     op_inputs_off = 0, op_outputs_off = 1,
     op_spatial = \<lparr> sp_kernel_h = 0, sp_kernel_w = 0, sp_stride_h = 0, sp_stride_w = 0, sp_pad_top = 0,
       sp_pad_bottom = 0, sp_pad_left = 0, sp_pad_right = 0, sp_dilation_h = 0, sp_dilation_w = 0,
       sp_group = 0 \<rparr>,
     op_weight_idx = NONE_U16, op_bias_idx = NONE_U16, op_fused_act = 0, op_act_min = -128, op_act_max = 127,
     op_pad1 = 0 \<rparr>"

definition turn_attribute :: op_attribute where
  "turn_attribute = \<lparr> oa_op_index = 0, oa_type = 1, oa_data_len = 2, oa_data_offset = 0 \<rparr>"

definition turn_header :: file_header where
  "turn_header = \<lparr> hd_magic = TIGRIS_MAGIC_BYTES, hd_version = 12, hd_file_size = 100, hd_section_dir_off = 0,
     hd_num_tensors = 2, hd_num_ops = 1, hd_num_stages = 1, hd_num_tile_plans = 0, hd_budget = 64, hd_peak = 64,
     hd_model_name_str = 0, hd_model_io_off = 0, hd_num_model_inputs = 1, hd_num_model_outputs = 1,
     hd_num_weights = 0, hd_num_quant_params = 0, hd_flags = 0 \<rparr>"

definition turn_plan :: tigris_plan where
  "turn_plan = (empty_plan (wr_tigris_tensor (turn_tensor 0) @ wr_tigris_tensor (turn_tensor 2) @ wr_tigris_op turn_op @
       wr_op_attribute turn_attribute @ wr16 0 @ wr16 1 @ wri32 2 @ wri32 3 @ wri32 3 @ wri32 2 @ [1, 0]))
     \<lparr> p_header := Some turn_header, p_tensors := Some 0, p_ops := Some 32, p_op_attributes := Some 70, p_num_op_attributes := 1,
       p_index_pool := Some 78, p_shape_pool := Some 82, p_op_attribute_data := Some 98 \<rparr>"

definition turn_mem :: mem where
  "turn_mem = \<lparr> tensor_ptrs = [8192, 8224], num_tensors = 2, fast_base = 4096, fast_size = 64,
     fast_used = 0, fast_reserved = 0, fast_peak = 0, slow_base = 8192, slow_size = 128,
     slow_used = 64, slow_peak = 64, stats = None, tile = tile_ctx_zero \<rparr>"

lemma turn_lengths:
  "length (wr_tigris_tensor (turn_tensor x)) = 16" "length (wr_tigris_op turn_op) = 38"
  "length (wr_op_attribute turn_attribute) = 8"
  by (simp_all add: tigris_tensor_table.length_wr_record tigris_op_table.length_wr_record
      op_attribute_table.length_wr_record turn_op_def turn_attribute_def)

lemma turn_reads:
  "plan_tensor turn_plan 0 = Some (turn_tensor 0)" "plan_tensor turn_plan 1 = Some (turn_tensor 2)"
  "plan_op turn_plan 0 = Some turn_op" "plan_op_attribute turn_plan 0 = Some turn_attribute"
  "plan_index turn_plan 0 = Some 0" "plan_index turn_plan 1 = Some 1"
  "plan_shape turn_plan 0 = Some 2" "plan_shape turn_plan 1 = Some 3"
  "plan_shape turn_plan 2 = Some 3" "plan_shape turn_plan 3 = Some 2"
  "drop 98 (p_buf turn_plan) = [1, 0]" "length (p_buf turn_plan) = 100"
proof -
  note defs = turn_plan_def empty_plan_def turn_lengths
  let ?t = "wr_tigris_tensor (turn_tensor 0)" and ?u = "wr_tigris_tensor (turn_tensor 2)" and ?op = "wr_tigris_op turn_op"
    and ?a = "wr_op_attribute turn_attribute"
  show "plan_tensor turn_plan 0 = Some (turn_tensor 0)"
    using tigris_tensor_table.rd_wr_record [where r = "turn_tensor 0" and xs = "[]"]
    by (simp add: plan_tensor_def defs)
  show "plan_tensor turn_plan 1 = Some (turn_tensor 2)"
    using tigris_tensor_table.rd_wr_record [where r = "turn_tensor 2" and xs = ?t]
    by (simp add: plan_tensor_def defs)
  show "plan_op turn_plan 0 = Some turn_op"
    using tigris_op_table.rd_wr_record [where r = turn_op and xs = "?t @ ?u"]
    by (simp add: plan_op_def defs) (simp add: turn_op_def)
  show "plan_op_attribute turn_plan 0 = Some turn_attribute"
    using op_attribute_table.rd_wr_record [where r = turn_attribute and xs = "?t @ ?u @ ?op"]
    by (simp add: plan_op_attribute_def defs)
  show "plan_index turn_plan 0 = Some 0" "plan_index turn_plan 1 = Some 1"
    "plan_shape turn_plan 0 = Some 2" "plan_shape turn_plan 1 = Some 3"
    "plan_shape turn_plan 2 = Some 3" "plan_shape turn_plan 3 = Some 2"
    by (simp_all add: plan_index_def plan_shape_def defs rd_wr)
  show "drop 98 (p_buf turn_plan) = [1, 0]" "length (p_buf turn_plan) = 100"
    by (simp_all add: defs rd_wr wr16_def)
qed

lemma turn_parts:
  "op_num_inputs turn_op = 1" "op_num_outputs turn_op = 1" "tn_ndim (turn_tensor x) = 2" "tn_size_bytes (turn_tensor x) = 6"
  by (simp_all add: turn_op_def turn_tensor_def)

lemma turn_transposes: "transposes turn_plan turn_op 0 0 1 [1, 0] [2, 3] 1"
proof -
  have two: "loop 0 2 f s = Option.bind (f 0 s) (f 1)" for f :: "nat \<Rightarrow> int list \<Rightarrow> int list option" and s
    by (cases "f 0 s"; cases "f 1 (the (f 0 s))") (simp_all add: numeral_2_eq_2)
  have "find_attribute turn_plan 0 1 0 1 = Some (Some turn_attribute)"
    by (simp add: turn_reads turn_attribute_def)
  then have "tigris_op_attribute_data turn_plan 0 ATTR_TRANSPOSE_PERM = Some (Some (98, 2))"
    by (simp add: tigris_op_attribute_data_def ATTR_TRANSPOSE_PERM_def turn_plan_def turn_attribute_def empty_plan_def)
  moreover have "tigris_op_inputs turn_plan turn_op 0 = Some 0" "tigris_op_outputs turn_plan turn_op 0 = Some 1"
    by (simp_all add: tigris_op_inputs_def tigris_op_outputs_def turn_op_def turn_reads turn_reads(6) [simplified])
  moreover have "read_shape turn_plan (turn_tensor 0) 2 = Some [2, 3]" "read_shape turn_plan (turn_tensor 2) 2 = Some [3, 2]"
    by (simp_all add: read_shape_def two tigris_tensor_shape_def turn_tensor_def turn_reads turn_reads(8) [simplified]
        turn_reads(9, 10) [unfolded numeral_3_eq_3 numeral_2_eq_2])
  moreover have "permuted [1, 0] [2, 3 :: int] = [3, 2]" by (simp add: permuted_def)
  moreover have "permutation [1, 0] 2" by (auto simp: permutation_def)
  ultimately show ?thesis
    unfolding transposes_def transpose_parts_def
    by (intro exI [of _ "turn_tensor 0"] exI [of _ "turn_tensor 2"] exI [of _ "98 :: nat"])
      (simp add: turn_reads turn_reads(2) [simplified] turn_parts attribute_bytes_def)
qed

lemma transpose_kernel_permutes_witness:
  "wp (tigris_transpose_execute (\<lambda>_ _ _ _. None) turn_plan turn_op 0 turn_mem (\<lambda>a. word_of_nat a))
     (yields (\<lambda>h'. h' 8225 = 3))"
proof -
  let ?h = "\<lambda>a. word_of_nat a :: u8"
  have "tensor_at turn_mem 0 8192" "tensor_at turn_mem 1 8224" "\<not> tc_active (tile turn_mem)"
    by (simp_all add: tensor_at_def turn_mem_def tile_ctx_zero_def word_less_nat_alt)
  moreover have "regions_apart 8224 (nat (prod_list [2, 3]) * 1) 8192 (nat (prod_list [2, 3]) * 1)"
    by (simp add: regions_apart_def)
  ultimately have run: "wp (tigris_transpose_execute (\<lambda>_ _ _ _. None) turn_plan turn_op 0 turn_mem ?h) (yields (\<lambda>h'.
      permuted_tensor [1, 0] [2, 3] 1 8224 8192 ?h h' \<and>
      (\<forall>a. a < 8224 \<or> 8224 + nat (prod_list [2, 3]) * 1 \<le> a \<longrightarrow> h' a = ?h a)))"
    by (rule transpose_kernel_permutes [OF turn_transposes])
  have "h' 8225 = 3" if t: "permuted_tensor [1, 0] [2, 3] 1 8224 8192 ?h h'" for h'
    using t [unfolded permuted_tensor_def, rule_format, of "[1, 0]" 0] by (simp add: permuted_def)
  then show ?thesis by (intro wp_mono [OF run]) (auto elim!: yields_mono)
qed

end
