(* ===== verification/Transpose_Stage.thy ===== *)
theory Transpose_Stage
  imports Transpose_Walk Control_Flow
begin

unbundle bit_operations_syntax

text \<open>
  The banded layout conversion of \<open>src/tigris_executor.c\<close> (\<open>exec_stage_tiled_transpose\<close>): a transpose
  too large for the fast arena runs a band at a time, gathering the band of the input into the fast
  arena, calling the kernel on it and scattering its output into the slow tensor.

  \<^item> Failures carry the manager and the memory as the C code leaves them.
  \<^item> \<open>size_t\<close> products are exact, of extents that are never negative (\<open>tigris_transpose_extents\<close>
    returns positive ones); \<open>int32_t\<close> operations that overflow are undefined.
  \<^item> The kernel is an argument; \<open>slice_kernel\<close> is what the stage relies on.
  \<^item> The trace hooks are not compiled in.
\<close>

section \<open>The stage\<close>

definition align_tensor_size :: "u32 \<Rightarrow> u32 option" where
  "align_tensor_size v =
     (let mask = TENSOR_ALIGN - 1 in
      if v > U32_MAX - mask then None else Some ((v + mask) AND NOT mask))"

definition stage_fast_limit :: "tigris_plan \<Rightarrow> tigris_stage \<Rightarrow> u32 \<Rightarrow> u32 option" where
  "stage_fast_limit pl stage available = do {
     choices \<leftarrow> tigris_stage_tiles pl stage;
     let peak = (if tw_tileable choices \<noteq> 0 then tw_tiled_peak_bytes choices else sg_peak_bytes stage);
     Some (if peak \<noteq> 0 \<and> peak < available then peak else available) }"

definition stage_fast_capacity :: "tigris_plan \<Rightarrow> tigris_stage \<Rightarrow> mem \<Rightarrow> u32 option" where
  "stage_fast_capacity pl stage m = stage_fast_limit pl stage (fast_size m - fast_reserved m)"

text \<open>A band of rows of a \<open>[batch, rows, cols]\<close> tensor: one run per batch.\<close>

definition gather_row_band ::
  "nat \<Rightarrow> nat \<Rightarrow> int \<Rightarrow> int \<Rightarrow> int \<Rightarrow> int \<Rightarrow> u32 \<Rightarrow> mem \<times> ram \<Rightarrow> (mem \<times> ram) option" where
  "gather_row_band band_buf whole batch rows start band row_bytes = (\<lambda>(m, h). do {
     let whole_stride = nat rows * unat row_bytes;
     let band_stride = nat band * unat row_bytes;
     let offset = nat start * unat row_bytes;
     h \<leftarrow> loop 0 (nat batch) (\<lambda>n h.
       ram_memcpy h (band_buf + n * band_stride) (whole + n * whole_stride + offset) band_stride) h;
     Some (count_load (word_of_nat (nat batch * band_stride)) m, h) })"

definition scatter_row_band ::
  "nat \<Rightarrow> nat \<Rightarrow> int \<Rightarrow> int \<Rightarrow> int \<Rightarrow> int \<Rightarrow> u32 \<Rightarrow> mem \<times> ram \<Rightarrow> (mem \<times> ram) option" where
  "scatter_row_band whole band_buf batch rows start band row_bytes = (\<lambda>(m, h). do {
     let whole_stride = nat rows * unat row_bytes;
     let band_stride = nat band * unat row_bytes;
     let offset = nat start * unat row_bytes;
     h \<leftarrow> loop 0 (nat batch) (\<lambda>n h.
       ram_memcpy h (whole + n * whole_stride + offset) (band_buf + n * band_stride) band_stride) h;
     Some (count_spill (word_of_nat (nat batch * band_stride)) m, h) })"

text \<open>What the stage derives from the plan: the extents of the matrix, the bytes of one position, the
  elements of one position, and whether the band cuts the input's columns.\<close>

record conversion =
  cv_batch :: int
  cv_rows :: int
  cv_cols :: int
  cv_elem_size :: u32
  cv_block :: int
  cv_on_cols :: bool

definition cv_banded :: "conversion \<Rightarrow> int" where
  "cv_banded cv = (if cv_on_cols cv then cv_cols cv else cv_rows cv)"

definition cv_other :: "conversion \<Rightarrow> int" where
  "cv_other cv = (if cv_on_cols cv then cv_rows cv else cv_cols cv)"

definition shape_total :: "tigris_plan \<Rightarrow> tigris_tensor \<Rightarrow> u64 option" where
  "shape_total pl t = loop 0 (unat (tn_ndim t)) (\<lambda>axis acc. do {
     e \<leftarrow> tigris_tensor_shape pl t axis;
     Some (acc * ucast (word_of_int e :: u32)) }) 1"

definition SCHEMA_VERSION_BAND_ORIENTATION :: u32 where "SCHEMA_VERSION_BAND_ORIENTATION = 9"
definition TILE_FLAG_BAND_ON_COLUMNS :: u16 where "TILE_FLAG_BAND_ON_COLUMNS = 1"

text \<open>The orientation is the plan's choice where its version states one.\<close>

definition band_on_columns :: "tigris_plan \<Rightarrow> tigris_stage \<Rightarrow> int \<Rightarrow> int \<Rightarrow> bool option" where
  "band_on_columns pl stage rows cols = do {
     choices \<leftarrow> tigris_stage_tiles pl stage;
     version \<leftarrow> map_option hd_version (p_header pl);
     Some (if version \<ge> SCHEMA_VERSION_BAND_ORIENTATION \<and> tw_tileable choices \<noteq> 0
       then tw_flags choices AND TILE_FLAG_BAND_ON_COLUMNS \<noteq> 0
       else cols \<ge> rows) }"

text \<open>\<open>None\<close> in the inner type is \<open>return TIGRIS_EXEC_ERR_TILE\<close>.\<close>

definition conversion_geometry ::
  "tigris_plan \<Rightarrow> tigris_stage \<Rightarrow> u16 \<Rightarrow> u16 \<Rightarrow> conversion option option" where
  "conversion_geometry pl stage op_idx in_idx = do {
     input \<leftarrow> plan_tensor pl (unat in_idx);
     extents \<leftarrow> tigris_transpose_extents pl op_idx in_idx;
     (case extents of None \<Rightarrow> Some None | Some (batch, rows, cols) \<Rightarrow>
       let size_bytes = ucast (tn_size_bytes input) :: u64;
           positions = word_of_int batch * ucast (word_of_int rows :: u32) * ucast (word_of_int cols :: u32) :: u64 in
       if positions = 0 \<or> size_bytes mod positions \<noteq> 0 then Some None
       else do {
         let elem_size = (ucast (size_bytes div positions) :: u32);
         full \<leftarrow> shape_total pl input;
         if full = 0 \<or> size_bytes mod full \<noteq> 0 then Some None
         else
           let dtype_size = (ucast (size_bytes div full) :: u32) in
           if dtype_size = 0 \<or> elem_size mod dtype_size \<noteq> 0 then Some None
           else do {
             on_cols \<leftarrow> band_on_columns pl stage rows cols;
             Some (Some \<lparr> cv_batch = batch, cv_rows = rows, cv_cols = cols, cv_elem_size = elem_size,
               cv_block = sint (elem_size div dtype_size), cv_on_cols = on_cols \<rparr>) } }) }"

text \<open>The largest band of which two aligned slices fit, by bisection; 0 when none does.\<close>

function band_search :: "conversion \<Rightarrow> u32 \<Rightarrow> int \<Rightarrow> int \<Rightarrow> int \<Rightarrow> int option option" where
  "band_search cv available low high band =
     (if low \<le> high then
        let candidate = low + (high - low) div 2;
            tile_elems = word_of_int (cv_batch cv) * ucast (word_of_int (cv_other cv) :: u32) *
              ucast (word_of_int candidate :: u32) :: u64 in
        do {
          most \<leftarrow> udiv32 U32_MAX (cv_elem_size cv);
          if tile_elems > ucast most then band_search cv available low (candidate - 1) band
          else (case align_tensor_size (ucast tile_elems * cv_elem_size cv) of
            None \<Rightarrow> Some None
          | Some one \<Rightarrow>
            if ucast one * 2 \<le> (ucast available :: u64) then do {
              low' \<leftarrow> i32 (candidate + 1);
              band_search cv available low' high candidate }
            else band_search cv available low (candidate - 1) band) }
      else Some (Some band))"
  by pat_completeness auto

termination
  by (relation "measure (\<lambda>(cv, available, low, high, band). nat (high + 1 - low))") (auto simp: i32_def split: if_splits)

declare band_search.simps [simp del]

text \<open>One round of the loop over the bands, with the tile the kernel is shown.\<close>

definition count_tile :: "mem \<Rightarrow> mem" where
  "count_tile m = m\<lparr>stats := map_option (\<lambda>s. s\<lparr>total_tiles := total_tiles s + 1\<rparr>) (stats m)\<rparr>"

definition conversion_tile :: "conversion \<Rightarrow> int \<Rightarrow> tile_ctx \<Rightarrow> tile_ctx" where
  "conversion_tile cv width tc = tc\<lparr> tc_active := True, tc_transposed_tile := True,
     tc_transpose_outer := cv_batch cv, tc_transpose_block := cv_block cv,
     tc_in_h := (if cv_on_cols cv then cv_other cv else width),
     tc_in_w := (if cv_on_cols cv then width else cv_other cv),
     tc_out_h := (if cv_on_cols cv then width else cv_other cv),
     tc_out_w := (if cv_on_cols cv then cv_other cv else width) \<rparr>"

definition gather_band :: "conversion \<Rightarrow> nat \<Rightarrow> nat \<Rightarrow> int \<Rightarrow> int \<Rightarrow> int \<Rightarrow> mem \<times> ram \<Rightarrow> (mem \<times> ram) option" where
  "gather_band cv in_tile in_base lines start width =
     (if cv_on_cols cv
      then gather_row_band in_tile in_base lines (cv_banded cv) start width (cv_elem_size cv)
      else gather_row_band in_tile in_base (cv_batch cv) (cv_banded cv) start width
        (word_of_int (cv_other cv) * cv_elem_size cv))"

definition scatter_band :: "conversion \<Rightarrow> nat \<Rightarrow> nat \<Rightarrow> int \<Rightarrow> int \<Rightarrow> int \<Rightarrow> mem \<times> ram \<Rightarrow> (mem \<times> ram) option" where
  "scatter_band cv out_base out_tile lines start width =
     (if cv_on_cols cv
      then scatter_row_band out_base out_tile (cv_batch cv) (cv_banded cv) start width
        (word_of_int (cv_other cv) * cv_elem_size cv)
      else scatter_row_band out_base out_tile lines (cv_banded cv) start width (cv_elem_size cv))"

definition alloc_tile :: "u16 \<Rightarrow> u32 \<Rightarrow> mem \<times> ram \<Rightarrow> (mem \<times> ram) exec" where
  "alloc_tile t n = (\<lambda>(m, h). do {
     r \<leftarrow> tigris_mem_alloc_fast (Some m) t n;
     (case r of Inl _ \<Rightarrow> fail (EXEC_ERR_MEM, m, h) | Inr m' \<Rightarrow> ret (m', h)) })"

definition band_round ::
  "(mem \<Rightarrow> ram \<Rightarrow> (unit + ram) option) \<Rightarrow> conversion \<Rightarrow> u16 \<Rightarrow> u16 \<Rightarrow> nat \<Rightarrow> nat \<Rightarrow> int \<Rightarrow> int \<Rightarrow>
     int \<Rightarrow> mem \<times> ram \<Rightarrow> (mem \<times> ram) exec" where
  "band_round kern cv in_idx out_idx in_base out_base lines band start = (\<lambda>(m, h). do {
     let width = (if cv_banded cv - start < band then cv_banded cv else start + band) - start;
     let tile_bytes = ucast (word_of_int (cv_batch cv) * ucast (word_of_int (cv_other cv) :: u32) *
       ucast (word_of_int width :: u32) * ucast (cv_elem_size cv) :: u64);
     let m = count_tile m;
     let m = m\<lparr>tile := conversion_tile cv width (tile m)\<rparr>;
     andthen (alloc_tile in_idx tile_bytes (m, h)) (\<lambda>(m, h). do {
       in_tile \<leftarrow> arr_get (tensor_ptrs m) (unat in_idx);
       (m, h) \<leftarrow> gather_band cv in_tile in_base lines start width (m, h);
       andthen (alloc_tile out_idx tile_bytes (m, h)) (\<lambda>(m, h). do {
         r \<leftarrow> kern m h;
         (case r of Inl _ \<Rightarrow> fail (EXEC_ERR_KERNEL, m, h) | Inr h \<Rightarrow> do {
           out_tile \<leftarrow> arr_get (tensor_ptrs m) (unat out_idx);
           (m, h) \<leftarrow> scatter_band cv out_base out_tile lines start width (m, h);
           ret (tigris_mem_reset_fast m, h) }) }) }) })"

text \<open>The loop advances by the band; \<open>step\<close> is one round.\<close>

partial_function (option) band_loop ::
  "(int \<Rightarrow> mem \<times> ram \<Rightarrow> (mem \<times> ram) exec) \<Rightarrow> int \<Rightarrow> int \<Rightarrow> int \<times> mem \<times> ram \<Rightarrow> (mem \<times> ram) exec" where
  "band_loop step banded band x =
     (if fst x < banded then
        andthen (step (fst x) (snd x)) (\<lambda>c. do {
          start \<leftarrow> i32 (fst x + band);
          band_loop step banded band (start, c) })
      else ret (snd x))"

text \<open>On success and on failure the tile is cleared, the fast arena reset, and both tensors point at
  their slow copies.\<close>

definition end_conversion :: "u16 \<Rightarrow> u16 \<Rightarrow> nat \<Rightarrow> nat \<Rightarrow> mem \<Rightarrow> mem option" where
  "end_conversion in_idx out_idx in_base out_base m = do {
     let m = tigris_mem_reset_fast (m\<lparr>tile := tile_ctx_zero\<rparr>);
     m \<leftarrow> set_ptr m in_idx in_base;
     set_ptr m out_idx out_base }"

definition run_conversion ::
  "(mem \<Rightarrow> ram \<Rightarrow> (unit + ram) option) \<Rightarrow> conversion \<Rightarrow> u16 \<Rightarrow> u16 \<Rightarrow> nat \<Rightarrow> nat \<Rightarrow> int \<Rightarrow>
     mem \<times> ram \<Rightarrow> (mem \<times> ram) exec" where
  "run_conversion kern cv in_idx out_idx in_base out_base band c = do {
     lines \<leftarrow> i32 (cv_batch cv * cv_other cv);
     r \<leftarrow> band_loop (band_round kern cv in_idx out_idx in_base out_base lines band) (cv_banded cv) band (0, c);
     (case r of
        Inl (e, m, h) \<Rightarrow> do { m \<leftarrow> end_conversion in_idx out_idx in_base out_base m; fail (e, m, h) }
      | Inr (m, h) \<Rightarrow> do { m \<leftarrow> end_conversion in_idx out_idx in_base out_base m; ret (m, h) }) }"

definition exec_stage_tiled_transpose ::
  "(tigris_plan \<Rightarrow> tigris_op \<Rightarrow> u16 \<Rightarrow> mem \<Rightarrow> ram \<Rightarrow> (unit + ram) option) \<Rightarrow> tigris_plan \<Rightarrow> tigris_stage \<Rightarrow>
     mem \<times> ram \<Rightarrow> (mem \<times> ram) exec" where
  "exec_stage_tiled_transpose kern pl stage = (\<lambda>(m, h). do {
     in_idx \<leftarrow> tigris_stage_inputs pl stage 0;
     out_idx \<leftarrow> tigris_stage_outputs pl stage 0;
     op_idx \<leftarrow> tigris_stage_ops pl stage 0;
     oper \<leftarrow> plan_op pl (unat op_idx);
     output \<leftarrow> plan_tensor pl (unat out_idx);
     geometry \<leftarrow> conversion_geometry pl stage op_idx in_idx;
     (case geometry of None \<Rightarrow> fail (EXEC_ERR_TILE, m, h) | Some cv \<Rightarrow> do {
       in_base \<leftarrow> arr_get (tensor_ptrs m) (unat in_idx);
       if in_base = 0 then fail (EXEC_ERR_MEM, m, h)
       else do {
         r \<leftarrow> tigris_mem_alloc_slow (Some m) out_idx (tn_size_bytes output);
         (case r of Inl _ \<Rightarrow> fail (EXEC_ERR_MEM, m, h) | Inr m \<Rightarrow> do {
           out_base \<leftarrow> arr_get (tensor_ptrs m) (unat out_idx);
           available \<leftarrow> stage_fast_capacity pl stage m;
           band \<leftarrow> band_search cv available 1 (cv_banded cv) 0;
           (case band of None \<Rightarrow> fail (EXEC_ERR_TILE, m, h) | Some band \<Rightarrow>
             if band = 0 then fail (EXEC_ERR_TILE, m, h)
             else run_conversion (kern pl oper op_idx) cv in_idx out_idx in_base out_base band (m, h)) }) } }) })"

end
