(* ===== verification/Transpose_Bands.thy ===== *)
theory Transpose_Bands
  imports Transpose_Stage Transpose_Execute
begin

text \<open>
  The parts of a banded conversion, proved on their own: the transfers of a band of rows, the search
  for the band, and the memory of one round.
\<close>

section \<open>Runs\<close>

lemma separated_runs:
  assumes "len \<le> ds" and "0 < ds" and "\<And>n. n < lines \<Longrightarrow> lo \<le> s + n * ss \<and> s + n * ss + len \<le> hi"
    and "\<And>n. n < lines \<Longrightarrow> lo' \<le> d + n * ds \<and> d + n * ds + len \<le> hi'" and "hi \<le> lo' \<or> hi' \<le> lo"
  shows "separated (\<Union>n < lines. {(d + n * ds, s + n * ss)}) len"
proof (rule separatedI)
  fix a b a' b' assume "(a, b) \<in> (\<Union>n < lines. {(d + n * ds, s + n * ss)})" "(a', b') \<in> (\<Union>n < lines. {(d + n * ds, s + n * ss)})"
  then obtain i j where i: "i < lines" "a = d + i * ds" "b = s + i * ss" and j: "j < lines" "a' = d + j * ds" "b' = s + j * ss"
    by auto
  have "apart a b' len"
    using assms(3) [OF j(1)] assms(4) [OF i(1)] assms(5) i j by (auto simp: apart_def)
  moreover have "b = b'" if "a = a'" using that i j assms(2) by simp
  moreover have "apart a a' len" if "a \<noteq> a'"
  proof -
    have "apart (d + i * ds) (d + j * ds) ds" by (rule elements_apart) (use that i j in auto)
    then show ?thesis using assms(1, 2) i j by (auto simp: apart_def)
  qed
  ultimately show "apart a b' len \<and> (a = a' \<longrightarrow> b = b') \<and> (a \<noteq> a' \<longrightarrow> apart a a' len)" by blast
qed

lemma wp_runs:
  assumes "separated (\<Union>n < lines. {(d + n * ds, s + n * ss)}) len"
  shows "wp (loop 0 lines (\<lambda>n h. ram_memcpy h (d + n * ds) (s + n * ss) len) h)
    (copied (\<Union>n < lines. {(d + n * ds, s + n * ss)}) len h)"
proof (rule wp_loop_copied [OF assms])
  fix n h1 assume "n < lines"
  then have "apart (d + n * ds) (s + n * ss) len" using separatedD(1) [OF assms] by blast
  then show "wp (ram_memcpy h1 (d + n * ds) (s + n * ss) len) (copied {(d + n * ds, s + n * ss)} len h1)"
    by (auto simp: wp_rules apart_def copied_def ram_copy_def)
qed

section \<open>Row bands\<close>

text \<open>A row holds \<open>q\<close> elements of \<open>e\<close> bytes. The band takes \<open>w\<close> of the \<open>rows\<close> rows of each of \<open>lines\<close>
  blocks, from \<open>start\<close> on.\<close>

lemma band_byte:
  "((n * rows + start + j) * q + c) * e + k = n * (rows * (q * e)) + start * (q * e) + ((j * q + c) * e + (k :: nat))"
  by (simp add: algebra_simps)

lemma band_byte_less: "j < w \<Longrightarrow> c < q \<Longrightarrow> k < e \<Longrightarrow> (j * q + c) * e + k < w * (q * (e :: nat))"
  using pos_less [OF pos_less [of j w c q], of k e] by (simp add: mult.assoc)

lemma wp_gather_rows:
  assumes pos: "0 < w" "0 < q" "0 < e" and band: "start + w \<le> rows"
    and apart: "regions_apart buf (lines * w * q * e) whole (lines * rows * q * e)"
  shows "wp (loop 0 lines (\<lambda>n h. ram_memcpy h (buf + n * (w * (q * e))) (whole + n * (rows * (q * e)) + start * (q * e)) (w * (q * e))) h)
    (\<lambda>h'. (\<forall>n < lines. \<forall>j < w. \<forall>c < q. \<forall>k < e.
        h' (buf + (((n * w + j) * q + c) * e + k)) = h (whole + (((n * rows + start + j) * q + c) * e + k))) \<and>
      (\<forall>a. a < buf \<or> buf + lines * w * q * e \<le> a \<longrightarrow> h' a = h a))"
proof -
  let ?L = "q * e"
  have L: "0 < ?L" "0 < w * ?L" using pos by simp_all
  have "start * ?L + w * ?L \<le> rows * ?L" using mult_le_mono1 [OF band, of ?L] by (simp add: distrib_right)
  then have src: "n < lines \<Longrightarrow> n * (rows * ?L) + start * ?L + w * ?L \<le> lines * (rows * ?L)" for n
    using element_inside [of n lines "rows * ?L"] by linarith
  have dst: "n < lines \<Longrightarrow> n * (w * ?L) + w * ?L \<le> lines * (w * ?L)" for n by (rule element_inside)
  have sep: "separated (\<Union>n < lines. {(buf + n * (w * ?L), whole + start * ?L + n * (rows * ?L))}) (w * ?L)"
  proof (rule separated_runs [of _ _ _ whole _ _ "whole + lines * (rows * ?L)" buf _ "buf + lines * (w * ?L)"])
    show "whole + lines * (rows * ?L) \<le> buf \<or> buf + lines * (w * ?L) \<le> whole"
      using apart by (auto simp: regions_apart_def mult.assoc)
  qed (use src dst L in \<open>auto simp: add.assoc add.commute\<close>)
  have "wp (loop 0 lines (\<lambda>n h. ram_memcpy h (buf + n * (w * ?L)) (whole + start * ?L + n * (rows * ?L)) (w * ?L)) h)
      (\<lambda>h'. (\<forall>n < lines. \<forall>j < w. \<forall>c < q. \<forall>k < e.
        h' (buf + (((n * w + j) * q + c) * e + k)) = h (whole + (((n * rows + start + j) * q + c) * e + k))) \<and>
      (\<forall>a. a < buf \<or> buf + lines * w * q * e \<le> a \<longrightarrow> h' a = h a))"
  proof (rule wp_mono [OF wp_runs [OF sep]], intro conjI allI impI)
    fix h' assume c: "copied (\<Union>n < lines. {(buf + n * (w * ?L), whole + start * ?L + n * (rows * ?L))}) (w * ?L) h h'"
    fix n j c k assume n: "n < lines" "j < w" "c < q" "k < e"
    have "h' (buf + n * (w * ?L) + ((j * q + c) * e + k)) = h (whole + start * ?L + n * (rows * ?L) + ((j * q + c) * e + k))"
      by (rule copied_src [OF c _ band_byte_less [OF n(2-4)]]) (use n in auto)
    then show "h' (buf + (((n * w + j) * q + c) * e + k)) = h (whole + (((n * rows + start + j) * q + c) * e + k))"
      unfolding band_byte using band_byte [of n w 0 j q c e k] by (simp add: ac_simps)
  next
    fix h' a assume c: "copied (\<Union>n < lines. {(buf + n * (w * ?L), whole + start * ?L + n * (rows * ?L))}) (w * ?L) h h'"
      and a: "a < buf \<or> buf + lines * w * q * e \<le> a"
    show "h' a = h a"
    proof (rule copied_frame [OF c])
      fix d s assume "(d, s) \<in> (\<Union>n < lines. {(buf + n * (w * ?L), whole + start * ?L + n * (rows * ?L))})"
      then show "a < d \<or> d + w * ?L \<le> a" using dst a by (fastforce simp: mult.assoc)
    qed
  qed
  then show ?thesis by (simp add: add.assoc add.commute add.left_commute)
qed

lemma wp_scatter_rows:
  assumes pos: "0 < w" "0 < q" "0 < e" and band: "start + w \<le> rows"
    and apart: "regions_apart buf (lines * w * q * e) whole (lines * rows * q * e)"
  shows "wp (loop 0 lines (\<lambda>n h. ram_memcpy h (whole + n * (rows * (q * e)) + start * (q * e)) (buf + n * (w * (q * e))) (w * (q * e))) h)
    (\<lambda>h'. (\<forall>n < lines. \<forall>j < w. \<forall>c < q. \<forall>k < e.
        h' (whole + (((n * rows + start + j) * q + c) * e + k)) = h (buf + (((n * w + j) * q + c) * e + k))) \<and>
      (\<forall>n < lines. \<forall>j < rows. j < start \<or> start + w \<le> j \<longrightarrow> (\<forall>c < q. \<forall>k < e.
        h' (whole + (((n * rows + j) * q + c) * e + k)) = h (whole + (((n * rows + j) * q + c) * e + k)))) \<and>
      (\<forall>a. a < whole \<or> whole + lines * rows * q * e \<le> a \<longrightarrow> h' a = h a))"
proof -
  let ?L = "q * e"
  have L: "0 < ?L" "0 < w * ?L" "0 < rows * ?L" using pos band by simp_all
  have band': "start * ?L + w * ?L \<le> rows * ?L" using mult_le_mono1 [OF band, of ?L] by (simp add: distrib_right)
  then have dst: "n < lines \<Longrightarrow> n * (rows * ?L) + start * ?L + w * ?L \<le> lines * (rows * ?L)" for n
    using element_inside [of n lines "rows * ?L"] by linarith
  have src: "n < lines \<Longrightarrow> n * (w * ?L) + w * ?L \<le> lines * (w * ?L)" for n by (rule element_inside)
  let ?R = "\<Union>n < lines. {(whole + start * ?L + n * (rows * ?L), buf + n * (w * ?L))}"
  have sep: "separated ?R (w * ?L)"
  proof (rule separated_runs [of _ _ _ buf _ _ "buf + lines * (w * ?L)" whole _ "whole + lines * (rows * ?L)"])
    show "buf + lines * (w * ?L) \<le> whole \<or> whole + lines * (rows * ?L) \<le> buf"
      using apart by (auto simp: regions_apart_def mult.assoc)
  qed (use src dst L band band' in \<open>auto simp: add.assoc add.commute\<close>)
  have "wp (loop 0 lines (\<lambda>n h. ram_memcpy h (whole + start * ?L + n * (rows * ?L)) (buf + n * (w * ?L)) (w * ?L)) h)
    (\<lambda>h'. (\<forall>n < lines. \<forall>j < w. \<forall>c < q. \<forall>k < e.
        h' (whole + (((n * rows + start + j) * q + c) * e + k)) = h (buf + (((n * w + j) * q + c) * e + k))) \<and>
      (\<forall>n < lines. \<forall>j < rows. j < start \<or> start + w \<le> j \<longrightarrow> (\<forall>c < q. \<forall>k < e.
        h' (whole + (((n * rows + j) * q + c) * e + k)) = h (whole + (((n * rows + j) * q + c) * e + k)))) \<and>
      (\<forall>a. a < whole \<or> whole + lines * rows * q * e \<le> a \<longrightarrow> h' a = h a))"
  proof (rule wp_mono [OF wp_runs [OF sep]], intro conjI allI impI)
    fix h' assume c: "copied ?R (w * ?L) h h'"
    fix n j c k assume n: "n < lines" "j < w" "c < q" "k < e"
    have "h' (whole + start * ?L + n * (rows * ?L) + ((j * q + c) * e + k)) = h (buf + n * (w * ?L) + ((j * q + c) * e + k))"
      by (rule copied_src [OF c _ band_byte_less [OF n(2-4)]]) (use n in auto)
    then show "h' (whole + (((n * rows + start + j) * q + c) * e + k)) = h (buf + (((n * w + j) * q + c) * e + k))"
      unfolding band_byte using band_byte [of n w 0 j q c e k] by (simp add: ac_simps)
  next
    fix h' assume c: "copied ?R (w * ?L) h h'"
    fix n j c k assume n: "n < lines" "j < rows" "j < start \<or> start + w \<le> j" "c < q" "k < e"
    let ?a = "((n * rows + j) * q + c) * e + k"
    have byte: "?a = n * (rows * ?L) + (j * ?L + (c * e + k))" by (simp add: algebra_simps)
    have in_row: "c * e + k < ?L" by (rule pos_less [OF n(4, 5)])
    have up: "j * ?L + ?L \<le> rows * ?L" by (rule element_inside [OF n(2)])
    have side: "j * ?L + ?L \<le> start * ?L \<or> start * ?L + w * ?L \<le> j * ?L"
      using n(3) mult_le_mono1 [of "Suc j" start ?L] mult_le_mono1 [of "start + w" j ?L] by (auto simp: distrib_right)
    show "h' (whole + ?a) = h (whole + ?a)"
    proof (rule copied_frame [OF c])
      fix d s assume "(d, s) \<in> ?R"
      then obtain i where i: "i < lines" "d = whole + start * ?L + i * (rows * ?L)" by auto
      consider "i * (rows * ?L) + rows * ?L \<le> n * (rows * ?L)" | "i = n" "j * ?L + ?L \<le> start * ?L"
        | "i = n" "start * ?L + w * ?L \<le> j * ?L" | "n * (rows * ?L) + rows * ?L \<le> i * (rows * ?L)"
        using element_inside [of i n "rows * ?L"] element_inside [of n i "rows * ?L"] side by linarith
      then show "whole + ?a < d \<or> d + w * ?L \<le> whole + ?a"
      proof cases
        case 1
        have "d + w * ?L \<le> whole + ?a" using 1 band' unfolding byte i(2) by linarith
        then show ?thesis ..
      next
        case 2
        have "whole + ?a < d" using 2(2) in_row unfolding byte i(2) 2(1) by linarith
        then show ?thesis ..
      next
        case 3
        have "d + w * ?L \<le> whole + ?a" using 3(2) unfolding byte i(2) 3(1) by linarith
        then show ?thesis ..
      next
        case 4
        have "whole + ?a < d" using 4 in_row up unfolding byte i(2) by linarith
        then show ?thesis ..
      qed
    qed
  next
    fix h' a assume c: "copied ?R (w * ?L) h h'" and a: "a < whole \<or> whole + lines * rows * q * e \<le> a"
    show "h' a = h a"
    proof (rule copied_frame [OF c])
      fix d s assume "(d, s) \<in> ?R"
      then show "a < d \<or> d + w * ?L \<le> a" using dst a by (fastforce simp: mult.assoc)
    qed
  qed
  then show ?thesis by (simp add: add.assoc add.commute add.left_commute)
qed

section \<open>The geometry in natural numbers\<close>

definition conv_ok :: "conversion \<Rightarrow> nat \<Rightarrow> nat \<Rightarrow> nat \<Rightarrow> nat \<Rightarrow> bool" where
  "conv_ok cv B R C e = (cv_batch cv = int B \<and> cv_rows cv = int R \<and> cv_cols cv = int C \<and>
     unat (cv_elem_size cv) = e \<and> 0 < B \<and> 0 < R \<and> 0 < C \<and> 0 < e \<and> B * R * C * e < 1073741824)"

definition band_len :: "conversion \<Rightarrow> nat \<Rightarrow> nat \<Rightarrow> nat" where
  "band_len cv R C = (if cv_on_cols cv then C else R)"

definition band_other :: "conversion \<Rightarrow> nat \<Rightarrow> nat \<Rightarrow> nat" where
  "band_other cv R C = (if cv_on_cols cv then R else C)"

text \<open>The rows and columns of a tile of width \<open>w\<close>, and where it starts.\<close>

definition tile_rows :: "conversion \<Rightarrow> nat \<Rightarrow> nat \<Rightarrow> nat" where
  "tile_rows cv R w = (if cv_on_cols cv then R else w)"

definition tile_cols :: "conversion \<Rightarrow> nat \<Rightarrow> nat \<Rightarrow> nat" where
  "tile_cols cv C w = (if cv_on_cols cv then w else C)"

definition first_row :: "conversion \<Rightarrow> nat \<Rightarrow> nat" where
  "first_row cv start = (if cv_on_cols cv then 0 else start)"

definition first_col :: "conversion \<Rightarrow> nat \<Rightarrow> nat" where
  "first_col cv start = (if cv_on_cols cv then start else 0)"

lemmas orientation = band_len_def band_other_def tile_rows_def tile_cols_def first_row_def first_col_def
  cv_banded_def cv_other_def

lemma mult_le_left: "0 < (b :: nat) \<Longrightarrow> a \<le> a * b"
  by (cases b) simp_all

lemma conv_bounds:
  assumes "conv_ok cv B R C e"
  shows "B * band_other cv R C * band_len cv R C * e < 1073741824" "band_other cv R C * e < 1073741824"
    "B * band_other cv R C < 1073741824" "band_len cv R C < 1073741824" "band_other cv R C < 1073741824"
    "B < 1073741824" "0 < band_other cv R C" "0 < band_len cv R C" "e < 1073741824"
proof -
  let ?N = "band_len cv R C" and ?O = "band_other cv R C"
  have pos: "0 < B" "0 < ?O" "0 < ?N" "0 < e" using assms by (auto simp: conv_ok_def orientation)
  show all: "B * ?O * ?N * e < 1073741824" using assms by (auto simp: conv_ok_def orientation ac_simps)
  have lt: "x < 1073741824" if "x * y = B * ?O * ?N * e" "0 < y" for x y
    using mult_le_left [OF that(2), of x] that(1) all by simp
  show "?O * e < 1073741824" by (rule lt [of _ "B * ?N"]) (use pos in \<open>simp_all add: ac_simps\<close>)
  show "B * ?O < 1073741824" by (rule lt [of _ "?N * e"]) (use pos in \<open>simp_all add: ac_simps\<close>)
  show "?N < 1073741824" by (rule lt [of _ "B * ?O * e"]) (use pos in \<open>simp_all add: ac_simps\<close>)
  show "?O < 1073741824" by (rule lt [of _ "B * ?N * e"]) (use pos in \<open>simp_all add: ac_simps\<close>)
  show "B < 1073741824" by (rule lt [of _ "?O * ?N * e"]) (use pos in \<open>simp_all add: ac_simps\<close>)
  show "e < 1073741824" by (rule lt [of _ "B * ?O * ?N"]) (use pos in \<open>simp_all add: ac_simps\<close>)
  show "0 < ?O" "0 < ?N" by (rule pos)+
qed

lemma conv_ints:
  assumes "conv_ok cv B R C e"
  shows "cv_batch cv = int B" "cv_banded cv = int (band_len cv R C)" "cv_other cv = int (band_other cv R C)"
    "unat (cv_elem_size cv) = e" "unat (word_of_int (cv_other cv) * cv_elem_size cv :: u32) = band_other cv R C * e"
proof -
  show ints: "cv_batch cv = int B" "cv_banded cv = int (band_len cv R C)" "cv_other cv = int (band_other cv R C)"
    "unat (cv_elem_size cv) = e" using assms by (auto simp: conv_ok_def orientation)
  have "unat (word_of_int (cv_other cv) :: u32) = band_other cv R C"
    using conv_bounds(5) [OF assms] by (simp add: ints unat_of_nat_u32)
  then show "unat (word_of_int (cv_other cv) * cv_elem_size cv :: u32) = band_other cv R C * e"
    using conv_bounds(2) [OF assms] ints(4) by (simp add: unat_word_ariths)
qed

section \<open>The band\<close>

text \<open>A band of \<open>c\<close> rows fits when two aligned slices of it do.\<close>

definition band_fits :: "nat \<Rightarrow> nat \<Rightarrow> u32 \<Rightarrow> nat \<Rightarrow> bool" where
  "band_fits line e available c = (2 * round_up (line * c * e) \<le> unat available)"

lemma round_up_mono: "a \<le> b \<Longrightarrow> round_up a \<le> round_up b"
  by (simp add: round_up_def div_le_mono)

lemma band_fits_mono: "band_fits line e available c \<Longrightarrow> c' \<le> c \<Longrightarrow> band_fits line e available c'"
  using round_up_mono [of "line * c' * e" "line * c * e"] by (simp add: band_fits_def)

lemma align_tensor_size_eq: "align_tensor_size = align_up_u32"
  by (simp add: fun_eq_iff align_tensor_size_def align_up_u32_def)

lemma unat_ucast_mod: "unat (ucast w :: 'b::len word) = unat w mod 2 ^ LENGTH('b)"
  by (simp add: unsigned_ucast_eq take_bit_eq_mod)

lemma unat_u64: "n < 1073741824 \<Longrightarrow> unat (word_of_nat n :: u64) = n" "n < 1073741824 \<Longrightarrow> unat (word_of_nat n :: u32) = n"
  by (simp_all add: unat_of_nat)

lemma tile_elems_value:
  assumes "conv_ok cv B R C e" and "c \<le> band_len cv R C"
  shows "unat (word_of_int (cv_batch cv) * ucast (word_of_int (cv_other cv) :: u32) * ucast (word_of_int (int c) :: u32) :: u64) =
      B * band_other cv R C * c" and "B * band_other cv R C * c * e < 1073741824"
    and "B * band_other cv R C * c < 1073741824"
proof -
  note i = conv_ints [OF assms(1)] and b = conv_bounds [OF assms(1)]
  have le: "B * band_other cv R C * c \<le> B * band_other cv R C * band_len cv R C" using assms(2) by simp
  then have "B * band_other cv R C * c * e \<le> B * band_other cv R C * band_len cv R C * e" by (rule mult_le_mono1)
  then show all: "B * band_other cv R C * c * e < 1073741824" using b(1) by linarith
  have "0 < e" using assms(1) by (simp add: conv_ok_def)
  then show small: "B * band_other cv R C * c < 1073741824" using all mult_le_left [of e "B * band_other cv R C * c"] by linarith
  have c: "c < 1073741824" using assms(2) b(4) by linarith
  have "unat (ucast (word_of_int (int c) :: u32) :: u64) = c" using c by (simp add: unat_ucast_mod unat_u64)
  moreover have "unat (ucast (word_of_int (cv_other cv) :: u32) :: u64) = band_other cv R C"
    using b(5) by (simp add: i unat_ucast_mod unat_u64)
  moreover have "unat (word_of_int (cv_batch cv) :: u64) = B" using b(6) by (simp add: i unat_u64)
  ultimately show "unat (word_of_int (cv_batch cv) * ucast (word_of_int (cv_other cv) :: u32) * ucast (word_of_int (int c) :: u32) :: u64) =
      B * band_other cv R C * c"
    using small b(3) by (simp add: unat_word_ariths)
qed

lemma band_search_step:
  assumes ok: "conv_ok cv B R C e" and c: "int c = low + (high - low) div 2" "c \<le> band_len cv R C" and le: "low \<le> high"
  shows "band_search cv available low high band =
    (if band_fits (B * band_other cv R C) e available c then band_search cv available (int c + 1) high (int c)
     else band_search cv available low (int c - 1) band)"
proof -
  note t = tile_elems_value [OF ok c(2)]
  let ?w = "word_of_int (cv_batch cv) * ucast (word_of_int (cv_other cv) :: u32) * ucast (word_of_int (int c) :: u32) :: u64"
  let ?n = "B * band_other cv R C * c"
  have e: "unat (cv_elem_size cv) = e" "0 < e" using ok by (simp_all add: conv_ok_def)
  then have e0: "cv_elem_size cv \<noteq> 0" by auto
  have "?n * e \<le> 4294967295" using t(2) by simp
  then have "?n \<le> 4294967295 div e" using e(2) by (simp add: less_eq_div_iff_mult_less_eq)
  moreover have "4294967295 div e mod 18446744073709551616 = 4294967295 div e"
    by (rule mod_less, rule order_le_less_trans [OF div_le_dividend]) simp
  then have "unat (ucast (U32_MAX div cv_elem_size cv) :: u64) = 4294967295 div e"
    by (simp add: unat_ucast_mod unat_div e(1))
  ultimately have most: "\<not> ucast (U32_MAX div cv_elem_size cv) < ?w"
    unfolding word_less_nat_alt t(1) by linarith
  have "unat (ucast ?w :: u32) = ?n" unfolding unat_ucast_mod t(1) using t(3) by simp
  then have size: "unat (ucast ?w * cv_elem_size cv :: u32) = ?n * e" using t(2) e(1) by (simp add: unat_word_ariths)
  then obtain a where a: "align_tensor_size (ucast ?w * cv_elem_size cv) = Some a" "unat a = round_up (?n * e)"
    using t(2) by (cases "align_up_u32 (ucast ?w * cv_elem_size cv)")
      (auto simp: align_tensor_size_eq align_up_u32_None align_up_u32_Some)
  have "round_up (?n * e) < 2147483648" using round_up_less [of "?n * e"] t(2) by linarith
  then have "unat (ucast a * 2 :: u64) = 2 * round_up (?n * e)"
    by (simp add: unat_word_ariths unat_ucast_mod a(2))
  then have fits: "(ucast a * 2 \<le> (ucast available :: u64)) = band_fits (B * band_other cv R C) e available c"
    using unat_u32_less [of available] by (simp add: word_le_nat_alt unat_ucast_mod band_fits_def)
  have i: "i32 (int c + 1) = Some (int c + 1)" using conv_bounds(4) [OF ok] c(2) by (simp add: i32_def)
  show ?thesis
    using le most a(1) fits i e0
    by (subst band_search.simps) (simp add: c(1) [symmetric] Let_def udiv32_def i32_def)
qed

text \<open>The result is the longest band that fits.\<close>

lemma band_search_correct:
  assumes "conv_ok cv B R C e" and "1 \<le> low" and "high \<le> int (band_len cv R C)" and "band = low - 1" and "low \<le> high + 1"
    and "0 < band \<Longrightarrow> band_fits (B * band_other cv R C) e available (nat band)"
    and "\<And>c. high < int c \<Longrightarrow> c \<le> band_len cv R C \<Longrightarrow> \<not> band_fits (B * band_other cv R C) e available c"
  shows "\<exists>r. band_search cv available low high band = Some (Some (int r)) \<and> r \<le> band_len cv R C \<and>
    (0 < r \<longrightarrow> band_fits (B * band_other cv R C) e available r) \<and>
    (\<forall>c. r < c \<and> c \<le> band_len cv R C \<longrightarrow> \<not> band_fits (B * band_other cv R C) e available c)"
  using assms
proof (induction "nat (high + 1 - low)" arbitrary: low high band rule: less_induct)
  case less
  let ?fits = "band_fits (B * band_other cv R C) e available"
  show ?case
  proof (cases "low \<le> high")
    case True
    let ?m = "low + (high - low) div 2"
    obtain c where c: "int c = ?m" using True less.prems(2) by (metis add_increasing nonneg_int_cases pos_imp_zdiv_nonneg_iff zero_less_numeral diff_ge_0_iff_ge order_trans zero_le_one)
    have m: "low \<le> int c" "int c \<le> high" using True c by auto
    have cn: "c \<le> band_len cv R C" using m less.prems(3) by linarith
    note step = band_search_step [OF less.prems(1) c cn True, of available band]
    show ?thesis
    proof (cases "?fits c")
      case fits: True
      have "\<exists>r. band_search cv available (int c + 1) high (int c) = Some (Some (int r)) \<and> r \<le> band_len cv R C \<and>
          (0 < r \<longrightarrow> ?fits r) \<and> (\<forall>c. r < c \<and> c \<le> band_len cv R C \<longrightarrow> \<not> ?fits c)"
        by (rule less.hyps) (use m fits less.prems in auto)
      then show ?thesis using step fits by simp
    next
      case False
      have "\<exists>r. band_search cv available low (int c - 1) band = Some (Some (int r)) \<and> r \<le> band_len cv R C \<and>
          (0 < r \<longrightarrow> ?fits r) \<and> (\<forall>c. r < c \<and> c \<le> band_len cv R C \<longrightarrow> \<not> ?fits c)"
      proof (rule less.hyps)
        show "\<not> ?fits c'" if "int c - 1 < int c'" "c' \<le> band_len cv R C" for c'
          using that False band_fits_mono [of "B * band_other cv R C" e available c' c] by auto
      qed (use m less.prems cn in auto)
      then show ?thesis using step False by simp
    qed
  next
    case False
    then have "high = band" "0 \<le> band" using less.prems by auto
    then show ?thesis
      using False less.prems by (subst band_search.simps) (auto intro!: exI [of _ "nat band"])
  qed
qed

section \<open>The memory of a round\<close>

text \<open>The manager between two rounds, against the one the loop started with.\<close>

definition conv_mem :: "u16 \<Rightarrow> u16 \<Rightarrow> mem \<Rightarrow> mem \<Rightarrow> bool" where
  "conv_mem tin tout m0 m = (mem_wf m \<and> fast_used m = fast_reserved m \<and> num_tensors m = num_tensors m0 \<and>
     length (tensor_ptrs m) = length (tensor_ptrs m0) \<and>
     (\<forall>t. t \<noteq> unat tin \<and> t \<noteq> unat tout \<longrightarrow> tensor_ptrs m ! t = tensor_ptrs m0 ! t) \<and>
     (\<forall>p. pool_top p m = pool_top p m0 \<and> pool_limit p m = pool_limit p m0 \<and> pool_base p m = pool_base p m0) \<and>
     tc_row_tiled (tile m) = 0)"

lemma conv_memI:
  assumes "mem_wf m" "fast_used m = fast_reserved m" "num_tensors m = num_tensors m0"
    "length (tensor_ptrs m) = length (tensor_ptrs m0)"
    "\<And>t. t \<noteq> unat tin \<Longrightarrow> t \<noteq> unat tout \<Longrightarrow> tensor_ptrs m ! t = tensor_ptrs m0 ! t"
    "\<And>p. pool_top p m = pool_top p m0" "\<And>p. pool_limit p m = pool_limit p m0" "\<And>p. pool_base p m = pool_base p m0"
    "tc_row_tiled (tile m) = 0"
  shows "conv_mem tin tout m0 m"
  unfolding conv_mem_def using assms by blast

lemma mem_tile [simp]:
  "pool_top p (m\<lparr>tile := x\<rparr>) = pool_top p m" "pool_limit p (m\<lparr>tile := x\<rparr>) = pool_limit p m"
  "pool_base p (m\<lparr>tile := x\<rparr>) = pool_base p m"
  "pool_top p (m\<lparr>stats := y\<rparr>) = pool_top p m" "pool_limit p (m\<lparr>stats := y\<rparr>) = pool_limit p m"
  "pool_base p (m\<lparr>stats := y\<rparr>) = pool_base p m"
  by (cases p; simp add: pool_top_def pool_limit_def pool_base_def pool_used_def pool_size_def)+

lemma mem_wf_tile [simp]: "mem_wf (m\<lparr>tile := x\<rparr>) = mem_wf m" "mem_wf (m\<lparr>stats := y\<rparr>) = mem_wf m"
  by (simp_all add: mem_wf_def pool_wf_def pool_simps)

text \<open>A slice is allocated when it fits.\<close>

definition placed :: "mem \<Rightarrow> u16 \<Rightarrow> nat \<Rightarrow> mem \<Rightarrow> bool" where
  "placed m t n m' = (mem_wf m' \<and> tensor_ptrs m' = (tensor_ptrs m)[unat t := pool_top Fast m] \<and>
     num_tensors m' = num_tensors m \<and> pool_top Fast m' = pool_top Fast m + round_up n \<and>
     pool_top Slow m' = pool_top Slow m \<and> (\<forall>p. pool_limit p m' = pool_limit p m \<and> pool_base p m' = pool_base p m) \<and>
     tile m' = tile m \<and> fast_reserved m' = fast_reserved m)"

lemma alloc_tile_fits:
  assumes wf: "mem_wf m" and t: "t < num_tensors m" and n: "unat n \<le> 4294967264"
    and room: "pool_top Fast m + round_up (unat n) \<le> pool_limit Fast m"
  shows "\<exists>m'. alloc_tile t n (m, h) = Some (Inr (m', h)) \<and> placed m t (unat n) m'"
proof -
  have base: "pool_base Fast m \<noteq> 0" using wf by (simp add: mem_wf_def pool_base_def)
  have "has_room Fast m (unat n)" using n room by (simp add: has_room_def)
  with alloc_bump_exactly [OF wf t base, of n] obtain m' where m': "alloc_bump Fast m t n = Some (Inr m')" "mem_wf m'"
      "tensor_ptrs m' = (tensor_ptrs m)[unat t := pool_top Fast m]" "num_tensors m' = num_tensors m"
      "pool_top Fast m' = pool_top Fast m + round_up (unat n)" "pool_limit Fast m' = pool_limit Fast m"
      "\<forall>q. pool_base q m' = pool_base q m"
      "\<forall>q. q \<noteq> Fast \<longrightarrow> pool_top q m' = pool_top q m \<and> pool_limit q m' = pool_limit q m"
    by (auto simp: exactly_def dest!: wpD split: sum.splits)
  have out: "alloc_outcome Fast m t n = None" by (rule alloc_bump_Inr_outcome [OF wf m'(1)])
  have eq: "m' = pool_bump Fast (word_of_nat (round_up (unat n))) (m\<lparr>tensor_ptrs := (tensor_ptrs m)[unat t := pool_top Fast m]\<rparr>)"
    using m'(1) by (simp add: alloc_bump_correct [OF wf] out)
  have tile: "tile m' = tile m" "fast_reserved m' = fast_reserved m" by (simp_all add: eq)
  have "pool_limit p m' = pool_limit p m" for p using m'(6, 8) by (cases p) simp_all
  then have "placed m t (unat n) m'" using m' tile by (simp add: placed_def)
  then show ?thesis using m'(1) by (simp add: alloc_tile_def tigris_mem_alloc_fast_def)
qed

lemma reset_pools:
  "pool_top Fast (tigris_mem_reset_fast m) = fast_base m + unat (fast_reserved m)"
  "pool_top Slow (tigris_mem_reset_fast m) = pool_top Slow m"
  "pool_limit p (tigris_mem_reset_fast m) = pool_limit p m" "pool_base p (tigris_mem_reset_fast m) = pool_base p m"
  by (cases p; simp add: tigris_mem_reset_fast_def pool_simps)+

section \<open>The transfers of a round\<close>

lemma wp_gather_band:
  assumes ok: "conv_ok cv B R C e" and w: "0 < w" "start + w \<le> band_len cv R C"
    and apart: "regions_apart buf (B * band_other cv R C * w * e) whole (B * R * C * e)"
  shows "wp (gather_band cv buf whole (int (B * band_other cv R C)) (int start) (int w) (m, h)) (\<lambda>(m', h').
    (\<exists>k. m' = count_load k m) \<and>
    (\<forall>b < B. \<forall>r < tile_rows cv R w. \<forall>c < tile_cols cv C w. \<forall>k < e.
       h' (buf + (((b * tile_rows cv R w + r) * tile_cols cv C w + c) * e + k)) =
       h (whole + (((b * R + first_row cv start + r) * C + first_col cv start + c) * e + k))) \<and>
    (\<forall>a. a < buf \<or> buf + B * band_other cv R C * w * e \<le> a \<longrightarrow> h' a = h a))"
proof (cases "cv_on_cols cv")
  case True
  note o = orientation True if_True and i = conv_ints [OF ok]
  have e: "0 < e" and C: "start + w \<le> C" using ok w by (auto simp: conv_ok_def o)
  have "wp (loop 0 (B * R) (\<lambda>n h. ram_memcpy h (buf + n * (w * (1 * e))) (whole + n * (C * (1 * e)) + start * (1 * e)) (w * (1 * e))) h)
    (\<lambda>h'. (\<forall>n < B * R. \<forall>j < w. \<forall>c < 1. \<forall>k < e.
        h' (buf + (((n * w + j) * 1 + c) * e + k)) = h (whole + (((n * C + start + j) * 1 + c) * e + k))) \<and>
      (\<forall>a. a < buf \<or> buf + B * R * w * 1 * e \<le> a \<longrightarrow> h' a = h a))"
    by (rule wp_gather_rows) (use w e C apart in \<open>auto simp: o\<close>)
  then obtain h' where run: "loop 0 (B * R) (\<lambda>n h. ram_memcpy h (buf + n * (w * e)) (whole + n * (C * e) + start * e) (w * e)) h = Some h'"
    and el: "\<forall>n < B * R. \<forall>j < w. \<forall>k < e. h' (buf + ((n * w + j) * e + k)) = h (whole + ((n * C + start + j) * e + k))"
    and frame: "\<forall>a. a < buf \<or> buf + B * R * w * e \<le> a \<longrightarrow> h' a = h a"
    by (auto dest!: wpD)
  have "gather_band cv buf whole (int (B * band_other cv R C)) (int start) (int w) (m, h) =
      Some (count_load (word_of_nat (B * R * (w * e))) m, h')"
    using run by (simp add: gather_band_def gather_row_band_def Let_def i True band_len_def band_other_def del: of_nat_mult)
  then show ?thesis
    using el frame pos_less by (auto simp: o intro!: exI)
next
  case False
  note o = orientation False if_False and i = conv_ints [OF ok]
  have e: "0 < e" "0 < C" and R: "start + w \<le> R" using ok w by (auto simp: conv_ok_def o)
  have "wp (loop 0 B (\<lambda>n h. ram_memcpy h (buf + n * (w * (C * e))) (whole + n * (R * (C * e)) + start * (C * e)) (w * (C * e))) h)
    (\<lambda>h'. (\<forall>n < B. \<forall>j < w. \<forall>c < C. \<forall>k < e.
        h' (buf + (((n * w + j) * C + c) * e + k)) = h (whole + (((n * R + start + j) * C + c) * e + k))) \<and>
      (\<forall>a. a < buf \<or> buf + B * w * C * e \<le> a \<longrightarrow> h' a = h a))"
    by (rule wp_gather_rows) (use w e R apart in \<open>auto simp: o ac_simps\<close>)
  then obtain h' where run: "loop 0 B (\<lambda>n h. ram_memcpy h (buf + n * (w * (C * e))) (whole + n * (R * (C * e)) + start * (C * e)) (w * (C * e))) h = Some h'"
    and el: "\<forall>n < B. \<forall>j < w. \<forall>c < C. \<forall>k < e. h' (buf + (((n * w + j) * C + c) * e + k)) = h (whole + (((n * R + start + j) * C + c) * e + k))"
    and frame: "\<forall>a. a < buf \<or> buf + B * w * C * e \<le> a \<longrightarrow> h' a = h a"
    by (auto dest!: wpD)
  have len: "unat (word_of_nat C * cv_elem_size cv) = C * e" using i(5) by (simp add: i(3) band_other_def False)
  have "gather_band cv buf whole (int (B * band_other cv R C)) (int start) (int w) (m, h) =
      Some (count_load (word_of_nat (B * (w * (C * e)))) m, h')"
    using run len by (simp add: gather_band_def gather_row_band_def Let_def i(1-4) False band_len_def band_other_def del: of_nat_mult)
  then show ?thesis
    using el frame by (auto simp: o ac_simps intro!: exI)
qed

definition in_band :: "conversion \<Rightarrow> nat \<Rightarrow> nat \<Rightarrow> nat \<Rightarrow> nat \<Rightarrow> bool" where
  "in_band cv start w r c = (let x = if cv_on_cols cv then c else r in start \<le> x \<and> x < start + w)"

lemma wp_scatter_band:
  assumes ok: "conv_ok cv B R C e" and w: "0 < w" "start + w \<le> band_len cv R C"
    and apart: "regions_apart buf (B * band_other cv R C * w * e) whole (B * R * C * e)"
  shows "wp (scatter_band cv whole buf (int (B * band_other cv R C)) (int start) (int w) (m, h)) (\<lambda>(m', h').
    (\<exists>k. m' = count_spill k m) \<and>
    (\<forall>b < B. \<forall>r < tile_rows cv R w. \<forall>c < tile_cols cv C w. \<forall>k < e.
       h' (whole + (((b * C + first_col cv start + c) * R + first_row cv start + r) * e + k)) =
       h (buf + (((b * tile_cols cv C w + c) * tile_rows cv R w + r) * e + k))) \<and>
    (\<forall>b < B. \<forall>r < R. \<forall>c < C. \<not> in_band cv start w r c \<longrightarrow> (\<forall>k < e.
       h' (whole + (((b * C + c) * R + r) * e + k)) = h (whole + (((b * C + c) * R + r) * e + k)))) \<and>
    (\<forall>a. a < whole \<or> whole + B * R * C * e \<le> a \<longrightarrow> h' a = h a))"
proof (cases "cv_on_cols cv")
  case True
  note o = orientation True if_True and i = conv_ints [OF ok]
  have e: "0 < e" "0 < R" and C: "start + w \<le> C" using ok w by (auto simp: conv_ok_def o)
  have "wp (loop 0 B (\<lambda>n h. ram_memcpy h (whole + n * (C * (R * e)) + start * (R * e)) (buf + n * (w * (R * e))) (w * (R * e))) h)
    (\<lambda>h'. (\<forall>n < B. \<forall>j < w. \<forall>c < R. \<forall>k < e.
        h' (whole + (((n * C + start + j) * R + c) * e + k)) = h (buf + (((n * w + j) * R + c) * e + k))) \<and>
      (\<forall>n < B. \<forall>j < C. j < start \<or> start + w \<le> j \<longrightarrow> (\<forall>c < R. \<forall>k < e.
        h' (whole + (((n * C + j) * R + c) * e + k)) = h (whole + (((n * C + j) * R + c) * e + k)))) \<and>
      (\<forall>a. a < whole \<or> whole + B * C * R * e \<le> a \<longrightarrow> h' a = h a))"
    by (rule wp_scatter_rows) (use w e C apart in \<open>auto simp: o ac_simps\<close>)
  then obtain h' where run: "loop 0 B (\<lambda>n h. ram_memcpy h (whole + n * (C * (R * e)) + start * (R * e)) (buf + n * (w * (R * e))) (w * (R * e))) h = Some h'"
    and el: "\<forall>n < B. \<forall>j < w. \<forall>c < R. \<forall>k < e.
        h' (whole + (((n * C + start + j) * R + c) * e + k)) = h (buf + (((n * w + j) * R + c) * e + k))"
    and rest: "\<forall>n < B. \<forall>j < C. j < start \<or> start + w \<le> j \<longrightarrow> (\<forall>c < R. \<forall>k < e.
        h' (whole + (((n * C + j) * R + c) * e + k)) = h (whole + (((n * C + j) * R + c) * e + k)))"
    and frame: "\<forall>a. a < whole \<or> whole + B * C * R * e \<le> a \<longrightarrow> h' a = h a"
    by (auto dest!: wpD)
  have len: "unat (word_of_nat R * cv_elem_size cv) = R * e" using i(5) by (simp add: i(3) band_other_def True)
  have "scatter_band cv whole buf (int (B * band_other cv R C)) (int start) (int w) (m, h) =
      Some (count_spill (word_of_nat (B * (w * (R * e)))) m, h')"
    using run len by (simp add: scatter_band_def scatter_row_band_def Let_def i(1-4) True band_len_def band_other_def del: of_nat_mult)
  moreover have "\<forall>a. a < whole \<or> whole + B * R * C * e \<le> a \<longrightarrow> h' a = h a"
    using frame by (simp only: mult.assoc mult.left_commute [of C])
  ultimately show ?thesis
    using el rest by (auto simp: o in_band_def not_le not_less intro!: exI)
next
  case False
  note o = orientation False if_False and i = conv_ints [OF ok]
  have e: "0 < e" and R: "start + w \<le> R" using ok w by (auto simp: conv_ok_def o)
  have "wp (loop 0 (B * C) (\<lambda>n h. ram_memcpy h (whole + n * (R * (1 * e)) + start * (1 * e)) (buf + n * (w * (1 * e))) (w * (1 * e))) h)
    (\<lambda>h'. (\<forall>n < B * C. \<forall>j < w. \<forall>c < 1. \<forall>k < e.
        h' (whole + (((n * R + start + j) * 1 + c) * e + k)) = h (buf + (((n * w + j) * 1 + c) * e + k))) \<and>
      (\<forall>n < B * C. \<forall>j < R. j < start \<or> start + w \<le> j \<longrightarrow> (\<forall>c < 1. \<forall>k < e.
        h' (whole + (((n * R + j) * 1 + c) * e + k)) = h (whole + (((n * R + j) * 1 + c) * e + k)))) \<and>
      (\<forall>a. a < whole \<or> whole + B * C * R * 1 * e \<le> a \<longrightarrow> h' a = h a))"
    by (rule wp_scatter_rows) (use w e R apart in \<open>auto simp: o ac_simps\<close>)
  then obtain h' where run: "loop 0 (B * C) (\<lambda>n h. ram_memcpy h (whole + n * (R * e) + start * e) (buf + n * (w * e)) (w * e)) h = Some h'"
    and el: "\<forall>n < B * C. \<forall>j < w. \<forall>k < e. h' (whole + ((n * R + start + j) * e + k)) = h (buf + ((n * w + j) * e + k))"
    and rest: "\<forall>n < B * C. \<forall>j < R. j < start \<or> start + w \<le> j \<longrightarrow> (\<forall>k < e.
        h' (whole + ((n * R + j) * e + k)) = h (whole + ((n * R + j) * e + k)))"
    and frame: "\<forall>a. a < whole \<or> whole + B * C * R * e \<le> a \<longrightarrow> h' a = h a"
    by (auto dest!: wpD)
  have "scatter_band cv whole buf (int (B * band_other cv R C)) (int start) (int w) (m, h) =
      Some (count_spill (word_of_nat (B * C * (w * e))) m, h')"
    using run by (simp add: scatter_band_def scatter_row_band_def Let_def i False band_len_def band_other_def del: of_nat_mult)
  moreover have "\<forall>a. a < whole \<or> whole + B * R * C * e \<le> a \<longrightarrow> h' a = h a"
    using frame by (simp only: mult.assoc mult.left_commute [of C])
  ultimately show ?thesis
    using el rest pos_less by (auto simp: o in_band_def not_le not_less intro!: exI)
qed

section \<open>What the stage relies on\<close>

text \<open>A call on a slice: the tile describes a batch of \<open>B\<close> matrices of \<open>R\<close> rows and \<open>C\<close> columns of
  elements of \<open>n\<close> bytes, of a tensor whose scalars have \<open>dt\<close>.\<close>

definition slice_call ::
  "mem \<Rightarrow> u16 \<Rightarrow> u16 \<Rightarrow> nat \<Rightarrow> nat \<Rightarrow> nat \<Rightarrow> nat \<Rightarrow> nat \<Rightarrow> nat \<Rightarrow> nat \<Rightarrow> bool" where
  "slice_call m tin tout src dst dt B R C n = (tensor_at m tin src \<and> tensor_at m tout dst \<and>
     tc_active (tile m) \<and> tc_transposed_tile (tile m) \<and> tc_row_tiled (tile m) = 0 \<and>
     tc_transpose_outer (tile m) = int B \<and> tc_in_h (tile m) = int R \<and> tc_in_w (tile m) = int C \<and>
     tc_out_h (tile m) = int C \<and> tc_out_w (tile m) = int R \<and> 0 < B \<and> 0 < R \<and> 0 < C \<and>
     0 < tc_transpose_block (tile m) \<and> int n = int dt * tc_transpose_block (tile m) \<and> n < 4294967296 \<and>
     regions_apart dst (B * R * C * n) src (B * R * C * n))"

locale slice_kernel =
  fixes kern :: "tigris_plan \<Rightarrow> tigris_op \<Rightarrow> u16 \<Rightarrow> mem \<Rightarrow> ram \<Rightarrow> (unit + ram) option"
    and serves :: "tigris_plan \<Rightarrow> tigris_op \<Rightarrow> u16 \<Rightarrow> u16 \<Rightarrow> u16 \<Rightarrow> nat \<Rightarrow> bool"
  assumes slice: "serves pl oper op_index tin tout dt \<Longrightarrow> slice_call m tin tout src dst dt B R C n \<Longrightarrow>
    wp (kern pl oper op_index m h) (yields (copied (slice_positions dst src n B R C) n h))"

text \<open>The transpose kernel of the library is such a kernel.\<close>

definition transposing :: "tigris_plan \<Rightarrow> tigris_op \<Rightarrow> u16 \<Rightarrow> u16 \<Rightarrow> u16 \<Rightarrow> nat \<Rightarrow> bool" where
  "transposing pl oper op_index tin tout dt = (\<exists>ps shape. transposes pl oper op_index tin tout ps shape dt)"

lemma transpose_slice_kernel:
  assumes "transposing pl oper op_index tin tout dt" and call: "slice_call m tin tout src dst dt B R C n"
  shows "wp (tigris_transpose_execute independent pl oper op_index m h) (yields (copied (slice_positions dst src n B R C) n h))"
proof -
  obtain ps shape where t: "transposes pl oper op_index tin tout ps shape dt" using assms(1) by (auto simp: transposing_def)
  have at: "tensor_at m tin src" "tensor_at m tout dst" and tile: "tc_active (tile m)" "tc_transposed_tile (tile m)"
    and whole: "\<not> (tc_active (tile m) \<and> tc_row_tiled (tile m) \<ge> BAND_AXIS_BASE)"
    using call by (auto simp: slice_call_def BAND_AXIS_BASE_def)
  obtain perm where run: "tigris_transpose_execute independent pl oper op_index m h = transpose_slice dst src (word_of_nat dt) (tile m) h"
    by (rule transposes_execute [OF t at whole, of independent h]) (simp add: tile)
  have bytes: "int dt * tc_transpose_block (tile m) = int n" "n < 4294967296" using call by (simp_all add: slice_call_def)
  have "word_of_nat dt * word_of_int (tc_transpose_block (tile m)) = (word_of_int (int dt * tc_transpose_block (tile m)) :: u32)"
    by simp
  then have n: "n = unat (word_of_nat dt * word_of_int (tc_transpose_block (tile m)) :: u32)"
    unfolding bytes(1) by (simp add: unat_of_nat_u32 [OF bytes(2)])
  have ext: "tc_transpose_outer (tile m) = int B" "tc_in_h (tile m) = int R" "tc_in_w (tile m) = int C"
    "tc_out_h (tile m) = int C" "tc_out_w (tile m) = int R" "0 < B" "0 < R" "0 < C" "0 < tc_transpose_block (tile m)"
    and apart: "regions_apart dst (B * R * C * n) src (B * R * C * n)" using call by (simp_all add: slice_call_def)
  have "wp (transpose_slice dst src (word_of_nat dt) (tile m) h) (yields (copied (slice_positions dst src n
      (nat (tc_transpose_outer (tile m))) (nat (tc_in_h (tile m))) (nat (tc_in_w (tile m)))) n h))"
    by (rule wp_transpose_slice [OF _ _ _ _ _ _ n]) (simp_all add: ext apart)
  then show ?thesis unfolding run ext nat_int .
qed

interpretation transpose_kernel: slice_kernel "tigris_transpose_execute independent" transposing for independent
  by unfold_locales (rule transpose_slice_kernel)

end
