(* ===== verification/Transpose_Conversion.thy ===== *)
theory Transpose_Conversion
  imports Transpose_Bands
begin

text \<open>
  One round of a banded conversion: a band is gathered, turned by the kernel and scattered, which
  turns its rows or columns and leaves the others as they were.
\<close>

section \<open>One round\<close>

lemma wp_pairE: "wp m (\<lambda>(a, b). P a b) \<Longrightarrow> (\<And>a b. m = Some (a, b) \<Longrightarrow> P a b \<Longrightarrow> thesis) \<Longrightarrow> thesis"
  by (cases m) auto

text \<open>Where the input's element stands in the output, for the rows and columns of \<open>P\<close>.\<close>

definition turned ::
  "nat \<Rightarrow> nat \<Rightarrow> nat \<Rightarrow> nat \<Rightarrow> (nat \<Rightarrow> nat \<Rightarrow> bool) \<Rightarrow> nat \<Rightarrow> nat \<Rightarrow> ram \<Rightarrow> ram \<Rightarrow> bool" where
  "turned B R C e P ob ib h h' = (\<forall>b < B. \<forall>r < R. \<forall>c < C. P r c \<longrightarrow> (\<forall>k < e.
     h' (ob + (((b * C + c) * R + r) * e + k)) = h (ib + (((b * R + r) * C + c) * e + k))))"

definition kept :: "nat \<Rightarrow> nat \<Rightarrow> nat \<Rightarrow> nat \<Rightarrow> (nat \<Rightarrow> nat \<Rightarrow> bool) \<Rightarrow> nat \<Rightarrow> ram \<Rightarrow> ram \<Rightarrow> bool" where
  "kept B R C e P ob h h' = (\<forall>b < B. \<forall>r < R. \<forall>c < C. \<not> P r c \<longrightarrow> (\<forall>k < e.
     h' (ob + (((b * C + c) * R + r) * e + k)) = h (ob + (((b * C + c) * R + r) * e + k))))"

text \<open>Nothing outside the output and the free part of the fast arena changed.\<close>

definition elsewhere :: "mem \<Rightarrow> nat \<Rightarrow> nat \<Rightarrow> ram \<Rightarrow> ram \<Rightarrow> bool" where
  "elsewhere m ob n h h' = (\<forall>a. (a < ob \<or> ob + n \<le> a) \<and> \<not> (pool_top Fast m \<le> a \<and> a < pool_limit Fast m) \<longrightarrow> h' a = h a)"

lemma position_less: "b < B \<Longrightarrow> r < R \<Longrightarrow> c < C \<Longrightarrow> k < e \<Longrightarrow> ((b * R + r) * C + c) * e + k < B * R * C * (e :: nat)"
  by (intro pos_less)

lemma in_band_tile:
  assumes "in_band cv start w r c" and "r < R" and "c < C"
  obtains r' c' where "r' < tile_rows cv R w" "c' < tile_cols cv C w" "r = first_row cv start + r'" "c = first_col cv start + c'"
proof (cases "cv_on_cols cv")
  case True
  then show ?thesis
    using assms that [of r "c - start"] by (auto simp: in_band_def orientation)
next
  case False
  then show ?thesis
    using assms that [of "r - start" c] by (auto simp: in_band_def orientation)
qed

text \<open>What three transfers make of the memory.\<close>

lemma round_memory:
  assumes gather: "\<forall>b < B. \<forall>r < tile_rows cv R w. \<forall>c < tile_cols cv C w. \<forall>k < e.
       h1 (it + (((b * tile_rows cv R w + r) * tile_cols cv C w + c) * e + k)) =
       h (ib + (((b * R + first_row cv start + r) * C + first_col cv start + c) * e + k))"
      "\<forall>a. a < it \<or> it + n \<le> a \<longrightarrow> h1 a = h a"
    and kernel: "\<forall>b < B. \<forall>r < tile_rows cv R w. \<forall>c < tile_cols cv C w. \<forall>k < e.
       h2 (ot + (((b * tile_cols cv C w + c) * tile_rows cv R w + r) * e + k)) =
       h1 (it + (((b * tile_rows cv R w + r) * tile_cols cv C w + c) * e + k))"
      "\<forall>a. a < ot \<or> ot + n \<le> a \<longrightarrow> h2 a = h1 a"
    and scatter: "\<forall>b < B. \<forall>r < tile_rows cv R w. \<forall>c < tile_cols cv C w. \<forall>k < e.
       h3 (ob + (((b * C + first_col cv start + c) * R + first_row cv start + r) * e + k)) =
       h2 (ot + (((b * tile_cols cv C w + c) * tile_rows cv R w + r) * e + k))"
      "\<forall>b < B. \<forall>r < R. \<forall>c < C. \<not> in_band cv start w r c \<longrightarrow> (\<forall>k < e.
       h3 (ob + (((b * C + c) * R + r) * e + k)) = h2 (ob + (((b * C + c) * R + r) * e + k)))"
      "\<forall>a. a < ob \<or> ob + B * R * C * e \<le> a \<longrightarrow> h3 a = h2 a"
    and fast: "pool_top Fast m \<le> it" "it + n \<le> pool_limit Fast m" "pool_top Fast m \<le> ot" "ot + n \<le> pool_limit Fast m"
    and ob: "ob + B * R * C * e \<le> pool_top Fast m \<or> pool_limit Fast m \<le> ob"
  shows "turned B R C e (in_band cv start w) ob ib h h3" and "kept B R C e (in_band cv start w) ob h h3"
    and "elsewhere m ob (B * R * C * e) h h3"
proof -
  have slow: "h2 a = h a" if "\<not> (pool_top Fast m \<le> a \<and> a < pool_limit Fast m)" for a
  proof -
    have "a < ot \<or> ot + n \<le> a" "a < it \<or> it + n \<le> a" using that fast by linarith+
    then show ?thesis using gather(2) kernel(2) by metis
  qed
  show "turned B R C e (in_band cv start w) ob ib h h3"
    unfolding turned_def
  proof (intro allI impI)
    fix b r c k assume x: "b < B" "r < R" "c < C" "in_band cv start w r c" "k < e"
    obtain r' c' where r': "r' < tile_rows cv R w" "c' < tile_cols cv C w" "r = first_row cv start + r'" "c = first_col cv start + c'"
      by (rule in_band_tile [OF x(4, 2, 3)])
    show "h3 (ob + (((b * C + c) * R + r) * e + k)) = h (ib + (((b * R + r) * C + c) * e + k))"
      using gather(1) kernel(1) scatter(1) x(1, 5) r'(1, 2) unfolding r'(3, 4) add.assoc [symmetric] by simp
  qed
  show "kept B R C e (in_band cv start w) ob h h3"
    unfolding kept_def
  proof (intro allI impI)
    fix b r c k assume x: "b < B" "r < R" "c < C" "\<not> in_band cv start w r c" "k < e"
    let ?a = "((b * C + c) * R + r) * e + k"
    have "?a < B * C * R * e" by (rule position_less [OF x(1) x(3) x(2) x(5)])
    then have "?a < B * R * C * e" by (simp only: mult.assoc mult.left_commute [of C])
    then have "h2 (ob + ?a) = h (ob + ?a)" using ob by (intro slow) linarith
    then show "h3 (ob + ?a) = h (ob + ?a)" using scatter(2) x by simp
  qed
  show "elsewhere m ob (B * R * C * e) h h3"
    unfolding elsewhere_def using scatter(3) slow by metis
qed

lemma slice_memory:
  assumes c: "copied (slice_positions ot it e B R C) e h h'"
  shows "\<forall>b < B. \<forall>r < R. \<forall>c < C. \<forall>k < e. h' (ot + (((b * C + c) * R + r) * e + k)) = h (it + (((b * R + r) * C + c) * e + k))"
    and "\<forall>a. a < ot \<or> ot + B * R * C * e \<le> a \<longrightarrow> h' a = h a"
proof -
  show "\<forall>b < B. \<forall>r < R. \<forall>c < C. \<forall>k < e. h' (ot + (((b * C + c) * R + r) * e + k)) = h (it + (((b * R + r) * C + c) * e + k))"
  proof (intro allI impI)
    fix b r c k assume x: "b < B" "r < R" "c < C" "k < e"
    have "(ot + ((b * C + c) * R + r) * e, it + ((b * R + r) * C + c) * e) \<in> slice_positions ot it e B R C"
      using x by (force simp: slice_positions_def elements_def)
    from copied_src [OF assms this x(4)]
    show "h' (ot + (((b * C + c) * R + r) * e + k)) = h (it + (((b * R + r) * C + c) * e + k))" by (simp add: add.assoc)
  qed
  show "\<forall>a. a < ot \<or> ot + B * R * C * e \<le> a \<longrightarrow> h' a = h a"
  proof (intro allI impI)
    fix a assume a: "a < ot \<or> ot + B * R * C * e \<le> a"
    show "h' a = h a"
    proof (rule copied_frame [OF c])
      fix d s assume "(d, s) \<in> slice_positions ot it e B R C"
      then obtain b r c where x: "b < B" "r < R" "c < C" "d = ot + ((b * C + c) * R + r) * e"
        by (auto simp: slice_positions_def elements_def)
      have "(b * C + c) * R + r < B * C * R" using pos_less [OF pos_less [OF x(1, 3)] x(2)] .
      then have "(b * C + c) * R + r < B * R * C" by (simp only: mult.assoc mult.commute [of C])
      from element_inside [OF this, of e] show "a < d \<or> d + e \<le> a" using a x(4) by auto
    qed
  qed
qed

text \<open>The sizes of a round.\<close>

lemma round_sizes:
  assumes ok: "conv_ok cv B R C e" and w: "w \<le> band_len cv R C"
  shows "unat (ucast (word_of_int (cv_batch cv) * ucast (word_of_int (cv_other cv) :: u32) * ucast (word_of_int (int w) :: u32) *
      ucast (cv_elem_size cv) :: u64) :: u32) = B * band_other cv R C * w * e"
    and "B * tile_rows cv R w * tile_cols cv C w * e = B * band_other cv R C * w * e"
    and "B * band_other cv R C * w * e < 1073741824"
proof -
  note t = tile_elems_value [OF ok w] and i = conv_ints [OF ok]
  show "B * band_other cv R C * w * e < 1073741824" by (rule t(2))
  have "unat (ucast (cv_elem_size cv) :: u64) = e"
    using conv_bounds(9) [OF ok] unfolding unat_ucast_mod i(4) by simp
  then have "unat (word_of_int (cv_batch cv) * ucast (word_of_int (cv_other cv) :: u32) * ucast (word_of_int (int w) :: u32) *
      ucast (cv_elem_size cv) :: u64) = B * band_other cv R C * w * e"
    unfolding unat_word_ariths(2) [of _ "ucast (cv_elem_size cv)"] t(1) using t(2) by simp
  then show "unat (ucast (word_of_int (cv_batch cv) * ucast (word_of_int (cv_other cv) :: u32) * ucast (word_of_int (int w) :: u32) *
      ucast (cv_elem_size cv) :: u64) :: u32) = B * band_other cv R C * w * e"
    unfolding unat_ucast_mod using t(2) by simp
  show "B * tile_rows cv R w * tile_cols cv C w * e = B * band_other cv R C * w * e"
    by (simp add: orientation)
qed

context slice_kernel begin

lemma wp_band_round:
  assumes serves: "serves pl oper op_index tin tout dt" and ok: "conv_ok cv B R C e"
    and block: "0 < cv_block cv" "int e = int dt * cv_block cv"
    and mem: "conv_mem tin tout m0 m" and idx: "tin \<noteq> tout" "tin < num_tensors m0" "tout < num_tensors m0"
    and start: "start < band_len cv R C" "0 < band"
    and room: "pool_top Fast m0 + 2 * round_up (B * band_other cv R C * min band (band_len cv R C - start) * e) \<le> pool_limit Fast m0"
    and ib: "ib + B * R * C * e \<le> pool_top Fast m0 \<or> pool_limit Fast m0 \<le> ib"
    and ob: "ob + B * R * C * e \<le> pool_top Fast m0 \<or> pool_limit Fast m0 \<le> ob"
  defines "w \<equiv> min band (band_len cv R C - start)"
  shows "wp (band_round (kern pl oper op_index) cv tin tout ib ob (int (B * band_other cv R C)) (int band) (int start) (m, h))
    (yields (\<lambda>(m', h'). conv_mem tin tout m0 m' \<and> turned B R C e (in_band cv start w) ob ib h h' \<and>
      kept B R C e (in_band cv start w) ob h h' \<and> elsewhere m0 ob (B * R * C * e) h h'))"
proof -
  let ?T = "B * band_other cv R C * w * e" and ?F = "pool_top Fast m0"
  have w: "0 < w" "start + w \<le> band_len cv R C" "w \<le> band_len cv R C" using start by (auto simp: w_def)
  note i = conv_ints [OF ok] and sizes = round_sizes [OF ok w(3)]
  have room: "?F + 2 * round_up ?T \<le> pool_limit Fast m0" using room by (simp add: w_def)
  have T: "?T \<le> round_up ?T" by (rule round_up_ge)
  define n :: u32 where "n = ucast (word_of_int (cv_batch cv) * ucast (word_of_int (cv_other cv) :: u32) *
    ucast (word_of_int (int w) :: u32) * ucast (cv_elem_size cv) :: u64)"
  have n: "unat n = ?T" "unat n \<le> 4294967264" using sizes by (simp_all add: n_def)
  define m1 where "m1 = (count_tile m)\<lparr>tile := conversion_tile cv (int w) (tile (count_tile m))\<rparr>"
  have m: "mem_wf m" "num_tensors m = num_tensors m0" "length (tensor_ptrs m) = length (tensor_ptrs m0)"
    "\<And>p. pool_top p m = pool_top p m0" "\<And>p. pool_limit p m = pool_limit p m0" "\<And>p. pool_base p m = pool_base p m0"
    "fast_used m = fast_reserved m" "tc_row_tiled (tile m) = 0"
    "\<And>t. t \<noteq> unat tin \<Longrightarrow> t \<noteq> unat tout \<Longrightarrow> tensor_ptrs m ! t = tensor_ptrs m0 ! t"
    using mem by (simp_all add: conv_mem_def)
  have m1: "mem_wf m1" "num_tensors m1 = num_tensors m0" "tensor_ptrs m1 = tensor_ptrs m"
    "\<And>p. pool_top p m1 = pool_top p m0" "\<And>p. pool_limit p m1 = pool_limit p m0" "\<And>p. pool_base p m1 = pool_base p m0"
    "fast_reserved m1 = fast_reserved m" "tile m1 = conversion_tile cv (int w) (tile m)"
    using m by (simp_all add: m1_def count_tile_def)
  obtain m2 where m2: "alloc_tile tin n (m1, h) = Some (Inr (m2, h))" "placed m1 tin ?T m2"
    using alloc_tile_fits [OF m1(1), of tin n h] m1 idx n room by (auto simp: n)
  have lens: "unat tin < length (tensor_ptrs m)" "unat tout < length (tensor_ptrs m)"
    using m(1, 2) idx by (auto simp: mem_wf_def word_less_nat_alt)
  have in_ptr: "tensor_ptrs m2 ! unat tin = ?F" "unat tin < length (tensor_ptrs m2)"
    using m2(2) lens m1 by (simp_all add: placed_def)
  obtain m3 h1 k where g: "gather_band cv ?F ib (int (B * band_other cv R C)) (int start) (int w) (m2, h) = Some (m3, h1)"
    "m3 = count_load k m2"
    "\<forall>b < B. \<forall>r < tile_rows cv R w. \<forall>c < tile_cols cv C w. \<forall>k < e.
       h1 (?F + (((b * tile_rows cv R w + r) * tile_cols cv C w + c) * e + k)) =
       h (ib + (((b * R + first_row cv start + r) * C + first_col cv start + c) * e + k))"
    "\<forall>a. a < ?F \<or> ?F + ?T \<le> a \<longrightarrow> h1 a = h a"
  proof -
    have "regions_apart ?F ?T ib (B * R * C * e)" using ib room T by (auto simp: regions_apart_def)
    from wp_gather_band [OF ok w(1, 2) this] show thesis by (rule wp_pairE) (auto intro: that)
  qed
  have m3: "mem_wf m3" "tout < num_tensors m3" "tensor_ptrs m3 = tensor_ptrs m2"
      "pool_top Fast m3 = ?F + round_up ?T" "pool_top Slow m3 = pool_top Slow m0"
      "\<And>p. pool_limit p m3 = pool_limit p m0" "\<And>p. pool_base p m3 = pool_base p m0" "num_tensors m3 = num_tensors m0"
      "tile m3 = tile m1" "fast_reserved m3 = fast_reserved m"
    using m2(2) m1 idx unfolding g(2) placed_def by (simp_all add: count_load_def)
  obtain m4 where m4: "alloc_tile tout n (m3, h1) = Some (Inr (m4, h1))" "placed m3 tout ?T m4"
    using alloc_tile_fits [OF m3(1, 2), of n h1] room n m3 by (auto simp: n)
  let ?G = "?F + round_up ?T"
  have ptrs: "tensor_ptrs m4 ! unat tin = ?F" "tensor_ptrs m4 ! unat tout = ?G" "unat tin < length (tensor_ptrs m4)"
      "unat tout < length (tensor_ptrs m4)"
    using m4(2) in_ptr m3 lens m1 m2(2) idx(1) by (auto simp: placed_def word_unat_eq_iff)
  have F: "0 < ?F" using m(1, 6) by (simp add: mem_wf_def pool_top_def pool_base_def) (metis m(4, 6) pool_base_def pool.simps(3) add_gr_0 neq0_conv)
  have call: "slice_call m4 tin tout ?F ?G dt B (tile_rows cv R w) (tile_cols cv C w) e"
  proof -
    have "tensor_at m4 tin ?F" "tensor_at m4 tout ?G"
      using ptrs m4(2) m3 idx F by (simp_all add: tensor_at_def placed_def)
    moreover have "tile m4 = conversion_tile cv (int w) (tile m)" using m4(2) m3 m1 by (simp add: placed_def)
    moreover have "0 < B" "0 < tile_rows cv R w" "0 < tile_cols cv C w" using ok w by (auto simp: conv_ok_def orientation)
    moreover have "regions_apart ?G ?T ?F ?T" using T by (simp add: regions_apart_def)
    ultimately show ?thesis
      using conv_bounds(9) [OF ok] block m(8)
      unfolding slice_call_def sizes(2)
      by (simp add: conversion_tile_def i tile_rows_def tile_cols_def band_other_def)
  qed
  from slice [OF serves call, of h1] obtain h2 where k: "kern pl oper op_index m4 h1 = Some (Inr h2)"
      "copied (slice_positions ?G ?F e B (tile_rows cv R w) (tile_cols cv C w)) e h1 h2"
    by (auto dest!: wpD simp: yields_def split: sum.splits)
  obtain m5 h3 k' where s: "scatter_band cv ob ?G (int (B * band_other cv R C)) (int start) (int w) (m4, h2) = Some (m5, h3)"
    "m5 = count_spill k' m4"
    "\<forall>b < B. \<forall>r < tile_rows cv R w. \<forall>c < tile_cols cv C w. \<forall>k < e.
       h3 (ob + (((b * C + first_col cv start + c) * R + first_row cv start + r) * e + k)) =
       h2 (?G + (((b * tile_cols cv C w + c) * tile_rows cv R w + r) * e + k))"
    "\<forall>b < B. \<forall>r < R. \<forall>c < C. \<not> in_band cv start w r c \<longrightarrow> (\<forall>k < e.
       h3 (ob + (((b * C + c) * R + r) * e + k)) = h2 (ob + (((b * C + c) * R + r) * e + k)))"
    "\<forall>a. a < ob \<or> ob + B * R * C * e \<le> a \<longrightarrow> h3 a = h2 a"
  proof -
    have "regions_apart ?G ?T ob (B * R * C * e)" using ob room T by (auto simp: regions_apart_def)
    from wp_scatter_band [OF ok w(1, 2) this] show thesis by (rule wp_pairE) (auto intro: that)
  qed
  have width: "(if cv_banded cv - int start < int band then cv_banded cv else int start + int band) - int start = int w"
    using start by (auto simp: w_def i min_def)
  have run: "band_round (kern pl oper op_index) cv tin tout ib ob (int (B * band_other cv R C)) (int band) (int start) (m, h) =
      Some (Inr (tigris_mem_reset_fast m5, h3))"
    unfolding band_round_def prod.case width n_def [symmetric] Let_def
    using m2(1) m4(1) g(1) s(1) k(1) ptrs in_ptr by (simp add: m1_def [symmetric] Let_def width n_def [symmetric] arr_get_def)
  note k' = slice_memory [OF k(2), unfolded sizes(2)]
  have fast: "?F \<le> ?F" "?F + ?T \<le> pool_limit Fast m0" "?F \<le> ?G" "?G + ?T \<le> pool_limit Fast m0" using room T by linarith+
  note memory = round_memory [OF g(3, 4) k' s(3-5) fast ob]
  have m5: "mem_wf m5" "tensor_ptrs m5 = tensor_ptrs m4" "num_tensors m5 = num_tensors m0" "fast_reserved m5 = fast_reserved m"
      "pool_top Slow m5 = pool_top Slow m0" "\<And>p. pool_limit p m5 = pool_limit p m0" "\<And>p. pool_base p m5 = pool_base p m0"
      "tile m5 = tile m1"
    using m4(2) m3 unfolding s(2) placed_def by (simp_all add: count_spill_def)
  have "conv_mem tin tout m0 (tigris_mem_reset_fast m5)"
  proof (rule conv_memI)
    show "mem_wf (tigris_mem_reset_fast m5)" by (rule mem_wf_reset [OF m5(1)])
    have "pool_top Fast (tigris_mem_reset_fast m5) = pool_top Fast m0"
      using m5(4) m5(7) [of Fast] m(4, 6) [of Fast] m(7) by (simp add: reset_pools) (simp add: pool_simps)
    then show "pool_top p (tigris_mem_reset_fast m5) = pool_top p m0" for p
      using m5(5) by (cases p) (simp_all add: reset_pools)
    show "tc_row_tiled (tile (tigris_mem_reset_fast m5)) = 0"
      using m5(8) m1 m(8) by (simp add: tigris_mem_reset_fast_def conversion_tile_def)
    show "length (tensor_ptrs (tigris_mem_reset_fast m5)) = length (tensor_ptrs m0)"
      using m5(2) m4(2) m3(3) m2(2) m1(3) m(3) by (simp add: tigris_mem_reset_fast_def placed_def)
    show "tensor_ptrs (tigris_mem_reset_fast m5) ! t = tensor_ptrs m0 ! t" if "t \<noteq> unat tin" "t \<noteq> unat tout" for t
      using that m5(2) m4(2) m3(3) m2(2) m1(3) m(9) [OF that] by (simp add: tigris_mem_reset_fast_def placed_def)
  qed (simp_all add: reset_pools m5, simp_all add: tigris_mem_reset_fast_def m5)
  then show ?thesis using run memory by simp
qed

end

end
