(* ===== verification/Transpose_Loop.thy ===== *)
theory Transpose_Loop
  imports Transpose_Conversion
begin

text \<open>
  All the rounds of a banded conversion. The loop over the bands turns the whole matrix, and the
  stage's epilogue gives both tensors their slow copies back; proved for every kernel that serves
  slices.
\<close>

section \<open>The loop\<close>

lemma wp_band_loop:
  assumes "I start c" and step: "\<And>s c. I s c \<Longrightarrow> s < N \<Longrightarrow> wp (step (int s) c) (yields (I (s + band)))"
    and band: "0 < band" "N + band < 2147483648"
  shows "wp (band_loop step (int N) (int band) (int start, c)) (yields (\<lambda>c'. \<exists>s \<ge> N. I s c'))"
  using assms(1)
proof (induction "N - start" arbitrary: start c rule: less_induct)
  case less
  show ?case
  proof (cases "start < N")
    case True
    from step [OF less.prems True] obtain c1 where c1: "step (int start) c = Some (Inr c1)" "I (start + band) c1"
      by (auto dest!: wpD simp: yields_def split: sum.splits)
    have i: "i32 (int start + int band) = Some (int (start + band))" using True band(2) by (simp add: i32_def)
    have "wp (band_loop step (int N) (int band) (int (start + band), c1)) (yields (\<lambda>c'. \<exists>s \<ge> N. I s c'))"
      by (rule less.hyps) (use True band c1 in auto)
    then show ?thesis
      using True c1(1) i by (subst band_loop.simps) (simp add: wp_i32)
  next
    case False
    then show ?thesis using less.prems by (subst band_loop.simps) (auto intro!: exI [of _ start])
  qed
qed

text \<open>What the rounds so far have done.\<close>

definition loop_state ::
  "conversion \<Rightarrow> nat \<Rightarrow> nat \<Rightarrow> nat \<Rightarrow> nat \<Rightarrow> u16 \<Rightarrow> u16 \<Rightarrow> nat \<Rightarrow> nat \<Rightarrow> mem \<Rightarrow> ram \<Rightarrow> nat \<Rightarrow> mem \<times> ram \<Rightarrow> bool" where
  "loop_state cv B R C e tin tout ib ob m0 h s = (\<lambda>(m, h'). conv_mem tin tout m0 m \<and>
     turned B R C e (\<lambda>r c. (if cv_on_cols cv then c else r) < s) ob ib h h' \<and> elsewhere m0 ob (B * R * C * e) h h')"

lemma loop_state_round:
  assumes st: "loop_state cv B R C e tin tout ib ob m0 h s (m, h1)" and s: "s < band_len cv R C"
    and w: "w = min band (band_len cv R C - s)"
    and round: "conv_mem tin tout m0 m2" "turned B R C e (in_band cv s w) ob ib h1 h2"
      "kept B R C e (in_band cv s w) ob h1 h2" "elsewhere m0 ob (B * R * C * e) h1 h2"
    and ib: "ib + B * R * C * e \<le> pool_top Fast m0 \<or> pool_limit Fast m0 \<le> ib"
    and apart: "regions_apart ob (B * R * C * e) ib (B * R * C * e)"
  shows "loop_state cv B R C e tin tout ib ob m0 h (s + band) (m2, h2)"
proof -
  have old: "turned B R C e (\<lambda>r c. (if cv_on_cols cv then c else r) < s) ob ib h h1" "elsewhere m0 ob (B * R * C * e) h h1"
    using st by (simp_all add: loop_state_def)
  have source: "h1 (ib + a) = h (ib + a)" if "a < B * R * C * e" for a
    using old(2) that ib apart unfolding elsewhere_def regions_apart_def by (smt (verit) add_lessD1 le_add1 nat_add_left_cancel_less order.strict_trans2 order_le_less_trans not_le)
  have "turned B R C e (\<lambda>r c. (if cv_on_cols cv then c else r) < s + band) ob ib h h2"
    unfolding turned_def
  proof (intro allI impI)
    fix b r c k assume x: "b < B" "r < R" "c < C" "(if cv_on_cols cv then c else r) < s + band" "k < e"
    show "h2 (ob + (((b * C + c) * R + r) * e + k)) = h (ib + (((b * R + r) * C + c) * e + k))"
    proof (cases "in_band cv s w r c")
      case True
      then have "h2 (ob + (((b * C + c) * R + r) * e + k)) = h1 (ib + (((b * R + r) * C + c) * e + k))"
        using round(2) x unfolding turned_def by blast
      also have "\<dots> = h (ib + (((b * R + r) * C + c) * e + k))"
        by (rule source [OF position_less [OF x(1-3, 5)]])
      finally show ?thesis .
    next
      case False
      have "(if cv_on_cols cv then c else r) < band_len cv R C" using x by (auto simp: band_len_def)
      then have "(if cv_on_cols cv then c else r) < s" using False x(4) s w by (auto simp: in_band_def Let_def split: if_splits)
      then have "h1 (ob + (((b * C + c) * R + r) * e + k)) = h (ib + (((b * R + r) * C + c) * e + k))"
        using old(1) x unfolding turned_def by blast
      moreover have "h2 (ob + (((b * C + c) * R + r) * e + k)) = h1 (ob + (((b * C + c) * R + r) * e + k))"
        using round(3) False x unfolding kept_def by blast
      ultimately show ?thesis by simp
    qed
  qed
  moreover have "elsewhere m0 ob (B * R * C * e) h h2" using old(2) round(4) unfolding elsewhere_def by metis
  ultimately show ?thesis using round(1) by (simp add: loop_state_def)
qed

text \<open>The stage's epilogue.\<close>

definition restored :: "u16 \<Rightarrow> u16 \<Rightarrow> nat \<Rightarrow> nat \<Rightarrow> mem \<Rightarrow> mem \<Rightarrow> bool" where
  "restored tin tout ib ob m0 m = (mem_wf m \<and> tile m = tile_ctx_zero \<and> fast_used m = fast_reserved m \<and>
     num_tensors m = num_tensors m0 \<and> tensor_ptrs m = (tensor_ptrs m0)[unat tin := ib, unat tout := ob] \<and>
     (\<forall>p. pool_top p m = pool_top p m0 \<and> pool_limit p m = pool_limit p m0))"

lemma end_conversion_restores:
  assumes mem: "conv_mem tin tout m0 m" and idx: "unat tin < length (tensor_ptrs m0)" "unat tout < length (tensor_ptrs m0)"
  shows "\<exists>m'. end_conversion tin tout ib ob m = Some m' \<and> restored tin tout ib ob m0 m'"
proof -
  have m: "mem_wf m" "fast_used m = fast_reserved m" "num_tensors m = num_tensors m0"
    "length (tensor_ptrs m) = length (tensor_ptrs m0)"
    "\<And>t. t \<noteq> unat tin \<Longrightarrow> t \<noteq> unat tout \<Longrightarrow> tensor_ptrs m ! t = tensor_ptrs m0 ! t"
    "\<And>p. pool_top p m = pool_top p m0" "\<And>p. pool_limit p m = pool_limit p m0"
    using mem by (simp_all add: conv_mem_def)
  let ?ps = "(tensor_ptrs m)[unat tin := ib, unat tout := ob]"
  let ?m = "(tigris_mem_reset_fast (m\<lparr>tile := tile_ctx_zero\<rparr>))\<lparr>tensor_ptrs := ?ps\<rparr>"
  have ptrs: "?ps = (tensor_ptrs m0)[unat tin := ib, unat tout := ob]"
    by (rule nth_equalityI) (use m(4, 5) idx in \<open>auto simp: nth_list_update\<close>)
  have run: "end_conversion tin tout ib ob m = Some ?m"
    using idx m(4) by (simp add: end_conversion_def set_ptr_def arr_set_def tigris_mem_reset_fast_def)
  have "tigris_mem_reset_fast (m\<lparr>tile := tile_ctx_zero\<rparr>) = m\<lparr>tile := tile_ctx_zero\<rparr>"
    using m(2) by (simp add: tigris_mem_reset_fast_def)
  moreover have "mem_wf (m\<lparr>tile := tile_ctx_zero, tensor_ptrs := ?ps\<rparr>)"
    using m(1) by (simp add: mem_wf_def pool_wf_def pool_simps)
  moreover have "pool_top p (x\<lparr>tensor_ptrs := qs\<rparr>) = pool_top p x" "pool_limit p (x\<lparr>tensor_ptrs := qs\<rparr>) = pool_limit p x" for p qs x
    by (cases p; simp add: pool_simps)+
  ultimately have "restored tin tout ib ob m0 ?m"
    using m ptrs by (simp add: restored_def)
  then show ?thesis using run by blast
qed

lemma restored_elsewhere: "elsewhere m0 ob n h h' \<Longrightarrow> pool_top Fast m = pool_top Fast m0 \<Longrightarrow> pool_limit Fast m = pool_limit Fast m0 \<Longrightarrow> elsewhere m ob n h h'"
  by (simp add: elsewhere_def)

context slice_kernel begin

lemma wp_run_conversion:
  assumes serves: "serves pl oper op_index tin tout dt" and ok: "conv_ok cv B R C e"
    and block: "0 < cv_block cv" "int e = int dt * cv_block cv"
    and mem: "conv_mem tin tout m m" and idx: "tin \<noteq> tout" "tin < num_tensors m" "tout < num_tensors m"
    and band: "0 < band" "band \<le> band_len cv R C"
    and room: "pool_top Fast m + 2 * round_up (B * band_other cv R C * band * e) \<le> pool_limit Fast m"
    and ib: "ib + B * R * C * e \<le> pool_top Fast m \<or> pool_limit Fast m \<le> ib"
    and ob: "ob + B * R * C * e \<le> pool_top Fast m \<or> pool_limit Fast m \<le> ob"
    and apart: "regions_apart ob (B * R * C * e) ib (B * R * C * e)"
  shows "wp (run_conversion (kern pl oper op_index) cv tin tout ib ob (int band) (m, h))
    (yields (\<lambda>(m', h'). restored tin tout ib ob m m' \<and> turned B R C e (\<lambda>_ _. True) ob ib h h' \<and>
      elsewhere m ob (B * R * C * e) h h'))"
proof -
  let ?N = "band_len cv R C" and ?st = "loop_state cv B R C e tin tout ib ob m h"
  note i = conv_ints [OF ok] and b = conv_bounds [OF ok]
  have lines: "i32 (cv_batch cv * cv_other cv) = Some (int (B * band_other cv R C))"
    using b(3) unfolding i(1, 3) of_nat_mult [symmetric] by (simp add: i32_def del: of_nat_mult)
  let ?step = "band_round (kern pl oper op_index) cv tin tout ib ob (int (B * band_other cv R C)) (int band)"
  have "wp (band_loop ?step (int ?N) (int band) (int 0, (m, h))) (yields (\<lambda>c. \<exists>s \<ge> ?N. ?st s c))"
  proof (rule wp_band_loop)
    show "?st 0 (m, h)" using mem by (simp add: loop_state_def turned_def elsewhere_def)
  next
    fix s c assume st: "?st s c" and s: "s < ?N"
    obtain m1 h1 where c: "c = (m1, h1)" by force
    have m1: "conv_mem tin tout m m1" using st c by (simp add: loop_state_def)
    let ?w = "min band (?N - s)"
    have "round_up (B * band_other cv R C * ?w * e) \<le> round_up (B * band_other cv R C * band * e)"
      by (intro round_up_mono mult_le_mono) simp_all
    then have room': "pool_top Fast m + 2 * round_up (B * band_other cv R C * ?w * e) \<le> pool_limit Fast m"
      using room by linarith
    show "wp (?step (int s) c) (yields (?st (s + band)))"
      unfolding c
    proof (rule wp_mono [OF wp_band_round [OF serves ok block m1 idx s band(1) room' ib ob]])
      fix r assume r: "yields (\<lambda>(m', h'). conv_mem tin tout m m' \<and> turned B R C e (in_band cv s ?w) ob ib h1 h' \<and>
        kept B R C e (in_band cv s ?w) ob h1 h' \<and> elsewhere m ob (B * R * C * e) h1 h') r"
      show "yields (?st (s + band)) r"
        by (rule yields_mono [OF r]) (use loop_state_round [OF st [unfolded c] s refl _ _ _ _ ib apart] in auto)
    qed
  qed (use band b(4) in auto)
  then obtain s c1 where c1: "band_loop ?step (cv_banded cv) (int band) (0, (m, h)) = Some (Inr c1)"
    and s: "?N \<le> s" and st: "?st s c1"
    by (auto simp: i(2) yields_def dest!: wpD split: sum.splits)
  obtain m1 h1 where c: "c1 = (m1, h1)" by force
  note loop = c1 [unfolded c] and st = st [unfolded c]
  have m1: "conv_mem tin tout m m1" using st by (simp add: loop_state_def)
  have "unat (num_tensors m) \<le> length (tensor_ptrs m)" using mem by (simp add: conv_mem_def mem_wf_def)
  then have "unat tin < length (tensor_ptrs m)" "unat tout < length (tensor_ptrs m)"
    using idx by (auto simp: word_less_nat_alt)
  from end_conversion_restores [OF m1 this] obtain m2 where m2: "end_conversion tin tout ib ob m1 = Some m2" "restored tin tout ib ob m m2"
    by blast
  have "turned B R C e (\<lambda>_ _. True) ob ib h h1"
    using st s unfolding loop_state_def turned_def band_len_def by (auto split: if_splits)
  moreover have "elsewhere m ob (B * R * C * e) h h1" using st by (simp add: loop_state_def)
  ultimately show ?thesis
    using m2 by (simp add: run_conversion_def lines loop del: of_nat_mult)
qed

end

end
