(* ===== verification/Transpose_Geometry.thy ===== *)
theory Transpose_Geometry
  imports Transpose_Bands
begin

text \<open>
  The matrix of a banded conversion. \<open>conversion_geometry\<close> reads it from the plan; for an operator
  that swaps two adjacent groups of axes it finds the extents of those groups, and permuting the
  tensor is then transposing that batch of matrices.
\<close>

section \<open>Products of extents\<close>

lemma read_shape_at:
  assumes "read_shape pl t n = Some xs" and "i < n"
  shows "tigris_tensor_shape pl t i = Some (xs ! i)"
proof -
  have "length xs = 0 + n \<and> (\<forall>j < 0 + n. tigris_tensor_shape pl t j = Some (xs ! j))"
    by (rule loop_invariant [OF assms(1) [unfolded read_shape_def],
        where I = "\<lambda>i xs. length xs = i \<and> (\<forall>j < i. tigris_tensor_shape pl t j = Some (xs ! j))"])
      (auto simp: bind_eq_Some_conv nth_append less_Suc_eq)
  then show ?thesis using assms(2) by simp
qed

lemma prod_part_le:
  fixes xs :: "int list"
  assumes "\<forall>e \<in> set xs. 0 < e"
  shows "prod_list (take n (drop lo xs)) \<le> prod_list xs"
proof -
  have pos: "0 < prod_list (take lo xs)" "0 < prod_list (take n (drop lo xs))" "0 < prod_list (drop n (drop lo xs))"
    using assms by (auto intro!: prod_list_positive dest: in_set_takeD in_set_dropD)
  have "prod_list xs = prod_list (take lo xs) * (prod_list (take n (drop lo xs)) * prod_list (drop n (drop lo xs)))"
    by (metis append_take_drop_id prod_list.append)
  moreover have "1 * prod_list (take n (drop lo xs)) \<le> prod_list (take lo xs) * prod_list (take n (drop lo xs))"
    using pos by (intro mult_right_mono) auto
  moreover have "(prod_list (take lo xs) * prod_list (take n (drop lo xs))) * 1 \<le>
      (prod_list (take lo xs) * prod_list (take n (drop lo xs))) * prod_list (drop n (drop lo xs))"
    using pos by (intro mult_left_mono mult_nonneg_nonneg) auto
  ultimately show ?thesis by (simp add: mult.assoc)
qed

lemma shape_product_loop:
  assumes at: "\<And>i. i < length xs \<Longrightarrow> tigris_tensor_shape pl t i = Some (xs ! i)"
    and pos: "\<forall>e \<in> set xs. 0 < e" and "lo + n \<le> length xs" and "0 < acc"
    and "acc * prod_list (take n (drop lo xs)) < 2147483648"
  shows "loop lo n (\<lambda>i acc. do { e \<leftarrow> tigris_tensor_shape pl t i; i32 (acc * e) }) acc =
    Some (acc * prod_list (take n (drop lo xs)))"
  using assms(3-5)
proof (induction n arbitrary: lo acc)
  case (Suc n)
  let ?e = "xs ! lo" and ?rest = "prod_list (take n (drop (Suc lo) xs))"
  have lo: "lo < length xs" using Suc.prems(1) by simp
  have e: "0 < ?e" using pos lo by simp
  have rest: "0 < ?rest" using pos by (auto intro!: prod_list_positive dest: in_set_takeD in_set_dropD)
  have split1: "prod_list (take (Suc n) (drop lo xs)) = ?e * ?rest"
    using lo by (simp add: Cons_nth_drop_Suc [symmetric])
  have b: "acc * ?e * ?rest < 2147483648" "0 < acc * ?e"
    using Suc.prems(2, 3) e unfolding split1 by (simp_all add: mult.assoc)
  have "acc * ?e * 1 \<le> acc * ?e * ?rest" using rest b(2) by (intro mult_left_mono) auto
  then have i: "i32 (acc * ?e) = Some (acc * ?e)" using b by (simp add: i32_def)
  have "loop (Suc lo) n (\<lambda>i acc. do { e \<leftarrow> tigris_tensor_shape pl t i; i32 (acc * e) }) (acc * ?e) = Some (acc * ?e * ?rest)"
    using Suc.prems(1) b by (intro Suc.IH) simp_all
  then show ?case by (simp only: split1 loop.simps at [OF lo] i Option.bind.bind_lunit) (simp add: mult.assoc)
qed simp

lemma shape_product_correct:
  assumes "read_shape pl t (length xs) = Some xs" and "\<forall>e \<in> set xs. 0 < e" and "lo + n \<le> length xs"
    and "prod_list xs < 2147483648"
  shows "shape_product pl t lo n = Some (prod_list (take n (drop lo xs)))"
  using shape_product_loop [of xs pl t lo n 1] read_shape_at [OF assms(1)] assms(2-4) prod_part_le [OF assms(2), of n lo]
  by (auto simp: shape_product_def)

lemma shape_total_loop:
  assumes at: "\<And>i. i < length xs \<Longrightarrow> tigris_tensor_shape pl t i = Some (xs ! i)"
    and small: "\<forall>e \<in> set xs. 0 < e \<and> e < 4294967296" and "lo + n \<le> length xs"
  shows "loop lo n (\<lambda>axis acc. do {
      e \<leftarrow> tigris_tensor_shape pl t axis; Some (acc * ucast (word_of_int e :: u32)) }) (word_of_int z :: u64) =
    Some (word_of_int (z * prod_list (take n (drop lo xs))))"
  using assms(3)
proof (induction n arbitrary: lo z)
  case (Suc n)
  have lo: "lo < length xs" using Suc.prems by simp
  have "ucast (word_of_int (xs ! lo) :: u32) = (word_of_int (xs ! lo) :: u64)"
    using bspec [OF small nth_mem [OF lo]] by (simp add: word_uint_eq_iff uint_word_of_int_eq take_bit_int_eq_self unsigned_ucast_eq)
  moreover have "prod_list (take (Suc n) (drop lo xs)) = xs ! lo * prod_list (take n (drop (Suc lo) xs))"
    using lo by (simp add: Cons_nth_drop_Suc [symmetric])
  ultimately show ?case
    using Suc.IH [of "Suc lo" "z * xs ! lo"] Suc.prems at [OF lo] by (simp add: mult.assoc)
qed simp

lemma shape_total_correct:
  assumes "read_shape pl t (unat (tn_ndim t)) = Some xs" and "\<forall>e \<in> set xs. 0 < e \<and> e < 4294967296"
  shows "shape_total pl t = Some (word_of_int (prod_list xs))"
proof -
  have len: "length xs = unat (tn_ndim t)" by (rule read_shape_length [OF assms(1)])
  show ?thesis
    using shape_total_loop [of xs pl t 0 "length xs" 1] read_shape_at [OF assms(1)] assms(2) len
    by (simp add: shape_total_def)
qed

section \<open>The conversion\<close>

text \<open>The sizes, in natural numbers: \<open>N\<close> positions of \<open>S\<close> elements of \<open>dt\<close> bytes.\<close>

lemma u64_parts:
  assumes size: "unat (w :: u32) = N * (S * dt)" and pos: "0 < N" "0 < S" "0 < dt" and small: "N * (S * dt) < 1073741824"
  shows "(ucast w :: u64) mod word_of_nat N = 0" "ucast ((ucast w :: u64) div word_of_nat N) = (word_of_nat (S * dt) :: u32)"
    "(ucast w :: u64) mod word_of_nat (N * S) = 0" "ucast ((ucast w :: u64) div word_of_nat (N * S)) = (word_of_nat dt :: u32)"
    "(word_of_nat N :: u64) \<noteq> 0" "(word_of_nat (N * S) :: u64) \<noteq> 0" "(word_of_nat dt :: u32) \<noteq> 0"
    "(word_of_nat (S * dt) :: u32) mod word_of_nat dt = 0"
    "sint ((word_of_nat (S * dt) :: u32) div word_of_nat dt) = int S" "unat (word_of_nat (S * dt) :: u32) = S * dt"
proof -
  have le: "x < 1073741824" if "x * y = N * (S * dt)" "0 < y" for x y
    using mult_le_left [OF that(2), of x] that(1) small by simp
  have b: "N < 1073741824" "S * dt < 1073741824" "N * S < 1073741824" "dt < 1073741824" "S < 1073741824"
    by (rule le [of _ "S * dt"] le [of _ N] le [of _ dt] le [of _ "N * S"] le [of _ "N * dt"]; use pos in \<open>simp add: ac_simps\<close>)+
  have u: "unat (word_of_nat N :: u64) = N" "unat (word_of_nat (N * S) :: u64) = N * S" "unat (word_of_nat dt :: u32) = dt"
    "unat (word_of_nat S :: u32) = S" "unat (word_of_nat (S * dt) :: u32) = S * dt"
    using b unat_u64 by blast+
  have w: "unat (ucast w :: u64) = N * (S * dt)" by (simp add: unat_ucast_mod size) (use small in simp)
  show "unat (word_of_nat (S * dt) :: u32) = S * dt" by (rule u)
  show "(word_of_nat N :: u64) \<noteq> 0" "(word_of_nat (N * S) :: u64) \<noteq> 0" "(word_of_nat dt :: u32) \<noteq> 0"
    using u(1-3) pos by (metis unat_0 less_irrefl mult_is_0)+
  show "(ucast w :: u64) mod word_of_nat N = 0" "(ucast w :: u64) mod word_of_nat (N * S) = 0"
    by (simp_all only: word_unat_eq_iff unat_mod w u unat_0) (simp_all add: mult.assoc [symmetric])
  have q: "unat ((ucast w :: u64) div word_of_nat N) = S * dt" "unat ((ucast w :: u64) div word_of_nat (N * S)) = dt"
    unfolding unat_div w u using pos by (simp_all add: mult.assoc [symmetric])
  show "ucast ((ucast w :: u64) div word_of_nat N) = (word_of_nat (S * dt) :: u32)"
    "ucast ((ucast w :: u64) div word_of_nat (N * S)) = (word_of_nat dt :: u32)"
    by (simp_all only: word_unat_eq_iff unat_ucast_mod [of "_ div _"] q u) (use b in simp_all)
  show "(word_of_nat (S * dt) :: u32) mod word_of_nat dt = 0"
    by (simp only: word_unat_eq_iff unat_mod u unat_0) simp
  have "(word_of_nat (S * dt) :: u32) div word_of_nat dt = word_of_nat S"
    unfolding word_unat_eq_iff unat_div u using pos by simp
  then show "sint ((word_of_nat (S * dt) :: u32) div word_of_nat dt) = int S"
    using b(5) by (simp add: sint_of_nat_u32)
qed

text \<open>The extents of the four groups of axes.\<close>

definition group_extents :: "int list \<Rightarrow> nat \<Rightarrow> nat \<Rightarrow> nat \<Rightarrow> nat \<times> nat \<times> nat \<times> nat" where
  "group_extents shape p a b = (nat (prod_list (take p shape)), nat (prod_list (take a (drop p shape))),
     nat (prod_list (take b (drop (p + a) shape))), nat (prod_list (drop (p + a + b) shape)))"

lemma group_extents_parts:
  assumes "group_extents shape p a b = (B, R, C, S)" and "\<forall>e \<in> set shape. 0 < e"
  shows "prod_list (take p shape) = int B" "prod_list (take a (drop p shape)) = int R"
    "prod_list (take b (drop (p + a) shape)) = int C" "prod_list (drop (p + a + b) shape) = int S"
    "0 < B" "0 < R" "0 < C" "0 < S" "prod_list shape = int (B * R * C * S)"
proof -
  have pos: "0 < prod_list (take p shape)" "0 < prod_list (take a (drop p shape))"
    "0 < prod_list (take b (drop (p + a) shape))" "0 < prod_list (drop (p + a + b) shape)"
    using assms(2) by (auto intro!: prod_list_positive dest: in_set_takeD in_set_dropD)
  then show ints: "prod_list (take p shape) = int B" "prod_list (take a (drop p shape)) = int R"
    "prod_list (take b (drop (p + a) shape)) = int C" "prod_list (drop (p + a + b) shape) = int S"
    using assms(1) by (auto simp: group_extents_def)
  show "0 < B" "0 < R" "0 < C" "0 < S" using pos unfolding ints by simp_all
  have "shape = take p shape @ take a (drop p shape) @ take b (drop (p + a) shape) @ drop (p + a + b) shape"
    by (metis append_take_drop_id drop_drop add.commute)
  then have "prod_list shape = prod_list (take p shape) * (prod_list (take a (drop p shape)) *
      (prod_list (take b (drop (p + a) shape)) * prod_list (drop (p + a + b) shape)))"
    by (metis prod_list.append)
  then show "prod_list shape = int (B * R * C * S)" unfolding ints by (simp add: mult.assoc)
qed

lemma transposes_matrix:
  assumes t: "transposes pl oper op_index tin tout (group_swap p a b (length shape)) shape dt"
    and ab: "0 < a" "0 < b" "p + a + b \<le> length shape" and ext: "group_extents shape p a b = (B, R, C, S)"
    and small: "B * R * C * S < 2147483648"
  shows "tigris_transpose_extents pl op_index tin = Some (Some (int B, int R, int C))"
proof -
  obtain input out data where parts: "transpose_parts pl oper op_index tin tout (group_swap p a b (length shape)) shape dt input out data"
    by (rule transposesE [OF t])
  note p = transpose_partsD [OF parts]
  let ?perm = "attribute_bytes pl (data, tn_ndim input)" and ?rank = "unat (tn_ndim input)"
  have len: "length shape = ?rank" using read_shape_length [OF p(13)] .
  have plen: "length ?perm = ?rank" using p(10) by (simp add: attribute_bytes_def)
  have pos: "\<forall>e \<in> set shape. 0 < e" using p(15) by blast
  note g = group_extents_parts [OF ext pos]
  have "map unat (take ?rank ?perm) = group_swap p a b ?rank" using p(11) plen len by simp
  then have "swaps ?perm p a b ?rank" using ab len plen by (simp add: swaps_iff)
  from groups_of_swap [OF this] have groups: "transpose_band_groups (Some ?perm) ?rank = Some (Some (p, a, a + b))"
    using plen by simp
  have total: "prod_list shape < 2147483648" using small unfolding g(9) by linarith
  have rd: "read_shape pl input (length shape) = Some shape" using p(13) len by simp
  have "shape_product pl input 0 p = Some (int B)" "shape_product pl input p a = Some (int R)"
    "shape_product pl input (p + a) b = Some (int C)"
    using shape_product_correct [OF rd pos _ total] ab g(1-3) by simp_all
  moreover have "\<not> tn_ndim input < 2" using ab len by (simp add: word_less_nat_alt)
  moreover have "\<not> int B \<le> 0" "\<not> int R \<le> 0" "\<not> int C \<le> 0" using g(5-7) by linarith+
  ultimately show ?thesis
    using p(5, 7) groups by (simp add: tigris_transpose_extents_def)
qed

lemma conversion_geometry_correct:
  assumes t: "transposes pl oper op_index tin tout (group_swap p a b (length shape)) shape dt"
    and ab: "0 < a" "0 < b" "p + a + b \<le> length shape" and ext: "group_extents shape p a b = (B, R, C, S)"
    and small: "B * R * C * (S * dt) < 1073741824"
    and on: "band_on_columns pl stage (int R) (int C) = Some on_cols"
  shows "\<exists>cv. conversion_geometry pl stage op_index tin = Some (Some cv) \<and> conv_ok cv B R C (S * dt) \<and>
    cv_block cv = int S \<and> cv_on_cols cv = on_cols"
proof -
  obtain input out data where parts: "transpose_parts pl oper op_index tin tout (group_swap p a b (length shape)) shape dt input out data"
    by (rule transposesE [OF t])
  note p = transpose_partsD [OF parts]
  have pos: "\<forall>e \<in> set shape. 0 < e" "\<forall>e \<in> set shape. 0 < e \<and> e < 4294967296" using p(15) by fastforce+
  note g = group_extents_parts [OF ext pos(1)]
  let ?N = "B * R * C"
  have size: "unat (tn_size_bytes input) = ?N * (S * dt)" using p(16) unfolding g(9) by (metis of_nat_mult of_nat_eq_iff mult.assoc)
  note u = u64_parts [OF size _ g(8) p(18) small]
  have N: "0 < ?N" using g(5-7) by simp
  have smaller: "?N * S < 1073741824"
    by (rule order.strict_trans1 [OF mult_le_left [OF p(18)] small [folded mult.assoc [of _ S dt]]])
  have extents: "tigris_transpose_extents pl op_index tin = Some (Some (int B, int R, int C))"
    by (rule transposes_matrix [OF t ab ext]) (use smaller in simp)
  have le: "x < 4294967296" if "x * y = ?N * S" "0 < y" for x y
    using mult_le_left [OF that(2), of x] that(1) smaller by simp
  have RC: "R < 4294967296" "C < 4294967296"
    by (rule le [of _ "B * C * S"] le [of _ "B * R * S"]; use g in \<open>simp add: ac_simps\<close>)+
  then have "ucast (word_of_int (int R) :: u32) = (word_of_nat R :: u64)" "ucast (word_of_int (int C) :: u32) = (word_of_nat C :: u64)"
    by (simp_all add: word_unat_eq_iff unat_ucast_mod unsigned_of_nat take_bit_nat_eq_self)
  then have positions: "word_of_int (int B) * ucast (word_of_int (int R) :: u32) * ucast (word_of_int (int C) :: u32) = (word_of_nat ?N :: u64)"
    by simp
  have "shape_total pl input = Some (word_of_int (prod_list shape))" by (rule shape_total_correct [OF p(13) pos(2)])
  then have total: "shape_total pl input = Some (word_of_nat (?N * S))" unfolding g(9) by simp
  let ?cv = "\<lparr> cv_batch = int B, cv_rows = int R, cv_cols = int C, cv_elem_size = word_of_nat (S * dt),
    cv_block = int S, cv_on_cols = on_cols \<rparr>"
  have "conversion_geometry pl stage op_index tin = Some (Some ?cv)"
    using on by (simp only: conversion_geometry_def p(5) extents positions total u [OF N] Option.bind.bind_lunit option.case prod.case
      Let_def if_False if_True simp_thms)
  moreover have "conv_ok ?cv B R C (S * dt)"
    using g(5-8) p(18) small u(10) [OF N] by (simp add: conv_ok_def del: of_nat_mult)
  ultimately show ?thesis by (intro exI [of _ ?cv]) simp
qed

end
