(* ===== verification/Transpose_Banded.thy ===== *)
theory Transpose_Banded
  imports Transpose_Loop Transpose_Geometry
begin

text \<open>
  The banded conversion as a whole: \<open>exec_stage_tiled_transpose\<close> run on the transpose kernel leaves,
  for any arena and orientation of the band, the tensor the kernel would have written at once.
\<close>

section \<open>The output's place\<close>

lemma alloc_slow_exactly:
  assumes wf: "mem_wf m" and t: "t < num_tensors m" and base: "slow_base m \<noteq> 0"
  shows "wp (tigris_mem_alloc_slow (Some m) t n) (exactly MEM_ERR_OOM (has_room Slow m (unat n)) (\<lambda>m'. mem_wf m' \<and>
    tensor_ptrs m' = (tensor_ptrs m)[unat t := pool_top Slow m] \<and> num_tensors m' = num_tensors m \<and>
    fast_base m' = fast_base m \<and> fast_size m' = fast_size m \<and> fast_used m' = fast_used m \<and>
    fast_reserved m' = fast_reserved m \<and> tile m' = tile m \<and> pool_top Slow m' = pool_top Slow m + round_up (unat n)))"
proof -
  have "pool_base Slow m \<noteq> 0" using base by (simp add: pool_base_def)
  note run = alloc_bump_exactly [OF wf t this, of n]
  show ?thesis
  proof (cases "alloc_bump Slow m t n")
    case None
    then show ?thesis using run by (auto dest!: wpD)
  next
    case (Some r)
    show ?thesis
    proof (cases r)
      case (Inl e)
      then show ?thesis using run Some by (auto simp: tigris_mem_alloc_slow_def dest!: wpD)
    next
      case (Inr m')
      have out: "alloc_outcome Slow m t n = None" using alloc_bump_Inr_outcome [OF wf] Some Inr by blast
      have eq: "m' = pool_bump Slow (word_of_nat (round_up (unat n))) (m\<lparr>tensor_ptrs := (tensor_ptrs m)[unat t := pool_top Slow m]\<rparr>)"
        using Some Inr by (simp add: alloc_bump_correct [OF wf] out)
      have "fast_used m' = fast_used m"
        using pool_bump_frame(12) [of Slow Fast] unfolding eq by (simp add: pool_used_def)
      then show ?thesis using run Some Inr by (auto simp: tigris_mem_alloc_slow_def eq dest!: wpD)
    qed
  qed
qed

lemma capacity_le:
  assumes "stage_fast_capacity pl stage m = Some cap"
  shows "cap \<le> fast_size m - fast_reserved m"
  using assms by (auto simp: stage_fast_capacity_def stage_fast_limit_def Let_def bind_eq_Some_conv split: if_splits)

section \<open>From the matrix to the tensor\<close>

lemma turned_permutes:
  assumes ps: "map unat (take (length shape) perm) = group_swap p a b (length shape)" and ab: "p + a + b \<le> length shape"
    and pos: "\<forall>e \<in> set shape. 0 < e" and ext: "group_extents shape p a b = (B, R, C, S)"
    and turned: "turned B R C (S * dt) (\<lambda>_ _. True) ob ib h h'"
  shows "permuted_tensor (group_swap p a b (length shape)) shape dt ob ib h h'"
  unfolding permuted_tensor_def
proof (intro allI impI)
  fix idx k assume x: "inside shape idx \<and> k < dt"
  note g = group_extents_parts [OF ext pos]
  obtain n r c i where b: "0 \<le> n" "n < int B" "0 \<le> r" "r < int R" "0 \<le> c" "c < int C" "0 \<le> i" "i < int S"
    and lin: "lin shape idx = ((n * int R + r) * int C + c) * int S + i"
      "lin (permuted (group_swap p a b (length shape)) shape) (permuted (group_swap p a b (length shape)) idx) =
        ((n * int C + c) * int R + r) * int S + i"
    by (rule permuted_is_transposed [OF ps ab refl conjunct1 [OF x], unfolded g ps])
  obtain n' r' c' i' where nat: "n = int n'" "r = int r'" "c = int c'" "i = int i'"
    using b by (metis nonneg_int_cases)
  have less: "n' < B" "r' < R" "c' < C" "i' < S" using b unfolding nat by simp_all
  have "i' * dt + k < S * dt" using less x by (intro band_byte_less [of i' S 0 1 k dt, simplified]) auto
  from turned [unfolded turned_def, rule_format, OF less(1-3) TrueI this]
  have "h' (ob + (((n' * C + c') * R + r') * (S * dt) + (i' * dt + k))) = h (ib + (((n' * R + r') * C + c') * (S * dt) + (i' * dt + k)))" .
  moreover have "nat (lin shape idx) = ((n' * R + r') * C + c') * S + i'"
    "nat (lin (permuted (group_swap p a b (length shape)) shape) (permuted (group_swap p a b (length shape)) idx)) =
      ((n' * C + c') * R + r') * S + i'"
    unfolding lin nat by (simp_all add: nat_eq_iff)
  ultimately show "h' (ob + nat (lin (permuted (group_swap p a b (length shape)) shape) (permuted (group_swap p a b (length shape)) idx)) * dt + k) =
      h (ib + nat (lin shape idx) * dt + k)"
    by (simp add: algebra_simps)
qed

section \<open>The stage\<close>

text \<open>A stage of one operator that swaps two groups of axes, in the terms of the plan, and a manager
  in which its input lies in the slow pool and no run is under way.\<close>

definition conversion_stage ::
  "tigris_plan \<Rightarrow> tigris_stage \<Rightarrow> u16 \<Rightarrow> u16 \<Rightarrow> nat \<Rightarrow> nat \<Rightarrow> nat \<Rightarrow> int list \<Rightarrow> nat \<Rightarrow> bool \<Rightarrow> bool" where
  "conversion_stage pl stage tin tout p a b shape dt on_cols = (\<exists>op_index oper.
     tigris_stage_inputs pl stage 0 = Some tin \<and> tigris_stage_outputs pl stage 0 = Some tout \<and>
     tigris_stage_ops pl stage 0 = Some op_index \<and> plan_op pl (unat op_index) = Some oper \<and>
     transposes pl oper op_index tin tout (group_swap p a b (length shape)) shape dt \<and>
     0 < a \<and> 0 < b \<and> p + a + b \<le> length shape \<and> prod_list shape * int dt < 1073741824 \<and>
     band_on_columns pl stage (prod_list (take a (drop p shape))) (prod_list (take b (drop (p + a) shape))) = Some on_cols)"

definition conversion_ready :: "mem \<Rightarrow> u16 \<Rightarrow> u16 \<Rightarrow> nat \<Rightarrow> nat \<Rightarrow> bool" where
  "conversion_ready m tin tout ib n = (mem_wf m \<and> fast_used m = fast_reserved m \<and> tc_row_tiled (tile m) = 0 \<and>
     pools_disjoint m \<and> tensor_at m tin ib \<and> block_in Slow m ib n \<and> slow_base m \<noteq> 0 \<and> tin \<noteq> tout \<and> tout < num_tensors m)"

text \<open>The bytes of one line of the band: a column or a row of every matrix of the batch.\<close>

definition line_bytes :: "nat \<Rightarrow> nat \<Rightarrow> nat \<Rightarrow> int list \<Rightarrow> nat \<Rightarrow> bool \<Rightarrow> nat" where
  "line_bytes p a b shape dt on_cols = (case group_extents shape p a b of (B, R, C, S) \<Rightarrow>
     B * (if on_cols then R else C) * (S * dt))"

text \<open>What the stage leaves.\<close>

definition converted ::
  "nat list \<Rightarrow> int list \<Rightarrow> nat \<Rightarrow> u16 \<Rightarrow> nat \<Rightarrow> mem \<Rightarrow> ram \<Rightarrow> mem \<times> ram \<Rightarrow> bool" where
  "converted ps shape dt tout ib m h = (\<lambda>(m', h'). let ob = pool_top Slow m; n = nat (prod_list shape) * dt in
     permuted_tensor ps shape dt ob ib h h' \<and> elsewhere m ob n h h' \<and>
     mem_wf m' \<and> tensor_ptrs m' = (tensor_ptrs m)[unat tout := ob] \<and> pool_top Slow m' = ob + round_up n \<and>
     pool_top Fast m' = pool_top Fast m \<and> tile m' = tile_ctx_zero)"

lemma conversion_stageE:
  assumes "conversion_stage pl stage tin tout p a b shape dt on_cols"
  obtains op_index oper where "tigris_stage_inputs pl stage 0 = Some tin" "tigris_stage_outputs pl stage 0 = Some tout"
    "tigris_stage_ops pl stage 0 = Some op_index" "plan_op pl (unat op_index) = Some oper"
    "transposes pl oper op_index tin tout (group_swap p a b (length shape)) shape dt" "0 < a" "0 < b" "p + a + b \<le> length shape"
    "prod_list shape * int dt < 1073741824"
    "band_on_columns pl stage (prod_list (take a (drop p shape))) (prod_list (take b (drop (p + a) shape))) = Some on_cols"
  using assms unfolding conversion_stage_def by blast

text \<open>The run, once the output has its place.\<close>

lemma placed_conversion:
  assumes t: "transposes pl oper op_index tin tout (group_swap p a b (length shape)) shape dt"
    and ab: "0 < a" "0 < b" "p + a + b \<le> length shape" and ext: "group_extents shape p a b = (B, R, C, S)"
    and cv: "conv_ok cv B R C (S * dt)" "cv_block cv = int S"
    and ready: "conversion_ready m tin tout ib (B * R * C * (S * dt))"
    and m1: "mem_wf m1" "tensor_ptrs m1 = (tensor_ptrs m)[unat tout := pool_top Slow m]" "num_tensors m1 = num_tensors m"
      "fast_base m1 = fast_base m" "fast_size m1 = fast_size m" "fast_used m1 = fast_used m"
      "fast_reserved m1 = fast_reserved m" "tile m1 = tile m"
      "pool_top Slow m1 = pool_top Slow m + round_up (B * R * C * (S * dt))"
    and slow: "has_room Slow m (B * R * C * (S * dt))"
    and cap: "cap \<le> fast_size m - fast_reserved m"
    and band: "0 < band" "band \<le> band_len cv R C" "band_fits (B * band_other cv R C) (S * dt) cap band"
  shows "wp (run_conversion (tigris_transpose_execute independent pl oper op_index) cv tin tout ib (pool_top Slow m) (int band) (m1, h))
    (yields (converted (group_swap p a b (length shape)) shape dt tout ib m h))"
proof -
  let ?ob = "pool_top Slow m" and ?n = "B * R * C * (S * dt)"
  have m: "mem_wf m" "fast_used m = fast_reserved m" "tc_row_tiled (tile m) = 0" "pools_disjoint m" "tensor_at m tin ib"
    "block_in Slow m ib ?n" "tin \<noteq> tout" "tout < num_tensors m" "tin < num_tensors m"
    using ready by (simp_all add: conversion_ready_def tensor_at_def)
  obtain input out data where parts: "transpose_parts pl oper op_index tin tout (group_swap p a b (length shape)) shape dt input out data"
    by (rule transposesE [OF t])
  note q = transpose_partsD [OF parts]
  have pos: "\<forall>e \<in> set shape. 0 < e" using q(15) by blast
  note g = group_extents_parts [OF ext pos]
  have len: "length shape = unat (tn_ndim input)" by (rule read_shape_length [OF q(13)])
  have perm: "map unat (take (length shape) (attribute_bytes pl (data, tn_ndim input))) = group_swap p a b (length shape)"
    using q(10, 11) len by (simp add: attribute_bytes_def)
  have n: "nat (prod_list shape) * dt = ?n" unfolding g(9) nat_int by (simp add: mult.assoc)
  have fast: "pool_top Fast m1 = fast_base m + unat (fast_reserved m)" "pool_limit Fast m1 = fast_base m + unat (fast_size m)"
    "pool_top Fast m1 = pool_top Fast m" "pool_limit Fast m1 = pool_limit Fast m"
    using m(2) m1 by (simp_all add: pool_simps pool_limit_def)
  have le: "fast_reserved m \<le> fast_size m" using mem_wf_pool [OF m(1), of Fast] m(2) by (auto simp: pool_wf_def pool_simps)
  have room: "pool_top Fast m1 + 2 * round_up (B * band_other cv R C * band * (S * dt)) \<le> pool_limit Fast m1"
    using band(3) cap le unfolding band_fits_def fast(1, 2) by (simp add: word_le_nat_alt unat_sub)
  have ob: "?ob + ?n \<le> pool_limit Slow m" "slow_base m \<le> ib" "ib + ?n \<le> ?ob"
    using slow round_up_ge [of ?n] m(6) by (auto simp: has_room_def block_in_def pool_base_def)
  have outside: "x + ?n \<le> pool_top Fast m1 \<or> pool_limit Fast m1 \<le> x" if "slow_base m \<le> x" "x + ?n \<le> pool_limit Slow m" for x
    using m(4) that fast(1) unfolding pools_disjoint_def fast(4) by linarith
  have base: "slow_base m \<le> ?ob" by (simp add: pool_simps)
  have "transposing pl oper op_index tin tout dt" using t by (auto simp: transposing_def)
  moreover have "conv_mem tin tout m1 m1" using m m1 by (intro conv_memI) simp_all
  moreover have "0 < cv_block cv" "int (S * dt) = int dt * cv_block cv" using cv(2) g(8) by simp_all
  moreover have "tin < num_tensors m1" "tout < num_tensors m1" using m(8, 9) m1(3) by simp_all
  moreover have "ib + ?n \<le> pool_top Fast m1 \<or> pool_limit Fast m1 \<le> ib" using ob by (intro outside) linarith+
  moreover have "?ob + ?n \<le> pool_top Fast m1 \<or> pool_limit Fast m1 \<le> ?ob" using ob base by (intro outside)
  moreover have "regions_apart ?ob ?n ib ?n" using ob by (simp add: regions_apart_def)
  ultimately have run: "wp (run_conversion (tigris_transpose_execute independent pl oper op_index) cv tin tout ib ?ob (int band) (m1, h))
    (yields (\<lambda>(m', h'). restored tin tout ib ?ob m1 m' \<and> turned B R C (S * dt) (\<lambda>_ _. True) ?ob ib h h' \<and>
      elsewhere m1 ?ob ?n h h'))"
    using cv(1) band(1, 2) m(7) room by (intro transpose_kernel.wp_run_conversion)
  have keep: "(tensor_ptrs m1)[unat tin := ib, unat tout := ?ob] = (tensor_ptrs m)[unat tout := ?ob]"
  proof -
    have "tensor_ptrs m1 ! unat tin = ib" using m(5, 7) m1(2) by (auto simp: tensor_at_def word_unat_eq_iff)
    then have "(tensor_ptrs m1)[unat tin := ib] = tensor_ptrs m1" by (metis list_update_id)
    then show ?thesis by (simp add: m1(2))
  qed
  have "converted (group_swap p a b (length shape)) shape dt tout ib m h (m', h')"
    if "restored tin tout ib ?ob m1 m'" "turned B R C (S * dt) (\<lambda>_ _. True) ?ob ib h h'" "elsewhere m1 ?ob ?n h h'" for m' h'
    using that turned_permutes [OF perm ab(3) pos ext, of dt ?ob ib h h'] fast(3, 4) m1(9) keep
    by (simp add: converted_def restored_def elsewhere_def n Let_def)
  then show ?thesis by (intro wp_mono [OF run]) (auto elim!: yields_mono)
qed

section \<open>Properties\<close>

text \<open>C5. A banded conversion is the whole transpose. Run on the transpose kernel, a stage whose operator
  swaps two groups of axes succeeds exactly when the slow pool has room for the output and two aligned
  one-line slices fit the fast capacity; otherwise it reports \<open>EXEC_ERR_MEM\<close> or \<open>EXEC_ERR_TILE\<close> and no
  byte of memory has changed. When it succeeds, whatever the number of bands, every element of the input
  stands at its permuted coordinates in an output placed at the top of the slow pool, nothing but that
  output and the free part of the fast arena has changed, both tensors point at their slow copies, the
  fast arena is free again and the tile is cleared.\<close>

theorem banded_transpose_permutes:
  assumes "conversion_stage pl stage tin tout p a b shape dt on_cols"
    and "stage_fast_capacity pl stage m = Some cap"
    and "conversion_ready m tin tout ib (nat (prod_list shape) * dt)"
  shows "wp (exec_stage_tiled_transpose (tigris_transpose_execute independent) pl stage (m, h)) (\<lambda>r.
    let room = has_room Slow m (nat (prod_list shape) * dt);
        fits = 2 * round_up (line_bytes p a b shape dt on_cols) \<le> unat cap in
    case r of
      Inl (e, m', h') \<Rightarrow> e = (if room then EXEC_ERR_TILE else EXEC_ERR_MEM) \<and> \<not> (room \<and> fits) \<and> h' = h
    | Inr c \<Rightarrow> room \<and> fits \<and> converted (group_swap p a b (length shape)) shape dt tout ib m h c)"
proof -
  obtain op_index oper where st: "tigris_stage_inputs pl stage 0 = Some tin" "tigris_stage_outputs pl stage 0 = Some tout"
    "tigris_stage_ops pl stage 0 = Some op_index" "plan_op pl (unat op_index) = Some oper"
    and t: "transposes pl oper op_index tin tout (group_swap p a b (length shape)) shape dt"
    and ab: "0 < a" "0 < b" "p + a + b \<le> length shape" and small: "prod_list shape * int dt < 1073741824"
    and on: "band_on_columns pl stage (prod_list (take a (drop p shape))) (prod_list (take b (drop (p + a) shape))) = Some on_cols"
    by (rule conversion_stageE [OF assms(1)])
  obtain input out data where parts: "transpose_parts pl oper op_index tin tout (group_swap p a b (length shape)) shape dt input out data"
    by (rule transposesE [OF t])
  note q = transpose_partsD [OF parts]
  have pos: "\<forall>e \<in> set shape. 0 < e" using q(15) by blast
  obtain B R C S where ext: "group_extents shape p a b = (B, R, C, S)" by (metis prod_cases4)
  note g = group_extents_parts [OF ext pos]
  let ?n = "B * R * C * (S * dt)" and ?ps = "group_swap p a b (length shape)" and ?ob = "pool_top Slow m"
  have n: "nat (prod_list shape) * dt = ?n" unfolding g(9) nat_int by (simp add: mult.assoc)
  have "int ?n < 1073741824" using small unfolding g(9) by (simp add: mult.assoc)
  then have n30: "?n < 1073741824" by linarith
  obtain cv where geometry: "conversion_geometry pl stage op_index tin = Some (Some cv)" and cv: "conv_ok cv B R C (S * dt)"
      "cv_block cv = int S" "cv_on_cols cv = on_cols"
    using conversion_geometry_correct [OF t ab ext n30 on [unfolded g]] by blast
  note ready = assms(3) [unfolded n]
  have m: "mem_wf m" "tensor_at m tin ib" "slow_base m \<noteq> 0" "tin \<noteq> tout" "tout < num_tensors m"
    using ready by (simp_all add: conversion_ready_def)
  have in_base: "arr_get (tensor_ptrs m) (unat tin) = Some ib" "ib \<noteq> 0" using m(2) by (auto simp: tensor_at_def arr_get_def)
  have "int (unat (tn_size_bytes out)) = int ?n" using q(16, 17) unfolding g(9) by (simp add: mult.assoc)
  then have size: "unat (tn_size_bytes out) = ?n" by linarith
  have line: "line_bytes p a b shape dt on_cols = B * band_other cv R C * 1 * (S * dt)"
    using ext cv(3) by (simp add: line_bytes_def band_other_def)
  let ?fits = "band_fits (B * band_other cv R C) (S * dt) cap"
  have fits: "(2 * round_up (line_bytes p a b shape dt on_cols) \<le> unat cap) = ?fits 1" by (simp only: line band_fits_def)
  note alloc = alloc_slow_exactly [OF m(1, 5, 3), of "tn_size_bytes out", unfolded size]
  show ?thesis
  proof (cases "has_room Slow m ?n")
    case False
    then obtain x where "tigris_mem_alloc_slow (Some m) tout (tn_size_bytes out) = Some (Inl x)"
      using alloc by (auto dest!: wpD simp: exactly_def split: sum.splits)
    then have "exec_stage_tiled_transpose (tigris_transpose_execute independent) pl stage (m, h) = fail (EXEC_ERR_MEM, m, h)"
      by (simp add: exec_stage_tiled_transpose_def st geometry q(6) in_base)
    then show ?thesis using False by (simp add: n)
  next
    case True
    then obtain m1 where a1: "tigris_mem_alloc_slow (Some m) tout (tn_size_bytes out) = Some (Inr m1)"
      and m1: "mem_wf m1" "tensor_ptrs m1 = (tensor_ptrs m)[unat tout := ?ob]" "num_tensors m1 = num_tensors m"
        "fast_base m1 = fast_base m" "fast_size m1 = fast_size m" "fast_used m1 = fast_used m"
        "fast_reserved m1 = fast_reserved m" "tile m1 = tile m" "pool_top Slow m1 = ?ob + round_up ?n"
      using alloc by (auto dest!: wpD simp: exactly_def split: sum.splits)
    have "unat tout < length (tensor_ptrs m)" using m(1, 5) by (auto simp: mem_wf_def word_less_nat_alt)
    then have ob: "arr_get (tensor_ptrs m1) (unat tout) = Some ?ob" by (simp add: m1(2) arr_get_def)
    have cap: "stage_fast_capacity pl stage m1 = Some cap" using assms(2) m1(5, 7) by (simp add: stage_fast_capacity_def)
    obtain r where search: "band_search cv cap 1 (cv_banded cv) 0 = Some (Some (int r))" and r: "r \<le> band_len cv R C"
        "0 < r \<Longrightarrow> ?fits r" "\<And>c. r < c \<Longrightarrow> c \<le> band_len cv R C \<Longrightarrow> \<not> ?fits c"
      using band_search_correct [OF cv(1), of 1 "cv_banded cv" 0 cap] conv_bounds(8) [OF cv(1)] conv_ints(2) [OF cv(1)] by auto
    have run: "exec_stage_tiled_transpose (tigris_transpose_execute independent) pl stage (m, h) =
        (if r = 0 then fail (EXEC_ERR_TILE, m1, h)
         else run_conversion (tigris_transpose_execute independent pl oper op_index) cv tin tout ib ?ob (int r) (m1, h))"
      by (simp add: exec_stage_tiled_transpose_def st geometry q(6) in_base a1 ob cap search)
    show ?thesis
    proof (cases "r = 0")
      case r0: True
      have "\<not> ?fits 1" using r(3) [of 1] r0 conv_bounds(8) [OF cv(1)] by simp
      then show ?thesis using True r0 by (simp add: run n fits)
    next
      case False
      then have "?fits 1" using r(2) band_fits_mono by auto
      moreover have "wp (run_conversion (tigris_transpose_execute independent pl oper op_index) cv tin tout ib ?ob (int r) (m1, h))
          (yields (converted ?ps shape dt tout ib m h))"
        by (rule placed_conversion [OF t ab ext cv(1, 2) ready m1 True capacity_le [OF assms(2)]]) (use False r in auto)
      ultimately show ?thesis using True False by (auto simp: run n fits yields_def elim!: wp_mono split: sum.splits)
    qed
  qed
qed

text \<open>The small transpose, as a stage.\<close>

definition turn_stage :: tigris_stage where
  "turn_stage = \<lparr> sg_peak_bytes = 64, sg_ops_off = 0, sg_ops_count = 1, sg_inputs_off = 0, sg_inputs_count = 1,
     sg_outputs_off = 1, sg_outputs_count = 1, sg_tile_plan_idx = NONE_U16, sg_pad0 = 0, sg_chain_id = NONE_U16,
     sg_chain_len = 0, sg_chain_tile_h = 0, sg_reserved1 = 0 \<rparr>"

lemma turn_stage_converts: "conversion_stage turn_plan turn_stage 0 1 0 1 1 [2, 3] 1 True"
proof -
  have swap: "group_swap 0 (Suc 0) (Suc 0) (Suc (Suc 0)) = [Suc 0, 0]" by (simp add: group_swap_def upt_conv_Cons)
  have "tigris_stage_tiles turn_plan turn_stage = Some no_tiles" "p_header turn_plan = Some turn_header"
    by (simp_all add: tigris_stage_tiles_def turn_plan_def turn_stage_def)
  then have "band_on_columns turn_plan turn_stage 2 3 = Some True"
    by (simp add: band_on_columns_def no_tiles_def)
  moreover have "tigris_stage_inputs turn_plan turn_stage 0 = Some 0" "tigris_stage_outputs turn_plan turn_stage 0 = Some 1"
    "tigris_stage_ops turn_plan turn_stage 0 = Some 0"
    by (simp_all add: tigris_stage_inputs_def tigris_stage_outputs_def tigris_stage_ops_def turn_stage_def turn_reads turn_reads(6) [simplified])
  ultimately show ?thesis
    unfolding conversion_stage_def
    by (intro exI [of _ 0] exI [of _ turn_op]) (simp add: turn_reads turn_transposes [simplified] swap)
qed

lemma turn_mem_ready: "conversion_ready turn_mem 0 1 8192 6"
  by (simp add: conversion_ready_def turn_mem_def mem_wf_def pool_wf_def pool_simps pool_limit_def pools_disjoint_def
      tensor_at_def block_in_def tile_ctx_zero_def word_less_nat_alt)

lemma banded_transpose_permutes_witness:
  "wp (exec_stage_tiled_transpose (tigris_transpose_execute (\<lambda>_ _ _ _. None)) turn_plan turn_stage (turn_mem, \<lambda>a. word_of_nat a))
     (yields (\<lambda>(m', h'). h' 8257 = 3))"
proof -
  let ?h = "\<lambda>a. word_of_nat a :: u8"
  have cap: "stage_fast_capacity turn_plan turn_stage turn_mem = Some 64"
    by (simp add: stage_fast_capacity_def stage_fast_limit_def tigris_stage_tiles_def turn_plan_def turn_stage_def
        turn_mem_def no_tiles_def)
  have room: "has_room Slow turn_mem 6" "2 * round_up (line_bytes 0 1 1 [2, 3] 1 True) \<le> 64" "pool_top Slow turn_mem = 8256"
    by (simp_all add: has_room_def turn_mem_def pool_simps pool_limit_def round_up_def line_bytes_def group_extents_def)
  have swap: "group_swap 0 (Suc 0) (Suc 0) (Suc (Suc 0)) = [Suc 0, 0]" by (simp add: group_swap_def upt_conv_Cons)
  have "conversion_ready turn_mem 0 1 8192 (nat (prod_list [2, 3]) * 1)" using turn_mem_ready by simp
  from banded_transpose_permutes [OF turn_stage_converts cap this, of "\<lambda>_ _ _ _. None" ?h]
  have run: "wp (exec_stage_tiled_transpose (tigris_transpose_execute (\<lambda>_ _ _ _. None)) turn_plan turn_stage (turn_mem, ?h))
      (yields (converted [1, 0] [2, 3] 1 1 8192 turn_mem ?h))"
    by (rule wp_mono) (use room swap in \<open>auto simp: Let_def split: sum.splits prod.splits\<close>)
  have "h' 8257 = 3" if c: "permuted_tensor [1, 0] [2, 3] 1 8256 8192 ?h h'" for h'
    using c [unfolded permuted_tensor_def, rule_format, of "[1, 0]" 0] by (simp add: permuted_def)
  then have "yields (\<lambda>(m', h'). h' 8257 = 3) r" if "yields (converted [1, 0] [2, 3] 1 1 8192 turn_mem ?h) r" for r
    using that by (auto simp: converted_def room(3) Let_def elim!: yields_mono)
  then show ?thesis by (rule wp_mono [OF run])
qed

end
