(* ===== verification/Kernel_Window.thy ===== *)
theory Kernel_Window
  imports Arena Plan_Format "HOL-Library.Signed_Division"
begin

text \<open>
  The geometry of the window operators, \<open>src/tigris_kernel_window.h\<close>: the sizes a convolution or a
  pool works with (\<open>tigris_window\<close>), whole or under a tile, and the taps of a window that land inside
  the input (\<open>tap_range\<close>).

  C's \<open>int\<close> is an \<open>int\<close>; an operation that leaves 32 bits is undefined, \<open>None\<close>.
\<close>

section \<open>The window\<close>

record window =
  wn_n :: int
  wn_in_h :: int
  wn_in_w :: int
  wn_in_c :: int
  wn_out_h :: int
  wn_out_w :: int
  wn_out_c :: int
  wn_kernel_h :: u8
  wn_kernel_w :: u8
  wn_stride_h :: u8
  wn_stride_w :: u8
  wn_pad_top :: u16
  wn_pad_left :: u16
  wn_dilation_h :: u16
  wn_dilation_w :: u16
  wn_out_row_start :: int
  wn_in_row_start :: int

text \<open>A tile replaces the sizes and the row starts, and the left pad where it cuts the width.\<close>

definition tile_window :: "tile_ctx \<Rightarrow> window \<Rightarrow> window" where
  "tile_window tc w = w\<lparr> wn_in_h := tc_in_h tc, wn_out_h := tc_out_h tc, wn_in_w := tc_in_w tc,
     wn_out_w := tc_out_w tc, wn_pad_top := tc_pad_top tc,
     wn_pad_left := (if tc_width_tiled tc then tc_pad_left tc else wn_pad_left w),
     wn_out_row_start := tc_out_row_start tc, wn_in_row_start := tc_in_row_start tc \<rparr>"

definition tigris_window :: "tigris_plan \<Rightarrow> tigris_op \<Rightarrow> mem \<Rightarrow> window option" where
  "tigris_window pl oper m = do {
     tin \<leftarrow> tigris_op_inputs pl oper 0;
     x \<leftarrow> plan_tensor pl (unat tin);
     tout \<leftarrow> tigris_op_outputs pl oper 0;
     y \<leftarrow> plan_tensor pl (unat tout);
     n \<leftarrow> tigris_tensor_shape pl x 0;
     in_h \<leftarrow> tigris_tensor_shape pl x 1;
     in_w \<leftarrow> tigris_tensor_shape pl x 2;
     in_c \<leftarrow> tigris_tensor_shape pl x 3;
     out_h \<leftarrow> tigris_tensor_shape pl y 1;
     out_w \<leftarrow> tigris_tensor_shape pl y 2;
     out_c \<leftarrow> tigris_tensor_shape pl y 3;
     let sp = op_spatial oper;
     let w = \<lparr> wn_n = n, wn_in_h = in_h, wn_in_w = in_w, wn_in_c = in_c, wn_out_h = out_h, wn_out_w = out_w,
       wn_out_c = out_c, wn_kernel_h = sp_kernel_h sp, wn_kernel_w = sp_kernel_w sp, wn_stride_h = sp_stride_h sp,
       wn_stride_w = sp_stride_w sp, wn_pad_top = sp_pad_top sp, wn_pad_left = sp_pad_left sp,
       wn_dilation_h = (if sp_dilation_h sp = 0 then 1 else sp_dilation_h sp),
       wn_dilation_w = (if sp_dilation_w sp = 0 then 1 else sp_dilation_w sp),
       wn_out_row_start = 0, wn_in_row_start = 0 \<rparr>;
     Some (if tc_active (tile m) then tile_window (tile m) w else w) }"

section \<open>The taps inside the input\<close>

text \<open>Signed division, which rounds towards zero.\<close>

definition sdiv32 :: "int \<Rightarrow> int \<Rightarrow> int option" where
  "sdiv32 a b = (if b = 0 then None else i32 (a sdiv b))"

definition tap_range :: "int \<Rightarrow> int \<Rightarrow> int \<Rightarrow> int \<Rightarrow> (int \<times> int) option" where
  "tap_range base extent taps dilation = do {
     last_row \<leftarrow> i32 (extent - 1);
     span \<leftarrow> i32 (last_row - base);
     lo \<leftarrow> (if base < 0 then do {
         before \<leftarrow> i32 (- base);
         moved \<leftarrow> i32 (before + dilation);
         moved \<leftarrow> i32 (moved - 1);
         lo \<leftarrow> sdiv32 moved dilation;
         Some (if lo > taps then taps else lo) }
       else Some 0);
     hi \<leftarrow> (if span < 0 then Some 0 else do {
         q \<leftarrow> sdiv32 span dilation;
         bound \<leftarrow> i32 (q + 1);
         Some (if bound < taps then bound else taps) });
     Some (lo, if hi < lo then lo else hi) }"

lemma sdiv32_nonneg:
  assumes "0 \<le> a" and "a < 2147483648" and "0 < b"
  shows "sdiv32 a b = Some (a div b)"
proof -
  have "a div b \<le> a div 1" using assms by (intro zdiv_mono2) auto
  moreover have "0 \<le> a div b" using assms by (simp add: pos_imp_zdiv_nonneg_iff)
  ultimately show ?thesis
    using assms by (auto simp: sdiv32_def i32_def signed_divide_int_def sgn_if)
qed

text \<open>The bounds of the interval, as two divisions.\<close>

lemma le_div_iff: "0 < (d :: int) \<Longrightarrow> (k \<le> a div d) = (k * d \<le> a)"
proof
  assume d: "0 < d" and "k \<le> a div d"
  then have "k * d \<le> a div d * d" by (intro mult_right_mono) auto
  also have "\<dots> \<le> a" using d by (simp add: minus_mod_eq_div_mult [symmetric])
  finally show "k * d \<le> a" .
next
  assume d: "0 < d" and "k * d \<le> a"
  then show "k \<le> a div d" using zdiv_mono1 [of "k * d" a d] by simp
qed

lemma below_first:
  assumes "0 < (d :: int)"
  shows "(k < (d - base - 1) div d) = (base + k * d < 0)"
proof -
  have "(k < (d - base - 1) div d) = (k + 1 \<le> (d - base - 1) div d)" by linarith
  also have "\<dots> = ((k + 1) * d \<le> d - base - 1)" by (rule le_div_iff [OF assms])
  also have "\<dots> = (base + k * d < 0)" by (auto simp: algebra_simps)
  finally show ?thesis .
qed

lemma up_to_last: "0 < (d :: int) \<Longrightarrow> (k < span div d + 1) = (k * d \<le> span)"
  using le_div_iff [of d k span] by linarith

text \<open>Sizes whose arithmetic stays in \<open>int\<close>.\<close>

lemma tap_range_bounds:
  assumes base: "-1073741824 < base" "base \<le> 1073741824" and extent: "0 \<le> extent" "extent \<le> 1073741824"
    and taps: "0 \<le> taps" "taps \<le> 255" and d: "0 < dilation" "dilation \<le> 65535"
  shows "tap_range base extent taps dilation =
    (let lo = if base < 0 then min taps ((dilation - base - 1) div dilation) else 0;
         hi = if extent - 1 - base < 0 then 0 else min taps ((extent - 1 - base) div dilation + 1)
     in Some (lo, max lo hi))"
proof -
  have le: "a div dilation \<le> a" if "0 \<le> a" for a using zdiv_mono2 [of a 1 dilation] that d by simp
  have ge: "0 \<le> a div dilation" if "0 \<le> a" for a using that d by (simp add: pos_imp_zdiv_nonneg_iff)
  have first: "sdiv32 (- base + dilation - 1) dilation = Some ((dilation - base - 1) div dilation)" if "base < 0"
    using that base d sdiv32_nonneg [of "- base + dilation - 1" dilation] by (simp add: algebra_simps)
  have bound: "sdiv32 (extent - 1 - base) dilation = Some ((extent - 1 - base) div dilation)" if "\<not> extent - 1 - base < 0"
    by (rule sdiv32_nonneg) (use that base extent d in auto)
  show ?thesis
  proof (cases "extent - 1 - base < 0")
    case True
    then show ?thesis using base extent d first by (auto simp: tap_range_def i32_def Let_def min_def max_def)
  next
    case False
    then have "(extent - 1 - base) div dilation < 2147483647" "0 \<le> (extent - 1 - base) div dilation"
      using le [of "extent - 1 - base"] ge [of "extent - 1 - base"] base extent by linarith+
    then show ?thesis using False base extent d first bound by (auto simp: tap_range_def i32_def Let_def min_def max_def)
  qed
qed

text \<open>The taps of a window. For sizes below \<open>2^30\<close>, \<open>tap_range\<close> has no undefined behaviour and
  returns the interval of exactly the taps whose input coordinate lies in the tensor, inside the window
  and empty where none does; so the loops over it need no bounds test and leave out no tap.\<close>

lemma tap_range_interval:
  assumes "-1073741824 < base" and "base \<le> 1073741824" and "0 \<le> extent" and "extent \<le> 1073741824"
    and "0 \<le> taps" and "taps \<le> 255" and "0 < dilation" and "dilation \<le> 65535"
  shows "\<exists>lo hi. tap_range base extent taps dilation = Some (lo, hi) \<and> 0 \<le> lo \<and> lo \<le> hi \<and> hi \<le> taps \<and>
    (\<forall>k. lo \<le> k \<and> k < hi \<longleftrightarrow> 0 \<le> k \<and> k < taps \<and> 0 \<le> base + k * dilation \<and> base + k * dilation < extent)"
proof -
  let ?lo = "if base < 0 then min taps ((dilation - base - 1) div dilation) else 0"
  let ?hi = "if extent - 1 - base < 0 then 0 else min taps ((extent - 1 - base) div dilation + 1)"
  have lo0: "0 \<le> (dilation - base - 1) div dilation" if "base < 0"
    using that assms(7) by (simp add: pos_imp_zdiv_nonneg_iff)
  have hi0: "0 \<le> (extent - 1 - base) div dilation" if "\<not> extent - 1 - base < 0"
    using that assms(7) by (simp add: pos_imp_zdiv_nonneg_iff)
  have "?lo \<le> k \<and> k < max ?lo ?hi \<longleftrightarrow> 0 \<le> k \<and> k < taps \<and> 0 \<le> base + k * dilation \<and> base + k * dilation < extent" for k
  proof -
    have lower: "?lo \<le> k \<longleftrightarrow> 0 \<le> base + k * dilation" if "0 \<le> k" "k < taps"
    proof (cases "base < 0")
      case True
      then show ?thesis using that below_first [OF assms(7), of k base] by (auto simp: algebra_simps)
    next
      case False
      moreover have "0 \<le> k * dilation" using that assms(7) by simp
      ultimately show ?thesis using that by simp
    qed
    have upper: "k < ?hi \<longleftrightarrow> base + k * dilation < extent" if "0 \<le> k" "k < taps"
    proof (cases "extent - 1 - base < 0")
      case True
      then have "extent \<le> base" by simp
      moreover have "0 \<le> k * dilation" using that assms(7) by simp
      ultimately show ?thesis using that True by simp
    next
      case False
      then show ?thesis using that up_to_last [OF assms(7), of k "extent - 1 - base"] by auto
    qed
    have "?hi \<le> taps" "0 \<le> ?lo" using assms(5) lo0 by auto
    then show ?thesis using lower upper by (smt (verit))
  qed
  moreover have "0 \<le> ?lo" "?lo \<le> max ?lo ?hi" "max ?lo ?hi \<le> taps" using assms(5) lo0 by auto
  ultimately show ?thesis
    unfolding tap_range_bounds [OF assms] Let_def by blast
qed

end
