(* ===== verification/Window_S8.thy ===== *)
theory Window_S8
  imports Kernel_Window Fixed_Point
begin

text \<open>
  The int8 convolutions of \<open>src/tigris_kernels_s8.c\<close>: \<open>kern_conv2d_s8\<close>, \<open>kern_depthwise_conv2d_s8\<close>,
  \<open>kern_conv_transpose_s8\<close>, and what they share.

  \<^item> Codes are read from and written to the memory the tensors' pointers name, weights and biases from
    the buffer of the plan handle. Reading or writing through NULL or before a tensor is undefined.
  \<^item> C's \<open>int\<close> and \<open>int32_t\<close> are \<open>int\<close>; an operation that leaves 32 bits is undefined, so that the
    index arithmetic and the accumulator are checked where the code does not check them.
  \<^item> A kernel that cannot fail returns the memory.
\<close>

section \<open>Operands\<close>

definition for_int :: "int \<Rightarrow> int \<Rightarrow> (int \<Rightarrow> 's \<Rightarrow> 's option) \<Rightarrow> 's \<Rightarrow> 's option" where
  "for_int lo hi f = loop (nat lo) (nat (hi - lo)) (\<lambda>k. f (int k))"

text \<open>One step of an index such as \<open>((n*IH+ih)*IW+iw)*IC+ic\<close>.\<close>

definition index_step :: "int \<Rightarrow> int \<Rightarrow> int \<Rightarrow> int option" where
  "index_step a n b = do { x \<leftarrow> i32 (a * n); i32 (x + b) }"

definition index3 :: "int \<Rightarrow> int \<Rightarrow> int \<Rightarrow> int \<Rightarrow> int \<Rightarrow> int option" where
  "index3 a n b p c = do { x \<leftarrow> index_step a n b; index_step x p c }"

definition index4 :: "int \<Rightarrow> int \<Rightarrow> int \<Rightarrow> int \<Rightarrow> int \<Rightarrow> int \<Rightarrow> int \<Rightarrow> int option" where
  "index4 a n b p c q d = do { x \<leftarrow> index3 a n b p c; index_step x q d }"

definition code_at :: "ram \<Rightarrow> nat \<Rightarrow> int \<Rightarrow> int option" where
  "code_at h x i = (if x = 0 \<or> i < 0 then None else Some (sint (h (x + nat i))))"

definition put_code :: "ram \<Rightarrow> nat \<Rightarrow> int \<Rightarrow> int \<Rightarrow> ram option" where
  "put_code h y i v = (if y = 0 \<or> i < 0 then None else Some (h(y + nat i := word_of_int v)))"

definition weight_code :: "tigris_plan \<Rightarrow> nat option \<Rightarrow> int \<Rightarrow> int option" where
  "weight_code pl wt i = (case wt of None \<Rightarrow> None | Some d \<Rightarrow> if i < 0 then None else rdi8 (p_buf pl) (d + nat i))"

definition bias_code :: "tigris_plan \<Rightarrow> nat option \<Rightarrow> int \<Rightarrow> int option" where
  "bias_code pl bias oc = (case bias of None \<Rightarrow> Some 0 | Some d \<Rightarrow> load_bias_s32 (p_buf pl) d (word_of_int oc))"

definition zero_point :: "quant_param option \<Rightarrow> int" where
  "zero_point qp = (case qp of None \<Rightarrow> 0 | Some q \<Rightarrow> qp_zero_point q)"

record s8_operands =
  so_x :: nat
  so_y :: nat
  so_w :: "nat option"
  so_b :: "nat option"
  so_input_zp :: int
  so_output_zp :: int
  so_rq :: requant_params

definition s8_operands_of :: "tigris_plan \<Rightarrow> tigris_op \<Rightarrow> mem \<Rightarrow> s8_operands option" where
  "s8_operands_of pl oper m = do {
     tin \<leftarrow> tigris_op_inputs pl oper 0;
     tout \<leftarrow> tigris_op_outputs pl oper 0;
     x \<leftarrow> tigris_mem_tensor_ptr (Some m) tin;
     y \<leftarrow> tigris_mem_tensor_ptr (Some m) tout;
     wt \<leftarrow> tigris_op_weight pl oper;
     bias \<leftarrow> tigris_op_bias pl oper;
     input \<leftarrow> plan_tensor pl (unat tin);
     in_qp \<leftarrow> tigris_tensor_quant pl input;
     output \<leftarrow> plan_tensor pl (unat tout);
     out_qp \<leftarrow> tigris_tensor_quant pl output;
     Some \<lparr> so_x = x, so_y = y, so_w = wt, so_b = bias, so_input_zp = zero_point in_qp,
       so_output_zp = zero_point out_qp, so_rq = requant_resolve pl out_qp \<rparr> }"

text \<open>\<open>acc += (x - zp) * w\<close>.\<close>

definition multiply_add :: "int \<Rightarrow> int \<Rightarrow> int \<Rightarrow> int \<Rightarrow> int option" where
  "multiply_add zp x wv acc = do { x_val \<leftarrow> i32 (x - zp); product \<leftarrow> i32 (x_val * wv); i32 (acc + product) }"

definition finish_code :: "s8_operands \<Rightarrow> tigris_op \<Rightarrow> int \<Rightarrow> int \<Rightarrow> int option" where
  "finish_code so oper acc oc = do {
     scaled \<leftarrow> requant_apply (so_rq so) acc (nat oc);
     v \<leftarrow> i32 (scaled + so_output_zp so);
     Some (clamp_act v (op_act_min oper) (op_act_max oper)) }"

section \<open>The pixels of a window operator\<close>

text \<open>Every output pixel in order, with the taps of its row and of its column: where the window starts
  in the input, the first tap inside it and the one after the last.\<close>

type_synonym axis_taps = "int \<times> int \<times> int"

definition window_col ::
  "window \<Rightarrow> (int \<Rightarrow> axis_taps \<Rightarrow> ram \<Rightarrow> ram option) \<Rightarrow> int \<Rightarrow> ram \<Rightarrow> ram option" where
  "window_col w pixel ow h = do {
     t \<leftarrow> i32 (ow * uint (wn_stride_w w));
     base_w \<leftarrow> i32 (t - uint (wn_pad_left w));
     (kw0, kw1) \<leftarrow> tap_range base_w (wn_in_w w) (uint (wn_kernel_w w)) (uint (wn_dilation_w w));
     pixel ow (base_w, kw0, kw1) h }"

definition window_row ::
  "window \<Rightarrow> (int \<Rightarrow> axis_taps \<Rightarrow> int \<Rightarrow> axis_taps \<Rightarrow> ram \<Rightarrow> ram option) \<Rightarrow> int \<Rightarrow> ram \<Rightarrow> ram option" where
  "window_row w pixel oh h = do {
     oh_g \<leftarrow> i32 (oh + wn_out_row_start w);
     t \<leftarrow> i32 (oh_g * uint (wn_stride_h w));
     t \<leftarrow> i32 (t - uint (wn_pad_top w));
     base_h \<leftarrow> i32 (t - wn_in_row_start w);
     (kh0, kh1) \<leftarrow> tap_range base_h (wn_in_h w) (uint (wn_kernel_h w)) (uint (wn_dilation_h w));
     for_int 0 (wn_out_w w) (window_col w (pixel oh_g (base_h, kh0, kh1))) h }"

definition window_pixels ::
  "window \<Rightarrow> (int \<Rightarrow> int \<Rightarrow> axis_taps \<Rightarrow> int \<Rightarrow> axis_taps \<Rightarrow> ram \<Rightarrow> ram option) \<Rightarrow> ram \<Rightarrow> ram option" where
  "window_pixels w pixel = for_int 0 (wn_n w) (\<lambda>n. for_int 0 (wn_out_h w) (window_row w (pixel n)))"

text \<open>The taps of a pixel in order; \<open>tap\<close> is given the input position and the tap.\<close>

definition window_taps ::
  "window \<Rightarrow> axis_taps \<Rightarrow> axis_taps \<Rightarrow> (int \<Rightarrow> int \<Rightarrow> int \<Rightarrow> int \<Rightarrow> int \<Rightarrow> int option) \<Rightarrow> int \<Rightarrow> int option" where
  "window_taps w = (\<lambda>(base_h, kh0, kh1) (base_w, kw0, kw1) tap. for_int kh0 kh1 (\<lambda>kh acc. do {
     t \<leftarrow> i32 (kh * uint (wn_dilation_h w));
     ih \<leftarrow> i32 (base_h + t);
     for_int kw0 kw1 (\<lambda>kw acc. do {
       t \<leftarrow> i32 (kw * uint (wn_dilation_w w));
       iw \<leftarrow> i32 (base_w + t);
       tap ih iw kh kw acc }) acc }))"

section \<open>Convolutions\<close>

definition conv2d_tap ::
  "tigris_plan \<Rightarrow> s8_operands \<Rightarrow> window \<Rightarrow> ram \<Rightarrow> int \<Rightarrow> int \<Rightarrow> int \<Rightarrow> int \<Rightarrow> int \<Rightarrow> int \<Rightarrow> int \<Rightarrow> int option" where
  "conv2d_tap pl so w h n oc ih iw kh kw = for_int 0 (wn_in_c w) (\<lambda>ic acc. do {
     i \<leftarrow> index4 n (wn_in_h w) ih (wn_in_w w) iw (wn_in_c w) ic;
     x \<leftarrow> code_at h (so_x so) i;
     j \<leftarrow> index4 oc (uint (wn_kernel_h w)) kh (uint (wn_kernel_w w)) kw (wn_in_c w) ic;
     wv \<leftarrow> weight_code pl (so_w so) j;
     multiply_add (so_input_zp so) x wv acc })"

definition conv2d_channel ::
  "tigris_plan \<Rightarrow> tigris_op \<Rightarrow> s8_operands \<Rightarrow> window \<Rightarrow> int \<Rightarrow> int \<Rightarrow> int \<Rightarrow> axis_taps \<Rightarrow> axis_taps \<Rightarrow>
     int \<Rightarrow> ram \<Rightarrow> ram option" where
  "conv2d_channel pl oper so w n oh_g ow rows cols oc h = do {
     acc \<leftarrow> bias_code pl (so_b so) oc;
     acc \<leftarrow> window_taps w rows cols (conv2d_tap pl so w h n oc) acc;
     v \<leftarrow> finish_code so oper acc oc;
     i \<leftarrow> index4 n (wn_out_h w) oh_g (wn_out_w w) ow (wn_out_c w) oc;
     put_code h (so_y so) i v }"

definition kern_conv2d_s8 :: "tigris_plan \<Rightarrow> tigris_op \<Rightarrow> mem \<Rightarrow> ram \<Rightarrow> ram option" where
  "kern_conv2d_s8 pl oper m h = do {
     so \<leftarrow> s8_operands_of pl oper m;
     w \<leftarrow> tigris_window pl oper m;
     window_pixels w (\<lambda>n oh_g rows ow cols.
       for_int 0 (wn_out_c w) (conv2d_channel pl oper so w n oh_g ow rows cols)) h }"

text \<open>Depthwise: output channel \<open>oc\<close> reads the input channel \<open>oc / M\<close>.\<close>

definition depthwise_tap ::
  "tigris_plan \<Rightarrow> s8_operands \<Rightarrow> window \<Rightarrow> ram \<Rightarrow> int \<Rightarrow> int \<Rightarrow> int \<Rightarrow> int \<Rightarrow> int \<Rightarrow> int \<Rightarrow> int \<Rightarrow> int \<Rightarrow> int option" where
  "depthwise_tap pl so w h n c oc ih iw kh kw acc = do {
     i \<leftarrow> index4 n (wn_in_h w) ih (wn_in_w w) iw (wn_in_c w) c;
     x \<leftarrow> code_at h (so_x so) i;
     j \<leftarrow> index3 kh (uint (wn_kernel_w w)) kw (wn_out_c w) oc;
     wv \<leftarrow> weight_code pl (so_w so) j;
     multiply_add (so_input_zp so) x wv acc }"

definition depthwise_channel ::
  "tigris_plan \<Rightarrow> tigris_op \<Rightarrow> s8_operands \<Rightarrow> window \<Rightarrow> int \<Rightarrow> int \<Rightarrow> int \<Rightarrow> int \<Rightarrow> axis_taps \<Rightarrow> axis_taps \<Rightarrow>
     int \<Rightarrow> ram \<Rightarrow> ram option" where
  "depthwise_channel pl oper so w multiplier n oh_g ow rows cols oc h = do {
     c \<leftarrow> sdiv32 oc multiplier;
     acc \<leftarrow> bias_code pl (so_b so) oc;
     acc \<leftarrow> window_taps w rows cols (depthwise_tap pl so w h n c oc) acc;
     v \<leftarrow> finish_code so oper acc oc;
     i \<leftarrow> index4 n (wn_out_h w) oh_g (wn_out_w w) ow (wn_out_c w) oc;
     put_code h (so_y so) i v }"

definition kern_depthwise_conv2d_s8 :: "tigris_plan \<Rightarrow> tigris_op \<Rightarrow> mem \<Rightarrow> ram \<Rightarrow> ram option" where
  "kern_depthwise_conv2d_s8 pl oper m h = do {
     so \<leftarrow> s8_operands_of pl oper m;
     w \<leftarrow> tigris_window pl oper m;
     multiplier \<leftarrow> sdiv32 (wn_out_c w) (wn_in_c w);
     window_pixels w (\<lambda>n oh_g rows ow cols.
       for_int 0 (wn_out_c w) (depthwise_channel pl oper so w multiplier n oh_g ow rows cols)) h }"

text \<open>Transposed: the input position a tap comes from, where there is one. \<open>None\<close> in the inner type
  skips the tap.\<close>

definition lattice_position :: "int \<Rightarrow> int \<Rightarrow> int \<Rightarrow> int \<Rightarrow> int \<Rightarrow> int option option" where
  "lattice_position pos pad k stride extent = do {
     t \<leftarrow> i32 (pos + pad);
     num_pos \<leftarrow> i32 (t - k);
     if stride = 0 then None
     else if num_pos smod stride \<noteq> 0 then Some None
     else do {
       i \<leftarrow> sdiv32 num_pos stride;
       Some (if i < 0 \<or> i \<ge> extent then None else Some i) } }"

definition conv_transpose_taps ::
  "tigris_plan \<Rightarrow> s8_operands \<Rightarrow> window \<Rightarrow> ram \<Rightarrow> int \<Rightarrow> int \<Rightarrow> int \<Rightarrow> int \<Rightarrow> int \<Rightarrow> int option" where
  "conv_transpose_taps pl so w h n oh ow oc = for_int 0 (uint (wn_kernel_h w)) (\<lambda>kh acc. do {
     row_pos \<leftarrow> lattice_position oh (uint (wn_pad_top w)) kh (uint (wn_stride_h w)) (wn_in_h w);
     (case row_pos of None \<Rightarrow> Some acc | Some ih \<Rightarrow>
       for_int 0 (uint (wn_kernel_w w)) (\<lambda>kw acc. do {
         col_pos \<leftarrow> lattice_position ow (uint (wn_pad_left w)) kw (uint (wn_stride_w w)) (wn_in_w w);
         (case col_pos of None \<Rightarrow> Some acc | Some iw \<Rightarrow> conv2d_tap pl so w h n oc ih iw kh kw acc) }) acc) })"

definition conv_transpose_channel ::
  "tigris_plan \<Rightarrow> tigris_op \<Rightarrow> s8_operands \<Rightarrow> window \<Rightarrow> int \<Rightarrow> int \<Rightarrow> int \<Rightarrow> int \<Rightarrow> ram \<Rightarrow> ram option" where
  "conv_transpose_channel pl oper so w n oh ow oc h = do {
     acc \<leftarrow> bias_code pl (so_b so) oc;
     acc \<leftarrow> conv_transpose_taps pl so w h n oh ow oc acc;
     v \<leftarrow> finish_code so oper acc oc;
     i \<leftarrow> index4 n (wn_out_h w) oh (wn_out_w w) ow (wn_out_c w) oc;
     put_code h (so_y so) i v }"

definition kern_conv_transpose_s8 :: "tigris_plan \<Rightarrow> tigris_op \<Rightarrow> mem \<Rightarrow> ram \<Rightarrow> ram option" where
  "kern_conv_transpose_s8 pl oper m h = do {
     so \<leftarrow> s8_operands_of pl oper m;
     w \<leftarrow> tigris_window pl oper m;
     for_int 0 (wn_n w) (\<lambda>n. for_int 0 (wn_out_h w) (\<lambda>oh. for_int 0 (wn_out_w w) (\<lambda>ow.
       for_int 0 (wn_out_c w) (conv_transpose_channel pl oper so w n oh ow)))) h }"

end
