(* ===== verification/Window_Sums.thy ===== *)
theory Window_Sums
  imports Window_S8
begin

text \<open>
  The two shapes of loop the int8 kernels are made of, each with one rule. \<open>adds\<close>: a loop that adds
  to a 32-bit accumulator computes the sum of its terms when their bound fits. \<open>fills\<close>: a loop that
  writes one code per output element, reading only outside the output, leaves every code at its place.
\<close>

lemma i32_in: "-2147483648 \<le> v \<Longrightarrow> v < 2147483648 \<Longrightarrow> i32 v = Some v"
  by (simp add: i32_def)

section \<open>Loops that accumulate\<close>

definition adds :: "(int \<Rightarrow> int option) \<Rightarrow> int \<Rightarrow> int \<Rightarrow> bool" where
  "adds f v b = (\<bar>v\<bar> \<le> b \<and> (\<forall>acc. \<bar>acc\<bar> + b < 2147483648 \<longrightarrow> f acc = Some (acc + v)))"

lemma addsI: "\<bar>v\<bar> \<le> b \<Longrightarrow> (\<And>acc. \<bar>acc\<bar> + b < 2147483648 \<Longrightarrow> f acc = Some (acc + v)) \<Longrightarrow> adds f v b"
  by (simp add: adds_def)

lemma addsD: "adds f v b \<Longrightarrow> \<bar>acc\<bar> + b < 2147483648 \<Longrightarrow> f acc = Some (acc + v)"
  by (simp add: adds_def)

lemma adds_mono: "adds f v b \<Longrightarrow> b \<le> b' \<Longrightarrow> adds f v b'"
  by (auto simp: adds_def)

lemma adds_skip: "0 \<le> b \<Longrightarrow> adds Some 0 b"
  by (simp add: adds_def)

lemma adds_loop:
  assumes "\<And>k. lo \<le> k \<Longrightarrow> k < lo + n \<Longrightarrow> adds (f k) (v k) (b k)"
  shows "adds (loop lo n f) (\<Sum>k = lo..<lo + n. v k) (\<Sum>k = lo..<lo + n. b k)"
  using assms
proof (induction n arbitrary: lo)
  case 0
  then show ?case by (simp add: adds_def)
next
  case (Suc n)
  have first: "adds (f lo) (v lo) (b lo)" using Suc.prems by simp
  have rest: "adds (loop (Suc lo) n f) (\<Sum>k = Suc lo..<Suc lo + n. v k) (\<Sum>k = Suc lo..<Suc lo + n. b k)"
    by (rule Suc.IH) (use Suc.prems in auto)
  have split1: "(\<Sum>k = lo..<lo + Suc n. g k) = g lo + (\<Sum>k = Suc lo..<Suc lo + n. g k)" for g :: "nat \<Rightarrow> int"
    by (simp add: sum.atLeast_Suc_lessThan)
  show ?case
    unfolding split1
  proof (rule addsI)
    let ?V = "\<Sum>k = Suc lo..<Suc lo + n. v k" and ?B = "\<Sum>k = Suc lo..<Suc lo + n. b k"
    have bounds: "\<bar>v lo\<bar> \<le> b lo" "\<bar>?V\<bar> \<le> ?B" using first rest by (auto simp: adds_def)
    then show "\<bar>v lo + ?V\<bar> \<le> b lo + ?B" by linarith
    fix acc assume acc: "\<bar>acc\<bar> + (b lo + ?B) < 2147483648"
    have "f lo acc = Some (acc + v lo)" by (rule addsD [OF first]) (use acc bounds in linarith)
    moreover have "loop (Suc lo) n f (acc + v lo) = Some (acc + v lo + ?V)"
      by (rule addsD [OF rest]) (use acc bounds in linarith)
    ultimately show "loop lo (Suc n) f acc = Some (acc + (v lo + ?V))" by (simp add: add.assoc)
  qed
qed

lemma int_range: "0 \<le> lo \<Longrightarrow> {lo..<hi} = int ` {nat lo..<nat lo + nat (hi - lo)}"
  by (cases "lo \<le> hi") (simp_all add: image_int_atLeastLessThan)

lemma sum_int_nat:
  fixes v :: "int \<Rightarrow> int"
  assumes "0 \<le> lo"
  shows "(\<Sum>k \<in> {lo..<hi}. v k) = (\<Sum>k = nat lo..<nat lo + nat (hi - lo). v (int k))"
  by (simp add: int_range [OF assms] sum.reindex)

lemma adds_for_int:
  assumes "0 \<le> lo" and "\<And>k. lo \<le> k \<Longrightarrow> k < hi \<Longrightarrow> adds (f k) (v k) b" and "0 \<le> b"
  shows "adds (for_int lo hi f) (\<Sum>k \<in> {lo..<hi}. v k) (max 0 (hi - lo) * b)"
proof -
  have "adds (for_int lo hi f) (\<Sum>k = nat lo..<nat lo + nat (hi - lo). v (int k)) (\<Sum>k = nat lo..<nat lo + nat (hi - lo). b)"
    unfolding for_int_def by (rule adds_loop) (use assms in auto)
  then show ?thesis by (simp add: sum_int_nat [OF assms(1)] max_def)
qed

text \<open>The same, with the sum over more indices, the terms outside the loop's bounds being 0.\<close>

lemma adds_for_int_inside:
  assumes "0 \<le> lo" and "lo \<le> hi" and "hi \<le> K" and "\<And>k. lo \<le> k \<and> k < hi \<longleftrightarrow> 0 \<le> k \<and> k < K \<and> P k"
    and "\<And>k. 0 \<le> k \<Longrightarrow> k < K \<Longrightarrow> P k \<Longrightarrow> adds (f k) (v k) b" and "0 \<le> b"
  shows "adds (for_int lo hi f) (\<Sum>k \<in> {0..<K}. if P k then v k else 0) (K * b)"
proof -
  have sums: "adds (for_int lo hi f) (\<Sum>k \<in> {lo..<hi}. v k) (max 0 (hi - lo) * b)"
    using assms(1, 4-6) by (intro adds_for_int) blast+
  have "{lo..<hi} = {k \<in> {0..<K}. P k}" by (simp add: set_eq_iff assms(4) conj_assoc)
  then have eq: "(\<Sum>k \<in> {lo..<hi}. v k) = (\<Sum>k \<in> {0..<K}. if P k then v k else 0)"
    by (simp only: sum.inter_filter [OF finite_atLeastLessThan_int])
  have "max 0 (hi - lo) * b \<le> K * b" using assms(1-3, 6) by (intro mult_right_mono) auto
  with sums show ?thesis unfolding eq by (rule adds_mono)
qed

text \<open>One term.\<close>

lemma adds_multiply_add:
  assumes "is_i8 x" and "is_i8 wv" and "is_i8 zp"
  shows "adds (multiply_add zp x wv) ((x - zp) * wv) 32640"
proof (rule addsI)
  have "\<bar>x - zp\<bar> * \<bar>wv\<bar> \<le> 255 * 128"
    by (rule mult_mono) (use assms in \<open>auto simp: is_i8_def\<close>)
  then show bound: "\<bar>(x - zp) * wv\<bar> \<le> 32640" by (simp add: abs_mult)
  fix acc :: int assume acc: "\<bar>acc\<bar> + 32640 < 2147483648"
  have "i32 (x - zp) = Some (x - zp)" using assms by (simp add: i32_def is_i8_def)
  moreover have "i32 ((x - zp) * wv) = Some ((x - zp) * wv)" "i32 (acc + (x - zp) * wv) = Some (acc + (x - zp) * wv)"
    by (rule i32_in; use bound acc in linarith)+
  ultimately show "multiply_add zp x wv acc = Some (acc + (x - zp) * wv)" by (simp only: multiply_add_def Option.bind.bind_lunit)
qed

section \<open>Loops that fill\<close>

definition fills :: "nat set \<Rightarrow> ram \<Rightarrow> (ram \<Rightarrow> ram option) \<Rightarrow> (nat \<times> u8) set \<Rightarrow> bool" where
  "fills D h0 f S = (\<forall>h. (\<forall>a. a \<notin> D \<longrightarrow> h a = h0 a) \<longrightarrow>
     wp (f h) (\<lambda>h'. (\<forall>(a, x) \<in> S. h' a = x) \<and> (\<forall>a. a \<notin> fst ` S \<longrightarrow> h' a = h a)))"

lemma fillsI:
  "(\<And>h. (\<And>a. a \<notin> D \<Longrightarrow> h a = h0 a) \<Longrightarrow>
     wp (f h) (\<lambda>h'. (\<forall>(a, x) \<in> S. h' a = x) \<and> (\<forall>a. a \<notin> fst ` S \<longrightarrow> h' a = h a))) \<Longrightarrow> fills D h0 f S"
  by (simp add: fills_def)

lemma fillsD:
  "fills D h0 f S \<Longrightarrow> \<forall>a. a \<notin> D \<longrightarrow> h a = h0 a \<Longrightarrow>
     wp (f h) (\<lambda>h'. (\<forall>(a, x) \<in> S. h' a = x) \<and> (\<forall>a. a \<notin> fst ` S \<longrightarrow> h' a = h a))"
  by (simp add: fills_def)

lemma fills_seq:
  assumes f: "fills D h0 f S" and g: "fills D h0 g T" and inside: "fst ` S \<subseteq> D" and sv: "single_valued (S \<union> T)"
  shows "fills D h0 (\<lambda>h. do { h \<leftarrow> f h; g h }) (S \<union> T)"
proof (rule fillsI)
  fix h assume h: "\<And>a. a \<notin> D \<Longrightarrow> h a = h0 a"
  have "\<forall>a. a \<notin> D \<longrightarrow> h a = h0 a" using h by simp
  from fillsD [OF f this] obtain h1 where h1: "f h = Some h1" "\<forall>(a, x) \<in> S. h1 a = x" "\<forall>a. a \<notin> fst ` S \<longrightarrow> h1 a = h a"
    by (auto dest: wpD)
  have "\<forall>a. a \<notin> D \<longrightarrow> h1 a = h0 a" using h h1(3) inside by (metis subsetD)
  from fillsD [OF g this] obtain h2 where h2: "g h1 = Some h2" "\<forall>(a, x) \<in> T. h2 a = x" "\<forall>a. a \<notin> fst ` T \<longrightarrow> h2 a = h1 a"
    by (auto dest: wpD)
  have "h2 a = x" if ax: "(a, x) \<in> S" for a x
  proof (cases "\<exists>y. (a, y) \<in> T")
    case True
    then obtain y where y: "(a, y) \<in> T" by blast
    with ax sv have "x = y" unfolding single_valued_def by blast
    then show ?thesis using y h2(2) by fastforce
  next
    case False
    then have "h2 a = h1 a" using h2(3) by force
    then show ?thesis using ax h1(2) by auto
  qed
  then have "\<forall>(a, x) \<in> S \<union> T. h2 a = x" using h2(2) by (auto simp: ball_Un)
  moreover have "\<forall>a. a \<notin> fst ` (S \<union> T) \<longrightarrow> h2 a = h a" using h1(3) h2(3) by (simp add: image_Un)
  ultimately show "wp (do { h \<leftarrow> f h; g h }) (\<lambda>h'. (\<forall>(a, x) \<in> S \<union> T. h' a = x) \<and> (\<forall>a. a \<notin> fst ` (S \<union> T) \<longrightarrow> h' a = h a))"
    using h1(1) h2(1) by simp
qed

lemma fills_loop:
  assumes "\<And>k. lo \<le> k \<Longrightarrow> k < lo + n \<Longrightarrow> fills D h0 (f k) (S k)"
    and "\<And>k. lo \<le> k \<Longrightarrow> k < lo + n \<Longrightarrow> fst ` S k \<subseteq> D" and "single_valued (\<Union>k \<in> {lo..<lo + n}. S k)"
  shows "fills D h0 (loop lo n f) (\<Union>k \<in> {lo..<lo + n}. S k)"
  using assms
proof (induction n arbitrary: lo)
  case 0
  then show ?case by (simp add: fills_def)
next
  case (Suc n)
  let ?R = "\<Union>k \<in> {Suc lo..<Suc lo + n}. S k"
  have "{lo..<lo + Suc n} = insert lo {Suc lo..<Suc lo + n}" by auto
  then have all: "(\<Union>k \<in> {lo..<lo + Suc n}. S k) = S lo \<union> ?R" by simp
  have sv: "single_valued (S lo \<union> ?R)" using Suc.prems(3) unfolding all .
  then have "single_valued ?R" by (rule single_valued_subset [rotated]) simp
  then have rest: "fills D h0 (loop (Suc lo) n f) ?R"
    by (intro Suc.IH) (use Suc.prems in auto)
  have step: "loop lo (Suc n) f = (\<lambda>h. do { h \<leftarrow> f lo h; loop (Suc lo) n f h })" by (simp add: fun_eq_iff)
  show ?case
    unfolding all step by (rule fills_seq [OF _ rest _ sv]) (use Suc.prems in auto)
qed

lemma fills_for_int:
  assumes "0 \<le> lo" and "\<And>k. lo \<le> k \<Longrightarrow> k < hi \<Longrightarrow> fills D h0 (f k) (S k)"
    and "\<And>k. lo \<le> k \<Longrightarrow> k < hi \<Longrightarrow> fst ` S k \<subseteq> D" and "single_valued (\<Union>k \<in> {lo..<hi}. S k)"
  shows "fills D h0 (for_int lo hi f) (\<Union>k \<in> {lo..<hi}. S k)"
proof -
  have eq: "(\<Union>k \<in> {lo..<hi}. S k) = (\<Union>k \<in> {nat lo..<nat lo + nat (hi - lo)}. S (int k))"
    by (simp add: int_range [OF assms(1)])
  show ?thesis
    unfolding eq for_int_def by (rule fills_loop) (use assms eq in auto)
qed

lemma fills_put:
  assumes "\<And>h. (\<And>a. a \<notin> D \<Longrightarrow> h a = h0 a) \<Longrightarrow> f h = put_code h y i v" and "y \<noteq> 0" and "0 \<le> i"
  shows "fills D h0 f {(y + nat i, word_of_int v)}"
  by (rule fillsI) (use assms in \<open>auto simp: put_code_def\<close>)

end
