(* ===== verification/Window_Walk.thy ===== *)
theory Window_Walk
  imports Window_Sums
begin

text \<open>
  The index arithmetic and the traversal of the window operators. For sizes in bounds every index is
  exact and distinct, the taps of a pixel are summed over the whole window with the padding counted
  as 0, and the pixels fill the output.
\<close>

section \<open>Indices\<close>

definition pos4 :: "int \<Rightarrow> int \<Rightarrow> int \<Rightarrow> int \<Rightarrow> int \<Rightarrow> int \<Rightarrow> int \<Rightarrow> int" where
  "pos4 a n b p c q d = ((a * n + b) * p + c) * q + d"

lemma index_step_in:
  assumes "0 \<le> a" "a < A" "0 \<le> b" "b < n" "A * n \<le> 2147483648"
  shows "index_step a n b = Some (a * n + b)" "0 \<le> a * n + b" "a * n + b < A * n"
proof -
  have "a * n + n \<le> A * n" using assms mult_right_mono [of "a + 1" A n] by (simp add: algebra_simps)
  then show less: "a * n + b < A * n" using assms by linarith
  have nonneg: "0 \<le> a * n" using assms by simp
  then show "0 \<le> a * n + b" using assms by linarith
  have "i32 (a * n) = Some (a * n)" "i32 (a * n + b) = Some (a * n + b)"
    by (rule i32_in; use nonneg less assms in linarith)+
  then show "index_step a n b = Some (a * n + b)" by (simp only: index_step_def Option.bind.bind_lunit)
qed

lemma mult_le_pos: "0 \<le> (a :: int) \<Longrightarrow> 0 < b \<Longrightarrow> a \<le> a * b"
  using mult_left_mono [of 1 b a] by simp

lemma index_tail:
  assumes "0 \<le> x" "x < A" "0 \<le> c" "c < p" "0 \<le> d" "d < q" "A * p * q < 2147483648"
  shows "do { y \<leftarrow> index_step x p c; index_step y q d } = Some ((x * p + c) * q + d)"
    "0 \<le> (x * p + c) * q + d" "(x * p + c) * q + d < A * p * q"
proof -
  have "A * p \<le> A * p * q" using assms by (intro mult_le_pos) auto
  then have "A * p \<le> 2147483648" using assms(7) by linarith
  note one = index_step_in [OF assms(1-4) this]
  have "A * p * q \<le> 2147483648" using assms(7) by simp
  note two = index_step_in [OF one(2, 3) assms(5, 6) this]
  show "do { y \<leftarrow> index_step x p c; index_step y q d } = Some ((x * p + c) * q + d)"
    by (simp only: one(1) two(1) Option.bind.bind_lunit)
  show "0 \<le> (x * p + c) * q + d" "(x * p + c) * q + d < A * p * q" by (rule two)+
qed

lemma index4_in:
  assumes "0 \<le> a" "a < A" "0 \<le> b" "b < n" "0 \<le> c" "c < p" "0 \<le> d" "d < q" "A * n * p * q < 2147483648"
  shows "index4 a n b p c q d = Some (pos4 a n b p c q d)" "0 \<le> pos4 a n b p c q d" "pos4 a n b p c q d < A * n * p * q"
proof -
  have "A * n \<le> A * n * (p * q)" using assms by (intro mult_le_pos) auto
  then have "A * n \<le> 2147483648" using assms(9) by (simp add: mult.assoc)
  note one = index_step_in [OF assms(1-4) this]
  note two = index_tail [OF one(2, 3) assms(5-9)]
  show "index4 a n b p c q d = Some (pos4 a n b p c q d)"
    by (simp only: index4_def index3_def one(1) two(1) pos4_def Option.bind.bind_lunit)
  show "0 \<le> pos4 a n b p c q d" "pos4 a n b p c q d < A * n * p * q" using two(2, 3) by (simp_all only: pos4_def)
qed

lemma index3_in:
  assumes "0 \<le> a" "a < A" "0 \<le> b" "b < n" "0 \<le> c" "c < p" "A * n * p < 2147483648"
  shows "index3 a n b p c = Some ((a * n + b) * p + c)" "0 \<le> (a * n + b) * p + c" "(a * n + b) * p + c < A * n * p"
proof -
  show "index3 a n b p c = Some ((a * n + b) * p + c)"
    unfolding index3_def by (rule index_tail(1)) (use assms in auto)
  show "0 \<le> (a * n + b) * p + c" "(a * n + b) * p + c < A * n * p"
    using index_tail(2, 3) [of a A b n c p] assms by blast+
qed

text \<open>The output's index, whose rows are counted from \<open>start\<close> on.\<close>

lemma index_out:
  assumes "0 \<le> a" "a < A" "0 \<le> b" "b < n" "0 \<le> start" "0 \<le> c" "c < p" "0 \<le> d" "d < q"
    and "(A * n + start) * p * q < 2147483648"
  shows "index4 a n (b + start) p c q d = Some (pos4 a n (b + start) p c q d)"
    "start * p * q \<le> pos4 a n (b + start) p c q d" "pos4 a n (b + start) p c q d < (A * n + start) * p * q"
proof -
  let ?A = "A * n + start"
  have "?A \<le> ?A * (p * q)" using assms by (intro mult_le_pos) auto
  then have R: "?A < 2147483648" using assms(10) by (simp add: mult.assoc)
  have "a * n + n \<le> A * n" using assms mult_right_mono [of "a + 1" A n] by (simp add: algebra_simps)
  moreover have nonneg: "0 \<le> a * n" using assms by simp
  ultimately have x: "0 \<le> a * n" "start \<le> a * n + (b + start)" "a * n + (b + start) < ?A" using assms by linarith+
  have one: "index_step a n (b + start) = Some (a * n + (b + start))"
  proof -
    have "i32 (a * n) = Some (a * n)" "i32 (a * n + (b + start)) = Some (a * n + (b + start))"
      by (rule i32_in; use x nonneg R assms in linarith)+
    then show ?thesis by (simp only: index_step_def Option.bind.bind_lunit)
  qed
  have "0 \<le> a * n + (b + start)" using x assms by linarith
  note two = index_tail [OF this x(3) assms(6-10)]
  show "index4 a n (b + start) p c q d = Some (pos4 a n (b + start) p c q d)"
    by (simp only: index4_def index3_def one two(1) pos4_def Option.bind.bind_lunit)
  show "pos4 a n (b + start) p c q d < ?A * p * q" using two(3) by (simp only: pos4_def)
  have "start * p * q \<le> (a * n + (b + start)) * p * q" using x assms by (intro mult_right_mono) auto
  moreover have "0 \<le> c * q + d" using assms by simp
  ultimately show "start * p * q \<le> pos4 a n (b + start) p c q d" by (simp add: pos4_def algebra_simps)
qed

lemma pos_split:
  assumes "x * (n :: int) + b = x' * n + b'" "0 \<le> b" "b < n" "0 \<le> b'" "b' < n"
  shows "x = x' \<and> b = b'"
proof -
  have "(x * n + b) div n = x" "(x' * n + b') div n = x'" using assms(2-5) by (simp_all add: div_add1_eq)
  then show ?thesis using assms(1) by auto
qed

lemma pos4_inj:
  assumes "pos4 a n (b + s) p c q d = pos4 a' n (b' + s) p c' q d'"
    and "0 \<le> b" "b < n" "0 \<le> b'" "b' < n" "0 \<le> c" "c < p" "0 \<le> c'" "c' < p" "0 \<le> d" "d < q" "0 \<le> d'" "d' < q"
  shows "a = a' \<and> b = b' \<and> c = c' \<and> d = d'"
proof -
  have "(a * n + (b + s)) * p + c = (a' * n + (b' + s)) * p + c' \<and> d = d'"
    by (rule pos_split) (use assms in \<open>auto simp: pos4_def\<close>)
  then have d: "d = d'" and "(a * n + (b + s)) * p + c = (a' * n + (b' + s)) * p + c'" by auto
  from pos_split [OF this(2)] have c: "c = c'" and "a * n + (b + s) = a' * n + (b' + s)" using assms by auto
  then have "a * n + b = a' * n + b'" by linarith
  from pos_split [OF this] show ?thesis using assms c d by auto
qed

section \<open>The sum over the taps of a pixel\<close>

text \<open>Sizes whose window arithmetic stays in \<open>int\<close>.\<close>

definition window_ok :: "window \<Rightarrow> bool" where
  "window_ok w = (0 \<le> wn_n w \<and> 0 \<le> wn_in_h w \<and> wn_in_h w < 536870912 \<and> 0 \<le> wn_in_w w \<and> wn_in_w w < 536870912 \<and>
     0 \<le> wn_in_c w \<and> 0 \<le> wn_out_h w \<and> 0 \<le> wn_out_w w \<and> 0 \<le> wn_out_c w \<and>
     0 \<le> wn_out_row_start w \<and> 0 \<le> wn_in_row_start w \<and> wn_in_row_start w < 536870912 \<and>
     wn_out_h w + wn_out_row_start w < 2147483648 \<and> (wn_out_h w + wn_out_row_start w) * uint (wn_stride_h w) < 536870912 \<and>
     wn_out_w w * uint (wn_stride_w w) < 536870912 \<and> wn_dilation_h w \<noteq> 0 \<and> wn_dilation_w w \<noteq> 0 \<and>
     wn_n w * wn_in_h w * wn_in_w w * wn_in_c w < 2147483648 \<and>
     (wn_n w * wn_out_h w + wn_out_row_start w) * wn_out_w w * wn_out_c w < 2147483648)"

definition row_base :: "window \<Rightarrow> int \<Rightarrow> int" where
  "row_base w oh = (oh + wn_out_row_start w) * uint (wn_stride_h w) - uint (wn_pad_top w) - wn_in_row_start w"

definition col_base :: "window \<Rightarrow> int \<Rightarrow> int" where
  "col_base w ow = ow * uint (wn_stride_w w) - uint (wn_pad_left w)"

text \<open>What the body of the traversal is given for one axis.\<close>

definition taps_of :: "int \<Rightarrow> int \<Rightarrow> int \<Rightarrow> int \<Rightarrow> int \<times> int \<times> int \<Rightarrow> bool" where
  "taps_of base extent taps dilation = (\<lambda>(b, lo, hi). b = base \<and> 0 \<le> lo \<and> lo \<le> hi \<and> hi \<le> taps \<and>
     (\<forall>k. lo \<le> k \<and> k < hi \<longleftrightarrow> 0 \<le> k \<and> k < taps \<and> 0 \<le> base + k * dilation \<and> base + k * dilation < extent))"

abbreviation row_taps :: "window \<Rightarrow> int \<Rightarrow> int \<times> int \<times> int \<Rightarrow> bool" where
  "row_taps w oh \<equiv> taps_of (row_base w oh) (wn_in_h w) (uint (wn_kernel_h w)) (uint (wn_dilation_h w))"

abbreviation col_taps :: "window \<Rightarrow> int \<Rightarrow> int \<times> int \<times> int \<Rightarrow> bool" where
  "col_taps w ow \<equiv> taps_of (col_base w ow) (wn_in_w w) (uint (wn_kernel_w w)) (uint (wn_dilation_w w))"

text \<open>The sum over a window of \<open>v\<close> of the input position and the tap, 0 in the padding.\<close>

definition padded_sum ::
  "window \<Rightarrow> int \<Rightarrow> int \<Rightarrow> (int \<Rightarrow> int \<Rightarrow> int \<Rightarrow> int \<Rightarrow> int) \<Rightarrow> int" where
  "padded_sum w base_h base_w v = (\<Sum>kh \<in> {0..<uint (wn_kernel_h w)}. \<Sum>kw \<in> {0..<uint (wn_kernel_w w)}.
     (let ih = base_h + kh * uint (wn_dilation_h w); iw = base_w + kw * uint (wn_dilation_w w) in
      if 0 \<le> ih \<and> ih < wn_in_h w \<and> 0 \<le> iw \<and> iw < wn_in_w w then v ih iw kh kw else 0))"

lemma uint_small: "0 \<le> uint (x :: u8)" "uint (x :: u8) < 256" "0 \<le> uint (y :: u16)" "uint (y :: u16) < 65536"
  using uint_lt2p [of x] uint_lt2p [of y] by simp_all

lemma uint_pos: "0 < uint (x :: u16) \<longleftrightarrow> x \<noteq> 0"
  by (metis uint_0_iff uint_ge_0 order.strict_iff_order)

lemma adds_window_taps:
  assumes rows: "taps_of base_h (wn_in_h w) (uint (wn_kernel_h w)) (uint (wn_dilation_h w)) rows"
    and cols: "taps_of base_w (wn_in_w w) (uint (wn_kernel_w w)) (uint (wn_dilation_w w)) cols"
    and small: "wn_in_h w < 536870912" "wn_in_w w < 536870912"
    and tap: "\<And>ih iw kh kw. 0 \<le> ih \<Longrightarrow> ih < wn_in_h w \<Longrightarrow> 0 \<le> iw \<Longrightarrow> iw < wn_in_w w \<Longrightarrow>
      0 \<le> kh \<Longrightarrow> kh < uint (wn_kernel_h w) \<Longrightarrow> 0 \<le> kw \<Longrightarrow> kw < uint (wn_kernel_w w) \<Longrightarrow> adds (tap ih iw kh kw) (v ih iw kh kw) b"
    and b: "0 \<le> b"
  shows "adds (window_taps w rows cols tap) (padded_sum w base_h base_w v)
    (uint (wn_kernel_h w) * (uint (wn_kernel_w w) * b))"
proof -
  let ?KH = "uint (wn_kernel_h w)" and ?KW = "uint (wn_kernel_w w)" and ?DH = "uint (wn_dilation_h w)" and ?DW = "uint (wn_dilation_w w)"
  obtain kh0 kh1 where r: "rows = (base_h, kh0, kh1)" "0 \<le> kh0" "kh0 \<le> kh1" "kh1 \<le> ?KH"
    "\<And>k. kh0 \<le> k \<and> k < kh1 \<longleftrightarrow> 0 \<le> k \<and> k < ?KH \<and> (0 \<le> base_h + k * ?DH \<and> base_h + k * ?DH < wn_in_h w)"
    using rows by (auto simp: taps_of_def split: prod.splits)
  obtain kw0 kw1 where c: "cols = (base_w, kw0, kw1)" "0 \<le> kw0" "kw0 \<le> kw1" "kw1 \<le> ?KW"
    "\<And>k. kw0 \<le> k \<and> k < kw1 \<longleftrightarrow> 0 \<le> k \<and> k < ?KW \<and> (0 \<le> base_w + k * ?DW \<and> base_w + k * ?DW < wn_in_w w)"
    using cols by (auto simp: taps_of_def split: prod.splits)
  have mult: "0 \<le> k * uint (d :: u16) \<and> k * uint d \<le> 16711680" if "0 \<le> k" "k < uint (x :: u8)" for k d and x :: u8
    using mult_mono [of k 255 "uint d" 65535] that uint_small(1, 2) [of x] uint_small(3, 4) [of d] by auto
  let ?inner = "\<lambda>ih kh. for_int kw0 kw1 (\<lambda>kw acc. do { t \<leftarrow> i32 (kw * ?DW); iw \<leftarrow> i32 (base_w + t); tap ih iw kh kw acc })"
  have inner: "adds (?inner ih kh) (\<Sum>kw \<in> {0..<?KW}. if 0 \<le> base_w + kw * ?DW \<and> base_w + kw * ?DW < wn_in_w w
      then v ih (base_w + kw * ?DW) kh kw else 0) (?KW * b)"
    if ih: "0 \<le> ih" "ih < wn_in_h w" "0 \<le> kh" "kh < ?KH" for ih kh
  proof (rule adds_for_int_inside [OF c(2-5) _ b])
    fix kw assume kw: "0 \<le> kw" "kw < ?KW" "0 \<le> base_w + kw * ?DW \<and> base_w + kw * ?DW < wn_in_w w"
    have "i32 (kw * ?DW) = Some (kw * ?DW)" "i32 (base_w + kw * ?DW) = Some (base_w + kw * ?DW)"
      by (rule i32_in; use mult [OF kw(1, 2), of "wn_dilation_w w"] kw(3) small in linarith)+
    then show "adds (\<lambda>acc. do { t \<leftarrow> i32 (kw * ?DW); iw \<leftarrow> i32 (base_w + t); tap ih iw kh kw acc })
        (v ih (base_w + kw * ?DW) kh kw) b"
      using tap [OF ih(1, 2) _ _ ih(3, 4) kw(1, 2), of "base_w + kw * ?DW"] kw(3) by (simp del: i32_Some)
  qed
  have "adds (window_taps w rows cols tap) (\<Sum>kh \<in> {0..<?KH}. if 0 \<le> base_h + kh * ?DH \<and> base_h + kh * ?DH < wn_in_h w
      then (\<Sum>kw \<in> {0..<?KW}. if 0 \<le> base_w + kw * ?DW \<and> base_w + kw * ?DW < wn_in_w w
        then v (base_h + kh * ?DH) (base_w + kw * ?DW) kh kw else 0) else 0) (?KH * (?KW * b))"
    unfolding window_taps_def r(1) c(1) prod.case
  proof (rule adds_for_int_inside [OF r(2-5)])
    fix kh assume kh: "0 \<le> kh" "kh < ?KH" "0 \<le> base_h + kh * ?DH \<and> base_h + kh * ?DH < wn_in_h w"
    have "i32 (kh * ?DH) = Some (kh * ?DH)" "i32 (base_h + kh * ?DH) = Some (base_h + kh * ?DH)"
      by (rule i32_in; use mult [OF kh(1, 2), of "wn_dilation_h w"] kh(3) small in linarith)+
    then show "adds (\<lambda>acc. do { t \<leftarrow> i32 (kh * ?DH); ih \<leftarrow> i32 (base_h + t); ?inner ih kh acc })
        (\<Sum>kw \<in> {0..<?KW}. if 0 \<le> base_w + kw * ?DW \<and> base_w + kw * ?DW < wn_in_w w
          then v (base_h + kh * ?DH) (base_w + kw * ?DW) kh kw else 0) (?KW * b)"
      using inner [OF _ _ kh(1, 2), of "base_h + kh * ?DH"] kh(3) by (simp del: i32_Some)
  qed (use b uint_small in simp)
  moreover have "(\<Sum>kh \<in> {0..<?KH}. if 0 \<le> base_h + kh * ?DH \<and> base_h + kh * ?DH < wn_in_h w
      then (\<Sum>kw \<in> {0..<?KW}. if 0 \<le> base_w + kw * ?DW \<and> base_w + kw * ?DW < wn_in_w w
        then v (base_h + kh * ?DH) (base_w + kw * ?DW) kh kw else 0) else 0) = padded_sum w base_h base_w v"
    unfolding padded_sum_def Let_def by (intro sum.cong refl) auto
  ultimately show ?thesis by simp
qed

section \<open>The output\<close>

text \<open>The bytes of the output, and what it is to fill them with a code per element.\<close>

definition out_pos :: "window \<Rightarrow> int \<Rightarrow> int \<Rightarrow> int \<Rightarrow> int \<Rightarrow> int" where
  "out_pos w n oh ow oc = pos4 n (wn_out_h w) (oh + wn_out_row_start w) (wn_out_w w) ow (wn_out_c w) oc"

definition out_region :: "window \<Rightarrow> nat \<Rightarrow> nat set" where
  "out_region w y = {y + nat (wn_out_row_start w * wn_out_w w * wn_out_c w)..<
     y + nat ((wn_n w * wn_out_h w + wn_out_row_start w) * wn_out_w w * wn_out_c w)}"

definition out_codes :: "window \<Rightarrow> nat \<Rightarrow> (int \<Rightarrow> int \<Rightarrow> int \<Rightarrow> int \<Rightarrow> int) \<Rightarrow> (nat \<times> u8) set" where
  "out_codes w y val = (\<Union>n \<in> {0..<wn_n w}. \<Union>oh \<in> {0..<wn_out_h w}. \<Union>ow \<in> {0..<wn_out_w w}. \<Union>oc \<in> {0..<wn_out_c w}.
     {(y + nat (out_pos w n oh ow oc), word_of_int (val n oh ow oc))})"

definition computes :: "window \<Rightarrow> nat \<Rightarrow> (int \<Rightarrow> int \<Rightarrow> int \<Rightarrow> int \<Rightarrow> int) \<Rightarrow> ram \<Rightarrow> ram \<Rightarrow> bool" where
  "computes w y val h h' = ((\<forall>n oh ow oc. 0 \<le> n \<and> n < wn_n w \<and> 0 \<le> oh \<and> oh < wn_out_h w \<and> 0 \<le> ow \<and> ow < wn_out_w w \<and>
       0 \<le> oc \<and> oc < wn_out_c w \<longrightarrow> h' (y + nat (out_pos w n oh ow oc)) = word_of_int (val n oh ow oc)) \<and>
     (\<forall>a. a \<notin> out_region w y \<longrightarrow> h' a = h a))"

lemma window_okD:
  assumes "window_ok w"
  shows "0 \<le> wn_out_row_start w" "(wn_n w * wn_out_h w + wn_out_row_start w) * wn_out_w w * wn_out_c w < 2147483648"
    "wn_n w * wn_in_h w * wn_in_w w * wn_in_c w < 2147483648" "wn_in_h w < 536870912" "wn_in_w w < 536870912"
    "0 \<le> wn_in_h w" "0 \<le> wn_in_w w" "0 \<le> wn_in_c w"
  using assms by (simp_all add: window_ok_def)

lemma out_pos_in:
  assumes ok: "window_ok w" and i: "0 \<le> n" "n < wn_n w" "0 \<le> oh" "oh < wn_out_h w" "0 \<le> ow" "ow < wn_out_w w" "0 \<le> oc" "oc < wn_out_c w"
  shows "index4 n (wn_out_h w) (oh + wn_out_row_start w) (wn_out_w w) ow (wn_out_c w) oc = Some (out_pos w n oh ow oc)"
    "0 \<le> out_pos w n oh ow oc" "y + nat (out_pos w n oh ow oc) \<in> out_region w y"
proof -
  note r = index_out [OF i(1-4) window_okD(1) [OF ok] i(5-8) window_okD(2) [OF ok]]
  show "index4 n (wn_out_h w) (oh + wn_out_row_start w) (wn_out_w w) ow (wn_out_c w) oc = Some (out_pos w n oh ow oc)"
    using r(1) by (simp only: out_pos_def)
  have "0 \<le> wn_out_row_start w * wn_out_w w * wn_out_c w" using i window_okD(1) [OF ok] by simp
  then show "0 \<le> out_pos w n oh ow oc" using r(2) unfolding out_pos_def by linarith
  show "y + nat (out_pos w n oh ow oc) \<in> out_region w y"
    using r(2, 3) \<open>0 \<le> wn_out_row_start w * wn_out_w w * wn_out_c w\<close> unfolding out_pos_def out_region_def by auto
qed

lemma out_codesI:
  "0 \<le> n \<Longrightarrow> n < wn_n w \<Longrightarrow> 0 \<le> oh \<Longrightarrow> oh < wn_out_h w \<Longrightarrow> 0 \<le> ow \<Longrightarrow> ow < wn_out_w w \<Longrightarrow> 0 \<le> oc \<Longrightarrow> oc < wn_out_c w \<Longrightarrow>
    (y + nat (out_pos w n oh ow oc), word_of_int (val n oh ow oc)) \<in> out_codes w y val"
  unfolding out_codes_def by (intro UN_I) auto

lemma out_codes_single_valued:
  assumes "window_ok w"
  shows "single_valued (out_codes w y val)"
proof (rule single_valuedI)
  fix a x x' assume "(a, x) \<in> out_codes w y val" "(a, x') \<in> out_codes w y val"
  then obtain n oh ow oc n' oh' ow' oc' where
    i: "0 \<le> n" "n < wn_n w" "0 \<le> oh" "oh < wn_out_h w" "0 \<le> ow" "ow < wn_out_w w" "0 \<le> oc" "oc < wn_out_c w"
    and i': "0 \<le> n'" "n' < wn_n w" "0 \<le> oh'" "oh' < wn_out_h w" "0 \<le> ow'" "ow' < wn_out_w w" "0 \<le> oc'" "oc' < wn_out_c w"
    and eq: "nat (out_pos w n oh ow oc) = nat (out_pos w n' oh' ow' oc')"
      "x = word_of_int (val n oh ow oc)" "x' = word_of_int (val n' oh' ow' oc')"
    by (auto simp: out_codes_def)
  have "out_pos w n oh ow oc = out_pos w n' oh' ow' oc'"
    using eq(1) out_pos_in(2) [OF assms i] out_pos_in(2) [OF assms i'] by linarith
  from pos4_inj [OF this [unfolded out_pos_def] i(3, 4) i'(3, 4) i(5, 6) i'(5, 6) i(7, 8) i'(7, 8)]
  show "x = x'" using eq by simp
qed

lemma out_codes_inside: "window_ok w \<Longrightarrow> fst ` out_codes w y val \<subseteq> out_region w y"
  using out_pos_in(3) [of w] by (auto simp: out_codes_def)

lemma computes_fills:
  assumes "fills (out_region w y) h f (out_codes w y val)" and ok: "window_ok w"
  shows "wp (f h) (computes w y val h)"
proof (rule wp_mono [OF fillsD [OF assms(1)]])
  fix h' assume h': "(\<forall>(a, x) \<in> out_codes w y val. h' a = x) \<and> (\<forall>a. a \<notin> fst ` out_codes w y val \<longrightarrow> h' a = h a)"
  have "\<forall>a. a \<notin> out_region w y \<longrightarrow> h' a = h a" using h' out_codes_inside [OF ok, of y val] by blast
  then show "computes w y val h h'" using h' by (auto simp: computes_def out_codes_def)
qed simp

text \<open>The pixels, one channel at a time.\<close>

lemma fills_channels:
  assumes ok: "window_ok w" and y: "y \<noteq> 0"
    and i: "0 \<le> n" "n < wn_n w" "0 \<le> oh" "oh < wn_out_h w" "0 \<le> ow" "ow < wn_out_w w"
    and chan: "\<And>oc h. 0 \<le> oc \<Longrightarrow> oc < wn_out_c w \<Longrightarrow> (\<And>a. a \<notin> out_region w y \<Longrightarrow> h a = h0 a) \<Longrightarrow>
      chan oc h = put_code h y (out_pos w n oh ow oc) (val n oh ow oc)"
  shows "fills (out_region w y) h0 (for_int 0 (wn_out_c w) chan)
    (\<Union>oc \<in> {0..<wn_out_c w}. {(y + nat (out_pos w n oh ow oc), word_of_int (val n oh ow oc))})"
proof (rule fills_for_int)
  show "single_valued (\<Union>oc \<in> {0..<wn_out_c w}. {(y + nat (out_pos w n oh ow oc), word_of_int (val n oh ow oc) :: u8)})"
    by (rule single_valued_subset [OF _ out_codes_single_valued [OF ok, of y val]]) (use i in \<open>auto intro: out_codesI\<close>)
qed (use out_pos_in [OF ok i] chan y in \<open>auto intro!: fills_put\<close>)

text \<open>The window of a row and of a column, as the traversal computes it.\<close>

lemma taps_computed:
  assumes i: "-1073741824 < b" "b \<le> 1073741824" "0 \<le> e" "e < 536870912" "d \<noteq> 0"
  shows "\<exists>lo hi. tap_range b e (uint (k :: u8)) (uint (d :: u16)) = Some (lo, hi) \<and> taps_of b e (uint k) (uint d) (b, lo, hi)"
proof -
  have "e \<le> 1073741824" "0 \<le> uint k" "uint k \<le> 255" "uint d \<le> 65535" "0 < uint d"
    using i uint_small(1, 2) [of k] uint_small(3, 4) [of d] uint_pos [of d] by linarith+
  then obtain lo hi where "tap_range b e (uint k) (uint d) = Some (lo, hi)" "0 \<le> lo" "lo \<le> hi" "hi \<le> uint k"
    "\<forall>j. lo \<le> j \<and> j < hi \<longleftrightarrow> 0 \<le> j \<and> j < uint k \<and> 0 \<le> b + j * uint d \<and> b + j * uint d < e"
    using tap_range_interval [OF i(1-3), of "uint k" "uint d"] by blast
  then show ?thesis by (auto simp: taps_of_def)
qed

lemma row_computed:
  assumes ok: "window_ok w" and oh: "0 \<le> oh" "oh < wn_out_h w"
  shows "\<exists>lo hi. row_taps w oh (row_base w oh, lo, hi) \<and> i32 (oh + wn_out_row_start w) = Some (oh + wn_out_row_start w) \<and>
    i32 ((oh + wn_out_row_start w) * uint (wn_stride_h w)) = Some ((oh + wn_out_row_start w) * uint (wn_stride_h w)) \<and>
    i32 ((oh + wn_out_row_start w) * uint (wn_stride_h w) - uint (wn_pad_top w)) = Some ((oh + wn_out_row_start w) * uint (wn_stride_h w) - uint (wn_pad_top w)) \<and>
    i32 ((oh + wn_out_row_start w) * uint (wn_stride_h w) - uint (wn_pad_top w) - wn_in_row_start w) = Some (row_base w oh) \<and>
    tap_range (row_base w oh) (wn_in_h w) (uint (wn_kernel_h w)) (uint (wn_dilation_h w)) = Some (lo, hi)"
proof -
  let ?t = "(oh + wn_out_row_start w) * uint (wn_stride_h w)"
  have small: "0 \<le> wn_in_row_start w" "wn_in_row_start w < 536870912" "wn_out_h w + wn_out_row_start w < 2147483648"
    "0 \<le> wn_out_row_start w" "0 \<le> wn_in_h w" "wn_in_h w < 536870912" "wn_dilation_h w \<noteq> 0"
    "(wn_out_h w + wn_out_row_start w) * uint (wn_stride_h w) < 536870912"
    using ok by (simp_all add: window_ok_def)
  have "?t \<le> (wn_out_h w + wn_out_row_start w) * uint (wn_stride_h w)" using oh by (intro mult_right_mono) auto
  then have b: "0 \<le> ?t" "?t < 536870912" using oh small by simp_all
  have pad: "0 \<le> uint (wn_pad_top w)" "uint (wn_pad_top w) < 65536" by (rule uint_small)+
  have "-1073741824 < row_base w oh" "row_base w oh \<le> 1073741824"
    using b small(1, 2) pad unfolding row_base_def by linarith+
  from taps_computed [OF this small(5-7), of "wn_kernel_h w"] obtain lo hi where
    t: "tap_range (row_base w oh) (wn_in_h w) (uint (wn_kernel_h w)) (uint (wn_dilation_h w)) = Some (lo, hi)" "row_taps w oh (row_base w oh, lo, hi)"
    by blast
  have "i32 (oh + wn_out_row_start w) = Some (oh + wn_out_row_start w)" using oh small by (simp add: i32_def)
  moreover have "i32 ?t = Some ?t" "i32 (?t - uint (wn_pad_top w)) = Some (?t - uint (wn_pad_top w))"
    "i32 (?t - uint (wn_pad_top w) - wn_in_row_start w) = Some (row_base w oh)"
    unfolding row_base_def by (rule i32_in; use b small(1, 2) pad in linarith)+
  ultimately show ?thesis using t by blast
qed

lemma col_computed:
  assumes ok: "window_ok w" and ow: "0 \<le> ow" "ow < wn_out_w w"
  shows "\<exists>lo hi. col_taps w ow (col_base w ow, lo, hi) \<and> i32 (ow * uint (wn_stride_w w)) = Some (ow * uint (wn_stride_w w)) \<and>
    i32 (ow * uint (wn_stride_w w) - uint (wn_pad_left w)) = Some (col_base w ow) \<and>
    tap_range (col_base w ow) (wn_in_w w) (uint (wn_kernel_w w)) (uint (wn_dilation_w w)) = Some (lo, hi)"
proof -
  let ?t = "ow * uint (wn_stride_w w)"
  have small: "0 \<le> wn_in_w w" "wn_in_w w < 536870912" "wn_dilation_w w \<noteq> 0" "wn_out_w w * uint (wn_stride_w w) < 536870912"
    using ok by (simp_all add: window_ok_def)
  have "?t \<le> wn_out_w w * uint (wn_stride_w w)" using ow by (intro mult_right_mono) auto
  then have b: "0 \<le> ?t" "?t < 536870912" using ow small by simp_all
  have pad: "0 \<le> uint (wn_pad_left w)" "uint (wn_pad_left w) < 65536" by (rule uint_small)+
  have "-1073741824 < col_base w ow" "col_base w ow \<le> 1073741824"
    using b pad unfolding col_base_def by linarith+
  from taps_computed [OF this small(1-3), of "wn_kernel_w w"] obtain lo hi where
    t: "tap_range (col_base w ow) (wn_in_w w) (uint (wn_kernel_w w)) (uint (wn_dilation_w w)) = Some (lo, hi)" "col_taps w ow (col_base w ow, lo, hi)"
    by blast
  have "i32 ?t = Some ?t" "i32 (?t - uint (wn_pad_left w)) = Some (col_base w ow)"
    unfolding col_base_def by (rule i32_in; use b pad in linarith)+
  then show ?thesis using t by blast
qed

lemma codes_subset:
  "0 \<le> n \<Longrightarrow> n < wn_n w \<Longrightarrow> 0 \<le> oh \<Longrightarrow> oh < wn_out_h w \<Longrightarrow> 0 \<le> ow \<Longrightarrow> ow < wn_out_w w \<Longrightarrow>
    (\<Union>oc \<in> {0..<wn_out_c w}. {(y + nat (out_pos w n oh ow oc), word_of_int (val n oh ow oc) :: u8)}) \<subseteq> out_codes w y val"
  by (auto intro: out_codesI)

lemma codes_row_subset:
  assumes "0 \<le> n" "n < wn_n w" "0 \<le> oh" "oh < wn_out_h w"
  shows "(\<Union>ow \<in> {0..<wn_out_w w}. \<Union>oc \<in> {0..<wn_out_c w}. {(y + nat (out_pos w n oh ow oc), word_of_int (val n oh ow oc) :: u8)})
    \<subseteq> out_codes w y val"
  by (rule UN_least, rule codes_subset [OF assms]) (simp_all only: atLeastLessThan_iff)

lemma codes_image_subset:
  assumes "0 \<le> n" "n < wn_n w"
  shows "(\<Union>oh \<in> {0..<wn_out_h w}. \<Union>ow \<in> {0..<wn_out_w w}. \<Union>oc \<in> {0..<wn_out_c w}.
    {(y + nat (out_pos w n oh ow oc), word_of_int (val n oh ow oc) :: u8)}) \<subseteq> out_codes w y val"
  by (rule UN_least, rule codes_row_subset [OF assms]) (simp_all only: atLeastLessThan_iff)

lemma subset_fills:
  assumes "window_ok w" and "S \<subseteq> out_codes w y val"
  shows "single_valued S" "fst ` S \<subseteq> out_region w y"
  by (rule single_valued_subset [OF assms(2) out_codes_single_valued [OF assms(1)]])
    (rule order.trans [OF image_mono [OF assms(2)] out_codes_inside [OF assms(1)]])

text \<open>Any loop over the pixels whose body fills a pixel fills the output.\<close>

lemma fills_image:
  assumes ok: "window_ok w"
    and row: "\<And>n oh. 0 \<le> n \<Longrightarrow> n < wn_n w \<Longrightarrow> 0 \<le> oh \<Longrightarrow> oh < wn_out_h w \<Longrightarrow> fills (out_region w y) h0 (f n oh)
      (\<Union>ow \<in> {0..<wn_out_w w}. \<Union>oc \<in> {0..<wn_out_c w}. {(y + nat (out_pos w n oh ow oc), word_of_int (val n oh ow oc))})"
  shows "fills (out_region w y) h0 (for_int 0 (wn_n w) (\<lambda>n. for_int 0 (wn_out_h w) (f n))) (out_codes w y val)"
  unfolding out_codes_def
proof (rule fills_for_int, goal_cases)
  case (2 n)
  show ?case
  proof (rule fills_for_int, goal_cases)
    case (2 oh)
    show ?case by (rule row [OF \<open>0 \<le> n\<close> \<open>n < wn_n w\<close> 2])
  next
    case (3 oh)
    show ?case by (rule subset_fills(2) [OF ok codes_row_subset [OF 2 3]])
  next
    case 4
    show ?case by (rule subset_fills(1) [OF ok codes_image_subset [OF 2]])
  qed simp
next
  case (3 n)
  show ?case by (rule subset_fills(2) [OF ok codes_image_subset [OF 3]])
next
  case 4
  show ?case by (rule out_codes_single_valued [OF ok, unfolded out_codes_def])
qed simp

lemma fills_row:
  assumes ok: "window_ok w" and n: "0 \<le> n" "n < wn_n w" and oh: "0 \<le> oh" "oh < wn_out_h w"
    and pixel: "\<And>ow. 0 \<le> ow \<Longrightarrow> ow < wn_out_w w \<Longrightarrow> fills (out_region w y) h0 (f ow)
      (\<Union>oc \<in> {0..<wn_out_c w}. {(y + nat (out_pos w n oh ow oc), word_of_int (val n oh ow oc))})"
  shows "fills (out_region w y) h0 (for_int 0 (wn_out_w w) f)
    (\<Union>ow \<in> {0..<wn_out_w w}. \<Union>oc \<in> {0..<wn_out_c w}. {(y + nat (out_pos w n oh ow oc), word_of_int (val n oh ow oc))})"
proof (rule fills_for_int, goal_cases)
  case (2 ow)
  show ?case by (rule pixel [OF 2])
next
  case (3 ow)
  show ?case by (rule subset_fills(2) [OF ok codes_subset [OF n oh 3]])
next
  case 4
  show ?case by (rule subset_fills(1) [OF ok codes_row_subset [OF n oh]])
qed simp

lemma fills_pixels:
  assumes ok: "window_ok w" and y: "y \<noteq> 0"
    and chan: "\<And>n oh ow oc h. 0 \<le> n \<Longrightarrow> n < wn_n w \<Longrightarrow> 0 \<le> oh \<Longrightarrow> oh < wn_out_h w \<Longrightarrow> 0 \<le> ow \<Longrightarrow> ow < wn_out_w w \<Longrightarrow>
      0 \<le> oc \<Longrightarrow> oc < wn_out_c w \<Longrightarrow> (\<And>a. a \<notin> out_region w y \<Longrightarrow> h a = h0 a) \<Longrightarrow>
      chan n oh ow oc h = put_code h y (out_pos w n oh ow oc) (val n oh ow oc)"
  shows "fills (out_region w y) h0 (for_int 0 (wn_n w) (\<lambda>n. for_int 0 (wn_out_h w) (\<lambda>oh. for_int 0 (wn_out_w w) (\<lambda>ow.
    for_int 0 (wn_out_c w) (chan n oh ow))))) (out_codes w y val)"
  by (intro fills_image [OF ok] fills_row [OF ok] fills_channels [OF ok y] chan)

lemma wp_window_pixels:
  assumes ok: "window_ok w" and y: "y \<noteq> 0"
    and chan: "\<And>n oh ow rows cols oc h. 0 \<le> n \<Longrightarrow> n < wn_n w \<Longrightarrow> 0 \<le> oh \<Longrightarrow> oh < wn_out_h w \<Longrightarrow> 0 \<le> ow \<Longrightarrow> ow < wn_out_w w \<Longrightarrow>
      row_taps w oh rows \<Longrightarrow> col_taps w ow cols \<Longrightarrow> 0 \<le> oc \<Longrightarrow> oc < wn_out_c w \<Longrightarrow> (\<And>a. a \<notin> out_region w y \<Longrightarrow> h a = h0 a) \<Longrightarrow>
      chan n (oh + wn_out_row_start w) ow rows cols oc h = put_code h y (out_pos w n oh ow oc) (val n oh ow oc)"
  shows "wp (window_pixels w (\<lambda>n oh_g rows ow cols. for_int 0 (wn_out_c w) (chan n oh_g ow rows cols)) h0) (computes w y val h0)"
proof (rule computes_fills [OF _ ok])
  let ?D = "out_region w y" and ?all = "out_codes w y val"
  let ?px = "\<lambda>n oh ow. \<Union>oc \<in> {0..<wn_out_c w}. {(y + nat (out_pos w n oh ow oc), word_of_int (val n oh ow oc) :: u8)}"
  have pixel: "fills ?D h0 (window_col w (\<lambda>ow cols. for_int 0 (wn_out_c w) (chan n (oh + wn_out_row_start w) ow rows cols)) ow) (?px n oh ow)"
    if n: "0 \<le> n" "n < wn_n w" and oh: "0 \<le> oh" "oh < wn_out_h w" and r: "row_taps w oh rows" and ow: "0 \<le> ow" "ow < wn_out_w w"
    for n oh rows ow
  proof -
    obtain lo hi where c: "col_taps w ow (col_base w ow, lo, hi)" "i32 (ow * uint (wn_stride_w w)) = Some (ow * uint (wn_stride_w w))"
      "i32 (ow * uint (wn_stride_w w) - uint (wn_pad_left w)) = Some (col_base w ow)"
      "tap_range (col_base w ow) (wn_in_w w) (uint (wn_kernel_w w)) (uint (wn_dilation_w w)) = Some (lo, hi)"
      using col_computed [OF ok ow] by blast
    have "window_col w (\<lambda>ow cols. for_int 0 (wn_out_c w) (chan n (oh + wn_out_row_start w) ow rows cols)) ow =
        for_int 0 (wn_out_c w) (chan n (oh + wn_out_row_start w) ow rows (col_base w ow, lo, hi))"
      by (simp only: fun_eq_iff window_col_def c(2-4) Option.bind.bind_lunit prod.case simp_thms)
    moreover have "fills ?D h0 (for_int 0 (wn_out_c w) (chan n (oh + wn_out_row_start w) ow rows (col_base w ow, lo, hi))) (?px n oh ow)"
      by (rule fills_channels [OF ok y n oh ow]) (rule chan [OF n oh ow r c(1)])
    ultimately show ?thesis by simp
  qed
  let ?pixel = "\<lambda>n oh_g rows ow cols. for_int 0 (wn_out_c w) (chan n oh_g ow rows cols)"
  have row: "fills ?D h0 (window_row w (?pixel n) oh) (\<Union>ow \<in> {0..<wn_out_w w}. ?px n oh ow)"
    if n: "0 \<le> n" "n < wn_n w" and oh: "0 \<le> oh" "oh < wn_out_h w" for n oh
  proof -
    obtain lo hi where r: "row_taps w oh (row_base w oh, lo, hi)" "i32 (oh + wn_out_row_start w) = Some (oh + wn_out_row_start w)"
      "i32 ((oh + wn_out_row_start w) * uint (wn_stride_h w)) = Some ((oh + wn_out_row_start w) * uint (wn_stride_h w))"
      "i32 ((oh + wn_out_row_start w) * uint (wn_stride_h w) - uint (wn_pad_top w)) = Some ((oh + wn_out_row_start w) * uint (wn_stride_h w) - uint (wn_pad_top w))"
      "i32 ((oh + wn_out_row_start w) * uint (wn_stride_h w) - uint (wn_pad_top w) - wn_in_row_start w) = Some (row_base w oh)"
      "tap_range (row_base w oh) (wn_in_h w) (uint (wn_kernel_h w)) (uint (wn_dilation_h w)) = Some (lo, hi)"
      using row_computed [OF ok oh] by blast
    have "window_row w (?pixel n) oh = for_int 0 (wn_out_w w) (window_col w (?pixel n (oh + wn_out_row_start w) (row_base w oh, lo, hi)))"
      by (simp only: fun_eq_iff window_row_def r(2-6) Option.bind.bind_lunit prod.case simp_thms)
    moreover have "fills ?D h0 (for_int 0 (wn_out_w w) (window_col w (?pixel n (oh + wn_out_row_start w) (row_base w oh, lo, hi))))
        (\<Union>ow \<in> {0..<wn_out_w w}. ?px n oh ow)"
      by (rule fills_row [OF ok n oh]) (rule pixel [OF n oh r(1)])
    ultimately show ?thesis by simp
  qed
  show "fills ?D h0 (window_pixels w ?pixel) ?all"
    unfolding window_pixels_def by (rule fills_image [OF ok]) (rule row)
qed

end
