(* ===== verification/Conv_Transpose_S8.thy ===== *)
theory Conv_Transpose_S8
  imports Conv_S8
begin

text \<open>
  The int8 transposed convolution. The kernel gathers: for every output position it looks for the
  input positions a forward scatter would have come from. Here it is shown to be that scatter.
\<close>

section \<open>The lattice of the stride\<close>

definition lattice :: "int \<Rightarrow> int \<Rightarrow> int \<Rightarrow> int option" where
  "lattice num_pos stride extent = (if stride dvd num_pos \<and> 0 \<le> num_pos div stride \<and> num_pos div stride < extent
     then Some (num_pos div stride) else None)"

lemma lattice_Some: "0 < stride \<Longrightarrow> (lattice p stride extent = Some i) = (p = i * stride \<and> 0 \<le> i \<and> i < extent)"
  by (auto simp: lattice_def split: if_splits)

lemma sdiv_exact:
  assumes "0 < (s :: int)"
  shows "(s * k) sdiv s = k"
proof -
  have "\<bar>s * k\<bar> div s = \<bar>k\<bar>" using assms by (simp add: abs_mult)
  then show ?thesis using assms by (simp add: signed_divide_int_def sgn_mult sgn_mult_abs)
qed

lemma smod_dvd: "0 < (s :: int) \<Longrightarrow> (a smod s = 0) = (s dvd a)"
  by (auto simp: signed_modulo_int_def mod_eq_0_iff_dvd sgn_eq_0_iff)

lemma lattice_position_in:
  assumes "0 \<le> p" "p < 1073741824" "0 \<le> pad" "pad < 65536" "0 \<le> k" "k < 256" "0 < stride" "stride < 256"
  shows "lattice_position p pad k stride extent = Some (lattice (p + pad - k) stride extent)"
proof -
  have "i32 (p + pad) = Some (p + pad)" "i32 (p + pad - k) = Some (p + pad - k)"
    by (rule i32_in; use assms in linarith)+
  moreover have "sdiv32 (p + pad - k) stride = Some ((p + pad - k) div stride)" if d: "stride dvd p + pad - k"
  proof -
    obtain q where q: "p + pad - k = stride * q" using d by blast
    have "\<bar>q\<bar> \<le> \<bar>stride * q\<bar>" using assms(7) mult_le_pos [of "\<bar>q\<bar>" stride] by (simp add: abs_mult mult.commute)
    then have "i32 q = Some q" by (intro i32_in) (use q assms in linarith)+
    then show ?thesis using assms(7) by (simp add: sdiv32_def sdiv_exact q)
  qed
  ultimately show ?thesis
    using assms(7) by (auto simp: lattice_position_def lattice_def smod_dvd not_less simp del: i32_Some)
qed

text \<open>One term per input position the tap comes from.\<close>

lemma sum_lattice:
  assumes "0 < stride"
  shows "(\<Sum>i \<in> {0..<extent}. if i * stride = p then f i else 0) = (case lattice p stride extent of None \<Rightarrow> 0 | Some i \<Rightarrow> f i)"
proof (cases "lattice p stride extent")
  case None
  then have "i * stride \<noteq> p" if "i \<in> {0..<extent}" for i
    using lattice_Some [OF assms, of p extent i] that by auto
  then show ?thesis using None by simp
next
  case (Some j)
  then have j: "p = j * stride" "j \<in> {0..<extent}" using lattice_Some [OF assms] by auto
  have "(i * stride = p) = (i = j)" for i using assms j(1) by simp
  then show ?thesis using Some j(2) by (simp add: sum.delta)
qed

section \<open>The scatter\<close>

text \<open>Every tap of every input position is added at the output position \<open>ih*SH + kh - PT\<close>,
  \<open>iw*SW + kw - PL\<close>.\<close>

definition scatter_sum :: "window \<Rightarrow> int \<Rightarrow> int \<Rightarrow> (int \<Rightarrow> int \<Rightarrow> int \<Rightarrow> int \<Rightarrow> int) \<Rightarrow> int" where
  "scatter_sum w oh ow v = (\<Sum>kh \<in> {0..<kernel_rows w}. \<Sum>kw \<in> {0..<kernel_cols w}.
     \<Sum>ih \<in> {0..<wn_in_h w}. \<Sum>iw \<in> {0..<wn_in_w w}.
       if ih * uint (wn_stride_h w) + kh - uint (wn_pad_top w) = oh \<and> iw * uint (wn_stride_w w) + kw - uint (wn_pad_left w) = ow
       then v ih iw kh kw else 0)"

definition conv_transpose_code ::
  "tigris_plan \<Rightarrow> tigris_op \<Rightarrow> s8_operands \<Rightarrow> window \<Rightarrow> ram \<Rightarrow> int \<Rightarrow> int \<Rightarrow> int \<Rightarrow> int \<Rightarrow> int" where
  "conv_transpose_code pl oper so w h n oh ow oc =
     mac_code pl oper so oc (scatter_sum w oh ow (conv2d_products pl so w h n oc))"

definition conv_transpose_ready :: "tigris_plan \<Rightarrow> tigris_op \<Rightarrow> mem \<Rightarrow> s8_operands \<Rightarrow> window \<Rightarrow> bool" where
  "conv_transpose_ready pl oper m so w = (conv2d_ready pl oper m so w \<and> wn_out_row_start w = 0 \<and>
     wn_stride_h w \<noteq> 0 \<and> wn_stride_w w \<noteq> 0 \<and> wn_out_h w < 1073741824 \<and> wn_out_w w < 1073741824)"

lemma scatter_sum_gather:
  assumes "0 < uint (wn_stride_h w)" and "0 < uint (wn_stride_w w)"
  shows "scatter_sum w oh ow v = (\<Sum>kh \<in> {0..<kernel_rows w}.
     case lattice (oh + uint (wn_pad_top w) - kh) (uint (wn_stride_h w)) (wn_in_h w) of None \<Rightarrow> 0 | Some ih \<Rightarrow>
       (\<Sum>kw \<in> {0..<kernel_cols w}. case lattice (ow + uint (wn_pad_left w) - kw) (uint (wn_stride_w w)) (wn_in_w w) of
         None \<Rightarrow> 0 | Some iw \<Rightarrow> v ih iw kh kw))"
proof -
  have cond: "(if ih * uint (wn_stride_h w) + kh - uint (wn_pad_top w) = oh \<and> iw * uint (wn_stride_w w) + kw - uint (wn_pad_left w) = ow
       then v ih iw kh kw else 0) =
     (if ih * uint (wn_stride_h w) = oh + uint (wn_pad_top w) - kh
      then if iw * uint (wn_stride_w w) = ow + uint (wn_pad_left w) - kw then v ih iw kh kw else 0 else 0)" for ih iw kh kw
    by auto
  have inner: "(\<Sum>iw \<in> {0..<wn_in_w w}. if c then f iw else 0) = (if c then \<Sum>iw \<in> {0..<wn_in_w w}. f iw else 0)"
    for c and f :: "int \<Rightarrow> int" by simp
  have "(\<Sum>kw \<in> K. case p of None \<Rightarrow> 0 | Some ih \<Rightarrow> g ih kw) = (case p of None \<Rightarrow> 0 | Some ih \<Rightarrow> \<Sum>kw \<in> K. g ih kw)"
    for K and p :: "int option" and g :: "int \<Rightarrow> int \<Rightarrow> int" by (cases p) simp_all
  then show ?thesis
    unfolding scatter_sum_def cond inner sum_lattice [OF assms(2)] sum_lattice [OF assms(1)] by simp
qed

lemma adds_conv_transpose:
  assumes ok: "window_ok w" "operands_ok pl so w (wn_out_c w * kernel_rows w * kernel_cols w * wn_in_c w) macs"
    and w: "wn_stride_h w \<noteq> 0" "wn_stride_w w \<noteq> 0" "wn_out_h w < 1073741824" "wn_out_w w < 1073741824"
    and n: "0 \<le> n" "n < wn_n w" and oh: "0 \<le> oh" "oh < wn_out_h w" and ow: "0 \<le> ow" "ow < wn_out_w w" and oc: "0 \<le> oc" "oc < wn_out_c w"
    and frame: "\<And>a. a \<notin> out_region w (so_y so) \<Longrightarrow> h a = h0 a"
  shows "adds (conv_transpose_taps pl so w h n oh ow oc) (scatter_sum w oh ow (conv2d_products pl so w h0 n oc))
    (kernel_rows w * (kernel_cols w * (wn_in_c w * 32640)))"
proof -
  have stride: "0 < uint (wn_stride_h w)" "0 < uint (wn_stride_w w)" "uint (wn_stride_h w) < 256" "uint (wn_stride_w w) < 256"
    using w(1, 2) uint_small(2) by (simp_all add: order.strict_iff_order [of 0] uint_0_iff)
  have ic: "0 \<le> wn_in_c w * 32640" using window_okD(8) [OF ok(1)] by simp
  have K: "kernel_rows w < 256" "kernel_cols w < 256" by (rule uint_small)+
  have pads: "0 \<le> uint (wn_pad_top w)" "uint (wn_pad_top w) < 65536" "0 \<le> uint (wn_pad_left w)" "uint (wn_pad_left w) < 65536"
    by (rule uint_small)+
  have cols: "adds (for_int 0 (kernel_cols w) (\<lambda>kw acc. do {
       col_pos \<leftarrow> lattice_position ow (uint (wn_pad_left w)) kw (uint (wn_stride_w w)) (wn_in_w w);
       (case col_pos of None \<Rightarrow> Some acc | Some iw \<Rightarrow> conv2d_tap pl so w h n oc ih iw kh kw acc) }))
     (\<Sum>kw \<in> {0..<kernel_cols w}. case lattice (ow + uint (wn_pad_left w) - kw) (uint (wn_stride_w w)) (wn_in_w w) of
         None \<Rightarrow> 0 | Some iw \<Rightarrow> conv2d_products pl so w h0 n oc ih iw kh kw) (max 0 (kernel_cols w - 0) * (wn_in_c w * 32640))"
    if ih: "0 \<le> ih" "ih < wn_in_h w" and kh: "0 \<le> kh" "kh < kernel_rows w" for ih kh
  proof (rule adds_for_int [OF order.refl _ ic])
    fix kw assume kw: "0 \<le> kw" "kw < kernel_cols w"
    have "ow < 1073741824" "kw < 256" using ow w(4) kw K by linarith+
    then have pos: "lattice_position ow (uint (wn_pad_left w)) kw (uint (wn_stride_w w)) (wn_in_w w) =
        Some (lattice (ow + uint (wn_pad_left w) - kw) (uint (wn_stride_w w)) (wn_in_w w))"
      using ow(1) kw(1) pads(3, 4) stride(2, 4) by (intro lattice_position_in)
    show "adds (\<lambda>acc. do {
         col_pos \<leftarrow> lattice_position ow (uint (wn_pad_left w)) kw (uint (wn_stride_w w)) (wn_in_w w);
         (case col_pos of None \<Rightarrow> Some acc | Some iw \<Rightarrow> conv2d_tap pl so w h n oc ih iw kh kw acc) })
       (case lattice (ow + uint (wn_pad_left w) - kw) (uint (wn_stride_w w)) (wn_in_w w) of
         None \<Rightarrow> 0 | Some iw \<Rightarrow> conv2d_products pl so w h0 n oc ih iw kh kw) (wn_in_c w * 32640)"
    proof (cases "lattice (ow + uint (wn_pad_left w) - kw) (uint (wn_stride_w w)) (wn_in_w w)")
      case None
      then show ?thesis using adds_skip [OF ic] by (simp add: pos)
    next
      case (Some iw)
      then have "0 \<le> iw" "iw < wn_in_w w" using lattice_Some [OF stride(2)] by auto
      then have "adds (conv2d_tap pl so w h n oc ih iw kh kw) (conv2d_products pl so w h0 n oc ih iw kh kw) (wn_in_c w * 32640)"
        by (intro adds_conv2d_tap [OF ok n oc ih _ _ kh kw]) (simp_all add: frame)
      then show ?thesis using Some by (simp add: pos)
    qed
  qed
  have ck: "0 \<le> kernel_cols w * (wn_in_c w * 32640)" using ic by simp
  have "adds (conv_transpose_taps pl so w h n oh ow oc) (scatter_sum w oh ow (conv2d_products pl so w h0 n oc))
    (max 0 (kernel_rows w - 0) * (kernel_cols w * (wn_in_c w * 32640)))"
    unfolding conv_transpose_taps_def scatter_sum_gather [OF stride(1, 2)]
  proof (rule adds_for_int [OF order.refl _ ck])
    fix kh assume kh: "0 \<le> kh" "kh < kernel_rows w"
    have "oh < 1073741824" "kh < 256" using oh w(3) kh K by linarith+
    then have pos: "lattice_position oh (uint (wn_pad_top w)) kh (uint (wn_stride_h w)) (wn_in_h w) =
        Some (lattice (oh + uint (wn_pad_top w) - kh) (uint (wn_stride_h w)) (wn_in_h w))"
      using oh(1) kh(1) pads(1, 2) stride(1, 3) by (intro lattice_position_in)
    show "adds (\<lambda>acc. do {
         row_pos \<leftarrow> lattice_position oh (uint (wn_pad_top w)) kh (uint (wn_stride_h w)) (wn_in_h w);
         (case row_pos of None \<Rightarrow> Some acc | Some ih \<Rightarrow>
           for_int 0 (kernel_cols w) (\<lambda>kw acc. do {
             col_pos \<leftarrow> lattice_position ow (uint (wn_pad_left w)) kw (uint (wn_stride_w w)) (wn_in_w w);
             (case col_pos of None \<Rightarrow> Some acc | Some iw \<Rightarrow> conv2d_tap pl so w h n oc ih iw kh kw acc) }) acc) })
       (case lattice (oh + uint (wn_pad_top w) - kh) (uint (wn_stride_h w)) (wn_in_h w) of None \<Rightarrow> 0 | Some ih \<Rightarrow>
         (\<Sum>kw \<in> {0..<kernel_cols w}. case lattice (ow + uint (wn_pad_left w) - kw) (uint (wn_stride_w w)) (wn_in_w w) of
           None \<Rightarrow> 0 | Some iw \<Rightarrow> conv2d_products pl so w h0 n oc ih iw kh kw)) (kernel_cols w * (wn_in_c w * 32640))"
    proof (cases "lattice (oh + uint (wn_pad_top w) - kh) (uint (wn_stride_h w)) (wn_in_h w)")
      case None
      then show ?thesis using adds_skip [OF ck] by (simp add: pos)
    next
      case (Some ih)
      then have "0 \<le> ih" "ih < wn_in_h w" using lattice_Some [OF stride(1)] by auto
      from cols [OF this kh] show ?thesis using Some by (simp add: pos max_def)
    qed
  qed
  then show ?thesis by (simp add: max_def)
qed

end
