(* ===== verification/Conv_Properties.thy ===== *)
theory Conv_Properties
  imports Conv_Transpose_S8
begin

text \<open>
  What the int8 convolutions of \<open>src/tigris_kernels_s8.c\<close> compute, and a small operator the theorems are
  applied to: two by two codes, a two by two kernel with weights 1 to 4, a pad of one row and column,
  requantization by 1.
\<close>

section \<open>A small operator\<close>

definition small_tensor :: tigris_tensor where
  "small_tensor = \<lparr> tn_name_str = 0, tn_size_bytes = 4, tn_shape_off = 0, tn_ndim = 4, tn_dtype = 3,
     tn_flags = 0, tn_quant_param_idx = 0, tn_iface_dtype = 0 \<rparr>"

definition small_op :: tigris_op where
  "small_op = \<lparr> op_name_str = 0, op_op_type = 0, op_num_inputs = 1, op_num_outputs = 1, op_stage = 0,
     op_inputs_off = 0, op_outputs_off = 1,
     op_spatial = \<lparr> sp_kernel_h = 2, sp_kernel_w = 2, sp_stride_h = 1, sp_stride_w = 1, sp_pad_top = 1,
       sp_pad_bottom = 0, sp_pad_left = 1, sp_pad_right = 0, sp_dilation_h = 0, sp_dilation_w = 0,
       sp_group = 1 \<rparr>,
     op_weight_idx = 0, op_bias_idx = NONE_U16, op_fused_act = 0, op_act_min = -128, op_act_max = 127,
     op_pad1 = 0 \<rparr>"

definition small_weights :: weight_entry where
  "small_weights = \<lparr> we_name_str = 0, we_offset = 0, we_size_bytes = 4 \<rparr>"

definition small_quant :: quant_param where
  "small_quant = \<lparr> qp_scale = 0, qp_zero_point = 0, qp_num_channels = 1, qp_multiplier_off = 0, qp_shift_off = 1,
     qp_page = 0 \<rparr>"

definition small_plan :: tigris_plan where
  "small_plan = (empty_plan (wr_tigris_tensor small_tensor @ wr_tigris_tensor small_tensor @ wr_weight_entry small_weights @
       wr_quant_param small_quant @ wr16 0 @ wr16 1 @ wri32 1 @ wri32 2 @ wri32 2 @ wri32 1 @
       wri32 1073741824 @ wri32 1 @ [1, 2, 3, 4]))
     \<lparr> p_tensors := Some 0, p_weight_entries := Some 32, p_quant_params := Some 44, p_num_quant_params := 1,
       p_index_pool := Some 60, p_shape_pool := Some 64, p_quant_data := Some 80, p_weight_blob := Some 88 \<rparr>"

definition small_mem :: mem where
  "small_mem = \<lparr> tensor_ptrs = [8192, 8224], num_tensors = 2, fast_base = 4096, fast_size = 64,
     fast_used = 0, fast_reserved = 0, fast_peak = 0, slow_base = 8192, slow_size = 128,
     slow_used = 64, slow_peak = 64, stats = None, tile = tile_ctx_zero \<rparr>"

definition small_operands :: s8_operands where
  "small_operands = \<lparr> so_x = 8192, so_y = 8224, so_w = Some 88, so_b = None, so_input_zp = 0, so_output_zp = 0,
     so_rq = requant_resolve small_plan (Some small_quant) \<rparr>"

definition small_window :: window where
  "small_window = \<lparr> wn_n = 1, wn_in_h = 2, wn_in_w = 2, wn_in_c = 1, wn_out_h = 2, wn_out_w = 2, wn_out_c = 1,
     wn_kernel_h = 2, wn_kernel_w = 2, wn_stride_h = 1, wn_stride_w = 1, wn_pad_top = 1, wn_pad_left = 1,
     wn_dilation_h = 1, wn_dilation_w = 1, wn_out_row_start = 0, wn_in_row_start = 0 \<rparr>"

lemma small_lengths:
  "length (wr_tigris_tensor small_tensor) = 16" "length (wr_weight_entry small_weights) = 12" "length (wr_quant_param small_quant) = 16"
  by (simp_all add: tigris_tensor_table.length_wr_record weight_entry_table.length_wr_record
      quant_param_table.length_wr_record small_quant_def is_i32_def)

lemma small_reads:
  "plan_tensor small_plan 0 = Some small_tensor" "plan_tensor small_plan 1 = Some small_tensor"
  "plan_weight_entry small_plan 0 = Some small_weights" "plan_quant_param small_plan 0 = Some small_quant"
  "plan_index small_plan 0 = Some 0" "plan_index small_plan 1 = Some 1"
  "plan_shape small_plan 0 = Some 1" "plan_shape small_plan 1 = Some 2"
  "plan_shape small_plan 2 = Some 2" "plan_shape small_plan 3 = Some 1"
  "plan_quant_data small_plan 0 = Some 1073741824" "plan_quant_data small_plan 1 = Some 1"
  "drop 88 (p_buf small_plan) = [1, 2, 3, 4]" "length (p_buf small_plan) = 92"
proof -
  note defs = small_plan_def empty_plan_def small_lengths
  let ?t = "wr_tigris_tensor small_tensor" and ?w = "wr_weight_entry small_weights"
  show "plan_tensor small_plan 0 = Some small_tensor"
    using tigris_tensor_table.rd_wr_record [where r = small_tensor and xs = "[]"] by (simp add: plan_tensor_def defs)
  show "plan_tensor small_plan 1 = Some small_tensor"
    using tigris_tensor_table.rd_wr_record [where r = small_tensor and xs = ?t] by (simp add: plan_tensor_def defs)
  show "plan_weight_entry small_plan 0 = Some small_weights"
    using weight_entry_table.rd_wr_record [where r = small_weights and xs = "?t @ ?t"] by (simp add: plan_weight_entry_def defs)
  show "plan_quant_param small_plan 0 = Some small_quant"
    using quant_param_table.rd_wr_record [where r = small_quant and xs = "?t @ ?t @ ?w"]
    by (simp add: plan_quant_param_def defs) (simp add: small_quant_def)
  show "plan_index small_plan 0 = Some 0" "plan_index small_plan 1 = Some 1"
    "plan_shape small_plan 0 = Some 1" "plan_shape small_plan 1 = Some 2"
    "plan_shape small_plan 2 = Some 2" "plan_shape small_plan 3 = Some 1"
    "plan_quant_data small_plan 0 = Some 1073741824" "plan_quant_data small_plan 1 = Some 1"
    by (simp_all add: plan_index_def plan_shape_def plan_quant_data_def defs rd_wr)
  show "drop 88 (p_buf small_plan) = [1, 2, 3, 4]" "length (p_buf small_plan) = 92"
    by (simp_all add: defs rd_wr wr16_def)
qed

lemma small_tables:
  "p_weight_entries small_plan = Some 32" "p_quant_params small_plan = Some 44" "p_weight_blob small_plan = Some 88"
  by (simp_all add: small_plan_def)

lemma small_operands_of: "s8_operands_of small_plan small_op small_mem = Some small_operands"
proof -
  have "tigris_op_inputs small_plan small_op 0 = Some 0" "tigris_op_outputs small_plan small_op 0 = Some 1"
    by (simp_all add: tigris_op_inputs_def tigris_op_outputs_def small_op_def small_reads small_reads(6) [simplified])
  moreover have "tigris_op_weight small_plan small_op = Some (Some 88)" "tigris_op_bias small_plan small_op = Some None"
    by (simp_all add: tigris_op_weight_def tigris_op_bias_def weight_at_def small_op_def small_tables
        small_reads tigris_weight_data_def small_weights_def)
  moreover have "tigris_tensor_quant small_plan small_tensor = Some (Some small_quant)"
    by (simp add: tigris_tensor_quant_def small_tensor_def small_tables small_reads)
  moreover have "tigris_mem_tensor_ptr (Some small_mem) 0 = Some 8192" "tigris_mem_tensor_ptr (Some small_mem) 1 = Some 8224"
    by (simp_all add: tigris_mem_tensor_ptr_def small_mem_def word_le_nat_alt)
  moreover have "zero_point (Some small_quant) = 0" by (simp add: zero_point_def small_quant_def)
  ultimately show ?thesis
    by (simp add: s8_operands_of_def small_reads small_reads(2) [simplified] small_operands_def)
qed

lemma small_window_of: "tigris_window small_plan small_op small_mem = Some small_window"
proof -
  have "tigris_op_inputs small_plan small_op 0 = Some 0" "tigris_op_outputs small_plan small_op 0 = Some 1"
    by (simp_all add: tigris_op_inputs_def tigris_op_outputs_def small_op_def small_reads small_reads(6) [simplified])
  moreover have "tigris_tensor_shape small_plan small_tensor 0 = Some 1" "tigris_tensor_shape small_plan small_tensor 1 = Some 2"
    "tigris_tensor_shape small_plan small_tensor 2 = Some 2" "tigris_tensor_shape small_plan small_tensor 3 = Some 1"
    by (simp_all add: tigris_tensor_shape_def small_tensor_def small_reads small_reads(8) [simplified]
        small_reads(9, 10) [unfolded numeral_3_eq_3 numeral_2_eq_2])
  ultimately show ?thesis
    by (simp add: tigris_window_def small_reads small_reads(2) [simplified] small_mem_def tile_ctx_zero_def)
      (simp add: small_op_def small_window_def)
qed

lemma small_window_ok: "window_ok small_window"
  by (simp add: window_ok_def small_window_def)

lemma small_scale: "channel_scale (so_rq small_operands) oc = Some (1073741824, 1)"
  by (simp add: channel_scale_def small_operands_def requant_resolve_def tigris_quant_multipliers_def
      tigris_quant_shifts_def tigris_quant_page_start_def small_quant_def small_reads small_reads(12) [simplified])

lemma small_operands_ok: "operands_ok small_plan small_operands small_window 4 4"
proof -
  have "channel_ok small_plan small_operands 4 oc" for oc
    unfolding channel_ok_def small_scale by (simp add: bias_code_def small_operands_def)
  then show ?thesis
    by (auto simp: operands_ok_def small_reads) (auto simp: small_operands_def small_window_def out_region_def is_i8_def)
qed

lemma small_ready:
  "conv2d_ready small_plan small_op small_mem small_operands small_window"
  "depthwise_ready small_plan small_op small_mem small_operands small_window 1"
  "conv_transpose_ready small_plan small_op small_mem small_operands small_window"
proof -
  have parts: "wn_out_c small_window = 1" "wn_in_c small_window = 1" "kernel_rows small_window = 2" "kernel_cols small_window = 2"
    by (simp_all add: small_window_def)
  show conv: "conv2d_ready small_plan small_op small_mem small_operands small_window"
    by (simp add: conv2d_ready_def small_operands_of small_window_of small_window_ok parts small_operands_ok)
  show "depthwise_ready small_plan small_op small_mem small_operands small_window 1"
    by (simp add: depthwise_ready_def small_operands_of small_window_of small_window_ok parts small_operands_ok)
  show "conv_transpose_ready small_plan small_op small_mem small_operands small_window"
    unfolding conv_transpose_ready_def by (intro conjI conv) (simp_all add: small_window_def)
qed

section \<open>What the kernels compute on it\<close>

lemma sum_two: "(\<Sum>k \<in> {0..<2 :: int}. f k) = f 0 + (f 1 :: int)"
proof -
  have "{0..<2 :: int} = {0, 1}" by auto
  then show ?thesis by (simp only: sum.insert_if finite.emptyI finite_insert sum.empty) simp
qed

lemma sum_one: "(\<Sum>k \<in> {0..<1 :: int}. f k) = (f 0 :: int)"
proof -
  have "{0..<1 :: int} = {0}" by auto
  then show ?thesis by (simp only: sum.insert_if finite.emptyI finite_insert sum.empty) simp
qed

lemma small_weight: "weight8 small_plan small_operands 0 = 1" "weight8 small_plan small_operands 1 = 2"
  "weight8 small_plan small_operands 2 = 3" "weight8 small_plan small_operands 3 = 4"
proof -
  have "p_buf small_plan ! (88 + k) = [1, 2, 3, 4] ! k" if "k < 4" for k
    unfolding small_reads(13) [symmetric] using that small_reads(14) by (simp add: nth_drop)
  from this [of 0] this [of 1] this [of 2] this [of 3]
  show "weight8 small_plan small_operands 0 = 1" "weight8 small_plan small_operands 1 = 2"
    "weight8 small_plan small_operands 2 = 3" "weight8 small_plan small_operands 3 = 4"
    by (simp_all add: weight8_def small_operands_def)
qed

lemma small_mac: "mac_code small_plan small_op small_operands oc msum = clamp_act (rescaled (1073741824, 1) msum) (- 128) 127"
  by (simp add: mac_code_def small_scale) (simp add: small_operands_def bias_code_def small_op_def)

text \<open>Input code \<open>k\<close> is \<open>k\<close>.\<close>

abbreviation small_ram :: ram where "small_ram \<equiv> \<lambda>a. word_of_nat (a mod 8192)"

lemma small_input:
  "input8 small_operands small_ram 0 = 0" "input8 small_operands small_ram 1 = 1"
  "input8 small_operands small_ram 2 = 2" "input8 small_operands small_ram 3 = 3"
  by (simp_all add: input8_def small_operands_def)

lemma small_computes:
  assumes "computes small_window (so_y small_operands) val h h'" and "val 0 1 1 0 = v"
  shows "h' 8227 = word_of_int v"
  using assms(1) [unfolded computes_def, THEN conjunct1, rule_format, of 0 1 1 0] assms(2)
  by (simp add: small_window_def small_operands_def out_pos_def pos4_def)

lemma small_sizes:
  "uint (wn_kernel_h small_window) = 2" "uint (wn_kernel_w small_window) = 2" "wn_in_c small_window = 1"
  "wn_in_h small_window = 2" "wn_in_w small_window = 2" "uint (wn_dilation_h small_window) = 1"
  "uint (wn_dilation_w small_window) = 1" "uint (wn_stride_h small_window) = 1" "uint (wn_stride_w small_window) = 1"
  "uint (wn_pad_top small_window) = 1" "uint (wn_pad_left small_window) = 1" "wn_out_c small_window = 1"
  "row_base small_window 1 = 0" "col_base small_window 1 = 0"
  by (simp_all add: small_window_def row_base_def col_base_def)

section \<open>Properties\<close>

text \<open>C7. The int8 convolution is a convolution. For sizes within 32 bits and channels whose accumulator
  cannot overflow, \<open>kern_conv2d_s8\<close> has no undefined behaviour and writes at every output position the
  requantized bias plus the sum, over the whole window and every input channel, of weight times input less
  its zero point, the padding adding nothing: for any stride, dilation, pad and tile. No byte outside the
  output's rows changes.\<close>

theorem conv2d_computes:
  assumes "conv2d_ready pl oper m so w"
  shows "wp (kern_conv2d_s8 pl oper m h) (computes w (so_y so) (conv2d_code pl oper so w h) h)"
proof -
  have r: "s8_operands_of pl oper m = Some so" "tigris_window pl oper m = Some w" "window_ok w"
    and ok: "operands_ok pl so w (wn_out_c w * kernel_rows w * kernel_cols w * wn_in_c w) (kernel_rows w * (kernel_cols w * wn_in_c w))"
    using assms by (simp_all add: conv2d_ready_def)
  have small: "wn_in_h w < 536870912" "wn_in_w w < 536870912" "0 \<le> wn_in_c w" using window_okD [OF r(3)] by blast+
  have "wp (window_pixels w (\<lambda>n oh_g rows ow cols. for_int 0 (wn_out_c w) (conv2d_channel pl oper so w n oh_g ow rows cols)) h)
      (computes w (so_y so) (conv2d_code pl oper so w h) h)"
  proof (rule wp_window_pixels [OF r(3)])
    show "so_y so \<noteq> 0" using ok by (simp add: operands_ok_def)
    fix n oh ow rows cols oc h'
    assume n: "0 \<le> n" "n < wn_n w" and oh: "0 \<le> oh" "oh < wn_out_h w" and ow: "0 \<le> ow" "ow < wn_out_w w"
      and taps: "row_taps w oh rows" "col_taps w ow cols" and oc: "0 \<le> oc" "oc < wn_out_c w"
      and frame: "\<And>a. a \<notin> out_region w (so_y so) \<Longrightarrow> h' a = h a"
    have "adds (window_taps w rows cols (conv2d_tap pl so w h' n oc))
        (padded_sum w (row_base w oh) (col_base w ow) (conv2d_products pl so w h n oc))
        (kernel_rows w * (kernel_cols w * (wn_in_c w * 32640)))"
    proof (rule adds_window_taps [OF taps small(1, 2) adds_conv2d_tap [OF r(3) ok n oc]])
      show "0 \<le> wn_in_c w * 32640" using small(3) by simp
    qed (simp_all add: frame)
    then have sums: "adds (window_taps w rows cols (conv2d_tap pl so w h' n oc))
        (padded_sum w (row_base w oh) (col_base w ow) (conv2d_products pl so w h n oc))
        (kernel_rows w * (kernel_cols w * wn_in_c w) * 32640)" by (simp add: mult.assoc)
    have chan: "channel_ok pl so (kernel_rows w * (kernel_cols w * wn_in_c w)) oc" "is_i8 (so_output_zp so)"
      using ok oc by (simp_all add: operands_ok_def)
    show "conv2d_channel pl oper so w n (oh + wn_out_row_start w) ow rows cols oc h' =
        put_code h' (so_y so) (out_pos w n oh ow oc) (conv2d_code pl oper so w h n oh ow oc)"
      by (simp only: conv2d_channel_def channel_runs [OF chan sums] out_pos_in(1) [OF r(3) n oh ow oc]
          Option.bind.bind_lunit conv2d_code_def)
  qed
  then show ?thesis by (simp add: kern_conv2d_s8_def r)
qed

text \<open>Every tap of the last pixel is inside the input: \<open>0*1 + 1*2 + 2*3 + 3*4\<close>.\<close>

lemma conv2d_computes_witness:
  "wp (kern_conv2d_s8 small_plan small_op small_mem small_ram) (\<lambda>h'. h' 8227 = 20)"
proof (rule wp_mono [OF conv2d_computes [OF small_ready(1)]])
  fix h' assume "computes small_window (so_y small_operands)
    (conv2d_code small_plan small_op small_operands small_window small_ram) small_ram h'"
  moreover have "conv2d_code small_plan small_op small_operands small_window small_ram 0 1 1 0 = 20"
    by (simp add: conv2d_code_def padded_sum_def conv2d_products_def small_sizes sum_two sum_one pos4_def
        small_input small_weight small_mac rescaled_def clamp_act_def round_half_away_def)
  ultimately show "h' 8227 = 20" by (rule small_computes [where v = 20, simplified])
qed

text \<open>C40. The depthwise convolution: output channel \<open>oc\<close> is the convolution of the input channel
  \<open>oc / M\<close> alone, \<open>M\<close> the number of outputs per input channel, under the same conditions.\<close>

theorem depthwise_computes:
  assumes "depthwise_ready pl oper m so w multiplier"
  shows "wp (kern_depthwise_conv2d_s8 pl oper m h) (computes w (so_y so) (depthwise_code pl oper so w multiplier h) h)"
proof -
  have r: "s8_operands_of pl oper m = Some so" "tigris_window pl oper m = Some w" "window_ok w"
    and ok: "operands_ok pl so w (kernel_rows w * kernel_cols w * wn_out_c w) (kernel_rows w * kernel_cols w)"
    and c: "0 < wn_in_c w" "0 < multiplier" "wn_out_c w = multiplier * wn_in_c w" "wn_out_c w < 2147483648"
    using assms unfolding depthwise_ready_def by blast+
  have small: "wn_in_h w < 536870912" "wn_in_w w < 536870912" using window_okD [OF r(3)] by blast+
  have M: "sdiv32 (wn_out_c w) (wn_in_c w) = Some multiplier"
    using c sdiv32_nonneg [of "wn_out_c w" "wn_in_c w"] by simp
  have "wp (window_pixels w (\<lambda>n oh_g rows ow cols. for_int 0 (wn_out_c w) (depthwise_channel pl oper so w multiplier n oh_g ow rows cols)) h)
      (computes w (so_y so) (depthwise_code pl oper so w multiplier h) h)"
  proof (rule wp_window_pixels [OF r(3)])
    show "so_y so \<noteq> 0" using ok by (simp add: operands_ok_def)
    fix n oh ow rows cols oc h'
    assume n: "0 \<le> n" "n < wn_n w" and oh: "0 \<le> oh" "oh < wn_out_h w" and ow: "0 \<le> ow" "ow < wn_out_w w"
      and taps: "row_taps w oh rows" "col_taps w ow cols" and oc: "0 \<le> oc" "oc < wn_out_c w"
      and frame: "\<And>a. a \<notin> out_region w (so_y so) \<Longrightarrow> h' a = h a"
    let ?c = "oc div multiplier"
    have cdiv: "sdiv32 oc multiplier = Some ?c" using oc c(2, 4) by (intro sdiv32_nonneg) auto
    have "\<not> wn_in_c w \<le> ?c" using oc(2) c(2, 3) by (simp add: le_div_iff mult.commute)
    then have ic: "0 \<le> ?c" "?c < wn_in_c w" using oc c(2) by (simp_all add: pos_imp_zdiv_nonneg_iff)
    have "adds (window_taps w rows cols (depthwise_tap pl so w h' n ?c oc))
        (padded_sum w (row_base w oh) (col_base w ow) (depthwise_product pl so w h n ?c oc))
        (kernel_rows w * (kernel_cols w * 32640))"
      by (rule adds_window_taps [OF taps small adds_depthwise_tap [OF r(3) ok n ic oc]]) (simp_all add: frame)
    then have sums: "adds (window_taps w rows cols (depthwise_tap pl so w h' n ?c oc))
        (padded_sum w (row_base w oh) (col_base w ow) (depthwise_product pl so w h n ?c oc))
        (kernel_rows w * kernel_cols w * 32640)" by (simp add: mult.assoc)
    have chan: "channel_ok pl so (kernel_rows w * kernel_cols w) oc" "is_i8 (so_output_zp so)"
      using ok oc by (simp_all add: operands_ok_def)
    show "depthwise_channel pl oper so w multiplier n (oh + wn_out_row_start w) ow rows cols oc h' =
        put_code h' (so_y so) (out_pos w n oh ow oc) (depthwise_code pl oper so w multiplier h n oh ow oc)"
      by (simp only: depthwise_channel_def cdiv channel_runs [OF chan sums] out_pos_in(1) [OF r(3) n oh ow oc]
          Option.bind.bind_lunit depthwise_code_def)
  qed
  then show ?thesis by (simp add: kern_depthwise_conv2d_s8_def r M)
qed

lemma depthwise_computes_witness:
  "wp (kern_depthwise_conv2d_s8 small_plan small_op small_mem small_ram) (\<lambda>h'. h' 8227 = 20)"
proof (rule wp_mono [OF depthwise_computes [OF small_ready(2)]])
  fix h' assume "computes small_window (so_y small_operands)
    (depthwise_code small_plan small_op small_operands small_window 1 small_ram) small_ram h'"
  moreover have "depthwise_code small_plan small_op small_operands small_window 1 small_ram 0 1 1 0 = 20"
    by (simp add: depthwise_code_def padded_sum_def depthwise_product_def small_sizes sum_two pos4_def
        small_input small_weight small_mac rescaled_def clamp_act_def round_half_away_def)
  ultimately show "h' 8227 = 20" by (rule small_computes [where v = 20, simplified])
qed

text \<open>C8. The int8 transposed convolution is the scatter it inverts. For strides above 0 and under the
  conditions of the convolution, \<open>kern_conv_transpose_s8\<close> writes at every output position the
  requantized bias plus every product a forward scatter of the input adds there: tap \<open>(kh, kw)\<close> of input
  position \<open>(ih, iw)\<close> at \<open>(ih*SH + kh - PT, iw*SW + kw - PL)\<close>. No tap is missed and none counted twice,
  though the kernel looks for them by division.\<close>

theorem conv_transpose_scatters:
  assumes "conv_transpose_ready pl oper m so w"
  shows "wp (kern_conv_transpose_s8 pl oper m h) (computes w (so_y so) (conv_transpose_code pl oper so w h) h)"
proof -
  have r: "s8_operands_of pl oper m = Some so" "tigris_window pl oper m = Some w" "window_ok w"
    and ok: "operands_ok pl so w (wn_out_c w * kernel_rows w * kernel_cols w * wn_in_c w) (kernel_rows w * (kernel_cols w * wn_in_c w))"
    and w: "wn_stride_h w \<noteq> 0" "wn_stride_w w \<noteq> 0" "wn_out_h w < 1073741824" "wn_out_w w < 1073741824"
    and start: "wn_out_row_start w = 0"
    using assms by (simp_all add: conv_transpose_ready_def conv2d_ready_def)
  have y: "so_y so \<noteq> 0" using ok by (simp add: operands_ok_def)
  have "wp (for_int 0 (wn_n w) (\<lambda>n. for_int 0 (wn_out_h w) (\<lambda>oh. for_int 0 (wn_out_w w) (\<lambda>ow.
      for_int 0 (wn_out_c w) (conv_transpose_channel pl oper so w n oh ow)))) h)
      (computes w (so_y so) (conv_transpose_code pl oper so w h) h)"
  proof (rule computes_fills [OF fills_pixels [OF r(3) y] r(3)])
    fix n oh ow oc h'
    assume i: "0 \<le> n" "n < wn_n w" "0 \<le> oh" "oh < wn_out_h w" "0 \<le> ow" "ow < wn_out_w w" "0 \<le> oc" "oc < wn_out_c w"
      and frame: "\<And>a. a \<notin> out_region w (so_y so) \<Longrightarrow> h' a = h a"
    have sums: "adds (conv_transpose_taps pl so w h' n oh ow oc) (scatter_sum w oh ow (conv2d_products pl so w h n oc))
        (kernel_rows w * (kernel_cols w * wn_in_c w) * 32640)"
      using adds_conv_transpose [OF r(3) ok w i frame] by (simp add: mult.assoc)
    have chan: "channel_ok pl so (kernel_rows w * (kernel_cols w * wn_in_c w)) oc" "is_i8 (so_output_zp so)"
      using ok i by (simp_all add: operands_ok_def)
    show "conv_transpose_channel pl oper so w n oh ow oc h' =
        put_code h' (so_y so) (out_pos w n oh ow oc) (conv_transpose_code pl oper so w h n oh ow oc)"
      by (simp only: conv_transpose_channel_def channel_runs [OF chan sums] out_pos_in(1) [OF r(3) i, unfolded start add_0_right]
          Option.bind.bind_lunit conv_transpose_code_def)
  qed
  then show ?thesis by (simp add: kern_conv_transpose_s8_def r)
qed

text \<open>Of the transposed convolution the last pixel gets one product, the last weight times the last code.\<close>

lemma conv_transpose_scatters_witness:
  "wp (kern_conv_transpose_s8 small_plan small_op small_mem small_ram) (\<lambda>h'. h' 8227 = 12)"
proof (rule wp_mono [OF conv_transpose_scatters [OF small_ready(3)]])
  fix h' assume "computes small_window (so_y small_operands)
    (conv_transpose_code small_plan small_op small_operands small_window small_ram) small_ram h'"
  moreover have "conv_transpose_code small_plan small_op small_operands small_window small_ram 0 1 1 0 = 12"
    by (simp add: conv_transpose_code_def scatter_sum_def conv2d_products_def small_sizes sum_two sum_one pos4_def
        small_input small_weight small_mac rescaled_def clamp_act_def round_half_away_def)
  ultimately show "h' 8227 = 12" by (rule small_computes [where v = 12, simplified])
qed

end
