(* ===== verification/Spec2Isabelle.thy ===== *)
theory Spec2Isabelle
  imports Prelude Lz4 Arena Plan_Format Loader_Sections Loader_Layout Loader_Tables
    Loader_Properties Tiles Arena_Budget Compaction
    Fixed_Point Softmax_S8 Log_Softmax_S8 Lstm_S8 Schedule Weights Subgraphs Subgraph_Depth
    Op_Contract Attributes Workspace_Limits Workspace
    Control_Flow Control_Runs Control_Refinement Control_Progress Executor_Run
    Transpose_Groups Transpose_Kernel Transpose_Walk Transpose_Execute
    Transpose_Stage Transpose_Bands Transpose_Conversion Transpose_Loop Transpose_Geometry Transpose_Banded
    Kernel_Window Window_S8 Window_Sums Window_Walk Conv_S8 Conv_Transpose_S8 Conv_Properties
begin

text \<open>
  A verified model of the TiGrIS runtime, a C library that loads a compiled plan (a \<open>.tgrs\<close> file) and
  runs a neural network stage by stage in two memory arenas its caller owns. File names below are
  those of the repository.

  \<^bold>\<open>The program.\<close> \<open>tigris_plan_load\<close> (\<open>src/tigris_loader.c\<close>) checks a byte buffer and publishes a
  handle of pointers into it, \<open>tigris_plan_t\<close> (\<open>include/tigris.h\<close>). \<open>tigris_mem_init\<close>
  (\<open>src/tigris_mem.c\<close>) sets up a fast and a slow arena and a table of tensor pointers. A run
  (\<open>src/tigris_executor.c\<close>) walks the plan's stages: it brings a stage's inputs to the fast arena,
  whole or in tiles, decompresses its weights (\<open>src/tigris_lz4.c\<close>), calls a kernel for each operator
  (\<open>src/tigris_kernels*.c\<close>), spills the outputs to the slow arena, and follows If and While operators
  into other graphs of the plan. Nothing is checked again after loading: the executor and the
  kernels index the plan's tables on the strength of what the loader accepted.

  \<^bold>\<open>How C is modelled\<close> (\<open>Prelude\<close>). Integers keep their width: unsigned ones are words, which wrap;
  signed ones are mathematical integers whose overflow is undefined. A computation has an option
  type and \<open>None\<close> is undefined behaviour: an access outside an object, an overlapping \<open>memcpy\<close>, a
  signed overflow, a division by zero; for a loop written as a \<open>partial_function\<close>, also that it does
  not end. An error code is a value, \<open>Inl\<close>, and an early return is a branch. So a theorem
  \<open>wp (f x) P\<close> says that \<open>f x\<close> is defined, ends, and ends in \<open>P\<close>, and a theorem about
  \<open>f x = Some y\<close> starts from an execution that ended. Counted loops are \<open>for_range\<close> and \<open>loop\<close>, with
  the bound the code has; no fuel is chosen anywhere.

  \<^bold>\<open>The parts, and what is shown of each.\<close>

  \<^item> \<open>Lz4\<close>: the block decoder. It reads and writes only inside its buffers on any input, and inverts
    every encoding of the format.
  \<^item> \<open>Plan_Format\<close>: the wire structures of \<open>include/tigris.h\<close> as records with decoders, the handle and
    its accessors. The locale \<open>record_table\<close> is the contract of a table of fixed-size records; it is
    interpreted for every structure of the format.
  \<^item> \<open>Loader_Sections\<close>, \<open>Loader_Layout\<close>, \<open>Loader_Tables\<close>, \<open>Loader_Properties\<close>: the first three phases
    of the loader: header, section directory, optional sections, pools, tensors. They read only
    inside the buffer whatever it holds; the sections of an accepted file are disjoint; an accepted
    tensor has exactly the size its extents say; the header gate is exact.
  \<^item> \<open>Schedule\<close>, \<open>Weights\<close>, \<open>Attributes\<close>, \<open>Op_Contract\<close>: the stage table, the weights and their blocks,
    state variables, operator references and attributes, the operator contract table. The stages of
    an accepted plan run every operator once and in order; chains are disjoint; the weights a stage
    reads lie inside its decoded block and apart; attributes are strictly ordered, present where
    required; each state tensor plays one role.
  \<^item> \<open>Subgraphs\<close>, \<open>Subgraph_Depth\<close>: \<open>validate_subgraphs\<close>. Graphs partition the stages and share no
    tensor; the depth walk, a loop without a stack or a bound, ends with the nesting depth that a
    recursive definition gives.
  \<^item> \<open>Arena\<close>, \<open>Tiles\<close>, \<open>Arena_Budget\<close>: the memory manager. Allocations are disjoint, aligned and succeed
    exactly when there is room; a spill and a load give the bytes back; a row band or a rectangle of
    a tensor is gathered and scattered position by position; the stated requirement of a plan is
    exact.
  \<^item> \<open>Compaction\<close>: the executor's compaction of a pool. Live tensors keep their bytes and aliases stay
    aliases; no gap is left.
  \<^item> \<open>Workspace_Limits\<close>, \<open>Workspace\<close>: the arrays of a run, carved out of one caller buffer. The limits
    cover every stage and chain of an accepted plan, and a buffer of the size the formula asks for
    holds all arrays, at any address, on 32-bit and 64-bit targets.
  \<^item> \<open>Control_Flow\<close>, \<open>Control_Runs\<close>, \<open>Control_Refinement\<close>, \<open>Control_Progress\<close>: If and While, and the stage
    loop of \<open>tigris_run_with_state\<close>, which keeps the running operators on a stack of frames in the
    workspace. It refines a recursive interpreter without a stack (\<open>structured\<close>), through a machine
    whose stack is a list; the frames never overflow; only a While that keeps answering true runs
    for ever.
  \<^item> \<open>Executor_Run\<close>: the checks before a run, its reset floor, the variables kept between runs, and its
    exit. Every outcome hands the fast arena back without stale pointers, and the state buffer
    changes only as the plan says.
  \<^item> \<open>Transpose_Groups\<close>, \<open>Transpose_Kernel\<close>, \<open>Transpose_Walk\<close>, \<open>Transpose_Execute\<close>: the transpose kernel
    (\<open>tigris_transpose_execute\<close> of \<open>src/tigris_kernels.c\<close>), which moves elements of any type, and the
    permutations a band can execute (\<open>src/tigris_transpose_band.h\<close>). Those are recognised exactly;
    the kernel, whose walk carries an odometer and a 32-bit index, writes each element at its
    permuted coordinates and nothing else, for ranks 1 to 8; at rank 0 the walk is undefined.
  \<^item> \<open>Transpose_Stage\<close>, \<open>Transpose_Bands\<close>, \<open>Transpose_Conversion\<close>, \<open>Transpose_Loop\<close>, \<open>Transpose_Geometry\<close>,
    \<open>Transpose_Banded\<close>: the stage that runs a transpose too large for the fast arena a band at a time
    (\<open>exec_stage_tiled_transpose\<close> of \<open>src/tigris_executor.c\<close>). The search finds the longest band of
    which two slices fit; each round is proved in the locale \<open>slice_kernel\<close>, for any kernel that turns
    slices, and the transpose kernel is one. Together: the stage leaves the permuted tensor, whatever the
    number of bands, for operands below 1 GiB, or fails for want of room and changes nothing.
  \<^item> \<open>Fixed_Point\<close>, \<open>Softmax_S8\<close>, \<open>Log_Softmax_S8\<close>, \<open>Lstm_S8\<close>: the integer arithmetic of
    \<open>src/tigris_kernels_s8.c\<close>: the requantization every int8 kernel ends with is an exact rounding,
    a Softmax row stays in its types and keeps the order of its classes (up to the number of classes
    where its 32-bit sum wraps, which is also shown), a LogSoftmax row is defined, the gate
    functions of the LSTM interpolate their tables exactly and are monotone.
  \<^item> \<open>Kernel_Window\<close>, \<open>Window_S8\<close>, \<open>Window_Sums\<close>, \<open>Window_Walk\<close>, \<open>Conv_S8\<close>, \<open>Conv_Transpose_S8\<close>,
    \<open>Conv_Properties\<close>: the sizes of a window operator, whole or under a tile
    (\<open>src/tigris_kernel_window.h\<close>), and the int8 convolutions. A loop that accumulates in 32 bits and a
    loop that fills the output have one rule each (\<open>adds\<close>, \<open>fills\<close>); with them each kernel is shown
    to write the requantized sum of products its definition names, for any stride, dilation, pad and
    tile whose sizes fit 32 bits and whose accumulators cannot overflow: no tap is missed although the
    loops test no bounds, and the transposed convolution, which looks for its taps by division, is the
    scatter it inverts.

  \<^bold>\<open>How the parts meet.\<close> The loader's theorems end in the facts the executor's begin with:
    \<open>stage_ok\<close> and the graph tables (\<open>runnable\<close> in \<open>Control_Refinement\<close>) for control flow, the stage
    scan for the workspace limits (\<open>workspace_limits_cover\<close>), the nesting depth for the frames
    (\<open>frames_never_overflow\<close>), the checks of the state section for a run's variables
    (\<open>locate_state_apart\<close>). The theorems about the executor's memory rest on those about the arenas.

  \<^bold>\<open>Not modelled.\<close>

  \<^item> The execution of a single stage or chain, and the routing that chooses its path: arguments
    \<open>re_stage\<close> and \<open>re_chain\<close> of the stage loop, about which nothing is assumed. The transfers and the
    compaction they are made of are modelled, and of the paths of a stage the banded transpose.
  \<^item> In the loader: the check of one attribute's payload (the argument \<open>value\<close> of \<open>Attributes\<close>), the
    tiling checks at the end of \<open>validate_stage\<close>, and the shape rules of single operators.
  \<^item> The band geometry of \<open>src/tigris_band.c\<close>, apart from the extents of a transpose.
  \<^item> Kernels in floating point (the rest of \<open>src/tigris_kernels.c\<close>), conversions of scales from \<open>float\<close>, and the
    model interface \<open>src/tigris_iface.c\<close>, which quantizes \<open>float\<close> values: there is no floating-point
    theory in the library used here.
  \<^item> Of the int8 kernels the convolutions, Softmax, LogSoftmax and what they share; the other loops over
    tensors are not modelled.
  \<^item> The bindings to CMSIS-NN and ESP-NN, whose work is done by those libraries, and the trace and
    debug output, which is compiled out.
  \<^item> The build is the default one for x86-64: tensors aligned to 32 bytes, the limits of
    \<open>include/tigris_config.h\<close>. Addresses do not wrap, except in the workspace, whose theorems are
    about words.
\<close>

end
